(* ===== verification/Prelude.thy ===== *)
theory Prelude
  imports Main "HOL-Library.Word" "HOL-Library.Multiset" "HOL-Library.Monad_Syntax"
begin

unbundle bit_operations_syntax

text \<open>
  Shared vocabulary of the development: the machine types of the modelled platform (64-bit
  Windows, where \<open>unsigned long\<close> has 32 bits and \<open>size_t\<close> has 64), arrays as lists with
  checked accesses, byte order, C's \<open>int\<close> arithmetic, and the lemmas on lists and words that
  the component theories use.
\<close>

section \<open>Machine types\<close>

type_synonym u8 = "8 word"
type_synonym u16 = "16 word"
type_synonym u32 = "32 word"
type_synonym u64 = "64 word"

abbreviation u8_of_u32 :: "u32 \<Rightarrow> u8" where "u8_of_u32 \<equiv> ucast"
abbreviation u32_of_u8 :: "u8 \<Rightarrow> u32" where "u32_of_u8 \<equiv> ucast"
abbreviation u32_of_u64 :: "u64 \<Rightarrow> u32" where "u32_of_u64 \<equiv> ucast"
abbreviation u64_of_u32 :: "u32 \<Rightarrow> u64" where "u64_of_u32 \<equiv> ucast"

named_theorems mem_simps \<open>checked reads and writes of an array\<close>
named_theorems be_simps \<open>byte order\<close>

lemma unat_u64_of_u32 [simp]: "unat (u64_of_u32 n) = unat n"
proof -
  have "unat n < 2 ^ LENGTH(32)" by (rule unsigned_less)
  moreover have "(2 :: nat) ^ LENGTH(32) \<le> 2 ^ LENGTH(64)" by (rule power_increasing) simp_all
  ultimately have "unat n < 2 ^ LENGTH(64)" by (rule less_le_trans)
  then show ?thesis by (simp only: unsigned_ucast_eq take_bit_nat_eq_self)
qed

lemma unat_u32_of_u64: "unat x < 2 ^ 32 \<Longrightarrow> unat (u32_of_u64 x) = unat x"
  by (simp add: unsigned_ucast_eq take_bit_nat_eq_self)

text \<open>The value of an \<open>int\<close> that holds a small number.\<close>

lemma sint_small:
  assumes "unat (n :: u32) < 2 ^ 31"
  shows "sint n = int (unat n)"
proof -
  have "int (unat n) < int (2 ^ 31)" by (simp only: of_nat_less_iff assms)
  then have "uint n < 2 ^ 31" by simp
  then have "signed_take_bit 31 (uint n) = uint n"
    using uint_ge_0 [of n] by (intro signed_take_bit_int_eq_self) linarith+
  then show ?thesis by (simp add: sint_uint)
qed

text \<open>The return code of a failed allocation.\<close>

definition ENOMEM :: int where "ENOMEM = 12"

section \<open>Arrays\<close>

text \<open>
  A C array is a list of its cells. A read or write outside it is undefined behaviour in C;
  here it is \<open>None\<close>, so a theorem that a routine returns \<open>Some\<close> also says that every access
  it makes is in range.
\<close>

definition rd :: "'a list \<Rightarrow> nat \<Rightarrow> 'a option" where
  "rd xs i = (if i < length xs then Some (xs ! i) else None)"

definition wr :: "'a list \<Rightarrow> nat \<Rightarrow> 'a \<Rightarrow> 'a list option" where
  "wr xs i v = (if i < length xs then Some (xs[i := v]) else None)"

lemma rd_in [mem_simps]: "i < length xs \<Longrightarrow> rd xs i = Some (xs ! i)"
  by (simp add: rd_def)

lemma wr_in [mem_simps]: "i < length xs \<Longrightarrow> wr xs i v = Some (xs[i := v])"
  by (simp add: wr_def)

lemma rd_out [mem_simps]: "length xs \<le> i \<Longrightarrow> rd xs i = None"
  by (simp add: rd_def)

lemma wr_out [mem_simps]: "length xs \<le> i \<Longrightarrow> wr xs i v = None"
  by (simp add: wr_def)

text \<open>\<open>memcpy\<close> of a whole list to an offset of an array, when it fits.\<close>

definition blit :: "'a list \<Rightarrow> nat \<Rightarrow> 'a list \<Rightarrow> 'a list" where
  "blit xs i ys = take i xs @ ys @ drop (i + length ys) xs"

lemma length_blit [simp]:
  "i + length ys \<le> length xs \<Longrightarrow> length (blit xs i ys) = length xs"
  by (simp add: blit_def)

lemma blit_Nil [simp]: "blit xs i [] = xs"
  by (simp add: blit_def)

lemma take_blit_same [simp]:
  "i \<le> length xs \<Longrightarrow> take (i + length ys) (blit xs i ys) = take i xs @ ys"
  by (simp add: blit_def)

lemma take_blit_0 [simp]: "take (length ys) (blit xs 0 ys) = ys"
  by (simp add: blit_def)

lemma blit_full: "i + length ys = length xs \<Longrightarrow> blit xs i ys = take i xs @ ys"
  by (simp add: blit_def)

lemma nth_blit:
  "i + length ys \<le> length xs \<Longrightarrow> j < length xs \<Longrightarrow>
   blit xs i ys ! j = (if j < i then xs ! j else if j < i + length ys then ys ! (j - i) else xs ! j)"
  by (auto simp: blit_def nth_append)

lemma drop_blit_after [simp]:
  "i + length ys \<le> k \<Longrightarrow> i + length ys \<le> length xs \<Longrightarrow> drop k (blit xs i ys) = drop k xs"
  by (simp add: blit_def drop_append)

lemma take_blit_before [simp]:
  "k \<le> i \<Longrightarrow> i \<le> length xs \<Longrightarrow> take k (blit xs i ys) = take k xs"
  by (simp add: blit_def min_def)

lemma take_drop_blit_before:
  "k + n \<le> i \<Longrightarrow> i \<le> length xs \<Longrightarrow> take n (drop k (blit xs i ys)) = take n (drop k xs)"
  using take_blit_before [of "k + n" i xs ys] by (simp only: take_drop add.commute)

lemma take_drop_blit_same:
  "i + length ys \<le> length xs \<Longrightarrow> take (length ys) (drop i (blit xs i ys)) = ys"
  by (simp add: blit_def)

lemma blit_blit:
  "i + length ys \<le> length xs \<Longrightarrow> blit (blit xs i ys) (i + length ys) zs = blit xs i (ys @ zs)"
  by (simp add: blit_def ac_simps)

lemma in_set_take: "x \<in> set (take i xs) \<Longrightarrow> i \<le> length xs \<Longrightarrow> \<exists>k < i. x = xs ! k"
  by (force simp: in_set_conv_nth)

text \<open>What an uninitialised object on the stack holds: arbitrary bytes and words.\<close>

record stack_mem =
  sk8 :: "nat \<Rightarrow> u8"
  sk32 :: "nat \<Rightarrow> u32"

text \<open>One such stack, for examples: the fill pattern of a debug build.\<close>

definition stack_cc :: stack_mem where
  "stack_cc = \<lparr>sk8 = (\<lambda>_. 0xCC), sk32 = (\<lambda>_. 0xCCCCCCCC)\<rparr>"

section \<open>Byte order\<close>

text \<open>The macros \<open>GET_UINT32_BE\<close> and \<open>PUT_UINT32_BE\<close> and their clones.\<close>

definition get_be :: "u8 list \<Rightarrow> nat \<Rightarrow> u32" where
  "get_be b i =
     push_bit 24 (u32_of_u8 (b ! i)) OR push_bit 16 (u32_of_u8 (b ! (i + 1)))
     OR push_bit 8 (u32_of_u8 (b ! (i + 2))) OR u32_of_u8 (b ! (i + 3))"

definition put_be :: "u32 \<Rightarrow> u8 list" where
  "put_be n = [ucast (drop_bit 24 n), ucast (drop_bit 16 n), ucast (drop_bit 8 n), ucast n]"

lemma length_put_be [simp]: "length (put_be n) = 4"
  by (simp add: put_be_def)

lemma byte_position:
  fixes k :: nat
  assumes "k < 32"
  obtains "k < 8" | "8 \<le> k" "k < 16" | "16 \<le> k" "k < 24" | "24 \<le> k" "k < 32"
  using assms by linarith

lemma get_put_be [be_simps]: "get_be (put_be n @ xs) 0 = n"
proof (rule bit_word_eqI)
  fix k assume "k < LENGTH(32)"
  then have "k < 32" by simp
  then show "bit (get_be (put_be n @ xs) 0) k = bit n k"
    by (rule byte_position) (auto simp: get_be_def put_be_def bit_simps)
qed

lemma u8_bit_high [simp]: "8 \<le> k \<Longrightarrow> \<not> bit (b :: u8) k"
  using bit_imp_le_length [of b k] by auto

lemma put_get_be [be_simps]: "put_be (get_be [a, b, c, d] 0) = [a, b, c, d]"
  unfolding get_be_def put_be_def
  by (simp; intro conjI; rule bit_word_eqI)
    (auto simp: bit_simps)

section \<open>Rotations and shifts\<close>

lemma and_all_ones [simp]: "(x :: u32) AND 0xFFFFFFFF = x"
proof -
  have ones: "(0xFFFFFFFF :: u32) = -1" by simp
  show ?thesis by (simp only: ones and.right_neutral)
qed

text \<open>The rotation written with two shifts, as C programs write it, for a count strictly inside
  the word. \<open>word_rotl\<close> and \<open>word_rotr\<close> are the library's rotations.\<close>

lemma shifts_rotl:
  "0 < n \<Longrightarrow> n < 32 \<Longrightarrow> push_bit n x OR drop_bit (32 - n) x = word_rotl n (x :: u32)"
proof (rule bit_word_eqI)
  assume n: "0 < n" "n < 32"
  fix k assume "k < LENGTH(32)"
  then have k: "k < 32" by simp
  have "(k + (32 - n)) mod 32 = (if k < n then k + (32 - n) else k - n)"
    using n k by (auto simp: le_mod_geq)
  then have "bit (word_rotl n x) k = bit x (if k < n then k + (32 - n) else k - n)"
    using n k by (simp add: bit_word_rotl_iff)
  moreover have "bit (push_bit n x OR drop_bit (32 - n) x) k
      = (n \<le> k \<and> bit x (k - n) \<or> bit x (k + (32 - n)))"
    using k by (simp add: bit_simps add.commute)
  moreover have "\<not> bit x (k + (32 - n))" if "n \<le> k"
    using that n by (auto dest: bit_imp_le_length)
  ultimately show "bit (push_bit n x OR drop_bit (32 - n) x) k = bit (word_rotl n x) k"
    by auto
qed

text \<open>
  The C standard leaves a shift by a negative count, or by the width or more, undefined. What
  the compiled code does then is a parameter; \<open>masks_count\<close> is the behaviour of the shift
  instructions of x86, which use the low five bits of the count.
\<close>

record ub_shift =
  ub_shl :: "u32 \<Rightarrow> int \<Rightarrow> u32"
  ub_shr :: "u32 \<Rightarrow> int \<Rightarrow> u32"

definition c_shl :: "ub_shift \<Rightarrow> u32 \<Rightarrow> int \<Rightarrow> u32" where
  "c_shl us x n = (if 0 \<le> n \<and> n < 32 then push_bit (nat n) x else ub_shl us x n)"

definition c_shr :: "ub_shift \<Rightarrow> u32 \<Rightarrow> int \<Rightarrow> u32" where
  "c_shr us x n = (if 0 \<le> n \<and> n < 32 then drop_bit (nat n) x else ub_shr us x n)"

definition x86_shift :: ub_shift where
  "x86_shift = \<lparr>ub_shl = (\<lambda>x n. push_bit (nat (n mod 32)) x),
               ub_shr = (\<lambda>x n. drop_bit (nat (n mod 32)) x)\<rparr>"

definition masks_count :: "ub_shift \<Rightarrow> bool" where
  "masks_count us \<longleftrightarrow> (\<forall>x n. ub_shl us x n = push_bit (nat (n mod 32)) x
     \<and> ub_shr us x n = drop_bit (nat (n mod 32)) x)"

lemma masks_count_x86: "masks_count x86_shift"
  by (simp add: masks_count_def x86_shift_def)

lemma c_shl_masked: "masks_count us \<Longrightarrow> c_shl us x n = push_bit (nat (n mod 32)) x"
  by (simp add: c_shl_def masks_count_def)

lemma c_shr_masked: "masks_count us \<Longrightarrow> c_shr us x n = drop_bit (nat (n mod 32)) x"
  by (simp add: c_shr_def masks_count_def)

text \<open>The mirror image, for rotations to the right.\<close>

lemma shifts_rotr:
  assumes "0 < n" "n < 32"
  shows "drop_bit n x OR push_bit (32 - n) x = word_rotr n (x :: u32)"
proof -
  have "word_rotl (32 - n) x = word_rotr n x"
  proof (rule bit_word_eqI)
    fix k assume "k < LENGTH(32)"
    then have k: "k < 32" by simp
    have "k + (32 - (32 - n)) = k + n" "(32 - n) mod 32 = 32 - n" using assms by simp_all
    then show "bit (word_rotl (32 - n) x) k = bit (word_rotr n x) k"
      using k assms by (simp add: bit_word_rotl_iff bit_word_rotr_iff add.commute)
  qed
  then show ?thesis using shifts_rotl [of "32 - n" x] assms by (simp add: or.commute)
qed

lemma of_nat_32_0: "length xs < 2 ^ 32 \<Longrightarrow> (of_nat (length xs) :: u32) = 0 \<longleftrightarrow> xs = []"
  by (simp add: word_of_nat_eq_0_iff) (auto dest: nat_dvd_not_less)

text \<open>For evaluating word arithmetic on numerals: reduce a numeral to its width.\<close>

lemma u32_reduce:
  assumes "4294967296 \<le> (numeral k :: nat)"
  shows "(numeral k :: u32) = of_nat (numeral k mod 4294967296)"
proof -
  have "(of_nat (n mod 2 ^ 32) :: u32) = of_nat n" for n
    by (simp only: word_of_nat_eq_iff take_bit_eq_mod) simp
  from this [of "numeral k"] show ?thesis by simp
qed

end
