(* ===== verification/Md_Hash.thy ===== *)
theory Md_Hash
  imports Prelude
begin

text \<open>
  What the three hash modules under \<open>Common/\<close> (\<open>sm3.c\<close>, \<open>sha1.c\<close>, \<open>sha256.c\<close>) share.

  The first half is a reference machine: a counter of two 32-bit words, a chaining state and a
  64-byte buffer, with the buffering of the C \<open>*_update\<close> and the padding of the C \<open>*_finish\<close>.
  \<open>md_absorbed\<close> is its abstract meaning (the message fed so far), and the lemmas show that the
  machine computes the hash of the padded message, whatever the pieces it was fed in. The second
  half states two interfaces as locales: \<open>stream_hash\<close>, what a caller of a hash relies on, and
  \<open>hmac_hash\<close>, a keyed hash built from one. The hash theories interpret both.
\<close>

unbundle bit_operations_syntax

named_theorems md_simps \<open>the machine's counters as functions of the message length\<close>

section \<open>Blocks of a message\<close>

fun chunks :: "'a list \<Rightarrow> 'a list list" where
  "chunks xs = (if length xs < 64 then [] else take 64 xs # chunks (drop 64 xs))"

fun leftover :: "'a list \<Rightarrow> 'a list" where
  "leftover xs = (if length xs < 64 then xs else leftover (drop 64 xs))"

declare chunks.simps [simp del] leftover.simps [simp del]

lemma chunks_short [simp]: "length xs < 64 \<Longrightarrow> chunks xs = []"
  by (simp add: chunks.simps)

lemma leftover_short [simp]: "length xs < 64 \<Longrightarrow> leftover xs = xs"
  by (simp add: leftover.simps)

lemma chunks_block: "length b = 64 \<Longrightarrow> chunks (b @ xs) = b # chunks xs"
  by (subst chunks.simps) simp

lemma leftover_block: "length b = 64 \<Longrightarrow> leftover (b @ xs) = leftover xs"
  by (subst leftover.simps) simp

lemma length_leftover: "length (leftover xs) = length xs mod 64"
proof (induction xs rule: leftover.induct)
  case (1 xs)
  then show ?case
    by (cases "length xs < 64") (simp_all add: leftover.simps [of xs] le_mod_geq)
qed

lemma leftover_lt [simp]: "length (leftover xs) < 64"
  by (simp add: length_leftover)

lemma chunks_append: "chunks (xs @ ys) = chunks xs @ chunks (leftover xs @ ys)"
proof (induction xs rule: chunks.induct)
  case (1 xs)
  show ?case
  proof (cases "length xs < 64")
    case False
    then show ?thesis
      using 1 by (simp add: chunks.simps [of "xs @ ys"] chunks.simps [of xs] leftover.simps [of xs])
  qed simp
qed

lemma leftover_append: "leftover (xs @ ys) = leftover (leftover xs @ ys)"
proof (induction xs rule: leftover.induct)
  case (1 xs)
  show ?case
  proof (cases "length xs < 64")
    case False
    then show ?thesis
      using 1 by (simp add: leftover.simps [of "xs @ ys"] leftover.simps [of xs])
  qed simp
qed

text \<open>The C loop \<open>while (ilen >= 64) { process(input); input += 64; ilen -= 64; }\<close>.\<close>

fun absorb_blocks :: "('s \<Rightarrow> 'a list \<Rightarrow> 's) \<Rightarrow> 's \<Rightarrow> 'a list \<Rightarrow> 's \<times> 'a list" where
  "absorb_blocks f s input =
     (if 64 \<le> length input then absorb_blocks f (f s (take 64 input)) (drop 64 input)
      else (s, input))"

declare absorb_blocks.simps [simp del]

lemma absorb_blocks_eq: "absorb_blocks f s xs = (foldl f s (chunks xs), leftover xs)"
proof (induction f s xs rule: absorb_blocks.induct)
  case (1 f s xs)
  show ?case
    by (cases "64 \<le> length xs")
      (simp_all add: 1 absorb_blocks.simps [of f s xs] chunks.simps [of xs] leftover.simps [of xs])
qed

lemma absorb_blocks_map:
  assumes "\<And>c b. P c \<Longrightarrow> g (f c b) = f' (g c) b" and "\<And>c b. P c \<Longrightarrow> P (f c b)" and "P c"
  shows "g (fst (absorb_blocks f c xs)) = fst (absorb_blocks f' (g c) xs)
    \<and> snd (absorb_blocks f c xs) = snd (absorb_blocks f' (g c) xs)
    \<and> P (fst (absorb_blocks f c xs))"
proof -
  have "g (foldl f c bs) = foldl f' (g c) bs \<and> P (foldl f c bs)" for bs
    using assms(3) by (induction bs arbitrary: c) (simp_all add: assms(1,2))
  then show ?thesis by (simp add: absorb_blocks_eq)
qed

section \<open>The reference machine\<close>

record md_core =
  mc_t0 :: u32
  mc_t1 :: u32
  mc_st :: "u32 list"
  mc_buf :: "u8 list"

definition count_bytes :: "nat \<Rightarrow> u32 \<times> u32 \<Rightarrow> u32 \<times> u32" where
  "count_bytes n = (\<lambda>(t0, t1).
     let t0' = t0 + of_nat n in (t0', if t0' < of_nat n then t1 + 1 else t1))"

definition md_update :: "(u32 list \<Rightarrow> u8 list \<Rightarrow> u32 list) \<Rightarrow> md_core \<Rightarrow> u8 list \<Rightarrow> md_core" where
  "md_update cf k input =
     (if input = [] then k
      else
        let left = unat (mc_t0 k AND 0x3F);
            fill = 64 - left;
            (t0, t1) = count_bytes (length input) (mc_t0 k, mc_t1 k);
            (st, buf, input, left) =
              (if left \<noteq> 0 \<and> fill \<le> length input
               then let buf = blit (mc_buf k) left (take fill input)
                    in (cf (mc_st k) buf, buf, drop fill input, 0)
               else (mc_st k, mc_buf k, input, left));
            (st, input) = absorb_blocks cf st input
        in \<lparr>mc_t0 = t0, mc_t1 = t1, mc_st = st,
            mc_buf = (if input \<noteq> [] then blit buf left input else buf)\<rparr>)"

definition md_padding :: "u8 list" where
  "md_padding = 0x80 # replicate 63 0"

definition md_msglen :: "u32 \<Rightarrow> u32 \<Rightarrow> u8 list" where
  "md_msglen t0 t1 = put_be (drop_bit 29 t0 OR push_bit 3 t1) @ put_be (push_bit 3 t0)"

definition md_padn :: "u32 \<Rightarrow> nat" where
  "md_padn t0 = (let last = unat (t0 AND 0x3F) in if last < 56 then 56 - last else 120 - last)"

definition md_close :: "(u32 list \<Rightarrow> u8 list \<Rightarrow> u32 list) \<Rightarrow> md_core \<Rightarrow> md_core" where
  "md_close cf k =
     md_update cf (md_update cf k (take (md_padn (mc_t0 k)) md_padding))
       (md_msglen (mc_t0 k) (mc_t1 k))"

text \<open>The message a state of the machine has absorbed.\<close>

definition md_absorbed ::
  "(u32 list \<Rightarrow> u8 list \<Rightarrow> u32 list) \<Rightarrow> u32 list \<Rightarrow> u8 list \<Rightarrow> md_core \<Rightarrow> bool" where
  "md_absorbed cf iv m k \<longleftrightarrow>
     mc_t0 k = of_nat (length m) \<and> mc_t1 k = of_nat (length m div 2 ^ 32)
     \<and> mc_st k = foldl cf iv (chunks m)
     \<and> length (mc_buf k) = 64 \<and> take (length m mod 64) (mc_buf k) = leftover m"

text \<open>The padded message of the standards: a one bit, zeros, and the bit length in 64 bits.\<close>

definition md_pad :: "nat \<Rightarrow> u8 list" where
  "md_pad n = 0x80 # replicate ((119 - n mod 64) mod 64) 0
     @ put_be (of_nat (8 * n div 2 ^ 32)) @ put_be (of_nat (8 * n))"

definition md_digest ::
  "(u32 list \<Rightarrow> u8 list \<Rightarrow> u32 list) \<Rightarrow> u32 list \<Rightarrow> u8 list \<Rightarrow> u32 list" where
  "md_digest cf iv m = foldl cf iv (chunks (m @ md_pad (length m)))"

section \<open>The machine computes the digest\<close>

lemma unat_and_63: "unat (w AND 0x3F) = unat (w::u32) mod 64"
proof -
  have "w AND 0x3F = take_bit 6 w" by (simp add: take_bit_eq_mask mask_eq_exp_minus_1)
  moreover have "unat (take_bit 6 w) = unat w mod 64"
    by (simp only: unsigned_take_bit_eq) (simp add: take_bit_eq_mod)
  ultimately show ?thesis by simp
qed

lemma low6_of_nat [md_simps]: "unat ((of_nat n :: u32) AND 0x3F) = n mod 64"
proof -
  have "n mod 2 ^ 32 mod 64 = n mod (64::nat)" by (rule mod_mod_cancel) simp
  then show ?thesis by (simp add: unat_and_63 unat_of_nat)
qed

lemma div_carry:
  fixes M :: nat
  assumes "x < M"
  shows "(n + x) div M = n div M + (if (n + x) mod M < x then 1 else 0)"
proof (cases "n mod M + x < M")
  case True
  then have "(n + x) mod M = n mod M + x" by (metis mod_add_left_eq mod_less)
  with True assms show ?thesis by (simp add: div_add1_eq [of n x])
next
  case False
  let ?r = "n mod M + x - M"
  have r: "?r < M" "?r < x" using assms False by (auto simp: less_diff_conv2 intro: add_strict_mono)
  have "n + x = (n div M + 1) * M + ?r"
    using False by (simp add: add.commute)
  then have "(n + x) div M = n div M + 1" "(n + x) mod M = ?r"
    using r by (auto simp: div_mult_self3 simp del: mult_Suc)
  with r show ?thesis by simp
qed

lemma count_bytes_eq:
  assumes "x < 2 ^ 32"
  shows "count_bytes x (of_nat n, of_nat (n div 2 ^ 32))
    = (of_nat (n + x), of_nat ((n + x) div 2 ^ 32))"
proof -
  let ?t = "of_nat n + of_nat x :: u32"
  have t: "unat ?t = (n + x) mod 2 ^ 32"
    by (simp add: unat_of_nat flip: of_nat_add)
  have x: "unat (of_nat x :: u32) = x" using assms by (simp add: unat_of_nat)
  have carry: "?t < of_nat x \<longleftrightarrow> (n + x) mod 2 ^ 32 < x"
    by (simp only: word_less_nat_alt t x)
  show ?thesis unfolding count_bytes_def Let_def split carry div_carry [OF assms] by simp
qed
lemma bit_nat_div: "bit ((n :: nat) div 2 ^ a) j \<longleftrightarrow> bit n (a + j)"
  by (simp add: bit_simps flip: drop_bit_eq_div)

lemma bitlen_high [md_simps]:
  "drop_bit 29 (of_nat n :: u32) OR push_bit 3 (of_nat (n div 2 ^ 32)) = of_nat (8 * n div 2 ^ 32)"
proof (rule bit_word_eqI)
  fix k assume k: "k < LENGTH(32)"
  have *: "8 * n div 2 ^ 32 = n div 2 ^ 29" by simp
  show "bit (drop_bit 29 (of_nat n :: u32) OR push_bit 3 (of_nat (n div 2 ^ 32))) k
     = bit (of_nat (8 * n div 2 ^ 32) :: u32) k"
    unfolding * using k
    by (cases "k < 3") (auto simp: bit_or_iff bit_drop_bit_eq bit_push_bit_iff bit_of_nat_iff
        bit_nat_div bit_simps simp del: power_numeral)
qed
lemma bitlen_low [md_simps]: "push_bit 3 (of_nat n :: u32) = of_nat (8 * n)"
  by (simp add: push_bit_eq_mult)

lemma md_update_absorbed:
  assumes k: "md_absorbed cf iv m k" and x: "length x < 2 ^ 32"
  shows "md_absorbed cf iv (m @ x) (md_update cf k x)"
proof (cases "x = []")
  case True
  then show ?thesis using k by (simp add: md_update_def)
next
  case False
  define left where "left = length m mod 64"
  define b where "b = blit (mc_buf k) left (take (64 - left) x)"
  have left: "left < 64" "length (leftover m) = left"
    by (simp_all add: left_def length_leftover)
  have buf: "length (mc_buf k) = 64" "take left (mc_buf k) = leftover m"
    using k by (simp_all add: md_absorbed_def left_def)
  have l6: "unat (mc_t0 k AND 0x3F) = left"
    using k by (simp add: md_absorbed_def low6_of_nat left_def)
  have cnt: "count_bytes (length x) (mc_t0 k, mc_t1 k)
      = (of_nat (length (m @ x)), of_nat (length (m @ x) div 2 ^ 32))"
    using k count_bytes_eq [OF x, of "length m"] by (simp add: md_absorbed_def)
  have st: "mc_st k = foldl cf iv (chunks m)" using k by (simp add: md_absorbed_def)
  have len: "length (m @ x) mod 64 = length (leftover (m @ x))" by (simp add: length_leftover)
  show ?thesis
  proof (cases "left \<noteq> 0 \<and> 64 - left \<le> length x")
    case full: True
    then have b: "b = leftover m @ take (64 - left) x" "length b = 64"
      using buf left by (simp_all add: b_def blit_full)
    have split: "leftover m @ x = b @ drop (64 - left) x" by (simp add: b)
    have ch: "chunks (m @ x) = chunks m @ b # chunks (drop (64 - left) x)"
      by (simp add: chunks_append [of m x] split chunks_block b(2))
    have lo: "leftover (m @ x) = leftover (drop (64 - left) x)"
      by (simp add: leftover_append [of m x] split leftover_block b(2))
    show ?thesis
      using False full
      by (simp add: md_update_def l6 cnt Let_def absorb_blocks_eq md_absorbed_def st ch lo len
          b_def [symmetric] b(2) less_imp_le [OF leftover_lt] del: length_append)
  next
    case short: False
    then have cases: "left = 0 \<or> length x < 64 - left" by auto
    then have ch: "chunks (m @ x) = chunks m @ chunks x"
        and lo: "leftover (m @ x) = (if left = 0 then leftover x else leftover m @ x)"
        and fits: "left \<noteq> 0 \<Longrightarrow> left + length x < 64"
      using left by (auto simp: chunks_append [of m x] leftover_append [of m x])
    have tk: "left \<noteq> 0 \<Longrightarrow> take (length (leftover m @ x))
        (blit (mc_buf k) (length (leftover m)) x) = leftover m @ x"
      using take_blit_same [of "length (leftover m)" "mc_buf k" x] buf left by simp
    show ?thesis
      using False short cases buf left fits tk
      by (auto simp: md_update_def l6 cnt Let_def absorb_blocks_eq md_absorbed_def st ch lo len
          less_imp_le [OF leftover_lt] simp del: length_append)
  qed
qed

lemma pad_zeros: "r < 64 \<Longrightarrow> (119 - r) mod 64 = (if r < 56 then 55 - r else 119 - r)"
  for r :: nat
  by (auto simp: le_mod_geq [of 64 "119 - r"])

lemma md_padn_of_nat [md_simps]: "md_padn (of_nat n) = (119 - n mod 64) mod 64 + 1"
proof -
  have "(if r < 56 then 56 - r else 120 - r) = (119 - r) mod 64 + 1" if "r < 64" for r :: nat
    unfolding pad_zeros [OF that] using that by (simp; arith)
  from this [of "n mod 64"] show ?thesis by (simp add: md_padn_def md_simps Let_def)
qed

lemma md_padn_le: "md_padn t \<le> 64"
  by (simp add: md_padn_def Let_def unat_and_63) arith

lemma md_close_digest:
  assumes k: "md_absorbed cf iv m k"
  shows "mc_st (md_close cf k) = md_digest cf iv m"
    and "length (mc_buf (md_close cf k)) = 64"
proof -
  have t: "mc_t0 k = of_nat (length m)" "mc_t1 k = of_nat (length m div 2 ^ 32)"
    using k by (simp_all add: md_absorbed_def)
  let ?n = "(119 - length m mod 64) mod 64"
  have "?n < 64" by simp
  then have "?n \<le> 63" by linarith
  then have p: "take (md_padn (mc_t0 k)) md_padding = 0x80 # replicate ?n 0"
    by (simp add: t md_simps md_padding_def min_def)
  have l: "md_msglen (mc_t0 k) (mc_t1 k)
      = put_be (of_nat (8 * length m div 2 ^ 32)) @ put_be (of_nat (8 * length m))"
    unfolding md_msglen_def t bitlen_high by (simp only: bitlen_low)
  have pad: "take (md_padn (mc_t0 k)) md_padding @ md_msglen (mc_t0 k) (mc_t1 k) = md_pad (length m)"
    by (simp add: p l md_pad_def)
  have "md_absorbed cf iv (m @ take (md_padn (mc_t0 k)) md_padding)
      (md_update cf k (take (md_padn (mc_t0 k)) md_padding))"
    by (rule md_update_absorbed [OF k]) (use \<open>?n \<le> 63\<close> in \<open>simp add: p\<close>)
  then have "md_absorbed cf iv
      ((m @ take (md_padn (mc_t0 k)) md_padding) @ md_msglen (mc_t0 k) (mc_t1 k)) (md_close cf k)"
    unfolding md_close_def by (rule md_update_absorbed) (simp add: l)
  then have "md_absorbed cf iv (m @ md_pad (length m)) (md_close cf k)"
    by (simp add: pad)
  then show "mc_st (md_close cf k) = md_digest cf iv m" "length (mc_buf (md_close cf k)) = 64"
    by (simp_all add: md_absorbed_def md_digest_def)
qed

lemma length_md_digest:
  "length iv = n \<Longrightarrow> (\<And>st b. length (cf st b) = n) \<Longrightarrow> length (md_digest cf iv m) = n"
  by (cases "chunks (m @ md_pad (length m))" rule: rev_cases) (simp_all add: md_digest_def)

lemma concat_put_be_8:
  "length st = 8 \<Longrightarrow> concat (map put_be st) =
     put_be (st ! 0) @ put_be (st ! 1) @ put_be (st ! 2) @ put_be (st ! 3)
     @ put_be (st ! 4) @ put_be (st ! 5) @ put_be (st ! 6) @ put_be (st ! 7)"
  by (auto simp: numeral_eq_Suc length_Suc_conv)

text \<open>The padded message is a whole number of blocks.\<close>

lemma md_pad_blocks: "length (m @ md_pad (length m)) mod 64 = 0"
proof -
  define q r where "q = length m div 64" and "r = length m mod 64"
  then have m: "length m = 64 * q + r" and r: "r < 64" by simp_all
  have "(64 * q + r + (119 - r) mod 64 + 9) mod 64 = 0"
  proof (cases "r < 56")
    case True
    then have "64 * q + r + (119 - r) mod 64 + 9 = 64 * (q + 1)" by (simp add: pad_zeros r)
    then show ?thesis by (simp only: mod_mult_self1_is_0)
  next
    case False
    then have "64 * q + r + (119 - r) mod 64 + 9 = 64 * (q + 2)" using r by (simp add: pad_zeros)
    then show ?thesis by (simp only: mod_mult_self1_is_0)
  qed
  then show ?thesis by (simp add: md_pad_def m r ac_simps)
qed

section \<open>Evaluating a sample\<close>

text \<open>The one block of the padded message \<open>"abc"\<close>, the first sample of each standard.\<close>

lemma upt16: "[0..<16::nat] = [0,1,2,3,4,5,6,7,8,9,10,11,12,13,14,15]"
  by (simp add: upt_rec)

lemma upt64: "[0..<64::nat] = [0,1,2,3,4,5,6,7,8,9,10,11,12,13,14,15,16,17,18,19,20,21,22,23,24,25,
  26,27,28,29,30,31,32,33,34,35,36,37,38,39,40,41,42,43,44,45,46,47,48,49,50,51,52,53,54,55,56,57,
  58,59,60,61,62,63]"
  by (simp add: upt_rec)

definition abc :: "u8 list" where
  "abc = [0x61, 0x62, 0x63]"

definition abc_block :: "u8 list" where
  "abc_block = [0x61, 0x62, 0x63, 0x80] @ replicate 59 0 @ [0x18]"

lemma chunks_abc: "chunks (abc @ md_pad (length abc)) = [abc_block]"
proof -
  have "replicate 7 (0 :: u8) = [0, 0, 0, 0, 0, 0, 0]" by (simp add: numeral_eq_Suc)
  then have "replicate 59 (0 :: u8) = replicate 52 0 @ [0, 0, 0, 0, 0, 0, 0]"
    using replicate_add [of 52 7 "0 :: u8"] by simp
  then have b: "abc @ md_pad (length abc) = abc_block"
    by (simp add: abc_def md_pad_def abc_block_def put_be_def)
  show ?thesis
    unfolding b using chunks_block [of abc_block "[]"] by (simp add: abc_block_def)
qed

section \<open>The interface of a streaming hash\<close>

text \<open>
  \<open>starts\<close>, \<open>update\<close> and \<open>finish\<close> are the operations of a hash context; \<open>absorbed\<close> is the
  message a context stands for, \<open>H\<close> the hash they promise to compute. \<open>limit\<close> bounds the length
  of one piece: the C interfaces take it as a 32-bit number.
\<close>

locale stream_hash =
  fixes wf :: "'c \<Rightarrow> bool"
    and starts :: "'c \<Rightarrow> 'c"
    and update :: "'c \<Rightarrow> u8 list \<Rightarrow> 'c"
    and finish :: "'c \<Rightarrow> 'c \<times> u8 list"
    and absorbed :: "u8 list \<Rightarrow> 'c \<Rightarrow> bool"
    and H :: "u8 list \<Rightarrow> u8 list"
    and limit :: nat
  assumes absorbed_starts: "wf c \<Longrightarrow> absorbed [] (starts c)"
    and absorbed_update: "absorbed m c \<Longrightarrow> length x < limit \<Longrightarrow> absorbed (m @ x) (update c x)"
    and finish_digest: "absorbed m c \<Longrightarrow> snd (finish c) = H m"
    and finish_wf: "absorbed m c \<Longrightarrow> wf (fst (finish c))"
begin

lemma absorbed_pieces:
  "absorbed m c \<Longrightarrow> \<forall>x \<in> set xs. length x < limit \<Longrightarrow> absorbed (m @ concat xs) (foldl update c xs)"
proof (induction xs arbitrary: m c)
  case (Cons x xs)
  from Cons.prems have "absorbed ((m @ x) @ concat xs) (foldl update (update c x) xs)"
    by (intro Cons.IH absorbed_update) simp_all
  then show ?case by simp
qed simp

lemma hash_pieces:
  "wf c \<Longrightarrow> \<forall>x \<in> set xs. length x < limit \<Longrightarrow>
   snd (finish (foldl update (starts c) xs)) = H (concat xs)"
  using absorbed_pieces [OF absorbed_starts] finish_digest by fastforce

lemma hash_one: "wf c \<Longrightarrow> length x < limit \<Longrightarrow> snd (finish (update (starts c) x)) = H x"
  using hash_pieces [of c "[x]"] by simp

end

section \<open>Modules built on the reference machine\<close>

text \<open>
  What the C modules have in common, as an interface: \<open>core\<close> reads the counter, the state and the
  buffer out of a context, and the operations act on them as the reference machine does. \<open>ok\<close> is
  what a module keeps constant in its contexts besides. Every such module is a streaming hash.
\<close>

locale md_module =
  fixes core :: "'c \<Rightarrow> md_core"
    and ok :: "'c \<Rightarrow> bool"
    and cf :: "u32 list \<Rightarrow> u8 list \<Rightarrow> u32 list"
    and iv :: "u32 list"
    and starts :: "'c \<Rightarrow> 'c"
    and update :: "'c \<Rightarrow> u8 list \<Rightarrow> 'c"
    and finish :: "'c \<Rightarrow> 'c \<times> u8 list"
    and emit :: "u32 list \<Rightarrow> u8 list"
    and limit :: nat
  assumes core_starts: "core (starts c) = (core c)\<lparr>mc_t0 := 0, mc_t1 := 0, mc_st := iv\<rparr>"
    and core_update: "length x < limit \<Longrightarrow> core (update c x) = md_update cf (core c) x"
    and core_finish: "core (fst (finish c)) = md_close cf (core c)"
    and finish_emit: "ok c \<Longrightarrow> snd (finish c) = emit (mc_st (core (fst (finish c))))"
    and ok_starts: "ok (starts c)"
    and ok_update: "ok c \<Longrightarrow> ok (update c x)"
    and limit_32: "limit \<le> 2 ^ 32"

definition md_hash ::
  "(u32 list \<Rightarrow> u8 list) \<Rightarrow> (u32 list \<Rightarrow> u8 list \<Rightarrow> u32 list) \<Rightarrow> u32 list \<Rightarrow> u8 list \<Rightarrow> u8 list" where
  "md_hash emit cf iv m = emit (md_digest cf iv m)"

sublocale md_module < stream_hash "\<lambda>c. length (mc_buf (core c)) = 64" starts update finish
  "\<lambda>m c. md_absorbed cf iv m (core c) \<and> ok c" "md_hash emit cf iv" limit
proof unfold_locales
  fix c m x
  show "length (mc_buf (core c)) = 64 \<Longrightarrow> md_absorbed cf iv [] (core (starts c)) \<and> ok (starts c)"
    by (simp add: core_starts ok_starts md_absorbed_def)
  assume c: "md_absorbed cf iv m (core c) \<and> ok c"
  show "length x < limit \<Longrightarrow> md_absorbed cf iv (m @ x) (core (update c x)) \<and> ok (update c x)"
    using c limit_32 by (auto simp: core_update ok_update intro: md_update_absorbed)
  show "snd (finish c) = md_hash emit cf iv m" "length (mc_buf (core (fst (finish c)))) = 64"
    using c md_close_digest [of cf iv m "core c"]
    by (simp_all add: core_finish finish_emit md_hash_def)
qed

section \<open>Keyed hashing\<close>

text \<open>The C loop that mixes the key into a pad: byte \<open>i\<close> of the pad for \<open>i < keylen\<close>.\<close>

fun xor_into :: "u8 list \<Rightarrow> u8 list \<Rightarrow> u8 list" where
  "xor_into (p # ps) (k # ks) = (p XOR k) # xor_into ps ks"
| "xor_into ps ks = ps"

lemma length_xor_into [simp]: "length (xor_into ps ks) = length ps"
  by (induction ps ks rule: xor_into.induct) auto

lemma nth_xor_into:
  "i < length ps \<Longrightarrow> xor_into ps ks ! i = (if i < length ks then ps ! i XOR ks ! i else ps ! i)"
  by (induction ps ks arbitrary: i rule: xor_into.induct) (auto simp: nth_Cons split: nat.split)

text \<open>RFC 2104: a long key is hashed, the pads are the key xored into constant blocks.\<close>

definition hmac_key :: "(u8 list \<Rightarrow> u8 list) \<Rightarrow> u8 list \<Rightarrow> u8 list" where
  "hmac_key H key = (if 64 < length key then H key else key)"

definition hmac_pad :: "u8 \<Rightarrow> u8 list \<Rightarrow> u8 list" where
  "hmac_pad v key = xor_into (replicate 64 v) key"

definition hmac_spec :: "(u8 list \<Rightarrow> u8 list) \<Rightarrow> u8 list \<Rightarrow> u8 list \<Rightarrow> u8 list" where
  "hmac_spec H key m =
     H (hmac_pad 0x5C (hmac_key H key) @ H (hmac_pad 0x36 (hmac_key H key) @ m))"

lemma length_hmac_pad [simp]: "length (hmac_pad v key) = 64"
  by (simp add: hmac_pad_def)

locale hmac_hash = stream_hash +
  fixes opad :: "'c \<Rightarrow> u8 list"
    and keyed :: "'c \<Rightarrow> u8 list \<Rightarrow> 'c"
    and hmac_starts :: "'c \<Rightarrow> u8 list \<Rightarrow> 'c"
    and hmac_finish :: "'c \<Rightarrow> 'c \<times> u8 list"
  assumes limit: "64 < limit" "length (H m) < limit"
    and keyed_wf: "wf c \<Longrightarrow> wf (keyed c key)"
    and keyed_opad: "opad (keyed c key) = hmac_pad 0x5C (hmac_key H key)"
    and opad_starts: "opad (starts c) = opad c"
    and opad_update: "opad (update c x) = opad c"
    and opad_finish: "opad (fst (finish c)) = opad c"
    and hmac_starts_eq: "wf c \<Longrightarrow> length key < limit \<Longrightarrow>
      hmac_starts c key = update (starts (keyed c key)) (hmac_pad 0x36 (hmac_key H key))"
    and hmac_finish_eq: "absorbed m c \<Longrightarrow> length (opad c) = 64 \<Longrightarrow> hmac_finish c =
      (let (c, tmp) = finish c; c = starts c; c = update c (opad c); c = update c tmp in finish c)"
begin

lemma opad_pieces: "opad (foldl update c xs) = opad c"
  by (induction xs arbitrary: c) (simp_all add: opad_update)

text \<open>Finishing, from any context that has absorbed the inner pad and a message.\<close>

lemma hmac_close:
  assumes inner: "absorbed (hmac_pad 0x36 (hmac_key H key) @ m) c"
    and o: "opad c = hmac_pad 0x5C (hmac_key H key)"
  shows "snd (hmac_finish c) = hmac_spec H key m"
proof -
  obtain c1 tmp where f: "finish c = (c1, tmp)" by fastforce
  have tmp: "tmp = H (hmac_pad 0x36 (hmac_key H key) @ m)" and c1: "wf c1" "opad c1 = opad c"
    using finish_digest [OF inner] finish_wf [OF inner] opad_finish [of c] f by auto
  have "absorbed (opad c @ tmp) (foldl update (starts c1) [opad c, tmp])"
    using absorbed_pieces [OF absorbed_starts [OF c1(1)], of "[opad c, tmp]"] limit tmp
    by (simp add: o)
  then show ?thesis
    using finish_digest o
    by (simp add: hmac_finish_eq [OF inner] f opad_starts c1 hmac_spec_def tmp)
qed

lemma hmac_started:
  assumes "wf c" and "length key < limit"
  shows "absorbed (hmac_pad 0x36 (hmac_key H key)) (hmac_starts c key)"
    and "opad (hmac_starts c key) = hmac_pad 0x5C (hmac_key H key)"
  using absorbed_update [OF absorbed_starts [OF keyed_wf [OF assms(1)]], of "hmac_pad 0x36 (hmac_key H key)" key]
    limit(1) assms
  by (simp_all add: hmac_starts_eq opad_update opad_starts keyed_opad)

theorem hmac_pieces:
  assumes "wf c" and "length key < limit" and "\<forall>x \<in> set xs. length x < limit"
  shows "snd (hmac_finish (foldl update (hmac_starts c key) xs)) = hmac_spec H key (concat xs)"
  by (rule hmac_close [OF absorbed_pieces [OF hmac_started(1) [OF assms(1,2)] assms(3)]])
    (simp add: opad_pieces hmac_started(2) [OF assms(1,2)])

end

end
