(* ===== verification/Sm3.thy ===== *)
theory Sm3
  imports Md_Hash
begin

text \<open>
  \<open>Common/sm3.c\<close>: the SM3 hash and HMAC-SM3. A context is the record \<open>sm3_context\<close>; every
  operation takes the context and returns it updated. \<open>unsigned long\<close> has 32 bits on the modelled
  platform. The macro \<open>ROTL\<close> is used with counts 0 to 63, so some of its shifts are undefined in
  C; \<open>us\<close> says what they do. \<open>input\<close> is the memory at the C pointer, \<open>ilen\<close> the signed length
  that is passed with it. The interface \<open>hmac_hash\<close> is interpreted on the operations.
\<close>

unbundle bit_operations_syntax

section \<open>The compression function\<close>

record sm3_context =
  sm3_total :: "u32 \<times> u32"
  sm3_state :: "u32 list"
  sm3_buffer :: "u8 list"
  sm3_ipad :: "u8 list"
  sm3_opad :: "u8 list"

definition SHL :: "ub_shift \<Rightarrow> u32 \<Rightarrow> int \<Rightarrow> u32" where
  "SHL us x n = c_shl us (x AND 0xFFFFFFFF) n"

definition ROTL :: "ub_shift \<Rightarrow> u32 \<Rightarrow> int \<Rightarrow> u32" where
  "ROTL us x n = SHL us x n OR c_shr us x (32 - n)"

definition FF0 :: "u32 \<Rightarrow> u32 \<Rightarrow> u32 \<Rightarrow> u32" where
  "FF0 x y z = x XOR y XOR z"

definition FF1 :: "u32 \<Rightarrow> u32 \<Rightarrow> u32 \<Rightarrow> u32" where
  "FF1 x y z = (x AND y) OR (x AND z) OR (y AND z)"

definition GG0 :: "u32 \<Rightarrow> u32 \<Rightarrow> u32 \<Rightarrow> u32" where
  "GG0 x y z = x XOR y XOR z"

definition GG1 :: "u32 \<Rightarrow> u32 \<Rightarrow> u32 \<Rightarrow> u32" where
  "GG1 x y z = (x AND y) OR (NOT x AND z)"

definition P0 :: "ub_shift \<Rightarrow> u32 \<Rightarrow> u32" where
  "P0 us x = x XOR ROTL us x 9 XOR ROTL us x 17"

definition P1 :: "ub_shift \<Rightarrow> u32 \<Rightarrow> u32" where
  "P1 us x = x XOR ROTL us x 15 XOR ROTL us x 23"

definition sm3_T :: "u32 list" where
  "sm3_T = map (\<lambda>j. if j < 16 then 0x79CC4519 else 0x7A879D8A) [0..<64]"

text \<open>One turn of the loop that fills \<open>W[16]\<close> to \<open>W[67]\<close>; \<open>W\<close> holds the words below \<open>j\<close>.\<close>

definition sm3_expand :: "ub_shift \<Rightarrow> u32 list \<Rightarrow> nat \<Rightarrow> u32 list" where
  "sm3_expand us W j =
     (let Temp1 = W ! (j - 16) XOR W ! (j - 9);
          Temp2 = ROTL us (W ! (j - 3)) 15;
          Temp3 = Temp1 XOR Temp2;
          Temp4 = P1 us Temp3;
          Temp5 = ROTL us (W ! (j - 13)) 7 XOR W ! (j - 6)
      in W @ [Temp4 XOR Temp5])"

type_synonym sm3_regs = "u32 \<times> u32 \<times> u32 \<times> u32 \<times> u32 \<times> u32 \<times> u32 \<times> u32"

definition sm3_round ::
  "ub_shift \<Rightarrow> (u32 \<Rightarrow> u32 \<Rightarrow> u32 \<Rightarrow> u32) \<Rightarrow> (u32 \<Rightarrow> u32 \<Rightarrow> u32 \<Rightarrow> u32) \<Rightarrow> u32 list \<Rightarrow> u32 list
   \<Rightarrow> sm3_regs \<Rightarrow> nat \<Rightarrow> sm3_regs" where
  "sm3_round us FF GG W W1 = (\<lambda>(A, B, C, D, E, F, G, H) j.
     let SS1 = ROTL us (ROTL us A 12 + E + ROTL us (sm3_T ! j) (int j)) 7;
         SS2 = SS1 XOR ROTL us A 12;
         TT1 = FF A B C + D + SS2 + W1 ! j;
         TT2 = GG E F G + H + SS1 + W ! j
     in (TT1, A, ROTL us B 9, C, P0 us TT2, E, ROTL us F 19, G))"

definition sm3_compress :: "ub_shift \<Rightarrow> u32 list \<Rightarrow> u8 list \<Rightarrow> u32 list" where
  "sm3_compress us st data =
     (let W = map (\<lambda>i. get_be data (4 * i)) [0..<16];
          W = foldl (sm3_expand us) W [16..<68];
          W1 = map (\<lambda>j. W ! j XOR W ! (j + 4)) [0..<64];
          r = (st ! 0, st ! 1, st ! 2, st ! 3, st ! 4, st ! 5, st ! 6, st ! 7);
          r = foldl (sm3_round us FF0 GG0 W W1) r [0..<16];
          (A, B, C, D, E, F, G, H) = foldl (sm3_round us FF1 GG1 W W1) r [16..<64]
      in [st ! 0 XOR A, st ! 1 XOR B, st ! 2 XOR C, st ! 3 XOR D,
          st ! 4 XOR E, st ! 5 XOR F, st ! 6 XOR G, st ! 7 XOR H])"

definition sm3_process :: "ub_shift \<Rightarrow> sm3_context \<Rightarrow> u8 list \<Rightarrow> sm3_context" where
  "sm3_process us ctx data = ctx\<lparr>sm3_state := sm3_compress us (sm3_state ctx) data\<rparr>"

section \<open>Contexts\<close>

definition sm3_iv :: "u32 list" where
  "sm3_iv = [0x7380166F, 0x4914B2B9, 0x172442D7, 0xDA8A0600,
             0xA96F30BC, 0x163138AA, 0xE38DEE4D, 0xB0FB0E4E]"

definition sm3_starts :: "sm3_context \<Rightarrow> sm3_context" where
  "sm3_starts ctx = ctx\<lparr>sm3_total := (0, 0), sm3_state := sm3_iv\<rparr>"

definition sm3_update :: "ub_shift \<Rightarrow> sm3_context \<Rightarrow> u8 list \<Rightarrow> int \<Rightarrow> sm3_context" where
  "sm3_update us ctx input ilen =
     (if ilen \<le> 0 then ctx
      else
        let input = take (nat ilen) input;
            left = unat (fst (sm3_total ctx) AND 0x3F);
            fill = 64 - left;
            ctx = ctx\<lparr>sm3_total := count_bytes (nat ilen) (sm3_total ctx)\<rparr>;
            (ctx, input, left) =
              (if left \<noteq> 0 \<and> fill \<le> length input
               then let ctx = ctx\<lparr>sm3_buffer := blit (sm3_buffer ctx) left (take fill input)\<rparr>
                    in (sm3_process us ctx (sm3_buffer ctx), drop fill input, 0)
               else (ctx, input, left));
            (ctx, input) = absorb_blocks (sm3_process us) ctx input
        in if 0 < length input
           then ctx\<lparr>sm3_buffer := blit (sm3_buffer ctx) left input\<rparr> else ctx)"

definition sm3_padding :: "u8 list" where
  "sm3_padding = 0x80 # replicate 63 0"

definition sm3_finish :: "ub_shift \<Rightarrow> sm3_context \<Rightarrow> sm3_context \<times> u8 list" where
  "sm3_finish us ctx =
     (let (total0, total1) = sm3_total ctx;
          high = drop_bit 29 total0 OR push_bit 3 total1;
          low = push_bit 3 total0;
          msglen = put_be high @ put_be low;
          last = unat (total0 AND 0x3F);
          padn = (if last < 56 then 56 - last else 120 - last);
          ctx = sm3_update us ctx sm3_padding (int padn);
          ctx = sm3_update us ctx msglen 8;
          st = sm3_state ctx
      in (ctx, put_be (st ! 0) @ put_be (st ! 1) @ put_be (st ! 2) @ put_be (st ! 3)
             @ put_be (st ! 4) @ put_be (st ! 5) @ put_be (st ! 6) @ put_be (st ! 7)))"

text \<open>The local variable \<open>sm3_context ctx;\<close>: its contents are whatever the stack held.\<close>

definition sm3_uninit :: "stack_mem \<Rightarrow> sm3_context" where
  "sm3_uninit s = \<lparr>sm3_total = (sk32 s 0, sk32 s 1),
                   sm3_state = map (\<lambda>i. sk32 s (2 + i)) [0..<8],
                   sm3_buffer = map (sk8 s) [0..<64],
                   sm3_ipad = map (\<lambda>i. sk8 s (64 + i)) [0..<64],
                   sm3_opad = map (\<lambda>i. sk8 s (128 + i)) [0..<64]\<rparr>"

definition sm3 :: "ub_shift \<Rightarrow> stack_mem \<Rightarrow> u8 list \<Rightarrow> int \<Rightarrow> u8 list" where
  "sm3 us s input ilen =
     (let ctx = sm3_starts (sm3_uninit s);
          ctx = sm3_update us ctx input ilen
      in snd (sm3_finish us ctx))"

definition sm3_hmac_starts ::
  "ub_shift \<Rightarrow> stack_mem \<Rightarrow> sm3_context \<Rightarrow> u8 list \<Rightarrow> int \<Rightarrow> sm3_context" where
  "sm3_hmac_starts us s ctx key keylen =
     (let (key, keylen) = (if 64 < keylen then (sm3 us s key keylen, 32) else (key, keylen));
          ctx = ctx\<lparr>sm3_ipad := replicate 64 0x36, sm3_opad := replicate 64 0x5C\<rparr>;
          ctx = ctx\<lparr>sm3_ipad := xor_into (sm3_ipad ctx) (take (nat keylen) key),
                   sm3_opad := xor_into (sm3_opad ctx) (take (nat keylen) key)\<rparr>;
          ctx = sm3_starts ctx
      in sm3_update us ctx (sm3_ipad ctx) 64)"

definition sm3_hmac_update :: "ub_shift \<Rightarrow> sm3_context \<Rightarrow> u8 list \<Rightarrow> int \<Rightarrow> sm3_context" where
  "sm3_hmac_update us ctx input ilen = sm3_update us ctx input ilen"

definition sm3_hmac_finish :: "ub_shift \<Rightarrow> sm3_context \<Rightarrow> sm3_context \<times> u8 list" where
  "sm3_hmac_finish us ctx =
     (let hlen = 32;
          (ctx, tmpbuf) = sm3_finish us ctx;
          ctx = sm3_starts ctx;
          ctx = sm3_update us ctx (sm3_opad ctx) 64;
          ctx = sm3_update us ctx tmpbuf hlen
      in sm3_finish us ctx)"

definition sm3_hmac ::
  "ub_shift \<Rightarrow> stack_mem \<Rightarrow> stack_mem \<Rightarrow> u8 list \<Rightarrow> int \<Rightarrow> u8 list \<Rightarrow> int \<Rightarrow> u8 list" where
  "sm3_hmac us s s' key keylen input ilen =
     (let ctx = sm3_hmac_starts us s' (sm3_uninit s) key keylen;
          ctx = sm3_hmac_update us ctx input ilen
      in snd (sm3_hmac_finish us ctx))"

section \<open>The standard's compression function\<close>

text \<open>GB/T 32905-2016, with rotations modulo 32 and the message words as a recurrence.\<close>

fun sm3_W :: "u8 list \<Rightarrow> nat \<Rightarrow> u32" where
  "sm3_W data j =
     (if j < 16 then get_be data (4 * j)
      else let x = sm3_W data (j - 16) XOR sm3_W data (j - 9) XOR word_rotl 15 (sm3_W data (j - 3))
           in x XOR word_rotl 15 x XOR word_rotl 23 x
              XOR word_rotl 7 (sm3_W data (j - 13)) XOR sm3_W data (j - 6))"

declare sm3_W.simps [simp del]

definition sm3_std_round :: "u8 list \<Rightarrow> sm3_regs \<Rightarrow> nat \<Rightarrow> sm3_regs" where
  "sm3_std_round data = (\<lambda>(A, B, C, D, E, F, G, H) j.
     let T = (if j < 16 then 0x79CC4519 else 0x7A879D8A);
         FF = (if j < 16 then A XOR B XOR C else (A AND B) OR (A AND C) OR (B AND C));
         GG = (if j < 16 then E XOR F XOR G else (E AND F) OR (NOT E AND G));
         SS1 = word_rotl 7 (word_rotl 12 A + E + word_rotl (j mod 32) T);
         SS2 = SS1 XOR word_rotl 12 A;
         TT1 = FF + D + SS2 + (sm3_W data j XOR sm3_W data (j + 4));
         TT2 = GG + H + SS1 + sm3_W data j
     in (TT1, A, word_rotl 9 B, C, TT2 XOR word_rotl 9 TT2 XOR word_rotl 17 TT2,
         E, word_rotl 19 F, G))"

definition sm3_std_compress :: "u32 list \<Rightarrow> u8 list \<Rightarrow> u32 list" where
  "sm3_std_compress V data =
     (let (A, B, C, D, E, F, G, H) = foldl (sm3_std_round data)
            (V ! 0, V ! 1, V ! 2, V ! 3, V ! 4, V ! 5, V ! 6, V ! 7) [0..<64]
      in [A XOR V ! 0, B XOR V ! 1, C XOR V ! 2, D XOR V ! 3,
          E XOR V ! 4, F XOR V ! 5, G XOR V ! 6, H XOR V ! 7])"

lemma word_rotl_zero [simp]: "word_rotl 0 (x :: u32) = x"
  by (rule bit_word_eqI) (simp add: bit_word_rotl_iff)

lemma ROTL_shifts:
  "masks_count us \<Longrightarrow>
   ROTL us x n = push_bit (nat (n mod 32)) x OR drop_bit (nat ((32 - n) mod 32)) x"
  by (simp only: ROTL_def SHL_def and_all_ones c_shl_masked c_shr_masked)

lemma ROTL_masked:
  assumes "masks_count us"
  shows "ROTL us x n = word_rotl (nat (n mod 32)) x"
proof (cases "n mod 32 = 0")
  case True
  then have "(32 - n) mod 32 = 0" by (simp add: zmod_zminus1_eq_if)
  then show ?thesis by (simp only: ROTL_shifts [OF assms] True) simp
next
  case False
  define m where "m = nat (n mod 32)"
  from False have m: "0 < m" "m < 32" by (auto simp: m_def nat_less_iff)
  from False have "(32 - n) mod 32 = 32 - n mod 32" by (simp add: zmod_zminus1_eq_if)
  then have "nat ((32 - n) mod 32) = 32 - m"
    unfolding m_def by (simp only: nat_diff_distrib pos_mod_sign)
  then show ?thesis
    by (simp only: ROTL_shifts [OF assms] m_def [symmetric] shifts_rotl [OF m])
qed

lemma sm3_expand_W:
  assumes "masks_count us" "16 \<le> k"
  shows "foldl (sm3_expand us) (map (\<lambda>i. get_be data (4 * i)) [0..<16]) [16..<k]
    = map (sm3_W data) [0..<k]"
  using assms(2)
proof (induction k rule: dec_induct)
  case base
  show ?case by (simp add: sm3_W.simps)
next
  case (step k)
  have "sm3_expand us (map (sm3_W data) [0..<k]) k = map (sm3_W data) [0..<Suc k]"
    using step.hyps
    by (simp add: sm3_expand_def P1_def ROTL_masked [OF assms(1)] sm3_W.simps [of data k] Let_def
        xor.assoc)
  with step show ?case by simp
qed

lemma sm3_round_std:
  assumes "masks_count us" "j < 64" "W = map (sm3_W data) [0..<68]"
    "W1 = map (\<lambda>j. W ! j XOR W ! (j + 4)) [0..<64]"
    "j < 16 \<Longrightarrow> FF = FF0 \<and> GG = GG0" "16 \<le> j \<Longrightarrow> FF = FF1 \<and> GG = GG1"
  shows "sm3_round us FF GG W W1 r j = sm3_std_round data r j"
proof -
  obtain A B C D E F G H where r: "r = (A, B, C, D, E, F, G, H)" by (metis surj_pair)
  have T: "sm3_T ! j = (if j < 16 then 0x79CC4519 else 0x7A879D8A)"
    using assms(2) by (simp add: sm3_T_def)
  have n: "nat (int j mod 32) = j mod 32" by (simp add: nat_mod_distrib)
  show ?thesis
    using assms(2,5,6)
    by (cases "j < 16")
      (simp_all add: r sm3_round_def sm3_std_round_def assms(3,4) T n ROTL_masked [OF assms(1)]
        Let_def FF0_def FF1_def GG0_def GG1_def P0_def del: upt_Suc)
qed

lemma sm3_compress_std:
  assumes "masks_count us"
  shows "sm3_compress us st data = sm3_std_compress st data"
proof -
  let ?W = "map (sm3_W data) [0..<68]"
  let ?W1 = "map (\<lambda>j. ?W ! j XOR ?W ! (j + 4)) [0..<64]"
  have round: "foldl (sm3_round us FF GG ?W ?W1) r js = foldl (sm3_std_round data) r js"
    if "\<And>j. j \<in> set js \<Longrightarrow> j < 64 \<and> (j < 16 \<longrightarrow> FF = FF0 \<and> GG = GG0) \<and> (16 \<le> j \<longrightarrow> FF = FF1 \<and> GG = GG1)"
    for FF GG r js
    using that by (intro foldl_cong refl sm3_round_std [OF assms]) auto
  have r1: "foldl (sm3_round us FF0 GG0 ?W ?W1) r [0..<16] = foldl (sm3_std_round data) r [0..<16]"
    and r2: "foldl (sm3_round us FF1 GG1 ?W ?W1) r [16..<64] = foldl (sm3_std_round data) r [16..<64]"
    for r by (rule round; auto simp del: upt_rec_numeral)+
  have u: "[0..<64] = [0..<16] @ [16..<64::nat]" 
    using upt_add_eq_append [of 0 16 48] by (simp del: upt_rec_numeral)
  have all: "foldl (sm3_round us FF1 GG1 ?W ?W1) (foldl (sm3_round us FF0 GG0 ?W ?W1) r [0..<16]) [16..<64]
      = foldl (sm3_std_round data) r [0..<64]" for r
    by (simp only: r1 r2 foldl_append [symmetric] u [symmetric])
  have w: "foldl (sm3_expand us) (map (\<lambda>i. get_be data (4 * i)) [0..<16]) [16..<68] = ?W"
    by (rule sm3_expand_W [OF assms]) simp
  show ?thesis
    unfolding sm3_compress_def Let_def w all sm3_std_compress_def
    by (simp add: xor.commute split: prod.split del: upt_rec_numeral)
qed

section \<open>Streaming\<close>

definition sm3_core :: "sm3_context \<Rightarrow> md_core" where
  "sm3_core c = \<lparr>mc_t0 = fst (sm3_total c), mc_t1 = snd (sm3_total c),
                 mc_st = sm3_state c, mc_buf = sm3_buffer c\<rparr>"

lemma sm3_blocks:
  "absorb_blocks (sm3_process us) c xs =
   (c\<lparr>sm3_state := fst (absorb_blocks (sm3_compress us) (sm3_state c) xs)\<rparr>,
    snd (absorb_blocks (sm3_compress us) (sm3_state c) xs))"
proof (induction "sm3_process us" c xs rule: absorb_blocks.induct)
  case (1 c xs)
  then show ?case
    by (simp add: absorb_blocks.simps [of "sm3_process us"]
        absorb_blocks.simps [of "sm3_compress us" "sm3_state c"]) (simp add: sm3_process_def)
qed

lemma sm3_update_core:
  "sm3_core (sm3_update us c xs (int (length xs))) = md_update (sm3_compress us) (sm3_core c) xs"
  by (simp add: sm3_update_def md_update_def sm3_core_def sm3_blocks sm3_process_def Let_def
      split: prod.split)

lemma sm3_update_frame:
  "sm3_opad (sm3_update us c xs n) = sm3_opad c" "sm3_ipad (sm3_update us c xs n) = sm3_ipad c"
  by (simp_all add: sm3_update_def sm3_blocks sm3_process_def Let_def split: prod.split)

definition sm3_output :: "u32 list \<Rightarrow> u8 list" where
  "sm3_output st = put_be (st ! 0) @ put_be (st ! 1) @ put_be (st ! 2) @ put_be (st ! 3)
     @ put_be (st ! 4) @ put_be (st ! 5) @ put_be (st ! 6) @ put_be (st ! 7)"

lemma sm3_update_take:
  "0 \<le> n \<Longrightarrow> sm3_update us c xs n = sm3_update us c (take (nat n) xs) n"
  by (simp add: sm3_update_def)

lemma sm3_finish_update:
  assumes "sm3_total c = (t0, t1)"
  shows "fst (sm3_finish us c) =
    (let p = take (md_padn t0) md_padding; l = md_msglen t0 t1
     in sm3_update us (sm3_update us c p (int (length p))) l (int (length l)))"
proof -
  have "length (take (md_padn t0) md_padding) = md_padn t0"
    using md_padn_le [of t0] by (simp add: md_padding_def)
  then show ?thesis
    using sm3_update_take [of "int (md_padn t0)" us c sm3_padding]
    by (simp add: sm3_finish_def assms md_padn_def md_msglen_def sm3_padding_def md_padding_def Let_def)
qed

lemma sm3_finish_eqs:
  "snd (sm3_finish us c) = sm3_output (sm3_state (fst (sm3_finish us c)))"
  "sm3_core (fst (sm3_finish us c)) = md_close (sm3_compress us) (sm3_core c)"
  "sm3_opad (fst (sm3_finish us c)) = sm3_opad c"
proof -
  obtain t0 t1 where t: "sm3_total c = (t0, t1)" by fastforce
  show "snd (sm3_finish us c) = sm3_output (sm3_state (fst (sm3_finish us c)))"
    by (simp add: sm3_finish_def sm3_output_def Let_def split: prod.split)
  show "sm3_core (fst (sm3_finish us c)) = md_close (sm3_compress us) (sm3_core c)"
    unfolding sm3_finish_update [OF t] Let_def sm3_update_core md_close_def
    by (simp add: sm3_core_def t)
  show "sm3_opad (fst (sm3_finish us c)) = sm3_opad c"
    by (simp add: sm3_finish_update [OF t] Let_def sm3_update_frame)
qed

abbreviation sm3_hash :: "ub_shift \<Rightarrow> u8 list \<Rightarrow> u8 list" where
  "sm3_hash us \<equiv> md_hash sm3_output (sm3_compress us) sm3_iv"

lemma length_sm3_output [simp]: "length (sm3_output st) = 32"
  by (simp add: sm3_output_def)

lemma sm3_output_eq: "length st = 8 \<Longrightarrow> sm3_output st = concat (map put_be st)"
  by (simp only: sm3_output_def concat_put_be_8)

lemma length_sm3_std_digest: "length (md_digest sm3_std_compress sm3_iv m) = 8"
  by (rule length_md_digest) (simp_all add: sm3_iv_def sm3_std_compress_def split: prod.split
    del: upt_rec_numeral)

lemma length_sm3_hash [simp]: "length (sm3_hash us m) = 32"
  by (simp add: md_hash_def)

lemma sm3_core_sel [simp]:
  "mc_st (sm3_core c) = sm3_state c" "mc_buf (sm3_core c) = sm3_buffer c"
  by (simp_all add: sm3_core_def)

interpretation sm3: md_module sm3_core "\<lambda>_. True" "sm3_compress us" sm3_iv sm3_starts
  "\<lambda>c x. sm3_update us c x (int (length x))" "sm3_finish us" sm3_output "2 ^ 31"
  for us
  by unfold_locales
    (simp_all add: sm3_update_core sm3_finish_eqs(1) flip: sm3_finish_eqs(2),
     simp_all add: sm3_core_def sm3_starts_def)

lemma sm3_wf_uninit [simp]: "length (mc_buf (sm3_core (sm3_uninit s))) = 64"
  by (simp add: sm3_uninit_def)

lemma sm3_eq_hash: "length m < 2 ^ 31 \<Longrightarrow> sm3 us s m (int (length m)) = sm3_hash us m"
  unfolding sm3_def Let_def by (rule sm3.hash_one [OF sm3_wf_uninit])

lemma sm3_finish_pair:
  "sm3_finish us c = (c', d) \<Longrightarrow> length d = 32 \<and> sm3_opad c' = sm3_opad c"
  using sm3_finish_eqs [of us c] by (simp add: sm3_output_def)

text \<open>The context after the pads have been filled from the key.\<close>

definition sm3_keyed :: "ub_shift \<Rightarrow> sm3_context \<Rightarrow> u8 list \<Rightarrow> sm3_context" where
  "sm3_keyed us c key = c\<lparr>sm3_ipad := hmac_pad 0x36 (hmac_key (sm3_hash us) key),
                         sm3_opad := hmac_pad 0x5C (hmac_key (sm3_hash us) key)\<rparr>"

lemma sm3_hmac_starts_eq:
  "length key < 2 ^ 31 \<Longrightarrow> sm3_hmac_starts us s c key (int (length key)) =
     sm3_update us (sm3_starts (sm3_keyed us c key)) (hmac_pad 0x36 (hmac_key (sm3_hash us) key)) 64"
  unfolding sm3_hmac_starts_def sm3_keyed_def sm3_starts_def hmac_pad_def hmac_key_def
  by (simp add: sm3_eq_hash Let_def)

lemma sm3_hmac_finish_eq:
  "length (sm3_opad c) = 64 \<Longrightarrow> sm3_hmac_finish us c =
     (let (c, tmp) = sm3_finish us c; c = sm3_starts c;
          c = sm3_update us c (sm3_opad c) (int (length (sm3_opad c)));
          c = sm3_update us c tmp (int (length tmp)) in sm3_finish us c)"
  by (cases "sm3_finish us c")
    (simp add: sm3_hmac_finish_def Let_def sm3_update_frame sm3_starts_def sm3_finish_pair)

interpretation sm3: hmac_hash "\<lambda>c. length (mc_buf (sm3_core c)) = 64" sm3_starts
  "\<lambda>c x. sm3_update us c x (int (length x))" "sm3_finish us"
  "\<lambda>m c. md_absorbed (sm3_compress us) sm3_iv m (sm3_core c) \<and> True" "sm3_hash us" "2 ^ 31"
  sm3_opad "sm3_keyed us" "\<lambda>c key. sm3_hmac_starts us s c key (int (length key))"
  "sm3_hmac_finish us"
  for us s
proof unfold_locales
  show "length (sm3_opad c) = 64 \<Longrightarrow> sm3_hmac_finish us c =
     (let (c, tmp) = sm3_finish us c; c = sm3_starts c;
          c = sm3_update us c (sm3_opad c) (int (length (sm3_opad c)));
          c = sm3_update us c tmp (int (length tmp)) in sm3_finish us c)" for c
    by (rule sm3_hmac_finish_eq)
qed (simp_all add: sm3_hmac_starts_eq sm3_starts_def sm3_update_frame sm3_finish_eqs sm3_keyed_def
    sm3_core_def)

section \<open>Properties\<close>

text \<open>C7: however a message is cut into pieces, feeding the pieces to \<open>sm3_update\<close> and finishing
  gives the digest that \<open>sm3\<close> computes of the whole message. What the stack slots of the two
  contexts held, and what undefined shifts do, does not matter.\<close>

theorem sm3_streaming:
  assumes "\<forall>x \<in> set xs. length x < 2 ^ 31" and "length (concat xs) < 2 ^ 31"
  shows "snd (sm3_finish us
      (foldl (\<lambda>c x. sm3_update us c x (int (length x))) (sm3_starts (sm3_uninit s)) xs))
    = sm3 us s' (concat xs) (int (length (concat xs)))"
  unfolding sm3_eq_hash [OF assms(2)] using sm3.hash_pieces [OF sm3_wf_uninit assms(1)] .

theorem sm3_streaming_witness:
  "snd (sm3_finish x86_shift (foldl (\<lambda>c x. sm3_update x86_shift c x (int (length x)))
      (sm3_starts (sm3_uninit stack_cc)) [[0x61], [], [0x62, 0x63]]))
    = sm3 x86_shift stack_cc [0x61, 0x62, 0x63] 3"
  using sm3_streaming [of "[[0x61], [], [0x62, 0x63]]" x86_shift stack_cc stack_cc] by simp

text \<open>C8: where a shift instruction masks its count, as on x86, \<open>sm3\<close> computes the hash of GB/T
  32905: the standard's compression function over the blocks of the padded message.\<close>

theorem sm3_standard:
  assumes "masks_count us" and "length m < 2 ^ 31"
  shows "sm3 us s m (int (length m)) = concat (map put_be (md_digest sm3_std_compress sm3_iv m))"
proof -
  have "sm3_compress us = sm3_std_compress" by (intro ext sm3_compress_std assms(1))
  then show ?thesis
    by (simp only: sm3_eq_hash [OF assms(2)] md_hash_def sm3_output_eq length_sm3_std_digest)
qed

theorem sm3_standard_witness:
  "sm3 x86_shift stack_cc abc (int (length abc)) = concat (map put_be (md_digest sm3_std_compress sm3_iv abc))"
  by (rule sm3_standard [OF masks_count_x86]) (simp add: abc_def)

text \<open>C9: HMAC-SM3. Starting with a key (hashed first when longer than a block), feeding the message
  in pieces and finishing gives \<open>H ((K xor opad) @ H ((K xor ipad) @ m))\<close> of RFC 2104.\<close>

theorem sm3_hmac_rfc2104:
  assumes "length key < 2 ^ 31" and "length m < 2 ^ 31"
  shows "sm3_hmac us s s' key (int (length key)) m (int (length m)) = hmac_spec (sm3_hash us) key m"
  using sm3.hmac_pieces [OF sm3_wf_uninit assms(1), of "[m]" us s' s] assms(2)
  by (simp add: sm3_hmac_def sm3_hmac_update_def)

theorem sm3_hmac_rfc2104_witness:
  "sm3_hmac x86_shift stack_cc stack_cc (replicate 65 7) 65 [1, 2] 2 = hmac_spec (sm3_hash x86_shift) (replicate 65 7) [1, 2]"
  using sm3_hmac_rfc2104 [of "replicate 65 7" "[1, 2]" x86_shift stack_cc stack_cc] by simp

end
