(* ===== verification/Sm3_Sample.thy ===== *)
theory Sm3_Sample
  imports Sm3
begin

text \<open>
  The first sample of the SM3 standard, evaluated: the message words, the sixty-four rounds in four
  groups of sixteen, and the digest of \<open>"abc"\<close>.
\<close>

unbundle bit_operations_syntax

section \<open>A published sample\<close>

lemma sm3_round_app: "sm3_round us FF GG W W1 (A, B, C, D, E, F, G, H) j =
   (let SS1 = ROTL us (ROTL us A 12 + E + ROTL us (sm3_T ! j) (int j)) 7;
         SS2 = SS1 XOR ROTL us A 12;
         TT1 = FF A B C + D + SS2 + W1 ! j;
         TT2 = GG E F G + H + SS1 + W ! j
     in (TT1, A, ROTL us B 9, C, P0 us TT2, E, ROTL us F 19, G))"
  by (simp add: sm3_round_def)

lemma sm3_T_nth: "j < 64 \<Longrightarrow> sm3_T ! j = (if j < 16 then 0x79CC4519 else 0x7A879D8A)"
  by (simp add: sm3_T_def)

lemmas sm3_eval = sm3_expand_def ROTL_shifts [OF masks_count_x86] P1_def P0_def FF0_def FF1_def
  GG0_def GG1_def u32_reduce sm3_round_app sm3_T_nth

definition sm3_abc_W :: "u32 list" where
  "sm3_abc_W = [0x61626380, 0x00000000, 0x00000000, 0x00000000, 0x00000000, 0x00000000, 0x00000000, 0x00000000,
     0x00000000, 0x00000000, 0x00000000, 0x00000000, 0x00000000, 0x00000000, 0x00000000, 0x00000018,
     0x9092E200, 0x00000000, 0x000C0606, 0x719C70ED, 0x00000000, 0x8001801F, 0x939F7DA9, 0x00000000,
     0x2C6FA1F9, 0xADAAEF14, 0x00000000, 0x0001801E, 0x9A965F89, 0x49710048, 0x23CE86A1, 0xB2D12F1B,
     0xE1DAE338, 0xF8061807, 0x055D68BE, 0x86CFD481, 0x1F447D83, 0xD9023DBF, 0x185898E0, 0xE0061807,
     0x050DF55C, 0xCDE0104C, 0xA5B9C955, 0xA7DF0184, 0x6E46CD08, 0xE3BABDF8, 0x70CAA422, 0x0353AF50,
     0xA92DBCA1, 0x5F33CFD2, 0xE16F6E89, 0xF70FE941, 0xCA5462DC, 0x85A90152, 0x76AF6296, 0xC922BDB2,
     0x68378CF5, 0x97585344, 0x09008723, 0x86FAEE74, 0x2AB908B0, 0x4A64BC50, 0x864E6E08, 0xF07E6590,
     0x325C8F78, 0xACCB8011, 0xE11DB9DD, 0xB99C0545]"

definition sm3_abc_W1 :: "u32 list" where
  "sm3_abc_W1 = [0x61626380, 0x00000000, 0x00000000, 0x00000000, 0x00000000, 0x00000000, 0x00000000, 0x00000000,
     0x00000000, 0x00000000, 0x00000000, 0x00000018, 0x9092E200, 0x00000000, 0x000C0606, 0x719C70F5,
     0x9092E200, 0x8001801F, 0x93937BAF, 0x719C70ED, 0x2C6FA1F9, 0x2DAB6F0B, 0x939F7DA9, 0x0001801E,
     0xB6F9FE70, 0xE4DBEF5C, 0x23CE86A1, 0xB2D0AF05, 0x7B4CBCB1, 0xB177184F, 0x2693EE1F, 0x341EFB9A,
     0xFE9E9EBB, 0x210425B8, 0x1D05F05E, 0x66C9CC86, 0x1A4988DF, 0x14E22DF3, 0xBDE151B5, 0x47D91983,
     0x6B4B3854, 0x2E5AADB4, 0xD5736D77, 0xA48CAED4, 0xC76B71A9, 0xBC89722A, 0x91A5CAAB, 0xF45C4611,
     0x6379DE7D, 0xDA9ACE80, 0x97C00C1F, 0x3E2D54F3, 0xA263EE29, 0x12F15216, 0x7FAFE5B5, 0x4FD853C6,
     0x428E8445, 0xDD3CEF14, 0x8F4EE92B, 0x76848BE4, 0x18E587C8, 0xE6AF3C41, 0x6753D7D5, 0x49E260D5]"

lemma sm3_abc_expand:
  "foldl (sm3_expand x86_shift) [0x61626380, 0x00000000, 0x00000000, 0x00000000, 0x00000000, 0x00000000, 0x00000000, 0x00000000,
       0x00000000, 0x00000000, 0x00000000, 0x00000000, 0x00000000, 0x00000000, 0x00000000, 0x00000018] [16..<68]
   = sm3_abc_W"
  by (simp add: sm3_eval sm3_abc_W_def cong: let_weak_cong)

lemma sm3_abc_W1_eq: "map (\<lambda>j. sm3_abc_W ! j XOR sm3_abc_W ! (j + 4)) [0..<64] = sm3_abc_W1"
  by (simp add: sm3_abc_W_def sm3_abc_W1_def upt64)

lemma sm3_abc_rounds1:
  "foldl (sm3_round x86_shift FF0 GG0 sm3_abc_W sm3_abc_W1)
     (0x7380166F, 0x4914B2B9, 0x172442D7, 0xDA8A0600, 0xA96F30BC, 0x163138AA, 0xE38DEE4D, 0xB0FB0E4E) [0..<16]
   = (0x34D1691E, 0x7C529778, 0x92B57849, 0x979AB113, 0x61F99646, 0x3EE95933, 0x2AA0D251, 0xDB131B86)"
  by (simp add: sm3_eval upt16 sm3_abc_W_def sm3_abc_W1_def cong: let_weak_cong)

lemma sm3_abc_rounds_32:
  "foldl (sm3_round x86_shift FF1 GG1 sm3_abc_W sm3_abc_W1)
     (0x34D1691E, 0x7C529778, 0x92B57849, 0x979AB113, 0x61F99646, 0x3EE95933, 0x2AA0D251, 0xDB131B86) [16..<32]
   = (0x89A13E59, 0xA5A4A2B3, 0x37593BFF, 0x3D708FC2, 0x0A1FF572, 0xE92DF4EA, 0xA36CC08D, 0x74B72DB2)"
  by (simp add: sm3_eval sm3_abc_W_def sm3_abc_W1_def cong: let_weak_cong)

lemma sm3_abc_rounds_48:
  "foldl (sm3_round x86_shift FF1 GG1 sm3_abc_W sm3_abc_W1)
     (0x89A13E59, 0xA5A4A2B3, 0x37593BFF, 0x3D708FC2, 0x0A1FF572, 0xE92DF4EA, 0xA36CC08D, 0x74B72DB2) [32..<48]
   = (0x47C5BE50, 0xE51076B3, 0x12150DA4, 0xD0B273B0, 0x3567734E, 0xD9F89E61, 0xB1297299, 0xEFAC7743)"
  by (simp add: sm3_eval sm3_abc_W_def sm3_abc_W1_def cong: let_weak_cong)

lemma sm3_abc_rounds_64:
  "foldl (sm3_round x86_shift FF1 GG1 sm3_abc_W sm3_abc_W1)
     (0x47C5BE50, 0xE51076B3, 0x12150DA4, 0xD0B273B0, 0x3567734E, 0xD9F89E61, 0xB1297299, 0xEFAC7743) [48..<64]
   = (0x1547E69B, 0x2BFA5F60, 0xC6D696BC, 0x069AE2E2, 0xE808F43B, 0x4AC3CF08, 0xCAF04E66, 0x3FB0A6AE)"
  by (simp add: sm3_eval sm3_abc_W_def sm3_abc_W1_def cong: let_weak_cong)

lemma sm3_abc_compress:
  "sm3_compress x86_shift sm3_iv abc_block = [0x66C7F0F4, 0x62EEEDD9, 0xD1F2D46B, 0xDC10E4E2, 0x4167C487, 0x5CF2F7A2, 0x297DA02B, 0x8F4BA8E0]"
proof -
  have b: "map (\<lambda>i. get_be abc_block (4 * i)) [0..<16] = [0x61626380, 0x00000000, 0x00000000, 0x00000000, 0x00000000, 0x00000000, 0x00000000, 0x00000000,
       0x00000000, 0x00000000, 0x00000000, 0x00000000, 0x00000000, 0x00000000, 0x00000000, 0x00000018]"
    by (simp add: upt16 abc_block_def get_be_def nth_append)
  have u: "[16..<64] = [16..<32] @ [32..<48] @ [48..<64::nat]"
    using upt_add_eq_append [of 16 32 32] upt_add_eq_append [of 32 48 16]
    by (simp del: upt_rec_numeral)
  show ?thesis
    unfolding sm3_compress_def b Let_def sm3_abc_expand sm3_abc_W1_eq u foldl_append
    by (simp add: sm3_iv_def sm3_abc_rounds1 sm3_abc_rounds_32 sm3_abc_rounds_48 sm3_abc_rounds_64
        del: upt_rec_numeral)
qed

text \<open>the digest of \<open>"abc"\<close> is the one the comment at the head of \<open>sm3.c\<close> gives (sample 1 of the
  standard), where shift counts are masked.\<close>

theorem sm3_sample_1:
  "sm3 x86_shift s abc (int (length abc)) =
    concat (map put_be [0x66C7F0F4, 0x62EEEDD9, 0xD1F2D46B, 0xDC10E4E2,
                        0x4167C487, 0x5CF2F7A2, 0x297DA02B, 0x8F4BA8E0])"
proof -
  have "length abc < 2 ^ 31" by (simp add: abc_def)
  then show ?thesis
    by (simp only: sm3_eq_hash md_hash_def md_digest_def chunks_abc foldl_Cons foldl_Nil
        sm3_abc_compress) (rule sm3_output_eq, simp)
qed

end
