(* ===== verification/Sha1.thy ===== *)
theory Sha1
  imports Md_Hash
begin

text \<open>
  \<open>Common/sha1.c\<close>: SHA-1. The compression function of the source keeps 16 words of the message
  schedule in a ring and unrolls the 80 rounds, renaming the five registers from one round to the
  next instead of moving them. \<open>sha1_compress\<close> follows it: the registers are an array, the macro
  \<open>P\<close> takes the indices of the registers it works on, and \<open>sha1_args\<close> is the renaming. The
  standard's function, with an 80-word schedule and registers that move, is \<open>sha1_std_compress\<close>.
  The interface \<open>stream_hash\<close> is interpreted on the operations.
\<close>

unbundle bit_operations_syntax

section \<open>The compression function\<close>

record sha1_context =
  sha1_total :: "u32 \<times> u32"
  sha1_state :: "u32 list"
  sha1_buffer :: "u8 list"

definition sha1_S :: "u32 \<Rightarrow> nat \<Rightarrow> u32" where
  "sha1_S x n = push_bit n x OR drop_bit (32 - n) (x AND 0xFFFFFFFF)"

text \<open>The macro \<open>R(t)\<close>: the next schedule word, stored over the oldest one of the ring.\<close>

definition sha1_R :: "u32 list \<Rightarrow> nat \<Rightarrow> u32 \<times> u32 list" where
  "sha1_R W t =
     (let temp = W ! ((t - 3) AND 0x0F) XOR W ! ((t - 8) AND 0x0F)
               XOR W ! ((t - 14) AND 0x0F) XOR W ! (t AND 0x0F);
          w = sha1_S temp 1
      in (w, W[t AND 0x0F := w]))"

text \<open>The macro \<open>F\<close> and the constant \<open>K\<close> as they are redefined between the groups of 20 rounds.\<close>

definition sha1_F :: "nat \<Rightarrow> u32 \<Rightarrow> u32 \<Rightarrow> u32 \<Rightarrow> u32" where
  "sha1_F t x y z =
     (if t < 20 then z XOR (x AND (y XOR z))
      else if t < 40 then x XOR y XOR z
      else if t < 60 then (x AND y) OR (z AND (x OR y))
      else x XOR y XOR z)"

definition sha1_K :: "nat \<Rightarrow> u32" where
  "sha1_K t = (if t < 20 then 0x5A827999 else if t < 40 then 0x6ED9EBA1
               else if t < 60 then 0x8F1BBCDC else 0xCA62C1D6)"

text \<open>The registers \<open>A\<close>, \<open>B\<close>, \<open>C\<close>, \<open>D\<close>, \<open>E\<close> are the cells 0 to 4 of \<open>r\<close>.\<close>

definition sha1_P ::
  "nat \<Rightarrow> u32 list \<Rightarrow> nat \<times> nat \<times> nat \<times> nat \<times> nat \<Rightarrow> u32 \<Rightarrow> u32 list" where
  "sha1_P t r = (\<lambda>(a, b, c, d, e) x.
     let r = r[e := r ! e + (sha1_S (r ! a) 5 + sha1_F t (r ! b) (r ! c) (r ! d) + sha1_K t + x)]
     in r[b := sha1_S (r ! b) 30])"

text \<open>Round \<open>t\<close> is \<open>P(A,B,C,D,E,\<dots>)\<close>, \<open>P(E,A,B,C,D,\<dots>)\<close>, \<open>P(D,E,A,B,C,\<dots>)\<close>, \<open>P(C,D,E,A,B,\<dots>)\<close> or
  \<open>P(B,C,D,E,A,\<dots>)\<close>, in turn.\<close>

definition sha1_args :: "nat \<Rightarrow> nat \<times> nat \<times> nat \<times> nat \<times> nat" where
  "sha1_args t = [(0, 1, 2, 3, 4), (4, 0, 1, 2, 3), (3, 4, 0, 1, 2), (2, 3, 4, 0, 1), (1, 2, 3, 4, 0)]
     ! (t mod 5)"

definition sha1_round :: "u32 list \<times> u32 list \<Rightarrow> nat \<Rightarrow> u32 list \<times> u32 list" where
  "sha1_round = (\<lambda>(W, r) t.
     let (x, W) = (if t < 16 then (W ! t, W) else sha1_R W t)
     in (W, sha1_P t r (sha1_args t) x))"

definition sha1_compress :: "u32 list \<Rightarrow> u8 list \<Rightarrow> u32 list" where
  "sha1_compress st data =
     (let W = map (\<lambda>i. get_be data (4 * i)) [0..<16];
          r = [st ! 0, st ! 1, st ! 2, st ! 3, st ! 4];
          (W, r) = foldl sha1_round (W, r) [0..<80]
      in [st ! 0 + r ! 0, st ! 1 + r ! 1, st ! 2 + r ! 2, st ! 3 + r ! 3, st ! 4 + r ! 4])"

definition sha1_process :: "sha1_context \<Rightarrow> u8 list \<Rightarrow> sha1_context" where
  "sha1_process ctx data = ctx\<lparr>sha1_state := sha1_compress (sha1_state ctx) data\<rparr>"

section \<open>Contexts\<close>

definition sha1_iv :: "u32 list" where
  "sha1_iv = [0x67452301, 0xEFCDAB89, 0x98BADCFE, 0x10325476, 0xC3D2E1F0]"

definition sha1_starts :: "sha1_context \<Rightarrow> sha1_context" where
  "sha1_starts ctx = ctx\<lparr>sha1_total := (0, 0), sha1_state := sha1_iv\<rparr>"

definition sha1_update :: "sha1_context \<Rightarrow> u8 list \<Rightarrow> u32 \<Rightarrow> sha1_context" where
  "sha1_update ctx input length' =
     (if length' = 0 then ctx
      else
        let input = take (unat length') input;
            left = unat (fst (sha1_total ctx) AND 0x3F);
            fill = 64 - left;
            ctx = ctx\<lparr>sha1_total := count_bytes (unat length') (sha1_total ctx)\<rparr>;
            (ctx, input, left) =
              (if left \<noteq> 0 \<and> fill \<le> length input
               then let ctx = ctx\<lparr>sha1_buffer := blit (sha1_buffer ctx) left (take fill input)\<rparr>
                    in (sha1_process ctx (sha1_buffer ctx), drop fill input, 0)
               else (ctx, input, left));
            (ctx, input) = absorb_blocks sha1_process ctx input
        in if 0 < length input
           then ctx\<lparr>sha1_buffer := blit (sha1_buffer ctx) left input\<rparr> else ctx)"

definition sha1_padding :: "u8 list" where
  "sha1_padding = 0x80 # replicate 63 0"

definition sha1_finish :: "sha1_context \<Rightarrow> sha1_context \<times> u8 list" where
  "sha1_finish ctx =
     (let (total0, total1) = sha1_total ctx;
          high = drop_bit 29 total0 OR push_bit 3 total1;
          low = push_bit 3 total0;
          msglen = put_be high @ put_be low;
          last = unat (total0 AND 0x3F);
          padn = (if last < 56 then 56 - last else 120 - last);
          ctx = sha1_update ctx sha1_padding (of_nat padn);
          ctx = sha1_update ctx msglen 8;
          st = sha1_state ctx
      in (ctx, put_be (st ! 0) @ put_be (st ! 1) @ put_be (st ! 2) @ put_be (st ! 3)
             @ put_be (st ! 4)))"

text \<open>The local variable \<open>sha1_context ctx;\<close> of a caller.\<close>

definition sha1_uninit :: "stack_mem \<Rightarrow> sha1_context" where
  "sha1_uninit s = \<lparr>sha1_total = (sk32 s 0, sk32 s 1),
                    sha1_state = map (\<lambda>i. sk32 s (2 + i)) [0..<5],
                    sha1_buffer = map (sk8 s) [0..<64]\<rparr>"

section \<open>The standard's compression function\<close>

text \<open>FIPS 180-4, sections 4.1.1, 4.2.1 and 6.1.2.\<close>

fun sha1_W :: "u8 list \<Rightarrow> nat \<Rightarrow> u32" where
  "sha1_W data t =
     (if t < 16 then get_be data (4 * t)
      else word_rotl 1 (sha1_W data (t - 3) XOR sha1_W data (t - 8) XOR sha1_W data (t - 14)
             XOR sha1_W data (t - 16)))"

declare sha1_W.simps [simp del]

definition sha1_f :: "nat \<Rightarrow> u32 \<Rightarrow> u32 \<Rightarrow> u32 \<Rightarrow> u32" where
  "sha1_f t x y z =
     (if t < 20 then (x AND y) XOR (NOT x AND z)
      else if 40 \<le> t \<and> t < 60 then (x AND y) XOR (x AND z) XOR (y AND z)
      else x XOR y XOR z)"

definition sha1_std_round ::
  "u8 list \<Rightarrow> u32 \<times> u32 \<times> u32 \<times> u32 \<times> u32 \<Rightarrow> nat \<Rightarrow> u32 \<times> u32 \<times> u32 \<times> u32 \<times> u32" where
  "sha1_std_round data = (\<lambda>(a, b, c, d, e) t.
     let T = word_rotl 5 a + sha1_f t b c d + e + sha1_K t + sha1_W data t
     in (T, a, word_rotl 30 b, c, d))"

definition sha1_std_compress :: "u32 list \<Rightarrow> u8 list \<Rightarrow> u32 list" where
  "sha1_std_compress H data =
     (let (a, b, c, d, e) = foldl (sha1_std_round data) (H ! 0, H ! 1, H ! 2, H ! 3, H ! 4) [0..<80]
      in [H ! 0 + a, H ! 1 + b, H ! 2 + c, H ! 3 + d, H ! 4 + e])"

lemma and_15: "(n :: nat) AND 15 = n mod 16"
proof -
  have "n AND 15 = take_bit 4 n" by (simp add: take_bit_eq_mask mask_eq_exp_minus_1)
  then show ?thesis by (simp add: take_bit_eq_mod)
qed

lemma sha1_S_rotl: "0 < n \<Longrightarrow> n < 32 \<Longrightarrow> sha1_S x n = word_rotl n x"
  unfolding sha1_S_def and_all_ones by (rule shifts_rotl)

lemma sha1_F_f: "sha1_F t x y z = sha1_f t x y z"
proof -
  have "z XOR (x AND (y XOR z)) = (x AND y) XOR (NOT x AND z)"
    "(x AND y) OR (z AND (x OR y)) = (x AND y) XOR (x AND z) XOR (y AND z)"
    by (rule bit_word_eqI; simp add: bit_simps; blast)+
  then show ?thesis by (simp add: sha1_F_def sha1_f_def)
qed

text \<open>The ring holds the last 16 words of the schedule.\<close>

definition sha1_ring :: "u8 list \<Rightarrow> nat \<Rightarrow> u32 list \<Rightarrow> bool" where
  "sha1_ring data t W \<longleftrightarrow> length W = 16
     \<and> (\<forall>i < max 16 t. t \<le> i + 16 \<longrightarrow> W ! (i mod 16) = sha1_W data i)"

lemma sha1_ring_init: "sha1_ring data 0 (map (\<lambda>i. get_be data (4 * i)) [0..<16])"
  by (simp add: sha1_ring_def sha1_W.simps)

lemma sha1_ring_small: "sha1_ring data t W \<Longrightarrow> t < 16 \<Longrightarrow> W ! t = sha1_W data t \<and> sha1_ring data (Suc t) W"
  by (force simp: sha1_ring_def)

lemma sha1_ring_step:
  assumes W: "sha1_ring data t W" and t: "16 \<le> t"
  shows "fst (sha1_R W t) = sha1_W data t" and "sha1_ring data (Suc t) (snd (sha1_R W t))"
proof -
  have nth: "W ! (i mod 16) = sha1_W data i" if "i < t" "t \<le> i + 16" for i
    using W t that by (simp add: sha1_ring_def)
  have "(t - 16) mod 16 = t mod 16" using t by (simp add: le_mod_geq)
  with nth [of "t - 16"] t have "W ! (t mod 16) = sha1_W data (t - 16)" by simp
  with nth [of "t - 3"] nth [of "t - 8"] nth [of "t - 14"] t
  show w: "fst (sha1_R W t) = sha1_W data t"
    by (simp add: sha1_R_def Let_def and_15 sha1_S_rotl sha1_W.simps [of data t])
  have ne: False if "t mod 16 = i mod 16" "i < t" "t \<le> 15 + i" for i
  proof -
    have "16 dvd t - i" using that mod_eq_dvd_iff_nat [of i t 16] by simp
    then show False using that by (auto dest: dvd_imp_le)
  qed
  show "sha1_ring data (Suc t) (snd (sha1_R W t))"
    using W t w nth
    by (auto simp: sha1_ring_def sha1_R_def Let_def and_15 less_Suc_eq nth_list_update dest: ne)
qed

text \<open>The register array seen in the order in which round \<open>t\<close> names the registers.\<close>

definition sha1_view :: "nat \<Rightarrow> u32 list \<Rightarrow> u32 \<times> u32 \<times> u32 \<times> u32 \<times> u32" where
  "sha1_view t r = (let (a, b, c, d, e) = sha1_args t in (r ! a, r ! b, r ! c, r ! d, r ! e))"

lemma mod5_cases:
  fixes t :: nat
  obtains "t mod 5 = 0" "Suc t mod 5 = 1" | "t mod 5 = 1" "Suc t mod 5 = 2"
    | "t mod 5 = 2" "Suc t mod 5 = 3" | "t mod 5 = 3" "Suc t mod 5 = 4" | "t mod 5 = 4" "Suc t mod 5 = 0"
proof -
  have "t mod 5 < 5" by simp
  then have "t mod 5 = 0 \<or> t mod 5 = 1 \<or> t mod 5 = 2 \<or> t mod 5 = 3 \<or> t mod 5 = 4" by linarith
  then show ?thesis using that by (auto simp: mod_Suc)
qed

lemma sha1_P_view:
  assumes "length r = 5"
  shows "sha1_view (Suc t) (sha1_P t r (sha1_args t) (sha1_W data t))
    = sha1_std_round data (sha1_view t r) t"
proof -
  obtain A B C D E where r: "r = [A, B, C, D, E]"
    using assms by (auto simp: numeral_eq_Suc length_Suc_conv)
  show ?thesis
    by (rule mod5_cases [of t])
      (simp_all add: r sha1_view_def sha1_args_def sha1_P_def sha1_std_round_def sha1_S_rotl sha1_F_f
        Let_def ac_simps)
qed

lemma sha1_rounds_std:
  assumes "length r = 5"
  shows "k \<le> 80 \<Longrightarrow>
    let (W, r') = foldl sha1_round (map (\<lambda>i. get_be data (4 * i)) [0..<16], r) [0..<k]
    in sha1_ring data k W \<and> length r' = 5
       \<and> sha1_view k r' = foldl (sha1_std_round data) (sha1_view 0 r) [0..<k]"
proof (induction k)
  case 0
  then show ?case using assms sha1_ring_init [of data] by simp
next
  case (Suc k)
  obtain W r' where f: "foldl sha1_round (map (\<lambda>i. get_be data (4 * i)) [0..<16], r) [0..<k] = (W, r')"
    by fastforce
  with Suc have W: "sha1_ring data k W" and r': "length r' = 5"
    and v: "sha1_view k r' = foldl (sha1_std_round data) (sha1_view 0 r) [0..<k]" by simp_all
  obtain x W' where x: "(if k < 16 then (W ! k, W) else sha1_R W k) = (x, W')" by fastforce
  have "x = sha1_W data k" "sha1_ring data (Suc k) W'"
    using x sha1_ring_small [OF W] sha1_ring_step [OF W] by (cases "k < 16"; simp)+
  moreover have "length (sha1_P k r' (sha1_args k) x) = 5"
    using r' by (simp add: sha1_P_def Let_def split: prod.split)
  ultimately show ?case
    using f x r' v sha1_P_view [OF r'] by (simp add: sha1_round_def)
qed

lemma sha1_compress_std: "sha1_compress st data = sha1_std_compress st data"
proof -
  let ?r = "[st ! 0, st ! 1, st ! 2, st ! 3, st ! 4]"
  obtain W r where f: "foldl sha1_round (map (\<lambda>i. get_be data (4 * i)) [0..<16], ?r) [0..<80] = (W, r)"
    by fastforce
  have v: "sha1_view 0 q = (q ! 0, q ! 1, q ! 2, q ! 3, q ! 4)"
    "sha1_view 80 q = (q ! 0, q ! 1, q ! 2, q ! 3, q ! 4)" for q
    by (simp_all add: sha1_view_def sha1_args_def)
  have "foldl (sha1_std_round data) (st ! 0, st ! 1, st ! 2, st ! 3, st ! 4) [0..<80]
      = (r ! 0, r ! 1, r ! 2, r ! 3, r ! 4)"
    using sha1_rounds_std [of ?r 80 data] unfolding f v by (simp del: upt_rec_numeral)
  then show ?thesis
    unfolding sha1_compress_def sha1_std_compress_def Let_def f by (simp del: upt_rec_numeral)
qed

lemma sha1_padn: "unat (of_nat (md_padn t) :: u32) = md_padn t"
  using md_padn_le [of t] by (simp add: unat_of_nat)

section \<open>Streaming\<close>

definition sha1_core :: "sha1_context \<Rightarrow> md_core" where
  "sha1_core c = \<lparr>mc_t0 = fst (sha1_total c), mc_t1 = snd (sha1_total c),
                  mc_st = sha1_state c, mc_buf = sha1_buffer c\<rparr>"

lemma sha1_blocks:
  "absorb_blocks sha1_process c xs =
   (c\<lparr>sha1_state := fst (absorb_blocks sha1_compress (sha1_state c) xs)\<rparr>,
    snd (absorb_blocks sha1_compress (sha1_state c) xs))"
proof (induction sha1_process c xs rule: absorb_blocks.induct)
  case (1 c xs)
  then show ?case
    by (simp add: absorb_blocks.simps [of sha1_process]
        absorb_blocks.simps [of sha1_compress "sha1_state c"]) (simp add: sha1_process_def)
qed

lemma sha1_update_core:
  assumes "length xs < 2 ^ 32"
  shows "sha1_core (sha1_update c xs (of_nat (length xs))) = md_update sha1_compress (sha1_core c) xs"
proof -
  have "unat (of_nat (length xs) :: u32) = length xs"
    using assms by (simp add: unat_of_nat)
  then show ?thesis
    by (simp add: of_nat_32_0 [OF assms] sha1_update_def md_update_def sha1_core_def sha1_blocks
        sha1_process_def Let_def split: prod.split)
qed

lemma sha1_update_take:
  "sha1_update c xs n = sha1_update c (take (unat n) xs) n"
  by (simp add: sha1_update_def)

lemma sha1_finish_update:
  assumes "sha1_total c = (t0, t1)"
  shows "fst (sha1_finish c) =
    (let p = take (md_padn t0) md_padding; l = md_msglen t0 t1
     in sha1_update (sha1_update c p (of_nat (length p))) l (of_nat (length l)))"
proof -
  have f: "fst (sha1_finish c) = sha1_update (sha1_update c sha1_padding (of_nat (md_padn t0)))
      (md_msglen t0 t1) 8"
    by (simp only: sha1_finish_def assms md_padn_def md_msglen_def Let_def prod.case fst_conv)
  have "length (take (md_padn t0) md_padding) = md_padn t0" "length (md_msglen t0 t1) = 8"
    using md_padn_le [of t0] by (simp_all add: md_padding_def md_msglen_def)
  then show ?thesis
    using sha1_update_take [of c md_padding "of_nat (md_padn t0)"]
    by (simp add: f sha1_padn md_padding_def sha1_padding_def)
qed

definition sha1_output :: "u32 list \<Rightarrow> u8 list" where
  "sha1_output st = put_be (st ! 0) @ put_be (st ! 1) @ put_be (st ! 2) @ put_be (st ! 3)
     @ put_be (st ! 4)"

lemma sha1_finish_eqs:
  "snd (sha1_finish c) = sha1_output (mc_st (sha1_core (fst (sha1_finish c))))"
  "sha1_core (fst (sha1_finish c)) = md_close sha1_compress (sha1_core c)"
proof -
  obtain t0 t1 where t: "sha1_total c = (t0, t1)" by fastforce
  show "snd (sha1_finish c) = sha1_output (mc_st (sha1_core (fst (sha1_finish c))))"
    by (simp add: sha1_finish_def sha1_output_def sha1_core_def Let_def split: prod.split)
  have l: "length (take (md_padn t0) md_padding) < 2 ^ 32" "length (md_msglen t0 t1) < 2 ^ 32"
    by (simp_all add: md_padding_def md_msglen_def)
  show "sha1_core (fst (sha1_finish c)) = md_close sha1_compress (sha1_core c)"
    unfolding sha1_finish_update [OF t] Let_def sha1_update_core [OF l(1)] sha1_update_core [OF l(2)]
      md_close_def
    by (simp add: sha1_core_def t)
qed

interpretation sha1: md_module sha1_core "\<lambda>_. True" sha1_compress sha1_iv sha1_starts
  "\<lambda>c x. sha1_update c x (of_nat (length x))" sha1_finish sha1_output "2 ^ 32"
proof unfold_locales
  show "length x < 2 ^ 32 \<Longrightarrow> sha1_core (sha1_update c x (of_nat (length x)))
      = md_update sha1_compress (sha1_core c) x" for x c
    by (rule sha1_update_core)
qed (rule sha1_finish_eqs refl TrueI | simp add: sha1_core_def sha1_starts_def)+

lemma length_sha1_buffer_uninit: "length (mc_buf (sha1_core (sha1_uninit s))) = 64"
  by (simp add: sha1_core_def sha1_uninit_def)

lemma sha1_output_eq: "length st = 5 \<Longrightarrow> sha1_output st = concat (map put_be st)"
  by (auto simp: numeral_eq_Suc length_Suc_conv sha1_output_def)

lemma length_sha1_std_digest: "length (md_digest sha1_std_compress sha1_iv m) = 5"
  by (rule length_md_digest) (simp_all add: sha1_iv_def sha1_std_compress_def split: prod.split
    del: upt_rec_numeral)

section \<open>Properties\<close>

text \<open>C10: the source's SHA-1, with its 16-word ring, its unrolled rounds and its renamed registers,
  computes the hash of FIPS 180-4: feeding a message in any pieces and finishing gives the standard's
  compression function folded over the blocks of the padded message.\<close>

theorem sha1_standard:
  assumes "\<forall>x \<in> set xs. length x < 2 ^ 32"
  shows "snd (sha1_finish
      (foldl (\<lambda>c x. sha1_update c x (of_nat (length x))) (sha1_starts (sha1_uninit s)) xs))
    = concat (map put_be (md_digest sha1_std_compress sha1_iv (concat xs)))"
proof -
  have "sha1_compress = sha1_std_compress" by (intro ext sha1_compress_std)
  then show ?thesis
    using sha1.hash_pieces [OF length_sha1_buffer_uninit assms, of s]
    by (simp only: md_hash_def sha1_output_eq length_sha1_std_digest)
qed

theorem sha1_standard_witness:
  "snd (sha1_finish (sha1_update (sha1_update (sha1_starts (sha1_uninit stack_cc)) [0x61] 1) [0x62, 0x63] 2))
    = concat (map put_be (md_digest sha1_std_compress sha1_iv [0x61, 0x62, 0x63]))"
  using sha1_standard [of "[[0x61], [0x62, 0x63]]" stack_cc] by simp

end
