(* ===== verification/Sha256.thy ===== *)
theory Sha256
  imports Md_Hash
begin

text \<open>
  \<open>Common/sha256.c\<close>: SHA-256, SHA-224 and their HMAC. As in \<open>sha1.c\<close> the rounds are unrolled and
  rename the eight registers instead of moving them: \<open>sha256_P\<close> is the macro \<open>P\<close> on an array of
  registers, \<open>sha256_args\<close> the renaming, \<open>sha256_std_compress\<close> the standard's function. Lengths are
  of type \<open>size_t\<close>, but the context counts only their low 32 bits. The flag \<open>is224\<close> is part of the
  context, so the interfaces are interpreted once for each of its values.
\<close>

unbundle bit_operations_syntax

section \<open>The compression function\<close>

record sha256_context =
  sha256_total :: "u32 \<times> u32"
  sha256_state :: "u32 list"
  sha256_buffer :: "u8 list"
  sha256_ipad :: "u8 list"
  sha256_opad :: "u8 list"
  sha256_is224 :: int

definition sha256_SHR :: "u32 \<Rightarrow> nat \<Rightarrow> u32" where
  "sha256_SHR x n = drop_bit n (x AND 0xFFFFFFFF)"

definition sha256_ROTR :: "u32 \<Rightarrow> nat \<Rightarrow> u32" where
  "sha256_ROTR x n = sha256_SHR x n OR push_bit (32 - n) x"

definition sha256_S0 :: "u32 \<Rightarrow> u32" where
  "sha256_S0 x = sha256_ROTR x 7 XOR sha256_ROTR x 18 XOR sha256_SHR x 3"

definition sha256_S1 :: "u32 \<Rightarrow> u32" where
  "sha256_S1 x = sha256_ROTR x 17 XOR sha256_ROTR x 19 XOR sha256_SHR x 10"

definition sha256_S2 :: "u32 \<Rightarrow> u32" where
  "sha256_S2 x = sha256_ROTR x 2 XOR sha256_ROTR x 13 XOR sha256_ROTR x 22"

definition sha256_S3 :: "u32 \<Rightarrow> u32" where
  "sha256_S3 x = sha256_ROTR x 6 XOR sha256_ROTR x 11 XOR sha256_ROTR x 25"

definition sha256_F0 :: "u32 \<Rightarrow> u32 \<Rightarrow> u32 \<Rightarrow> u32" where
  "sha256_F0 x y z = (x AND y) OR (z AND (x OR y))"

definition sha256_F1 :: "u32 \<Rightarrow> u32 \<Rightarrow> u32 \<Rightarrow> u32" where
  "sha256_F1 x y z = z XOR (x AND (y XOR z))"

text \<open>The constants of the 64 uses of \<open>P\<close>.\<close>

definition sha256_K :: "u32 list" where
  "sha256_K =
    [0x428A2F98, 0x71374491, 0xB5C0FBCF, 0xE9B5DBA5, 0x3956C25B, 0x59F111F1, 0x923F82A4, 0xAB1C5ED5,
     0xD807AA98, 0x12835B01, 0x243185BE, 0x550C7DC3, 0x72BE5D74, 0x80DEB1FE, 0x9BDC06A7, 0xC19BF174,
     0xE49B69C1, 0xEFBE4786, 0x0FC19DC6, 0x240CA1CC, 0x2DE92C6F, 0x4A7484AA, 0x5CB0A9DC, 0x76F988DA,
     0x983E5152, 0xA831C66D, 0xB00327C8, 0xBF597FC7, 0xC6E00BF3, 0xD5A79147, 0x06CA6351, 0x14292967,
     0x27B70A85, 0x2E1B2138, 0x4D2C6DFC, 0x53380D13, 0x650A7354, 0x766A0ABB, 0x81C2C92E, 0x92722C85,
     0xA2BFE8A1, 0xA81A664B, 0xC24B8B70, 0xC76C51A3, 0xD192E819, 0xD6990624, 0xF40E3585, 0x106AA070,
     0x19A4C116, 0x1E376C08, 0x2748774C, 0x34B0BCB5, 0x391C0CB3, 0x4ED8AA4A, 0x5B9CCA4F, 0x682E6FF3,
     0x748F82EE, 0x78A5636F, 0x84C87814, 0x8CC70208, 0x90BEFFFA, 0xA4506CEB, 0xBEF9A3F7, 0xC67178F2]"

text \<open>The macro \<open>R(t)\<close>; \<open>W\<close> holds the words below \<open>t\<close>.\<close>

definition sha256_R :: "u32 list \<Rightarrow> nat \<Rightarrow> u32 \<times> u32 list" where
  "sha256_R W t =
     (let w = sha256_S1 (W ! (t - 2)) + W ! (t - 7) + sha256_S0 (W ! (t - 15)) + W ! (t - 16)
      in (w, W @ [w]))"

text \<open>The registers \<open>A\<close> to \<open>H\<close> are the cells 0 to 7 of \<open>r\<close>.\<close>

type_synonym sha256_names = "nat \<times> nat \<times> nat \<times> nat \<times> nat \<times> nat \<times> nat \<times> nat"

definition sha256_P :: "u32 list \<Rightarrow> sha256_names \<Rightarrow> u32 \<Rightarrow> u32 \<Rightarrow> u32 list" where
  "sha256_P r = (\<lambda>(a, b, c, d, e, f, g, h) x K.
     let temp1 = r ! h + sha256_S3 (r ! e) + sha256_F1 (r ! e) (r ! f) (r ! g) + K + x;
         temp2 = sha256_S2 (r ! a) + sha256_F0 (r ! a) (r ! b) (r ! c);
         r = r[d := r ! d + temp1]
     in r[h := temp1 + temp2])"

text \<open>Round \<open>t\<close> is \<open>P(A,B,C,D,E,F,G,H,\<dots>)\<close>, \<open>P(H,A,B,C,D,E,F,G,\<dots>)\<close> and so on, in turn.\<close>

definition sha256_args :: "nat \<Rightarrow> sha256_names" where
  "sha256_args t =
     [(0, 1, 2, 3, 4, 5, 6, 7),
      (7, 0, 1, 2, 3, 4, 5, 6),
      (6, 7, 0, 1, 2, 3, 4, 5),
      (5, 6, 7, 0, 1, 2, 3, 4),
      (4, 5, 6, 7, 0, 1, 2, 3),
      (3, 4, 5, 6, 7, 0, 1, 2),
      (2, 3, 4, 5, 6, 7, 0, 1),
      (1, 2, 3, 4, 5, 6, 7, 0)] ! (t mod 8)"

definition sha256_round :: "u32 list \<times> u32 list \<Rightarrow> nat \<Rightarrow> u32 list \<times> u32 list" where
  "sha256_round = (\<lambda>(W, r) t.
     let (x, W) = (if t < 16 then (W ! t, W) else sha256_R W t)
     in (W, sha256_P r (sha256_args t) x (sha256_K ! t)))"

definition sha256_compress :: "u32 list \<Rightarrow> u8 list \<Rightarrow> u32 list" where
  "sha256_compress st data =
     (let W = map (\<lambda>i. get_be data (4 * i)) [0..<16];
          r = [st ! 0, st ! 1, st ! 2, st ! 3, st ! 4, st ! 5, st ! 6, st ! 7];
          (W, r) = foldl sha256_round (W, r) [0..<64]
      in [st ! 0 + r ! 0, st ! 1 + r ! 1, st ! 2 + r ! 2, st ! 3 + r ! 3,
          st ! 4 + r ! 4, st ! 5 + r ! 5, st ! 6 + r ! 6, st ! 7 + r ! 7])"

definition sha256_process :: "sha256_context \<Rightarrow> u8 list \<Rightarrow> sha256_context" where
  "sha256_process ctx data = ctx\<lparr>sha256_state := sha256_compress (sha256_state ctx) data\<rparr>"

section \<open>Contexts\<close>

text \<open>\<open>sha256_init\<close> and \<open>sha256_free\<close> both fill the context with zero bytes.\<close>

definition sha256_zero :: sha256_context where
  "sha256_zero = \<lparr>sha256_total = (0, 0), sha256_state = replicate 8 0,
     sha256_buffer = replicate 64 0, sha256_ipad = replicate 64 0, sha256_opad = replicate 64 0,
     sha256_is224 = 0\<rparr>"

definition sha256_init :: "sha256_context \<Rightarrow> sha256_context" where
  "sha256_init ctx = sha256_zero"

definition sha256_free :: "sha256_context option \<Rightarrow> sha256_context option" where
  "sha256_free p = (case p of None \<Rightarrow> None | Some ctx \<Rightarrow> Some sha256_zero)"

definition sha256_iv :: "int \<Rightarrow> u32 list" where
  "sha256_iv is224 =
     (if is224 = 0
      then [0x6A09E667, 0xBB67AE85, 0x3C6EF372, 0xA54FF53A,
            0x510E527F, 0x9B05688C, 0x1F83D9AB, 0x5BE0CD19]
      else [0xC1059ED8, 0x367CD507, 0x3070DD17, 0xF70E5939,
            0xFFC00B31, 0x68581511, 0x64F98FA7, 0xBEFA4FA4])"

definition sha256_starts :: "sha256_context \<Rightarrow> int \<Rightarrow> sha256_context" where
  "sha256_starts ctx is224 =
     ctx\<lparr>sha256_total := (0, 0), sha256_state := sha256_iv is224, sha256_is224 := is224\<rparr>"

definition sha256_count :: "u64 \<Rightarrow> u32 \<times> u32 \<Rightarrow> u32 \<times> u32" where
  "sha256_count ilen = (\<lambda>(t0, t1).
     let t0' = t0 + u32_of_u64 ilen in (t0', if t0' < u32_of_u64 ilen then t1 + 1 else t1))"

definition sha256_update :: "sha256_context \<Rightarrow> u8 list \<Rightarrow> u64 \<Rightarrow> sha256_context" where
  "sha256_update ctx input ilen =
     (if ilen = 0 then ctx
      else
        let input = take (unat ilen) input;
            left = unat (fst (sha256_total ctx) AND 0x3F);
            fill = 64 - left;
            ctx = ctx\<lparr>sha256_total := sha256_count ilen (sha256_total ctx)\<rparr>;
            (ctx, input, left) =
              (if left \<noteq> 0 \<and> fill \<le> length input
               then let ctx = ctx\<lparr>sha256_buffer := blit (sha256_buffer ctx) left (take fill input)\<rparr>
                    in (sha256_process ctx (sha256_buffer ctx), drop fill input, 0)
               else (ctx, input, left));
            (ctx, input) = absorb_blocks sha256_process ctx input
        in if 0 < length input
           then ctx\<lparr>sha256_buffer := blit (sha256_buffer ctx) left input\<rparr> else ctx)"

definition sha256_padding :: "u8 list" where
  "sha256_padding = 0x80 # replicate 63 0"

text \<open>The second component of the result holds the bytes stored to \<open>output\<close>: 32, or 28 of SHA-224.\<close>

definition sha256_finish :: "sha256_context \<Rightarrow> sha256_context \<times> u8 list" where
  "sha256_finish ctx =
     (let (total0, total1) = sha256_total ctx;
          high = drop_bit 29 total0 OR push_bit 3 total1;
          low = push_bit 3 total0;
          msglen = put_be high @ put_be low;
          last = unat (total0 AND 0x3F);
          padn = (if last < 56 then 56 - last else 120 - last);
          ctx = sha256_update ctx sha256_padding (of_nat padn);
          ctx = sha256_update ctx msglen 8;
          st = sha256_state ctx
      in (ctx, put_be (st ! 0) @ put_be (st ! 1) @ put_be (st ! 2) @ put_be (st ! 3)
             @ put_be (st ! 4) @ put_be (st ! 5) @ put_be (st ! 6)
             @ (if sha256_is224 ctx = 0 then put_be (st ! 7) else [])))"

text \<open>The local variable \<open>sha256_context ctx;\<close> of a caller.\<close>

definition sha256_uninit :: "stack_mem \<Rightarrow> sha256_context" where
  "sha256_uninit s = \<lparr>sha256_total = (sk32 s 0, sk32 s 1),
     sha256_state = map (\<lambda>i. sk32 s (2 + i)) [0..<8], sha256_buffer = map (sk8 s) [0..<64],
     sha256_ipad = map (\<lambda>i. sk8 s (64 + i)) [0..<64],
     sha256_opad = map (\<lambda>i. sk8 s (128 + i)) [0..<64], sha256_is224 = sint (sk32 s 10)\<rparr>"

definition sha256 :: "stack_mem \<Rightarrow> u8 list \<Rightarrow> u64 \<Rightarrow> int \<Rightarrow> u8 list" where
  "sha256 s input ilen is224 =
     (let ctx = sha256_init (sha256_uninit s);
          ctx = sha256_starts ctx is224;
          ctx = sha256_update ctx input ilen
      in snd (sha256_finish ctx))"

definition sha256_hmac_starts ::
  "stack_mem \<Rightarrow> sha256_context \<Rightarrow> u8 list \<Rightarrow> u64 \<Rightarrow> int \<Rightarrow> sha256_context" where
  "sha256_hmac_starts s ctx key keylen is224 =
     (let (key, keylen) =
            (if 64 < keylen then (sha256 s key keylen is224, if is224 \<noteq> 0 then 28 else 32)
             else (key, keylen));
          ctx = ctx\<lparr>sha256_ipad := replicate 64 0x36, sha256_opad := replicate 64 0x5C\<rparr>;
          ctx = ctx\<lparr>sha256_ipad := xor_into (sha256_ipad ctx) (take (unat keylen) key),
                   sha256_opad := xor_into (sha256_opad ctx) (take (unat keylen) key)\<rparr>;
          ctx = sha256_starts ctx is224
      in sha256_update ctx (sha256_ipad ctx) 64)"

definition sha256_hmac_update :: "sha256_context \<Rightarrow> u8 list \<Rightarrow> u64 \<Rightarrow> sha256_context" where
  "sha256_hmac_update ctx input ilen = sha256_update ctx input ilen"

definition sha256_hmac_finish :: "sha256_context \<Rightarrow> sha256_context \<times> u8 list" where
  "sha256_hmac_finish ctx =
     (let is224 = sha256_is224 ctx;
          hlen = (if is224 = 0 then 32 else 28);
          (ctx, tmpbuf) = sha256_finish ctx;
          ctx = sha256_starts ctx is224;
          ctx = sha256_update ctx (sha256_opad ctx) 64;
          ctx = sha256_update ctx tmpbuf hlen
      in sha256_finish ctx)"

definition sha256_hmac_reset :: "sha256_context \<Rightarrow> sha256_context" where
  "sha256_hmac_reset ctx =
     (let ctx = sha256_starts ctx (sha256_is224 ctx) in sha256_update ctx (sha256_ipad ctx) 64)"

definition sha256_hmac ::
  "stack_mem \<Rightarrow> stack_mem \<Rightarrow> u8 list \<Rightarrow> u64 \<Rightarrow> u8 list \<Rightarrow> u64 \<Rightarrow> int \<Rightarrow> u8 list" where
  "sha256_hmac s s' key keylen input ilen is224 =
     (let ctx = sha256_init (sha256_uninit s);
          ctx = sha256_hmac_starts s' ctx key keylen is224;
          ctx = sha256_hmac_update ctx input ilen
      in snd (sha256_hmac_finish ctx))"

section \<open>The standard's compression function\<close>

text \<open>FIPS 180-4, sections 4.1.2 and 6.2.2.\<close>

fun sha256_W :: "u8 list \<Rightarrow> nat \<Rightarrow> u32" where
  "sha256_W data t =
     (if t < 16 then get_be data (4 * t)
      else let x = sha256_W data (t - 2); y = sha256_W data (t - 15)
           in (word_rotr 17 x XOR word_rotr 19 x XOR drop_bit 10 x) + sha256_W data (t - 7)
              + (word_rotr 7 y XOR word_rotr 18 y XOR drop_bit 3 y) + sha256_W data (t - 16))"

declare sha256_W.simps [simp del]

type_synonym sha256_regs = "u32 \<times> u32 \<times> u32 \<times> u32 \<times> u32 \<times> u32 \<times> u32 \<times> u32"

definition sha256_std_round :: "u8 list \<Rightarrow> sha256_regs \<Rightarrow> nat \<Rightarrow> sha256_regs" where
  "sha256_std_round data = (\<lambda>(a, b, c, d, e, f, g, h) t.
     let T1 = h + (word_rotr 6 e XOR word_rotr 11 e XOR word_rotr 25 e)
              + ((e AND f) XOR (NOT e AND g)) + sha256_K ! t + sha256_W data t;
         T2 = (word_rotr 2 a XOR word_rotr 13 a XOR word_rotr 22 a)
              + ((a AND b) XOR (a AND c) XOR (b AND c))
     in (T1 + T2, a, b, c, d + T1, e, f, g))"

definition sha256_std_compress :: "u32 list \<Rightarrow> u8 list \<Rightarrow> u32 list" where
  "sha256_std_compress H data =
     (let (a, b, c, d, e, f, g, h) = foldl (sha256_std_round data)
            (H ! 0, H ! 1, H ! 2, H ! 3, H ! 4, H ! 5, H ! 6, H ! 7) [0..<64]
      in [H ! 0 + a, H ! 1 + b, H ! 2 + c, H ! 3 + d, H ! 4 + e, H ! 5 + f, H ! 6 + g, H ! 7 + h])"

lemma sha256_ROTR_rotr: "0 < n \<Longrightarrow> n < 32 \<Longrightarrow> sha256_ROTR x n = word_rotr n x"
  unfolding sha256_ROTR_def sha256_SHR_def and_all_ones by (rule shifts_rotr)

lemma sha256_SHR_drop: "sha256_SHR x n = drop_bit n x"
  by (simp only: sha256_SHR_def and_all_ones)

lemma sha256_bool:
  "sha256_F1 x y z = (x AND y) XOR (NOT x AND z)"
  "sha256_F0 x y z = (x AND y) XOR (x AND z) XOR (y AND z)"
  by (rule bit_word_eqI; simp add: sha256_F0_def sha256_F1_def bit_simps; blast)+

lemmas sha256_ops = sha256_S0_def sha256_S1_def sha256_S2_def sha256_S3_def sha256_ROTR_rotr
  sha256_SHR_drop sha256_bool

lemma sha256_R_step:
  "16 \<le> t \<Longrightarrow> sha256_R (map (sha256_W data) [0..<t]) t
     = (sha256_W data t, map (sha256_W data) [0..<Suc t])"
  by (simp add: sha256_R_def Let_def sha256_ops sha256_W.simps [of data t])

text \<open>The register array seen in the order in which round \<open>t\<close> names the registers.\<close>

definition sha256_view :: "nat \<Rightarrow> u32 list \<Rightarrow> sha256_regs" where
  "sha256_view t r = (let (a, b, c, d, e, f, g, h) = sha256_args t
     in (r ! a, r ! b, r ! c, r ! d, r ! e, r ! f, r ! g, r ! h))"

lemma mod8_cases:
  fixes t :: nat
  obtains i where "i < 8" "t mod 8 = i" "Suc t mod 8 = (if i = 7 then 0 else Suc i)"
  using that [of "t mod 8"] by (simp add: mod_Suc)

lemma sha256_P_view:
  assumes "length r = 8"
  shows "sha256_view (Suc t) (sha256_P r (sha256_args t) (sha256_W data t) (sha256_K ! t))
    = sha256_std_round data (sha256_view t r) t"
proof -
  obtain A B C D E F G H where r: "r = [A, B, C, D, E, F, G, H]"
    using assms by (auto simp: numeral_eq_Suc length_Suc_conv)
  obtain i where i: "i < 8" "t mod 8 = i" "Suc t mod 8 = (if i = 7 then 0 else Suc i)"
    by (rule mod8_cases)
  from i(1) have "i \<in> {0, 1, 2, 3, 4, 5, 6, 7}" by auto
  with i(2,3) show ?thesis
    by (elim insertE emptyE; simp add: r sha256_view_def sha256_args_def sha256_P_def sha256_std_round_def sha256_ops
        Let_def ac_simps)
qed

lemma sha256_rounds_std:
  assumes "length r = 8"
  shows "let (W, r') = foldl sha256_round (map (\<lambda>i. get_be data (4 * i)) [0..<16], r) [0..<k]
    in W = map (sha256_W data) [0..<max 16 k] \<and> length r' = 8
       \<and> sha256_view k r' = foldl (sha256_std_round data) (sha256_view 0 r) [0..<k]"
proof (induction k)
  case 0
  have "map (\<lambda>i. get_be data (4 * i)) [0..<16] = map (sha256_W data) [0..<16]"
    by (rule map_cong) (auto simp: sha256_W.simps)
  then show ?case using assms by (simp del: upt_rec_numeral)
next
  case (Suc k)
  obtain W r' where f: "foldl sha256_round (map (\<lambda>i. get_be data (4 * i)) [0..<16], r) [0..<k] = (W, r')"
    by fastforce
  with Suc have W: "W = map (sha256_W data) [0..<max 16 k]" and r': "length r' = 8"
    and v: "sha256_view k r' = foldl (sha256_std_round data) (sha256_view 0 r) [0..<k]" by simp_all
  have x: "(if k < 16 then (W ! k, W) else sha256_R W k)
      = (sha256_W data k, map (sha256_W data) [0..<max 16 (Suc k)])"
    by (cases "k < 16") (simp_all add: W sha256_R_step max.absorb1 max.absorb2
        del: upt_Suc upt_rec_numeral)
  have "length (sha256_P r' (sha256_args k) (sha256_W data k) (sha256_K ! k)) = 8"
    using r' by (simp add: sha256_P_def Let_def split: prod.split)
  then show ?case
    using f x r' v sha256_P_view [OF r'] by (simp add: sha256_round_def)
qed

lemma sha256_compress_std: "sha256_compress = sha256_std_compress"
proof (intro ext)
  fix st :: "u32 list" and data :: "u8 list"
  let ?r = "[st ! 0, st ! 1, st ! 2, st ! 3, st ! 4, st ! 5, st ! 6, st ! 7]"
  obtain W r where f: "foldl sha256_round (map (\<lambda>i. get_be data (4 * i)) [0..<16], ?r) [0..<64] = (W, r)"
    by fastforce
  have v: "sha256_view 0 q = (q ! 0, q ! 1, q ! 2, q ! 3, q ! 4, q ! 5, q ! 6, q ! 7)"
    "sha256_view 64 q = (q ! 0, q ! 1, q ! 2, q ! 3, q ! 4, q ! 5, q ! 6, q ! 7)" for q
    by (simp_all add: sha256_view_def sha256_args_def)
  have "foldl (sha256_std_round data)
      (st ! 0, st ! 1, st ! 2, st ! 3, st ! 4, st ! 5, st ! 6, st ! 7) [0..<64]
      = (r ! 0, r ! 1, r ! 2, r ! 3, r ! 4, r ! 5, r ! 6, r ! 7)"
    using sha256_rounds_std [of ?r data 64] unfolding f v by (simp del: upt_rec_numeral)
  then show "sha256_compress st data = sha256_std_compress st data"
    unfolding sha256_compress_def sha256_std_compress_def Let_def f by (simp del: upt_rec_numeral)
qed

section \<open>Streaming\<close>

definition sha256_core :: "sha256_context \<Rightarrow> md_core" where
  "sha256_core c = \<lparr>mc_t0 = fst (sha256_total c), mc_t1 = snd (sha256_total c),
                    mc_st = sha256_state c, mc_buf = sha256_buffer c\<rparr>"

lemma sha256_blocks:
  "absorb_blocks sha256_process c xs =
   (c\<lparr>sha256_state := fst (absorb_blocks sha256_compress (sha256_state c) xs)\<rparr>,
    snd (absorb_blocks sha256_compress (sha256_state c) xs))"
proof (induction sha256_process c xs rule: absorb_blocks.induct)
  case (1 c xs)
  then show ?case
    by (simp add: absorb_blocks.simps [of sha256_process]
        absorb_blocks.simps [of sha256_compress "sha256_state c"]) (simp add: sha256_process_def)
qed

text \<open>A length below \<open>2 ^ 32\<close> is counted whole.\<close>

lemma sha256_count_bytes:
  "n < 2 ^ 32 \<Longrightarrow> sha256_count (of_nat n) = count_bytes n"
  by (intro ext) (simp add: sha256_count_def count_bytes_def unsigned_of_nat take_bit_nat_eq_self
      Let_def split: prod.split)

lemma of_nat_64:
  "n < 2 ^ 32 \<Longrightarrow> unat (of_nat n :: u64) = n"
  "n < 2 ^ 32 \<Longrightarrow> (of_nat n :: u64) = 0 \<longleftrightarrow> n = 0"
  by (simp_all add: unat_of_nat word_of_nat_eq_0_iff) (auto dest: nat_dvd_not_less)

lemma sha256_update_core:
  "length xs < 2 ^ 32 \<Longrightarrow> sha256_core (sha256_update c xs (of_nat (length xs)))
     = md_update sha256_compress (sha256_core c) xs"
  using of_nat_64 [of "length xs"] sha256_count_bytes [of "length xs"]
  by (simp add: sha256_update_def md_update_def sha256_core_def sha256_blocks
        sha256_process_def Let_def split: prod.split)

lemma sha256_update_frame:
  "sha256_opad (sha256_update c xs n) = sha256_opad c"
  "sha256_ipad (sha256_update c xs n) = sha256_ipad c"
  "sha256_is224 (sha256_update c xs n) = sha256_is224 c"
  by (simp_all add: sha256_update_def sha256_blocks sha256_process_def Let_def split: prod.split)

lemma sha256_update_total:
  "ilen \<noteq> 0 \<Longrightarrow> sha256_total (sha256_update c xs ilen) = sha256_count ilen (sha256_total c)"
  by (simp add: sha256_update_def sha256_blocks sha256_process_def Let_def split: prod.split)

lemma sha256_update_take:
  "sha256_update c xs n = sha256_update c (take (unat n) xs) n"
  by (simp add: sha256_update_def)

lemma sha256_finish_update:
  assumes "sha256_total c = (t0, t1)"
  shows "fst (sha256_finish c) =
    (let p = take (md_padn t0) md_padding; l = md_msglen t0 t1
     in sha256_update (sha256_update c p (of_nat (length p))) l (of_nat (length l)))"
proof -
  have f: "fst (sha256_finish c) = sha256_update (sha256_update c sha256_padding (of_nat (md_padn t0)))
      (md_msglen t0 t1) 8"
    by (simp only: sha256_finish_def assms md_padn_def md_msglen_def Let_def prod.case fst_conv)
  have "length (take (md_padn t0) md_padding) = md_padn t0" "length (md_msglen t0 t1) = 8"
    using md_padn_le [of t0] by (simp_all add: md_padding_def md_msglen_def)
  then show ?thesis
    using sha256_update_take [of c md_padding "of_nat (md_padn t0)"] md_padn_le [of t0]
    by (simp add: f of_nat_64 md_padding_def sha256_padding_def)
qed

definition sha256_output :: "int \<Rightarrow> u32 list \<Rightarrow> u8 list" where
  "sha256_output is224 st = put_be (st ! 0) @ put_be (st ! 1) @ put_be (st ! 2) @ put_be (st ! 3)
     @ put_be (st ! 4) @ put_be (st ! 5) @ put_be (st ! 6)
     @ (if is224 = 0 then put_be (st ! 7) else [])"

lemma sha256_finish_eqs:
  "snd (sha256_finish c) = sha256_output (sha256_is224 c) (mc_st (sha256_core (fst (sha256_finish c))))"
  "sha256_core (fst (sha256_finish c)) = md_close sha256_compress (sha256_core c)"
  "sha256_opad (fst (sha256_finish c)) = sha256_opad c"
  "sha256_ipad (fst (sha256_finish c)) = sha256_ipad c"
  "sha256_is224 (fst (sha256_finish c)) = sha256_is224 c"
proof -
  obtain t0 t1 where t: "sha256_total c = (t0, t1)" by fastforce
  show "snd (sha256_finish c)
      = sha256_output (sha256_is224 c) (mc_st (sha256_core (fst (sha256_finish c))))"
    by (simp add: sha256_finish_def sha256_output_def sha256_core_def Let_def sha256_update_frame
        split: prod.split)
  have l: "length (take (md_padn t0) md_padding) < 2 ^ 32" "length (md_msglen t0 t1) < 2 ^ 32"
    by (simp_all add: md_padding_def md_msglen_def)
  show "sha256_core (fst (sha256_finish c)) = md_close sha256_compress (sha256_core c)"
    unfolding sha256_finish_update [OF t] Let_def sha256_update_core [OF l(1)]
      sha256_update_core [OF l(2)] md_close_def
    by (simp add: sha256_core_def t)
  show "sha256_opad (fst (sha256_finish c)) = sha256_opad c"
    "sha256_ipad (fst (sha256_finish c)) = sha256_ipad c"
    "sha256_is224 (fst (sha256_finish c)) = sha256_is224 c"
    by (simp_all add: sha256_finish_update [OF t] Let_def sha256_update_frame)
qed

interpretation sha256: md_module sha256_core "\<lambda>c. sha256_is224 c = is224" sha256_compress
  "sha256_iv is224" "\<lambda>c. sha256_starts c is224" "\<lambda>c x. sha256_update c x (of_nat (length x))"
  sha256_finish "sha256_output is224" "2 ^ 32"
  for is224
proof unfold_locales
  show "length x < 2 ^ 32 \<Longrightarrow> sha256_core (sha256_update c x (of_nat (length x)))
      = md_update sha256_compress (sha256_core c) x" for x c
    by (rule sha256_update_core)
  show "sha256_core (fst (sha256_finish c)) = md_close sha256_compress (sha256_core c)" for c
    by (rule sha256_finish_eqs)
  show "sha256_is224 c = is224 \<Longrightarrow> snd (sha256_finish c)
      = sha256_output is224 (mc_st (sha256_core (fst (sha256_finish c))))" for c
    using sha256_finish_eqs(1) [of c] by simp
qed (simp_all add: sha256_core_def sha256_starts_def sha256_update_frame)

abbreviation sha256_hash :: "int \<Rightarrow> u8 list \<Rightarrow> u8 list" where
  "sha256_hash is224 \<equiv> md_hash (sha256_output is224) sha256_compress (sha256_iv is224)"

lemma length_sha256_output [simp]: "length (sha256_output is224 st) = (if is224 = 0 then 32 else 28)"
  by (simp add: sha256_output_def)

lemma length_sha256_hash [simp]: "length (sha256_hash is224 m) = (if is224 = 0 then 32 else 28)"
  by (simp add: md_hash_def)

lemma sha256_wf_init: "length (mc_buf (sha256_core (sha256_init c))) = 64"
  by (simp add: sha256_core_def sha256_init_def sha256_zero_def)

lemma sha256_eq_hash:
  "length m < 2 ^ 32 \<Longrightarrow> sha256 s m (of_nat (length m)) is224 = sha256_hash is224 m"
  unfolding sha256_def Let_def by (rule sha256.hash_one [OF sha256_wf_init])

section \<open>HMAC\<close>

lemma sha256_finish_pair:
  "sha256_finish c = (c', d) \<Longrightarrow> length d = (if sha256_is224 c = 0 then 32 else 28)
     \<and> sha256_opad c' = sha256_opad c \<and> sha256_is224 c' = sha256_is224 c"
  using sha256_finish_eqs [of c] by simp

definition sha256_keyed :: "int \<Rightarrow> sha256_context \<Rightarrow> u8 list \<Rightarrow> sha256_context" where
  "sha256_keyed is224 c key = c\<lparr>sha256_ipad := hmac_pad 0x36 (hmac_key (sha256_hash is224) key),
                               sha256_opad := hmac_pad 0x5C (hmac_key (sha256_hash is224) key)\<rparr>"

lemma sha256_hmac_starts_eq:
  assumes "length key < 2 ^ 32"
  shows "sha256_hmac_starts s c key (of_nat (length key)) is224 =
    sha256_update (sha256_starts (sha256_keyed is224 c key) is224)
      (hmac_pad 0x36 (hmac_key (sha256_hash is224) key)) 64"
proof -
  have "(64 :: u64) < of_nat (length key) \<longleftrightarrow> 64 < length key"
    using of_nat_64(1) [OF assms] by (simp add: word_less_nat_alt)
  then show ?thesis
    unfolding sha256_hmac_starts_def sha256_keyed_def sha256_starts_def hmac_pad_def hmac_key_def
    by (simp add: sha256_eq_hash [OF assms] of_nat_64 [OF assms] Let_def)
qed


lemma sha256_hmac_finish_eq:
  assumes "length (sha256_opad c) = 64" "sha256_is224 c = is224"
  shows "sha256_hmac_finish c =
     (let (c, tmp) = sha256_finish c; c = sha256_starts c is224;
          c = sha256_update c (sha256_opad c) (of_nat (length (sha256_opad c)));
          c = sha256_update c tmp (of_nat (length tmp)) in sha256_finish c)"
  using assms
  by (cases "sha256_finish c")
    (simp add: sha256_hmac_finish_def Let_def sha256_update_frame sha256_starts_def sha256_finish_pair)

interpretation sha256: hmac_hash "\<lambda>c. length (mc_buf (sha256_core c)) = 64"
  "\<lambda>c. sha256_starts c is224" "\<lambda>c x. sha256_update c x (of_nat (length x))" sha256_finish
  "\<lambda>m c. md_absorbed sha256_compress (sha256_iv is224) m (sha256_core c) \<and> sha256_is224 c = is224"
  "sha256_hash is224" "2 ^ 32" sha256_opad "sha256_keyed is224"
  "\<lambda>c key. sha256_hmac_starts s c key (of_nat (length key)) is224" sha256_hmac_finish
  for is224 s
proof unfold_locales
  show "md_absorbed sha256_compress (sha256_iv is224) m (sha256_core c) \<and> sha256_is224 c = is224 \<Longrightarrow>
     length (sha256_opad c) = 64 \<Longrightarrow> sha256_hmac_finish c =
     (let (c, tmp) = sha256_finish c; c = sha256_starts c is224;
          c = sha256_update c (sha256_opad c) (of_nat (length (sha256_opad c)));
          c = sha256_update c tmp (of_nat (length tmp)) in sha256_finish c)" for m c
    by (elim conjE) (rule sha256_hmac_finish_eq)
qed (simp_all add: sha256_hmac_starts_eq sha256_starts_def sha256_update_frame sha256_finish_eqs
    sha256_keyed_def sha256_core_def)

lemma sha256_output_eq:
  "length st = 8 \<Longrightarrow> sha256_output is224 st
     = concat (map put_be (if is224 = 0 then st else take 7 st))"
  by (auto simp: numeral_eq_Suc length_Suc_conv sha256_output_def)

lemma length_sha256_std_digest: "length (md_digest sha256_std_compress (sha256_iv is224) m) = 8"
  by (rule length_md_digest) (simp_all add: sha256_iv_def sha256_std_compress_def split: prod.split
    del: upt_rec_numeral)

definition sha256_std :: "int \<Rightarrow> u8 list \<Rightarrow> u8 list" where
  "sha256_std is224 m =
     (let d = md_digest sha256_std_compress (sha256_iv is224) m
      in concat (map put_be (if is224 = 0 then d else take 7 d)))"

lemma sha256_hash_std: "sha256_hash is224 = sha256_std is224"
  by (intro ext)
    (simp only: md_hash_def sha256_compress_std sha256_output_eq length_sha256_std_digest Let_def
      sha256_std_def)

text \<open>What HMAC operations leave of a keyed context.\<close>

definition sha256_has_key :: "int \<Rightarrow> u8 list \<Rightarrow> sha256_context \<Rightarrow> bool" where
  "sha256_has_key is224 key c \<longleftrightarrow>
     sha256_ipad c = hmac_pad 0x36 (hmac_key (sha256_hash is224) key)
     \<and> sha256_opad c = hmac_pad 0x5C (hmac_key (sha256_hash is224) key)
     \<and> sha256_is224 c = is224"

lemma sha256_has_key_frame:
  "sha256_has_key is224 key (sha256_update c x n) = sha256_has_key is224 key c"
  "sha256_has_key is224 key (fst (sha256_finish c)) = sha256_has_key is224 key c"
  "sha256_has_key is224 key (sha256_starts c is224)
    = sha256_has_key is224 key (c\<lparr>sha256_is224 := is224\<rparr>)"
  by (simp_all add: sha256_has_key_def sha256_update_frame sha256_finish_eqs sha256_starts_def)

lemma sha256_has_key_pieces:
  "sha256_has_key is224 key (foldl (\<lambda>c x. sha256_update c x (n x)) c xs)
    = sha256_has_key is224 key c"
  by (induction xs arbitrary: c) (simp_all add: sha256_has_key_frame)

lemma sha256_has_key_starts:
  "length key < 2 ^ 32 \<Longrightarrow>
   sha256_has_key is224 key (sha256_hmac_starts s c key (of_nat (length key)) is224)"
  by (simp only: sha256_hmac_starts_eq sha256_has_key_frame)
    (simp add: sha256_has_key_def sha256_keyed_def)

lemma sha256_has_key_finish:
  "sha256_has_key is224 key c \<Longrightarrow> sha256_has_key is224 key (fst (sha256_hmac_finish c))"
proof -
  assume k: "sha256_has_key is224 key c"
  obtain c1 d where f: "sha256_finish c = (c1, d)" by fastforce
  then have "sha256_has_key is224 key c1" using sha256_has_key_frame(2) [of is224 key c] k by simp
  moreover then have "c1\<lparr>sha256_is224 := is224\<rparr> = c1" by (simp add: sha256_has_key_def)
  ultimately show ?thesis
    using k
    by (simp add: sha256_hmac_finish_def Let_def f sha256_has_key_frame sha256_has_key_def [of _ _ c])
qed

text \<open>A keyed context with a whole buffer, reset, stands for the inner pad.\<close>

lemma sha256_reset_absorbed:
  assumes "sha256_has_key is224 key c" "length (mc_buf (sha256_core c)) = 64"
  shows "md_absorbed sha256_compress (sha256_iv is224)
      (hmac_pad 0x36 (hmac_key (sha256_hash is224) key)) (sha256_core (sha256_hmac_reset c))
    \<and> sha256_is224 (sha256_hmac_reset c) = is224"
proof -
  let ?p = "hmac_pad 0x36 (hmac_key (sha256_hash is224) key)"
  have "sha256_hmac_reset c = sha256_update (sha256_starts c is224) ?p (of_nat (length ?p))"
    using assms(1) by (simp add: sha256_hmac_reset_def sha256_has_key_def sha256_starts_def)
  then show ?thesis
    using sha256.absorbed_update [OF sha256.absorbed_starts [OF assms(2)], of ?p is224] by simp
qed

lemma sha256_has_key_reset:
  "sha256_has_key is224 key c \<Longrightarrow> sha256_has_key is224 key (sha256_hmac_reset c)"
  by (simp add: sha256_hmac_reset_def sha256_has_key_def sha256_update_frame sha256_starts_def)

text \<open>The buffer of a context keeps its size.\<close>

lemma sha256_wf_finish:
  assumes "md_absorbed sha256_compress (sha256_iv is224) m (sha256_core c)"
    "sha256_has_key is224 key c"
  shows "length (mc_buf (sha256_core (fst (sha256_hmac_finish c)))) = 64"
proof -
  let ?ok = "\<lambda>m c. md_absorbed sha256_compress (sha256_iv is224) m (sha256_core c) \<and> sha256_is224 c = is224"
  obtain c1 d where f: "sha256_finish c = (c1, d)" by fastforce
  have c: "?ok m c" using assms by (simp add: sha256_has_key_def)
  have c1: "length (mc_buf (sha256_core c1)) = 64" using sha256.finish_wf [OF c] f by simp
  have d: "length d < 2 ^ 32" and o: "length (sha256_opad c1) < 2 ^ 32"
    using sha256_finish_pair [OF f] assms(2) by (simp_all add: sha256_has_key_def)
  have "sha256_hmac_finish c = sha256_finish (foldl (\<lambda>c x. sha256_update c x (of_nat (length x)))
      (sha256_starts c1 is224) [sha256_opad c1, d])"
    using assms(2) sha256_finish_pair [OF f]
    by (subst sha256_hmac_finish_eq [of c is224])
      (simp_all add: sha256_has_key_def f sha256_starts_def)
  then show ?thesis
    using sha256.finish_wf [OF sha256.absorbed_pieces [OF sha256.absorbed_starts [OF c1],
        of "[sha256_opad c1, d]" is224]] d o by simp
qed

section \<open>Properties\<close>

text \<open>C12: \<open>sha256\<close> computes SHA-256, or SHA-224, of FIPS 180-4: the standard's compression function
  folded over the blocks of the padded message, all eight words of the result or the first seven.
  What the stack held does not matter.\<close>

theorem sha256_standard:
  assumes "length m < 2 ^ 32"
  shows "sha256 s m (of_nat (length m)) is224 = sha256_std is224 m"
  by (simp only: sha256_eq_hash [OF assms] sha256_hash_std)

theorem sha256_standard_witness:
  "sha256 stack_cc [0x61, 0x62, 0x63] 3 1 = sha256_std 1 [0x61, 0x62, 0x63]"
  using sha256_standard [of "[0x61, 0x62, 0x63]" stack_cc 1] by simp

text \<open>Feeding a message in pieces and finishing gives the digest \<open>sha256\<close> computes of the whole.\<close>

theorem sha256_streaming:
  assumes "\<forall>x \<in> set xs. length x < 2 ^ 32" and "length (concat xs) < 2 ^ 32"
  shows "snd (sha256_finish (foldl (\<lambda>c x. sha256_update c x (of_nat (length x)))
      (sha256_starts (sha256_init (sha256_uninit s)) is224) xs))
    = sha256 s' (concat xs) (of_nat (length (concat xs))) is224"
  unfolding sha256_eq_hash [OF assms(2)] by (rule sha256.hash_pieces [OF sha256_wf_init assms(1)])

theorem sha256_streaming_witness:
  "snd (sha256_finish (sha256_update (sha256_update
      (sha256_starts (sha256_init (sha256_uninit stack_cc)) 0) [0x61] 1) [0x62, 0x63] 2))
    = sha256 stack_cc [0x61, 0x62, 0x63] 3 0"
  using sha256_streaming [of "[[0x61], [0x62, 0x63]]" stack_cc 0 stack_cc] by simp

text \<open>C13: \<open>sha256_hmac\<close> is HMAC of RFC 2104 over the standard hash that \<open>is224\<close> selects, for every
  key length.\<close>

theorem sha256_hmac_rfc2104:
  assumes "length key < 2 ^ 32" and "length m < 2 ^ 32"
  shows "sha256_hmac s s' key (of_nat (length key)) m (of_nat (length m)) is224
    = hmac_spec (sha256_std is224) key m"
proof -
  have "snd (sha256_hmac_finish (foldl (\<lambda>c x. sha256_update c x (of_nat (length x)))
      (sha256_hmac_starts s' (sha256_init (sha256_uninit s)) key (of_nat (length key)) is224) [m]))
    = hmac_spec (sha256_hash is224) key (concat [m])"
    by (rule sha256.hmac_pieces [OF sha256_wf_init assms(1)]) (use assms(2) in auto)
  then show ?thesis by (simp add: sha256_hmac_def sha256_hmac_update_def sha256_hash_std Let_def)
qed

theorem sha256_hmac_rfc2104_witness:
  "sha256_hmac stack_cc stack_cc (replicate 65 7) 65 [1, 2] 2 0
    = hmac_spec (sha256_std 0) (replicate 65 7) [1, 2]"
  using sha256_hmac_rfc2104 [of "replicate 65 7" "[1, 2]" stack_cc stack_cc 0] by simp

text \<open>C14: a context that has computed one HMAC and is then reset computes the next one under the same
  key; nothing of the first message is left in it.\<close>

theorem sha256_hmac_reset_reuse:
  assumes "length key < 2 ^ 32" and "\<forall>x \<in> set xs. length x < 2 ^ 32" and "length m < 2 ^ 32"
  shows "snd (sha256_hmac_finish (sha256_hmac_update (sha256_hmac_reset (fst (sha256_hmac_finish
      (foldl (\<lambda>c x. sha256_hmac_update c x (of_nat (length x)))
        (sha256_hmac_starts s (sha256_init c) key (of_nat (length key)) is224) xs))))
        m (of_nat (length m))))
    = hmac_spec (sha256_std is224) key m"
proof -
  let ?c = "foldl (\<lambda>c x. sha256_update c x (of_nat (length x)))
        (sha256_hmac_starts s (sha256_init c) key (of_nat (length key)) is224) xs"
  let ?r = "sha256_hmac_reset (fst (sha256_hmac_finish ?c))"
  have k: "sha256_has_key is224 key ?c"
    by (simp only: sha256_has_key_pieces sha256_has_key_starts [OF assms(1)])
  then have kr: "sha256_has_key is224 key ?r"
    by (intro sha256_has_key_reset sha256_has_key_finish)
  have "length (mc_buf (sha256_core (fst (sha256_hmac_finish ?c)))) = 64"
    by (rule sha256_wf_finish [OF conjunct1 k],
        rule sha256.absorbed_pieces [OF sha256.hmac_started(1) [OF sha256_wf_init assms(1)] assms(2)])
  from sha256_reset_absorbed [OF sha256_has_key_finish [OF k] this]
  have "snd (sha256_hmac_finish (sha256_update ?r m (of_nat (length m))))
      = hmac_spec (sha256_hash is224) key m"
    by (intro sha256.hmac_close sha256.absorbed_update assms(3))
      (use kr in \<open>simp_all add: sha256_has_key_def sha256_update_frame\<close>)
  then show ?thesis by (simp only: sha256_hmac_update_def sha256_hash_std)
qed

theorem sha256_hmac_reset_reuse_witness:
  "snd (sha256_hmac_finish (sha256_hmac_update (sha256_hmac_reset (fst (sha256_hmac_finish
      (sha256_hmac_update (sha256_hmac_starts stack_cc (sha256_init sha256_zero) [1, 2, 3] 3 1) [4] 1)))) [5, 6] 2))
    = hmac_spec (sha256_std 1) [1, 2, 3] [5, 6]"
  using sha256_hmac_reset_reuse [of "[1, 2, 3]" "[[4]]" "[5, 6]" stack_cc sha256_zero 1] by simp

end
