(* ===== verification/Md5.thy ===== *)
theory Md5
  imports Md_Hash
begin

text \<open>
  \<open>Common/md5ex.cpp\<close> and \<open>md5.h\<close>: MD5, which \<open>FeatureDB.cpp\<close> uses where no other digest is chosen. The message
  length is counted in bits, as a pair of words, and the digest is little-endian. The 64 steps of
  \<open>MD5Transform\<close> are a list, as they are written: the macro, the registers in the order in which it gets
  them, the word of the block, the shift and the constant. The function of RFC 1321, which moves registers and
  computes the indices, is \<open>md5_std_compress\<close>. The interface \<open>stream_hash\<close> is interpreted on the operations.
\<close>

unbundle bit_operations_syntax

section \<open>Words\<close>

definition get_le :: "u8 list \<Rightarrow> nat \<Rightarrow> u32" where
  "get_le b i = u32_of_u8 (b ! i) OR push_bit 8 (u32_of_u8 (b ! (i + 1))) OR push_bit 16 (u32_of_u8 (b ! (i + 2)))
     OR push_bit 24 (u32_of_u8 (b ! (i + 3)))"

definition put_le :: "u32 \<Rightarrow> u8 list" where
  "put_le n = [u8_of_u32 (n AND 0xFF), u8_of_u32 (drop_bit 8 n AND 0xFF), u8_of_u32 (drop_bit 16 n AND 0xFF),
     u8_of_u32 (drop_bit 24 n AND 0xFF)]"

lemma length_put_le [simp]: "length (put_le n) = 4"
  by (simp add: put_le_def)

definition MD5Encode :: "u32 list \<Rightarrow> u8 list" where "MD5Encode ws = concat (map put_le ws)"

definition MD5Decode :: "u8 list \<Rightarrow> u32 list" where "MD5Decode b = map (\<lambda>i. get_le b (4 * i)) [0..<length b div 4]"

section \<open>The compression function\<close>

text \<open>The macros \<open>F\<close>, \<open>G\<close>, \<open>H\<close> and \<open>I\<close>, named by the macro that uses them.\<close>

datatype md5_macro = FF | GG | HH | II

fun md5_fun :: "md5_macro \<Rightarrow> u32 \<Rightarrow> u32 \<Rightarrow> u32 \<Rightarrow> u32" where
  "md5_fun FF x y z = (x AND y) OR (NOT x AND z)"
| "md5_fun GG x y z = (x AND z) OR (y AND NOT z)"
| "md5_fun HH x y z = x XOR y XOR z"
| "md5_fun II x y z = y XOR (x OR NOT z)"

definition ROTATE_LEFT :: "u32 \<Rightarrow> nat \<Rightarrow> u32" where
  "ROTATE_LEFT x n = push_bit n x OR drop_bit (32 - n) x"

text \<open>The registers \<open>a\<close>, \<open>b\<close>, \<open>c\<close>, \<open>d\<close> are the cells 0 to 3 of \<open>r\<close>.\<close>

type_synonym md5_step = "md5_macro \<times> (nat \<times> nat \<times> nat \<times> nat) \<times> nat \<times> nat \<times> u32"

definition md5_do :: "u32 list \<Rightarrow> u32 list \<Rightarrow> md5_step \<Rightarrow> u32 list" where
  "md5_do x r = (\<lambda>(m, (a, b, c, d), k, s, ac).
     let r = r[a := r ! a + (md5_fun m (r ! b) (r ! c) (r ! d) + x ! k + ac)];
         r = r[a := ROTATE_LEFT (r ! a) s]
     in r[a := r ! a + r ! b])"

definition md5_steps :: "md5_step list" where
  "md5_steps = [
    (FF, (0, 1, 2, 3), 0, 7, 0xd76aa478), (FF, (3, 0, 1, 2), 1, 12, 0xe8c7b756), (FF, (2, 3, 0, 1), 2, 17, 0x242070db),
    (FF, (1, 2, 3, 0), 3, 22, 0xc1bdceee), (FF, (0, 1, 2, 3), 4, 7, 0xf57c0faf), (FF, (3, 0, 1, 2), 5, 12, 0x4787c62a),
    (FF, (2, 3, 0, 1), 6, 17, 0xa8304613), (FF, (1, 2, 3, 0), 7, 22, 0xfd469501), (FF, (0, 1, 2, 3), 8, 7, 0x698098d8),
    (FF, (3, 0, 1, 2), 9, 12, 0x8b44f7af), (FF, (2, 3, 0, 1), 10, 17, 0xffff5bb1), (FF, (1, 2, 3, 0), 11, 22, 0x895cd7be),
    (FF, (0, 1, 2, 3), 12, 7, 0x6b901122), (FF, (3, 0, 1, 2), 13, 12, 0xfd987193), (FF, (2, 3, 0, 1), 14, 17, 0xa679438e),
    (FF, (1, 2, 3, 0), 15, 22, 0x49b40821), (GG, (0, 1, 2, 3), 1, 5, 0xf61e2562), (GG, (3, 0, 1, 2), 6, 9, 0xc040b340),
    (GG, (2, 3, 0, 1), 11, 14, 0x265e5a51), (GG, (1, 2, 3, 0), 0, 20, 0xe9b6c7aa), (GG, (0, 1, 2, 3), 5, 5, 0xd62f105d),
    (GG, (3, 0, 1, 2), 10, 9, 0x2441453), (GG, (2, 3, 0, 1), 15, 14, 0xd8a1e681), (GG, (1, 2, 3, 0), 4, 20, 0xe7d3fbc8),
    (GG, (0, 1, 2, 3), 9, 5, 0x21e1cde6), (GG, (3, 0, 1, 2), 14, 9, 0xc33707d6), (GG, (2, 3, 0, 1), 3, 14, 0xf4d50d87),
    (GG, (1, 2, 3, 0), 8, 20, 0x455a14ed), (GG, (0, 1, 2, 3), 13, 5, 0xa9e3e905), (GG, (3, 0, 1, 2), 2, 9, 0xfcefa3f8),
    (GG, (2, 3, 0, 1), 7, 14, 0x676f02d9), (GG, (1, 2, 3, 0), 12, 20, 0x8d2a4c8a), (HH, (0, 1, 2, 3), 5, 4, 0xfffa3942),
    (HH, (3, 0, 1, 2), 8, 11, 0x8771f681), (HH, (2, 3, 0, 1), 11, 16, 0x6d9d6122), (HH, (1, 2, 3, 0), 14, 23, 0xfde5380c),
    (HH, (0, 1, 2, 3), 1, 4, 0xa4beea44), (HH, (3, 0, 1, 2), 4, 11, 0x4bdecfa9), (HH, (2, 3, 0, 1), 7, 16, 0xf6bb4b60),
    (HH, (1, 2, 3, 0), 10, 23, 0xbebfbc70), (HH, (0, 1, 2, 3), 13, 4, 0x289b7ec6), (HH, (3, 0, 1, 2), 0, 11, 0xeaa127fa),
    (HH, (2, 3, 0, 1), 3, 16, 0xd4ef3085), (HH, (1, 2, 3, 0), 6, 23, 0x4881d05), (HH, (0, 1, 2, 3), 9, 4, 0xd9d4d039),
    (HH, (3, 0, 1, 2), 12, 11, 0xe6db99e5), (HH, (2, 3, 0, 1), 15, 16, 0x1fa27cf8), (HH, (1, 2, 3, 0), 2, 23, 0xc4ac5665),
    (II, (0, 1, 2, 3), 0, 6, 0xf4292244), (II, (3, 0, 1, 2), 7, 10, 0x432aff97), (II, (2, 3, 0, 1), 14, 15, 0xab9423a7),
    (II, (1, 2, 3, 0), 5, 21, 0xfc93a039), (II, (0, 1, 2, 3), 12, 6, 0x655b59c3), (II, (3, 0, 1, 2), 3, 10, 0x8f0ccc92),
    (II, (2, 3, 0, 1), 10, 15, 0xffeff47d), (II, (1, 2, 3, 0), 1, 21, 0x85845dd1), (II, (0, 1, 2, 3), 8, 6, 0x6fa87e4f),
    (II, (3, 0, 1, 2), 15, 10, 0xfe2ce6e0), (II, (2, 3, 0, 1), 6, 15, 0xa3014314), (II, (1, 2, 3, 0), 13, 21, 0x4e0811a1),
    (II, (0, 1, 2, 3), 4, 6, 0xf7537e82), (II, (3, 0, 1, 2), 11, 10, 0xbd3af235), (II, (2, 3, 0, 1), 2, 15, 0x2ad7d2bb),
    (II, (1, 2, 3, 0), 9, 21, 0xeb86d391)]"

definition MD5Transform :: "u32 list \<Rightarrow> u8 list \<Rightarrow> u32 list" where
  "MD5Transform st block =
     (let x = MD5Decode block;
          r = foldl (md5_do x) [st ! 0, st ! 1, st ! 2, st ! 3] md5_steps
      in [st ! 0 + r ! 0, st ! 1 + r ! 1, st ! 2 + r ! 2, st ! 3 + r ! 3])"

section \<open>Contexts\<close>

record MD5_CTX_EX =
  md5_count :: "u32 \<times> u32"
  md5_state :: "u32 list"
  md5_buffer :: "u8 list"

definition md5_iv :: "u32 list" where "md5_iv = [0x67452301, 0xEFCDAB89, 0x98BADCFE, 0x10325476]"

definition MD5Init :: "MD5_CTX_EX \<Rightarrow> MD5_CTX_EX" where
  "MD5Init context = context\<lparr>md5_count := (0, 0), md5_state := md5_iv\<rparr>"

text \<open>Bytes of the input, \<open>None\<close> past its end.\<close>

definition input_slice :: "u8 list \<Rightarrow> nat \<Rightarrow> nat \<Rightarrow> u8 list option" where
  "input_slice xs i n = (if i + n \<le> length xs then Some (take n (drop i xs)) else None)"

text \<open>The loop over the blocks in the input; \<open>i + 64\<close> is an addition of \<open>unsigned int\<close>.\<close>

partial_function (option) md5_blocks :: "u32 list \<Rightarrow> u8 list \<Rightarrow> u32 \<Rightarrow> u32 \<Rightarrow> (u32 list \<times> u32) option" where
  "md5_blocks st input i inputlen =
     (if i + 64 \<le> inputlen
      then do { b \<leftarrow> input_slice input (unat i) 64; md5_blocks (MD5Transform st b) input (i + 64) inputlen }
      else Some (st, i))"

definition md5_index :: "u32 \<Rightarrow> u32" where "md5_index count0 = drop_bit 3 count0 AND 0x3F"

definition md5_counted :: "u32 \<Rightarrow> u32 \<times> u32 \<Rightarrow> u32 \<times> u32" where
  "md5_counted inputlen = (\<lambda>(c0, c1).
     let c0 = c0 + push_bit 3 inputlen;
         c1 = (if c0 < push_bit 3 inputlen then c1 + 1 else c1)
     in (c0, c1 + drop_bit 29 inputlen))"

definition MD5Update :: "MD5_CTX_EX \<Rightarrow> u8 list \<Rightarrow> u32 \<Rightarrow> MD5_CTX_EX option" where
  "MD5Update context input inputlen =
     (let index = md5_index (fst (md5_count context));
          partlen = 64 - index;
          context = context\<lparr>md5_count := md5_counted inputlen (md5_count context)\<rparr>
      in do {
           (context, i, index) \<leftarrow>
             (if partlen \<le> inputlen
              then do {
                part \<leftarrow> input_slice input 0 (unat partlen);
                let buffer = blit (md5_buffer context) (unat index) part;
                (st, i) \<leftarrow> md5_blocks (MD5Transform (md5_state context) buffer) input partlen inputlen;
                Some (context\<lparr>md5_buffer := buffer, md5_state := st\<rparr>, i, 0) }
              else Some (context, 0, index));
           rest \<leftarrow> input_slice input (unat i) (unat (inputlen - i));
           if unat index + length rest \<le> 64
           then Some (context\<lparr>md5_buffer := blit (md5_buffer context) (unat index) rest\<rparr>)
           else None })"

definition PADDING :: "u8 list" where "PADDING = 0x80 # replicate 63 0"

definition MD5Final :: "MD5_CTX_EX \<Rightarrow> (MD5_CTX_EX \<times> u8 list) option" where
  "MD5Final context =
     (let index = md5_index (fst (md5_count context));
          padlen = (if index < 56 then 56 - index else 120 - index);
          bits = MD5Encode [fst (md5_count context), snd (md5_count context)]
      in do {
           context \<leftarrow> MD5Update context PADDING padlen;
           context \<leftarrow> MD5Update context bits 8;
           Some (context, MD5Encode (md5_state context)) })"

text \<open>The local variable \<open>MD5_CTX_EX ctx;\<close> of a caller, and a message fed in pieces.\<close>

definition md5_uninit :: "stack_mem \<Rightarrow> MD5_CTX_EX" where
  "md5_uninit s = \<lparr>md5_count = (sk32 s 0, sk32 s 1), md5_state = map (\<lambda>i. sk32 s (2 + i)) [0..<4], md5_buffer = map (sk8 s) [0..<64]\<rparr>"

fun md5_pieces :: "MD5_CTX_EX \<Rightarrow> u8 list list \<Rightarrow> MD5_CTX_EX option" where
  "md5_pieces c [] = Some c"
| "md5_pieces c (x # xs) = do { c \<leftarrow> MD5Update c x (of_nat (length x)); md5_pieces c xs }"

section \<open>The standard's compression function\<close>

text \<open>RFC 1321, section 3.4: step \<open>i\<close> uses the function of its round, the word \<open>k\<close> of the block, the shift \<open>s\<close> and
  entry \<open>i + 1\<close> of the table of 4294967296 times the absolute value of the sine.\<close>

definition md5_K :: "u32 list" where
  "md5_K = [
    0xd76aa478, 0xe8c7b756, 0x242070db, 0xc1bdceee, 0xf57c0faf, 0x4787c62a, 0xa8304613, 0xfd469501,
    0x698098d8, 0x8b44f7af, 0xffff5bb1, 0x895cd7be, 0x6b901122, 0xfd987193, 0xa679438e, 0x49b40821,
    0xf61e2562, 0xc040b340, 0x265e5a51, 0xe9b6c7aa, 0xd62f105d, 0x2441453, 0xd8a1e681, 0xe7d3fbc8,
    0x21e1cde6, 0xc33707d6, 0xf4d50d87, 0x455a14ed, 0xa9e3e905, 0xfcefa3f8, 0x676f02d9, 0x8d2a4c8a,
    0xfffa3942, 0x8771f681, 0x6d9d6122, 0xfde5380c, 0xa4beea44, 0x4bdecfa9, 0xf6bb4b60, 0xbebfbc70,
    0x289b7ec6, 0xeaa127fa, 0xd4ef3085, 0x4881d05, 0xd9d4d039, 0xe6db99e5, 0x1fa27cf8, 0xc4ac5665,
    0xf4292244, 0x432aff97, 0xab9423a7, 0xfc93a039, 0x655b59c3, 0x8f0ccc92, 0xffeff47d, 0x85845dd1,
    0x6fa87e4f, 0xfe2ce6e0, 0xa3014314, 0x4e0811a1, 0xf7537e82, 0xbd3af235, 0x2ad7d2bb, 0xeb86d391]"

definition md5_f :: "nat \<Rightarrow> u32 \<Rightarrow> u32 \<Rightarrow> u32 \<Rightarrow> u32" where
  "md5_f i x y z =
     (if i < 16 then (x AND y) OR (NOT x AND z) else if i < 32 then (x AND z) OR (y AND NOT z)
      else if i < 48 then x XOR y XOR z else y XOR (x OR NOT z))"

definition md5_k :: "nat \<Rightarrow> nat" where
  "md5_k i = (if i < 16 then i else if i < 32 then (5 * i + 1) mod 16 else if i < 48 then (3 * i + 5) mod 16 else 7 * i mod 16)"

definition md5_s :: "nat \<Rightarrow> nat" where
  "md5_s i = [[7, 12, 17, 22], [5, 9, 14, 20], [4, 11, 16, 23], [6, 10, 15, 21]] ! (i div 16) ! (i mod 4)"

definition md5_std_round :: "u32 list \<Rightarrow> u32 \<times> u32 \<times> u32 \<times> u32 \<Rightarrow> nat \<Rightarrow> u32 \<times> u32 \<times> u32 \<times> u32" where
  "md5_std_round x = (\<lambda>(a, b, c, d) i. (d, b + word_rotl (md5_s i) (a + md5_f i b c d + x ! md5_k i + md5_K ! i), b, c))"

definition md5_std_compress :: "u32 list \<Rightarrow> u8 list \<Rightarrow> u32 list" where
  "md5_std_compress H block =
     (let x = map (\<lambda>i. get_le block (4 * i)) [0..<16];
          (a, b, c, d) = foldl (md5_std_round x) (H ! 0, H ! 1, H ! 2, H ! 3) [0..<64]
      in [H ! 0 + a, H ! 1 + b, H ! 2 + c, H ! 3 + d])"

text \<open>The padded message: the bit length is written with its low word first.\<close>

definition md5_pad :: "nat \<Rightarrow> u8 list" where
  "md5_pad n = 0x80 # replicate ((119 - n mod 64) mod 64) 0 @ put_le (of_nat (8 * n)) @ put_le (of_nat (8 * n div 2 ^ 32))"

definition md5_rfc :: "u8 list \<Rightarrow> u8 list" where
  "md5_rfc m = concat (map put_le (foldl md5_std_compress md5_iv (chunks (m @ md5_pad (length m)))))"

section \<open>The steps are those of the standard\<close>

definition md5_args :: "nat \<Rightarrow> nat \<times> nat \<times> nat \<times> nat" where
  "md5_args i = [(0, 1, 2, 3), (3, 0, 1, 2), (2, 3, 0, 1), (1, 2, 3, 0)] ! (i mod 4)"

definition md5_group :: "nat \<Rightarrow> md5_macro" where "md5_group i = [FF, GG, HH, II] ! (i div 16)"

lemma md5_steps_eq: "md5_steps = map (\<lambda>i. (md5_group i, md5_args i, md5_k i, md5_s i, md5_K ! i)) [0..<64]"
  by (simp add: upt64 md5_steps_def md5_group_def md5_args_def md5_k_def md5_s_def md5_K_def)

lemma md5_fun_f:
  assumes "i < 64"
  shows "md5_fun (md5_group i) = md5_f i"
proof -
  consider "i < 16" | "16 \<le> i" "i < 32" | "32 \<le> i" "i < 48" | "48 \<le> i" by linarith
  then show ?thesis
  proof cases
    case 2
    then have "i div 16 = 1" by (intro div_nat_eqI) simp_all
    then show ?thesis using 2 by (simp add: fun_eq_iff md5_group_def md5_f_def)
  next
    case 3
    then have "i div 16 = 2" by (intro div_nat_eqI) simp_all
    then show ?thesis using 3 by (simp add: fun_eq_iff md5_group_def md5_f_def)
  next
    case 4
    then have "i div 16 = 3" using assms by (intro div_nat_eqI) simp_all
    then show ?thesis using 4 by (simp add: fun_eq_iff md5_group_def md5_f_def)
  qed (simp add: fun_eq_iff md5_group_def md5_f_def)
qed

lemma md5_shift:
  assumes "i < 64"
  shows "0 < md5_s i \<and> md5_s i < 32"
proof -
  let ?t = "[[7, 12, 17, 22], [5, 9, 14, 20], [4, 11, 16, 23], [6, 10, 15, 21]] :: nat list list"
  have all: "\<forall>xs \<in> set ?t. length xs = 4 \<and> (\<forall>n \<in> set xs. 0 < n \<and> n < 32)" by simp
  have "i div 16 < 4" using assms by (simp add: less_mult_imp_div_less)
  then have row: "?t ! (i div 16) \<in> set ?t" by (intro nth_mem) simp
  then have "i mod 4 < length (?t ! (i div 16))" using all by fastforce
  then have "?t ! (i div 16) ! (i mod 4) \<in> set (?t ! (i div 16))" by (rule nth_mem)
  then show ?thesis using all row unfolding md5_s_def by blast
qed

text \<open>The registers in the order in which step \<open>i\<close> names them.\<close>

definition md5_view :: "nat \<Rightarrow> u32 list \<Rightarrow> u32 \<times> u32 \<times> u32 \<times> u32" where
  "md5_view i r = (let (a, b, c, d) = md5_args i in (r ! a, r ! b, r ! c, r ! d))"

lemma md5_do_view:
  assumes "length r = 4" "i < 64"
  shows "md5_view (Suc i) (md5_do x r (md5_group i, md5_args i, md5_k i, md5_s i, md5_K ! i)) = md5_std_round x (md5_view i r) i"
proof -
  obtain A B C D where r: "r = [A, B, C, D]" using assms(1) by (auto simp: numeral_eq_Suc length_Suc_conv)
  have rot: "ROTATE_LEFT w (md5_s i) = word_rotl (md5_s i) w" for w
    using md5_shift [OF assms(2)] shifts_rotl by (simp add: ROTATE_LEFT_def)
  have "i mod 4 = 0 \<or> i mod 4 = 1 \<or> i mod 4 = 2 \<or> i mod 4 = 3" by presburger
  then consider "i mod 4 = 0" "Suc i mod 4 = 1" | "i mod 4 = 1" "Suc i mod 4 = 2" | "i mod 4 = 2" "Suc i mod 4 = 3"
    | "i mod 4 = 3" "Suc i mod 4 = 0" by (auto simp: mod_Suc)
  then show ?thesis
    by cases (simp_all add: r md5_view_def md5_args_def md5_do_def md5_std_round_def rot md5_fun_f [OF assms(2)] Let_def ac_simps)
qed

lemma md5_do_length [simp]: "length (md5_do x r q) = length r"
  by (simp add: md5_do_def Let_def split: prod.split)

lemma md5_rounds:
  assumes "length r = 4"
  shows "n \<le> 64 \<Longrightarrow>
    length (foldl (md5_do x) r (map (\<lambda>i. (md5_group i, md5_args i, md5_k i, md5_s i, md5_K ! i)) [0..<n])) = 4
    \<and> md5_view n (foldl (md5_do x) r (map (\<lambda>i. (md5_group i, md5_args i, md5_k i, md5_s i, md5_K ! i)) [0..<n]))
      = foldl (md5_std_round x) (md5_view 0 r) [0..<n]"
proof (induction n)
  case 0
  then show ?case using assms by simp
next
  case (Suc n)
  then show ?case using md5_do_view [of _ n x] by simp
qed

lemma MD5Transform_std: "length block = 64 \<Longrightarrow> MD5Transform st block = md5_std_compress st block"
proof -
  assume b: "length block = 64"
  have v: "md5_view 0 q = (q ! 0, q ! 1, q ! 2, q ! 3)" "md5_view 64 q = (q ! 0, q ! 1, q ! 2, q ! 3)" for q
    by (simp_all add: md5_view_def md5_args_def)
  have x: "MD5Decode block = map (\<lambda>i. get_le block (4 * i)) [0..<16]" by (simp add: MD5Decode_def b)
  let ?r = "[st ! 0, st ! 1, st ! 2, st ! 3]"
  define r where "r = foldl (md5_do (MD5Decode block)) ?r md5_steps"
  have "(r ! 0, r ! 1, r ! 2, r ! 3) = foldl (md5_std_round (MD5Decode block)) (md5_view 0 ?r) [0..<64]"
    using md5_rounds [of ?r 64 "MD5Decode block"] unfolding r_def md5_steps_eq v by (simp del: upt_rec_numeral)
  then have "foldl (md5_std_round (map (\<lambda>i. get_le block (4 * i)) [0..<16])) (st ! 0, st ! 1, st ! 2, st ! 3) [0..<64]
      = (r ! 0, r ! 1, r ! 2, r ! 3)"
    by (simp add: v x del: upt_rec_numeral)
  then show ?thesis
    unfolding MD5Transform_def md5_std_compress_def Let_def r_def [symmetric] by (simp del: upt_rec_numeral)
qed

section \<open>Streaming\<close>

definition md5_absorbed :: "u8 list \<Rightarrow> MD5_CTX_EX \<Rightarrow> bool" where
  "md5_absorbed m c \<longleftrightarrow>
     md5_count c = (of_nat (8 * length m), of_nat (8 * length m div 2 ^ 32))
     \<and> md5_state c = foldl MD5Transform md5_iv (chunks m)
     \<and> length (md5_buffer c) = 64 \<and> take (length m mod 64) (md5_buffer c) = leftover m"

lemma md5_index_of: "unat (md5_index (of_nat (8 * n))) = n mod 64"
proof -
  have "(2 ^ 32 :: nat) = 8 * 2 ^ 29" by simp
  then have "8 * n mod 2 ^ 32 = 8 * (n mod 2 ^ 29)" by (simp only: mult_mod_right)
  then have u: "unat (of_nat (8 * n) :: u32) = 8 * (n mod 2 ^ 29)" by (simp add: unat_of_nat del: of_nat_mult)
  have "unat (drop_bit 3 (of_nat (8 * n) :: u32)) = unat (of_nat (8 * n) :: u32) div 8"
    unfolding unat_drop_bit_eq by (simp add: drop_bit_eq_div)
  moreover have "n mod 2 ^ 29 mod 64 = n mod 64" by (rule mod_mod_cancel) simp
  ultimately show ?thesis unfolding md5_index_def unat_and_63 u by simp
qed

lemma md5_counted_of:
  assumes "x < 2 ^ 32"
  shows "md5_counted (of_nat x) (of_nat (8 * n), of_nat (8 * n div 2 ^ 32)) = (of_nat (8 * (n + x)), of_nat (8 * (n + x) div 2 ^ 32))"
proof -
  let ?M = "2 ^ 32 :: nat"
  have p: "push_bit 3 (of_nat x :: u32) = of_nat (8 * x)" by (simp add: push_bit_eq_mult)
  have pu: "unat (of_nat (8 * x) :: u32) = 8 * x mod ?M" by (simp only: unat_of_nat) simp
  have tu: "unat (of_nat (8 * n) + of_nat (8 * x) :: u32) = (8 * n + 8 * x) mod ?M"
    by (simp only: unat_of_nat flip: of_nat_add) simp
  have "unat (drop_bit 29 (of_nat x :: u32)) = x div 2 ^ 29"
    using assms unfolding unat_drop_bit_eq by (simp add: unat_of_nat drop_bit_eq_div)
  also have "\<dots> = 8 * x div ?M" by simp
  finally have d: "drop_bit 29 (of_nat x :: u32) = of_nat (8 * x div ?M)"
    using assms by (simp add: word_unat_eq_iff unat_of_nat)
  have carry: "(of_nat (8 * n) + of_nat (8 * x) :: u32) < of_nat (8 * x) \<longleftrightarrow> (8 * n + 8 * x mod ?M) mod ?M < 8 * x mod ?M"
    unfolding word_less_nat_alt tu pu by (simp add: mod_add_right_eq)
  have "8 * (n + x) = 8 * n + 8 * x mod ?M + ?M * (8 * x div ?M)"
    by (simp only: distrib_left add.assoc mod_mult_div_eq)
  then have "8 * (n + x) div ?M = 8 * x div ?M + (8 * n + 8 * x mod ?M) div ?M" by (simp only: div_mult_self2) simp
  also have "(8 * n + 8 * x mod ?M) div ?M = 8 * n div ?M + (if (8 * n + 8 * x mod ?M) mod ?M < 8 * x mod ?M then 1 else 0)"
    by (rule div_carry) simp
  finally have h: "8 * (n + x) div ?M = 8 * x div ?M + (8 * n div ?M
      + (if (8 * n + 8 * x mod ?M) mod ?M < 8 * x mod ?M then 1 else 0))" .
  show ?thesis
    unfolding md5_counted_def split Let_def p d carry h by (simp add: algebra_simps)
qed

lemma leftover_drop: "leftover xs = drop (length xs - length (leftover xs)) xs"
proof (induction xs rule: leftover.induct)
  case (1 xs)
  show ?case
  proof (cases "length xs < 64")
    case False
    have "length (leftover (drop 64 xs)) \<le> length xs - 64" using length_leftover [of "drop 64 xs"] by simp
    then have "64 + (length xs - 64 - length (leftover (drop 64 xs))) = length xs - length (leftover (drop 64 xs))" using False by simp
    then show ?thesis using False 1 by (simp add: leftover.simps [of xs] add.commute)
  qed simp
qed

lemma md5_blocks_spec:
  assumes "length input + 64 < 2 ^ 32"
  shows "i \<le> length input \<Longrightarrow>
    md5_blocks st (input @ t) (of_nat i) (of_nat (length input))
      = Some (foldl MD5Transform st (chunks (drop i input)), of_nat (length input - length (leftover (drop i input))))"
proof (induction "length input - i" arbitrary: i st rule: less_induct)
  case less
  have u: "unat (of_nat i :: u32) = i" "unat (of_nat (i + 64) :: u32) = i + 64"
    "unat (of_nat (length input) :: u32) = length input"
    using less.prems assms by (simp_all add: unat_of_nat del: of_nat_add)
  have le: "(of_nat i + 64 :: u32) \<le> of_nat (length input) \<longleftrightarrow> i + 64 \<le> length input"
    using u(2,3) by (simp add: word_le_nat_alt)
  show ?case
  proof (cases "i + 64 \<le> length input")
    case True
    have "md5_blocks st (input @ t) (of_nat i) (of_nat (length input))
        = md5_blocks (MD5Transform st (take 64 (drop i input))) (input @ t) (of_nat (i + 64)) (of_nat (length input))"
      using True le u(1) by (subst md5_blocks.simps) (simp add: input_slice_def add.commute)
    also have "\<dots> = Some (foldl MD5Transform (MD5Transform st (take 64 (drop i input))) (chunks (drop (i + 64) input)),
        of_nat (length input - length (leftover (drop (i + 64) input))))"
      using True by (intro less.hyps) simp_all
    moreover have "\<not> length input - i < 64" using True by simp
    ultimately show ?thesis
      by (simp add: chunks.simps [of "drop i input"] leftover.simps [of "drop i input"] add.commute)
  next
    case False
    then show ?thesis using le less.prems by (subst md5_blocks.simps) simp
  qed
qed

lemma MD5Update_absorbed:
  assumes "md5_absorbed m c" "length x + 64 < 2 ^ 32"
  shows "\<exists>c'. MD5Update c (x @ t) (of_nat (length x)) = Some c' \<and> md5_absorbed (m @ x) c'"
proof -
  define n where "n = length m"
  define idx where "idx = n mod 64"
  have c: "md5_count c = (of_nat (8 * n), of_nat (8 * n div 2 ^ 32))" "md5_state c = foldl MD5Transform md5_iv (chunks m)"
    "length (md5_buffer c) = 64" "take idx (md5_buffer c) = leftover m"
    using assms(1) by (simp_all add: md5_absorbed_def n_def idx_def)
  have idx: "idx < 64" "length (leftover m) = idx" by (simp_all add: idx_def n_def length_leftover)
  have ui: "unat (md5_index (fst (md5_count c))) = idx" using md5_index_of [of n] c(1) by (simp add: idx_def)
  then have wi: "md5_index (fst (md5_count c)) = of_nat idx" using idx(1) by (simp add: word_unat_eq_iff unat_of_nat)
  have uidx: "unat (of_nat idx :: u32) = idx" using idx(1) by (simp add: unat_of_nat)
  have part: "64 - of_nat idx = (of_nat (64 - idx) :: u32)" using idx(1) by (simp add: of_nat_diff)
  have up: "unat (of_nat (64 - idx) :: u32) = 64 - idx" by (simp add: unat_of_nat)
  have ux: "unat (of_nat (length x) :: u32) = length x" using assms(2) by (simp add: unat_of_nat)
  have le: "(of_nat (64 - idx) :: u32) \<le> of_nat (length x) \<longleftrightarrow> 64 - idx \<le> length x" by (simp only: word_le_nat_alt up ux)
  have cnt: "md5_counted (of_nat (length x)) (md5_count c) = (of_nat (8 * length (m @ x)), of_nat (8 * length (m @ x) div 2 ^ 32))"
    using md5_counted_of [of "length x" n] assms(2) c(1) by (simp add: n_def)
  show ?thesis
  proof (cases "64 - idx \<le> length x")
    case False
    then have short: "length (leftover m @ x) < 64" using idx by simp
    let ?c = "c\<lparr>md5_count := md5_counted (of_nat (length x)) (md5_count c), md5_buffer := blit (md5_buffer c) idx x\<rparr>"
    have "MD5Update c (x @ t) (of_nat (length x)) = Some ?c"
      using False short idx unfolding MD5Update_def Let_def wi part le
      by (simp add: input_slice_def ux unat_of_nat)
    moreover have "md5_absorbed (m @ x) ?c"
    proof -
      have "chunks (m @ x) = chunks m" "leftover (m @ x) = leftover m @ x"
        using short chunks_append [of m x] leftover_append [of m x] by simp_all
      moreover have "length (m @ x) mod 64 = idx + length x"
        using length_leftover [of "m @ x"] calculation(2) idx(2) by simp
      ultimately show ?thesis
        using cnt c short idx by (simp add: md5_absorbed_def)
    qed
    ultimately show ?thesis by blast
  next
    case True
    define b where "b = leftover m @ take (64 - idx) x"
    define y where "y = drop (64 - idx) x"
    have b: "length b = 64" "blit (md5_buffer c) idx (take (64 - idx) x) = b" "leftover m @ x = b @ y"
      using True idx c(3,4) by (simp_all add: b_def y_def blit_full)
    let ?st = "foldl MD5Transform (MD5Transform (md5_state c) b) (chunks y)"
    let ?i = "length x - length (leftover y)"
    have ly: "length (leftover y) < 64" "length (leftover y) \<le> length x"
      using length_leftover [of y] by (simp_all add: y_def)
    have blocks: "md5_blocks (MD5Transform (md5_state c) b) (x @ t) (of_nat (64 - idx)) (of_nat (length x)) = Some (?st, of_nat ?i)"
      using md5_blocks_spec [OF assms(2) True] by (simp add: y_def)
    have uni: "unat (of_nat ?i :: u32) = ?i" using assms(2) by (simp add: unat_of_nat del: of_nat_diff)
    have "of_nat (length x) - of_nat ?i = (of_nat (length (leftover y)) :: u32)" using ly(2) by (simp add: of_nat_diff)
    then have left: "unat (of_nat (length x) - of_nat ?i :: u32) = length (leftover y)"
      using less_trans [OF leftover_lt, of "2 ^ 32" y] by (simp add: unat_of_nat)
    have "length x - length (leftover y) = 64 - idx + (length y - length (leftover y))"
      using True length_leftover [of y] by (simp add: y_def)
    then have "drop ?i x = leftover y" using leftover_drop [of y] by (simp add: y_def add.commute)
    then have rest: "input_slice (x @ t) ?i (length (leftover y)) = Some (leftover y)" using ly(2) by (simp add: input_slice_def)
    let ?c = "c\<lparr>md5_count := md5_counted (of_nat (length x)) (md5_count c), md5_state := ?st, md5_buffer := blit b 0 (leftover y)\<rparr>"
    have "MD5Update c (x @ t) (of_nat (length x)) = Some ?c"
      using True b(1,2) blocks rest ly(1) idx(1) unfolding MD5Update_def Let_def wi part le
      by (simp add: input_slice_def [of _ 0] up uidx uni left less_imp_le [OF leftover_lt] del: of_nat_diff)
    moreover have "md5_absorbed (m @ x) ?c"
    proof -
      have "chunks (m @ x) = chunks m @ b # chunks y" "leftover (m @ x) = leftover y"
        using chunks_append [of m x] leftover_append [of m x] by (simp_all add: b(3) chunks_block leftover_block b(1))
      moreover have "length (m @ x) mod 64 = length (leftover y)" using length_leftover [of "m @ x"] calculation(2) by simp
      ultimately show ?thesis
        using cnt c b(1) ly(1) by (simp add: md5_absorbed_def)
    qed
    ultimately show ?thesis by blast
  qed
qed

lemma md5_final_absorbed:
  assumes "md5_absorbed m c"
  shows "\<exists>c'. MD5Final c = Some (c', MD5Encode (md5_state c')) \<and> md5_absorbed (m @ md5_pad (length m)) c'"
proof -
  let ?n = "length m"
  let ?z = "(119 - ?n mod 64) mod 64"
  have cnt: "md5_count c = (of_nat (8 * ?n), of_nat (8 * ?n div 2 ^ 32))" using assms by (simp add: md5_absorbed_def)
  have "?n mod 64 < 64" by simp
  then have w: "md5_index (of_nat (8 * ?n)) = of_nat (?n mod 64)"
    using md5_index_of [of ?n] by (simp add: word_unat_eq_iff unat_of_nat)
  have u: "unat (of_nat (?n mod 64) :: u32) = ?n mod 64" by (simp add: unat_of_nat)
  have lt: "(of_nat (?n mod 64) :: u32) < 56 \<longleftrightarrow> ?n mod 64 < 56" by (simp add: word_less_nat_alt u)
  have padlen: "(if of_nat (?n mod 64) < (56 :: u32) then 56 - of_nat (?n mod 64) else 120 - of_nat (?n mod 64)) = (of_nat (?z + 1) :: u32)"
    using pad_zeros [of "?n mod 64"] unfolding lt by (cases "?n mod 64 < 56") (simp_all add: of_nat_diff)
  have zl: "?z < 64" by simp
  define p where "p = (0x80 :: u8) # replicate ?z 0"
  have p: "length p = ?z + 1" "take (?z + 1) PADDING = p" using zl by (simp_all add: p_def PADDING_def min_def)
  let ?bits = "MD5Encode [fst (md5_count c), snd (md5_count c)]"
  have bits: "length ?bits = 8" "?bits = put_le (of_nat (8 * ?n)) @ put_le (of_nat (8 * ?n div 2 ^ 32))"
    by (simp_all add: MD5Encode_def cnt)
  have "length p + 64 < 2 ^ 32" using zl p(1) by simp
  from MD5Update_absorbed [OF assms this, of "drop (?z + 1) PADDING"] obtain c1 where
    c1: "MD5Update c PADDING (of_nat (?z + 1)) = Some c1" "md5_absorbed (m @ p) c1"
    using append_take_drop_id [of "?z + 1" PADDING] p by auto
  obtain c2 where c2: "MD5Update c1 ?bits 8 = Some c2" "md5_absorbed ((m @ p) @ ?bits) c2"
    using MD5Update_absorbed [OF c1(2), of ?bits "[]"] bits(1) by auto
  have "(m @ p) @ ?bits = m @ md5_pad ?n" by (simp add: md5_pad_def p_def bits(2))
  moreover have "MD5Final c = Some (c2, MD5Encode (md5_state c2))"
  proof -
    have "md5_index (fst (md5_count c)) = of_nat (?n mod 64)" using w by (simp only: cnt fst_conv)
    then show ?thesis
      unfolding MD5Final_def Let_def by (simp only: padlen c1(1) c2(1) Option.bind.bind_lunit)
  qed
  ultimately show ?thesis using c2(2) by auto
qed

definition md5_hash :: "u8 list \<Rightarrow> u8 list" where
  "md5_hash m = MD5Encode (foldl MD5Transform md5_iv (chunks (m @ md5_pad (length m))))"

interpretation md5: stream_hash "\<lambda>c. length (md5_buffer c) = 64" MD5Init "\<lambda>c x. the (MD5Update c x (of_nat (length x)))"
  "\<lambda>c. the (MD5Final c)" md5_absorbed md5_hash "2 ^ 32 - 64"
proof unfold_locales
  fix c m x
  show "length (md5_buffer c) = 64 \<Longrightarrow> md5_absorbed [] (MD5Init c)" by (simp add: md5_absorbed_def MD5Init_def)
  assume c: "md5_absorbed m c"
  show "md5_absorbed (m @ x) (the (MD5Update c x (of_nat (length x))))" if "length x < 2 ^ 32 - 64"
    using MD5Update_absorbed [OF c, of x "[]"] that by auto
  obtain c' where c': "MD5Final c = Some (c', MD5Encode (md5_state c'))" "md5_absorbed (m @ md5_pad (length m)) c'"
    using md5_final_absorbed [OF c] by blast
  show "snd (the (MD5Final c)) = md5_hash m" using c' by (simp add: md5_hash_def md5_absorbed_def)
  show "length (md5_buffer (fst (the (MD5Final c)))) = 64" using c' by (simp add: md5_absorbed_def)
qed

lemma md5_pieces_fold:
  "md5_absorbed m c \<Longrightarrow> \<forall>x \<in> set xs. length x < 2 ^ 32 - 64 \<Longrightarrow>
    md5_pieces c xs = Some (foldl (\<lambda>c x. the (MD5Update c x (of_nat (length x)))) c xs)"
proof (induction xs arbitrary: m c)
  case (Cons x xs)
  then obtain c' where c': "MD5Update c x (of_nat (length x)) = Some c'" "md5_absorbed (m @ x) c'"
    using MD5Update_absorbed [OF Cons.prems(1), of x "[]"] by auto
  then show ?case using Cons.IH [OF c'(2)] Cons.prems(2) by simp
qed simp

lemma chunks_length: "\<forall>b \<in> set (chunks xs). length b = 64"
proof (induction xs rule: chunks.induct)
  case (1 xs)
  show ?case
  proof (cases "length xs < 64")
    case False
    then have ch: "chunks xs = take 64 xs # chunks (drop 64 xs)" by (subst chunks.simps) (rule if_not_P)
    have "length (take 64 xs) = 64" using False by simp
    then show ?thesis using 1 [OF False] unfolding ch by (metis set_ConsD)
  qed simp
qed

lemma md5_hash_rfc: "md5_hash m = md5_rfc m"
proof -
  have "foldl MD5Transform st bs = foldl md5_std_compress st bs" if "\<forall>b \<in> set bs. length b = 64" for st bs
    using that by (induction bs arbitrary: st) (simp_all add: MD5Transform_std)
  from this [OF chunks_length] show ?thesis by (simp only: md5_hash_def md5_rfc_def MD5Encode_def)
qed

section \<open>Properties\<close>

text \<open>C11: \<open>MD5Init\<close>, any number of calls of \<open>MD5Update\<close> and \<open>MD5Final\<close> compute the digest of RFC 1321 of the
  pieces put together, without an access outside the input or the buffer, for pieces of fewer than
  \<open>2 ^ 32 - 64\<close> bytes; a longer piece overflows the index of the loop over the blocks.\<close>

theorem md5_standard:
  assumes "\<forall>x \<in> set xs. length x < 2 ^ 32 - 64"
  shows "\<exists>c c'. md5_pieces (MD5Init (md5_uninit s)) xs = Some c \<and> MD5Final c = Some (c', md5_rfc (concat xs))"
proof -
  have start: "length (md5_buffer (md5_uninit s)) = 64" by (simp add: md5_uninit_def)
  note abs = md5.absorbed_starts [OF start]
  note all = md5.absorbed_pieces [OF abs assms]
  from md5_final_absorbed [OF all] md5.finish_digest [OF all] md5_pieces_fold [OF abs assms] show ?thesis
    by (auto simp: md5_hash_rfc)
qed

theorem md5_standard_witness:
  "\<exists>c c'. md5_pieces (MD5Init (md5_uninit stack_cc)) [[0x61], [0x62, 0x63]] = Some c
    \<and> MD5Final c = Some (c', md5_rfc [0x61, 0x62, 0x63])"
  using md5_standard [of "[[0x61], [0x62, 0x63]]" stack_cc] by simp

end
