(* ===== verification/Sm4.thy ===== *)
theory Sm4
  imports Prelude
begin

text \<open>
  \<open>Common/sm4.c\<close>: the block cipher SM4. The rounds are a macro that updates four local words in
  place, four rounds at a time; the inner rounds use a table that merges the substitution box with
  the linear transform, the outer ones the box itself. The lemmas relate this to the cipher of
  GB/T 32907, a recurrence over words, and show that decryption inverts encryption under every
  round key. The interface \<open>block_cipher\<close> is what the users of the cipher rely on.
\<close>

unbundle bit_operations_syntax

section \<open>The cipher of the source\<close>

definition SM4_S :: "u8 list" where
  "SM4_S =
    [0xD6, 0x90, 0xE9, 0xFE, 0xCC, 0xE1, 0x3D, 0xB7, 0x16, 0xB6, 0x14, 0xC2,
     0x28, 0xFB, 0x2C, 0x05, 0x2B, 0x67, 0x9A, 0x76, 0x2A, 0xBE, 0x04, 0xC3,
     0xAA, 0x44, 0x13, 0x26, 0x49, 0x86, 0x06, 0x99, 0x9C, 0x42, 0x50, 0xF4,
     0x91, 0xEF, 0x98, 0x7A, 0x33, 0x54, 0x0B, 0x43, 0xED, 0xCF, 0xAC, 0x62,
     0xE4, 0xB3, 0x1C, 0xA9, 0xC9, 0x08, 0xE8, 0x95, 0x80, 0xDF, 0x94, 0xFA,
     0x75, 0x8F, 0x3F, 0xA6, 0x47, 0x07, 0xA7, 0xFC, 0xF3, 0x73, 0x17, 0xBA,
     0x83, 0x59, 0x3C, 0x19, 0xE6, 0x85, 0x4F, 0xA8, 0x68, 0x6B, 0x81, 0xB2,
     0x71, 0x64, 0xDA, 0x8B, 0xF8, 0xEB, 0x0F, 0x4B, 0x70, 0x56, 0x9D, 0x35,
     0x1E, 0x24, 0x0E, 0x5E, 0x63, 0x58, 0xD1, 0xA2, 0x25, 0x22, 0x7C, 0x3B,
     0x01, 0x21, 0x78, 0x87, 0xD4, 0x00, 0x46, 0x57, 0x9F, 0xD3, 0x27, 0x52,
     0x4C, 0x36, 0x02, 0xE7, 0xA0, 0xC4, 0xC8, 0x9E, 0xEA, 0xBF, 0x8A, 0xD2,
     0x40, 0xC7, 0x38, 0xB5, 0xA3, 0xF7, 0xF2, 0xCE, 0xF9, 0x61, 0x15, 0xA1,
     0xE0, 0xAE, 0x5D, 0xA4, 0x9B, 0x34, 0x1A, 0x55, 0xAD, 0x93, 0x32, 0x30,
     0xF5, 0x8C, 0xB1, 0xE3, 0x1D, 0xF6, 0xE2, 0x2E, 0x82, 0x66, 0xCA, 0x60,
     0xC0, 0x29, 0x23, 0xAB, 0x0D, 0x53, 0x4E, 0x6F, 0xD5, 0xDB, 0x37, 0x45,
     0xDE, 0xFD, 0x8E, 0x2F, 0x03, 0xFF, 0x6A, 0x72, 0x6D, 0x6C, 0x5B, 0x51,
     0x8D, 0x1B, 0xAF, 0x92, 0xBB, 0xDD, 0xBC, 0x7F, 0x11, 0xD9, 0x5C, 0x41,
     0x1F, 0x10, 0x5A, 0xD8, 0x0A, 0xC1, 0x31, 0x88, 0xA5, 0xCD, 0x7B, 0xBD,
     0x2D, 0x74, 0xD0, 0x12, 0xB8, 0xE5, 0xB4, 0xB0, 0x89, 0x69, 0x97, 0x4A,
     0x0C, 0x96, 0x77, 0x7E, 0x65, 0xB9, 0xF1, 0x09, 0xC5, 0x6E, 0xC6, 0x84,
     0x18, 0xF0, 0x7D, 0xEC, 0x3A, 0xDC, 0x4D, 0x20, 0x79, 0xEE, 0x5F, 0x3E,
     0xD7, 0xCB, 0x39, 0x48]"

definition SM4_SBOX_T :: "u32 list" where
  "SM4_SBOX_T =
    [0x8ED55B5B, 0xD0924242, 0x4DEAA7A7, 0x06FDFBFB, 0xFCCF3333, 0x65E28787, 0xC93DF4F4, 0x6BB5DEDE,
     0x4E165858, 0x6EB4DADA, 0x44145050, 0xCAC10B0B, 0x8828A0A0, 0x17F8EFEF, 0x9C2CB0B0, 0x11051414,
     0x872BACAC, 0xFB669D9D, 0xF2986A6A, 0xAE77D9D9, 0x822AA8A8, 0x46BCFAFA, 0x14041010, 0xCFC00F0F,
     0x02A8AAAA, 0x54451111, 0x5F134C4C, 0xBE269898, 0x6D482525, 0x9E841A1A, 0x1E061818, 0xFD9B6666,
     0xEC9E7272, 0x4A430909, 0x10514141, 0x24F7D3D3, 0xD5934646, 0x53ECBFBF, 0xF89A6262, 0x927BE9E9,
     0xFF33CCCC, 0x04555151, 0x270B2C2C, 0x4F420D0D, 0x59EEB7B7, 0xF3CC3F3F, 0x1CAEB2B2, 0xEA638989,
     0x74E79393, 0x7FB1CECE, 0x6C1C7070, 0x0DABA6A6, 0xEDCA2727, 0x28082020, 0x48EBA3A3, 0xC1975656,
     0x80820202, 0xA3DC7F7F, 0xC4965252, 0x12F9EBEB, 0xA174D5D5, 0xB38D3E3E, 0xC33FFCFC, 0x3EA49A9A,
     0x5B461D1D, 0x1B071C1C, 0x3BA59E9E, 0x0CFFF3F3, 0x3FF0CFCF, 0xBF72CDCD, 0x4B175C5C, 0x52B8EAEA,
     0x8F810E0E, 0x3D586565, 0xCC3CF0F0, 0x7D196464, 0x7EE59B9B, 0x91871616, 0x734E3D3D, 0x08AAA2A2,
     0xC869A1A1, 0xC76AADAD, 0x85830606, 0x7AB0CACA, 0xB570C5C5, 0xF4659191, 0xB2D96B6B, 0xA7892E2E,
     0x18FBE3E3, 0x47E8AFAF, 0x330F3C3C, 0x674A2D2D, 0xB071C1C1, 0x0E575959, 0xE99F7676, 0xE135D4D4,
     0x661E7878, 0xB4249090, 0x360E3838, 0x265F7979, 0xEF628D8D, 0x38596161, 0x95D24747, 0x2AA08A8A,
     0xB1259494, 0xAA228888, 0x8C7DF1F1, 0xD73BECEC, 0x05010404, 0xA5218484, 0x9879E1E1, 0x9B851E1E,
     0x84D75353, 0x00000000, 0x5E471919, 0x0B565D5D, 0xE39D7E7E, 0x9FD04F4F, 0xBB279C9C, 0x1A534949,
     0x7C4D3131, 0xEE36D8D8, 0x0A020808, 0x7BE49F9F, 0x20A28282, 0xD4C71313, 0xE8CB2323, 0xE69C7A7A,
     0x42E9ABAB, 0x43BDFEFE, 0xA2882A2A, 0x9AD14B4B, 0x40410101, 0xDBC41F1F, 0xD838E0E0, 0x61B7D6D6,
     0x2FA18E8E, 0x2BF4DFDF, 0x3AF1CBCB, 0xF6CD3B3B, 0x1DFAE7E7, 0xE5608585, 0x41155454, 0x25A38686,
     0x60E38383, 0x16ACBABA, 0x295C7575, 0x34A69292, 0xF7996E6E, 0xE434D0D0, 0x721A6868, 0x01545555,
     0x19AFB6B6, 0xDF914E4E, 0xFA32C8C8, 0xF030C0C0, 0x21F6D7D7, 0xBC8E3232, 0x75B3C6C6, 0x6FE08F8F,
     0x691D7474, 0x2EF5DBDB, 0x6AE18B8B, 0x962EB8B8, 0x8A800A0A, 0xFE679999, 0xE2C92B2B, 0xE0618181,
     0xC0C30303, 0x8D29A4A4, 0xAF238C8C, 0x07A9AEAE, 0x390D3434, 0x1F524D4D, 0x764F3939, 0xD36EBDBD,
     0x81D65757, 0xB7D86F6F, 0xEB37DCDC, 0x51441515, 0xA6DD7B7B, 0x09FEF7F7, 0xB68C3A3A, 0x932FBCBC,
     0x0F030C0C, 0x03FCFFFF, 0xC26BA9A9, 0xBA73C9C9, 0xD96CB5B5, 0xDC6DB1B1, 0x375A6D6D, 0x15504545,
     0xB98F3636, 0x771B6C6C, 0x13ADBEBE, 0xDA904A4A, 0x57B9EEEE, 0xA9DE7777, 0x4CBEF2F2, 0x837EFDFD,
     0x55114444, 0xBDDA6767, 0x2C5D7171, 0x45400505, 0x631F7C7C, 0x50104040, 0x325B6969, 0xB8DB6363,
     0x220A2828, 0xC5C20707, 0xF531C4C4, 0xA88A2222, 0x31A79696, 0xF9CE3737, 0x977AEDED, 0x49BFF6F6,
     0x992DB4B4, 0xA475D1D1, 0x90D34343, 0x5A124848, 0x58BAE2E2, 0x71E69797, 0x64B6D2D2, 0x70B2C2C2,
     0xAD8B2626, 0xCD68A5A5, 0xCB955E5E, 0x624B2929, 0x3C0C3030, 0xCE945A5A, 0xAB76DDDD, 0x867FF9F9,
     0xF1649595, 0x5DBBE6E6, 0x35F2C7C7, 0x2D092424, 0xD1C61717, 0xD66FB9B9, 0xDEC51B1B, 0x94861212,
     0x78186060, 0x30F3C3C3, 0x897CF5F5, 0x5CEFB3B3, 0xD23AE8E8, 0xACDF7373, 0x794C3535, 0xA0208080,
     0x9D78E5E5, 0x56EDBBBB, 0x235E7D7D, 0xC63EF8F8, 0x8BD45F5F, 0xE7C82F2F, 0xDD39E4E4, 0x68492121]"

definition sm4_rotl :: "u32 \<Rightarrow> nat \<Rightarrow> u32" where
  "sm4_rotl a n = push_bit n a OR drop_bit (32 - n) a"

definition load_u32_be :: "u8 list \<Rightarrow> nat \<Rightarrow> u32" where
  "load_u32_be b n =
     push_bit 24 (u32_of_u8 (b ! (4 * n))) OR push_bit 16 (u32_of_u8 (b ! (4 * n + 1)))
     OR push_bit 8 (u32_of_u8 (b ! (4 * n + 2))) OR u32_of_u8 (b ! (4 * n + 3))"

text \<open>The four bytes stored at \<open>b\<close>.\<close>

definition store_u32_be :: "u32 \<Rightarrow> u8 list" where
  "store_u32_be v =
     [u8_of_u32 (drop_bit 24 v), u8_of_u32 (drop_bit 16 v), u8_of_u32 (drop_bit 8 v), u8_of_u32 v]"

text \<open>The byte-wise substitution that \<open>SM4_T_slow\<close> and \<open>SM4_set_key\<close> both write out.\<close>

definition sm4_sub :: "u32 \<Rightarrow> u32" where
  "sm4_sub X =
     (let t = 0;
          t = t OR push_bit 24 (u32_of_u8 (SM4_S ! unat (u8_of_u32 (drop_bit 24 X))));
          t = t OR push_bit 16 (u32_of_u8 (SM4_S ! unat (u8_of_u32 (drop_bit 16 X))));
          t = t OR push_bit 8 (u32_of_u8 (SM4_S ! unat (u8_of_u32 (drop_bit 8 X))))
      in t OR u32_of_u8 (SM4_S ! unat (u8_of_u32 X)))"

definition SM4_T_slow :: "u32 \<Rightarrow> u32" where
  "SM4_T_slow X =
     (let t = sm4_sub X
      in t XOR sm4_rotl t 2 XOR sm4_rotl t 10 XOR sm4_rotl t 18 XOR sm4_rotl t 24)"

definition SM4_T :: "u32 \<Rightarrow> u32" where
  "SM4_T X =
     SM4_SBOX_T ! unat (u8_of_u32 (drop_bit 24 X))
     XOR sm4_rotl (SM4_SBOX_T ! unat (u8_of_u32 (drop_bit 16 X))) 24
     XOR sm4_rotl (SM4_SBOX_T ! unat (u8_of_u32 (drop_bit 8 X))) 16
     XOR sm4_rotl (SM4_SBOX_T ! unat (u8_of_u32 X)) 8"

definition SM4_FK :: "u32 list" where
  "SM4_FK = [0xa3b1bac6, 0x56aa3350, 0x677d9197, 0xb27022dc]"

definition SM4_CK :: "u32 list" where
  "SM4_CK =
    [0x00070E15, 0x1C232A31, 0x383F464D, 0x545B6269, 0x70777E85, 0x8C939AA1, 0xA8AFB6BD, 0xC4CBD2D9,
     0xE0E7EEF5, 0xFC030A11, 0x181F262D, 0x343B4249, 0x50575E65, 0x6C737A81, 0x888F969D, 0xA4ABB2B9,
     0xC0C7CED5, 0xDCE3EAF1, 0xF8FF060D, 0x141B2229, 0x30373E45, 0x4C535A61, 0x686F767D, 0x848B9299,
     0xA0A7AEB5, 0xBCC3CAD1, 0xD8DFE6ED, 0xF4FB0209, 0x10171E25, 0x2C333A41, 0x484F565D, 0x646B7279]"

text \<open>One turn of the loop of \<open>SM4_set_key\<close>, on the array \<open>K\<close> and the round keys stored so far.\<close>

definition sm4_key_step :: "u32 list \<times> u32 list \<Rightarrow> nat \<Rightarrow> u32 list \<times> u32 list" where
  "sm4_key_step = (\<lambda>(K, rk) i.
     let X = K ! ((i + 1) mod 4) XOR K ! ((i + 2) mod 4) XOR K ! ((i + 3) mod 4) XOR SM4_CK ! i;
         t = sm4_sub X;
         t = t XOR sm4_rotl t 13 XOR sm4_rotl t 23;
         K = K[i mod 4 := K ! (i mod 4) XOR t]
     in (K, rk @ [K ! (i mod 4)]))"

text \<open>The round keys \<open>ks->rk\<close>; the result of the C function is always 1.\<close>

definition SM4_set_key :: "u8 list \<Rightarrow> u32 list" where
  "SM4_set_key key =
     (let K = [load_u32_be key 0 XOR SM4_FK ! 0, load_u32_be key 1 XOR SM4_FK ! 1,
               load_u32_be key 2 XOR SM4_FK ! 2, load_u32_be key 3 XOR SM4_FK ! 3]
      in snd (foldl sm4_key_step (K, []) [0..<32]))"

type_synonym sm4_words = "u32 \<times> u32 \<times> u32 \<times> u32"

definition SM4_RNDS ::
  "u32 list \<Rightarrow> nat \<times> nat \<times> nat \<times> nat \<Rightarrow> (u32 \<Rightarrow> u32) \<Rightarrow> sm4_words \<Rightarrow> sm4_words" where
  "SM4_RNDS rk = (\<lambda>(k0, k1, k2, k3) F (b0, b1, b2, b3).
     let b0 = b0 XOR F (b1 XOR b2 XOR b3 XOR rk ! k0);
         b1 = b1 XOR F (b0 XOR b2 XOR b3 XOR rk ! k1);
         b2 = b2 XOR F (b0 XOR b1 XOR b3 XOR rk ! k2);
         b3 = b3 XOR F (b0 XOR b1 XOR b2 XOR rk ! k3)
     in (b0, b1, b2, b3))"

definition sm4_load :: "u8 list \<Rightarrow> sm4_words" where
  "sm4_load inp = (load_u32_be inp 0, load_u32_be inp 1, load_u32_be inp 2, load_u32_be inp 3)"

text \<open>The 16 bytes stored to \<open>out\<close>.\<close>

definition sm4_store :: "sm4_words \<Rightarrow> u8 list" where
  "sm4_store = (\<lambda>(b0, b1, b2, b3).
     store_u32_be b3 @ store_u32_be b2 @ store_u32_be b1 @ store_u32_be b0)"

definition SM4_encrypt :: "u8 list \<Rightarrow> u32 list \<Rightarrow> u8 list" where
  "SM4_encrypt inp rk =
     (let b = sm4_load inp;
          b = SM4_RNDS rk (0, 1, 2, 3) SM4_T_slow b;
          b = SM4_RNDS rk (4, 5, 6, 7) SM4_T b;
          b = SM4_RNDS rk (8, 9, 10, 11) SM4_T b;
          b = SM4_RNDS rk (12, 13, 14, 15) SM4_T b;
          b = SM4_RNDS rk (16, 17, 18, 19) SM4_T b;
          b = SM4_RNDS rk (20, 21, 22, 23) SM4_T b;
          b = SM4_RNDS rk (24, 25, 26, 27) SM4_T b;
          b = SM4_RNDS rk (28, 29, 30, 31) SM4_T_slow b
      in sm4_store b)"

definition SM4_decrypt :: "u8 list \<Rightarrow> u32 list \<Rightarrow> u8 list" where
  "SM4_decrypt inp rk =
     (let b = sm4_load inp;
          b = SM4_RNDS rk (31, 30, 29, 28) SM4_T_slow b;
          b = SM4_RNDS rk (27, 26, 25, 24) SM4_T b;
          b = SM4_RNDS rk (23, 22, 21, 20) SM4_T b;
          b = SM4_RNDS rk (19, 18, 17, 16) SM4_T b;
          b = SM4_RNDS rk (15, 14, 13, 12) SM4_T b;
          b = SM4_RNDS rk (11, 10, 9, 8) SM4_T b;
          b = SM4_RNDS rk (7, 6, 5, 4) SM4_T b;
          b = SM4_RNDS rk (3, 2, 1, 0) SM4_T_slow b
      in sm4_store b)"

section \<open>Bytes and words\<close>

lemma load_u32_be_get: "load_u32_be b n = get_be b (4 * n)"
  by (simp add: load_u32_be_def get_be_def)

lemma store_u32_be_put: "store_u32_be v = put_be v"
  by (simp add: store_u32_be_def put_be_def)

lemma sm4_load_store: "sm4_load (sm4_store (b0, b1, b2, b3)) = (b3, b2, b1, b0)"
proof -
  have g: "get_be (put_be v @ xs) 0 = v" for v xs by (rule get_put_be)
  have d: "get_be (put_be v @ xs) (4 + n) = get_be xs n" for v xs n
    by (simp add: get_be_def nth_append ac_simps)
  show ?thesis
    using d [of b3 _ 0] d [of b3 _ 4] d [of b3 _ 8] d [of b2 _ 0] d [of b2 _ 4] d [of b1 _ 0]
      g [of b0 "[]"]
    by (simp add: sm4_load_def sm4_store_def load_u32_be_get store_u32_be_put g)
qed

lemma length_sm4_store [simp]: "length (sm4_store b) = 16"
  by (cases b) (simp add: sm4_store_def store_u32_be_def)

definition sm4_swap :: "sm4_words \<Rightarrow> sm4_words" where
  "sm4_swap = (\<lambda>(b0, b1, b2, b3). (b3, b2, b1, b0))"

lemma sm4_load_store_swap: "sm4_load (sm4_store b) = sm4_swap b"
  by (cases b) (simp add: sm4_load_store sm4_swap_def)

lemma sm4_store_load: "length x = 16 \<Longrightarrow> sm4_store (sm4_swap (sm4_load x)) = x"
proof -
  assume "length x = 16"
  then obtain b0 b1 b2 b3 b4 b5 b6 b7 b8 b9 b10 b11 b12 b13 b14 b15 where
    x: "x = [b0, b1, b2, b3, b4, b5, b6, b7, b8, b9, b10, b11, b12, b13, b14, b15]"
    by (auto simp: numeral_eq_Suc length_Suc_conv)
  have l: "load_u32_be x 0 = get_be [b0, b1, b2, b3] 0" "load_u32_be x 1 = get_be [b4, b5, b6, b7] 0"
    "load_u32_be x 2 = get_be [b8, b9, b10, b11] 0" "load_u32_be x 3 = get_be [b12, b13, b14, b15] 0"
    by (simp_all add: x load_u32_be_def get_be_def)
  show ?thesis
    unfolding sm4_load_def l sm4_swap_def prod.case sm4_store_def store_u32_be_put put_get_be
    by (simp add: x)
qed

section \<open>Decryption\<close>

text \<open>Four rounds are undone by the same four rounds on the words in the opposite order.\<close>

lemma SM4_RNDS_undo:
  "SM4_RNDS rk (k3, k2, k1, k0) F (sm4_swap (SM4_RNDS rk (k0, k1, k2, k3) F b)) = sm4_swap b"
  by (cases b) (simp add: SM4_RNDS_def sm4_swap_def Let_def ac_simps)

lemma SM4_decrypt_encrypt: "length x = 16 \<Longrightarrow> SM4_decrypt (SM4_encrypt x rk) rk = x"
  by (simp add: SM4_decrypt_def SM4_encrypt_def Let_def sm4_load_store_swap SM4_RNDS_undo
      sm4_store_load)

lemma SM4_encrypt_decrypt: "length x = 16 \<Longrightarrow> SM4_encrypt (SM4_decrypt x rk) rk = x"
  by (simp add: SM4_decrypt_def SM4_encrypt_def Let_def sm4_load_store_swap SM4_RNDS_undo
      sm4_store_load)

lemma length_SM4 [simp]: "length (SM4_encrypt x rk) = 16" "length (SM4_decrypt x rk) = 16"
  by (simp_all add: SM4_encrypt_def SM4_decrypt_def Let_def)

section \<open>The merged table\<close>

text \<open>The linear transform of the standard.\<close>

definition sm4_L :: "u32 \<Rightarrow> u32" where
  "sm4_L t = t XOR word_rotl 2 t XOR word_rotl 10 t XOR word_rotl 18 t XOR word_rotl 24 t"

lemma sm4_rotl_rotl: "0 < n \<Longrightarrow> n < 32 \<Longrightarrow> sm4_rotl x n = word_rotl n x"
  unfolding sm4_rotl_def by (rule shifts_rotl)

lemma SM4_T_slow_L: "SM4_T_slow X = sm4_L (sm4_sub X)"
  by (simp add: SM4_T_slow_def sm4_L_def sm4_rotl_rotl Let_def)

lemma sm4_L_shifts:
  "sm4_L t = t XOR (push_bit 2 t OR drop_bit 30 t) XOR (push_bit 10 t OR drop_bit 22 t)
     XOR (push_bit 18 t OR drop_bit 14 t) XOR (push_bit 24 t OR drop_bit 8 t)"
  using shifts_rotl [of 2 t] shifts_rotl [of 10 t] shifts_rotl [of 18 t] shifts_rotl [of 24 t]
  by (simp add: sm4_L_def)

text \<open>The table is checked entry by entry, in four parts.\<close>

abbreviation sm4_entry :: "u8 \<Rightarrow> u32" where
  "sm4_entry s \<equiv> sm4_L (push_bit 24 (u32_of_u8 s))"

lemma sm4_table_1: "take 64 SM4_SBOX_T = map sm4_entry (take 64 SM4_S)"
  by (simp add: SM4_SBOX_T_def SM4_S_def del: push_bit_numeral)
    (simp add: sm4_L_shifts u32_reduce)

lemma sm4_table_2: "take 64 (drop 64 SM4_SBOX_T) = map sm4_entry (take 64 (drop 64 SM4_S))"
  by (simp add: SM4_SBOX_T_def SM4_S_def del: push_bit_numeral)
    (simp add: sm4_L_shifts u32_reduce)

lemma sm4_table_3: "take 64 (drop 128 SM4_SBOX_T) = map sm4_entry (take 64 (drop 128 SM4_S))"
  by (simp add: SM4_SBOX_T_def SM4_S_def del: push_bit_numeral)
    (simp add: sm4_L_shifts u32_reduce)

lemma sm4_table_4: "take 64 (drop 192 SM4_SBOX_T) = map sm4_entry (take 64 (drop 192 SM4_S))"
  by (simp add: SM4_SBOX_T_def SM4_S_def del: push_bit_numeral)
    (simp add: sm4_L_shifts u32_reduce)

lemma sm4_table: "SM4_SBOX_T = map sm4_entry SM4_S"
proof -
  have cut: "xs = take 64 xs @ take 64 (drop 64 xs) @ take 64 (drop 128 xs) @ take 64 (drop 192 xs)"
    if "length xs = 256" for xs :: "'a list"
  proof -
    have "take 64 (drop 192 xs) = drop 192 xs" using that by simp
    moreover have "drop 64 (drop 128 xs) = drop 192 xs" "drop 64 (drop 64 xs) = drop 128 xs" by simp_all
    ultimately show ?thesis by (metis append_take_drop_id)
  qed
  have l: "length SM4_SBOX_T = 256" "length SM4_S = 256" by (simp_all add: SM4_SBOX_T_def SM4_S_def)
  have "SM4_SBOX_T = map sm4_entry (take 64 SM4_S @ take 64 (drop 64 SM4_S)
      @ take 64 (drop 128 SM4_S) @ take 64 (drop 192 SM4_S))"
    unfolding map_append sm4_table_1 [symmetric] sm4_table_2 [symmetric] sm4_table_3 [symmetric]
      sm4_table_4 [symmetric]
    by (rule cut [OF l(1)])
  also have "\<dots> = map sm4_entry SM4_S" by (rule arg_cong [OF cut [OF l(2), symmetric]])
  finally show ?thesis .
qed

lemma sm4_table_nth: "SM4_SBOX_T ! unat (b :: u8) = sm4_L (push_bit 24 (u32_of_u8 (SM4_S ! unat b)))"
proof -
  have "length SM4_S = 256" by (simp add: SM4_S_def)
  then have "unat b < length SM4_S" using unsigned_less [of b] by simp
  then show ?thesis by (simp add: sm4_table)
qed

lemma sm4_L_rotl: "word_rotl n (sm4_L x) = sm4_L (word_rotl n x)"
  by (simp add: sm4_L_def word_rotl_eq_word_rotr word_rot_logs word_rotr_word_rotr_eq add.commute)

lemma sm4_L_xor: "sm4_L (x XOR y) = sm4_L x XOR sm4_L y"
  by (simp add: sm4_L_def word_rot_logs ac_simps)

lemma byte_places:
  "word_rotl 24 (push_bit 24 (u32_of_u8 s)) = push_bit 16 (u32_of_u8 s)"
  "word_rotl 16 (push_bit 24 (u32_of_u8 s)) = push_bit 8 (u32_of_u8 s)"
  "word_rotl 8 (push_bit 24 (u32_of_u8 s)) = u32_of_u8 s"
  by (rule bit_word_eqI; simp; erule byte_position; auto simp: bit_simps le_mod_geq)+

lemma bytes_or_xor:
  "push_bit 24 (u32_of_u8 a) OR push_bit 16 (u32_of_u8 b) OR push_bit 8 (u32_of_u8 c) OR u32_of_u8 d
   = push_bit 24 (u32_of_u8 a) XOR push_bit 16 (u32_of_u8 b) XOR push_bit 8 (u32_of_u8 c)
     XOR u32_of_u8 d"
  by (rule bit_word_eqI; simp; erule byte_position; auto simp: bit_simps)

lemma SM4_T_eq_slow: "SM4_T X = SM4_T_slow X"
proof -
  have sub: "sm4_sub X = push_bit 24 (u32_of_u8 (SM4_S ! unat (u8_of_u32 (drop_bit 24 X))))
      XOR push_bit 16 (u32_of_u8 (SM4_S ! unat (u8_of_u32 (drop_bit 16 X))))
      XOR push_bit 8 (u32_of_u8 (SM4_S ! unat (u8_of_u32 (drop_bit 8 X))))
      XOR u32_of_u8 (SM4_S ! unat (u8_of_u32 X))"
    by (simp only: sm4_sub_def Let_def or.left_neutral or.assoc bytes_or_xor)
  show ?thesis
    by (simp add: SM4_T_slow_L sub SM4_T_def sm4_table_nth sm4_rotl_rotl sm4_L_rotl sm4_L_xor
        byte_places ac_simps)
qed

section \<open>The standard\<close>

text \<open>GB/T 32907-2016. Key schedule and encryption are both the recurrence
  \<open>X(i+4) = X(i) XOR F (X(i+1) XOR X(i+2) XOR X(i+3) XOR rk(i))\<close>.\<close>

fun sm4_std_seq :: "(u32 \<Rightarrow> u32) \<Rightarrow> (nat \<Rightarrow> u32) \<Rightarrow> (nat \<Rightarrow> u32) \<Rightarrow> nat \<Rightarrow> u32" where
  "sm4_std_seq F rk init i =
     (if i < 4 then init i
      else sm4_std_seq F rk init (i - 4)
           XOR F (sm4_std_seq F rk init (i - 3) XOR sm4_std_seq F rk init (i - 2)
                  XOR sm4_std_seq F rk init (i - 1) XOR rk (i - 4)))"

declare sm4_std_seq.simps [simp del]

lemma sm4_std_seq_init: "i < 4 \<Longrightarrow> sm4_std_seq F rk init i = init i"
  by (simp add: sm4_std_seq.simps)

lemma sm4_std_seq_next:
  "sm4_std_seq F rk init (i + 4) = sm4_std_seq F rk init i
     XOR F (sm4_std_seq F rk init (i + 1) XOR sm4_std_seq F rk init (i + 2)
            XOR sm4_std_seq F rk init (i + 3) XOR rk i)"
  by (subst sm4_std_seq.simps) (simp add: numeral_eq_Suc)

text \<open>The constant key: byte \<open>j\<close> of word \<open>i\<close> is \<open>7 (4 i + j)\<close> modulo 256.\<close>

definition sm4_std_CK :: "nat \<Rightarrow> u32" where
  "sm4_std_CK i = get_be (map (\<lambda>j. of_nat (7 * (4 * i + j))) [0..<4]) 0"

definition sm4_std_key :: "u8 list \<Rightarrow> nat \<Rightarrow> u32" where
  "sm4_std_key key i =
     sm4_std_seq (\<lambda>X. let t = sm4_sub X in t XOR word_rotl 13 t XOR word_rotl 23 t) sm4_std_CK
       (\<lambda>i. get_be key (4 * i) XOR SM4_FK ! i) (i + 4)"

definition sm4_std_encrypt :: "u8 list \<Rightarrow> (nat \<Rightarrow> u32) \<Rightarrow> u8 list" where
  "sm4_std_encrypt inp rk =
     (let X = sm4_std_seq (\<lambda>X. sm4_L (sm4_sub X)) rk (\<lambda>i. get_be inp (4 * i))
      in put_be (X 35) @ put_be (X 34) @ put_be (X 33) @ put_be (X 32))"

lemma SM4_CK_std:
  assumes "i < 32"
  shows "SM4_CK ! i = sm4_std_CK i"
proof -
  have "SM4_CK = map sm4_std_CK [0..<32]"
    by (simp add: SM4_CK_def sm4_std_CK_def get_be_def upt_rec)
  then have "SM4_CK ! i = map sm4_std_CK [0..<32] ! i" by (simp only:)
  also have "\<dots> = sm4_std_CK i" using assms by (subst nth_map) (simp_all del: upt_rec_numeral)
  finally show ?thesis .
qed

text \<open>The array \<open>K\<close> is a ring that holds the last four words of the recurrence.\<close>

lemma sm4_key_ring:
  fixes key
  defines "Y \<equiv> sm4_std_seq (\<lambda>X. let t = sm4_sub X in t XOR word_rotl 13 t XOR word_rotl 23 t)
     sm4_std_CK (\<lambda>i. get_be key (4 * i) XOR SM4_FK ! i)"
  shows "k \<le> 32 \<Longrightarrow>
    let (K, rk) = foldl sm4_key_step (map Y [0..<4], []) [0..<k]
    in length K = 4 \<and> (\<forall>j < 4. K ! ((k + j) mod 4) = Y (k + j)) \<and> rk = map (\<lambda>i. Y (i + 4)) [0..<k]"
proof (induction k)
  case 0
  then show ?case by simp
next
  case (Suc k)
  obtain K rk where f: "foldl sm4_key_step (map Y [0..<4], []) [0..<k] = (K, rk)" by fastforce
  with Suc have K: "length K = 4" "\<And>j. j < 4 \<Longrightarrow> K ! ((k + j) mod 4) = Y (k + j)"
    and rk: "rk = map (\<lambda>i. Y (i + 4)) [0..<k]" by auto
  have K0: "K ! (k mod 4) = Y k" using K(2) [of 0] by simp
  let ?K = "K[k mod 4 := Y (k + 4)]"
  have "Y (k + 4) = Y k XOR (let t = sm4_sub (Y (k + 1) XOR Y (k + 2) XOR Y (k + 3) XOR sm4_std_CK k)
      in t XOR word_rotl 13 t XOR word_rotl 23 t)"
    unfolding Y_def by (rule sm4_std_seq_next)
  then have step: "sm4_key_step (K, rk) k = (?K, rk @ [Y (k + 4)])"
    using K(1) K(2) [of 1] K(2) [of 2] K(2) [of 3] Suc.prems
    by (simp add: sm4_key_step_def K0 sm4_rotl_rotl SM4_CK_std Let_def)
  have "?K ! ((Suc k + j) mod 4) = Y (Suc k + j)" if j: "j < 4" for j
  proof (cases "j = 3")
    case True
    then have "(Suc k + j) mod 4 = k mod 4" by simp
    with True K(1) show ?thesis by (simp add: add.commute)
  next
    case False
    then have "Suc j < 4" using j by simp
    moreover have "(Suc k + j) mod 4 \<noteq> k mod 4"
      using \<open>Suc j < 4\<close> mod_eq_dvd_iff_nat [of k "Suc k + j" 4] by (auto dest: dvd_imp_le)
    ultimately show ?thesis using K(2) [of "Suc j"] by simp
  qed
  then show ?case
    using K(1) step [unfolded rk] by (simp add: f rk)
qed

lemma SM4_set_key_std: "SM4_set_key key = map (sm4_std_key key) [0..<32]"
proof -
  let ?Y = "sm4_std_seq (\<lambda>X. let t = sm4_sub X in t XOR word_rotl 13 t XOR word_rotl 23 t)
     sm4_std_CK (\<lambda>i. get_be key (4 * i) XOR SM4_FK ! i)"
  have "[load_u32_be key 0 XOR SM4_FK ! 0, load_u32_be key 1 XOR SM4_FK ! 1,
      load_u32_be key 2 XOR SM4_FK ! 2, load_u32_be key 3 XOR SM4_FK ! 3] = map ?Y [0..<4]"
    by (simp add: load_u32_be_get sm4_std_seq_init upt_rec numeral_2_eq_2 numeral_3_eq_3)
  then show ?thesis
    using sm4_key_ring [of 32 key]
    by (auto simp: SM4_set_key_def sm4_std_key_def [abs_def] Let_def split: prod.splits
        simp del: upt_rec_numeral)
qed

text \<open>Four rounds of the macro are four steps of the recurrence.\<close>

lemma SM4_RNDS_std:
  fixes inp rk
  defines "X \<equiv> sm4_std_seq (\<lambda>X. sm4_L (sm4_sub X)) (\<lambda>i. rk ! i) (\<lambda>i. get_be inp (4 * i))"
  assumes "F = SM4_T \<or> F = SM4_T_slow" and "k1 = k + 1" "k2 = k + 2" "k3 = k + 3"
    and "b = (X k, X k1, X k2, X k3)"
  shows "SM4_RNDS rk (k, k1, k2, k3) F b = (X (k + 4), X (k1 + 4), X (k2 + 4), X (k3 + 4))"
proof -
  have F: "F = (\<lambda>X. sm4_L (sm4_sub X))" using assms(2) by (auto simp: SM4_T_eq_slow SM4_T_slow_L)
  have n: "X i XOR F (X (i + 1) XOR X (i + 2) XOR X (i + 3) XOR rk ! i) = X (i + 4)" for i
    unfolding X_def F by (rule sm4_std_seq_next [symmetric])
  have e: "X k XOR F (X k1 XOR X k2 XOR X k3 XOR rk ! k) = X (k + 4)"
    "X k1 XOR F (X (k + 4) XOR X k2 XOR X k3 XOR rk ! k1) = X (k1 + 4)"
    "X k2 XOR F (X (k + 4) XOR X (k1 + 4) XOR X k3 XOR rk ! k2) = X (k2 + 4)"
    "X k3 XOR F (X (k + 4) XOR X (k1 + 4) XOR X (k2 + 4) XOR rk ! k3) = X (k3 + 4)"
    using n [of k] n [of k1] n [of k2] n [of k3]
    by (simp_all add: assms(3-5) ac_simps eval_nat_numeral)
  show ?thesis by (simp only: SM4_RNDS_def assms(6) prod.case Let_def e)
qed

lemma SM4_encrypt_std_rk: "SM4_encrypt inp rk = sm4_std_encrypt inp (\<lambda>i. rk ! i)"
proof -
  let ?X = "sm4_std_seq (\<lambda>X. sm4_L (sm4_sub X)) (\<lambda>i. rk ! i) (\<lambda>i. get_be inp (4 * i))"
  have "sm4_load inp = (?X 0, ?X 1, ?X 2, ?X 3)"
    by (simp add: sm4_load_def load_u32_be_get sm4_std_seq_init)
  then show ?thesis
    by (simp add: SM4_encrypt_def sm4_std_encrypt_def Let_def SM4_RNDS_std sm4_store_def
        store_u32_be_put)
qed

text \<open>C15: the cipher of the source is the cipher of the standard: the key schedule on its ring of four
  words, the merged table in the inner rounds and the unrolled rounds compute the recurrences of
  GB/T 32907.\<close>

theorem SM4_standard:
  "SM4_encrypt inp (SM4_set_key key) = sm4_std_encrypt inp (\<lambda>i. SM4_set_key key ! i)
   \<and> (\<forall>i < 32. SM4_set_key key ! i = sm4_std_key key i)"
  by (simp add: SM4_encrypt_std_rk SM4_set_key_std del: upt_rec_numeral)

theorem SM4_standard_witness:
  "SM4_set_key (replicate 16 0) ! 31 = sm4_std_key (replicate 16 0) 31"
  using SM4_standard [of "[]" "replicate 16 0"] by simp

text \<open>C16: decryption inverts encryption, and encryption inverts decryption, on every block and for
  every array of round keys, scheduled from a key or not.\<close>

theorem SM4_roundtrip:
  assumes "length x = 16"
  shows "SM4_decrypt (SM4_encrypt x rk) rk = x \<and> SM4_encrypt (SM4_decrypt x rk) rk = x"
  using assms by (simp add: SM4_decrypt_encrypt SM4_encrypt_decrypt)

theorem SM4_roundtrip_witness:
  "SM4_decrypt (SM4_encrypt [0, 1, 2, 3, 4, 5, 6, 7, 8, 9, 10, 11, 12, 13, 14, 15] (replicate 32 1)) (replicate 32 1)
    = [0, 1, 2, 3, 4, 5, 6, 7, 8, 9, 10, 11, 12, 13, 14, 15]"
  using SM4_roundtrip [of "[0, 1, 2, 3, 4, 5, 6, 7, 8, 9, 10, 11, 12, 13, 14, 15]" "replicate 32 1"] by simp

end
