(* ===== verification/Sm4_Crypto.thy ===== *)
theory Sm4_Crypto
  imports Sm4
begin

text \<open>
  \<open>Common/SM4Crypto.cpp\<close>: the class that the feature database uses to encrypt and decrypt its
  records with a key that is compiled in. Memory is a list of bytes, \<open>In\<close> and \<open>Out\<close> are offsets into
  it, so that both may lie in one buffer. What the class relies on is the interface \<open>block_cipher\<close>;
  it is interpreted on the cipher of \<open>sm4.c\<close>.
\<close>

section \<open>The operations\<close>

text \<open>The loop of \<open>SM4EncryptBuffer\<close> and \<open>SM4DecryptBuffer\<close>; \<open>f\<close> is the cipher applied to a block.\<close>

function sm4_buffer_loop ::
  "(u8 list \<Rightarrow> u8 list) \<Rightarrow> u8 list \<Rightarrow> nat \<Rightarrow> nat \<Rightarrow> int \<Rightarrow> int \<Rightarrow> u8 list" where
  "sm4_buffer_loop f mem In Out i Len =
     (if i < Len
      then sm4_buffer_loop f (blit mem Out (f (take 16 (drop In mem)))) (In + 16) (Out + 16) (i + 16) Len
      else mem)"
  by pat_completeness auto
termination by (relation "measure (\<lambda>(f, mem, In, Out, i, Len). nat (Len - i))") auto

declare sm4_buffer_loop.simps [simp del]

definition SM4EncryptBuffer :: "u32 list \<Rightarrow> u8 list \<Rightarrow> nat \<Rightarrow> nat \<Rightarrow> int \<Rightarrow> u8 list" where
  "SM4EncryptBuffer m_SK4 mem In Out Len =
     (if Len mod 16 \<noteq> 0 then mem
      else sm4_buffer_loop (\<lambda>x. SM4_encrypt x m_SK4) mem In Out 0 Len)"

definition SM4DecryptBuffer :: "u32 list \<Rightarrow> u8 list \<Rightarrow> nat \<Rightarrow> nat \<Rightarrow> int \<Rightarrow> u8 list" where
  "SM4DecryptBuffer m_SK4 mem In Out Len =
     (if Len mod 16 \<noteq> 0 then mem
      else sm4_buffer_loop (\<lambda>x. SM4_decrypt x m_SK4) mem In Out 0 Len)"

text \<open>The product \<open>UnitCount * CRYPTO_UNIT_SIZE\<close> is computed in the 32-bit type \<open>int\<close>.\<close>

definition int_mul :: "int \<Rightarrow> int \<Rightarrow> int" where
  "int_mul a b = sint (word_of_int (a * b) :: 32 word)"

definition EncryptSector :: "u32 list \<Rightarrow> u8 list \<Rightarrow> nat \<Rightarrow> nat \<Rightarrow> int \<Rightarrow> u8 list" where
  "EncryptSector m_SK4 mem In Out UnitCount =
     SM4EncryptBuffer m_SK4 mem In Out (int_mul UnitCount 16)"

definition DecryptSector :: "u32 list \<Rightarrow> u8 list \<Rightarrow> nat \<Rightarrow> nat \<Rightarrow> int \<Rightarrow> u8 list" where
  "DecryptSector m_SK4 mem In Out UnitCount =
     SM4DecryptBuffer m_SK4 mem In Out (int_mul UnitCount 16)"

definition sm4_crypto_key :: "u8 list" where
  "sm4_crypto_key = [0x10,0x32,0x54,0x76,0x98,0xab,0xcd,0x55,0xfe,0xcd,0xbc,0x89,0x76,0x54,0x75,0x46]"

text \<open>The constructor: the round keys that the one instance holds.\<close>

definition CSM4Crypto :: "u32 list" where
  "CSM4Crypto = SM4_set_key sm4_crypto_key"

section \<open>The interface of a block cipher\<close>

fun ecb :: "(u8 list \<Rightarrow> u8 list) \<Rightarrow> nat \<Rightarrow> u8 list \<Rightarrow> u8 list" where
  "ecb f 0 xs = []"
| "ecb f (Suc n) xs = f (take 16 xs) @ ecb f n (drop 16 xs)"

text \<open>A destination a forward block-by-block copy may use: it does not lie above the source and
  overlap it.\<close>

definition forward_ok :: "nat \<Rightarrow> nat \<Rightarrow> nat \<Rightarrow> bool" where
  "forward_ok In Out n \<longleftrightarrow> Out \<le> In \<or> In + n \<le> Out"

locale block_cipher =
  fixes enc :: "u8 list \<Rightarrow> u8 list" and dec :: "u8 list \<Rightarrow> u8 list"
  assumes length_enc: "length (enc x) = 16" and length_dec: "length (dec x) = 16"
    and dec_enc: "length x = 16 \<Longrightarrow> dec (enc x) = x"
begin

lemma length_ecb: "length (ecb enc n xs) = 16 * n"
  by (induction n arbitrary: xs) (simp_all add: length_enc)

lemma ecb_inverse: "length xs = 16 * n \<Longrightarrow> ecb dec n (ecb enc n xs) = xs"
  by (induction n arbitrary: xs) (simp_all add: length_enc dec_enc)

text \<open>The loop over a buffer writes the block-by-block image of the source.\<close>

lemma buffer_loop:
  "In + 16 * n \<le> length mem \<Longrightarrow> Out + 16 * n \<le> length mem \<Longrightarrow> forward_ok In Out (16 * n) \<Longrightarrow>
   sm4_buffer_loop enc mem In Out i (i + int (16 * n))
     = blit mem Out (ecb enc n (take (16 * n) (drop In mem)))"
proof (induction n arbitrary: mem In Out i)
  case 0
  then show ?case by (simp add: sm4_buffer_loop.simps)
next
  case (Suc n)
  let ?b = "enc (take 16 (drop In mem))"
  let ?m = "blit mem Out ?b"
  have len: "length ?m = length mem" using Suc.prems by (simp add: length_enc)
  have src: "take (16 * n) (drop (In + 16) ?m) = take (16 * n) (drop (In + 16) mem)"
    using Suc.prems take_drop_blit_before [of "In + 16" "16 * n" Out mem ?b]
    by (auto simp: forward_ok_def length_enc)
  have "sm4_buffer_loop enc mem In Out i (i + int (16 * Suc n))
      = sm4_buffer_loop enc ?m (In + 16) (Out + 16) (i + 16) ((i + 16) + int (16 * n))"
    by (simp add: sm4_buffer_loop.simps [of enc mem] algebra_simps)
  also have "\<dots> = blit ?m (Out + 16) (ecb enc n (take (16 * n) (drop (In + 16) ?m)))"
    using Suc.prems len by (intro Suc.IH) (auto simp: forward_ok_def)
  also have "\<dots> = blit mem Out (?b @ ecb enc n (take (16 * n) (drop (In + 16) mem)))"
    using blit_blit [of Out ?b mem] Suc.prems by (simp add: src length_enc)
  finally show ?case
    by (simp add: drop_take add.commute)
qed

end

text \<open>Two ciphers that invert one another: what was encrypted and then decrypted is back, wherever the
  intermediate and the final copy lie.\<close>

locale cipher_pair = block_cipher +
  assumes enc_dec: "length x = 16 \<Longrightarrow> enc (dec x) = x"

sublocale cipher_pair < rev: block_cipher dec enc
  by unfold_locales (rule length_dec length_enc enc_dec; assumption?)+

context cipher_pair begin

lemma buffer_roundtrip:
  assumes "In + 16 * n \<le> length mem" "Out + 16 * n \<le> length mem" "Back + 16 * n \<le> length mem"
    and "forward_ok In Out (16 * n)" "forward_ok Out Back (16 * n)"
    and "mem' = sm4_buffer_loop enc mem In Out 0 (int (16 * n))"
  shows "take (16 * n) (drop Back (sm4_buffer_loop dec mem' Out Back 0 (int (16 * n))))
    = take (16 * n) (drop In mem)"
proof -
  let ?x = "take (16 * n) (drop In mem)"
  have x: "length ?x = 16 * n" using assms(1) by simp
  have m': "mem' = blit mem Out (ecb enc n ?x)"
    using buffer_loop [OF assms(1,2,4), of 0] assms(6) by simp
  then have len: "length mem' = length mem" using assms(2) by (simp add: length_ecb)
  have y: "take (16 * n) (drop Out mem') = ecb enc n ?x"
    using take_drop_blit_same [of Out "ecb enc n ?x" mem] assms(2) by (simp add: m' length_ecb)
  have "sm4_buffer_loop dec mem' Out Back 0 (int (16 * n))
      = blit mem' Back (ecb dec n (ecb enc n ?x))"
    using rev.buffer_loop [of Out n mem' Back 0] assms(2,3,5) by (simp add: len y)
  then show ?thesis
    using take_drop_blit_same [of Back ?x mem'] assms(3) len x by (simp add: ecb_inverse)
qed

end

interpretation sm4: cipher_pair "\<lambda>x. SM4_encrypt x rk" "\<lambda>x. SM4_decrypt x rk" for rk
  by unfold_locales (simp_all add: SM4_decrypt_encrypt SM4_encrypt_decrypt)

section \<open>Sectors\<close>

lemma int_mul_16: "n < 2 ^ 27 \<Longrightarrow> int_mul (int n) 16 = int (16 * n)"
proof -
  assume "n < 2 ^ 27"
  then have "signed_take_bit 31 (int n * 16) = int n * 16"
    by (intro signed_take_bit_int_eq_self) simp_all
  then show ?thesis by (simp only: int_mul_def signed_of_int) simp
qed

text \<open>C17: what \<open>EncryptSector\<close> writes, \<open>DecryptSector\<close> turns back into the original bytes, in place,
  into another buffer or over one that starts lower. The counts are those for which the \<open>int\<close>
  product of \<open>EncryptSector\<close> does not overflow.\<close>

theorem sector_roundtrip:
  assumes "n < 2 ^ 27"
    and "In + 16 * n \<le> length mem" "Out + 16 * n \<le> length mem" "Back + 16 * n \<le> length mem"
    and "forward_ok In Out (16 * n)" "forward_ok Out Back (16 * n)"
  shows "take (16 * n) (drop Back
      (DecryptSector CSM4Crypto (EncryptSector CSM4Crypto mem In Out (int n)) Out Back (int n)))
    = take (16 * n) (drop In mem)"
  using sm4.buffer_roundtrip [OF assms(2-6) refl, of CSM4Crypto] int_mul_16 [OF assms(1)]
  by (simp add: EncryptSector_def DecryptSector_def SM4EncryptBuffer_def SM4DecryptBuffer_def)

theorem sector_roundtrip_witness:
  "take 32 (DecryptSector CSM4Crypto (EncryptSector CSM4Crypto (replicate 40 7) 8 8 2) 8 0 2)
    = replicate 32 7"
  using sector_roundtrip [of 2 8 "replicate 40 7" 8 0] by (simp add: forward_ok_def)

end
