(* ===== verification/Midl.thy ===== *)
theory Midl
  imports Prelude
begin

text \<open>
  \<open>lmdb/midl.c\<close>: ID lists. A list is one block of \<open>size_t\<close> cells; the C pointer \<open>ids\<close> points at the
  second one, so \<open>ids[k]\<close> is cell \<open>k + 1\<close>: the capacity is \<open>ids[-1]\<close>, the count \<open>ids[0]\<close>, the IDs
  follow. Every access is checked, \<open>None\<close> is an access outside the block. The result of an operation
  that can run out of memory is the C return code and the block that \<open>*idp\<close> then points to.
\<close>

unbundle bit_operations_syntax

section \<open>Memory\<close>

type_synonym idl = "u64 list"

text \<open>What the C library's allocator does: which requests it grants, and what new cells hold.\<close>

record allocator =
  al_ok :: "nat \<Rightarrow> bool"
  al_junk :: "nat \<Rightarrow> u64"

definition c_malloc :: "allocator \<Rightarrow> u64 \<Rightarrow> idl option" where
  "c_malloc al bytes =
     (if al_ok al (unat bytes) then Some (map (al_junk al) [0..<unat bytes div 8]) else None)"

definition c_realloc :: "allocator \<Rightarrow> idl \<Rightarrow> u64 \<Rightarrow> idl option" where
  "c_realloc al mem bytes =
     (if al_ok al (unat bytes)
      then let n = unat bytes div 8 in Some (take n mem @ map (al_junk al) [length mem..<n])
      else None)"

definition ids_rd :: "idl \<Rightarrow> nat \<Rightarrow> u64 option" where
  "ids_rd mem k = rd mem (k + 1)"

definition ids_wr :: "idl \<Rightarrow> nat \<Rightarrow> u64 \<Rightarrow> idl option" where
  "ids_wr mem k v = wr mem (k + 1) v"

definition MDB_IDL_UM_MAX :: nat where "MDB_IDL_UM_MAX = 2 ^ 17 - 1"

definition CMP :: "u64 \<Rightarrow> u64 \<Rightarrow> int" where
  "CMP x y = (if x < y then - 1 else if y < x then 1 else 0)"

section \<open>Binary search\<close>

text \<open>Addition in C's \<open>unsigned\<close>.\<close>

definition uadd :: "nat \<Rightarrow> nat \<Rightarrow> nat" where
  "uadd a b = (a + b) mod 2 ^ 32"

lemma uadd_small [simp]: "a + b < 2 ^ 32 \<Longrightarrow> uadd a b = a + b"
  by (simp add: uadd_def)

text \<open>The loop that \<open>mdb_midl_search\<close>, \<open>mdb_mid2l_search\<close> and \<open>mdb_pid_insert\<close> share; \<open>probe\<close> is the
  comparison at a position. The variables are \<open>unsigned\<close>.\<close>

function bs_loop :: "(nat \<Rightarrow> int option) \<Rightarrow> nat \<Rightarrow> nat \<Rightarrow> int \<Rightarrow> nat \<Rightarrow> (nat \<times> int) option" where
  "bs_loop probe base cursor val n =
     (if 0 < n
      then let pivot = n div 2; cursor = uadd (uadd base pivot) 1
           in case probe cursor of
                None \<Rightarrow> None
              | Some val \<Rightarrow>
                  if val < 0 then bs_loop probe base cursor val pivot
                  else if 0 < val then bs_loop probe cursor cursor val (n - (pivot + 1))
                  else Some (cursor, 0)
      else Some (cursor, val))"
  by pat_completeness auto
termination by (relation "measure (\<lambda>(p, b, c, v, n). n)") auto

declare bs_loop.simps [simp del]

definition bs_search :: "(nat \<Rightarrow> int option) \<Rightarrow> nat \<Rightarrow> nat option" where
  "bs_search probe n =
     (case bs_loop probe 0 1 0 n of
        None \<Rightarrow> None
      | Some (cursor, val) \<Rightarrow> Some (if 0 < val then uadd cursor 1 else cursor))"

definition mdb_midl_search :: "idl \<Rightarrow> u64 \<Rightarrow> nat option" where
  "mdb_midl_search ids ident =
     do { n \<leftarrow> ids_rd ids 0;
          bs_search (\<lambda>cursor. map_option (\<lambda>x. CMP x ident) (ids_rd ids cursor)) (unat (u32_of_u64 n)) }"

section \<open>Allocation\<close>

definition mdb_midl_alloc :: "allocator \<Rightarrow> int \<Rightarrow> idl option option" where
  "mdb_midl_alloc al num =
     (case c_malloc al (of_int (num + 2) * 8) of
        None \<Rightarrow> Some None
      | Some ids \<Rightarrow>
          do { ids \<leftarrow> wr ids 0 (of_int num); ids \<leftarrow> wr ids 1 0; Some (Some ids) })"

definition mdb_midl_shrink :: "allocator \<Rightarrow> idl \<Rightarrow> idl option" where
  "mdb_midl_shrink al mem =
     do { cap \<leftarrow> rd mem 0;
          if of_nat MDB_IDL_UM_MAX < cap
          then case c_realloc al mem (of_nat (MDB_IDL_UM_MAX + 2) * 8) of
                 None \<Rightarrow> Some mem
               | Some ids \<Rightarrow> wr ids 0 (of_nat MDB_IDL_UM_MAX)
          else Some mem }"

definition mdb_midl_grow :: "allocator \<Rightarrow> idl \<Rightarrow> int \<Rightarrow> (int \<times> idl) option" where
  "mdb_midl_grow al mem num =
     do { cap \<leftarrow> rd mem 0;
          case c_realloc al mem ((cap + of_int num + 2) * 8) of
            None \<Rightarrow> Some (ENOMEM, mem)
          | Some idn \<Rightarrow>
              do { c \<leftarrow> rd idn 0; idn \<leftarrow> wr idn 0 (c + of_int num); Some (0, idn) } }"

definition mdb_midl_need :: "allocator \<Rightarrow> idl \<Rightarrow> u32 \<Rightarrow> (int \<times> idl) option" where
  "mdb_midl_need al mem num =
     do { cnt \<leftarrow> ids_rd mem 0;
          let num = u32_of_u64 (u64_of_u32 num + cnt);
          cap \<leftarrow> rd mem 0;
          if cap < u64_of_u32 num
          then let num = (num + num div 4 + (256 + 2)) AND (- 256)
               in case c_realloc al mem (u64_of_u32 num * 8) of
                    None \<Rightarrow> Some (ENOMEM, mem)
                  | Some ids \<Rightarrow> do { ids \<leftarrow> wr ids 0 (u64_of_u32 (num - 2)); Some (0, ids) }
          else Some (0, mem) }"

section \<open>Appending\<close>

definition mdb_midl_append :: "allocator \<Rightarrow> idl \<Rightarrow> u64 \<Rightarrow> (int \<times> idl) option" where
  "mdb_midl_append al ids ident =
     do { cnt \<leftarrow> ids_rd ids 0;
          cap \<leftarrow> rd ids 0;
          (rc, ids) \<leftarrow> (if cap \<le> cnt then mdb_midl_grow al ids (int MDB_IDL_UM_MAX) else Some (0, ids));
          if rc \<noteq> 0 then Some (ENOMEM, ids)
          else do { cnt \<leftarrow> ids_rd ids 0;
                    ids \<leftarrow> ids_wr ids 0 (cnt + 1);
                    cnt \<leftarrow> ids_rd ids 0;
                    ids \<leftarrow> ids_wr ids (unat cnt) ident;
                    Some (0, ids) } }"

text \<open>\<open>memcpy\<close> of \<open>n\<close> cells from the list \<open>app\<close> to position \<open>pos\<close> of \<open>ids\<close>.\<close>

fun ids_copy :: "idl \<Rightarrow> nat \<Rightarrow> idl \<Rightarrow> nat \<Rightarrow> nat \<Rightarrow> idl option" where
  "ids_copy ids pos app src 0 = Some ids"
| "ids_copy ids pos app src (Suc n) =
     do { v \<leftarrow> ids_rd app src; ids \<leftarrow> ids_wr ids pos v; ids_copy ids (pos + 1) app (src + 1) n }"

definition mdb_midl_append_list :: "allocator \<Rightarrow> idl \<Rightarrow> idl \<Rightarrow> (int \<times> idl) option" where
  "mdb_midl_append_list al ids app =
     do { cnt \<leftarrow> ids_rd ids 0;
          n \<leftarrow> ids_rd app 0;
          cap \<leftarrow> rd ids 0;
          (rc, ids) \<leftarrow> (if cap \<le> cnt + n
                       then mdb_midl_grow al ids (sint (u32_of_u64 n)) else Some (0, ids));
          if rc \<noteq> 0 then Some (ENOMEM, ids)
          else do { cnt \<leftarrow> ids_rd ids 0;
                    ids \<leftarrow> ids_copy ids (unat cnt + 1) app 1 (unat n);
                    cnt \<leftarrow> ids_rd ids 0;
                    ids \<leftarrow> ids_wr ids 0 (cnt + n);
                    Some (0, ids) } }"

text \<open>The loop \<open>while (n) ids[n--] = id++\<close>, with \<open>ids\<close> advanced by \<open>len\<close>.\<close>

fun ids_fill :: "idl \<Rightarrow> nat \<Rightarrow> nat \<Rightarrow> u64 \<Rightarrow> idl option" where
  "ids_fill ids len 0 ident = Some ids"
| "ids_fill ids len (Suc n) ident = do { ids \<leftarrow> ids_wr ids (len + Suc n) ident; ids_fill ids len n (ident + 1) }"

definition mdb_midl_append_range :: "allocator \<Rightarrow> idl \<Rightarrow> u64 \<Rightarrow> u32 \<Rightarrow> (int \<times> idl) option" where
  "mdb_midl_append_range al ids ident n =
     do { len \<leftarrow> ids_rd ids 0;
          cap \<leftarrow> rd ids 0;
          (rc, ids) \<leftarrow> (if cap < len + u64_of_u32 n
                       then mdb_midl_grow al ids (sint (n OR of_nat MDB_IDL_UM_MAX))
                       else Some (0, ids));
          if rc \<noteq> 0 then Some (ENOMEM, ids)
          else do { ids \<leftarrow> ids_wr ids 0 (len + u64_of_u32 n);
                    ids \<leftarrow> ids_fill ids (unat len) (unat n) ident;
                    Some (0, ids) } }"

section \<open>Merging\<close>

text \<open>The inner loop: move the IDs of \<open>idl\<close> that are below \<open>merge_id\<close> up. The result is the block, \<open>j\<close>,
  \<open>k\<close> and \<open>old_id\<close>. Decrementing a \<open>j\<close> of 0 wraps to an index outside every block.\<close>

fun xmerge_shift :: "idl \<Rightarrow> u64 \<Rightarrow> nat \<Rightarrow> nat \<Rightarrow> u64 \<Rightarrow> (idl \<times> nat \<times> nat \<times> u64) option" where
  "xmerge_shift idl merge_id j k old_id =
     (if old_id < merge_id
      then do { idl \<leftarrow> ids_wr idl k old_id;
                case j of
                  0 \<Rightarrow> None
                | Suc j' \<Rightarrow> do { old_id \<leftarrow> ids_rd idl j'; xmerge_shift idl merge_id j' (k - 1) old_id } }
      else Some (idl, j, k, old_id))"

declare xmerge_shift.simps [simp del]

fun xmerge_loop :: "idl \<Rightarrow> idl \<Rightarrow> nat \<Rightarrow> nat \<Rightarrow> nat \<Rightarrow> u64 \<Rightarrow> idl option" where
  "xmerge_loop idl merge 0 j k old_id = Some idl"
| "xmerge_loop idl merge (Suc i) j k old_id =
     do { merge_id \<leftarrow> ids_rd merge (Suc i);
          (idl, j, k, old_id) \<leftarrow> xmerge_shift idl merge_id j k old_id;
          idl \<leftarrow> ids_wr idl k merge_id;
          xmerge_loop idl merge i j (k - 1) old_id }"

definition mdb_midl_xmerge :: "idl \<Rightarrow> idl \<Rightarrow> idl option" where
  "mdb_midl_xmerge idl merge =
     do { i \<leftarrow> ids_rd merge 0;
          j \<leftarrow> ids_rd idl 0;
          let total = i + j;
          idl \<leftarrow> ids_wr idl 0 (- 1);
          old_id \<leftarrow> ids_rd idl (unat j);
          idl \<leftarrow> xmerge_loop idl merge (unat i) (unat j) (unat total) old_id;
          ids_wr idl 0 total }"

section \<open>What binary search finds\<close>

text \<open>The interface of the shared loop: a table \<open>s\<close> whose positions 1 to \<open>n s\<close> can be probed for a key,
  and whose answers fall from positive over zero to negative. \<open>v\<close> gives the answers, \<open>ok\<close> is what
  makes a table searchable.\<close>

locale ordered_table =
  fixes ok :: "'s \<Rightarrow> bool" and probe :: "'s \<Rightarrow> 'k \<Rightarrow> nat \<Rightarrow> int option"
    and v :: "'s \<Rightarrow> 'k \<Rightarrow> nat \<Rightarrow> int" and n :: "'s \<Rightarrow> nat"
  assumes small: "ok s \<Longrightarrow> n s + 1 < 2 ^ 32"
    and probe_in: "ok s \<Longrightarrow> 1 \<le> i \<Longrightarrow> i \<le> n s \<Longrightarrow> probe s k i = Some (v s k i)"
    and pos_below: "ok s \<Longrightarrow> 1 \<le> i \<Longrightarrow> i < j \<Longrightarrow> j \<le> n s \<Longrightarrow> 0 < v s k j \<Longrightarrow> 0 < v s k i"
    and neg_above: "ok s \<Longrightarrow> 1 \<le> i \<Longrightarrow> i < j \<Longrightarrow> j \<le> n s \<Longrightarrow> v s k i < 0 \<Longrightarrow> v s k j < 0"
begin

definition found_at :: "'s \<Rightarrow> 'k \<Rightarrow> nat \<Rightarrow> bool" where
  "found_at s k p \<longleftrightarrow> 1 \<le> p \<and> p \<le> n s + 1 \<and>
     (p \<le> n s \<and> v s k p = 0
      \<or> (\<forall>i. 1 \<le> i \<and> i < p \<longrightarrow> 0 < v s k i) \<and> (\<forall>i. p \<le> i \<and> i \<le> n s \<longrightarrow> v s k i < 0))"

definition finds :: "'s \<Rightarrow> 'k \<Rightarrow> (nat \<times> int) option \<Rightarrow> bool" where
  "finds s k r \<longleftrightarrow> (\<exists>c w. r = Some (c, w) \<and> found_at s k (if 0 < w then c + 1 else c))"

lemma bs_loop_finds:
  assumes ok: "ok s"
  shows "base + m \<le> n s \<Longrightarrow> \<forall>i. 1 \<le> i \<and> i \<le> base \<longrightarrow> 0 < v s k i \<Longrightarrow>
   \<forall>i. base + m < i \<and> i \<le> n s \<longrightarrow> v s k i < 0 \<Longrightarrow>
   (0 < val \<and> cursor = base \<or> val \<le> 0 \<and> (m = 0 \<longrightarrow> cursor = base + 1)) \<Longrightarrow>
   finds s k (bs_loop (probe s k) base cursor val m)"
proof (induction m arbitrary: base cursor val rule: less_induct)
  case (less m)
  let ?v = "v s k"
  show ?case
  proof (cases "m = 0")
    case True
    then show ?thesis
      using less.prems by (auto simp: bs_loop.simps finds_def found_at_def)
  next
    case False
    define c where "c = base + m div 2 + 1"
    have c: "1 \<le> c" "c \<le> base + m" "c \<le> n s" using False less.prems(1) by (auto simp: c_def)
    then have u: "uadd (uadd base (m div 2)) (Suc 0) = c" using small [OF ok] by (simp add: c_def)
    have p: "0 < m" "probe s k c = Some (?v c)" using False c probe_in [OF ok] by auto
    have step: "bs_loop (probe s k) base cursor val m =
       (if ?v c < 0 then bs_loop (probe s k) base c (?v c) (m div 2)
        else if 0 < ?v c then bs_loop (probe s k) c c (?v c) (m - (m div 2 + 1)) else Some (c, 0))"
      by (subst bs_loop.simps) (simp add: p u Let_def)
    consider "?v c < 0" | "0 < ?v c" | "?v c = 0" by linarith
    then show ?thesis
    proof cases
      case 1
      have above: "\<forall>i. base + m div 2 < i \<and> i \<le> n s \<longrightarrow> ?v i < 0"
        using 1 neg_above [OF ok, of c] c(1)
        by (metis Suc_eq_plus1 Suc_leI c_def le_neq_implies_less)
      have "bs_loop (probe s k) base cursor val m = bs_loop (probe s k) base c (?v c) (m div 2)"
        by (simp only: step 1 if_True)
      then show ?thesis
        using less.IH [of "m div 2" base "?v c" c] less.prems above p(1) c(3)
          less_imp_le [OF 1] by (simp add: c_def)
    next
      case 2
      have below: "\<forall>i. 1 \<le> i \<and> i \<le> c \<longrightarrow> 0 < ?v i"
        using 2 pos_below [OF ok, of _ c] c(3) by (metis le_neq_implies_less)
      have "bs_loop (probe s k) base cursor val m
          = bs_loop (probe s k) c c (?v c) (m - (m div 2 + 1))"
        using 2 by (simp add: step)
      moreover have "c + (m - (m div 2 + 1)) = base + m" using p(1) by (simp add: c_def)
      ultimately show ?thesis
        using less.IH [of "m - (m div 2 + 1)" c "?v c" c] less.prems below p(1) 2 by simp
    next
      case 3
      then show ?thesis unfolding step using c by (simp add: finds_def found_at_def)
    qed
  qed
qed

lemma bs_search_finds:
  assumes "ok s"
  shows "\<exists>p. bs_search (probe s k) (n s) = Some p \<and> found_at s k p"
proof -
  obtain c w where l: "bs_loop (probe s k) 0 1 0 (n s) = Some (c, w)"
    and p: "found_at s k (if 0 < w then c + 1 else c)"
    using bs_loop_finds [OF assms, of 0 "n s" k 0 1] by (auto simp: finds_def)
  then show ?thesis
    using small [OF assms] by (auto simp: bs_search_def found_at_def split: if_splits)
qed

end

section \<open>Lists\<close>

definition idl_cap :: "idl \<Rightarrow> nat" where "idl_cap mem = unat (mem ! 0)"
definition idl_cnt :: "idl \<Rightarrow> nat" where "idl_cnt mem = unat (mem ! 1)"

text \<open>The abstraction: the IDs of a list, from \<open>ids[1]\<close> on.\<close>

definition idl_items :: "idl \<Rightarrow> u64 list" where
  "idl_items mem = take (idl_cnt mem) (drop 2 mem)"

definition idl_wf :: "idl \<Rightarrow> bool" where
  "idl_wf mem \<longleftrightarrow> 2 \<le> length mem \<and> idl_cap mem + 2 \<le> length mem \<and> idl_cnt mem \<le> idl_cap mem"

lemma idl_wf_length: "idl_wf mem \<Longrightarrow> length (idl_items mem) = idl_cnt mem"
  by (auto simp: idl_wf_def idl_items_def)

lemma idl_rd [mem_simps]:
  "idl_wf mem \<Longrightarrow> rd mem 0 = Some (mem ! 0)"
  "idl_wf mem \<Longrightarrow> ids_rd mem 0 = Some (mem ! 1)"
  "idl_wf mem \<Longrightarrow> 1 \<le> k \<Longrightarrow> k \<le> idl_cnt mem \<Longrightarrow> ids_rd mem k = Some (idl_items mem ! (k - 1))"
  by (auto simp: idl_wf_def ids_rd_def rd_def idl_items_def)

lemma CMP_cases:
  "(CMP x y < 0) = (x < y)" "(0 < CMP x y) = (y < x)" "(CMP x y = 0) = (x = y)"
  by (auto simp: CMP_def)

text \<open>A list that can be searched: IDs in descending order, as many as \<open>unsigned\<close> positions name.\<close>

definition idl_sorted :: "idl \<Rightarrow> bool" where
  "idl_sorted mem \<longleftrightarrow> idl_wf mem \<and> sorted_wrt (\<ge>) (idl_items mem) \<and> idl_cnt mem + 1 < 2 ^ 32"

interpretation midl: ordered_table idl_sorted
  "\<lambda>mem ident cursor. map_option (\<lambda>x. CMP x ident) (ids_rd mem cursor)"
  "\<lambda>mem ident i. CMP (idl_items mem ! (i - 1)) ident" idl_cnt
proof
  fix mem :: idl and ident :: u64 and i j :: nat
  assume ok: "idl_sorted mem"
  then show "idl_cnt mem + 1 < 2 ^ 32" by (simp add: idl_sorted_def)
  show "1 \<le> i \<Longrightarrow> i \<le> idl_cnt mem \<Longrightarrow> map_option (\<lambda>x. CMP x ident) (ids_rd mem i)
      = Some (CMP (idl_items mem ! (i - 1)) ident)"
    using ok by (simp add: idl_sorted_def idl_rd)
  assume "1 \<le> i" "i < j" "j \<le> idl_cnt mem"
  then have "idl_items mem ! (j - 1) \<le> idl_items mem ! (i - 1)"
    using ok sorted_wrt_nth_less [of "(\<ge>)" "idl_items mem" "i - 1" "j - 1"]
    by (simp add: idl_sorted_def idl_wf_length)
  then show "0 < CMP (idl_items mem ! (j - 1)) ident \<Longrightarrow> 0 < CMP (idl_items mem ! (i - 1)) ident"
    and "CMP (idl_items mem ! (i - 1)) ident < 0 \<Longrightarrow> CMP (idl_items mem ! (j - 1)) ident < 0"
    by (simp_all add: CMP_cases)
qed

lemma mdb_midl_search_finds:
  assumes "idl_sorted ids"
  shows "\<exists>p. mdb_midl_search ids ident = Some p \<and> midl.found_at ids ident p"
proof -
  have "unat (u32_of_u64 (ids ! 1)) = idl_cnt ids"
    using assms unat_u32_of_u64 [of "ids ! 1"] by (simp add: idl_sorted_def idl_cnt_def)
  then show ?thesis
    using midl.bs_search_finds [OF assms, of ident] assms
    by (simp add: mdb_midl_search_def idl_rd idl_sorted_def)
qed

section \<open>Growing\<close>

text \<open>The cells that are not the counters: a write to \<open>ids[k]\<close>, and what it does to the IDs.\<close>

lemma idl_items_nth: "idl_wf mem \<Longrightarrow> k < idl_cnt mem \<Longrightarrow> idl_items mem ! k = mem ! (k + 2)"
  by (simp add: idl_items_def idl_wf_def add.commute)

lemma idl_items_eqI:
  assumes "idl_wf mem" "idl_cnt mem = length xs" "\<And>k. k < length xs \<Longrightarrow> mem ! (k + 2) = xs ! k"
  shows "idl_items mem = xs"
  using assms by (intro nth_equalityI) (simp_all add: idl_wf_length idl_items_nth)

text \<open>A larger block with the same contents and a larger capacity.\<close>

definition idl_grown :: "idl \<Rightarrow> nat \<Rightarrow> idl \<Rightarrow> bool" where
  "idl_grown mem cap mem' \<longleftrightarrow>
     idl_wf mem' \<and> idl_items mem' = idl_items mem \<and> idl_cnt mem' = idl_cnt mem \<and> idl_cap mem' = cap"

lemma realloc_grown:
  assumes "idl_wf mem" "cap + 2 \<le> m" "idl_cap mem \<le> cap" "cap < 2 ^ 61"
  shows "idl_grown mem cap ((take m mem @ map f [length mem..<m])[0 := of_nat cap])"
proof -
  let ?m = "(take m mem @ map f [length mem..<m])[0 := of_nat cap]"
  have l: "length ?m = m \<or> length ?m = min m (length mem)" "m \<le> length ?m" by auto
  have m: "2 \<le> length mem" "idl_cap mem + 2 \<le> length mem" "idl_cnt mem \<le> idl_cap mem"
    using assms(1) by (simp_all add: idl_wf_def)
  have low: "?m ! k = mem ! k" if "1 \<le> k" "k < idl_cap mem + 2" for k
    using that m assms by (simp add: nth_append nth_list_update)
  have cap: "idl_cap ?m = cap"
    using assms m by (simp add: idl_cap_def unat_of_nat nth_append)
  have cnt: "idl_cnt ?m = idl_cnt mem" unfolding idl_cnt_def using low [of 1] by simp
  have wf: "idl_wf ?m"
    unfolding idl_wf_def cap cnt using assms m l(2) by linarith
  have "idl_items ?m = idl_items mem"
    by (rule idl_items_eqI [OF wf])
      (use low m assms(1) in \<open>simp_all add: cnt idl_wf_length idl_items_nth\<close>)
  then show ?thesis using wf cap cnt by (simp add: idl_grown_def)
qed

lemma mdb_midl_grow_cases:
  assumes "idl_wf mem" "idl_cap mem + num + 2 < 2 ^ 61"
  obtains "mdb_midl_grow al mem (int num) = Some (ENOMEM, mem)" "\<exists>b. \<not> al_ok al b"
  | mem' where "mdb_midl_grow al mem (int num) = Some (0, mem')"
      "idl_grown mem (idl_cap mem + num) mem'"
proof -
  let ?n = "idl_cap mem + num + 2"
  have "(mem ! 0 + of_int (int num) + 2) * 8 = (of_nat (?n * 8) :: u64)"
    by (simp add: idl_cap_def)
  then have b: "unat ((mem ! 0 + of_int (int num) + 2) * 8) = ?n * 8"
    using assms(2) by (simp only: unat_of_nat) simp
  define m where "m = take ?n mem @ map (al_junk al) [length mem..<?n]"
  have 0: "m ! 0 = mem ! 0" "0 < length m"
    using assms(1) by (auto simp: m_def idl_wf_def nth_append)
  have d: "?n * 8 div 8 = ?n" by simp
  have r: "c_realloc al mem ((mem ! 0 + of_int (int num) + 2) * 8)
      = (if al_ok al (?n * 8) then Some m else None)"
    by (simp only: c_realloc_def b d Let_def m_def)
  have c: "mem ! 0 + of_int (int num) = of_nat (idl_cap mem + num)" by (simp add: idl_cap_def)
  have g: "mdb_midl_grow al mem (int num) =
      (if al_ok al (?n * 8) then Some (0, m[0 := of_nat (idl_cap mem + num)]) else Some (ENOMEM, mem))"
    unfolding mdb_midl_grow_def idl_rd(1) [OF assms(1)] Option.bind.bind_lunit r
    by (simp add: rd_in [OF 0(2)] wr_in [OF 0(2)] 0(1) c del: of_int_of_nat_eq of_nat_add)
  show ?thesis
    using that realloc_grown [OF assms(1), of "idl_cap mem + num" ?n "al_junk al"] assms(2)
    unfolding g m_def
    by (cases "al_ok al (?n * 8)") auto
qed

lemma idl_room:
  "idl_wf mem \<Longrightarrow> ids_wr mem k v = Some (mem[k + 1 := v])" if "k \<le> idl_cap mem"
  using that by (simp add: ids_wr_def wr_in idl_wf_def)

lemma idl_cap_lt: "idl_cap mem < 2 ^ 64"
  unfolding idl_cap_def using unsigned_less [of "mem ! 0"] by simp

text \<open>Storing new IDs past the end and then counting them.\<close>

lemma idl_extend:
  assumes "idl_wf mem" "length mem' = length mem" "idl_cnt mem + length xs \<le> idl_cap mem"
    and "mem' ! 0 = mem ! 0" "mem' ! 1 = of_nat (idl_cnt mem + length xs)"
    and "\<And>k. k < idl_cnt mem \<Longrightarrow> mem' ! (k + 2) = mem ! (k + 2)"
    and "\<And>k. k < length xs \<Longrightarrow> mem' ! (idl_cnt mem + k + 2) = xs ! k"
  shows "idl_wf mem' \<and> idl_items mem' = idl_items mem @ xs"
proof -
  have cap: "idl_cap mem' = idl_cap mem" by (simp add: idl_cap_def assms(4))
  have cnt: "idl_cnt mem' = idl_cnt mem + length xs"
    using assms(3) idl_cap_lt [of mem]
    by (simp only: idl_cnt_def assms(5) unat_of_nat) (simp add: idl_cnt_def)
  have wf: "idl_wf mem'" using assms(1-3) by (simp add: idl_wf_def cap cnt)
  have "idl_items mem' = idl_items mem @ xs"
  proof (rule idl_items_eqI [OF wf])
    show "idl_cnt mem' = length (idl_items mem @ xs)" by (simp add: cnt idl_wf_length assms(1))
    fix k assume "k < length (idl_items mem @ xs)"
    then have k: "k < idl_cnt mem + length xs" by (simp add: idl_wf_length assms(1))
    show "mem' ! (k + 2) = (idl_items mem @ xs) ! k"
      using assms(6) [of k] assms(7) [of "k - idl_cnt mem"] k
      by (auto simp: nth_append idl_wf_length assms(1) idl_items_nth)
  qed
  with wf show ?thesis by simp
qed

section \<open>Appending\<close>

text \<open>The outcome of an operation that appends \<open>xs\<close>, or finds no room for it, is refused memory and
  changes nothing.\<close>

definition idl_appended :: "allocator \<Rightarrow> idl \<Rightarrow> u64 list \<Rightarrow> (int \<times> idl) option \<Rightarrow> bool" where
  "idl_appended al mem xs r \<longleftrightarrow>
     r = Some (ENOMEM, mem) \<and> idl_cap mem \<le> idl_cnt mem + length xs \<and> (\<exists>b. \<not> al_ok al b)
     \<or> (\<exists>mem'. r = Some (0, mem') \<and> idl_wf mem' \<and> idl_items mem' = idl_items mem @ xs)"

lemma idl_appended_grown:
  "idl_grown mem cap mem' \<Longrightarrow> idl_wf mem'' \<Longrightarrow> idl_items mem'' = idl_items mem' @ xs \<Longrightarrow>
   r = Some (0, mem'') \<Longrightarrow> idl_appended al mem xs r"
  by (simp add: idl_appended_def idl_grown_def)

lemma idl_grown_refl: "idl_wf mem \<Longrightarrow> idl_grown mem (idl_cap mem) mem"
  by (simp add: idl_grown_def)

lemma word_le_idl: "mem ! 0 \<le> mem ! 1 \<longleftrightarrow> idl_cap mem \<le> idl_cnt mem" for mem :: idl
  by (simp add: idl_cap_def idl_cnt_def word_le_nat_alt)

lemma idl_append_tail:
  assumes "idl_wf mem" "idl_cnt mem < idl_cap mem"
  obtains mem' where "idl_wf mem'" "idl_items mem' = idl_items mem @ [x]"
    "do { cnt \<leftarrow> ids_rd mem 0; ids \<leftarrow> ids_wr mem 0 (cnt + 1); cnt \<leftarrow> ids_rd ids 0;
          ids \<leftarrow> ids_wr ids (unat cnt) x; Some (0 :: int, ids) } = Some (0, mem')"
proof -
  let ?c = "idl_cnt mem" and ?m = "mem[1 := mem ! 1 + 1]"
  have l: "?c + 2 < length mem" using assms by (simp add: idl_wf_def)
  have "?c + 1 < 2 ^ 64" using assms(2) idl_cap_lt [of mem] by linarith
  then have u: "unat (mem ! 1 + 1) = ?c + 1"
    unfolding idl_cnt_def using unat_add_lem [of "mem ! 1" 1] by simp
  have "idl_wf (?m[?c + 2 := x]) \<and> idl_items (?m[?c + 2 := x]) = idl_items mem @ [x]"
    by (rule idl_extend [OF assms(1)])
      (use assms l in \<open>auto simp: nth_list_update idl_cnt_def\<close>)
  moreover have "do { cnt \<leftarrow> ids_rd mem 0; ids \<leftarrow> ids_wr mem 0 (cnt + 1); cnt \<leftarrow> ids_rd ids 0;
          ids \<leftarrow> ids_wr ids (unat cnt) x; Some (0 :: int, ids) } = Some (0, ?m[?c + 2 := x])"
    using l by (simp add: ids_rd_def ids_wr_def rd_in wr_in u [unfolded One_nat_def])
  ultimately show ?thesis using that by blast
qed

lemma mdb_midl_append_appended:
  assumes "idl_wf mem" "idl_cap mem < 2 ^ 60"
  shows "idl_appended al mem [x] (mdb_midl_append al mem x)"
proof (cases "mem ! 0 \<le> mem ! 1")
  case False
  then have r: "idl_cnt mem < idl_cap mem" using word_le_idl [of mem] by linarith
  show ?thesis
    by (rule idl_append_tail [OF assms(1) r, of x],
        rule idl_appended_grown [OF idl_grown_refl [OF assms(1)]])
      (use False in \<open>simp_all add: mdb_midl_append_def idl_rd [OF assms(1)]\<close>)
next
  case full: True
  have "idl_cap mem + MDB_IDL_UM_MAX + 2 < 2 ^ 61"
    using assms(2) by (simp add: MDB_IDL_UM_MAX_def)
  with assms(1) consider "mdb_midl_grow al mem (int MDB_IDL_UM_MAX) = Some (ENOMEM, mem)"
      "\<exists>b. \<not> al_ok al b"
    | mem' where "mdb_midl_grow al mem (int MDB_IDL_UM_MAX) = Some (0, mem')"
      "idl_grown mem (idl_cap mem + MDB_IDL_UM_MAX) mem'"
    by (rule mdb_midl_grow_cases)
  then show ?thesis
  proof cases
    case 1
    then show ?thesis
      using full word_le_idl [of mem]
      by (simp add: mdb_midl_append_def idl_rd [OF assms(1)] idl_appended_def ENOMEM_def)
  next
    case 2
    then have wf: "idl_wf mem'" and r: "idl_cnt mem' < idl_cap mem'"
      using assms(1) by (simp_all add: idl_grown_def idl_wf_def MDB_IDL_UM_MAX_def)
    show ?thesis
      by (rule idl_append_tail [OF wf r, of x], rule idl_appended_grown [OF 2(2)])
        (use 2(1) full in \<open>simp_all add: mdb_midl_append_def idl_rd [OF assms(1)]\<close>)
  qed
qed

lemma ids_fill_spec:
  assumes "idl_wf mem" "idl_cnt mem + n \<le> idl_cap mem" "length ids = length mem"
  shows "m \<le> n \<Longrightarrow> \<exists>ids'. ids_fill ids (idl_cnt mem) m x = Some ids' \<and> length ids' = length mem
    \<and> (\<forall>k. k < length mem \<longrightarrow> ids' ! k =
         (if idl_cnt mem + 2 \<le> k \<and> k < idl_cnt mem + m + 2
          then x + of_nat (idl_cnt mem + m + 1 - k) else ids ! k))"
  using assms(3)
proof (induction m arbitrary: ids x)
  case (Suc m)
  let ?i = "ids[idl_cnt mem + Suc m + 1 := x]"
  have "idl_cnt mem + Suc m + 1 < length ids"
    using assms(1,2) Suc.prems by (simp add: idl_wf_def)
  then have f: "ids_fill ids (idl_cnt mem) (Suc m) x = ids_fill ?i (idl_cnt mem) m (x + 1)"
    by (simp add: ids_wr_def wr_in)
  obtain ids' where i: "ids_fill ?i (idl_cnt mem) m (x + 1) = Some ids'" "length ids' = length mem"
    and n: "\<And>k. k < length mem \<Longrightarrow> ids' ! k =
         (if idl_cnt mem + 2 \<le> k \<and> k < idl_cnt mem + m + 2
          then x + 1 + of_nat (idl_cnt mem + m + 1 - k) else ?i ! k)"
    using Suc.IH [of ?i "x + 1"] Suc.prems by auto
  have "ids' ! k = (if idl_cnt mem + 2 \<le> k \<and> k < idl_cnt mem + Suc m + 2
          then x + of_nat (idl_cnt mem + Suc m + 1 - k) else ids ! k)" if k: "k < length mem" for k
  proof -
    consider "k < idl_cnt mem + 2" | "idl_cnt mem + 2 \<le> k" "k < idl_cnt mem + m + 2"
      | "k = idl_cnt mem + m + 2" | "idl_cnt mem + m + 2 < k" by linarith
    then show ?thesis
    proof cases
      case 2
      then have "idl_cnt mem + Suc m + 1 - k = Suc (idl_cnt mem + m + 1 - k)" by linarith
      then show ?thesis using n [OF k] 2 by (simp add: add.commute)
    qed (use n [OF k] k Suc.prems(2) in \<open>simp_all add: nth_list_update\<close>)
  qed
  with f i show ?case by simp
qed auto

text \<open>The IDs of a range, highest first, as they end up in the list.\<close>

definition id_range :: "u64 \<Rightarrow> nat \<Rightarrow> u64 list" where
  "id_range x n = map (\<lambda>k. x + of_nat k) (rev [0..<n])"

lemma length_id_range [simp]: "length (id_range x n) = n"
  by (simp add: id_range_def)

lemma id_range_nth: "k < n \<Longrightarrow> id_range x n ! k = x + of_nat (n - 1 - k)"
  by (simp add: id_range_def rev_nth)

lemma idl_range_tail:
  assumes "idl_wf mem" "idl_cnt mem + unat n \<le> idl_cap mem"
  obtains mem' where "idl_wf mem'" "idl_items mem' = idl_items mem @ id_range x (unat n)"
    "do { ids \<leftarrow> ids_wr mem 0 (mem ! 1 + u64_of_u32 n);
          ids \<leftarrow> ids_fill ids (unat (mem ! 1)) (unat n) x; Some (0 :: int, ids) } = Some (0, mem')"
proof -
  let ?m = "mem[1 := mem ! 1 + u64_of_u32 n]"
  have l: "2 \<le> length mem" "idl_cnt mem + unat n + 2 \<le> length mem"
    using assms by (simp_all add: idl_wf_def)
  obtain m' where f: "ids_fill ?m (idl_cnt mem) (unat n) x = Some m'" "length m' = length mem"
    and nth: "\<And>k. k < length mem \<Longrightarrow> m' ! k =
         (if idl_cnt mem + 2 \<le> k \<and> k < idl_cnt mem + unat n + 2
          then x + of_nat (idl_cnt mem + unat n + 1 - k) else ?m ! k)"
    using ids_fill_spec [OF assms, of ?m "unat n" x] by auto
  have "idl_wf m' \<and> idl_items m' = idl_items mem @ id_range x (unat n)"
  proof (rule idl_extend [OF assms(1) f(2)])
    have "0 < length mem" using l(1) by linarith
    then show "m' ! 0 = mem ! 0" using nth [of 0] by simp
    show "m' ! 1 = of_nat (idl_cnt mem + length (id_range x (unat n)))"
      using nth [of 1] l by (simp add: idl_cnt_def)
    show "m' ! (idl_cnt mem + k + 2) = id_range x (unat n) ! k" if "k < length (id_range x (unat n))" for k
      using nth [of "idl_cnt mem + k + 2"] l that by (simp add: id_range_nth)
  qed (use nth l assms in \<open>simp_all\<close>)
  moreover have "do { ids \<leftarrow> ids_wr mem 0 (mem ! 1 + u64_of_u32 n);
          ids \<leftarrow> ids_fill ids (unat (mem ! 1)) (unat n) x; Some (0 :: int, ids) } = Some (0, m')"
    using l f by (simp add: ids_wr_def wr_in idl_cnt_def)
  ultimately show ?thesis using that by blast
qed

lemma mdb_midl_append_range_appended:
  assumes "idl_wf mem" "idl_cap mem < 2 ^ 60" "unat n < 2 ^ 31"
  shows "idl_appended al mem (id_range x (unat n)) (mdb_midl_append_range al mem x n)"
proof -
  have lt: "mem ! 0 < mem ! 1 + u64_of_u32 n \<longleftrightarrow> idl_cap mem < idl_cnt mem + unat n"
  proof -
    have "idl_cnt mem + unat n < 2 ^ 64" using assms by (simp add: idl_wf_def)
    then have "unat (mem ! 1 + u64_of_u32 n) = idl_cnt mem + unat n"
      by (simp add: idl_cnt_def unat_word_ariths)
    then show ?thesis by (simp add: word_less_nat_alt idl_cap_def)
  qed
  define g where "g = unat (n OR of_nat MDB_IDL_UM_MAX)"
  have m: "unat (of_nat MDB_IDL_UM_MAX :: u32) = MDB_IDL_UM_MAX"
    by (simp add: MDB_IDL_UM_MAX_def)
  have g': "g = unat n OR MDB_IDL_UM_MAX"
    by (simp only: g_def unsigned_or_eq m)
  have "take_bit 31 (unat n) = unat n" "take_bit 31 MDB_IDL_UM_MAX = MDB_IDL_UM_MAX"
    using assms(3) by (simp_all add: take_bit_nat_eq_self MDB_IDL_UM_MAX_def)
  then have "take_bit 31 g = g" by (simp only: g' take_bit_or)
  then have g1: "g < 2 ^ 31" using take_bit_nat_less_exp [of 31 g] by linarith
  have "int (unat n) \<le> int (unat n) OR int MDB_IDL_UM_MAX" by (rule or_greater_eq) simp
  then have "unat n \<le> g" by (simp only: g' of_nat_le_iff flip: of_nat_or_eq)
  with g1 have g: "g < 2 ^ 31" "unat n \<le> g" "sint (n OR of_nat MDB_IDL_UM_MAX) = int g"
    using sint_small by (simp_all add: g_def)
  show ?thesis
  proof (cases "mem ! 0 < mem ! 1 + u64_of_u32 n")
    case False
    then have r: "idl_cnt mem + unat n \<le> idl_cap mem" using lt by linarith
    show ?thesis
      by (rule idl_range_tail [OF assms(1) r, of x],
          rule idl_appended_grown [OF idl_grown_refl [OF assms(1)]])
        (use False in \<open>simp_all add: mdb_midl_append_range_def idl_rd [OF assms(1)]\<close>)
  next
    case full: True
    have "idl_cap mem + g + 2 < 2 ^ 61" using assms(2) g(1) by simp
    with assms(1) consider "mdb_midl_grow al mem (int g) = Some (ENOMEM, mem)" "\<exists>b. \<not> al_ok al b"
      | mem' where "mdb_midl_grow al mem (int g) = Some (0, mem')"
        "idl_grown mem (idl_cap mem + g) mem'"
      by (rule mdb_midl_grow_cases)
    then show ?thesis
    proof cases
      case 1
      then show ?thesis
        using full lt
        by (simp add: mdb_midl_append_range_def idl_rd [OF assms(1)] idl_appended_def ENOMEM_def g(3))
    next
      case 2
      then have wf: "idl_wf mem'" and r: "idl_cnt mem' + unat n \<le> idl_cap mem'"
        using assms(1) g(2) by (simp_all add: idl_grown_def idl_wf_def)
      have "mem' ! 1 = mem ! 1"
        using 2(2) by (simp add: idl_grown_def idl_cnt_def word_unat_eq_iff)
      with 2(1) full have "mdb_midl_append_range al mem x n =
          do { ids \<leftarrow> ids_wr mem' 0 (mem' ! 1 + u64_of_u32 n);
               ids \<leftarrow> ids_fill ids (unat (mem' ! 1)) (unat n) x; Some (0, ids) }"
        by (simp add: mdb_midl_append_range_def idl_rd [OF assms(1)] g(3))
      then show ?thesis
        by (rule_tac idl_range_tail [OF wf r, of x], rule_tac idl_appended_grown [OF 2(2)]) simp_all
    qed
  qed
qed

lemma ids_copy_spec:
  assumes "idl_wf app"
  shows "pos + n < length ids \<Longrightarrow> 1 \<le> pos \<Longrightarrow> 1 \<le> src \<Longrightarrow> src + n \<le> idl_cnt app + 1 \<Longrightarrow>
   ids_copy ids pos app src n
     = Some (blit ids (pos + 1) (take n (drop (src - 1) (idl_items app))))"
proof (induction n arbitrary: ids pos src)
  case (Suc n)
  obtain k where k: "src = Suc k" using Suc.prems(3) by (cases src) auto
  let ?v = "idl_items app ! k"
  have v: "ids_rd app (Suc k) = Some ?v"
    using idl_rd(3) [OF assms, of "Suc k"] Suc.prems(4) by (simp add: k)
  have w: "ids_wr ids pos ?v = Some (blit ids (Suc pos) [?v])"
    using Suc.prems(1) by (simp add: ids_wr_def wr_in blit_def upd_conv_take_nth_drop)
  have "k < length (idl_items app)" using Suc.prems by (simp add: idl_wf_length assms k)
  then have t: "take (Suc n) (drop k (idl_items app)) = ?v # take n (drop (Suc k) (idl_items app))"
    by (simp flip: Cons_nth_drop_Suc)
  show ?case
    using Suc.IH [of "Suc pos" "blit ids (Suc pos) [?v]" "Suc (Suc k)"] Suc.prems
      blit_blit [of "Suc pos" "[?v]" ids "take n (drop (Suc k) (idl_items app))"]
    by (simp add: k v w t)
qed simp

lemma idl_sum:
  assumes "idl_wf mem" "idl_cap mem < 2 ^ 60" "unat n < 2 ^ 31"
  shows "unat (mem ! 1 + n) = idl_cnt mem + unat n"
proof -
  have "idl_cnt mem + unat n < 2 ^ 64" using assms by (simp add: idl_wf_def)
  then show ?thesis by (simp add: idl_cnt_def unat_word_ariths)
qed

lemma idl_list_tail:
  assumes "idl_wf mem" "idl_wf app" "idl_cnt mem + idl_cnt app \<le> idl_cap mem"
  obtains mem' where "idl_wf mem'" "idl_items mem' = idl_items mem @ idl_items app"
    "do { cnt \<leftarrow> ids_rd mem 0; ids \<leftarrow> ids_copy mem (unat cnt + 1) app 1 (unat (app ! 1));
          cnt \<leftarrow> ids_rd ids 0; ids \<leftarrow> ids_wr ids 0 (cnt + app ! 1); Some (0 :: int, ids) } = Some (0, mem')"
proof -
  let ?c = "idl_cnt mem" and ?n = "idl_cnt app"
  let ?b = "blit mem (?c + 2) (idl_items app)"
  let ?m = "?b[1 := mem ! 1 + app ! 1]"
  have l: "?c + ?n + 2 \<le> length mem" "2 \<le> length mem" using assms by (simp_all add: idl_wf_def)
  have a: "length (idl_items app) = ?n" by (rule idl_wf_length [OF assms(2)])
  have nth: "?b ! k = (if k < ?c + 2 then mem ! k else if k < ?c + 2 + ?n then idl_items app ! (k - (?c + 2))
      else mem ! k)" if "k < length mem" for k
    using nth_blit [of "?c + 2" "idl_items app" mem k] l that by (simp add: a)
  have len: "length ?b = length mem" using l by (simp add: a)
  have one: "?b ! 1 = mem ! 1" using nth [of 1] l by simp
  have cp: "ids_copy mem (?c + 1) app 1 ?n = Some ?b"
    using ids_copy_spec [OF assms(2), of "?c + 1" ?n mem 1] l by (simp add: a)
  have "idl_wf ?m \<and> idl_items ?m = idl_items mem @ idl_items app"
  proof (rule idl_extend [OF assms(1)])
    have "0 < length mem" using l(2) by linarith
    then show "?m ! 0 = mem ! 0" using nth [of 0] by simp
    show "?m ! 1 = of_nat (?c + length (idl_items app))"
      using l by (simp add: len a) (simp add: idl_cnt_def)
  qed (use assms(3) l nth len in \<open>simp_all add: a\<close>)
  moreover have "do { cnt \<leftarrow> ids_rd mem 0; ids \<leftarrow> ids_copy mem (unat cnt + 1) app 1 (unat (app ! 1));
          cnt \<leftarrow> ids_rd ids 0; ids \<leftarrow> ids_wr ids 0 (cnt + app ! 1); Some (0 :: int, ids) } = Some (0, ?m)"
    using cp l len one
    by (simp add: idl_rd(2) [OF assms(1)] idl_cnt_def ids_rd_def ids_wr_def rd_in wr_in)
  ultimately show ?thesis using that by blast
qed

lemma mdb_midl_append_list_appended:
  assumes "idl_wf mem" "idl_wf app" "idl_cap mem < 2 ^ 60" "idl_cnt app < 2 ^ 31"
  shows "idl_appended al mem (idl_items app) (mdb_midl_append_list al mem app)"
proof -
  have n: "unat (app ! 1) < 2 ^ 31" using assms(4) by (simp add: idl_cnt_def)
  have le: "mem ! 0 \<le> mem ! 1 + app ! 1 \<longleftrightarrow> idl_cap mem \<le> idl_cnt mem + idl_cnt app"
    by (simp only: word_le_nat_alt idl_sum [OF assms(1,3) n] idl_cap_def idl_cnt_def)
  have "unat (u32_of_u64 (app ! 1)) = idl_cnt app"
    using assms(4) by (simp add: unat_u32_of_u64 idl_cnt_def)
  then have g: "sint (u32_of_u64 (app ! 1)) = int (idl_cnt app)"
    using sint_small [of "u32_of_u64 (app ! 1)"] assms(4) by simp
  show ?thesis
  proof (cases "mem ! 0 \<le> mem ! 1 + app ! 1")
    case False
    then have r: "idl_cnt mem + idl_cnt app \<le> idl_cap mem" using le by linarith
    show ?thesis
      by (rule idl_list_tail [OF assms(1,2) r], rule idl_appended_grown [OF idl_grown_refl [OF assms(1)]])
        (use False in \<open>simp_all add: mdb_midl_append_list_def idl_rd [OF assms(1)] idl_rd [OF assms(2)]\<close>)
  next
    case full: True
    have "idl_cap mem + idl_cnt app + 2 < 2 ^ 61" using assms(3,4) by simp
    with assms(1) consider "mdb_midl_grow al mem (int (idl_cnt app)) = Some (ENOMEM, mem)"
        "\<exists>b. \<not> al_ok al b"
      | mem' where "mdb_midl_grow al mem (int (idl_cnt app)) = Some (0, mem')"
        "idl_grown mem (idl_cap mem + idl_cnt app) mem'"
      by (rule mdb_midl_grow_cases)
    then show ?thesis
    proof cases
      case 1
      then show ?thesis
        using full le
        by (simp add: idl_wf_length [OF assms(2)] mdb_midl_append_list_def idl_rd [OF assms(1)]
            idl_rd [OF assms(2)]
            g [unfolded One_nat_def] idl_appended_def ENOMEM_def)
    next
      case 2
      then have wf: "idl_wf mem'" and r: "idl_cnt mem' + idl_cnt app \<le> idl_cap mem'"
        using assms(1) by (simp_all add: idl_grown_def idl_wf_def)
      show ?thesis
        by (rule idl_list_tail [OF wf assms(2) r], rule idl_appended_grown [OF 2(2)])
          (use 2(1) full in
            \<open>simp_all add: mdb_midl_append_list_def idl_rd [OF assms(1)] idl_rd [OF assms(2)]
              g [unfolded One_nat_def]\<close>)
    qed
  qed
qed

section \<open>Making room\<close>

lemma need_rounding:
  fixes n :: nat
  assumes "n < 2 ^ 31"
  defines "m \<equiv> (n + n div 4 + 258) div 256 * 256"
  shows "n + 3 \<le> m" "m < 2 ^ 32" "unat ((of_nat n + of_nat n div 4 + (256 + 2) :: u32) AND - 256) = m"
proof -
  have "n + n div 4 + 258 = m + (n + n div 4 + 258) mod 256" by (simp add: m_def)
  moreover have "(n + n div 4 + 258) mod 256 < 256" by simp
  moreover have "n < 2147483648" using assms(1) by simp
  ultimately have "n + 3 \<le> m" "m < 4294967296" by linarith+
  then show "n + 3 \<le> m" "m < 2 ^ 32" by simp_all
  have s: "n + n div 4 + 258 < 2 ^ 32" using assms(1) by simp
  have w: "(of_nat n + of_nat n div 4 + (256 + 2) :: u32) = of_nat (n + n div 4 + 258)"
  proof -
    have "n < 2 ^ 32" using assms(1) by simp
    then have u: "unat (of_nat n :: u32) = n" by (simp add: unat_of_nat)
    have "(of_nat n div 4 :: u32) = of_nat (unat (of_nat n :: u32) div unat (4 :: u32))"
      by (rule word_arith_nat_div)
    also have "\<dots> = of_nat (n div 4)" unfolding u by simp
    finally show ?thesis by simp
  qed
  have "x AND - 256 = push_bit 8 (drop_bit 8 x)" for x :: u32
  proof -
    have "(- 256 :: u32) = - (2 ^ 8)" by simp
    then have m: "(- 256 :: u32) = NOT (mask 8)" by (simp only: minus_exp_eq_not_mask)
    show ?thesis unfolding m by (rule bit_word_eqI) (auto simp: bit_simps)
  qed
  then have "unat ((of_nat (n + n div 4 + 258) :: u32) AND - 256)
      = unat (push_bit 8 (drop_bit 8 (of_nat (n + n div 4 + 258) :: u32)))" by simp
  also have "\<dots> = m"
  proof -
    have "unat (push_bit 8 (drop_bit 8 (of_nat k :: u32))) = k div 256 * 256" if "k < 2 ^ 32" for k
    proof -
      have "k div 256 * 256 \<le> k" by simp
      then have "k div 256 * 256 < 2 ^ 32" using that by (rule le_less_trans)
      then show ?thesis
        using that
        by (simp only: unsigned_push_bit_eq unsigned_drop_bit_eq unat_of_nat)
          (simp add: push_bit_eq_mult drop_bit_eq_div take_bit_eq_mod)
    qed
    from this [OF s] show ?thesis by (simp only: m_def)
  qed
  finally show "unat ((of_nat n + of_nat n div 4 + (256 + 2) :: u32) AND - 256) = m"
    by (simp only: w)
qed

lemma mdb_midl_need_cases:
  assumes "idl_wf mem" "idl_cnt mem + unat num < 2 ^ 31"
  obtains "mdb_midl_need al mem num = Some (ENOMEM, mem)" "idl_cap mem < idl_cnt mem + unat num"
      "\<exists>b. \<not> al_ok al b"
  | mem' where "mdb_midl_need al mem num = Some (0, mem')" "idl_wf mem'"
      "idl_items mem' = idl_items mem" "idl_cnt mem + unat num \<le> idl_cap mem'"
proof -
  define n where "n = idl_cnt mem + unat num"
  define m where "m = (n + n div 4 + 258) div 256 * 256"
  note rnd = need_rounding [of n, folded m_def]
  have n: "n < 2 ^ 31" using assms(2) by (simp add: n_def)
  have "u32_of_u64 (u64_of_u32 num + mem ! 1) = u32_of_u64 (of_nat n)"
    by (simp add: n_def idl_cnt_def add.commute flip: unat_u64_of_u32)
  also have "\<dots> = of_nat n" using n by (simp add: unsigned_of_nat take_bit_nat_eq_self)
  finally have w: "u32_of_u64 (u64_of_u32 num + mem ! 1) = of_nat n" .
  have un: "unat (of_nat n :: u32) = n" using n by (simp add: unat_of_nat)
  have lt: "mem ! 0 < u64_of_u32 (of_nat n) \<longleftrightarrow> idl_cap mem < n"
    by (simp add: word_less_nat_alt un idl_cap_def)
  define w' where "w' = (of_nat n + of_nat n div 4 + (256 + 2) :: u32) AND - 256"
  have uw: "unat w' = m" unfolding w'_def by (rule rnd(3) [OF n])
  have b: "unat (u64_of_u32 w' * 8) = m * 8"
    using rnd(2) [OF n] by (simp add: unat_word_ariths uw)
  have "unat (w' - 2) = m - 2"
    using rnd(1) [OF n] by (subst unat_sub) (simp_all add: word_le_nat_alt uw)
  then have m2: "u64_of_u32 (w' - 2) = of_nat (m - 2)"
    using rnd(2) [OF n] by (simp add: word_unat_eq_iff unat_of_nat)
  let ?m = "take m mem @ map (al_junk al) [length mem..<m]"
  have l: "0 < length ?m" using rnd(1) [OF n] by simp
  have d: "m * 8 div 8 = m" by simp
  have r: "c_realloc al mem (u64_of_u32 w' * 8) = (if al_ok al (m * 8) then Some ?m else None)"
    by (simp only: c_realloc_def b d Let_def)
  have f: "mdb_midl_need al mem num =
      (if idl_cap mem < n
       then if al_ok al (m * 8) then Some (0, ?m[0 := of_nat (m - 2)]) else Some (ENOMEM, mem)
       else Some (0, mem))"
    unfolding mdb_midl_need_def idl_rd(1,2) [OF assms(1)] Option.bind.bind_lunit Let_def w lt
      w'_def [symmetric] r m2
    using l by (simp add: wr_in)
  show ?thesis
  proof (cases "idl_cap mem < n \<and> al_ok al (m * 8)")
    case True
    then have "idl_grown mem (m - 2) (?m[0 := of_nat (m - 2)])"
      using rnd [OF n] by (intro realloc_grown [OF assms(1)]) auto
    then show ?thesis
      using that(2) [of "?m[0 := of_nat (m - 2)]"] True rnd(1) [OF n] f
      by (simp add: idl_grown_def n_def)
  next
    case False
    then show ?thesis using that f assms(1) by (cases "idl_cap mem < n") (auto simp: n_def)
  qed
qed

lemma mdb_midl_alloc_cases:
  assumes "num + 2 < 2 ^ 31"
  shows "mdb_midl_alloc al (int num) = Some None
    \<or> (\<exists>mem. mdb_midl_alloc al (int num) = Some (Some mem) \<and> idl_wf mem \<and> idl_items mem = []
         \<and> idl_cap mem = num)"
proof -
  have "of_int (int num + 2) * 8 = (of_nat ((num + 2) * 8) :: u64)" by simp
  then have b: "unat (of_int (int num + 2) * 8 :: u64) = (num + 2) * 8"
    using assms by (simp only: unat_of_nat) simp
  have d: "(num + 2) * 8 div 8 = num + 2" by simp
  define m where "m = map (al_junk al) [0..<num + 2]"
  have r: "c_malloc al (of_int (int num + 2) * 8) = (if al_ok al ((num + 2) * 8) then Some m else None)"
    by (simp only: c_malloc_def b d m_def)
  have l: "length m = num + 2" by (simp add: m_def)
  then have "idl_wf (m[0 := of_nat num, 1 := 0]) \<and> idl_items (m[0 := of_nat num, 1 := 0]) = []
      \<and> idl_cap (m[0 := of_nat num, 1 := 0]) = num"
    using assms by (simp add: idl_wf_def idl_cap_def idl_cnt_def idl_items_def unat_of_nat)
  then show ?thesis
    unfolding mdb_midl_alloc_def r using l by (simp add: wr_in)
qed

section \<open>Merging two lists\<close>

text \<open>The state of the merge: \<open>i\<close> IDs of \<open>B\<close> and \<open>j\<close> of \<open>A\<close> are left, the others stand merged, as \<open>R\<close>,
  above position \<open>i + j\<close>.\<close>

definition xm_inv :: "u64 list \<Rightarrow> u64 list \<Rightarrow> nat \<Rightarrow> nat \<Rightarrow> idl \<Rightarrow> u64 list \<Rightarrow> bool" where
  "xm_inv A B i j mem R \<longleftrightarrow>
     i \<le> length B \<and> j \<le> length A \<and> length R + i + j = length A + length B
     \<and> length A + length B + 2 \<le> length mem
     \<and> mem ! 1 = - 1 \<and> take j (drop 2 mem) = take j A \<and> take (length R) (drop (i + j + 2) mem) = R
     \<and> sorted_wrt (\<ge>) (take j A @ R) \<and> sorted_wrt (\<ge>) (take i B @ R)
     \<and> mset R = mset (drop j A) + mset (drop i B)"

text \<open>\<open>old_id\<close>: the last ID of \<open>A\<close> that is left, or the delimiter.\<close>

definition xm_old :: "u64 list \<Rightarrow> nat \<Rightarrow> u64" where
  "xm_old A j = (if j = 0 then - 1 else A ! (j - 1))"

lemma xm_rd:
  "xm_inv A B i j mem R \<Longrightarrow> j' \<le> j \<Longrightarrow> ids_rd mem j' = Some (xm_old A j')"
proof -
  assume inv: "xm_inv A B i j mem R" and j: "j' \<le> j"
  have "mem ! (j' + 1) = A ! (j' - 1)" if "j' \<noteq> 0"
  proof -
    have "take j (drop 2 mem) ! (j' - 1) = take j A ! (j' - 1)" using inv by (simp add: xm_inv_def)
    then show ?thesis using that j inv by (simp add: xm_inv_def)
  qed
  then show ?thesis
    using inv j by (auto simp: xm_inv_def ids_rd_def rd_def xm_old_def)
qed

text \<open>Storing an ID at position \<open>i + j\<close>, where \<open>i\<close> is not 0: one more ID of \<open>R\<close>.\<close>

lemma xm_cells:
  assumes inv: "xm_inv A B i j mem R" and "0 < i + j" "j' \<le> j" "j' < i + j"
  shows "ids_wr mem (i + j) x = Some (mem[i + j + 1 := x])"
    and "take j' (drop 2 (mem[i + j + 1 := x])) = take j' A"
    and "take (Suc (length R)) (drop (i + j + 1) (mem[i + j + 1 := x])) = x # R"
    and "mem[i + j + 1 := x] ! 1 = - 1"
proof -
  have l: "i + j + 1 < length mem" using inv by (auto simp: xm_inv_def)
  show "ids_wr mem (i + j) x = Some (mem[i + j + 1 := x])" using l by (simp add: ids_wr_def wr_in)
  show "mem[i + j + 1 := x] ! 1 = - 1" using inv assms(2) by (simp add: xm_inv_def)
  have "take j (drop 2 mem) = take j A" using inv by (simp add: xm_inv_def)
  from arg_cong [OF this, of "take j'"] have t: "take j' (drop 2 mem) = take j' A"
    using assms(3) by (simp add: min_def)
  show "take j' (drop 2 (mem[i + j + 1 := x])) = take j' A"
    using assms(4) by (simp add: t drop_update_swap take_update_swap list_update_beyond)
  have "drop (i + j + 1) (mem[i + j + 1 := x]) = x # drop (i + j + 2) mem"
    using l by (simp add: drop_update_swap flip: Cons_nth_drop_Suc)
  then show "take (Suc (length R)) (drop (i + j + 1) (mem[i + j + 1 := x])) = x # R"
    using inv by (simp add: xm_inv_def)
qed

lemma desc_take_ge:
  assumes "sorted_wrt (\<ge>) B" "i \<le> length B" "0 < i" "x \<in> set (take i B)"
  shows "B ! (i - 1) \<le> (x :: u64)"
proof -
  obtain k where "k < i" "x = B ! k" using in_set_take [OF assms(4,2)] by blast
  then show ?thesis
    using sorted_wrt_nth_less [OF assms(1), of k "i - 1"] assms(2,3) by (cases "k = i - 1") auto
qed

lemma xmerge_shift_inv:
  assumes "xm_inv A B i j mem R" "0 < i" "sorted_wrt (\<ge>) B" "m = B ! (i - 1)"
  shows "\<exists>mem' j' R'. xmerge_shift mem m j (i + j) (xm_old A j) = Some (mem', j', i + j', xm_old A j')
    \<and> xm_inv A B i j' mem' R' \<and> m \<le> xm_old A j' \<and> length mem' = length mem \<and> mem' ! 0 = mem ! 0"
  using assms(1)
proof (induction j arbitrary: mem R)
  case 0
  then show ?case
    by (intro exI [of _ mem] exI [of _ 0] exI [of _ R])
      (simp add: xmerge_shift.simps [of mem] xm_old_def)
next
  case (Suc j)
  let ?o = "A ! j"
  show ?case
  proof (cases "?o < m")
    case False
    then show ?thesis
      using Suc.prems
      by (intro exI [of _ mem] exI [of _ "Suc j"] exI [of _ R])
        (simp add: xmerge_shift.simps [of mem] xm_old_def)
  next
    case True
    let ?m = "mem[i + Suc j + 1 := ?o]"
    note cells = xm_cells [OF Suc.prems, of j ?o]
    have w: "ids_wr mem (i + Suc j) ?o = Some ?m"
      and c: "take j (drop 2 ?m) = take j A" "take (Suc (length R)) (drop (i + Suc j + 1) ?m) = ?o # R"
        "?m ! 1 = - 1"
      using cells assms(2) by auto
    have jA: "j < length A" "i \<le> length B" using Suc.prems by (simp_all add: xm_inv_def)
    have tA: "take (Suc j) A = take j A @ [?o]" using jA(1) by (rule take_Suc_conv_app_nth)
    have sB: "sorted_wrt (\<ge>) (take i B @ ?o # R)"
    proof -
      have "m \<le> x" if "x \<in> set (take i B)" for x
        using desc_take_ge [OF assms(3) jA(2) assms(2) that] assms(4) by simp
      then show ?thesis
        using Suc.prems True by (force simp: xm_inv_def sorted_wrt_append tA)
    qed
    have inv: "xm_inv A B i j ?m (?o # R)"
      using Suc.prems c sB by (auto simp: xm_inv_def tA Cons_nth_drop_Suc [OF jA(1), symmetric])
    have rd: "ids_rd ?m j = Some (xm_old A j)" by (rule xm_rd [OF inv]) simp
    have "xmerge_shift mem m (Suc j) (i + Suc j) (xm_old A (Suc j))
        = xmerge_shift ?m m j (i + j) (xm_old A j)"
      using True w rd
      by (subst xmerge_shift.simps) (simp add: xm_old_def [of A "Suc j"])
    then show ?thesis
      using Suc.IH [OF inv] by simp
  qed
qed

lemma xmerge_loop_inv:
  assumes "sorted_wrt (\<ge>) A" "sorted_wrt (\<ge>) B" "idl_wf merge" "idl_items merge = B"
  shows "xm_inv A B i j mem R \<Longrightarrow>
    \<exists>mem' j' R'. xmerge_loop mem merge i j (i + j) (xm_old A j) = Some mem' \<and> xm_inv A B 0 j' mem' R'
      \<and> length mem' = length mem \<and> mem' ! 0 = mem ! 0"
proof (induction i arbitrary: j mem R)
  case 0
  then show ?case by auto
next
  case (Suc i)
  let ?m = "B ! i"
  have iB: "i < length B" using Suc.prems by (simp add: xm_inv_def)
  have mr: "ids_rd merge (Suc i) = Some ?m"
    using idl_rd(3) [OF assms(3), of "Suc i"] iB assms(4) idl_wf_length [OF assms(3)] by simp
  obtain mem1 j1 R1 where
    s: "xmerge_shift mem ?m j (Suc i + j) (xm_old A j) = Some (mem1, j1, Suc i + j1, xm_old A j1)"
    and inv1: "xm_inv A B (Suc i) j1 mem1 R1" and ge: "?m \<le> xm_old A j1"
    and len1: "length mem1 = length mem" "mem1 ! 0 = mem ! 0"
    using xmerge_shift_inv [OF Suc.prems _ assms(2), of ?m] by auto
  let ?n = "mem1[Suc i + j1 + 1 := ?m]"
  note cells = xm_cells [OF inv1, of j1 ?m]
  have tB: "take (Suc i) B = take i B @ [?m]" using iB by (rule take_Suc_conv_app_nth)
  have sA: "sorted_wrt (\<ge>) (take j1 A @ ?m # R1)"
  proof -
    have "?m \<le> x" if x: "x \<in> set (take j1 A)" for x
    proof -
      have j1: "j1 \<le> length A" "0 < j1" using inv1 x by (simp add: xm_inv_def, cases j1) auto
      then have "xm_old A j1 \<le> x" using desc_take_ge [OF assms(1) j1 x] by (simp add: xm_old_def)
      with ge show ?thesis by simp
    qed
    then show ?thesis using inv1 by (force simp: xm_inv_def sorted_wrt_append tB)
  qed
  have dB: "drop i B = ?m # drop (Suc i) B" by (simp add: Cons_nth_drop_Suc iB)
  have inv: "xm_inv A B i j1 ?n (?m # R1)"
    unfolding xm_inv_def using inv1 [unfolded xm_inv_def] sA cells dB
    by (intro conjI) (simp_all add: tB)
  have "xmerge_loop mem merge (Suc i) j (Suc i + j) (xm_old A j)
      = xmerge_loop ?n merge i j1 (i + j1) (xm_old A j1)"
    using s mr cells(1) by simp
  then show ?case using Suc.IH [OF inv] len1 by simp
qed

lemma mdb_midl_xmerge_merges:
  assumes A: "idl_wf idl" "sorted_wrt (\<ge>) (idl_items idl)"
    and B: "idl_wf merge" "sorted_wrt (\<ge>) (idl_items merge)"
    and room: "idl_cnt idl + idl_cnt merge \<le> idl_cap idl"
  shows "\<exists>idl'. mdb_midl_xmerge idl merge = Some idl' \<and> idl_wf idl'
    \<and> sorted_wrt (\<ge>) (idl_items idl') \<and> mset (idl_items idl') = mset (idl_items idl) + mset (idl_items merge)"
proof -
  let ?A = "idl_items idl" and ?B = "idl_items merge"
  let ?i = "idl_cnt merge" and ?j = "idl_cnt idl"
  let ?m = "idl[1 := - 1]"
  have len: "length ?A = ?j" "length ?B = ?i" using A(1) B(1) by (simp_all add: idl_wf_length)
  have l: "?j + ?i + 2 \<le> length idl" using A(1) room by (simp add: idl_wf_def)
  have inv: "xm_inv ?A ?B ?i ?j ?m []"
    using A B len l by (simp add: xm_inv_def drop_update_swap) (simp add: idl_items_def)
  have old: "ids_rd ?m ?j = Some (xm_old ?A ?j)" by (rule xm_rd [OF inv]) simp
  obtain mem j' R where r: "xmerge_loop ?m merge ?i ?j (?i + ?j) (xm_old ?A ?j) = Some mem"
    and fin: "xm_inv ?A ?B 0 j' mem R" and lm: "length mem = length idl" "mem ! 0 = idl ! 0"
    using xmerge_loop_inv [OF A(2) B(2) B(1) refl inv] by auto
  have tot: "unat (merge ! 1 + idl ! 1) = ?i + ?j"
    using room idl_cap_lt [of idl] by (simp add: idl_cnt_def unat_word_ariths)
  let ?f = "mem[1 := merge ! 1 + idl ! 1]"
  have c: "unat (idl ! Suc 0) = ?j" "unat (merge ! Suc 0) = ?i" by (simp_all add: idl_cnt_def)
  have res: "mdb_midl_xmerge idl merge = Some ?f"
    using l lm r old tot
    by (simp add: mdb_midl_xmerge_def idl_rd(2) [OF A(1)] idl_rd(2) [OF B(1)] ids_wr_def wr_in
        c Let_def)
  have cap: "idl_cap ?f = idl_cap idl" and cnt: "idl_cnt ?f = ?i + ?j"
    using l lm tot by (simp_all add: idl_cap_def idl_cnt_def)
  then have wf: "idl_wf ?f" using A(1) room lm by (simp add: idl_wf_def)
  have "idl_items ?f = take (?i + ?j) (drop 2 mem)" by (simp only: idl_items_def cnt) (simp add: drop_update_swap)
  also have "?i + ?j = j' + length R" using fin len by (simp add: xm_inv_def)
  also have "take (j' + length R) (drop 2 mem)
      = take j' (drop 2 mem) @ take (length R) (drop (0 + j' + 2) mem)"
    by (simp add: take_add)
  also have "\<dots> = take j' ?A @ R" using fin by (simp add: xm_inv_def)
  finally have items: "idl_items ?f = take j' ?A @ R" .
  have "mset (take j' ?A) + mset (drop j' ?A) = mset ?A"
    by (metis append_take_drop_id mset_append)
  then have "mset (take j' ?A @ R) = mset ?A + mset ?B" using fin by (simp add: xm_inv_def) 
  then show ?thesis
    using res wf items fin by (simp add: xm_inv_def)
qed

section \<open>Properties\<close>

text \<open>A list of two IDs with room for three, for the witnesses.\<close>

definition idl_sample :: idl where
  "idl_sample = [3, 2, 9, 5, 0]"

lemma idl_sample [simp]:
  "idl_wf idl_sample" "idl_items idl_sample = [9, 5]" "idl_cnt idl_sample = 2" "idl_cap idl_sample = 3"
  by (simp_all add: idl_sample_def idl_wf_def idl_items_def idl_cnt_def idl_cap_def)

lemma idl_sample_sorted [simp]: "idl_sorted idl_sample"
  by (simp add: idl_sorted_def)

text \<open>C18: binary search in a descending list. An ID that is in the list is found at its position; for
  one that is not, the result is the position before which all IDs are greater and from which on
  all are smaller. The search stays inside the list and ends.\<close>

theorem mdb_midl_search_correct:
  assumes "idl_sorted ids"
  shows "\<exists>p. mdb_midl_search ids ident = Some p \<and> 1 \<le> p \<and> p \<le> idl_cnt ids + 1 \<and>
    (if ident \<in> set (idl_items ids)
     then p \<le> idl_cnt ids \<and> idl_items ids ! (p - 1) = ident
     else (\<forall>i. 1 \<le> i \<and> i < p \<longrightarrow> ident < idl_items ids ! (i - 1))
        \<and> (\<forall>i. p \<le> i \<and> i \<le> idl_cnt ids \<longrightarrow> idl_items ids ! (i - 1) < ident))"
proof -
  obtain p where p: "mdb_midl_search ids ident = Some p" and f: "midl.found_at ids ident p"
    using mdb_midl_search_finds [OF assms] by blast
  have wf: "idl_wf ids" using assms by (simp add: idl_sorted_def)
  have sep: "ident \<notin> set (idl_items ids)"
    if "\<forall>i. 1 \<le> i \<and> i < p \<longrightarrow> ident < idl_items ids ! (i - 1)"
      "\<forall>i. p \<le> i \<and> i \<le> idl_cnt ids \<longrightarrow> idl_items ids ! (i - 1) < ident"
  proof
    assume "ident \<in> set (idl_items ids)"
    then obtain k where "k < idl_cnt ids" "idl_items ids ! k = ident"
      using idl_wf_length [OF wf] by (metis in_set_conv_nth)
    then show False using that [THEN spec, of "k + 1"] by (cases "k + 1 < p") auto
  qed
  have here: "ident \<in> set (idl_items ids)"
    if "1 \<le> p" "p \<le> idl_cnt ids" "idl_items ids ! (p - 1) = ident"
    using that idl_wf_length [OF wf] by (metis One_nat_def Suc_le_eq Suc_pred le_zero_eq nth_mem not_le)
  show ?thesis
    using p f [unfolded midl.found_at_def CMP_cases] sep here by auto
qed

theorem mdb_midl_search_correct_witness:
  "\<exists>p. mdb_midl_search idl_sample 9 = Some p \<and> p \<le> 2 \<and> [9, 5] ! (p - 1) = (9 :: u64)"
  using mdb_midl_search_correct [OF idl_sample_sorted, of 9] by auto

text \<open>\<open>mdb_midl_append\<close> appends the ID, growing the list when it is full. It fails only when the
  list is full and the allocator refuses, and then leaves the list as it was.\<close>

theorem mdb_midl_append_correct:
  assumes "idl_wf ids" "idl_cap ids < 2 ^ 60"
  shows "(\<exists>ids'. mdb_midl_append al ids ident = Some (0, ids') \<and> idl_wf ids'
        \<and> idl_items ids' = idl_items ids @ [ident])
    \<or> mdb_midl_append al ids ident = Some (ENOMEM, ids) \<and> idl_cap ids \<le> idl_cnt ids + 1
        \<and> (\<exists>b. \<not> al_ok al b)"
  using mdb_midl_append_appended [OF assms, of al ident] by (auto simp: idl_appended_def)

theorem mdb_midl_append_correct_witness:
  "\<exists>ids'. mdb_midl_append \<lparr>al_ok = \<lambda>_. True, al_junk = \<lambda>_. 0\<rparr> idl_sample 7 = Some (0, ids')
     \<and> idl_wf ids' \<and> idl_items ids' = [9, 5, 7]"
  using mdb_midl_append_correct [of idl_sample "\<lparr>al_ok = \<lambda>_. True, al_junk = \<lambda>_. 0\<rparr>" 7] by simp

text \<open>\<open>mdb_midl_append_list\<close> appends all IDs of another list.\<close>

theorem mdb_midl_append_list_correct:
  assumes "idl_wf ids" "idl_wf app" "idl_cap ids < 2 ^ 60" "idl_cnt app < 2 ^ 31"
  shows "(\<exists>ids'. mdb_midl_append_list al ids app = Some (0, ids') \<and> idl_wf ids'
        \<and> idl_items ids' = idl_items ids @ idl_items app)
    \<or> mdb_midl_append_list al ids app = Some (ENOMEM, ids)
        \<and> idl_cap ids \<le> idl_cnt ids + idl_cnt app \<and> (\<exists>b. \<not> al_ok al b)"
  using mdb_midl_append_list_appended [OF assms, of al]
  by (auto simp: idl_appended_def idl_wf_length [OF assms(2)])

theorem mdb_midl_append_list_correct_witness:
  "\<exists>ids'. mdb_midl_append_list \<lparr>al_ok = \<lambda>_. True, al_junk = \<lambda>_. 0\<rparr> idl_sample idl_sample
     = Some (0, ids') \<and> idl_wf ids' \<and> idl_items ids' = [9, 5, 9, 5]"
  using mdb_midl_append_list_correct
    [of idl_sample idl_sample "\<lparr>al_ok = \<lambda>_. True, al_junk = \<lambda>_. 0\<rparr>"] by simp

text \<open>\<open>mdb_midl_append_range\<close> appends \<open>n\<close> consecutive IDs, the highest first, so that a descending
  list whose IDs are all above the range stays descending.\<close>

theorem mdb_midl_append_range_correct:
  assumes "idl_wf ids" "idl_cap ids < 2 ^ 60" "unat n < 2 ^ 31"
  shows "(\<exists>ids'. mdb_midl_append_range al ids ident n = Some (0, ids') \<and> idl_wf ids'
        \<and> idl_items ids' = idl_items ids @ map (\<lambda>k. ident + of_nat k) (rev [0..<unat n]))
    \<or> mdb_midl_append_range al ids ident n = Some (ENOMEM, ids)
        \<and> idl_cap ids \<le> idl_cnt ids + unat n \<and> (\<exists>b. \<not> al_ok al b)"
  using mdb_midl_append_range_appended [OF assms, of al ident]
  by (auto simp: idl_appended_def id_range_def)

theorem mdb_midl_append_range_correct_witness:
  "\<exists>ids'. mdb_midl_append_range \<lparr>al_ok = \<lambda>_. True, al_junk = \<lambda>_. 0\<rparr> idl_sample 2 3
     = Some (0, ids') \<and> idl_wf ids' \<and> idl_items ids' = [9, 5, 4, 3, 2]"
  using mdb_midl_append_range_correct
    [of idl_sample 3 "\<lparr>al_ok = \<lambda>_. True, al_junk = \<lambda>_. 0\<rparr>" 2]
  by (simp add: upt_rec)

text \<open>After a successful \<open>mdb_midl_need\<close> the list has room for \<open>num\<close> more IDs and the same IDs.\<close>

theorem mdb_midl_need_correct:
  assumes "idl_wf ids" "idl_cnt ids + unat num < 2 ^ 31"
  shows "(\<exists>ids'. mdb_midl_need al ids num = Some (0, ids') \<and> idl_wf ids'
        \<and> idl_items ids' = idl_items ids \<and> idl_cnt ids + unat num \<le> idl_cap ids')
    \<or> mdb_midl_need al ids num = Some (ENOMEM, ids) \<and> idl_cap ids < idl_cnt ids + unat num
        \<and> (\<exists>b. \<not> al_ok al b)"
  by (rule mdb_midl_need_cases [OF assms, of al]) auto

theorem mdb_midl_need_correct_witness:
  "\<exists>ids'. mdb_midl_need \<lparr>al_ok = \<lambda>_. True, al_junk = \<lambda>_. 0\<rparr> idl_sample 100 = Some (0, ids')
     \<and> idl_items ids' = [9, 5] \<and> 102 \<le> idl_cap ids'"
  using mdb_midl_need_correct [of idl_sample 100 "\<lparr>al_ok = \<lambda>_. True, al_junk = \<lambda>_. 0\<rparr>"] by auto

text \<open>C20: \<open>mdb_midl_xmerge\<close> merges a descending list into another that has room for it: the result is
  descending and holds the IDs of both, every one as often as before. The delimiter in \<open>ids[0]\<close>
  stops the scan before the start of the block.\<close>

theorem mdb_midl_xmerge_correct:
  assumes "idl_wf idl" "sorted_wrt (\<ge>) (idl_items idl)"
    and "idl_wf merge" "sorted_wrt (\<ge>) (idl_items merge)"
    and "idl_cnt idl + idl_cnt merge \<le> idl_cap idl"
  shows "\<exists>idl'. mdb_midl_xmerge idl merge = Some idl' \<and> idl_wf idl'
    \<and> sorted_wrt (\<ge>) (idl_items idl')
    \<and> mset (idl_items idl') = mset (idl_items idl) + mset (idl_items merge)"
  by (rule mdb_midl_xmerge_merges [OF assms])

theorem mdb_midl_xmerge_correct_witness:
  "\<exists>idl'. mdb_midl_xmerge idl_sample [1, 1, 6] = Some idl' \<and> sorted_wrt (\<ge>) (idl_items idl')
     \<and> mset (idl_items idl') = {#5, 6, 9#}"
proof -
  have "idl_wf [1, 1, 6]" "idl_items [1, 1, 6] = [6]" "idl_cnt [1, 1, 6] = 1"
    by (simp_all add: idl_wf_def idl_items_def idl_cnt_def idl_cap_def)
  then show ?thesis
    using mdb_midl_xmerge_correct [of idl_sample "[1, 1, 6]"] by (auto simp: add_mset_commute)
qed

end
