(* ===== verification/Midl_Sort.thy ===== *)
theory Midl_Sort
  imports Midl
begin

text \<open>
  \<open>lmdb/midl.c\<close>: \<open>mdb_midl_sort\<close>, an iterative quicksort that sorts an ID list in descending order.
  The pending segments are kept on an array of 64 \<open>int\<close>s; segments of at most eight IDs are sorted by
  insertion. Every access to the list and to that array is checked, and the outer loop, which C
  writes \<open>for(;;)\<close>, is a partial function: \<open>None\<close> is an access out of range or a loop that does not
  end. The theorem that the result is \<open>Some\<close> therefore includes that the array of pending segments
  is large enough.
\<close>

section \<open>The sort of the source\<close>

text \<open>The macro \<open>MIDL_SWAP\<close> on \<open>ids[p]\<close> and \<open>ids[q]\<close>, and its conditional use.\<close>

definition midl_swap :: "idl \<Rightarrow> nat \<Rightarrow> nat \<Rightarrow> idl option" where
  "midl_swap ids p q =
     do { itmp \<leftarrow> ids_rd ids p; b \<leftarrow> ids_rd ids q; ids \<leftarrow> ids_wr ids p b; ids_wr ids q itmp }"

definition swap_if_less :: "idl \<Rightarrow> nat \<Rightarrow> nat \<Rightarrow> idl option" where
  "swap_if_less ids p q =
     do { x \<leftarrow> ids_rd ids p; y \<leftarrow> ids_rd ids q; if x < y then midl_swap ids p q else Some ids }"

text \<open>Insertion sort: the loop over \<open>i\<close> that opens a gap for \<open>a\<close>, and the loop over \<open>j\<close>.\<close>

fun ins_shift :: "idl \<Rightarrow> u64 \<Rightarrow> nat \<Rightarrow> (idl \<times> nat) option" where
  "ins_shift ids a 0 = Some (ids, 0)"
| "ins_shift ids a (Suc i) =
     do { v \<leftarrow> ids_rd ids (Suc i);
          if a \<le> v then Some (ids, Suc i)
          else do { ids \<leftarrow> ids_wr ids (Suc i + 1) v; ins_shift ids a i } }"

definition ins_step :: "idl \<Rightarrow> nat \<Rightarrow> idl option" where
  "ins_step ids j =
     do { a \<leftarrow> ids_rd ids j; (ids, i) \<leftarrow> ins_shift ids a (j - 1); ids_wr ids (i + 1) a }"

function ins_loop :: "idl \<Rightarrow> nat \<Rightarrow> nat \<Rightarrow> idl option" where
  "ins_loop ids j ir =
     (if j \<le> ir then (case ins_step ids j of None \<Rightarrow> None | Some ids \<Rightarrow> ins_loop ids (j + 1) ir)
      else Some ids)"
  by pat_completeness auto
termination by (relation "measure (\<lambda>(ids, j, ir). ir + 1 - j)") auto

declare ins_loop.simps [simp del]

text \<open>The scans \<open>do i++; while (ids[i] > a)\<close> and \<open>do j--; while (ids[j] < a)\<close>.\<close>

function scan_up :: "idl \<Rightarrow> u64 \<Rightarrow> nat \<Rightarrow> nat option" where
  "scan_up ids a i =
     (case ids_rd ids (i + 1) of
        None \<Rightarrow> None
      | Some v \<Rightarrow> if a < v then scan_up ids a (i + 1) else Some (i + 1))"
  by pat_completeness auto
termination
  by (relation "measure (\<lambda>(ids, a, i). length ids - i)") (auto simp: ids_rd_def rd_def split: if_splits)

declare scan_up.simps [simp del]

fun scan_down :: "idl \<Rightarrow> u64 \<Rightarrow> nat \<Rightarrow> nat option" where
  "scan_down ids a 0 = None"
| "scan_down ids a (Suc j) =
     do { v \<leftarrow> ids_rd ids j; if v < a then scan_down ids a j else Some j }"

lemma scan_down_less: "scan_down ids a j = Some j' \<Longrightarrow> j' < j"
  by (induction j) (auto simp: less_Suc_eq split: bind_splits if_splits)

function part_loop :: "idl \<Rightarrow> u64 \<Rightarrow> nat \<Rightarrow> nat \<Rightarrow> (idl \<times> nat \<times> nat) option" where
  "part_loop ids a i j =
     (case scan_up ids a i of None \<Rightarrow> None | Some i \<Rightarrow>
      (case scan_down ids a j of None \<Rightarrow> None | Some j \<Rightarrow>
       if j < i then Some (ids, i, j)
       else (case midl_swap ids i j of None \<Rightarrow> None | Some ids \<Rightarrow> part_loop ids a i j)))"
  by pat_completeness auto
termination by (relation "measure (\<lambda>(ids, a, i, j). j)") (auto dest: scan_down_less)

declare part_loop.simps [simp del]

text \<open>\<open>(l + ir) >> 1\<close> in C's \<open>int\<close>.\<close>

definition int_mid :: "nat \<Rightarrow> nat \<Rightarrow> nat" where
  "int_mid l ir = nat (sint (word_of_int (int l + int ir) :: 32 word) div 2)"

definition partition_ids :: "idl \<Rightarrow> nat \<Rightarrow> nat \<Rightarrow> (idl \<times> nat \<times> nat) option" where
  "partition_ids ids l ir =
     do { let k = int_mid l ir;
          ids \<leftarrow> midl_swap ids k (l + 1);
          ids \<leftarrow> swap_if_less ids l ir;
          ids \<leftarrow> swap_if_less ids (l + 1) ir;
          ids \<leftarrow> swap_if_less ids l (l + 1);
          a \<leftarrow> ids_rd ids (l + 1);
          (ids, i, j) \<leftarrow> part_loop ids a (l + 1) ir;
          v \<leftarrow> ids_rd ids j;
          ids \<leftarrow> ids_wr ids (l + 1) v;
          ids \<leftarrow> ids_wr ids j a;
          Some (ids, i, j) }"

text \<open>The outer loop. The variables are C's \<open>int\<close>s, so differences are taken in \<open>int\<close>.\<close>

partial_function (option) sort_loop ::
  "idl \<Rightarrow> nat \<Rightarrow> nat \<Rightarrow> nat list \<Rightarrow> nat \<Rightarrow> idl option" where
  "sort_loop ids l ir istack jstack =
     (if int ir - int l < 8
      then do { ids \<leftarrow> ins_loop ids (l + 1) ir;
                if jstack = 0 then Some ids
                else do { ir \<leftarrow> rd istack jstack;
                          l \<leftarrow> rd istack (jstack - 1);
                          sort_loop ids l ir istack (jstack - 2) } }
      else do { (ids, i, j) \<leftarrow> partition_ids ids l ir;
                let jstack = jstack + 2;
                if int j - int l \<le> int ir - int i + 1
                then do { istack \<leftarrow> wr istack jstack ir;
                          istack \<leftarrow> wr istack (jstack - 1) i;
                          sort_loop ids l (j - 1) istack jstack }
                else do { istack \<leftarrow> wr istack jstack (j - 1);
                          istack \<leftarrow> wr istack (jstack - 1) l;
                          sort_loop ids i ir istack jstack } })"

text \<open>\<open>stk\<close> is what the array \<open>istack\<close> holds before it is written.\<close>

definition mdb_midl_sort :: "(nat \<Rightarrow> nat) \<Rightarrow> idl \<Rightarrow> idl option" where
  "mdb_midl_sort stk ids =
     do { n \<leftarrow> ids_rd ids 0;
          sort_loop ids 1 (nat (sint (u32_of_u64 n))) (map stk [0..<64]) 0 }"

section \<open>Permutations of a segment\<close>

text \<open>\<open>ids'\<close> is \<open>ids\<close> with the IDs at positions \<open>l\<close> to \<open>r\<close> rearranged.\<close>

definition seg_perm :: "nat \<Rightarrow> nat \<Rightarrow> idl \<Rightarrow> idl \<Rightarrow> bool" where
  "seg_perm l r ids ids' \<longleftrightarrow> length ids' = length ids \<and> mset ids' = mset ids
     \<and> (\<forall>k. k < length ids \<and> (k < Suc l \<or> Suc r < k) \<longrightarrow> ids' ! k = ids ! k)"

lemma seg_perm_refl [simp]: "seg_perm l r ids ids"
  by (simp add: seg_perm_def)

lemma seg_perm_trans: "seg_perm l r ids ids1 \<Longrightarrow> seg_perm l r ids1 ids2 \<Longrightarrow> seg_perm l r ids ids2"
  by (simp add: seg_perm_def)

lemma seg_perm_mono: "seg_perm l r ids ids' \<Longrightarrow> l' \<le> l \<Longrightarrow> r \<le> r' \<Longrightarrow> seg_perm l' r' ids ids'"
  by (auto simp: seg_perm_def)

lemma seg_perm_length: "seg_perm l r ids ids' \<Longrightarrow> length ids' = length ids"
  by (simp add: seg_perm_def)

lemma seg_perm_outside:
  "seg_perm l r ids ids' \<Longrightarrow> Suc k < length ids \<Longrightarrow> k < l \<or> r < k \<Longrightarrow> ids' ! Suc k = ids ! Suc k"
  by (simp add: seg_perm_def)

text \<open>The values inside the segment are the old ones.\<close>

lemma seg_perm_middle:
  assumes "seg_perm l r ids ids'" "l \<le> Suc r"
  shows "mset (take (Suc r - l) (drop (Suc l) ids')) = mset (take (Suc r - l) (drop (Suc l) ids))"
proof -
  have len: "length ids' = length ids" and ms: "mset ids' = mset ids"
    using assms(1) by (simp_all add: seg_perm_def)
  have pre: "take (Suc l) ids' = take (Suc l) ids"
    and post: "drop (Suc (Suc r)) ids' = drop (Suc (Suc r)) ids"
    using assms(1) by (auto intro!: nth_equalityI simp: seg_perm_def)
  have split: "xs = take (Suc l) xs @ take (Suc r - l) (drop (Suc l) xs) @ drop (Suc (Suc r)) xs"
    for xs :: idl
  proof -
    have "take (Suc r - l) (drop (Suc l) xs) @ drop (Suc (Suc r)) xs = drop (Suc l) xs"
      using append_take_drop_id [of "Suc r - l" "drop (Suc l) xs"] assms(2) by simp
    then show ?thesis by simp
  qed
  show ?thesis
    using ms arg_cong [OF split [of ids], of mset] arg_cong [OF split [of ids'], of mset]
    by (simp add: pre post)
qed

lemma seg_perm_inside:
  assumes "seg_perm l r ids ids'" "Suc r < length ids" "l \<le> k" "k \<le> r"
  shows "\<exists>k'. l \<le> k' \<and> k' \<le> r \<and> ids' ! Suc k = ids ! Suc k'"
proof -
  have len: "length ids' = length ids" using assms(1) by (simp add: seg_perm_def)
  have "set (take (Suc r - l) (drop (Suc l) ids')) = set (take (Suc r - l) (drop (Suc l) ids))"
    by (rule mset_eq_setD [OF seg_perm_middle [OF assms(1)]]) (use assms in simp)
  moreover have "ids' ! Suc k \<in> set (take (Suc r - l) (drop (Suc l) ids'))"
    unfolding in_set_conv_nth using assms len
    by (intro exI [of _ "k - l"]) auto
  ultimately obtain m where "m < Suc r - l" "ids' ! Suc k = ids ! (Suc l + m)"
    using assms(2) by (auto simp: in_set_conv_nth)
  then show ?thesis using assms(3,4) by (intro exI [of _ "l + m"]) auto
qed

lemma midl_swap_perm:
  assumes "Suc p < length ids" "Suc q < length ids" "l \<le> p" "p \<le> r" "l \<le> q" "q \<le> r"
  shows "\<exists>ids'. midl_swap ids p q = Some ids' \<and> seg_perm l r ids ids'
    \<and> ids' ! Suc p = ids ! Suc q \<and> ids' ! Suc q = ids ! Suc p
    \<and> (\<forall>k. k \<noteq> p \<and> k \<noteq> q \<longrightarrow> ids' ! Suc k = ids ! Suc k)"
proof (intro exI conjI)
  let ?m = "ids[Suc p := ids ! Suc q, Suc q := ids ! Suc p]"
  show "midl_swap ids p q = Some ?m"
    using assms by (simp add: midl_swap_def ids_rd_def ids_wr_def rd_in wr_in)
  show "seg_perm l r ids ?m"
    using assms mset_swap [of "Suc q" ids "Suc p"]
    by (auto simp: seg_perm_def nth_list_update)
qed (use assms in \<open>auto simp: nth_list_update\<close>)

lemma swap_if_less_perm:
  assumes "Suc p < length ids" "Suc q < length ids" "l \<le> p" "p \<le> r" "l \<le> q" "q \<le> r"
  shows "\<exists>ids'. swap_if_less ids p q = Some ids' \<and> seg_perm l r ids ids'
    \<and> ids' ! Suc q \<le> ids' ! Suc p
    \<and> (ids ! Suc q \<le> ids ! Suc p \<and> ids' = ids \<or>
       ids ! Suc p < ids ! Suc q \<and> ids' ! Suc p = ids ! Suc q \<and> ids' ! Suc q = ids ! Suc p)
    \<and> (\<forall>k. k \<noteq> p \<and> k \<noteq> q \<longrightarrow> ids' ! Suc k = ids ! Suc k)"
proof (cases "ids ! Suc p < ids ! Suc q")
  case True
  obtain ids' where "midl_swap ids p q = Some ids'" "seg_perm l r ids ids'"
    "ids' ! Suc p = ids ! Suc q" "ids' ! Suc q = ids ! Suc p"
    "\<forall>k. k \<noteq> p \<and> k \<noteq> q \<longrightarrow> ids' ! Suc k = ids ! Suc k"
    using midl_swap_perm [OF assms] by blast
  with True show ?thesis
    using assms by (intro exI [of _ ids']) (simp add: swap_if_less_def ids_rd_def rd_in)
next
  case False
  then show ?thesis
    using assms by (intro exI [of _ ids]) (simp add: swap_if_less_def ids_rd_def rd_in)
qed

section \<open>Insertion sort\<close>

text \<open>The segment from \<open>l\<close> to \<open>r\<close> is in descending order.\<close>

definition seg_desc :: "idl \<Rightarrow> nat \<Rightarrow> nat \<Rightarrow> bool" where
  "seg_desc ids l r \<longleftrightarrow> (\<forall>p q. l \<le> p \<and> p < q \<and> q \<le> r \<longrightarrow> ids ! Suc q \<le> ids ! Suc p)"

lemma ins_shift_spec:
  "Suc (Suc i) < length ids \<Longrightarrow> \<exists>ids' i'. ins_shift ids a i = Some (ids', i') \<and> i' \<le> i
    \<and> length ids' = length ids
    \<and> mset (ids'[Suc (Suc i') := a]) = mset (ids[Suc (Suc i) := a])
    \<and> (0 < i' \<longrightarrow> a \<le> ids ! Suc i')
    \<and> (\<forall>k. i' < k \<and> k \<le> i \<longrightarrow> ids ! Suc k < a \<and> ids' ! Suc (Suc k) = ids ! Suc k)
    \<and> (\<forall>k. k \<le> i' \<or> Suc i < k \<longrightarrow> ids' ! Suc k = ids ! Suc k) \<and> ids' ! 0 = ids ! 0"
proof (induction i arbitrary: ids)
  case 0
  then show ?case by simp
next
  case (Suc i)
  let ?v = "ids ! Suc (Suc i)"
  have rd: "ids_rd ids (Suc i) = Some ?v" using Suc.prems by (simp add: ids_rd_def rd_in)
  show ?case
  proof (cases "a \<le> ?v")
    case True
    then show ?thesis using rd by (intro exI [of _ ids] exI [of _ "Suc i"]) auto
  next
    case False
    let ?m = "ids[Suc (Suc (Suc i)) := ?v]"
    have w: "ids_wr ids (Suc i + 1) ?v = Some ?m" using Suc.prems by (simp add: ids_wr_def wr_in)
    have "Suc (Suc i) < length ?m" using Suc.prems by simp
    from Suc.IH [OF this] obtain ids' i' where r: "ins_shift ?m a i = Some (ids', i')" "i' \<le> i"
      "length ids' = length ?m" "mset (ids'[Suc (Suc i') := a]) = mset (?m[Suc (Suc i) := a])"
      "0 < i' \<longrightarrow> a \<le> ?m ! Suc i'"
      and sh: "\<And>k. i' < k \<Longrightarrow> k \<le> i \<Longrightarrow> ?m ! Suc k < a \<and> ids' ! Suc (Suc k) = ?m ! Suc k"
      and out: "\<And>k. k \<le> i' \<or> Suc i < k \<Longrightarrow> ids' ! Suc k = ?m ! Suc k" and z: "ids' ! 0 = ?m ! 0"
      by blast
    have "?m[Suc (Suc i) := a] = (ids[Suc (Suc (Suc i)) := a])[Suc (Suc (Suc i)) := (ids[Suc (Suc (Suc i)) := a]) ! Suc (Suc i),
        Suc (Suc i) := (ids[Suc (Suc (Suc i)) := a]) ! Suc (Suc (Suc i))]"
      using Suc.prems by simp
    then have ms: "mset (?m[Suc (Suc i) := a]) = mset (ids[Suc (Suc (Suc i)) := a])"
      using Suc.prems by (simp only: mset_swap length_list_update)
    have "ids ! Suc k < a \<and> ids' ! Suc (Suc k) = ids ! Suc k" if "i' < k" "k \<le> Suc i" for k
    proof (cases "k = Suc i")
      case True
      then show ?thesis using out [of "Suc (Suc i)"] False Suc.prems by (simp add: not_le)
    next
      case neq: False
      then show ?thesis using sh [of k] that Suc.prems by simp
    qed
    moreover have "ids' ! Suc k = ids ! Suc k" if "k \<le> i' \<or> Suc (Suc i) < k" for k
      using out [of k] that r(2) by auto
    ultimately show ?thesis
      using rd w False r ms z
      by (intro exI [of _ ids'] exI [of _ i']) auto
  qed
qed

lemma ins_step_spec:
  assumes "1 \<le> j" "Suc j < length ids"
  shows "\<exists>ids' i. ins_step ids j = Some ids' \<and> i < j \<and> seg_perm (Suc i) j ids ids'
    \<and> (0 < i \<longrightarrow> ids ! Suc j \<le> ids ! Suc i)
    \<and> ids' ! Suc (Suc i) = ids ! Suc j
    \<and> (\<forall>k. i < k \<and> k < j \<longrightarrow> ids ! Suc k < ids ! Suc j \<and> ids' ! Suc (Suc k) = ids ! Suc k)"
proof -
  obtain i0 where j: "j = Suc i0" using assms(1) by (cases j) auto
  let ?a = "ids ! Suc j"
  have rd: "ids_rd ids j = Some ?a" using assms by (simp add: ids_rd_def rd_in)
  have "Suc (Suc i0) < length ids" using assms j by simp
  from ins_shift_spec [OF this, of ?a] obtain ids' i where
    r: "ins_shift ids ?a i0 = Some (ids', i)" "i \<le> i0" "length ids' = length ids"
    "mset (ids'[Suc (Suc i) := ?a]) = mset (ids[Suc (Suc i0) := ?a])"
    "0 < i \<longrightarrow> ?a \<le> ids ! Suc i"
    and sh: "\<And>k. i < k \<Longrightarrow> k \<le> i0 \<Longrightarrow> ids ! Suc k < ?a \<and> ids' ! Suc (Suc k) = ids ! Suc k"
    and out: "\<And>k. k \<le> i \<or> Suc i0 < k \<Longrightarrow> ids' ! Suc k = ids ! Suc k" and z: "ids' ! 0 = ids ! 0"
    by blast
  let ?m = "ids'[Suc (Suc i) := ?a]"
  have w: "ids_wr ids' (i + 1) ?a = Some ?m" using assms r(2,3) j by (simp add: ids_wr_def wr_in)
  have "ids' ! k = ids ! k" if "k < Suc (Suc i) \<or> Suc j < k" for k
    using out [of "k - 1"] z that j by (cases k) auto
  then have "seg_perm (Suc i) j ids ?m"
    using r(3,4) j r(2) by (auto simp: seg_perm_def nth_list_update)
  moreover have "ids ! Suc k < ?a \<and> ?m ! Suc (Suc k) = ids ! Suc k" if "i < k" "k < j" for k
    using sh [of k] that j by simp
  ultimately show ?thesis
    using rd r w assms j by (intro exI [of _ ?m] exI [of _ i]) (auto simp: ins_step_def)
qed

lemma ins_loop_sorts:
  assumes "1 \<le> l" "Suc ir < length ids"
    and "\<And>p q. 1 \<le> p \<Longrightarrow> p < l \<Longrightarrow> l \<le> q \<Longrightarrow> q \<le> ir \<Longrightarrow> ids ! Suc q \<le> ids ! Suc p"
    and "seg_desc ids l (j - 1)" "l < j" "j \<le> ir + 1"
  shows "\<exists>ids'. ins_loop ids j ir = Some ids' \<and> seg_perm l ir ids ids' \<and> seg_desc ids' l ir"
  using assms(2-6)
proof (induction "ir + 1 - j" arbitrary: ids j)
  case 0
  then show ?case by (auto simp: ins_loop.simps)
next
  case (Suc n)
  then have j: "j \<le> ir" "1 \<le> j" "Suc j < length ids" by auto
  from ins_step_spec [OF j(2,3)] obtain ids1 i where
    st: "ins_step ids j = Some ids1" "i < j" "seg_perm (Suc i) j ids ids1"
    and ge: "0 < i \<Longrightarrow> ids ! Suc j \<le> ids ! Suc i" and at: "ids1 ! Suc (Suc i) = ids ! Suc j"
    and sh: "\<And>k. i < k \<Longrightarrow> k < j \<Longrightarrow> ids ! Suc k < ids ! Suc j \<and> ids1 ! Suc (Suc k) = ids ! Suc k"
    by blast
  have low: "l \<le> Suc i"
  proof (rule ccontr)
    assume "\<not> l \<le> Suc i"
    then have "ids ! Suc (l - 1) < ids ! Suc j" "1 \<le> l - 1"
      using sh [of "l - 1"] Suc.prems(4) by auto
    moreover have "ids ! Suc j \<le> ids ! Suc (l - 1)"
      using Suc.prems(2) [of "l - 1" j] \<open>1 \<le> l - 1\<close> j Suc.prems(4) by simp
    ultimately show False by simp
  qed
  have p1: "seg_perm l ir ids ids1" by (rule seg_perm_mono [OF st(3) low j(1)])
  have keep: "ids1 ! Suc k = ids ! Suc k" if "k \<le> i" for k
    using seg_perm_outside [OF st(3), of k] that st(2) j(3) by simp
  have "seg_desc ids1 l j"
    unfolding seg_desc_def
  proof (intro allI impI; elim conjE)
    fix p q assume pq: "l \<le> p" "p < q" "q \<le> j"
    have desc: "ids ! Suc q' \<le> ids ! Suc p'" if "l \<le> p'" "p' < q'" "q' < j" for p' q'
      using Suc.prems(3) that unfolding seg_desc_def by (metis Suc_diff_1 j(2) less_Suc_eq_le zero_less_one order_less_le_trans)
    consider "q \<le> i" | "q = Suc i" | "p \<le> i" "Suc i < q" | "p = Suc i" "Suc i < q" | "Suc i < p"
      using pq by linarith
    then show "ids1 ! Suc q \<le> ids1 ! Suc p"
    proof cases
      case 1
      then show ?thesis using desc [of p q] pq keep st(2) by simp
    next
      case 2
      then have "p \<le> i" "0 < i" using pq assms(1) by auto
      moreover then have "ids ! Suc i \<le> ids ! Suc p" using desc [of p i] pq st(2) by (cases "p = i") auto
      ultimately show ?thesis using 2 ge at keep by (simp add: order_trans)
    next
      case 3
      then obtain q' where "q = Suc q'" "i < q'" by (cases q) auto
      then show ?thesis using sh [of q'] desc [of p q'] pq 3 keep by simp
    next
      case 4
      then obtain q' where "q = Suc q'" "i < q'" by (cases q) auto
      then show ?thesis using sh [of q'] pq 4 at by (simp add: less_imp_le)
    next
      case 5
      then obtain p' q' where "q = Suc q'" "p = Suc p'" "i < p'" using pq by (cases q; cases p) auto
      then show ?thesis using sh [of p'] sh [of q'] desc [of p' q'] pq 5 low by simp
    qed
  qed
  moreover have "ids1 ! Suc q \<le> ids1 ! Suc p" if pq: "1 \<le> p" "p < l" "l \<le> q" "q \<le> ir" for p q
  proof -
    have "Suc p < length ids" using pq Suc.prems(1) by simp
    then have "ids1 ! Suc p = ids ! Suc p" by (rule seg_perm_outside [OF p1]) (use pq in simp)
    moreover obtain q' where "l \<le> q'" "q' \<le> ir" "ids1 ! Suc q = ids ! Suc q'"
      using seg_perm_inside [OF p1 Suc.prems(1) pq(3,4)] by auto
    ultimately show ?thesis using Suc.prems(2) [of p q'] pq by simp
  qed
  moreover have "Suc ir < length ids1" using Suc.prems(1) seg_perm_length [OF p1] by simp
  moreover have n: "n = ir + 1 - (j + 1)" using Suc.hyps(2) by linarith
  ultimately obtain ids' where "ins_loop ids1 (j + 1) ir = Some ids'" "seg_perm l ir ids1 ids'"
      "seg_desc ids' l ir"
    using Suc.hyps(1) [of "j + 1" ids1] n Suc.prems j by auto
  then show ?case
    using st(1) j(1) seg_perm_trans [OF p1]
    by (intro exI [of _ ids']) (simp add: ins_loop.simps [of ids])
qed

section \<open>Partitioning\<close>

lemma scan_up_spec:
  "i < q \<Longrightarrow> Suc q < length ids \<Longrightarrow> ids ! Suc q \<le> a \<Longrightarrow>
   \<exists>i'. scan_up ids a i = Some i' \<and> i < i' \<and> i' \<le> q \<and> ids ! Suc i' \<le> a
     \<and> (\<forall>k. i < k \<and> k < i' \<longrightarrow> a < ids ! Suc k)"
proof (induction "q - i" arbitrary: i)
  case (Suc n)
  have rd: "ids_rd ids (i + 1) = Some (ids ! Suc (Suc i))" using Suc.prems by (simp add: ids_rd_def rd_in)
  show ?case
  proof (cases "a < ids ! Suc (Suc i)")
    case True
    then have "i + 1 \<noteq> q" using Suc.prems(3) by auto
    then have "i + 1 < q" using Suc.prems(1) by linarith
    have n: "n = q - (i + 1)" using Suc.hyps(2) by linarith
    then obtain i' where i': "scan_up ids a (i + 1) = Some i'" "i + 1 < i'" "i' \<le> q" "ids ! Suc i' \<le> a"
      "\<forall>k. i + 1 < k \<and> k < i' \<longrightarrow> a < ids ! Suc k"
      using Suc.hyps(1) [of "i + 1"] n \<open>i + 1 < q\<close> Suc.prems by auto
    have "a < ids ! Suc k" if "i < k" "k < i'" for k
      using i'(5) that True by (cases "k = i + 1") auto
    then show ?thesis
      using i' rd True by (intro exI [of _ i']) (simp add: scan_up.simps [of ids a i])
  next
    case False
    then show ?thesis
      using rd Suc.prems
      by (intro exI [of _ "i + 1"]) (auto simp: scan_up.simps [of ids a i] not_less)
  qed
qed simp

lemma scan_down_spec:
  "q < j \<Longrightarrow> j < length ids \<Longrightarrow> a \<le> ids ! Suc q \<Longrightarrow>
   \<exists>j'. scan_down ids a j = Some j' \<and> q \<le> j' \<and> j' < j \<and> a \<le> ids ! Suc j'
     \<and> (\<forall>k. j' < k \<and> k < j \<longrightarrow> ids ! Suc k < a)"
proof (induction j)
  case (Suc j)
  have rd: "ids_rd ids j = Some (ids ! Suc j)" using Suc.prems by (simp add: ids_rd_def rd_in)
  show ?case
  proof (cases "ids ! Suc j < a")
    case True
    then have "q < j" using Suc.prems by (cases "q = j") auto
    then obtain j' where j': "scan_down ids a j = Some j'" "q \<le> j'" "j' < j" "a \<le> ids ! Suc j'"
      "\<forall>k. j' < k \<and> k < j \<longrightarrow> ids ! Suc k < a"
      using Suc by auto
    then show ?thesis using rd True by (intro exI [of _ j']) (auto simp: less_Suc_eq)
  next
    case False
    then show ?thesis using rd Suc.prems by (intro exI [of _ j]) auto
  qed
qed simp

text \<open>The IDs up to \<open>i\<close> are at least \<open>a\<close>, those from \<open>j\<close> on at most \<open>a\<close>.\<close>

definition parted :: "idl \<Rightarrow> u64 \<Rightarrow> nat \<Rightarrow> nat \<Rightarrow> nat \<Rightarrow> nat \<Rightarrow> bool" where
  "parted ids a l i j ir \<longleftrightarrow> ids ! Suc (Suc l) = a
     \<and> (\<forall>p. l \<le> p \<and> p \<le> i \<longrightarrow> a \<le> ids ! Suc p) \<and> (\<forall>p. j \<le> p \<and> p \<le> ir \<longrightarrow> ids ! Suc p \<le> a)"

lemma part_loop_spec:
  "Suc ir < length ids \<Longrightarrow> parted ids a l i j ir \<Longrightarrow> l < i \<Longrightarrow> i \<le> j \<Longrightarrow> j \<le> ir \<Longrightarrow>
   (i = j \<Longrightarrow> Suc l < i \<and> j < ir) \<Longrightarrow>
   \<exists>ids' i' j'. part_loop ids a i j = Some (ids', i', j') \<and> seg_perm l ir ids ids'
     \<and> l < j' \<and> j' < i' \<and> i' \<le> ir \<and> parted ids' a l (i' - 1) (Suc j') ir"
proof (induction j arbitrary: ids i rule: less_induct)
  case (less j)
  let ?u = "if i < j then j else Suc i" and ?d = "if i < j then i else i - 1"
  note part = less.prems(2) [unfolded parted_def]
  have u: "i < ?u" "?u \<le> ir" "Suc ?u < length ids" "ids ! Suc ?u \<le> a"
    using less.prems part by auto
  obtain i' where i': "scan_up ids a i = Some i'" "i < i'" "i' \<le> ?u" "ids ! Suc i' \<le> a"
    "\<forall>k. i < k \<and> k < i' \<longrightarrow> a < ids ! Suc k"
    using scan_up_spec [OF u(1,3,4)] by blast
  have d: "?d < j" "j < length ids" "l < ?d" "?d \<le> i"
    using less.prems by auto
  then have ad: "a \<le> ids ! Suc ?d" using part by simp
  obtain j' where j': "scan_down ids a j = Some j'" "?d \<le> j'" "j' < j" "a \<le> ids ! Suc j'"
    "\<forall>k. j' < k \<and> k < j \<longrightarrow> ids ! Suc k < a"
    using scan_down_spec [OF d(1,2) ad] by blast
  have hi: "i' \<le> ir" "l < j'" using i'(3) u(2) j'(2) d(3) by linarith+
  show ?case
  proof (cases "j' < i'")
    case True
    have "a \<le> ids ! Suc p" if "l \<le> p" "p \<le> i' - 1" for p
    proof (cases "p \<le> i")
      case False
      then show ?thesis using i'(2,5) that by (simp add: less_imp_le)
    qed (use part that in simp)
    moreover have "ids ! Suc p \<le> a" if "Suc j' \<le> p" "p \<le> ir" for p
    proof (cases "j \<le> p")
      case False
      then show ?thesis using j'(5) that by (simp add: less_imp_le)
    qed (use part that in simp)
    ultimately show ?thesis
      using True hi i'(1) j'(1) part
      by (intro exI [of _ ids] exI [of _ i'] exI [of _ j'])
        (simp add: part_loop.simps [of ids] parted_def)
  next
    case False
    then have ij: "i' \<le> j'" "l < i'" using i'(2) less.prems(3) by auto
    have "Suc i' < length ids" "Suc j' < length ids" using hi j'(3) less.prems by auto
    then obtain m where m: "midl_swap ids i' j' = Some m" "seg_perm l ir ids m"
      "m ! Suc i' = ids ! Suc j'" "m ! Suc j' = ids ! Suc i'"
      "\<And>k. k \<noteq> i' \<Longrightarrow> k \<noteq> j' \<Longrightarrow> m ! Suc k = ids ! Suc k"
      using midl_swap_perm [of i' ids j' l ir] hi ij j'(3) less.prems(5) by auto
    have "a \<le> m ! Suc p" if p: "l \<le> p" "p \<le> i'" for p
    proof -
      consider "p = i'" | "p \<le> i" "p < i'" | "i < p" "p < i'" using p i'(2) by linarith
      then show ?thesis
        using m ij i'(5) j'(4) part p by cases (auto simp: less_imp_le)
    qed
    moreover have "m ! Suc p \<le> a" if p: "j' \<le> p" "p \<le> ir" for p
    proof -
      consider "p = j'" | "j' < p" "p < j" | "j \<le> p" "j' < p" using p j'(3) by linarith
      then show ?thesis
        using m ij j'(5) i'(4) part p by cases (auto simp: less_imp_le)
    qed
    moreover have "m ! Suc (Suc l) = a" using m(5) [of "Suc l"] i'(2) ij less.prems(3) part by auto
    ultimately have pm: "parted m a l i' j' ir" by (simp add: parted_def)
    have "Suc ir < length m" using less.prems(1) seg_perm_length [OF m(2)] by simp
    moreover have "Suc l < i' \<and> j' < ir" using i'(2) j'(3) less.prems by linarith
    ultimately obtain ids' i'' j'' where "part_loop m a i' j' = Some (ids', i'', j'')"
      "seg_perm l ir m ids'" "l < j''" "j'' < i''" "i'' \<le> ir" "parted ids' a l (i'' - 1) (Suc j'') ir"
      using less.IH [OF j'(3) _ pm ij(2,1)] j'(3) less.prems(5) by auto
    moreover have "part_loop ids a i j = part_loop m a i' j'"
      using False i'(1) j'(1) m(1) by (simp add: part_loop.simps [of ids])
    ultimately show ?thesis using seg_perm_trans [OF m(2)] by auto
  qed
qed

lemma int_mid_small: "l + ir < 2 ^ 31 \<Longrightarrow> int_mid l ir = (l + ir) div 2"
proof -
  assume "l + ir < 2 ^ 31"
  then have "int (l + ir) < int (2 ^ 31)" by (simp only: of_nat_less_iff)
  then have "signed_take_bit 31 (int l + int ir) = int l + int ir"
    by (intro signed_take_bit_int_eq_self) simp_all
  moreover have "sint (word_of_int x :: 32 word) = signed_take_bit 31 x" for x
    by (simp only: signed_of_int) simp
  ultimately have "int_mid l ir = nat ((int l + int ir) div 2)" by (simp only: int_mid_def)
  also have "(int l + int ir) div 2 = int ((l + ir) div 2)" by (simp add: zdiv_int)
  finally show ?thesis by simp
qed

lemma partition_ids_spec:
  assumes "l + 8 \<le> ir" "Suc ir < length ids" "ir < 2 ^ 30"
  shows "\<exists>ids' i j a. partition_ids ids l ir = Some (ids', i, j) \<and> seg_perm l ir ids ids'
    \<and> l < j \<and> j < i \<and> i \<le> ir
    \<and> (\<forall>p. l \<le> p \<and> p < i \<longrightarrow> a \<le> ids' ! Suc p) \<and> (\<forall>p. j \<le> p \<and> p \<le> ir \<longrightarrow> ids' ! Suc p \<le> a)"
proof -
  define k where "k = (l + ir) div 2"
  have "l + ir < 2 ^ 31" using assms(1,3) by simp
  then have k: "int_mid l ir = k" by (simp add: k_def int_mid_small)
  have kb: "l \<le> k" "k \<le> ir" using assms(1) by (auto simp: k_def)
  obtain m1 where m1: "midl_swap ids k (l + 1) = Some m1" "seg_perm l ir ids m1"
    using midl_swap_perm [of k ids "l + 1" l ir] assms kb by auto
  have l1: "Suc ir < length m1" using assms(2) seg_perm_length [OF m1(2)] by simp
  obtain m2 where m2: "swap_if_less m1 l ir = Some m2" "seg_perm l ir m1 m2" "m2 ! Suc ir \<le> m2 ! Suc l"
    using swap_if_less_perm [of l m1 ir l ir] assms(1) l1 by auto
  have l2: "Suc ir < length m2" using l1 seg_perm_length [OF m2(2)] by simp
  obtain m3 where m3: "swap_if_less m2 (l + 1) ir = Some m3" "seg_perm l ir m2 m3"
    "m3 ! Suc ir \<le> m3 ! Suc (Suc l)" "m3 ! Suc l = m2 ! Suc l"
    "m3 ! Suc ir \<le> m2 ! Suc ir"
    using swap_if_less_perm [of "l + 1" m2 ir l ir] assms(1) l2 by (auto simp: less_imp_le)
  have l3: "Suc ir < length m3" using l2 seg_perm_length [OF m3(2)] by simp
  obtain m4 where m4: "swap_if_less m3 l (l + 1) = Some m4" "seg_perm l ir m3 m4"
    "m4 ! Suc (Suc l) \<le> m4 ! Suc l" "m4 ! Suc ir = m3 ! Suc ir"
    "m4 ! Suc (Suc l) = m3 ! Suc l \<or> m4 ! Suc (Suc l) = m3 ! Suc (Suc l)"
    using swap_if_less_perm [of l m3 "l + 1" l ir] assms(1) l3 by auto
  have l4: "Suc ir < length m4" using l3 seg_perm_length [OF m4(2)] by simp
  let ?a = "m4 ! Suc (Suc l)"
  have rd: "ids_rd m4 (l + 1) = Some ?a" using assms(1) l4 by (simp add: ids_rd_def rd_in)
  have "?a \<le> m4 ! Suc p" if "l \<le> p" "p \<le> l + 1" for p
    using m4(3) that by (cases "p = l") (auto simp: le_Suc_eq)
  moreover have "m4 ! Suc ir \<le> ?a" using m4(4,5) m3(3-5) m2(3) by auto
  ultimately have "parted m4 ?a l (l + 1) ir ir" by (auto simp: parted_def)
  then obtain m5 i j where m5: "part_loop m4 ?a (l + 1) ir = Some (m5, i, j)" "seg_perm l ir m4 m5"
    "l < j" "j < i" "i \<le> ir" and pt: "parted m5 ?a l (i - 1) (Suc j) ir"
    using part_loop_spec [OF l4, of ?a l "l + 1" ir] assms(1) by auto
  have l5: "Suc ir < length m5" using l4 seg_perm_length [OF m5(2)] by simp
  let ?m = "m5[Suc (Suc l) := m5 ! Suc j, Suc j := ?a]"
  have a5: "m5 ! Suc (Suc l) = ?a" using pt by (simp add: parted_def)
  have "mset ?m = mset m5"
    using mset_swap [of "Suc j" m5 "Suc (Suc l)"] l5 m5(3-5) assms(1) by (simp add: a5)
  then have p7: "seg_perm l ir m5 ?m" using m5(3-5) by (auto simp: seg_perm_def nth_list_update)
  have w: "ids_rd m5 j = Some (m5 ! Suc j)" "ids_wr m5 (l + 1) (m5 ! Suc j) = Some (m5[Suc (Suc l) := m5 ! Suc j])"
    "ids_wr (m5[Suc (Suc l) := m5 ! Suc j]) j ?a = Some ?m"
    using l5 m5(3-5) assms(1) by (simp_all add: ids_rd_def ids_wr_def rd_in wr_in)
  have "partition_ids ids l ir = Some (?m, i, j)"
    by (simp add: partition_ids_def k m1(1) m2(1) m3(1) m4(1) m5(1) rd w Let_def
        del: One_nat_def add_Suc_right add_0_right flip: One_nat_def)
  moreover have "seg_perm l ir ids ?m"
    by (rule seg_perm_trans [OF m1(2) seg_perm_trans [OF m2(2) seg_perm_trans [OF m3(2)
        seg_perm_trans [OF m4(2) seg_perm_trans [OF m5(2) p7]]]]])
  moreover have "?a \<le> ?m ! Suc p" if "l \<le> p" "p < i" for p
    using pt that m5(3-5) l5 by (auto simp: parted_def nth_list_update)
  moreover have "?m ! Suc p \<le> ?a" if "j \<le> p" "p \<le> ir" for p
    using pt that m5(3-5) l5 by (auto simp: parted_def nth_list_update)
  ultimately show ?thesis using m5(3-5) by blast
qed

section \<open>The outer loop\<close>

type_synonym segment = "nat \<times> nat"

text \<open>The pending segments, the current one first: they do not overlap, and two positions in the wrong
  order lie in one of them.\<close>

definition pending :: "nat \<Rightarrow> segment list \<Rightarrow> idl \<Rightarrow> bool" where
  "pending n P ids \<longleftrightarrow>
     (\<forall>(l, r) \<in> set P. 1 \<le> l \<and> r \<le> n)
     \<and> sorted_wrt (\<lambda>(l, r) (l', r'). r < l' \<or> r' < l) P
     \<and> (\<forall>p q. 1 \<le> p \<and> p < q \<and> q \<le> n \<longrightarrow>
          ids ! Suc q \<le> ids ! Suc p \<or> (\<exists>(l, r) \<in> set P. l \<le> p \<and> q \<le> r))"

lemma pending_order:
  "pending n P ids \<Longrightarrow> 1 \<le> p \<Longrightarrow> p < q \<Longrightarrow> q \<le> n \<Longrightarrow>
   ids ! Suc q \<le> ids ! Suc p \<or> (\<exists>(l, r) \<in> set P. l \<le> p \<and> q \<le> r)"
  by (simp add: pending_def)

lemma pending_bounds: "pending n ((l, r) # P) ids \<Longrightarrow> 1 \<le> l \<and> r \<le> n"
  by (simp add: pending_def)

lemma pending_disjoint:
  "pending n ((l, r) # P) ids \<Longrightarrow> (l', r') \<in> set P \<Longrightarrow> r < l' \<or> r' < l"
  by (auto simp: pending_def)

text \<open>Between the current segment and the positions outside it the order is right.\<close>

lemma pending_cut:
  assumes P: "pending n ((l, r) # P) ids" and "1 \<le> p" "p < q" "q \<le> n"
    and "p < l \<and> l \<le> q \<and> q \<le> r \<or> l \<le> p \<and> p \<le> r \<and> r < q"
  shows "ids ! Suc q \<le> ids ! Suc p"
  using pending_order [OF assms(1-4)] pending_disjoint [OF P] assms(5) by fastforce

lemma pending_perm:
  assumes P: "pending n ((l, r) # P) ids" and "seg_perm l r ids ids'" "Suc n < length ids"
  shows "pending n ((l, r) # P) ids'"
  unfolding pending_def
proof (intro conjI allI impI; (elim conjE)?)
  show "\<forall>(l, r) \<in> set ((l, r) # P). 1 \<le> l \<and> r \<le> n"
    and "sorted_wrt (\<lambda>(l, r) (l', r'). r < l' \<or> r' < l) ((l, r) # P)"
    using P by (simp_all add: pending_def)
  fix p q assume pq: "1 \<le> p" "p < q" "q \<le> n"
  have rn: "Suc r < length ids" using pending_bounds [OF P] assms(3) by simp
  have out: "ids' ! Suc k = ids ! Suc k" if "k < l \<or> r < k" "k \<le> n" for k
    using seg_perm_outside [OF assms(2)] that assms(3) by simp
  have ins: "\<exists>k'. l \<le> k' \<and> k' \<le> r \<and> ids' ! Suc k = ids ! Suc k'" if "l \<le> k" "k \<le> r" for k
    by (rule seg_perm_inside [OF assms(2) rn that])
  consider "l \<le> p" "q \<le> r" | "p < l" "l \<le> q" "q \<le> r" | "l \<le> p" "p \<le> r" "r < q"
    | "p < l \<or> r < p" "q < l \<or> r < q" by linarith
  then show "ids' ! Suc q \<le> ids' ! Suc p \<or> (\<exists>(l, r) \<in> set ((l, r) # P). l \<le> p \<and> q \<le> r)"
  proof cases
    case 1
    then show ?thesis by auto
  next
    case 2
    then obtain k where "l \<le> k" "k \<le> r" "ids' ! Suc q = ids ! Suc k" using ins by blast
    then show ?thesis
      using pending_cut [OF P pq(1), of k] out [of p] 2 pq pending_bounds [OF P] by auto
  next
    case 3
    then obtain k where "l \<le> k" "k \<le> r" "ids' ! Suc p = ids ! Suc k" using ins by blast
    then show ?thesis
      using pending_cut [OF P, of k q] out [of q] 3 pq pending_bounds [OF P] by auto
  next
    case 4
    then show ?thesis using pending_order [OF P pq] out [of p] out [of q] pq by auto
  qed
qed

lemma pending_sorted:
  assumes P: "pending n ((l, r) # P) ids" and "seg_desc ids l r"
  shows "pending n P ids"
proof -
  have "ids ! Suc q \<le> ids ! Suc p \<or> (\<exists>(l, r) \<in> set P. l \<le> p \<and> q \<le> r)"
    if "1 \<le> p" "p < q" "q \<le> n" for p q
    using pending_order [OF P that] assms(2) that(2) by (auto simp: seg_desc_def)
  with P show ?thesis by (simp add: pending_def)
qed

lemma pending_split:
  assumes P: "pending n ((l, r) # P) ids" and "l < j" "j < i" "i \<le> r"
    and lo: "\<And>p. l \<le> p \<Longrightarrow> p < i \<Longrightarrow> a \<le> ids ! Suc p"
    and hi: "\<And>p. j \<le> p \<Longrightarrow> p \<le> r \<Longrightarrow> ids ! Suc p \<le> a"
  shows "pending n ((l, j - 1) # (i, r) # P) ids" and "pending n ((i, r) # (l, j - 1) # P) ids"
proof -
  have ord: "ids ! Suc q \<le> ids ! Suc p \<or> (\<exists>(l, r) \<in> set ((l, j - 1) # (i, r) # P). l \<le> p \<and> q \<le> r)"
    if pq: "1 \<le> p" "p < q" "q \<le> n" for p q
  proof -
    consider "ids ! Suc q \<le> ids ! Suc p" | "l \<le> p" "q \<le> r" | "\<exists>(l, r) \<in> set P. l \<le> p \<and> q \<le> r"
      using pending_order [OF P pq] by auto
    then show ?thesis
    proof cases
      case 2
      consider "q \<le> j - 1" | "i \<le> p" | "p < i" "j \<le> q" using assms(2,3) by linarith
      then show ?thesis
        using 2 lo [of p] hi [of q] order_trans by cases auto
    qed auto
  qed
  have b: "1 \<le> l" "r \<le> n" using pending_bounds [OF P] by auto
  show "pending n ((l, j - 1) # (i, r) # P) ids"
    using P ord b assms(2-4) by (auto simp: pending_def)
  show "pending n ((i, r) # (l, j - 1) # P) ids"
    using P ord b assms(2-4) by (auto simp: pending_def)
qed

text \<open>The array \<open>istack\<close> holds the pending segments but the current one, two cells each from index 1
  on. A segment at level \<open>d\<close> has at most \<open>n / 2 ^ (d - 1)\<close> positions.\<close>

fun stacked :: "nat list \<Rightarrow> segment list \<Rightarrow> bool" where
  "stacked istack [] \<longleftrightarrow> True"
| "stacked istack ((l, r) # P) \<longleftrightarrow>
     istack ! (2 * length P + 2) = r \<and> istack ! (2 * length P + 1) = l \<and> stacked istack P"

fun halving :: "nat \<Rightarrow> segment list \<Rightarrow> bool" where
  "halving n [] \<longleftrightarrow> True"
| "halving n ((l, r) # P) \<longleftrightarrow> (r + 1 - l) * 2 ^ length P \<le> n \<and> halving n P"

lemma stacked_update: "stacked istack P \<Longrightarrow> 2 * length P < k \<Longrightarrow> stacked (istack[k := v]) P"
  by (induction P) auto

definition work :: "segment list \<Rightarrow> nat" where
  "work P = (\<Sum>(l, r) \<leftarrow> P. 2 * (r + 1 - l) + 1)"

lemma work_Cons [simp]: "work ((l, r) # P) = 2 * (r + 1 - l) + 1 + work P"
  by (simp add: work_def)

lemma sort_loop_sorts:
  "pending n ((l, ir) # P) ids \<Longrightarrow> stacked istack P \<Longrightarrow> halving n ((l, ir) # P) \<Longrightarrow>
   length istack = 64 \<Longrightarrow> n < 2 ^ 30 \<Longrightarrow> Suc n < length ids \<Longrightarrow> length P \<le> 30 \<Longrightarrow>
   \<exists>ids'. sort_loop ids l ir istack (2 * length P) = Some ids' \<and> seg_perm 1 n ids ids'
     \<and> seg_desc ids' 1 n"
proof (induction "work ((l, ir) # P)" arbitrary: ids l ir P istack rule: less_induct)
  case less
  note pend = less.prems(1)
  have b: "1 \<le> l" "ir \<le> n" "Suc ir < length ids"
    using pending_bounds [OF pend] less.prems(6) by auto
  show ?case
  proof (cases "int ir - int l < 8")
    case small: True
    have "\<exists>ids1. ins_loop ids (l + 1) ir = Some ids1 \<and> seg_perm l ir ids ids1 \<and> seg_desc ids1 l ir"
    proof (cases "l \<le> ir")
      case True
      have "ids ! Suc q \<le> ids ! Suc p" if "1 \<le> p" "p < l" "l \<le> q" "q \<le> ir" for p q
        using pending_cut [OF pend, of p q] that b(2) by simp
      moreover have "seg_desc ids l (l + 1 - 1)" by (auto simp: seg_desc_def)
      ultimately show ?thesis using True by (intro ins_loop_sorts [OF b(1,3)]) auto
    next
      case False
      then show ?thesis by (intro exI [of _ ids]) (auto simp: ins_loop.simps seg_desc_def)
    qed
    then obtain ids1 where i: "ins_loop ids (l + 1) ir = Some ids1" "seg_perm l ir ids ids1"
      "seg_desc ids1 l ir" by blast
    have P1: "pending n P ids1"
      by (rule pending_sorted [OF pending_perm [OF pend i(2) less.prems(6)] i(3)])
    have s1: "seg_perm 1 n ids ids1" by (rule seg_perm_mono [OF i(2) b(1,2)])
    show ?thesis
    proof (cases P)
      case Nil
      have "seg_desc ids1 1 n"
        unfolding seg_desc_def using pending_order [OF P1] Nil by auto
      then show ?thesis
        using small i(1) Nil s1 by (subst sort_loop.simps) simp
    next
      case (Cons seg Q)
      obtain l' r' where seg: "seg = (l', r')" by fastforce
      have st: "istack ! (2 * length Q + 2) = r'" "istack ! (2 * length Q + 1) = l'" "stacked istack Q"
        using less.prems(2) Cons seg by simp_all
      have h: "halving n ((l', r') # Q)" using less.prems(3) Cons seg by simp
      have lq: "2 * length Q + 2 < 64" using less.prems(7) Cons by simp
      have "sort_loop ids l ir istack (2 * length P) = sort_loop ids1 l' r' istack (2 * length Q)"
        using small i(1) Cons st lq less.prems(4)
        by (subst sort_loop.simps) (simp add: rd_in)
      moreover have "work ((l', r') # Q) < work ((l, ir) # P)" using Cons seg by simp
      ultimately show ?thesis
        using less.hyps [OF _ P1 [unfolded Cons seg] st(3) h less.prems(4,5)] less.prems(6,7) Cons
          seg_perm_length [OF s1] seg_perm_trans [OF s1] by auto
    qed
  next
    case big: False
    then have l8: "l + 8 \<le> ir" by linarith
    obtain ids1 i j a where pt: "partition_ids ids l ir = Some (ids1, i, j)" "seg_perm l ir ids ids1"
      "l < j" "j < i" "i \<le> ir"
      "\<And>p. l \<le> p \<Longrightarrow> p < i \<Longrightarrow> a \<le> ids1 ! Suc p" "\<And>p. j \<le> p \<Longrightarrow> p \<le> ir \<Longrightarrow> ids1 ! Suc p \<le> a"
      using partition_ids_spec [OF l8 b(3) le_less_trans [OF b(2) less.prems(5)]] by meson
    have pend1: "pending n ((l, ir) # P) ids1" by (rule pending_perm [OF pend pt(2) less.prems(6)])
    note halves = pending_split [OF pend1 pt(3-7)]
    have s1: "seg_perm 1 n ids ids1" by (rule seg_perm_mono [OF pt(2) b(1,2)])
    have len1: "Suc n < length ids1" using less.prems(6) seg_perm_length [OF s1] by simp
    have size: "(ir + 1 - l) * 2 ^ length P \<le> n" using less.prems(3) by simp
    have "2 ^ length P \<le> (ir + 1 - l) * 2 ^ length P" using l8 by simp
    then have "(2 :: nat) ^ length P < 2 ^ 30" using size less.prems(5) by linarith
    then have dep: "length P < 30" by (rule power_less_imp_less_exp [rotated]) simp
    have half: "halving n ((l1, r1) # (l2, r2) # P)"
      if "r1 + 1 - l1 \<le> r2 + 1 - l2" "(r1 + 1 - l1) + (r2 + 1 - l2) \<le> ir + 1 - l" for l1 r1 l2 r2
    proof -
      have "2 * (r1 + 1 - l1) \<le> ir + 1 - l" "r2 + 1 - l2 \<le> ir + 1 - l" using that by linarith+
      then have "2 * (r1 + 1 - l1) * 2 ^ length P \<le> n" "(r2 + 1 - l2) * 2 ^ length P \<le> n"
        by (blast intro: order_trans [OF mult_le_mono1 size])+
      then show ?thesis using less.prems(3) by (simp add: ac_simps)
    qed
    show ?thesis
    proof (cases "int j - int l \<le> int ir - int i + 1")
      case True
      let ?s = "istack[2 * length P + 2 := ir, 2 * length P + 1 := i]"
      have "sort_loop ids l ir istack (2 * length P) = sort_loop ids1 l (j - 1) ?s (2 * length ((i, ir) # P))"
        using big True pt(1) dep less.prems(4) by (subst sort_loop.simps) (simp add: wr_in Let_def)
      moreover have hv: "halving n ((l, j - 1) # (i, ir) # P)" using True pt(3-5) by (intro half) auto
      have st: "stacked ?s ((i, ir) # P)"
        using less.prems(2,4) dep by (simp add: stacked_update)
      have wk: "work ((l, j - 1) # (i, ir) # P) < work ((l, ir) # P)" using pt(3-5) by simp
      have "\<exists>ids'. sort_loop ids1 l (j - 1) ?s (2 * length ((i, ir) # P)) = Some ids'
          \<and> seg_perm 1 n ids1 ids' \<and> seg_desc ids' 1 n"
        by (rule less.hyps [OF wk halves(1) st hv]) (use less.prems(4,5) len1 dep in simp_all)
      ultimately show ?thesis using seg_perm_trans [OF s1] by metis
    next
      case False
      let ?s = "istack[2 * length P + 2 := j - 1, 2 * length P + 1 := l]"
      have "sort_loop ids l ir istack (2 * length P) = sort_loop ids1 i ir ?s (2 * length ((l, j - 1) # P))"
        using big False pt(1) dep less.prems(4) by (subst sort_loop.simps) (simp add: wr_in Let_def)
      moreover have hv: "halving n ((i, ir) # (l, j - 1) # P)" using False pt(3-5) by (intro half) auto
      have st: "stacked ?s ((l, j - 1) # P)"
        using less.prems(2,4) dep by (simp add: stacked_update)
      have wk: "work ((i, ir) # (l, j - 1) # P) < work ((l, ir) # P)" using pt(3-5) by simp
      have "\<exists>ids'. sort_loop ids1 i ir ?s (2 * length ((l, j - 1) # P)) = Some ids'
          \<and> seg_perm 1 n ids1 ids' \<and> seg_desc ids' 1 n"
        by (rule less.hyps [OF wk halves(2) st hv]) (use less.prems(4,5) len1 dep in simp_all)
      ultimately show ?thesis using seg_perm_trans [OF s1] by metis
    qed
  qed
qed

section \<open>Properties\<close>

text \<open>C19: \<open>mdb_midl_sort\<close> ends, stays inside the list and inside its array of 64 stack cells, and leaves
  the same IDs in descending order, for every list of fewer than \<open>2 ^ 30\<close> IDs (where the \<open>int\<close> sum of
  two positions cannot overflow). The list can then be searched.\<close>

theorem mdb_midl_sort_correct:
  assumes "idl_wf ids" "idl_cnt ids < 2 ^ 30"
  shows "\<exists>ids'. mdb_midl_sort stk ids = Some ids' \<and> idl_wf ids' \<and> idl_sorted ids'
    \<and> mset (idl_items ids') = mset (idl_items ids) \<and> idl_cap ids' = idl_cap ids"
proof -
  let ?n = "idl_cnt ids"
  have len: "2 \<le> length ids" "Suc ?n < length ids" using assms(1) by (auto simp: idl_wf_def)
  have c: "unat (ids ! 1) = ?n" by (simp add: idl_cnt_def)
  have "unat (u32_of_u64 (ids ! 1)) = ?n" using assms(2) c by (subst unat_u32_of_u64) simp_all
  then have n: "nat (sint (u32_of_u64 (ids ! 1))) = ?n"
    using sint_small [of "u32_of_u64 (ids ! 1)"] assms(2) by simp
  have "pending ?n ((1, ?n) # []) ids" by (auto simp: pending_def)
  from sort_loop_sorts [OF this, of "map stk [0..<64]"] obtain ids' where
    r: "sort_loop ids 1 ?n (map stk [0..<64]) 0 = Some ids'" "seg_perm 1 ?n ids ids'" "seg_desc ids' 1 ?n"
    using assms(2) len by (auto simp del: upt_rec_numeral)
  have "0 < length ids" using len by linarith
  then have z: "ids' ! 0 = ids ! 0" "ids' ! 1 = ids ! 1" "length ids' = length ids"
    using r(2) len by (auto simp: seg_perm_def intro: less_trans)
  then have cc: "idl_cap ids' = idl_cap ids" "idl_cnt ids' = ?n"
    by (simp_all add: idl_cap_def idl_cnt_def)
  then have wf: "idl_wf ids'" using assms(1) z by (simp add: idl_wf_def)
  have "mset (idl_items ids') = mset (idl_items ids)"
    using seg_perm_middle [OF r(2)] cc by (simp add: idl_items_def numeral_2_eq_2)
  moreover have "sorted_wrt (\<ge>) (idl_items ids')"
    unfolding sorted_wrt_iff_nth_less
    using r(3) by (auto simp: idl_wf_length [OF wf] cc idl_items_nth [OF wf] seg_desc_def)
  moreover have "mdb_midl_sort stk ids = Some ids'"
    using r(1) n by (simp add: mdb_midl_sort_def idl_rd(2) [OF assms(1)] del: upt_rec_numeral)
  ultimately show ?thesis using wf cc assms(2) by (simp add: idl_sorted_def)
qed

theorem mdb_midl_sort_correct_witness:
  "\<exists>ids'. mdb_midl_sort (\<lambda>_. 0) [4, 4, 3, 9, 1, 9] = Some ids' \<and> sorted_wrt (\<ge>) (idl_items ids')
     \<and> mset (idl_items ids') = {#1, 3, 9, 9#}"
proof -
  have "idl_wf [4, 4, 3, 9, 1, 9]" "idl_cnt [4, 4, 3, 9, 1, 9] = 4" "idl_items [4, 4, 3, 9, 1, 9] = [3, 9, 1, 9]"
    by (simp_all add: idl_wf_def idl_cnt_def idl_cap_def idl_items_def)
  then show ?thesis
    using mdb_midl_sort_correct [of "[4, 4, 3, 9, 1, 9]" "\<lambda>_. 0"] 
    by (auto simp: idl_sorted_def add_mset_commute)
qed

end
