(* ===== verification/Mid2l.thy ===== *)
theory Mid2l
  imports Midl
begin

text \<open>
  \<open>lmdb/midl.c\<close>, the lists of ID and pointer pairs (\<open>MDB_ID2L\<close>) in which a write transaction keeps
  its dirty pages, and \<open>mdb_pid_insert\<close> of \<open>lmdb/mdb.c\<close>, which keeps the process IDs already seen by
  the reader check the same way. Element 0 holds the count, the elements from 1 on are in ascending
  order. Both use the binary search of \<open>Midl\<close> and the shifting loop defined here.
\<close>

section \<open>The code\<close>

text \<open>The loop \<open>for (i = ...; i > x; i--) ids[i] = ids[i-1]\<close>.\<close>

function arr_shift :: "'a list \<Rightarrow> nat \<Rightarrow> nat \<Rightarrow> 'a list option" where
  "arr_shift ids x i =
     (if x < i
      then case rd ids (i - 1) of
             None \<Rightarrow> None
           | Some v \<Rightarrow> (case wr ids i v of None \<Rightarrow> None | Some ids \<Rightarrow> arr_shift ids x (i - 1))
      else Some ids)"
  by pat_completeness auto
termination by (relation "measure (\<lambda>(ids, x, i). i)") auto

declare arr_shift.simps [simp del]

text \<open>\<open>struct MDB_ID2\<close>; a pointer is its address.\<close>

record id2 =
  mid :: u64
  mptr :: u64

type_synonym id2l = "id2 list"

definition mdb_mid2l_search :: "id2l \<Rightarrow> u64 \<Rightarrow> nat option" where
  "mdb_mid2l_search ids ident =
     do { h \<leftarrow> rd ids 0;
          bs_search (\<lambda>cursor. map_option (\<lambda>e. CMP ident (mid e)) (rd ids cursor))
            (unat (u32_of_u64 (mid h))) }"

definition mdb_mid2l_insert :: "id2l \<Rightarrow> id2 \<Rightarrow> (int \<times> id2l) option" where
  "mdb_mid2l_insert ids e =
     do { x \<leftarrow> mdb_mid2l_search ids (mid e);
          h \<leftarrow> rd ids 0;
          dup \<leftarrow> (if x \<le> unat (mid h) then map_option (\<lambda>e'. mid e' = mid e) (rd ids x) else Some False);
          if x < 1 then Some (-2, ids)
          else if dup then Some (-1, ids)
          else if of_nat MDB_IDL_UM_MAX \<le> mid h then Some (-2, ids)
          else do { ids \<leftarrow> wr ids 0 (h\<lparr>mid := mid h + 1\<rparr>);
                    ids \<leftarrow> arr_shift ids x (unat (u32_of_u64 (mid h + 1)));
                    ids \<leftarrow> wr ids x e;
                    Some (0, ids) } }"

definition mdb_mid2l_append :: "id2l \<Rightarrow> id2 \<Rightarrow> (int \<times> id2l) option" where
  "mdb_mid2l_append ids e =
     do { h \<leftarrow> rd ids 0;
          if of_nat MDB_IDL_UM_MAX \<le> mid h then Some (-2, ids)
          else do { ids \<leftarrow> wr ids 0 (h\<lparr>mid := mid h + 1\<rparr>);
                    h \<leftarrow> rd ids 0;
                    ids \<leftarrow> wr ids (unat (mid h)) e;
                    Some (0, ids) } }"

text \<open>\<open>mdb_pid_insert\<close>. A process ID is an \<open>int\<close> (\<open>MDB_PID_T\<close> on Windows) and the comparison is the
  difference, undefined when it overflows.\<close>

definition int_sub :: "u32 \<Rightarrow> u32 \<Rightarrow> int option" where
  "int_sub x y = (let d = sint x - sint y in if - (2 ^ 31) \<le> d \<and> d < 2 ^ 31 then Some d else None)"

definition mdb_pid_insert :: "u32 list \<Rightarrow> u32 \<Rightarrow> (int \<times> u32 list) option" where
  "mdb_pid_insert ids pid =
     do { n \<leftarrow> rd ids 0;
          (cursor, val) \<leftarrow> bs_loop (\<lambda>cursor. Option.bind (rd ids cursor) (int_sub pid)) 0 1 0 (unat n);
          if 0 < n \<and> val = 0 then Some (-1, ids)
          else do { let cursor = (if 0 < val then uadd cursor 1 else cursor);
                    ids \<leftarrow> wr ids 0 (n + 1);
                    let n = unat (n + 1);
                    ids \<leftarrow> arr_shift ids cursor n;
                    ids \<leftarrow> wr ids (if cursor < n then cursor else n) pid;
                    Some (0, ids) } }"

section \<open>Shifting\<close>

text \<open>The elements of such an array: as many as \<open>n\<close>, from index 1 on.\<close>

definition arr_items :: "nat \<Rightarrow> 'a list \<Rightarrow> 'a list" where
  "arr_items n ids = take n (drop 1 ids)"

lemma arr_items_length: "n < length ids \<Longrightarrow> length (arr_items n ids) = n"
  by (simp add: arr_items_def)

lemma arr_items_nth: "n < length ids \<Longrightarrow> k < n \<Longrightarrow> arr_items n ids ! k = ids ! (k + 1)"
  by (simp add: arr_items_def)

lemma arr_items_rd: "n < length ids \<Longrightarrow> 1 \<le> k \<Longrightarrow> k \<le> n \<Longrightarrow> rd ids k = Some (arr_items n ids ! (k - 1))"
  by (simp add: arr_items_nth rd_in)

lemma arr_items_update_0: "arr_items n (ids[0 := v]) = arr_items n ids"
  by (cases ids) (simp_all add: arr_items_def)

lemma arr_shift_spec:
  "i < length ids \<Longrightarrow> \<exists>ids'. arr_shift ids x i = Some ids' \<and> length ids' = length ids
     \<and> (\<forall>k. k < length ids \<longrightarrow> ids' ! k = (if x < k \<and> k \<le> i then ids ! (k - 1) else ids ! k))"
proof (induction i arbitrary: ids)
  case 0
  then show ?case by (simp add: arr_shift.simps)
next
  case (Suc i)
  show ?case
  proof (cases "x < Suc i")
    case True
    then have s: "arr_shift ids x (Suc i) = arr_shift (ids[Suc i := ids ! i]) x i"
      using Suc.prems by (subst arr_shift.simps) (simp add: rd_in wr_in)
    obtain ids' where "arr_shift (ids[Suc i := ids ! i]) x i = Some ids'" "length ids' = length ids"
      "\<And>k. k < length ids \<Longrightarrow> ids' ! k = (if x < k \<and> k \<le> i
         then ids[Suc i := ids ! i] ! (k - 1) else ids[Suc i := ids ! i] ! k)"
      using Suc.IH [of "ids[Suc i := ids ! i]"] Suc.prems by auto
    then show ?thesis
      using True Suc.prems unfolding s by (intro exI [of _ ids']) (auto simp: nth_list_update le_Suc_eq)
  next
    case False
    then show ?thesis using Suc.prems by (subst arr_shift.simps) auto
  qed
qed

lemma arr_insert:
  assumes "1 \<le> x" "x \<le> n + 1" "n + 1 < length ids"
  obtains ids' where "arr_shift ids x (n + 1) = Some ids'" "length ids' = length ids"
    "ids' ! 0 = ids ! 0"
    "arr_items (n + 1) (ids'[x := v])
      = take (x - 1) (arr_items n ids) @ v # drop (x - 1) (arr_items n ids)"
proof -
  obtain ids' where i: "arr_shift ids x (n + 1) = Some ids'" "length ids' = length ids"
    "\<And>k. k < length ids \<Longrightarrow> ids' ! k = (if x < k \<and> k \<le> n + 1 then ids ! (k - 1) else ids ! k)"
    using arr_shift_spec [OF assms(3), of x] by auto
  have "arr_items (n + 1) (ids'[x := v])
      = take (x - 1) (arr_items n ids) @ v # drop (x - 1) (arr_items n ids)" (is "?l = ?r")
  proof (rule nth_equalityI)
    show "length ?l = length ?r" using assms i(2) by (simp add: arr_items_def)
    fix k assume "k < length ?l"
    then have k: "k < n + 1" using assms(3) i(2) by (simp add: arr_items_def)
    have "?l ! k = (if k + 1 = x then v else ids' ! (k + 1))"
      using k assms(3) i(2) by (simp add: arr_items_def)
    also have "\<dots> = ?r ! k"
      using k assms i(3) [of "k + 1"] by (auto simp: arr_items_def nth_append nth_Cons')
    finally show "?l ! k = ?r ! k" .
  qed
  then show ?thesis using that i assms by (metis add_gr_0 less_trans not_less_zero zero_less_one)
qed


section \<open>The list as a finite map\<close>

definition id2_cnt :: "id2l \<Rightarrow> nat" where "id2_cnt ids = unat (mid (ids ! 0))"

definition id2_items :: "id2l \<Rightarrow> id2 list" where "id2_items ids = arr_items (id2_cnt ids) ids"

text \<open>A list as the environment allocates it: room for \<open>MDB_IDL_UM_MAX\<close> elements besides the head, and
  IDs in strictly ascending order.\<close>

definition id2_wf :: "id2l \<Rightarrow> bool" where
  "id2_wf ids \<longleftrightarrow> id2_cnt ids \<le> MDB_IDL_UM_MAX \<and> MDB_IDL_UM_MAX < length ids"

definition id2_sorted :: "id2l \<Rightarrow> bool" where
  "id2_sorted ids \<longleftrightarrow> id2_wf ids \<and> sorted_wrt (<) (map mid (id2_items ids))"

definition id2_map :: "id2l \<Rightarrow> u64 \<rightharpoonup> u64" where
  "id2_map ids = map_of (map (\<lambda>e. (mid e, mptr e)) (id2_items ids))"

lemma id2_wf_lt: "id2_wf ids \<Longrightarrow> id2_cnt ids < length ids"
  by (simp add: id2_wf_def)

lemma id2_items_length: "id2_wf ids \<Longrightarrow> length (id2_items ids) = id2_cnt ids"
  by (simp add: id2_items_def arr_items_length id2_wf_lt)

lemma id2_items_rd:
  "id2_wf ids \<Longrightarrow> 1 \<le> k \<Longrightarrow> k \<le> id2_cnt ids \<Longrightarrow> rd ids k = Some (id2_items ids ! (k - 1))"
  by (simp add: id2_items_def arr_items_rd [OF id2_wf_lt])

lemma id2_head: "id2_wf ids \<Longrightarrow> rd ids 0 = Some (ids ! 0)"
  using id2_wf_lt [of ids] by (intro rd_in) linarith

lemma id2_cnt_small: "id2_wf ids \<Longrightarrow> id2_cnt ids < 2 ^ 17"
  by (simp add: id2_wf_def MDB_IDL_UM_MAX_def)

interpretation mid2l: ordered_table id2_sorted
  "\<lambda>ids ident cursor. map_option (\<lambda>e. CMP ident (mid e)) (rd ids cursor)"
  "\<lambda>ids ident i. CMP ident (mid (id2_items ids ! (i - 1)))" id2_cnt
proof
  fix ids :: id2l and ident :: u64 and i j :: nat
  assume ok: "id2_sorted ids"
  then show "id2_cnt ids + 1 < 2 ^ 32" using id2_cnt_small [of ids] by (simp add: id2_sorted_def)
  show "1 \<le> i \<Longrightarrow> i \<le> id2_cnt ids \<Longrightarrow> map_option (\<lambda>e. CMP ident (mid e)) (rd ids i)
      = Some (CMP ident (mid (id2_items ids ! (i - 1))))"
    using ok by (simp add: id2_sorted_def id2_items_rd)
  assume "1 \<le> i" "i < j" "j \<le> id2_cnt ids"
  then have "mid (id2_items ids ! (i - 1)) < mid (id2_items ids ! (j - 1))"
    using ok sorted_wrt_nth_less [of "(<)" "map mid (id2_items ids)" "i - 1" "j - 1"]
    by (simp add: id2_sorted_def id2_items_length)
  then show "0 < CMP ident (mid (id2_items ids ! (j - 1))) \<Longrightarrow> 0 < CMP ident (mid (id2_items ids ! (i - 1)))"
    and "CMP ident (mid (id2_items ids ! (i - 1))) < 0 \<Longrightarrow> CMP ident (mid (id2_items ids ! (j - 1))) < 0"
    by (simp_all add: CMP_cases)
qed

text \<open>The position that the search answers splits the list at the ID.\<close>

lemma id2_split:
  assumes "id2_sorted ids"
  obtains p where "mdb_mid2l_search ids k = Some p" "1 \<le> p" "p \<le> id2_cnt ids + 1"
    "p \<le> id2_cnt ids \<Longrightarrow> rd ids p = Some (id2_items ids ! (p - 1))"
    "p \<le> id2_cnt ids \<and> mid (id2_items ids ! (p - 1)) = k
     \<or> (\<forall>e \<in> set (take (p - 1) (id2_items ids)). mid e < k) \<and> (\<forall>e \<in> set (drop (p - 1) (id2_items ids)). k < mid e)"
proof -
  have wf: "id2_wf ids" using assms by (simp add: id2_sorted_def)
  have "unat (mid (ids ! 0)) < 2 ^ 32" using id2_cnt_small [OF wf] by (simp add: id2_cnt_def)
  then have u: "unat (u32_of_u64 (mid (ids ! 0))) = id2_cnt ids"
    by (simp add: unat_u32_of_u64 id2_cnt_def)
  obtain p where p: "mdb_mid2l_search ids k = Some p" "mid2l.found_at ids k p"
    using mid2l.bs_search_finds [OF assms, of k] by (auto simp: mdb_mid2l_search_def id2_head [OF wf] u)
  note fd = p(2) [unfolded mid2l.found_at_def]
  then have b: "1 \<le> p" "p \<le> id2_cnt ids + 1" by blast+
  have "p \<le> id2_cnt ids \<and> mid (id2_items ids ! (p - 1)) = k
     \<or> (\<forall>e \<in> set (take (p - 1) (id2_items ids)). mid e < k) \<and> (\<forall>e \<in> set (drop (p - 1) (id2_items ids)). k < mid e)"
  proof (cases "p \<le> id2_cnt ids \<and> mid (id2_items ids ! (p - 1)) = k")
    case False
    then have nf: "\<forall>i. 1 \<le> i \<and> i < p \<longrightarrow> 0 < CMP k (mid (id2_items ids ! (i - 1)))"
      "\<forall>i. p \<le> i \<and> i \<le> id2_cnt ids \<longrightarrow> CMP k (mid (id2_items ids ! (i - 1))) < 0"
      using fd by (auto simp: CMP_cases)
    have lo: "mid (id2_items ids ! (i - 1)) < k" if "1 \<le> i" "i < p" for i
      using nf(1) that by (simp add: CMP_cases)
    have hi: "k < mid (id2_items ids ! (i - 1))" if "p \<le> i" "i \<le> id2_cnt ids" for i
      using nf(2) that by (simp add: CMP_cases)
    have "mid e < k" if e: "e \<in> set (take (p - 1) (id2_items ids))" for e
    proof -
      obtain i where "i < p - 1" "e = id2_items ids ! i"
        using in_set_take [OF e] b id2_items_length [OF wf] by fastforce
      then show ?thesis using lo [of "i + 1"] by simp
    qed
    moreover have "k < mid e" if "e \<in> set (drop (p - 1) (id2_items ids))" for e
    proof -
      obtain i where "i < id2_cnt ids - (p - 1)" "e = id2_items ids ! (p - 1 + i)"
        using \<open>e \<in> _\<close> b by (auto simp: in_set_conv_nth id2_items_length [OF wf])
      then show ?thesis using hi [of "p + i"] b by (simp add: Suc_diff_le add.commute)
    qed
    ultimately show ?thesis by blast
  qed simp
  then show ?thesis using that p b id2_items_rd [OF wf b(1)] by blast
qed

text \<open>Looking a page number up in a dirty list, as \<open>mdb_page_get\<close> and others do.\<close>

definition mid2l_find :: "id2l \<Rightarrow> u64 \<Rightarrow> u64 option option" where
  "mid2l_find dl pgno =
     do { h \<leftarrow> rd dl 0;
          x \<leftarrow> mdb_mid2l_search dl pgno;
          if x \<le> unat (mid h)
          then do { e \<leftarrow> rd dl x; Some (if mid e = pgno then Some (mptr e) else None) }
          else Some None }"


lemma map_of_split:
  assumes "\<forall>e \<in> set xs. mid e < k" "\<forall>e \<in> set ys. k < mid (e :: id2)"
  shows "map_of (map (\<lambda>e. (mid e, mptr e)) (xs @ ys)) k = None"
  using assms by (force simp: map_of_eq_None_iff)

lemma mid2l_find_map:
  assumes "id2_sorted ids"
  shows "mid2l_find ids k = Some (id2_map ids k)"
proof -
  have wf: "id2_wf ids" using assms by (simp add: id2_sorted_def)
  obtain p where p: "mdb_mid2l_search ids k = Some p" "1 \<le> p" "p \<le> id2_cnt ids + 1"
    "p \<le> id2_cnt ids \<Longrightarrow> rd ids p = Some (id2_items ids ! (p - 1))"
    "p \<le> id2_cnt ids \<and> mid (id2_items ids ! (p - 1)) = k
     \<or> (\<forall>e \<in> set (take (p - 1) (id2_items ids)). mid e < k) \<and> (\<forall>e \<in> set (drop (p - 1) (id2_items ids)). k < mid e)"
    using id2_split [OF assms, of k] by blast
  have f: "mid2l_find ids k = Some (if p \<le> id2_cnt ids \<and> mid (id2_items ids ! (p - 1)) = k
      then Some (mptr (id2_items ids ! (p - 1))) else None)"
    using p(1,4) by (simp add: mid2l_find_def id2_head [OF wf] id2_cnt_def)
  show ?thesis
  proof (cases "p \<le> id2_cnt ids \<and> mid (id2_items ids ! (p - 1)) = k")
    case True
    let ?l = "map (\<lambda>e. (mid e, mptr e)) (id2_items ids)"
    have m: "map fst ?l = map mid (id2_items ids)" by simp
    have "sorted_wrt (<) (map mid (id2_items ids))" using assms by (simp add: id2_sorted_def)
    then have "distinct (map fst ?l)" unfolding m by (simp add: strict_sorted_iff)
    moreover have "(k, mptr (id2_items ids ! (p - 1))) \<in> set ?l"
      using True p(2) id2_items_length [OF wf] by (force simp: in_set_conv_nth)
    ultimately have "id2_map ids k = Some (mptr (id2_items ids ! (p - 1)))"
      unfolding id2_map_def by (rule map_of_is_SomeI)
    with True f show ?thesis by simp
  next
    case False
    then have "id2_map ids k = None"
      using p(5) map_of_split [of "take (p - 1) (id2_items ids)" k "drop (p - 1) (id2_items ids)"]
      by (simp add: id2_map_def) blast
    with False f show ?thesis by auto
  qed
qed

lemma map_of_insert:
  assumes "\<forall>e \<in> set xs. mid e < mid e'" "\<forall>e \<in> set ys. mid e' < mid (e :: id2)"
  shows "map_of (map (\<lambda>e. (mid e, mptr e)) (xs @ e' # ys))
    = (map_of (map (\<lambda>e. (mid e, mptr e)) (xs @ ys)))(mid e' \<mapsto> mptr e')"
proof -
  have "map_of (map (\<lambda>e. (mid e, mptr e)) xs) (mid e') = None"
    using map_of_split [of xs "mid e'" "[]"] assms by simp
  then show ?thesis by (auto simp: map_add_def fun_eq_iff split: option.splits)
qed

text \<open>The three outcomes of an insertion.\<close>

definition id2_inserted :: "id2l \<Rightarrow> id2 \<Rightarrow> (int \<times> id2l) option \<Rightarrow> bool" where
  "id2_inserted ids e r \<longleftrightarrow>
     r = Some (- 1, ids) \<and> mid e \<in> dom (id2_map ids)
     \<or> r = Some (- 2, ids) \<and> mid e \<notin> dom (id2_map ids) \<and> id2_cnt ids = MDB_IDL_UM_MAX
     \<or> (\<exists>ids'. r = Some (0, ids') \<and> mid e \<notin> dom (id2_map ids) \<and> id2_sorted ids'
          \<and> id2_map ids' = (id2_map ids)(mid e \<mapsto> mptr e) \<and> id2_cnt ids' = id2_cnt ids + 1)"

lemma mdb_mid2l_insert_inserted:
  assumes "id2_sorted ids"
  shows "id2_inserted ids e (mdb_mid2l_insert ids e)"
proof -
  have wf: "id2_wf ids" and st: "sorted_wrt (<) (map mid (id2_items ids))"
    using assms by (simp_all add: id2_sorted_def)
  let ?n = "id2_cnt ids"
  obtain p where p: "mdb_mid2l_search ids (mid e) = Some p" "1 \<le> p" "p \<le> ?n + 1"
    "p \<le> ?n \<Longrightarrow> rd ids p = Some (id2_items ids ! (p - 1))"
    "p \<le> ?n \<and> mid (id2_items ids ! (p - 1)) = mid e
     \<or> (\<forall>e' \<in> set (take (p - 1) (id2_items ids)). mid e' < mid e)
       \<and> (\<forall>e' \<in> set (drop (p - 1) (id2_items ids)). mid e < mid e')"
    using id2_split [OF assms, of "mid e"] by blast
  define dup where "dup \<longleftrightarrow> p \<le> ?n \<and> mid (id2_items ids ! (p - 1)) = mid e"
  have d: "(if p \<le> unat (mid (ids ! 0)) then map_option (\<lambda>e'. mid e' = mid e) (rd ids p) else Some False)
      = Some dup"
    using p(4) by (simp add: id2_cnt_def dup_def)
  have full: "of_nat MDB_IDL_UM_MAX \<le> mid (ids ! 0) \<longleftrightarrow> MDB_IDL_UM_MAX \<le> ?n"
    by (simp add: word_le_nat_alt id2_cnt_def MDB_IDL_UM_MAX_def)
  have ins: "mdb_mid2l_insert ids e =
     (if dup then Some (-1, ids) else if MDB_IDL_UM_MAX \<le> ?n then Some (-2, ids)
      else do { ids \<leftarrow> wr ids 0 ((ids ! 0)\<lparr>mid := mid (ids ! 0) + 1\<rparr>);
                ids \<leftarrow> arr_shift ids p (unat (u32_of_u64 (mid (ids ! 0))));
                ids \<leftarrow> wr ids p e; Some (0, ids) })"
    using p(2) by (simp add: mdb_mid2l_insert_def p(1) id2_head [OF wf] d full wr_def)
  have dom: "mid e \<in> dom (id2_map ids) \<longleftrightarrow> dup"
  proof
    show "dup \<Longrightarrow> mid e \<in> dom (id2_map ids)"
      using p(2) id2_items_length [OF wf] by (auto simp: dup_def id2_map_def dom_map_of_conv_image_fst image_iff)
        (metis One_nat_def Suc_le_eq diff_less le_less_trans nth_mem not_less zero_less_one diff_Suc_less less_le_trans)
    show "mid e \<in> dom (id2_map ids) \<Longrightarrow> dup"
      using p(5) map_of_split [of "take (p - 1) (id2_items ids)" "mid e" "drop (p - 1) (id2_items ids)"]
      by (auto simp: dup_def id2_map_def)
  qed
  show ?thesis
  proof (cases "dup \<or> MDB_IDL_UM_MAX \<le> ?n")
    case True
    then show ?thesis using wf dom by (auto simp: ins id2_inserted_def id2_wf_def)
  next
    case False
    let ?h = "(ids ! 0)\<lparr>mid := mid (ids ! 0) + 1\<rparr>"
    let ?A = "take (p - 1) (id2_items ids)" and ?B = "drop (p - 1) (id2_items ids)"
    have n: "?n + 1 < length ids" "?n + 1 < 2 ^ 32" using False wf id2_cnt_small [OF wf] by (auto simp: id2_wf_def)
    have u: "unat (mid (ids ! 0) + 1) = ?n + 1"
      using n(2) unfolding id2_cnt_def by (subst unat_add_lem [THEN iffD1]) simp_all
    then have u': "unat (u32_of_u64 (mid (ids ! 0) + 1)) = ?n + 1"
      using n(2) by (simp only: unat_u32_of_u64)
    have l0: "0 < length ids" using n(1) by linarith
    obtain ids' where i: "arr_shift (ids[0 := ?h]) p (?n + 1) = Some ids'" "length ids' = length ids"
      "ids' ! 0 = ?h" "arr_items (?n + 1) (ids'[p := e]) = ?A @ e # ?B"
      using arr_insert [of p ?n "ids[0 := ?h]" e] p(2,3) n(1) l0
      by (auto simp: arr_items_update_0 id2_items_def)
    let ?ids = "ids'[p := e]"
    have "mdb_mid2l_insert ids e = Some (0, ?ids)"
      using False p(3) n(1) l0 i(1,2) by (simp add: ins wr_in u' [unfolded One_nat_def])
    moreover have c: "id2_cnt ?ids = ?n + 1" using p(2) i(3) by (simp add: id2_cnt_def u [unfolded id2_cnt_def])
    moreover have it: "id2_items ?ids = ?A @ e # ?B" 
      using i(4) by (simp add: id2_items_def c)
    moreover have "id2_wf ?ids" using False wf i(2) by (simp add: id2_wf_def c)
    moreover have m: "\<forall>e' \<in> set ?A. mid e' < mid e" "\<forall>e' \<in> set ?B. mid e < mid e'"
      using False p(5) by (auto simp: dup_def)
    moreover have "sorted_wrt (<) (map mid (?A @ e # ?B))"
    proof -
      have "map mid ?A @ map mid ?B = map mid (id2_items ids)"
        by (simp only: map_append [symmetric] append_take_drop_id)
      then have "sorted_wrt (<) (map mid ?A @ map mid ?B)" using st by simp
      then show ?thesis using m unfolding map_append list.map sorted_wrt_append sorted_wrt.simps by auto
    qed
    ultimately show ?thesis
      using False dom map_of_insert [OF m] by (simp add: id2_inserted_def id2_sorted_def id2_map_def)
  qed
qed


lemma mdb_mid2l_append_items:
  assumes "id2_wf ids" "id2_cnt ids < MDB_IDL_UM_MAX"
  shows "\<exists>ids'. mdb_mid2l_append ids e = Some (0, ids') \<and> id2_wf ids'
    \<and> id2_items ids' = id2_items ids @ [e]"
proof -
  let ?n = "id2_cnt ids" and ?h = "(ids ! 0)\<lparr>mid := mid (ids ! 0) + 1\<rparr>"
  have n: "?n + 1 < length ids" "?n + 1 < 2 ^ 64" "0 < length ids"
    using assms id2_cnt_small [OF assms(1)] by (auto simp: id2_wf_def)
  have u: "unat (mid ?h) = ?n + 1"
    using n(2) unfolding id2_cnt_def by simp (subst unat_add_lem [THEN iffD1], simp_all)
  let ?ids = "ids[0 := ?h, ?n + 1 := e]"
  have "\<not> of_nat MDB_IDL_UM_MAX \<le> mid (ids ! 0)"
    using assms(2) by (simp add: word_le_nat_alt id2_cnt_def MDB_IDL_UM_MAX_def)
  then have "mdb_mid2l_append ids e = Some (0, ?ids)"
    using n u by (simp add: mdb_mid2l_append_def rd_in wr_in)
  moreover have c: "id2_cnt ?ids = ?n + 1" using u n(3) by (simp add: id2_cnt_def)
  moreover have "id2_wf ?ids" using assms unfolding id2_wf_def c by (simp add: id2_wf_def)
  moreover have "id2_items ?ids = id2_items ids @ [e]"
    unfolding id2_items_def c using n by (intro nth_equalityI) (auto simp: arr_items_def nth_append nth_list_update)
  ultimately show ?thesis by blast
qed

section \<open>Properties\<close>

text \<open>C21: The dirty list is a finite map from page numbers to pages. On a list in order \<open>mdb_mid2l_insert\<close>
  answers -1 and changes nothing where the page number is present, answers -2 and changes nothing where
  the list is full, and otherwise answers 0 and leaves a list in order that maps the new number to its
  page and every other number as before. Every access is inside the array.\<close>

theorem mdb_mid2l_insert_correct:
  assumes "id2_sorted ids"
  shows "id2_inserted ids e (mdb_mid2l_insert ids e)"
  by (rule mdb_mid2l_insert_inserted [OF assms])

text \<open>An array with three entries.\<close>

definition id2_sample :: id2l where
  "id2_sample = \<lparr>mid = 3, mptr = 0\<rparr> # \<lparr>mid = 4, mptr = 40\<rparr> # \<lparr>mid = 7, mptr = 70\<rparr> # \<lparr>mid = 9, mptr = 90\<rparr>
     # replicate MDB_IDL_UM_MAX \<lparr>mid = 0, mptr = 0\<rparr>"

lemma id2_sample_items: "id2_cnt id2_sample = 3"
  "id2_items id2_sample = [\<lparr>mid = 4, mptr = 40\<rparr>, \<lparr>mid = 7, mptr = 70\<rparr>, \<lparr>mid = 9, mptr = 90\<rparr>]"
proof -
  show c: "id2_cnt id2_sample = 3" by (simp add: id2_cnt_def id2_sample_def)
  show "id2_items id2_sample = [\<lparr>mid = 4, mptr = 40\<rparr>, \<lparr>mid = 7, mptr = 70\<rparr>, \<lparr>mid = 9, mptr = 90\<rparr>]"
    unfolding id2_items_def c by (simp add: arr_items_def id2_sample_def numeral_3_eq_3)
qed

lemma id2_sample: "id2_sorted id2_sample" "id2_map id2_sample = [4 \<mapsto> 40, 7 \<mapsto> 70, 9 \<mapsto> 90]"
  by (auto simp: id2_sorted_def id2_wf_def id2_sample_items id2_map_def MDB_IDL_UM_MAX_def)
    (simp add: id2_sample_def MDB_IDL_UM_MAX_def)

theorem mdb_mid2l_insert_correct_witness:
  "\<exists>ids'. mdb_mid2l_insert id2_sample \<lparr>mid = 5, mptr = 50\<rparr> = Some (0, ids')
     \<and> id2_map ids' = [4 \<mapsto> 40, 7 \<mapsto> 70, 9 \<mapsto> 90, 5 \<mapsto> 50]"
  using mdb_mid2l_insert_correct [OF id2_sample(1), of "\<lparr>mid = 5, mptr = 50\<rparr>"] id2_sample(2) id2_sample_items(1)
  by (auto simp: id2_inserted_def MDB_IDL_UM_MAX_def)

end
