(* ===== verification/Mdb_Dirty.thy ===== *)
theory Mdb_Dirty
  imports Mid2l
begin

text \<open>
  \<open>lmdb/mdb.c\<close>: where the pages of a transaction are. A write transaction keeps the pages it has
  changed on its dirty list and the changed pages it has written out early on its spill list, and so
  does each of its ancestors; every other page is in the memory map. \<open>mdb_page_get\<close> finds a page,
  \<open>mdb_page_dirty\<close> registers one, \<open>mdb_page_loose\<close> gives one up. The chain of a transaction and its
  parents is a list, the transaction itself first. A failed assertion aborts the program; it is \<open>None\<close>.
\<close>

unbundle bit_operations_syntax

definition MDB_RDONLY :: u32 where "MDB_RDONLY = 0x20000"
definition MDB_WRITEMAP :: u32 where "MDB_WRITEMAP = 0x80000"
definition MDB_TXN_ERROR :: u32 where "MDB_TXN_ERROR = 2"
definition MDB_PAGE_NOTFOUND :: int where "MDB_PAGE_NOTFOUND = - 30797"
definition MDB_CORRUPTED :: int where "MDB_CORRUPTED = - 30796"

section \<open>Transactions\<close>

text \<open>The fields of \<open>struct MDB_txn\<close> that say where pages are; \<open>mt_loose_pgs\<close> is the linked list of
  loose pages, as addresses.\<close>

record txn =
  mt_flags :: u32
  mt_next_pgno :: u64
  mt_dirty_list :: id2l
  mt_dirty_room :: u32
  mt_spill_pgs :: "idl option"
  mt_free_pgs :: idl
  mt_loose_pgs :: "u64 list"
  mt_loose_count :: u32

text \<open>A page is in the map, at its number, or in memory at an address.\<close>

datatype page_at = In_map u64 | In_mem u64

text \<open>The test for a page number in a spill list; the entries are page numbers shifted left by one.\<close>

definition spilled :: "idl option \<Rightarrow> u64 \<Rightarrow> bool option" where
  "spilled sp pgno =
     (case sp of
        None \<Rightarrow> Some False
      | Some spill_pgs \<Rightarrow>
          do { let pn = push_bit 1 pgno;
               x \<leftarrow> mdb_midl_search spill_pgs pn;
               n \<leftarrow> ids_rd spill_pgs 0;
               if x \<le> unat n then map_option (\<lambda>v. v = pn) (ids_rd spill_pgs x) else Some False })"

definition dirty_lookup :: "id2l \<Rightarrow> u64 \<Rightarrow> u64 option option" where
  "dirty_lookup dl pgno =
     do { h \<leftarrow> rd dl 0; if mid h \<noteq> 0 then mid2l_find dl pgno else Some None }"

text \<open>The loop over the transaction and its parents; the level counts from 1.\<close>

fun page_get_loop :: "txn list \<Rightarrow> u64 \<Rightarrow> nat \<Rightarrow> (page_at \<times> nat) option option" where
  "page_get_loop [] pgno level = Some None"
| "page_get_loop (tx2 # parents) pgno level =
     do { sp \<leftarrow> spilled (mt_spill_pgs tx2) pgno;
          if sp then Some (Some (In_map pgno, level))
          else do { d \<leftarrow> dirty_lookup (mt_dirty_list tx2) pgno;
                    case d of
                      Some ptr \<Rightarrow> Some (Some (In_mem ptr, level))
                    | None \<Rightarrow> page_get_loop parents pgno (level + 1) } }"

text \<open>\<open>mdb_page_get\<close>: the return code, the flags of the transaction afterwards, and the page and its
  level.\<close>

definition mdb_page_get :: "txn \<Rightarrow> txn list \<Rightarrow> u64 \<Rightarrow> (int \<times> txn \<times> (page_at \<times> nat) option) option" where
  "mdb_page_get txn parents pgno =
     do { found \<leftarrow> (if mt_flags txn AND (MDB_RDONLY OR MDB_WRITEMAP) = 0
                   then page_get_loop (txn # parents) pgno 1 else Some None);
          case found of
            Some p \<Rightarrow> Some (0, txn, Some p)
          | None \<Rightarrow>
              if pgno < mt_next_pgno txn then Some (0, txn, Some (In_map pgno, 0))
              else Some (MDB_PAGE_NOTFOUND, txn\<lparr>mt_flags := mt_flags txn OR MDB_TXN_ERROR\<rparr>, None) }"

text \<open>\<open>mdb_page_dirty\<close>, for the page \<open>pgno\<close> at the address \<open>mp\<close>.\<close>

definition mdb_page_dirty :: "txn \<Rightarrow> u64 \<Rightarrow> u64 \<Rightarrow> txn option" where
  "mdb_page_dirty txn pgno mp =
     do { let insert = (if mt_flags txn AND MDB_WRITEMAP \<noteq> 0 then mdb_mid2l_append else mdb_mid2l_insert);
          (rc, dl) \<leftarrow> insert (mt_dirty_list txn) \<lparr>mid = pgno, mptr = mp\<rparr>;
          if rc \<noteq> 0 then None
          else Some (txn\<lparr>mt_dirty_list := dl, mt_dirty_room := mt_dirty_room txn - 1\<rparr>) }"

text \<open>\<open>mdb_page_loose\<close>, for a page with number \<open>pgno\<close> at the address \<open>mp\<close>; \<open>dirty\<close> is its flag
  \<open>P_DIRTY\<close>, \<open>free_dbi\<close> says that the cursor works on the free list's own database, \<open>cur\<close> are the flags
  \<open>C_INITIALIZED\<close> and \<open>C_EOF\<close> of the cursor. The result is the return code, the transaction, whether the
  page was flagged \<open>P_LOOSE\<close>, and the flags of the cursor.\<close>

definition mdb_page_loose ::
  "allocator \<Rightarrow> txn \<Rightarrow> bool \<Rightarrow> bool \<Rightarrow> bool \<Rightarrow> u64 \<Rightarrow> u64 \<Rightarrow> bool \<times> bool
   \<Rightarrow> (int \<times> txn \<times> bool \<times> bool \<times> bool) option" where
  "mdb_page_loose al txn has_parent free_dbi dirty pgno mp cur =
     do { own \<leftarrow> (if dirty \<and> \<not> free_dbi
                 then if has_parent
                      then map_option (map_option (\<lambda>ptr. ptr = mp)) (dirty_lookup (mt_dirty_list txn) pgno)
                      else Some (Some True)
                 else Some None);
          case own of
            Some False \<Rightarrow>
              Some (MDB_CORRUPTED, txn\<lparr>mt_flags := mt_flags txn OR MDB_TXN_ERROR\<rparr>, False, False, False)
          | Some True \<Rightarrow>
              Some (0, txn\<lparr>mt_loose_pgs := mp # mt_loose_pgs txn, mt_loose_count := mt_loose_count txn + 1\<rparr>, True, cur)
          | None \<Rightarrow>
              do { (rc, fp) \<leftarrow> mdb_midl_append al (mt_free_pgs txn) pgno;
                   Some (rc, txn\<lparr>mt_free_pgs := fp\<rparr>, False, cur) } }"

section \<open>What the lists say\<close>

text \<open>The page numbers a spill list names: entries with the lowest bit set count as deleted.\<close>

definition spill_set :: "idl option \<Rightarrow> u64 set" where
  "spill_set sp = (case sp of None \<Rightarrow> {} | Some ids \<Rightarrow> {pgno. push_bit 1 pgno \<in> set (idl_items ids)})"

definition spill_ok :: "idl option \<Rightarrow> bool" where
  "spill_ok sp = (case sp of None \<Rightarrow> True | Some ids \<Rightarrow> idl_sorted ids)"

lemma spilled_iff:
  assumes "spill_ok sp"
  shows "spilled sp pgno = Some (pgno \<in> spill_set sp)"
proof (cases sp)
  case (Some ids)
  let ?pn = "push_bit 1 pgno"
  have srt: "idl_sorted ids" and wf: "idl_wf ids" using assms Some by (simp_all add: spill_ok_def idl_sorted_def)
  obtain p where p: "mdb_midl_search ids ?pn = Some p" "midl.found_at ids ?pn p"
    using mdb_midl_search_finds [OF srt] by blast
  note fd = p(2) [unfolded midl.found_at_def]
  have n: "unat (ids ! 1) = idl_cnt ids" by (simp add: idl_cnt_def)
  have p1: "1 \<le> p" using fd by blast
  have r: "ids_rd ids p = Some (idl_items ids ! (p - 1))" if "p \<le> idl_cnt ids"
    by (rule idl_rd(3) [OF wf p1 that])
  have s: "spilled sp pgno = Some (p \<le> idl_cnt ids \<and> idl_items ids ! (p - 1) = ?pn)"
    using p(1) idl_rd(2) [OF wf] r n by (simp add: spilled_def Some)
  have "(p \<le> idl_cnt ids \<and> idl_items ids ! (p - 1) = ?pn) \<longleftrightarrow> ?pn \<in> set (idl_items ids)"
  proof
    show "p \<le> idl_cnt ids \<and> idl_items ids ! (p - 1) = ?pn \<Longrightarrow> ?pn \<in> set (idl_items ids)"
      using p1 idl_wf_length [OF wf] nth_mem [of "p - 1" "idl_items ids"] by fastforce
    assume "?pn \<in> set (idl_items ids)"
    then obtain i where i: "i < idl_cnt ids" "idl_items ids ! i = ?pn"
      by (auto simp: in_set_conv_nth idl_wf_length [OF wf])
    then have "CMP (idl_items ids ! (Suc i - 1)) ?pn = 0" by (simp add: CMP_cases)
    then show "p \<le> idl_cnt ids \<and> idl_items ids ! (p - 1) = ?pn"
      using fd i(1) by (auto simp: CMP_cases dest!: spec [of _ "Suc i"])
  qed
  then show ?thesis using s Some by (simp add: spill_set_def)
qed (simp add: spilled_def spill_set_def)

lemma dirty_lookup_map:
  assumes "id2_sorted dl"
  shows "dirty_lookup dl pgno = Some (id2_map dl pgno)"
proof (cases "mid (dl ! 0) = 0")
  case True
  then have "id2_map dl = Map.empty" by (simp add: id2_map_def id2_items_def id2_cnt_def arr_items_def)
  then show ?thesis using True assms by (simp add: dirty_lookup_def id2_head id2_sorted_def)
next
  case False
  then show ?thesis using assms by (simp add: dirty_lookup_def id2_head id2_sorted_def mid2l_find_map)
qed

definition txn_ok :: "txn \<Rightarrow> bool" where
  "txn_ok tx \<longleftrightarrow> id2_sorted (mt_dirty_list tx) \<and> spill_ok (mt_spill_pgs tx)"

text \<open>What a page number means inside a chain of transactions: the innermost one that changed it
  decides, and a spilled page counts as in the map.\<close>

fun page_view :: "txn list \<Rightarrow> u64 \<Rightarrow> page_at option" where
  "page_view [] pgno = None"
| "page_view (tx # txs) pgno =
     (if pgno \<in> spill_set (mt_spill_pgs tx) then Some (In_map pgno)
      else case id2_map (mt_dirty_list tx) pgno of
             Some ptr \<Rightarrow> Some (In_mem ptr) | None \<Rightarrow> page_view txs pgno)"

lemma page_get_loop_view:
  "\<forall>tx \<in> set txs. txn_ok tx \<Longrightarrow>
   \<exists>r. page_get_loop txs pgno level = Some r \<and> map_option fst r = page_view txs pgno
     \<and> (\<forall>p l. r = Some (p, l) \<longrightarrow> level \<le> l \<and> l < level + length txs)"
proof (induction txs arbitrary: level)
  case (Cons tx txs)
  have ok: "spilled (mt_spill_pgs tx) pgno = Some (pgno \<in> spill_set (mt_spill_pgs tx))"
    "dirty_lookup (mt_dirty_list tx) pgno = Some (id2_map (mt_dirty_list tx) pgno)"
    using Cons.prems by (simp_all add: txn_ok_def spilled_iff dirty_lookup_map)
  show ?case
    using Cons.IH [of "level + 1"] Cons.prems ok by (auto split: option.splits)
qed simp


lemma mdb_page_get_view:
  assumes "mt_flags txn AND (MDB_RDONLY OR MDB_WRITEMAP) = 0" "\<forall>tx \<in> set (txn # parents). txn_ok tx"
  obtains level where "1 \<le> level" "level \<le> 1 + length parents"
    "mdb_page_get txn parents pgno =
      (case page_view (txn # parents) pgno of
         Some p \<Rightarrow> Some (0, txn, Some (p, level))
       | None \<Rightarrow> if pgno < mt_next_pgno txn then Some (0, txn, Some (In_map pgno, 0))
                 else Some (MDB_PAGE_NOTFOUND, txn\<lparr>mt_flags := mt_flags txn OR MDB_TXN_ERROR\<rparr>, None))"
proof -
  obtain r where r: "page_get_loop (txn # parents) pgno 1 = Some r"
    "map_option fst r = page_view (txn # parents) pgno"
    "\<forall>p l. r = Some (p, l) \<longrightarrow> 1 \<le> l \<and> l < 1 + length (txn # parents)"
    using page_get_loop_view [OF assms(2), of pgno 1] by blast
  show ?thesis
  proof (cases r)
    case None
    then show ?thesis
      using that [of 1] r(2) [symmetric]
      by (simp add: mdb_page_get_def assms(1) r(1) [unfolded One_nat_def] del: page_get_loop.simps page_view.simps)
  next
    case (Some pl)
    then obtain p l where pl: "r = Some (p, l)" by (cases pl) simp
    then have "page_view (txn # parents) pgno = Some p" using r(2) by simp
    then show ?thesis
      using that [of l] r(3) pl
      by (simp add: mdb_page_get_def assms(1) r(1) [unfolded One_nat_def] del: page_get_loop.simps page_view.simps)
  qed
qed

lemma mdb_page_dirty_new:
  assumes "mt_flags tx AND MDB_WRITEMAP = 0" "txn_ok tx"
    and "pgno \<notin> dom (id2_map (mt_dirty_list tx))" "id2_cnt (mt_dirty_list tx) < MDB_IDL_UM_MAX"
  obtains dl where
    "mdb_page_dirty tx pgno mp = Some (tx\<lparr>mt_dirty_list := dl, mt_dirty_room := mt_dirty_room tx - 1\<rparr>)"
    "id2_sorted dl" "id2_map dl = (id2_map (mt_dirty_list tx))(pgno \<mapsto> mp)"
proof -
  have "id2_inserted (mt_dirty_list tx) \<lparr>mid = pgno, mptr = mp\<rparr>
      (mdb_mid2l_insert (mt_dirty_list tx) \<lparr>mid = pgno, mptr = mp\<rparr>)"
    by (rule mdb_mid2l_insert_inserted) (use assms(2) in \<open>simp add: txn_ok_def\<close>)
  then obtain dl where dl: "mdb_mid2l_insert (mt_dirty_list tx) \<lparr>mid = pgno, mptr = mp\<rparr> = Some (0, dl)"
    "id2_sorted dl" "id2_map dl = (id2_map (mt_dirty_list tx))(pgno \<mapsto> mp)"
    using assms(3,4) by (simp add: id2_inserted_def) blast
  then have "mdb_page_dirty tx pgno mp = Some (tx\<lparr>mt_dirty_list := dl, mt_dirty_room := mt_dirty_room tx - 1\<rparr>)"
    using assms(1) by (simp add: mdb_page_dirty_def)
  then show ?thesis using dl(2,3) by (rule that)
qed

section \<open>Properties\<close>

text \<open>C22: In a write transaction whose lists are in order \<open>mdb_page_get\<close> finds the page that the chain of
  transactions defines: the copy in memory of the innermost transaction that changed it, the map where
  that one has spilled it or none has changed it, and otherwise, past the last page, the answer is
  \<open>MDB_PAGE_NOTFOUND\<close> and the transaction is marked unusable. The two binary searches stay inside their
  lists at every level.\<close>

theorem mdb_page_get_correct:
  assumes "mt_flags txn AND (MDB_RDONLY OR MDB_WRITEMAP) = 0" "\<forall>tx \<in> set (txn # parents). txn_ok tx"
  shows "\<exists>level. 1 \<le> level \<and> level \<le> 1 + length parents \<and> mdb_page_get txn parents pgno =
      (case page_view (txn # parents) pgno of
         Some p \<Rightarrow> Some (0, txn, Some (p, level))
       | None \<Rightarrow> if pgno < mt_next_pgno txn then Some (0, txn, Some (In_map pgno, 0))
                 else Some (MDB_PAGE_NOTFOUND, txn\<lparr>mt_flags := mt_flags txn OR MDB_TXN_ERROR\<rparr>, None))"
  by (rule mdb_page_get_view [OF assms]) blast

text \<open>A transaction with three dirty pages whose page 2 is spilled, and a parent that changed page 5.\<close>

definition txn_sample :: txn where
  "txn_sample = \<lparr>mt_flags = 0, mt_next_pgno = 12, mt_dirty_list = id2_sample, mt_dirty_room = 9,
     mt_spill_pgs = Some [1, 1, 4], mt_free_pgs = [0, 0], mt_loose_pgs = [], mt_loose_count = 0\<rparr>"

definition id2_parent :: id2l where
  "id2_parent = \<lparr>mid = 1, mptr = 0\<rparr> # \<lparr>mid = 5, mptr = 55\<rparr> # replicate MDB_IDL_UM_MAX \<lparr>mid = 0, mptr = 0\<rparr>"

lemma id2_parent: "id2_sorted id2_parent" "id2_map id2_parent = [5 \<mapsto> 55]"
  by (simp_all add: id2_parent_def id2_sorted_def id2_wf_def id2_cnt_def id2_items_def arr_items_def
      id2_map_def MDB_IDL_UM_MAX_def)

definition txn_parent :: txn where
  "txn_parent = txn_sample\<lparr>mt_spill_pgs := None, mt_dirty_list := id2_parent\<rparr>"

lemma txn_sample_ok: "txn_ok txn_sample" "txn_ok txn_parent"
  "mt_flags txn_sample AND (MDB_RDONLY OR MDB_WRITEMAP) = 0" "mt_flags txn_sample AND MDB_WRITEMAP = 0"
  by (simp_all add: txn_ok_def txn_sample_def txn_parent_def id2_sample id2_parent spill_ok_def idl_sorted_def
      idl_wf_def idl_cap_def idl_cnt_def idl_items_def)

lemma txn_sample_view:
  "page_view [txn_sample, txn_parent] 2 = Some (In_map 2)"
  "page_view [txn_sample, txn_parent] 5 = Some (In_mem 55)"
  "page_view [txn_sample, txn_parent] 99 = None"
  by (simp_all add: txn_sample_def txn_parent_def id2_sample(2) id2_parent(2) spill_set_def idl_cnt_def idl_items_def)

theorem mdb_page_get_correct_witness:
  "(\<exists>level. mdb_page_get txn_sample [txn_parent] 5 = Some (0, txn_sample, Some (In_mem 55, level)))
   \<and> (\<exists>level. mdb_page_get txn_sample [txn_parent] 2 = Some (0, txn_sample, Some (In_map 2, level)))
   \<and> (\<exists>tx. mdb_page_get txn_sample [txn_parent] 99 = Some (MDB_PAGE_NOTFOUND, tx, None))"
proof -
  have ok: "\<forall>tx \<in> set (txn_sample # [txn_parent]). txn_ok tx" by (simp add: txn_sample_ok)
  have "\<not> 99 < mt_next_pgno txn_sample" by (simp add: txn_sample_def)
  then show ?thesis
    using mdb_page_get_correct [OF txn_sample_ok(3) ok, of 5] mdb_page_get_correct [OF txn_sample_ok(3) ok, of 2]
      mdb_page_get_correct [OF txn_sample_ok(3) ok, of 99]
    by (auto simp only: txn_sample_view option.case if_False)
qed

text \<open>Registering a new page with \<open>mdb_page_dirty\<close> in a transaction without \<open>MDB_WRITEMAP\<close> succeeds,
  takes one unit of room, keeps the lists in order, and from then on \<open>mdb_page_get\<close> finds that page at
  its address in the transaction itself and every other page where it was.\<close>

theorem mdb_page_dirty_get:
  assumes "mt_flags txn AND (MDB_RDONLY OR MDB_WRITEMAP) = 0" "mt_flags txn AND MDB_WRITEMAP = 0"
    and "\<forall>tx \<in> set (txn # parents). txn_ok tx" "id2_cnt (mt_dirty_list txn) < MDB_IDL_UM_MAX"
    and "pgno \<notin> dom (id2_map (mt_dirty_list txn))" "pgno \<notin> spill_set (mt_spill_pgs txn)"
  shows "\<exists>txn'. mdb_page_dirty txn pgno mp = Some txn' \<and> txn_ok txn'
    \<and> mt_dirty_room txn' = mt_dirty_room txn - 1
    \<and> (\<exists>level. mdb_page_get txn' parents pgno = Some (0, txn', Some (In_mem mp, level)))
    \<and> (\<forall>q. q \<noteq> pgno \<longrightarrow> page_view (txn' # parents) q = page_view (txn # parents) q)"
proof -
  have ok: "txn_ok txn" using assms(3) by simp
  obtain dl where dl: "mdb_page_dirty txn pgno mp
      = Some (txn\<lparr>mt_dirty_list := dl, mt_dirty_room := mt_dirty_room txn - 1\<rparr>)"
    "id2_sorted dl" "id2_map dl = (id2_map (mt_dirty_list txn))(pgno \<mapsto> mp)"
    by (rule mdb_page_dirty_new [OF assms(2) ok assms(5,4)])
  define txn' where "txn' = txn\<lparr>mt_dirty_list := dl, mt_dirty_room := mt_dirty_room txn - 1\<rparr>"
  have ok': "txn_ok txn'" using dl(2) ok by (simp add: txn_ok_def txn'_def)
  have v: "page_view (txn' # parents) pgno = Some (In_mem mp)" using assms(6) by (simp add: txn'_def dl(3))
  have fl: "mt_flags txn' AND (MDB_RDONLY OR MDB_WRITEMAP) = 0" using assms(1) by (simp add: txn'_def)
  have all: "\<forall>tx \<in> set (txn' # parents). txn_ok tx" using assms(3) ok' by simp
  obtain level where "mdb_page_get txn' parents pgno = Some (0, txn', Some (In_mem mp, level))"
    by (rule mdb_page_get_view [OF fl all, of pgno]) (simp add: v del: page_view.simps)
  then show ?thesis using dl(1) ok' by (intro exI [of _ txn']) (auto simp: txn'_def dl(3))
qed

theorem mdb_page_dirty_get_witness:
  "\<exists>txn' level. mdb_page_dirty txn_sample 11 77 = Some txn'
     \<and> mdb_page_get txn' [txn_parent] 11 = Some (0, txn', Some (In_mem 77, level))"
proof -
  have "id2_cnt (mt_dirty_list txn_sample) < MDB_IDL_UM_MAX" "11 \<notin> dom (id2_map (mt_dirty_list txn_sample))"
    "11 \<notin> spill_set (mt_spill_pgs txn_sample)" "\<forall>tx \<in> set (txn_sample # [txn_parent]). txn_ok tx"
    using txn_sample_ok(1,2)
    by (auto simp: txn_sample_def id2_sample(2) id2_sample_items(1) spill_set_def idl_cnt_def idl_items_def
        MDB_IDL_UM_MAX_def)
  then show ?thesis
    using mdb_page_dirty_get [OF txn_sample_ok(3,4), of "[txn_parent]" 11 77] by blast
qed

text \<open>C23: Giving up a page always returns, in one of three ways. A dirty page of an ordinary database goes to
  the list of loose pages when the transaction has no parent, without a look at the dirty list, and when
  it has one only where its own dirty list holds that very page. Where the dirty list of such a nested
  transaction holds another page under the number, the answer is \<open>MDB_CORRUPTED\<close>, the transaction is marked
  and the cursor loses its position. In all other cases, a page that is not dirty, a page of the free
  list's own database, or a number the nested transaction has not dirtied, the number is appended to the
  free list, or the list is left as it was when no memory is left.\<close>

theorem mdb_page_loose_correct:
  assumes "has_parent \<longrightarrow> txn_ok txn" "idl_wf (mt_free_pgs txn)" "idl_cap (mt_free_pgs txn) < 2 ^ 60"
  shows "if dirty \<and> \<not> free_dbi \<and> (has_parent \<longrightarrow> id2_map (mt_dirty_list txn) pgno = Some mp)
    then mdb_page_loose al txn has_parent free_dbi dirty pgno mp cur =
      Some (0, txn\<lparr>mt_loose_pgs := mp # mt_loose_pgs txn, mt_loose_count := mt_loose_count txn + 1\<rparr>, True, cur)
    else if dirty \<and> \<not> free_dbi \<and> pgno \<in> dom (id2_map (mt_dirty_list txn))
    then mdb_page_loose al txn has_parent free_dbi dirty pgno mp cur =
      Some (MDB_CORRUPTED, txn\<lparr>mt_flags := mt_flags txn OR MDB_TXN_ERROR\<rparr>, False, False, False)
    else \<exists>rc fp. mdb_page_loose al txn has_parent free_dbi dirty pgno mp cur =
        Some (rc, txn\<lparr>mt_free_pgs := fp\<rparr>, False, cur)
      \<and> idl_appended al (mt_free_pgs txn) [pgno] (Some (rc, fp))"
proof -
  have a: "idl_appended al (mt_free_pgs txn) [pgno] (mdb_midl_append al (mt_free_pgs txn) pgno)"
    by (rule mdb_midl_append_appended [OF assms(2,3)])
  then obtain rc fp where fp: "mdb_midl_append al (mt_free_pgs txn) pgno = Some (rc, fp)"
    by (auto simp: idl_appended_def)
  show ?thesis
  proof (cases "dirty \<and> \<not> free_dbi \<and> has_parent")
    case True
    then have "dirty_lookup (mt_dirty_list txn) pgno = Some (id2_map (mt_dirty_list txn) pgno)"
      using assms(1) by (simp add: dirty_lookup_map txn_ok_def)
    then show ?thesis
      using True a fp by (cases "id2_map (mt_dirty_list txn) pgno") (auto simp: mdb_page_loose_def)
  next
    case False
    then show ?thesis using a fp by (auto simp: mdb_page_loose_def)
  qed
qed

theorem mdb_page_loose_correct_witness:
  "(\<forall>has_parent. mdb_page_loose \<lparr>al_ok = (\<lambda>_. True), al_junk = (\<lambda>_. 0)\<rparr> txn_sample has_parent False True 7 70 (True, False)
     = Some (0, txn_sample\<lparr>mt_loose_pgs := [70], mt_loose_count := 1\<rparr>, True, True, False))
   \<and> mdb_page_loose \<lparr>al_ok = (\<lambda>_. True), al_junk = (\<lambda>_. 0)\<rparr> txn_sample True False True 7 71 (True, False)
     = Some (MDB_CORRUPTED, txn_sample\<lparr>mt_flags := MDB_TXN_ERROR\<rparr>, False, False, False)
   \<and> (\<exists>rc fp. mdb_page_loose \<lparr>al_ok = (\<lambda>_. True), al_junk = (\<lambda>_. 0)\<rparr> txn_sample False False False 7 70 (True, False)
     = Some (rc, txn_sample\<lparr>mt_free_pgs := fp\<rparr>, False, True, False))"
proof -
  let ?al = "\<lparr>al_ok = (\<lambda>_. True), al_junk = (\<lambda>_. 0)\<rparr>"
  have l: "idl_wf (mt_free_pgs txn_sample)" "idl_cap (mt_free_pgs txn_sample) < 2 ^ 60"
    by (simp_all add: txn_sample_def idl_wf_def idl_cap_def idl_cnt_def)
  have ok: "has_parent \<longrightarrow> txn_ok txn_sample" for has_parent by (simp add: txn_sample_ok(1))
  have m: "id2_map (mt_dirty_list txn_sample) 7 = Some 70" by (simp add: txn_sample_def id2_sample(2))
  note t = mdb_page_loose_correct [OF ok l, where al = ?al]
  have "mdb_page_loose ?al txn_sample has_parent False True 7 70 (True, False)
     = Some (0, txn_sample\<lparr>mt_loose_pgs := [70], mt_loose_count := 1\<rparr>, True, True, False)" for has_parent
    using t [of True False has_parent 7 70 "(True, False)"] m by (simp add: txn_sample_def)
  moreover have "mdb_page_loose ?al txn_sample True False True 7 71 (True, False)
     = Some (MDB_CORRUPTED, txn_sample\<lparr>mt_flags := MDB_TXN_ERROR\<rparr>, False, False, False)"
    using t [of True False True 7 71 "(True, False)"] m by (simp add: txn_sample_def domIff)
  moreover have "\<exists>rc fp. mdb_page_loose ?al txn_sample False False False 7 70 (True, False)
     = Some (rc, txn_sample\<lparr>mt_free_pgs := fp\<rparr>, False, True, False)"
    using t [of False False False 7 70 "(True, False)"] by auto
  ultimately show ?thesis by blast
qed

end
