(* ===== verification/Mdb_Cmp.thy ===== *)
theory Mdb_Cmp
  imports Prelude "HOL-Library.List_Lexorder"
begin

text \<open>
  \<open>lmdb/mdb.c\<close>: the comparison functions of keys and data items. A \<open>MDB_val\<close> is the list of its bytes;
  reading outside it is \<open>None\<close>. Multi-byte loads are little endian. \<open>comparator\<close> is what the page search
  and the cursors rely on: on values of the right form the sign of the result is the order of a
  linearly ordered meaning of the bytes.
\<close>

unbundle bit_operations_syntax

type_synonym mval = "u8 list"

section \<open>The comparison functions\<close>

fun le_val :: "u8 list \<Rightarrow> nat" where
  "le_val [] = 0"
| "le_val (b # bs) = unat b + 256 * le_val bs"

text \<open>A load of \<open>n\<close> bytes at offset \<open>k\<close>.\<close>

definition ld :: "nat \<Rightarrow> mval \<Rightarrow> nat \<Rightarrow> nat option" where
  "ld n v k = (if k + n \<le> length v then Some (le_val (take n (drop k v))) else None)"

definition cmp_uint :: "nat \<Rightarrow> nat \<Rightarrow> int" where
  "cmp_uint x y = (if x < y then - 1 else if y < x then 1 else 0)"

definition mdb_cmp_long :: "mval \<Rightarrow> mval \<Rightarrow> int option" where
  "mdb_cmp_long a b = do { x \<leftarrow> ld 8 a 0; y \<leftarrow> ld 8 b 0; Some (cmp_uint x y) }"

definition mdb_cmp_int :: "mval \<Rightarrow> mval \<Rightarrow> int option" where
  "mdb_cmp_int a b = do { x \<leftarrow> ld 4 a 0; y \<leftarrow> ld 4 b 0; Some (cmp_uint x y) }"

text \<open>\<open>u\<close> is the distance of both pointers from the start of their value.\<close>

function cint_loop :: "mval \<Rightarrow> mval \<Rightarrow> nat \<Rightarrow> int option" where
  "cint_loop a b u =
     (if u < 2 then None
      else case (ld 2 a (u - 2), ld 2 b (u - 2)) of
             (Some v, Some w) \<Rightarrow>
               (let x = int v - int w in if x = 0 \<and> 0 < u - 2 then cint_loop a b (u - 2) else Some x)
           | _ \<Rightarrow> None)"
  by pat_completeness auto
termination by (relation "measure (\<lambda>(a, b, u). u)") auto

declare cint_loop.simps [simp del]

definition mdb_cmp_cint :: "mval \<Rightarrow> mval \<Rightarrow> int option" where
  "mdb_cmp_cint a b = cint_loop a b (length a)"

text \<open>\<open>memcmp\<close>; C promises only the sign of its result.\<close>

fun byte_diff :: "u8 list \<Rightarrow> u8 list \<Rightarrow> int" where
  "byte_diff (x # xs) (y # ys) = (if x = y then byte_diff xs ys else uint x - uint y)"
| "byte_diff _ _ = 0"

definition c_memcmp :: "mval \<Rightarrow> mval \<Rightarrow> nat \<Rightarrow> int option" where
  "c_memcmp a b n =
     (if n \<le> length a \<and> n \<le> length b then Some (byte_diff (take n a) (take n b)) else None)"

text \<open>\<open>len\<close> is an \<open>unsigned int\<close>: it keeps the low 32 bits of a size.\<close>

definition mdb_cmp_memn :: "mval \<Rightarrow> mval \<Rightarrow> int option" where
  "mdb_cmp_memn a b =
     do { let len = length a mod 2 ^ 32;
          let len_diff = int (length a) - int (length b);
          let (len, len_diff) = (if 0 < len_diff then (length b mod 2 ^ 32, 1) else (len, len_diff));
          diff \<leftarrow> c_memcmp a b len;
          Some (if diff \<noteq> 0 then diff else if len_diff < 0 then - 1 else len_diff) }"

text \<open>The loop of \<open>mdb_cmp_memnr\<close>; the result is the first difference found, if any.\<close>

fun memnr_loop :: "mval \<Rightarrow> mval \<Rightarrow> nat \<Rightarrow> nat \<Rightarrow> nat \<Rightarrow> int option option" where
  "memnr_loop a b lim p1 p2 =
     (if lim < p1
      then (case (p1, p2) of
              (Suc q1, Suc q2) \<Rightarrow>
                do { x \<leftarrow> rd a q1; y \<leftarrow> rd b q2;
                     if x \<noteq> y then Some (Some (uint x - uint y)) else memnr_loop a b lim q1 q2 }
            | _ \<Rightarrow> None)
      else Some None)"

declare memnr_loop.simps [simp del]

definition mdb_cmp_memnr :: "mval \<Rightarrow> mval \<Rightarrow> int option" where
  "mdb_cmp_memnr a b =
     do { let len_diff = int (length a) - int (length b);
          let (p1_lim, len_diff) = (if 0 < len_diff then (nat len_diff, 1) else (0, len_diff));
          d \<leftarrow> memnr_loop a b p1_lim (length a) (length b);
          Some (case d of Some diff \<Rightarrow> diff | None \<Rightarrow> if len_diff < 0 then - 1 else len_diff) }"

section \<open>Which function a database uses\<close>

text \<open>The code compares function pointers, so a comparison function is a name; \<open>Cmp_user\<close> is a function
  of the application.\<close>

datatype cmp_fn = Cmp_memn | Cmp_memnr | Cmp_cint | Cmp_int | Cmp_long
  | Cmp_user "mval \<Rightarrow> mval \<Rightarrow> int option"

primrec run_cmp :: "cmp_fn \<Rightarrow> mval \<Rightarrow> mval \<Rightarrow> int option" where
  "run_cmp Cmp_memn = mdb_cmp_memn"
| "run_cmp Cmp_memnr = mdb_cmp_memnr"
| "run_cmp Cmp_cint = mdb_cmp_cint"
| "run_cmp Cmp_int = mdb_cmp_int"
| "run_cmp Cmp_long = mdb_cmp_long"
| "run_cmp (Cmp_user f) = f"

definition MDB_CREATE :: u32 where "MDB_CREATE = 0x40000"
definition MDB_NOOVERWRITE :: u32 where "MDB_NOOVERWRITE = 0x10"
definition MDB_KEYEXIST :: int where "MDB_KEYEXIST = - 30799"
definition MDB_REVERSEKEY :: u16 where "MDB_REVERSEKEY = 2"
definition MDB_DUPSORT :: u16 where "MDB_DUPSORT = 4"
definition MDB_INTEGERKEY :: u16 where "MDB_INTEGERKEY = 8"
definition MDB_DUPFIXED :: u16 where "MDB_DUPFIXED = 16"
definition MDB_INTEGERDUP :: u16 where "MDB_INTEGERDUP = 32"
definition MDB_REVERSEDUP :: u16 where "MDB_REVERSEDUP = 64"

text \<open>The functions \<open>md_cmp\<close> and \<open>md_dcmp\<close> that \<open>mdb_default_cmp\<close> stores for the flags of a database.\<close>

definition mdb_default_cmp :: "u16 \<Rightarrow> cmp_fn \<times> cmp_fn option" where
  "mdb_default_cmp f =
     ((if f AND MDB_REVERSEKEY \<noteq> 0 then Cmp_memnr
       else if f AND MDB_INTEGERKEY \<noteq> 0 then Cmp_cint else Cmp_memn),
      (if f AND MDB_DUPSORT = 0 then None
       else Some (if f AND MDB_INTEGERDUP \<noteq> 0
                  then (if f AND MDB_DUPFIXED \<noteq> 0 then Cmp_int else Cmp_cint)
                  else if f AND MDB_REVERSEDUP \<noteq> 0 then Cmp_memnr else Cmp_memn)))"

text \<open>\<open>mdb_dcmp\<close>, with \<open>mdb_cmp_clong\<close> as defined where misaligned access is not allowed.\<close>

definition mdb_dcmp :: "cmp_fn \<Rightarrow> mval \<Rightarrow> mval \<Rightarrow> int option" where
  "mdb_dcmp dcmp a b =
     (case dcmp of Cmp_int \<Rightarrow> run_cmp (if length a = 8 then Cmp_cint else dcmp) a b | _ \<Rightarrow> run_cmp dcmp a b)"

section \<open>Comparators\<close>

text \<open>What the rest of the library expects of a comparison function: on valid values it answers, and the
  sign of the answer is the order of their meaning.\<close>

locale comparator =
  fixes valid :: "'v \<Rightarrow> bool" and cmp :: "'v \<Rightarrow> 'v \<Rightarrow> int option" and meaning :: "'v \<Rightarrow> 'm :: linorder"
  assumes answers: "valid a \<Longrightarrow> valid b \<Longrightarrow> cmp a b \<noteq> None"
    and less: "valid a \<Longrightarrow> valid b \<Longrightarrow> cmp a b = Some r \<Longrightarrow> r < 0 \<longleftrightarrow> meaning a < meaning b"
    and greater: "valid a \<Longrightarrow> valid b \<Longrightarrow> cmp a b = Some r \<Longrightarrow> 0 < r \<longleftrightarrow> meaning b < meaning a"
    and inj: "valid a \<Longrightarrow> valid b \<Longrightarrow> meaning a = meaning b \<Longrightarrow> a = b"
begin

lemma cmp_cases:
  assumes "valid a" "valid b"
  obtains r where "cmp a b = Some r" "r < 0 \<longleftrightarrow> meaning a < meaning b" "0 < r \<longleftrightarrow> meaning b < meaning a"
    "r = 0 \<longleftrightarrow> a = b"
proof -
  obtain r where r: "cmp a b = Some r" using answers [OF assms] by blast
  note lg = less [OF assms r] greater [OF assms r]
  have "r = 0 \<longleftrightarrow> meaning a = meaning b" using lg by (metis less_irrefl linorder_cases)
  then show ?thesis using that [OF r lg] inj [OF assms] by blast
qed

end


section \<open>Byte strings\<close>

text \<open>What the first difference of two byte strings says of their lexicographic order.\<close>

lemma byte_diff_order:
  "(byte_diff (take (length b) a) (take (length a) b) < 0 \<or>
    byte_diff (take (length b) a) (take (length a) b) = 0 \<and> length a < length b) = (a < b)"
  "(0 < byte_diff (take (length b) a) (take (length a) b) \<or>
    byte_diff (take (length b) a) (take (length a) b) = 0 \<and> length b < length a) = (b < a)"
proof (induction a arbitrary: b)
  case Nil
  { case 1 show ?case by (cases b) auto }
  { case 2 show ?case by simp }
next
  case (Cons x xs)
  { case 1 show ?case
    proof (cases b)
      case (Cons y ys)
      then show ?thesis
        using Cons.IH(1) [of ys] by (cases "x = y") (auto simp: word_less_def word_uint_eq_iff)
    qed simp }
  { case 2 show ?case
    proof (cases b)
      case (Cons y ys)
      then show ?thesis
        using Cons.IH(2) [of ys] by (cases "x = y") (auto simp: word_less_def word_uint_eq_iff)
    qed simp }
qed

lemma mdb_cmp_memn_eq:
  assumes "length a < 2 ^ 32" "length b < 2 ^ 32"
  shows "mdb_cmp_memn a b =
    (let d = byte_diff (take (length b) a) (take (length a) b)
     in Some (if d \<noteq> 0 then d else cmp_uint (length a) (length b)))"
proof -
  have m: "length a mod 2 ^ 32 = length a" "length b mod 2 ^ 32 = length b"
    using assms by (simp_all only: mod_less)
  have t: "take (min (length a) (length b)) a = take (length b) a"
    "take (min (length a) (length b)) b = take (length a) b" by (simp_all add: min_def)
  show ?thesis
    unfolding mdb_cmp_memn_def m
    by (cases "length a" "length b" rule: linorder_cases)
      (simp_all add: c_memcmp_def cmp_uint_def Let_def)
qed

lemma memnr_loop_eq:
  "n \<le> p2 \<Longrightarrow> lim + n \<le> length a \<Longrightarrow> p2 \<le> length b \<Longrightarrow>
   memnr_loop a b lim (lim + n) p2 =
     (let d = byte_diff (take n (rev (take (lim + n) a))) (take n (rev (take p2 b)))
      in Some (if d = 0 then None else Some d))"
proof (induction n arbitrary: p2)
  case 0
  then show ?case by (simp add: memnr_loop.simps)
next
  case (Suc n)
  then obtain q2 where q2: "p2 = Suc q2" by (cases p2) auto
  have ra: "rev (take (lim + Suc n) a) = a ! (lim + n) # rev (take (lim + n) a)"
    and rb: "rev (take p2 b) = b ! q2 # rev (take q2 b)"
    using Suc.prems q2 by (simp_all add: take_Suc_conv_app_nth)
  show ?case
    using Suc.IH [of q2] Suc.prems
    by (subst memnr_loop.simps) (simp add: ra [simplified] rb [unfolded q2] q2 rd_in Let_def word_uint_eq_iff)
qed

lemma mdb_cmp_memnr_eq:
  "mdb_cmp_memnr a b =
    (let d = byte_diff (take (length (rev b)) (rev a)) (take (length (rev a)) (rev b))
     in Some (if d \<noteq> 0 then d else cmp_uint (length a) (length b)))"
proof (cases "length b < length a")
  case True
  then have "length a = (length a - length b) + length b" by simp
  then have "memnr_loop a b (length a - length b) (length a) (length b)
      = (let d = byte_diff (take (length b) (rev a)) (take (length b) (rev b))
         in Some (if d = 0 then None else Some d))"
    using memnr_loop_eq [of "length b" "length b" "length a - length b" a b] by simp
  then show ?thesis
    using True by (simp add: mdb_cmp_memnr_def cmp_uint_def Let_def nat_diff_distrib)
next
  case False
  then have "memnr_loop a b 0 (length a) (length b)
      = (let d = byte_diff (take (length a) (rev a)) (take (length a) (rev b))
         in Some (if d = 0 then None else Some d))"
    using memnr_loop_eq [of "length a" "length b" 0 a b] by simp
  then show ?thesis
    using False by (simp add: mdb_cmp_memnr_def cmp_uint_def Let_def)
qed

lemma lex_sign:
  fixes a b :: "u8 list"
  assumes "r = (let d = byte_diff (take (length b) a) (take (length a) b)
     in if d \<noteq> 0 then d else cmp_uint (length a) (length b))"
  shows "r < 0 \<longleftrightarrow> a < b" "0 < r \<longleftrightarrow> b < a"
  using byte_diff_order [of b a] unfolding assms by (auto simp: cmp_uint_def Let_def split: if_splits)

interpretation memn: comparator "\<lambda>v. length v < 2 ^ 32" mdb_cmp_memn "\<lambda>v. v"
proof
  fix a b :: mval and r :: int
  assume ab: "length a < 2 ^ 32" "length b < 2 ^ 32"
  note eq = mdb_cmp_memn_eq [OF ab]
  show "mdb_cmp_memn a b \<noteq> None" by (simp add: eq Let_def)
  assume "mdb_cmp_memn a b = Some r"
  then have r: "r = (let d = byte_diff (take (length b) a) (take (length a) b)
     in if d \<noteq> 0 then d else cmp_uint (length a) (length b))" by (simp add: eq Let_def)
  show "r < 0 \<longleftrightarrow> a < b" "0 < r \<longleftrightarrow> b < a" by (rule lex_sign [OF r])+
qed

interpretation memnr: comparator "\<lambda>_. True" mdb_cmp_memnr rev
proof
  fix a b :: mval and r :: int
  show "mdb_cmp_memnr a b \<noteq> None" by (simp add: mdb_cmp_memnr_eq Let_def)
  assume "mdb_cmp_memnr a b = Some r"
  then have r: "r = (let d = byte_diff (take (length (rev b)) (rev a)) (take (length (rev a)) (rev b))
     in if d \<noteq> 0 then d else cmp_uint (length (rev a)) (length (rev b)))"
    unfolding mdb_cmp_memnr_eq Let_def length_rev by (rule option.inject [THEN iffD1, symmetric])
  show "r < 0 \<longleftrightarrow> rev a < rev b" "0 < r \<longleftrightarrow> rev b < rev a" by (rule lex_sign [OF r])+
qed simp

section \<open>Integers\<close>

lemma le_val_append: "le_val (xs @ ys) = le_val xs + 256 ^ length xs * le_val ys"
  by (induction xs) (simp_all add: algebra_simps)

lemma le_val_less: "le_val xs < 256 ^ length xs"
proof (induction xs)
  case (Cons x xs)
  have "unat x < 256" using unsigned_less [of x] by simp
  then show ?case using Cons by simp
qed simp

lemma le_val_inj: "length xs = length ys \<Longrightarrow> le_val xs = le_val ys \<Longrightarrow> xs = ys"
proof (induction xs ys rule: list_induct2)
  case (Cons x xs y ys)
  have b: "unat x < 256" "unat y < 256" using unsigned_less [of x] unsigned_less [of y] by simp_all
  have e: "unat x + 256 * le_val xs = unat y + 256 * le_val ys" using Cons.prems by simp
  have "unat x = unat y" using arg_cong [OF e, of "\<lambda>n. n mod 256"] b by simp
  moreover from this have "le_val xs = le_val ys" using e by simp
  ultimately show ?case using Cons.IH by (simp add: word_unat_eq_iff)
qed simp

lemma cmp_uint_sign: "cmp_uint x y < 0 \<longleftrightarrow> x < y" "0 < cmp_uint x y \<longleftrightarrow> y < x"
  by (simp_all add: cmp_uint_def)

text \<open>The most significant digits decide.\<close>

lemma digits_order:
  fixes x y u v B :: nat
  assumes "x < B" "y < B"
  shows "u < v \<Longrightarrow> x + B * u < y + B * v"
proof -
  assume "u < v"
  then have "B * (u + 1) \<le> B * v" by (intro mult_le_mono2) simp
  then show ?thesis using assms(1) by simp
qed

lemma cint_loop_order:
  "even u \<Longrightarrow> 0 < u \<Longrightarrow> u \<le> length a \<Longrightarrow> u \<le> length b \<Longrightarrow>
   \<exists>r. cint_loop a b u = Some r \<and> (r < 0 \<longleftrightarrow> le_val (take u a) < le_val (take u b))
     \<and> (0 < r \<longleftrightarrow> le_val (take u b) < le_val (take u a))"
proof (induction u rule: less_induct)
  case (less u)
  define w where "w = u - 2"
  have u: "u = w + 2" "even w" using less.prems by (auto simp: w_def elim!: evenE)
  let ?x = "le_val (take 2 (drop w a))" and ?y = "le_val (take 2 (drop w b))"
  have sp: "le_val (take u v) = le_val (take w v) + 256 ^ w * le_val (take 2 (drop w v))"
    if "u \<le> length v" for v
    unfolding u(1) take_add le_val_append using that u(1) by (simp add: min_def)
  note spa = sp [OF less.prems(3)] and spb = sp [OF less.prems(4)]
  have lt: "le_val (take w v) < 256 ^ w" if "u \<le> length v" for v
    using le_val_less [of "take w v"] that u(1) by (simp add: min_def)
  note lta = lt [OF less.prems(3)] and ltb = lt [OF less.prems(4)]
  have step: "cint_loop a b u = (if ?x = ?y \<and> 0 < w then cint_loop a b w else Some (int ?x - int ?y))"
    using less.prems u(1) by (subst cint_loop.simps) (simp add: ld_def Let_def)
  show ?case
  proof (cases "?x = ?y")
    case True
    show ?thesis
    proof (cases "w = 0")
      case True
      then show ?thesis using \<open>?x = ?y\<close> step spa spb by simp
    next
      case False
      then show ?thesis
        using less.IH [of w] less.prems u True step spa spb by auto
    qed
  next
    case False
    then have "?x < ?y \<and> le_val (take u a) < le_val (take u b) \<or> ?y < ?x \<and> le_val (take u b) < le_val (take u a)"
      using digits_order [OF lta ltb, of ?x ?y] digits_order [OF ltb lta, of ?y ?x] spa spb by linarith
    then show ?thesis using step False by auto
  qed
qed

interpretation cint: comparator "\<lambda>v. length v = n \<and> even n \<and> 0 < n" mdb_cmp_cint le_val for n
proof
  fix a b :: mval and r :: int
  assume a: "length a = n \<and> even n \<and> 0 < n" and b: "length b = n \<and> even n \<and> 0 < n"
  obtain s where s: "mdb_cmp_cint a b = Some s" "s < 0 \<longleftrightarrow> le_val a < le_val b"
    "0 < s \<longleftrightarrow> le_val b < le_val a"
    using cint_loop_order [of n a b] a b by (auto simp: mdb_cmp_cint_def)
  then show "mdb_cmp_cint a b \<noteq> None" by simp
  show "mdb_cmp_cint a b = Some r \<Longrightarrow> r < 0 \<longleftrightarrow> le_val a < le_val b"
    and "mdb_cmp_cint a b = Some r \<Longrightarrow> 0 < r \<longleftrightarrow> le_val b < le_val a" using s by simp_all
  show "le_val a = le_val b \<Longrightarrow> a = b" using a b le_val_inj by simp
qed

interpretation long: comparator "\<lambda>v. length v = 8" mdb_cmp_long le_val
  by unfold_locales (auto simp: mdb_cmp_long_def ld_def cmp_uint_sign intro: le_val_inj)

interpretation uint: comparator "\<lambda>v. length v = 4" mdb_cmp_int le_val
  by unfold_locales (auto simp: mdb_cmp_int_def ld_def cmp_uint_sign intro: le_val_inj)


section \<open>Properties\<close>

text \<open>C24: \<open>mdb_cmp_memn\<close> is the lexicographic order of byte strings, a proper prefix first, and
  \<open>mdb_cmp_memnr\<close> the same order read from the last byte on: both answer for all strings (the first for
  sizes an \<open>unsigned int\<close> holds), read no byte outside them, and answer 0 only for equal strings.\<close>

theorem mdb_cmp_lexicographic:
  assumes "length a < 2 ^ 32" "length b < 2 ^ 32"
  shows "(\<exists>r. mdb_cmp_memn a b = Some r \<and> (r < 0 \<longleftrightarrow> a < b) \<and> (0 < r \<longleftrightarrow> b < a) \<and> (r = 0 \<longleftrightarrow> a = b))
    \<and> (\<exists>r. mdb_cmp_memnr a b = Some r \<and> (r < 0 \<longleftrightarrow> rev a < rev b) \<and> (0 < r \<longleftrightarrow> rev b < rev a)
          \<and> (r = 0 \<longleftrightarrow> a = b))"
proof
  show "\<exists>r. mdb_cmp_memn a b = Some r \<and> (r < 0 \<longleftrightarrow> a < b) \<and> (0 < r \<longleftrightarrow> b < a) \<and> (r = 0 \<longleftrightarrow> a = b)"
    by (rule memn.cmp_cases [OF assms]) blast
  show "\<exists>r. mdb_cmp_memnr a b = Some r \<and> (r < 0 \<longleftrightarrow> rev a < rev b) \<and> (0 < r \<longleftrightarrow> rev b < rev a)
          \<and> (r = 0 \<longleftrightarrow> a = b)"
    by (rule memnr.cmp_cases [of a b]) auto
qed

theorem mdb_cmp_lexicographic_witness:
  "(\<exists>r. mdb_cmp_memn [1, 9] [1, 9, 0] = Some r \<and> r < 0) \<and> (\<exists>r. mdb_cmp_memnr [1, 9] [1, 9, 0] = Some r \<and> 0 < r)"
proof -
  have "length [1 :: u8, 9] < 2 ^ 32" "length [1 :: u8, 9, 0] < 2 ^ 32" by simp_all
  from mdb_cmp_lexicographic [OF this] show ?thesis by auto
qed

text \<open>C25: On keys of one even size \<open>mdb_cmp_cint\<close>, which compares 16-bit units from the last to the first,
  is the order of the unsigned integers the keys hold, and for keys of eight and of four bytes
  \<open>mdb_cmp_long\<close> and \<open>mdb_cmp_int\<close>, which a branch page uses in its place, give the same sign.\<close>

theorem mdb_cmp_integer:
  assumes "length a = n" "length b = n" "even n" "0 < n"
  shows "\<exists>r. mdb_cmp_cint a b = Some r \<and> (r < 0 \<longleftrightarrow> le_val a < le_val b) \<and> (0 < r \<longleftrightarrow> le_val b < le_val a)
    \<and> (r = 0 \<longleftrightarrow> a = b)
    \<and> (n = 8 \<longrightarrow> map_option sgn (mdb_cmp_long a b) = Some (sgn r))
    \<and> (n = 4 \<longrightarrow> map_option sgn (mdb_cmp_int a b) = Some (sgn r))"
proof -
  have v: "length a = n \<and> even n \<and> 0 < n" "length b = n \<and> even n \<and> 0 < n" using assms by simp_all
  obtain r where r: "mdb_cmp_cint a b = Some r" "r < 0 \<longleftrightarrow> le_val a < le_val b"
    "0 < r \<longleftrightarrow> le_val b < le_val a" "r = 0 \<longleftrightarrow> a = b" by (rule cint.cmp_cases [OF v])
  have s: "sgn s = sgn r" if "s < 0 \<longleftrightarrow> le_val a < le_val b" "0 < s \<longleftrightarrow> le_val b < le_val a" for s :: int
    using that r(2,3) by (auto simp: sgn_if)
  have "n = 8 \<longrightarrow> map_option sgn (mdb_cmp_long a b) = Some (sgn r)"
    using assms(1,2) long.cmp_cases [of a b] s by (metis option.map(2))
  moreover have "n = 4 \<longrightarrow> map_option sgn (mdb_cmp_int a b) = Some (sgn r)"
    using assms(1,2) uint.cmp_cases [of a b] s by (metis option.map(2))
  ultimately show ?thesis using r by blast
qed

theorem mdb_cmp_integer_witness:
  "\<exists>r. mdb_cmp_cint [0, 1, 0, 0] [255, 0, 0, 0] = Some r \<and> 0 < r
     \<and> map_option sgn (mdb_cmp_int [0, 1, 0, 0] [255, 0, 0, 0]) = Some (sgn r)"
proof -
  have "length [0 :: u8, 1, 0, 0] = 4" "length [255 :: u8, 0, 0, 0] = 4" "even (4 :: nat)" "0 < (4 :: nat)" by simp_all
  from mdb_cmp_integer [OF this] show ?thesis by auto
qed

end
