(* ===== verification/Mdb_Page.thy ===== *)
theory Mdb_Page
  imports Mdb_Cmp
begin

text \<open>
  \<open>lmdb/mdb.c\<close>: pages as the byte arrays they are. A page starts with a header of 16 bytes (page number,
  pad, flags, \<open>mp_lower\<close>, \<open>mp_upper\<close>), followed by the array \<open>mp_ptrs\<close> of node offsets, free space, and
  the nodes, which grow from the end of the page downwards. This theory has the macros that read and
  write headers and nodes, the sizes of nodes, and the layout of a page that is in order. Access outside
  a page is \<open>None\<close>, and so is a failed assertion, which aborts the program.
\<close>

unbundle bit_operations_syntax

section \<open>Bytes\<close>

fun le_bytes :: "nat \<Rightarrow> nat \<Rightarrow> u8 list" where
  "le_bytes 0 x = []"
| "le_bytes (Suc n) x = of_nat x # le_bytes n (x div 256)"

definition st :: "nat \<Rightarrow> mval \<Rightarrow> nat \<Rightarrow> nat \<Rightarrow> mval option" where
  "st n p k x = (if k + n \<le> length p then Some (blit p k (le_bytes n x)) else None)"

text \<open>\<open>memcpy\<close> into a page, and \<open>memmove\<close> inside one.\<close>

definition put_bytes :: "mval \<Rightarrow> nat \<Rightarrow> mval \<Rightarrow> mval option" where
  "put_bytes p k bs = (if k + length bs \<le> length p then Some (blit p k bs) else None)"

definition get_bytes :: "mval \<Rightarrow> nat \<Rightarrow> nat \<Rightarrow> mval option" where
  "get_bytes p k n = (if k + n \<le> length p then Some (take n (drop k p)) else None)"

definition move_bytes :: "mval \<Rightarrow> nat \<Rightarrow> nat \<Rightarrow> nat \<Rightarrow> mval option" where
  "move_bytes p dst src n = do { bs \<leftarrow> get_bytes p src n; put_bytes p dst bs }"

section \<open>Headers\<close>

type_synonym page = "u8 list"

definition PAGEHDRSZ :: nat where "PAGEHDRSZ = 16"

definition P_BRANCH :: nat where "P_BRANCH = 0x01"
definition P_LEAF :: nat where "P_LEAF = 0x02"
definition P_OVERFLOW :: nat where "P_OVERFLOW = 0x04"
definition P_DIRTY :: nat where "P_DIRTY = 0x10"
definition P_LEAF2 :: nat where "P_LEAF2 = 0x20"
definition P_SUBP :: nat where "P_SUBP = 0x40"

text \<open>\<open>F_ISSET\<close> for flags of one bit.\<close>

definition F_ISSET :: "nat \<Rightarrow> nat \<Rightarrow> bool" where "F_ISSET w f \<longleftrightarrow> w AND f = f"

definition MP_PGNO :: "page \<Rightarrow> nat option" where "MP_PGNO p = ld 8 p 0"
definition MP_FLAGS :: "page \<Rightarrow> nat option" where "MP_FLAGS p = ld 2 p 10"
definition MP_LOWER :: "page \<Rightarrow> nat option" where "MP_LOWER p = ld 2 p 12"
definition MP_UPPER :: "page \<Rightarrow> nat option" where "MP_UPPER p = ld 2 p 14"
definition MP_PTRS :: "page \<Rightarrow> nat \<Rightarrow> nat option" where "MP_PTRS p i = ld 2 p (PAGEHDRSZ + 2 * i)"

text \<open>\<open>NUMKEYS\<close>: the header size is an \<open>unsigned int\<close>, so the difference wraps at 32 bits.\<close>

definition NUMKEYS :: "page \<Rightarrow> nat option" where
  "NUMKEYS p = map_option (\<lambda>lower. nat ((int lower - int PAGEHDRSZ) mod 2 ^ 32) div 2) (MP_LOWER p)"

text \<open>\<open>SIZELEFT\<close> is a difference converted to 16 bits.\<close>

definition SIZELEFT :: "page \<Rightarrow> nat option" where
  "SIZELEFT p = do { upper \<leftarrow> MP_UPPER p; lower \<leftarrow> MP_LOWER p; Some (nat ((int upper - int lower) mod 2 ^ 16)) }"

definition IS_LEAF :: "page \<Rightarrow> bool option" where "IS_LEAF p = map_option (\<lambda>f. F_ISSET f P_LEAF) (MP_FLAGS p)"
definition IS_LEAF2 :: "page \<Rightarrow> bool option" where "IS_LEAF2 p = map_option (\<lambda>f. F_ISSET f P_LEAF2) (MP_FLAGS p)"
definition IS_BRANCH :: "page \<Rightarrow> bool option" where "IS_BRANCH p = map_option (\<lambda>f. F_ISSET f P_BRANCH) (MP_FLAGS p)"

section \<open>Nodes\<close>

definition NODESIZE :: nat where "NODESIZE = 8"
definition F_BIGDATA :: nat where "F_BIGDATA = 0x01"
definition F_SUBDATA :: nat where "F_SUBDATA = 0x02"
definition F_DUPDATA :: nat where "F_DUPDATA = 0x04"

text \<open>A node is at an offset of its page: \<open>NODEPTR\<close>. The macros read its fields.\<close>

definition NODEPTR :: "page \<Rightarrow> nat \<Rightarrow> nat option" where "NODEPTR p i = MP_PTRS p i"
definition NODEKSZ :: "page \<Rightarrow> nat \<Rightarrow> nat option" where "NODEKSZ p off = ld 2 p (off + 6)"
definition NODEFLAGS :: "page \<Rightarrow> nat \<Rightarrow> nat option" where "NODEFLAGS p off = ld 2 p (off + 4)"

definition NODEKEY :: "page \<Rightarrow> nat \<Rightarrow> mval option" where
  "NODEKEY p off = do { ks \<leftarrow> NODEKSZ p off; get_bytes p (off + NODESIZE) ks }"

definition NODEDSZ :: "page \<Rightarrow> nat \<Rightarrow> nat option" where
  "NODEDSZ p off = do { lo \<leftarrow> ld 2 p off; hi \<leftarrow> ld 2 p (off + 2); Some (lo + hi * 2 ^ 16) }"

definition NODEPGNO :: "page \<Rightarrow> nat \<Rightarrow> nat option" where
  "NODEPGNO p off =
     do { lo \<leftarrow> ld 2 p off; hi \<leftarrow> ld 2 p (off + 2); fl \<leftarrow> NODEFLAGS p off; Some (lo + hi * 2 ^ 16 + fl * 2 ^ 32) }"

text \<open>Where the data of a node starts.\<close>

definition NODEDATA :: "page \<Rightarrow> nat \<Rightarrow> nat option" where
  "NODEDATA p off = do { ks \<leftarrow> NODEKSZ p off; Some (off + NODESIZE + ks) }"

definition SETDSZ :: "page \<Rightarrow> nat \<Rightarrow> nat \<Rightarrow> page option" where
  "SETDSZ p off dsz = do { p \<leftarrow> st 2 p off (dsz mod 2 ^ 16); st 2 p (off + 2) (dsz div 2 ^ 16) }"

definition SETPGNO :: "page \<Rightarrow> nat \<Rightarrow> nat \<Rightarrow> page option" where
  "SETPGNO p off pgno =
     do { p \<leftarrow> st 2 p off (pgno mod 2 ^ 16); p \<leftarrow> st 2 p (off + 2) (pgno div 2 ^ 16);
          st 2 p (off + 4) (pgno div 2 ^ 32) }"

definition LEAF2KEY :: "nat \<Rightarrow> nat \<Rightarrow> nat" where "LEAF2KEY i ks = PAGEHDRSZ + i * ks"

section \<open>Sizes\<close>

definition EVEN :: "nat \<Rightarrow> nat" where "EVEN n = 2 * ((n + 1) div 2)"

definition LEAFSIZE :: "mval \<Rightarrow> mval \<Rightarrow> nat" where "LEAFSIZE k d = NODESIZE + length k + length d"

definition INDXSIZE :: "mval option \<Rightarrow> nat" where
  "INDXSIZE k = NODESIZE + (case k of None \<Rightarrow> 0 | Some k \<Rightarrow> length k)"

definition OVPAGES :: "nat \<Rightarrow> nat \<Rightarrow> nat" where "OVPAGES dsz psize = (PAGEHDRSZ - 1 + dsz) div psize + 1"

record env =
  me_psize :: nat
  me_nodemax :: nat

definition mdb_leaf_size :: "env \<Rightarrow> mval \<Rightarrow> mval \<Rightarrow> nat" where
  "mdb_leaf_size env key data =
     (let sz = LEAFSIZE key data;
          sz = (if me_nodemax env < sz then sz - length data + 8 else sz)
      in EVEN (sz + 2))"

definition mdb_branch_size :: "env \<Rightarrow> mval option \<Rightarrow> nat" where
  "mdb_branch_size env key = INDXSIZE key + 2"


section \<open>Regions of a byte array\<close>

named_theorems region_simps \<open>reading a region of a byte array after a write\<close>

definition sub :: "u8 list \<Rightarrow> nat \<Rightarrow> nat \<Rightarrow> u8 list" where "sub p k n = take n (drop k p)"

lemma sub_sub: "j + n \<le> m \<Longrightarrow> sub (sub p k m) j n = sub p (k + j) n"
  by (simp add: sub_def drop_take min_def add.commute)

lemma length_sub [simp]: "k + n \<le> length p \<Longrightarrow> length (sub p k n) = n"
  by (simp add: sub_def)

lemma sub_blit_other [region_simps]:
  "k + length bs \<le> length p \<Longrightarrow> j + n \<le> k \<or> k + length bs \<le> j \<Longrightarrow> sub (blit p k bs) j n = sub p j n"
  unfolding sub_def by (elim disjE) (simp_all add: take_drop_blit_before)

lemma sub_blit_same [region_simps]:
  "k + length bs \<le> length p \<Longrightarrow> length bs = n \<Longrightarrow> sub (blit p k bs) k n = bs"
  unfolding sub_def using take_drop_blit_same by blast

lemma sub_blit_inside:
  "k + length bs \<le> length p \<Longrightarrow> j + n \<le> length bs \<Longrightarrow> sub (blit p k bs) (k + j) n = sub bs j n"
  using sub_sub [of j n "length bs" "blit p k bs" k] by (simp add: sub_blit_same)

lemma sub_split: "sub p k (m + n) = sub p k m @ sub p (k + m) n"
  by (simp add: sub_def take_add add.commute)

lemma length_le_bytes [simp]: "length (le_bytes n x) = n"
  by (induction n arbitrary: x) simp_all

lemma le_val_le_bytes: "le_val (le_bytes n x) = x mod 256 ^ n"
proof (induction n arbitrary: x)
  case (Suc n)
  have "unat (of_nat x :: u8) = x mod 256" by (simp add: unat_of_nat)
  then show ?case using Suc [of "x div 256"] by (simp add: mod_mult2_eq)
qed simp

lemma le_bytes_mod: "le_bytes n (x mod 256 ^ n) = le_bytes n x"
  by (rule le_val_inj) (simp_all add: le_val_le_bytes)

definition le_at :: "nat \<Rightarrow> u8 list \<Rightarrow> nat \<Rightarrow> nat" where "le_at n p k = le_val (sub p k n)"

lemma ld_le_at: "k + n \<le> length p \<Longrightarrow> ld n p k = Some (le_at n p k)"
  by (simp add: ld_def le_at_def sub_def)

lemma ld_SomeD: "ld n p k = Some x \<Longrightarrow> k + n \<le> length p \<and> x = le_at n p k"
  by (simp add: ld_def le_at_def sub_def split: if_splits)

lemma le_at_blit_other [region_simps]:
  "k + length bs \<le> length p \<Longrightarrow> j + n \<le> k \<or> k + length bs \<le> j \<Longrightarrow> le_at n (blit p k bs) j = le_at n p j"
  by (simp add: le_at_def sub_blit_other)

lemma le_at_blit_same [region_simps]:
  "k + n \<le> length p \<Longrightarrow> le_at n (blit p k (le_bytes n x)) k = x mod 256 ^ n"
  by (simp add: le_at_def sub_blit_same le_val_le_bytes)

lemma le_at_less: "k + n \<le> length p \<Longrightarrow> le_at n p k < 256 ^ n"
  using le_val_less [of "sub p k n"] by (simp add: le_at_def)

lemma le_at_split: "k + (m + n) \<le> length p \<Longrightarrow> le_at (m + n) p k = le_at m p k + 256 ^ m * le_at n p (k + m)"
  by (simp add: le_at_def sub_split le_val_append)

lemma le_at_Suc: "k < length p \<Longrightarrow> le_at (Suc n) p k = unat (p ! k) + 256 * le_at n p (k + 1)"
  by (simp add: le_at_def sub_def Cons_nth_drop_Suc [symmetric])

lemma le_at_nth:
  "k + 2 \<le> length p \<Longrightarrow> le_at 2 p k = unat (p ! k) + 256 * unat (p ! (k + 1))"
  "k + 4 \<le> length p \<Longrightarrow> le_at 4 p k =
     unat (p ! k) + 256 * (unat (p ! (k + 1)) + 256 * (unat (p ! (k + 2)) + 256 * unat (p ! (k + 3))))"
  by (simp_all add: numeral_2_eq_2 numeral_3_eq_3 numeral_Bit0 [of "num.Bit0 num.One"] le_at_Suc)
    (simp_all add: le_at_def sub_def)

section \<open>The layout of a page\<close>

definition pg_flags :: "page \<Rightarrow> nat" where "pg_flags p = le_at 2 p 10"
definition pg_lower :: "page \<Rightarrow> nat" where "pg_lower p = le_at 2 p 12"
definition pg_upper :: "page \<Rightarrow> nat" where "pg_upper p = le_at 2 p 14"
definition pg_ptr :: "page \<Rightarrow> nat \<Rightarrow> nat" where "pg_ptr p i = le_at 2 p (16 + 2 * i)"
definition pg_cnt :: "page \<Rightarrow> nat" where "pg_cnt p = nat ((int (pg_lower p) - 16) mod 2 ^ 32) div 2"
definition pg_leaf :: "page \<Rightarrow> bool" where "pg_leaf p \<longleftrightarrow> F_ISSET (pg_flags p) P_LEAF"

text \<open>The count of a page whose header is in order.\<close>

lemma pg_cnt_eq: "16 \<le> pg_lower p \<Longrightarrow> pg_cnt p = (pg_lower p - 16) div 2"
proof -
  assume "16 \<le> pg_lower p"
  moreover have "(256 :: nat) ^ length (sub p 12 2) \<le> 256 ^ 2" by (rule power_increasing) (simp_all add: sub_def)
  then have "pg_lower p < 2 ^ 16" using le_val_less [of "sub p 12 2"] by (simp add: pg_lower_def le_at_def)
  ultimately show ?thesis by (simp add: pg_cnt_def of_nat_diff [symmetric] del: of_nat_diff)
qed

text \<open>A decoded node: its flags, its key, the 32-bit field that holds the data size of a leaf node or the
  low part of the page number of a branch node, and its data; a node whose data is on overflow pages
  has their page number for data.\<close>

record node =
  nd_flags :: nat
  nd_key :: mval
  nd_word :: nat
  nd_data :: mval

definition n_ksize :: "page \<Rightarrow> nat \<Rightarrow> nat" where "n_ksize p off = le_at 2 p (off + 6)"
definition n_flags :: "page \<Rightarrow> nat \<Rightarrow> nat" where "n_flags p off = le_at 2 p (off + 4)"
definition n_word :: "page \<Rightarrow> nat \<Rightarrow> nat" where "n_word p off = le_at 4 p off"

definition data_size :: "bool \<Rightarrow> nat \<Rightarrow> nat \<Rightarrow> nat" where
  "data_size leaf flags word = (if leaf then if F_ISSET flags F_BIGDATA then 8 else word else 0)"

definition n_dsize :: "bool \<Rightarrow> page \<Rightarrow> nat \<Rightarrow> nat" where
  "n_dsize leaf p off = data_size leaf (n_flags p off) (n_word p off)"

definition n_size :: "bool \<Rightarrow> page \<Rightarrow> nat \<Rightarrow> nat" where
  "n_size leaf p off = EVEN (8 + n_ksize p off + n_dsize leaf p off)"

definition node_at :: "bool \<Rightarrow> page \<Rightarrow> nat \<Rightarrow> node" where
  "node_at leaf p off =
     \<lparr>nd_flags = n_flags p off, nd_key = sub p (off + 8) (n_ksize p off), nd_word = n_word p off,
      nd_data = sub p (off + 8 + n_ksize p off) (n_dsize leaf p off)\<rparr>"

definition page_nodes :: "page \<Rightarrow> node list" where
  "page_nodes p = map (\<lambda>i. node_at (pg_leaf p) p (pg_ptr p i)) [0..<pg_cnt p]"

text \<open>A page in order: the bounds of its free space, and nodes that lie inside the page above the free
  space, at even offsets, and do not overlap; together they fill the space above.\<close>

definition page_wf :: "page \<Rightarrow> bool" where
  "page_wf p \<longleftrightarrow>
     length p \<le> 2 ^ 15 \<and> 16 \<le> pg_lower p \<and> even (pg_lower p) \<and> pg_lower p \<le> pg_upper p
     \<and> even (pg_upper p) \<and> pg_upper p \<le> length p \<and> \<not> F_ISSET (pg_flags p) P_LEAF2
     \<and> (\<forall>i < pg_cnt p. pg_upper p \<le> pg_ptr p i \<and> even (pg_ptr p i)
          \<and> pg_ptr p i + n_size (pg_leaf p) p (pg_ptr p i) \<le> length p)
     \<and> (\<forall>i < pg_cnt p. \<forall>j < pg_cnt p. i \<noteq> j \<longrightarrow>
          pg_ptr p i + n_size (pg_leaf p) p (pg_ptr p i) \<le> pg_ptr p j
          \<or> pg_ptr p j + n_size (pg_leaf p) p (pg_ptr p j) \<le> pg_ptr p i)
     \<and> pg_upper p + (\<Sum>i < pg_cnt p. n_size (pg_leaf p) p (pg_ptr p i)) = length p"

lemma EVEN_bounds [simp]: "n \<le> EVEN n" "EVEN n \<le> n + 1" "even (EVEN n)"
  by (simp_all add: EVEN_def)

lemma n_size_ge: "8 + n_ksize p off + n_dsize leaf p off \<le> n_size leaf p off" "8 \<le> n_size leaf p off"
  using EVEN_bounds(1) [of "8 + n_ksize p off + n_dsize leaf p off"] unfolding n_size_def by linarith+

text \<open>A node is determined by the bytes it occupies: moved as a whole it stays the same node.\<close>

lemma le_at_moved:
  "sub q off' m = sub p off m \<Longrightarrow> j + n \<le> m \<Longrightarrow> le_at n q (off' + j) = le_at n p (off + j)"
  unfolding le_at_def using sub_sub [of j n m q off'] sub_sub [of j n m p off] by simp

lemma node_moved:
  assumes m: "sub q off' m = sub p off m" "n_size leaf p off \<le> m"
  shows "node_at leaf q off' = node_at leaf p off" "n_size leaf q off' = n_size leaf p off"
proof -
  have 8: "8 \<le> m" using m(2) n_size_ge(2) [of leaf p off] by linarith
  have h: "n_ksize q off' = n_ksize p off" "n_flags q off' = n_flags p off" "n_word q off' = n_word p off"
    using 8 le_at_moved [OF m(1), of 6 2] le_at_moved [OF m(1), of 4 2] le_at_moved [OF m(1), of 0 4]
    by (simp_all add: n_ksize_def n_flags_def n_word_def)
  then have d: "n_dsize leaf q off' = n_dsize leaf p off" by (simp add: n_dsize_def)
  have "8 + n_ksize p off + n_dsize leaf p off \<le> m" using n_size_ge(1) [of p off leaf] m(2) by linarith
  then have "sub q (off' + 8) (n_ksize p off) = sub p (off + 8) (n_ksize p off)"
    "sub q (off' + (8 + n_ksize p off)) (n_dsize leaf p off) = sub p (off + (8 + n_ksize p off)) (n_dsize leaf p off)"
    using m(1) sub_sub [of 8 "n_ksize p off" m q off'] sub_sub [of 8 "n_ksize p off" m p off]
      sub_sub [of "8 + n_ksize p off" "n_dsize leaf p off" m q off']
      sub_sub [of "8 + n_ksize p off" "n_dsize leaf p off" m p off] by simp_all
  then show "node_at leaf q off' = node_at leaf p off" by (simp add: node_at_def h d ac_simps)
  show "n_size leaf q off' = n_size leaf p off" by (simp add: n_size_def h d)
qed

end
