(* ===== verification/Mdb_Node.thy ===== *)
theory Mdb_Node
  imports Mdb_Page
begin

text \<open>
  \<open>lmdb/mdb.c\<close>: adding nodes to pages and deleting them (\<open>mdb_page_new\<close>, \<open>mdb_node_add\<close>,
  \<open>mdb_node_del\<close>), on the byte arrays of \<open>Mdb_Page\<close>. The theorems say that on a page in order they insert
  and delete in the list of decoded nodes and keep the page in order.
\<close>

unbundle bit_operations_syntax

definition MDB_RESERVE :: nat where "MDB_RESERVE = 0x10000"
definition MDB_PAGE_FULL :: int where "MDB_PAGE_FULL = - 30786"

text \<open>The bit of \<open>mt_flags\<close> that makes a transaction unusable after an error.\<close>

definition TXN_ERROR :: u32 where "TXN_ERROR = 0x02"

section \<open>New pages\<close>

text \<open>\<open>struct MDB_db\<close>.\<close>

record MDB_db =
  md_pad :: u32
  md_flags :: u16
  md_depth :: u16
  md_branch_pages :: u64
  md_leaf_pages :: u64
  md_overflow_pages :: u64
  md_entries :: u64
  md_root :: u64

text \<open>\<open>mdb_page_new\<close>, for the answer of \<open>mdb_page_alloc\<close>: an error code or memory for \<open>num\<close> pages.\<close>

definition mdb_page_new ::
  "env \<Rightarrow> MDB_db \<Rightarrow> int + page \<Rightarrow> nat \<Rightarrow> nat \<Rightarrow> (int \<times> MDB_db \<times> page option) option" where
  "mdb_page_new env db allocated flags num =
     (case allocated of
        Inl rc \<Rightarrow> Some (rc, db, None)
      | Inr np \<Rightarrow>
          do { np \<leftarrow> st 2 np 10 (flags OR P_DIRTY);
               np \<leftarrow> st 2 np 12 PAGEHDRSZ;
               np \<leftarrow> st 2 np 14 (me_psize env);
               f \<leftarrow> MP_FLAGS np;
               if F_ISSET f P_BRANCH then Some (0, db\<lparr>md_branch_pages := md_branch_pages db + 1\<rparr>, Some np)
               else if F_ISSET f P_LEAF then Some (0, db\<lparr>md_leaf_pages := md_leaf_pages db + 1\<rparr>, Some np)
               else if F_ISSET f P_OVERFLOW
               then do { np \<leftarrow> st 4 np 12 num;
                         Some (0, db\<lparr>md_overflow_pages := md_overflow_pages db + of_nat num\<rparr>, Some np) }
               else Some (0, db, Some np) })"

section \<open>Adding a node\<close>

text \<open>A data item: its size, and the bytes its pointer gives access to (for data on overflow pages these
  are the bytes of a page number).\<close>

record MDB_val =
  mv_size :: nat
  mv_data :: mval

text \<open>The loop that moves the higher pointers up one slot.\<close>

fun ptrs_up :: "page \<Rightarrow> nat \<Rightarrow> nat \<Rightarrow> page option" where
  "ptrs_up mp indx 0 = Some mp"
| "ptrs_up mp indx (Suc i) =
     (if indx \<le> i
      then do { v \<leftarrow> MP_PTRS mp i; mp \<leftarrow> st 2 mp (PAGEHDRSZ + 2 * Suc i) v; ptrs_up mp indx i }
      else Some mp)"

text \<open>A difference of two \<open>indx_t\<close>s, as \<open>indx_t\<close>.\<close>

definition indx_sub :: "nat \<Rightarrow> nat \<Rightarrow> nat" where
  "indx_sub x y = nat ((int x - int y) mod 2 ^ 16)"

text \<open>A \<open>DUPFIXED\<close> page: the keys follow the header, without nodes.\<close>

definition leaf2_add :: "page \<Rightarrow> nat \<Rightarrow> nat \<Rightarrow> mval \<Rightarrow> page option" where
  "leaf2_add mp indx ksize key =
     do { n \<leftarrow> NUMKEYS mp;
          let ptr = LEAF2KEY indx ksize;
          mp \<leftarrow> (if indx < n then move_bytes mp (ptr + ksize) ptr ((n - indx) * ksize) else Some mp);
          k \<leftarrow> get_bytes key 0 ksize;
          mp \<leftarrow> put_bytes mp ptr k;
          lower \<leftarrow> MP_LOWER mp; upper \<leftarrow> MP_UPPER mp;
          mp \<leftarrow> st 2 mp 12 (lower + 2);
          st 2 mp 14 (indx_sub (upper + 2) ksize) }"

text \<open>Writing the node at the offset \<open>off\<close>. \<open>ofp\<close> is the overflow page, if one was allocated; the data
  then goes there and the node gets its page number.\<close>

definition node_write ::
  "page \<Rightarrow> nat \<Rightarrow> mval option \<Rightarrow> MDB_val option \<Rightarrow> nat \<Rightarrow> nat \<Rightarrow> page option \<Rightarrow> (page \<times> page option) option" where
  "node_write mp off key data pgno flags ofp =
     do { mp \<leftarrow> st 2 mp (off + 6) (case key of None \<Rightarrow> 0 | Some k \<Rightarrow> length k);
          mp \<leftarrow> st 2 mp (off + 4) flags;
          leaf \<leftarrow> IS_LEAF mp;
          mp \<leftarrow> (case (leaf, data) of
                  (True, Some d) \<Rightarrow> SETDSZ mp off (mv_size d) | (True, None) \<Rightarrow> None
                | (False, _) \<Rightarrow> SETPGNO mp off pgno);
          mp \<leftarrow> (case key of None \<Rightarrow> Some mp | Some k \<Rightarrow> put_bytes mp (off + NODESIZE) k);
          ndata \<leftarrow> NODEDATA mp off;
          case (leaf, data) of
            (True, Some d) \<Rightarrow>
              (case ofp of
                 None \<Rightarrow>
                   if F_ISSET flags F_BIGDATA
                   then do { bs \<leftarrow> get_bytes (mv_data d) 0 8; mp \<leftarrow> put_bytes mp ndata bs; Some (mp, None) }
                   else if F_ISSET flags MDB_RESERVE then Some (mp, None)
                   else do { bs \<leftarrow> get_bytes (mv_data d) 0 (mv_size d); mp \<leftarrow> put_bytes mp ndata bs; Some (mp, None) }
               | Some ov \<Rightarrow>
                   do { no \<leftarrow> get_bytes ov 0 8;
                        mp \<leftarrow> put_bytes mp ndata no;
                        if F_ISSET flags MDB_RESERVE then Some (mp, Some ov)
                        else do { bs \<leftarrow> get_bytes (mv_data d) 0 (mv_size d);
                                  ov \<leftarrow> put_bytes ov PAGEHDRSZ bs; Some (mp, Some ov) } })
          | _ \<Rightarrow> Some (mp, None) }"

text \<open>The code from the label \<open>update\<close> on: make room in the pointer array, and write the node.\<close>

definition ptr_insert :: "page \<Rightarrow> nat \<Rightarrow> nat \<Rightarrow> page option" where
  "ptr_insert mp indx node_size =
     do { n \<leftarrow> NUMKEYS mp;
          mp \<leftarrow> ptrs_up mp indx n;
          upper \<leftarrow> MP_UPPER mp; lower \<leftarrow> MP_LOWER mp;
          let ofs = indx_sub upper node_size;
          if ofs < lower + 2 then None
          else do { mp \<leftarrow> st 2 mp (PAGEHDRSZ + 2 * indx) ofs;
                    mp \<leftarrow> st 2 mp 14 ofs;
                    st 2 mp 12 (lower + 2) } }"

definition node_update ::
  "page \<Rightarrow> nat \<Rightarrow> mval option \<Rightarrow> MDB_val option \<Rightarrow> nat \<Rightarrow> nat \<Rightarrow> nat \<Rightarrow> page option
   \<Rightarrow> (page \<times> page option) option" where
  "node_update mp indx key data pgno flags node_size ofp =
     do { mp \<leftarrow> ptr_insert mp indx node_size;
          off \<leftarrow> NODEPTR mp indx;
          node_write mp off key data pgno flags ofp }"

text \<open>\<open>mdb_node_add\<close>: the return code, the page, the database's page counts, the flags of the transaction
  and the overflow page, if any. \<open>tf\<close> holds the flags of the transaction, which the code at the label
  \<open>full\<close> marks, as \<open>mdb_page_alloc\<close> does before it answers an error. \<open>alloc\<close> is what \<open>mdb_page_alloc\<close>
  answers to a request for a number of pages.\<close>

definition mdb_node_add ::
  "env \<Rightarrow> MDB_db \<Rightarrow> u32 \<Rightarrow> (nat \<Rightarrow> int + page) \<Rightarrow> page \<Rightarrow> nat \<Rightarrow> mval option \<Rightarrow> MDB_val option \<Rightarrow> nat \<Rightarrow> nat
   \<Rightarrow> (int \<times> page \<times> MDB_db \<times> u32 \<times> page option) option" where
  "mdb_node_add env db tf alloc mp indx key data pgno flags =
     do { upper \<leftarrow> MP_UPPER mp; lower \<leftarrow> MP_LOWER mp;
          leaf2 \<leftarrow> IS_LEAF2 mp; leaf \<leftarrow> IS_LEAF mp;
          left \<leftarrow> SIZELEFT mp;
          let room = int left - 2;
          let node_size = NODESIZE + (case key of None \<Rightarrow> 0 | Some k \<Rightarrow> length k);
          if upper < lower then None
          else if leaf2
          then (case key of
                  None \<Rightarrow> None
                | Some k \<Rightarrow> do { mp \<leftarrow> leaf2_add mp indx (unat (md_pad db)) k; Some (0, mp, db, tf, None) })
          else case (leaf, key, data) of
            (True, Some k, Some d) \<Rightarrow>
              if \<not> F_ISSET flags F_BIGDATA \<and> me_nodemax env < node_size + mv_size d
              then do { let ovpages = OVPAGES (mv_size d) (me_psize env);
                        let node_size = EVEN (node_size + 8);
                        if room < int node_size then Some (MDB_PAGE_FULL, mp, db, tf OR TXN_ERROR, None)
                        else do { (rc, db, ofp) \<leftarrow> mdb_page_new env db (alloc ovpages) P_OVERFLOW ovpages;
                                  if rc \<noteq> 0 then Some (rc, mp, db, tf OR TXN_ERROR, None)
                                  else do { (mp, ofp) \<leftarrow> node_update mp indx key data pgno (flags OR F_BIGDATA) node_size ofp;
                                            Some (0, mp, db, tf, ofp) } } }
              else do { let node_size = EVEN (node_size + (if F_ISSET flags F_BIGDATA then 8 else mv_size d));
                        if room < int node_size then Some (MDB_PAGE_FULL, mp, db, tf OR TXN_ERROR, None)
                        else do { (mp, ofp) \<leftarrow> node_update mp indx key data pgno flags node_size None;
                                  Some (0, mp, db, tf, ofp) } }
          | (True, _, _) \<Rightarrow> None
          | (False, _, _) \<Rightarrow>
              do { let node_size = EVEN node_size;
                   if room < int node_size then Some (MDB_PAGE_FULL, mp, db, tf OR TXN_ERROR, None)
                   else do { (mp, ofp) \<leftarrow> node_update mp indx key data pgno flags node_size None;
                             Some (0, mp, db, tf, ofp) } } }"

section \<open>Deleting a node\<close>

text \<open>The loop over the pointers: \<open>m\<close> are left to visit, from \<open>i\<close> on.\<close>

fun ptrs_down :: "page \<Rightarrow> nat \<Rightarrow> nat \<Rightarrow> nat \<Rightarrow> nat \<Rightarrow> nat \<Rightarrow> nat \<Rightarrow> page option" where
  "ptrs_down mp indx ptr sz 0 i j = Some mp"
| "ptrs_down mp indx ptr sz (Suc m) i j =
     (if i \<noteq> indx
      then do { v \<leftarrow> MP_PTRS mp i;
                mp \<leftarrow> st 2 mp (PAGEHDRSZ + 2 * j) v;
                v \<leftarrow> MP_PTRS mp i;
                mp \<leftarrow> (if v < ptr
                      then do { w \<leftarrow> MP_PTRS mp j; st 2 mp (PAGEHDRSZ + 2 * j) (w + sz) } else Some mp);
                ptrs_down mp indx ptr sz m (i + 1) (j + 1) }
      else ptrs_down mp indx ptr sz m (i + 1) j)"

definition leaf2_del :: "page \<Rightarrow> nat \<Rightarrow> nat \<Rightarrow> page option" where
  "leaf2_del mp indx ksize =
     do { n \<leftarrow> NUMKEYS mp;
          let x = n - 1 - indx;
          let base = LEAF2KEY indx ksize;
          mp \<leftarrow> (if x \<noteq> 0 then move_bytes mp base (base + ksize) (x * ksize) else Some mp);
          lower \<leftarrow> MP_LOWER mp; upper \<leftarrow> MP_UPPER mp;
          mp \<leftarrow> st 2 mp 12 (indx_sub lower 2);
          st 2 mp 14 (indx_sub (upper + ksize) 2) }"

definition mdb_node_del :: "page \<Rightarrow> nat \<Rightarrow> nat \<Rightarrow> page option" where
  "mdb_node_del mp indx ksize =
     do { numkeys \<leftarrow> NUMKEYS mp;
          leaf2 \<leftarrow> IS_LEAF2 mp; leaf \<leftarrow> IS_LEAF mp;
          if numkeys \<le> indx then None
          else if leaf2 then leaf2_del mp indx ksize
          else do {
          off \<leftarrow> NODEPTR mp indx;
          ks \<leftarrow> NODEKSZ mp off; fl \<leftarrow> NODEFLAGS mp off; dsz \<leftarrow> NODEDSZ mp off;
          let sz = EVEN (NODESIZE + ks + (if leaf then if F_ISSET fl F_BIGDATA then 8 else dsz else 0));
          mp \<leftarrow> ptrs_down mp indx off sz numkeys 0 0;
          base \<leftarrow> MP_UPPER mp;
          mp \<leftarrow> (if off < base then None else move_bytes mp (base + sz) base (off - base));
          lower \<leftarrow> MP_LOWER mp;
          mp \<leftarrow> st 2 mp 12 (indx_sub lower 2);
          upper \<leftarrow> MP_UPPER mp;
          st 2 mp 14 (upper + sz) } }"


section \<open>The pointer array\<close>

lemma indx_sub_eq: "y \<le> x \<Longrightarrow> x < 2 ^ 16 \<Longrightarrow> indx_sub x y = x - y"
  by (simp add: indx_sub_def of_nat_diff [symmetric] del: of_nat_diff)

lemma pg_ptr_blit:
  "18 + 2 * i \<le> length p \<Longrightarrow> pg_ptr (blit p (16 + 2 * i) (le_bytes 2 v)) k = (if k = i then v mod 2 ^ 16 else pg_ptr p k)"
  by (cases k i rule: linorder_cases) (simp_all add: pg_ptr_def region_simps)

lemma pg_ptr_less: "18 + 2 * i \<le> length p \<Longrightarrow> pg_ptr p i < 2 ^ 16"
  using le_at_less [of "16 + 2 * i" 2 p] by (simp add: pg_ptr_def)

lemma pg_ptr_region: "16 + 2 * k + 2 \<le> a \<Longrightarrow> (\<And>j n. j + n \<le> a \<Longrightarrow> sub q j n = sub p j n) \<Longrightarrow> pg_ptr q k = pg_ptr p k"
  by (simp add: pg_ptr_def le_at_def)

lemma ptrs_up_spec:
  "18 + 2 * i \<le> length p \<Longrightarrow> \<exists>p'. ptrs_up p indx i = Some p' \<and> length p' = length p
     \<and> (\<forall>k. pg_ptr p' k = (if indx < k \<and> k \<le> i then pg_ptr p (k - 1) else pg_ptr p k))
     \<and> (\<forall>k n. k + n \<le> 16 \<or> 18 + 2 * i \<le> k \<longrightarrow> sub p' k n = sub p k n)"
proof (induction i arbitrary: p)
  case (Suc i)
  show ?case
  proof (cases "indx \<le> i")
    case True
    define Q where "Q = blit p (16 + 2 * Suc i) (le_bytes 2 (pg_ptr p i))"
    have l: "length Q = length p" using Suc.prems by (simp add: Q_def)
    have "MP_PTRS p i = Some (pg_ptr p i)"
      using Suc.prems by (simp add: MP_PTRS_def PAGEHDRSZ_def pg_ptr_def ld_le_at)
    then have s: "ptrs_up p indx (Suc i) = ptrs_up Q indx i"
      using True Suc.prems by (simp add: st_def PAGEHDRSZ_def Q_def)
    obtain p' where p': "ptrs_up Q indx i = Some p'" "length p' = length p"
      "\<And>k. pg_ptr p' k = (if indx < k \<and> k \<le> i then pg_ptr Q (k - 1) else pg_ptr Q k)"
      "\<And>k n. k + n \<le> 16 \<or> 18 + 2 * i \<le> k \<Longrightarrow> sub p' k n = sub Q k n"
      using Suc.IH [of Q] Suc.prems l by auto
    have q: "pg_ptr Q k = (if k = Suc i then pg_ptr p i else pg_ptr p k)" for k
      using pg_ptr_blit [of "Suc i" p "pg_ptr p i" k] pg_ptr_less [of i p] Suc.prems by (simp add: Q_def)
    have "pg_ptr p' k = (if indx < k \<and> k \<le> Suc i then pg_ptr p (k - 1) else pg_ptr p k)" for k
      using True by (auto simp: p'(3) q)
    moreover have "sub p' k n = sub p k n" if "k + n \<le> 16 \<or> 18 + 2 * Suc i \<le> k" for k n
      using that Suc.prems by (subst p'(4)) (auto simp: Q_def region_simps)
    ultimately show ?thesis using s p'(1,2) by auto
  next
    case False
    then show ?thesis by auto
  qed
qed simp

lemma page_hdr:
  "16 \<le> length p \<Longrightarrow> MP_LOWER p = Some (pg_lower p)" "16 \<le> length p \<Longrightarrow> MP_UPPER p = Some (pg_upper p)"
  "16 \<le> length p \<Longrightarrow> NUMKEYS p = Some (pg_cnt p)" "16 \<le> length p \<Longrightarrow> IS_LEAF p = Some (pg_leaf p)"
  "16 \<le> length p \<Longrightarrow> IS_LEAF2 p = Some (F_ISSET (pg_flags p) P_LEAF2)"
  "18 + 2 * i \<le> length p \<Longrightarrow> MP_PTRS p i = Some (pg_ptr p i)"
  by (simp_all add: MP_LOWER_def MP_UPPER_def NUMKEYS_def IS_LEAF_def IS_LEAF2_def MP_FLAGS_def MP_PTRS_def
      ld_le_at pg_lower_def pg_upper_def pg_cnt_def pg_leaf_def pg_flags_def pg_ptr_def PAGEHDRSZ_def)

text \<open>After making room: the pointers, and nothing else but \<open>mp_lower\<close> and \<open>mp_upper\<close> changed.\<close>

lemma ptr_insert_spec:
  assumes "16 \<le> pg_lower p" "even (pg_lower p)" "pg_lower p + 2 + sz \<le> pg_upper p" "pg_upper p \<le> length p"
    and "pg_upper p < 2 ^ 16" "indx \<le> pg_cnt p"
  obtains p' where "ptr_insert p indx sz = Some p'" "length p' = length p" "pg_lower p' = pg_lower p + 2"
    "pg_upper p' = pg_upper p - sz" "pg_flags p' = pg_flags p"
    "\<And>k. pg_ptr p' k = (if k = indx then pg_upper p - sz else if indx < k \<and> k \<le> pg_cnt p then pg_ptr p (k - 1) else pg_ptr p k)"
    "\<And>k n. k + n \<le> 12 \<or> pg_lower p + 2 \<le> k \<Longrightarrow> sub p' k n = sub p k n"
proof -
  have lo: "pg_lower p = 16 + 2 * pg_cnt p" using assms(1,2) by (auto simp: pg_cnt_eq elim!: evenE)
  have len: "18 + 2 * pg_cnt p \<le> length p" "16 \<le> length p" using lo assms(3,4) by linarith+
  obtain q where q: "ptrs_up p indx (pg_cnt p) = Some q" "length q = length p"
    "\<And>k. pg_ptr q k = (if indx < k \<and> k \<le> pg_cnt p then pg_ptr p (k - 1) else pg_ptr p k)"
    "\<And>k n. k + n \<le> 16 \<or> 18 + 2 * pg_cnt p \<le> k \<Longrightarrow> sub q k n = sub p k n"
    using ptrs_up_spec [OF len(1), of indx] by blast
  have h: "pg_lower q = pg_lower p" "pg_upper q = pg_upper p"
    by (simp_all add: pg_lower_def pg_upper_def le_at_def q(4))
  let ?o = "pg_upper p - sz"
  have o: "indx_sub (pg_upper p) sz = ?o" "pg_lower p + 2 \<le> ?o" "?o < 2 ^ 16"
    using assms(3,5) by (auto intro: indx_sub_eq)
  have i: "18 + 2 * indx \<le> length p" "16 + 2 * indx + 2 \<le> 18 + 2 * pg_cnt p" using assms(6) len by simp_all
  let ?p1 = "blit q (16 + 2 * indx) (le_bytes 2 ?o)"
  let ?p2 = "blit ?p1 14 (le_bytes 2 ?o)"
  let ?p3 = "blit ?p2 12 (le_bytes 2 (pg_lower p + 2))"
  have l: "length ?p1 = length p" "length ?p2 = length p" "length ?p3 = length p" using q(2) i len by simp_all
  have "ptr_insert p indx sz = Some ?p3"
    using len i q(1,2) o l(1,2) by (simp add: ptr_insert_def page_hdr h st_def PAGEHDRSZ_def Let_def)
  moreover have "pg_lower ?p3 = pg_lower p + 2"
    using l len o assms(5) by (simp add: pg_lower_def region_simps)
  moreover have "pg_upper ?p3 = ?o" using l len o(3) by (simp add: pg_upper_def region_simps)
  moreover have "pg_flags ?p3 = pg_flags p"
    using l len i q(2) by (simp add: pg_flags_def region_simps) (simp add: le_at_def q(4))
  moreover have "pg_ptr ?p3 k = (if k = indx then ?o else if indx < k \<and> k \<le> pg_cnt p then pg_ptr p (k - 1) else pg_ptr p k)" for k
  proof -
    have "pg_ptr ?p3 k = pg_ptr ?p1 k" using l len by (simp add: pg_ptr_def region_simps)
    also have "\<dots> = (if k = indx then ?o else pg_ptr q k)"
      using pg_ptr_blit [of indx q ?o k] i q(2) o(3) by simp
    finally show ?thesis by (simp add: q(3))
  qed
  moreover have "sub ?p3 k n = sub p k n" if k: "k + n \<le> 12 \<or> pg_lower p + 2 \<le> k" for k n
  proof -
    have "sub ?p3 k n = sub ?p2 k n" using k l len lo by (intro sub_blit_other) auto
    also have "\<dots> = sub ?p1 k n" using k l len lo by (intro sub_blit_other) auto
    also have "\<dots> = sub q k n" using k i q(2) lo by (intro sub_blit_other) auto
    also have "\<dots> = sub p k n" using k lo by (intro q(4)) auto
    finally show ?thesis .
  qed
  ultimately show ?thesis using that l(3) by blast
qed


section \<open>Writing a node\<close>

lemma F_ISSET_BIGDATA: "F_ISSET w F_BIGDATA \<longleftrightarrow> odd w"
  by (simp add: F_ISSET_def F_BIGDATA_def and_one_eq odd_iff_mod_2_eq_one)

lemma F_ISSET_BIGDATA_mod [simp]: "F_ISSET (w mod 65536) F_BIGDATA = F_ISSET w F_BIGDATA"
proof -
  have "w mod 65536 mod 2 = w mod 2" by (rule mod_mod_cancel) simp
  then show ?thesis by (simp add: F_ISSET_BIGDATA odd_iff_mod_2_eq_one)
qed

lemma F_ISSET_OR_BIGDATA [simp]: "F_ISSET (w OR F_BIGDATA) F_BIGDATA"
  unfolding F_ISSET_BIGDATA by (simp add: F_BIGDATA_def even_or_iff)

text \<open>Two stores of 16 bits are one of 32.\<close>

lemma word_stores:
  assumes "off + 4 \<le> length p" "x < 2 ^ 32"
    and q: "q = blit (blit p off (le_bytes 2 (x mod 2 ^ 16))) (off + 2) (le_bytes 2 (x div 2 ^ 16))"
  shows "le_at 4 q off = x"
proof -
  have l: "length q = length p" using assms(1) by (simp add: q)
  have "le_at (2 + 2) q off = le_at 2 q off + 256 ^ 2 * le_at 2 q (off + 2)"
    using assms(1) l by (intro le_at_split) simp
  moreover have "le_at 2 q off = x mod 2 ^ 16" using assms(1) by (simp add: q region_simps)
  moreover have "le_at 2 q (off + 2) = x div 2 ^ 16"
    using assms(1,2) by (simp add: q region_simps less_mult_imp_div_less)
  ultimately show ?thesis by simp
qed

text \<open>The frame of a sequence of writes: \<open>q\<close> is \<open>p\<close> outside the \<open>m\<close> bytes from \<open>off\<close> on.\<close>

definition only_within :: "page \<Rightarrow> nat \<Rightarrow> nat \<Rightarrow> page \<Rightarrow> bool" where
  "only_within p off m q \<longleftrightarrow> length q = length p
     \<and> (\<forall>k n. k + n \<le> off \<or> off + m \<le> k \<longrightarrow> sub q k n = sub p k n)"

lemma only_within_refl [simp]: "only_within p off m p"
  by (simp add: only_within_def)

lemma only_within_blit:
  "only_within p off m q \<Longrightarrow> off \<le> k \<Longrightarrow> k + length bs \<le> off + m \<Longrightarrow> off + m \<le> length p \<Longrightarrow>
   only_within p off m (blit q k bs)"
  by (auto simp: only_within_def region_simps)

lemma only_within_le_at:
  "only_within p off m q \<Longrightarrow> k + n \<le> off \<or> off + m \<le> k \<Longrightarrow> le_at n q k = le_at n p k"
  by (auto simp: only_within_def le_at_def)

text \<open>The node that \<open>mdb_node_add\<close> writes on a leaf page.\<close>

definition leaf_node :: "nat \<Rightarrow> mval \<Rightarrow> MDB_val \<Rightarrow> page option \<Rightarrow> node" where
  "leaf_node flags k d ofp =
     \<lparr>nd_flags = flags mod 2 ^ 16, nd_key = k, nd_word = mv_size d,
      nd_data = (case ofp of
                   None \<Rightarrow> take (if F_ISSET flags F_BIGDATA then 8 else mv_size d) (mv_data d)
                 | Some ov \<Rightarrow> take 8 ov)\<rparr>"

definition branch_node :: "nat \<Rightarrow> mval option \<Rightarrow> node" where
  "branch_node pgno key =
     \<lparr>nd_flags = pgno div 2 ^ 32, nd_key = (case key of None \<Rightarrow> [] | Some k \<Rightarrow> k),
      nd_word = pgno mod 2 ^ 32, nd_data = []\<rparr>"

text \<open>Header, key and data as one write after the other.\<close>

lemma written_node:
  assumes "off + (8 + length k + length bs) \<le> length p" "length k < 2 ^ 16" "word < 2 ^ 32"
    and "q = blit (blit (blit (blit (blit (blit p (off + 6) (le_bytes 2 (length k))) (off + 4) (le_bytes 2 flags))
           off (le_bytes 2 (word mod 2 ^ 16))) (off + 2) (le_bytes 2 (word div 2 ^ 16))) (off + 8) k)
           (off + 8 + length k) bs"
    and "length bs = data_size leaf (flags mod 2 ^ 16) word"
  shows "node_at leaf q off = \<lparr>nd_flags = flags mod 2 ^ 16, nd_key = k, nd_word = word, nd_data = bs\<rparr>"
    and "only_within p off (8 + length k + length bs) q"
    and "n_size leaf q off = EVEN (8 + length k + length bs)"
proof -
  let ?m = "8 + length k + length bs"
  define p2 where "p2 = blit (blit p (off + 6) (le_bytes 2 (length k))) (off + 4) (le_bytes 2 flags)"
  define p4 where "p4 = blit (blit p2 off (le_bytes 2 (word mod 2 ^ 16))) (off + 2) (le_bytes 2 (word div 2 ^ 16))"
  have q: "q = blit (blit p4 (off + 8) k) (off + 8 + length k) bs" by (simp add: assms(4) p4_def p2_def)
  have l2: "length p2 = length p" and l4: "length p4 = length p" using assms(1) by (simp_all add: p4_def p2_def)
  have "n_word q off = le_at 4 p4 off" using assms(1) l4 by (simp add: q n_word_def region_simps)
  then have w: "n_word q off = word"
    using word_stores [of off p2 word p4] assms(1,3) l2 by (simp add: p4_def)
  have "n_ksize q off = le_at 2 p2 (off + 6)" "n_flags q off = le_at 2 p2 (off + 4)"
    using assms(1) l4 l2 by (simp_all add: q p4_def n_ksize_def n_flags_def region_simps)
  then have h: "n_ksize q off = length k" "n_flags q off = flags mod 2 ^ 16"
    using assms(1,2) by (simp_all add: p2_def region_simps)
  have d: "n_dsize leaf q off = length bs" by (simp add: n_dsize_def h w assms(5))
  show "node_at leaf q off = \<lparr>nd_flags = flags mod 2 ^ 16, nd_key = k, nd_word = word, nd_data = bs\<rparr>"
    using assms(1) l4 unfolding node_at_def h w d by (simp add: q region_simps)
  show "n_size leaf q off = EVEN ?m" by (simp add: n_size_def h d)
  show "only_within p off ?m q"
    unfolding assms(4) by (intro only_within_blit only_within_refl) (use assms(1) in simp_all)
qed


text \<open>What a caller of \<open>mdb_node_add\<close> provides: enough bytes behind the pointer, or an overflow page that
  has room for them.\<close>

definition data_ready :: "nat \<Rightarrow> MDB_val \<Rightarrow> page option \<Rightarrow> bool" where
  "data_ready flags d ofp \<longleftrightarrow> \<not> F_ISSET flags MDB_RESERVE \<and> mv_size d < 2 ^ 32
     \<and> (case ofp of
          None \<Rightarrow> (if F_ISSET flags F_BIGDATA then 8 else mv_size d) \<le> length (mv_data d)
        | Some ov \<Rightarrow> F_ISSET flags F_BIGDATA \<and> mv_size d \<le> length (mv_data d) \<and> 16 + mv_size d \<le> length ov)"

definition ov_filled :: "MDB_val \<Rightarrow> page \<Rightarrow> page" where
  "ov_filled d ov = blit ov 16 (take (mv_size d) (mv_data d))"

lemma leaf_node_size:
  "data_ready flags d ofp \<Longrightarrow>
   length (nd_data (leaf_node flags k d ofp)) = data_size True (flags mod 2 ^ 16) (mv_size d)"
  by (auto simp: data_ready_def leaf_node_def data_size_def split: option.splits)

lemma pg_leaf_only_within: "only_within p off m q \<Longrightarrow> 12 \<le> off \<Longrightarrow> pg_leaf q = pg_leaf p"
  by (simp add: pg_leaf_def pg_flags_def only_within_le_at)

lemma node_write_leaf:
  assumes "pg_leaf p" "16 \<le> off" "data_ready flags d ofp" "length k < 2 ^ 16"
    and "off + (8 + length k + length (nd_data (leaf_node flags k d ofp))) \<le> length p"
  obtains q where "node_write p off (Some k) (Some d) pgno flags ofp = Some (q, map_option (ov_filled d) ofp)"
    "node_at True q off = leaf_node flags k d ofp"
    "only_within p off (8 + length k + length (nd_data (leaf_node flags k d ofp))) q"
    "n_size True q off = EVEN (8 + length k + length (nd_data (leaf_node flags k d ofp)))"
proof -
  let ?bs = "nd_data (leaf_node flags k d ofp)"
  define p2 where "p2 = blit (blit p (off + 6) (le_bytes 2 (length k))) (off + 4) (le_bytes 2 flags)"
  define p5 where "p5 = blit (blit (blit p2 off (le_bytes 2 (mv_size d mod 2 ^ 16))) (off + 2)
     (le_bytes 2 (mv_size d div 2 ^ 16))) (off + 8) k"
  define q where "q = blit p5 (off + 8 + length k) ?bs"
  have ds: "length ?bs = data_size True (flags mod 2 ^ 16) (mv_size d)" by (rule leaf_node_size [OF assms(3)])
  have sz: "mv_size d < 2 ^ 32" using assms(3) by (simp add: data_ready_def)
  note w = written_node [OF assms(5,4) sz q_def [unfolded p5_def p2_def] ds]
  have l: "length p2 = length p" "length p5 = length p" using assms(5) by (simp_all add: p2_def p5_def)
  have "only_within p off (8 + length k + length ?bs) p2"
    unfolding p2_def by (intro only_within_blit only_within_refl) (use assms(5) in simp_all)
  then have lf: "IS_LEAF p2 = Some True"
    using assms(1,2,5) l by (simp add: page_hdr pg_leaf_only_within)
  have ks: "NODEDATA p5 off = Some (off + 8 + length k)"
    using assms(4,5) l
    by (simp add: NODEDATA_def NODEKSZ_def NODESIZE_def ld_le_at p5_def p2_def region_simps)
  have "node_write p off (Some k) (Some d) pgno flags ofp = Some (q, map_option (ov_filled d) ofp)"
  proof -
    have 1: "st 2 p (off + 6) (length k) = Some (blit p (off + 6) (le_bytes 2 (length k)))"
      "st 2 (blit p (off + 6) (le_bytes 2 (length k))) (off + 4) flags = Some p2"
      using assms(5) by (simp_all add: st_def p2_def)
    define p4 where "p4 = blit (blit p2 off (le_bytes 2 (mv_size d mod 2 ^ 16))) (off + 2) (le_bytes 2 (mv_size d div 2 ^ 16))"
    have 2: "SETDSZ p2 off (mv_size d) = Some p4" "put_bytes p4 (off + NODESIZE) k = Some p5"
      using assms(5) l by (simp_all add: SETDSZ_def st_def put_bytes_def NODESIZE_def p4_def p5_def)
    have r: "\<not> F_ISSET flags MDB_RESERVE" using assms(3) by (simp add: data_ready_def)
    have 3: "put_bytes p5 (off + 8 + length k) ?bs = Some q"
      using assms(5) l by (simp add: put_bytes_def q_def)
    show ?thesis
    proof (cases ofp)
      case None
      then show ?thesis
        using 1 2 3 lf ks r assms(3)
        by (simp add: node_write_def data_ready_def get_bytes_def leaf_node_def bind_eq_Some_conv
            split: if_splits) 
    next
      case (Some ov)
      then have "get_bytes ov 0 8 = Some ?bs" "get_bytes (mv_data d) 0 (mv_size d) = Some (take (mv_size d) (mv_data d))"
        "put_bytes ov PAGEHDRSZ (take (mv_size d) (mv_data d)) = Some (ov_filled d ov)"
        using assms(3) by (auto simp: data_ready_def get_bytes_def leaf_node_def put_bytes_def PAGEHDRSZ_def ov_filled_def)
      then show ?thesis
        using 1 2 3 lf ks r Some by (simp add: node_write_def bind_eq_Some_conv)
    qed
  qed
  then show ?thesis using w that by (simp add: leaf_node_def)
qed

lemma node_write_branch:
  assumes "\<not> pg_leaf p" "16 \<le> off" "pgno < 2 ^ 48" "length (case key of None \<Rightarrow> [] | Some k \<Rightarrow> k) < 2 ^ 16"
    and "off + (8 + length (case key of None \<Rightarrow> [] | Some k \<Rightarrow> k)) \<le> length p"
  obtains q where "node_write p off key data pgno flags ofp = Some (q, None)"
    "node_at False q off = branch_node pgno key"
    "only_within p off (8 + length (case key of None \<Rightarrow> [] | Some k \<Rightarrow> k)) q"
    "n_size False q off = EVEN (8 + length (case key of None \<Rightarrow> [] | Some k \<Rightarrow> k))"
proof -
  define k where "k = (case key of None \<Rightarrow> [] | Some k \<Rightarrow> k)"
  define p2 where "p2 = blit (blit p (off + 6) (le_bytes 2 (length k))) (off + 4) (le_bytes 2 flags)"
  define p4 where "p4 = blit (blit p2 off (le_bytes 2 (pgno mod 2 ^ 16))) (off + 2) (le_bytes 2 (pgno div 2 ^ 16))"
  define p5 where "p5 = blit p4 (off + 4) (le_bytes 2 (pgno div 2 ^ 32))"
  define q where "q = blit p5 (off + 8) k"
  have len: "off + (8 + length k) \<le> length p" "length k < 2 ^ 16" using assms(4,5) by (simp_all add: k_def)
  then have l: "length p2 = length p" "length p4 = length p" "length p5 = length p"
    by (simp_all add: p2_def p4_def p5_def)
  have 2: "only_within p off (8 + length k) p2"
    unfolding p2_def by (intro only_within_blit only_within_refl) (use len in simp_all)
  have ow: "only_within p off (8 + length k) q"
    unfolding q_def p5_def p4_def by (intro only_within_blit 2) (use len in simp_all)
  have lf: "IS_LEAF p2 = Some False"
    using assms(1,2) len l pg_leaf_only_within [OF 2] by (simp add: page_hdr)
  have st: "st 2 p (off + 6) (length k) = Some (blit p (off + 6) (le_bytes 2 (length k)))"
      "st 2 (blit p (off + 6) (le_bytes 2 (length k))) (off + 4) flags = Some p2"
      "SETPGNO p2 off pgno = Some p5" "put_bytes p5 (off + NODESIZE) k = Some q"
    using len l by (simp_all add: st_def p2_def SETPGNO_def p5_def p4_def put_bytes_def NODESIZE_def q_def)
  have nd: "NODEDATA q off = Some (off + 8 + n_ksize q off)"
    using len l by (simp add: NODEDATA_def NODEKSZ_def ld_le_at NODESIZE_def n_ksize_def q_def)
  have "node_write p off key data pgno flags ofp = Some (q, None)"
  proof (cases key)
    case None
    then have "k = []" "q = p5" by (simp_all add: k_def q_def)
    then show ?thesis using None st lf nd by (simp add: node_write_def)
  next
    case (Some k')
    then have "k = k'" by (simp add: k_def)
    then show ?thesis using Some st lf nd by (simp add: node_write_def)
  qed
  moreover have "n_word q off = pgno mod 2 ^ 32"
  proof -
    have lm: "le_bytes 2 (x mod 2 ^ 16) = le_bytes 2 x" for x
      using le_bytes_mod [of 2 x] by simp
    have "pgno mod 2 ^ 32 mod 2 ^ 16 = pgno mod 2 ^ 16" "pgno mod 2 ^ 32 div 2 ^ 16 = (pgno div 2 ^ 16) mod 2 ^ 16"
      using mod_mult2_eq [of pgno "2 ^ 16" "2 ^ 16"] by (simp_all add: mod_mod_cancel)
    then have "p4 = blit (blit p2 off (le_bytes 2 (pgno mod 2 ^ 32 mod 2 ^ 16))) (off + 2)
        (le_bytes 2 (pgno mod 2 ^ 32 div 2 ^ 16))"
      by (simp only: p4_def lm)
    then have "le_at 4 p4 off = pgno mod 2 ^ 32"
      using len l by (intro word_stores [of off p2]) simp_all
    then show ?thesis using len l by (simp add: n_word_def q_def p5_def region_simps)
  qed
  moreover have "n_ksize q off = length k" "n_flags q off = pgno div 2 ^ 32"
    using len l assms(3) by (simp_all add: n_ksize_def n_flags_def q_def p5_def p4_def p2_def region_simps)
  moreover have "sub q (off + 8) (length k) = k" using len l by (simp add: q_def region_simps)
  moreover have "n_dsize False q off = 0" by (simp add: n_dsize_def data_size_def)
  ultimately show ?thesis
    using that [of q] ow by (simp add: node_at_def branch_node_def n_size_def k_def sub_def)
qed


section \<open>The list of nodes\<close>

lemma map_upt_insert:
  assumes "indx \<le> n" "g indx = a" "\<And>k. k < indx \<Longrightarrow> g k = h k"
    and "\<And>k. indx < k \<Longrightarrow> k \<le> n \<Longrightarrow> g k = h (k - 1)"
  shows "map g [0..<Suc n] = take indx (map h [0..<n]) @ a # drop indx (map h [0..<n])"
  using assms by (intro nth_equalityI) (auto simp: nth_append nth_Cons' min_def simp del: upt_Suc)

lemma map_upt_delete:
  assumes "indx < n" "\<And>k. k < indx \<Longrightarrow> g k = h k"
    and "\<And>k. indx \<le> k \<Longrightarrow> k < n - 1 \<Longrightarrow> g k = h (k + 1)"
  shows "map g [0..<n - 1] = take indx (map h [0..<n]) @ drop (Suc indx) (map h [0..<n])"
  using assms by (intro nth_equalityI) (auto simp: nth_append min_def)

lemma sum_upt: "(\<Sum>i < n. f i) = sum_list (map f [0..<n])" for f :: "nat \<Rightarrow> nat"
  by (simp add: interv_sum_list_conv_sum_set_nat atLeast0LessThan)

lemma sum_list_insert:
  "sum_list (take k xs @ a # drop k xs) = a + sum_list xs" for xs :: "nat list"
proof -
  have "sum_list xs = sum_list (take k xs) + sum_list (drop k xs)"
    by (simp only: sum_list_append [symmetric] append_take_drop_id)
  then show ?thesis by simp
qed

lemma sum_list_delete:
  "k < length xs \<Longrightarrow> sum_list xs = xs ! k + sum_list (take k xs @ drop (Suc k) xs)" for xs :: "nat list"
  by (subst id_take_nth_drop [of k xs]) simp_all

text \<open>Facts about a page in order.\<close>

lemma page_wfD:
  assumes "page_wf p"
  shows "pg_lower p = 16 + 2 * pg_cnt p" "pg_lower p \<le> pg_upper p" "pg_upper p \<le> length p" "length p \<le> 2 ^ 15"
    "even (pg_upper p)" "\<not> F_ISSET (pg_flags p) P_LEAF2"
    "\<And>i. i < pg_cnt p \<Longrightarrow> pg_upper p \<le> pg_ptr p i \<and> even (pg_ptr p i)
       \<and> pg_ptr p i + n_size (pg_leaf p) p (pg_ptr p i) \<le> length p"
    "\<And>i j. i < pg_cnt p \<Longrightarrow> j < pg_cnt p \<Longrightarrow> i \<noteq> j \<Longrightarrow>
       pg_ptr p i + n_size (pg_leaf p) p (pg_ptr p i) \<le> pg_ptr p j
       \<or> pg_ptr p j + n_size (pg_leaf p) p (pg_ptr p j) \<le> pg_ptr p i"
    "pg_upper p + sum_list (map (\<lambda>i. n_size (pg_leaf p) p (pg_ptr p i)) [0..<pg_cnt p]) = length p"
  using assms by (auto simp: page_wf_def pg_cnt_eq sum_upt elim!: evenE)

lemma page_wfI:
  assumes "length p \<le> 2 ^ 15" "pg_lower p = 16 + 2 * pg_cnt p" "pg_lower p \<le> pg_upper p" "even (pg_upper p)"
    "pg_upper p \<le> length p" "\<not> F_ISSET (pg_flags p) P_LEAF2"
    "\<And>i. i < pg_cnt p \<Longrightarrow> pg_upper p \<le> pg_ptr p i \<and> even (pg_ptr p i)
       \<and> pg_ptr p i + n_size (pg_leaf p) p (pg_ptr p i) \<le> length p"
    "\<And>i j. i < pg_cnt p \<Longrightarrow> j < pg_cnt p \<Longrightarrow> i \<noteq> j \<Longrightarrow>
       pg_ptr p i + n_size (pg_leaf p) p (pg_ptr p i) \<le> pg_ptr p j
       \<or> pg_ptr p j + n_size (pg_leaf p) p (pg_ptr p j) \<le> pg_ptr p i"
    "pg_upper p + sum_list (map (\<lambda>i. n_size (pg_leaf p) p (pg_ptr p i)) [0..<pg_cnt p]) = length p"
  shows "page_wf p"
  using assms by (simp add: page_wf_def sum_upt)

lemma page_inserted:
  assumes wf: "page_wf p" and i: "indx \<le> pg_cnt p" and room: "pg_lower p + 2 + sz \<le> pg_upper p" "even sz"
    and q: "length q = length p" "pg_lower q = pg_lower p + 2" "pg_upper q = pg_upper p - sz"
      "pg_flags q = pg_flags p"
      "\<And>k. k \<le> pg_cnt p \<Longrightarrow>
         pg_ptr q k = (if k = indx then pg_upper p - sz else if indx < k \<and> k \<le> pg_cnt p then pg_ptr p (k - 1) else pg_ptr p k)"
      "\<And>k n. pg_upper p \<le> k \<Longrightarrow> sub q k n = sub p k n"
    and new: "node_at (pg_leaf p) q (pg_upper p - sz) = nd" "n_size (pg_leaf p) q (pg_upper p - sz) = sz"
  shows "page_wf q" "page_nodes q = take indx (page_nodes p) @ nd # drop indx (page_nodes p)"
proof -
  note w = page_wfD [OF wf]
  have lf: "pg_leaf q = pg_leaf p" by (simp add: pg_leaf_def q(4))
  have "pg_lower q = 16 + 2 * Suc (pg_cnt p)" using w(1) q(2) by simp
  then have cnt: "pg_cnt q = Suc (pg_cnt p)" by (simp add: pg_cnt_eq [of q])
  let ?L = "pg_leaf p"
  have kept: "node_at ?L q (pg_ptr p i) = node_at ?L p (pg_ptr p i)"
    "n_size ?L q (pg_ptr p i) = n_size ?L p (pg_ptr p i)" if "i < pg_cnt p" for i
    by (rule node_moved [OF q(6) order_refl]; use w(7) [OF that] in simp)+
  have old: "\<exists>i. i < pg_cnt p \<and> pg_ptr q k = pg_ptr p i \<and> (k < indx \<longrightarrow> i = k) \<and> (indx < k \<longrightarrow> i = k - 1)"
    if "k < Suc (pg_cnt p)" "k \<noteq> indx" for k
    using that i by (intro exI [of _ "if k < indx then k else k - 1"]) (auto simp: q(5))
  have nw: "pg_ptr q indx = pg_upper p - sz" using i by (simp add: q(5))
  show nodes: "page_nodes q = take indx (page_nodes p) @ nd # drop indx (page_nodes p)"
    unfolding page_nodes_def cnt lf
    by (rule map_upt_insert [OF i]) (use new(1) i kept in \<open>auto simp: q(5)\<close>)
  have sizes: "map (\<lambda>i. n_size ?L q (pg_ptr q i)) [0..<pg_cnt q]
      = take indx (map (\<lambda>i. n_size ?L p (pg_ptr p i)) [0..<pg_cnt p]) @ sz
        # drop indx (map (\<lambda>i. n_size ?L p (pg_ptr p i)) [0..<pg_cnt p])"
    unfolding cnt by (rule map_upt_insert [OF i]) (use new(2) i kept in \<open>auto simp: q(5)\<close>)
  show "page_wf q"
  proof (rule page_wfI; (unfold lf q(1-4))?)
    show "length p \<le> 2 ^ 15" "pg_lower p + 2 = 16 + 2 * pg_cnt q" "\<not> F_ISSET (pg_flags p) P_LEAF2"
      "pg_lower p + 2 \<le> pg_upper p - sz" "even (pg_upper p - sz)" "pg_upper p - sz \<le> length p"
      using w room by (simp_all add: cnt)
    show "pg_upper p - sz + sum_list (map (\<lambda>i. n_size ?L q (pg_ptr q i)) [0..<pg_cnt q]) = length p"
      unfolding sizes sum_list_insert using w(9) room by simp
  next
    fix k assume "k < pg_cnt q"
    then have k: "k < Suc (pg_cnt p)" by (simp add: cnt)
    show "pg_upper p - sz \<le> pg_ptr q k \<and> even (pg_ptr q k) \<and> pg_ptr q k + n_size ?L q (pg_ptr q k) \<le> length p"
    proof (cases "k = indx")
      case True
      then show ?thesis using w(3,5) room by (simp add: nw new(2))
    next
      case False
      then obtain i where "i < pg_cnt p" "pg_ptr q k = pg_ptr p i" using old [OF k] by blast
      then show ?thesis using w(7) [of i] kept(2) [of i] by auto
    qed
  next
    fix k l assume "k < pg_cnt q" "l < pg_cnt q" and kl: "k \<noteq> l"
    then have k: "k < Suc (pg_cnt p)" "l < Suc (pg_cnt p)" by (simp_all add: cnt)
    have below: "pg_ptr q indx + sz \<le> pg_ptr q j" if "j < Suc (pg_cnt p)" "j \<noteq> indx" for j
      using old [OF that] w(7) room(1) nw by fastforce
    show "pg_ptr q k + n_size ?L q (pg_ptr q k) \<le> pg_ptr q l
       \<or> pg_ptr q l + n_size ?L q (pg_ptr q l) \<le> pg_ptr q k"
    proof (cases "k = indx \<or> l = indx")
      case True
      then show ?thesis using below [of k] below [of l] k kl nw new(2) by auto
    next
      case False
      then obtain i j where ij: "i < pg_cnt p" "pg_ptr q k = pg_ptr p i" "j < pg_cnt p" "pg_ptr q l = pg_ptr p j"
        "k < indx \<longrightarrow> i = k" "indx < k \<longrightarrow> i = k - 1" "l < indx \<longrightarrow> j = l" "indx < l \<longrightarrow> j = l - 1"
        using old [OF k(1)] old [OF k(2)] by blast
      then have "i \<noteq> j" using kl False by (cases "k < indx"; cases "l < indx") auto
      then show ?thesis using w(8) [OF ij(1,3)] kept(2) ij by simp
    qed
  qed
qed


section \<open>Closing the gap\<close>

text \<open>The pointer that a pointer becomes when the node at \<open>ptr\<close> goes.\<close>

definition ptr_after :: "nat \<Rightarrow> nat \<Rightarrow> nat \<Rightarrow> nat" where
  "ptr_after ptr sz v = (if v < ptr then v + sz else v)"

lemma ptrs_down_spec:
  "j = (if i \<le> indx then i else i - 1) \<Longrightarrow> 16 + 2 * (i + m) \<le> length p \<Longrightarrow> ptr + sz \<le> 2 ^ 16 \<Longrightarrow>
   \<exists>q. ptrs_down p indx ptr sz m i j = Some q \<and> length q = length p
     \<and> (\<forall>k. pg_ptr q k = (if j \<le> k \<and> k < (if indx < i + m then i + m - 1 else i + m)
           then ptr_after ptr sz (pg_ptr p (if k < indx then k else k + 1)) else pg_ptr p k))
     \<and> (\<forall>k n. k + n \<le> 16 \<or> 16 + 2 * (i + m) \<le> k \<longrightarrow> sub q k n = sub p k n)"
proof (induction m arbitrary: p i j)
  case 0
  then show ?case by auto
next
  case (Suc m)
  show ?case
  proof (cases "i = indx")
    case True
    have l: "16 + 2 * (i + 1 + m) \<le> length p" using Suc.prems(2) by simp
    show ?thesis
      using Suc.IH [of j "i + 1" p, OF _ l Suc.prems(3)] Suc.prems(1) True by simp
  next
    case False
    let ?v = "pg_ptr p i"
    define P where "P = blit p (16 + 2 * j) (le_bytes 2 ?v)"
    define Q where "Q = (if ?v < ptr then blit P (16 + 2 * j) (le_bytes 2 (?v + sz)) else P)"
    have i: "18 + 2 * i \<le> length p" and ji: "j \<le> i" "18 + 2 * j \<le> length p" using Suc.prems(1,2) by auto
    have lP: "length P = length p" and lQ: "length Q = length p" using ji by (auto simp: P_def Q_def)
    have v: "?v < 2 ^ 16" by (rule pg_ptr_less [OF i])
    have ptrP: "pg_ptr P k = (if k = j then ?v else pg_ptr p k)" for k
      unfolding P_def using pg_ptr_blit [OF ji(2), of ?v k] v by simp
    have ptrQ: "pg_ptr Q k = (if k = j then ptr_after ptr sz ?v else pg_ptr p k)" for k
      unfolding Q_def using pg_ptr_blit [of j P "?v + sz" k] ptrP ji(2) lP Suc.prems(3) v
      by (auto simp: ptr_after_def)
    have subQ: "sub Q k n = sub p k n" if "k + n \<le> 16 \<or> 18 + 2 * j \<le> k" for k n
      using that ji(2) by (auto simp: Q_def P_def region_simps)
    have vi: "pg_ptr P i = ?v" using False Suc.prems(1) ji by (auto simp: ptrP)
    have "ptrs_down p indx ptr sz (Suc m) i j = ptrs_down Q indx ptr sz m (i + 1) (j + 1)"
      using False i ji(2) lP vi ptrP [of j] unfolding ptrs_down.simps
      by (simp add: page_hdr st_def PAGEHDRSZ_def flip: P_def) (auto simp: Q_def)
    moreover have l: "16 + 2 * (i + 1 + m) \<le> length Q" using Suc.prems(2) lQ by simp
    have j': "j + 1 = (if i + 1 \<le> indx then i + 1 else i + 1 - 1)" using Suc.prems(1) False by auto
    obtain q where q: "ptrs_down Q indx ptr sz m (i + 1) (j + 1) = Some q" "length q = length Q"
      "\<And>k. pg_ptr q k = (if j + 1 \<le> k \<and> k < (if indx < i + 1 + m then i + 1 + m - 1 else i + 1 + m)
           then ptr_after ptr sz (pg_ptr Q (if k < indx then k else k + 1)) else pg_ptr Q k)"
      "\<And>k n. k + n \<le> 16 \<or> 16 + 2 * (i + 1 + m) \<le> k \<Longrightarrow> sub q k n = sub Q k n"
      using Suc.IH [OF j' l Suc.prems(3)] by blast
    moreover have "pg_ptr q k = (if j \<le> k \<and> k < (if indx < i + Suc m then i + Suc m - 1 else i + Suc m)
           then ptr_after ptr sz (pg_ptr p (if k < indx then k else k + 1)) else pg_ptr p k)" for k
    proof (cases k j rule: linorder_cases)
      case equal
      then have "i = (if k < indx then k else k + 1)" using Suc.prems(1) False by auto
      then show ?thesis using equal ji False Suc.prems(1) by (auto simp: q(3) ptrQ)
    qed (auto simp: q(3) ptrQ)
    moreover have "sub q k n = sub p k n" if "k + n \<le> 16 \<or> 16 + 2 * (i + Suc m) \<le> k" for k n
      using that q(4) [of k n] subQ [of k n] ji by auto
    ultimately show ?thesis using lQ by auto
  qed
qed

lemma page_deleted:
  assumes wf: "page_wf p" and i: "indx < pg_cnt p"
    and sz: "sz = n_size (pg_leaf p) p (pg_ptr p indx)"
    and q: "length q = length p" "pg_lower q = pg_lower p - 2" "pg_upper q = pg_upper p + sz"
      "pg_flags q = pg_flags p"
      "\<And>k. k < pg_cnt p - 1 \<Longrightarrow> pg_ptr q k = ptr_after (pg_ptr p indx) sz (pg_ptr p (if k < indx then k else k + 1))"
      "\<And>k n. pg_upper p \<le> k \<Longrightarrow> k + n \<le> pg_ptr p indx \<Longrightarrow> sub q (k + sz) n = sub p k n"
      "\<And>k n. pg_ptr p indx + sz \<le> k \<Longrightarrow> sub q k n = sub p k n"
  shows "page_wf q" "page_nodes q = take indx (page_nodes p) @ drop (Suc indx) (page_nodes p)"
proof -
  note w = page_wfD [OF wf]
  let ?L = "pg_leaf p" and ?P = "pg_ptr p indx"
  have lf: "pg_leaf q = ?L" by (simp add: pg_leaf_def q(4))
  have "pg_lower q = 16 + 2 * (pg_cnt p - 1)" using w(1) q(2) i by simp
  then have cnt: "pg_cnt q = pg_cnt p - 1" by (simp add: pg_cnt_eq [of q])
  have side: "pg_ptr p j + n_size ?L p (pg_ptr p j) \<le> ?P \<and> pg_ptr p j < ?P \<or> ?P + sz \<le> pg_ptr p j \<and> \<not> pg_ptr p j < ?P"
    if "j < pg_cnt p" "j \<noteq> indx" for j
    using w(8) [OF that(1) i that(2)] n_size_ge(2) [of ?L p "pg_ptr p j"] n_size_ge(2) [of ?L p ?P] sz by linarith
  have kept: "node_at ?L q (ptr_after ?P sz (pg_ptr p j)) = node_at ?L p (pg_ptr p j)"
    "n_size ?L q (ptr_after ?P sz (pg_ptr p j)) = n_size ?L p (pg_ptr p j)"
    if j: "j < pg_cnt p" "j \<noteq> indx" for j
  proof -
    have "sub q (ptr_after ?P sz (pg_ptr p j)) (n_size ?L p (pg_ptr p j)) = sub p (pg_ptr p j) (n_size ?L p (pg_ptr p j))"
      using side [OF j] w(7) [OF j(1)] by (auto simp: ptr_after_def q(6,7))
    then show "node_at ?L q (ptr_after ?P sz (pg_ptr p j)) = node_at ?L p (pg_ptr p j)"
      "n_size ?L q (ptr_after ?P sz (pg_ptr p j)) = n_size ?L p (pg_ptr p j)"
      by (rule node_moved; simp)+
  qed
  have old: "\<exists>j. j < pg_cnt p \<and> j \<noteq> indx \<and> pg_ptr q k = ptr_after ?P sz (pg_ptr p j)
      \<and> j = (if k < indx then k else k + 1)" if "k < pg_cnt p - 1" for k
    using that q(5) [OF that] by (intro exI [of _ "if k < indx then k else k + 1"]) auto
  show "page_nodes q = take indx (page_nodes p) @ drop (Suc indx) (page_nodes p)"
    unfolding page_nodes_def cnt lf
    by (rule map_upt_delete [OF i]) (use i kept(1) in \<open>auto simp: q(5)\<close>)
  have sizes: "map (\<lambda>i. n_size ?L q (pg_ptr q i)) [0..<pg_cnt q]
      = take indx (map (\<lambda>i. n_size ?L p (pg_ptr p i)) [0..<pg_cnt p])
        @ drop (Suc indx) (map (\<lambda>i. n_size ?L p (pg_ptr p i)) [0..<pg_cnt p])"
    unfolding cnt by (rule map_upt_delete [OF i]) (use i kept(2) in \<open>auto simp: q(5)\<close>)
  have total: "sum_list (map (\<lambda>i. n_size ?L p (pg_ptr p i)) [0..<pg_cnt p])
      = sz + sum_list (map (\<lambda>i. n_size ?L q (pg_ptr q i)) [0..<pg_cnt q])"
    unfolding sizes using i sz by (subst sum_list_delete [of indx]) simp_all
  have evsz: "even sz" by (simp add: sz n_size_def)
  show "page_wf q"
  proof (rule page_wfI; (unfold lf q(1-4))?)
    show "length p \<le> 2 ^ 15" "pg_lower p - 2 = 16 + 2 * pg_cnt q" "\<not> F_ISSET (pg_flags p) P_LEAF2"
      "pg_lower p - 2 \<le> pg_upper p + sz" "even (pg_upper p + sz)" "pg_upper p + sz \<le> length p"
      "pg_upper p + sz + sum_list (map (\<lambda>i. n_size ?L q (pg_ptr q i)) [0..<pg_cnt q]) = length p"
      using w(1-6,9) i evsz total by (simp_all add: cnt)
  next
    fix k assume "k < pg_cnt q"
    then obtain j where j: "j < pg_cnt p" "j \<noteq> indx" "pg_ptr q k = ptr_after ?P sz (pg_ptr p j)"
      using old [of k] cnt by auto
    show "pg_upper p + sz \<le> pg_ptr q k \<and> even (pg_ptr q k) \<and> pg_ptr q k + n_size ?L q (pg_ptr q k) \<le> length p"
      using side [OF j(1,2)] w(7) [OF j(1)] w(7) [OF i] sz evsz unfolding j(3) kept(2) [OF j(1,2)]
      by (auto simp: ptr_after_def)
  next
    fix k l assume kl: "k < pg_cnt q" "l < pg_cnt q" "k \<noteq> l"
    obtain j where j: "j < pg_cnt p" "j \<noteq> indx" "pg_ptr q k = ptr_after ?P sz (pg_ptr p j)"
      "j = (if k < indx then k else k + 1)" using old [of k] kl cnt by auto
    obtain m where m: "m < pg_cnt p" "m \<noteq> indx" "pg_ptr q l = ptr_after ?P sz (pg_ptr p m)"
      "m = (if l < indx then l else l + 1)" using old [of l] kl cnt by auto
    have "j \<noteq> m" using kl(3) j(4) m(4) by (auto split: if_splits)
    then show "pg_ptr q k + n_size ?L q (pg_ptr q k) \<le> pg_ptr q l
       \<or> pg_ptr q l + n_size ?L q (pg_ptr q l) \<le> pg_ptr q k"
      using w(8) [OF j(1) m(1)] side [OF j(1,2)] side [OF m(1,2)]
      unfolding j(3) m(3) kept(2) [OF j(1,2)] kept(2) [OF m(1,2)]
      by (auto simp: ptr_after_def)
  qed
qed


lemma node_reads:
  assumes "off + 8 \<le> length p"
  shows "NODEKSZ p off = Some (n_ksize p off)" "NODEFLAGS p off = Some (n_flags p off)"
    "NODEDSZ p off = Some (n_word p off)"
  using assms le_at_split [of off 2 2 p]
  by (simp_all add: NODEKSZ_def NODEFLAGS_def NODEDSZ_def ld_le_at n_ksize_def n_flags_def n_word_def)

lemma mdb_node_del_spec:
  assumes wf: "page_wf p" and i: "indx < pg_cnt p"
  obtains q where "mdb_node_del p indx ksize = Some q" "page_wf q"
    "page_nodes q = take indx (page_nodes p) @ drop (Suc indx) (page_nodes p)"
    "pg_flags q = pg_flags p" "pg_upper q = pg_upper p + n_size (pg_leaf p) p (pg_ptr p indx)"
proof -
  note w = page_wfD [OF wf]
  let ?n = "pg_cnt p" and ?P = "pg_ptr p indx" and ?up = "pg_upper p" and ?lo = "pg_lower p"
  define sz where "sz = n_size (pg_leaf p) p ?P"
  have P: "?up \<le> ?P" "?P + sz \<le> length p" "8 \<le> sz"
    using w(7) [OF i] n_size_ge(2) by (auto simp: sz_def)
  have len: "16 + 2 * ?n \<le> ?up" "16 \<le> length p" "18 + 2 * indx \<le> length p" "?P + 8 \<le> length p"
    using w(1-3) P i by linarith+
  have lp: "16 + 2 * (0 + ?n) \<le> length p" "?P + sz \<le> 2 ^ 16" using len w(3,4) P by simp_all
  obtain p1 where p1: "ptrs_down p indx ?P sz ?n 0 0 = Some p1" "length p1 = length p"
    "\<And>k. pg_ptr p1 k = (if k < ?n - 1 then ptr_after ?P sz (pg_ptr p (if k < indx then k else k + 1)) else pg_ptr p k)"
    "\<And>k n. k + n \<le> 16 \<or> 16 + 2 * ?n \<le> k \<Longrightarrow> sub p1 k n = sub p k n"
    using ptrs_down_spec [of 0 0 indx ?n p ?P sz, OF _ lp] i by auto
  have h1: "pg_upper p1 = ?up" "pg_lower p1 = ?lo" "pg_flags p1 = pg_flags p"
    by (simp_all add: pg_upper_def pg_lower_def pg_flags_def le_at_def p1(4))
  define bs where "bs = sub p1 ?up (?P - ?up)"
  have lbs: "length bs = ?P - ?up" using P p1(2) by (simp add: bs_def)
  define p2 where "p2 = blit p1 (?up + sz) bs"
  have fit: "?up + sz + length bs \<le> length p1" "length p2 = length p" using P lbs p1(2) by (simp_all add: p2_def)
  have h2: "pg_upper p2 = ?up" "pg_lower p2 = ?lo" "pg_flags p2 = pg_flags p"
    using fit len h1 by (simp_all add: p2_def pg_upper_def pg_lower_def pg_flags_def region_simps)
  have lo2': "2 \<le> ?lo" "?lo < 2 ^ 16" using w(1-4) by simp_all
  then have lo2: "indx_sub ?lo 2 = ?lo - 2" "2 \<le> ?lo" "?lo < 2 ^ 16" by (simp_all add: indx_sub_eq)
  define p3 where "p3 = blit p2 12 (le_bytes 2 (?lo - 2))"
  define q where "q = blit p3 14 (le_bytes 2 (?up + sz))"
  have l: "length p3 = length p" "length q = length p" using fit(2) len(2) by (simp_all add: p3_def q_def)
  have h3: "pg_upper p3 = ?up" using fit(2) len(2) h2 by (simp add: p3_def pg_upper_def region_simps)
  have mv: "move_bytes p1 (?up + sz) ?up (?P - ?up) = Some p2"
    using P fit(1) p1(2) lbs by (simp add: move_bytes_def get_bytes_def put_bytes_def p2_def bs_def sub_def)
  have rest: "do { lower \<leftarrow> MP_LOWER p2; mp \<leftarrow> st 2 p2 12 (indx_sub lower 2); upper \<leftarrow> MP_UPPER mp;
       st 2 mp 14 (upper + sz) } = Some q"
    using l fit(2) len(2) h2 h3 lo2(1) by (simp add: page_hdr st_def flip: p3_def) (simp add: q_def)
  have sz': "EVEN (NODESIZE + n_ksize p ?P + (if pg_leaf p then if F_ISSET (n_flags p ?P) F_BIGDATA then 8 else n_word p ?P else 0)) = sz"
    by (simp add: sz_def n_size_def n_dsize_def data_size_def NODESIZE_def)
  have up1: "MP_UPPER p1 = Some ?up" using p1(2) len(2) h1 by (simp add: page_hdr)
  have "mdb_node_del p indx ksize = Some q"
    using i w(6) P rest mv up1 p1(1)
    by (simp add: mdb_node_del_def page_hdr len NODEPTR_def node_reads [OF len(4)] sz' Let_def)
  moreover have flq: "pg_flags q = pg_flags p" and upq: "pg_upper q = ?up + sz" and loq: "pg_lower q = ?lo - 2"
    using l fit(2) len(2) h2 lo2(3) w(3,4) P
    by (simp_all add: q_def p3_def pg_upper_def pg_lower_def pg_flags_def region_simps)
  moreover have "pg_ptr q k = ptr_after ?P sz (pg_ptr p (if k < indx then k else k + 1))" if "k < ?n - 1" for k
  proof -
    have "16 + 2 * k + 2 \<le> ?up + sz" using that len by linarith
    then have "pg_ptr q k = pg_ptr p1 k"
      using l fit len by (simp add: q_def p3_def p2_def pg_ptr_def region_simps)
    then show ?thesis using that p1(3) by simp
  qed
  moreover have "sub q (k + sz) n = sub p k n" if k: "?up \<le> k" "k + n \<le> ?P" for k n
  proof -
    have "sub q (k + sz) n = sub p2 (k + sz) n"
      using k len l fit(2) by (simp add: q_def p3_def region_simps)
    also have "\<dots> = sub p2 (?up + sz + (k - ?up)) n" using k by (simp add: add.commute)
    also have "\<dots> = sub bs (k - ?up) n" unfolding p2_def by (rule sub_blit_inside) (use fit lbs k in simp_all)
    also have "\<dots> = sub p1 k n" unfolding bs_def using k by (subst sub_sub) simp_all
    also have "\<dots> = sub p k n" using k len by (intro p1(4)) simp
    finally show ?thesis .
  qed
  moreover have "sub q k n = sub p k n" if k: "?P + sz \<le> k" for k n
  proof -
    have "sub q k n = sub p1 k n" using k len l fit P lbs by (simp add: q_def p3_def p2_def region_simps)
    then show ?thesis using p1(4) [of k n] k len P by simp
  qed
  ultimately show ?thesis
    using that page_deleted [OF wf i sz_def l(2)] sz_def by blast
qed


section \<open>Adding, as a whole\<close>

text \<open>The bytes a new node takes.\<close>

definition node_bytes :: "node \<Rightarrow> nat" where
  "node_bytes nd = EVEN (8 + length (nd_key nd) + length (nd_data nd))"

text \<open>A page with a node more at \<open>indx\<close>; the rest of its free space is as it was.\<close>

definition node_added :: "page \<Rightarrow> nat \<Rightarrow> node \<Rightarrow> page \<Rightarrow> bool" where
  "node_added p indx nd q \<longleftrightarrow> page_wf q \<and> length q = length p \<and> pg_flags q = pg_flags p
     \<and> page_nodes q = take indx (page_nodes p) @ nd # drop indx (page_nodes p)
     \<and> pg_upper q = pg_upper p - node_bytes nd \<and> pg_ptr q indx = pg_upper q
     \<and> (\<forall>k n. pg_lower p + 2 \<le> k \<longrightarrow> k + n \<le> pg_upper q \<longrightarrow> sub q k n = sub p k n)"

lemma node_update_adds:
  assumes wf: "page_wf p" and i: "indx \<le> pg_cnt p" and room: "pg_lower p + 2 + node_bytes nd \<le> pg_upper p"
    and wrote: "\<And>p1. length p1 = length p \<Longrightarrow> pg_leaf p1 = pg_leaf p \<Longrightarrow>
      pg_upper p - node_bytes nd + (8 + length (nd_key nd) + length (nd_data nd)) \<le> length p1 \<Longrightarrow>
      \<exists>q. node_write p1 (pg_upper p - node_bytes nd) key data pgno flags ofp = Some (q, ofp')
        \<and> node_at (pg_leaf p) q (pg_upper p - node_bytes nd) = nd
        \<and> only_within p1 (pg_upper p - node_bytes nd) (8 + length (nd_key nd) + length (nd_data nd)) q
        \<and> n_size (pg_leaf p) q (pg_upper p - node_bytes nd) = node_bytes nd"
  shows "\<exists>q. node_update p indx key data pgno flags (node_bytes nd) ofp = Some (q, ofp') \<and> node_added p indx nd q"
proof -
  note w = page_wfD [OF wf]
  define ofs where "ofs = pg_upper p - node_bytes nd"
  let ?m = "8 + length (nd_key nd) + length (nd_data nd)"
  have m: "?m \<le> node_bytes nd" unfolding node_bytes_def by (rule EVEN_bounds)
  have o: "ofs + ?m \<le> pg_upper p" "pg_lower p + 2 \<le> ofs" using m room by (simp_all add: ofs_def)
  have lo: "16 \<le> pg_lower p" "even (pg_lower p)" "pg_upper p < 2 ^ 16" using w(1,3,4) by simp_all
  obtain p1 where p1: "ptr_insert p indx (node_bytes nd) = Some p1" "length p1 = length p"
    "pg_lower p1 = pg_lower p + 2" "pg_upper p1 = ofs" "pg_flags p1 = pg_flags p"
    "\<And>k. pg_ptr p1 k = (if k = indx then ofs else if indx < k \<and> k \<le> pg_cnt p then pg_ptr p (k - 1) else pg_ptr p k)"
    "\<And>k n. k + n \<le> 12 \<or> pg_lower p + 2 \<le> k \<Longrightarrow> sub p1 k n = sub p k n"
    using ptr_insert_spec [OF lo(1,2) room w(3) lo(3) i] unfolding ofs_def by metis
  have "pg_leaf p1 = pg_leaf p" by (simp add: pg_leaf_def p1(5))
  then obtain q where q: "node_write p1 ofs key data pgno flags ofp = Some (q, ofp')"
    "node_at (pg_leaf p) q ofs = nd" "only_within p1 ofs ?m q" "n_size (pg_leaf p) q ofs = node_bytes nd"
    using wrote [OF p1(2)] o(1) w(3) p1(2) unfolding ofs_def by fastforce
  have lq: "length q = length p" using q(3) p1(2) by (simp add: only_within_def)
  have hdr: "le_at n q k = le_at n p1 k" if "k + n \<le> ofs" for k n
    by (rule only_within_le_at [OF q(3)]) (use that in simp)
  have ofs16: "18 \<le> ofs" using o(2) lo(1) by linarith
  have h: "pg_lower q = pg_lower p + 2" "pg_upper q = ofs" "pg_flags q = pg_flags p"
    using ofs16 p1(3-5) by (simp_all add: pg_lower_def pg_upper_def pg_flags_def hdr)
  have ptr: "pg_ptr q k = pg_ptr p1 k" if "k \<le> pg_cnt p" for k
    unfolding pg_ptr_def by (rule hdr) (use that w(1) o(2) in simp)
  have ptrs: "pg_ptr q k = (if k = indx then ofs else if indx < k \<and> k \<le> pg_cnt p then pg_ptr p (k - 1) else pg_ptr p k)"
    if "k \<le> pg_cnt p" for k
    using ptr [OF that] p1(6) by simp
  have keep: "sub q k n = sub p k n" if "pg_upper p \<le> k" for k n
  proof -
    have "sub q k n = sub p1 k n" using q(3) that o(1) by (simp add: only_within_def)
    then show ?thesis using p1(7) [of k n] that o by simp
  qed
  have free: "sub q k n = sub p k n" if "pg_lower p + 2 \<le> k" "k + n \<le> ofs" for k n
    using q(3) p1(7) [of k n] that by (simp add: only_within_def)
  have nd: "NODEPTR p1 indx = Some ofs"
    using i w(1,2,3) p1(2) o by (simp add: NODEPTR_def page_hdr p1(6))
  have "node_update p indx key data pgno flags (node_bytes nd) ofp = Some (q, ofp')"
    by (simp add: node_update_def p1(1) nd q(1))
  moreover have ev: "even (node_bytes nd)" by (simp add: node_bytes_def)
  note ins = page_inserted [OF wf i room ev lq h(1) h(2) [unfolded ofs_def] h(3) ptrs [unfolded ofs_def] keep
      q(2,4) [unfolded ofs_def]]
  ultimately show ?thesis using ins lq h free ptrs [OF i] unfolding node_added_def ofs_def by auto
qed


lemma page_room:
  assumes wf: "page_wf p"
  shows "SIZELEFT p = Some (pg_upper p - pg_lower p)" "16 \<le> length p"
    "MP_UPPER p = Some (pg_upper p)" "MP_LOWER p = Some (pg_lower p)" "\<not> pg_upper p < pg_lower p"
    "IS_LEAF2 p = Some False" "IS_LEAF p = Some (pg_leaf p)"
    "int (pg_upper p - pg_lower p) - 2 < int m \<longleftrightarrow> \<not> pg_lower p + 2 + m \<le> pg_upper p"
proof -
  note w = page_wfD [OF wf]
  show len: "16 \<le> length p" using w(1-3) by linarith
  show "MP_UPPER p = Some (pg_upper p)" "MP_LOWER p = Some (pg_lower p)" "IS_LEAF2 p = Some False"
    "IS_LEAF p = Some (pg_leaf p)" using len w(6) by (simp_all add: page_hdr)
  show "\<not> pg_upper p < pg_lower p" using w(2) by simp
  show "int (pg_upper p - pg_lower p) - 2 < int m \<longleftrightarrow> \<not> pg_lower p + 2 + m \<le> pg_upper p"
    using w(2) by linarith
  have "pg_upper p - pg_lower p < 2 ^ 16" using w(3,4) by simp
  then show "SIZELEFT p = Some (pg_upper p - pg_lower p)"
    using len w(2) by (simp add: SIZELEFT_def page_hdr nat_mod_as_int flip: of_nat_diff)
qed

lemma leaf_update_adds:
  assumes "page_wf p" "indx \<le> pg_cnt p" "pg_leaf p" "data_ready flags d ofp" "length k < 2 ^ 16"
    and "pg_lower p + 2 + node_bytes (leaf_node flags k d ofp) \<le> pg_upper p"
  shows "\<exists>q. node_update p indx (Some k) (Some d) pgno flags (node_bytes (leaf_node flags k d ofp)) ofp
      = Some (q, map_option (ov_filled d) ofp) \<and> node_added p indx (leaf_node flags k d ofp) q"
proof (rule node_update_adds [OF assms(1,2,6)])
  let ?nd = "leaf_node flags k d ofp"
  fix p1 assume p1: "length p1 = length p" "pg_leaf p1 = pg_leaf p"
    and fit: "pg_upper p - node_bytes ?nd + (8 + length (nd_key ?nd) + length (nd_data ?nd)) \<le> length p1"
  have k: "nd_key ?nd = k" by (simp add: leaf_node_def)
  have "16 \<le> pg_lower p" using page_wfD(1) [OF assms(1)] by simp
  then have o: "16 \<le> pg_upper p - node_bytes ?nd" using assms(6) by linarith
  have lf: "pg_leaf p1" using p1(2) assms(3) by simp
  have fit': "pg_upper p - node_bytes ?nd + (8 + length k + length (nd_data ?nd)) \<le> length p1"
    using fit k by simp
  obtain q where "node_write p1 (pg_upper p - node_bytes ?nd) (Some k) (Some d) pgno flags ofp
      = Some (q, map_option (ov_filled d) ofp)" "node_at True q (pg_upper p - node_bytes ?nd) = ?nd"
    "only_within p1 (pg_upper p - node_bytes ?nd) (8 + length k + length (nd_data ?nd)) q"
    "n_size True q (pg_upper p - node_bytes ?nd) = EVEN (8 + length k + length (nd_data ?nd))"
    by (rule node_write_leaf [OF lf o assms(4,5) fit'])
  then show "\<exists>q. node_write p1 (pg_upper p - node_bytes ?nd) (Some k) (Some d) pgno flags ofp
        = Some (q, map_option (ov_filled d) ofp)
      \<and> node_at (pg_leaf p) q (pg_upper p - node_bytes ?nd) = ?nd
      \<and> only_within p1 (pg_upper p - node_bytes ?nd) (8 + length (nd_key ?nd) + length (nd_data ?nd)) q
      \<and> n_size (pg_leaf p) q (pg_upper p - node_bytes ?nd) = node_bytes ?nd"
    using assms(3) k by (auto simp: node_bytes_def)
qed

lemma branch_update_adds:
  assumes "page_wf p" "indx \<le> pg_cnt p" "\<not> pg_leaf p" "pgno < 2 ^ 48"
    and "length (nd_key (branch_node pgno key)) < 2 ^ 16"
    and "pg_lower p + 2 + node_bytes (branch_node pgno key) \<le> pg_upper p"
  shows "\<exists>q. node_update p indx key data pgno flags (node_bytes (branch_node pgno key)) None
      = Some (q, None) \<and> node_added p indx (branch_node pgno key) q"
proof (rule node_update_adds [OF assms(1,2,6)])
  let ?nd = "branch_node pgno key"
  fix p1 assume p1: "length p1 = length p" "pg_leaf p1 = pg_leaf p"
    and fit: "pg_upper p - node_bytes ?nd + (8 + length (nd_key ?nd) + length (nd_data ?nd)) \<le> length p1"
  have k: "(case key of None \<Rightarrow> [] | Some k \<Rightarrow> k) = nd_key ?nd" "nd_data ?nd = []" by (simp_all add: branch_node_def)
  have "16 \<le> pg_lower p" using page_wfD(1) [OF assms(1)] by simp
  then have o: "16 \<le> pg_upper p - node_bytes ?nd" using assms(6) by linarith
  have lf: "\<not> pg_leaf p1" using p1(2) assms(3) by simp
  have fit': "pg_upper p - node_bytes ?nd + (8 + length (nd_key ?nd)) \<le> length p1" using fit k by simp
  obtain q where "node_write p1 (pg_upper p - node_bytes ?nd) key data pgno flags None = Some (q, None)"
    "node_at False q (pg_upper p - node_bytes ?nd) = ?nd"
    "only_within p1 (pg_upper p - node_bytes ?nd) (8 + length (nd_key ?nd)) q"
    "n_size False q (pg_upper p - node_bytes ?nd) = EVEN (8 + length (nd_key ?nd))"
    by (rule node_write_branch [OF lf o assms(4), of key, unfolded k(1), OF assms(5) fit'])
  then show "\<exists>q. node_write p1 (pg_upper p - node_bytes ?nd) key data pgno flags None = Some (q, None)
      \<and> node_at (pg_leaf p) q (pg_upper p - node_bytes ?nd) = ?nd
      \<and> only_within p1 (pg_upper p - node_bytes ?nd) (8 + length (nd_key ?nd) + length (nd_data ?nd)) q
      \<and> n_size (pg_leaf p) q (pg_upper p - node_bytes ?nd) = node_bytes ?nd"
    using assms(3) k(2) by (auto simp: node_bytes_def)
qed


section \<open>Properties\<close>

lemma F_ISSET_OR_RESERVE [simp]: "F_ISSET (w OR F_BIGDATA) MDB_RESERVE = F_ISSET w MDB_RESERVE"
proof -
  have r: "MDB_RESERVE = 2 ^ 16" "F_BIGDATA = 2 ^ 0" by (simp_all add: MDB_RESERVE_def F_BIGDATA_def)
  have "(w OR F_BIGDATA) AND MDB_RESERVE = w AND MDB_RESERVE"
    unfolding r by (rule bit_eqI) (simp only: bit_and_iff bit_or_iff bit_exp_iff, auto)
  then show ?thesis by (simp add: F_ISSET_def)
qed

lemma leaf_node_bytes:
  "data_ready flags d None \<Longrightarrow> EVEN (NODESIZE + length k + (if F_ISSET flags F_BIGDATA then 8 else mv_size d))
     = node_bytes (leaf_node flags k d None)"
  by (auto simp: node_bytes_def leaf_node_def data_ready_def NODESIZE_def)

lemma node_add_leaf_eq:
  assumes "page_wf mp" "pg_leaf mp" "data_ready flags d None"
    and "F_ISSET flags F_BIGDATA \<or> 8 + length k + mv_size d \<le> me_nodemax env"
  shows "mdb_node_add env db tf alloc mp indx (Some k) (Some d) pgno flags =
     (if \<not> pg_lower mp + 2 + node_bytes (leaf_node flags k d None) \<le> pg_upper mp then Some (MDB_PAGE_FULL, mp, db, tf OR TXN_ERROR, None)
      else do { (mp, ofp) \<leftarrow> node_update mp indx (Some k) (Some d) pgno flags (node_bytes (leaf_node flags k d None)) None;
                Some (0, mp, db, tf, ofp) })"
proof -
  note r = page_room [OF assms(1)]
  have big: "(\<not> F_ISSET flags F_BIGDATA \<and> me_nodemax env < NODESIZE + length k + mv_size d) = False"
    using assms(4) by (auto simp: NODESIZE_def)
  show ?thesis
    unfolding mdb_node_add_def Let_def r(1,3,4,6,7) Option.bind.bind_lunit
    by (simp only: r(5,8) assms(2) big leaf_node_bytes [OF assms(3)] option.case prod.case bool.case if_False)
qed

lemma node_add_leaf_fits:
  assumes "page_wf mp" "pg_leaf mp" "indx \<le> pg_cnt mp" "length k < 2 ^ 16" "data_ready flags d None"
    and "F_ISSET flags F_BIGDATA \<or> 8 + length k + mv_size d \<le> me_nodemax env"
    and "pg_lower mp + 2 + node_bytes (leaf_node flags k d None) \<le> pg_upper mp"
  shows "\<exists>q. mdb_node_add env db tf alloc mp indx (Some k) (Some d) pgno flags = Some (0, q, db, tf, None)
           \<and> node_added mp indx (leaf_node flags k d None) q"
  using leaf_update_adds [OF assms(1,3,2,5,4,7), of pgno] node_add_leaf_eq [OF assms(1,2,5,6), of db tf alloc indx pgno] assms(7)
  by auto

text \<open>C26: On a leaf page in order, for data that fits a node (or is on overflow pages already),
  \<open>mdb_node_add\<close> inserts exactly the new node at the index into the list of nodes the page holds and
  leaves the page in order and the transaction unmarked, or, when the node does not fit the free space,
  answers \<open>MDB_PAGE_FULL\<close>, changes no page and marks the transaction with \<open>MDB_TXN_ERROR\<close>; nothing is
  written outside the page.\<close>

theorem mdb_node_add_leaf:
  assumes "page_wf mp" "pg_leaf mp" "indx \<le> pg_cnt mp" "length k < 2 ^ 16" "data_ready flags d None"
    and "F_ISSET flags F_BIGDATA \<or> 8 + length k + mv_size d \<le> me_nodemax env"
  shows "if pg_lower mp + 2 + node_bytes (leaf_node flags k d None) \<le> pg_upper mp
    then \<exists>q. mdb_node_add env db tf alloc mp indx (Some k) (Some d) pgno flags = Some (0, q, db, tf, None)
           \<and> node_added mp indx (leaf_node flags k d None) q
    else mdb_node_add env db tf alloc mp indx (Some k) (Some d) pgno flags = Some (MDB_PAGE_FULL, mp, db, tf OR TXN_ERROR, None)"
  using node_add_leaf_eq [OF assms(1,2,5,6), of db tf alloc indx pgno] leaf_update_adds [OF assms(1,3,2,5,4), of pgno] by auto

text \<open>A page of 64 bytes with one node, and an empty one.\<close>

definition page_empty :: page where
  "page_empty = [7, 0, 0, 0, 0, 0, 0, 0, 0, 0, 2, 0, 16, 0, 64, 0] @ replicate 48 0"

lemma page_empty_hdr: "length page_empty = 64" "pg_lower page_empty = 16" "pg_upper page_empty = 64"
  "pg_flags page_empty = 2" "pg_cnt page_empty = 0" "pg_leaf page_empty"
  by (simp_all add: page_empty_def pg_lower_def pg_upper_def pg_flags_def pg_cnt_def pg_leaf_def le_at_nth
      F_ISSET_def P_LEAF_def)

lemma page_empty_wf: "page_wf page_empty" "page_nodes page_empty = []"
  by (simp_all add: page_wf_def page_empty_hdr page_nodes_def F_ISSET_def P_LEAF2_def)

definition env_sample :: env where "env_sample = \<lparr>me_psize = 64, me_nodemax = 24\<rparr>"

definition db_sample :: MDB_db where
  "db_sample = \<lparr>md_pad = 0, md_flags = 0, md_depth = 1, md_branch_pages = 0, md_leaf_pages = 1,
     md_overflow_pages = 0, md_entries = 0, md_root = 7\<rparr>"

theorem mdb_node_add_leaf_witness:
  "\<exists>q. mdb_node_add env_sample db_sample 0 (\<lambda>_. Inl 12) page_empty 0 (Some [97]) (Some \<lparr>mv_size = 2, mv_data = [5, 6]\<rparr>) 0 0
      = Some (0, q, db_sample, 0, None)
     \<and> page_nodes q = [\<lparr>nd_flags = 0, nd_key = [97], nd_word = 2, nd_data = [5, 6]\<rparr>]"
proof -
  have "0 \<le> pg_cnt page_empty" "length [97 :: u8] < 2 ^ 16" by simp_all
  moreover have "data_ready 0 \<lparr>mv_size = 2, mv_data = [5, 6]\<rparr> None"
    by (simp add: data_ready_def F_ISSET_def MDB_RESERVE_def F_BIGDATA_def)
  moreover have "F_ISSET 0 F_BIGDATA \<or> 8 + length [97 :: u8] + mv_size \<lparr>mv_size = 2, mv_data = [5, 6]\<rparr> \<le> me_nodemax env_sample"
    by (simp add: env_sample_def)
  ultimately show ?thesis
    using mdb_node_add_leaf [OF page_empty_wf(1) page_empty_hdr(6), of 0 "[97]" 0 "\<lparr>mv_size = 2, mv_data = [5, 6]\<rparr>"
        env_sample db_sample 0 "\<lambda>_. Inl 12" 0]
    by (auto simp: page_empty_hdr page_empty_wf node_added_def leaf_node_def node_bytes_def EVEN_def
        F_ISSET_def F_BIGDATA_def)
qed

text \<open>C28: On a page in order \<open>mdb_node_del\<close> removes exactly the node at the index from the list of nodes,
  gives its space back and leaves a page in order, on leaf and on branch pages.\<close>

theorem mdb_node_del_correct:
  assumes "page_wf mp" "indx < pg_cnt mp"
  shows "\<exists>q. mdb_node_del mp indx ksize = Some q \<and> page_wf q \<and> pg_flags q = pg_flags mp
    \<and> page_nodes q = take indx (page_nodes mp) @ drop (Suc indx) (page_nodes mp)
    \<and> pg_upper q = pg_upper mp + n_size (pg_leaf mp) mp (pg_ptr mp indx)"
  by (rule mdb_node_del_spec [OF assms, of ksize]) blast

definition page_one :: page where
  "page_one = [7, 0, 0, 0, 0, 0, 0, 0, 0, 0, 2, 0, 18, 0, 52, 0, 52, 0] @ replicate 34 0
     @ [2, 0, 0, 0, 0, 0, 1, 0, 97, 5, 6, 0]"

lemma page_one_hdr: "length page_one = 64" "pg_lower page_one = 18" "pg_upper page_one = 52"
  "pg_flags page_one = 2" "pg_cnt page_one = 1" "pg_leaf page_one" "pg_ptr page_one 0 = 52"
  by (simp_all add: page_one_def pg_lower_def pg_upper_def pg_flags_def pg_cnt_def pg_leaf_def pg_ptr_def le_at_nth
      F_ISSET_def P_LEAF_def)

lemma page_one_node: "n_ksize page_one 52 = 1" "n_flags page_one 52 = 0" "n_word page_one 52 = 2"
  by (simp_all add: page_one_def n_ksize_def n_flags_def n_word_def le_at_nth nth_append)

lemma page_one_wf: "page_wf page_one"
  by (simp add: page_wf_def page_one_hdr page_one_node n_size_def n_dsize_def data_size_def EVEN_def
      F_ISSET_def P_LEAF2_def F_BIGDATA_def)

theorem mdb_node_del_correct_witness:
  "\<exists>q. mdb_node_del page_one 0 0 = Some q \<and> page_wf q \<and> page_nodes q = [] \<and> pg_upper q = 64"
proof -
  have "0 < pg_cnt page_one" by (simp add: page_one_hdr)
  from mdb_node_del_correct [OF page_one_wf this, of 0] show ?thesis
    by (auto simp: page_nodes_def page_one_hdr page_one_node n_size_def n_dsize_def data_size_def EVEN_def
        F_ISSET_def F_BIGDATA_def)
qed


text \<open>Room for the data on the overflow pages that \<open>OVPAGES\<close> counts.\<close>

lemma OVPAGES_room: "0 < psize \<Longrightarrow> 16 + dsz \<le> OVPAGES dsz psize * psize"
proof -
  assume "0 < psize"
  then have "(15 + dsz) mod psize < psize" by simp
  then have "16 + dsz \<le> (15 + dsz) div psize * psize + psize"
    using div_mult_mod_eq [of "15 + dsz" psize] by linarith
  then show ?thesis by (simp add: OVPAGES_def PAGEHDRSZ_def add_mult_distrib)
qed

lemma mdb_page_new_overflow:
  assumes "16 \<le> length np"
  obtains ov where "mdb_page_new env db (Inr np) P_OVERFLOW num
      = Some (0, db\<lparr>md_overflow_pages := md_overflow_pages db + of_nat num\<rparr>, Some ov)"
    "length ov = length np" "sub ov 0 8 = sub np 0 8"
proof -
  define n1 where "n1 = blit np 10 (le_bytes 2 (P_OVERFLOW OR P_DIRTY))"
  define n3 where "n3 = blit (blit n1 12 (le_bytes 2 PAGEHDRSZ)) 14 (le_bytes 2 (me_psize env))"
  define ov where "ov = blit n3 12 (le_bytes 4 num)"
  have l: "length n1 = length np" "length n3 = length np" "length ov = length np"
    using assms by (simp_all add: n1_def n3_def ov_def)
  have "pg_flags n3 = 20"
    using assms l by (simp add: pg_flags_def n3_def n1_def region_simps P_OVERFLOW_def P_DIRTY_def)
  then have f: "MP_FLAGS n3 = Some 20" using assms l by (simp add: MP_FLAGS_def ld_le_at pg_flags_def)
  have "mdb_page_new env db (Inr np) P_OVERFLOW num
      = Some (0, db\<lparr>md_overflow_pages := md_overflow_pages db + of_nat num\<rparr>, Some ov)"
    using assms l f
    by (simp add: mdb_page_new_def st_def flip: n1_def)
      (simp add: F_ISSET_def P_BRANCH_def P_LEAF_def P_OVERFLOW_def st_def ov_def flip: n3_def)
  moreover have "sub ov 0 8 = sub np 0 8" using assms l by (simp add: ov_def n3_def n1_def region_simps)
  ultimately show ?thesis using that l(3) by blast
qed

text \<open>Data too large for a node goes to overflow pages: \<open>mdb_node_add\<close> asks for as many pages as the data
  and a header need, copies the data there, inserts a node that is flagged \<open>F_BIGDATA\<close> and holds the page
  number, and counts the pages. Where the node does not fit it answers \<open>MDB_PAGE_FULL\<close> before it
  allocates anything.\<close>

theorem mdb_node_add_overflow:
  assumes "page_wf mp" "pg_leaf mp" "indx \<le> pg_cnt mp" "length k < 2 ^ 16"
    and "\<not> F_ISSET flags F_BIGDATA" "\<not> F_ISSET flags MDB_RESERVE"
    and "me_nodemax env < 8 + length k + mv_size d" "mv_size d < 2 ^ 32" "mv_size d \<le> length (mv_data d)"
    and "0 < me_psize env" "n = OVPAGES (mv_size d) (me_psize env)"
    and "alloc n = Inr np" "length np = n * me_psize env"
  shows "if pg_lower mp + 2 + EVEN (16 + length k) \<le> pg_upper mp
    then \<exists>q ov. mdb_node_add env db tf alloc mp indx (Some k) (Some d) pgno flags
             = Some (0, q, db\<lparr>md_overflow_pages := md_overflow_pages db + of_nat n\<rparr>, tf, Some ov)
           \<and> node_added mp indx \<lparr>nd_flags = (flags OR F_BIGDATA) mod 2 ^ 16, nd_key = k, nd_word = mv_size d,
                nd_data = take 8 np\<rparr> q
           \<and> length ov = length np \<and> take 8 ov = take 8 np
           \<and> take (mv_size d) (drop 16 ov) = take (mv_size d) (mv_data d)
    else mdb_node_add env db tf alloc mp indx (Some k) (Some d) pgno flags = Some (MDB_PAGE_FULL, mp, db, tf OR TXN_ERROR, None)"
proof -
  note r = page_room [OF assms(1)]
  have fit: "16 + mv_size d \<le> length np" using OVPAGES_room [OF assms(10)] assms(11,13) by simp
  then have l16: "16 \<le> length np" by simp
  let ?db = "db\<lparr>md_overflow_pages := md_overflow_pages db + of_nat n\<rparr>"
  obtain op where new: "mdb_page_new env db (Inr np) P_OVERFLOW n = Some (0, ?db, Some op)"
    "length op = length np" "sub op 0 8 = sub np 0 8" by (rule mdb_page_new_overflow [OF l16])
  let ?f = "flags OR F_BIGDATA"
  let ?nd = "leaf_node ?f k d (Some op)"
  have ready: "data_ready ?f d (Some op)" using assms(6,8,9) fit new(2) by (simp add: data_ready_def)
  have nd: "?nd = \<lparr>nd_flags = ?f mod 2 ^ 16, nd_key = k, nd_word = mv_size d, nd_data = take 8 np\<rparr>"
    using new(3) by (simp add: leaf_node_def sub_def)
  have nb: "node_bytes ?nd = EVEN (16 + length k)" unfolding node_bytes_def nd using l16 by (simp add: min_def)
  have sz: "EVEN (NODESIZE + length k + 8) = EVEN (16 + length k)" by (simp add: NODESIZE_def ac_simps)
  have big: "(\<not> F_ISSET flags F_BIGDATA \<and> me_nodemax env < NODESIZE + length k + mv_size d) = True"
    using assms(5,7) by (simp add: NODESIZE_def)
  have add: "mdb_node_add env db tf alloc mp indx (Some k) (Some d) pgno flags =
     (if \<not> pg_lower mp + 2 + EVEN (16 + length k) \<le> pg_upper mp then Some (MDB_PAGE_FULL, mp, db, tf OR TXN_ERROR, None)
      else do { (mp, ofp) \<leftarrow> node_update mp indx (Some k) (Some d) pgno ?f (EVEN (16 + length k)) (Some op);
                Some (0, mp, ?db, tf, ofp) })"
    unfolding mdb_node_add_def Let_def r(1,3,4,6,7) Option.bind.bind_lunit
    by (simp only: r(5,8) assms(2) big sz option.case prod.case bool.case if_False if_True
        assms(11) [symmetric] assms(12) new(1) Option.bind.bind_lunit simp_thms)
  show ?thesis
  proof (cases "pg_lower mp + 2 + EVEN (16 + length k) \<le> pg_upper mp")
    case True
    then obtain q where q: "node_update mp indx (Some k) (Some d) pgno ?f (EVEN (16 + length k)) (Some op)
        = Some (q, Some (ov_filled d op))" "node_added mp indx ?nd q"
      using leaf_update_adds [OF assms(1,3,2) ready assms(4), of pgno] nb by auto
    have ov: "length (ov_filled d op) = length np" "sub (ov_filled d op) 0 8 = sub np 0 8"
      "sub (ov_filled d op) 16 (mv_size d) = take (mv_size d) (mv_data d)"
      using fit new(2,3) assms(9) by (simp_all add: ov_filled_def region_simps)
    then show ?thesis
      using True q add nd by (auto simp: sub_def)
  qed (simp add: add)
qed

theorem mdb_node_add_overflow_witness:
  "\<exists>q ov. mdb_node_add env_sample db_sample 0 (\<lambda>n. Inr (9 # replicate (n * 64 - 1) 0)) page_empty 0
        (Some [97]) (Some \<lparr>mv_size = 50, mv_data = replicate 50 3\<rparr>) 0 0
      = Some (0, q, db_sample\<lparr>md_overflow_pages := 2\<rparr>, 0, Some ov)
     \<and> page_nodes q = [\<lparr>nd_flags = 1, nd_key = [97], nd_word = 50, nd_data = 9 # replicate 7 0\<rparr>]
     \<and> take 50 (drop 16 ov) = replicate 50 3"
proof -
  let ?d = "\<lparr>mv_size = 50, mv_data = replicate 50 (3 :: u8)\<rparr>" and ?np = "9 # replicate 127 (0 :: u8)"
  define alloc :: "nat \<Rightarrow> int + page" where "alloc = (\<lambda>n. Inr (9 # replicate (n * 64 - 1) 0))"
  have n: "OVPAGES 50 64 = 2" by (simp add: OVPAGES_def PAGEHDRSZ_def)
  have "0 \<le> pg_cnt page_empty" "length [97 :: u8] < 2 ^ 16" "\<not> F_ISSET 0 F_BIGDATA" "\<not> F_ISSET 0 MDB_RESERVE"
    "me_nodemax env_sample < 8 + length [97 :: u8] + mv_size ?d" "mv_size ?d < 2 ^ 32" "mv_size ?d \<le> length (mv_data ?d)"
    "0 < me_psize env_sample" "2 = OVPAGES (mv_size ?d) (me_psize env_sample)"
    "alloc 2 = Inr ?np" "length ?np = 2 * me_psize env_sample"
    by (simp_all add: F_ISSET_def F_BIGDATA_def MDB_RESERVE_def env_sample_def n alloc_def)
  from mdb_node_add_overflow [where alloc = alloc and n = 2 and flags = 0 and d = ?d and env = env_sample
      and np = ?np and indx = 0 and k = "[97]" and db = db_sample and tf = 0 and pgno = 0,
      OF page_empty_wf(1) page_empty_hdr(6) this] show ?thesis
    unfolding alloc_def
    by (auto simp: page_empty_hdr page_empty_wf node_added_def EVEN_def F_BIGDATA_def db_sample_def
        take_Cons' split: if_splits)
qed


text \<open>On a branch page in order with \<open>mdb_branch_size\<close> bytes of free space \<open>mdb_node_add\<close> never answers
  \<open>MDB_PAGE_FULL\<close>: it inserts a node whose decoded page number is the one given (up to 48 bits) and keeps
  the page in order. The function that computes the size does not round it up, as its comment says, but
  the free space of a page in order is always even.\<close>

theorem mdb_node_add_branch:
  assumes "page_wf mp" "\<not> pg_leaf mp" "indx \<le> pg_cnt mp" "pgno < 2 ^ 48"
    and "length (case key of None \<Rightarrow> [] | Some k \<Rightarrow> k) < 2 ^ 16" "mdb_branch_size env key \<le> pg_upper mp - pg_lower mp"
  shows "\<exists>q. mdb_node_add env db tf alloc mp indx key data pgno flags = Some (0, q, db, tf, None)
    \<and> node_added mp indx (branch_node pgno key) q
    \<and> nd_word (branch_node pgno key) + 2 ^ 32 * nd_flags (branch_node pgno key) = pgno"
proof -
  let ?nd = "branch_node pgno key"
  note r = page_room [OF assms(1)] and w = page_wfD [OF assms(1)]
  have k: "(case key of None \<Rightarrow> 0 | Some k \<Rightarrow> length k) = length (nd_key ?nd)" "nd_data ?nd = []"
    by (simp_all add: branch_node_def split: option.splits)
  have nb: "EVEN (NODESIZE + length (nd_key ?nd)) = node_bytes ?nd"
    using k(2) by (simp add: node_bytes_def NODESIZE_def)
  have "mdb_branch_size env key = 10 + length (nd_key ?nd)"
    by (simp add: mdb_branch_size_def INDXSIZE_def NODESIZE_def k)
  then have "10 + length (nd_key ?nd) \<le> pg_upper mp - pg_lower mp" using assms(6) by simp
  moreover have "even (pg_upper mp - pg_lower mp)" using w(1,2,5) by simp
  ultimately have room: "pg_lower mp + 2 + node_bytes ?nd \<le> pg_upper mp"
    unfolding nb [symmetric] NODESIZE_def EVEN_def by (elim evenE) presburger
  have "mdb_node_add env db tf alloc mp indx key data pgno flags =
     (if \<not> pg_lower mp + 2 + node_bytes ?nd \<le> pg_upper mp then Some (MDB_PAGE_FULL, mp, db, tf OR TXN_ERROR, None)
      else do { (mp, ofp) \<leftarrow> node_update mp indx key data pgno flags (node_bytes ?nd) None; Some (0, mp, db, tf, ofp) })"
    unfolding mdb_node_add_def Let_def r(1,3,4,6,7) Option.bind.bind_lunit k(1)
    by (simp only: r(5,8) assms(2) nb prod.case bool.case if_False)
  then show ?thesis
    using branch_update_adds [OF assms(1,3,2,4) _ room, of data flags] assms(5) room
    by (auto simp: branch_node_def)
qed

theorem mdb_node_add_branch_witness:
  "\<exists>q. mdb_node_add env_sample db_sample 0 (\<lambda>_. Inl 12) (page_empty[10 := 1]) 0 (Some [97]) None 8589934599 0
      = Some (0, q, db_sample, 0, None) \<and> page_nodes q = [\<lparr>nd_flags = 2, nd_key = [97], nd_word = 7, nd_data = []\<rparr>]"
proof -
  let ?p = "page_empty[10 := 1]"
  have h: "pg_lower ?p = 16" "pg_upper ?p = 64" "pg_flags ?p = 1" "pg_cnt ?p = 0" "length ?p = 64"
    by (simp_all add: page_empty_def pg_lower_def pg_upper_def pg_flags_def pg_cnt_def le_at_nth)
  then have wf: "page_wf ?p" "page_nodes ?p = []" "\<not> pg_leaf ?p"
    by (simp_all add: page_wf_def page_nodes_def F_ISSET_def P_LEAF2_def P_LEAF_def pg_leaf_def)
  have "0 \<le> pg_cnt ?p" "(8589934599 :: nat) < 2 ^ 48" "length (case Some [97 :: u8] of None \<Rightarrow> [] | Some k \<Rightarrow> k) < 2 ^ 16"
    "mdb_branch_size env_sample (Some [97]) \<le> pg_upper ?p - pg_lower ?p"
    by (simp_all add: h mdb_branch_size_def INDXSIZE_def NODESIZE_def)
  from mdb_node_add_branch [OF wf(1,3) this, of db_sample 0 "\<lambda>_. Inl 12" None 0] show ?thesis
    by (auto simp: node_added_def wf(2) branch_node_def)
qed

end
