(* ===== verification/Mdb_Split.thy ===== *)
theory Mdb_Split
  imports Mdb_Node
begin

text \<open>
  \<open>lmdb/mdb.c\<close>: \<open>mdb_page_split\<close> when a node is added to a page that has no room for it: the temporary copy
  of the page's pointers with a gap for the new node, the choice of the split point, the separator key for
  the parent, and the loop that rebuilds the two halves. The theorems say that the nodes of the two pages are those of
  the old page with the new one inserted, that both pages are in order, and where the split point that the
  code computes makes both halves fit. The new sibling and the new root, the node for the parent, the branch for
  \<open>MDB_APPEND\<close> and the correction of other cursors are not here; the cursor's own index is.
\<close>

unbundle bit_operations_syntax

section \<open>The code\<close>

text \<open>The new node, as the arguments of \<open>mdb_page_split\<close> and the cursor's index give it.\<close>

record new_node =
  nn_index :: nat
  nn_key :: mval
  nn_data :: "MDB_val option"
  nn_pgno :: nat
  nn_flags :: nat

text \<open>``Prepare to insert'': \<open>m\<close> pointers are left to copy, from \<open>i\<close> on to \<open>j\<close> on.\<close>

fun copy_ptrs :: "page \<Rightarrow> nat \<Rightarrow> page \<Rightarrow> nat \<Rightarrow> nat \<Rightarrow> nat \<Rightarrow> page option" where
  "copy_ptrs mp newindx copy 0 i j = Some copy"
| "copy_ptrs mp newindx copy (Suc m) i j =
     do { (copy, j) \<leftarrow> (if i = newindx
                      then do { copy \<leftarrow> st 2 copy (PAGEHDRSZ + 2 * j) 0; Some (copy, j + 1) }
                      else Some (copy, j));
          v \<leftarrow> MP_PTRS mp i;
          copy \<leftarrow> st 2 copy (PAGEHDRSZ + 2 * j) v;
          copy_ptrs mp newindx copy m (i + 1) (j + 1) }"

text \<open>The temporary page: the memory that \<open>mdb_page_malloc\<close> returned is \<open>copy\<close>.\<close>

definition split_copy :: "env \<Rightarrow> page \<Rightarrow> page \<Rightarrow> nat \<Rightarrow> page option" where
  "split_copy env copy mp newindx =
     do { nkeys \<leftarrow> NUMKEYS mp;
          no \<leftarrow> MP_PGNO mp; copy \<leftarrow> st 8 copy 0 no;
          flags \<leftarrow> MP_FLAGS mp; copy \<leftarrow> st 2 copy 10 flags;
          copy \<leftarrow> st 2 copy 12 PAGEHDRSZ;
          copy \<leftarrow> st 2 copy 14 (me_psize env);
          copy_ptrs mp newindx copy nkeys 0 0 }"

text \<open>The size of the new node; \<open>mdb_leaf_size\<close> reads only the sizes of key and data.\<close>

definition split_nsize :: "env \<Rightarrow> bool \<Rightarrow> new_node \<Rightarrow> nat option" where
  "split_nsize env leaf new =
     map_option EVEN
       (if leaf then map_option (\<lambda>d. mdb_leaf_size env (nn_key new) (replicate (mv_size d) 0)) (nn_data new)
        else Some (mdb_branch_size env (Some (nn_key new))))"

text \<open>``Find split point'': \<open>m\<close> rounds are left, upwards or downwards from \<open>i\<close>.\<close>

fun split_scan ::
  "page \<Rightarrow> page \<Rightarrow> bool \<Rightarrow> nat \<Rightarrow> nat \<Rightarrow> nat \<Rightarrow> bool \<Rightarrow> nat \<Rightarrow> nat \<Rightarrow> nat \<Rightarrow> nat \<Rightarrow> nat option" where
  "split_scan mp copy leaf newindx nsize pmax up split_indx 0 i psize = Some split_indx"
| "split_scan mp copy leaf newindx nsize pmax up split_indx (Suc m) i psize =
     do { psize \<leftarrow> (if i = newindx then Some (psize + nsize)
                   else do { off \<leftarrow> MP_PTRS copy i;
                             ks \<leftarrow> NODEKSZ mp off; fl \<leftarrow> NODEFLAGS mp off; dsz \<leftarrow> NODEDSZ mp off;
                             Some (EVEN (psize + NODESIZE + ks + 2
                               + (if leaf then if F_ISSET fl F_BIGDATA then 8 else dsz else 0))) });
          if pmax < psize \<or> m = 0 then Some (if up then i else i + 1)
          else split_scan mp copy leaf newindx nsize pmax up split_indx m (if up then i + 1 else i - 1) psize }"

text \<open>Whether the split point is looked for, or the middle is taken unseen.\<close>

definition split_checked :: "env \<Rightarrow> nat \<Rightarrow> nat \<Rightarrow> nat \<Rightarrow> bool" where
  "split_checked env nkeys newindx nsize \<longleftrightarrow>
     nkeys < me_psize env div 128 \<or> (me_psize env - PAGEHDRSZ) div 16 < nsize \<or> nkeys \<le> newindx"

definition split_point :: "env \<Rightarrow> page \<Rightarrow> page \<Rightarrow> nat \<Rightarrow> nat \<Rightarrow> nat \<Rightarrow> nat option" where
  "split_point env mp copy nkeys newindx nsize =
     do { leaf \<leftarrow> IS_LEAF mp;
          let split_indx = (nkeys + 1) div 2;
          let pmax = me_psize env - PAGEHDRSZ;
          if split_checked env nkeys newindx nsize
          then if newindx \<le> split_indx \<or> nkeys \<le> newindx
               then split_scan mp copy leaf newindx nsize pmax True split_indx
                      (if nkeys \<le> newindx then nkeys else split_indx + 1 + (if leaf then 1 else 0)) 0 0
               else split_scan mp copy leaf newindx nsize pmax False split_indx
                      (nkeys + 1 - split_indx) nkeys 0
          else Some split_indx }"

definition split_sepkey :: "page \<Rightarrow> page \<Rightarrow> new_node \<Rightarrow> nat \<Rightarrow> mval option" where
  "split_sepkey mp copy new split_indx =
     (if split_indx = nn_index new then Some (nn_key new)
      else do { off \<leftarrow> MP_PTRS copy split_indx; NODEKEY mp off })"

text \<open>What the loop adds at \<open>j\<close> for the item \<open>i\<close>: key, data, page number and flags. The first key of a
  branch page is left out.\<close>

definition split_item ::
  "page \<Rightarrow> page \<Rightarrow> new_node \<Rightarrow> nat \<Rightarrow> nat \<Rightarrow> (mval \<times> MDB_val option \<times> nat \<times> nat) option" where
  "split_item mp copy new i j =
     do { leaf \<leftarrow> IS_LEAF mp;
          (key, data, pgno, flags) \<leftarrow>
            (if i = nn_index new
             then Some (if leaf then (nn_key new, nn_data new, 0, nn_flags new)
                        else (nn_key new, None, nn_pgno new, nn_flags new))
             else do { off \<leftarrow> MP_PTRS copy i;
                       key \<leftarrow> NODEKEY mp off;
                       flags \<leftarrow> NODEFLAGS mp off;
                       if leaf
                       then do { pos \<leftarrow> NODEDATA mp off; dsz \<leftarrow> NODEDSZ mp off;
                                 Some (key, Some \<lparr>mv_size = dsz, mv_data = drop pos mp\<rparr>, 0, flags) }
                       else do { pgno \<leftarrow> NODEPGNO mp off; Some (key, None, pgno, flags) } });
          Some ((if \<not> leaf \<and> j = 0 then [] else key), data, pgno, flags) }"

text \<open>``Move nodes''. The items from the split point on go to the right page, the others to the copy.
  The result has the return code, the two pages, the database's counts, the transaction's flags, the overflow pages of the new node
  if it needed any, and the new node's index.\<close>

type_synonym move_result = "int \<times> page \<times> page \<times> MDB_db \<times> u32 \<times> page option \<times> nat"

partial_function (option) split_loop ::
  "env \<Rightarrow> (nat \<Rightarrow> int + page) \<Rightarrow> page \<Rightarrow> new_node \<Rightarrow> nat \<Rightarrow> nat \<Rightarrow> bool \<Rightarrow> nat \<Rightarrow> nat
   \<Rightarrow> page \<Rightarrow> page \<Rightarrow> MDB_db \<Rightarrow> u32 \<Rightarrow> page option \<Rightarrow> nat \<Rightarrow> move_result option" where
  "split_loop env alloc mp new nkeys split_indx right i j rp copy db tf ov ki =
     do { (key, data, pgno, flags) \<leftarrow> split_item mp copy new i j;
          let ki = (if i = nn_index new then j else ki);
          (rc, pg, db, tf, ofp) \<leftarrow> mdb_node_add env db tf alloc (if right then rp else copy) j (Some key) data pgno flags;
          let rp = (if right then pg else rp);
          let copy = (if right then copy else pg);
          let ov = (if ofp = None then ov else ofp);
          if rc \<noteq> 0 then Some (rc, rp, copy, db, tf, ov, ki)
          else do { let (i, j, right) = (if i = nkeys then (0, 0, False) else (i + 1, j + 1, right));
                    if i = split_indx then Some (0, rp, copy, db, tf, ov, ki)
                    else split_loop env alloc mp new nkeys split_indx right i j rp copy db tf ov ki } }"

text \<open>The left half goes back to the page: \<open>m\<close> pointers are left to copy, from \<open>i\<close> on.\<close>

fun copy_back :: "page \<Rightarrow> page \<Rightarrow> nat \<Rightarrow> nat \<Rightarrow> page option" where
  "copy_back mp copy 0 i = Some mp"
| "copy_back mp copy (Suc m) i =
     do { v \<leftarrow> MP_PTRS copy i; mp \<leftarrow> st 2 mp (PAGEHDRSZ + 2 * i) v; copy_back mp copy m (i + 1) }"

definition split_back :: "env \<Rightarrow> page \<Rightarrow> page \<Rightarrow> page option" where
  "split_back env mp copy =
     do { nkeys \<leftarrow> NUMKEYS copy;
          mp \<leftarrow> copy_back mp copy nkeys 0;
          lower \<leftarrow> MP_LOWER copy; mp \<leftarrow> st 2 mp 12 lower;
          upper \<leftarrow> MP_UPPER copy; mp \<leftarrow> st 2 mp 14 upper;
          if nkeys = 0 \<or> me_psize env < upper then None
          else do { dst \<leftarrow> NODEPTR mp (nkeys - 1); src \<leftarrow> NODEPTR copy (nkeys - 1);
                    bs \<leftarrow> get_bytes copy src (me_psize env - upper);
                    put_bytes mp dst bs } }"

text \<open>The node part of \<open>mdb_page_split\<close> in two steps, before and after the separator key goes to the
  parent: the copy, the split point and the separator; and the two pages. \<open>tmp\<close> is the answer of
  \<open>mdb_page_malloc\<close>.\<close>

definition split_prepare :: "env \<Rightarrow> page option \<Rightarrow> page \<Rightarrow> new_node \<Rightarrow> (int + page \<times> nat \<times> mval) option" where
  "split_prepare env tmp mp new =
     do { nkeys \<leftarrow> NUMKEYS mp; leaf \<leftarrow> IS_LEAF mp;
          nsize \<leftarrow> split_nsize env leaf new;
          case tmp of
            None \<Rightarrow> Some (Inl ENOMEM)
          | Some copy \<Rightarrow>
              do { copy \<leftarrow> split_copy env copy mp (nn_index new);
                   split_indx \<leftarrow> split_point env mp copy nkeys (nn_index new) nsize;
                   sepkey \<leftarrow> split_sepkey mp copy new split_indx;
                   Some (Inr (copy, split_indx, sepkey)) } }"

definition split_move ::
  "env \<Rightarrow> (nat \<Rightarrow> int + page) \<Rightarrow> page \<Rightarrow> page \<Rightarrow> new_node \<Rightarrow> page \<Rightarrow> nat \<Rightarrow> MDB_db \<Rightarrow> u32 \<Rightarrow> nat \<Rightarrow> move_result option" where
  "split_move env alloc mp rp new copy split_indx db tf ki =
     do { nkeys \<leftarrow> NUMKEYS mp;
          (rc, rp, copy, db, tf, ov, ki) \<leftarrow>
            split_loop env alloc mp new nkeys split_indx True split_indx 0 rp copy db tf None ki;
          if rc \<noteq> 0 then Some (rc, rp, mp, db, tf OR TXN_ERROR, ov, ki)
          else do { mp \<leftarrow> split_back env mp copy; Some (0, rp, mp, db, tf, ov, ki) } }"


section \<open>The temporary copy\<close>

text \<open>The place of the item \<open>i\<close> of the copy on the old page.\<close>

definition old_index :: "nat \<Rightarrow> nat \<Rightarrow> nat" where "old_index newindx i = (if i < newindx then i else i - 1)"

text \<open>The copy has the pointers of the items from \<open>lo\<close> up to \<open>hi\<close>.\<close>

definition has_ptrs :: "page \<Rightarrow> nat \<Rightarrow> page \<Rightarrow> nat \<Rightarrow> nat \<Rightarrow> bool" where
  "has_ptrs mp newindx copy lo hi \<longleftrightarrow>
     (\<forall>i. lo \<le> i \<longrightarrow> i < hi \<longrightarrow> i \<noteq> newindx \<longrightarrow> MP_PTRS copy i = Some (pg_ptr mp (old_index newindx i)))"

lemma has_ptrsD:
  "has_ptrs mp newindx copy lo hi \<Longrightarrow> lo \<le> i \<Longrightarrow> i < hi \<Longrightarrow> i \<noteq> newindx \<Longrightarrow>
   MP_PTRS copy i = Some (pg_ptr mp (old_index newindx i))"
  by (simp add: has_ptrs_def)

lemma copy_ptrs_spec:
  "16 + 2 * (i + m) \<le> length mp \<Longrightarrow> 18 + 2 * (i + m) \<le> length copy \<Longrightarrow> j = (if i \<le> newindx then i else i + 1) \<Longrightarrow>
   \<exists>c. copy_ptrs mp newindx copy m i j = Some c \<and> length c = length copy
     \<and> (\<forall>k n. k + n \<le> 16 + 2 * j \<longrightarrow> sub c k n = sub copy k n)
     \<and> (\<forall>t. i \<le> t \<longrightarrow> t < i + m \<longrightarrow> pg_ptr c (if t < newindx then t else t + 1) = pg_ptr mp t)"
proof (induction m arbitrary: i j copy)
  case (Suc m)
  define j' where "j' = (if i = newindx then j + 1 else j)"
  define c1 where "c1 = (if i = newindx then blit copy (16 + 2 * j) (le_bytes 2 0) else copy)"
  define c2 where "c2 = blit c1 (16 + 2 * j') (le_bytes 2 (pg_ptr mp i))"
  have j: "18 + 2 * j' \<le> length copy" "j \<le> j'" "18 + 2 * j \<le> length copy"
    using Suc.prems by (auto simp: j'_def split: if_splits)
  have l: "length c1 = length copy" "length c2 = length copy" using j by (auto simp: c1_def c2_def)
  have v: "MP_PTRS mp i = Some (pg_ptr mp i)" using Suc.prems(1) by (simp add: page_hdr)
  have s1: "(if i = newindx then do { copy \<leftarrow> st 2 copy (PAGEHDRSZ + 2 * j) 0; Some (copy, j + 1) }
      else Some (copy, j)) = Some (c1, j')"
    using j by (simp add: st_def PAGEHDRSZ_def c1_def j'_def)
  have s2: "st 2 c1 (PAGEHDRSZ + 2 * j') (pg_ptr mp i) = Some c2"
    using j l by (simp add: st_def PAGEHDRSZ_def c2_def)
  have step: "copy_ptrs mp newindx copy (Suc m) i j = copy_ptrs mp newindx c2 m (i + 1) (j' + 1)"
    by (simp only: copy_ptrs.simps(2) s1 s2 v Option.bind.bind_lunit prod.case)
  have pre: "16 + 2 * (i + 1 + m) \<le> length mp" "18 + 2 * (i + 1 + m) \<le> length c2"
    "j' + 1 = (if i + 1 \<le> newindx then i + 1 else i + 1 + 1)"
    using Suc.prems l by (auto simp: j'_def split: if_splits)
  obtain c where c: "copy_ptrs mp newindx c2 m (i + 1) (j' + 1) = Some c" "length c = length c2"
    "\<And>k n. k + n \<le> 16 + 2 * (j' + 1) \<Longrightarrow> sub c k n = sub c2 k n"
    "\<And>t. i + 1 \<le> t \<Longrightarrow> t < i + 1 + m \<Longrightarrow> pg_ptr c (if t < newindx then t else t + 1) = pg_ptr mp t"
    using Suc.IH [OF pre] by blast
  have "pg_ptr c j' = pg_ptr c2 j'" by (simp add: pg_ptr_def le_at_def c(3))
  also have "\<dots> = pg_ptr mp i"
    using pg_ptr_blit [of j' c1 "pg_ptr mp i" j'] j l pg_ptr_less [of i mp] Suc.prems(1) by (simp add: c2_def)
  finally have "pg_ptr c j' = pg_ptr mp i" .
  moreover have "j' = (if i < newindx then i else i + 1)" using Suc.prems(3) by (auto simp: j'_def)
  ultimately have "pg_ptr c (if t < newindx then t else t + 1) = pg_ptr mp t" if "i \<le> t" "t < i + Suc m" for t
    using that c(4) [of t] by (cases "t = i") auto
  moreover have "sub c k n = sub copy k n" if "k + n \<le> 16 + 2 * j" for k n
    using that j c(3) [of k n] l by (auto simp: c2_def c1_def region_simps)
  ultimately show ?case using step c(1,2) l by auto
qed simp

text \<open>A page without nodes.\<close>

definition page_bare :: "page \<Rightarrow> nat \<Rightarrow> page \<Rightarrow> bool" where
  "page_bare like n p \<longleftrightarrow> page_wf p \<and> page_nodes p = [] \<and> pg_flags p = pg_flags like \<and> length p = n"

lemma page_nodes_length [simp]: "length (page_nodes p) = pg_cnt p"
  by (simp add: page_nodes_def)

lemma page_wf_bare:
  assumes "length p \<le> 2 ^ 15" "even (length p)" "16 \<le> length p" "pg_lower p = 16" "pg_upper p = length p"
    and "\<not> F_ISSET (pg_flags p) P_LEAF2"
  shows "page_wf p" "page_nodes p = []"
  using assms by (simp_all add: page_wf_def page_nodes_def pg_cnt_def)

lemma split_copy_spec:
  assumes wf: "page_wf mp" and len: "length mp = me_psize env" "length tmp = me_psize env" and i: "newindx \<le> pg_cnt mp"
    and n: "0 < pg_cnt mp"
  obtains c where "split_copy env tmp mp newindx = Some c" "page_bare mp (me_psize env) c"
    "has_ptrs mp newindx c 0 (Suc (pg_cnt mp))"
proof -
  note w = page_wfD [OF wf]
  have n_size: "18 + 2 * pg_cnt mp \<le> length mp"
    using w(1,2) w(7) [OF n] n_size_ge(2) [of "pg_leaf mp" mp "pg_ptr mp 0"] by linarith
  then have l16: "16 \<le> me_psize env" "18 + 2 * pg_cnt mp \<le> me_psize env" using len by linarith+
  define c1 where "c1 = blit tmp 0 (le_bytes 8 (le_at 8 mp 0))"
  define c2 where "c2 = blit c1 10 (le_bytes 2 (pg_flags mp))"
  define c3 where "c3 = blit c2 12 (le_bytes 2 16)"
  define c4 where "c4 = blit c3 14 (le_bytes 2 (me_psize env))"
  have l: "length c1 = me_psize env" "length c2 = me_psize env" "length c3 = me_psize env" "length c4 = me_psize env"
    using l16 len by (simp_all add: c1_def c2_def c3_def c4_def)
  have sts: "MP_PGNO mp = Some (le_at 8 mp 0)" "st 8 tmp 0 (le_at 8 mp 0) = Some c1"
    "MP_FLAGS mp = Some (pg_flags mp)" "st 2 c1 10 (pg_flags mp) = Some c2"
    "st 2 c2 12 PAGEHDRSZ = Some c3" "st 2 c3 14 (me_psize env) = Some c4"
    using l16 len l by (simp_all add: MP_PGNO_def MP_FLAGS_def ld_le_at st_def pg_flags_def PAGEHDRSZ_def
        c1_def c2_def c3_def c4_def)
  have lf: "pg_flags mp < 2 ^ 16" using le_at_less [of 10 2 mp] l16 len by (simp add: pg_flags_def)
  have h: "pg_flags c4 = pg_flags mp" "pg_lower c4 = 16" "pg_upper c4 = me_psize env"
    using l l16 lf w(4) len by (simp_all add: c4_def c3_def c2_def pg_lower_def pg_upper_def pg_flags_def region_simps)
  have pre: "16 + 2 * (0 + pg_cnt mp) \<le> length mp" "18 + 2 * (0 + pg_cnt mp) \<le> length c4"
    "0 = (if 0 \<le> newindx then 0 else 0 + 1)" using n_size l l16 by simp_all
  obtain c where c: "copy_ptrs mp newindx c4 (pg_cnt mp) 0 0 = Some c" "length c = me_psize env"
    "\<And>k n. k + n \<le> 16 \<Longrightarrow> sub c k n = sub c4 k n"
    "\<And>t. t < pg_cnt mp \<Longrightarrow> pg_ptr c (if t < newindx then t else t + 1) = pg_ptr mp t"
    using copy_ptrs_spec [OF pre] l by auto
  have hc: "pg_flags c = pg_flags mp" "pg_lower c = 16" "pg_upper c = me_psize env"
    using h by (simp_all add: pg_flags_def pg_lower_def pg_upper_def le_at_def c(3))
  have ev: "even (length mp)"
  proof -
    have "even (\<Sum>i<pg_cnt mp. n_size (pg_leaf mp) mp (pg_ptr mp i))" by (rule dvd_sum) (simp add: n_size_def)
    then show ?thesis using w(5) wf unfolding page_wf_def by (metis even_add)
  qed
  have "page_bare mp (me_psize env) c"
    unfolding page_bare_def by (intro conjI page_wf_bare) (use hc c(2) l16 len w(4,6) ev in auto)
  moreover have "split_copy env tmp mp newindx = Some c"
    using l16 len by (simp add: split_copy_def page_hdr sts c(1))
  moreover have "has_ptrs mp newindx c 0 (Suc (pg_cnt mp))"
    unfolding has_ptrs_def
  proof (intro allI impI)
    fix t assume t: "t < Suc (pg_cnt mp)" "t \<noteq> newindx"
    then have "old_index newindx t < pg_cnt mp"
      "(if old_index newindx t < newindx then old_index newindx t else old_index newindx t + 1) = t"
      using i by (auto simp: old_index_def)
    then have "pg_ptr c t = pg_ptr mp (old_index newindx t)" using c(4) by metis
    then show "MP_PTRS c t = Some (pg_ptr mp (old_index newindx t))" using t c(2) l16 by (simp add: page_hdr)
  qed
  ultimately show ?thesis using that by blast
qed

section \<open>The split point\<close>

lemma EVEN_add_even: "even a \<Longrightarrow> EVEN (a + b) = a + EVEN b"
  unfolding EVEN_def by (elim evenE) presburger

text \<open>\<open>sz i\<close> is what the scan adds for the item \<open>i\<close>.\<close>

definition scan_sizes :: "page \<Rightarrow> page \<Rightarrow> bool \<Rightarrow> nat \<Rightarrow> nat \<Rightarrow> (nat \<Rightarrow> nat) \<Rightarrow> nat \<Rightarrow> bool" where
  "scan_sizes mp copy leaf newindx nsize sz n \<longleftrightarrow>
     (\<forall>i < n. even (sz i) \<and>
        (if i = newindx then sz i = nsize
         else \<exists>off ks fl dsz. MP_PTRS copy i = Some off \<and> NODEKSZ mp off = Some ks \<and> NODEFLAGS mp off = Some fl
           \<and> NODEDSZ mp off = Some dsz \<and> sz i = EVEN (8 + ks + data_size leaf fl dsz) + 2))"

declare split_scan.simps(2) [simp del]

lemma scan_round:
  assumes "scan_sizes mp copy leaf newindx nsize sz n" "i < n" "even psize"
  shows "split_scan mp copy leaf newindx nsize pmax up sp (Suc m) i psize =
     (if pmax < psize + sz i \<or> m = 0 then Some (if up then i else i + 1)
      else split_scan mp copy leaf newindx nsize pmax up sp m (if up then i + 1 else i - 1) (psize + sz i))"
proof (cases "i = newindx")
  case False
  have "\<exists>off ks fl dsz. MP_PTRS copy i = Some off \<and> NODEKSZ mp off = Some ks \<and> NODEFLAGS mp off = Some fl
      \<and> NODEDSZ mp off = Some dsz \<and> sz i = EVEN (8 + ks + data_size leaf fl dsz) + 2"
    using assms(1,2) False unfolding scan_sizes_def by presburger
  then obtain off ks fl dsz where r: "MP_PTRS copy i = Some off" "NODEKSZ mp off = Some ks"
    "NODEFLAGS mp off = Some fl" "NODEDSZ mp off = Some dsz" "sz i = EVEN (8 + ks + data_size leaf fl dsz) + 2"
    by blast
  have "EVEN (psize + NODESIZE + ks + 2 + data_size leaf fl dsz) = EVEN ((psize + 2) + (8 + ks + data_size leaf fl dsz))"
    by (simp add: NODESIZE_def ac_simps)
  also have "\<dots> = psize + sz i" using assms(3) by (subst EVEN_add_even) (simp_all add: r(5))
  finally have "EVEN (psize + NODESIZE + ks + 2 + (if leaf then if F_ISSET fl F_BIGDATA then 8 else dsz else 0))
    = psize + sz i" by (simp add: data_size_def)
  then show ?thesis using False by (simp only: split_scan.simps(2) r Option.bind.bind_lunit if_False)
next
  case True
  then have "sz i = nsize" using assms(1,2) by (simp add: scan_sizes_def)
  then show ?thesis using True by (simp add: split_scan.simps)
qed

lemma even_scan: "scan_sizes mp copy leaf newindx nsize sz n \<Longrightarrow> A \<subseteq> {..<n} \<Longrightarrow> even (sum sz A)"
  by (rule dvd_sum) (auto simp: scan_sizes_def)

lemma split_scan_up:
  assumes "scan_sizes mp copy leaf newindx nsize sz k"
  shows "i + Suc m = k \<Longrightarrow> sum sz {..<i} \<le> pmax \<Longrightarrow>
    \<exists>s < k. split_scan mp copy leaf newindx nsize pmax True sp (Suc m) i (sum sz {..<i}) = Some s
      \<and> sum sz {..<s} \<le> pmax \<and> (pmax < sum sz {..<Suc s} \<or> Suc s = k)"
proof (induction m arbitrary: i)
  case 0
  have "even (sum sz {..<i})" by (rule even_scan [OF assms]) (use 0 in auto)
  then show ?case using scan_round [OF assms] 0 by (intro exI [of _ i]) simp
next
  case (Suc m)
  have "even (sum sz {..<i})" by (rule even_scan [OF assms]) (use Suc in auto)
  then have r: "split_scan mp copy leaf newindx nsize pmax True sp (Suc (Suc m)) i (sum sz {..<i}) =
     (if pmax < sum sz {..<Suc i} then Some i
      else split_scan mp copy leaf newindx nsize pmax True sp (Suc m) (Suc i) (sum sz {..<Suc i}))"
    using scan_round [OF assms] Suc.prems by simp
  show ?case
  proof (cases "pmax < sum sz {..<Suc i}")
    case True
    then show ?thesis unfolding r using Suc.prems by (intro exI [of _ i]) simp
  next
    case False
    then show ?thesis unfolding r using Suc.IH [of "Suc i"] Suc.prems by simp
  qed
qed

lemma split_scan_down:
  assumes "scan_sizes mp copy leaf newindx nsize sz (Suc n)"
  shows "m \<le> i \<Longrightarrow> i \<le> n \<Longrightarrow> sum sz {Suc i..n} \<le> pmax \<Longrightarrow>
    \<exists>s. i - m \<le> s \<and> s \<le> i \<and> split_scan mp copy leaf newindx nsize pmax False sp (Suc m) i (sum sz {Suc i..n}) = Some (s + 1)
      \<and> sum sz {Suc s..n} \<le> pmax \<and> (pmax < sum sz {s..n} \<or> s = i - m)"
proof (induction m arbitrary: i)
  case 0
  have "even (sum sz {Suc i..n})" by (rule even_scan [OF assms]) auto
  then show ?case using scan_round [OF assms] 0 by (intro exI [of _ i]) simp
next
  case (Suc m)
  have "even (sum sz {Suc i..n})" by (rule even_scan [OF assms]) auto
  moreover have s: "sum sz {i..n} = sum sz {Suc i..n} + sz i" using Suc.prems by (simp add: sum.atLeast_Suc_atMost)
  ultimately have r: "split_scan mp copy leaf newindx nsize pmax False sp (Suc (Suc m)) i (sum sz {Suc i..n}) =
     (if pmax < sum sz {i..n} then Some (i + 1)
      else split_scan mp copy leaf newindx nsize pmax False sp (Suc m) (i - 1) (sum sz {i..n}))"
    using scan_round [OF assms] Suc.prems by simp
  show ?case
  proof (cases "pmax < sum sz {i..n}")
    case True
    then show ?thesis unfolding r using Suc.prems by (intro exI [of _ i]) simp
  next
    case False
    have i: "Suc (i - 1) = i" "i - 1 - m = i - Suc m" "m \<le> i - 1" "i - 1 \<le> n" using Suc.prems by auto
    show ?thesis using Suc.IH [OF i(3,4), unfolded i(1,2)] False unfolding r by fastforce
  qed
qed


section \<open>The list of nodes with the new one\<close>

definition inserted :: "nat \<Rightarrow> 'a \<Rightarrow> 'a list \<Rightarrow> 'a list" where
  "inserted i x xs = take i xs @ x # drop i xs"

lemma length_inserted [simp]: "length (inserted i x xs) = Suc (length xs)"
  by (simp add: inserted_def)

lemma nth_inserted:
  "i \<le> length xs \<Longrightarrow> k \<le> length xs \<Longrightarrow>
   inserted i x xs ! k = (if k = i then x else xs ! old_index i k)"
  by (auto simp: inserted_def nth_append nth_Cons' old_index_def min_def)

lemma set_inserted: "set (inserted i x xs) = insert x (set xs)"
  unfolding inserted_def by (metis append_take_drop_id set_append list.simps(15) Un_insert_right)

text \<open>The new node as it will be read, and the nodes in their final order.\<close>

definition new_decoded :: "bool \<Rightarrow> new_node \<Rightarrow> node" where
  "new_decoded leaf new =
     (if leaf then leaf_node (nn_flags new) (nn_key new) (the (nn_data new)) None
      else branch_node (nn_pgno new) (Some (nn_key new)))"

definition split_list :: "page \<Rightarrow> new_node \<Rightarrow> node list" where
  "split_list mp new = inserted (nn_index new) (new_decoded (pg_leaf mp) new) (page_nodes mp)"

text \<open>What a node takes of a page, with its pointer, and what the nodes of an environment's pages respect:
  \<open>me_nodemax\<close> makes sure that two of them fit a page.\<close>

definition entry :: "node \<Rightarrow> nat" where "entry nd = node_bytes nd + 2"

definition split_env_ok :: "env \<Rightarrow> bool" where
  "split_env_ok env \<longleftrightarrow> me_nodemax env = 2 * ((me_psize env - 16) div 4) - 2"

definition node_ok :: "env \<Rightarrow> node \<Rightarrow> bool" where
  "node_ok env nd \<longleftrightarrow> 8 + length (nd_key nd) + length (nd_data nd) \<le> me_nodemax env"

definition new_ok :: "env \<Rightarrow> page \<Rightarrow> new_node \<Rightarrow> bool" where
  "new_ok env mp new \<longleftrightarrow> nn_index new \<le> pg_cnt mp \<and> node_ok env (new_decoded (pg_leaf mp) new)
     \<and> (if pg_leaf mp
        then nn_data new \<noteq> None \<and> data_ready (nn_flags new) (the (nn_data new)) None \<and> \<not> F_ISSET (nn_flags new) F_BIGDATA
        else nn_pgno new < 2 ^ 48)"

definition page_ok :: "env \<Rightarrow> page \<Rightarrow> bool" where
  "page_ok env mp \<longleftrightarrow> page_wf mp \<and> length mp = me_psize env \<and> (\<forall>nd \<in> set (page_nodes mp). node_ok env nd)"

lemma entry_half: "split_env_ok env \<Longrightarrow> node_ok env nd \<Longrightarrow> 2 * entry nd \<le> me_psize env - 16"
proof -
  assume a: "split_env_ok env" "node_ok env nd"
  define q where "q = (me_psize env - 16) div 4"
  have "4 * q \<le> me_psize env - 16" by (simp add: q_def)
  moreover have "8 + length (nd_key nd) + length (nd_data nd) \<le> 2 * q - 2"
    using a by (simp add: split_env_ok_def node_ok_def q_def)
  then have "node_bytes nd + 2 \<le> 2 * q" unfolding node_bytes_def EVEN_def by presburger
  ultimately show ?thesis by (simp add: entry_def)
qed

lemma entry_ge: "10 \<le> entry nd"
proof -
  have "8 \<le> node_bytes nd" unfolding node_bytes_def by (rule order_trans [OF _ EVEN_bounds(1)]) simp
  then show ?thesis by (simp add: entry_def)
qed

lemma even_entry: "even (entry nd)"
  by (simp add: entry_def node_bytes_def)

lemma node_at_lengths:
  "off + n_size leaf p off \<le> length p \<Longrightarrow>
   length (nd_key (node_at leaf p off)) = n_ksize p off \<and> length (nd_data (node_at leaf p off)) = n_dsize leaf p off"
  using n_size_ge(1) [of p off leaf] by (simp add: node_at_def)

lemma node_bytes_node_at: "off + n_size leaf p off \<le> length p \<Longrightarrow> node_bytes (node_at leaf p off) = n_size leaf p off"
  by (simp add: node_bytes_def node_at_lengths n_size_def)

lemma sum_entry: "sum_list (map entry nds) = sum_list (map node_bytes nds) + 2 * length nds"
  by (induction nds) (simp_all add: entry_def)

text \<open>A page in order in terms of what its nodes take.\<close>

lemma page_space:
  assumes "page_wf p"
  shows "pg_upper p + sum_list (map node_bytes (page_nodes p)) = length p"
    "16 + sum_list (map entry (page_nodes p)) \<le> length p"
    "pg_lower p + 2 + m \<le> pg_upper p \<longleftrightarrow> 16 + sum_list (map entry (page_nodes p)) + 2 + m \<le> length p"
proof -
  note w = page_wfD [OF assms]
  have "map node_bytes (page_nodes p) = map (\<lambda>i. n_size (pg_leaf p) p (pg_ptr p i)) [0..<pg_cnt p]"
    unfolding page_nodes_def map_map o_def
    by (intro map_cong refl node_bytes_node_at) (use w(7) in auto)
  then show 1: "pg_upper p + sum_list (map node_bytes (page_nodes p)) = length p" using w(9) by simp
  have "sum_list (map entry (page_nodes p)) = sum_list (map node_bytes (page_nodes p)) + 2 * pg_cnt p"
    using sum_entry [of "page_nodes p"] by simp
  then show "16 + sum_list (map entry (page_nodes p)) \<le> length p"
    "pg_lower p + 2 + m \<le> pg_upper p \<longleftrightarrow> 16 + sum_list (map entry (page_nodes p)) + 2 + m \<le> length p"
    using 1 w(1,2) by linarith+
qed

lemma split_list_nth:
  "nn_index new \<le> pg_cnt mp \<Longrightarrow> i \<le> pg_cnt mp \<Longrightarrow>
   split_list mp new ! i = (if i = nn_index new then new_decoded (pg_leaf mp) new
     else node_at (pg_leaf mp) mp (pg_ptr mp (old_index (nn_index new) i)))"
  by (auto simp: split_list_def nth_inserted page_nodes_def old_index_def)

lemma length_split_list [simp]: "length (split_list mp new) = Suc (pg_cnt mp)"
  by (simp add: split_list_def)

lemma split_list_node_ok:
  "page_ok env mp \<Longrightarrow> new_ok env mp new \<Longrightarrow> nd \<in> set (split_list mp new) \<Longrightarrow> node_ok env nd"
  by (auto simp: split_list_def set_inserted page_ok_def new_ok_def)

text \<open>The size the code computes for the new node.\<close>

lemma EVEN_EVEN [simp]: "EVEN (EVEN n) = EVEN n"
  by (simp add: EVEN_def)

lemma EVEN_Suc_Suc [simp]: "EVEN (Suc (Suc n)) = Suc (Suc (EVEN n))"
  by (simp add: EVEN_def)

lemma split_nsize_eq: "new_ok env mp new \<Longrightarrow> split_nsize env (pg_leaf mp) new = Some (entry (new_decoded (pg_leaf mp) new))"
proof -
  assume n: "new_ok env mp new"
  have e: "EVEN (a + 2) = EVEN a + 2" for a :: nat by (simp add: EVEN_def)
  show ?thesis
  proof (cases "pg_leaf mp")
    case True
    then obtain d where d: "nn_data new = Some d" "data_ready (nn_flags new) d None" "\<not> F_ISSET (nn_flags new) F_BIGDATA"
      "8 + length (nn_key new) + mv_size d \<le> me_nodemax env"
      using n by (auto simp: new_ok_def node_ok_def new_decoded_def leaf_node_def data_ready_def)
    then have "mdb_leaf_size env (nn_key new) (replicate (mv_size d) 0) = EVEN (8 + length (nn_key new) + mv_size d) + 2"
      using e [of "8 + length (nn_key new) + mv_size d"]
      by (simp add: mdb_leaf_size_def LEAFSIZE_def NODESIZE_def Let_def)
    moreover have "min (length (mv_data d)) (mv_size d) = mv_size d" using d(2,3) by (simp add: data_ready_def)
    ultimately show ?thesis
      using True d(1,3) by (simp add: split_nsize_def new_decoded_def entry_def node_bytes_def leaf_node_def)
  next
    case False
    then show ?thesis
      using e [of "8 + length (nn_key new)"]
      by (simp add: split_nsize_def new_decoded_def entry_def node_bytes_def branch_node_def mdb_branch_size_def
          INDXSIZE_def NODESIZE_def)
  qed
qed

lemma item_fields:
  assumes "off + n_size leaf p off \<le> length p"
  shows "NODEKSZ p off = Some (n_ksize p off)" "NODEFLAGS p off = Some (n_flags p off)" "NODEDSZ p off = Some (n_word p off)"
    "NODEKEY p off = Some (sub p (off + 8) (n_ksize p off))" "NODEDATA p off = Some (off + 8 + n_ksize p off)"
    "NODEPGNO p off = Some (n_word p off + n_flags p off * 2 ^ 32)"
proof -
  have 8: "off + 8 \<le> length p" using assms n_size_ge(2) [of leaf p off] by simp
  note r = node_reads [OF 8]
  show "NODEKSZ p off = Some (n_ksize p off)" "NODEFLAGS p off = Some (n_flags p off)" "NODEDSZ p off = Some (n_word p off)"
    by (fact r)+
  show "NODEKEY p off = Some (sub p (off + 8) (n_ksize p off))"
    using assms n_size_ge(1) [of p off leaf] by (simp add: NODEKEY_def r get_bytes_def NODESIZE_def sub_def)
  show "NODEDATA p off = Some (off + 8 + n_ksize p off)" by (simp add: NODEDATA_def r NODESIZE_def)
  show "NODEPGNO p off = Some (n_word p off + n_flags p off * 2 ^ 32)"
    using r(2,3) by (auto simp: NODEPGNO_def NODEDSZ_def bind_eq_Some_conv)
qed

lemma old_index_less: "newindx \<le> n \<Longrightarrow> i \<le> n \<Longrightarrow> i \<noteq> newindx \<Longrightarrow> old_index newindx i < n"
  by (auto simp: old_index_def)

lemma scan_sizes_split:
  assumes wf: "page_wf mp" and new: "new_ok env mp new" and c: "has_ptrs mp (nn_index new) copy 0 (Suc (pg_cnt mp))"
  shows "scan_sizes mp copy (pg_leaf mp) (nn_index new) (entry (new_decoded (pg_leaf mp) new))
     (\<lambda>i. entry (split_list mp new ! i)) (Suc (pg_cnt mp))"
  unfolding scan_sizes_def
proof (intro allI impI conjI even_entry)
  fix i assume i: "i < Suc (pg_cnt mp)"
  have idx: "nn_index new \<le> pg_cnt mp" using new by (simp add: new_ok_def)
  let ?o = "pg_ptr mp (old_index (nn_index new) i)"
  have "\<exists>off ks fl dsz. MP_PTRS copy i = Some off \<and> NODEKSZ mp off = Some ks \<and> NODEFLAGS mp off = Some fl
      \<and> NODEDSZ mp off = Some dsz \<and> entry (split_list mp new ! i) = EVEN (8 + ks + data_size (pg_leaf mp) fl dsz) + 2"
    if "i \<noteq> nn_index new"
  proof -
    have in_page: "?o + n_size (pg_leaf mp) mp ?o \<le> length mp"
      using page_wfD(7) [OF wf old_index_less [OF idx _ that]] i by simp
    have "split_list mp new ! i = node_at (pg_leaf mp) mp ?o" using split_list_nth [OF idx] i that by simp
    then have "entry (split_list mp new ! i) = n_size (pg_leaf mp) mp ?o + 2"
      using node_bytes_node_at [OF in_page] by (simp add: entry_def)
    then show ?thesis
      using has_ptrsD [OF c _ i that] item_fields [OF in_page] by (simp add: n_size_def n_dsize_def)
  qed
  then show "if i = nn_index new then entry (split_list mp new ! i) = entry (new_decoded (pg_leaf mp) new)
     else \<exists>off ks fl dsz. MP_PTRS copy i = Some off \<and> NODEKSZ mp off = Some ks \<and> NODEFLAGS mp off = Some fl
      \<and> NODEDSZ mp off = Some dsz \<and> entry (split_list mp new ! i) = EVEN (8 + ks + data_size (pg_leaf mp) fl dsz) + 2"
    using split_list_nth [OF idx, of i] i by auto
qed


section \<open>Both halves fit\<close>

lemma sum_split_at:
  "s \<le> Suc n \<Longrightarrow> sum f {..<s} + sum f {s..n} = sum f {..n}" for f :: "nat \<Rightarrow> nat"
  by (subst sum.union_disjoint [symmetric]) (auto intro: sum.cong)

lemma sum_without:
  fixes f :: "nat \<Rightarrow> nat"
  assumes "A \<subseteq> {..n}" "k \<le> n" "k \<notin> A" shows "sum f A + f k \<le> sum f {..n}"
proof -
  have "sum f A + f k = sum f (insert k A)" using assms finite_subset by (subst sum.insert) auto
  also have "\<dots> \<le> sum f {..n}" using assms by (intro sum_mono2) auto
  finally show ?thesis .
qed

text \<open>The arithmetic: no entry takes more than half of the space, and the old entries fit together.\<close>

lemma scan_up_fits:
  fixes sz :: "nat \<Rightarrow> nat"
  assumes half: "\<And>i. i \<le> n \<Longrightarrow> 2 * sz i \<le> pmax" and total: "sum sz {..n} \<le> pmax + sz k" and kn: "k \<le> n" "2 \<le> n"
    and ge: "\<And>i. i \<le> n \<Longrightarrow> c \<le> sz i"
    and s: "s < z" "z \<le> Suc n" "sum sz {..<s} \<le> pmax" "pmax < sum sz {..<Suc s} \<or> Suc s = z"
    and z: "if k = n then z = n else k \<le> (n + 1) div 2 \<and> z = (n + 1) div 2 + 1 + (if leaf then 1 else 0)"
  shows "0 < s \<and> s \<le> n \<and> sum sz {..<s} \<le> pmax
    \<and> (sum sz {s..n} \<le> pmax \<or> \<not> leaf \<and> s = k \<and> c + sum sz {Suc s..n} \<le> pmax)"
proof -
  have sn: "s \<le> n" using s(1,2) by simp
  have "z \<ge> 2" using z kn by (auto split: if_splits)
  moreover have "sum sz {..<Suc 0} \<le> pmax" using half [of 0] by simp
  ultimately have s0: "0 < s" using s by (cases s) auto
  have parts: "sum sz {..<s} + sum sz {s..n} = sum sz {..n}" by (rule sum_split_at) (use sn in simp)
  have "sum sz {s..n} \<le> pmax \<or> \<not> leaf \<and> s = k \<and> c + sum sz {Suc s..n} \<le> pmax"
  proof (cases "pmax < sum sz {..<Suc s}")
    case True
    then have "sz k \<le> sum sz {..<s}" using half [OF sn] half [OF kn(1)] by simp
    then show ?thesis using parts total by linarith
  next
    case False
    then have sl: "Suc s = z" using s(4) by simp
    show ?thesis
    proof (cases "k < s")
      case True
      then have "sum sz {s..n} + sz k \<le> sum sz {..n}" using kn by (intro sum_without) auto
      then show ?thesis using total by linarith
    next
      case ks: False
      show ?thesis
      proof (cases "k = n")
        case True
        then have "s = n - 1" "{s..n} = {n - 1, n}" using sl z kn by auto
        then have "sum sz {s..n} = sz (n - 1) + sz n" using kn by simp
        then show ?thesis using half [of "n - 1"] half [of n] by simp
      next
        case False
        then have "\<not> leaf" "s = k" using z sl ks by (auto split: if_splits)
        moreover have "c + sum sz {Suc s..n} \<le> pmax"
        proof -
          have "c \<le> sum sz {..<s}" using ge [of 0] s0 member_le_sum [of 0 "{..<s}" sz] by simp
          moreover have "sum sz {s..n} = sz s + sum sz {Suc s..n}" using sn by (simp add: sum.atLeast_Suc_atMost)
          moreover have "sz s = sz k" using \<open>s = k\<close> by simp
          ultimately show ?thesis using parts total by linarith
        qed
        ultimately show ?thesis by blast
      qed
    qed
  qed
  then show ?thesis using s0 sn s(3) by blast
qed

lemma scan_down_fits:
  fixes sz :: "nat \<Rightarrow> nat"
  assumes half: "\<And>i. i \<le> n \<Longrightarrow> 2 * sz i \<le> pmax" and total: "sum sz {..n} \<le> pmax + sz k" and kn: "k < n" "2 \<le> n"
    and k: "(n + 1) div 2 < k"
    and s: "(n + 1) div 2 \<le> s" "s \<le> n" "sum sz {Suc s..n} \<le> pmax" "pmax < sum sz {s..n} \<or> s = (n + 1) div 2"
  shows "Suc s \<le> n \<and> sum sz {..<Suc s} \<le> pmax \<and> sum sz {Suc s..n} \<le> pmax"
proof -
  have "s \<noteq> n"
  proof
    assume "s = n"
    then have "sum sz {s..n} \<le> pmax" "s \<noteq> (n + 1) div 2" using half [of n] kn k by auto
    then show False using s(4) by simp
  qed
  then have sn: "Suc s \<le> n" using s(2) by simp
  have parts: "sum sz {..<Suc s} + sum sz {Suc s..n} = sum sz {..n}" by (rule sum_split_at) (use sn in simp)
  have "sum sz {..<Suc s} \<le> pmax"
  proof (cases "pmax < sum sz {s..n}")
    case True
    moreover have "sum sz {s..n} = sz s + sum sz {Suc s..n}" using s(2) by (simp add: sum.atLeast_Suc_atMost)
    ultimately have "sz k \<le> sum sz {Suc s..n}" using half [OF s(2)] half [of k] kn by linarith
    then show ?thesis using parts total by linarith
  next
    case False
    then have "s = (n + 1) div 2" using s(4) by simp
    then have "sum sz {..<Suc s} + sz k \<le> sum sz {..n}" using k kn by (intro sum_without) auto
    then show ?thesis using total by linarith
  qed
  then show ?thesis using sn s(3) by blast
qed

text \<open>What the two pages will hold, and that it fits. The first key of a branch page is left out.\<close>

definition first_bare :: "bool \<Rightarrow> node list \<Rightarrow> node list" where
  "first_bare leaf nds = (case nds of [] \<Rightarrow> [] | nd # nds \<Rightarrow> (if leaf then nd else nd\<lparr>nd_key := []\<rparr>) # nds)"

definition fits :: "env \<Rightarrow> node list \<Rightarrow> bool" where
  "fits env nds \<longleftrightarrow> sum_list (map entry nds) + 16 \<le> me_psize env"

definition halves_fit :: "env \<Rightarrow> page \<Rightarrow> new_node \<Rightarrow> nat \<Rightarrow> bool" where
  "halves_fit env mp new s \<longleftrightarrow> fits env (first_bare (pg_leaf mp) (take s (split_list mp new)))
     \<and> fits env (first_bare (pg_leaf mp) (drop s (split_list mp new)))"

lemma sum_list_take_nth: "s \<le> length xs \<Longrightarrow> sum_list (map f (take s xs)) = (\<Sum>i\<in>{..<s}. f (xs ! i))" for f :: "'a \<Rightarrow> nat"
  by (simp add: sum_list_sum_nth min_def atLeast0LessThan)

lemma sum_list_drop_nth:
  "length xs = Suc n \<Longrightarrow> s \<le> n \<Longrightarrow> sum_list (map f (drop s xs)) = (\<Sum>i\<in>{s..n}. f (xs ! i))" for f :: "'a \<Rightarrow> nat"
proof -
  assume a: "length xs = Suc n" "s \<le> n"
  have "sum_list (map f (take s xs)) + sum_list (map f (drop s xs)) = sum_list (map f (take (Suc n) xs))"
    using a by (metis append_take_drop_id map_append sum_list_append order_refl take_all)
  then show ?thesis
    using sum_split_at [of s n "\<lambda>i. f (xs ! i)"] a by (simp only: sum_list_take_nth) (simp add: lessThan_Suc_atMost)
qed

lemma entry_bare_le: "sum_list (map entry (first_bare leaf nds)) \<le> sum_list (map entry nds)"
proof (cases nds)
  case (Cons nd nds')
  have "entry (nd\<lparr>nd_key := []\<rparr>) \<le> entry nd" by (simp add: entry_def node_bytes_def EVEN_def)
  then show ?thesis by (simp add: first_bare_def Cons)
qed (simp add: first_bare_def)

lemma split_list_total:
  assumes "page_ok env mp" "new_ok env mp new"
  shows "(\<Sum>i\<le>pg_cnt mp. entry (split_list mp new ! i)) \<le> me_psize env - 16 + entry (split_list mp new ! nn_index new)"
proof -
  have wf: "page_wf mp" "length mp = me_psize env" and i: "nn_index new \<le> pg_cnt mp"
    using assms by (simp_all add: page_ok_def new_ok_def)
  have "(\<Sum>i\<le>pg_cnt mp. entry (split_list mp new ! i)) = sum_list (map entry (split_list mp new))"
    using sum_list_drop_nth [of "split_list mp new" "pg_cnt mp" 0 entry] by (simp add: atLeast0AtMost)
  also have "\<dots> = entry (new_decoded (pg_leaf mp) new) + sum_list (map entry (page_nodes mp))"
    using sum_list_insert [of "nn_index new" "map entry (page_nodes mp)" "entry (new_decoded (pg_leaf mp) new)"]
    by (simp add: split_list_def inserted_def take_map drop_map)
  finally show ?thesis
    using page_space(2) [OF wf(1)] wf(2) split_list_nth [OF i i] by simp
qed

lemma bare_halves_fit:
  assumes "me_psize env = length mp" "new_ok env mp new" "s \<le> pg_cnt mp" "16 \<le> me_psize env"
    and "(\<Sum>i\<in>{..<s}. entry (split_list mp new ! i)) \<le> me_psize env - 16"
    and "(\<Sum>i\<in>{s..pg_cnt mp}. entry (split_list mp new ! i)) \<le> me_psize env - 16
      \<or> \<not> pg_leaf mp \<and> s = nn_index new \<and> 10 + (\<Sum>i\<in>{Suc s..pg_cnt mp}. entry (split_list mp new ! i)) \<le> me_psize env - 16"
  shows "halves_fit env mp new s"
proof -
  let ?L = "split_list mp new" and ?n = "pg_cnt mp"
  have left: "fits env (first_bare (pg_leaf mp) (take s ?L))"
    using entry_bare_le [of "pg_leaf mp" "take s ?L"] assms(3-5) sum_list_take_nth [of s ?L entry]
    by (simp add: fits_def)
  have right: "sum_list (map entry (first_bare (pg_leaf mp) (drop s ?L))) \<le> me_psize env - 16"
  proof (cases "(\<Sum>i\<in>{s..?n}. entry (?L ! i)) \<le> me_psize env - 16")
    case True
    then show ?thesis
      using entry_bare_le [of "pg_leaf mp" "drop s ?L"] assms(3) sum_list_drop_nth [of ?L ?n s entry] by simp
  next
    case False
    then have b: "\<not> pg_leaf mp" "s = nn_index new" "10 + (\<Sum>i\<in>{Suc s..?n}. entry (?L ! i)) \<le> me_psize env - 16"
      using assms(6) by blast+
    have d: "drop s ?L = ?L ! s # drop (Suc s) ?L" by (rule Cons_nth_drop_Suc [symmetric]) (use assms(3) in simp)
    have "?L ! s = branch_node (nn_pgno new) (Some (nn_key new))"
      using split_list_nth [of new mp s] assms(3) b(1,2) by (simp add: new_decoded_def)
    then have "entry ((?L ! s)\<lparr>nd_key := []\<rparr>) = 10" by (simp add: entry_def node_bytes_def branch_node_def EVEN_def)
    moreover have "sum_list (map entry (drop (Suc s) ?L)) = (\<Sum>i\<in>{Suc s..?n}. entry (?L ! i))"
      using sum_list_drop_nth [of ?L ?n "Suc s" entry] assms(3) by (cases "s = ?n") simp_all
    ultimately show ?thesis using b(1,3) by (simp add: first_bare_def d)
  qed
  then show ?thesis using left assms(4) by (simp add: halves_fit_def fits_def)
qed

lemma split_point_fits:
  assumes mp: "page_ok env mp" and env: "split_env_ok env" and new: "new_ok env mp new" and n: "2 \<le> pg_cnt mp"
    and c: "has_ptrs mp (nn_index new) copy 0 (Suc (pg_cnt mp))"
    and chk: "split_checked env (pg_cnt mp) (nn_index new) (entry (new_decoded (pg_leaf mp) new))
      \<or> halves_fit env mp new ((pg_cnt mp + 1) div 2)"
  obtains s where
    "split_point env mp copy (pg_cnt mp) (nn_index new) (entry (new_decoded (pg_leaf mp) new)) = Some s"
    "0 < s" "s \<le> pg_cnt mp" "halves_fit env mp new s"
proof -
  let ?n = "pg_cnt mp" and ?k = "nn_index new" and ?pmax = "me_psize env - 16" and ?leaf = "pg_leaf mp"
  define x where "x = new_decoded ?leaf new"
  define sz where "sz = (\<lambda>i. entry (split_list mp new ! i))"
  have wf: "page_wf mp" and len: "length mp = me_psize env" and k: "?k \<le> ?n"
    using mp new by (simp_all add: page_ok_def new_ok_def)
  have in_list: "split_list mp new ! i \<in> set (split_list mp new)" if "i \<le> ?n" for i using that by simp
  have half: "2 * sz i \<le> ?pmax" if "i \<le> ?n" for i
    unfolding sz_def by (rule entry_half [OF env split_list_node_ok [OF mp new in_list [OF that]]])
  have total: "sum sz {..?n} \<le> ?pmax + sz ?k" unfolding sz_def by (rule split_list_total [OF mp new])
  have szk: "entry x = sz ?k" using split_list_nth [OF k k] by (simp add: x_def sz_def)
  have scan: "scan_sizes mp copy ?leaf ?k (entry x) sz (Suc ?n)"
    unfolding x_def sz_def by (rule scan_sizes_split [OF wf new c])
  have scan': "scan_sizes mp copy ?leaf ?k (entry x) sz m" if "m \<le> Suc ?n" for m
    using scan that unfolding scan_sizes_def by (meson less_le_trans)
  have l16: "16 \<le> me_psize env" using page_room(2) [OF wf] len by simp
  have lf: "IS_LEAF mp = Some ?leaf" by (rule page_room(7) [OF wf])
  let ?sp = "(?n + 1) div 2"
  have fitI: "halves_fit env mp new s"
    if "s \<le> ?n" "sum sz {..<s} \<le> ?pmax" "sum sz {s..?n} \<le> ?pmax \<or> \<not> ?leaf \<and> s = ?k \<and> 10 + sum sz {Suc s..?n} \<le> ?pmax" for s
    using that bare_halves_fit [OF len [symmetric] new that(1)] l16 by (simp add: sz_def)
  show ?thesis
  proof (cases "split_checked env ?n ?k (entry x)")
    case False
    then have "split_point env mp copy ?n ?k (entry x) = Some ?sp" by (simp add: split_point_def lf)
    then show ?thesis using that [of ?sp] chk False n by (simp add: x_def)
  next
    case chk: True
    show ?thesis
    proof (cases "?k \<le> ?sp \<or> ?n \<le> ?k")
      case True
      define z where "z = (if ?n \<le> ?k then ?n else ?sp + 1 + (if ?leaf then 1 else 0))"
      have z: "z \<le> Suc ?n" "0 < z" using n True by (auto simp: z_def)
      then obtain m where m: "z = Suc m" by (cases z) auto
      obtain s where s: "s < z" "split_scan mp copy ?leaf ?k (entry x) ?pmax True ?sp z 0 0 = Some s"
        "sum sz {..<s} \<le> ?pmax" "?pmax < sum sz {..<Suc s} \<or> Suc s = z"
        using split_scan_up [OF scan' [OF z(1)], of 0 m ?pmax ?sp] m by auto
      have "0 < s \<and> s \<le> ?n \<and> sum sz {..<s} \<le> ?pmax
        \<and> (sum sz {s..?n} \<le> ?pmax \<or> \<not> ?leaf \<and> s = ?k \<and> 10 + sum sz {Suc s..?n} \<le> ?pmax)"
        by (rule scan_up_fits [OF half total k n _ s(1) z(1) s(3,4)])
          (use True k in \<open>auto simp: z_def sz_def entry_ge\<close>)
      moreover have "split_point env mp copy ?n ?k (entry x) = Some s"
        unfolding split_point_def lf Option.bind.bind_lunit Let_def PAGEHDRSZ_def z_def [symmetric] by (simp only: chk True s(2) if_True)
      ultimately show ?thesis using that [of s] fitI [of s] by (auto simp: x_def)
    next
      case False
      define m where "m = ?n - ?sp"
      have m: "m \<le> ?n" "?n - m = ?sp" "Suc m = ?n + 1 - ?sp" using n by (auto simp: m_def)
      obtain s where s: "?sp \<le> s" "s \<le> ?n"
        "split_scan mp copy ?leaf ?k (entry x) ?pmax False ?sp (Suc m) ?n 0 = Some (s + 1)"
        "sum sz {Suc s..?n} \<le> ?pmax" "?pmax < sum sz {s..?n} \<or> s = ?sp"
        using split_scan_down [OF scan m(1) order_refl, of ?pmax ?sp] m(2) by auto
      have "Suc s \<le> ?n \<and> sum sz {..<Suc s} \<le> ?pmax \<and> sum sz {Suc s..?n} \<le> ?pmax"
        by (rule scan_down_fits [OF half total _ n _ s(1,2,4,5)]) (use False in auto)
      moreover have "split_point env mp copy ?n ?k (entry x) = Some (Suc s)"
        using chk False s(3) m(3) by (simp add: split_point_def lf PAGEHDRSZ_def Let_def)
      ultimately show ?thesis using that [of "Suc s"] fitI [of "Suc s"] by (auto simp: x_def)
    qed
  qed
qed


section \<open>Moving the nodes\<close>

definition page_like :: "page \<Rightarrow> env \<Rightarrow> page \<Rightarrow> bool" where
  "page_like mp env p \<longleftrightarrow> page_wf p \<and> pg_flags p = pg_flags mp \<and> length p = me_psize env"

lemma page_like_leaf: "page_like mp env p \<Longrightarrow> pg_leaf p = pg_leaf mp"
  by (simp add: page_like_def pg_leaf_def)

text \<open>The node that the loop adds at \<open>j\<close> for the item \<open>i\<close>.\<close>

definition item_node :: "page \<Rightarrow> new_node \<Rightarrow> nat \<Rightarrow> nat \<Rightarrow> node" where
  "item_node mp new i j =
     (if \<not> pg_leaf mp \<and> j = 0 then (split_list mp new ! i)\<lparr>nd_key := []\<rparr> else split_list mp new ! i)"

lemma not_RESERVE: "fl < 2 ^ 16 \<Longrightarrow> \<not> F_ISSET fl MDB_RESERVE"
proof -
  assume a: "fl < 2 ^ 16"
  have "fl AND 2 ^ 16 = 0" unfolding and_exp_eq_0_iff_not_bit using a by (simp add: bit_iff_odd)
  then show ?thesis by (simp add: F_ISSET_def MDB_RESERVE_def)
qed

text \<open>An old node, read from its page and handed to \<open>mdb_node_add\<close>, is the same node again.\<close>

lemma leaf_node_again:
  assumes "off + n_size True p off \<le> length p"
  defines "d \<equiv> \<lparr>mv_size = n_word p off, mv_data = drop (off + 8 + n_ksize p off) p\<rparr>"
  shows "leaf_node (n_flags p off) (sub p (off + 8) (n_ksize p off)) d None = node_at True p off"
    and "data_ready (n_flags p off) d None" "n_ksize p off < 2 ^ 16"
proof -
  have b: "off + (8 + n_ksize p off + n_dsize True p off) \<le> length p"
    using assms(1) n_size_ge(1) [of p off True] by simp
  have fl: "n_flags p off < 2 ^ 16" using le_at_less [of "off + 4" 2 p] b by (simp add: n_flags_def)
  have w: "n_word p off < 2 ^ 32" using le_at_less [of off 4 p] b by (simp add: n_word_def)
  show "n_ksize p off < 2 ^ 16" using le_at_less [of "off + 6" 2 p] b by (simp add: n_ksize_def)
  show "leaf_node (n_flags p off) (sub p (off + 8) (n_ksize p off)) d None = node_at True p off"
    using fl by (simp add: leaf_node_def node_at_def d_def n_dsize_def data_size_def sub_def)
  show "data_ready (n_flags p off) d None"
    using b w not_RESERVE [OF fl] by (auto simp: data_ready_def d_def n_dsize_def data_size_def)
qed

lemma branch_node_again:
  assumes "off + n_size False p off \<le> length p"
  shows "branch_node (n_word p off + n_flags p off * 2 ^ 32) (Some k) = (node_at False p off)\<lparr>nd_key := k\<rparr>"
    and "n_word p off + n_flags p off * 2 ^ 32 < 2 ^ 48" "n_ksize p off < 2 ^ 16"
proof -
  have b: "off + 8 \<le> length p" using assms n_size_ge(2) [of False p off] by simp
  have fl: "n_flags p off < 2 ^ 16" using le_at_less [of "off + 4" 2 p] b by (simp add: n_flags_def)
  have w: "n_word p off < 2 ^ 32" using le_at_less [of off 4 p] b by (simp add: n_word_def)
  show "n_ksize p off < 2 ^ 16" using le_at_less [of "off + 6" 2 p] b by (simp add: n_ksize_def)
  show "n_word p off + n_flags p off * 2 ^ 32 < 2 ^ 48" using fl w by simp
  show "branch_node (n_word p off + n_flags p off * 2 ^ 32) (Some k) = (node_at False p off)\<lparr>nd_key := k\<rparr>"
    using w by (simp add: branch_node_def node_at_def n_dsize_def data_size_def sub_def)
qed

lemma node_ok_key: "node_ok env nd \<Longrightarrow> split_env_ok env \<Longrightarrow> me_psize env \<le> 2 ^ 15 \<Longrightarrow> length (nd_key nd) < 2 ^ 16"
  by (simp add: node_ok_def split_env_ok_def)

lemma split_item_leaf:
  assumes mp: "page_ok env mp" and env: "split_env_ok env" and new: "new_ok env mp new" and i: "i \<le> pg_cnt mp"
    and c: "i \<noteq> nn_index new \<Longrightarrow> MP_PTRS copy i = Some (pg_ptr mp (old_index (nn_index new) i))" and leaf: "pg_leaf mp"
  obtains k d fl where "split_item mp copy new i j = Some (k, Some d, 0, fl)" "data_ready fl d None"
    "leaf_node fl k d None = split_list mp new ! i" "length k < 2 ^ 16"
    "F_ISSET fl F_BIGDATA \<or> 8 + length k + mv_size d \<le> me_nodemax env"
proof -
  have wf: "page_wf mp" and idx: "nn_index new \<le> pg_cnt mp" and sz: "me_psize env \<le> 2 ^ 15"
    using mp new page_wfD(4) [of mp] by (auto simp: page_ok_def new_ok_def)
  have lf: "IS_LEAF mp = Some True" using page_room(7) [OF wf] leaf by simp
  have ok: "node_ok env (split_list mp new ! i)" by (rule split_list_node_ok [OF mp new]) (use i in simp)
  note len = node_ok_key [OF ok env sz]
  show ?thesis
  proof (cases "i = nn_index new")
    case True
    then have nth: "split_list mp new ! i = leaf_node (nn_flags new) (nn_key new) (the (nn_data new)) None"
      using split_list_nth [OF idx i] leaf by (simp add: new_decoded_def)
    obtain d where d: "nn_data new = Some d" "data_ready (nn_flags new) d None" "\<not> F_ISSET (nn_flags new) F_BIGDATA"
      using new leaf by (auto simp: new_ok_def)
    have "split_item mp copy new i j = Some (nn_key new, Some d, 0, nn_flags new)"
      using True d(1) by (simp add: split_item_def lf)
    moreover have "length (nd_data (split_list mp new ! i)) = mv_size d" "nd_key (split_list mp new ! i) = nn_key new"
      using d by (simp_all add: nth leaf_node_def data_ready_def)
    then have "8 + length (nn_key new) + mv_size d \<le> me_nodemax env" "length (nn_key new) < 2 ^ 16"
      using ok len by (simp_all add: node_ok_def)
    ultimately show ?thesis
      using that [of "nn_key new" d "nn_flags new"] d(1,2) nth by simp
  next
    case False
    let ?o = "pg_ptr mp (old_index (nn_index new) i)"
    have in_page: "?o + n_size True mp ?o \<le> length mp"
      using page_wfD(7) [OF wf old_index_less [OF idx i False]] leaf by simp
    have nth: "split_list mp new ! i = node_at True mp ?o" using split_list_nth [OF idx i] False leaf by simp
    note r = item_fields [OF in_page] and again = leaf_node_again [OF in_page]
    have "split_item mp copy new i j = Some (sub mp (?o + 8) (n_ksize mp ?o),
        Some \<lparr>mv_size = n_word mp ?o, mv_data = drop (?o + 8 + n_ksize mp ?o) mp\<rparr>, 0, n_flags mp ?o)"
      using False c by (simp add: split_item_def lf r)
    then show ?thesis
      using that again ok len node_at_lengths [OF in_page] unfolding nth
      by (auto simp: node_ok_def n_dsize_def data_size_def node_at_def split: if_splits)
  qed
qed

lemma split_item_branch:
  assumes mp: "page_ok env mp" and env: "split_env_ok env" and new: "new_ok env mp new" and i: "i \<le> pg_cnt mp"
    and c: "i \<noteq> nn_index new \<Longrightarrow> MP_PTRS copy i = Some (pg_ptr mp (old_index (nn_index new) i))" and leaf: "\<not> pg_leaf mp"
  obtains k no fl where "split_item mp copy new i j = Some (k, None, no, fl)" "no < 2 ^ 48"
    "branch_node no (Some k) = item_node mp new i j" "length k < 2 ^ 16"
proof -
  have wf: "page_wf mp" and idx: "nn_index new \<le> pg_cnt mp" and sz: "me_psize env \<le> 2 ^ 15"
    using mp new page_wfD(4) [of mp] by (auto simp: page_ok_def new_ok_def)
  have lf: "IS_LEAF mp = Some False" using page_room(7) [OF wf] leaf by simp
  have ok: "node_ok env (split_list mp new ! i)" by (rule split_list_node_ok [OF mp new]) (use i in simp)
  note len = node_ok_key [OF ok env sz]
  show ?thesis
  proof (cases "i = nn_index new")
    case True
    then have nth: "split_list mp new ! i = branch_node (nn_pgno new) (Some (nn_key new))"
      using split_list_nth [OF idx i] leaf by (simp add: new_decoded_def)
    have "split_item mp copy new i j = Some (if j = 0 then [] else nn_key new, None, nn_pgno new, nn_flags new)"
      using True leaf by (simp add: split_item_def lf)
    then show ?thesis
      using that new leaf len unfolding nth
      by (auto simp: item_node_def nth branch_node_def new_ok_def)
  next
    case False
    let ?o = "pg_ptr mp (old_index (nn_index new) i)"
    have in_page: "?o + n_size False mp ?o \<le> length mp"
      using page_wfD(7) [OF wf old_index_less [OF idx i False]] leaf by simp
    have nth: "split_list mp new ! i = node_at False mp ?o" using split_list_nth [OF idx i] False leaf by simp
    note r = item_fields [OF in_page] and again = branch_node_again [OF in_page]
    have "split_item mp copy new i j = Some (if j = 0 then [] else sub mp (?o + 8) (n_ksize mp ?o),
        None, n_word mp ?o + n_flags mp ?o * 2 ^ 32, n_flags mp ?o)"
      using False c leaf by (simp add: split_item_def lf r)
    moreover define k where "k = (if j = 0 then [] else sub mp (?o + 8) (n_ksize mp ?o))"
    moreover have "branch_node (n_word mp ?o + n_flags mp ?o * 2 ^ 32) (Some k) = item_node mp new i j"
      unfolding again(1) by (simp add: k_def item_node_def leaf nth) (simp add: node_at_def)
    moreover have "length k < 2 ^ 16" using len by (simp add: k_def nth node_at_def)
    ultimately show ?thesis using that again(2) by simp
  qed
qed

lemma split_item_adds:
  assumes mp: "page_ok env mp" "split_env_ok env" "new_ok env mp new" "i \<le> pg_cnt mp"
    and c: "i \<noteq> nn_index new \<Longrightarrow> MP_PTRS copy i = Some (pg_ptr mp (old_index (nn_index new) i))"
    and p: "page_like mp env p" and room: "fits env (page_nodes p @ [item_node mp new i (pg_cnt p)])"
  obtains k d no fl q where "split_item mp copy new i (pg_cnt p) = Some (k, d, no, fl)"
    "mdb_node_add env db tf alloc p (pg_cnt p) (Some k) d no fl = Some (0, q, db, tf, None)"
    "node_added p (pg_cnt p) (item_node mp new i (pg_cnt p)) q"
proof -
  let ?nd = "item_node mp new i (pg_cnt p)"
  have wf: "page_wf p" and len: "length p = me_psize env" using p by (simp_all add: page_like_def)
  note lf = page_like_leaf [OF p]
  have fit: "pg_lower p + 2 + node_bytes ?nd \<le> pg_upper p"
    unfolding page_space(3) [OF wf] using room len by (simp add: fits_def entry_def)
  show ?thesis
  proof (cases "pg_leaf mp")
    case True
    then obtain k d fl where it: "split_item mp copy new i (pg_cnt p) = Some (k, Some d, 0, fl)" "data_ready fl d None"
      "leaf_node fl k d None = ?nd" "length k < 2 ^ 16" "F_ISSET fl F_BIGDATA \<or> 8 + length k + mv_size d \<le> me_nodemax env"
      using split_item_leaf [OF mp c, of "pg_cnt p"] by (metis item_node_def)
    then show ?thesis
      using node_add_leaf_fits [OF wf _ order_refl it(4,2,5), of db tf alloc 0] True lf fit that by auto
  next
    case False
    then obtain k no fl where it: "split_item mp copy new i (pg_cnt p) = Some (k, None, no, fl)" "no < 2 ^ 48"
      "branch_node no (Some k) = ?nd" "length k < 2 ^ 16"
      using split_item_branch [OF mp c, of "pg_cnt p"] by metis
    have "node_bytes ?nd = EVEN (8 + length k)" unfolding it(3) [symmetric] by (simp add: node_bytes_def branch_node_def)
    then have "mdb_branch_size env (Some k) \<le> pg_upper p - pg_lower p"
      using fit EVEN_bounds(1) [of "8 + length k"]
      unfolding mdb_branch_size_def INDXSIZE_def NODESIZE_def option.case by linarith
    then show ?thesis
      using mdb_node_add_branch [OF wf _ order_refl it(2), of "Some k" env db tf alloc None fl] False lf it that by auto
  qed
qed


lemma split_item_full:
  assumes mp: "page_ok env mp" "split_env_ok env" "new_ok env mp new" "i \<le> pg_cnt mp"
    and c: "i \<noteq> nn_index new \<Longrightarrow> MP_PTRS copy i = Some (pg_ptr mp (old_index (nn_index new) i))"
    and leaf: "pg_leaf mp" and p: "page_like mp env p" and room: "\<not> fits env (page_nodes p @ [split_list mp new ! i])"
  shows "\<exists>k d no fl. split_item mp copy new i j = Some (k, d, no, fl)
    \<and> mdb_node_add env db tf alloc p indx (Some k) d no fl = Some (MDB_PAGE_FULL, p, db, tf OR TXN_ERROR, None)"
proof -
  obtain k d fl where it: "split_item mp copy new i j = Some (k, Some d, 0, fl)" "data_ready fl d None"
    "leaf_node fl k d None = split_list mp new ! i" "F_ISSET fl F_BIGDATA \<or> 8 + length k + mv_size d \<le> me_nodemax env"
    by (rule split_item_leaf [OF mp c leaf])
  have w: "page_wf p" "length p = me_psize env" "pg_leaf p"
    using p page_like_leaf [OF p] leaf by (simp_all add: page_like_def)
  have "\<not> pg_lower p + 2 + node_bytes (leaf_node fl k d None) \<le> pg_upper p"
    unfolding page_space(3) [OF w(1)] it(3) using room w(2) by (simp add: fits_def entry_def)
  then show ?thesis using node_add_leaf_eq [OF w(1,3) it(2,4), of db tf alloc indx 0] it(1) by simp
qed

lemma node_added_like:
  assumes "page_like mp env p" "node_added p (pg_cnt p) nd q"
  shows "page_like mp env q" "page_nodes q = page_nodes p @ [nd]" "pg_cnt q = Suc (pg_cnt p)"
proof -
  show "page_like mp env q" using assms by (simp add: page_like_def node_added_def)
  have "page_nodes q = take (pg_cnt p) (page_nodes p) @ nd # drop (pg_cnt p) (page_nodes p)"
    using assms(2) by (simp add: node_added_def)
  then show n: "page_nodes q = page_nodes p @ [nd]" by simp
  show "pg_cnt q = Suc (pg_cnt p)" using arg_cong [OF n, of length] by simp
qed

text \<open>The list of the nodes from item \<open>s\<close> on, as the loop adds them.\<close>

lemma first_bare_nth:
  "i < length nds \<Longrightarrow> first_bare leaf nds ! i = (if \<not> leaf \<and> i = 0 then (nds ! i)\<lparr>nd_key := []\<rparr> else nds ! i)"
  by (cases nds; cases i) (auto simp: first_bare_def)

lemma length_first_bare [simp]: "length (first_bare leaf nds) = length nds"
  by (simp add: first_bare_def split: list.split)

lemma fits_take: "fits env nds \<Longrightarrow> fits env (take i nds)"
proof -
  have "sum_list (map entry nds) = sum_list (map entry (take i nds)) + sum_list (map entry (drop i nds))"
    by (metis append_take_drop_id map_append sum_list_append)
  then show "fits env nds \<Longrightarrow> fits env (take i nds)" by (simp add: fits_def)
qed

lemma take_Suc_snoc: "i < length xs \<Longrightarrow> take i xs @ [xs ! i] = take (Suc i) xs"
  by (simp add: take_Suc_conv_app_nth)

text \<open>One round.\<close>

lemma split_loop_round:
  assumes ok: "page_ok env mp" "split_env_ok env" "new_ok env mp new" "i \<le> pg_cnt mp"
    and c: "i \<noteq> nn_index new \<Longrightarrow> MP_PTRS copy i = Some (pg_ptr mp (old_index (nn_index new) i))"
    and p: "page_like mp env p" "p = (if right then rp else copy)" "page_nodes p = take j nds" "j < length nds"
    and nd: "nds ! j = item_node mp new i j" "fits env nds"
  obtains q where "node_added p j (nds ! j) q" "page_like mp env q" "page_nodes q = take (Suc j) nds"
    "split_loop env alloc mp new n s right i j rp copy db tf ov ki =
       (let (i', j', right') = (if i = n then (0, 0, False) else (i + 1, j + 1, right));
            rp' = (if right then q else rp); copy' = (if right then copy else q);
            ki' = (if i = nn_index new then j else ki)
        in if i' = s then Some (0, rp', copy', db, tf, ov, ki')
           else split_loop env alloc mp new n s right' i' j' rp' copy' db tf ov ki')"
proof -
  have j: "pg_cnt p = j" using arg_cong [OF p(3), of length] p(4) by simp
  have snoc: "page_nodes p @ [item_node mp new i j] = take (Suc j) nds"
    unfolding p(3) nd(1) [symmetric] by (rule take_Suc_snoc [OF p(4)])
  have room: "fits env (page_nodes p @ [item_node mp new i (pg_cnt p)])"
    unfolding j snoc by (rule fits_take [OF nd(2)])
  obtain k d no fl q where it: "split_item mp copy new i j = Some (k, d, no, fl)"
    "mdb_node_add env db tf alloc p j (Some k) d no fl = Some (0, q, db, tf, None)" "node_added p j (item_node mp new i j) q"
    by (rule split_item_adds [OF ok c p(1) room, unfolded j])
  note like = node_added_like [OF p(1), unfolded j, OF it(3)]
  have "page_nodes q = take (Suc j) nds" using like(2) snoc by simp
  moreover have "split_loop env alloc mp new n s right i j rp copy db tf ov ki =
       (let (i', j', right') = (if i = n then (0, 0, False) else (i + 1, j + 1, right));
            rp' = (if right then q else rp); copy' = (if right then copy else q);
            ki' = (if i = nn_index new then j else ki)
        in if i' = s then Some (0, rp', copy', db, tf, ov, ki')
           else split_loop env alloc mp new n s right' i' j' rp' copy' db tf ov ki')"
    by (subst split_loop.simps) (use it(1,2) p(2) in \<open>simp add: Let_def split: prod.split\<close>)
  ultimately show ?thesis using that it(3) like(1) nd(1) by simp
qed

lemma split_loop_right:
  assumes ok: "page_ok env mp" "split_env_ok env" "new_ok env mp new" and s: "0 < s" "s \<le> pg_cnt mp"
    and c: "has_ptrs mp (nn_index new) copy 0 (Suc (pg_cnt mp))"
    and nds: "nds = first_bare (pg_leaf mp) (drop s (split_list mp new))" "fits env nds"
  shows "s \<le> i \<Longrightarrow> i \<le> pg_cnt mp \<Longrightarrow> page_like mp env rp \<Longrightarrow> page_nodes rp = take (i - s) nds \<Longrightarrow>
    \<exists>rp'. page_like mp env rp' \<and> page_nodes rp' = nds
      \<and> split_loop env alloc mp new (pg_cnt mp) s True i (i - s) rp copy db tf ov ki
        = split_loop env alloc mp new (pg_cnt mp) s False 0 0 rp' copy db tf ov
            (if i \<le> nn_index new then nn_index new - s else ki)"
proof (induction "pg_cnt mp - i" arbitrary: i rp ki)
  case 0
  then have i: "i = pg_cnt mp" by simp
  have len: "length nds = Suc (pg_cnt mp) - s" by (simp add: nds(1))
  have j: "i - s < length nds" using i s by (simp add: len)
  have nd: "nds ! (i - s) = item_node mp new i (i - s)"
    unfolding nds(1) using 0 s by (subst first_bare_nth) (simp_all add: item_node_def)
  have idx: "nn_index new \<le> pg_cnt mp" using ok(3) by (simp add: new_ok_def)
  obtain q where q: "page_like mp env q" "page_nodes q = take (Suc (i - s)) nds"
    "split_loop env alloc mp new (pg_cnt mp) s True i (i - s) rp copy db tf ov ki
     = split_loop env alloc mp new (pg_cnt mp) s False 0 0 q copy db tf ov (if i = nn_index new then i - s else ki)"
    using split_loop_round [OF ok, of i copy rp True rp "i - s" nds alloc "pg_cnt mp" s db tf ov ki] 0 has_ptrsD [OF c] j nd nds(2) i s
    by (auto simp: Let_def)
  moreover have "take (Suc (i - s)) nds = nds" using i s by (simp add: len Suc_diff_le)
  ultimately show ?case using i idx by auto
next
  case (Suc m)
  have len: "length nds = Suc (pg_cnt mp) - s" by (simp add: nds(1))
  have i: "i < pg_cnt mp" "Suc i - s = Suc (i - s)" using Suc by auto
  have j: "i - s < length nds" using i Suc.prems by (simp add: len)
  have nd: "nds ! (i - s) = item_node mp new i (i - s)"
    unfolding nds(1) using Suc.prems by (subst first_bare_nth) (simp_all add: item_node_def)
  obtain q where q: "page_like mp env q" "page_nodes q = take (Suc (i - s)) nds"
    "split_loop env alloc mp new (pg_cnt mp) s True i (i - s) rp copy db tf ov ki
     = split_loop env alloc mp new (pg_cnt mp) s True (Suc i) (Suc i - s) q copy db tf ov (if i = nn_index new then i - s else ki)"
    using split_loop_round [OF ok, of i copy rp True rp "i - s" nds alloc "pg_cnt mp" s db tf ov ki] Suc.prems has_ptrsD [OF c] j nd nds(2) i
    by (auto simp: Let_def)
  show ?case
    using Suc.hyps(1) [of "Suc i" q "if i = nn_index new then i - s else ki"] Suc.hyps(2) Suc.prems i q
    by (auto split: if_splits)
qed


text \<open>The left half is written into the page that holds the pointers: they are above what is written until they
  have been read, since the half fits together with all its pointers.\<close>

lemma has_ptrs_kept:
  assumes h: "has_ptrs mp newindx copy (Suc i) z" and p: "page_like mp env copy" "pg_cnt copy = i"
    and q: "node_added copy i nd q" "page_like mp env q" "16 + 2 * z \<le> pg_upper q"
  shows "has_ptrs mp newindx q (Suc i) z"
  unfolding has_ptrs_def
proof (intro allI impI)
  fix t assume t: "Suc i \<le> t" "t < z" "t \<noteq> newindx"
  have wf: "page_wf copy" "page_wf q" and len: "length copy = me_psize env" "length q = me_psize env"
    using p(1) q(2) by (simp_all add: page_like_def)
  have lo: "pg_lower copy + 2 \<le> 16 + 2 * t" using page_wfD(1) [OF wf(1)] p(2) t(1) by simp
  have up: "16 + 2 * t + 2 \<le> pg_upper q" using t(2) q(3) by linarith
  have "sub q (16 + 2 * t) 2 = sub copy (16 + 2 * t) 2" using q(1) lo up by (simp add: node_added_def)
  then have "pg_ptr q t = pg_ptr copy t" by (simp add: pg_ptr_def le_at_def)
  moreover have "18 + 2 * t \<le> me_psize env" using up page_wfD(3) [OF wf(2)] len by simp
  ultimately show "MP_PTRS q t = Some (pg_ptr mp (old_index newindx t))"
    using has_ptrsD [OF h t] len by (simp add: page_hdr)
qed

lemma split_loop_left_upto:
  assumes ok: "page_ok env mp" "split_env_ok env" "new_ok env mp new" and s: "t < s" "s \<le> pg_cnt mp" "t < z"
    and nds: "nds = first_bare (pg_leaf mp) (take s (split_list mp new))"
    and fit: "sum_list (map node_bytes (take t nds)) + 2 * z + 16 \<le> me_psize env"
  shows "i \<le> t \<Longrightarrow> page_like mp env copy \<Longrightarrow> page_nodes copy = take i nds \<Longrightarrow>
    has_ptrs mp (nn_index new) copy i z \<Longrightarrow>
    \<exists>q. page_like mp env q \<and> page_nodes q = take t nds \<and> has_ptrs mp (nn_index new) q t z
      \<and> split_loop env alloc mp new (pg_cnt mp) s False i i rp copy db tf ov ki
        = split_loop env alloc mp new (pg_cnt mp) s False t t rp q db tf ov
            (if i \<le> nn_index new \<and> nn_index new < t then nn_index new else ki)"
proof (induction "t - i" arbitrary: i copy ki)
  case 0
  then show ?case by auto
next
  case (Suc m)
  then have i: "Suc i < s" "i < pg_cnt mp" "i \<noteq> pg_cnt mp" "i < t" using s by auto
  have len: "length nds = s" using s by (simp add: nds)
  have cut: "sum_list (map node_bytes (take t nds)) = sum_list (map node_bytes (take j nds))
      + sum_list (map node_bytes (take (t - j) (drop j nds)))" if "j \<le> t" for j
    using take_add [of j "t - j" nds] that by simp
  have "length (take t nds) = t" using s len by simp
  then have fits: "fits env (take t nds)" using fit s(3) by (simp add: fits_def sum_entry)
  have nd: "take t nds ! i = item_node mp new i i"
    unfolding nds using i s by (subst nth_take) (auto simp: first_bare_nth item_node_def)
  have tk: "take (Suc i) (take t nds) = take (Suc i) nds" "take i (take t nds) = take i nds" using i by (simp_all add: min_def)
  obtain q where q: "node_added copy i (take t nds ! i) q" "page_like mp env q" "page_nodes q = take (Suc i) nds"
    "split_loop env alloc mp new (pg_cnt mp) s False i i rp copy db tf ov ki
     = split_loop env alloc mp new (pg_cnt mp) s False (Suc i) (Suc i) rp q db tf ov (if i = nn_index new then i else ki)"
    using split_loop_round [OF ok, of i copy copy False rp i "take t nds" alloc "pg_cnt mp" s db tf ov ki]
      Suc.prems has_ptrsD nd fits i s len tk
    by (auto simp: Let_def)
  have "pg_upper q + sum_list (map node_bytes (take (Suc i) nds)) = me_psize env"
    using page_space(1) [of q] q(2,3) by (simp add: page_like_def)
  then have up: "16 + 2 * z \<le> pg_upper q" using cut [of "Suc i"] fit i by linarith
  have "has_ptrs mp (nn_index new) copy (Suc i) z" using Suc.prems(4) by (simp add: has_ptrs_def)
  moreover have "pg_cnt copy = i" using arg_cong [OF Suc.prems(3), of length] len i by simp
  ultimately have "has_ptrs mp (nn_index new) q (Suc i) z"
    by (rule has_ptrs_kept [OF _ Suc.prems(2) _ q(1,2) up])
  then show ?case
    using Suc.hyps(1) [of "Suc i" q "if i = nn_index new then i else ki"] Suc.hyps(2) i q
    by (auto split: if_splits)
qed

lemma split_loop_left:
  assumes ok: "page_ok env mp" "split_env_ok env" "new_ok env mp new" and s: "0 < s" "s \<le> pg_cnt mp"
    and nds: "nds = first_bare (pg_leaf mp) (take s (split_list mp new))" "fits env nds"
    and copy: "page_like mp env copy" "page_nodes copy = []" "has_ptrs mp (nn_index new) copy 0 s"
  shows "\<exists>q. page_like mp env q \<and> page_nodes q = nds \<and> pg_ptr q (s - 1) = pg_upper q
      \<and> split_loop env alloc mp new (pg_cnt mp) s False 0 0 rp copy db tf ov ki
        = Some (0, rp, q, db, tf, ov, if nn_index new < s then nn_index new else ki)"
proof -
  define t where "t = s - 1"
  have t: "Suc t = s" "t < s" "t \<noteq> pg_cnt mp" "t < pg_cnt mp" using s by (auto simp: t_def)
  have len: "length nds = s" using s by (simp add: nds(1))
  have fit: "sum_list (map node_bytes (take t nds)) + 2 * s + 16 \<le> me_psize env"
  proof -
    have "sum_list (map node_bytes nds) = sum_list (map node_bytes (take t nds)) + sum_list (map node_bytes (drop t nds))"
      by (metis append_take_drop_id map_append sum_list_append)
    then show ?thesis using nds(2) len by (simp add: fits_def sum_entry)
  qed
  obtain p where p: "page_like mp env p" "page_nodes p = take t nds" "has_ptrs mp (nn_index new) p t s"
    "split_loop env alloc mp new (pg_cnt mp) s False 0 0 rp copy db tf ov ki
     = split_loop env alloc mp new (pg_cnt mp) s False t t rp p db tf ov (if nn_index new < t then nn_index new else ki)"
    using split_loop_left_upto [OF ok t(2) s(2) t(2) nds(1) fit, of 0 copy alloc rp db tf ov ki] copy by auto
  have nd: "nds ! t = item_node mp new t t"
    unfolding nds(1) using t s by (subst first_bare_nth) (auto simp: item_node_def)
  let ?ki = "if nn_index new < t then nn_index new else ki"
  obtain q where "node_added p t (nds ! t) q" "page_like mp env q" "page_nodes q = take (Suc t) nds"
    "split_loop env alloc mp new (pg_cnt mp) s False t t rp p db tf ov ?ki
     = Some (0, rp, q, db, tf, ov, if t = nn_index new then t else ?ki)"
    using split_loop_round [OF ok, of t p p False rp t nds alloc "pg_cnt mp" s db tf ov ?ki] p has_ptrsD nd nds(2) t s len
    by (auto simp: Let_def)
  then show ?thesis using p(4) t(1) len by (auto simp: node_added_def)
qed

section \<open>The left half goes back\<close>

lemma copy_back_spec:
  "18 + 2 * (i + m) \<le> 2 + length mp \<Longrightarrow> 18 + 2 * (i + m) \<le> 2 + length copy \<Longrightarrow>
   \<exists>p. copy_back mp copy m i = Some p \<and> length p = length mp
     \<and> (\<forall>k. i \<le> k \<longrightarrow> k < i + m \<longrightarrow> pg_ptr p k = pg_ptr copy k)
     \<and> (\<forall>k n. k + n \<le> 16 + 2 * i \<longrightarrow> sub p k n = sub mp k n)"
proof (induction m arbitrary: i mp)
  case (Suc m)
  define p1 where "p1 = blit mp (16 + 2 * i) (le_bytes 2 (pg_ptr copy i))"
  have l: "length p1 = length mp" using Suc.prems by (simp add: p1_def)
  have "copy_back mp copy (Suc m) i = copy_back p1 copy m (Suc i)"
    using Suc.prems by (simp add: page_hdr st_def PAGEHDRSZ_def p1_def)
  moreover obtain p where p: "copy_back p1 copy m (Suc i) = Some p" "length p = length mp"
    "\<And>k. Suc i \<le> k \<Longrightarrow> k < Suc i + m \<Longrightarrow> pg_ptr p k = pg_ptr copy k"
    "\<And>k n. k + n \<le> 16 + 2 * Suc i \<Longrightarrow> sub p k n = sub p1 k n"
    using Suc.IH [of "Suc i" p1] Suc.prems l by auto
  moreover have "pg_ptr p i = pg_ptr copy i"
  proof -
    have "pg_ptr p i = pg_ptr p1 i" by (simp add: pg_ptr_def le_at_def p(4))
    then show ?thesis using pg_ptr_blit [of i mp "pg_ptr copy i" i] pg_ptr_less [of i copy] Suc.prems by (simp add: p1_def)
  qed
  then have "pg_ptr p k = pg_ptr copy k" if "i \<le> k" "k < i + Suc m" for k
    using that p(3) [of k] by (cases "k = i") auto
  moreover have "sub p k n = sub mp k n" if "k + n \<le> 16 + 2 * i" for k n
    using that Suc.prems p(4) [of k n] by (simp add: p1_def region_simps)
  ultimately show ?case by auto
qed simp

lemma page_kept:
  assumes wf: "page_wf p" and q: "length q = length p" "pg_lower q = pg_lower p" "pg_upper q = pg_upper p"
    "pg_flags q = pg_flags p" "\<And>k. k < pg_cnt p \<Longrightarrow> pg_ptr q k = pg_ptr p k"
    "\<And>k n. pg_upper p \<le> k \<Longrightarrow> sub q k n = sub p k n"
  shows "page_wf q" "page_nodes q = page_nodes p"
proof -
  note w = page_wfD [OF wf]
  have c: "pg_cnt q = pg_cnt p" and lf: "pg_leaf q = pg_leaf p" by (simp_all add: pg_cnt_def pg_leaf_def q)
  have kept: "node_at (pg_leaf p) q (pg_ptr p i) = node_at (pg_leaf p) p (pg_ptr p i)"
    "n_size (pg_leaf p) q (pg_ptr p i) = n_size (pg_leaf p) p (pg_ptr p i)" if "i < pg_cnt p" for i
    by (rule node_moved [OF q(6) order_refl]; use w(7) [OF that] in simp)+
  show "page_nodes q = page_nodes p" by (simp add: page_nodes_def c lf q(5) kept(1))
  have sizes: "map (\<lambda>i. n_size (pg_leaf p) q (pg_ptr q i)) [0..<pg_cnt p]
      = map (\<lambda>i. n_size (pg_leaf p) p (pg_ptr p i)) [0..<pg_cnt p]"
    by (simp add: q(5) kept(2))
  show "page_wf q"
    by (rule page_wfI; (unfold c lf q(1-4) sizes)?) (use w in \<open>simp_all add: q(5) kept(2)\<close>)
qed

lemma split_back_spec:
  assumes mp: "page_like mp env p" and copy: "page_like mp env copy" "0 < pg_cnt copy"
    and last: "pg_ptr copy (pg_cnt copy - 1) = pg_upper copy"
  obtains q where "split_back env p copy = Some q" "page_like mp env q" "page_nodes q = page_nodes copy"
proof -
  have wf: "page_wf copy" "page_wf p" and len: "length copy = me_psize env" "length p = me_psize env"
    and fl: "pg_flags p = pg_flags copy" using mp copy by (simp_all add: page_like_def)
  note w = page_wfD [OF wf(1)]
  let ?n = "pg_cnt copy" and ?up = "pg_upper copy"
  have b: "16 + 2 * ?n \<le> ?up" "?up \<le> me_psize env" "me_psize env \<le> 2 ^ 15" using w(1-4) len by simp_all
  obtain p1 where p1: "copy_back p copy ?n 0 = Some p1" "length p1 = me_psize env"
    "\<And>k. k < ?n \<Longrightarrow> pg_ptr p1 k = pg_ptr copy k" "\<And>k n. k + n \<le> 16 \<Longrightarrow> sub p1 k n = sub p k n"
    using copy_back_spec [of 0 ?n p copy] b len by auto
  define p2 where "p2 = blit p1 12 (le_bytes 2 (pg_lower copy))"
  define p3 where "p3 = blit p2 14 (le_bytes 2 ?up)"
  define q where "q = blit p3 ?up (sub copy ?up (me_psize env - ?up))"
  have l: "length p2 = me_psize env" "length p3 = me_psize env" "length q = me_psize env"
    using p1(2) b len by (simp_all add: p2_def p3_def q_def)
  have ptr3: "pg_ptr p3 k = pg_ptr copy k" if "k < ?n" for k
    using that p1(2) b l p1(3) [OF that] by (simp add: p3_def p2_def pg_ptr_def region_simps)
  have ptr: "pg_ptr q k = pg_ptr copy k" if "k < ?n" for k
    using ptr3 [OF that] that b l len by (simp add: q_def pg_ptr_def region_simps)
  have lo: "pg_lower copy < 2 ^ 16" "?up < 2 ^ 16" using w(2) b by simp_all
  have h: "pg_lower q = pg_lower copy" "pg_upper q = ?up" "pg_flags q = pg_flags copy"
    using b l len lo p1(2) fl
    by (simp_all add: q_def p3_def p2_def pg_lower_def pg_upper_def pg_flags_def region_simps le_at_def p1(4) le_val_le_bytes)
  have nodes: "sub q k n = sub copy k n" if "?up \<le> k" for k n
  proof -
    have "q = take ?up p3 @ sub copy ?up (me_psize env - ?up)" unfolding q_def using b l len by (intro blit_full) simp
    then have "drop ?up q = drop ?up copy" using b l len by (simp add: sub_def)
    then have "drop (k - ?up) (drop ?up q) = drop (k - ?up) (drop ?up copy)" by simp
    then show ?thesis using that by (simp add: sub_def)
  qed
  have same: "page_wf q" "page_nodes q = page_nodes copy"
    using page_kept [OF wf(1), of q] l(3) len h ptr nodes by auto
  have "split_back env p copy = Some q"
  proof -
    have 1: "NUMKEYS copy = Some ?n" "MP_LOWER copy = Some (pg_lower copy)" "MP_UPPER copy = Some ?up"
      "st 2 p1 12 (pg_lower copy) = Some p2" "st 2 p2 14 ?up = Some p3"
      using b len p1(2) l by (simp_all add: page_hdr st_def p2_def p3_def)
    have 2: "NODEPTR p3 (?n - 1) = Some ?up" "NODEPTR copy (?n - 1) = Some ?up"
      "get_bytes copy ?up (me_psize env - ?up) = Some (sub copy ?up (me_psize env - ?up))"
      "put_bytes p3 ?up (sub copy ?up (me_psize env - ?up)) = Some q"
      using b len l copy(2) last ptr3 [of "?n - 1"]
      by (simp_all add: NODEPTR_def page_hdr get_bytes_def put_bytes_def sub_def q_def)
    show ?thesis using b copy(2) by (simp add: split_back_def 1 2 [unfolded One_nat_def] p1(1))
  qed
  then show ?thesis using that same l(3) h(3) copy(1) by (simp add: page_like_def)
qed


section \<open>Properties\<close>

lemma split_prepare_eq:
  assumes mp: "page_ok env mp" "new_ok env mp new" "0 < pg_cnt mp" "length tmp = me_psize env"
  shows "\<exists>copy. page_bare mp (me_psize env) copy \<and> has_ptrs mp (nn_index new) copy 0 (Suc (pg_cnt mp))
    \<and> (\<forall>s. split_point env mp copy (pg_cnt mp) (nn_index new) (entry (new_decoded (pg_leaf mp) new)) = Some s \<longrightarrow>
       s \<le> pg_cnt mp \<longrightarrow> split_prepare env (Some tmp) mp new = Some (Inr (copy, s, nd_key (split_list mp new ! s))))"
proof -
  have wf: "page_wf mp" and len: "length mp = me_psize env" and idx: "nn_index new \<le> pg_cnt mp"
    using mp by (simp_all add: page_ok_def new_ok_def)
  obtain copy where c: "split_copy env tmp mp (nn_index new) = Some copy" "page_bare mp (me_psize env) copy"
    "has_ptrs mp (nn_index new) copy 0 (Suc (pg_cnt mp))"
    by (rule split_copy_spec [OF wf len mp(4) idx mp(3)])
  have "split_prepare env (Some tmp) mp new = Some (Inr (copy, s, nd_key (split_list mp new ! s)))"
    if s: "split_point env mp copy (pg_cnt mp) (nn_index new) (entry (new_decoded (pg_leaf mp) new)) = Some s" "s \<le> pg_cnt mp" for s
  proof -
    have "split_sepkey mp copy new s = Some (nd_key (split_list mp new ! s))"
    proof (cases "s = nn_index new")
      case True
      then show ?thesis
        using split_list_nth [OF idx s(2)] by (simp add: split_sepkey_def new_decoded_def leaf_node_def branch_node_def)
    next
      case False
      note in_page = page_wfD(7) [OF wf old_index_less [OF idx s(2) False]]
      then show ?thesis
        using split_list_nth [OF idx s(2)] False has_ptrsD [OF c(3)] s(2) item_fields(4) [of _ "pg_leaf mp" mp]
        by (simp add: split_sepkey_def node_at_def)
    qed
    then show ?thesis
      using page_hdr(3) [of mp] page_room(2,7) [OF wf] split_nsize_eq [OF mp(2)] s(1)
      by (simp add: split_prepare_def c(1))
  qed
  then show ?thesis using c by blast
qed



text \<open>A page of 64 bytes with two nodes, and the empty right sibling.\<close>

definition env_64 :: env where "env_64 = \<lparr>me_psize = 64, me_nodemax = 22\<rparr>"

definition page_pair :: page where
  "page_pair = [7, 0, 0, 0, 0, 0, 0, 0, 0, 0, 2, 0, 20, 0, 40, 0, 52, 0, 40, 0] @ replicate 20 0
     @ [2, 0, 0, 0, 0, 0, 1, 0, 98, 7, 8, 0] @ [2, 0, 0, 0, 0, 0, 1, 0, 97, 5, 6, 0]"

lemma page_pair_hdr: "length page_pair = 64" "pg_lower page_pair = 20" "pg_upper page_pair = 40" "pg_flags page_pair = 2"
  "pg_cnt page_pair = 2" "pg_leaf page_pair" "pg_ptr page_pair 0 = 52" "pg_ptr page_pair (Suc 0) = 40"
  by (simp_all add: page_pair_def pg_lower_def pg_upper_def pg_flags_def pg_cnt_def pg_leaf_def pg_ptr_def le_at_nth
      F_ISSET_def P_LEAF_def)

lemma page_pair_node: "n_ksize page_pair 52 = 1" "n_flags page_pair 52 = 0" "n_word page_pair 52 = 2"
  "n_ksize page_pair 40 = 1" "n_flags page_pair 40 = 0" "n_word page_pair 40 = 2"
  by (simp_all add: page_pair_def n_ksize_def n_flags_def n_word_def le_at_nth nth_append)

lemma all_less_two: "(\<forall>i < 2. P i) \<longleftrightarrow> P 0 \<and> P (Suc 0)" for P :: "nat \<Rightarrow> bool"
  by (auto simp: less_Suc_eq numeral_2_eq_2)

lemma page_pair_sizes: "n_size True page_pair 52 = 12" "n_size True page_pair 40 = 12"
  by (simp_all add: n_size_def n_dsize_def data_size_def page_pair_node F_ISSET_def F_BIGDATA_def EVEN_def)

lemma page_pair_wf: "page_wf page_pair"
  by (simp add: page_wf_def page_pair_hdr page_pair_sizes F_ISSET_def P_LEAF2_def all_less_two numeral_2_eq_2 [symmetric])
    (simp add: numeral_2_eq_2 page_pair_hdr page_pair_sizes)

lemma page_pair_nodes: "page_nodes page_pair =
   [\<lparr>nd_flags = 0, nd_key = [97], nd_word = 2, nd_data = [5, 6]\<rparr>, \<lparr>nd_flags = 0, nd_key = [98], nd_word = 2, nd_data = [7, 8]\<rparr>]"
  by (simp add: page_nodes_def page_pair_hdr page_pair_node node_at_def n_dsize_def data_size_def F_ISSET_def F_BIGDATA_def
      upt_rec) (simp add: page_pair_def sub_def)

definition new_pair :: new_node where
  "new_pair = \<lparr>nn_index = 1, nn_key = [97, 97], nn_data = Some \<lparr>mv_size = 1, mv_data = [9]\<rparr>, nn_pgno = 0, nn_flags = 0\<rparr>"

lemma new_pair_decoded: "new_decoded True new_pair = \<lparr>nd_flags = 0, nd_key = [97, 97], nd_word = 1, nd_data = [9]\<rparr>"
  by (simp add: new_decoded_def new_pair_def leaf_node_def F_ISSET_def F_BIGDATA_def)


text \<open>Where the split point is not looked for (many keys and a small new node that does not go to the end) the
  half that the new node goes to can be too small for it. On such a leaf page, in order, with nodes that an
  environment accepts, \<open>mdb_page_split\<close> fails with \<open>MDB_PAGE_FULL\<close> after it has changed the parent.\<close>

theorem mdb_page_split_unchecked_fails:
  assumes "page_ok env mp" "split_env_ok env" "new_ok env mp new" "0 < pg_cnt mp" "length tmp = me_psize env"
    and "page_like mp env rp" "page_nodes rp = []" "pg_leaf mp"
    and "\<not> split_checked env (pg_cnt mp) (nn_index new) (entry (new_decoded True new))"
    and "s = (pg_cnt mp + 1) div 2" "fits env (drop s (split_list mp new))"
    and "t < s" "sum_list (map entry (take t (split_list mp new))) + 18 \<le> me_psize env"
    and "me_psize env < sum_list (map entry (take (Suc t) (split_list mp new))) + 16"
  shows "\<exists>copy rp' ki'. split_prepare env (Some tmp) mp new = Some (Inr (copy, s, nd_key (split_list mp new ! s)))
     \<and> split_move env alloc mp rp new copy s db tf ki = Some (MDB_PAGE_FULL, rp', mp, db, tf OR TXN_ERROR, None, ki')"
proof -
  note ok = assms(1-3)
  let ?L = "split_list mp new" and ?i = "nn_index new"
  have s: "0 < s" "s \<le> pg_cnt mp" using assms(4,10) by auto
  have bare: "first_bare (pg_leaf mp) xs = xs" for xs using assms(8) by (cases xs) (simp_all add: first_bare_def)
  have wf: "page_wf mp" using ok(1) by (simp add: page_ok_def)
  obtain copy where c: "page_bare mp (me_psize env) copy" "has_ptrs mp ?i copy 0 (Suc (pg_cnt mp))"
    "\<And>s. split_point env mp copy (pg_cnt mp) ?i (entry (new_decoded (pg_leaf mp) new)) = Some s \<Longrightarrow>
       s \<le> pg_cnt mp \<Longrightarrow> split_prepare env (Some tmp) mp new = Some (Inr (copy, s, nd_key (?L ! s)))"
    using split_prepare_eq [OF ok(1,3) assms(4,5)] by blast
  have "split_point env mp copy (pg_cnt mp) ?i (entry (new_decoded (pg_leaf mp) new)) = Some s"
    using assms(8-10) page_room(7) [OF wf] by (simp add: split_point_def)
  note prep = c(3) [OF this s(2)]
  have like: "page_like mp env copy" "page_nodes copy = []" using c(1) by (simp_all add: page_bare_def page_like_def)
  obtain rp' where r: "split_loop env alloc mp new (pg_cnt mp) s True s (s - s) rp copy db tf None ki
     = split_loop env alloc mp new (pg_cnt mp) s False 0 0 rp' copy db tf None (if s \<le> ?i then ?i - s else ki)"
    using split_loop_right [OF ok s c(2) refl _ order_refl s(2) assms(6), of alloc db tf None ki] assms(7,11) by (auto simp: bare)
  have len: "length (take t ?L) = t" using assms(12) s by simp
  have h: "has_ptrs mp ?i copy 0 (Suc t)" using c(2) s(2) assms(12) by (simp add: has_ptrs_def)
  have m: "min t s = t" using assms(12) by simp
  have fit: "sum_list (map node_bytes (take t (first_bare (pg_leaf mp) (take s ?L)))) + 2 * Suc t + 16 \<le> me_psize env"
    unfolding bare take_take m using assms(13) len by (simp add: sum_entry)
  let ?ki = "if s \<le> ?i then ?i - s else ki"
  obtain q where q: "page_like mp env q" "page_nodes q = take t ?L" "has_ptrs mp ?i q t (Suc t)"
    "split_loop env alloc mp new (pg_cnt mp) s False 0 0 rp' copy db tf None ?ki
     = split_loop env alloc mp new (pg_cnt mp) s False t t rp' q db tf None (if ?i < t then ?i else ?ki)"
    using split_loop_left_upto [OF ok assms(12) s(2) lessI refl fit, of 0 copy alloc rp' db tf None ?ki] like h
    by (auto simp: bare m)
  have tn: "t \<le> pg_cnt mp" using assms(12) s by simp
  have p: "t \<noteq> ?i \<Longrightarrow> MP_PTRS q t = Some (pg_ptr mp (old_index ?i t))" using has_ptrsD [OF q(3)] by simp
  have nf: "\<not> fits env (page_nodes q @ [?L ! t])"
    using assms(14) take_Suc_conv_app_nth [of t ?L] tn by (simp add: q(2) fits_def)
  have "\<exists>k d no fl. split_item mp q new t t = Some (k, d, no, fl)
      \<and> mdb_node_add env db tf alloc q t (Some k) d no fl = Some (MDB_PAGE_FULL, q, db, tf OR TXN_ERROR, None)"
    by (rule split_item_full [OF ok tn _ assms(8) q(1) nf]) (rule p)
  then have "\<exists>ki'. split_loop env alloc mp new (pg_cnt mp) s False t t rp' q db tf None kk = Some (MDB_PAGE_FULL, rp', q, db, tf OR TXN_ERROR, None, ki')" for kk
    by (subst split_loop.simps) (auto simp: Let_def MDB_PAGE_FULL_def)
  then obtain ki' where "split_loop env alloc mp new (pg_cnt mp) s True s 0 rp copy db tf None ki = Some (MDB_PAGE_FULL, rp', q, db, tf OR TXN_ERROR, None, ki')"
    using r q(4) by fastforce
  moreover have "NUMKEYS mp = Some (pg_cnt mp)" using page_room(2) [OF wf] by (simp add: page_hdr)
  ultimately have "split_move env alloc mp rp new copy s db tf ki = Some (MDB_PAGE_FULL, rp', mp, db, tf OR TXN_ERROR, None, ki')"
    by (simp add: split_move_def MDB_PAGE_FULL_def)
  then show ?thesis using prep by blast
qed


text \<open>A full leaf of 1024 bytes: three large nodes, then five as small as can be.\<close>

definition env_1024 :: env where "env_1024 = \<lparr>me_psize = 1024, me_nodemax = 502\<rparr>"

definition large_node :: "u8 \<Rightarrow> u8 list" where "large_node k = [49, 1, 0, 0, 0, 0, 1, 0, k] @ replicate 305 0"
definition small_node :: "u8 \<Rightarrow> u8 list" where "small_node k = [0, 0, 0, 0, 0, 0, 1, 0, k, 0]"

definition page_eight :: page where
  "page_eight = [7, 0, 0, 0, 0, 0, 0, 0, 0, 0, 2, 0, 32, 0, 32, 0, 32, 0, 90, 1, 148, 2, 206, 3, 216, 3, 226, 3, 236, 3, 246, 3]
     @ large_node 97 @ large_node 98 @ large_node 99
     @ small_node 100 @ small_node 101 @ small_node 102 @ small_node 103 @ small_node 104"

lemma node_lengths: "length (large_node k) = 314" "length (small_node k) = 10"
  by (simp_all add: large_node_def small_node_def)

lemma page_eight_hdr: "length page_eight = 1024" "pg_lower page_eight = 32" "pg_upper page_eight = 32"
  "pg_flags page_eight = 2" "pg_cnt page_eight = 8" "pg_leaf page_eight"
  by (simp_all add: page_eight_def node_lengths pg_lower_def pg_upper_def pg_flags_def pg_cnt_def pg_leaf_def le_at_nth
      F_ISSET_def P_LEAF_def)

text \<open>Node after node: the offset of each, and the bytes there.\<close>

definition eight_at :: "(nat \<times> u8 list) list" where
  "eight_at = [(32, large_node 97), (346, large_node 98), (660, large_node 99), (974, small_node 100),
     (984, small_node 101), (994, small_node 102), (1004, small_node 103), (1014, small_node 104)]"

lemma page_eight_ptrs: "map (pg_ptr page_eight) [0..<8] = map fst eight_at"
  by (simp add: upt_rec pg_ptr_def le_at_nth page_eight_def node_lengths eight_at_def)

lemma page_eight_sub: "list_all (\<lambda>(off, bs). sub page_eight off (length bs) = sub bs 0 (length bs)) eight_at"
  by (simp add: eight_at_def page_eight_def node_lengths sub_def)

lemma node_of_bytes:
  "node_at True (large_node k) 0 = \<lparr>nd_flags = 0, nd_key = [k], nd_word = 305, nd_data = replicate 305 0\<rparr>"
  "node_at True (small_node k) 0 = \<lparr>nd_flags = 0, nd_key = [k], nd_word = 0, nd_data = []\<rparr>"
  "n_size True (large_node k) 0 = 314" "n_size True (small_node k) 0 = 10"
  by (simp_all add: node_at_def n_size_def n_dsize_def data_size_def n_ksize_def n_flags_def n_word_def le_at_nth
      large_node_def small_node_def sub_def F_ISSET_def F_BIGDATA_def EVEN_def)

lemma page_eight_size: "list_all (\<lambda>(off, bs). n_size True page_eight off = length bs) eight_at"
proof -
  have "n_size True page_eight off = length bs" if "(off, bs) \<in> set eight_at" for off bs
  proof -
    have "n_size True bs 0 = length bs" using that by (auto simp: eight_at_def node_of_bytes node_lengths)
    moreover have "sub page_eight off (length bs) = sub bs 0 (length bs)"
      using that page_eight_sub by (auto simp: list_all_iff)
    ultimately show ?thesis using node_moved(2) [of page_eight off "length bs" bs 0 True] by simp
  qed
  then show ?thesis by (auto simp: list_all_iff)
qed

lemma page_eight_nodes: "page_nodes page_eight = map (\<lambda>(off, bs). node_at True bs 0) eight_at"
proof -
  have "node_at True page_eight off = node_at True bs 0" if "(off, bs) \<in> set eight_at" for off bs
  proof -
    have "n_size True bs 0 = length bs" using that by (auto simp: eight_at_def node_of_bytes node_lengths)
    moreover have "sub page_eight off (length bs) = sub bs 0 (length bs)"
      using that page_eight_sub by (auto simp: list_all_iff)
    ultimately show ?thesis using node_moved(1) [of page_eight off "length bs" bs 0 True] by simp
  qed
  then have "map (node_at True page_eight) (map fst eight_at) = map (\<lambda>(off, bs). node_at True bs 0) eight_at" by auto
  then show ?thesis
    unfolding page_eight_ptrs [symmetric] by (simp add: page_nodes_def page_eight_hdr o_def)
qed

lemma page_eight_wf: "page_wf page_eight"
proof -
  have l: "[0..<8] = [0, Suc 0, 2, 3, 4, 5, 6, 7 :: nat]" by (simp add: upt_rec numeral_eq_Suc)
  have all: "(\<forall>i < 8. P i) \<longleftrightarrow> list_all P [0..<8]" for P :: "nat \<Rightarrow> bool" by (auto simp: list_all_iff)
  have p: "pg_ptr page_eight 0 = 32" "pg_ptr page_eight (Suc 0) = 346" "pg_ptr page_eight 2 = 660" "pg_ptr page_eight 3 = 974"
    "pg_ptr page_eight 4 = 984" "pg_ptr page_eight 5 = 994" "pg_ptr page_eight 6 = 1004" "pg_ptr page_eight 7 = 1014"
    using page_eight_ptrs unfolding l by (simp_all add: eight_at_def)
  have z: "n_size True page_eight 32 = 314" "n_size True page_eight 346 = 314" "n_size True page_eight 660 = 314"
    "n_size True page_eight 974 = 10" "n_size True page_eight 984 = 10" "n_size True page_eight 994 = 10"
    "n_size True page_eight 1004 = 10" "n_size True page_eight 1014 = 10"
    using page_eight_size by (simp_all add: eight_at_def node_lengths)
  show ?thesis
    unfolding page_wf_def sum_upt page_eight_hdr all
    by (simp add: l page_eight_hdr p z F_ISSET_def P_LEAF2_def)
qed

definition new_small :: new_node where
  "new_small = \<lparr>nn_index = 0, nn_key = [96], nn_data = Some \<lparr>mv_size = 51, mv_data = replicate 51 1\<rparr>, nn_pgno = 0, nn_flags = 0\<rparr>"

definition bare_1024 :: page where
  "bare_1024 = [9, 0, 0, 0, 0, 0, 0, 0, 0, 0, 2, 0, 16, 0, 0, 4] @ replicate 1008 0"

lemma none_or: "(0 :: u32) OR TXN_ERROR = TXN_ERROR"
  by simp

theorem mdb_page_split_unchecked_fails_witness:
  "\<exists>copy rp' ki' sep. split_prepare env_1024 (Some bare_1024) page_eight new_small = Some (Inr (copy, 4, sep))
     \<and> split_move env_1024 (\<lambda>_. Inl 12) page_eight bare_1024 new_small copy 4 db_sample 0 0
       = Some (MDB_PAGE_FULL, rp', page_eight, db_sample, TXN_ERROR, None, ki')"
proof -
  have d: "new_decoded True new_small = \<lparr>nd_flags = 0, nd_key = [96], nd_word = 51, nd_data = replicate 51 1\<rparr>"
    by (simp add: new_decoded_def new_small_def leaf_node_def F_ISSET_def F_BIGDATA_def)
  have e: "entry (new_decoded True new_small) = 62"
    by (simp add: d entry_def node_bytes_def EVEN_def)
  have l: "map entry (split_list page_eight new_small) = [62, 316, 316, 316, 12, 12, 12, 12, 12]"
    using e page_eight_hdr
    by (simp add: split_list_def inserted_def page_eight_nodes eight_at_def node_of_bytes)
      (simp add: new_small_def entry_def node_bytes_def EVEN_def)
  have "page_ok env_1024 page_eight"
    by (simp add: page_ok_def page_eight_wf page_eight_hdr page_eight_nodes eight_at_def node_of_bytes node_ok_def env_1024_def)
  moreover have "split_env_ok env_1024" by (simp add: split_env_ok_def env_1024_def)
  moreover have "new_ok env_1024 page_eight new_small"
    using d page_eight_hdr
    by (simp add: new_ok_def node_ok_def env_1024_def)
      (simp add: new_small_def data_ready_def F_ISSET_def F_BIGDATA_def MDB_RESERVE_def)
  moreover have "0 < pg_cnt page_eight" "length bare_1024 = me_psize env_1024" "4 = (pg_cnt page_eight + 1) div 2"
    by (simp_all add: page_eight_hdr bare_1024_def env_1024_def)
  moreover have h: "length bare_1024 = 1024" "pg_lower bare_1024 = 16" "pg_upper bare_1024 = 1024" "pg_flags bare_1024 = 2"
    by (simp_all add: bare_1024_def pg_lower_def pg_upper_def pg_flags_def le_at_nth)
  then have "page_wf bare_1024" "page_nodes bare_1024 = []"
    by (intro page_wf_bare; simp add: F_ISSET_def P_LEAF2_def)+
  then have "page_like page_eight env_1024 bare_1024" "page_nodes bare_1024 = []"
    by (simp_all add: page_like_def h page_eight_hdr env_1024_def)
  moreover have "\<not> split_checked env_1024 (pg_cnt page_eight) (nn_index new_small) (entry (new_decoded True new_small))"
    by (simp add: e page_eight_hdr split_checked_def env_1024_def PAGEHDRSZ_def) (simp add: new_small_def)
  moreover have "fits env_1024 (drop 4 (split_list page_eight new_small))" "(3 :: nat) < 4"
    "sum_list (map entry (take 3 (split_list page_eight new_small))) + 18 \<le> me_psize env_1024"
    "me_psize env_1024 < sum_list (map entry (take (Suc 3) (split_list page_eight new_small))) + 16"
    by (simp_all add: fits_def l env_1024_def flip: take_map drop_map)
  ultimately show ?thesis
    using mdb_page_split_unchecked_fails [of env_1024 page_eight new_small bare_1024 bare_1024 4 3 "\<lambda>_. Inl 12" db_sample 0 0]
      page_eight_hdr(6)
    unfolding none_or by blast
qed

end
