(* ===== verification/Mdb_Leaf2.thy ===== *)
theory Mdb_Leaf2
  imports Mdb_Node
begin

text \<open>
  \<open>lmdb/mdb.c\<close>: the pages of \<open>MDB_DUPFIXED\<close> databases (\<open>P_LEAF2\<close>), which hold keys of one size side by side, without
  nodes and pointers; \<open>mp_lower\<close> and \<open>mp_upper\<close> still count them. Adding and deleting a key are in \<open>Mdb_Node\<close>; here is
  the branch of \<open>mdb_page_split\<close> for these pages, and the proofs that the three operations insert in, delete from and
  divide the list of keys.
\<close>

unbundle bit_operations_syntax

section \<open>Splitting\<close>

text \<open>\<open>+=\<close> and \<open>-=\<close> on an \<open>indx_t\<close> of the header.\<close>

definition indx_plus :: "page \<Rightarrow> nat \<Rightarrow> int \<Rightarrow> page option" where
  "indx_plus p k d = do { x \<leftarrow> ld 2 p k; st 2 p k (nat ((int x + d) mod 2 ^ 16)) }"

definition leaf2_split ::
  "page \<Rightarrow> page \<Rightarrow> nat \<Rightarrow> nat \<Rightarrow> mval \<Rightarrow> nat \<Rightarrow> (mval \<times> page \<times> page \<times> nat) option" where
  "leaf2_split mp rp ki ksize key split_indx =
     do { nkeys \<leftarrow> NUMKEYS mp;
          let split = LEAF2KEY split_indx ksize;
          let rsize = (nkeys - split_indx) * ksize;
          let lsize = (nkeys - split_indx) * 2;
          mp \<leftarrow> indx_plus mp 12 (- int lsize);
          rp \<leftarrow> indx_plus rp 12 (int lsize);
          mp \<leftarrow> indx_plus mp 14 (int rsize - int lsize);
          rp \<leftarrow> indx_plus rp 14 (int lsize - int rsize);
          k \<leftarrow> get_bytes key 0 ksize;
          if ki < split_indx
          then do { bs \<leftarrow> get_bytes mp split rsize;
                    rp \<leftarrow> put_bytes rp PAGEHDRSZ bs;
                    sep \<leftarrow> get_bytes rp PAGEHDRSZ ksize;
                    let ins = LEAF2KEY ki ksize;
                    mp \<leftarrow> move_bytes mp (ins + ksize) ins ((split_indx - ki) * ksize);
                    mp \<leftarrow> put_bytes mp ins k;
                    mp \<leftarrow> indx_plus mp 12 2;
                    mp \<leftarrow> indx_plus mp 14 (2 - int ksize);
                    Some (sep, mp, rp, ki) }
          else do { let x = ki - split_indx;
                    sep \<leftarrow> (if ki = split_indx then Some k else get_bytes mp split ksize);
                    rp \<leftarrow> (if x \<noteq> 0 then do { bs \<leftarrow> get_bytes mp split (x * ksize); put_bytes rp PAGEHDRSZ bs } else Some rp);
                    let ins = LEAF2KEY x ksize;
                    rp \<leftarrow> put_bytes rp ins k;
                    bs \<leftarrow> get_bytes mp (split + x * ksize) (rsize - x * ksize);
                    rp \<leftarrow> put_bytes rp (ins + ksize) bs;
                    rp \<leftarrow> indx_plus rp 12 2;
                    rp \<leftarrow> indx_plus rp 14 (2 - int ksize);
                    Some (sep, mp, rp, x) } }"

section \<open>The keys of a page\<close>

text \<open>From the header on the page has the keys \<open>xs\<close>, of \<open>ks\<close> bytes each.\<close>

definition body :: "nat \<Rightarrow> mval list \<Rightarrow> page \<Rightarrow> bool" where
  "body ks xs p \<longleftrightarrow> (\<forall>x \<in> set xs. length x = ks) \<and> 16 + length xs * ks \<le> length p \<and> sub p 16 (length xs * ks) = concat xs"

text \<open>A page that holds the keys \<open>xs\<close>: its bounds count them, and their difference is the free space.\<close>

definition holds_keys :: "nat \<Rightarrow> mval list \<Rightarrow> page \<Rightarrow> bool" where
  "holds_keys ks xs p \<longleftrightarrow> body ks xs p \<and> 0 < ks \<and> length p \<le> 2 ^ 15 \<and> pg_lower p = 16 + 2 * length xs
     \<and> pg_upper p + length xs * ks = length p + 2 * length xs"

lemma length_concat_keys: "(\<forall>x \<in> set xs. length x = ks) \<Longrightarrow> length (concat xs) = length xs * ks"
  by (induction xs) simp_all

lemma take_concat: "(\<forall>x \<in> set xs. length x = ks) \<Longrightarrow> take (a * ks) (concat xs) = concat (take a xs)"
proof (induction xs arbitrary: a)
  case (Cons x xs)
  then show ?case by (cases a) simp_all
qed simp

lemma drop_concat: "(\<forall>x \<in> set xs. length x = ks) \<Longrightarrow> drop (a * ks) (concat xs) = concat (drop a xs)"
proof (induction xs arbitrary: a)
  case (Cons x xs)
  then show ?case by (cases a) simp_all
qed simp

lemma body_read:
  assumes "body ks xs p" "a + m \<le> length xs"
  shows "sub p (16 + a * ks) (m * ks) = concat (take m (drop a xs))"
proof -
  have "a * ks + m * ks \<le> length xs * ks" using mult_le_mono1 [OF assms(2), of ks] by (simp add: add_mult_distrib)
  then have "sub p (16 + a * ks) (m * ks) = sub (sub p 16 (length xs * ks)) (a * ks) (m * ks)" by (simp add: sub_sub)
  also have "\<dots> = concat (take m (drop a xs))"
    using assms(1) by (simp add: body_def sub_def [of "concat xs"] drop_concat)
      (subst take_concat, auto dest: in_set_dropD)
  finally show ?thesis .
qed

lemma body_get:
  assumes "body ks xs p" "a + m \<le> length xs"
  shows "get_bytes p (16 + a * ks) (m * ks) = Some (concat (take m (drop a xs)))"
proof -
  have "(a + m) * ks \<le> length xs * ks" using assms(2) by (intro mult_le_mono1)
  then have "16 + a * ks + m * ks \<le> length p" using assms(1) by (simp add: body_def add_mult_distrib)
  then show ?thesis using body_read [OF assms] by (simp add: get_bytes_def sub_def)
qed

lemma body_blit:
  assumes p: "body ks xs p" and ys: "\<forall>y \<in> set ys. length y = ks" and a: "a \<le> length xs"
    and fit: "16 + (a + length ys) * ks \<le> length p"
  shows "body ks (take a xs @ ys @ drop (a + length ys) xs) (blit p (16 + a * ks) (concat ys))"
proof -
  let ?n = "length xs" and ?m = "length ys" and ?q = "blit p (16 + a * ks) (concat ys)"
  have l: "length (concat ys) = ?m * ks" by (rule length_concat_keys [OF ys])
  have len: "length ?q = length p" using fit l by (simp add: add_mult_distrib)
  have n: "length (take a xs @ ys @ drop (a + ?m) xs) = a + ?m + (?n - (a + ?m))" using a by simp
  have left: "sub ?q 16 (a * ks) = concat (take a xs)"
    using fit l body_read [OF p, of 0 a] a by (simp add: region_simps add_mult_distrib)
  have mid: "sub ?q (16 + a * ks) (?m * ks) = concat ys" using fit l by (simp add: sub_blit_same add_mult_distrib)
  have right: "sub ?q (16 + (a + ?m) * ks) ((?n - (a + ?m)) * ks) = concat (drop (a + ?m) xs)"
  proof (cases "a + ?m \<le> ?n")
    case True
    then have "sub p (16 + (a + ?m) * ks) ((?n - (a + ?m)) * ks) = concat (drop (a + ?m) xs)"
      using body_read [OF p, of "a + ?m" "?n - (a + ?m)"] by simp
    then show ?thesis using fit l by (simp add: region_simps add_mult_distrib add.assoc)
  next
    case False
    then show ?thesis by (simp add: sub_def)
  qed
  have "sub ?q 16 ((a + ?m + (?n - (a + ?m))) * ks)
      = sub ?q 16 (a * ks) @ sub ?q (16 + a * ks) (?m * ks) @ sub ?q (16 + (a + ?m) * ks) ((?n - (a + ?m)) * ks)"
    by (simp add: add_mult_distrib sub_split add.assoc)
  then have "sub ?q 16 (length (take a xs @ ys @ drop (a + ?m) xs) * ks) = concat (take a xs @ ys @ drop (a + ?m) xs)"
    unfolding n left mid right by simp
  moreover have "16 + length (take a xs @ ys @ drop (a + ?m) xs) * ks \<le> length ?q"
  proof (cases "a + ?m \<le> ?n")
    case True
    then show ?thesis unfolding n len using p by (simp add: body_def)
  next
    case False
    then show ?thesis unfolding n len using fit by simp
  qed
  moreover have "\<forall>x \<in> set (take a xs @ ys @ drop (a + ?m) xs). length x = ks"
    using p ys by (auto simp: body_def dest: in_set_takeD in_set_dropD)
  ultimately show ?thesis by (simp add: body_def)
qed

lemma body_put:
  assumes "body ks xs p" "\<forall>y \<in> set ys. length y = ks" "a \<le> length xs" "16 + (a + length ys) * ks \<le> length p"
  obtains q where "put_bytes p (16 + a * ks) (concat ys) = Some q" "length q = length p"
    "body ks (take a xs @ ys @ drop (a + length ys) xs) q" "sub q 0 16 = sub p 0 16"
proof -
  have l: "length (concat ys) = length ys * ks" by (rule length_concat_keys [OF assms(2)])
  have "put_bytes p (16 + a * ks) (concat ys) = Some (blit p (16 + a * ks) (concat ys))"
    using assms(4) l by (simp add: put_bytes_def add_mult_distrib)
  then show ?thesis
    using that body_blit [OF assms] assms(4) l by (simp add: region_simps add_mult_distrib)
qed

lemma body_take: "body ks xs p \<Longrightarrow> body ks (take n xs) p"
proof -
  assume b: "body ks xs p"
  have "min (length xs) n * ks \<le> length xs * ks" by (intro mult_le_mono1) simp
  then have "16 + min (length xs) n * ks \<le> length p" using b unfolding body_def by linarith
  moreover have "sub p 16 (min (length xs) n * ks) = concat (take n xs)"
    using body_read [OF b, of 0 "min (length xs) n"] by (simp add: min_def)
  ultimately show ?thesis using b by (auto simp: body_def dest: in_set_takeD)
qed

text \<open>The header of a page, and changing its bounds.\<close>

lemma hdr_of_sub:
  assumes "sub q 0 16 = sub p 0 16"
  shows "pg_lower q = pg_lower p" "pg_upper q = pg_upper p" "pg_cnt q = pg_cnt p"
  using sub_sub [of 12 2 16 q 0] sub_sub [of 12 2 16 p 0] sub_sub [of 14 2 16 q 0] sub_sub [of 14 2 16 p 0] assms
  by (simp_all add: pg_lower_def pg_upper_def pg_cnt_def le_at_def)

lemma lower_st:
  assumes "16 \<le> length p" "v < 2 ^ 16"
  obtains q where "st 2 p 12 v = Some q" "length q = length p" "pg_lower q = v" "pg_upper q = pg_upper p"
    "\<And>ks xs. body ks xs p \<Longrightarrow> body ks xs q"
proof -
  have "st 2 p 12 v = Some (blit p 12 (le_bytes 2 v))" using assms(1) by (simp add: st_def)
  then show ?thesis
    by (rule that) (use assms in \<open>simp_all add: pg_lower_def pg_upper_def body_def region_simps\<close>)
qed

lemma upper_st:
  assumes "16 \<le> length p" "v < 2 ^ 16"
  obtains q where "st 2 p 14 v = Some q" "length q = length p" "pg_lower q = pg_lower p" "pg_upper q = v"
    "\<And>ks xs. body ks xs p \<Longrightarrow> body ks xs q"
proof -
  have "st 2 p 14 v = Some (blit p 14 (le_bytes 2 v))" using assms(1) by (simp add: st_def)
  then show ?thesis
    by (rule that) (use assms in \<open>simp_all add: pg_lower_def pg_upper_def body_def region_simps\<close>)
qed

lemma indx_plus_st:
  "16 \<le> length p \<Longrightarrow> int (pg_lower p) + d = int v \<Longrightarrow> v < 2 ^ 16 \<Longrightarrow> indx_plus p 12 d = st 2 p 12 v"
  "16 \<le> length p \<Longrightarrow> int (pg_upper p) + d = int v \<Longrightarrow> v < 2 ^ 16 \<Longrightarrow> indx_plus p 14 d = st 2 p 14 v"
  by (simp_all add: indx_plus_def ld_le_at flip: pg_lower_def pg_upper_def)

lemma holds_keysD:
  assumes "holds_keys ks xs p"
  shows "body ks xs p" "0 < ks" "length p \<le> 2 ^ 15" "16 \<le> length p" "16 + length xs * ks \<le> length p" "length xs + 16 \<le> length p"
    "pg_lower p = 16 + 2 * length xs" "pg_upper p + length xs * ks = length p + 2 * length xs" "pg_cnt p = length xs"
    "NUMKEYS p = Some (length xs)" "MP_LOWER p = Some (pg_lower p)" "MP_UPPER p = Some (pg_upper p)"
    "\<And>x. x \<in> set xs \<Longrightarrow> length x = ks"
proof -
  show a: "body ks xs p" "0 < ks" "length p \<le> 2 ^ 15" "16 + length xs * ks \<le> length p" "pg_lower p = 16 + 2 * length xs"
    "pg_upper p + length xs * ks = length p + 2 * length xs" "\<And>x. x \<in> set xs \<Longrightarrow> length x = ks"
    using assms by (simp_all add: holds_keys_def body_def)
  have "length xs * 1 \<le> length xs * ks" using a(2) by (intro mult_le_mono2) simp
  then show b: "length xs + 16 \<le> length p" using a(4) by linarith
  show c: "pg_cnt p = length xs" by (simp add: pg_cnt_eq a(5))
  show "16 \<le> length p" using b by simp
  then show "NUMKEYS p = Some (length xs)" "MP_LOWER p = Some (pg_lower p)" "MP_UPPER p = Some (pg_upper p)"
    by (simp_all add: page_hdr c)
qed

section \<open>Adding and deleting\<close>

lemma new_bounds:
  assumes "16 \<le> length p" "v < 2 ^ 16" "w < 2 ^ 16"
  obtains p1 q where "st 2 p 12 v = Some p1" "st 2 p1 14 w = Some q" "length q = length p" "pg_lower q = v" "pg_upper q = w"
    "\<And>ks xs. body ks xs p \<Longrightarrow> body ks xs q" "length p1 = length p" "pg_upper p1 = pg_upper p"
proof -
  obtain p1 where p1: "st 2 p 12 v = Some p1" "length p1 = length p" "pg_lower p1 = v" "pg_upper p1 = pg_upper p"
    "\<And>ks xs. body ks xs p \<Longrightarrow> body ks xs p1" by (rule lower_st [OF assms(1,2)]) blast
  obtain q where "st 2 p1 14 w = Some q" "length q = length p1" "pg_lower q = pg_lower p1" "pg_upper q = w"
    "\<And>ks xs. body ks xs p1 \<Longrightarrow> body ks xs q" by (rule upper_st [of p1 w]) (use assms p1(2) in simp_all)
  then show ?thesis using that p1 by simp
qed

text \<open>\<open>memmove\<close> of the keys from \<open>a\<close> on to the place \<open>b\<close>.\<close>

lemma move_keys:
  assumes "body ks xs p" "a + m \<le> length xs" "b \<le> length xs" "16 + (b + m) * ks \<le> length p"
  obtains q where "move_bytes p (LEAF2KEY b ks) (LEAF2KEY a ks) (m * ks) = Some q" "length q = length p" "sub q 0 16 = sub p 0 16"
    "body ks (take b xs @ take m (drop a xs) @ drop (b + m) xs) q"
proof -
  let ?ys = "take m (drop a xs)"
  have g: "get_bytes p (LEAF2KEY a ks) (m * ks) = Some (concat ?ys)"
    using body_get [OF assms(1,2)] by (simp add: LEAF2KEY_def PAGEHDRSZ_def)
  have ys: "\<forall>y \<in> set ?ys. length y = ks" using assms(1) by (auto simp: body_def dest: in_set_takeD in_set_dropD)
  have l: "length ?ys = m" using assms(2) by simp
  obtain q where "put_bytes p (16 + b * ks) (concat ?ys) = Some q" "length q = length p" "sub q 0 16 = sub p 0 16"
    "body ks (take b xs @ ?ys @ drop (b + m) xs) q"
    using body_put [OF assms(1) ys assms(3), unfolded l, OF assms(4)] by blast
  then show ?thesis using that g by (simp add: move_bytes_def LEAF2KEY_def PAGEHDRSZ_def)
qed

lemma put_key:
  assumes "body ks xs p" "length k = ks" "a \<le> length xs" "16 + (a + 1) * ks \<le> length p"
  obtains q where "put_bytes p (LEAF2KEY a ks) k = Some q" "length q = length p" "sub q 0 16 = sub p 0 16"
    "body ks (take a xs @ k # drop (a + 1) xs) q"
  using body_put [OF assms(1) _ assms(3), of "[k]"] assms(2,4) by (auto simp: LEAF2KEY_def PAGEHDRSZ_def)

text \<open>A key is put before the others from \<open>a\<close> up to \<open>n\<close>.\<close>

lemma insert_key:
  assumes "body ks xs p" "length k = ks" "a \<le> n" "n \<le> length xs" "16 + (n + 1) * ks \<le> length p"
  obtains p1 q where "move_bytes p (LEAF2KEY a ks + ks) (LEAF2KEY a ks) ((n - a) * ks) = Some p1" "put_bytes p1 (LEAF2KEY a ks) k = Some q"
    "length q = length p" "sub q 0 16 = sub p 0 16" "body ks (take a xs @ k # take (n - a) (drop a xs)) q"
proof -
  have e: "LEAF2KEY (a + 1) ks = LEAF2KEY a ks + ks" by (simp add: LEAF2KEY_def)
  have fit: "16 + (a + 1) * ks \<le> length p"
    using assms(5) mult_le_mono1 [of "a + 1" "n + 1" ks] assms(3) by linarith
  show ?thesis
  proof (cases "a = n")
    case True
    have "move_bytes p (LEAF2KEY a ks + ks) (LEAF2KEY a ks) 0 = Some p"
      using fit by (simp add: move_bytes_def get_bytes_def put_bytes_def LEAF2KEY_def PAGEHDRSZ_def)
    moreover obtain q where "put_bytes p (LEAF2KEY a ks) k = Some q" "length q = length p" "sub q 0 16 = sub p 0 16"
      "body ks (take a xs @ k # drop (a + 1) xs) q" using put_key [OF assms(1,2) _ fit] assms(3,4) by auto
    moreover from this(4) have "body ks (take (a + 1) (take a xs @ k # drop (a + 1) xs)) q" by (rule body_take)
    ultimately show ?thesis using that True assms(4) by simp
  next
    case False
    let ?ys = "take (n - a) (drop a xs)"
    have 1: "a + (n - a) \<le> length xs" "a + 1 \<le> length xs" "16 + (a + 1 + (n - a)) * ks \<le> length p"
      using False assms(3-5) by (simp_all add: add.commute)
    obtain p1 where p1: "move_bytes p (LEAF2KEY a ks + ks) (LEAF2KEY a ks) ((n - a) * ks) = Some p1" "length p1 = length p"
      "sub p1 0 16 = sub p 0 16" "body ks (take (a + 1) xs @ ?ys @ drop (a + 1 + (n - a)) xs) p1"
      using move_keys [OF assms(1) 1] unfolding e by blast
    have b: "body ks (take (a + 1) xs @ ?ys) p1"
      using body_take [OF p1(4), of "a + 1 + (n - a)"] 1 False assms(3,4) by simp
    define zs where "zs = take (a + 1) xs @ ?ys"
    have z: "take a zs = take a xs" "drop (a + 1) zs = ?ys" "a \<le> length zs"
      unfolding zs_def using 1 by (simp_all add: min_def)
    have fit1: "16 + (a + 1) * ks \<le> length p1" using fit p1(2) by simp
    obtain q where q: "put_bytes p1 (LEAF2KEY a ks) k = Some q" "length q = length p1" "sub q 0 16 = sub p1 0 16"
      "body ks (take a zs @ k # drop (a + 1) zs) q"
      by (rule put_key [OF b [folded zs_def] assms(2) z(3) fit1])
    show ?thesis by (rule that [OF p1(1) q(1)]) (use q(2-4) p1(2,3) in \<open>simp_all only: z(1,2)\<close>)
  qed
qed

lemma upper_bound: "holds_keys ks xs p \<Longrightarrow> pg_upper p < 2 ^ 16 - 2"
proof -
  assume p: "holds_keys ks xs p"
  note d = holds_keysD [OF p]
  have "length xs * 1 \<le> length xs * ks" using d(2) by (intro mult_le_mono2) simp
  then have "pg_upper p \<le> length p + length xs" using d(8) by linarith
  then show ?thesis using d(3,6) by simp
qed

lemma leaf2_add_spec:
  assumes p: "holds_keys ks xs p" and i: "indx \<le> length xs" and k: "ks \<le> length key"
    and fit: "16 + (length xs + 1) * ks \<le> length p"
  obtains q where "leaf2_add p indx ks key = Some q" "holds_keys ks (take indx xs @ take ks key # drop indx xs) q"
    "length q = length p"
proof -
  note d = holds_keysD [OF p]
  let ?k = "take ks key"
  have k': "length ?k = ks" using k by simp
  obtain p1 p2 where p2: "move_bytes p (LEAF2KEY indx ks + ks) (LEAF2KEY indx ks) ((length xs - indx) * ks) = Some p1"
    "put_bytes p1 (LEAF2KEY indx ks) ?k = Some p2" "length p2 = length p" "sub p2 0 16 = sub p 0 16"
    "body ks (take indx xs @ ?k # drop indx xs) p2"
    using insert_key [OF d(1) k' i order_refl fit] by auto
  have skip: "(if indx < length xs then move_bytes p (LEAF2KEY indx ks + ks) (LEAF2KEY indx ks) ((length xs - indx) * ks) else Some p) = Some p1"
  proof (cases "indx = length xs")
    case True
    have "16 + length xs * ks + ks \<le> length p" using fit by simp
    then have "move_bytes p (LEAF2KEY indx ks + ks) (LEAF2KEY indx ks) 0 = Some p"
      using True by (simp add: move_bytes_def get_bytes_def put_bytes_def LEAF2KEY_def PAGEHDRSZ_def)
    then show ?thesis using True p2(1) by simp
  qed (use i p2(1) in simp)
  have h: "MP_LOWER p2 = Some (pg_lower p)" "MP_UPPER p2 = Some (pg_upper p)" "16 \<le> length p2"
    using d(4) p2(3) hdr_of_sub [OF p2(4)] by (simp_all add: page_hdr)
  have up: "ks \<le> pg_upper p + 2" "pg_upper p + 2 - ks < 2 ^ 16" "pg_lower p + 2 < 2 ^ 16"
    using fit d(3,6,7,8) upper_bound [OF p] by simp_all
  then have ks: "indx_sub (pg_upper p + 2) ks = pg_upper p + 2 - ks"
    by (simp add: indx_sub_def of_nat_diff [symmetric] del: of_nat_diff)
  obtain p3 q where q: "st 2 p2 12 (pg_lower p + 2) = Some p3" "st 2 p3 14 (pg_upper p + 2 - ks) = Some q"
    "length q = length p2" "pg_lower q = pg_lower p + 2" "pg_upper q = pg_upper p + 2 - ks" "\<And>ks xs. body ks xs p2 \<Longrightarrow> body ks xs q"
    by (rule new_bounds [OF h(3) up(3,2)]) blast
  have "leaf2_add p indx ks key = Some q"
    using skip p2(2) q(1,2) h ks k d(10) by (simp add: leaf2_add_def Let_def get_bytes_def)
  moreover have "holds_keys ks (take indx xs @ ?k # drop indx xs) q"
    unfolding holds_keys_def using q(3-6) p2(3,5) d(2,3,7,8) up(1) i by simp
  ultimately show ?thesis using that q(3) p2(3) by simp
qed

lemma leaf2_del_spec:
  assumes p: "holds_keys ks xs p" and i: "indx < length xs" and up: "2 \<le> pg_upper p + ks" 
  obtains q where "leaf2_del p indx ks = Some q" "holds_keys ks (take indx xs @ drop (indx + 1) xs) q" "length q = length p"
proof -
  note d = holds_keysD [OF p]
  let ?x = "length xs - 1 - indx"
  have fit: "16 + (indx + ?x) * ks \<le> length p"
    using d(5) mult_le_mono1 [of "indx + ?x" "length xs" ks] i by linarith
  obtain p1 where p1: "move_bytes p (LEAF2KEY indx ks) (LEAF2KEY (indx + 1) ks) (?x * ks) = Some p1" "length p1 = length p"
    "sub p1 0 16 = sub p 0 16" "body ks (take indx xs @ take ?x (drop (indx + 1) xs) @ drop (indx + ?x) xs) p1"
    by (rule move_keys [OF d(1) _ _ fit, of "indx + 1"]) (use i in auto)
  have b: "body ks (take indx xs @ drop (indx + 1) xs) p1"
    using body_take [OF p1(4), of "length xs - 1"] i by simp
  have e: "LEAF2KEY (indx + 1) ks = LEAF2KEY indx ks + ks" by (simp add: LEAF2KEY_def)
  have skip: "\<exists>p1. (if ?x \<noteq> 0 then move_bytes p (LEAF2KEY indx ks) (LEAF2KEY indx ks + ks) (?x * ks) else Some p) = Some p1
      \<and> length p1 = length p \<and> sub p1 0 16 = sub p 0 16 \<and> body ks (take indx xs @ drop (indx + 1) xs) p1"
  proof (cases "?x = 0")
    case True
    then have "indx = length xs - 1" using i by simp
    then have "take indx xs @ drop (indx + 1) xs = take (length xs - 1) xs" using i by simp
    then show ?thesis using True body_take [OF d(1)] by simp
  qed (use p1 b e in simp)
  then obtain p2 where p2: "(if ?x \<noteq> 0 then move_bytes p (LEAF2KEY indx ks) (LEAF2KEY indx ks + ks) (?x * ks) else Some p) = Some p2"
    "length p2 = length p" "sub p2 0 16 = sub p 0 16" "body ks (take indx xs @ drop (indx + 1) xs) p2" by blast
  have h: "MP_LOWER p = Some (pg_lower p)" "MP_UPPER p = Some (pg_upper p)" "16 \<le> length p2"
    "MP_LOWER p2 = Some (pg_lower p)" "MP_UPPER p2 = Some (pg_upper p)"
    using d(4) p2(2) hdr_of_sub [OF p2(3)] by (simp_all add: page_hdr)
  have lo: "indx_sub (pg_lower p) 2 = pg_lower p - 2" "pg_lower p - 2 < 2 ^ 16" "2 \<le> pg_lower p"
    using d(3,6,7) by (simp_all add: indx_sub_eq)
  have "(length xs - 1) * 1 \<le> (length xs - 1) * ks" using d(2) by (intro mult_le_mono2) simp
  moreover have "length xs * ks = (length xs - 1) * ks + ks" using i by (cases xs) simp_all
  ultimately have "pg_upper p + ks \<le> length p + length xs + 1" using d(8) i by linarith
  then have w: "pg_upper p + ks - 2 < 2 ^ 16" using d(3,6) by simp
  then have ks: "indx_sub (pg_upper p + ks) 2 = pg_upper p + ks - 2"
    using up by (simp add: indx_sub_def of_nat_diff [symmetric] del: of_nat_diff)
  obtain p3 q where q: "st 2 p2 12 (pg_lower p - 2) = Some p3" "st 2 p3 14 (pg_upper p + ks - 2) = Some q"
    "length q = length p2" "pg_lower q = pg_lower p - 2" "pg_upper q = pg_upper p + ks - 2" "\<And>ks xs. body ks xs p2 \<Longrightarrow> body ks xs q"
    by (rule new_bounds [OF h(3) lo(2) w]) blast
  have "leaf2_del p indx ks = Some q"
    unfolding leaf2_del_def Let_def d(10) Option.bind.bind_lunit p2(1) h lo(1) q(1) ks by (rule q(2))
  moreover have "holds_keys ks (take indx xs @ drop (indx + 1) xs) q"
  proof -
    obtain n where n: "length xs = Suc n" using i by (cases "length xs") simp_all
    show ?thesis unfolding holds_keys_def using q(3-6) p2(2,4) d(2,3,7,8) up i by (simp add: n)
  qed
  ultimately show ?thesis using that q(3) p2(2) by simp
qed


section \<open>Splitting, as a whole\<close>

lemma plus_bounds:
  assumes "16 \<le> length p" "int (pg_lower p) + d = int v" "int (pg_upper p) + e = int w" "v < 2 ^ 16" "w < 2 ^ 16"
  obtains p1 q where "indx_plus p 12 d = Some p1" "indx_plus p1 14 e = Some q" "length q = length p" "pg_lower q = v" "pg_upper q = w"
    "\<And>ks xs. body ks xs p \<Longrightarrow> body ks xs q"
proof -
  obtain p1 q where q: "st 2 p 12 v = Some p1" "st 2 p1 14 w = Some q" "length q = length p" "pg_lower q = v" "pg_upper q = w"
    "\<And>ks xs. body ks xs p \<Longrightarrow> body ks xs q" "length p1 = length p" "pg_upper p1 = pg_upper p"
    by (rule new_bounds [OF assms(1,4,5)]) blast
  have "indx_plus p 12 d = Some p1" using indx_plus_st(1) [OF assms(1,2,4)] q(1) by simp
  moreover have "indx_plus p1 14 e = Some q" using indx_plus_st(2) [of p1 e w] assms(1,3,5) q(2,7,8) by simp
  ultimately show ?thesis using that q by blast
qed

text \<open>A page whose bounds count \<open>n\<close> keys.\<close>

definition counts :: "nat \<Rightarrow> nat \<Rightarrow> page \<Rightarrow> bool" where
  "counts ks n p \<longleftrightarrow> pg_lower p = 16 + 2 * n \<and> pg_upper p + n * ks = length p + 2 * n"

lemma recount:
  assumes "counts ks a p" "0 < ks" "16 + b * ks \<le> length p" "length p \<le> 2 ^ 15" "body ks xs p"
    and "d = 2 * int b - 2 * int a" "e = int a * int ks - int b * int ks + d"
  obtains p1 q where "indx_plus p 12 d = Some p1" "indx_plus p1 14 e = Some q" "length q = length p" "counts ks b q"
    "body ks xs q"
proof -
  have b: "b * 1 \<le> b * ks" using assms(2) by (intro mult_le_mono2) simp
  define w where "w = length p + 2 * b - b * ks"
  have c: "pg_lower p = 16 + 2 * a" "pg_upper p + a * ks = length p + 2 * a" using assms(1) by (simp_all add: counts_def)
  have iw: "int w = int (length p) + 2 * int b - int b * int ks" using assms(3) by (simp add: w_def of_nat_diff)
  have "int (pg_upper p) = int (length p) + 2 * int a - int a * int ks"
    using arg_cong [OF c(2), of int] by simp
  then have up: "int (pg_upper p) + e = int w" using assms(6,7) iw by simp
  have lo: "int (pg_lower p) + d = int (16 + 2 * b)" using c(1) assms(6) by simp
  have "w \<le> length p + b" "b + 16 \<le> length p" unfolding w_def using b assms(3) by linarith+
  then have bounds: "16 + 2 * b < 2 ^ 16" "w < 2 ^ 16" using assms(4) by simp_all
  have l16: "16 \<le> length p" using assms(3) by simp
  have "w + b * ks = length p + 2 * b" using assms(3) by (simp add: w_def)
  then show ?thesis
    using plus_bounds [OF l16 lo up bounds] that assms(5) by (metis counts_def)
qed

lemma count_one:
  assumes "counts ks a p" "0 < ks" "16 + (a + 1) * ks \<le> length p" "length p \<le> 2 ^ 15" "body ks xs p"
  obtains p1 q where "indx_plus p 12 2 = Some p1" "indx_plus p1 14 (2 - int ks) = Some q" "length q = length p"
    "counts ks (a + 1) q" "body ks xs q"
  by (rule recount [OF assms, of 2 "2 - int ks"]) (simp_all add: algebra_simps)

lemma holds_counts: "holds_keys ks xs p \<longleftrightarrow> body ks xs p \<and> 0 < ks \<and> length p \<le> 2 ^ 15 \<and> counts ks (length xs) p"
  by (auto simp: holds_keys_def counts_def)

lemma leaf2_left:
  assumes mp: "body ks xs mp" "length mp = n" and rp: "body ks [] rp" "length rp = n"
    and s: "ki < s" "s < length xs" and k: "length k = ks" and ks: "0 < ks" "n \<le> 2 ^ 15"
    and c: "counts ks s mp" "counts ks (length xs - s) rp"
  shows "\<exists>mp' rp'. do { bs \<leftarrow> get_bytes mp (LEAF2KEY s ks) ((length xs - s) * ks);
        rp \<leftarrow> put_bytes rp PAGEHDRSZ bs;
        sep \<leftarrow> get_bytes rp PAGEHDRSZ ks;
        mp \<leftarrow> move_bytes mp (LEAF2KEY ki ks + ks) (LEAF2KEY ki ks) ((s - ki) * ks);
        mp \<leftarrow> put_bytes mp (LEAF2KEY ki ks) k;
        mp \<leftarrow> indx_plus mp 12 2;
        mp \<leftarrow> indx_plus mp 14 (2 - int ks);
        Some (sep, mp, rp, ki) } = Some (xs ! s, mp', rp', ki)
      \<and> holds_keys ks (take ki xs @ k # take (s - ki) (drop ki xs)) mp' \<and> holds_keys ks (drop s xs) rp'
      \<and> length mp' = n \<and> length rp' = n"
proof -
  have bx: "\<forall>x \<in> set (drop s xs). length x = ks" using mp(1) by (auto simp: body_def dest: in_set_dropD)
  have fit: "16 + length xs * ks \<le> n" using mp by (simp add: body_def)
  have "(length xs - s) * ks \<le> length xs * ks" "(s + 1) * ks \<le> length xs * ks" using s by (intro mult_le_mono1; simp)+
  then have "16 + (length xs - s) * ks \<le> n" "16 + (s + 1) * ks \<le> n" using fit by linarith+
  then have fits: "16 + (0 + length (drop s xs)) * ks \<le> length rp" "16 + (s + 1) * ks \<le> length mp" using rp(2) mp(2) by simp_all
  have g: "get_bytes mp (LEAF2KEY s ks) ((length xs - s) * ks) = Some (concat (drop s xs))"
    using body_get [OF mp(1), of s "length xs - s"] s by (simp add: LEAF2KEY_def PAGEHDRSZ_def)
  obtain r where r: "put_bytes rp PAGEHDRSZ (concat (drop s xs)) = Some r" "length r = n" "body ks (drop s xs) r" "sub r 0 16 = sub rp 0 16"
    using body_put [OF rp(1) bx le0 fits(1)] rp(2) by (auto simp: PAGEHDRSZ_def)
  have sep: "get_bytes r PAGEHDRSZ ks = Some (xs ! s)"
    using body_get [OF r(3), of 0 1] s Cons_nth_drop_Suc [of s xs] by (simp add: PAGEHDRSZ_def) (metis append_Nil2 concat.simps take_Suc_Cons take0)
  obtain m1 m2 where m: "move_bytes mp (LEAF2KEY ki ks + ks) (LEAF2KEY ki ks) ((s - ki) * ks) = Some m1"
    "put_bytes m1 (LEAF2KEY ki ks) k = Some m2" "length m2 = n" "sub m2 0 16 = sub mp 0 16"
    "body ks (take ki xs @ k # take (s - ki) (drop ki xs)) m2"
    using insert_key [OF mp(1) k _ _ fits(2), of ki] s mp(2) by auto
  have c2: "counts ks s m2" using c(1) m(3) mp(2) hdr_of_sub [OF m(4)] by (simp add: counts_def)
  have "16 + (s + 1) * ks \<le> length m2" "length m2 \<le> 2 ^ 15" using fits(2) m(3) mp(2) ks(2) by simp_all
  then obtain m3 m4 where m4: "indx_plus m2 12 2 = Some m3" "indx_plus m3 14 (2 - int ks) = Some m4" "length m4 = length m2"
    "counts ks (s + 1) m4" "body ks (take ki xs @ k # take (s - ki) (drop ki xs)) m4"
    by (rule count_one [OF c2 ks(1) _ _ m(5)])
  have len: "length (take ki xs @ k # take (s - ki) (drop ki xs)) = s + 1" using s by simp
  have "counts ks (length (drop s xs)) r" using c(2) r(2) rp(2) hdr_of_sub [OF r(4)] by (simp add: counts_def)
  then have "holds_keys ks (drop s xs) r" using r(2,3) ks by (simp add: holds_counts)
  moreover have "holds_keys ks (take ki xs @ k # take (s - ki) (drop ki xs)) m4"
    unfolding holds_counts len using m4(3-5) m(3) ks by simp
  ultimately show ?thesis using g r(1,2) m(1-3) m4(1-3) sep by simp
qed


lemma leaf2_right:
  assumes mp: "body ks xs mp" "length mp = n" and rp: "body ks [] rp" "length rp = n"
    and s: "0 < s" "s \<le> ki" "ki \<le> length xs" "s < length xs" and k: "length k = ks" and ks: "0 < ks" "n \<le> 2 ^ 15"
    and c: "counts ks (length xs - s) rp"
  shows "\<exists>rp'. do { sep \<leftarrow> (if ki = s then Some k else get_bytes mp (LEAF2KEY s ks) ks);
        rp \<leftarrow> (if ki - s \<noteq> 0 then do { bs \<leftarrow> get_bytes mp (LEAF2KEY s ks) ((ki - s) * ks); put_bytes rp PAGEHDRSZ bs } else Some rp);
        rp \<leftarrow> put_bytes rp (LEAF2KEY (ki - s) ks) k;
        bs \<leftarrow> get_bytes mp (LEAF2KEY s ks + (ki - s) * ks) ((length xs - s) * ks - (ki - s) * ks);
        rp \<leftarrow> put_bytes rp (LEAF2KEY (ki - s) ks + ks) bs;
        rp \<leftarrow> indx_plus rp 12 2;
        rp \<leftarrow> indx_plus rp 14 (2 - int ks);
        Some (sep, mp, rp, ki - s) } = Some (if ki = s then k else xs ! s, mp, rp', ki - s)
      \<and> holds_keys ks (take (ki - s) (drop s xs) @ k # drop ki xs) rp' \<and> length rp' = n"
proof -
  let ?x = "ki - s" and ?l = "take (ki - s) (drop s xs)"
  have fit: "16 + length xs * ks \<le> n" using mp by (simp add: body_def)
  have "(length xs - s + 1) * ks \<le> length xs * ks" "(?x + 1) * ks \<le> length xs * ks" "?x * ks \<le> length xs * ks"
    using s by (intro mult_le_mono1; simp)+
  then have fits: "16 + (length xs - s + 1) * ks \<le> n" "16 + (?x + 1) * ks \<le> n" "16 + ?x * ks \<le> n" using fit by linarith+
  have bl: "\<forall>x \<in> set ?l. length x = ks" "\<forall>x \<in> set (drop ki xs). length x = ks"
    using mp(1) by (auto simp: body_def dest: in_set_takeD in_set_dropD)
  have ll: "length ?l = ?x" using s by simp
  have sep: "(if ki = s then Some k else get_bytes mp (LEAF2KEY s ks) ks) = Some (if ki = s then k else xs ! s)"
    using body_get [OF mp(1), of s 1] s Cons_nth_drop_Suc [of s xs]
    by (simp add: LEAF2KEY_def PAGEHDRSZ_def) (metis append_Nil2 concat.simps take_Suc_Cons take0)
  obtain r1 where r1: "(if ?x \<noteq> 0 then do { bs \<leftarrow> get_bytes mp (LEAF2KEY s ks) (?x * ks); put_bytes rp PAGEHDRSZ bs } else Some rp) = Some r1"
    "length r1 = n" "sub r1 0 16 = sub rp 0 16" "body ks ?l r1"
  proof (cases "?x = 0")
    case True
    then show ?thesis using that rp by simp
  next
    case False
    have "get_bytes mp (LEAF2KEY s ks) (?x * ks) = Some (concat ?l)"
      using body_get [OF mp(1), of s ?x] s by (simp add: LEAF2KEY_def PAGEHDRSZ_def)
    moreover obtain r where "put_bytes rp (16 + 0 * ks) (concat ?l) = Some r" "length r = length rp"
      "body ks (take 0 [] @ ?l @ drop (0 + length ?l) []) r" "sub r 0 16 = sub rp 0 16"
      by (rule body_put [OF rp(1) bl(1), of 0]) (use fits(3) rp(2) ll in simp_all)
    ultimately show ?thesis using that False rp(2) by (simp add: PAGEHDRSZ_def)
  qed
  obtain r2 where r2: "put_bytes r1 (LEAF2KEY ?x ks) k = Some r2" "length r2 = length r1" "sub r2 0 16 = sub r1 0 16"
    "body ks (take ?x ?l @ k # drop (?x + 1) ?l) r2"
    by (rule put_key [OF r1(4) k, of ?x]) (use fits(2) r1(2) ll in simp_all)
  have b2: "body ks (?l @ [k]) r2" using r2(4) ll by simp
  have g: "get_bytes mp (LEAF2KEY s ks + ?x * ks) ((length xs - s) * ks - ?x * ks) = Some (concat (drop ki xs))"
  proof -
    have "LEAF2KEY s ks + ?x * ks = 16 + ki * ks"
      using s(2) by (simp add: LEAF2KEY_def PAGEHDRSZ_def flip: add_mult_distrib)
    moreover have "(length xs - s) * ks - ?x * ks = (length xs - ki) * ks" using s(2) by (simp flip: diff_mult_distrib)
    ultimately show ?thesis using body_get [OF mp(1), of ki "length xs - ki"] s(3) by simp
  qed
  obtain r3 where r3: "put_bytes r2 (16 + (?x + 1) * ks) (concat (drop ki xs)) = Some r3" "length r3 = length r2"
    "body ks (take (?x + 1) (?l @ [k]) @ drop ki xs @ drop (?x + 1 + length (drop ki xs)) (?l @ [k])) r3" "sub r3 0 16 = sub r2 0 16"
    by (rule body_put [OF b2 bl(2), of "?x + 1"]) (use fits(1) r1(2) r2(2) ll s in \<open>simp_all add: algebra_simps\<close>)
  have b3: "body ks (?l @ k # drop ki xs) r3" using r3(3) ll by simp
  have "LEAF2KEY ?x ks + ks = 16 + (?x + 1) * ks" by (simp add: LEAF2KEY_def PAGEHDRSZ_def)
  then have p: "put_bytes r2 (LEAF2KEY ?x ks + ks) (concat (drop ki xs)) = Some r3" using r3(1) by metis
  have len: "length r3 = n" using r1(2) r2(2) r3(2) by simp
  have "sub r3 0 16 = sub rp 0 16" using r1(3) r2(3) r3(4) by simp
  then have c3: "counts ks (length xs - s) r3" using c len rp(2) hdr_of_sub [of r3 rp] by (simp add: counts_def)
  have "16 + (length xs - s + 1) * ks \<le> length r3" "length r3 \<le> 2 ^ 15" using fits(1) len ks(2) by simp_all
  then obtain r4 r5 where r5: "indx_plus r3 12 2 = Some r4" "indx_plus r4 14 (2 - int ks) = Some r5" "length r5 = length r3"
    "counts ks (length xs - s + 1) r5" "body ks (?l @ k # drop ki xs) r5"
    by (rule count_one [OF c3 ks(1) _ _ b3])
  have "length (?l @ k # drop ki xs) = length xs - s + 1" using s by simp
  then have "holds_keys ks (?l @ k # drop ki xs) r5"
    unfolding holds_counts using r5(3-5) ks len by (simp del: length_append)
  then show ?thesis using sep r1(1) r2(1) g p r5(1-3) len by simp
qed


text \<open>The branch of \<open>mdb_page_split\<close> for \<open>MDB_DUPFIXED\<close> pages: wherever the new key goes, the two pages hold one
  after the other the keys of the old page with the new one inserted at the cursor's index; their bounds count
  them; the separator is the first key on the right; and the index returned is the new key's on its page.\<close>

theorem mdb_page_split_leaf2:
  assumes mp: "holds_keys ks xs mp" and rp: "holds_keys ks [] rp" "length rp = length mp"
    and s: "0 < s" "s < length xs" and ki: "ki \<le> length xs" and k: "ks \<le> length key"
  defines "all \<equiv> take ki xs @ take ks key # drop ki xs" and "l \<equiv> (if ki < s then s + 1 else s)"
  shows "\<exists>mp' rp'. leaf2_split mp rp ki ks key s = Some (all ! l, mp', rp', if ki < s then ki else ki - s)
     \<and> holds_keys ks (take l all) mp' \<and> holds_keys ks (drop l all) rp' \<and> length mp' = length mp \<and> length rp' = length mp"
proof -
  note d = holds_keysD [OF mp] and dr = holds_keysD [OF rp(1)]
  let ?n = "length xs" and ?k = "take ks key"
  have k': "length ?k = ks" "get_bytes key 0 ks = Some ?k" using k by (simp_all add: get_bytes_def)
  have c: "counts ks ?n mp" "counts ks 0 rp" using mp rp by (simp_all add: holds_counts)
  have "s * ks \<le> ?n * ks" "(?n - s) * ks \<le> ?n * ks" using s by (intro mult_le_mono1; simp)+
  then have fits: "16 + s * ks \<le> length mp" "16 + (?n - s) * ks \<le> length rp" using d(5) rp(2) by linarith+
  have e: "- int ((?n - s) * 2) = 2 * int s - 2 * int ?n" "int ((?n - s) * 2) = 2 * int (?n - s) - 2 * int 0"
    "int ((?n - s) * ks) - int ((?n - s) * 2) = int ?n * int ks - int s * int ks + - int ((?n - s) * 2)"
    "int ((?n - s) * 2) - int ((?n - s) * ks) = int 0 * int ks - int (?n - s) * int ks + int ((?n - s) * 2)"
    using s by (simp_all add: of_nat_diff left_diff_distrib)
  obtain m1 m2 where m: "indx_plus mp 12 (- int ((?n - s) * 2)) = Some m1"
    "indx_plus m1 14 (int ((?n - s) * ks) - int ((?n - s) * 2)) = Some m2" "length m2 = length mp" "counts ks s m2" "body ks xs m2"
    by (rule recount [OF c(1) d(2) fits(1) d(3,1) e(1,3)])
  obtain r1 r2 where r: "indx_plus rp 12 (int ((?n - s) * 2)) = Some r1"
    "indx_plus r1 14 (int ((?n - s) * 2) - int ((?n - s) * ks)) = Some r2" "length r2 = length mp" "counts ks (?n - s) r2" "body ks [] r2"
    using recount [OF c(2) d(2) fits(2) dr(3,1) e(2,4)] rp(2) by metis
  show ?thesis
  proof (cases "ki < s")
    case True
    have l: "l = s + 1" using True by (simp add: l_def)
    have all: "all ! (s + 1) = xs ! s" "take (s + 1) all = take ki xs @ ?k # take (s - ki) (drop ki xs)" "drop (s + 1) all = drop s xs"
      using True s by (simp_all add: all_def nth_append Suc_diff_le)
    show ?thesis
      using leaf2_left [OF m(5,3) r(5,3) True s(2) k'(1) d(2,3) m(4) r(4)] True d(10) k'(2) m(1,2) r(1,2)
      unfolding l all by (simp add: leaf2_split_def Let_def)
  next
    case False
    have l: "l = s" using False by (simp add: l_def)
    have all: "all ! s = (if ki = s then ?k else xs ! s)" "take s all = take s xs"
      "drop s all = take (ki - s) (drop s xs) @ ?k # drop ki xs"
      using False s ki by (simp_all add: all_def nth_append take_drop min_def)
    have "holds_keys ks (take s xs) m2"
      unfolding holds_counts using m(3-5) d(2,3) s body_take by (simp add: min_def)
    moreover have le: "s \<le> ki" and nlt: "(ki < s) = False" using False by simp_all
    moreover have "\<exists>rp'. leaf2_split mp rp ki ks key s = Some (if ki = s then ?k else xs ! s, m2, rp', ki - s)
        \<and> holds_keys ks (take (ki - s) (drop s xs) @ ?k # drop ki xs) rp' \<and> length rp' = length mp"
      using leaf2_right [OF m(5,3) r(5,3) s(1) le ki s(2) k'(1) d(2,3) r(4)]
      by (simp only: leaf2_split_def Let_def d(10) m(1,2) r(1,2) k'(2) Option.bind.bind_lunit if_False nlt)
    ultimately show ?thesis using m(3) False unfolding l all by auto
  qed
qed

text \<open>Two keys of two bytes on a page of 64 bytes; a third goes between them.\<close>

definition page_keys2 :: page where
  "page_keys2 = [7, 0, 0, 0, 0, 0, 0, 0, 0, 0, 0x22, 0, 20, 0, 64, 0, 1, 2, 3, 4] @ replicate 44 0"

definition page_keys0 :: page where
  "page_keys0 = [8, 0, 0, 0, 0, 0, 0, 0, 0, 0, 0x22, 0, 16, 0, 64, 0] @ replicate 48 0"

lemma page_keys_ok: "holds_keys 2 [[1, 2], [3, 4]] page_keys2" "holds_keys 2 [] page_keys0" "length page_keys0 = length page_keys2"
  by (simp_all add: holds_keys_def body_def page_keys2_def page_keys0_def pg_lower_def pg_upper_def le_at_nth sub_def)

theorem mdb_page_split_leaf2_witness:
  "\<exists>mp' rp'. leaf2_split page_keys2 page_keys0 1 2 [2, 5] 1 = Some ([2, 5], mp', rp', 0)
     \<and> holds_keys 2 [[1, 2]] mp' \<and> holds_keys 2 [[2, 5], [3, 4]] rp'"
  using mdb_page_split_leaf2 [OF page_keys_ok, of 1 1 "[2, 5]"] by auto

end
