(* ===== verification/Mdb_Search.thy ===== *)
theory Mdb_Search
  imports Mdb_Node "HOL-Library.List_Lexorder"
begin

text \<open>
  \<open>mdb_node_search\<close> of \<open>lmdb/mdb.c\<close>: binary search for a key in a page. The proof is done once for every
  comparison function with the laws of \<open>comparator\<close>; the functions of the library are one instance, by
  what their keys mean.
\<close>

section \<open>The meaning of keys\<close>

text \<open>The keys that a comparison function is used on (\<open>n\<close> is the size of integer keys), and lists of
  numbers whose order is that of the keys.\<close>

fun key_ok :: "cmp_fn \<Rightarrow> nat \<Rightarrow> mval \<Rightarrow> bool" where
  "key_ok Cmp_memn n v \<longleftrightarrow> length v < 2 ^ 32"
| "key_ok Cmp_memnr n v \<longleftrightarrow> True"
| "key_ok Cmp_cint n v \<longleftrightarrow> length v = n \<and> even n \<and> 0 < n"
| "key_ok Cmp_int n v \<longleftrightarrow> length v = 4"
| "key_ok Cmp_long n v \<longleftrightarrow> length v = 8"
| "key_ok (Cmp_user f) n v \<longleftrightarrow> False"

fun key_meaning :: "cmp_fn \<Rightarrow> mval \<Rightarrow> nat list" where
  "key_meaning Cmp_memn v = map unat v"
| "key_meaning Cmp_memnr v = map unat (rev v)"
| "key_meaning _ v = [le_val v]"

lemma map_unat_less: "map unat a < map unat b \<longleftrightarrow> a < (b :: u8 list)"
proof (induction a arbitrary: b)
  case Nil
  show ?case by (cases b) auto
next
  case (Cons x xs)
  show ?case by (cases b) (auto simp: Cons word_less_nat_alt word_unat_eq_iff)
qed

lemma map_unat_eq: "map unat a = map unat b \<longleftrightarrow> a = (b :: u8 list)"
  by (metis map_injective inj_onI word_unat_eq_iff)

interpretation keys: comparator "key_ok f n" "run_cmp f" "key_meaning f" for f n
proof (unfold_locales, goal_cases)
  case (1 a b)
  then show ?case
    using memn.answers [of a b] memnr.answers [of a b] cint.answers [of a n b] uint.answers [of a b] long.answers [of a b]
    by (cases f) auto
next
  case (2 a b r)
  then show ?case
    using memn.less [of a b r] memnr.less [of a b r] cint.less [of a n b r] uint.less [of a b r] long.less [of a b r]
      map_unat_less [of "rev a" "rev b"]
    by (cases f) (auto simp: map_unat_less rev_map [symmetric] simp del: rev_map)
next
  case (3 a b r)
  then show ?case
    using memn.greater [of a b r] memnr.greater [of a b r] cint.greater [of a n b r] uint.greater [of a b r]
      long.greater [of a b r] map_unat_less [of "rev b" "rev a"]
    by (cases f) (auto simp: map_unat_less rev_map [symmetric] simp del: rev_map)
next
  case (4 a b)
  then show ?case
    using cint.inj [of a n b] uint.inj [of a b] long.inj [of a b]
    by (cases f) (auto simp: map_unat_eq)
qed

section \<open>The search\<close>

text \<open>The loop, over the keys of a page. \<open>ix\<close> and \<open>rc\<close> are the variables \<open>i\<close> and \<open>rc\<close>.\<close>

function search_loop :: "(nat \<Rightarrow> 'v option) \<Rightarrow> ('v \<Rightarrow> 'v \<Rightarrow> int option) \<Rightarrow> 'v \<Rightarrow> int \<Rightarrow> int \<Rightarrow> int \<Rightarrow> int
    \<Rightarrow> (int \<times> int) option" where
  "search_loop keyat cmp key low high ix rc =
     (if low \<le> high
      then let ix = (low + high) div 2
           in case keyat (nat ix) of None \<Rightarrow> None
            | Some nodekey \<Rightarrow>
                (case cmp key nodekey of None \<Rightarrow> None
                 | Some rc \<Rightarrow> if rc = 0 then Some (ix, rc)
                              else if 0 < rc then search_loop keyat cmp key (ix + 1) high ix rc
                              else search_loop keyat cmp key low (ix - 1) ix rc)
      else Some (ix, rc))"
  by pat_completeness auto
termination by (relation "measure (\<lambda>(ka, c, k, low, high, ix, rc). nat (high - low + 1))") auto

declare search_loop.simps [simp del]

text \<open>The comparison function for a page: integer keys of branch pages are aligned.\<close>

definition page_cmp :: "cmp_fn \<Rightarrow> page \<Rightarrow> cmp_fn option" where
  "page_cmp f mp =
     do { branch \<leftarrow> IS_BRANCH mp;
          if (case f of Cmp_cint \<Rightarrow> True | _ \<Rightarrow> False) \<and> branch
          then do { off \<leftarrow> NODEPTR mp 1; ks \<leftarrow> NODEKSZ mp off; Some (if ks = 8 then Cmp_long else Cmp_int) }
          else Some f }"

definition key_at :: "page \<Rightarrow> nat \<Rightarrow> mval option" where
  "key_at mp i = do { off \<leftarrow> NODEPTR mp i; NODEKEY mp off }"

text \<open>The answer: the index the cursor gets, \<open>*exactp\<close>, and whether the result is a node (the one at the
  index) and not \<open>NULL\<close>.\<close>

definition mdb_node_search :: "cmp_fn \<Rightarrow> nat \<Rightarrow> page \<Rightarrow> mval \<Rightarrow> (nat \<times> bool \<times> bool) option" where
  "mdb_node_search f pad mp key =
     do { nkeys \<leftarrow> NUMKEYS mp; leaf \<leftarrow> IS_LEAF mp; leaf2 \<leftarrow> IS_LEAF2 mp;
          let low = (if leaf then 0 else 1);
          let high = int nkeys - 1;
          cmp \<leftarrow> page_cmp f mp;
          (ix, rc) \<leftarrow> (if leaf2 then search_loop (\<lambda>i. get_bytes mp (LEAF2KEY i pad) pad) (run_cmp cmp) key low high 0 0
                      else search_loop (key_at mp) (run_cmp cmp) key low high 0 0);
          let i = nat (if 0 < rc then ix + 1 else ix);
          _ \<leftarrow> (if 0 < rc \<and> \<not> leaf2 then NODEPTR mp i else Some 0);
          Some (i, rc = 0 \<and> 0 < nkeys, i < nkeys \<and> (leaf2 \<or> low \<le> high)) }"

section \<open>Correctness\<close>

context comparator
begin

text \<open>Keys before \<open>low\<close> are smaller, keys from \<open>high + 1\<close> on are greater; when the loop ends without a hit
  \<open>ix\<close> is next to the gap, on the side that \<open>rc\<close> says.\<close>

lemma search_loop_correct:
  assumes "\<And>i. i < length ks \<Longrightarrow> low0 \<le> int i \<Longrightarrow> keyat i = Some (ks ! i) \<and> valid (ks ! i)" "valid key"
    and "\<And>i j. int i \<ge> low0 \<Longrightarrow> i < j \<Longrightarrow> j < length ks \<Longrightarrow> meaning (ks ! i) < meaning (ks ! j)"
    and "0 \<le> low0" "low0 \<le> low" "low \<le> high + 1" "high < int (length ks)"
    and "\<And>i. low0 \<le> int i \<Longrightarrow> int i < low \<Longrightarrow> meaning (ks ! i) < meaning key"
    and "\<And>i. high < int i \<Longrightarrow> low0 \<le> int i \<Longrightarrow> i < length ks \<Longrightarrow> meaning key < meaning (ks ! i)"
    and "low = high + 1 \<Longrightarrow> 0 < rc \<and> ix = low - 1 \<or> rc < 0 \<and> ix = low"
  shows "\<exists>ix' rc'. search_loop keyat cmp key low high ix rc = Some (ix', rc')
    \<and> (let j = (if 0 < rc' then ix' + 1 else ix') in low0 \<le> j \<and> j \<le> int (length ks)
       \<and> (rc' = 0 \<longrightarrow> j < int (length ks) \<and> ks ! nat j = key)
       \<and> (rc' \<noteq> 0 \<longrightarrow> (\<forall>i < length ks. low0 \<le> int i \<longrightarrow> ks ! i \<noteq> key))
       \<and> (\<forall>i < length ks. low0 \<le> int i \<longrightarrow> int i < j \<longrightarrow> meaning (ks ! i) < meaning key)
       \<and> (\<forall>i < length ks. j \<le> int i \<longrightarrow> meaning key \<le> meaning (ks ! i)))"
  using assms(5-)
proof (induction "nat (high - low + 1)" arbitrary: low high ix rc rule: less_induct)
  case less
  show ?case
  proof (cases "low \<le> high")
    case False
    then have e: "low = high + 1" using less.prems(2) by simp
    have "search_loop keyat cmp key low high ix rc = Some (ix, rc)" using False by (subst search_loop.simps) simp
    moreover have "ks ! i \<noteq> key" if "i < length ks" "low0 \<le> int i" for i
      using less.prems(4) [of i] less.prems(5) [of i] that e by (cases "int i < low") auto
    moreover have "(if 0 < rc then ix + 1 else ix) = low" "rc \<noteq> 0" using less.prems(6) [OF e] by auto
    ultimately show ?thesis using less.prems e by (auto simp: Let_def intro: less_imp_le)
  next
    case True
    define m where "m = (low + high) div 2"
    have m: "low \<le> m" "m \<le> high" using True by (auto simp: m_def)
    have mn: "nat m < length ks" "int (nat m) = m" using m less.prems(1,3) assms(4) by auto
    have "low0 \<le> int (nat m)" using mn(2) m(1) less.prems(1) by linarith
    note k = assms(1) [OF mn(1) this]
    obtain r where r: "cmp key (ks ! nat m) = Some r" "r < 0 \<longleftrightarrow> meaning key < meaning (ks ! nat m)"
      "0 < r \<longleftrightarrow> meaning (ks ! nat m) < meaning key" "r = 0 \<longleftrightarrow> key = ks ! nat m"
      using cmp_cases [OF assms(2)] k by metis
    have lower: "meaning (ks ! i) < meaning (ks ! nat m)" if "low0 \<le> int i" "int i < m" for i
      using assms(3) [of i "nat m"] that mn by linarith
    have upper: "meaning (ks ! nat m) < meaning (ks ! i)" if "m < int i" "i < length ks" for i
      using assms(3) [of "nat m" i] that mn m(1) less.prems(1) by linarith
    consider "r = 0" | "0 < r" | "r < 0" by linarith
    then show ?thesis
    proof cases
      case 1
      then have "search_loop keyat cmp key low high ix rc = Some (m, 0)"
        using True k r(1) by (subst search_loop.simps) (simp add: m_def [symmetric] Let_def)
      moreover have "meaning key \<le> meaning (ks ! i)" if "i < length ks" "m \<le> int i" for i
        using upper [of i] that r(4) 1 mn(2) by (cases "m = int i") (auto intro: less_imp_le)
      ultimately show ?thesis using 1 r(4) lower m mn less.prems(1) by (auto simp: Let_def)
    next
      case 2
      have s: "search_loop keyat cmp key low high ix rc = search_loop keyat cmp key (m + 1) high m r"
        using True k r(1) 2 by (subst search_loop.simps) (simp add: m_def [symmetric] Let_def)
      have "meaning (ks ! i) < meaning key" if "low0 \<le> int i" "int i < m + 1" for i
        using lower [of i] that r(3) 2 mn(2) by (cases "int i = m") (auto intro: less_trans)
      then show ?thesis
        unfolding s using less.prems m 2 by (intro less.hyps) auto
    next
      case 3
      have s: "search_loop keyat cmp key low high ix rc = search_loop keyat cmp key low (m - 1) m r"
        using True k r(1) 3 by (subst search_loop.simps) (simp add: m_def [symmetric] Let_def)
      have "meaning key < meaning (ks ! i)" if "m - 1 < int i" "i < length ks" for i
        using upper [of i] that r(2) 3 mn(2) by (cases "int i = m") (auto intro: less_trans)
      then show ?thesis
        unfolding s using less.prems m 3 by (intro less.hyps) auto
    qed
  qed
qed

end

section \<open>Pages\<close>

definition page_keys :: "page \<Rightarrow> mval list" where "page_keys p = map nd_key (page_nodes p)"

lemma page_keys_nth: "i < pg_cnt p \<Longrightarrow> page_keys p ! i = sub p (pg_ptr p i + 8) (n_ksize p (pg_ptr p i))"
  by (simp add: page_keys_def page_nodes_def node_at_def)

lemma length_page_keys [simp]: "length (page_keys p) = pg_cnt p"
  by (simp add: page_keys_def page_nodes_def)

lemma page_node_bounds:
  assumes "page_wf p" "i < pg_cnt p"
  shows "18 + 2 * i \<le> length p" "pg_ptr p i + 8 \<le> length p"
    "pg_ptr p i + 8 + n_ksize p (pg_ptr p i) + n_dsize (pg_leaf p) p (pg_ptr p i) \<le> length p"
proof -
  have w: "16 \<le> pg_lower p" "even (pg_lower p)" "pg_lower p \<le> pg_upper p" "pg_upper p \<le> length p"
    "pg_ptr p i + n_size (pg_leaf p) p (pg_ptr p i) \<le> length p"
    using assms by (simp_all add: page_wf_def)
  then show "18 + 2 * i \<le> length p" using assms(2) by (simp add: pg_cnt_eq)
  show "pg_ptr p i + 8 \<le> length p"
    "pg_ptr p i + 8 + n_ksize p (pg_ptr p i) + n_dsize (pg_leaf p) p (pg_ptr p i) \<le> length p"
    using w(5) n_size_ge(1) [of p "pg_ptr p i" "pg_leaf p"] n_size_ge(2) [of "pg_leaf p" p "pg_ptr p i"] by linarith+
qed

lemma key_at_eq:
  assumes "page_wf p" "i < pg_cnt p"
  shows "key_at p i = Some (page_keys p ! i)"
  using page_node_bounds [OF assms] assms(2)
  by (simp add: key_at_def NODEPTR_def page_hdr NODEKEY_def NODEKSZ_def ld_le_at n_ksize_def [symmetric]
      get_bytes_def page_keys_nth NODESIZE_def sub_def [symmetric])

text \<open>A page whose keys a search relies on: in order, apart from the first key of a branch page, which is
  not looked at. Integer keys of a branch page have the size that the substituted comparison reads.\<close>

definition lo0 :: "page \<Rightarrow> nat" where "lo0 p = (if pg_leaf p then 0 else 1)"

definition keys_sorted :: "cmp_fn \<Rightarrow> nat \<Rightarrow> page \<Rightarrow> bool" where
  "keys_sorted f n p \<longleftrightarrow>
     (\<forall>i < pg_cnt p. lo0 p \<le> i \<longrightarrow> key_ok f n (page_keys p ! i))
     \<and> (\<forall>i j. lo0 p \<le> i \<longrightarrow> i < j \<longrightarrow> j < pg_cnt p \<longrightarrow>
          key_meaning f (page_keys p ! i) < key_meaning f (page_keys p ! j))"

definition page_kind :: "page \<Rightarrow> bool" where
  "page_kind p \<longleftrightarrow> F_ISSET (pg_flags p) P_BRANCH = (\<not> pg_leaf p)"

text \<open>On branch pages integer keys have four or eight bytes.\<close>

definition branch_keysize :: "cmp_fn \<Rightarrow> nat \<Rightarrow> bool" where
  "branch_keysize f n \<longleftrightarrow> (f = Cmp_cint \<longrightarrow> n = 4 \<or> n = 8)"

lemma page_cmp_eq:
  assumes "page_wf p" "page_kind p" "keys_sorted f n p" "key_ok f n key" "branch_keysize f n" "pg_leaf p \<or> 1 < pg_cnt p"
  shows "\<exists>g. page_cmp f p = Some g \<and> (\<forall>v. key_ok f n v \<longrightarrow> key_ok g n v \<and> key_meaning g v = key_meaning f v)"
proof -
  have 16: "16 \<le> length p" using assms(1) by (simp add: page_wf_def)
  then have b: "IS_BRANCH p = Some (\<not> pg_leaf p)"
    using assms(2) by (simp add: IS_BRANCH_def MP_FLAGS_def ld_le_at pg_flags_def [symmetric] page_kind_def)
  show ?thesis
  proof (cases "f = Cmp_cint \<and> \<not> pg_leaf p")
    case True
    then have c: "1 < pg_cnt p" using assms(6) by simp
    note pb = page_node_bounds [OF assms(1) c]
    have "length (page_keys p ! 1) = n_ksize p (pg_ptr p 1)"
      using pb c by (simp add: page_keys_nth)
    moreover have "key_ok f n (page_keys p ! 1)" using assms(3) c True by (simp add: keys_sorted_def lo0_def)
    ultimately have ks: "n_ksize p (pg_ptr p 1) = n" using True by simp
    have "page_cmp f p = Some (if n = 8 then Cmp_long else Cmp_int)"
      using True pb by (simp add: page_cmp_def b NODEPTR_def page_hdr NODEKSZ_def ld_le_at n_ksize_def [symmetric] ks [unfolded One_nat_def])
    then show ?thesis using True assms(5) by (auto simp: branch_keysize_def)
  next
    case False
    have "page_cmp f p = Some f" using False by (cases f) (auto simp: page_cmp_def b)
    then show ?thesis by simp
  qed
qed

lemma mdb_node_search_spec:
  assumes "page_wf p" "page_kind p" "keys_sorted f n p" "key_ok f n key" "branch_keysize f n" "lo0 p < pg_cnt p"
  shows "\<exists>i exact. mdb_node_search f pad p key = Some (i, exact, i < pg_cnt p) \<and> lo0 p \<le> i \<and> i \<le> pg_cnt p
    \<and> (exact \<longleftrightarrow> (\<exists>j < pg_cnt p. lo0 p \<le> j \<and> page_keys p ! j = key)) \<and> (exact \<longrightarrow> i < pg_cnt p \<and> page_keys p ! i = key)
    \<and> (\<forall>j < i. lo0 p \<le> j \<longrightarrow> key_meaning f (page_keys p ! j) < key_meaning f key)
    \<and> (\<forall>j < pg_cnt p. i \<le> j \<longrightarrow> key_meaning f key \<le> key_meaning f (page_keys p ! j))"
proof -
  have 16: "16 \<le> length p" "\<not> F_ISSET (pg_flags p) P_LEAF2" and room: "pg_lower p \<le> length p" "16 \<le> pg_lower p"
    using assms(1) by (simp_all add: page_wf_def)
  obtain g where g: "page_cmp f p = Some g"
    "\<And>v. key_ok f n v \<Longrightarrow> key_ok g n v \<and> key_meaning g v = key_meaning f v"
    using page_cmp_eq [OF assms(1-5)] assms(6) by (auto simp: lo0_def split: if_splits)
  let ?low = "int (lo0 p)" and ?high = "int (pg_cnt p) - 1"
  have lo: "0 \<le> ?low" "?low \<le> ?low" "?low \<le> ?high + 1" "?high < int (length (page_keys p))"
    using assms(6) by simp_all
  have sorted: "key_meaning g (page_keys p ! i) < key_meaning g (page_keys p ! j)"
    if "?low \<le> int i" "i < j" "j < length (page_keys p)" for i j
    using assms(3) that g(2) by (simp add: keys_sorted_def)
  have "\<exists>ix rc. search_loop (key_at p) (run_cmp g) key ?low ?high 0 0 = Some (ix, rc)
    \<and> (let j = (if 0 < rc then ix + 1 else ix) in ?low \<le> j \<and> j \<le> int (length (page_keys p))
       \<and> (rc = 0 \<longrightarrow> j < int (length (page_keys p)) \<and> page_keys p ! nat j = key)
       \<and> (rc \<noteq> 0 \<longrightarrow> (\<forall>i < length (page_keys p). ?low \<le> int i \<longrightarrow> page_keys p ! i \<noteq> key))
       \<and> (\<forall>i < length (page_keys p). ?low \<le> int i \<longrightarrow> int i < j \<longrightarrow> key_meaning g (page_keys p ! i) < key_meaning g key)
       \<and> (\<forall>i < length (page_keys p). j \<le> int i \<longrightarrow> key_meaning g key \<le> key_meaning g (page_keys p ! i)))"
    using assms(1,3,6) g(2) [OF assms(4)] g(2) key_at_eq lo sorted
    by (intro keys.search_loop_correct [where n = n]) (auto simp: keys_sorted_def)
  then obtain ix rc where s: "search_loop (key_at p) (run_cmp g) key ?low ?high 0 0 = Some (ix, rc)"
    and j: "let j = (if 0 < rc then ix + 1 else ix) in ?low \<le> j \<and> j \<le> int (pg_cnt p)
       \<and> (rc = 0 \<longrightarrow> j < int (pg_cnt p) \<and> page_keys p ! nat j = key)
       \<and> (rc \<noteq> 0 \<longrightarrow> (\<forall>i < pg_cnt p. ?low \<le> int i \<longrightarrow> page_keys p ! i \<noteq> key))
       \<and> (\<forall>i < pg_cnt p. ?low \<le> int i \<longrightarrow> int i < j \<longrightarrow> key_meaning g (page_keys p ! i) < key_meaning g key)
       \<and> (\<forall>i < pg_cnt p. j \<le> int i \<longrightarrow> key_meaning g key \<le> key_meaning g (page_keys p ! i))"
    unfolding length_page_keys by blast
  define i where "i = nat (if 0 < rc then ix + 1 else ix)"
  have i: "int i = (if 0 < rc then ix + 1 else ix)" "lo0 p \<le> i" "i \<le> pg_cnt p"
    using j by (auto simp: i_def Let_def)
  have gm: "key_meaning g (page_keys p ! k) = key_meaning f (page_keys p ! k)" if "lo0 p \<le> k" "k < pg_cnt p" for k
    using g(2) assms(3) that by (simp add: keys_sorted_def)
  have gk: "key_meaning g key = key_meaning f key" using g(2) assms(4) by simp
  have ptr: "NODEPTR p i = Some (pg_ptr p i)"
  proof -
    have "pg_upper p \<le> pg_ptr p 0" "pg_lower p \<le> pg_upper p" "pg_lower p = 16 + 2 * pg_cnt p"
      using assms(1,6) by (auto simp: page_wf_def pg_cnt_eq elim!: evenE)
    then have "18 + 2 * i \<le> length p" using page_node_bounds(2) [OF assms(1), of 0] i(3) assms(6) by simp
    then show ?thesis by (simp add: NODEPTR_def page_hdr)
  qed
  have ni: "0 < rc \<Longrightarrow> nat (ix + 1) = i" by (simp add: i_def)
  have "mdb_node_search f pad p key = Some (i, rc = 0 \<and> 0 < pg_cnt p, i < pg_cnt p)"
    using 16 g(1) s ptr assms(6)
    by (auto simp: ni mdb_node_search_def page_hdr lo0_def Let_def i_def [symmetric] split: if_splits)
  moreover have hit: "rc = 0 \<longrightarrow> i < pg_cnt p \<and> page_keys p ! i = key"
  proof
    assume 0: "rc = 0"
    then have "int i = ix" "nat ix = i" using i(1) by auto
    moreover have "ix < int (pg_cnt p) \<and> page_keys p ! nat ix = key" using j 0 by (simp add: Let_def)
    ultimately show "i < pg_cnt p \<and> page_keys p ! i = key" by simp
  qed
  moreover have "(rc = 0 \<and> 0 < pg_cnt p) \<longleftrightarrow> (\<exists>j < pg_cnt p. lo0 p \<le> j \<and> page_keys p ! j = key)"
  proof (cases "rc = 0")
    case True
    have "0 < pg_cnt p" using assms(6) by simp
    then show ?thesis using True hit i(2) by blast
  next
    case False
    then show ?thesis using j by (auto simp: Let_def)
  qed
  moreover have "\<forall>j < i. lo0 p \<le> j \<longrightarrow> key_meaning f (page_keys p ! j) < key_meaning f key"
    using j i gm gk by (auto simp: Let_def)
  moreover have "\<forall>j < pg_cnt p. i \<le> j \<longrightarrow> key_meaning f key \<le> key_meaning f (page_keys p ! j)"
    using j i gm gk by (auto simp: Let_def)
  ultimately show ?thesis using i by blast
qed

section \<open>Property\<close>

text \<open>C30: On a page in order whose keys are sorted, for each of the comparison functions of the library,
  \<open>mdb_node_search\<close> ends, looks at no byte outside the page, and gives the cursor the index of the smallest
  key that is not smaller than the key sought (the number of keys where there is none, and then the result
  is \<open>NULL\<close>); \<open>*exactp\<close> says whether the key is on the page, and then the index is its own.\<close>

theorem mdb_node_search_correct:
  assumes "page_wf p" "page_kind p" "keys_sorted f n p" "key_ok f n key" "branch_keysize f n" "lo0 p < pg_cnt p"
  shows "\<exists>i exact. mdb_node_search f pad p key = Some (i, exact, i < pg_cnt p) \<and> lo0 p \<le> i \<and> i \<le> pg_cnt p
    \<and> (exact \<longleftrightarrow> (\<exists>j < pg_cnt p. lo0 p \<le> j \<and> page_keys p ! j = key)) \<and> (exact \<longrightarrow> i < pg_cnt p \<and> page_keys p ! i = key)
    \<and> (\<forall>j < i. lo0 p \<le> j \<longrightarrow> key_meaning f (page_keys p ! j) < key_meaning f key)
    \<and> (\<forall>j < pg_cnt p. i \<le> j \<longrightarrow> key_meaning f key \<le> key_meaning f (page_keys p ! j))"
  by (rule mdb_node_search_spec [OF assms])

lemma page_one_keys: "page_keys page_one = [[97]]"
  by (simp add: page_keys_def page_nodes_def page_one_hdr page_one_node node_at_def)
    (simp add: sub_def page_one_def nth_append)

lemma page_one_search: "page_kind page_one" "keys_sorted Cmp_memn 0 page_one" "lo0 page_one = 0"
  by (simp_all add: page_kind_def page_one_hdr F_ISSET_def P_BRANCH_def keys_sorted_def lo0_def page_one_keys)

theorem mdb_node_search_correct_witness:
  "mdb_node_search Cmp_memn 0 page_one [97] = Some (0, True, True)
   \<and> mdb_node_search Cmp_memn 0 page_one [98] = Some (1, False, False)"
proof -
  have k: "key_ok Cmp_memn 0 [x]" "branch_keysize Cmp_memn 0" "lo0 page_one < pg_cnt page_one" for x
    by (simp_all add: branch_keysize_def page_one_search page_one_hdr)
  note s = mdb_node_search_correct [OF page_one_wf page_one_search(1,2) k]
  show ?thesis using s [of 0 97] s [of 0 98] by (auto simp: page_one_hdr page_one_search page_one_keys less_Suc_eq)
qed

end
