(* ===== verification/Mdb_Cursor.thy ===== *)
theory Mdb_Cursor
  imports Mdb_Search
begin

text \<open>
  Cursors of \<open>lmdb/mdb.c\<close> that read: the stack of pages from the root to a leaf, the descent to a key or to
  the first or last leaf, the move to a sibling page, and the operations of \<open>mdb_cursor_get\<close> and
  \<open>mdb_get\<close>. A cursor here has no sub-cursor (\<open>mc_xcursor\<close> is \<open>NULL\<close>: a database without
  \<open>MDB_DUPSORT\<close>, or the sub-cursor itself); a path that would follow that pointer is \<open>None\<close>, as is a
  failed assertion. The pages of the snapshot are an argument, with a page number giving the bytes
  from the start of the page; the flag \<open>MDB_PS_MODIFY\<close> is not used by readers and left out.
\<close>

unbundle bit_operations_syntax

definition CURSOR_STACK :: nat where "CURSOR_STACK = 32"
definition MDB_NOTFOUND :: int where "MDB_NOTFOUND = - 30798"
definition MDB_PAGE_NOTFOUND :: int where "MDB_PAGE_NOTFOUND = - 30797"
definition MDB_CORRUPTED :: int where "MDB_CORRUPTED = - 30796"
definition MDB_CURSOR_FULL :: int where "MDB_CURSOR_FULL = - 30787"
definition MDB_INCOMPATIBLE :: int where "MDB_INCOMPATIBLE = - 30784"
definition MDB_BAD_TXN :: int where "MDB_BAD_TXN = - 30782"
definition MDB_BAD_VALSIZE :: int where "MDB_BAD_VALSIZE = - 30781"
definition MDB_BAD_DBI :: int where "MDB_BAD_DBI = - 30780"
definition EINVAL :: int where "EINVAL = 22"
definition EACCES :: int where "EACCES = 13"
definition TXN_BLOCKED :: u32 where "TXN_BLOCKED = 0x13"
definition P_INVALID :: u64 where "P_INVALID = - 1"

section \<open>The cursor\<close>

text \<open>\<open>mc_flags\<close> is three booleans. The arrays \<open>mc_pg\<close> and \<open>mc_ki\<close> are functions, used below
  \<open>CURSOR_STACK\<close> only; an index is an \<open>indx_t\<close>, stored modulo \<open>2 ^ 16\<close>. \<open>mc_txn_flags\<close> is \<open>mc_txn->mt_flags\<close>, \<open>mc_stale\<close> the bit \<open>DB_STALE\<close> of
  \<open>*mc_dbflag\<close>.\<close>

record MDB_cursor =
  mc_dbi :: nat
  mc_db :: MDB_db
  mc_cmp :: cmp_fn
  mc_dcmp :: "cmp_fn option"
  mc_stale :: bool
  mc_txn_flags :: u32
  mc_snum :: nat
  mc_top :: nat
  mc_init :: bool
  mc_eof :: bool
  mc_del :: bool
  mc_pg :: "nat \<Rightarrow> page option"
  mc_ki :: "nat \<Rightarrow> nat"

text \<open>What the cursor reads: the pages; a cursor on the main database, and the name of the database there,
  for a stale record; and whether the handle changed.\<close>

record snapshot =
  sn_page :: "nat \<Rightarrow> page option"
  sn_main :: "MDB_cursor option"
  sn_name :: mval
  sn_changed :: bool

definition top_page :: "MDB_cursor \<Rightarrow> page option" where
  "top_page c = (if mc_top c < CURSOR_STACK then mc_pg c (mc_top c) else None)"

abbreviation top_ki :: "MDB_cursor \<Rightarrow> nat" where "top_ki c \<equiv> mc_ki c (mc_top c)"

definition set_ki :: "MDB_cursor \<Rightarrow> nat \<Rightarrow> MDB_cursor" where
  "set_ki c i = c\<lparr>mc_ki := (mc_ki c)(mc_top c := i)\<rparr>"

text \<open>\<open>mdb_page_get\<close>, and the error it sets.\<close>

definition page_get :: "snapshot \<Rightarrow> MDB_cursor \<Rightarrow> nat \<Rightarrow> (int \<times> MDB_cursor) + page" where
  "page_get sn c pgno =
     (case sn_page sn pgno of
        None \<Rightarrow> Inl (MDB_PAGE_NOTFOUND, c\<lparr>mc_txn_flags := mc_txn_flags c OR TXN_ERROR\<rparr>)
      | Some p \<Rightarrow> Inr p)"

definition mdb_cursor_pop :: "MDB_cursor \<Rightarrow> MDB_cursor" where
  "mdb_cursor_pop c =
     (if mc_snum c \<noteq> 0
      then let c = c\<lparr>mc_snum := mc_snum c - 1\<rparr>
           in if mc_snum c \<noteq> 0 then c\<lparr>mc_top := mc_top c - 1\<rparr> else c\<lparr>mc_init := False\<rparr>
      else c)"

definition mdb_cursor_push :: "MDB_cursor \<Rightarrow> page \<Rightarrow> int \<times> MDB_cursor" where
  "mdb_cursor_push c mp =
     (if CURSOR_STACK \<le> mc_snum c then (MDB_CURSOR_FULL, c\<lparr>mc_txn_flags := mc_txn_flags c OR TXN_ERROR\<rparr>)
      else (0, c\<lparr>mc_top := mc_snum c, mc_snum := mc_snum c + 1, mc_pg := (mc_pg c)(mc_snum c := Some mp),
                mc_ki := (mc_ki c)(mc_snum c := 0)\<rparr>))"

text \<open>\<open>mdb_node_search\<close> on the page at the top: it sets the index of the cursor.\<close>

definition node_search :: "MDB_cursor \<Rightarrow> mval \<Rightarrow> (MDB_cursor \<times> bool \<times> bool) option" where
  "node_search c key =
     do { mp \<leftarrow> top_page c;
          (i, exact, found) \<leftarrow> mdb_node_search (mc_cmp c) (unat (md_pad (mc_db c))) mp key;
          Some (set_ki c i, exact, found) }"

section \<open>Descending\<close>

datatype ps = PS_ROOTONLY | PS_FIRST | PS_LAST | PS_KEY mval

text \<open>The index to follow on a branch page of \<open>n\<close> keys; no index means that the cursor is already there.\<close>

definition root_index :: "ps \<Rightarrow> MDB_cursor \<Rightarrow> nat \<Rightarrow> (nat option \<times> MDB_cursor) option" where
  "root_index ps c n =
     (case ps of
        PS_ROOTONLY \<Rightarrow> None
      | PS_FIRST \<Rightarrow> Some (Some 0, c)
      | PS_LAST \<Rightarrow> let i = indx_sub n 1 in Some (if mc_init c \<and> top_ki c = i then None else Some i, c)
      | PS_KEY key \<Rightarrow>
          do { (c, exact, found) \<leftarrow> node_search c key;
               if \<not> found then Some (Some (indx_sub n 1), c)
               else if exact then Some (Some (top_ki c), c)
               else if top_ki c = 0 then None else Some (Some (top_ki c - 1), c) })"

text \<open>One round of the loop of \<open>mdb_page_search_root\<close>, on a branch page: \<open>Inl\<close> returns, \<open>Inr\<close> goes on.\<close>

definition root_step :: "snapshot \<Rightarrow> ps \<Rightarrow> MDB_cursor \<Rightarrow> page \<Rightarrow> ((int \<times> MDB_cursor) + MDB_cursor) option" where
  "root_step sn ps c mp =
     do { n \<leftarrow> NUMKEYS mp;
          if mc_dbi c \<noteq> 0 \<and> n \<le> 1 then None
          else do {
          (pick, c) \<leftarrow> root_index ps c n;
          case pick of
            None \<Rightarrow> do { let c = c\<lparr>mc_top := mc_snum c, mc_snum := mc_snum c + 1\<rparr>; _ \<leftarrow> top_page c; Some (Inr c) }
          | Some i \<Rightarrow>
              if n \<le> i then None
              else do {
                off \<leftarrow> NODEPTR mp i; pgno \<leftarrow> NODEPGNO mp off;
                case page_get sn c pgno of
                  Inl r \<Rightarrow> Some (Inl r)
                | Inr mp \<Rightarrow> let (rc, c) = mdb_cursor_push (set_ki c i) mp
                            in Some (if rc \<noteq> 0 then Inl (rc, c) else Inr c) } } }"

lemma node_search_snum: "node_search c key = Some (c', r) \<Longrightarrow> mc_snum c' = mc_snum c"
  by (auto simp: node_search_def set_ki_def split: Option.bind_splits)

lemma root_index_snum: "root_index ps c n = Some (r, c') \<Longrightarrow> mc_snum c' = mc_snum c"
  by (auto simp: root_index_def Let_def node_search_snum split: ps.splits Option.bind_splits if_splits)

lemma root_step_snum: "root_step sn ps c mp = Some (Inr c') \<Longrightarrow> mc_snum c' = mc_snum c + 1 \<and> mc_snum c < CURSOR_STACK"
  by (auto simp: root_step_def top_page_def mdb_cursor_push_def set_ki_def Let_def MDB_CURSOR_FULL_def
      dest!: root_index_snum split: Option.bind_splits if_splits option.splits sum.splits prod.splits)

function mdb_page_search_root :: "snapshot \<Rightarrow> ps \<Rightarrow> MDB_cursor \<Rightarrow> (int \<times> MDB_cursor) option" where
  "mdb_page_search_root sn ps c =
     (case top_page c of
        None \<Rightarrow> None
      | Some mp \<Rightarrow>
          (case IS_BRANCH mp of
             None \<Rightarrow> None
           | Some True \<Rightarrow>
               (case root_step sn ps c mp of
                  None \<Rightarrow> None
                | Some (Inl r) \<Rightarrow> Some r
                | Some (Inr c) \<Rightarrow> mdb_page_search_root sn ps c)
           | Some False \<Rightarrow>
               (case IS_LEAF mp of
                  None \<Rightarrow> None
                | Some leaf \<Rightarrow>
                    Some (if leaf then (0, c\<lparr>mc_init := True, mc_eof := False\<rparr>)
                          else (MDB_CORRUPTED, c\<lparr>mc_txn_flags := mc_txn_flags c OR TXN_ERROR\<rparr>)))))"
  by pat_completeness auto
termination by (relation "measure (\<lambda>(sn, ps, c). CURSOR_STACK - mc_snum c)") (auto dest: root_step_snum)

declare mdb_page_search_root.simps [simp del]

definition mdb_page_search_lowest :: "snapshot \<Rightarrow> MDB_cursor \<Rightarrow> (int \<times> MDB_cursor) option" where
  "mdb_page_search_lowest sn c =
     do { mp \<leftarrow> top_page c; off \<leftarrow> NODEPTR mp 0; pgno \<leftarrow> NODEPGNO mp off;
          case page_get sn c pgno of
            Inl r \<Rightarrow> Some r
          | Inr mp \<Rightarrow> let (rc, c) = mdb_cursor_push (set_ki c 0) mp
                      in if rc \<noteq> 0 then Some (rc, c) else mdb_page_search_root sn PS_FIRST c }"

text \<open>The data of a node: in it, or on overflow pages.\<close>

definition mdb_node_read :: "snapshot \<Rightarrow> MDB_cursor \<Rightarrow> page \<Rightarrow> nat \<Rightarrow> (int \<times> MDB_cursor \<times> mval) option" where
  "mdb_node_read sn c mp off =
     do { fl \<leftarrow> NODEFLAGS mp off; dsz \<leftarrow> NODEDSZ mp off; d \<leftarrow> NODEDATA mp off;
          if \<not> F_ISSET fl F_BIGDATA then do { v \<leftarrow> get_bytes mp d dsz; Some (0, c, v) }
          else do { pgno \<leftarrow> ld 8 mp d;
                    case page_get sn c pgno of
                      Inl (rc, c) \<Rightarrow> Some (rc, c, [])
                    | Inr omp \<Rightarrow> do { v \<leftarrow> get_bytes omp PAGEHDRSZ dsz; Some (0, c, v) } } }"

text \<open>The part of \<open>mdb_page_search\<close> after the record of the database is known to be current.\<close>

definition page_search_from :: "snapshot \<Rightarrow> ps \<Rightarrow> MDB_cursor \<Rightarrow> (int \<times> MDB_cursor) option" where
  "page_search_from sn ps c =
     (let root = md_root (mc_db c)
      in if root = P_INVALID then Some (MDB_NOTFOUND, c)
         else if root \<le> 1 then None
         else do {
           cached \<leftarrow> (case mc_pg c 0 of None \<Rightarrow> Some None
                      | Some p \<Rightarrow> do { pg \<leftarrow> MP_PGNO p; Some (if pg = unat root then Some p else None) });
           case (case cached of Some p \<Rightarrow> Inr p | None \<Rightarrow> page_get sn c (unat root)) of
             Inl r \<Rightarrow> Some r
           | Inr p \<Rightarrow>
               let c = c\<lparr>mc_pg := (mc_pg c)(0 := Some p), mc_snum := 1, mc_top := 0\<rparr>
               in if ps = PS_ROOTONLY then Some (0, c) else mdb_page_search_root sn ps c })"

text \<open>The record of a named database as it is stored in the main database.\<close>

definition db_of_bytes :: "mval \<Rightarrow> MDB_db option" where
  "db_of_bytes v =
     do { pad \<leftarrow> ld 4 v 0; flags \<leftarrow> ld 2 v 4; depth \<leftarrow> ld 2 v 6; branch \<leftarrow> ld 8 v 8; leaf \<leftarrow> ld 8 v 16;
          ov \<leftarrow> ld 8 v 24; entries \<leftarrow> ld 8 v 32; root \<leftarrow> ld 8 v 40;
          Some \<lparr>md_pad = of_nat pad, md_flags = of_nat flags, md_depth = of_nat depth, md_branch_pages = of_nat branch,
                md_leaf_pages = of_nat leaf, md_overflow_pages = of_nat ov, md_entries = of_nat entries,
                md_root = of_nat root\<rparr> }"

definition PERSISTENT_FLAGS :: u16 where "PERSISTENT_FLAGS = 0x7fff"

text \<open>The block for a stale record: \<open>Inl\<close> is an error to return. The cursor on the main database belongs to
  the same transaction, so the flags it leaves there are the flags of \<open>c\<close>.\<close>

definition refresh_db :: "snapshot \<Rightarrow> MDB_cursor \<Rightarrow> ((int + MDB_db) \<times> MDB_cursor) option" where
  "refresh_db sn c =
     (if sn_changed sn then Some (Inl MDB_BAD_DBI, c)
      else do {
        mc2 \<leftarrow> sn_main sn;
        let mc2 = mc2\<lparr>mc_txn_flags := mc_txn_flags c\<rparr>;
        (rc, mc2) \<leftarrow> (if mc_txn_flags mc2 AND TXN_BLOCKED \<noteq> 0 then Some (MDB_BAD_TXN, mc2)
                     else page_search_from sn (PS_KEY (sn_name sn)) mc2);
        let c = c\<lparr>mc_txn_flags := mc_txn_flags mc2\<rparr>;
        if rc \<noteq> 0 then Some (Inl rc, c)
        else do {
          (mc2, exact, _) \<leftarrow> node_search mc2 (sn_name sn);
          if \<not> exact then Some (Inl MDB_NOTFOUND, c)
          else do {
            mp \<leftarrow> top_page mc2; leaf \<leftarrow> NODEPTR mp (top_ki mc2); fl \<leftarrow> NODEFLAGS mp leaf;
            if fl AND (F_DUPDATA OR F_SUBDATA) \<noteq> F_SUBDATA then Some (Inl MDB_INCOMPATIBLE, c)
            else do {
              (rc, mc2, data) \<leftarrow> mdb_node_read sn mc2 mp leaf;
              let c = c\<lparr>mc_txn_flags := mc_txn_flags mc2\<rparr>;
              if rc \<noteq> 0 then Some (Inl rc, c)
              else do {
                db \<leftarrow> db_of_bytes data;
                Some (if md_flags (mc_db c) AND PERSISTENT_FLAGS \<noteq> md_flags db then Inl MDB_INCOMPATIBLE
                      else Inr db, c) } } } } })"

definition mdb_page_search :: "snapshot \<Rightarrow> ps \<Rightarrow> MDB_cursor \<Rightarrow> (int \<times> MDB_cursor) option" where
  "mdb_page_search sn ps c =
     (if mc_txn_flags c AND TXN_BLOCKED \<noteq> 0 then Some (MDB_BAD_TXN, c)
      else if mc_stale c
      then do { (r, c) \<leftarrow> refresh_db sn c;
                case r of Inl rc \<Rightarrow> Some (rc, c)
                | Inr db \<Rightarrow> page_search_from sn ps (c\<lparr>mc_db := db, mc_stale := False\<rparr>) }
      else page_search_from sn ps c)"

section \<open>Moving\<close>

definition mdb_cursor_init :: "snapshot \<Rightarrow> nat \<Rightarrow> MDB_db \<Rightarrow> cmp_fn \<Rightarrow> cmp_fn option \<Rightarrow> bool \<Rightarrow> u32 \<Rightarrow> MDB_cursor option" where
  "mdb_cursor_init sn dbi db cmp dcmp stale flags =
     (let c = \<lparr>mc_dbi = dbi, mc_db = db, mc_cmp = cmp, mc_dcmp = dcmp, mc_stale = stale, mc_txn_flags = flags, mc_snum = 0,
               mc_top = 0, mc_init = False, mc_eof = False, mc_del = False, mc_pg = (\<lambda>_. None), mc_ki = (\<lambda>_. 0)\<rparr>
      in if md_flags db AND MDB_DUPSORT \<noteq> 0 then None
         else if stale then map_option snd (mdb_page_search sn PS_ROOTONLY c) else Some c)"

text \<open>The page at the top is replaced by its right or left neighbour.\<close>

function mdb_cursor_sibling :: "snapshot \<Rightarrow> bool \<Rightarrow> MDB_cursor \<Rightarrow> (int \<times> MDB_cursor) option" where
  "mdb_cursor_sibling sn right c =
     (if mc_snum c < 2 then Some (MDB_NOTFOUND, c)
      else let c = mdb_cursor_pop c
           in case top_page c of None \<Rightarrow> None | Some mp \<Rightarrow>
             (case NUMKEYS mp of None \<Rightarrow> None | Some n \<Rightarrow>
               (case (if (if right then n \<le> top_ki c + 1 else top_ki c = 0)
                      then (case mdb_cursor_sibling sn right c of
                              None \<Rightarrow> None
                            | Some (rc, c) \<Rightarrow>
                                if rc \<noteq> 0 then Some (Inl (rc, c\<lparr>mc_top := mc_top c + 1, mc_snum := mc_snum c + 1\<rparr>))
                                else Some (Inr c))
                      else Some (Inr (set_ki c (if right then (top_ki c + 1) mod 2 ^ 16 else top_ki c - 1)))) of
                  None \<Rightarrow> None
                | Some (Inl r) \<Rightarrow> Some r
                | Some (Inr c) \<Rightarrow>
                    do { mp \<leftarrow> top_page c;
                         branch \<leftarrow> IS_BRANCH mp;
                         if \<not> branch then None
                         else do {
                           off \<leftarrow> NODEPTR mp (top_ki c); pgno \<leftarrow> NODEPGNO mp off;
                           case page_get sn c pgno of
                             Inl (rc, c) \<Rightarrow> Some (rc, c\<lparr>mc_init := False, mc_eof := False\<rparr>)
                           | Inr mp \<Rightarrow>
                               do { n \<leftarrow> NUMKEYS mp;
                                    let c = snd (mdb_cursor_push c mp);
                                    Some (0, if right then c else set_ki c (indx_sub n 1)) } } })))"
  by pat_completeness auto
termination
  by (relation "measure (\<lambda>(sn, r, c). mc_snum c)") (auto simp: mdb_cursor_pop_def Let_def)

declare mdb_cursor_sibling.simps [simp del]

section \<open>Reading at the cursor\<close>

text \<open>What an operation stores in \<open>*key\<close> and \<open>*data\<close>; \<open>None\<close> is left as it was. \<open>want\<close> says that
  \<open>data\<close> is not \<open>NULL\<close>; \<open>key\<close> never is.\<close>

type_synonym items = "mval option \<times> mval option"

text \<open>The end of \<open>mdb_cursor_next\<close>, \<open>prev\<close>, \<open>first\<close> and \<open>last\<close>.\<close>

definition read_item :: "snapshot \<Rightarrow> bool \<Rightarrow> MDB_cursor \<Rightarrow> (int \<times> MDB_cursor \<times> items) option" where
  "read_item sn want c =
     do { mp \<leftarrow> top_page c; leaf2 \<leftarrow> IS_LEAF2 mp;
          if leaf2
          then do { let pad = unat (md_pad (mc_db c)); k \<leftarrow> get_bytes mp (LEAF2KEY (top_ki c) pad) pad;
                    Some (0, c, Some k, None) }
          else do {
            off \<leftarrow> NODEPTR mp (top_ki c); fl \<leftarrow> NODEFLAGS mp off;
            if F_ISSET fl F_DUPDATA then None
            else do {
              (rc, c, d) \<leftarrow> (if want then do { (rc, c, d) \<leftarrow> mdb_node_read sn c mp off; Some (rc, c, Some d) }
                            else Some (0, c, None));
              if rc \<noteq> 0 then Some (rc, c, None, None)
              else do { k \<leftarrow> NODEKEY mp off; Some (0, c, Some k, d) } } } }"

definition no_items :: "(int \<times> MDB_cursor) \<Rightarrow> (int \<times> MDB_cursor \<times> items) option" where
  "no_items r = Some (fst r, snd r, None, None)"

definition assert_leaf :: "MDB_cursor \<Rightarrow> page option" where
  "assert_leaf c = do { mp \<leftarrow> top_page c; leaf \<leftarrow> IS_LEAF mp; if leaf then Some mp else None }"

definition mdb_cursor_first :: "snapshot \<Rightarrow> bool \<Rightarrow> MDB_cursor \<Rightarrow> (int \<times> MDB_cursor \<times> items) option" where
  "mdb_cursor_first sn want c =
     do { (rc, c) \<leftarrow> (if \<not> mc_init c \<or> mc_top c \<noteq> 0 then mdb_page_search sn PS_FIRST c else Some (0, c));
          if rc \<noteq> 0 then no_items (rc, c)
          else do {
            _ \<leftarrow> assert_leaf c;
            read_item sn want (set_ki (c\<lparr>mc_init := True, mc_eof := False\<rparr>) 0) } }"

definition mdb_cursor_last :: "snapshot \<Rightarrow> bool \<Rightarrow> MDB_cursor \<Rightarrow> (int \<times> MDB_cursor \<times> items) option" where
  "mdb_cursor_last sn want c =
     do { (rc, c) \<leftarrow> (if \<not> mc_init c \<or> mc_top c \<noteq> 0 then mdb_page_search sn PS_LAST c else Some (0, c));
          if rc \<noteq> 0 then no_items (rc, c)
          else do {
            mp \<leftarrow> assert_leaf c;
            n \<leftarrow> NUMKEYS mp;
            read_item sn want ((set_ki c (indx_sub n 1))\<lparr>mc_init := True, mc_eof := True\<rparr>) } }"

datatype cursor_op =
    MDB_FIRST | MDB_FIRST_DUP | MDB_GET_BOTH | MDB_GET_BOTH_RANGE | MDB_GET_CURRENT | MDB_GET_MULTIPLE | MDB_LAST
  | MDB_LAST_DUP | MDB_NEXT | MDB_NEXT_DUP | MDB_NEXT_MULTIPLE | MDB_NEXT_NODUP | MDB_PREV | MDB_PREV_DUP
  | MDB_PREV_NODUP | MDB_SET | MDB_SET_KEY | MDB_SET_RANGE | MDB_PREV_MULTIPLE

definition mdb_cursor_next :: "snapshot \<Rightarrow> bool \<Rightarrow> cursor_op \<Rightarrow> MDB_cursor \<Rightarrow> (int \<times> MDB_cursor \<times> items) option" where
  "mdb_cursor_next sn want oper c =
     (if mc_del c \<and> oper = MDB_NEXT_DUP then no_items (MDB_NOTFOUND, c)
      else if \<not> mc_init c then mdb_cursor_first sn want c
      else do {
        mp \<leftarrow> top_page c; n \<leftarrow> NUMKEYS mp;
        if mc_eof c \<and> int n - 1 \<le> int (top_ki c) \<and> 0 < n then no_items (MDB_NOTFOUND, c)
        else do {
          let c = c\<lparr>mc_eof := False\<rparr>;
          if md_flags (mc_db c) AND MDB_DUPSORT \<noteq> 0 then None
          else do {
            (rc, c) \<leftarrow> (if mc_del c then Some (0, c\<lparr>mc_del := False\<rparr>)
                       else if n \<le> top_ki c + 1
                       then do { (rc, c) \<leftarrow> mdb_cursor_sibling sn True c;
                                 Some (rc, if rc \<noteq> 0 then c\<lparr>mc_eof := True\<rparr> else c) }
                       else Some (0, set_ki c ((top_ki c + 1) mod 2 ^ 16)));
            if rc \<noteq> 0 then no_items (rc, c)
            else do {
              mp \<leftarrow> top_page c; leaf2 \<leftarrow> IS_LEAF2 mp;
              _ \<leftarrow> (if leaf2 then Some mp else assert_leaf c);
              read_item sn want c } } } })"

definition mdb_cursor_prev :: "snapshot \<Rightarrow> bool \<Rightarrow> cursor_op \<Rightarrow> MDB_cursor \<Rightarrow> (int \<times> MDB_cursor \<times> items) option" where
  "mdb_cursor_prev sn want oper c =
     do { (rc, c) \<leftarrow> (if mc_init c then Some (0, c)
                     else do { (rc, c, _) \<leftarrow> mdb_cursor_last sn want c;
                               Some (rc, if rc \<noteq> 0 then c else set_ki c ((top_ki c + 1) mod 2 ^ 16)) });
          if rc \<noteq> 0 then no_items (rc, c)
          else if md_flags (mc_db c) AND MDB_DUPSORT \<noteq> 0 then None
          else do {
            let c = c\<lparr>mc_eof := False, mc_del := False\<rparr>;
            (rc, c) \<leftarrow> (if top_ki c = 0
                       then do { (rc, c) \<leftarrow> mdb_cursor_sibling sn False c;
                                 if rc \<noteq> 0 then Some (rc, c)
                                 else do { mp \<leftarrow> top_page c; n \<leftarrow> NUMKEYS mp; Some (0, set_ki c (indx_sub n 1)) } }
                       else Some (0, set_ki c (top_ki c - 1)));
            if rc \<noteq> 0 then no_items (rc, c)
            else do {
              mp \<leftarrow> top_page c; leaf \<leftarrow> IS_LEAF mp;
              if \<not> leaf then no_items (MDB_CORRUPTED, c) else read_item sn want c } } }"

section \<open>Setting a cursor to a key\<close>

text \<open>The comparison with the key at an index of the top page.\<close>

definition cmp_at :: "MDB_cursor \<Rightarrow> mval \<Rightarrow> page \<Rightarrow> nat \<Rightarrow> int option" where
  "cmp_at c key mp i =
     do { fl \<leftarrow> MP_FLAGS mp;
          nodekey \<leftarrow> (if fl AND P_LEAF2 \<noteq> 0
                     then get_bytes mp (LEAF2KEY i (unat (md_pad (mc_db c)))) (unat (md_pad (mc_db c)))
                     else key_at mp i);
          run_cmp (mc_cmp c) key nodekey }"

text \<open>Whether a page above the top one has a right neighbour at the cursor: the loop over the parents.\<close>

fun parent_sibling :: "MDB_cursor \<Rightarrow> nat \<Rightarrow> nat \<Rightarrow> bool option" where
  "parent_sibling c i 0 = Some False"
| "parent_sibling c i (Suc m) =
     do { mp \<leftarrow> mc_pg c i; n \<leftarrow> NUMKEYS mp;
          if n = 0 \<or> mc_ki c i < n - 1 then Some True else parent_sibling c (i + 1) m }"

text \<open>Where the first part of \<open>mdb_cursor_set\<close> goes: it returns, or jumps to a label, or searches the tree.\<close>

datatype set_jump = Set_ret int | Set_1 int | Set_2 | Set_search

text \<open>The part that looks at the page the cursor is on. \<open>exactp\<close> says that the pointer is not \<open>NULL\<close>.\<close>

definition set_here :: "MDB_cursor \<Rightarrow> mval \<Rightarrow> cursor_op \<Rightarrow> bool \<Rightarrow> (set_jump \<times> MDB_cursor) option" where
  "set_here c key oper exactp =
     do { mp \<leftarrow> top_page c; n \<leftarrow> NUMKEYS mp;
          if n = 0 then Some (Set_ret MDB_NOTFOUND, set_ki c 0)
          else do {
          rc \<leftarrow> cmp_at c key mp 0;
          if rc = 0 then Some (Set_1 0, set_ki c 0)
          else do {
          last \<leftarrow> (if 0 < rc \<and> 1 < n then cmp_at c key mp (n - 1) else Some 1);
          if 0 < rc \<and> last = 0 then Some (Set_1 0, set_ki c ((n - 1) mod 2 ^ 16))
          else if 0 < rc \<and> last < 0
          then do { cur \<leftarrow> (if top_ki c < n then cmp_at c key mp (top_ki c) else Some 1);
                    Some (if cur = 0 then (Set_1 0, c) else (Set_2, c\<lparr>mc_eof := False\<rparr>)) }
          else do {
          more \<leftarrow> (if 0 < rc then parent_sibling c 0 (mc_top c) else Some True);
          Some (if \<not> more then (Set_ret MDB_NOTFOUND, set_ki c (n mod 2 ^ 16))
                else if mc_top c = 0
                then (if oper = MDB_SET_RANGE \<and> \<not> exactp then Set_1 0 else Set_ret MDB_NOTFOUND, set_ki c 0)
                else (Set_search, c)) } } } }"

text \<open>From \<open>set1\<close> on: the answer. \<open>data\<close> is \<open>None\<close> for \<open>NULL\<close>. The variable \<open>leaf\<close> of the code is
  the node at the cursor on every way to this label.\<close>

definition set_answer :: "snapshot \<Rightarrow> MDB_cursor \<Rightarrow> mval option \<Rightarrow> cursor_op \<Rightarrow> (int \<times> MDB_cursor \<times> items) option" where
  "set_answer sn c data oper =
     do { let c = c\<lparr>mc_init := True, mc_eof := False\<rparr>;
          mp \<leftarrow> top_page c; leaf2 \<leftarrow> IS_LEAF2 mp;
          if leaf2
          then (if oper = MDB_SET_RANGE \<or> oper = MDB_SET_KEY
                then do { let pad = unat (md_pad (mc_db c)); k \<leftarrow> get_bytes mp (LEAF2KEY (top_ki c) pad) pad;
                          Some (0, c, Some k, None) }
                else Some (0, c, None, None))
          else do {
            off \<leftarrow> NODEPTR mp (top_ki c); fl \<leftarrow> NODEFLAGS mp off;
            if F_ISSET fl F_DUPDATA then None
            else do {
              (rc, c, d) \<leftarrow> (case data of
                  None \<Rightarrow> Some (0, c, None)
                | Some v \<Rightarrow>
                    do { (rc, c, old) \<leftarrow> mdb_node_read sn c mp off;
                         if rc \<noteq> 0 \<or> \<not> (oper = MDB_GET_BOTH \<or> oper = MDB_GET_BOTH_RANGE) then Some (rc, c, Some old)
                         else do {
                           f \<leftarrow> mc_dcmp c;
                           r \<leftarrow> mdb_dcmp f v old;
                           Some (if r \<noteq> 0 \<and> (oper = MDB_GET_BOTH \<or> 0 < r) then (MDB_NOTFOUND, c, None)
                                 else (0, c, Some old)) } });
              if rc \<noteq> 0 then Some (rc, c, None, None)
              else if oper = MDB_SET_RANGE \<or> oper = MDB_SET_KEY
              then do { k \<leftarrow> NODEKEY mp off; Some (0, c, Some k, d) }
              else Some (0, c, None, d) } } }"

definition set_2 :: "snapshot \<Rightarrow> MDB_cursor \<Rightarrow> mval \<Rightarrow> mval option \<Rightarrow> cursor_op \<Rightarrow> bool
    \<Rightarrow> (int \<times> MDB_cursor \<times> items) option" where
  "set_2 sn c key data oper exactp =
     do { (c, exact, found) \<leftarrow> node_search c key;
          if exactp \<and> \<not> exact then no_items (MDB_NOTFOUND, c)
          else if found then set_answer sn c data oper
          else do {
            (rc, c) \<leftarrow> mdb_cursor_sibling sn True c;
            if rc \<noteq> 0 then no_items (rc, c\<lparr>mc_eof := True\<rparr>)
            else do { _ \<leftarrow> assert_leaf c; set_answer sn c data oper } } }"

definition mdb_cursor_set :: "snapshot \<Rightarrow> MDB_cursor \<Rightarrow> mval \<Rightarrow> mval option \<Rightarrow> cursor_op \<Rightarrow> bool
    \<Rightarrow> (int \<times> MDB_cursor \<times> items) option" where
  "mdb_cursor_set sn c key data oper exactp =
     (if key = [] then no_items (MDB_BAD_VALSIZE, c)
      else do {
        (jump, c) \<leftarrow> (if mc_init c then set_here c key oper exactp
                     else Some (Set_search, c\<lparr>mc_pg := (mc_pg c)(0 := None)\<rparr>));
        case jump of
          Set_ret rc \<Rightarrow> no_items (rc, c)
        | Set_1 rc \<Rightarrow> set_answer sn c data oper
        | Set_2 \<Rightarrow> set_2 sn c key data oper exactp
        | Set_search \<Rightarrow>
            do { (rc, c) \<leftarrow> mdb_page_search sn (PS_KEY key) c;
                 if rc \<noteq> 0 then no_items (rc, c)
                 else do { _ \<leftarrow> assert_leaf c; set_2 sn c key data oper exactp } } })"

section \<open>The operations of the interface\<close>

definition get_current :: "snapshot \<Rightarrow> bool \<Rightarrow> MDB_cursor \<Rightarrow> (int \<times> MDB_cursor \<times> items) option" where
  "get_current sn want c =
     (if \<not> mc_init c then no_items (EINVAL, c)
      else do { mp \<leftarrow> top_page c; n \<leftarrow> NUMKEYS mp;
                if n = 0 \<or> n \<le> top_ki c then no_items (MDB_NOTFOUND, set_ki c (n mod 2 ^ 16))
                else do {
                  leaf2 \<leftarrow> IS_LEAF2 mp;
                  if leaf2
                  then do { let pad = unat (md_pad (mc_db c)); k \<leftarrow> get_bytes mp (LEAF2KEY (top_ki c) pad) pad;
                            Some (0, c, Some k, None) }
                  else do {
                    off \<leftarrow> NODEPTR mp (top_ki c); k \<leftarrow> NODEKEY mp off; fl \<leftarrow> NODEFLAGS mp off;
                    if \<not> want then Some (0, c, Some k, None)
                    else if F_ISSET fl F_DUPDATA then None
                    else do { (rc, c, d) \<leftarrow> mdb_node_read sn c mp off;
                              Some (rc, c, Some k, if rc \<noteq> 0 then None else Some d) } } } })"

text \<open>\<open>data\<close> is the data item passed, \<open>None\<close> for \<open>NULL\<close>. The operations for duplicates answer as they do
  without a sub-cursor.\<close>

definition mdb_cursor_get :: "snapshot \<Rightarrow> MDB_cursor \<Rightarrow> mval \<Rightarrow> mval option \<Rightarrow> cursor_op
    \<Rightarrow> (int \<times> MDB_cursor \<times> items) option" where
  "mdb_cursor_get sn c key data oper =
     (if mc_txn_flags c AND TXN_BLOCKED \<noteq> 0 then no_items (MDB_BAD_TXN, c)
      else do {
        let want = (data \<noteq> None);
        let fixed = (md_flags (mc_db c) AND MDB_DUPFIXED \<noteq> 0);
        (rc, c, it) \<leftarrow>
          (case oper of
             MDB_GET_CURRENT \<Rightarrow> get_current sn want c
           | MDB_GET_BOTH \<Rightarrow> no_items (if want then MDB_INCOMPATIBLE else EINVAL, c)
           | MDB_GET_BOTH_RANGE \<Rightarrow> no_items (if want then MDB_INCOMPATIBLE else EINVAL, c)
           | MDB_SET \<Rightarrow> mdb_cursor_set sn c key data oper True
           | MDB_SET_KEY \<Rightarrow> mdb_cursor_set sn c key data oper True
           | MDB_SET_RANGE \<Rightarrow> mdb_cursor_set sn c key data oper False
           | MDB_GET_MULTIPLE \<Rightarrow>
               if \<not> want \<or> \<not> mc_init c then no_items (EINVAL, c) else if \<not> fixed then no_items (MDB_INCOMPATIBLE, c) else None
           | MDB_NEXT_MULTIPLE \<Rightarrow>
               if \<not> want then no_items (EINVAL, c) else if \<not> fixed then no_items (MDB_INCOMPATIBLE, c) else None
           | MDB_PREV_MULTIPLE \<Rightarrow>
               if \<not> want then no_items (EINVAL, c) else if \<not> fixed then no_items (MDB_INCOMPATIBLE, c) else None
           | MDB_NEXT \<Rightarrow> mdb_cursor_next sn want oper c
           | MDB_NEXT_DUP \<Rightarrow> mdb_cursor_next sn want oper c
           | MDB_NEXT_NODUP \<Rightarrow> mdb_cursor_next sn want oper c
           | MDB_PREV \<Rightarrow> mdb_cursor_prev sn want oper c
           | MDB_PREV_DUP \<Rightarrow> mdb_cursor_prev sn want oper c
           | MDB_PREV_NODUP \<Rightarrow> mdb_cursor_prev sn want oper c
           | MDB_FIRST \<Rightarrow> mdb_cursor_first sn want c
           | MDB_LAST \<Rightarrow> mdb_cursor_last sn want c
           | MDB_FIRST_DUP \<Rightarrow> no_items (if \<not> want \<or> \<not> mc_init c then EINVAL else MDB_INCOMPATIBLE, c)
           | MDB_LAST_DUP \<Rightarrow> no_items (if \<not> want \<or> \<not> mc_init c then EINVAL else MDB_INCOMPATIBLE, c));
        Some (rc, c\<lparr>mc_del := False\<rparr>, it) })"

text \<open>\<open>mdb_get\<close>. \<open>usr_valid\<close> says that the handle is open; \<open>key\<close> and \<open>data\<close> are not \<open>NULL\<close>.\<close>

definition mdb_get :: "snapshot \<Rightarrow> bool \<Rightarrow> nat \<Rightarrow> MDB_db \<Rightarrow> cmp_fn \<Rightarrow> cmp_fn option \<Rightarrow> bool \<Rightarrow> u32 \<Rightarrow> mval
    \<Rightarrow> (int \<times> mval option) option" where
  "mdb_get sn usr_valid dbi db cmp dcmp stale flags key =
     (if \<not> usr_valid then Some (EINVAL, None)
      else if flags AND TXN_BLOCKED \<noteq> 0 then Some (MDB_BAD_TXN, None)
      else do { c \<leftarrow> mdb_cursor_init sn dbi db cmp dcmp stale flags;
                (rc, c, _, d) \<leftarrow> mdb_cursor_set sn c key (Some []) MDB_SET True;
                Some (rc, d) })"

end
