(* ===== verification/Mdb_Tree.thy ===== *)
theory Mdb_Tree
  imports Mdb_Cursor
begin

text \<open>
  What a reader sees of a B+tree: the pages of a snapshot form a tree, whose leaves hold the items in order.
  \<open>mdb_get\<close> is a lookup in the list of items, a cursor moved with \<open>MDB_NEXT\<close> walks over that list, and one set
  with \<open>MDB_SET_RANGE\<close> stands at its first item with no smaller key.
\<close>

section \<open>Trees of pages\<close>

datatype tree = Leaf page | Node page "tree list"

primrec tree_page :: "tree \<Rightarrow> page" where
  "tree_page (Leaf p) = p"
| "tree_page (Node p ts) = p"

definition nd_pgno :: "page \<Rightarrow> nat \<Rightarrow> nat" where
  "nd_pgno p i = n_word p (pg_ptr p i) + n_flags p (pg_ptr p i) * 2 ^ 32"

text \<open>The data of a leaf node, in the node or on overflow pages.\<close>

definition node_value :: "snapshot \<Rightarrow> node \<Rightarrow> mval option" where
  "node_value sn nd =
     (if F_ISSET (nd_flags nd) F_BIGDATA
      then (case sn_page sn (le_val (nd_data nd)) of
              None \<Rightarrow> None
            | Some op \<Rightarrow> if PAGEHDRSZ + nd_word nd \<le> length op then Some (sub op PAGEHDRSZ (nd_word nd)) else None)
      else Some (nd_data nd))"

definition leaf_items :: "snapshot \<Rightarrow> page \<Rightarrow> (mval \<times> mval) list" where
  "leaf_items sn p = map (\<lambda>nd. (nd_key nd, the (node_value sn nd))) (page_nodes p)"

fun tree_items :: "snapshot \<Rightarrow> tree \<Rightarrow> (mval \<times> mval) list" where
  "tree_items sn (Leaf p) = leaf_items sn p"
| "tree_items sn (Node p ts) = concat (map (tree_items sn) ts)"

text \<open>A tree in a snapshot: pages in order, the children at the page numbers the nodes give, at least one
  key on a leaf and two on a branch page, data that can be read; all leaves on level \<open>h\<close>.\<close>

definition leaf_ok :: "snapshot \<Rightarrow> page \<Rightarrow> bool" where
  "leaf_ok sn p \<longleftrightarrow> page_wf p \<and> page_kind p \<and> pg_leaf p \<and> 0 < pg_cnt p
     \<and> (\<forall>nd \<in> set (page_nodes p). \<not> F_ISSET (nd_flags nd) F_DUPDATA \<and> node_value sn nd \<noteq> None)"

fun tree_in :: "snapshot \<Rightarrow> nat \<Rightarrow> tree \<Rightarrow> bool" where
  "tree_in sn h (Leaf p) \<longleftrightarrow> h = 0 \<and> leaf_ok sn p"
| "tree_in sn h (Node p ts) \<longleftrightarrow>
     0 < h \<and> page_wf p \<and> page_kind p \<and> \<not> pg_leaf p \<and> 1 < pg_cnt p \<and> length ts = pg_cnt p
     \<and> (\<forall>i < pg_cnt p. sn_page sn (nd_pgno p i) = Some (tree_page (ts ! i)))
     \<and> (\<forall>t \<in> set ts. tree_in sn (h - 1) t)"

text \<open>The order of the keys: key \<open>i\<close> of a branch page separates the items below child \<open>i\<close> from those before.\<close>

fun tree_sorted :: "cmp_fn \<Rightarrow> nat \<Rightarrow> snapshot \<Rightarrow> tree \<Rightarrow> bool" where
  "tree_sorted f n sn (Leaf p) \<longleftrightarrow> keys_sorted f n p"
| "tree_sorted f n sn (Node p ts) \<longleftrightarrow>
     keys_sorted f n p
     \<and> (\<forall>i < length ts. 0 < i \<longrightarrow>
          (\<forall>kv \<in> set (tree_items sn (ts ! i)). key_meaning f (page_keys p ! i) \<le> key_meaning f (fst kv))
          \<and> (\<forall>kv \<in> set (tree_items sn (ts ! (i - 1))). key_meaning f (fst kv) < key_meaning f (page_keys p ! i)))
     \<and> (\<forall>t \<in> set ts. tree_sorted f n sn t)"

section \<open>Reading a page\<close>

lemma page_len: "page_wf p \<Longrightarrow> 16 \<le> length p"
  by (simp add: page_wf_def)

lemma NODEPTR_eq: "page_wf p \<Longrightarrow> i < pg_cnt p \<Longrightarrow> NODEPTR p i = Some (pg_ptr p i)"
  using page_node_bounds(1) by (simp add: NODEPTR_def page_hdr)

lemma two_halves: "off + 4 \<le> length p \<Longrightarrow> le_at 2 p off + le_at 2 p (off + 2) * 65536 = le_at 4 p off"
proof -
  assume "off + 4 \<le> length p"
  then have "le_at (2 + 2) p off = le_at 2 p off + 256 ^ 2 * le_at 2 p (off + 2)" by (intro le_at_split) simp
  then show ?thesis by simp
qed

lemma node_fields:
  assumes "page_wf p" "i < pg_cnt p"
  shows "NODEFLAGS p (pg_ptr p i) = Some (n_flags p (pg_ptr p i))"
    "NODEDSZ p (pg_ptr p i) = Some (n_word p (pg_ptr p i))"
    "NODEDATA p (pg_ptr p i) = Some (pg_ptr p i + 8 + n_ksize p (pg_ptr p i))"
    "NODEKEY p (pg_ptr p i) = Some (page_keys p ! i)"
    "NODEPGNO p (pg_ptr p i) = Some (nd_pgno p i)"
  using page_node_bounds(2,3) [OF assms] key_at_eq [OF assms] two_halves [of "pg_ptr p i" p] NODEPTR_eq [OF assms]
  by (simp_all add: NODEFLAGS_def ld_le_at n_flags_def NODEDSZ_def n_word_def NODEDATA_def NODEKSZ_def n_ksize_def
      NODESIZE_def NODEPGNO_def nd_pgno_def key_at_def)

lemma page_nodes_nth: "i < pg_cnt p \<Longrightarrow> page_nodes p ! i = node_at (pg_leaf p) p (pg_ptr p i)"
  by (simp add: page_nodes_def)

lemma length_page_nodes [simp]: "length (page_nodes p) = pg_cnt p"
  by (simp add: page_nodes_def)

lemma node_read_leaf:
  assumes "leaf_ok sn p" "i < pg_cnt p"
  shows "mdb_node_read sn c p (pg_ptr p i) = Some (0, c, snd (leaf_items sn p ! i))"
    "fst (leaf_items sn p ! i) = page_keys p ! i"
    "\<not> F_ISSET (n_flags p (pg_ptr p i)) F_DUPDATA"
proof -
  let ?nd = "page_nodes p ! i" and ?o = "pg_ptr p i"
  have ok: "page_wf p" "pg_leaf p" "\<not> F_ISSET (nd_flags ?nd) F_DUPDATA" "node_value sn ?nd \<noteq> None"
    using assms by (simp_all add: leaf_ok_def)
  have nd: "?nd = node_at True p ?o" using page_nodes_nth [OF assms(2)] ok(2) by simp
  show "fst (leaf_items sn p ! i) = page_keys p ! i" using assms(2) by (simp add: leaf_items_def page_keys_def)
  show "\<not> F_ISSET (n_flags p ?o) F_DUPDATA" using ok(3) by (simp add: nd node_at_def)
  have v: "snd (leaf_items sn p ! i) = the (node_value sn ?nd)" using assms(2) by (simp add: leaf_items_def)
  note b = page_node_bounds(3) [OF ok(1) assms(2)]
  show "mdb_node_read sn c p ?o = Some (0, c, snd (leaf_items sn p ! i))"
  proof (cases "F_ISSET (n_flags p ?o) F_BIGDATA")
    case True
    then have d: "n_dsize True p ?o = 8" by (simp add: n_dsize_def data_size_def)
    obtain op where op: "sn_page sn (le_val (sub p (?o + 8 + n_ksize p ?o) 8)) = Some op"
      "16 + n_word p ?o \<le> length op"
      using ok(4) True by (auto simp: nd node_at_def node_value_def d PAGEHDRSZ_def split: option.splits if_splits)
    have "ld 8 p (?o + 8 + n_ksize p ?o) = Some (le_val (sub p (?o + 8 + n_ksize p ?o) 8))"
      using b ok(2) d by (simp add: ld_le_at le_at_def)
    then show ?thesis
      using op True by (simp add: mdb_node_read_def node_fields [OF ok(1) assms(2)] page_get_def get_bytes_def v
          nd node_at_def node_value_def d PAGEHDRSZ_def sub_def)
  next
    case False
    then have d: "n_dsize True p ?o = n_word p ?o" by (simp add: n_dsize_def data_size_def)
    then show ?thesis
      using False b ok(2) by (simp add: mdb_node_read_def node_fields [OF ok(1) assms(2)] get_bytes_def v
          nd node_at_def node_value_def sub_def)
  qed
qed

lemma page_kinds:
  assumes "page_wf p"
  shows "NUMKEYS p = Some (pg_cnt p)" "IS_LEAF p = Some (pg_leaf p)" "IS_LEAF2 p = Some False"
    "page_kind p \<Longrightarrow> IS_BRANCH p = Some (\<not> pg_leaf p)"
  using assms page_len [OF assms]
  by (simp_all add: page_hdr page_wf_def IS_BRANCH_def MP_FLAGS_def ld_le_at pg_flags_def [symmetric] page_kind_def)

section \<open>Descending to a key\<close>

lemma pg_cnt_less:
  assumes "page_wf p"
  shows "pg_cnt p < 2 ^ 16"
proof -
  have "pg_lower p \<le> 2 ^ 15" "16 \<le> pg_lower p" using assms unfolding page_wf_def by linarith+
  then show ?thesis by (simp add: pg_cnt_eq)
qed

lemma root_index_key:
  assumes "page_wf p" "page_kind p" "\<not> pg_leaf p" "1 < pg_cnt p" "keys_sorted (mc_cmp c) n p" "key_ok (mc_cmp c) n key"
    "branch_keysize (mc_cmp c) n" "top_page c = Some p"
  shows "\<exists>m i. root_index (PS_KEY key) c (pg_cnt p) = Some (Some m, set_ki c i) \<and> m < pg_cnt p
    \<and> (\<forall>j. 1 \<le> j \<longrightarrow> j \<le> m \<longrightarrow> key_meaning (mc_cmp c) (page_keys p ! j) \<le> key_meaning (mc_cmp c) key)
    \<and> (\<forall>j. m < j \<longrightarrow> j < pg_cnt p \<longrightarrow> key_meaning (mc_cmp c) key < key_meaning (mc_cmp c) (page_keys p ! j))"
proof -
  let ?f = "mc_cmp c"
  let ?mean = "key_meaning ?f"
  have lo: "lo0 p = 1" using assms(3) by (simp add: lo0_def)
  obtain i exact where s: "mdb_node_search ?f (unat (md_pad (mc_db c))) p key = Some (i, exact, i < pg_cnt p)"
    "1 \<le> i" "i \<le> pg_cnt p" "exact \<longleftrightarrow> (\<exists>j < pg_cnt p. 1 \<le> j \<and> page_keys p ! j = key)"
    "exact \<longrightarrow> i < pg_cnt p \<and> page_keys p ! i = key"
    "\<And>j. j < i \<Longrightarrow> 1 \<le> j \<Longrightarrow> ?mean (page_keys p ! j) < ?mean key"
    "\<And>j. j < pg_cnt p \<Longrightarrow> i \<le> j \<Longrightarrow> ?mean key \<le> ?mean (page_keys p ! j)"
    using mdb_node_search_spec [OF assms(1,2,5,6,7), of "unat (md_pad (mc_db c))"] assms(4) lo by auto
  have ns: "node_search c key = Some (set_ki c i, exact, i < pg_cnt p)"
    using assms(8) s(1) by (simp add: node_search_def)
  have last: "indx_sub (pg_cnt p) 1 = pg_cnt p - 1"
    using pg_cnt_less [OF assms(1)] assms(4) by (intro indx_sub_eq) auto
  have ki: "top_ki (set_ki c i) = i" by (simp add: set_ki_def)
  have strict: "?mean key < ?mean (page_keys p ! j)" if "\<not> exact" "j < pg_cnt p" "i \<le> j" for j
  proof -
    have "page_keys p ! j \<noteq> key" using s(2,4) that by auto
    moreover have "key_ok ?f n (page_keys p ! j)" using assms(5) that s(2) lo by (simp add: keys_sorted_def)
    ultimately have "?mean (page_keys p ! j) \<noteq> ?mean key" using keys.inj [OF _ assms(6)] by blast
    then show ?thesis using s(7) [OF that(2,3)] by simp
  qed
  have sorted: "?mean (page_keys p ! a) < ?mean (page_keys p ! b)" if "1 \<le> a" "a < b" "b < pg_cnt p" for a b
    using assms(5) that lo by (simp add: keys_sorted_def)
  consider "pg_cnt p \<le> i" | "i < pg_cnt p" "exact" | "i < pg_cnt p" "\<not> exact" by linarith
  then show ?thesis
  proof cases
    case 1
    then have "root_index (PS_KEY key) c (pg_cnt p) = Some (Some (pg_cnt p - 1), set_ki c i)"
      by (simp add: root_index_def ns last [unfolded One_nat_def])
    then show ?thesis using 1 s(6) assms(4) by (intro exI [of _ "pg_cnt p - 1"] exI [of _ i]) (auto intro: less_imp_le)
  next
    case 2
    then have "root_index (PS_KEY key) c (pg_cnt p) = Some (Some i, set_ki c i)"
      by (simp add: root_index_def ns ki)
    moreover have "page_keys p ! i = key" using 2 s(5) by simp
    moreover have "?mean (page_keys p ! j) \<le> ?mean key" if "1 \<le> j" "j \<le> i" for j
      using s(6) [of j] that \<open>page_keys p ! i = key\<close> by (cases "j = i") (auto intro: less_imp_le)
    ultimately show ?thesis using 2 sorted [of i] s(2) by (intro exI [of _ i] exI [of _ i]) auto
  next
    case 3
    then have "root_index (PS_KEY key) c (pg_cnt p) = Some (Some (i - 1), set_ki c i)"
      using s(2) by (simp add: root_index_def ns ki)
    moreover have "?mean (page_keys p ! j) \<le> ?mean key" if "1 \<le> j" "j \<le> i - 1" for j
      using s(6) [of j] that s(2) by (auto intro: less_imp_le)
    ultimately show ?thesis using 3 strict s(2) by (intro exI [of _ "i - 1"] exI [of _ i]) auto
  qed
qed

lemma top_page_upd [simp]:
  "top_page (set_ki c i) = top_page c" "top_page (c\<lparr>mc_init := a\<rparr>) = top_page c"
  "top_page (c\<lparr>mc_eof := b\<rparr>) = top_page c" "top_page (c\<lparr>mc_del := b\<rparr>) = top_page c"
  by (simp_all add: top_page_def set_ki_def)

text \<open>What stays of a cursor on the way down.\<close>

definition same_db :: "MDB_cursor \<Rightarrow> MDB_cursor \<Rightarrow> bool" where
  "same_db c c' \<longleftrightarrow> mc_dbi c' = mc_dbi c \<and> mc_db c' = mc_db c \<and> mc_cmp c' = mc_cmp c \<and> mc_dcmp c' = mc_dcmp c
     \<and> mc_stale c' = mc_stale c \<and> mc_txn_flags c' = mc_txn_flags c \<and> mc_del c' = mc_del c"

lemma same_db_refl [simp]: "same_db c c"
  and same_db_trans: "same_db c d \<Longrightarrow> same_db d e \<Longrightarrow> same_db c e"
  and same_db_set_ki [simp]: "same_db c (set_ki d i) = same_db c d"
  by (auto simp: same_db_def set_ki_def)

lemma push_ok:
  assumes "mc_snum c < CURSOR_STACK" "mdb_cursor_push c q = (rc, c')"
  shows "rc = 0" "top_page c' = Some q" "mc_snum c' = mc_snum c + 1" "mc_top c' = mc_snum c" "same_db d c' = same_db d c"
    "mc_init c' = mc_init c" "mc_eof c' = mc_eof c"
    "mc_pg c' = (mc_pg c)(mc_snum c := Some q)" "mc_ki c' = (mc_ki c)(mc_snum c := 0)"
  using assms by (auto simp: mdb_cursor_push_def top_page_def same_db_def)

text \<open>A round of the loop on a branch page whose index is \<open>m\<close>.\<close>

lemma root_step_child:
  assumes "page_wf p" "1 < pg_cnt p" "m < pg_cnt p" "root_index ps c (pg_cnt p) = Some (Some m, c1)" "mc_snum c1 = mc_snum c"
    "mc_snum c < CURSOR_STACK" "sn_page sn (nd_pgno p m) = Some q"
  shows "root_step sn ps c p = Some (Inr (snd (mdb_cursor_push (set_ki c1 m) q)))"
proof -
  have "mc_snum (set_ki c1 m) < CURSOR_STACK" using assms(5,6) by (simp add: set_ki_def)
  then have "fst (mdb_cursor_push (set_ki c1 m) q) = 0" by (simp add: mdb_cursor_push_def)
  then show ?thesis
    using assms by (simp add: root_step_def page_kinds NODEPTR_eq node_fields page_get_def split_def)
qed

lemma concat_split: "m < length ts \<Longrightarrow> concat (map f ts) = concat (map f (take m ts)) @ f (ts ! m) @ concat (map f (drop (Suc m) ts))"
  by (subst id_take_nth_drop [of m ts]) simp_all

lemma search_root_leaf:
  "top_page c = Some p \<Longrightarrow> leaf_ok sn p \<Longrightarrow> mdb_page_search_root sn ps c = Some (0, c\<lparr>mc_init := True, mc_eof := False\<rparr>)"
  by (subst mdb_page_search_root.simps) (simp add: leaf_ok_def page_kinds)

section \<open>Paths in the tree\<close>

text \<open>A subtree is addressed by the indices on the way to it; \<open>after_items\<close> are the items to its right.\<close>

fun path_ok :: "tree \<Rightarrow> nat list \<Rightarrow> bool" where
  "path_ok t [] \<longleftrightarrow> True"
| "path_ok (Node p ts) (j # js) \<longleftrightarrow> j < length ts \<and> path_ok (ts ! j) js"
| "path_ok (Leaf p) (j # js) \<longleftrightarrow> False"

fun sub_at :: "tree \<Rightarrow> nat list \<Rightarrow> tree" where
  "sub_at t [] = t"
| "sub_at (Node p ts) (j # js) = sub_at (ts ! j) js"
| "sub_at (Leaf p) (j # js) = Leaf p"

fun after_items :: "snapshot \<Rightarrow> tree \<Rightarrow> nat list \<Rightarrow> (mval \<times> mval) list" where
  "after_items sn t [] = []"
| "after_items sn (Node p ts) (j # js) = after_items sn (ts ! j) js @ concat (map (tree_items sn) (drop (Suc j) ts))"
| "after_items sn (Leaf p) (j # js) = []"

lemma sub_at_snoc: "path_ok t js \<Longrightarrow> sub_at t js = Node p ts \<Longrightarrow>
    path_ok t (js @ [j]) = (j < length ts) \<and> sub_at t (js @ [j]) = ts ! j
    \<and> after_items sn t (js @ [j]) = concat (map (tree_items sn) (drop (Suc j) ts)) @ after_items sn t js"
  by (induction t js rule: path_ok.induct) auto

lemma path_ok_snocD: "path_ok t (js @ [j]) \<Longrightarrow> path_ok t js \<and> (\<exists>p ts. sub_at t js = Node p ts \<and> j < length ts)"
proof (induction t js rule: path_ok.induct)
  case (1 t)
  then show ?case by (cases t) auto
qed auto

lemma tree_in_sub: "tree_in sn h t \<Longrightarrow> path_ok t js \<Longrightarrow> length js \<le> h \<and> tree_in sn (h - length js) (sub_at t js)"
proof (induction t js arbitrary: h rule: path_ok.induct)
  case (2 p ts j js)
  have "ts ! j \<in> set ts" using 2(3) by simp
  then have "length js \<le> h - 1 \<and> tree_in sn (h - 1 - length js) (sub_at (ts ! j) js)"
    using 2 by (intro "2.IH") auto
  then show ?case using 2(2) by auto
qed auto

definition cursor_on :: "MDB_cursor \<Rightarrow> tree \<Rightarrow> nat list \<Rightarrow> bool" where
  "cursor_on c t js \<longleftrightarrow> path_ok t js \<and> mc_top c = length js \<and> mc_snum c = length js + 1
     \<and> (\<forall>k \<le> length js. mc_pg c k = Some (tree_page (sub_at t (take k js))))
     \<and> (\<forall>k < length js. mc_ki c k = js ! k)"

lemma cursor_on_top: "cursor_on c t js \<Longrightarrow> length js < CURSOR_STACK \<Longrightarrow> top_page c = Some (tree_page (sub_at t js))"
  by (simp add: cursor_on_def top_page_def)

lemma cursor_on_cong:
  "mc_top c' = mc_top c \<Longrightarrow> mc_snum c' = mc_snum c \<Longrightarrow> mc_pg c' = mc_pg c \<Longrightarrow>
    (\<And>k. k < mc_top c \<Longrightarrow> mc_ki c' k = mc_ki c k) \<Longrightarrow> cursor_on c' t js = cursor_on c t js"
  by (auto simp: cursor_on_def)

lemma cursor_on_set_ki [simp]: "cursor_on (set_ki c i) t js = cursor_on c t js"
  by (rule cursor_on_cong) (simp_all add: set_ki_def)

lemma cursor_on_flags [simp]:
  "cursor_on (c\<lparr>mc_init := a\<rparr>) t js = cursor_on c t js" "cursor_on (c\<lparr>mc_eof := a\<rparr>) t js = cursor_on c t js"
  "cursor_on (c\<lparr>mc_del := a\<rparr>) t js = cursor_on c t js"
  by (rule cursor_on_cong; simp)+

text \<open>Pushing a child of the page at the top.\<close>

lemma cursor_on_push:
  assumes "cursor_on c t js" "top_ki c = j" "sub_at t js = Node p ts" "j < length ts"
    "mdb_cursor_push c (tree_page (ts ! j)) = (rc, c')" "length js + 1 < CURSOR_STACK"
  shows "cursor_on c' t (js @ [j])" "top_ki c' = 0"
proof -
  have c: "path_ok t js" "mc_top c = length js" "mc_snum c = length js + 1"
    "\<And>k. k \<le> length js \<Longrightarrow> mc_pg c k = Some (tree_page (sub_at t (take k js)))" "\<And>k. k < length js \<Longrightarrow> mc_ki c k = js ! k"
    using assms(1) by (auto simp: cursor_on_def)
  have sn: "mc_snum c < CURSOR_STACK" using c(3) assms(6) by simp
  note p = push_ok [OF sn assms(5)]
  note snoc = sub_at_snoc [OF c(1) assms(3), of j]
  show "top_ki c' = 0" by (simp add: p)
  have "mc_pg c' k = Some (tree_page (sub_at t (take k (js @ [j]))))" if "k \<le> length js + 1" for k
    using that c snoc assms(4) by (cases "k = length js + 1") (auto simp: p)
  moreover have "mc_ki c' k = (js @ [j]) ! k" if "k < length js + 1" for k
    using that c(2,3,5) assms(2) by (cases "k = length js") (auto simp: p nth_append)
  ultimately show "cursor_on c' t (js @ [j])" using c snoc assms(4) by (simp add: cursor_on_def p)
qed

lemma tree_in_page: "tree_in sn h t \<Longrightarrow> page_wf (tree_page t)"
  by (cases t) (auto simp: leaf_ok_def)

lemma child_page:
  assumes "tree_in sn h t" "path_ok t js" "sub_at t js = Node p ts"
  shows "page_wf p" "page_kind p" "\<not> pg_leaf p" "1 < pg_cnt p" "length ts = pg_cnt p" "length js < h"
    "j < pg_cnt p \<Longrightarrow> sn_page sn (nd_pgno p j) = Some (tree_page (ts ! j))"
  "j < pg_cnt p \<Longrightarrow> page_wf (tree_page (ts ! j))"
proof -
  have "tree_in sn (h - length js) (Node p ts)" "length js \<le> h" using tree_in_sub [OF assms(1,2)] assms(3) by auto
  then show "page_wf p" "page_kind p" "\<not> pg_leaf p" "1 < pg_cnt p" "length ts = pg_cnt p" "length js < h"
    "j < pg_cnt p \<Longrightarrow> sn_page sn (nd_pgno p j) = Some (tree_page (ts ! j))"
    by auto
  assume "j < pg_cnt p"
  then have "tree_in sn (h - length js - 1) (ts ! j)" using \<open>tree_in sn (h - length js) (Node p ts)\<close> by simp
  then show "page_wf (tree_page (ts ! j))" by (rule tree_in_page)
qed

lemma leaf_at:
  assumes "tree_in sn h t" "h < CURSOR_STACK" "cursor_on c t js" "sub_at t js = Leaf p"
  shows "leaf_ok sn p" "top_page c = Some p"
proof -
  have path: "path_ok t js" using assms(3) by (simp add: cursor_on_def)
  note sub = tree_in_sub [OF assms(1) path]
  then show "leaf_ok sn p" using assms(4) by simp
  show "top_page c = Some p" using cursor_on_top [OF assms(3)] sub assms(2,4) by simp
qed

text \<open>Down to the leaf of a key: the items before that leaf are less, the items behind it greater.\<close>

lemma descend_key:
  assumes "tree_in sn h t" "h < CURSOR_STACK" "cursor_on c t js" "tree_sorted (mc_cmp c) n sn (sub_at t js)"
    "key_ok (mc_cmp c) n key" "branch_keysize (mc_cmp c) n"
  shows "\<exists>p c' js' pre post. mdb_page_search_root sn (PS_KEY key) c = Some (0, c') \<and> cursor_on c' t js' \<and> sub_at t js' = Leaf p
    \<and> keys_sorted (mc_cmp c) n p \<and> same_db c c' \<and> mc_init c' \<and> \<not> mc_eof c'
    \<and> tree_items sn (sub_at t js) = pre @ leaf_items sn p @ post \<and> after_items sn t js' = post @ after_items sn t js
    \<and> (\<forall>kv \<in> set pre. key_meaning (mc_cmp c) (fst kv) < key_meaning (mc_cmp c) key)
    \<and> (\<forall>kv \<in> set post. key_meaning (mc_cmp c) key < key_meaning (mc_cmp c) (fst kv))"
  using assms(3-)
proof (induction "h - length js" arbitrary: c js)
  case (0 js)
  have path: "path_ok t js" using 0(2) by (simp add: cursor_on_def)
  note sub = tree_in_sub [OF assms(1) path]
  then obtain p where p: "sub_at t js = Leaf p" "leaf_ok sn p" using 0(1) by (cases "sub_at t js") auto
  have "top_page c = Some p" using cursor_on_top [OF 0(2)] sub assms(2) p(1) by simp
  from search_root_leaf [OF this p(2)] show ?case
    using 0(2,3) p(1)
    by (intro exI [of _ p] exI [of _ "c\<lparr>mc_init := True, mc_eof := False\<rparr>"] exI [of _ js] exI [of _ "[]"])
      (simp add: same_db_def)
next
  case (Suc d js)
  let ?mean = "key_meaning (mc_cmp c)"
  have path: "path_ok t js" using Suc.prems(1) by (simp add: cursor_on_def)
  have "tree_in sn (h - length js) (sub_at t js)" "0 < h - length js" and room: "length js < CURSOR_STACK"
    using tree_in_sub [OF assms(1) path] Suc(2) assms(2) by auto
  then obtain p ts where n: "sub_at t js = Node p ts" by (cases "sub_at t js") auto
  note kid = child_page [OF assms(1) path n]
  have sorted: "keys_sorted (mc_cmp c) n p" "\<And>t. t \<in> set ts \<Longrightarrow> tree_sorted (mc_cmp c) n sn t"
    and sep: "\<And>i kv. i < length ts \<Longrightarrow> 0 < i \<Longrightarrow> kv \<in> set (tree_items sn (ts ! i)) \<Longrightarrow> ?mean (page_keys p ! i) \<le> ?mean (fst kv)"
    "\<And>i kv. i < length ts \<Longrightarrow> 0 < i \<Longrightarrow> kv \<in> set (tree_items sn (ts ! (i - 1))) \<Longrightarrow> ?mean (fst kv) < ?mean (page_keys p ! i)"
    using Suc.prems(2) n by auto
  have tp: "top_page c = Some p" using cursor_on_top [OF Suc.prems(1) room] n by simp
  obtain m i where m: "root_index (PS_KEY key) c (pg_cnt p) = Some (Some m, set_ki c i)" "m < pg_cnt p"
    "\<And>j. 1 \<le> j \<Longrightarrow> j \<le> m \<Longrightarrow> ?mean (page_keys p ! j) \<le> ?mean key"
    "\<And>j. m < j \<Longrightarrow> j < pg_cnt p \<Longrightarrow> ?mean key < ?mean (page_keys p ! j)"
    using root_index_key [OF kid(1-4) sorted(1) Suc.prems(3,4) tp] by blast
  obtain rc c2 where c2: "mdb_cursor_push (set_ki (set_ki c i) m) (tree_page (ts ! m)) = (rc, c2)" by fastforce
  have sn: "mc_snum (set_ki (set_ki c i) m) < CURSOR_STACK" "mc_snum (set_ki c i) = mc_snum c" "mc_snum c < CURSOR_STACK"
    using Suc.prems(1) kid(6) assms(2) by (simp_all add: set_ki_def cursor_on_def)
  note push = push_ok [OF sn(1) c2]
  have mem: "m < length ts" "ts ! m \<in> set ts" using m(2) kid(5) by simp_all
  have ki: "top_ki (set_ki (set_ki c i) m) = m" by (simp add: set_ki_def)
  have room2: "length js + 1 < CURSOR_STACK" using kid(6) assms(2) by simp
  have on: "cursor_on c2 t (js @ [m])"
    using cursor_on_push(1) [OF _ ki n mem(1) c2 room2] Suc.prems(1) by simp
  have "root_step sn (PS_KEY key) c p = Some (Inr c2)"
    using root_step_child [OF kid(1,4) m(2,1) sn(2,3) kid(7) [OF m(2)]] c2 by simp
  then have loop: "mdb_page_search_root sn (PS_KEY key) c = mdb_page_search_root sn (PS_KEY key) c2"
    using tp kid(1,2,3) by (subst mdb_page_search_root.simps) (simp add: page_kinds)
  have same: "same_db c c2" using push(5) [of c] by simp
  then have f: "mc_cmp c2 = mc_cmp c" by (simp add: same_db_def)
  note snoc = sub_at_snoc [OF path n, of m]
  have d: "d = h - length (js @ [m])" using Suc(2) by simp
  have sub: "sub_at t (js @ [m]) = ts ! m" using snoc mem(1) by simp
  obtain q c' js' pre post where q: "mdb_page_search_root sn (PS_KEY key) c2 = Some (0, c')" "cursor_on c' t js'"
    "sub_at t js' = Leaf q" "keys_sorted (mc_cmp c) n q" "same_db c2 c'" "mc_init c'" "\<not> mc_eof c'"
    "tree_items sn (ts ! m) = pre @ leaf_items sn q @ post" "after_items sn t js' = post @ after_items sn t (js @ [m])"
    "\<forall>kv \<in> set pre. ?mean (fst kv) < ?mean key" "\<forall>kv \<in> set post. ?mean key < ?mean (fst kv)"
    using Suc.hyps(1) [OF d on] sorted(2) [OF mem(2)] Suc.prems(3,4) f sub by auto
  let ?pre = "concat (map (tree_items sn) (take m ts)) @ pre" and ?post = "post @ concat (map (tree_items sn) (drop (Suc m) ts))"
  have items: "tree_items sn (sub_at t js) = ?pre @ leaf_items sn q @ ?post"
    using concat_split [OF mem(1), of "tree_items sn"] q(8) n by simp
  have after: "after_items sn t js' = ?post @ after_items sn t js" using q(9) snoc mem(1) by simp
  have lt: "?mean (fst kv) < ?mean key" if kv: "kv \<in> set ?pre" for kv
  proof (cases "kv \<in> set pre")
    case False
    then obtain t where t: "t \<in> set (take m ts)" "kv \<in> set (tree_items sn t)" using kv by auto
    obtain j where "j < m" "t = ts ! j" using t(1) by (auto simp: in_set_conv_nth)
    then have j: "j < m" "kv \<in> set (tree_items sn (ts ! j))" using t(2) by simp_all
    show ?thesis using sep(2) [of "j + 1" kv] m(3) [of "j + 1"] j mem(1) by (auto intro: less_le_trans)
  qed (use q(10) in blast)
  have gt: "?mean key < ?mean (fst kv)" if kv: "kv \<in> set ?post" for kv
  proof (cases "kv \<in> set post")
    case False
    then obtain t where t: "t \<in> set (drop (Suc m) ts)" "kv \<in> set (tree_items sn t)" using kv by auto
    obtain i where i: "i < length ts - Suc m" "t = ts ! (Suc m + i)" using t(1) by (auto simp: in_set_conv_nth)
    define j where "j = Suc m + i"
    have j: "m < j" "j < length ts" "t = ts ! j" using i by (simp_all add: j_def)
    show ?thesis using sep(1) [of j kv] m(4) [of j] j t(2) kid(5) by (auto intro: less_le_trans)
  qed (use q(11) in blast)
  show ?case
  proof (intro exI conjI ballI)
    show "mdb_page_search_root sn (PS_KEY key) c = Some (0, c')" using loop q(1) by simp
    show "same_db c c'" by (rule same_db_trans [OF same q(5)])
  qed (fact q items after lt gt)+
qed

section \<open>Looking up a key\<close>

lemma leaf_keys: "map fst (leaf_items sn p) = page_keys p"
  by (simp add: leaf_items_def page_keys_def)

lemma map_of_skip: "(\<And>kv. kv \<in> set pre \<Longrightarrow> fst kv \<noteq> k) \<Longrightarrow> map_of (pre @ xs) k = map_of xs k"
  by (induction pre) (auto simp: map_add_def split: option.splits)

lemma map_of_around:
  assumes "\<And>kv. kv \<in> set pre \<Longrightarrow> fst kv \<noteq> k" "\<And>kv. kv \<in> set post \<Longrightarrow> fst kv \<noteq> k"
  shows "map_of (pre @ xs @ post) k = map_of xs k"
proof -
  have "map_of post k = None" using assms(2) by (force simp: map_of_eq_None_iff)
  then show ?thesis using map_of_skip [of pre k "xs @ post"] assms(1) by (simp add: map_add_def split: option.splits)
qed

lemma map_of_nth_first:
  "i < length xs \<Longrightarrow> fst (xs ! i) = k \<Longrightarrow> (\<And>j. j < i \<Longrightarrow> fst (xs ! j) \<noteq> k) \<Longrightarrow> map_of xs k = Some (snd (xs ! i))"
proof (induction xs arbitrary: i)
  case (Cons x xs)
  show ?case
  proof (cases i)
    case 0
    then show ?thesis using Cons.prems by (cases x) auto
  next
    case (Suc i')
    have "fst x \<noteq> k" using Cons.prems(3) [of 0] Suc by simp
    moreover have "map_of xs k = Some (snd (xs ! i'))"
      using Cons.IH [of i'] Cons.prems Suc by (metis Suc_less_eq length_Cons nth_Cons_Suc)
    ultimately show ?thesis using Suc by (cases x) auto
  qed
qed simp

lemma set_answer_leaf:
  assumes "top_page c = Some p" "leaf_ok sn p" "top_ki c < pg_cnt p"
  shows "set_answer sn c (Some d) MDB_SET
    = Some (0, c\<lparr>mc_init := True, mc_eof := False\<rparr>, None, Some (snd (leaf_items sn p ! top_ki c)))"
proof -
  have w: "page_wf p" using assms(2) by (simp add: leaf_ok_def)
  have "top_page (c\<lparr>mc_init := True, mc_eof := False\<rparr>) = Some p" using assms(1) by simp
  then show ?thesis
    using node_read_leaf(1,3) [OF assms(2,3)] page_kinds(3) [OF w] NODEPTR_eq [OF w assms(3)]
      node_fields(1) [OF w assms(3)]
    by (simp add: set_answer_def)
qed

lemma set_2_leaf:
  assumes "top_page c = Some p" "leaf_ok sn p" "keys_sorted (mc_cmp c) n p" "key_ok (mc_cmp c) n key" "branch_keysize (mc_cmp c) n"
  shows "\<exists>c'. set_2 sn c key (Some d) MDB_SET True =
    Some (case map_of (leaf_items sn p) key of None \<Rightarrow> (MDB_NOTFOUND, c', None, None) | Some v \<Rightarrow> (0, c', None, Some v))"
proof -
  have p: "page_wf p" "page_kind p" "lo0 p = 0" "0 < pg_cnt p" using assms(2) by (simp_all add: leaf_ok_def lo0_def)
  then have lo: "lo0 p < pg_cnt p" by simp
  obtain i exact where s: "mdb_node_search (mc_cmp c) (unat (md_pad (mc_db c))) p key = Some (i, exact, i < pg_cnt p)"
    "exact \<longleftrightarrow> (\<exists>j < pg_cnt p. page_keys p ! j = key)" "exact \<longrightarrow> i < pg_cnt p \<and> page_keys p ! i = key"
    "\<And>j. j < i \<Longrightarrow> key_meaning (mc_cmp c) (page_keys p ! j) < key_meaning (mc_cmp c) key"
    using mdb_node_search_spec [OF p(1,2) assms(3-5) lo, of "unat (md_pad (mc_db c))"] p(3) by auto
  have ns: "node_search c key = Some (set_ki c i, exact, i < pg_cnt p)"
    using assms(1) s(1) by (simp add: node_search_def)
  have len: "length (leaf_items sn p) = pg_cnt p" by (simp add: leaf_items_def)
  show ?thesis
  proof (cases exact)
    case True
    have "map_of (leaf_items sn p) key = Some (snd (leaf_items sn p ! i))"
    proof (rule map_of_nth_first)
      show "i < length (leaf_items sn p)" using True s(3) len by simp
      show "fst (leaf_items sn p ! i) = key" using True s(3) node_read_leaf(2) [OF assms(2)] by simp
      show "fst (leaf_items sn p ! j) \<noteq> key" if "j < i" for j
        using s(4) [OF that] node_read_leaf(2) [OF assms(2), of j] that True s(3) by auto
    qed
    moreover have "top_page (set_ki c i) = Some p" "top_ki (set_ki c i) = i" using assms(1) by (simp, simp add: set_ki_def)
    ultimately show ?thesis
      using True s(3) set_answer_leaf [of "set_ki c i" p sn d] assms(2) by (simp add: set_2_def ns)
  next
    case False
    then have "key \<notin> set (page_keys p)" using s(2) by (auto simp: in_set_conv_nth)
    then have "map_of (leaf_items sn p) key = None" by (simp add: map_of_eq_None_iff leaf_keys [of sn, symmetric])
    then show ?thesis using False by (simp add: set_2_def ns no_items_def)
  qed
qed

text \<open>A database in a snapshot: an empty tree, or a tree whose root is \<open>md_root\<close>, of at most as many levels
  as a cursor has room for.\<close>

definition db_tree :: "snapshot \<Rightarrow> MDB_db \<Rightarrow> cmp_fn \<Rightarrow> nat \<Rightarrow> tree option \<Rightarrow> bool" where
  "db_tree sn db f n t \<longleftrightarrow>
     md_flags db AND MDB_DUPSORT = 0 \<and> branch_keysize f n
     \<and> (case t of
          None \<Rightarrow> md_root db = P_INVALID
        | Some t \<Rightarrow> 1 < md_root db \<and> md_root db \<noteq> P_INVALID \<and> sn_page sn (unat (md_root db)) = Some (tree_page t)
            \<and> (\<exists>h < CURSOR_STACK. tree_in sn h t) \<and> tree_sorted f n sn t)"

definition db_items :: "snapshot \<Rightarrow> tree option \<Rightarrow> (mval \<times> mval) list" where
  "db_items sn t = (case t of None \<Rightarrow> [] | Some t \<Rightarrow> tree_items sn t)"

lemma mdb_get_spec:
  assumes "db_tree sn db f n t" "key_ok f n key" "key \<noteq> []" "flags AND TXN_BLOCKED = 0"
  shows "mdb_get sn True dbi db f dcmp False flags key =
    Some (case map_of (db_items sn t) key of None \<Rightarrow> (MDB_NOTFOUND, None) | Some v \<Rightarrow> (0, Some v))"
proof -
  define c where "c = \<lparr>mc_dbi = dbi, mc_db = db, mc_cmp = f, mc_dcmp = dcmp, mc_stale = False, mc_txn_flags = flags, mc_snum = 0,
     mc_top = 0, mc_init = False, mc_eof = False, mc_del = False, mc_pg = (\<lambda>_. None), mc_ki = (\<lambda>_. 0)\<rparr>"
  have init: "mdb_cursor_init sn dbi db f dcmp False flags = Some c"
    using assms(1) by (simp add: mdb_cursor_init_def c_def db_tree_def)
  have c0: "c\<lparr>mc_pg := (mc_pg c)(0 := None)\<rparr> = c" by (simp add: c_def fun_eq_iff)
  have cf: "\<not> mc_init c" "mc_db c = db" "mc_cmp c = f" "\<not> mc_stale c" "mc_txn_flags c = flags" "mc_pg c 0 = None"
    by (simp_all add: c_def)
  have set: "mdb_cursor_set sn c key (Some []) MDB_SET True =
     do { (rc, c) \<leftarrow> page_search_from sn (PS_KEY key) c;
          if rc \<noteq> 0 then no_items (rc, c)
          else do { _ \<leftarrow> assert_leaf c; set_2 sn c key (Some []) MDB_SET True } }"
    using assms(3,4) cf c0 by (simp add: mdb_cursor_set_def mdb_page_search_def)
  show ?thesis
  proof (cases t)
    case None
    then have "page_search_from sn (PS_KEY key) c = Some (MDB_NOTFOUND, c)"
      using assms(1) cf by (simp add: db_tree_def page_search_from_def)
    then show ?thesis
      using None assms(4) by (simp add: mdb_get_def init set no_items_def MDB_NOTFOUND_def db_items_def)
  next
    case (Some tr)
    then obtain h where t: "1 < md_root db" "md_root db \<noteq> P_INVALID" "sn_page sn (unat (md_root db)) = Some (tree_page tr)"
      "h < CURSOR_STACK" "tree_in sn h tr" "tree_sorted f n sn tr" "branch_keysize f n"
      using assms(1) by (auto simp: db_tree_def)
    define c1 where "c1 = c\<lparr>mc_pg := (mc_pg c)(0 := Some (tree_page tr)), mc_snum := 1, mc_top := 0\<rparr>"
    have ps: "page_search_from sn (PS_KEY key) c = mdb_page_search_root sn (PS_KEY key) c1"
      using t(1-3) cf by (simp add: page_search_from_def page_get_def c1_def Let_def linorder_not_le [symmetric])
    have c1: "mc_cmp c1 = f" "cursor_on c1 tr []" using cf by (simp_all add: c1_def cursor_on_def)
    obtain p c' js pre post where on: "mdb_page_search_root sn (PS_KEY key) c1 = Some (0, c')" "cursor_on c' tr js"
      "sub_at tr js = Leaf p" "keys_sorted f n p" "same_db c1 c'" "tree_items sn tr = pre @ leaf_items sn p @ post"
      "\<And>kv. kv \<in> set pre \<Longrightarrow> key_meaning f (fst kv) < key_meaning f key"
      "\<And>kv. kv \<in> set post \<Longrightarrow> key_meaning f key < key_meaning f (fst kv)"
      using descend_key [OF t(5,4) c1(2), of n key, simplified c1(1) sub_at.simps after_items.simps append_Nil2, OF t(6) assms(2) t(7)]
      by metis
    note leaf = leaf_at [OF t(5,4) on(2,3)]
    note d = on(1) leaf(2,1) on(4-8)
    have f: "mc_cmp c' = f" using d(5) c1(1) by (simp add: same_db_def)
    have "map_of (db_items sn t) key = map_of (leaf_items sn p) key"
      using map_of_around [of pre key post "leaf_items sn p"] d(6-8) Some by (force simp: db_items_def)
    moreover have "assert_leaf c' = Some p"
      using d(2,3) by (simp add: assert_leaf_def leaf_ok_def page_kinds)
    moreover obtain c'' where "set_2 sn c' key (Some []) MDB_SET True =
      Some (case map_of (leaf_items sn p) key of None \<Rightarrow> (MDB_NOTFOUND, c'', None, None) | Some v \<Rightarrow> (0, c'', None, Some v))"
      using set_2_leaf [OF d(2,3), of n key "[]"] d(4) assms(2) t(7) f by auto
    ultimately show ?thesis
      using assms(4) d(1) by (simp add: mdb_get_def init set ps split: option.split)
  qed
qed

section \<open>Walking over the items\<close>

text \<open>The move to the right neighbour: the next subtree of the same level, or the end.\<close>

definition moves_right :: "snapshot \<Rightarrow> tree \<Rightarrow> nat list \<Rightarrow> MDB_cursor \<Rightarrow> int \<times> MDB_cursor \<Rightarrow> bool" where
  "moves_right sn t js c r \<longleftrightarrow>
     (case r of (rc, c') \<Rightarrow> same_db c c' \<and> mc_init c' = mc_init c \<and> mc_eof c' = mc_eof c
        \<and> (if rc = 0
           then \<exists>js'. cursor_on c' t js' \<and> length js' = length js \<and> top_ki c' = 0
                  \<and> after_items sn t js = tree_items sn (sub_at t js') @ after_items sn t js'
           else rc = MDB_NOTFOUND \<and> after_items sn t js = [] \<and> cursor_on c' t js \<and> mc_pg c' = mc_pg c \<and> mc_ki c' = mc_ki c))"

lemma cursor_on_pop:
  assumes "cursor_on c t (js @ [j])"
  shows "cursor_on (mdb_cursor_pop c) t js" "top_ki (mdb_cursor_pop c) = j" "\<not> mc_snum c < 2"
    "same_db c (mdb_cursor_pop c)" "mc_init (mdb_cursor_pop c) = mc_init c" "mc_eof (mdb_cursor_pop c) = mc_eof c"
    "mc_pg (mdb_cursor_pop c) = mc_pg c" "mc_ki (mdb_cursor_pop c) = mc_ki c"
    "mc_top (mdb_cursor_pop c) = length js" "mc_snum (mdb_cursor_pop c) = length js + 1"
proof -
  have c: "path_ok t (js @ [j])" "mc_top c = length js + 1" "mc_snum c = length js + 2"
    "\<And>k. k \<le> length js + 1 \<Longrightarrow> mc_pg c k = Some (tree_page (sub_at t (take k (js @ [j]))))"
    "\<And>k. k < length js + 1 \<Longrightarrow> mc_ki c k = (js @ [j]) ! k"
    using assms by (auto simp: cursor_on_def)
  have pop: "mdb_cursor_pop c = c\<lparr>mc_snum := length js + 1, mc_top := length js\<rparr>"
    using c(2,3) by (simp add: mdb_cursor_pop_def)
  show "cursor_on (mdb_cursor_pop c) t js" using c path_ok_snocD [OF c(1)] by (simp add: pop cursor_on_def nth_append)
  show "top_ki (mdb_cursor_pop c) = j" using c(5) [of "length js"] by (simp add: pop)
  show "\<not> mc_snum c < 2" using c(3) by simp
qed (use assms in \<open>simp_all add: mdb_cursor_pop_def cursor_on_def same_db_def\<close>)

lemma node_cnt_less: "tree_in sn h t \<Longrightarrow> path_ok t js \<Longrightarrow> sub_at t js = Node p ts \<Longrightarrow> length ts < 2 ^ 16"
  using child_page(1,5) pg_cnt_less by metis

lemma sibling_right:
  assumes "tree_in sn h t" "h < CURSOR_STACK" "cursor_on c t js"
  shows "\<exists>r. mdb_cursor_sibling sn True c = Some r \<and> moves_right sn t js c r"
  using assms(3)
proof (induction js arbitrary: c rule: rev_induct)
  case Nil
  then have "mdb_cursor_sibling sn True c = Some (MDB_NOTFOUND, c)"
    by (subst mdb_cursor_sibling.simps) (simp add: cursor_on_def)
  then show ?case using Nil by (simp add: moves_right_def MDB_NOTFOUND_def)
next
  case (snoc j js)
  define d where "d = mdb_cursor_pop c"
  note pop = cursor_on_pop [OF snoc.prems, folded d_def]
  have path: "path_ok t (js @ [j])" using snoc.prems by (simp add: cursor_on_def)
  then obtain p ts where n: "path_ok t js" "sub_at t js = Node p ts" "j < length ts" using path_ok_snocD by blast
  note kid = child_page [OF assms(1) n(1,2)]
  have room: "length js + 1 < CURSOR_STACK" using kid(6) assms(2) by simp
  have top: "top_page d = Some p" using cursor_on_top [OF pop(1)] n(2) room by simp
  note after = sub_at_snoc [OF n(1,2)]
  show ?case
  proof (cases "j + 1 < length ts")
    case True
    obtain rc c' where push: "mdb_cursor_push (set_ki d (j + 1)) (tree_page (ts ! (j + 1))) = (rc, c')" by fastforce
    have sn: "mc_snum (set_ki d (j + 1)) < CURSOR_STACK" using pop(10) room by (simp add: set_ki_def)
    note pu = push_ok [OF sn push]
    have ki: "top_ki (set_ki d (j + 1)) = j + 1" by (simp add: set_ki_def)
    have on: "cursor_on c' t (js @ [j + 1])" "top_ki c' = 0"
      using cursor_on_push [OF _ ki n(2) True push room] pop(1) by simp_all
    have topd: "top_page (set_ki d (j + 1)) = Some p" using top by simp
    have small: "Suc j mod 65536 = Suc j" using True pg_cnt_less [OF kid(1)] kid(5) by simp
    have "mdb_cursor_sibling sn True c = Some (0, c')"
      using True pop(2,3) top topd kid ki push small
      by (subst mdb_cursor_sibling.simps)
        (simp add: Let_def d_def [symmetric] page_kinds NODEPTR_eq node_fields page_get_def top_page_def set_ki_def)
    moreover have "after_items sn t (js @ [j]) = tree_items sn (sub_at t (js @ [j + 1])) @ after_items sn t (js @ [j + 1])"
      using after [of j] after [of "j + 1"] True n(3) Cons_nth_drop_Suc [of "j + 1" ts, symmetric] by simp
    moreover have "same_db c c'" using pu(5) [of c] pop(4) by simp
    ultimately show ?thesis
      using on pu(6,7) pop(5,6) by (auto simp: moves_right_def set_ki_def intro!: exI [of _ "js @ [j + 1]"])
  next
    case False
    obtain rc c2 where s: "mdb_cursor_sibling sn True d = Some (rc, c2)" "moves_right sn t js d (rc, c2)"
      using snoc.IH [OF pop(1)] by auto
    have last: "length ts \<le> j + 1" "after_items sn t (js @ [j]) = after_items sn t js"
      using False n(3) after [of j] by simp_all
    show ?thesis
    proof (cases "rc = 0")
      case False
      define c' where "c' = c2\<lparr>mc_top := mc_top c2 + 1, mc_snum := mc_snum c2 + 1\<rparr>"
      have m: "rc = MDB_NOTFOUND" "after_items sn t js = []" "cursor_on c2 t js" "mc_pg c2 = mc_pg d" "mc_ki c2 = mc_ki d"
        "same_db d c2" "mc_init c2 = mc_init d" "mc_eof c2 = mc_eof d"
        using s(2) False by (auto simp: moves_right_def)
      have "mdb_cursor_sibling sn True c = Some (rc, c')"
        using False last(1) kid(1,5) pop(2,3) s(1) top
        by (subst mdb_cursor_sibling.simps) (simp add: Let_def d_def [symmetric] page_kinds c'_def)
      moreover have "same_db c c'" using same_db_trans [OF pop(4) m(6)] by (simp add: c'_def same_db_def)
      moreover have "cursor_on c' t (js @ [j])"
        using snoc.prems m(3-5) pop(7,8) by (simp add: c'_def cursor_on_def)
      ultimately show ?thesis
        using False m pop(5-8) last(2) by (auto simp: moves_right_def c'_def MDB_NOTFOUND_def)
    next
      case True
      then obtain js2 where m: "cursor_on c2 t js2" "length js2 = length js" "top_ki c2 = 0"
        "after_items sn t js = tree_items sn (sub_at t js2) @ after_items sn t js2"
        "same_db d c2" "mc_init c2 = mc_init d" "mc_eof c2 = mc_eof d"
        using s(2) by (auto simp: moves_right_def)
      have p2: "path_ok t js2" "mc_top c2 = length js2" "mc_snum c2 = length js2 + 1" using m(1) by (simp_all add: cursor_on_def)
      have "tree_in sn (h - length js) (sub_at t js2)" using tree_in_sub [OF assms(1) p2(1)] m(2) by simp
      moreover have "0 < h - length js" using kid(6) by simp
      ultimately obtain q us where q: "sub_at t js2 = Node q us" by (cases "sub_at t js2") auto
      note kid2 = child_page [OF assms(1) p2(1) q]
      have room2: "length js2 + 1 < CURSOR_STACK" using m(2) room by simp
      have top2: "top_page c2 = Some q" using cursor_on_top [OF m(1)] q room2 by simp
      have us: "0 < length us" using kid2(4,5) by simp
      obtain rc3 c' where push: "mdb_cursor_push c2 (tree_page (us ! 0)) = (rc3, c')" by fastforce
      have sn: "mc_snum c2 < CURSOR_STACK" using p2(3) room2 by simp
      note pu = push_ok [OF sn push]
      note on = cursor_on_push [OF m(1,3) q us push room2]
      have "mdb_cursor_sibling sn True c = Some (0, c')"
        using last(1) kid(1,5) pop(2,3) s(1) True top top2 kid2 m(3) push us
        by (subst mdb_cursor_sibling.simps)
          (simp add: Let_def d_def [symmetric] page_kinds NODEPTR_eq node_fields page_get_def)
      moreover have "after_items sn t (js @ [j]) = tree_items sn (sub_at t (js2 @ [0])) @ after_items sn t (js2 @ [0])"
        using sub_at_snoc [OF p2(1) q, of 0] us q m(4) last(2) concat_split [of 0 us "tree_items sn"] by simp
      moreover have "same_db c c'" using pu(5) [of c] same_db_trans [OF pop(4) m(5)] by simp
      ultimately show ?thesis
        using on pu(6,7) pop(5,6) m(2,6,7) by (auto simp: moves_right_def intro!: exI [of _ "js2 @ [0]"])
    qed
  qed
qed

text \<open>Down to the first leaf.\<close>

lemma descend_first:
  assumes "tree_in sn h t" "h < CURSOR_STACK" "cursor_on c t js"
  shows "\<exists>c' js' p. mdb_page_search_root sn PS_FIRST c = Some (0, c') \<and> cursor_on c' t js' \<and> sub_at t js' = Leaf p
    \<and> tree_items sn (sub_at t js) @ after_items sn t js = leaf_items sn p @ after_items sn t js'
    \<and> same_db c c' \<and> mc_init c' \<and> \<not> mc_eof c'"
  using assms(3)
proof (induction "h - length js" arbitrary: c js)
  case (0 js)
  have path: "path_ok t js" using 0(2) by (simp add: cursor_on_def)
  note sub = tree_in_sub [OF assms(1) path]
  then obtain p where p: "sub_at t js = Leaf p" "leaf_ok sn p" using 0(1) by (cases "sub_at t js") auto
  have "top_page c = Some p" using cursor_on_top [OF 0(2)] sub assms(2) p(1) by simp
  from search_root_leaf [OF this p(2)] show ?case
    using 0(2) p(1) by (intro exI [of _ "c\<lparr>mc_init := True, mc_eof := False\<rparr>"] exI [of _ js] exI [of _ p])
      (simp add: same_db_def)
next
  case (Suc m js)
  have path: "path_ok t js" using Suc.prems by (simp add: cursor_on_def)
  have "tree_in sn (h - length js) (sub_at t js)" "0 < h - length js" "length js < CURSOR_STACK"
    using tree_in_sub [OF assms(1) path] Suc(2) assms(2) by auto
  then obtain p ts where p: "sub_at t js = Node p ts" by (cases "sub_at t js") auto
  note kid = child_page [OF assms(1) path p]
  have top: "top_page c = Some p" using cursor_on_top [OF Suc.prems \<open>length js < CURSOR_STACK\<close>] p by simp
  have z: "0 < length ts" "length js + 1 < CURSOR_STACK" using kid(4,5,6) assms(2) by simp_all
  obtain rc c1 where push: "mdb_cursor_push (set_ki c 0) (tree_page (ts ! 0)) = (rc, c1)" by fastforce
  have sn: "mc_snum (set_ki c 0) < CURSOR_STACK" "mc_snum c < CURSOR_STACK"
    using Suc.prems z(2) by (simp_all add: set_ki_def cursor_on_def)
  note pu = push_ok [OF sn(1) push]
  have "top_ki (set_ki c 0) = 0" by (simp add: set_ki_def)
  note on = cursor_on_push [OF _ this p z(1) push z(2)]
  have c0: "0 < pg_cnt p" using kid(4) by simp
  have ri: "root_index PS_FIRST c (pg_cnt p) = Some (Some 0, c)" by (simp add: root_index_def)
  have "root_step sn PS_FIRST c p = Some (Inr c1)"
    using root_step_child [OF kid(1,4) c0 ri refl sn(2) kid(7) [OF c0]] push by simp
  then have "mdb_page_search_root sn PS_FIRST c = mdb_page_search_root sn PS_FIRST c1"
    using top kid(1,2,3) by (subst mdb_page_search_root.simps) (simp add: page_kinds)
  moreover have "m = h - length (js @ [0])" "cursor_on c1 t (js @ [0])" using Suc(2) Suc.prems on(1) by simp_all
  note IH = Suc.hyps(1) [OF this]
  moreover have "tree_items sn (sub_at t js) @ after_items sn t js
      = tree_items sn (sub_at t (js @ [0])) @ after_items sn t (js @ [0])"
    using sub_at_snoc [OF path p, of 0] p concat_split [OF z(1), of "tree_items sn"] by simp
  moreover have "same_db c c1" using pu(5) [of c] by simp
  ultimately show ?case using same_db_trans by metis
qed

text \<open>The cursor is at the item \<open>kv\<close> of a leaf; \<open>rest\<close> are the items behind it.\<close>

definition at_item :: "snapshot \<Rightarrow> MDB_cursor \<Rightarrow> tree \<Rightarrow> mval \<times> mval \<Rightarrow> (mval \<times> mval) list \<Rightarrow> bool" where
  "at_item sn c t kv rest \<longleftrightarrow>
     mc_init c \<and> \<not> mc_eof c \<and> \<not> mc_del c
     \<and> (\<exists>js p. cursor_on c t js \<and> sub_at t js = Leaf p \<and> top_ki c < pg_cnt p \<and> leaf_items sn p ! top_ki c = kv
          \<and> rest = drop (Suc (top_ki c)) (leaf_items sn p) @ after_items sn t js)"

lemma read_item_leaf:
  assumes "top_page c = Some p" "leaf_ok sn p" "top_ki c < pg_cnt p"
  shows "read_item sn want c
    = Some (0, c, Some (fst (leaf_items sn p ! top_ki c)), if want then Some (snd (leaf_items sn p ! top_ki c)) else None)"
proof -
  have w: "page_wf p" using assms(2) by (simp add: leaf_ok_def)
  show ?thesis
    using node_read_leaf [OF assms(2,3)] page_kinds(3) [OF w] NODEPTR_eq [OF w assms(3)] node_fields(1,4) [OF w assms(3)] assms(1)
    by (simp add: read_item_def)
qed

lemma length_leaf_items [simp]: "length (leaf_items sn p) = pg_cnt p"
  by (simp add: leaf_items_def)

definition next_answer :: "snapshot \<Rightarrow> bool \<Rightarrow> tree \<Rightarrow> MDB_cursor \<Rightarrow> (mval \<times> mval) list \<Rightarrow> int \<times> MDB_cursor \<times> items \<Rightarrow> bool" where
  "next_answer sn want t c todo r \<longleftrightarrow>
     (case r of (rc, c', it) \<Rightarrow> same_db c c' \<and>
        (case todo of [] \<Rightarrow> rc = MDB_NOTFOUND
         | (k, d) # rest \<Rightarrow> rc = 0 \<and> it = (Some k, if want then Some d else None) \<and> at_item sn c' t (k, d) rest))"

lemma at_leaf_item:
  assumes "tree_in sn h t" "h < CURSOR_STACK" "cursor_on c t js" "sub_at t js = Leaf p" "top_ki c < pg_cnt p"
    "mc_init c" "\<not> mc_eof c" "\<not> mc_del c" "same_db c0 c"
  shows "\<exists>r. read_item sn want c = Some r
    \<and> next_answer sn want t c0 (drop (top_ki c) (leaf_items sn p) @ after_items sn t js) r"
proof -
  note l = leaf_at [OF assms(1-4)]
  have "drop (top_ki c) (leaf_items sn p) = leaf_items sn p ! top_ki c # drop (Suc (top_ki c)) (leaf_items sn p)"
    using assms(5) by (simp add: Cons_nth_drop_Suc)
  moreover have "at_item sn c t (leaf_items sn p ! top_ki c) (drop (Suc (top_ki c)) (leaf_items sn p) @ after_items sn t js)"
    using assms by (auto simp: at_item_def)
  ultimately show ?thesis
    using read_item_leaf [OF l(2,1) assms(5)] assms(9)
    by (cases "leaf_items sn p ! top_ki c") (simp add: next_answer_def)
qed

lemma right_leaf:
  assumes "tree_in sn h t" "h < CURSOR_STACK" "cursor_on c t js" "sub_at t js = Leaf p" "mc_init c" "\<not> mc_eof c" "\<not> mc_del c"
  shows "\<exists>rc c'. mdb_cursor_sibling sn True c = Some (rc, c') \<and> same_db c c' \<and>
    (if rc = 0
     then \<exists>js' q. cursor_on c' t js' \<and> sub_at t js' = Leaf q \<and> leaf_ok sn q \<and> top_page c' = Some q \<and> top_ki c' = 0
            \<and> 0 < pg_cnt q \<and> mc_init c' \<and> \<not> mc_eof c' \<and> \<not> mc_del c'
            \<and> after_items sn t js = leaf_items sn q @ after_items sn t js'
     else rc = MDB_NOTFOUND \<and> after_items sn t js = [])"
proof -
  obtain rc c' where s: "mdb_cursor_sibling sn True c = Some (rc, c')" "moves_right sn t js c (rc, c')"
    using sibling_right [OF assms(1-3)] by auto
  show ?thesis
  proof (cases "rc = 0")
    case True
    then obtain js2 where m: "cursor_on c' t js2" "length js2 = length js" "top_ki c' = 0"
      "after_items sn t js = tree_items sn (sub_at t js2) @ after_items sn t js2" "same_db c c'" "mc_init c'" "\<not> mc_eof c'"
      using s(2) assms(5,6) by (auto simp: moves_right_def)
    have path: "path_ok t js" "path_ok t js2" using assms(3) m(1) by (simp_all add: cursor_on_def)
    have "h = length js" using tree_in_sub [OF assms(1) path(1)] assms(4) by auto
    then have "tree_in sn 0 (sub_at t js2)" using tree_in_sub [OF assms(1) path(2)] m(2) by simp
    then obtain q where q: "sub_at t js2 = Leaf q" "leaf_ok sn q" by (cases "sub_at t js2") auto
    have "top_page c' = Some q" by (rule leaf_at(2) [OF assms(1,2) m(1) q(1)])
    then show ?thesis
      using s(1) m q True assms(7) by (auto simp: leaf_ok_def same_db_def intro!: exI [of _ js2])
  qed (use s in \<open>auto simp: moves_right_def\<close>)
qed

lemma cursor_next_spec:
  assumes "tree_in sn h t" "h < CURSOR_STACK" "at_item sn c t kv rest" "md_flags (mc_db c) AND MDB_DUPSORT = 0"
  shows "\<exists>r. mdb_cursor_next sn want MDB_NEXT c = Some r \<and> next_answer sn want t c rest r"
proof -
  obtain js p where c: "mc_init c" "\<not> mc_eof c" "\<not> mc_del c" "cursor_on c t js" "sub_at t js = Leaf p" "top_ki c < pg_cnt p"
    "rest = drop (Suc (top_ki c)) (leaf_items sn p) @ after_items sn t js"
    using assms(3) by (auto simp: at_item_def)
  note l = leaf_at [OF assms(1,2) c(4,5)]
  have w: "page_wf p" "pg_leaf p" using l(1) by (simp_all add: leaf_ok_def)
  have ceof: "c\<lparr>mc_eof := False\<rparr> = c" using c(2) by simp
  have small: "\<not> pg_cnt p \<le> Suc (top_ki c) \<Longrightarrow> Suc (top_ki c) mod 65536 = Suc (top_ki c)"
    using pg_cnt_less [OF w(1)] by simp
  have start: "mdb_cursor_next sn want MDB_NEXT c =
     do { (rc, c) \<leftarrow> (if pg_cnt p \<le> top_ki c + 1
                     then do { (rc, c) \<leftarrow> mdb_cursor_sibling sn True c; Some (rc, if rc \<noteq> 0 then c\<lparr>mc_eof := True\<rparr> else c) }
                     else Some (0, set_ki c (top_ki c + 1)));
          if rc \<noteq> 0 then no_items (rc, c)
          else do { mp \<leftarrow> top_page c; leaf2 \<leftarrow> IS_LEAF2 mp; _ \<leftarrow> (if leaf2 then Some mp else assert_leaf c); read_item sn want c } }"
    using c(1-3) l(2) page_kinds(1) [OF w(1)] assms(4) small
    by (cases "pg_cnt p \<le> Suc (top_ki c)") (simp_all add: mdb_cursor_next_def ceof Let_def)
  have fin: "(do { mp \<leftarrow> top_page d; leaf2 \<leftarrow> IS_LEAF2 mp; _ \<leftarrow> (if leaf2 then Some mp else assert_leaf d); read_item sn want d })
      = read_item sn want d" if "top_page d = Some q" "leaf_ok sn q" for d q
    using that page_kinds(2,3) [of q] by (simp add: leaf_ok_def assert_leaf_def)
  show ?thesis
  proof (cases "top_ki c + 1 < pg_cnt p")
    case True
    define d where "d = set_ki c (top_ki c + 1)"
    have d: "top_ki d = top_ki c + 1" "mc_init d" "\<not> mc_eof d" "\<not> mc_del d" "same_db c d" "top_ki d < pg_cnt p"
      using c(1-3) True by (simp_all add: d_def set_ki_def same_db_def)
    have on: "cursor_on d t js" "top_page d = Some p" using c(4) l(2) by (simp_all add: d_def)
    have "mdb_cursor_next sn want MDB_NEXT c = read_item sn want d"
      using True start [folded d_def] fin [OF on(2) l(1)] by simp
    then show ?thesis
      using at_leaf_item [OF assms(1,2) on(1) c(5) d(6) d(2-5)] c(7) d(1) by simp
  next
    case False
    obtain rc c' where s: "mdb_cursor_sibling sn True c = Some (rc, c')" "same_db c c'"
      and nx: "if rc = 0
        then \<exists>js' q. cursor_on c' t js' \<and> sub_at t js' = Leaf q \<and> leaf_ok sn q \<and> top_page c' = Some q \<and> top_ki c' = 0
            \<and> 0 < pg_cnt q \<and> mc_init c' \<and> \<not> mc_eof c' \<and> \<not> mc_del c'
            \<and> after_items sn t js = leaf_items sn q @ after_items sn t js'
        else rc = MDB_NOTFOUND \<and> after_items sn t js = []"
      using right_leaf [OF assms(1,2) c(4,5,1-3)] by blast
    have rest: "rest = after_items sn t js" using False c(6,7) by simp
    show ?thesis
    proof (cases "rc = 0")
      case True
      then obtain js2 q where m: "cursor_on c' t js2" "sub_at t js2 = Leaf q" "leaf_ok sn q" "top_page c' = Some q" "top_ki c' = 0"
        "top_ki c' < pg_cnt q" "mc_init c'" "\<not> mc_eof c'" "\<not> mc_del c'"
        "after_items sn t js = leaf_items sn q @ after_items sn t js2"
        using nx by auto
      have "mdb_cursor_next sn want MDB_NEXT c = read_item sn want c'"
        using False True s(1) start fin [OF m(4,3)] by simp
      then show ?thesis
        using at_leaf_item [OF assms(1,2) m(1,2,6-9) s(2)] rest m(5,10) by simp
    next
      case nz: False
      then have m: "rc = MDB_NOTFOUND" "after_items sn t js = []" using nx by simp_all
      then have "mdb_cursor_next sn want MDB_NEXT c = no_items (rc, c'\<lparr>mc_eof := True\<rparr>)"
        using False s(1) start nz by simp
      then show ?thesis using m s(2) rest by (simp add: no_items_def next_answer_def same_db_def)
    qed
  qed
qed

text \<open>The loop that reads everything: \<open>mdb_cursor_get\<close> with \<open>MDB_NEXT\<close> until it answers an error, at most
  \<open>m\<close> times.\<close>

fun walk :: "snapshot \<Rightarrow> nat \<Rightarrow> MDB_cursor \<Rightarrow> ((mval \<times> mval) list \<times> int) option" where
  "walk sn 0 c = None"
| "walk sn (Suc m) c =
     do { (rc, c, k, d) \<leftarrow> mdb_cursor_get sn c [] (Some []) MDB_NEXT;
          if rc \<noteq> 0 then Some ([], rc)
          else do { (kvs, rc) \<leftarrow> walk sn m c; Some ((the k, the d) # kvs, rc) } }"

lemma cursor_get_next:
  assumes "mc_txn_flags c AND TXN_BLOCKED = 0" "\<not> mc_del c" "mdb_cursor_next sn True MDB_NEXT c = Some r" "next_answer sn True t c todo r"
  shows "mdb_cursor_get sn c [] (Some []) MDB_NEXT = Some r"
proof -
  obtain rc c' it where r: "r = (rc, c', it)" by (cases r)
  have "\<not> mc_del c'" using assms(2,4) by (simp add: r next_answer_def same_db_def)
  then have "c'\<lparr>mc_del := False\<rparr> = c'" by simp
  then show ?thesis using assms(1,3) by (simp add: mdb_cursor_get_def r)
qed

lemma walk_item:
  "mdb_cursor_get sn c [] (Some []) MDB_NEXT = Some (0, c', Some k, Some d) \<Longrightarrow> walk sn m c' = Some (kvs, rc) \<Longrightarrow>
    walk sn (Suc m) c = Some ((k, d) # kvs, rc)"
  by simp

lemma walk_spec:
  assumes "tree_in sn h t" "h < CURSOR_STACK"
  shows "at_item sn c t kv rest \<Longrightarrow> md_flags (mc_db c) AND MDB_DUPSORT = 0 \<Longrightarrow> mc_txn_flags c AND TXN_BLOCKED = 0 \<Longrightarrow>
    walk sn (Suc (length rest)) c = Some (rest, MDB_NOTFOUND)"
proof (induction rest arbitrary: c kv)
  case Nil
  obtain r where r: "mdb_cursor_next sn True MDB_NEXT c = Some r" "next_answer sn True t c [] r"
    using cursor_next_spec [OF assms Nil(1,2)] by blast
  have "\<not> mc_del c" using Nil(1) by (simp add: at_item_def)
  from cursor_get_next [OF Nil(3) this r] show ?case
    using r(2) by (cases r) (simp add: next_answer_def MDB_NOTFOUND_def)
next
  case (Cons kd rest)
  obtain k d where kd: "kd = (k, d)" by (cases kd)
  obtain r where r: "mdb_cursor_next sn True MDB_NEXT c = Some r" "next_answer sn True t c (kd # rest) r"
    using cursor_next_spec [OF assms Cons.prems(1,2)] by blast
  have "\<not> mc_del c" using Cons.prems(1) by (simp add: at_item_def)
  note get = cursor_get_next [OF Cons.prems(3) this r]
  obtain c' where c': "r = (0, c', Some k, Some d)" "same_db c c'" "at_item sn c' t kd rest"
    using r(2) by (cases r) (simp add: next_answer_def kd)
  have "walk sn (Suc (length rest)) c' = Some (rest, MDB_NOTFOUND)"
    using Cons.IH [OF c'(3)] Cons.prems(2,3) c'(2) by (simp add: same_db_def)
  from walk_item [OF get [unfolded c'(1)] this] show ?case by (simp add: kd del: walk.simps)
qed

lemma cursor_first_spec:
  assumes "db_tree sn db f n (Some t)" "mdb_cursor_init sn dbi db f dcmp False flags = Some c" "flags AND TXN_BLOCKED = 0"
  shows "\<exists>r h. tree_in sn h t \<and> h < CURSOR_STACK \<and> mdb_cursor_first sn want c = Some r
    \<and> next_answer sn want t c (tree_items sn t) r"
proof -
  obtain h where t: "1 < md_root db" "md_root db \<noteq> P_INVALID" "sn_page sn (unat (md_root db)) = Some (tree_page t)"
    "h < CURSOR_STACK" "tree_in sn h t"
    using assms(1) by (auto simp: db_tree_def)
  have c: "c = \<lparr>mc_dbi = dbi, mc_db = db, mc_cmp = f, mc_dcmp = dcmp, mc_stale = False, mc_txn_flags = flags, mc_snum = 0,
     mc_top = 0, mc_init = False, mc_eof = False, mc_del = False, mc_pg = (\<lambda>_. None), mc_ki = (\<lambda>_. 0)\<rparr>"
    using assms(2) by (simp add: mdb_cursor_init_def Let_def split: if_splits)
  have cf: "\<not> mc_init c" "\<not> mc_del c" "\<not> mc_stale c" "mc_db c = db" "mc_txn_flags c = flags" "mc_pg c 0 = None"
    by (simp_all add: c)
  define c1 where "c1 = c\<lparr>mc_pg := (mc_pg c)(0 := Some (tree_page t)), mc_snum := 1, mc_top := 0\<rparr>"
  have c1: "cursor_on c1 t []" "same_db c c1" by (simp_all add: c1_def cursor_on_def same_db_def)
  obtain c2 js p where d: "mdb_page_search_root sn PS_FIRST c1 = Some (0, c2)" "cursor_on c2 t js" "sub_at t js = Leaf p"
    "tree_items sn t = leaf_items sn p @ after_items sn t js" "same_db c1 c2" "mc_init c2" "\<not> mc_eof c2"
    using descend_first [OF t(5,4) c1(1)] by auto
  note l = leaf_at [OF t(5,4) d(2,3)]
  define c3 where "c3 = set_ki (c2\<lparr>mc_init := True, mc_eof := False\<rparr>) 0"
  have "same_db c c3" using same_db_trans [OF c1(2) d(5)] by (simp add: c3_def same_db_def set_ki_def)
  moreover have "mc_init c3" "\<not> mc_eof c3" "top_ki c3 = 0" by (simp_all add: c3_def set_ki_def)
  moreover have "cursor_on c3 t js" using d(2) by (simp add: c3_def)
  moreover have "\<not> mc_del c3" using \<open>same_db c c3\<close> cf(2) by (simp add: same_db_def)
  moreover have "0 < pg_cnt p" using l(1) by (simp add: leaf_ok_def)
  ultimately obtain r where r: "read_item sn want c3 = Some r"
    "next_answer sn want t c (leaf_items sn p @ after_items sn t js) r"
    using at_leaf_item [OF t(5,4), of c3 js p c want] d(3) unfolding drop_0 by (auto simp del: split_paired_Ex)
  have ps: "mdb_page_search sn PS_FIRST c = Some (0, c2)"
    using t(1-3) cf assms(3) d(1)
    by (simp add: mdb_page_search_def page_search_from_def page_get_def Let_def c1_def linorder_not_le [symmetric])
  have "assert_leaf c2 = Some p" using l by (simp add: assert_leaf_def leaf_ok_def page_kinds)
  then have "mdb_cursor_first sn want c = Some r"
    using cf ps r(1) by (simp add: mdb_cursor_first_def c3_def)
  then show ?thesis using t(4,5) r(2) d(4) by (intro exI [of _ r] exI [of _ h]) simp
qed

lemma cursor_first_next: "\<not> mc_init c \<Longrightarrow> mdb_cursor_next sn want MDB_NEXT c = mdb_cursor_first sn want c"
  by (simp add: mdb_cursor_next_def)

lemma walk_from_start:
  assumes "db_tree sn db f n t" "mdb_cursor_init sn dbi db f dcmp False flags = Some c" "flags AND TXN_BLOCKED = 0"
  shows "walk sn (Suc (length (db_items sn t))) c = Some (db_items sn t, MDB_NOTFOUND)"
proof -
  have c: "\<not> mc_init c" "\<not> mc_del c" "\<not> mc_stale c" "mc_db c = db" "mc_txn_flags c = flags"
    using assms(2) by (auto simp: mdb_cursor_init_def Let_def split: if_splits)
  have dup: "md_flags db AND MDB_DUPSORT = 0" using assms(1) by (simp add: db_tree_def)
  show ?thesis
  proof (cases t)
    case None
    then have "mdb_page_search sn PS_FIRST c = Some (MDB_NOTFOUND, c)"
      using assms(1,3) c by (simp add: mdb_page_search_def page_search_from_def db_tree_def Let_def)
    then have "mdb_cursor_get sn c [] (Some []) MDB_NEXT = Some (MDB_NOTFOUND, c\<lparr>mc_del := False\<rparr>, None, None)"
      using c assms(3) by (simp add: mdb_cursor_get_def mdb_cursor_next_def mdb_cursor_first_def no_items_def MDB_NOTFOUND_def)
    then show ?thesis using None by (simp add: db_items_def MDB_NOTFOUND_def)
  next
    case (Some tr)
    obtain r h where r: "tree_in sn h tr" "h < CURSOR_STACK" "mdb_cursor_next sn True MDB_NEXT c = Some r"
      "next_answer sn True tr c (tree_items sn tr) r"
      using cursor_first_spec [OF assms(1) [unfolded Some] assms(2,3)] cursor_first_next [OF c(1)] by metis
    have blocked: "mc_txn_flags c AND TXN_BLOCKED = 0" using assms(3) c by simp
    note get = cursor_get_next [OF blocked c(2) r(3,4)]
    show ?thesis
    proof (cases "tree_items sn tr")
      case Nil
      then show ?thesis using r(4) get Some by (cases r) (simp add: db_items_def next_answer_def MDB_NOTFOUND_def)
    next
      case (Cons kd rest)
      obtain k d where kd: "kd = (k, d)" by (cases kd)
      obtain c' where c': "r = (0, c', Some k, Some d)" "same_db c c'" "at_item sn c' tr kd rest"
        using r(4) Cons by (cases r) (simp add: next_answer_def kd)
      have "walk sn (Suc (length rest)) c' = Some (rest, MDB_NOTFOUND)"
        using walk_spec [OF r(1,2) c'(3)] c'(2) c dup assms(3) by (simp add: same_db_def)
      from walk_item [OF get [unfolded c'(1)] this] show ?thesis using Some Cons by (simp add: db_items_def kd del: walk.simps)
    qed
  qed
qed

section \<open>Setting a cursor at the first key not below a given one\<close>

lemma set_answer_range:
  assumes "tree_in sn h t" "h < CURSOR_STACK" "cursor_on c t js" "sub_at t js = Leaf p" "top_ki c < pg_cnt p"
    "\<not> mc_del c" "same_db c0 c"
  shows "\<exists>r. set_answer sn c None MDB_SET_RANGE = Some r
    \<and> next_answer sn False t c0 (drop (top_ki c) (leaf_items sn p) @ after_items sn t js) r"
proof -
  define d where "d = c\<lparr>mc_init := True, mc_eof := False\<rparr>"
  have d: "cursor_on d t js" "top_ki d = top_ki c" "mc_init d" "\<not> mc_eof d" "\<not> mc_del d" "same_db c0 d"
    using assms(3,6,7) by (simp_all add: d_def same_db_def)
  note l = leaf_at [OF assms(1,2) d(1) assms(4)]
  have w: "page_wf p" using l(1) by (simp add: leaf_ok_def)
  have "set_answer sn c None MDB_SET_RANGE = Some (0, d, Some (page_keys p ! top_ki c), None)"
    using node_read_leaf(3) [OF l(1) assms(5)] page_kinds(3) [OF w] NODEPTR_eq [OF w assms(5)]
      node_fields(1,4) [OF w assms(5)] l(2) d(2)
    by (simp add: set_answer_def d_def)
  moreover have "read_item sn False d = Some (0, d, Some (page_keys p ! top_ki c), None)"
    using read_item_leaf [OF l(2,1)] assms(5) d(2) node_read_leaf(2) [OF l(1) assms(5)] by simp
  ultimately show ?thesis
    using at_leaf_item [OF assms(1,2) d(1) assms(4) _ d(3-6), of False] assms(5) d(2) by simp
qed

lemma set_2_range:
  assumes "tree_in sn h t" "h < CURSOR_STACK" "cursor_on c t js" "sub_at t js = Leaf p" "keys_sorted (mc_cmp c) n p"
    "key_ok (mc_cmp c) n key" "branch_keysize (mc_cmp c) n" "mc_init c" "\<not> mc_eof c" "\<not> mc_del c" "same_db c0 c"
  shows "\<exists>i r. set_2 sn c key None MDB_SET_RANGE False = Some r
    \<and> next_answer sn False t c0 (drop i (leaf_items sn p) @ after_items sn t js) r
    \<and> (\<forall>kv \<in> set (take i (leaf_items sn p)). key_meaning (mc_cmp c) (fst kv) < key_meaning (mc_cmp c) key)
    \<and> (\<forall>kv \<in> set (drop i (leaf_items sn p)). key_meaning (mc_cmp c) key \<le> key_meaning (mc_cmp c) (fst kv))"
proof -
  note l = leaf_at [OF assms(1-4)]
  have p: "page_wf p" "page_kind p" "lo0 p = 0" "0 < pg_cnt p" using l(1) by (simp_all add: leaf_ok_def lo0_def)
  then have lo: "lo0 p < pg_cnt p" by simp
  obtain i exact where s: "mdb_node_search (mc_cmp c) (unat (md_pad (mc_db c))) p key = Some (i, exact, i < pg_cnt p)"
    "i \<le> pg_cnt p"
    "\<And>j. j < i \<Longrightarrow> key_meaning (mc_cmp c) (page_keys p ! j) < key_meaning (mc_cmp c) key"
    "\<And>j. j < pg_cnt p \<Longrightarrow> i \<le> j \<Longrightarrow> key_meaning (mc_cmp c) key \<le> key_meaning (mc_cmp c) (page_keys p ! j)"
    using mdb_node_search_spec [OF p(1,2) assms(5-7) lo, of "unat (md_pad (mc_db c))"] p(3) by auto
  define d where "d = set_ki c i"
  have d: "cursor_on d t js" "same_db c0 d" using assms(3,11) by (simp_all add: d_def)
  have e: "top_ki d = i" "mc_init d" "\<not> mc_eof d" "\<not> mc_del d" using assms(8-10) by (simp_all add: d_def set_ki_def)
  have ns: "node_search c key = Some (d, exact, i < pg_cnt p)"
    using l(2) s(1) by (simp add: node_search_def d_def)
  have "key_meaning (mc_cmp c) (fst kv) < key_meaning (mc_cmp c) key" if kv: "kv \<in> set (take i (leaf_items sn p))" for kv
  proof -
    obtain j where "j < i" "j < pg_cnt p" "kv = leaf_items sn p ! j" using kv by (auto simp: in_set_conv_nth)
    then show ?thesis using s(3) [of j] node_read_leaf(2) [OF l(1)] by simp
  qed
  moreover have "key_meaning (mc_cmp c) key \<le> key_meaning (mc_cmp c) (fst kv)" if kv: "kv \<in> set (drop i (leaf_items sn p))" for kv
  proof -
    obtain j where "j < pg_cnt p - i" "kv = leaf_items sn p ! (i + j)" using kv s(2) by (auto simp: in_set_conv_nth)
    then show ?thesis using s(4) [of "i + j"] node_read_leaf(2) [OF l(1)] by simp
  qed
  moreover have "\<exists>r. set_2 sn c key None MDB_SET_RANGE False = Some r
    \<and> next_answer sn False t c0 (drop i (leaf_items sn p) @ after_items sn t js) r"
  proof (cases "i < pg_cnt p")
    case True
    then show ?thesis
      using set_answer_range [OF assms(1,2) d(1) assms(4) _ e(4) d(2)] e(1) ns by (simp add: set_2_def)
  next
    case False
    obtain rc c' where sb: "mdb_cursor_sibling sn True d = Some (rc, c')" "same_db d c'"
      and nx: "if rc = 0
        then \<exists>js' q. cursor_on c' t js' \<and> sub_at t js' = Leaf q \<and> leaf_ok sn q \<and> top_page c' = Some q \<and> top_ki c' = 0
            \<and> 0 < pg_cnt q \<and> mc_init c' \<and> \<not> mc_eof c' \<and> \<not> mc_del c'
            \<and> after_items sn t js = leaf_items sn q @ after_items sn t js'
        else rc = MDB_NOTFOUND \<and> after_items sn t js = []"
      using right_leaf [OF assms(1,2) d(1) assms(4) e(2-4)] by blast
    note sb0 = same_db_trans [OF d(2) sb(2)]
    have rest: "drop i (leaf_items sn p) = []" using False by simp
    show ?thesis
    proof (cases "rc = 0")
      case True
      then obtain js2 q where m: "cursor_on c' t js2" "sub_at t js2 = Leaf q" "leaf_ok sn q" "top_page c' = Some q" "top_ki c' = 0"
        "top_ki c' < pg_cnt q" "mc_init c'" "\<not> mc_eof c'" "\<not> mc_del c'"
        "after_items sn t js = leaf_items sn q @ after_items sn t js2"
        using nx by auto
      have "assert_leaf c' = Some q" using m(3,4) by (simp add: assert_leaf_def leaf_ok_def page_kinds)
      then have "set_2 sn c key None MDB_SET_RANGE False = set_answer sn c' None MDB_SET_RANGE"
        using False True ns sb(1) by (simp add: set_2_def)
      then show ?thesis
        using set_answer_range [OF assms(1,2) m(1,2,6,9) sb0] rest m(5,10) by simp
    next
      case nz: False
      then have m: "rc = MDB_NOTFOUND" "after_items sn t js = []" using nx by simp_all
      then have "set_2 sn c key None MDB_SET_RANGE False = no_items (rc, c'\<lparr>mc_eof := True\<rparr>)"
        using False ns sb(1) nz by (simp add: set_2_def)
      then show ?thesis using m sb0 rest by (simp add: no_items_def next_answer_def same_db_def)
    qed
  qed
  ultimately show ?thesis by blast
qed

lemma dropWhile_split:
  "(\<And>x. x \<in> set xs \<Longrightarrow> P x) \<Longrightarrow> (\<And>x. x \<in> set ys \<Longrightarrow> \<not> P x) \<Longrightarrow> dropWhile P (xs @ ys) = ys"
  by (induction xs) (auto simp: dropWhile_eq_self_iff)

lemma cursor_range_spec:
  assumes "db_tree sn db f n (Some t)" "mdb_cursor_init sn dbi db f dcmp False flags = Some c" "flags AND TXN_BLOCKED = 0"
    "key_ok f n key" "key \<noteq> []"
  shows "\<exists>r. mdb_cursor_set sn c key None MDB_SET_RANGE False = Some r
    \<and> next_answer sn False t c (dropWhile (\<lambda>kv. key_meaning f (fst kv) < key_meaning f key) (tree_items sn t)) r"
proof -
  obtain h where t: "1 < md_root db" "md_root db \<noteq> P_INVALID" "sn_page sn (unat (md_root db)) = Some (tree_page t)"
    "h < CURSOR_STACK" "tree_in sn h t" "tree_sorted f n sn t" "branch_keysize f n"
    using assms(1) by (auto simp: db_tree_def)
  have c: "c = \<lparr>mc_dbi = dbi, mc_db = db, mc_cmp = f, mc_dcmp = dcmp, mc_stale = False, mc_txn_flags = flags, mc_snum = 0,
     mc_top = 0, mc_init = False, mc_eof = False, mc_del = False, mc_pg = (\<lambda>_. None), mc_ki = (\<lambda>_. 0)\<rparr>"
    using assms(2) by (simp add: mdb_cursor_init_def Let_def split: if_splits)
  have c0: "c\<lparr>mc_pg := (mc_pg c)(0 := None)\<rparr> = c" by (simp add: c fun_eq_iff)
  have cf: "\<not> mc_init c" "\<not> mc_del c" "\<not> mc_stale c" "mc_db c = db" "mc_txn_flags c = flags" "mc_pg c 0 = None" "mc_cmp c = f"
    by (simp_all add: c)
  define c1 where "c1 = c\<lparr>mc_pg := (mc_pg c)(0 := Some (tree_page t)), mc_snum := 1, mc_top := 0\<rparr>"
  have c1: "mc_cmp c1 = f" "cursor_on c1 t []" "same_db c c1" using cf by (simp_all add: c1_def cursor_on_def same_db_def)
  obtain p c' js pre where d: "mdb_page_search_root sn (PS_KEY key) c1 = Some (0, c')" "cursor_on c' t js"
    "sub_at t js = Leaf p" "keys_sorted f n p" "same_db c1 c'" "mc_init c'" "\<not> mc_eof c'"
    "tree_items sn t = pre @ leaf_items sn p @ after_items sn t js"
    "\<And>kv. kv \<in> set pre \<Longrightarrow> key_meaning f (fst kv) < key_meaning f key"
    "\<And>kv. kv \<in> set (after_items sn t js) \<Longrightarrow> key_meaning f key < key_meaning f (fst kv)"
    using descend_key [OF t(5,4) c1(2), of n key, simplified c1(1) sub_at.simps after_items.simps append_Nil2, OF t(6) assms(4) t(7)]
    by metis
  have c': "mc_cmp c' = f" "same_db c c'" "\<not> mc_del c'"
    using d(5) c1(1) same_db_trans [OF c1(3) d(5)] cf(2) by (simp_all add: same_db_def)
  obtain i r where r: "set_2 sn c' key None MDB_SET_RANGE False = Some r"
    "next_answer sn False t c (drop i (leaf_items sn p) @ after_items sn t js) r"
    "\<And>kv. kv \<in> set (take i (leaf_items sn p)) \<Longrightarrow> key_meaning f (fst kv) < key_meaning f key"
    "\<And>kv. kv \<in> set (drop i (leaf_items sn p)) \<Longrightarrow> key_meaning f key \<le> key_meaning f (fst kv)"
    using set_2_range [OF t(5,4) d(2,3), of n key c, simplified c'(1), OF d(4) assms(4) t(7) d(6,7) c'(3,2)] by blast
  have "tree_items sn t = (pre @ take i (leaf_items sn p)) @ (drop i (leaf_items sn p) @ after_items sn t js)"
    using d(8) append_assoc [of "take i (leaf_items sn p)" "drop i (leaf_items sn p)"] by simp
  then have todo: "dropWhile (\<lambda>kv. key_meaning f (fst kv) < key_meaning f key) (tree_items sn t)
      = drop i (leaf_items sn p) @ after_items sn t js"
    using d(9,10) r(3,4) by (simp only:) (rule dropWhile_split, auto simp: not_less less_imp_le)
  have ps: "mdb_page_search sn (PS_KEY key) c = Some (0, c')"
    using t(1-3) cf assms(3) d(1)
    by (simp add: mdb_page_search_def page_search_from_def page_get_def Let_def c1_def linorder_not_le [symmetric])
  have "assert_leaf c' = Some p" using leaf_at [OF t(5,4) d(2,3)] by (simp add: assert_leaf_def leaf_ok_def page_kinds)
  then have "mdb_cursor_set sn c key None MDB_SET_RANGE False = Some r"
    using cf c0 ps r(1) assms(5) by (simp add: mdb_cursor_set_def)
  then show ?thesis using r(2) todo by (intro exI [of _ r]) simp
qed

section \<open>Properties\<close>

text \<open>C33: \<open>mdb_get\<close> is the lookup in the list of items that the tree of pages holds: for a key the database
  has it answers success and the data of that key, whether it is in a node or on overflow pages, and for any
  other key \<open>MDB_NOTFOUND\<close>; for trees of any shape with fewer than 32 levels, and each comparison function
  of the library.\<close>

theorem mdb_get_correct:
  assumes "db_tree sn db f n t" "key_ok f n key" "key \<noteq> []" "flags AND TXN_BLOCKED = 0"
  shows "mdb_get sn True dbi db f dcmp False flags key =
    Some (case map_of (db_items sn t) key of None \<Rightarrow> (MDB_NOTFOUND, None) | Some v \<Rightarrow> (0, Some v))"
  by (rule mdb_get_spec [OF assms])

text \<open>A tree of two levels: a branch page with two leaves.\<close>

lemma all_less_2: "(\<forall>i < 2. P i) \<longleftrightarrow> P 0 \<and> P (Suc 0)" for P :: "nat \<Rightarrow> bool"
  by (auto simp: less_2_cases_iff)

lemma sum_less_2: "(\<Sum>i < 2. g i) = g 0 + g (Suc 0)" for g :: "nat \<Rightarrow> nat"
  by (simp add: numeral_2_eq_2)

definition page_two :: page where
  "page_two = [8, 0, 0, 0, 0, 0, 0, 0, 0, 0, 2, 0, 18, 0, 52, 0, 52, 0] @ replicate 34 0
     @ [2, 0, 0, 0, 0, 0, 1, 0, 98, 1, 2, 0]"

definition page_root :: page where
  "page_root = [9, 0, 0, 0, 0, 0, 0, 0, 0, 0, 1, 0, 20, 0, 46, 0, 56, 0, 46, 0] @ replicate 26 0
     @ [8, 0, 0, 0, 0, 0, 1, 0, 98, 0] @ [7, 0, 0, 0, 0, 0, 0, 0]"

lemma page_two_hdr: "length page_two = 64" "pg_lower page_two = 18" "pg_upper page_two = 52"
  "pg_flags page_two = 2" "pg_cnt page_two = 1" "pg_leaf page_two" "pg_ptr page_two 0 = 52"
  by (simp_all add: page_two_def pg_lower_def pg_upper_def pg_flags_def pg_cnt_def pg_leaf_def pg_ptr_def le_at_nth
      F_ISSET_def P_LEAF_def)

lemma page_two_node: "n_ksize page_two 52 = 1" "n_flags page_two 52 = 0" "n_word page_two 52 = 2"
  by (simp_all add: page_two_def n_ksize_def n_flags_def n_word_def le_at_nth nth_append)

lemma page_root_hdr: "length page_root = 64" "pg_lower page_root = 20" "pg_upper page_root = 46"
  "pg_flags page_root = 1" "pg_cnt page_root = 2" "\<not> pg_leaf page_root" "pg_ptr page_root 0 = 56" "pg_ptr page_root (Suc 0) = 46"
  by (simp_all add: page_root_def pg_lower_def pg_upper_def pg_flags_def pg_cnt_def pg_leaf_def pg_ptr_def le_at_nth
      F_ISSET_def P_LEAF_def)

lemma page_root_node: "n_ksize page_root 46 = 1" "n_flags page_root 46 = 0" "n_word page_root 46 = 8"
  "n_ksize page_root 56 = 0" "n_flags page_root 56 = 0" "n_word page_root 56 = 7"
  by (simp_all add: page_root_def n_ksize_def n_flags_def n_word_def le_at_nth nth_append)

lemma page_sizes: "n_size True page_two 52 = 12" "n_size False page_root 46 = 10" "n_size False page_root 56 = 8"
  by (simp_all add: n_size_def n_dsize_def data_size_def page_two_node page_root_node EVEN_def F_ISSET_def F_BIGDATA_def)

lemma page_two_wf: "page_wf page_two"
  by (simp add: page_wf_def page_two_hdr page_sizes F_ISSET_def P_LEAF2_def)

lemma page_root_wf: "page_wf page_root"
  by (simp add: page_wf_def page_root_hdr page_sizes F_ISSET_def P_LEAF2_def all_less_2 sum_less_2 All_less_Suc)

definition sn_sample :: snapshot where
  "sn_sample = \<lparr>sn_page = [7 \<mapsto> page_one, 8 \<mapsto> page_two, 9 \<mapsto> page_root], sn_main = None, sn_name = [], sn_changed = False\<rparr>"

definition tree_sample :: tree where "tree_sample = Node page_root [Leaf page_one, Leaf page_two]"

lemma leaf_samples:
  "page_nodes page_one = [\<lparr>nd_flags = 0, nd_key = [97], nd_word = 2, nd_data = [5, 6]\<rparr>]"
  "page_nodes page_two = [\<lparr>nd_flags = 0, nd_key = [98], nd_word = 2, nd_data = [1, 2]\<rparr>]"
  by (simp_all add: page_nodes_def page_one_hdr page_two_hdr node_at_def page_one_node page_two_node n_dsize_def data_size_def
      F_ISSET_def F_BIGDATA_def)
    (simp_all add: sub_def page_one_def page_two_def)

lemma leaf_samples_ok: "leaf_ok sn page_one" "leaf_ok sn page_two"
  "leaf_items sn page_one = [([97], [5, 6])]" "leaf_items sn page_two = [([98], [1, 2])]"
  by (simp_all add: leaf_ok_def leaf_samples page_one_wf page_two_wf page_kind_def page_one_hdr page_two_hdr leaf_items_def
      node_value_def F_ISSET_def P_BRANCH_def F_DUPDATA_def F_BIGDATA_def)

lemma page_root_keys: "page_keys page_root ! Suc 0 = [98]"
  by (simp add: page_keys_nth page_root_hdr page_root_node) (simp add: sub_def page_root_def)

lemma tree_sample_ok: "db_tree sn_sample (db_sample\<lparr>md_root := 9\<rparr>) Cmp_memn 0 (Some tree_sample)"
  "db_items sn_sample (Some tree_sample) = [([97], [5, 6]), ([98], [1, 2])]"
proof -
  have "tree_in sn_sample 1 tree_sample"
    by (simp add: tree_sample_def page_root_wf page_kind_def page_root_hdr leaf_samples_ok nd_pgno_def page_root_node
        sn_sample_def F_ISSET_def P_BRANCH_def all_less_2 sum_less_2 All_less_Suc)
  moreover have "tree_sorted Cmp_memn 0 sn_sample tree_sample"
    using page_one_search(2)
    by (simp add: tree_sample_def keys_sorted_def lo0_def page_root_hdr page_two_hdr page_root_keys leaf_samples_ok
        page_keys_def [of page_two] leaf_samples all_less_2 sum_less_2 All_less_Suc)
  ultimately show "db_tree sn_sample (db_sample\<lparr>md_root := 9\<rparr>) Cmp_memn 0 (Some tree_sample)"
    by (auto simp: db_tree_def db_sample_def branch_keysize_def P_INVALID_def CURSOR_STACK_def sn_sample_def tree_sample_def
        intro!: exI [of _ "Suc 0"])
  show "db_items sn_sample (Some tree_sample) = [([97], [5, 6]), ([98], [1, 2])]"
    by (simp add: db_items_def tree_sample_def leaf_samples_ok)
qed

theorem mdb_get_correct_witness:
  "mdb_get sn_sample True 1 (db_sample\<lparr>md_root := 9\<rparr>) Cmp_memn None False 0 [98] = Some (0, Some [1, 2])
   \<and> mdb_get sn_sample True 1 (db_sample\<lparr>md_root := 9\<rparr>) Cmp_memn None False 0 [97, 0] = Some (MDB_NOTFOUND, None)"
proof -
  have "key_ok Cmp_memn 0 [98]" "key_ok Cmp_memn 0 [97, 0]" "(0 :: u32) AND TXN_BLOCKED = 0" by simp_all
  then show ?thesis
    using mdb_get_correct [OF tree_sample_ok(1), of "[98]" 0 1 None] mdb_get_correct [OF tree_sample_ok(1), of "[97, 0]" 0 1 None]
    by (simp add: tree_sample_ok(2))
qed

text \<open>C34: A fresh cursor moved with \<open>MDB_NEXT\<close> visits every item of the database, in the order of the tree,
  each once, then answers \<open>MDB_NOTFOUND\<close>: the loop of a reader ends after one call more than there are
  items.\<close>

theorem mdb_cursor_walk:
  assumes "db_tree sn db f n t" "mdb_cursor_init sn dbi db f dcmp False flags = Some c" "flags AND TXN_BLOCKED = 0"
  shows "walk sn (Suc (length (db_items sn t))) c = Some (db_items sn t, MDB_NOTFOUND)"
  by (rule walk_from_start [OF assms])

theorem mdb_cursor_walk_witness:
  "\<exists>c. mdb_cursor_init sn_sample 1 (db_sample\<lparr>md_root := 9\<rparr>) Cmp_memn None False 0 = Some c
    \<and> walk sn_sample 3 c = Some ([([97], [5, 6]), ([98], [1, 2])], MDB_NOTFOUND)"
proof -
  obtain c where c: "mdb_cursor_init sn_sample 1 (db_sample\<lparr>md_root := 9\<rparr>) Cmp_memn None False 0 = Some c"
    by (simp add: mdb_cursor_init_def db_sample_def)
  have "(0 :: u32) AND TXN_BLOCKED = 0" by simp
  from mdb_cursor_walk [OF tree_sample_ok(1) c this] c show ?thesis
    by (simp add: tree_sample_ok(2) numeral_3_eq_3 del: walk.simps)
qed

end
