(* ===== verification/Mdb_Cursor_Wf.thy ===== *)
theory Mdb_Cursor_Wf
  imports Mdb_Tree
begin

text \<open>
  The type invariant of a reading cursor: the number of pages on the stack and the index of the top fit each
  other and the array, and a cursor that is initialised has a page in every entry. Every operation of
  \<open>mdb_cursor_get\<close> keeps it, whatever bytes the pages hold and whatever pages are missing: the code relies on
  it at each access to \<open>mc_pg[mc_top]\<close>.
\<close>

unbundle bit_operations_syntax

section \<open>The invariant\<close>

definition stack_ok :: "MDB_cursor \<Rightarrow> bool" where
  "stack_ok c \<longleftrightarrow> mc_snum c = mc_top c + 1 \<and> mc_snum c \<le> CURSOR_STACK \<and> (\<forall>k < mc_snum c. mc_pg c k \<noteq> None)"

definition cursor_wf :: "MDB_cursor \<Rightarrow> bool" where
  "cursor_wf c \<longleftrightarrow> stack_ok c \<or> \<not> mc_init c \<and> mc_snum c \<le> CURSOR_STACK
     \<and> (mc_snum c = 0 \<and> mc_top c = 0 \<or> mc_snum c = mc_top c + 1)"

lemma stack_wf [simp]: "stack_ok c \<Longrightarrow> cursor_wf c"
  by (simp add: cursor_wf_def)

lemma wf_init: "cursor_wf c \<Longrightarrow> mc_init c \<Longrightarrow> stack_ok c"
  by (simp add: cursor_wf_def)

lemma stack_top: "stack_ok c \<Longrightarrow> \<exists>mp. top_page c = Some mp"
  by (auto simp: stack_ok_def top_page_def)

lemma stack_flags [simp]:
  "stack_ok (c\<lparr>mc_init := a\<rparr>) = stack_ok c" "stack_ok (c\<lparr>mc_eof := a\<rparr>) = stack_ok c"
  "stack_ok (c\<lparr>mc_del := a\<rparr>) = stack_ok c" "stack_ok (c\<lparr>mc_txn_flags := x\<rparr>) = stack_ok c"
  "stack_ok (c\<lparr>mc_db := db\<rparr>) = stack_ok c" "stack_ok (c\<lparr>mc_stale := a\<rparr>) = stack_ok c"
  "stack_ok (set_ki c i) = stack_ok c"
  by (simp_all add: stack_ok_def set_ki_def)

lemma wf_flags [simp]:
  "cursor_wf (c\<lparr>mc_eof := a\<rparr>) = cursor_wf c" "cursor_wf (c\<lparr>mc_del := a\<rparr>) = cursor_wf c"
  "cursor_wf (c\<lparr>mc_txn_flags := x\<rparr>) = cursor_wf c" "cursor_wf (c\<lparr>mc_db := db\<rparr>) = cursor_wf c"
  "cursor_wf (c\<lparr>mc_stale := a\<rparr>) = cursor_wf c" "cursor_wf (set_ki c i) = cursor_wf c"
  by (simp_all add: cursor_wf_def set_ki_def stack_ok_def)

lemma set_ki_fields [simp]:
  "mc_snum (set_ki c i) = mc_snum c" "mc_top (set_ki c i) = mc_top c" "mc_pg (set_ki c i) = mc_pg c"
  "mc_init (set_ki c i) = mc_init c"
  by (simp_all add: set_ki_def)

section \<open>The stack\<close>

lemma page_get_fields:
  "page_get sn c pgno = Inl (rc, c') \<Longrightarrow> rc = MDB_PAGE_NOTFOUND \<and> c' = c\<lparr>mc_txn_flags := mc_txn_flags c OR TXN_ERROR\<rparr>"
  by (auto simp: page_get_def split: option.splits)

lemma push_stack:
  assumes "stack_ok c" "mdb_cursor_push c mp = (rc, c')"
  shows "stack_ok c'"
  using assms by (auto simp: mdb_cursor_push_def stack_ok_def less_Suc_eq split: if_splits)

lemma node_search_stack:
  assumes "node_search c key = Some (c', r)"
  shows "\<exists>i. c' = set_ki c i"
  using assms by (auto simp: node_search_def split: Option.bind_splits)

lemma root_index_stack:
  assumes "root_index ps c n = Some (pick, c')"
  shows "\<exists>i. c' = c \<or> c' = set_ki c i"
  using assms by (auto simp: root_index_def Let_def dest!: node_search_stack split: ps.splits Option.bind_splits if_splits)

lemma root_step_stack:
  assumes "root_step sn ps c mp = Some r" "stack_ok c"
  shows "case r of Inl (rc, c') \<Rightarrow> stack_ok c' | Inr c' \<Rightarrow> stack_ok c'"
proof -
  obtain n pick d where d: "root_index ps c n = Some (pick, d)" and step:
    "(case pick of
        None \<Rightarrow> do { let d = d\<lparr>mc_top := mc_snum d, mc_snum := mc_snum d + 1\<rparr>; _ \<leftarrow> top_page d; Some (Inr d) }
      | Some i \<Rightarrow>
          if n \<le> i then None
          else do {
            off \<leftarrow> NODEPTR mp i; pgno \<leftarrow> NODEPGNO mp off;
            case page_get sn d pgno of
              Inl r \<Rightarrow> Some (Inl r)
            | Inr mp \<Rightarrow> let (rc, d) = mdb_cursor_push (set_ki d i) mp
                        in Some (if rc \<noteq> 0 then Inl (rc, d) else Inr d) }) = Some r"
    using assms(1) unfolding root_step_def by (auto split: Option.bind_splits if_splits)
  have ok: "stack_ok d" using root_index_stack [OF d] assms(2) by auto
  show ?thesis
  proof (cases pick)
    case None
    then show ?thesis
      using step ok by (auto simp: Let_def top_page_def stack_ok_def less_Suc_eq split: Option.bind_splits if_splits)
  next
    case (Some i)
    then show ?thesis
      using step ok push_stack [of "set_ki d i"]
      by (auto split: Option.bind_splits if_splits sum.splits prod.splits dest!: page_get_fields)
  qed
qed

lemma search_root_stack:
  "mdb_page_search_root sn ps c = Some (rc, c') \<Longrightarrow> stack_ok c \<Longrightarrow> stack_ok c'"
proof (induction sn ps c arbitrary: rc c' rule: mdb_page_search_root.induct)
  case (1 sn ps c)
  from "1.prems"(1) show ?case
    using root_step_stack [OF _ "1.prems"(2)] "1.IH" "1.prems"(2)
    by (subst (asm) mdb_page_search_root.simps)
      (fastforce split: option.splits bool.splits sum.splits if_splits)
qed

text \<open>An error of the refreshing of a stale record is not zero.\<close>

lemma refresh_db_error:
  assumes "refresh_db sn c = Some (Inl rc, c')"
  shows "rc \<noteq> 0"
  using assms by (auto simp: refresh_db_def Let_def MDB_BAD_DBI_def MDB_NOTFOUND_def MDB_INCOMPATIBLE_def
      split: Option.bind_splits if_splits)

lemma refresh_db_cursor:
  assumes "refresh_db sn c = Some (r, c')"
  shows "c' = c\<lparr>mc_txn_flags := mc_txn_flags c'\<rparr>"
  using assms by (auto simp: refresh_db_def Let_def split: Option.bind_splits if_splits)

lemma page_search_from_wf:
  assumes "page_search_from sn ps c = Some (rc, c')" "cursor_wf c"
  shows "cursor_wf c' \<and> (rc = 0 \<longrightarrow> stack_ok c')"
proof -
  have "stack_ok (c\<lparr>mc_pg := (mc_pg c)(0 := Some p), mc_snum := 1, mc_top := 0\<rparr>)" for p
    by (simp add: stack_ok_def CURSOR_STACK_def)
  note ok = this [simplified]
  show ?thesis
    using assms ok by (auto simp: page_search_from_def Let_def MDB_NOTFOUND_def MDB_PAGE_NOTFOUND_def
        dest!: page_get_fields search_root_stack split: Option.bind_splits if_splits option.splits sum.splits)
qed

lemma page_search_wf:
  assumes "mdb_page_search sn ps c = Some (rc, c')" "cursor_wf c"
  shows "cursor_wf c' \<and> (rc = 0 \<longrightarrow> stack_ok c')"
proof (cases "mc_txn_flags c AND TXN_BLOCKED \<noteq> 0")
  case True
  then show ?thesis using assms by (simp add: mdb_page_search_def MDB_BAD_TXN_def)
next
  case False
  show ?thesis
  proof (cases "mc_stale c")
    case True
    then obtain r d where r: "refresh_db sn c = Some (r, d)"
      "(case r of Inl rc \<Rightarrow> Some (rc, d) | Inr db \<Rightarrow> page_search_from sn ps (d\<lparr>mc_db := db, mc_stale := False\<rparr>)) = Some (rc, c')"
      using assms(1) False by (auto simp: mdb_page_search_def split: Option.bind_splits)
    have d: "cursor_wf d" by (subst refresh_db_cursor [OF r(1)]) (simp add: assms(2))
    show ?thesis
    proof (cases r)
      case (Inl e)
      then show ?thesis using r refresh_db_error [of sn c e d] d by auto
    next
      case (Inr db)
      then show ?thesis using r page_search_from_wf [of sn ps "d\<lparr>mc_db := db, mc_stale := False\<rparr>" rc c'] d by simp
    qed
  next
    case 2: False
    then show ?thesis using assms False page_search_from_wf by (simp add: mdb_page_search_def)
  qed
qed

section \<open>Moving to a sibling\<close>

text \<open>What a move to a sibling keeps: the stack is in order, no higher, and no page of it is lost.\<close>

definition sibling_kept :: "MDB_cursor \<Rightarrow> int \<Rightarrow> MDB_cursor \<Rightarrow> bool" where
  "sibling_kept c rc c' \<longleftrightarrow> stack_ok c' \<and> mc_snum c' \<le> mc_snum c \<and> (rc = 0 \<longrightarrow> mc_snum c' = mc_snum c)
     \<and> (\<forall>k. mc_pg c k \<noteq> None \<longrightarrow> mc_pg c' k \<noteq> None)"

lemma pop_stack:
  assumes "stack_ok c" "2 \<le> mc_snum c"
  shows "stack_ok (mdb_cursor_pop c)" "mc_snum (mdb_cursor_pop c) = mc_snum c - 1" "mc_pg (mdb_cursor_pop c) = mc_pg c"
  using assms by (auto simp: mdb_cursor_pop_def stack_ok_def Let_def)

lemma sibling_child:
  assumes "stack_ok c" "mc_snum c < CURSOR_STACK"
    and "do { mp \<leftarrow> top_page c; branch \<leftarrow> IS_BRANCH mp;
           if \<not> branch then None
           else do {
             off \<leftarrow> NODEPTR mp (top_ki c); pgno \<leftarrow> NODEPGNO mp off;
             case page_get sn c pgno of
               Inl (rc, c) \<Rightarrow> Some (rc, c\<lparr>mc_init := False, mc_eof := False\<rparr>)
             | Inr mp \<Rightarrow> do { n \<leftarrow> NUMKEYS mp;
                            let c = snd (mdb_cursor_push c mp);
                            Some (0, if right then c else set_ki c (indx_sub n 1)) } } } = Some (rc, c')"
  shows "stack_ok c' \<and> mc_snum c' \<le> mc_snum c + 1 \<and> (rc = 0 \<longrightarrow> mc_snum c' = mc_snum c + 1)
    \<and> (\<forall>k. mc_pg c k \<noteq> None \<longrightarrow> mc_pg c' k \<noteq> None)"
proof -
  have push: "stack_ok (snd (mdb_cursor_push c mp)) \<and> mc_snum (snd (mdb_cursor_push c mp)) = mc_snum c + 1
      \<and> (\<forall>k. mc_pg c k \<noteq> None \<longrightarrow> mc_pg (snd (mdb_cursor_push c mp)) k \<noteq> None)" for mp
    using push_stack [OF assms(1), of mp] assms(2) by (auto simp: mdb_cursor_push_def)
  show ?thesis
    using assms(1,3) push
    by (auto simp: Let_def MDB_PAGE_NOTFOUND_def dest!: page_get_fields split: Option.bind_splits if_splits sum.splits)
qed

lemma sibling_wf:
  "mdb_cursor_sibling sn right c = Some (rc, c') \<Longrightarrow> stack_ok c \<Longrightarrow> sibling_kept c rc c'"
proof (induction sn right c arbitrary: rc c' rule: mdb_cursor_sibling.induct)
  case (1 sn right c)
  show ?case
  proof (cases "mc_snum c < 2")
    case True
    then show ?thesis
      using "1.prems" by (auto simp: mdb_cursor_sibling.simps [of sn right c] sibling_kept_def MDB_NOTFOUND_def)
  next
    case False
    define d where "d = mdb_cursor_pop c"
    have d: "stack_ok d" "mc_snum d = mc_snum c - 1" "mc_pg d = mc_pg c"
      using pop_stack [OF "1.prems"(2)] False by (simp_all add: d_def)
    obtain mp n where mp: "top_page d = Some mp" "NUMKEYS mp = Some n"
      using "1.prems"(1) False by (auto simp: mdb_cursor_sibling.simps [of sn right c] Let_def d_def [symmetric] split: option.splits)
    define edge where "edge = (if right then n \<le> top_ki d + 1 else top_ki d = 0)"
    note IH = "1.IH" [OF False d_def mp, folded edge_def, OF _ _ d(1)]
    note eq = "1.prems"(1) [unfolded mdb_cursor_sibling.simps [of sn right c], folded d_def, simplified False if_False Let_def mp option.case, folded edge_def]
    have up: "mc_snum d < CURSOR_STACK" using d(2) "1.prems"(2) False by (auto simp: stack_ok_def)
    show ?thesis
    proof (cases edge)
      case True
      then obtain rc1 c1 where r1: "mdb_cursor_sibling sn right d = Some (rc1, c1)"
        using eq by (cases "mdb_cursor_sibling sn right d") auto
      have k1: "sibling_kept d rc1 c1" by (rule IH [OF True r1])
      show ?thesis
      proof (cases "rc1 = 0")
        case 0: True
        have s1: "stack_ok c1" "mc_snum c1 = mc_snum d" using k1 0 by (simp_all add: sibling_kept_def)
        show ?thesis
          using sibling_child [where c = c1 and sn = sn and right = right and rc = rc and c' = c', unfolded Let_def] s1 eq 0 r1 True k1 d up False
          by (simp add: sibling_kept_def)
      next
        case err: False
        then have c': "c' = c1\<lparr>mc_top := mc_top c1 + 1, mc_snum := mc_snum c1 + 1\<rparr>" "rc = rc1"
          using eq r1 True by auto
        have "mc_pg c1 k \<noteq> None" if "k < mc_snum c" for k
          using that k1 d(3) "1.prems"(2) by (simp add: sibling_kept_def stack_ok_def)
        then show ?thesis
          using c' k1 d False err "1.prems"(2) by (simp add: sibling_kept_def stack_ok_def)
      qed
    next
      case 2: False
      let ?e = "set_ki d (if right then (top_ki d + 1) mod 2 ^ 16 else top_ki d - 1)"
      show ?thesis
        using sibling_child [where c = ?e and sn = sn and right = right and rc = rc and c' = c', unfolded Let_def] eq 2 d up False by (simp add: sibling_kept_def)
    qed
  qed
qed

section \<open>Reading\<close>

lemma node_read_same:
  assumes "mdb_node_read sn c mp off = Some (rc, c', v)"
  shows "c' = c \<or> (\<exists>x. c' = c\<lparr>mc_txn_flags := x\<rparr>)"
  using assms by (auto simp: mdb_node_read_def dest!: page_get_fields split: Option.bind_splits if_splits sum.splits)

lemma read_item_wf:
  assumes "read_item sn want c = Some (rc, c', it)" "stack_ok c"
  shows "stack_ok c'"
  using assms by (auto simp: read_item_def Let_def dest!: node_read_same split: Option.bind_splits if_splits)

lemma set_answer_wf:
  assumes "set_answer sn c data oper = Some (rc, c', it)" "stack_ok c"
  shows "stack_ok c'"
  using assms by (auto simp: set_answer_def Let_def dest!: node_read_same split: Option.bind_splits if_splits option.splits)

lemma no_items_eq: "no_items r = Some (rc, c', it) \<longleftrightarrow> r = (rc, c') \<and> it = (None, None)"
  by (cases r) (auto simp: no_items_def)

lemma sibling_stack: "mdb_cursor_sibling sn right c = Some (rc, c') \<Longrightarrow> stack_ok c \<Longrightarrow> stack_ok c'"
  by (auto dest!: sibling_wf simp: sibling_kept_def)

lemma search_or_stay:
  assumes "(if \<not> mc_init c \<or> mc_top c \<noteq> 0 then mdb_page_search sn ps c else Some (0, c)) = Some (rc, c')" "cursor_wf c"
  shows "cursor_wf c' \<and> (rc = 0 \<longrightarrow> stack_ok c')"
  using assms page_search_wf [OF _ assms(2)] wf_init [OF assms(2)] by (auto split: if_splits)

lemma cursor_first_wf:
  assumes "mdb_cursor_first sn want c = Some (rc, c', it)" "cursor_wf c"
  shows "cursor_wf c' \<and> (rc = 0 \<longrightarrow> stack_ok c')"
proof -
  obtain rc1 c1 where 1: "(if \<not> mc_init c \<or> mc_top c \<noteq> 0 then mdb_page_search sn PS_FIRST c else Some (0, c)) = Some (rc1, c1)"
    using assms(1) unfolding mdb_cursor_first_def by (auto split: Option.bind_splits)
  show ?thesis
    using assms(1) search_or_stay [OF 1 assms(2)] unfolding mdb_cursor_first_def 1
    by (auto simp: no_items_eq dest!: read_item_wf split: Option.bind_splits if_splits)
qed

lemma cursor_last_wf:
  assumes "mdb_cursor_last sn want c = Some (rc, c', it)" "cursor_wf c"
  shows "cursor_wf c' \<and> (rc = 0 \<longrightarrow> stack_ok c')"
proof -
  obtain rc1 c1 where 1: "(if \<not> mc_init c \<or> mc_top c \<noteq> 0 then mdb_page_search sn PS_LAST c else Some (0, c)) = Some (rc1, c1)"
    using assms(1) unfolding mdb_cursor_last_def by (auto split: Option.bind_splits)
  show ?thesis
    using assms(1) search_or_stay [OF 1 assms(2)] unfolding mdb_cursor_last_def 1
    by (auto simp: no_items_eq dest!: read_item_wf split: Option.bind_splits if_splits)
qed

lemma cursor_next_wf:
  assumes "mdb_cursor_next sn want oper c = Some (rc, c', it)" "cursor_wf c"
  shows "cursor_wf c'"
proof (cases "mc_init c")
  case True
  note ok = wf_init [OF assms(2) True]
  show ?thesis
    using assms ok True unfolding mdb_cursor_next_def
    by (auto simp: no_items_eq Let_def dest!: sibling_stack read_item_wf split: Option.bind_splits if_splits)
next
  case False
  then show ?thesis
    using assms cursor_first_wf unfolding mdb_cursor_next_def by (auto simp: no_items_eq split: if_splits)
qed

lemma cursor_prev_wf:
  assumes "mdb_cursor_prev sn want oper c = Some (rc, c', it)" "cursor_wf c"
  shows "cursor_wf c'"
proof -
  obtain rc1 c1 where 1: "(if mc_init c then Some (0, c)
       else do { (rc, c, _) \<leftarrow> mdb_cursor_last sn want c; Some (rc, if rc \<noteq> 0 then c else set_ki c ((top_ki c + 1) mod 2 ^ 16)) }) = Some (rc1, c1)"
    using assms(1) unfolding mdb_cursor_prev_def by (auto split: Option.bind_splits)
  have wf: "cursor_wf c1 \<and> (rc1 = 0 \<longrightarrow> stack_ok c1)"
    using 1 assms(2) wf_init [OF assms(2)] by (auto dest!: cursor_last_wf split: if_splits Option.bind_splits)
  show ?thesis
    using assms(1) wf unfolding mdb_cursor_prev_def 1
    by (auto simp: no_items_eq Let_def dest!: sibling_stack read_item_wf split: Option.bind_splits if_splits)
qed

section \<open>Setting\<close>

lemma set_here_stack:
  assumes "set_here c key oper exactp = Some (jump, c')" "stack_ok c"
  shows "stack_ok c'"
  using assms unfolding set_here_def by (auto split: Option.bind_splits if_splits)

lemma set_2_wf:
  assumes "set_2 sn c key data oper exactp = Some (rc, c', it)" "stack_ok c"
  shows "stack_ok c'"
  using assms unfolding set_2_def
  by (auto simp: no_items_eq dest!: sibling_stack set_answer_wf node_search_stack split: Option.bind_splits if_splits)

lemma cursor_set_wf:
  assumes "mdb_cursor_set sn c key data oper exactp = Some (rc, c', it)" "cursor_wf c"
  shows "cursor_wf c'"
proof (cases "key = []")
  case False
  obtain jump c1 where j: "(if mc_init c then set_here c key oper exactp
      else Some (Set_search, c\<lparr>mc_pg := (mc_pg c)(0 := None)\<rparr>)) = Some (jump, c1)"
    using assms(1) False unfolding mdb_cursor_set_def by (auto split: Option.bind_splits)
  have c1: "cursor_wf c1 \<and> (jump \<noteq> Set_search \<longrightarrow> stack_ok c1)"
  proof (cases "mc_init c")
    case True
    then show ?thesis using j wf_init [OF assms(2)] by (auto dest!: set_here_stack)
  next
    case False
    then have "c1 = c\<lparr>mc_pg := (mc_pg c)(0 := None)\<rparr>" "jump = Set_search" using j by auto
    then show ?thesis using assms(2) False by (auto simp: cursor_wf_def stack_ok_def)
  qed
  show ?thesis
    using assms(1) False c1 unfolding mdb_cursor_set_def j
    by (auto simp: no_items_eq dest!: page_search_wf set_2_wf set_answer_wf
        split: Option.bind_splits if_splits set_jump.splits)
qed (use assms in \<open>simp add: mdb_cursor_set_def no_items_eq\<close>)

section \<open>The operations of the interface\<close>

lemma get_current_wf:
  assumes "get_current sn want c = Some (rc, c', it)" "cursor_wf c"
  shows "cursor_wf c'"
  using assms unfolding get_current_def
  by (auto simp: no_items_eq Let_def dest!: node_read_same split: Option.bind_splits if_splits)

lemma cursor_get_wf:
  assumes "mdb_cursor_get sn c key data oper = Some (rc, c', it)" "cursor_wf c"
  shows "cursor_wf c'"
  using assms unfolding mdb_cursor_get_def
  by (cases oper) (auto simp: no_items_eq Let_def split: Option.bind_splits if_splits
      dest: get_current_wf cursor_set_wf cursor_next_wf cursor_prev_wf cursor_first_wf cursor_last_wf)

lemma cursor_init_wf:
  assumes "mdb_cursor_init sn dbi db cmp dcmp stale flags = Some c"
  shows "cursor_wf c"
proof -
  let ?c = "\<lparr>mc_dbi = dbi, mc_db = db, mc_cmp = cmp, mc_dcmp = dcmp, mc_stale = stale, mc_txn_flags = flags, mc_snum = 0,
     mc_top = 0, mc_init = False, mc_eof = False, mc_del = False, mc_pg = (\<lambda>_. None), mc_ki = (\<lambda>_. 0)\<rparr>"
  have "cursor_wf ?c" by (simp add: cursor_wf_def)
  then show ?thesis
    using assms page_search_wf [of sn PS_ROOTONLY ?c] by (auto simp: mdb_cursor_init_def Let_def split: if_splits)
qed

section \<open>Properties\<close>

text \<open>The operations that a program performs on one cursor, each with its key and data.\<close>

fun cursor_ops :: "snapshot \<Rightarrow> MDB_cursor \<Rightarrow> (cursor_op \<times> mval \<times> mval option) list \<Rightarrow> MDB_cursor option" where
  "cursor_ops sn c [] = Some c"
| "cursor_ops sn c ((oper, key, data) # ops) =
     do { (rc, c, it) \<leftarrow> mdb_cursor_get sn c key data oper; cursor_ops sn c ops }"

lemma cursor_ops_wf: "cursor_ops sn c ops = Some c' \<Longrightarrow> cursor_wf c \<Longrightarrow> cursor_wf c'"
  by (induction sn c ops rule: cursor_ops.induct) (auto dest: cursor_get_wf split: Option.bind_splits)

lemma push_wf:
  assumes "cursor_wf c"
  shows "cursor_wf (snd (mdb_cursor_push c p))"
  using assms by (auto simp: mdb_cursor_push_def cursor_wf_def stack_ok_def less_Suc_eq)

text \<open>Pages that are in order one by one, whatever pages their nodes point to: a cycle is possible.\<close>

definition page_sound :: "page \<Rightarrow> bool" where
  "page_sound p \<longleftrightarrow> page_wf p \<and> page_kind p \<and> (pg_leaf p \<or> 2 \<le> pg_cnt p)"

lemma descent_step:
  assumes "page_sound p" "\<not> pg_leaf p" "\<forall>no q. sn_page sn no = Some q \<longrightarrow> page_sound q"
    and "stack_ok c" "top_page c = Some p"
  shows "(\<exists>c'. root_step sn PS_FIRST c p = Some (Inl (MDB_PAGE_NOTFOUND, c')))
    \<or> mc_snum c = CURSOR_STACK \<and> (\<exists>c'. root_step sn PS_FIRST c p = Some (Inl (MDB_CURSOR_FULL, c')))
    \<or> (\<exists>c' q. root_step sn PS_FIRST c p = Some (Inr c') \<and> top_page c' = Some q \<and> page_sound q)"
proof -
  have w: "page_wf p" "page_kind p" "2 \<le> pg_cnt p" using assms(1,2) by (simp_all add: page_sound_def)
  then have n0: "0 < pg_cnt p" by simp
  obtain pgno where pg: "NODEPTR p 0 = Some (pg_ptr p 0)" "NODEPGNO p (pg_ptr p 0) = Some pgno"
    using page_node_bounds [OF w(1) n0] n_size_ge(1) [of p "pg_ptr p 0" "pg_leaf p"]
    by (simp add: NODEPTR_def page_hdr NODEPGNO_def NODEFLAGS_def ld_le_at)
  have step: "root_step sn PS_FIRST c p =
     (case page_get sn c pgno of Inl r \<Rightarrow> Some (Inl r)
      | Inr q \<Rightarrow> let (rc, c) = mdb_cursor_push (set_ki c 0) q in Some (if rc \<noteq> 0 then Inl (rc, c) else Inr c))"
    using w(3) pg page_kinds(1) [OF w(1)] by (simp add: root_step_def root_index_def)
  show ?thesis
  proof (cases "sn_page sn pgno")
    case None
    then show ?thesis by (simp add: step page_get_def)
  next
    case (Some q)
    show ?thesis
    proof (cases "mc_snum c = CURSOR_STACK")
      case True
      then show ?thesis using Some by (simp add: step page_get_def mdb_cursor_push_def MDB_CURSOR_FULL_def)
    next
      case False
      then have "mc_snum c < CURSOR_STACK" using assms(4) by (simp add: stack_ok_def)
      then show ?thesis
        using Some assms(3) by (simp add: step page_get_def mdb_cursor_push_def top_page_def)
    qed
  qed
qed

text \<open>On such pages the descent to the first leaf always returns: in a cycle the guard of
  \<open>mdb_cursor_push\<close> ends it.\<close>

lemma descent_returns:
  assumes "\<forall>no q. sn_page sn no = Some q \<longrightarrow> page_sound q"
  shows "stack_ok c \<Longrightarrow> top_page c = Some p \<Longrightarrow> page_sound p \<Longrightarrow>
    \<exists>rc c'. mdb_page_search_root sn PS_FIRST c = Some (rc, c') \<and> stack_ok c' \<and> rc \<in> {0, MDB_PAGE_NOTFOUND, MDB_CURSOR_FULL}"
proof (induction "CURSOR_STACK - mc_snum c" arbitrary: c p rule: less_induct)
  case less
  have w: "page_wf p" "page_kind p" using less.prems(3) by (simp_all add: page_sound_def)
  have k: "IS_BRANCH p = Some (\<not> pg_leaf p)" "IS_LEAF p = Some (pg_leaf p)"
    using page_kinds [OF w(1)] w by simp_all
  show ?case
  proof (cases "pg_leaf p")
    case True
    then show ?thesis
      using less.prems k by (simp add: mdb_page_search_root.simps [of sn PS_FIRST c])
  next
    case False
    note eq = mdb_page_search_root.simps [of sn PS_FIRST c]
    consider (miss) c' where "root_step sn PS_FIRST c p = Some (Inl (MDB_PAGE_NOTFOUND, c'))"
      | (full) c' where "root_step sn PS_FIRST c p = Some (Inl (MDB_CURSOR_FULL, c'))"
      | (on) c' q where "root_step sn PS_FIRST c p = Some (Inr c')" "top_page c' = Some q" "page_sound q"
      using descent_step [OF less.prems(3) False assms less.prems(1,2)] by blast
    then show ?thesis
    proof cases
      case miss
      then show ?thesis using less.prems k False root_step_stack [OF miss less.prems(1)] by (simp add: eq)
    next
      case full
      then show ?thesis using less.prems k False root_step_stack [OF full less.prems(1)] by (simp add: eq)
    next
      case on
      have s: "stack_ok c'" using root_step_stack [OF on(1) less.prems(1)] by simp
      have "CURSOR_STACK - mc_snum c' < CURSOR_STACK - mc_snum c" using root_step_snum [OF on(1)] by arith
      from less.hyps [OF this s on(2,3)] show ?thesis using less.prems k False on by (simp add: eq)
    qed
  qed
qed

text \<open>C31: after any sequence of operations on a cursor, successful or not, over pages of any content and with
  any pages missing, the cursor is well formed: the height of its stack fits the array and the index of the
  top, and an initialised cursor has a page in every entry of the stack, the top one included. From every
  such state a further page can be pushed: the cursor stays well formed, and the answer is
  \<open>MDB_CURSOR_FULL\<close>, with the stack as it was, exactly when all \<open>CURSOR_STACK\<close> entries are in use. And if
  the pages are in order one by one, however they point to each other, the descent from the pushed page to
  the first leaf below it returns with a leaf, a missing page or \<open>MDB_CURSOR_FULL\<close>: on a cycle of pages it
  ends with that error and never leaves the array.\<close>

theorem mdb_cursor_well_formed:
  assumes "mdb_cursor_init sn dbi db f dcmp stale flags = Some c" "cursor_ops sn c ops = Some c'"
  shows "cursor_wf c' \<and> (mc_init c' \<longrightarrow> (\<exists>mp. top_page c' = Some mp))
    \<and> (\<forall>p rc d. mdb_cursor_push c' p = (rc, d) \<longrightarrow>
         cursor_wf d \<and> rc = (if mc_snum c' = CURSOR_STACK then MDB_CURSOR_FULL else 0)
         \<and> mc_snum d = (if mc_snum c' = CURSOR_STACK then CURSOR_STACK else mc_snum c' + 1)
         \<and> (mc_init c' \<and> rc = 0 \<and> page_sound p \<and> (\<forall>no q. sn_page sn no = Some q \<longrightarrow> page_sound q) \<longrightarrow>
              (\<exists>rc e. mdb_page_search_root sn PS_FIRST d = Some (rc, e) \<and> stack_ok e
                \<and> rc \<in> {0, MDB_PAGE_NOTFOUND, MDB_CURSOR_FULL})))"
proof -
  have wf: "cursor_wf c'" by (rule cursor_ops_wf [OF assms(2) cursor_init_wf [OF assms(1)]])
  then have le: "mc_snum c' \<le> CURSOR_STACK" by (auto simp: cursor_wf_def stack_ok_def)
  have pushed: "cursor_wf d" "rc = (if mc_snum c' = CURSOR_STACK then MDB_CURSOR_FULL else 0)"
    "mc_snum d = (if mc_snum c' = CURSOR_STACK then CURSOR_STACK else mc_snum c' + 1)"
    if "mdb_cursor_push c' p = (rc, d)" for p rc d
    using push_wf [OF wf, of p] that le by (auto simp: mdb_cursor_push_def split: if_splits)
  have down: "\<exists>rc e. mdb_page_search_root sn PS_FIRST d = Some (rc, e) \<and> stack_ok e
      \<and> rc \<in> {0, MDB_PAGE_NOTFOUND, MDB_CURSOR_FULL}"
    if "mdb_cursor_push c' p = (0, d)" "mc_init c'" "page_sound p" "\<forall>no q. sn_page sn no = Some q \<longrightarrow> page_sound q" for p d
  proof (rule descent_returns)
    show "stack_ok d" by (rule push_stack [OF wf_init [OF wf that(2)] that(1)])
    show "top_page d = Some p"
      using that(1) le by (auto simp: mdb_cursor_push_def top_page_def MDB_CURSOR_FULL_def split: if_splits)
  qed (use that(3,4) in blast)+
  show ?thesis using wf wf_init [OF wf] stack_top pushed down by blast
qed

theorem mdb_cursor_well_formed_witness:
  "\<exists>c c'. mdb_cursor_init sn_sample 1 (db_sample\<lparr>md_root := 9\<rparr>) Cmp_memn None False 0 = Some c
    \<and> cursor_ops sn_sample c [(MDB_NEXT, [], Some []), (MDB_GET_BOTH, [98], None)] = Some c'
    \<and> cursor_wf c' \<and> cursor_wf (snd (mdb_cursor_push c' page_one))"
proof -
  obtain c where c: "mdb_cursor_init sn_sample 1 (db_sample\<lparr>md_root := 9\<rparr>) Cmp_memn None False 0 = Some c"
    by (simp add: mdb_cursor_init_def db_sample_def)
  have fl: "(0 :: u32) AND TXN_BLOCKED = 0" by simp
  have c0: "\<not> mc_init c" "\<not> mc_del c" "mc_txn_flags c = 0"
    using c by (auto simp: mdb_cursor_init_def db_sample_def Let_def split: if_splits)
  from cursor_first_spec [OF tree_sample_ok(1) c fl, of True]
  obtain r where r: "mdb_cursor_first sn_sample True c = Some r"
    "next_answer sn_sample True tree_sample c (tree_items sn_sample tree_sample) r" by blast
  obtain rc c1 it where "r = (rc, c1, it)" by (cases r)
  then have "mdb_cursor_get sn_sample c [] (Some []) MDB_NEXT = Some (rc, c1, it)"
    using cursor_get_next [OF _ c0(2) _ r(2)] r(1) c0(1,3) by (simp add: cursor_first_next)
  moreover have "\<exists>c2. mdb_cursor_get sn_sample c1 [98] None MDB_GET_BOTH = Some c2"
    by (cases "mc_txn_flags c1 AND TXN_BLOCKED = 0") (simp_all add: mdb_cursor_get_def no_items_def)
  then obtain c2 where "mdb_cursor_get sn_sample c1 [98] None MDB_GET_BOTH = Some c2" by blast
  ultimately obtain c' where c': "cursor_ops sn_sample c [(MDB_NEXT, [], Some []), (MDB_GET_BOTH, [98], None)] = Some c'"
    by (cases c2) simp
  from mdb_cursor_well_formed [OF c c'] have "cursor_wf c'" "cursor_wf (snd (mdb_cursor_push c' page_one))"
    by (cases "mdb_cursor_push c' page_one"; simp)+
  then show ?thesis using c c' by blast
qed

end
