(* ===== verification/Mdb_Meta.thy ===== *)
theory Mdb_Meta
  imports Mdb_Cursor Mdb_Dirty
begin

text \<open>
  The meta pages of \<open>lmdb/mdb.c\<close>. Pages 0 and 1 of the data file each hold an \<open>MDB_meta\<close>, the start
  point of a snapshot; transaction N writes page N mod 2, so a commit never touches the page of the
  snapshot it replaces. This theory has the bytes of a meta page, the creation and the opening of a file,
  the write of a meta page and the choice of the newer one, and the machine of commits, failures and
  crashes over one file. The file is its bytes, and the memory map shows them. The outcome of a system
  call is an argument. A failed assertion, or a read outside the file, is \<open>None\<close>. That \<open>mdb_env_map\<close>
  sets the length of the file with \<open>MDB_WRITEMAP\<close> (\<open>ftruncate\<close> to the size of the map) is left out:
  the file that \<open>mdb_env_open2\<close> returns has the meta pages, not the length.
\<close>

unbundle bit_operations_syntax

definition P_META :: nat where "P_META = 0x08"
definition MDB_MAGIC :: u32 where "MDB_MAGIC = 0xBEEFC0DE"
definition MDB_DATA_VERSION :: u32 where "MDB_DATA_VERSION = 1"
definition NUM_METAS :: nat where "NUM_METAS = 2"
definition MAX_PAGESIZE :: nat where "MAX_PAGESIZE = 0x8000"
definition DEFAULT_MAPSIZE :: u64 where "DEFAULT_MAPSIZE = 1048576"
definition MDB_MINKEYS :: nat where "MDB_MINKEYS = 2"
definition MDB_INVALID :: int where "MDB_INVALID = - 30793"
definition MDB_VERSION_MISMATCH :: int where "MDB_VERSION_MISMATCH = - 30794"
definition ENOENT :: int where "ENOENT = 2"
definition EIO :: int where "EIO = 5"
definition ENOSPC :: int where "ENOSPC = 28"
definition MDB_FIXEDMAP :: u32 where "MDB_FIXEDMAP = 0x01"
definition MDB_NOSYNC :: u32 where "MDB_NOSYNC = 0x10000"
definition MDB_NOMETASYNC :: u32 where "MDB_NOMETASYNC = 0x40000"
definition MDB_FATAL_ERROR :: u32 where "MDB_FATAL_ERROR = 0x80000000"

section \<open>The bytes of a meta page\<close>

text \<open>\<open>mm_dbs\<close> has the record of the free database first, then that of the main database. The page size is
  stored in \<open>md_pad\<close> of the first, the flags of the environment in its \<open>md_flags\<close>.\<close>

record MDB_meta =
  mm_magic :: u32
  mm_version :: u32
  mm_address :: u64
  mm_mapsize :: u64
  mm_dbs :: "MDB_db \<times> MDB_db"
  mm_last_pg :: u64
  mm_txnid :: u64

abbreviation mm_psize :: "MDB_meta \<Rightarrow> nat" where "mm_psize m \<equiv> unat (md_pad (fst (mm_dbs m)))"

definition db_bytes :: "MDB_db \<Rightarrow> u8 list" where
  "db_bytes d = le_bytes 4 (unat (md_pad d)) @ le_bytes 2 (unat (md_flags d)) @ le_bytes 2 (unat (md_depth d))
     @ le_bytes 8 (unat (md_branch_pages d)) @ le_bytes 8 (unat (md_leaf_pages d))
     @ le_bytes 8 (unat (md_overflow_pages d)) @ le_bytes 8 (unat (md_entries d)) @ le_bytes 8 (unat (md_root d))"

definition META_TAIL :: nat where "META_TAIL = 16"
definition META_SIZE :: nat where "META_SIZE = 136"
definition METABUF_SIZE :: nat where "METABUF_SIZE = 152"

text \<open>The part of the structure from \<open>mm_mapsize\<close> on, which a commit writes; and all of it.\<close>

definition tail_bytes :: "MDB_meta \<Rightarrow> u8 list" where
  "tail_bytes m = le_bytes 8 (unat (mm_mapsize m)) @ db_bytes (fst (mm_dbs m)) @ db_bytes (snd (mm_dbs m))
     @ le_bytes 8 (unat (mm_last_pg m)) @ le_bytes 8 (unat (mm_txnid m))"

definition meta_bytes :: "MDB_meta \<Rightarrow> u8 list" where
  "meta_bytes m = le_bytes 4 (unat (mm_magic m)) @ le_bytes 4 (unat (mm_version m)) @ le_bytes 8 (unat (mm_address m))
     @ tail_bytes m"

text \<open>The structure at an offset of some bytes.\<close>

definition meta_of_bytes :: "u8 list \<Rightarrow> nat \<Rightarrow> MDB_meta option" where
  "meta_of_bytes b off =
     do { magic \<leftarrow> ld 4 b off; version \<leftarrow> ld 4 b (off + 4); address \<leftarrow> ld 8 b (off + 8);
          mapsize \<leftarrow> ld 8 b (off + 16);
          d0 \<leftarrow> db_of_bytes (sub b (off + 24) 48); d1 \<leftarrow> db_of_bytes (sub b (off + 72) 48);
          last_pg \<leftarrow> ld 8 b (off + 120); txnid \<leftarrow> ld 8 b (off + 128);
          Some \<lparr>mm_magic = of_nat magic, mm_version = of_nat version, mm_address = of_nat address,
                mm_mapsize = of_nat mapsize, mm_dbs = (d0, d1), mm_last_pg = of_nat last_pg,
                mm_txnid = of_nat txnid\<rparr> }"

text \<open>\<open>env->me_metas[i]\<close>, in the map of a file.\<close>

definition me_metas :: "nat \<Rightarrow> u8 list \<Rightarrow> nat \<Rightarrow> MDB_meta option" where
  "me_metas psize file i = meta_of_bytes file (i * psize + PAGEHDRSZ)"

section \<open>Reading the header of a file\<close>

text \<open>\<open>ReadFile\<close> of a whole \<open>MDB_metabuf\<close> at an offset: the bytes up to the end of the file, or an error.\<close>

definition os_read :: "int option \<Rightarrow> u8 list \<Rightarrow> nat \<Rightarrow> int + u8 list" where
  "os_read err file off = (case err of Some e \<Rightarrow> Inl e | None \<Rightarrow> Inr (take METABUF_SIZE (drop off file)))"

text \<open>The body of the loop for one meta page: the result is an error code or the meta page to keep.\<close>

definition read_meta :: "int option \<Rightarrow> u8 list \<Rightarrow> nat \<Rightarrow> MDB_meta option \<Rightarrow> int + MDB_meta" where
  "read_meta err file off meta =
     (case os_read err file off of
        Inl e \<Rightarrow> Inl e
      | Inr pbuf \<Rightarrow>
          if length pbuf \<noteq> METABUF_SIZE
          then Inl (if length pbuf = 0 \<and> off = 0 then ENOENT else MDB_INVALID)
          else (case (MP_FLAGS pbuf, meta_of_bytes pbuf PAGEHDRSZ) of
             (Some fl, Some m) \<Rightarrow>
               if \<not> F_ISSET fl P_META then Inl MDB_INVALID
               else if mm_magic m \<noteq> MDB_MAGIC then Inl MDB_INVALID
               else if mm_version m \<noteq> MDB_DATA_VERSION then Inl MDB_VERSION_MISMATCH
               else Inr (case meta of
                           None \<Rightarrow> m
                         | Some meta \<Rightarrow> if off = 0 \<or> mm_txnid meta < mm_txnid m then m else meta)
           | _ \<Rightarrow> Inl MDB_INVALID))"

text \<open>The two rounds of the loop; \<open>err0\<close> and \<open>err1\<close> are the errors of the two reads, if any.\<close>

definition mdb_env_read_header :: "int option \<Rightarrow> int option \<Rightarrow> u8 list \<Rightarrow> int + MDB_meta" where
  "mdb_env_read_header err0 err1 file =
     (case read_meta err0 file 0 None of
        Inl e \<Rightarrow> Inl e
      | Inr m \<Rightarrow> read_meta err1 file (mm_psize m) (Some m))"

text \<open>\<open>mdb_env_pick_meta\<close>.\<close>

definition mdb_env_pick_meta :: "nat \<Rightarrow> u8 list \<Rightarrow> MDB_meta option" where
  "mdb_env_pick_meta psize file =
     do { m0 \<leftarrow> me_metas psize file 0; m1 \<leftarrow> me_metas psize file 1;
          Some (if mm_txnid m0 < mm_txnid m1 then m1 else m0) }"

section \<open>Creating a file\<close>

record menv = env +
  me_flags :: u32
  me_mapsize :: u64
  me_maxpg :: u64
  me_maxfree_1pg :: nat

definition zero_db :: MDB_db where
  "zero_db = \<lparr>md_pad = 0, md_flags = 0, md_depth = 0, md_branch_pages = 0, md_leaf_pages = 0,
              md_overflow_pages = 0, md_entries = 0, md_root = 0\<rparr>"

text \<open>\<open>mdb_env_init_meta0\<close>, on a structure of zeros.\<close>

definition mdb_env_init_meta0 :: "menv \<Rightarrow> MDB_meta" where
  "mdb_env_init_meta0 env =
     \<lparr>mm_magic = MDB_MAGIC, mm_version = MDB_DATA_VERSION, mm_address = 0, mm_mapsize = me_mapsize env,
      mm_dbs = (zero_db\<lparr>md_pad := of_nat (me_psize env),
                        md_flags := ucast (me_flags env AND 0xffff) OR MDB_INTEGERKEY, md_root := P_INVALID\<rparr>,
                zero_db\<lparr>md_root := P_INVALID\<rparr>),
      mm_last_pg = of_nat (NUM_METAS - 1), mm_txnid = 0\<rparr>"

text \<open>A meta page: its number, the flag, the structure, and zeros up to the page size.\<close>

definition meta_page :: "nat \<Rightarrow> nat \<Rightarrow> MDB_meta \<Rightarrow> u8 list option" where
  "meta_page psize pgno meta =
     do { p \<leftarrow> st 8 (replicate psize 0) 0 pgno;
          p \<leftarrow> st 2 p 10 P_META;
          put_bytes p PAGEHDRSZ (meta_bytes meta) }"

text \<open>The outcome of \<open>WriteFile\<close>: how many bytes reached the file, and the error code if it failed.\<close>

record os_write =
  w_len :: nat
  w_err :: "int option"

definition os_wr :: "os_write \<Rightarrow> u8 list \<Rightarrow> nat \<Rightarrow> u8 list \<Rightarrow> u8 list" where
  "os_wr w file off bs = blit file off (take (w_len w) bs)"

definition mdb_env_init_meta :: "bool \<Rightarrow> os_write \<Rightarrow> menv \<Rightarrow> MDB_meta \<Rightarrow> u8 list \<Rightarrow> (int \<times> u8 list) option" where
  "mdb_env_init_meta nomem w env meta file =
     (if nomem then Some (ENOMEM, file)
      else do { p \<leftarrow> meta_page (me_psize env) 0 meta;
                q \<leftarrow> meta_page (me_psize env) 1 meta;
                Some (case w_err w of
                        Some e \<Rightarrow> e
                      | None \<Rightarrow> if w_len w = me_psize env * NUM_METAS then 0 else ENOSPC,
                      os_wr w file 0 (p @ q)) })"

section \<open>Opening a file\<close>

text \<open>The map size: the one configured, or else the one of the file; never less than the data.\<close>

definition open_mapsize :: "menv \<Rightarrow> MDB_meta \<Rightarrow> menv" where
  "open_mapsize env meta =
     (let mapsize = (if me_mapsize env = 0 then mm_mapsize meta else me_mapsize env);
          minsize = (mm_last_pg meta + 1) * u64_of_u32 (md_pad (fst (mm_dbs meta)))
      in env\<lparr>me_mapsize := (if mapsize < minsize then minsize else mapsize)\<rparr>)"

text \<open>The limits that follow from the page size.\<close>

definition open_sizes :: "menv \<Rightarrow> u8 list \<Rightarrow> (int \<times> menv \<times> u8 list) option" where
  "open_sizes env file =
     (let psize = me_psize env
      in if psize < PAGEHDRSZ + 8 then None
         else Some (0, env\<lparr>me_maxfree_1pg := (psize - PAGEHDRSZ) div 8 - 1,
                           me_nodemax := 2 * ((psize - PAGEHDRSZ) div MDB_MINKEYS div 2) - 2,
                           me_maxpg := me_mapsize env div of_nat psize\<rparr>, file))"

text \<open>A file without meta pages: they are written before it is mapped, except with \<open>MDB_FIXEDMAP\<close>, where they
  hold the address of the map.\<close>

definition open_new :: "bool \<Rightarrow> os_write \<Rightarrow> int \<Rightarrow> u64 \<Rightarrow> menv \<Rightarrow> u8 list \<Rightarrow> (int \<times> menv \<times> u8 list) option" where
  "open_new nomem w map_rc map_at env file =
     (let meta = (mdb_env_init_meta0 env)\<lparr>mm_mapsize := DEFAULT_MAPSIZE\<rparr>;
          env = open_mapsize env meta;
          meta = meta\<lparr>mm_mapsize := me_mapsize env\<rparr>
      in if me_flags env AND MDB_FIXEDMAP = 0
         then do { (rc, file) \<leftarrow> mdb_env_init_meta nomem w env meta file;
                   if rc \<noteq> 0 then Some (rc, env, file)
                   else if map_rc \<noteq> 0 then Some (map_rc, env, file)
                   else open_sizes env file }
         else if map_rc \<noteq> 0 then Some (map_rc, env, file)
         else do { (rc, file) \<leftarrow> mdb_env_init_meta nomem w env (meta\<lparr>mm_address := map_at\<rparr>) file;
                   if rc \<noteq> 0 then Some (rc, env, file) else open_sizes env file })"

text \<open>\<open>mdb_env_open2\<close>: the return code, the environment and the file. \<open>os_psize\<close> is the page size of the
  system; \<open>map_rc\<close> and \<open>map_at\<close> are the return code of \<open>mdb_env_map\<close> and the address it chose. A page size too
  small for the unsigned differences of the last lines is \<open>None\<close>.\<close>

definition mdb_env_open2 ::
  "int option \<Rightarrow> int option \<Rightarrow> bool \<Rightarrow> os_write \<Rightarrow> nat \<Rightarrow> int \<Rightarrow> u64 \<Rightarrow> menv \<Rightarrow> u8 list
   \<Rightarrow> (int \<times> menv \<times> u8 list) option" where
  "mdb_env_open2 err0 err1 nomem w os_psize map_rc map_at env file =
     (case mdb_env_read_header err0 err1 file of
        Inl e \<Rightarrow>
          if e \<noteq> ENOENT then Some (e, env, file)
          else open_new nomem w map_rc map_at (env\<lparr>me_psize := min os_psize MAX_PAGESIZE\<rparr>) file
      | Inr meta \<Rightarrow>
          let env = open_mapsize (env\<lparr>me_psize := mm_psize meta\<rparr>) meta
          in if map_rc \<noteq> 0 then Some (map_rc, env, file) else open_sizes env file)"

section \<open>Committing\<close>

text \<open>What \<open>mdb_env_write_meta\<close> reads of the transaction.\<close>

record commit =
  c_txnid :: u64
  c_dbs :: "MDB_db \<times> MDB_db"
  c_next_pgno :: u64

definition toggle_of :: "u64 \<Rightarrow> nat" where "toggle_of txnid = unat (txnid AND 1)"

text \<open>The structure that a commit writes over the older meta page \<open>mp\<close>; \<open>other\<close> is the newer one.\<close>

definition commit_meta :: "menv \<Rightarrow> commit \<Rightarrow> MDB_meta \<Rightarrow> MDB_meta \<Rightarrow> MDB_meta" where
  "commit_meta env txn mp other =
     mp\<lparr>mm_mapsize := (if mm_mapsize other < me_mapsize env then me_mapsize env else mm_mapsize other),
        mm_dbs := c_dbs txn, mm_last_pg := c_next_pgno txn - 1, mm_txnid := c_txnid txn\<rparr>"

text \<open>\<open>mdb_env_write_meta\<close>: the return code, the environment, the file, and the transaction number that is
  published in the lock table, if any. With \<open>MDB_WRITEMAP\<close> the fields are stored through the map and
  \<open>msync\<close> is the error of the flush; otherwise the bytes are written by one call, \<open>w1\<close>, and if that
  fails the old number and last page are written back by another, \<open>w2\<close>.\<close>

definition mdb_env_write_meta ::
  "menv \<Rightarrow> commit \<Rightarrow> int option \<Rightarrow> os_write \<Rightarrow> os_write \<Rightarrow> u8 list
   \<Rightarrow> (int \<times> menv \<times> u8 list \<times> u64 option) option" where
  "mdb_env_write_meta env txn msync w1 w2 file =
     do { let toggle = toggle_of (c_txnid txn);
          let psize = me_psize env;
          mp \<leftarrow> me_metas psize file toggle;
          other \<leftarrow> me_metas psize file (1 - toggle);
          let meta = commit_meta env txn mp other;
          let off = META_TAIL + (toggle * psize + PAGEHDRSZ);
          let bs = tail_bytes meta;
          let failed = env\<lparr>me_flags := me_flags env OR MDB_FATAL_ERROR\<rparr>;
          if me_flags env AND MDB_WRITEMAP \<noteq> 0
          then do { file \<leftarrow> put_bytes file off bs;
                    case (if me_flags env AND (MDB_NOMETASYNC OR MDB_NOSYNC) = 0 then msync else None) of
                      Some e \<Rightarrow> Some (e, failed, file, None)
                    | None \<Rightarrow> Some (0, env, file, Some (c_txnid txn)) }
          else let file = os_wr w1 file off bs
               in if w_err w1 \<noteq> None \<or> w_len w1 \<noteq> length bs
                  then let old = meta\<lparr>mm_last_pg := mm_last_pg mp, mm_txnid := mm_txnid mp\<rparr>
                       in Some (case w_err w1 of Some e \<Rightarrow> e | None \<Rightarrow> EIO, failed,
                                os_wr w2 file off (tail_bytes old), None)
                  else Some (0, env, file, Some (c_txnid txn)) }"

text \<open>\<open>mdb_env_set_mapsize\<close>; \<open>mapped\<close> and \<open>active\<close> say whether the file is mapped and whether there is a write
  transaction.\<close>

definition mdb_env_set_mapsize :: "bool \<Rightarrow> bool \<Rightarrow> int \<Rightarrow> menv \<Rightarrow> u64 \<Rightarrow> u8 list \<Rightarrow> (int \<times> menv) option" where
  "mdb_env_set_mapsize mapped active map_rc env sz file =
     (let final = (\<lambda>env sz. (0, env\<lparr>me_mapsize := sz,
                     me_maxpg := (if me_psize env = 0 then me_maxpg env else sz div of_nat (me_psize env))\<rparr>))
      in if mapped
         then if active then Some (EINVAL, env)
              else do { meta \<leftarrow> mdb_env_pick_meta (me_psize env) file;
                        let sz = (if sz = 0 then mm_mapsize meta else sz);
                        let minsize = (mm_last_pg meta + 1) * of_nat (me_psize env);
                        let sz = (if sz < minsize then minsize else sz);
                        Some (if map_rc \<noteq> 0 then (map_rc, env\<lparr>me_mapsize := sz\<rparr>) else final env sz) }
         else Some (final env sz))"

section \<open>The bytes of a structure\<close>

lemma length_db_bytes [simp]: "length (db_bytes d) = 48"
  by (simp add: db_bytes_def)

lemma length_tail_bytes [simp]: "length (tail_bytes m) = 120"
  by (simp add: tail_bytes_def)

lemma length_meta_bytes [simp]: "length (meta_bytes m) = META_SIZE"
  by (simp add: meta_bytes_def META_SIZE_def)

lemma word_of_bytes:
  "of_nat (unat (x :: u16) mod 256 ^ 2) = x" "of_nat (unat (y :: u32) mod 256 ^ 4) = y"
  "of_nat (unat (z :: u64) mod 256 ^ 8) = z"
proof -
  have "unat x < 2 ^ LENGTH(16)" "unat y < 2 ^ LENGTH(32)" "unat z < 2 ^ LENGTH(64)" by (rule unsigned_less)+
  then have "unat x mod 256 ^ 2 = unat x" "unat y mod 256 ^ 4 = unat y" "unat z mod 256 ^ 8 = unat z"
    by simp_all
  then show "of_nat (unat x mod 256 ^ 2) = x" "of_nat (unat y mod 256 ^ 4) = y" "of_nat (unat z mod 256 ^ 8) = z"
    by (simp_all only: word_of_nat_eq_iff of_nat_unat ucast_id)
qed

lemma ld_at: "length xs = k \<Longrightarrow> ld n (xs @ le_bytes n x @ ys) k = Some (x mod 256 ^ n)"
  by (simp add: ld_def le_val_le_bytes)

lemma ld_shift: "length xs = k \<Longrightarrow> k \<le> j \<Longrightarrow> ld n (xs @ ys) j = ld n ys (j - k)"
  by (auto simp: ld_def)

lemma ld_first: "ld n (le_bytes n x @ ys) 0 = Some (x mod 256 ^ n)"
  using ld_at [of "[]" 0 n x ys] by simp

lemma ld_last: "ld n (le_bytes n x) 0 = Some (x mod 256 ^ n)"
  using ld_first [of n x "[]"] by simp

lemmas ld_skip = ld_shift [where xs = "le_bytes n x" for n x, OF length_le_bytes]

lemma db_roundtrip: "db_of_bytes (db_bytes d) = Some d"
  by (simp add: db_of_bytes_def db_bytes_def ld_first ld_last ld_skip word_of_bytes [simplified])

lemma db_of_bytes_in:
  "length v = 48 \<Longrightarrow> \<exists>d. db_of_bytes v = Some d \<and> unat (md_pad d) = le_at 4 v 0"
proof -
  assume l: "length v = 48"
  have "le_at 4 v 0 < 256 ^ 4" by (rule le_at_less) (simp add: l)
  then have "unat (of_nat (le_at 4 v 0) :: u32) = le_at 4 v 0"
    by (simp add: unat_of_nat)
  then show ?thesis by (simp add: db_of_bytes_def ld_le_at l)
qed

lemma le_at_sub: "j + n \<le> m \<Longrightarrow> le_at n (sub p k m) j = le_at n p (k + j)"
  by (simp add: le_at_def sub_sub)

text \<open>The structure of any 136 bytes, and the fields that are looked at.\<close>

lemma meta_of_bytes_in:
  assumes "off + 136 \<le> length b"
  shows "\<exists>m. meta_of_bytes b off = Some m \<and> mm_magic m = of_nat (le_at 4 b off) \<and>
     mm_version m = of_nat (le_at 4 b (off + 4)) \<and> mm_address m = of_nat (le_at 8 b (off + 8)) \<and> mm_psize m = le_at 4 b (off + 24) \<and>
     unat (mm_txnid m) = le_at 8 b (off + 128)"
proof -
  have l: "length (sub b (off + 24) 48) = 48" "length (sub b (off + 72) 48) = 48"
    using assms by (simp_all add: sub_def)
  obtain d0 where d0: "db_of_bytes (sub b (off + 24) 48) = Some d0"
    "unat (md_pad d0) = le_at 4 (sub b (off + 24) 48) 0"
    using db_of_bytes_in [OF l(1)] by blast
  obtain d1 where d1: "db_of_bytes (sub b (off + 72) 48) = Some d1"
    using db_of_bytes_in [OF l(2)] by blast
  have "le_at 8 b (off + 128) < 256 ^ 8" by (rule le_at_less) (use assms in simp)
  then have "unat (of_nat (le_at 8 b (off + 128)) :: u64) = le_at 8 b (off + 128)"
    by (simp add: unat_of_nat)
  then show ?thesis using assms
    by (simp add: meta_of_bytes_def ld_le_at d0 d1 le_at_sub)
qed

text \<open>The structure depends on its 136 bytes only, and \<open>meta_bytes\<close> are those of a given one.\<close>

lemma ld_sub: "j + n \<le> m \<Longrightarrow> k + m \<le> length p \<Longrightarrow> ld n (sub p k m) j = ld n p (k + j)"
  by (simp add: ld_le_at le_at_sub)

lemma meta_of_bytes_sub:
  "off + 136 \<le> n \<Longrightarrow> k + n \<le> length b \<Longrightarrow> meta_of_bytes (sub b k n) off = meta_of_bytes b (k + off)"
  by (simp add: meta_of_bytes_def ld_sub sub_sub ac_simps)

lemma meta_of_bytes_cong:
  "off + 136 \<le> length b \<Longrightarrow> off' + 136 \<le> length b' \<Longrightarrow> sub b off 136 = sub b' off' 136 \<Longrightarrow>
   meta_of_bytes b off = meta_of_bytes b' off'"
  using meta_of_bytes_sub [of 0 136 off b] meta_of_bytes_sub [of 0 136 off' b'] by simp

lemma sub_app: "length xs = k \<Longrightarrow> length ys = n \<Longrightarrow> sub (xs @ ys @ zs) k n = ys"
  by (simp add: sub_def)

lemma sub_skip: "length xs = m \<Longrightarrow> m \<le> k \<Longrightarrow> sub (xs @ ys) k n = sub ys (k - m) n"
  by (simp add: sub_def)

lemma sub_first: "length xs = n \<Longrightarrow> sub (xs @ ys) 0 n = xs"
  by (simp add: sub_def)

lemma meta_roundtrip: "meta_of_bytes (meta_bytes m) 0 = Some m"
  by (simp add: meta_of_bytes_def meta_bytes_def tail_bytes_def ld_first ld_last ld_skip
      ld_shift [OF length_db_bytes] sub_skip [OF length_le_bytes] sub_skip [OF length_db_bytes]
      sub_first [OF length_db_bytes] db_roundtrip word_of_bytes [simplified])

lemma meta_at_bytes:
  "off + 136 \<le> length b \<Longrightarrow> sub b off 136 = meta_bytes m \<Longrightarrow> meta_of_bytes b off = Some m"
  using meta_of_bytes_sub [of 0 136 off b] meta_roundtrip by simp

section \<open>Torn writes\<close>

lemma sub_blit_prefix:
  "length bs = n \<Longrightarrow> k \<le> n \<Longrightarrow> j + n \<le> length p \<Longrightarrow>
   sub (blit p j (take k bs)) j n = take k bs @ drop k (sub p j n)"
  by (simp add: sub_def blit_def min_def drop_take add.commute)

lemma torn_number:
  assumes "length nb = n" "length ob = n" "le_val ob < le_val nb" "0 < j"
  shows "take j nb @ drop j ob = nb \<or> le_val (take j nb @ drop j ob) + 256 \<le> le_val nb"
proof (cases "le_val (drop j ob) = le_val (drop j nb)")
  case True
  then have "drop j ob = drop j nb" using assms by (intro le_val_inj) simp_all
  then show ?thesis by simp
next
  case False
  define B where "B = (256 :: nat) ^ min j n"
  have nb: "le_val nb = le_val (take j nb) + B * le_val (drop j nb)"
    using le_val_append [of "take j nb" "drop j nb"] assms(1) by (simp add: B_def min.commute)
  have ob: "le_val ob = le_val (take j ob) + B * le_val (drop j ob)"
    using le_val_append [of "take j ob" "drop j ob"] assms(2) by (simp add: B_def min.commute)
  have mix: "le_val (take j nb @ drop j ob) = le_val (take j nb) + B * le_val (drop j ob)"
    by (simp add: le_val_append B_def assms(1) min.commute)
  have "le_val (take j nb) < B" using le_val_less [of "take j nb"] assms(1) by (simp add: B_def min.commute)
  then have "B * le_val (drop j ob) < B * (le_val (drop j nb) + 1)" using assms(3) nb ob by simp
  then have "le_val (drop j ob) < le_val (drop j nb) + 1" by (simp only: mult_less_cancel1)
  then have "le_val (drop j ob) < le_val (drop j nb)" using False by simp
  then have "B * (le_val (drop j ob) + 1) \<le> B * le_val (drop j nb)" by (intro mult_le_mono2) simp
  moreover have "256 \<le> B"
  proof -
    have "0 < n" using assms by (cases n) auto
    then show ?thesis using assms(4) power_increasing [of 1 "min j n" "256 :: nat"] by (simp add: B_def)
  qed
  ultimately show ?thesis using nb mix by (simp add: algebra_simps)
qed

text \<open>The last 8 of 120 bytes are the transaction number. A write that stops anywhere leaves the new bytes, or the
  old number, or a number well below the new one.\<close>

lemma torn_tail:
  assumes "length bs = 120" "length ob = 120" "le_at 8 ob 112 < le_at 8 bs 112"
  shows "take k bs @ drop k ob = bs \<or> le_at 8 (take k bs @ drop k ob) 112 = le_at 8 ob 112 \<or>
     le_at 8 (take k bs @ drop k ob) 112 + 256 \<le> le_at 8 bs 112"
proof (cases "112 < k")
  case False
  then have "sub (take k bs @ drop k ob) 112 8 = sub ob 112 8"
    using assms(1) by (simp add: sub_def)
  then show ?thesis by (simp add: le_at_def)
next
  case True
  define j where "j = k - 112"
  then have k: "k = 112 + j" "0 < j" using True by simp_all
  have mix: "sub (take k bs @ drop k ob) 112 8 = take j (sub bs 112 8) @ drop j (sub ob 112 8)"
  proof (cases "j \<le> 8")
    case True
    then show ?thesis using assms by (simp add: sub_def k drop_take min_def add.commute)
  next
    case False
    then show ?thesis using assms by (simp add: sub_def k)
  qed
  have "sub (take k bs @ drop k ob) 112 8 = sub bs 112 8 \<or>
      le_at 8 (take k bs @ drop k ob) 112 + 256 \<le> le_at 8 bs 112"
    unfolding mix le_at_def by (rule torn_number [where n = 8]) (use assms k in \<open>simp_all add: le_at_def\<close>)
  moreover have "take k bs @ drop k ob = bs" if "sub (take k bs @ drop k ob) 112 8 = sub bs 112 8"
  proof -
    have "take 112 (take k bs @ drop k ob) = take 112 bs" using k assms by simp
    moreover have "drop 112 (take k bs @ drop k ob) = drop 112 bs"
      using that assms by (simp add: sub_def)
    ultimately show ?thesis by (metis append_take_drop_id)
  qed
  ultimately show ?thesis by blast
qed

lemma torn_nth:
  "length bs = length ob \<Longrightarrow> i < length ob \<Longrightarrow> (take k bs @ drop k ob) ! i = (if i < k then bs ! i else ob ! i)"
  by (auto simp: nth_append min_def)

lemma sub_nth: "i < n \<Longrightarrow> j + n \<le> length p \<Longrightarrow> sub p j n ! i = p ! (j + i)"
  by (simp add: sub_def)

lemma torn_same:
  assumes "sub bs j n = sub ob j n" "length bs = length ob" "j + n \<le> length ob"
  shows "sub (take k bs @ drop k ob) j n = sub ob j n"
proof (rule nth_equalityI)
  have l: "j + n \<le> length (take k bs @ drop k ob)" using assms by simp
  then show "length (sub (take k bs @ drop k ob) j n) = length (sub ob j n)" using assms by simp
  fix i assume "i < length (sub (take k bs @ drop k ob) j n)"
  then have i: "i < n" using l by simp
  have "bs ! (j + i) = ob ! (j + i)"
    using sub_nth [OF i, of j bs] sub_nth [OF i, of j ob] assms by simp
  then show "sub (take k bs @ drop k ob) j n ! i = sub ob j n ! i"
    using sub_nth [OF i l] sub_nth [OF i assms(3)] torn_nth [OF assms(2), of "j + i" k] i assms(3) by simp
qed

section \<open>The two meta pages of a file\<close>

text \<open>Page \<open>i\<close> is a meta page that the library accepts, with the structure \<open>m\<close>.\<close>

definition slot_ok :: "nat \<Rightarrow> u8 list \<Rightarrow> nat \<Rightarrow> MDB_meta \<Rightarrow> bool" where
  "slot_ok psize file i m \<longleftrightarrow>
     i * psize + METABUF_SIZE \<le> length file \<and> F_ISSET (le_at 2 file (i * psize + 10)) P_META \<and>
     me_metas psize file i = Some m \<and> mm_magic m = MDB_MAGIC \<and> mm_version m = MDB_DATA_VERSION \<and>
     mm_psize m = psize"

text \<open>The file holds the snapshot \<open>m\<close>, on the page of its number, and on the other page something older; only a
  new file has two pages with the same number, zero.\<close>

definition metas_ok :: "nat \<Rightarrow> u8 list \<Rightarrow> MDB_meta \<Rightarrow> bool" where
  "metas_ok psize file m \<longleftrightarrow> METABUF_SIZE \<le> psize \<and>
     slot_ok psize file (toggle_of (mm_txnid m)) m \<and>
     (\<exists>old. slot_ok psize file (1 - toggle_of (mm_txnid m)) old \<and>
       (mm_txnid old < mm_txnid m \<or> mm_txnid m = 0 \<and> mm_txnid old = 0))"

lemma toggle_mod: "toggle_of t = unat t mod 2"
  by (simp add: toggle_of_def and_one_eq unat_mod_distrib)

lemma toggle_less: "toggle_of t < 2"
  by (simp add: toggle_mod)

lemma toggle_next:
  assumes "t + 1 \<noteq> 0"
  shows "toggle_of (t + 1) = 1 - toggle_of t"
proof -
  have "unat (t + 1) = unat t + 1" using assms unatSuc [of t] by (simp add: add.commute)
  then show ?thesis by (simp add: toggle_mod mod_Suc)
qed

lemma toggle_cases: obtains "toggle_of t = 0" | "toggle_of t = 1"
  using toggle_less [of t] by linarith

lemma read_meta_slot:
  assumes "slot_ok psize file i m"
  shows "read_meta None file (i * psize) meta =
     Inr (case meta of None \<Rightarrow> m | Some meta \<Rightarrow> if i * psize = 0 \<or> mm_txnid meta < mm_txnid m then m else meta)"
proof -
  have s: "i * psize + METABUF_SIZE \<le> length file" "F_ISSET (le_at 2 file (i * psize + 10)) P_META"
    "me_metas psize file i = Some m" "mm_magic m = MDB_MAGIC" "mm_version m = MDB_DATA_VERSION"
    using assms by (auto simp: slot_ok_def)
  have b: "take METABUF_SIZE (drop (i * psize) file) = sub file (i * psize) METABUF_SIZE" by (simp add: sub_def)
  have fl: "MP_FLAGS (sub file (i * psize) METABUF_SIZE) = Some (le_at 2 file (i * psize + 10))"
    using s(1) by (simp add: MP_FLAGS_def METABUF_SIZE_def ld_le_at le_at_sub)
  have mb: "meta_of_bytes (sub file (i * psize) METABUF_SIZE) PAGEHDRSZ = Some m"
    using s(1,3) by (simp add: meta_of_bytes_sub METABUF_SIZE_def PAGEHDRSZ_def me_metas_def)
  show ?thesis using s
    by (simp add: read_meta_def os_read_def b fl mb split: option.splits)
qed

text \<open>Both ways of finding the newest snapshot give the one the file holds.\<close>

lemma metas_pick:
  assumes "metas_ok psize file m"
  shows "mdb_env_pick_meta psize file = Some m"
  using toggle_cases [of "mm_txnid m"] assms
  by cases (auto simp: metas_ok_def slot_ok_def mdb_env_pick_meta_def toggle_mod)

lemma metas_header:
  assumes "metas_ok psize file m"
  shows "mdb_env_read_header None None file = Inr m"
proof -
  obtain old where ok: "slot_ok psize file (toggle_of (mm_txnid m)) m"
    "slot_ok psize file (1 - toggle_of (mm_txnid m)) old" "0 < psize"
    "mm_txnid old < mm_txnid m \<or> mm_txnid m = 0 \<and> mm_txnid old = 0"
    using assms by (auto simp: metas_ok_def METABUF_SIZE_def)
  show ?thesis
  proof (rule toggle_cases [of "mm_txnid m"])
    assume t: "toggle_of (mm_txnid m) = 0"
    then have s: "slot_ok psize file 0 m" "slot_ok psize file 1 old" using ok by simp_all
    then have "mm_psize m = psize" by (simp add: slot_ok_def)
    then show ?thesis
      using read_meta_slot [OF s(1), of None] read_meta_slot [OF s(2), of "Some m"] ok(3,4)
      by (auto simp: mdb_env_read_header_def)
  next
    assume t: "toggle_of (mm_txnid m) = 1"
    then have s: "slot_ok psize file 0 old" "slot_ok psize file 1 m" using ok by simp_all
    then have "mm_psize old = psize" by (simp add: slot_ok_def)
    moreover have "mm_txnid old < mm_txnid m" using ok(4) t by (auto simp: toggle_mod)
    ultimately show ?thesis
      using read_meta_slot [OF s(1), of None] read_meta_slot [OF s(2), of "Some old"] ok(3)
      by (simp add: mdb_env_read_header_def)
  qed
qed

text \<open>A write to one meta page leaves the other as it is.\<close>

lemma slot_far:
  assumes "slot_ok psize file i m" "i < 2" "METABUF_SIZE \<le> psize" "length bs \<le> 120"
    "METABUF_SIZE + (1 - i) * psize \<le> length file"
  shows "slot_ok psize (blit file (META_TAIL + ((1 - i) * psize + PAGEHDRSZ)) bs) i m"
proof -
  let ?off = "META_TAIL + ((1 - i) * psize + PAGEHDRSZ)"
  have fit: "?off + length bs \<le> length file" using assms by (simp add: META_TAIL_def PAGEHDRSZ_def METABUF_SIZE_def)
  have far: "i * psize + METABUF_SIZE \<le> ?off \<or> ?off + length bs \<le> i * psize"
    using assms(2-4) by (cases i) (simp_all add: META_TAIL_def PAGEHDRSZ_def METABUF_SIZE_def)
  have "sub (blit file ?off bs) (i * psize + PAGEHDRSZ) 136 = sub file (i * psize + PAGEHDRSZ) 136"
    by (rule sub_blit_other [OF fit]) (use far in \<open>auto simp: PAGEHDRSZ_def METABUF_SIZE_def\<close>)
  then have "me_metas psize (blit file ?off bs) i = me_metas psize file i"
    using assms(1) fit unfolding me_metas_def
    by (intro meta_of_bytes_cong) (simp_all add: slot_ok_def PAGEHDRSZ_def METABUF_SIZE_def)
  moreover have "le_at 2 (blit file ?off bs) (i * psize + 10) = le_at 2 file (i * psize + 10)"
    by (rule le_at_blit_other [OF fit]) (use far in \<open>auto simp: METABUF_SIZE_def\<close>)
  ultimately show ?thesis using assms(1) fit by (simp add: slot_ok_def)
qed

lemma le_bytes_le_at: "off + n \<le> length b \<Longrightarrow> le_bytes n (le_at n b off) = sub b off n"
  using le_at_less [of off n b] by (intro le_val_inj) (simp_all add: le_val_le_bytes le_at_def)

lemma le_bytes_u32: "off + 4 \<le> length b \<Longrightarrow> le_bytes 4 (unat (of_nat (le_at 4 b off) :: u32)) = sub b off 4"
  using le_at_less [of off 4 b] le_bytes_le_at [of off 4 b] by (simp add: unat_of_nat)

lemma le_bytes_u64: "off + 8 \<le> length b \<Longrightarrow> le_bytes 8 (unat (of_nat (le_at 8 b off) :: u64)) = sub b off 8"
  using le_at_less [of off 8 b] le_bytes_le_at [of off 8 b] by (simp add: unat_of_nat)

lemma head_bytes:
  assumes "meta_of_bytes b off = Some m" "off + 136 \<le> length b"
  shows "sub b off 16 = le_bytes 4 (unat (mm_magic m)) @ le_bytes 4 (unat (mm_version m)) @ le_bytes 8 (unat (mm_address m))"
proof -
  have "mm_magic m = of_nat (le_at 4 b off)" "mm_version m = of_nat (le_at 4 b (off + 4))"
    "mm_address m = of_nat (le_at 8 b (off + 8))"
    using meta_of_bytes_in [OF assms(2)] assms(1) by auto
  moreover have "sub b off 16 = sub b off 4 @ sub b (off + 4) 4 @ sub b (off + 8) 8"
    using sub_split [of b off 4 12] sub_split [of b "off + 4" 4 8] by (simp add: add.commute)
  ultimately show ?thesis using assms(2) by (simp add: le_bytes_u32 le_bytes_u64)
qed

lemma meta_rewritten:
  assumes "meta_of_bytes b off = Some old" "off + 136 \<le> length b" "off + 136 \<le> length b'"
    and "sub b' off 16 = sub b off 16" "sub b' (off + 16) 120 = tail_bytes new"
    and new: "new = old\<lparr>mm_mapsize := x, mm_dbs := d, mm_last_pg := l, mm_txnid := t\<rparr>"
  shows "meta_of_bytes b' off = Some new"
proof (rule meta_at_bytes [OF assms(3)])
  show "sub b' off 136 = meta_bytes new"
    using assms(4,5) sub_split [of b' off 16 120] head_bytes [OF assms(1,2)] by (simp add: meta_bytes_def new)
qed

lemma tail_fields:
  "le_at 8 (tail_bytes m) 112 = unat (mm_txnid m)"
  "sub (tail_bytes m) 8 4 = le_bytes 4 (mm_psize m)"
proof -
  have "ld 8 (tail_bytes m) 112 = Some (unat (mm_txnid m) mod 256 ^ 8)"
    by (simp add: tail_bytes_def ld_last ld_skip ld_shift [OF length_db_bytes])
  then have "le_at 8 (tail_bytes m) 112 = unat (mm_txnid m) mod 256 ^ 8" by (simp add: ld_le_at)
  moreover have "unat (mm_txnid m) < 2 ^ LENGTH(64)" by (rule unsigned_less)
  ultimately show "le_at 8 (tail_bytes m) 112 = unat (mm_txnid m)" by simp
  show "sub (tail_bytes m) 8 4 = le_bytes 4 (mm_psize m)"
    by (simp add: tail_bytes_def db_bytes_def sub_skip [OF length_le_bytes] sub_first [OF length_le_bytes])
qed

text \<open>A write of the structure \<open>new\<close> over \<open>old\<close> that stops after \<open>k\<close> bytes: an acceptable meta page is left, with
  the new structure, the old number, or a number well below the new one.\<close>

lemma slot_torn:
  assumes ok: "slot_ok psize file i old"
    and new: "new = old\<lparr>mm_mapsize := x, mm_dbs := d, mm_last_pg := l, mm_txnid := t\<rparr>"
    and pad: "unat (md_pad (fst d)) = psize" and less: "mm_txnid old < t" and k: "k \<le> 120"
  shows "\<exists>m'. slot_ok psize (blit file (META_TAIL + (i * psize + PAGEHDRSZ)) (take k (tail_bytes new))) i m' \<and>
     (m' = new \<or> mm_txnid m' = mm_txnid old \<or> unat (mm_txnid m') + 256 \<le> unat t) \<and> (k = 120 \<longrightarrow> m' = new)"
proof -
  define P where "P = i * psize + 16"
  define ob where "ob = sub file (P + 16) 120"
  define mix where "mix = take k (tail_bytes new) @ drop k ob"
  define file' where "file' = blit file (P + 16) (take k (tail_bytes new))"
  have len: "P + 136 \<le> length file" and old: "meta_of_bytes file P = Some old"
    using ok by (simp_all add: slot_ok_def P_def METABUF_SIZE_def me_metas_def PAGEHDRSZ_def)
  have fit: "P + 16 + length (take k (tail_bytes new)) \<le> length file" and len': "P + 136 \<le> length file'"
    using len by (simp_all add: file'_def)
  have lob: "length ob = 120" using len by (simp add: ob_def)
  have tail: "sub file' (P + 16) 120 = mix"
    unfolding file'_def mix_def ob_def by (rule sub_blit_prefix) (use len k in simp_all)
  have keep: "le_at n file' j = le_at n file j" if "j + n \<le> P + 16" for n j
    unfolding file'_def by (rule le_at_blit_other [OF fit]) (use that in simp)
  obtain m' where m': "meta_of_bytes file' P = Some m'" "mm_magic m' = of_nat (le_at 4 file' P)"
    "mm_version m' = of_nat (le_at 4 file' (P + 4))" "mm_psize m' = le_at 4 file' (P + 24)"
    "unat (mm_txnid m') = le_at 8 file' (P + 128)"
    using meta_of_bytes_in [OF len'] by blast
  have o: "mm_magic old = of_nat (le_at 4 file P)" "mm_version old = of_nat (le_at 4 file (P + 4))"
    "mm_psize old = le_at 4 file (P + 24)" "unat (mm_txnid old) = le_at 8 file (P + 128)"
    using meta_of_bytes_in [OF len] old by auto
  have num: "unat (mm_txnid m') = le_at 8 mix 112" using m'(5) le_at_sub [of 112 8 120 file' "P + 16"] tail
    by (simp add: add.commute)
  have onum: "unat (mm_txnid old) = le_at 8 ob 112" using o(4) by (simp add: ob_def le_at_sub add.commute)
  have nnum: "le_at 8 (tail_bytes new) 112 = unat t" by (simp add: tail_fields new)
  have psize: "le_at 4 file' (P + 24) = psize"
  proof -
    have "sub ob 8 4 = le_bytes 4 psize"
      using ok o(3) le_bytes_le_at [where off = "P + 24" and n = 4 and b = "file"] len
      by (simp add: ob_def sub_sub slot_ok_def add.commute)
    moreover have "sub (tail_bytes new) 8 4 = le_bytes 4 psize" by (simp add: tail_fields new pad)
    ultimately have "sub mix 8 4 = sub ob 8 4" unfolding mix_def by (intro torn_same) (simp_all add: lob)
    then have "le_at 4 mix 8 = le_at 4 ob 8" by (simp add: le_at_def)
    then show ?thesis using ok o(3) le_at_sub [of 8 4 120 file' "P + 16"] tail
      by (simp add: ob_def le_at_sub slot_ok_def add.commute)
  qed
  have "slot_ok psize file' i m'"
  proof -
    have "le_at 2 file' (i * psize + 10) = le_at 2 file (i * psize + 10)" by (rule keep) (simp add: P_def)
    then show ?thesis using ok m' o psize len' fit keep [of P 4] keep [of "P + 4" 4]
      by (simp add: slot_ok_def me_metas_def P_def METABUF_SIZE_def PAGEHDRSZ_def)
  qed
  moreover have full: "m' = new" if "mix = tail_bytes new"
  proof -
    have "sub file' P 16 = sub file P 16"
      unfolding file'_def by (rule sub_blit_other [OF fit]) simp
    then show ?thesis using meta_rewritten [OF old len len' _ _ new] that tail m'(1) by simp
  qed
  moreover have "mix = tail_bytes new" if "k = 120" using that lob by (simp add: mix_def)
  moreover have "mix = tail_bytes new \<or> le_at 8 mix 112 = le_at 8 ob 112 \<or> le_at 8 mix 112 + 256 \<le> unat t"
    unfolding mix_def using torn_tail [of "tail_bytes new" ob k] lob less onum nnum by (simp add: word_less_nat_alt)
  ultimately show ?thesis
    using num onum by (auto simp: file'_def P_def META_TAIL_def PAGEHDRSZ_def add.commute word_unat_eq_iff)
qed

text \<open>A whole structure written over \<open>old\<close>, whatever was written there before.\<close>

lemma blit_over: "length xs \<le> length ys \<Longrightarrow> j + length ys \<le> length p \<Longrightarrow> blit (blit p j xs) j ys = blit p j ys"
  by (simp add: blit_def drop_append add.commute)

lemma slot_written:
  assumes ok: "slot_ok psize file i old"
    and new: "new = old\<lparr>mm_mapsize := x, mm_dbs := d, mm_last_pg := l, mm_txnid := t\<rparr>"
    and pad: "unat (md_pad (fst d)) = psize"
  shows "slot_ok psize (blit file (META_TAIL + (i * psize + PAGEHDRSZ)) (tail_bytes new)) i new"
proof -
  define P where "P = i * psize + 16"
  define file' where "file' = blit file (P + 16) (tail_bytes new)"
  have len: "P + 136 \<le> length file" and old: "meta_of_bytes file P = Some old"
    using ok by (simp_all add: slot_ok_def P_def METABUF_SIZE_def me_metas_def PAGEHDRSZ_def)
  then have fit: "P + 16 + length (tail_bytes new) \<le> length file" by simp
  have "meta_of_bytes file' P = Some new"
    by (rule meta_rewritten [OF old len _ _ _ new])
      (use fit in \<open>simp_all add: file'_def sub_blit_other sub_blit_same\<close>)
  moreover have "le_at 2 file' (i * psize + 10) = le_at 2 file (i * psize + 10)"
    unfolding file'_def by (rule le_at_blit_other [OF fit]) (simp add: P_def)
  moreover have "file' = blit file (META_TAIL + (i * psize + PAGEHDRSZ)) (tail_bytes new)"
    by (simp add: file'_def P_def META_TAIL_def PAGEHDRSZ_def add.commute)
  moreover have "length file' = length file" using fit by (simp add: file'_def)
  ultimately show ?thesis using ok pad new
    by (simp add: slot_ok_def me_metas_def P_def PAGEHDRSZ_def)
qed

section \<open>Commits and crashes\<close>

text \<open>The file when the system stops during the write of \<open>mdb_env_write_meta\<close>. The assumption is that the
  bytes reach the file in ascending order, the transaction number last: the first \<open>k\<close> of them
  are there. A system that stores the last bytes of the structure before others is outside this model.\<close>

definition torn_commit :: "menv \<Rightarrow> commit \<Rightarrow> nat \<Rightarrow> u8 list \<Rightarrow> u8 list option" where
  "torn_commit env txn k file =
     do { let toggle = toggle_of (c_txnid txn);
          mp \<leftarrow> me_metas (me_psize env) file toggle;
          other \<leftarrow> me_metas (me_psize env) file (1 - toggle);
          Some (blit file (META_TAIL + (toggle * me_psize env + PAGEHDRSZ))
                  (take k (tail_bytes (commit_meta env txn mp other)))) }"

text \<open>A transaction that may commit to the file, as \<open>mdb_txn_renew0\<close> starts it: it has the number after the newest
  one, and the record of the free database still has the page size. With a lock table the code takes the
  number after \<open>mti_txnid\<close>, which is the same number as long as every commit that failed had its bytes
  written back (with \<open>MDB_WRITEMAP\<close> the code does not write them back).\<close>

definition next_commit :: "nat \<Rightarrow> u8 list \<Rightarrow> menv \<Rightarrow> commit \<Rightarrow> bool" where
  "next_commit psize file env txn \<longleftrightarrow>
     (case mdb_env_pick_meta psize file of
        None \<Rightarrow> False
      | Some m \<Rightarrow> me_psize env = psize \<and> c_txnid txn = mm_txnid m + 1 \<and> c_txnid txn \<noteq> 0 \<and>
                  unat (md_pad (fst (c_dbs txn))) = psize)"

text \<open>The steps of a file: a commit that succeeds; one that fails, with its bytes written back; and a crash.\<close>

inductive meta_step :: "nat \<Rightarrow> u8 list \<Rightarrow> u8 list \<Rightarrow> bool" for psize where
  committed: "next_commit psize file env txn \<Longrightarrow>
     mdb_env_write_meta env txn msync w1 w2 file = Some (rc, env', file', Some t) \<Longrightarrow> meta_step psize file file'"
| failed: "next_commit psize file env txn \<Longrightarrow>
     mdb_env_write_meta env txn msync w1 w2 file = Some (rc, env', file', None) \<Longrightarrow> 120 \<le> w_len w2 \<Longrightarrow>
     meta_step psize file file'"
| crashed: "next_commit psize file env txn \<Longrightarrow> torn_commit env txn k file = Some file' \<Longrightarrow>
     meta_step psize file file'"

text \<open>The files that come from a new one by such steps.\<close>

inductive meta_reach :: "nat \<Rightarrow> u8 list \<Rightarrow> bool" for psize where
  created: "me_psize env = psize \<Longrightarrow> me_psize env0 = psize \<Longrightarrow> METABUF_SIZE \<le> psize \<Longrightarrow> psize < 2 ^ 32 \<Longrightarrow> w_err w = None \<Longrightarrow>
     mdb_env_init_meta nomem w env ((mdb_env_init_meta0 env0)\<lparr>mm_mapsize := x, mm_address := a\<rparr>) [] = Some (0, file) \<Longrightarrow>
     meta_reach psize file"
| stepped: "meta_reach psize file \<Longrightarrow> meta_step psize file file' \<Longrightarrow> meta_reach psize file'"

text \<open>What a write for the next transaction leaves, torn or whole.\<close>

lemma next_commit_slots:
  assumes ok: "metas_ok psize file m" and nc: "next_commit psize file env txn"
  obtains mp where "unat (c_txnid txn) = unat (mm_txnid m) + 1" "mm_txnid m < c_txnid txn" "mm_txnid mp < c_txnid txn"
    "toggle_of (c_txnid txn) = 1 - toggle_of (mm_txnid m)" "me_psize env = psize"
    "unat (md_pad (fst (c_dbs txn))) = psize"
    "slot_ok psize file (toggle_of (c_txnid txn)) mp" "slot_ok psize file (1 - toggle_of (c_txnid txn)) m"
    "mm_txnid mp < mm_txnid m \<or> mm_txnid m = 0 \<and> mm_txnid mp = 0"
proof -
  have c: "c_txnid txn = mm_txnid m + 1" "c_txnid txn \<noteq> 0" "me_psize env = psize"
    "unat (md_pad (fst (c_dbs txn))) = psize"
    using nc metas_pick [OF ok] by (auto simp: next_commit_def)
  have t: "toggle_of (c_txnid txn) = 1 - toggle_of (mm_txnid m)" using c toggle_next by simp
  then have t': "1 - toggle_of (c_txnid txn) = toggle_of (mm_txnid m)" using toggle_less [of "mm_txnid m"] by simp
  have num: "unat (c_txnid txn) = unat (mm_txnid m) + 1"
    using c(1,2) unatSuc [of "mm_txnid m"] by (simp add: add.commute)
  then have less: "mm_txnid m < c_txnid txn" by (simp add: word_less_nat_alt)
  obtain old where old: "slot_ok psize file (1 - toggle_of (mm_txnid m)) old"
    "mm_txnid old < mm_txnid m \<or> mm_txnid m = 0 \<and> mm_txnid old = 0" and m: "slot_ok psize file (toggle_of (mm_txnid m)) m"
    using ok by (auto simp: metas_ok_def)
  have "mm_txnid old < c_txnid txn" using old(2) less by auto
  then show ?thesis using that [OF num less _ t c(3,4)] t t' old m by simp
qed

lemma commit_torn:
  assumes ok: "metas_ok psize file m" and nc: "next_commit psize file env txn" and k: "k \<le> 120"
  shows "\<exists>mp f. me_metas psize file (toggle_of (c_txnid txn)) = Some mp \<and>
     me_metas psize file (1 - toggle_of (c_txnid txn)) = Some m \<and>
     f = blit file (META_TAIL + (toggle_of (c_txnid txn) * psize + PAGEHDRSZ))
           (take k (tail_bytes (commit_meta env txn mp m))) \<and>
     (metas_ok psize f m \<or> metas_ok psize f (commit_meta env txn mp m)) \<and>
     (k = 120 \<longrightarrow> metas_ok psize f (commit_meta env txn mp m))"
proof -
  obtain mp where c: "unat (c_txnid txn) = unat (mm_txnid m) + 1" "mm_txnid m < c_txnid txn" "mm_txnid mp < c_txnid txn"
    "toggle_of (c_txnid txn) = 1 - toggle_of (mm_txnid m)" "me_psize env = psize"
    "unat (md_pad (fst (c_dbs txn))) = psize"
    "slot_ok psize file (toggle_of (c_txnid txn)) mp" "slot_ok psize file (1 - toggle_of (c_txnid txn)) m"
    "mm_txnid mp < mm_txnid m \<or> mm_txnid m = 0 \<and> mm_txnid mp = 0"
    using next_commit_slots [OF ok nc] by metis
  define i where "i = toggle_of (c_txnid txn)"
  define new where "new = commit_meta env txn mp m"
  define f where "f = blit file (META_TAIL + (i * psize + PAGEHDRSZ)) (take k (tail_bytes new))"
  have i: "i < 2" "1 - (1 - i) = i" "toggle_of (mm_txnid m) = 1 - i" "toggle_of (mm_txnid new) = i"
    using toggle_less [of "c_txnid txn"] toggle_less [of "mm_txnid m"] c(4)
    by (simp_all add: i_def new_def commit_meta_def)
  have len: "METABUF_SIZE \<le> psize" using ok by (simp add: metas_ok_def)
  have n: "new = mp\<lparr>mm_mapsize := mm_mapsize new, mm_dbs := c_dbs txn, mm_last_pg := c_next_pgno txn - 1,
      mm_txnid := c_txnid txn\<rparr>" by (simp add: new_def commit_meta_def)
  obtain m' where m': "slot_ok psize f i m'"
    "m' = new \<or> mm_txnid m' = mm_txnid mp \<or> unat (mm_txnid m') + 256 \<le> unat (c_txnid txn)" "k = 120 \<longrightarrow> m' = new"
    using slot_torn [OF c(7) n c(6) c(3) k] unfolding f_def i_def by blast
  have "slot_ok psize (blit file (META_TAIL + ((1 - (1 - i)) * psize + PAGEHDRSZ)) (take k (tail_bytes new))) (1 - i) m"
    by (rule slot_far) (use c(7,8) i len in \<open>simp_all add: i_def slot_ok_def\<close>)
  then have far: "slot_ok psize f (1 - i) m" by (simp only: f_def i(2))
  have new_ok: "metas_ok psize f new" if "m' = new"
    using that m'(1) far i c(2) len by (auto simp: metas_ok_def new_def commit_meta_def)
  have "metas_ok psize f m" if "m' \<noteq> new"
  proof -
    have "unat (mm_txnid m') < unat (mm_txnid m) \<or> mm_txnid m = 0 \<and> mm_txnid m' = 0"
      using that m'(2) c(1,9) by (auto simp: word_less_nat_alt)
    then show ?thesis using m'(1) far i len by (auto simp: metas_ok_def word_less_nat_alt)
  qed
  then show ?thesis using new_ok m' c(7,8) by (auto simp: f_def i_def new_def slot_ok_def)
qed

text \<open>The bytes written back after a failure: the old number is there again, so the old snapshot is the newest.\<close>

lemma commit_undone:
  assumes ok: "metas_ok psize file m" and nc: "next_commit psize file env txn"
    and mp: "me_metas psize file (toggle_of (c_txnid txn)) = Some mp" and xs: "length xs \<le> 120"
  shows "metas_ok psize (blit (blit file (META_TAIL + (toggle_of (c_txnid txn) * psize + PAGEHDRSZ)) xs)
      (META_TAIL + (toggle_of (c_txnid txn) * psize + PAGEHDRSZ))
      (tail_bytes ((commit_meta env txn mp m)\<lparr>mm_last_pg := mm_last_pg mp, mm_txnid := mm_txnid mp\<rparr>))) m"
proof -
  obtain mp' where c: "toggle_of (c_txnid txn) = 1 - toggle_of (mm_txnid m)"
    "unat (md_pad (fst (c_dbs txn))) = psize"
    "slot_ok psize file (toggle_of (c_txnid txn)) mp'" "slot_ok psize file (1 - toggle_of (c_txnid txn)) m"
    "mm_txnid mp' < mm_txnid m \<or> mm_txnid m = 0 \<and> mm_txnid mp' = 0"
    using next_commit_slots [OF ok nc] by metis
  define i where "i = toggle_of (c_txnid txn)"
  define old where "old = (commit_meta env txn mp m)\<lparr>mm_last_pg := mm_last_pg mp, mm_txnid := mm_txnid mp\<rparr>"
  define off where "off = META_TAIL + (i * psize + PAGEHDRSZ)"
  have mp': "mp' = mp" using c(3) mp by (simp add: slot_ok_def)
  have i: "i < 2" "1 - (1 - i) = i" "toggle_of (mm_txnid m) = 1 - i" "slot_ok psize file i mp" "slot_ok psize file (1 - i) m"
    using toggle_less [of "c_txnid txn"] toggle_less [of "mm_txnid m"] c(1,3,4) by (simp_all add: i_def mp')
  have len: "METABUF_SIZE \<le> psize" using ok by (simp add: metas_ok_def)
  have fit: "off + 120 \<le> length file" using i(4) by (simp add: slot_ok_def off_def META_TAIL_def PAGEHDRSZ_def METABUF_SIZE_def)
  have n: "old = mp\<lparr>mm_mapsize := mm_mapsize old, mm_dbs := c_dbs txn, mm_last_pg := mm_last_pg mp,
      mm_txnid := mm_txnid mp\<rparr>" by (simp add: old_def commit_meta_def)
  have "slot_ok psize (blit file off (tail_bytes old)) i old"
    unfolding off_def by (rule slot_written [OF i(4) n c(2)])
  moreover have "slot_ok psize (blit file off (tail_bytes old)) (1 - i) m"
  proof -
    have "slot_ok psize (blit file (META_TAIL + ((1 - (1 - i)) * psize + PAGEHDRSZ)) (tail_bytes old)) (1 - i) m"
      by (rule slot_far) (use i len in \<open>simp_all add: slot_ok_def\<close>)
    then show ?thesis by (simp only: off_def i(2))
  qed
  ultimately have "metas_ok psize (blit file off (tail_bytes old)) m"
    using i len c(5) by (auto simp: metas_ok_def old_def mp')
  moreover have "blit (blit file off xs) off (tail_bytes old) = blit file off (tail_bytes old)"
    by (rule blit_over) (use xs fit in simp_all)
  ultimately show ?thesis by (simp add: old_def off_def i_def)
qed

text \<open>The outcome of \<open>mdb_env_write_meta\<close>: it succeeds and publishes the number of the transaction, or it fails.\<close>

lemma write_meta_outcome:
  assumes ok: "metas_ok psize file m" and nc: "next_commit psize file env txn"
    and mp: "me_metas psize file (toggle_of (c_txnid txn)) = Some mp"
  shows "\<exists>rc env' f t. mdb_env_write_meta env txn msync w1 w2 file = Some (rc, env', f, t) \<and>
     (t \<noteq> None \<longrightarrow> rc = 0 \<and> t = Some (c_txnid txn) \<and> metas_ok psize f (commit_meta env txn mp m)) \<and>
     (t = None \<and> me_flags env AND MDB_WRITEMAP \<noteq> 0 \<longrightarrow> metas_ok psize f (commit_meta env txn mp m)) \<and>
     (t = None \<and> me_flags env AND MDB_WRITEMAP = 0 \<and> 120 \<le> w_len w2 \<longrightarrow> metas_ok psize f m)"
proof -
  define off where "off = META_TAIL + (toggle_of (c_txnid txn) * psize + PAGEHDRSZ)"
  define new where "new = commit_meta env txn mp m"
  have m: "me_metas psize file (1 - toggle_of (c_txnid txn)) = Some m" "me_psize env = psize"
    "slot_ok psize file (toggle_of (c_txnid txn)) mp"
  proof -
    obtain mp' where n: "slot_ok psize file (toggle_of (c_txnid txn)) mp'"
      "slot_ok psize file (1 - toggle_of (c_txnid txn)) m" "me_psize env = psize"
      using next_commit_slots [OF ok nc] by metis
    then have "mp' = mp" using mp by (simp add: slot_ok_def)
    with n show "me_metas psize file (1 - toggle_of (c_txnid txn)) = Some m" "me_psize env = psize"
      "slot_ok psize file (toggle_of (c_txnid txn)) mp" by (simp_all add: slot_ok_def)
  qed
  have full: "metas_ok psize (blit file off (tail_bytes new)) new"
    using commit_torn [OF ok nc, of 120] mp m(1) by (auto simp: off_def new_def)
  have fit: "off + 120 \<le> length file"
    using m(3) by (simp add: slot_ok_def off_def META_TAIL_def PAGEHDRSZ_def METABUF_SIZE_def)
  show ?thesis
  proof (cases "me_flags env AND MDB_WRITEMAP = 0")
    case False
    have put: "put_bytes file off (tail_bytes new) = Some (blit file off (tail_bytes new))"
      using fit by (simp add: put_bytes_def)
    show ?thesis
    proof (cases "if me_flags env AND (MDB_NOMETASYNC OR MDB_NOSYNC) = 0 then msync else None")
      case None
      then show ?thesis using False full
        by (simp add: mdb_env_write_meta_def Let_def m [unfolded One_nat_def] mp off_def [symmetric]
            new_def [symmetric] put)
    next
      case (Some e)
      then show ?thesis using False full
        by (simp add: mdb_env_write_meta_def Let_def m [unfolded One_nat_def] mp off_def [symmetric]
            new_def [symmetric] put)
    qed
  next
    case True
    have undone: "metas_ok psize (blit (blit file off (take (w_len w1) (tail_bytes new))) off
        (take (w_len w2) (tail_bytes (new\<lparr>mm_last_pg := mm_last_pg mp, mm_txnid := mm_txnid mp\<rparr>)))) m"
      if "120 \<le> w_len w2"
      using commit_undone [OF ok nc mp, of "take (w_len w1) (tail_bytes new)"] that by (simp add: off_def new_def)
    show ?thesis
    proof (cases "w_err w1 \<noteq> None \<or> w_len w1 \<noteq> 120")
      case failed: True
      then show ?thesis using True undone
        by (simp add: mdb_env_write_meta_def Let_def m [unfolded One_nat_def] mp off_def [symmetric] new_def [symmetric] os_wr_def)
    next
      case finished: False
      then show ?thesis using True full
        by (simp add: mdb_env_write_meta_def Let_def m [unfolded One_nat_def] mp off_def [symmetric] new_def [symmetric] os_wr_def)
    qed
  qed
qed

text \<open>A new file.\<close>

lemma meta_page_in:
  assumes "METABUF_SIZE \<le> psize"
  obtains p where "meta_page psize n meta = Some p" "length p = psize" "le_at 2 p 10 = P_META"
    "meta_of_bytes p PAGEHDRSZ = Some meta"
proof -
  have len: "152 \<le> psize" using assms by (simp add: METABUF_SIZE_def)
  define p0 where "p0 = blit (replicate psize (0 :: u8)) 0 (le_bytes 8 n)"
  define p1 where "p1 = blit p0 10 (le_bytes 2 P_META)"
  define p where "p = blit p1 PAGEHDRSZ (meta_bytes meta)"
  have l: "length p0 = psize" "length p1 = psize" "length p = psize"
    using len by (simp_all add: p0_def p1_def p_def META_SIZE_def PAGEHDRSZ_def)
  have "meta_page psize n meta = Some p"
    using len l(1,2) by (simp add: meta_page_def st_def put_bytes_def p0_def [symmetric] p1_def [symmetric] p_def META_SIZE_def PAGEHDRSZ_def)
  moreover have "le_at 2 p 10 = P_META"
    using len l(1,2) by (simp add: p_def p1_def le_at_blit_other le_at_blit_same META_SIZE_def PAGEHDRSZ_def P_META_def)
  moreover have "meta_of_bytes p PAGEHDRSZ = Some meta"
    by (rule meta_at_bytes) (use len l in \<open>simp_all add: p_def sub_blit_same META_SIZE_def PAGEHDRSZ_def\<close>)
  ultimately show ?thesis using that l by blast
qed

lemma slots_of_pages:
  assumes "METABUF_SIZE \<le> psize" "length p = psize" "length q = psize"
    "le_at 2 p 10 = P_META" "le_at 2 q 10 = P_META"
    "meta_of_bytes p PAGEHDRSZ = Some m" "meta_of_bytes q PAGEHDRSZ = Some m"
    "mm_magic m = MDB_MAGIC" "mm_version m = MDB_DATA_VERSION" "mm_psize m = psize"
  shows "slot_ok psize (p @ q) 0 m" "slot_ok psize (p @ q) 1 m"
proof -
  have len: "152 \<le> psize" using assms(1) by (simp add: METABUF_SIZE_def)
  have left: "sub (p @ q) j n = sub p j n" if "j + n \<le> psize" for j n using that assms(2) by (simp add: sub_def)
  have right: "sub (p @ q) (psize + j) n = sub q j n" for j n using assms(2) by (simp add: sub_def)
  have "le_at 2 (p @ q) 10 = P_META" "le_at 2 (p @ q) (psize + 10) = P_META"
    using assms(4,5) len by (simp_all add: le_at_def left right)
  moreover have "meta_of_bytes (p @ q) PAGEHDRSZ = meta_of_bytes p PAGEHDRSZ"
    "meta_of_bytes (p @ q) (psize + PAGEHDRSZ) = meta_of_bytes q PAGEHDRSZ"
    by (rule meta_of_bytes_cong; use len assms(2,3) in \<open>simp add: left right PAGEHDRSZ_def\<close>)+
  ultimately show "slot_ok psize (p @ q) 0 m" "slot_ok psize (p @ q) 1 m"
    using assms by (simp_all add: slot_ok_def me_metas_def F_ISSET_def)
qed

lemma created_ok:
  assumes psize: "me_psize env = psize" "METABUF_SIZE \<le> psize" "psize < 2 ^ 32" and env0: "me_psize env0 = psize" and w: "w_err w = None"
    and init: "mdb_env_init_meta nomem w env meta [] = Some (0, file)"
    and meta: "meta = (mdb_env_init_meta0 env0)\<lparr>mm_mapsize := x, mm_address := a\<rparr>"
  shows "metas_ok psize file meta"
proof -
  obtain p where p: "meta_page psize 0 meta = Some p" "length p = psize" "le_at 2 p 10 = P_META"
    "meta_of_bytes p PAGEHDRSZ = Some meta" using meta_page_in [OF psize(2)] by metis
  obtain q where q: "meta_page psize 1 meta = Some q" "length q = psize" "le_at 2 q 10 = P_META"
    "meta_of_bytes q PAGEHDRSZ = Some meta" using meta_page_in [OF psize(2)] by metis
  have f: "file = p @ q"
  proof -
    have "\<not> nomem" using init by (auto simp: mdb_env_init_meta_def ENOMEM_def)
    then have "(if w_len w = psize * 2 then 0 else ENOSPC, take (w_len w) (p @ q)) = (0, file)"
      using init by (simp add: mdb_env_init_meta_def p(1) q(1) [unfolded One_nat_def] psize(1) w os_wr_def blit_def NUM_METAS_def)
    then have "w_len w = psize * 2" "file = take (w_len w) (p @ q)"
      by (simp_all add: ENOSPC_def split: if_splits)
    then show ?thesis using p(2) q(2) by simp
  qed
  have "(of_nat psize :: u32) = of_nat (me_psize env0)" by (simp add: env0)
  moreover have "unat (of_nat psize :: u32) = psize" using psize(3) by (simp add: unat_of_nat)
  ultimately have fields: "mm_magic meta = MDB_MAGIC" "mm_version meta = MDB_DATA_VERSION" "mm_psize meta = psize"
    "mm_txnid meta = 0"
    by (simp_all add: meta mdb_env_init_meta0_def)
  note s = slots_of_pages [OF psize(2) p(2) q(2) p(3) q(3) p(4) q(4) fields(1-3)]
  show ?thesis using s psize(2) fields(4) by (auto simp: metas_ok_def toggle_mod f)
qed

lemma torn_commit_ok:
  assumes ok: "metas_ok psize file m" and nc: "next_commit psize file env txn"
    and mp: "me_metas psize file (toggle_of (c_txnid txn)) = Some mp"
  shows "\<exists>f. torn_commit env txn k file = Some f \<and> (metas_ok psize f m \<or> metas_ok psize f (commit_meta env txn mp m))"
proof -
  have e: "me_psize env = psize" using nc by (auto simp: next_commit_def split: option.splits)
  obtain f where f: "me_metas psize file (1 - toggle_of (c_txnid txn)) = Some m"
    "f = blit file (META_TAIL + (toggle_of (c_txnid txn) * psize + PAGEHDRSZ))
           (take (min k 120) (tail_bytes (commit_meta env txn mp m)))"
    "metas_ok psize f m \<or> metas_ok psize f (commit_meta env txn mp m)"
    using commit_torn [OF ok nc, of "min k 120"] mp by auto
  have "take (min k 120) (tail_bytes (commit_meta env txn mp m)) = take k (tail_bytes (commit_meta env txn mp m))"
    by (simp add: min_def)
  then have "torn_commit env txn k file = Some f"
    using f(1) [unfolded One_nat_def] by (simp add: torn_commit_def e mp f(2) Let_def)
  then show ?thesis using f(3) by blast
qed

lemma step_ok:
  assumes "meta_step psize file file'" "metas_ok psize file m"
  shows "\<exists>m'. metas_ok psize file' m'"
  using assms
proof (induction rule: meta_step.induct)
  case (committed fl env txn msync w1 w2 rc env' fl' t)
  obtain mp where "me_metas psize fl (toggle_of (c_txnid txn)) = Some mp"
    using commit_torn [OF committed(3,1), of 0] by blast
  from write_meta_outcome [OF committed(3,1) this, of msync w1 w2] committed(2) show ?case by auto
next
  case (failed fl env txn msync w1 w2 rc env' fl')
  obtain mp where "me_metas psize fl (toggle_of (c_txnid txn)) = Some mp"
    using commit_torn [OF failed(4,1), of 0] by blast
  from write_meta_outcome [OF failed(4,1) this, of msync w1 w2] failed(2,3) show ?case by auto
next
  case (crashed fl env txn k fl')
  obtain mp where "me_metas psize fl (toggle_of (c_txnid txn)) = Some mp"
    using commit_torn [OF crashed(3,1), of 0] by blast
  from torn_commit_ok [OF crashed(3,1) this, of k] crashed(2) show ?case by auto
qed

lemma reach_ok: "meta_reach psize file \<Longrightarrow> \<exists>m. metas_ok psize file m"
  by (induction rule: meta_reach.induct) (blast intro: created_ok, blast intro: step_ok)

lemma write_meta_read:
  assumes ok: "metas_ok psize file m" and nc: "next_commit psize file env txn"
    and mp: "me_metas psize file (toggle_of (c_txnid txn)) = Some mp"
  shows "\<exists>rc env' f t. mdb_env_write_meta env txn msync w1 w2 file = Some (rc, env', f, t) \<and>
     (t \<noteq> None \<longrightarrow> rc = 0 \<and> t = Some (c_txnid txn) \<and>
        mdb_env_read_header None None f = Inr (commit_meta env txn mp m)) \<and>
     (t = None \<and> me_flags env AND MDB_WRITEMAP = 0 \<and> 120 \<le> w_len w2 \<longrightarrow>
        mdb_env_read_header None None f = Inr m) \<and>
     (t = None \<and> me_flags env AND MDB_WRITEMAP \<noteq> 0 \<longrightarrow>
        mdb_env_read_header None None f = Inr (commit_meta env txn mp m))"
  using write_meta_outcome [OF ok nc mp, of msync w1 w2] metas_header by blast

text \<open>C1: However a data file came about by its creation, commits, failed commits and crashes at any byte of
  the write of a meta page, it can be opened, both ways of finding the newest snapshot agree, and from there:
  a crash during the next commit, after any number of bytes, leaves exactly the old snapshot or exactly the
  new one; a commit that succeeds leaves the new one; and one whose write fails leaves the old one once its
  bytes are written back (with \<open>MDB_WRITEMAP\<close>, where nothing is written back, the new one).\<close>

theorem meta_commit_atomic:
  assumes "meta_reach psize file"
  shows "\<exists>m. mdb_env_read_header None None file = Inr m \<and> mdb_env_pick_meta psize file = Some m \<and>
    (\<forall>env txn. next_commit psize file env txn \<longrightarrow>
      (\<exists>mp. me_metas psize file (toggle_of (c_txnid txn)) = Some mp \<and>
        (\<forall>k. \<exists>f. torn_commit env txn k file = Some f \<and>
           mdb_env_read_header None None f \<in> {Inr m, Inr (commit_meta env txn mp m)}) \<and>
        (\<forall>msync w1 w2. \<exists>rc env' f t. mdb_env_write_meta env txn msync w1 w2 file = Some (rc, env', f, t) \<and>
           (t \<noteq> None \<longrightarrow> rc = 0 \<and> t = Some (c_txnid txn) \<and>
              mdb_env_read_header None None f = Inr (commit_meta env txn mp m)) \<and>
           (t = None \<and> me_flags env AND MDB_WRITEMAP = 0 \<and> 120 \<le> w_len w2 \<longrightarrow>
              mdb_env_read_header None None f = Inr m) \<and>
           (t = None \<and> me_flags env AND MDB_WRITEMAP \<noteq> 0 \<longrightarrow>
              mdb_env_read_header None None f = Inr (commit_meta env txn mp m)))))"
proof -
  obtain m where ok: "metas_ok psize file m" using reach_ok [OF assms] by blast
  have "\<exists>mp. me_metas psize file (toggle_of (c_txnid txn)) = Some mp \<and>
        (\<forall>k. \<exists>f. torn_commit env txn k file = Some f \<and>
           mdb_env_read_header None None f \<in> {Inr m, Inr (commit_meta env txn mp m)}) \<and>
        (\<forall>msync w1 w2. \<exists>rc env' f t. mdb_env_write_meta env txn msync w1 w2 file = Some (rc, env', f, t) \<and>
           (t \<noteq> None \<longrightarrow> rc = 0 \<and> t = Some (c_txnid txn) \<and>
              mdb_env_read_header None None f = Inr (commit_meta env txn mp m)) \<and>
           (t = None \<and> me_flags env AND MDB_WRITEMAP = 0 \<and> 120 \<le> w_len w2 \<longrightarrow>
              mdb_env_read_header None None f = Inr m) \<and>
           (t = None \<and> me_flags env AND MDB_WRITEMAP \<noteq> 0 \<longrightarrow>
              mdb_env_read_header None None f = Inr (commit_meta env txn mp m)))"
    if nc: "next_commit psize file env txn" for env txn
  proof -
    obtain mp where mp: "me_metas psize file (toggle_of (c_txnid txn)) = Some mp"
      using commit_torn [OF ok nc, of 0] by blast
    have torn: "\<exists>f. torn_commit env txn k file = Some f \<and>
        mdb_env_read_header None None f \<in> {Inr m, Inr (commit_meta env txn mp m)}" for k
      using torn_commit_ok [OF ok nc mp, of k] metas_header by blast
    show ?thesis using mp torn write_meta_read [OF ok nc mp] by blast
  qed
  then show ?thesis using metas_header [OF ok] metas_pick [OF ok] by blast
qed

definition sample_menv :: menv where
  "sample_menv = \<lparr>me_psize = 152, me_nodemax = 0, me_flags = 0, me_mapsize = 1048576, me_maxpg = 0, me_maxfree_1pg = 0\<rparr>"

definition sample_new_meta :: MDB_meta where
  "sample_new_meta = (mdb_env_init_meta0 sample_menv)\<lparr>mm_mapsize := 1048576, mm_address := 0\<rparr>"

definition sample_new_file :: "u8 list" where
  "sample_new_file =
     (case mdb_env_init_meta False \<lparr>w_len = 304, w_err = None\<rparr> sample_menv sample_new_meta [] of
        Some (rc, f) \<Rightarrow> f | None \<Rightarrow> [])"

definition sample_commit :: commit where
  "sample_commit = \<lparr>c_txnid = 1, c_dbs = (zero_db\<lparr>md_pad := 152\<rparr>, zero_db\<lparr>md_root := 2\<rparr>), c_next_pgno = 3\<rparr>"

lemma sample_new_file_created:
  "mdb_env_init_meta False \<lparr>w_len = 304, w_err = None\<rparr> sample_menv sample_new_meta [] = Some (0, sample_new_file)"
proof -
  obtain p where p: "meta_page 152 0 sample_new_meta = Some p"
    using meta_page_in [of 152 0 sample_new_meta] by (auto simp: METABUF_SIZE_def)
  obtain q where q: "meta_page 152 1 sample_new_meta = Some q"
    using meta_page_in [of 152 1 sample_new_meta] by (auto simp: METABUF_SIZE_def)
  show ?thesis
    by (simp add: sample_new_file_def mdb_env_init_meta_def sample_menv_def p q [unfolded One_nat_def] NUM_METAS_def)
qed

lemma sample_new_file_reach: "meta_reach 152 sample_new_file"
  using meta_reach.created [of sample_menv 152 sample_menv "\<lparr>w_len = 304, w_err = None\<rparr>" False 0 1048576 sample_new_file]
    sample_new_file_created
  by (simp add: sample_menv_def METABUF_SIZE_def sample_new_meta_def)

lemma sample_new_file_ok: "metas_ok 152 sample_new_file sample_new_meta"
  by (rule created_ok [OF _ _ _ _ _ sample_new_file_created sample_new_meta_def])
    (simp_all add: sample_menv_def METABUF_SIZE_def)

lemma sample_next_commit: "next_commit 152 sample_new_file sample_menv sample_commit"
  using metas_pick [OF sample_new_file_ok]
  by (simp add: next_commit_def sample_menv_def sample_commit_def sample_new_meta_def mdb_env_init_meta0_def)

lemma meta_commit_atomic_witness:
  "\<exists>mp f. torn_commit sample_menv sample_commit 113 sample_new_file = Some f \<and>
     mdb_env_read_header None None f \<in> {Inr sample_new_meta, Inr (commit_meta sample_menv sample_commit mp sample_new_meta)}"
proof -
  have "mdb_env_pick_meta 152 sample_new_file = Some sample_new_meta"
    by (rule metas_pick [OF sample_new_file_ok])
  with meta_commit_atomic [OF sample_new_file_reach] sample_next_commit show ?thesis by fastforce
qed

text \<open>C36: Opening an empty file creates it, with the page size of the system up to 32768 bytes and a page size
  that holds two nodes of the greatest size; whoever opens the file again, with any page size of the system and
  no map size configured, gets the same page size, map size and limits, and the file is not changed.\<close>

theorem mdb_env_reopen:
  assumes "me_flags env AND MDB_FIXEDMAP = 0" "METABUF_SIZE \<le> os_psize"
    and "w = \<lparr>w_len = 2 * min os_psize MAX_PAGESIZE, w_err = None\<rparr>" "me_mapsize env2 = 0"
  shows "\<exists>env' f env2'. mdb_env_open2 None None False w os_psize 0 a env [] = Some (0, env', f) \<and>
     me_psize env' = min os_psize MAX_PAGESIZE \<and>
     MDB_MINKEYS * (me_nodemax env' + 2) \<le> me_psize env' - PAGEHDRSZ \<and> even (me_nodemax env') \<and>
     mdb_env_open2 None None nomem2 w2 os_psize2 0 a2 env2 f = Some (0, env2', f) \<and>
     me_psize env2' = me_psize env' \<and> me_mapsize env2' = me_mapsize env' \<and> me_maxpg env2' = me_maxpg env' \<and>
     me_nodemax env2' = me_nodemax env' \<and> me_maxfree_1pg env2' = me_maxfree_1pg env'"
proof -
  define psize where "psize = min os_psize MAX_PAGESIZE"
  have psize: "152 \<le> psize" "psize < 2 ^ 32" "METABUF_SIZE \<le> psize"
    using assms(2) by (simp_all add: psize_def METABUF_SIZE_def MAX_PAGESIZE_def)
  define env0 where "env0 = env\<lparr>me_psize := psize\<rparr>"
  define meta0 where "meta0 = (mdb_env_init_meta0 env0)\<lparr>mm_mapsize := DEFAULT_MAPSIZE\<rparr>"
  define env1 where "env1 = open_mapsize env0 meta0"
  define meta where "meta = meta0\<lparr>mm_mapsize := me_mapsize env1\<rparr>"
  have e1: "me_psize env1 = psize" "me_flags env1 = me_flags env" by (simp_all add: env1_def open_mapsize_def env0_def Let_def)
  have meta: "meta = (mdb_env_init_meta0 env0)\<lparr>mm_mapsize := me_mapsize env1, mm_address := 0\<rparr>"
    by (simp add: meta_def meta0_def mdb_env_init_meta0_def)
  obtain p where p: "meta_page psize 0 meta = Some p" "length p = psize"
    using meta_page_in [OF psize(3)] by metis
  obtain q where q: "meta_page psize 1 meta = Some q" "length q = psize"
    using meta_page_in [OF psize(3)] by metis
  define f where "f = p @ q"
  have init: "mdb_env_init_meta False w env1 meta [] = Some (0, f)"
    using p q by (simp add: mdb_env_init_meta_def e1 NUM_METAS_def assms(3) psize_def [symmetric] os_wr_def blit_def f_def)
  have read: "mdb_env_read_header None None f = Inr meta"
    by (rule metas_header, rule created_ok [OF e1(1) psize(3,2) _ _ init meta]) (simp_all add: env0_def assms(3))
  have fresh: "mdb_env_read_header None None [] = Inl ENOENT"
    by (simp add: mdb_env_read_header_def read_meta_def os_read_def METABUF_SIZE_def)
  obtain env' where env': "open_sizes env1 f = Some (0, env', f)" "me_psize env' = psize"
    "me_mapsize env' = me_mapsize env1" "me_nodemax env' = 2 * ((psize - PAGEHDRSZ) div MDB_MINKEYS div 2) - 2"
    "me_maxfree_1pg env' = (psize - PAGEHDRSZ) div 8 - 1" "me_maxpg env' = me_mapsize env1 div of_nat psize"
    using psize(1) e1 by (simp add: open_sizes_def Let_def PAGEHDRSZ_def)
  have open1: "mdb_env_open2 None None False w os_psize 0 a env [] = Some (0, env', f)"
    using assms(1) init env'(1)
    by (simp add: mdb_env_open2_def fresh open_new_def psize_def [symmetric] env0_def [symmetric] meta0_def [symmetric]
        env1_def [symmetric] meta_def [symmetric] e1 Let_def)
  have mp: "mm_psize meta = psize" using psize(2) by (simp add: meta mdb_env_init_meta0_def env0_def unat_of_nat)
  define env3 where "env3 = open_mapsize (env2\<lparr>me_psize := psize\<rparr>) meta"
  have e3: "me_psize env3 = psize" "me_mapsize env3 = me_mapsize env1"
    by (simp_all add: env3_def env1_def open_mapsize_def Let_def assms(4) meta_def meta0_def mdb_env_init_meta0_def)
  obtain env2' where env2': "open_sizes env3 f = Some (0, env2', f)" "me_psize env2' = psize"
    "me_mapsize env2' = me_mapsize env1" "me_nodemax env2' = 2 * ((psize - PAGEHDRSZ) div MDB_MINKEYS div 2) - 2"
    "me_maxfree_1pg env2' = (psize - PAGEHDRSZ) div 8 - 1" "me_maxpg env2' = me_mapsize env1 div of_nat psize"
    using psize(1) e3 by (simp add: open_sizes_def Let_def PAGEHDRSZ_def)
  have open2: "mdb_env_open2 None None nomem2 w2 os_psize2 0 a2 env2 f = Some (0, env2', f)"
    using env2'(1) by (simp add: mdb_env_open2_def read mp env3_def [symmetric] Let_def)
  have "MDB_MINKEYS * (me_nodemax env' + 2) \<le> psize - PAGEHDRSZ"
    using psize(1) by (simp add: env'(4) MDB_MINKEYS_def PAGEHDRSZ_def)
  moreover have "even (me_nodemax env')" by (simp add: env'(4))
  moreover have "me_psize env' = min os_psize MAX_PAGESIZE" "me_psize env' - PAGEHDRSZ = psize - PAGEHDRSZ"
    by (simp_all only: env'(2) psize_def)
  ultimately have "MDB_MINKEYS * (me_nodemax env' + 2) \<le> me_psize env' - PAGEHDRSZ" "even (me_nodemax env')"
    "me_psize env' = min os_psize MAX_PAGESIZE" by simp_all
  moreover have "me_psize env2' = me_psize env'" "me_mapsize env2' = me_mapsize env'" "me_maxpg env2' = me_maxpg env'"
    "me_nodemax env2' = me_nodemax env'" "me_maxfree_1pg env2' = me_maxfree_1pg env'"
    by (simp_all only: env' env2')
  ultimately show ?thesis using open1 open2 by blast
qed

lemma mdb_env_reopen_witness:
  "\<exists>env' f env2'. mdb_env_open2 None None False \<lparr>w_len = 8192, w_err = None\<rparr> 4096 0 0 sample_menv [] = Some (0, env', f) \<and>
     me_psize env' = 4096 \<and>
     mdb_env_open2 None None True \<lparr>w_len = 0, w_err = None\<rparr> 512 0 0 (sample_menv\<lparr>me_mapsize := 0\<rparr>) f = Some (0, env2', f) \<and>
     me_psize env2' = 4096 \<and> me_mapsize env2' = me_mapsize env'"
proof -
  have m: "min 4096 MAX_PAGESIZE = 4096" by (simp add: MAX_PAGESIZE_def)
  have h: "me_flags sample_menv AND MDB_FIXEDMAP = 0" "METABUF_SIZE \<le> 4096"
    "\<lparr>w_len = 8192, w_err = None\<rparr> = \<lparr>w_len = 2 * min 4096 MAX_PAGESIZE, w_err = None\<rparr>"
    "me_mapsize (sample_menv\<lparr>me_mapsize := 0\<rparr>) = 0"
    by (simp_all add: sample_menv_def METABUF_SIZE_def m)
  from mdb_env_reopen [OF h, of 0 True "\<lparr>w_len = 0, w_err = None\<rparr>" 512 0] show ?thesis
    unfolding m by metis
qed

end
