(* ===== verification/Mdb_Readers.thy ===== *)
theory Mdb_Readers
  imports Mdb_Meta
begin

text \<open>
  The reader table of \<open>lmdb/mdb.c\<close>: how a reader registers the snapshot it reads (\<open>mdb_txn_renew0\<close>), how
  it gives it up (\<open>mdb_txn_end\<close>), and how a writer finds the oldest registered snapshot
  (\<open>mdb_find_oldest\<close>) without a lock against the readers. The table is in shared memory: any number of
  threads and at most one writer act on it, and their single loads and stores interleave. First the
  operations on the table, then the machine of all threads, and what holds in every state it reaches.
\<close>

unbundle bit_operations_syntax

definition MDB_READERS_FULL :: int where "MDB_READERS_FULL = - 30790"
definition MDB_BAD_RSLOT :: int where "MDB_BAD_RSLOT = - 30783"

section \<open>The table\<close>

record reader =
  mr_txnid :: u64
  mr_pid :: u32
  mr_tid :: u32

record txninfo =
  mti_txnid :: u64
  mti_numreaders :: nat
  mti_readers :: "reader list"

text \<open>The search for a slot without owner among those used so far.\<close>

fun free_slot :: "reader list \<Rightarrow> nat" where
  "free_slot [] = 0"
| "free_slot (r # rs) = (if mr_pid r = 0 then 0 else Suc (free_slot rs))"

text \<open>A slot is claimed in two steps: it is reset and the number of slots in use is published; then it gets its
  owner. The stores of the first step can be taken together: a scan skips a slot without owner.\<close>

definition claim_slot :: "nat \<Rightarrow> u32 \<Rightarrow> txninfo \<Rightarrow> int + nat \<times> txninfo" where
  "claim_slot maxreaders tid ti =
     (let nr = mti_numreaders ti; i = free_slot (take nr (mti_readers ti))
      in if i = maxreaders then Inl MDB_READERS_FULL
         else Inr (i, ti\<lparr>mti_readers := (mti_readers ti)[i := \<lparr>mr_txnid = - 1, mr_pid = 0, mr_tid = tid\<rparr>],
                        mti_numreaders := (if i = nr then nr + 1 else nr)\<rparr>))"

definition set_pid :: "nat \<Rightarrow> u32 \<Rightarrow> txninfo \<Rightarrow> txninfo" where
  "set_pid i pid ti = ti\<lparr>mti_readers := (mti_readers ti)[i := (mti_readers ti ! i)\<lparr>mr_pid := pid\<rparr>]\<rparr>"

definition set_txnid :: "nat \<Rightarrow> u64 \<Rightarrow> txninfo \<Rightarrow> txninfo" where
  "set_txnid i v ti = ti\<lparr>mti_readers := (mti_readers ti)[i := (mti_readers ti ! i)\<lparr>mr_txnid := v\<rparr>]\<rparr>"

text \<open>\<open>mdb_find_oldest\<close>: the loop runs from the last slot in use down to the first.\<close>

definition older :: "u64 \<Rightarrow> u64 \<Rightarrow> u64" where
  "older oldest mr = (if mr < oldest then mr else oldest)"

fun oldest_loop :: "reader list \<Rightarrow> nat \<Rightarrow> u64 \<Rightarrow> u64" where
  "oldest_loop rs 0 oldest = oldest"
| "oldest_loop rs (Suc i) oldest =
     oldest_loop rs i (if mr_pid (rs ! i) \<noteq> 0 then older oldest (mr_txnid (rs ! i)) else oldest)"

definition mdb_find_oldest :: "txninfo option \<Rightarrow> u64 \<Rightarrow> u64" where
  "mdb_find_oldest ti txnid =
     (case ti of
        None \<Rightarrow> txnid - 1
      | Some ti \<Rightarrow> oldest_loop (mti_readers ti) (mti_numreaders ti) (txnid - 1))"

section \<open>Readers and writers\<close>

text \<open>A reading thread: without a slot; claiming slot \<open>i\<close>; owning it; at the head of the loop that registers a
  snapshot; after loading the number \<open>v\<close>; after storing it in the slot; after the check that ends the loop; and
  in a transaction on the data of snapshot \<open>d\<close>, copied from the meta page.\<close>

datatype rstate =
  R_none | R_claim nat | R_slot nat | R_loop nat | R_read nat u64 | R_stored nat u64 | R_check nat u64
| R_live nat u64 u64

text \<open>The writer: none; process \<open>p\<close> in transaction \<open>t\<close>; scanning the table from slot \<open>i\<close> down; about to read the
  number in slot \<open>i\<close> after seeing an owner; and after writing its meta page.\<close>

datatype wstate =
  W_idle | W_run nat u64 | W_scan nat u64 nat u64 | W_seen nat u64 nat u64 | W_meta nat u64

text \<open>\<open>rs_pgoldest p\<close> is \<open>me_pgoldest\<close> of process \<open>p\<close>, \<open>rs_meta i\<close> the number of the snapshot on meta page \<open>i\<close>.\<close>

record rsys =
  rs_ti :: txninfo
  rs_rmutex :: "nat option"
  rs_thr :: "nat \<Rightarrow> rstate"
  rs_w :: wstate
  rs_pgoldest :: "nat \<Rightarrow> u64"
  rs_meta :: "nat \<Rightarrow> u64"

primrec slot_of :: "rstate \<Rightarrow> nat option" where
  "slot_of R_none = None"
| "slot_of (R_claim i) = Some i"
| "slot_of (R_slot i) = Some i"
| "slot_of (R_loop i) = Some i"
| "slot_of (R_read i v) = Some i"
| "slot_of (R_stored i v) = Some i"
| "slot_of (R_check i v) = Some i"
| "slot_of (R_live i v d) = Some i"

abbreviation set_thr :: "nat \<Rightarrow> rstate \<Rightarrow> rsys \<Rightarrow> rsys" where
  "set_thr t r s \<equiv> s\<lparr>rs_thr := (rs_thr s)(t := r)\<rparr>"

inductive rstep :: "nat \<Rightarrow> rsys \<Rightarrow> rsys \<Rightarrow> bool" for maxreaders where
  claim: "rs_thr s t = R_none \<Longrightarrow> rs_rmutex s = None \<Longrightarrow> claim_slot maxreaders tid (rs_ti s) = Inr (i, ti) \<Longrightarrow>
     rstep maxreaders s (set_thr t (R_claim i) s\<lparr>rs_ti := ti, rs_rmutex := Some t\<rparr>)"
| publish: "rs_thr s t = R_claim i \<Longrightarrow> pid \<noteq> 0 \<Longrightarrow>
     rstep maxreaders s (set_thr t (R_slot i) s\<lparr>rs_ti := set_pid i pid (rs_ti s), rs_rmutex := None\<rparr>)"
| renew: "rs_thr s t = R_slot i \<Longrightarrow> rstep maxreaders s (set_thr t (R_loop i) s)"
| load: "rs_thr s t = R_loop i \<Longrightarrow> rstep maxreaders s (set_thr t (R_read i (mti_txnid (rs_ti s))) s)"
| store: "rs_thr s t = R_read i v \<Longrightarrow>
     rstep maxreaders s (set_thr t (R_stored i v) s\<lparr>rs_ti := set_txnid i v (rs_ti s)\<rparr>)"
| retry: "rs_thr s t = R_stored i v \<Longrightarrow> mti_txnid (rs_ti s) \<noteq> v \<Longrightarrow> rstep maxreaders s (set_thr t (R_loop i) s)"
| accept: "rs_thr s t = R_stored i v \<Longrightarrow> mti_txnid (rs_ti s) = v \<Longrightarrow>
     rstep maxreaders s (set_thr t (R_check i v) s)"
| copy: "rs_thr s t = R_check i v \<Longrightarrow> rstep maxreaders s (set_thr t (R_live i v (rs_meta s (toggle_of v))) s)"
| finish: "rs_thr s t = R_live i v d \<Longrightarrow>
     rstep maxreaders s (set_thr t (R_slot i) s\<lparr>rs_ti := set_txnid i (- 1) (rs_ti s)\<rparr>)"
| release: "rs_thr s t = R_slot i \<Longrightarrow>
     rstep maxreaders s (set_thr t R_none s\<lparr>rs_ti := set_pid i 0 (rs_ti s)\<rparr>)"
| stale: "slot_of (rs_thr s t) = Some i \<Longrightarrow> rs_thr s t \<noteq> R_claim i \<Longrightarrow>
     rstep maxreaders s (set_thr t R_none s\<lparr>rs_ti := set_pid i 0 (rs_ti s)\<rparr>)"
| w_begin: "rs_w s = W_idle \<Longrightarrow> mti_txnid (rs_ti s) < - 2 \<Longrightarrow>
     rstep maxreaders s (s\<lparr>rs_w := W_run p (mti_txnid (rs_ti s) + 1)\<rparr>)"
| w_scan: "rs_w s = W_run p t \<Longrightarrow>
     rstep maxreaders s (s\<lparr>rs_w := W_scan p t (mti_numreaders (rs_ti s)) (t - 1)\<rparr>)"
| w_skip: "rs_w s = W_scan p t (Suc i) old \<Longrightarrow> mr_pid (mti_readers (rs_ti s) ! i) = 0 \<Longrightarrow>
     rstep maxreaders s (s\<lparr>rs_w := W_scan p t i old\<rparr>)"
| w_look: "rs_w s = W_scan p t (Suc i) old \<Longrightarrow> mr_pid (mti_readers (rs_ti s) ! i) \<noteq> 0 \<Longrightarrow>
     rstep maxreaders s (s\<lparr>rs_w := W_seen p t i old\<rparr>)"
| w_take: "rs_w s = W_seen p t i old \<Longrightarrow>
     rstep maxreaders s (s\<lparr>rs_w := W_scan p t i (older old (mr_txnid (mti_readers (rs_ti s) ! i)))\<rparr>)"
| w_done: "rs_w s = W_scan p t 0 old \<Longrightarrow>
     rstep maxreaders s (s\<lparr>rs_w := W_run p t, rs_pgoldest := (rs_pgoldest s)(p := old)\<rparr>)"
| w_abort: "rs_w s = W_run p t \<Longrightarrow> rstep maxreaders s (s\<lparr>rs_w := W_idle\<rparr>)"
| w_meta: "rs_w s = W_run p t \<Longrightarrow>
     rstep maxreaders s (s\<lparr>rs_w := W_meta p t, rs_meta := (rs_meta s)(toggle_of t := t)\<rparr>)"
| w_commit: "rs_w s = W_meta p t \<Longrightarrow>
     rstep maxreaders s (s\<lparr>rs_w := W_idle, rs_ti := (rs_ti s)\<lparr>mti_txnid := t\<rparr>\<rparr>)"

text \<open>A new table, over a file whose newest snapshot has the number \<open>T\<close>.\<close>

definition rs_init :: "nat \<Rightarrow> u64 \<Rightarrow> u64 \<Rightarrow> rsys" where
  "rs_init maxreaders T old =
     \<lparr>rs_ti = \<lparr>mti_txnid = T, mti_numreaders = 0,
               mti_readers = replicate maxreaders \<lparr>mr_txnid = 0, mr_pid = 0, mr_tid = 0\<rparr>\<rparr>,
      rs_rmutex = None, rs_thr = (\<lambda>_. R_none), rs_w = W_idle, rs_pgoldest = (\<lambda>_. 0),
      rs_meta = (\<lambda>_. old)(toggle_of T := T)\<rparr>"

inductive rreach :: "nat \<Rightarrow> rsys \<Rightarrow> bool" for maxreaders where
  start: "old \<le> T \<Longrightarrow> rreach maxreaders (rs_init maxreaders T old)"
| step: "rreach maxreaders s \<Longrightarrow> rstep maxreaders s s' \<Longrightarrow> rreach maxreaders s'"

section \<open>The slots\<close>

lemma free_slot_le: "free_slot rs \<le> length rs"
  by (induction rs) simp_all

lemma free_slot_pid: "free_slot rs < length rs \<Longrightarrow> mr_pid (rs ! free_slot rs) = 0"
  by (induction rs) auto

text \<open>The snapshot that a thread has registered, once the check of the loop has passed.\<close>

primrec snap :: "rstate \<Rightarrow> (nat \<times> u64) option" where
  "snap R_none = None"
| "snap (R_claim i) = None"
| "snap (R_slot i) = None"
| "snap (R_loop i) = None"
| "snap (R_read i v) = None"
| "snap (R_stored i v) = None"
| "snap (R_check i v) = Some (i, v)"
| "snap (R_live i v d) = Some (i, v)"

lemma snap_slot: "snap r = Some (i, v) \<Longrightarrow> slot_of r = Some i \<and> r \<noteq> R_claim i"
  by (cases r) auto

definition stored_as :: "rstate \<Rightarrow> nat \<Rightarrow> u64 \<Rightarrow> bool" where
  "stored_as r i v \<longleftrightarrow> r = R_stored i v \<or> snap r = Some (i, v)"

lemma stored_as_simps [simp]:
  "\<not> stored_as R_none i v" "\<not> stored_as (R_claim j) i v" "\<not> stored_as (R_slot j) i v"
  "\<not> stored_as (R_loop j) i v" "\<not> stored_as (R_read j u) i v"
  "stored_as (R_stored j u) i v \<longleftrightarrow> j = i \<and> u = v" "stored_as (R_check j u) i v \<longleftrightarrow> j = i \<and> u = v"
  "stored_as (R_live j u d) i v \<longleftrightarrow> j = i \<and> u = v"
  by (simp_all add: stored_as_def)

lemma stored_slot: "stored_as r i v \<Longrightarrow> slot_of r = Some i \<and> r \<noteq> R_claim i"
  by (cases r) auto

text \<open>A slot has one owner; it is marked as owned, except while it is claimed, which the mutex protects; and it
  holds the number its owner has stored.\<close>

definition slots_inv :: "nat \<Rightarrow> rsys \<Rightarrow> bool" where
  "slots_inv maxreaders s \<longleftrightarrow>
     length (mti_readers (rs_ti s)) = maxreaders \<and> mti_numreaders (rs_ti s) \<le> maxreaders \<and>
     (\<forall>t i. slot_of (rs_thr s t) = Some i \<longrightarrow> i < mti_numreaders (rs_ti s) \<and>
        (rs_thr s t \<noteq> R_claim i \<longrightarrow> mr_pid (mti_readers (rs_ti s) ! i) \<noteq> 0)) \<and>
     (\<forall>t u i. slot_of (rs_thr s t) = Some i \<longrightarrow> slot_of (rs_thr s u) = Some i \<longrightarrow> t = u) \<and>
     (\<forall>t i. rs_thr s t = R_claim i \<longrightarrow> rs_rmutex s = Some t) \<and>
     (\<forall>t i v. stored_as (rs_thr s t) i v \<longrightarrow> mr_txnid (mti_readers (rs_ti s) ! i) = v)"

lemmas slot_simps = set_pid_def set_txnid_def nth_list_update

text \<open>A step that changes the state of one thread, and at most its own slot, keeps this.\<close>

lemma slots_keep:
  assumes inv: "slots_inv maxreaders s"
    and own: "slot_of (rs_thr s t) = Some i" "rs_thr s t \<noteq> R_claim i \<or> r = R_slot i"
    and s': "rs_thr s' = (rs_thr s)(t := r)" "mti_numreaders (rs_ti s') = mti_numreaders (rs_ti s)"
      "mti_readers (rs_ti s') = (mti_readers (rs_ti s))[i := x]"
      "\<And>j. r \<noteq> R_claim j" "rs_rmutex s' = rs_rmutex s \<or> rs_thr s t = R_claim i"
    and r: "slot_of r = None \<or> slot_of r = Some i \<and> mr_pid x \<noteq> 0" "\<And>v. stored_as r i v \<Longrightarrow> mr_txnid x = v"
  shows "slots_inv maxreaders s'"
proof -
  have len: "length (mti_readers (rs_ti s)) = maxreaders" "mti_numreaders (rs_ti s) \<le> maxreaders"
    and slot: "\<And>u j. slot_of (rs_thr s u) = Some j \<Longrightarrow> j < mti_numreaders (rs_ti s) \<and>
        (rs_thr s u \<noteq> R_claim j \<longrightarrow> mr_pid (mti_readers (rs_ti s) ! j) \<noteq> 0)"
    and dist: "\<And>u u' j. slot_of (rs_thr s u) = Some j \<Longrightarrow> slot_of (rs_thr s u') = Some j \<Longrightarrow> u = u'"
    and mutex: "\<And>u j. rs_thr s u = R_claim j \<Longrightarrow> rs_rmutex s = Some u"
    and stored: "\<And>u j v. stored_as (rs_thr s u) j v \<Longrightarrow> mr_txnid (mti_readers (rs_ti s) ! j) = v"
    using inv unfolding slots_inv_def by blast+
  have i: "i < length (mti_readers (rs_ti s))" using slot [OF own(1)] len by simp
  have other: "slot_of (rs_thr s u) \<noteq> Some i" if "u \<noteq> t" for u using dist [OF own(1)] that by blast
  show ?thesis unfolding slots_inv_def s'(1-3)
  proof (intro conjI allI impI)
    fix u j assume u: "slot_of (((rs_thr s)(t := r)) u) = Some j"
    show "j < mti_numreaders (rs_ti s)" using u r(1) slot [of u j] slot [OF own(1)] by (auto split: if_splits)
    assume "((rs_thr s)(t := r)) u \<noteq> R_claim j"
    then show "mr_pid ((mti_readers (rs_ti s))[i := x] ! j) \<noteq> 0"
      using u r(1) slot [of u j] other [of u] i by (auto simp: nth_list_update split: if_splits)
  next
    fix u u' j assume "slot_of (((rs_thr s)(t := r)) u) = Some j" "slot_of (((rs_thr s)(t := r)) u') = Some j"
    then show "u = u'" using r(1) other [of u] other [of u'] dist [of u j u'] by (auto split: if_splits)
  next
    fix u j assume "((rs_thr s)(t := r)) u = R_claim j"
    then have "u \<noteq> t" "rs_thr s u = R_claim j" using s'(4) by (auto split: if_splits)
    then show "rs_rmutex s' = Some u" using mutex [of u j] mutex [of t i] s'(5) by auto
  next
    fix u j v assume "stored_as (((rs_thr s)(t := r)) u) j v"
    then show "mr_txnid ((mti_readers (rs_ti s))[i := x] ! j) = v"
      using stored [of u j v] r stored_slot [of "rs_thr s u" j v] stored_slot [of r j v] other [of u] i
      by (auto simp: nth_list_update split: if_splits)
  qed (use len in simp_all)
qed

lemma slots_claim:
  assumes inv: "slots_inv maxreaders s" and t: "rs_thr s t = R_none" "rs_rmutex s = None"
    and c: "claim_slot maxreaders tid (rs_ti s) = Inr (i, ti)"
  shows "slots_inv maxreaders (set_thr t (R_claim i) s\<lparr>rs_ti := ti, rs_rmutex := Some t\<rparr>)"
proof -
  let ?nr = "mti_numreaders (rs_ti s)" and ?rs = "mti_readers (rs_ti s)"
  have len: "length ?rs = maxreaders" "?nr \<le> maxreaders"
    and slot: "\<And>u j. slot_of (rs_thr s u) = Some j \<Longrightarrow> j < ?nr \<and> (rs_thr s u \<noteq> R_claim j \<longrightarrow> mr_pid (?rs ! j) \<noteq> 0)"
    and dist: "\<And>u u' j. slot_of (rs_thr s u) = Some j \<Longrightarrow> slot_of (rs_thr s u') = Some j \<Longrightarrow> u = u'"
    and mutex: "\<And>u j. rs_thr s u \<noteq> R_claim j"
    and stored: "\<And>u j v. stored_as (rs_thr s u) j v \<Longrightarrow> mr_txnid (?rs ! j) = v"
    using inv t(2) unfolding slots_inv_def by auto
  have i: "i = free_slot (take ?nr ?rs)" "i \<noteq> maxreaders"
    and ti: "mti_readers ti = ?rs[i := \<lparr>mr_txnid = - 1, mr_pid = 0, mr_tid = tid\<rparr>]"
      "mti_numreaders ti = (if i = ?nr then ?nr + 1 else ?nr)"
    using c by (auto simp: claim_slot_def Let_def split: if_splits)
  have i_le: "i \<le> ?nr" using free_slot_le [of "take ?nr ?rs"] len i(1) by simp
  have i_free: "i = ?nr \<or> mr_pid (?rs ! i) = 0"
  proof (cases "i < ?nr")
    case True
    then have "mr_pid (take ?nr ?rs ! i) = 0" using free_slot_pid [of "take ?nr ?rs"] i(1) len by simp
    then show ?thesis using True by simp
  next
    case False
    then show ?thesis using i_le by simp
  qed
  have other: "slot_of (rs_thr s u) \<noteq> Some i" for u using slot [of u i] mutex [of u i] i_free by auto
  have lt: "i < maxreaders" using i_le i(2) len(2) by linarith
  show ?thesis unfolding slots_inv_def
  proof (intro conjI allI impI)
    show "mti_numreaders (rs_ti (set_thr t (R_claim i) s\<lparr>rs_ti := ti, rs_rmutex := Some t\<rparr>)) \<le> maxreaders"
      using ti(2) lt len(2) by auto
  next
    fix u j assume u: "slot_of (rs_thr (set_thr t (R_claim i) s\<lparr>rs_ti := ti, rs_rmutex := Some t\<rparr>) u) = Some j"
    show "j < mti_numreaders (rs_ti (set_thr t (R_claim i) s\<lparr>rs_ti := ti, rs_rmutex := Some t\<rparr>))"
      using u slot [of u j] ti(2) i_le by (auto split: if_splits)
    assume "rs_thr (set_thr t (R_claim i) s\<lparr>rs_ti := ti, rs_rmutex := Some t\<rparr>) u \<noteq> R_claim j"
    then show "mr_pid (mti_readers (rs_ti (set_thr t (R_claim i) s\<lparr>rs_ti := ti, rs_rmutex := Some t\<rparr>)) ! j) \<noteq> 0"
      using u slot [of u j] other [of u] mutex [of u j] by (auto simp: ti(1) nth_list_update split: if_splits)
  next
    fix u u' j
    assume "slot_of (rs_thr (set_thr t (R_claim i) s\<lparr>rs_ti := ti, rs_rmutex := Some t\<rparr>) u) = Some j"
      "slot_of (rs_thr (set_thr t (R_claim i) s\<lparr>rs_ti := ti, rs_rmutex := Some t\<rparr>) u') = Some j"
    then show "u = u'" using other [of u] other [of u'] dist [of u j u'] by (auto split: if_splits)
  next
    fix u j v
    assume "stored_as (rs_thr (set_thr t (R_claim i) s\<lparr>rs_ti := ti, rs_rmutex := Some t\<rparr>) u) j v"
    then show "mr_txnid (mti_readers (rs_ti (set_thr t (R_claim i) s\<lparr>rs_ti := ti, rs_rmutex := Some t\<rparr>)) ! j) = v"
      using stored [of u j v] stored_slot [of "rs_thr s u" j v] other [of u]
      by (auto simp: ti(1) nth_list_update split: if_splits)
  qed (use len mutex in \<open>auto simp: ti split: if_splits\<close>)
qed

lemma slots_init: "slots_inv maxreaders (rs_init maxreaders T old)"
  by (simp add: slots_inv_def rs_init_def)

lemma slots_pid: "slots_inv maxreaders s \<Longrightarrow> slot_of (rs_thr s t) = Some i \<Longrightarrow> rs_thr s t \<noteq> R_claim i \<Longrightarrow>
    mr_pid (mti_readers (rs_ti s) ! i) \<noteq> 0"
  unfolding slots_inv_def by blast

lemma slots_stored: "slots_inv maxreaders s \<Longrightarrow> stored_as (rs_thr s t) i v \<Longrightarrow> mr_txnid (mti_readers (rs_ti s) ! i) = v"
  unfolding slots_inv_def by blast

lemma slots_in: "slots_inv maxreaders s \<Longrightarrow> slot_of (rs_thr s t) = Some i \<Longrightarrow> i < mti_numreaders (rs_ti s)"
  unfolding slots_inv_def by blast

lemma slots_step:
  assumes "rstep maxreaders s s'" "slots_inv maxreaders s"
  shows "slots_inv maxreaders s'"
  using assms
proof (induction rule: rstep.induct)
  case (claim s t tid i ti)
  then show ?case by (intro slots_claim)
next
  case (publish s t i pid)
  show ?case
    by (rule slots_keep [of _ s t i "R_slot i" _ "(mti_readers (rs_ti s) ! i)\<lparr>mr_pid := pid\<rparr>"])
      (use publish  in \<open>simp_all add: set_pid_def\<close>)
next
  case (store s t i v)
  show ?case
    by (rule slots_keep [of _ s t i "R_stored i v" _ "(mti_readers (rs_ti s) ! i)\<lparr>mr_txnid := v\<rparr>"])
      (use store slots_pid [OF store(2), of t i] in \<open>simp_all add: set_txnid_def\<close>)
next
  case (finish s t i v d)
  show ?case
    by (rule slots_keep [of _ s t i "R_slot i" _ "(mti_readers (rs_ti s) ! i)\<lparr>mr_txnid := - 1\<rparr>"])
      (use finish slots_pid [OF finish(2), of t i] in \<open>simp_all add: set_txnid_def\<close>)
next
  case (release s t i)
  show ?case
    by (rule slots_keep [of _ s t i R_none _ "(mti_readers (rs_ti s) ! i)\<lparr>mr_pid := 0\<rparr>"])
      (use release  in \<open>simp_all add: set_pid_def\<close>)
next
  case (stale s t i)
  show ?case
    by (rule slots_keep [of _ s t i R_none _ "(mti_readers (rs_ti s) ! i)\<lparr>mr_pid := 0\<rparr>"])
      (use stale  in \<open>simp_all add: set_pid_def\<close>)
next
  case (renew s t i)
  show ?case
    by (rule slots_keep [of _ s t i "R_loop i" _ "mti_readers (rs_ti s) ! i"])
      (use renew slots_pid [OF renew(2), of t i] in \<open>simp_all\<close>)
next
  case (load s t i)
  show ?case
    by (rule slots_keep [of _ s t i "R_read i (mti_txnid (rs_ti s))" _ "mti_readers (rs_ti s) ! i"])
      (use load slots_pid [OF load(2), of t i] in \<open>simp_all\<close>)
next
  case (retry s t i v)
  show ?case
    by (rule slots_keep [of _ s t i "R_loop i" _ "mti_readers (rs_ti s) ! i"])
      (use retry slots_pid [OF retry(3), of t i] in \<open>simp_all\<close>)
next
  case (accept s t i v)
  show ?case
    by (rule slots_keep [of _ s t i "R_check i v" _ "mti_readers (rs_ti s) ! i"])
      (use accept slots_pid [OF accept(3), of t i] slots_stored [OF accept(3), of t i v] in \<open>simp_all\<close>)
next
  case (copy s t i v)
  show ?case
    by (rule slots_keep [of _ s t i "R_live i v (rs_meta s (toggle_of v))" _ "mti_readers (rs_ti s) ! i"])
      (use copy slots_pid [OF copy(2), of t i] slots_stored [OF copy(2), of t i v] in \<open>simp_all\<close>)
qed (simp_all add: slots_inv_def)

section \<open>The registered snapshots\<close>

text \<open>Every number found so far by a scan, from slot \<open>i\<close> up, is a lower bound of the snapshots registered there.\<close>

definition scanned :: "rsys \<Rightarrow> nat \<Rightarrow> u64 \<Rightarrow> bool" where
  "scanned s i old \<longleftrightarrow> (\<forall>u j v. snap (rs_thr s u) = Some (j, v) \<longrightarrow> i \<le> j \<longrightarrow> old \<le> v)"

definition writer_inv :: "rsys \<Rightarrow> bool" where
  "writer_inv s \<longleftrightarrow>
     (let T = mti_txnid (rs_ti s) in
      case rs_w s of
        W_idle \<Rightarrow> True
      | W_run p t \<Rightarrow> t = T + 1 \<and> T < T + 1
      | W_scan p t i old \<Rightarrow> t = T + 1 \<and> T < T + 1 \<and> old \<le> T \<and> scanned s i old
      | W_seen p t i old \<Rightarrow> t = T + 1 \<and> T < T + 1 \<and> old \<le> T \<and> scanned s (Suc i) old
      | W_meta p t \<Rightarrow> t = T + 1 \<and> T < T + 1)"

definition snaps_inv :: "rsys \<Rightarrow> bool" where
  "snaps_inv s \<longleftrightarrow>
     (\<forall>p. rs_pgoldest s p \<le> mti_txnid (rs_ti s)) \<and>
     (\<forall>u i v. snap (rs_thr s u) = Some (i, v) \<longrightarrow> v \<le> mti_txnid (rs_ti s) \<and> (\<forall>p. rs_pgoldest s p \<le> v)) \<and>
     writer_inv s"

lemma snaps_init: "snaps_inv (rs_init maxreaders T old)"
  by (simp add: snaps_inv_def rs_init_def writer_inv_def)

text \<open>A step of a thread that registers nothing keeps the invariant, and so does one that registers the newest.\<close>

lemma snaps_keep:
  assumes "snaps_inv s" "rs_thr s' = (rs_thr s)(t := r)" "mti_txnid (rs_ti s') = mti_txnid (rs_ti s)"
    "rs_w s' = rs_w s" "rs_pgoldest s' = rs_pgoldest s"
    "snap r = None \<or> snap r = snap (rs_thr s t) \<or> (\<exists>i. snap r = Some (i, mti_txnid (rs_ti s)))"
  shows "snaps_inv s'"
proof -
  have snap: "snap (rs_thr s' u) = None \<or> snap (rs_thr s' u) = snap (rs_thr s u) \<or>
      (\<exists>i. snap (rs_thr s' u) = Some (i, mti_txnid (rs_ti s)))" for u
    using assms(2,6) by simp
  have p: "rs_pgoldest s p \<le> mti_txnid (rs_ti s)" for p using assms(1) by (simp add: snaps_inv_def)
  have old: "snap (rs_thr s u) = Some (i, v) \<Longrightarrow> v \<le> mti_txnid (rs_ti s) \<and> (\<forall>p. rs_pgoldest s p \<le> v)" for u i v
    using assms(1) unfolding snaps_inv_def by blast
  have sc: "scanned s' i old" if "scanned s i old" "old \<le> mti_txnid (rs_ti s)" for i old
    unfolding scanned_def
  proof (intro allI impI)
    fix u j v assume "snap (rs_thr s' u) = Some (j, v)" "i \<le> j"
    then show "old \<le> v" using that snap [of u] unfolding scanned_def by fastforce
  qed
  have "writer_inv s" using assms(1) by (simp add: snaps_inv_def)
  then have "writer_inv s'"
    using sc by (auto simp: writer_inv_def Let_def assms(3,4) split: wstate.splits)
  moreover have "v \<le> mti_txnid (rs_ti s') \<and> (\<forall>p. rs_pgoldest s' p \<le> v)"
    if "snap (rs_thr s' u) = Some (i, v)" for u i v
    using that snap [of u] old [of u i v] p by (auto simp: assms(3,5))
  ultimately show ?thesis using p by (auto simp: snaps_inv_def assms(3,5))
qed

lemma less_next: "(x :: u64) < - 2 \<Longrightarrow> x < x + 1"
proof -
  assume x: "x < - 2"
  have "x + 1 \<noteq> 0"
  proof
    assume "x + 1 = 0"
    then have "x = - 1" by (rule eq_neg_iff_add_eq_0 [THEN iffD2])
    then show False using x by simp
  qed
  then show ?thesis using unatSuc [of x] by (simp add: word_less_nat_alt add.commute)
qed

lemma set_txnid_mti [simp]: "mti_txnid (set_txnid i v ti) = mti_txnid ti"
  and set_pid_mti [simp]: "mti_txnid (set_pid i x ti) = mti_txnid ti"
  by (simp_all add: set_txnid_def set_pid_def)

lemma claim_mti: "claim_slot maxreaders tid ti = Inr (i, ti') \<Longrightarrow> mti_txnid ti' = mti_txnid ti"
  by (auto simp: claim_slot_def Let_def split: if_splits)

lemma snaps_step:
  assumes "rstep maxreaders s s'" "slots_inv maxreaders s" "snaps_inv s"
  shows "snaps_inv s'"
  using assms
proof (induction rule: rstep.induct)
  case (claim s t tid i ti)
  show ?case by (rule snaps_keep [of s _ t "R_claim i"]) (use claim in \<open>simp_all add: claim_mti\<close>)
next
  case (publish s t i pid)
  show ?case by (rule snaps_keep [of s _ t "R_slot i"]) (use publish in simp_all)
next
  case (renew s t i)
  show ?case by (rule snaps_keep [of s _ t "R_loop i"]) (use renew in simp_all)
next
  case (load s t i)
  show ?case by (rule snaps_keep [of s _ t "R_read i (mti_txnid (rs_ti s))"]) (use load in simp_all)
next
  case (store s t i v)
  show ?case by (rule snaps_keep [of s _ t "R_stored i v"]) (use store in simp_all)
next
  case (retry s t i v)
  show ?case by (rule snaps_keep [of s _ t "R_loop i"]) (use retry in simp_all)
next
  case (accept s t i v)
  show ?case by (rule snaps_keep [of s _ t "R_check i v"]) (use accept in simp_all)
next
  case (copy s t i v)
  show ?case by (rule snaps_keep [of s _ t "R_live i v (rs_meta s (toggle_of v))"]) (use copy in simp_all)
next
  case (finish s t i v d)
  show ?case by (rule snaps_keep [of s _ t "R_slot i"]) (use finish in simp_all)
next
  case (release s t i)
  show ?case by (rule snaps_keep [of s _ t R_none]) (use release in simp_all)
next
  case (stale s t i)
  show ?case by (rule snaps_keep [of s _ t R_none]) (use stale in simp_all)
next
  case (w_begin s p)
  then show ?case by (simp add: snaps_inv_def writer_inv_def less_next)
next
  case (w_scan s p t)
  have "scanned s (mti_numreaders (rs_ti s)) old" for old
    unfolding scanned_def using slots_in [OF w_scan(2)] snap_slot by fastforce
  then show ?case using w_scan by (simp add: snaps_inv_def writer_inv_def scanned_def Let_def)
next
  case (w_skip s p t i old)
  have "scanned s i old"
    using w_skip(1,4) slots_pid [OF w_skip(3)] w_skip(2) snap_slot
    unfolding scanned_def snaps_inv_def writer_inv_def Let_def by simp (metis Suc_leI le_neq_implies_less)
  then show ?case using w_skip by (simp add: snaps_inv_def writer_inv_def scanned_def Let_def)
next
  case (w_look s p t i old)
  then show ?case by (simp add: snaps_inv_def writer_inv_def scanned_def Let_def)
next
  case (w_take s p t i old)
  have sc: "scanned s (Suc i) old" "old \<le> mti_txnid (rs_ti s)"
    using w_take(1,3) by (simp_all add: snaps_inv_def writer_inv_def Let_def)
  have "older old (mr_txnid (mti_readers (rs_ti s) ! i)) \<le> v"
    if "snap (rs_thr s u) = Some (j, v)" "i \<le> j" for u j v
  proof (cases "j = i")
    case True
    then have "mr_txnid (mti_readers (rs_ti s) ! i) = v"
      using slots_stored [OF w_take(2), of u i v] that(1) by (simp add: stored_as_def)
    then show ?thesis by (auto simp: older_def not_less)
  next
    case False
    then have "old \<le> v" using sc(1) that unfolding scanned_def by (metis Suc_leI le_neq_implies_less)
    then show ?thesis by (auto simp: older_def)
  qed
  moreover have "older old (mr_txnid (mti_readers (rs_ti s) ! i)) \<le> mti_txnid (rs_ti s)"
    using sc(2) by (auto simp: older_def)
  ultimately show ?case using w_take(1,3) by (simp add: snaps_inv_def writer_inv_def scanned_def Let_def)
next
  case (w_done s p t old)
  then show ?case by (auto simp: snaps_inv_def writer_inv_def scanned_def Let_def)
next
  case (w_abort s p t)
  then show ?case by (simp add: snaps_inv_def writer_inv_def)
next
  case (w_meta s p t)
  then show ?case by (simp add: snaps_inv_def writer_inv_def Let_def)
next
  case (w_commit s p t)
  then have "t = mti_txnid (rs_ti s) + 1" "mti_txnid (rs_ti s) < mti_txnid (rs_ti s) + 1"
    by (simp_all add: snaps_inv_def writer_inv_def Let_def)
  then have "x \<le> t" if "x \<le> mti_txnid (rs_ti s)" for x using that by simp
  then show ?case using w_commit(3) by (simp add: snaps_inv_def writer_inv_def Let_def)
qed

section \<open>The meta pages under the readers\<close>

text \<open>The meta page of the newest number holds it, no page holds a later one than the writer has written, and what a
  reader copies from the page of its number is that snapshot or a later one.\<close>

definition newest :: "rsys \<Rightarrow> u64" where
  "newest s = (case rs_w s of W_meta p t \<Rightarrow> t | _ \<Rightarrow> mti_txnid (rs_ti s))"

definition meta_inv :: "rsys \<Rightarrow> bool" where
  "meta_inv s \<longleftrightarrow>
     rs_meta s (toggle_of (mti_txnid (rs_ti s))) = mti_txnid (rs_ti s) \<and>
     rs_meta s (toggle_of (newest s)) = newest s \<and>
     (\<forall>b. rs_meta s b \<le> newest s) \<and>
     (\<forall>u i v. rs_thr s u = R_check i v \<longrightarrow> v \<le> rs_meta s (toggle_of v)) \<and>
     (\<forall>u i v d. rs_thr s u = R_live i v d \<longrightarrow> v \<le> d \<and> d \<le> newest s)"

lemma meta_init: "old \<le> T \<Longrightarrow> meta_inv (rs_init maxreaders T old)"
  by (auto simp: meta_inv_def rs_init_def newest_def)

lemma meta_keep:
  assumes "meta_inv s" "rs_thr s' = (rs_thr s)(t := r)" "mti_txnid (rs_ti s') = mti_txnid (rs_ti s)"
    "rs_w s' = rs_w s" "rs_meta s' = rs_meta s"
    "\<And>i v. r = R_check i v \<Longrightarrow> v \<le> rs_meta s (toggle_of v)"
    "\<And>i v d. r = R_live i v d \<Longrightarrow> v \<le> d \<and> d \<le> newest s"
  shows "meta_inv s'"
proof -
  have n: "newest s' = newest s" unfolding newest_def assms(3,4) by (rule refl)
  show ?thesis using assms(1,6,7) by (auto simp: meta_inv_def assms(2,3,5) n)
qed

lemma meta_step:
  assumes "rstep maxreaders s s'" "snaps_inv s" "meta_inv s"
  shows "meta_inv s'"
  using assms
proof (induction rule: rstep.induct)
  case (claim s t tid i ti)
  show ?case by (rule meta_keep [of s _ t "R_claim i"]) (use claim in \<open>simp_all add: claim_mti\<close>)
next
  case (publish s t i pid)
  show ?case by (rule meta_keep [of s _ t "R_slot i"]) (use publish in simp_all)
next
  case (renew s t i)
  show ?case by (rule meta_keep [of s _ t "R_loop i"]) (use renew in simp_all)
next
  case (load s t i)
  show ?case by (rule meta_keep [of s _ t "R_read i (mti_txnid (rs_ti s))"]) (use load in simp_all)
next
  case (store s t i v)
  show ?case by (rule meta_keep [of s _ t "R_stored i v"]) (use store in simp_all)
next
  case (retry s t i v)
  show ?case by (rule meta_keep [of s _ t "R_loop i"]) (use retry in simp_all)
next
  case (accept s t i v)
  then have "v \<le> rs_meta s (toggle_of v)" by (auto simp: meta_inv_def)
  then show ?case by - (rule meta_keep [of s _ t "R_check i v"]; use accept in simp)
next
  case (copy s t i v)
  then have "v \<le> rs_meta s (toggle_of v)" "rs_meta s (toggle_of v) \<le> newest s" by (auto simp: meta_inv_def)
  then show ?case by - (rule meta_keep [of s _ t "R_live i v (rs_meta s (toggle_of v))"]; use copy in simp)
next
  case (finish s t i v d)
  show ?case by (rule meta_keep [of s _ t "R_slot i"]) (use finish in simp_all)
next
  case (release s t i)
  show ?case by (rule meta_keep [of s _ t R_none]) (use release in simp_all)
next
  case (stale s t i)
  show ?case by (rule meta_keep [of s _ t R_none]) (use stale in simp_all)
next
  case (w_meta s p t)
  have t: "t = mti_txnid (rs_ti s) + 1" "mti_txnid (rs_ti s) < mti_txnid (rs_ti s) + 1"
    using w_meta(1,2) by (simp_all add: snaps_inv_def writer_inv_def Let_def)
  then have "mti_txnid (rs_ti s) + 1 \<noteq> 0" by auto
  then have other: "toggle_of t \<noteq> toggle_of (mti_txnid (rs_ti s))"
    using toggle_next [of "mti_txnid (rs_ti s)"] toggle_less [of "mti_txnid (rs_ti s)"] t(1)
    by (auto simp: less_2_cases_iff)
  have le: "x \<le> t" if "x \<le> mti_txnid (rs_ti s)" for x using that t by simp
  have "newest s = mti_txnid (rs_ti s)" by (simp add: newest_def w_meta(1))
  moreover have "v \<le> t" if "rs_thr s u = R_check i v" for u i v
  proof -
    have "snap (rs_thr s u) = Some (i, v)" using that by simp
    then show ?thesis using w_meta(2) le unfolding snaps_inv_def by blast
  qed
  ultimately show ?case using w_meta(3) other le by (auto simp: meta_inv_def newest_def)
next
  case (w_commit s p t)
  then show ?case by (auto simp: meta_inv_def newest_def)
qed (auto simp: meta_inv_def newest_def)

lemma rreach_inv: "rreach maxreaders s \<Longrightarrow> slots_inv maxreaders s \<and> snaps_inv s \<and> meta_inv s"
  by (induction rule: rreach.induct)
    (auto simp: slots_init snaps_init meta_init intro: slots_step snaps_step meta_step)

text \<open>A scan without interruption is \<open>mdb_find_oldest\<close>; it is below every registered snapshot.\<close>

lemma oldest_loop_le: "oldest_loop rs n old \<le> old"
  by (induction rs n old rule: oldest_loop.induct) (auto simp: older_def intro: order_trans less_imp_le)

lemma oldest_loop_reader:
  "i < n \<Longrightarrow> mr_pid (rs ! i) \<noteq> 0 \<Longrightarrow> oldest_loop rs n old \<le> mr_txnid (rs ! i)"
proof (induction rs n old rule: oldest_loop.induct)
  case (2 rs n old)
  show ?case
  proof (cases "i = n")
    case True
    have "older old (mr_txnid (rs ! n)) \<le> mr_txnid (rs ! n)" by (auto simp: older_def not_less)
    moreover have "oldest_loop rs (Suc n) old = oldest_loop rs n (older old (mr_txnid (rs ! n)))"
      using 2(3) True by simp
    ultimately show ?thesis using oldest_loop_le [of rs n "older old (mr_txnid (rs ! n))"] True order_trans by metis
  next
    case False
    then show ?thesis using 2 by simp
  qed
qed simp

text \<open>C2: In every state that readers and writers reach, whatever the interleaving of their loads and stores, a
  reader in a transaction is protected: its slot is its own, is marked as owned and holds the number it
  registered; the data it copied is of that snapshot or a later one; no process takes a later snapshot for the
  oldest one (\<open>me_pgoldest\<close>), and neither does a scan of the table now.\<close>

theorem reader_protected:
  assumes "rreach maxreaders s" "rs_thr s u = R_live i v d"
  shows "i < mti_numreaders (rs_ti s) \<and> mr_pid (mti_readers (rs_ti s) ! i) \<noteq> 0 \<and>
    mr_txnid (mti_readers (rs_ti s) ! i) = v \<and> (\<forall>u'. slot_of (rs_thr s u') = Some i \<longrightarrow> u' = u) \<and>
    v \<le> d \<and> (\<forall>p. rs_pgoldest s p \<le> v) \<and> (\<forall>t. mdb_find_oldest (Some (rs_ti s)) t \<le> v)"
proof -
  have inv: "slots_inv maxreaders s" "snaps_inv s" "meta_inv s" using rreach_inv [OF assms(1)] by simp_all
  have i: "i < mti_numreaders (rs_ti s)" "mr_pid (mti_readers (rs_ti s) ! i) \<noteq> 0" "mr_txnid (mti_readers (rs_ti s) ! i) = v"
    using slots_in [OF inv(1), of u i] slots_pid [OF inv(1), of u i] slots_stored [OF inv(1), of u i v] assms(2)
    by simp_all
  moreover have "u' = u" if "slot_of (rs_thr s u') = Some i" for u'
    using inv(1) that assms(2) unfolding slots_inv_def by (metis slot_of.simps(8))
  moreover have "snap (rs_thr s u) = Some (i, v)" using assms(2) by simp
  then have "rs_pgoldest s p \<le> v" for p using inv(2) unfolding snaps_inv_def by blast
  moreover have "v \<le> d" using inv(3) assms(2) unfolding meta_inv_def by blast
  moreover have "mdb_find_oldest (Some (rs_ti s)) t \<le> v" for t
    using oldest_loop_reader [OF i(1,2)] i(3) by (simp add: mdb_find_oldest_def)
  ultimately show ?thesis by blast
qed

text \<open>The run of one reader on a table of one slot; \<open>sample_live\<close> is where it ends.\<close>

definition sample_table :: "u64 \<Rightarrow> txninfo" where
  "sample_table v = \<lparr>mti_txnid = 5, mti_numreaders = 1, mti_readers = [\<lparr>mr_txnid = v, mr_pid = 9, mr_tid = 4\<rparr>]\<rparr>"

definition sample_sys :: "txninfo \<Rightarrow> rstate \<Rightarrow> rsys" where
  "sample_sys ti r = \<lparr>rs_ti = ti, rs_rmutex = None, rs_thr = (\<lambda>_. R_none)(0 := r), rs_w = W_idle,
     rs_pgoldest = (\<lambda>_. 0), rs_meta = (\<lambda>_. 4)(1 := 5)\<rparr>"

lemma sample_loop: "rreach 1 (sample_sys (sample_table (- 1)) (R_loop 0))"
proof -
  have "rreach 1 (rs_init 1 5 4)" by (rule rreach.start) simp
  note r = rreach.step [OF this rstep.claim [of _ 0 1 4 0]]
  have "rreach 1 ((rs_init 1 5 4)\<lparr>rs_thr := (\<lambda>_. R_none)(0 := R_claim 0),
      rs_ti := \<lparr>mti_txnid = 5, mti_numreaders = 1, mti_readers = [\<lparr>mr_txnid = - 1, mr_pid = 0, mr_tid = 4\<rparr>]\<rparr>,
      rs_rmutex := Some 0\<rparr>)" (is "rreach 1 ?a")
    using r by (simp add: rs_init_def claim_slot_def)
  from rreach.step [OF this rstep.publish [of ?a 0 0 9 1]]
  have "rreach 1 (sample_sys (sample_table (- 1)) (R_slot 0))"
    by (simp add: rs_init_def sample_sys_def sample_table_def set_pid_def toggle_mod)
  from rreach.step [OF this rstep.renew [of "sample_sys (sample_table (- 1)) (R_slot 0)" 0 0 1]]
  show ?thesis by (simp add: sample_sys_def)
qed

lemma sample_check: "rreach 1 (sample_sys (sample_table 5) (R_check 0 5))"
proof -
  from rreach.step [OF sample_loop rstep.load [of "sample_sys (sample_table (- 1)) (R_loop 0)" 0 0 1]]
  have "rreach 1 (sample_sys (sample_table (- 1)) (R_read 0 5))" by (simp add: sample_sys_def sample_table_def)
  from rreach.step [OF this rstep.store [of "sample_sys (sample_table (- 1)) (R_read 0 5)" 0 0 5 1]]
  have "rreach 1 (sample_sys (sample_table 5) (R_stored 0 5))"
    by (simp add: sample_sys_def sample_table_def set_txnid_def)
  from rreach.step [OF this rstep.accept [of "sample_sys (sample_table 5) (R_stored 0 5)" 0 0 5 1]]
  show ?thesis by (simp add: sample_sys_def sample_table_def)
qed

lemma sample_live: "rreach 1 (sample_sys (sample_table 5) (R_live 0 5 5))"
proof -
  from rreach.step [OF sample_check rstep.copy [of "sample_sys (sample_table 5) (R_check 0 5)" 0 0 5 1]]
  show ?thesis by (simp add: sample_sys_def toggle_mod)
qed

lemma reader_protected_witness:
  "rs_thr (sample_sys (sample_table 5) (R_live 0 5 5)) 0 = R_live 0 5 5 \<and>
   mdb_find_oldest (Some (sample_table 5)) 6 \<le> 5"
  using reader_protected [OF sample_live, of 0 0 5 5] by (simp add: sample_sys_def)

text \<open>The registered number and the data can differ: between the check that ends the loop and the copy of the meta
  page, two commits may write that page, and the reader that has registered snapshot 5 works on snapshot 7.\<close>

lemma commit_reach:
  assumes "rreach maxreaders s" "rs_w s = W_idle" "mti_txnid (rs_ti s) < - 2" "T = mti_txnid (rs_ti s) + 1"
  shows "rreach maxreaders (s\<lparr>rs_meta := (rs_meta s)(toggle_of T := T), rs_ti := (rs_ti s)\<lparr>mti_txnid := T\<rparr>\<rparr>)"
proof -
  have a: "rreach maxreaders (s\<lparr>rs_w := W_run 0 T\<rparr>)"
    using rreach.step [OF assms(1) rstep.w_begin [of s maxreaders 0, OF assms(2,3)]] assms(4) by simp
  have "rreach maxreaders (s\<lparr>rs_w := W_meta 0 T, rs_meta := (rs_meta s)(toggle_of T := T)\<rparr>)"
    using rreach.step [OF a rstep.w_meta [of _ 0 T]] by simp
  from rreach.step [OF this rstep.w_commit [of _ 0 T]]
  have "rreach maxreaders (s\<lparr>rs_meta := (rs_meta s)(toggle_of T := T), rs_w := W_idle,
      rs_ti := (rs_ti s)\<lparr>mti_txnid := T\<rparr>\<rparr>)" by simp
  moreover have "s\<lparr>rs_meta := (rs_meta s)(toggle_of T := T), rs_w := W_idle, rs_ti := (rs_ti s)\<lparr>mti_txnid := T\<rparr>\<rparr>
      = s\<lparr>rs_meta := (rs_meta s)(toggle_of T := T), rs_ti := (rs_ti s)\<lparr>mti_txnid := T\<rparr>\<rparr>"
    by (rule rsys.equality) (simp_all add: assms(2))
  ultimately show ?thesis by simp
qed

lemma reader_data_newer: "\<exists>s. rreach 1 s \<and> rs_thr s 0 = R_live 0 5 7"
proof -
  have idle: "rs_w (sample_sys ti r) = W_idle" for ti r by (simp add: sample_sys_def)
  define s1 where "s1 = (sample_sys (sample_table 5) (R_check 0 5))
    \<lparr>rs_meta := ((\<lambda>_. 4)(1 := 5))(0 := 6), rs_ti := (sample_table 5)\<lparr>mti_txnid := 6\<rparr>\<rparr>"
  define s2 where "s2 = s1\<lparr>rs_meta := (((\<lambda>_. 4)(1 := 5))(0 := 6))(1 := 7), rs_ti := (sample_table 5)\<lparr>mti_txnid := 7\<rparr>\<rparr>"
  have "rreach 1 s1"
    using commit_reach [OF sample_check idle, of 6]
    by (simp add: s1_def sample_sys_def sample_table_def toggle_mod)
  from commit_reach [OF this, of 7] have "rreach 1 s2"
    by (simp add: s2_def s1_def sample_sys_def sample_table_def toggle_mod)
  from rreach.step [OF this rstep.copy [of s2 0 0 5 1]]
  have "rreach 1 (set_thr 0 (R_live 0 5 (rs_meta s2 (toggle_of 5))) s2)"
    by (simp add: s2_def s1_def sample_sys_def)
  moreover have "rs_meta s2 (toggle_of 5) = 7" by (simp add: s2_def toggle_mod)
  ultimately show ?thesis by (intro exI [of _ "set_thr 0 (R_live 0 5 7) s2"]) simp
qed

end
