(* ===== verification/Mdb_Alloc.thy ===== *)
theory Mdb_Alloc
  imports Mdb_Tree Mdb_Readers
begin

text \<open>
  \<open>lmdb/mdb.c\<close>: where the pages of a write transaction come from. \<open>mdb_page_alloc\<close> looks for a run of
  free page numbers in the list \<open>me_pghead\<close>; while it has none it reads records of the free database, which
  say for each past transaction the pages it freed, and merges them into the list, up to the oldest snapshot
  a reader may still use; then it takes pages from the end of the map. The free database is read with the
  cursor of \<open>Mdb_Cursor\<close>, the list kept with the routines of \<open>Midl\<close>, the oldest snapshot found in the table
  of \<open>Mdb_Readers\<close>, and the new page registered with \<open>mdb_page_dirty\<close>.
\<close>

unbundle bit_operations_syntax

definition MDB_MAP_FULL :: int where "MDB_MAP_FULL = - 30792"
definition MDB_TXN_FULL :: int where "MDB_TXN_FULL = - 30788"

section \<open>State\<close>

text \<open>The free pages of the environment, and the list of single pages kept for reuse, as addresses.\<close>

record pgstate =
  me_pghead :: "idl option"
  me_pglast :: u64
  me_pgoldest :: u64
  me_dpages :: "u64 list"

text \<open>What the allocation reads and does not change: the pages of the snapshot; the record of the free database
  in the transaction; the number of the transaction; the table of readers as it is when it is scanned; the
  size of the map in pages; whether it is writable, its address and the page size; and the C library.\<close>

record alloc_ctx =
  ac_sn :: snapshot
  ac_free_db :: MDB_db
  ac_txnid :: u64
  ac_txns :: "txninfo option"
  ac_maxpg :: u64
  ac_writemap :: bool
  ac_map :: u64
  ac_psize :: u64
  ac_al :: allocator
  ac_malloc :: "u64 \<Rightarrow> u64 option"

text \<open>The variables of the loop; \<open>mop\<close> is \<open>me_pghead\<close> all the time.\<close>

record alloc_loop =
  al_env :: pgstate
  al_m2 :: "MDB_cursor option"
  al_last :: u64
  al_oldest :: u64
  al_found_old :: bool
  al_retry :: int
  al_op :: cursor_op

text \<open>How the loop ends: pages found, with the position in the list of the lowest; nothing suitable; an
  error.\<close>

datatype alloc_end = A_found nat u64 | A_new | A_fail int

section \<open>Searching the list\<close>

definition unsigned_of :: "u64 \<Rightarrow> nat" where "unsigned_of w = unat (u32_of_u64 w)"

definition head_len :: "idl option \<Rightarrow> nat option" where
  "head_len head = (case head of None \<Rightarrow> Some 0 | Some mop \<Rightarrow> map_option unsigned_of (ids_rd mop 0))"

text \<open>The loop from the tail, for \<open>n2 + 1\<close> pages in a row.\<close>

function seek_range :: "idl \<Rightarrow> nat \<Rightarrow> nat \<Rightarrow> (nat \<times> u64) option option" where
  "seek_range mop n2 i =
     (if n2 < i
      then do { pgno \<leftarrow> ids_rd mop i;
                up \<leftarrow> ids_rd mop (i - n2);
                if up = pgno + of_nat n2 then Some (Some (i, pgno)) else seek_range mop n2 (i - 1) }
      else Some None)"
  by pat_completeness auto
termination by (relation "measure (\<lambda>(mop, n2, i). i)") auto

declare seek_range.simps [simp del]

text \<open>The numbers taken out of the list: the entries behind them move down.\<close>

function move_down :: "idl \<Rightarrow> nat \<Rightarrow> nat \<Rightarrow> nat \<Rightarrow> idl option" where
  "move_down mop j i len =
     (if j < len
      then do { v \<leftarrow> ids_rd mop (i + 1); mop \<leftarrow> ids_wr mop (j + 1) v; move_down mop (j + 1) (i + 1) len }
      else Some mop)"
  by pat_completeness auto
termination by (relation "measure (\<lambda>(mop, j, i, len). len - j)") auto

declare move_down.simps [simp del]

definition take_range :: "idl \<Rightarrow> nat \<Rightarrow> nat \<Rightarrow> idl option" where
  "take_range mop num i =
     do { len \<leftarrow> map_option unsigned_of (ids_rd mop 0);
          let len = len - num;
          mop \<leftarrow> ids_wr mop 0 (of_nat len);
          move_down mop (i - num) i len }"

section \<open>Reading the free database\<close>

text \<open>A transaction number in a key, and a list of pages in a record. The list starts at its count; nothing
  reads the cell before it, which is the capacity of lists in memory.\<close>

definition key_txnid :: "mval \<Rightarrow> u64 option" where "key_txnid v = map_option of_nat (ld 8 v 0)"

definition words_of :: "mval \<Rightarrow> u64 list" where
  "words_of v = map (\<lambda>k. of_nat (le_val (take 8 (drop (8 * k) v)))) [0..<length v div 8]"

definition record_idl :: "mval \<Rightarrow> idl" where
  "record_idl v = of_nat (length v div 8 - 1) # words_of v"

text \<open>The test against the oldest snapshot in use: the cached number first, the table once.\<close>

definition too_recent :: "alloc_ctx \<Rightarrow> alloc_loop \<Rightarrow> bool \<times> alloc_loop" where
  "too_recent a s =
     (if al_oldest s \<le> al_last s
      then let s = (if al_found_old s then s
                    else let oldest = mdb_find_oldest (ac_txns a) (ac_txnid a)
                         in s\<lparr>al_oldest := oldest, al_env := (al_env s)\<lparr>me_pgoldest := oldest\<rparr>, al_found_old := True\<rparr>)
           in (al_oldest s \<le> al_last s, s)
      else (False, s))"

text \<open>The first round prepares the cursor; the key for \<open>MDB_SET_RANGE\<close> is \<open>last\<close> in memory, after its
  increment.\<close>

definition free_cursor :: "alloc_ctx \<Rightarrow> u32 \<Rightarrow> MDB_cursor option" where
  "free_cursor a flags = mdb_cursor_init (ac_sn a) 0 (ac_free_db a) Cmp_long None False flags"

definition fetch_start :: "alloc_ctx \<Rightarrow> u32 \<Rightarrow> alloc_loop \<Rightarrow> alloc_loop option" where
  "fetch_start a flags s =
     (if al_op s = MDB_FIRST
      then do { c \<leftarrow> free_cursor a flags;
                Some (s\<lparr>al_m2 := Some c, al_last := me_pglast (al_env s), al_oldest := me_pgoldest (al_env s),
                        al_op := if me_pglast (al_env s) \<noteq> 0 then MDB_SET_RANGE else MDB_FIRST\<rparr>) }
      else Some s)"

definition merge_record :: "alloc_ctx \<Rightarrow> u64 \<Rightarrow> mval \<Rightarrow> pgstate \<Rightarrow> (int \<times> pgstate) option" where
  "merge_record a found v env =
     do { let idl = record_idl v;
          n \<leftarrow> ids_rd idl 0;
          (rc, head) \<leftarrow>
            (case me_pghead env of
               None \<Rightarrow> do { r \<leftarrow> mdb_midl_alloc (ac_al a) (sint (u32_of_u64 n));
                          Some (if r = None then ENOMEM else 0, r) }
             | Some mop \<Rightarrow> do { (rc, mop) \<leftarrow> mdb_midl_need (ac_al a) mop (u32_of_u64 n); Some (rc, Some mop) });
          if rc \<noteq> 0 then Some (rc, env\<lparr>me_pghead := head\<rparr>)
          else do { mop \<leftarrow> head; mop \<leftarrow> mdb_midl_xmerge mop idl;
                    Some (0, env\<lparr>me_pghead := Some mop, me_pglast := found\<rparr>) } }"

text \<open>The rest of a round of the loop: \<open>Inl\<close> leaves it.\<close>

definition fetch_rest :: "alloc_ctx \<Rightarrow> alloc_loop \<Rightarrow> (alloc_end \<times> alloc_loop + alloc_loop) option" where
  "fetch_rest a s =
     do { let s = s\<lparr>al_last := al_last s + 1\<rparr>;
          let (stop, s) = too_recent a s;
          if stop then Some (Inl (A_new, s))
          else do {
            m2 \<leftarrow> al_m2 s;
            (rc, m2, key, _) \<leftarrow> mdb_cursor_get (ac_sn a) m2 (le_bytes 8 (unat (al_last s))) None (al_op s);
            if rc \<noteq> 0 then Some (Inl (if rc = MDB_NOTFOUND then A_new else A_fail rc, s))
            else do {
              key \<leftarrow> key; found \<leftarrow> key_txnid key;
              let s = s\<lparr>al_last := found, al_m2 := Some m2\<rparr>;
              let (stop, s) = too_recent a s;
              if stop then Some (Inl (A_new, s))
              else do {
                np \<leftarrow> top_page m2; leaf \<leftarrow> NODEPTR np (top_ki m2);
                (rc, m2, v) \<leftarrow> mdb_node_read (ac_sn a) m2 np leaf;
                if rc \<noteq> 0 then Some (Inl (A_fail rc, s))
                else do {
                  (rc, env) \<leftarrow> merge_record a found v (al_env s);
                  let s = s\<lparr>al_env := env, al_m2 := Some m2\<rparr>;
                  Some (if rc \<noteq> 0 then Inl (A_fail rc, s) else Inr (s\<lparr>al_op := MDB_NEXT\<rparr>)) } } } } }"

definition fetch_round :: "alloc_ctx \<Rightarrow> u32 \<Rightarrow> alloc_loop \<Rightarrow> (alloc_end \<times> alloc_loop + alloc_loop) option" where
  "fetch_round a flags s = do { s \<leftarrow> fetch_start a flags s; fetch_rest a s }"

definition alloc_round :: "alloc_ctx \<Rightarrow> u32 \<Rightarrow> nat \<Rightarrow> alloc_loop \<Rightarrow> (alloc_end \<times> alloc_loop + alloc_loop) option" where
  "alloc_round a flags n2 s =
     do { len \<leftarrow> head_len (me_pghead (al_env s));
          if n2 < len
          then do {
            mop \<leftarrow> me_pghead (al_env s);
            hit \<leftarrow> seek_range mop n2 len;
            case hit of
              Some (i, pgno) \<Rightarrow> Some (Inl (A_found i pgno, s))
            | None \<Rightarrow> let s = s\<lparr>al_retry := al_retry s - 1\<rparr>
                      in if al_retry s < 0 then Some (Inl (A_new, s)) else fetch_round a flags s }
          else fetch_round a flags s }"

partial_function (option) alloc_rounds :: "alloc_ctx \<Rightarrow> u32 \<Rightarrow> nat \<Rightarrow> alloc_loop \<Rightarrow> (alloc_end \<times> alloc_loop) option" where
  "alloc_rounds a flags n2 s =
     do { r \<leftarrow> alloc_round a flags n2 s;
          case r of Inl e \<Rightarrow> Some e | Inr s \<Rightarrow> alloc_rounds a flags n2 s }"

section \<open>Allocating\<close>

text \<open>\<open>mdb_page_malloc\<close>: the address.\<close>

definition mdb_page_malloc :: "alloc_ctx \<Rightarrow> nat \<Rightarrow> txn \<Rightarrow> pgstate \<Rightarrow> u64 option \<times> txn \<times> pgstate" where
  "mdb_page_malloc a num tx env =
     (if num = 1 \<and> me_dpages env \<noteq> []
      then (Some (hd (me_dpages env)), tx, env\<lparr>me_dpages := tl (me_dpages env)\<rparr>)
      else case ac_malloc a (if num = 1 then ac_psize a else ac_psize a * of_nat num) of
             Some np \<Rightarrow> (Some np, tx, env)
           | None \<Rightarrow> (None, tx\<lparr>mt_flags := mt_flags tx OR MDB_TXN_ERROR\<rparr>, env))"

text \<open>What the caller gets: a loose page, at its address, or new pages, with the number of the first and the
  address.\<close>

datatype page_got = Loose_page u64 | New_page u64 u64

definition alloc_fail :: "int \<Rightarrow> txn \<Rightarrow> pgstate \<Rightarrow> int \<times> page_got option \<times> txn \<times> pgstate" where
  "alloc_fail rc tx env = (rc, None, tx\<lparr>mt_flags := mt_flags tx OR MDB_TXN_ERROR\<rparr>, env)"

text \<open>From \<open>search_done\<close> on; no position stands for \<open>i = 0\<close>.\<close>

definition search_done :: "alloc_ctx \<Rightarrow> nat \<Rightarrow> nat option \<Rightarrow> u64 \<Rightarrow> txn \<Rightarrow> pgstate
    \<Rightarrow> (int \<times> page_got option \<times> txn \<times> pgstate) option" where
  "search_done a num i pgno tx env =
     (let (np, tx, env) = (if ac_writemap a then (Some (ac_map a + ac_psize a * pgno), tx, env)
                           else mdb_page_malloc a num tx env)
      in case np of
           None \<Rightarrow> Some (alloc_fail ENOMEM tx env)
         | Some np \<Rightarrow>
             do { (tx, env) \<leftarrow>
                    (case i of
                       None \<Rightarrow> Some (tx\<lparr>mt_next_pgno := pgno + of_nat num\<rparr>, env)
                     | Some i \<Rightarrow> do { mop \<leftarrow> me_pghead env; mop \<leftarrow> take_range mop num i;
                                    Some (tx, env\<lparr>me_pghead := Some mop\<rparr>) });
                  tx \<leftarrow> mdb_page_dirty tx pgno np;
                  Some (0, Some (New_page pgno np), tx, env) })"

definition mdb_page_alloc :: "alloc_ctx \<Rightarrow> nat \<Rightarrow> txn \<Rightarrow> pgstate \<Rightarrow> (int \<times> page_got option \<times> txn \<times> pgstate) option" where
  "mdb_page_alloc a num tx env =
     (if num = 1 \<and> mt_loose_pgs tx \<noteq> []
      then Some (0, Some (Loose_page (hd (mt_loose_pgs tx))),
             tx\<lparr>mt_loose_pgs := tl (mt_loose_pgs tx), mt_loose_count := mt_loose_count tx - 1\<rparr>, env)
      else if mt_dirty_room tx = 0 then Some (alloc_fail MDB_TXN_FULL tx env)
      else do {
        (e, s) \<leftarrow> alloc_rounds a (mt_flags tx) (num - 1)
          \<lparr>al_env = env, al_m2 = None, al_last = 0, al_oldest = 0, al_found_old = False, al_retry = int num * 60,
           al_op = MDB_FIRST\<rparr>;
        case e of
          A_fail rc \<Rightarrow> Some (alloc_fail rc tx (al_env s))
        | A_found i pgno \<Rightarrow> search_done a num (Some i) pgno tx (al_env s)
        | A_new \<Rightarrow>
            let pgno = mt_next_pgno tx
            in if ac_maxpg a \<le> pgno + of_nat num then Some (alloc_fail MDB_MAP_FULL tx (al_env s))
               else search_done a num None pgno tx (al_env s) })"

section \<open>A run in a descending list\<close>

lemma desc_gap:
  "sorted_wrt (>) (xs :: u64 list) \<Longrightarrow> b < length xs \<Longrightarrow> a \<le> b \<Longrightarrow> unat (xs ! b) + (b - a) \<le> unat (xs ! a)"
proof (induction "b - a" arbitrary: a)
  case (Suc d)
  have "xs ! Suc a < xs ! a" using Suc.prems Suc.hyps(2) sorted_wrt_nth_less [OF Suc.prems(1), of a "Suc a"] by simp
  then have "unat (xs ! Suc a) < unat (xs ! a)" by (simp add: word_less_nat_alt)
  moreover have "unat (xs ! b) + (b - Suc a) \<le> unat (xs ! Suc a)" using Suc by simp
  ultimately show ?case using Suc.hyps(2) by simp
qed simp

text \<open>The numbers \<open>pgno\<close>, \<open>pgno + 1\<close>, ... of \<open>num\<close> pages, as a list.\<close>

definition page_run :: "u64 \<Rightarrow> nat \<Rightarrow> u64 list" where "page_run pgno num = map (\<lambda>k. pgno + of_nat k) [0..<num]"

lemma run_in_desc:
  fixes xs :: "u64 list"
  assumes "sorted_wrt (>) xs" "n < i" "i \<le> length xs" "xs ! (i - 1 - n) = xs ! (i - 1) + of_nat n"
  shows "take (n + 1) (drop (i - (n + 1)) xs) = rev (page_run (xs ! (i - 1)) (n + 1))"
proof -
  let ?p = "xs ! (i - 1)"
  have gap: "unat ?p + n \<le> unat (xs ! (i - 1 - n))" using desc_gap [OF assms(1), of "i - 1" "i - 1 - n"] assms(2,3) by simp
  have lt: "unat (xs ! (i - 1 - n)) < 2 ^ LENGTH(64)" by (rule unsigned_less)
  then have sm: "unat ?p + n < 2 ^ LENGTH(64)" using gap by linarith
  have add: "unat (?p + of_nat k) = unat ?p + k" if "k \<le> n" for k
    using that sm by (simp add: unat_word_ariths unat_of_nat)
  have at: "xs ! (i - 1 - k) = ?p + of_nat k" if k: "k \<le> n" for k
  proof -
    have "unat ?p + k \<le> unat (xs ! (i - 1 - k))" using desc_gap [OF assms(1), of "i - 1" "i - 1 - k"] assms(2,3) k by simp
    moreover have "unat (xs ! (i - 1 - k)) + (n - k) \<le> unat (xs ! (i - 1 - n))"
      using desc_gap [OF assms(1), of "i - 1 - k" "i - 1 - n"] assms(2,3) k by simp
    ultimately have "unat (xs ! (i - 1 - k)) = unat (?p + of_nat k)" using add [OF k] add [of n] assms(4) k by simp arith
    then show ?thesis by (simp add: word_unat_eq_iff)
  qed
  show ?thesis
  proof (rule nth_equalityI)
    show "length (take (n + 1) (drop (i - (n + 1)) xs)) = length (rev (page_run ?p (n + 1)))"
      using assms(2,3) by (simp add: page_run_def)
    fix j assume "j < length (take (n + 1) (drop (i - (n + 1)) xs))"
    then have j: "j \<le> n" by simp
    have "take (n + 1) (drop (i - (n + 1)) xs) ! j = xs ! (i - 1 - (n - j))" using j assms(2,3) by simp
    also have "\<dots> = ?p + of_nat (n - j)" using at [of "n - j"] by simp
    also have "of_nat (n - j) = (of_nat ([0..<Suc n] ! (n - j)) :: u64)" by (simp del: upt_Suc)
    finally show "take (n + 1) (drop (i - (n + 1)) xs) ! j = rev (page_run ?p (n + 1)) ! j"
      using j by (simp add: page_run_def rev_nth del: upt_Suc nth_upt of_nat_diff)
  qed
qed

lemma seek_range_spec:
  assumes "idl_wf mop"
  shows "i \<le> idl_cnt mop \<Longrightarrow> \<exists>r. seek_range mop n2 i = Some r
    \<and> (\<forall>j pgno. r = Some (j, pgno) \<longrightarrow> n2 < j \<and> j \<le> i \<and> pgno = idl_items mop ! (j - 1)
        \<and> idl_items mop ! (j - 1 - n2) = pgno + of_nat n2)"
proof (induction i)
  case 0
  then show ?case by (simp add: seek_range.simps [of _ _ 0])
next
  case (Suc i)
  show ?case
  proof (cases "n2 < Suc i")
    case True
    have rd: "ids_rd mop (Suc i) = Some (idl_items mop ! i)" "ids_rd mop (Suc i - n2) = Some (idl_items mop ! (i - n2))"
      using idl_rd(3) [OF assms, of "Suc i"] idl_rd(3) [OF assms, of "Suc i - n2"] Suc.prems True by simp_all
    show ?thesis
    proof (cases "idl_items mop ! (i - n2) = idl_items mop ! i + of_nat n2")
      case True
      then show ?thesis using \<open>n2 < Suc i\<close> rd by (subst seek_range.simps) simp
    next
      case False
      then have "seek_range mop n2 (Suc i) = seek_range mop n2 i" using True rd by (subst seek_range.simps) simp
      then show ?thesis using Suc by auto
    qed
  qed (simp add: seek_range.simps [of _ _ "Suc i"])
qed

lemma move_down_spec:
  "j \<le> i \<Longrightarrow> j \<le> len \<Longrightarrow> i + (len - j) + 2 \<le> length mop \<Longrightarrow>
    move_down mop j i len = Some (take (j + 2) mop @ take (len - j) (drop (i + 2) mop) @ drop (len + 2) mop)"
proof (induction "len - j" arbitrary: mop j i)
  case 0
  then show ?case by (simp add: move_down.simps [of mop j])
next
  case (Suc d)
  have lt: "j < len" "j + 2 < length mop" "i + 2 < length mop" using Suc by simp_all
  define m where "m = mop[j + 2 := mop ! (i + 2)]"
  have "move_down mop j i len = move_down m (j + 1) (i + 1) len"
    using lt by (subst move_down.simps) (simp add: ids_rd_def rd_def ids_wr_def wr_in m_def)
  also have "\<dots> = Some (take (j + 3) m @ take (len - (j + 1)) (drop (i + 3) m) @ drop (len + 2) m)"
    using Suc.hyps(1) [of "j + 1" "i + 1" m] Suc.hyps(2) Suc.prems by (simp add: m_def eval_nat_numeral)
  also have "take (j + 3) m = take (j + 2) mop @ [mop ! (i + 2)]"
    using lt by (simp add: m_def take_Suc_conv_app_nth eval_nat_numeral)
  also have "drop (i + 3) m = drop (i + 3) mop" using Suc.prems by (simp add: m_def)
  also have "drop (len + 2) m = drop (len + 2) mop" using lt by (simp add: m_def)
  also have "(take (j + 2) mop @ [mop ! (i + 2)]) @ take (len - (j + 1)) (drop (i + 3) mop) @ drop (len + 2) mop
      = take (j + 2) mop @ take (len - j) (drop (i + 2) mop) @ drop (len + 2) mop"
    using lt Cons_nth_drop_Suc [of "i + 2" mop, symmetric] Suc_diff_Suc [OF lt(1), symmetric] by (simp add: eval_nat_numeral)
  finally show ?case .
qed

lemma take_range_spec:
  assumes "idl_wf mop" "idl_cnt mop < 2 ^ 32" "num \<le> i" "i \<le> idl_cnt mop"
  shows "\<exists>mop'. take_range mop num i = Some mop' \<and> idl_wf mop'
    \<and> idl_items mop' = take (i - num) (idl_items mop) @ drop i (idl_items mop)"
proof -
  let ?n = "idl_cnt mop - num"
  define m where "m = mop[1 := of_nat ?n :: u64]"
  have len: "2 \<le> length mop" "idl_cnt mop + 2 \<le> length mop" using assms(1) by (auto simp: idl_wf_def)
  have u: "unsigned_of (mop ! 1) = idl_cnt mop"
    using assms(2) by (simp add: unsigned_of_def idl_cnt_def unsigned_ucast_eq take_bit_nat_eq_self)
  let ?r = "take (i - num + 2) m @ take (?n - (i - num)) (drop (i + 2) m) @ drop (?n + 2) m"
  have "move_down m (i - num) i ?n = Some ?r"
    using assms(3,4) len by (intro move_down_spec) (simp_all add: m_def)
  then have t: "take_range mop num i = Some ?r"
    using idl_rd(2) [OF assms(1)] u len by (simp add: take_range_def ids_wr_def wr_in m_def Let_def)
  have c: "idl_cnt ?r = ?n"
    using len assms(2) by (simp add: idl_cnt_def m_def nth_append unat_of_nat)
  have l: "length ?r = length mop" using assms(3,4) len by (simp add: m_def)
  have cap: "idl_cap ?r = idl_cap mop" using len by (simp add: idl_cap_def m_def nth_append)
  have "idl_wf ?r" using assms(1) unfolding idl_wf_def l cap c by linarith
  moreover have "idl_items ?r = take (i - num) (idl_items mop) @ drop i (idl_items mop)"
  proof -
    have "drop 2 ?r = take (i - num) (drop 2 mop) @ take (idl_cnt mop - i) (drop (i + 2) mop) @ drop (?n + 2) mop"
      using len assms(3,4) by (simp add: m_def drop_take)
    then have "idl_items ?r = take ?n (take (i - num) (drop 2 mop) @ take (idl_cnt mop - i) (drop (i + 2) mop) @ drop (?n + 2) mop)"
      by (simp only: idl_items_def c)
    also have "\<dots> = take (i - num) (drop 2 mop) @ take (idl_cnt mop - i) (drop (i + 2) mop)"
      using len assms(3,4) by simp
    also have "\<dots> = take (i - num) (idl_items mop) @ drop i (idl_items mop)"
      using assms(4) by (simp add: idl_items_def drop_take min_def)
    finally show ?thesis .
  qed
  ultimately show ?thesis using t by blast
qed

section \<open>The free database\<close>

text \<open>What a record of the free database says, and when it is in order.\<close>

definition rec_ids :: "mval \<times> mval \<Rightarrow> u64 list" where "rec_ids kv = idl_items (record_idl (snd kv))"

definition rec_ok :: "mval \<times> mval \<Rightarrow> bool" where
  "rec_ok kv \<longleftrightarrow> length (fst kv) = 8 \<and> idl_wf (record_idl (snd kv)) \<and> sorted_wrt (\<ge>) (rec_ids kv)"

definition recs_ids :: "(mval \<times> mval) list \<Rightarrow> u64 list" where "recs_ids kvs = concat (map rec_ids kvs)"

lemma recs_ids_simps [simp]: "recs_ids [] = []" "recs_ids (kv # kvs) = rec_ids kv @ recs_ids kvs"
  by (simp_all add: recs_ids_def)

definition head_has :: "idl option \<Rightarrow> u64 list \<Rightarrow> bool" where
  "head_has head xs \<longleftrightarrow> (case head of None \<Rightarrow> xs = [] | Some ids \<Rightarrow> idl_wf ids \<and> idl_items ids = xs)"

lemma strict_desc: "sorted_wrt (\<ge>) (xs :: u64 list) \<Longrightarrow> distinct xs \<Longrightarrow> sorted_wrt (>) xs"
  by (induction xs) (auto simp: less_le)

lemma merge_record_spec:
  assumes "rec_ok kv" "head_has (me_pghead env) xs" "sorted_wrt (>) xs" "distinct (xs @ rec_ids kv)"
    "length xs + length (rec_ids kv) + 2 < 2 ^ 31"
  shows "\<exists>rc env'. merge_record a found (snd kv) env = Some (rc, env')
    \<and> (if rc = 0
       then \<exists>mop ys. env' = env\<lparr>me_pghead := Some mop, me_pglast := found\<rparr> \<and> head_has (Some mop) ys \<and> sorted_wrt (>) ys
              \<and> mset ys = mset xs + mset (rec_ids kv)
       else rc = ENOMEM \<and> env' = env)"
proof -
  let ?B = "record_idl (snd kv)"
  have B: "idl_wf ?B" "sorted_wrt (\<ge>) (idl_items ?B)" using assms(1) by (simp_all add: rec_ok_def rec_ids_def)
  have n: "idl_cnt ?B = length (rec_ids kv)" using idl_wf_length [OF B(1)] by (simp add: rec_ids_def)
  then have un: "unat (u32_of_u64 (?B ! 1)) = length (rec_ids kv)"
    using assms(5) unat_u32_of_u64 [of "?B ! 1"] by (simp add: idl_cnt_def)
  have A: "sorted_wrt (\<ge>) xs" using assms(3) by (rule sorted_wrt_mono_rel [rotated]) simp
  have sn: "sint (u32_of_u64 (?B ! 1)) = int (length (rec_ids kv))"
  proof -
    have "sint (u32_of_u64 (?B ! 1)) = int (unat (u32_of_u64 (?B ! 1)))" by (rule sint_small) (use un assms(5) in simp)
    then show ?thesis by (simp only: un)
  qed
  have merged: "\<exists>mop' ys. mdb_midl_xmerge mop ?B = Some mop' \<and> head_has (Some mop') ys \<and> sorted_wrt (>) ys
      \<and> mset ys = mset xs + mset (rec_ids kv)"
    if mop: "idl_wf mop" "idl_items mop = xs" "idl_cnt mop + length (rec_ids kv) \<le> idl_cap mop" for mop
  proof -
    have "sorted_wrt (\<ge>) (idl_items mop)" "idl_cnt mop + idl_cnt ?B \<le> idl_cap mop" using A mop(2,3) n by simp_all
    from mdb_midl_xmerge_merges [OF mop(1) this(1) B this(2)] obtain mop' where m: "mdb_midl_xmerge mop ?B = Some mop'"
      "idl_wf mop'" "sorted_wrt (\<ge>) (idl_items mop')" "mset (idl_items mop') = mset xs + mset (rec_ids kv)"
      using mop(2) by (auto simp: rec_ids_def)
    have "distinct (idl_items mop')" using m(4) assms(4) mset_eq_imp_distinct_iff [of "idl_items mop'" "xs @ rec_ids kv"] by simp
    from strict_desc [OF m(3) this] show ?thesis using m by (auto simp: head_has_def)
  qed
  show ?thesis
  proof (cases "me_pghead env")
    case None
    then have xs: "xs = []" using assms(2) by (simp add: head_has_def)
    have "length (rec_ids kv) + 2 < 2 ^ 31" using assms(5) by simp
    from mdb_midl_alloc_cases [OF this, of "ac_al a"] show ?thesis
    proof
      assume "mdb_midl_alloc (ac_al a) (int (length (rec_ids kv))) = Some None"
      then have "merge_record a found (snd kv) env = Some (ENOMEM, env)"
        using None idl_rd(2) [OF B(1)] sn by (simp add: merge_record_def ENOMEM_def)
      then show ?thesis by (simp add: ENOMEM_def)
    next
      assume "\<exists>mem. mdb_midl_alloc (ac_al a) (int (length (rec_ids kv))) = Some (Some mem) \<and> idl_wf mem \<and> idl_items mem = []
        \<and> idl_cap mem = length (rec_ids kv)"
      then obtain mem where mem: "mdb_midl_alloc (ac_al a) (int (length (rec_ids kv))) = Some (Some mem)" "idl_wf mem"
        "idl_items mem = xs" "idl_cap mem = length (rec_ids kv)" using xs by auto
      have "idl_cnt mem = 0" using idl_wf_length [OF mem(2)] mem(3) xs by simp
      with merged [OF mem(2,3)] mem(4) obtain mop' ys where m: "mdb_midl_xmerge mem ?B = Some mop'" "head_has (Some mop') ys"
        "sorted_wrt (>) ys" "mset ys = mset xs + mset (rec_ids kv)" by auto
      have "merge_record a found (snd kv) env = Some (0, env\<lparr>me_pghead := Some mop', me_pglast := found\<rparr>)"
        using None idl_rd(2) [OF B(1)] sn mem(1) m(1) by (simp add: merge_record_def)
      then show ?thesis using m by auto
    qed
  next
    case (Some mop)
    have mop: "idl_wf mop" "idl_items mop = xs" using assms(2) Some by (simp_all add: head_has_def)
    have "idl_cnt mop + unat (u32_of_u64 (?B ! 1)) < 2 ^ 31" using assms(5) un mop idl_wf_length [OF mop(1)] by simp
    from mdb_midl_need_cases [OF mop(1) this, of "ac_al a"] show ?thesis
    proof cases
      case 1
      then have "merge_record a found (snd kv) env = Some (ENOMEM, env)"
        using Some idl_rd(2) [OF B(1)] by (simp add: merge_record_def ENOMEM_def)
      then show ?thesis by (simp add: ENOMEM_def)
    next
      case (2 mem')
      have "idl_items mem' = xs" "idl_cnt mem' + length (rec_ids kv) \<le> idl_cap mem'"
        using 2 mop un idl_wf_length [OF mop(1)] idl_wf_length [OF 2(2)] by simp_all
      with merged [OF 2(2)] obtain mop' ys where m: "mdb_midl_xmerge mem' ?B = Some mop'" "head_has (Some mop') ys"
        "sorted_wrt (>) ys" "mset ys = mset xs + mset (rec_ids kv)" by auto
      have "merge_record a found (snd kv) env = Some (0, env\<lparr>me_pghead := Some mop', me_pglast := found\<rparr>)"
        using Some idl_rd(2) [OF B(1)] 2(1) m(1) by (simp add: merge_record_def)
      then show ?thesis using m by auto
    qed
  qed
qed

section \<open>The loop\<close>

abbreviation oldest_of :: "alloc_ctx \<Rightarrow> u64" where "oldest_of a \<equiv> mdb_find_oldest (ac_txns a) (ac_txnid a)"

lemma too_recent_spec:
  assumes "too_recent a s = (stop, s')" "al_oldest s \<le> oldest_of a" "me_pgoldest (al_env s) \<le> oldest_of a"
  shows "\<exists>o1 o2 b. s' = s\<lparr>al_oldest := o1, al_env := (al_env s)\<lparr>me_pgoldest := o2\<rparr>, al_found_old := b\<rparr>
    \<and> o1 \<le> oldest_of a \<and> o2 \<le> oldest_of a" "\<not> stop \<Longrightarrow> al_last s' < al_oldest s'" 
proof -
  let ?s = "\<lambda>o1 o2 b. s\<lparr>al_oldest := o1, al_env := (al_env s)\<lparr>me_pgoldest := o2\<rparr>, al_found_old := b\<rparr>"
  have "s = ?s (al_oldest s) (me_pgoldest (al_env s)) (al_found_old s)" by simp
  moreover have "s' = s \<or> s' = ?s (oldest_of a) (oldest_of a) True"
    using assms(1) by (auto simp: too_recent_def Let_def split: if_splits)
  ultimately show "\<exists>o1 o2 b. s' = s\<lparr>al_oldest := o1, al_env := (al_env s)\<lparr>me_pgoldest := o2\<rparr>, al_found_old := b\<rparr>
    \<and> o1 \<le> oldest_of a \<and> o2 \<le> oldest_of a"
    using assms(2,3) order_refl by metis
  show "\<not> stop \<Longrightarrow> al_last s' < al_oldest s'"
    using assms(1) by (auto simp: too_recent_def Let_def not_le split: if_splits)
qed

text \<open>What holds at the head of the loop: \<open>xs\<close> are the free pages known, \<open>todo\<close> the records still to be read.\<close>

definition pages_inv :: "alloc_ctx \<Rightarrow> u64 list \<Rightarrow> u64 list \<Rightarrow> (mval \<times> mval) list \<Rightarrow> pgstate \<Rightarrow> bool" where
  "pages_inv a pool xs todo env \<longleftrightarrow>
     head_has (me_pghead env) xs \<and> sorted_wrt (>) xs \<and> distinct (xs @ recs_ids todo) \<and> (\<forall>kv \<in> set todo. rec_ok kv)
     \<and> length (xs @ recs_ids todo) + 2 < 2 ^ 31 \<and> me_dpages env = pool \<and> me_pgoldest env \<le> oldest_of a"

text \<open>What holds when it has ended: a run of records has been merged, all older than the oldest snapshot.\<close>

definition end_ok :: "alloc_end \<Rightarrow> nat \<Rightarrow> u64 list \<Rightarrow> bool" where
  "end_ok e n2 ys \<longleftrightarrow>
     (case e of
        A_found i pgno \<Rightarrow> n2 < i \<and> i \<le> length ys \<and> ys ! (i - 1) = pgno \<and> ys ! (i - 1 - n2) = pgno + of_nat n2
      | A_new \<Rightarrow> True
      | A_fail rc \<Rightarrow> rc = ENOMEM)"

definition merged_ok :: "alloc_ctx \<Rightarrow> u64 list \<Rightarrow> u64 list \<Rightarrow> (mval \<times> mval) list \<Rightarrow> (mval \<times> mval) list \<Rightarrow> u64 list \<Rightarrow> pgstate \<Rightarrow> bool" where
  "merged_ok a pool xs todo ms ys env \<longleftrightarrow>
     (\<exists>rest. todo = ms @ rest \<and> pages_inv a pool ys rest env)
     \<and> (\<forall>kv \<in> set ms. le_val (fst kv) < unat (oldest_of a)) \<and> mset ys = mset xs + mset (recs_ids ms)"

lemma merged_none: "pages_inv a pool xs todo env \<Longrightarrow> merged_ok a pool xs todo [] xs env"
  by (simp add: merged_ok_def)

lemma fetch_rest_spec:
  assumes "al_m2 s = Some c" "mdb_cursor_get (ac_sn a) c (le_bytes 8 (unat (al_last s + 1))) None (al_op s) = Some r"
    "todo \<noteq> [] \<Longrightarrow> tree_in (ac_sn a) h t" "h < CURSOR_STACK"
    "next_answer (ac_sn a) False t c todo r" "pages_inv a pool xs todo (al_env s)" "al_oldest s \<le> oldest_of a"
  shows "\<exists>q. fetch_rest a s = Some q \<and>
    (case q of
       Inl (e, s') \<Rightarrow> pages_inv a pool xs todo (al_env s') \<and> (e = A_new \<or> e = A_fail ENOMEM)
     | Inr s' \<Rightarrow> \<exists>kv rest c' ys. todo = kv # rest \<and> al_m2 s' = Some c' \<and> same_db c c' \<and> at_item (ac_sn a) c' t kv rest
         \<and> al_op s' = MDB_NEXT \<and> pages_inv a pool ys rest (al_env s') \<and> al_oldest s' \<le> oldest_of a
         \<and> mset ys = mset xs + mset (rec_ids kv) \<and> le_val (fst kv) < unat (oldest_of a))"
proof -
  have po: "me_pgoldest (al_env s) \<le> oldest_of a" using assms(6) by (simp add: pages_inv_def)
  define s0 where "s0 = s\<lparr>al_last := al_last s + 1\<rparr>"
  obtain stop1 s1 where t1: "too_recent a s0 = (stop1, s1)" by fastforce
  have s0: "al_oldest s0 \<le> oldest_of a" "me_pgoldest (al_env s0) \<le> oldest_of a" using assms(7) po by (simp_all add: s0_def)
  obtain o1 o2 b where s1: "s1 = s0\<lparr>al_oldest := o1, al_env := (al_env s0)\<lparr>me_pgoldest := o2\<rparr>, al_found_old := b\<rparr>"
    "o1 \<le> oldest_of a" "o2 \<le> oldest_of a"
    using too_recent_spec(1) [OF t1 s0] by blast
  have inv1: "pages_inv a pool xs todo (al_env s1)" using assms(6) s1 by (simp add: pages_inv_def s0_def)
  obtain rc c' it where r: "r = (rc, c', it)" by (cases r)
  show ?thesis
  proof (cases stop1)
    case True
    then show ?thesis using t1 inv1 by (simp add: fetch_rest_def s0_def [symmetric] Let_def)
  next
    case go: False
    have get: "mdb_cursor_get (ac_sn a) c (le_bytes 8 (unat (al_last s1))) None (al_op s1) = Some r" "al_m2 s1 = Some c"
      using assms(1,2) s1(1) by (simp_all add: s0_def)
    show ?thesis
    proof (cases todo)
      case Nil
      then have "rc = MDB_NOTFOUND" using assms(5) by (simp add: next_answer_def r)
      then show ?thesis
        using go t1 inv1 get r by (simp add: fetch_rest_def s0_def [symmetric] Let_def MDB_NOTFOUND_def)
    next
      case (Cons kv rest)
      have n: "rc = 0" "it = (Some (fst kv), None)" "at_item (ac_sn a) c' t kv rest" "same_db c c'"
        using assms(5) Cons by (cases kv; simp add: next_answer_def r)+
      have inv: "rec_ok kv" "head_has (me_pghead (al_env s1)) xs" "sorted_wrt (>) xs" "distinct (xs @ rec_ids kv)"
        "length xs + length (rec_ids kv) + 2 < 2 ^ 31"
        using inv1 Cons by (auto simp: pages_inv_def)
      define tid where "tid = (of_nat (le_val (fst kv)) :: u64)"
      have k: "length (fst kv) = 8" using inv(1) by (simp add: rec_ok_def)
      have idn: "unat tid = le_val (fst kv)" using le_val_less [of "fst kv"] k by (simp add: tid_def unat_of_nat)
      have key: "key_txnid (fst kv) = Some tid" using k by (simp add: key_txnid_def ld_def tid_def)
      obtain js p where at: "cursor_on c' t js" "sub_at t js = Leaf p" "top_ki c' < pg_cnt p"
        "leaf_items (ac_sn a) p ! top_ki c' = kv"
        using n(3) by (auto simp: at_item_def)
      have "tree_in (ac_sn a) h t" using assms(3) Cons by simp
      note l = leaf_at [OF this assms(4) at(1,2)]
      have w: "page_wf p" using l(1) by (simp add: leaf_ok_def)
      have node: "NODEPTR p (top_ki c') = Some (pg_ptr p (top_ki c'))"
        "mdb_node_read (ac_sn a) c' p (pg_ptr p (top_ki c')) = Some (0, c', snd kv)"
        using NODEPTR_eq [OF w at(3)] node_read_leaf(1) [OF l(1) at(3)] at(4) by simp_all
      define s2 where "s2 = s1\<lparr>al_last := tid, al_m2 := Some c'\<rparr>"
      obtain stop3 s3 where t3: "too_recent a s2 = (stop3, s3)" by fastforce
      have s2: "al_oldest s2 \<le> oldest_of a" "me_pgoldest (al_env s2) \<le> oldest_of a" using s1 by (simp_all add: s2_def)
      obtain o3 o4 b3 where s3: "s3 = s2\<lparr>al_oldest := o3, al_env := (al_env s2)\<lparr>me_pgoldest := o4\<rparr>, al_found_old := b3\<rparr>"
        "o3 \<le> oldest_of a" "o4 \<le> oldest_of a"
        using too_recent_spec(1) [OF t3 s2] by blast
      have inv3: "pages_inv a pool xs todo (al_env s3)" using inv1 s3 by (simp add: pages_inv_def s2_def)
      show ?thesis
      proof (cases stop3)
        case True
        then show ?thesis
          using go t1 inv3 get r n key t3 by (simp add: fetch_rest_def s0_def [symmetric] s2_def [symmetric] Let_def)
      next
        case go3: False
        have "al_last s3 < al_oldest s3" using too_recent_spec(2) [OF t3 s2] go3 by simp
        then have "tid < oldest_of a" using s3(1,2) by (simp add: s2_def)
        then have old: "le_val (fst kv) < unat (oldest_of a)" using idn by (simp add: word_less_nat_alt)
        have h3: "head_has (me_pghead (al_env s3)) xs" using inv3 by (simp add: pages_inv_def)
        obtain rc' env' where m: "merge_record a tid (snd kv) (al_env s3) = Some (rc', env')"
          "if rc' = 0
           then \<exists>mop ys. env' = (al_env s3)\<lparr>me_pghead := Some mop, me_pglast := tid\<rparr> \<and> head_has (Some mop) ys \<and> sorted_wrt (>) ys
              \<and> mset ys = mset xs + mset (rec_ids kv)
           else rc' = ENOMEM \<and> env' = al_env s3"
          using merge_record_spec [OF inv(1) h3 inv(3-5), of a tid] by blast
        have step: "fetch_rest a s = Some (if rc' \<noteq> 0 then Inl (A_fail rc', s3\<lparr>al_env := env', al_m2 := Some c'\<rparr>)
            else Inr (s3\<lparr>al_env := env', al_m2 := Some c', al_op := MDB_NEXT\<rparr>))"
          using go t1 get r n key t3 go3 l(2) node m(1)
          by (simp add: fetch_rest_def s0_def [symmetric] s2_def [symmetric] Let_def)
        show ?thesis
        proof (cases "rc' = 0")
          case False
          then show ?thesis using step m(2) inv3 by simp
        next
          case True
          then obtain mop ys where ys: "env' = (al_env s3)\<lparr>me_pghead := Some mop, me_pglast := tid\<rparr>" "head_has (Some mop) ys"
            "sorted_wrt (>) ys" "mset ys = mset xs + mset (rec_ids kv)"
            using m(2) by auto
          have "mset (ys @ recs_ids rest) = mset (xs @ recs_ids todo)" using ys(4) Cons by simp
          then have "distinct (ys @ recs_ids rest)" "length (ys @ recs_ids rest) = length (xs @ recs_ids todo)"
            using inv1 mset_eq_imp_distinct_iff [of "ys @ recs_ids rest"] mset_eq_length [of "ys @ recs_ids rest"]
            unfolding pages_inv_def by blast+
          then have "pages_inv a pool ys rest env'" using inv3 ys Cons by (simp add: pages_inv_def)
          then show ?thesis using step True n(3,4) s3(1,2) ys(4) old Cons by simp blast
        qed
      qed
    qed
  qed
qed

text \<open>The records the first call looks at: all of them, or those behind the last one merged.\<close>

definition todo_recs :: "u64 \<Rightarrow> (mval \<times> mval) list \<Rightarrow> (mval \<times> mval) list" where
  "todo_recs lst items = (if lst = 0 then items else dropWhile (\<lambda>kv. le_val (fst kv) < unat (lst + 1)) items)"

text \<open>A round that reads: the cursor answers with the next record.\<close>

definition cursor_ready :: "alloc_ctx \<Rightarrow> u32 \<Rightarrow> tree \<Rightarrow> (mval \<times> mval) list \<Rightarrow> alloc_loop \<Rightarrow> bool" where
  "cursor_ready a flags t todo s \<longleftrightarrow>
     (\<exists>s1 c r. fetch_start a flags s = Some s1 \<and> al_env s1 = al_env s \<and> al_m2 s1 = Some c \<and> al_oldest s1 \<le> oldest_of a
        \<and> mdb_cursor_get (ac_sn a) c (le_bytes 8 (unat (al_last s1 + 1))) None (al_op s1) = Some r
        \<and> next_answer (ac_sn a) False t c todo r
        \<and> mc_db c = ac_free_db a \<and> mc_txn_flags c = flags)"

lemma ready_next:
  assumes "tree_in (ac_sn a) h t" "h < CURSOR_STACK" "md_flags (ac_free_db a) AND MDB_DUPSORT = 0" "flags AND TXN_BLOCKED = 0"
    "al_op s = MDB_NEXT" "al_m2 s = Some c" "al_oldest s \<le> oldest_of a" "at_item (ac_sn a) c t kv rest"
    "mc_db c = ac_free_db a" "mc_txn_flags c = flags"
  shows "cursor_ready a flags t rest s"
proof -
  obtain r where r: "mdb_cursor_next (ac_sn a) False MDB_NEXT c = Some r" "next_answer (ac_sn a) False t c rest r"
    using cursor_next_spec [OF assms(1,2,8), of False] assms(3,9) by auto
  obtain rc c' it where rr: "r = (rc, c', it)" by (cases r)
  have "\<not> mc_del c'" using r(2) assms(8) by (simp add: rr next_answer_def same_db_def at_item_def)
  then have "mdb_cursor_get (ac_sn a) c key None MDB_NEXT = Some r" for key
    using r(1) assms(4,10) by (simp add: mdb_cursor_get_def rr)
  then show ?thesis using assms r(2) unfolding cursor_ready_def
    by (intro exI [of _ s] exI [of _ c] exI [of _ r]) (simp add: fetch_start_def)
qed

lemma cursor_ready_retry: "cursor_ready a flags t todo s \<Longrightarrow> cursor_ready a flags t todo (s\<lparr>al_retry := x\<rparr>)"
  unfolding cursor_ready_def
proof (elim exE conjE)
  fix s1 c r
  assume a: "fetch_start a flags s = Some s1" "al_env s1 = al_env s" "al_m2 s1 = Some c" "al_oldest s1 \<le> oldest_of a"
    "mdb_cursor_get (ac_sn a) c (le_bytes 8 (unat (al_last s1 + 1))) None (al_op s1) = Some r"
    "next_answer (ac_sn a) False t c todo r" "mc_db c = ac_free_db a" "mc_txn_flags c = flags"
  have "fetch_start a flags (s\<lparr>al_retry := x\<rparr>) = Some (s1\<lparr>al_retry := x\<rparr>)"
    using a(1) by (auto simp: fetch_start_def split: if_splits Option.bind_splits)
  then show "\<exists>s1 c r. fetch_start a flags (s\<lparr>al_retry := x\<rparr>) = Some s1 \<and> al_env s1 = al_env (s\<lparr>al_retry := x\<rparr>) \<and> al_m2 s1 = Some c
      \<and> al_oldest s1 \<le> oldest_of a
      \<and> mdb_cursor_get (ac_sn a) c (le_bytes 8 (unat (al_last s1 + 1))) None (al_op s1) = Some r
      \<and> next_answer (ac_sn a) False t c todo r \<and> mc_db c = ac_free_db a \<and> mc_txn_flags c = flags"
    using a(2-) by (intro exI [of _ "s1\<lparr>al_retry := x\<rparr>"] exI [of _ c] exI [of _ r]) simp
qed

lemma head_len_has:
  assumes "head_has head xs" "length xs < 2 ^ 32"
  shows "head_len head = Some (length xs)"
proof (cases head)
  case (Some mop)
  have "idl_wf mop" "idl_cnt mop = length xs" using assms(1) Some idl_wf_length [of mop] by (auto simp: head_has_def)
  then show ?thesis
    using assms(2) Some idl_rd(2) [of mop] unat_u32_of_u64 [of "mop ! 1"] by (simp add: head_len_def unsigned_of_def idl_cnt_def)
qed (use assms in \<open>simp add: head_has_def head_len_def\<close>)

text \<open>A round: it ends the loop, or one more record has been merged.\<close>

definition round_ok :: "alloc_ctx \<Rightarrow> u32 \<Rightarrow> tree \<Rightarrow> u64 list \<Rightarrow> nat \<Rightarrow> u64 list \<Rightarrow> (mval \<times> mval) list
    \<Rightarrow> alloc_end \<times> alloc_loop + alloc_loop \<Rightarrow> bool" where
  "round_ok a flags t pool n2 xs todo q \<longleftrightarrow>
     (case q of
        Inl (e, s') \<Rightarrow> pages_inv a pool xs todo (al_env s') \<and> end_ok e n2 xs
      | Inr s' \<Rightarrow> \<exists>kv rest ys. todo = kv # rest \<and> cursor_ready a flags t rest s' \<and> pages_inv a pool ys rest (al_env s')
          \<and> mset ys = mset xs + mset (rec_ids kv) \<and> le_val (fst kv) < unat (oldest_of a))"

lemma fetch_round_ok:
  assumes "todo \<noteq> [] \<Longrightarrow> tree_in (ac_sn a) h t" "h < CURSOR_STACK" "md_flags (ac_free_db a) AND MDB_DUPSORT = 0" "flags AND TXN_BLOCKED = 0"
    "cursor_ready a flags t todo s" "pages_inv a pool xs todo (al_env s)"
  shows "\<exists>q. fetch_round a flags s = Some q \<and> round_ok a flags t pool n2 xs todo q"
proof -
  obtain s1 c r where s1: "fetch_start a flags s = Some s1" "al_env s1 = al_env s" "al_m2 s1 = Some c" "al_oldest s1 \<le> oldest_of a"
    "mdb_cursor_get (ac_sn a) c (le_bytes 8 (unat (al_last s1 + 1))) None (al_op s1) = Some r"
    "next_answer (ac_sn a) False t c todo r" "mc_db c = ac_free_db a" "mc_txn_flags c = flags"
    using assms(5) unfolding cursor_ready_def by blast
  obtain q where q: "fetch_rest a s1 = Some q"
    "case q of
       Inl (e, s') \<Rightarrow> pages_inv a pool xs todo (al_env s') \<and> (e = A_new \<or> e = A_fail ENOMEM)
     | Inr s' \<Rightarrow> \<exists>kv rest c' ys. todo = kv # rest \<and> al_m2 s' = Some c' \<and> same_db c c' \<and> at_item (ac_sn a) c' t kv rest
         \<and> al_op s' = MDB_NEXT \<and> pages_inv a pool ys rest (al_env s') \<and> al_oldest s' \<le> oldest_of a
         \<and> mset ys = mset xs + mset (rec_ids kv) \<and> le_val (fst kv) < unat (oldest_of a)"
    using fetch_rest_spec [OF s1(3,5) assms(1,2) s1(6) _ s1(4), of pool xs] assms(6) s1(2) by auto
  have "round_ok a flags t pool n2 xs todo q"
  proof (cases q)
    case (Inl es)
    then show ?thesis using q(2) by (cases es) (auto simp: round_ok_def end_ok_def)
  next
    case (Inr s')
    then obtain kv rest c' ys where n: "todo = kv # rest" "al_m2 s' = Some c'" "same_db c c'" "at_item (ac_sn a) c' t kv rest"
      "al_op s' = MDB_NEXT" "pages_inv a pool ys rest (al_env s')" "al_oldest s' \<le> oldest_of a"
      "mset ys = mset xs + mset (rec_ids kv)" "le_val (fst kv) < unat (oldest_of a)"
      using q(2) by auto
    have "mc_db c' = ac_free_db a" "mc_txn_flags c' = flags" using n(3) s1(7,8) by (simp_all add: same_db_def)
    then have "cursor_ready a flags t rest s'" using ready_next [OF assms(1) assms(2-4) n(5,2,7,4)] n(1) by simp
    then show ?thesis using Inr n unfolding round_ok_def by auto
  qed
  then show ?thesis using s1(1) q(1) by (simp add: fetch_round_def)
qed

lemma alloc_round_ok:
  assumes "todo \<noteq> [] \<Longrightarrow> tree_in (ac_sn a) h t" "h < CURSOR_STACK" "md_flags (ac_free_db a) AND MDB_DUPSORT = 0" "flags AND TXN_BLOCKED = 0"
    "cursor_ready a flags t todo s" "pages_inv a pool xs todo (al_env s)"
  shows "\<exists>q. alloc_round a flags n2 s = Some q \<and> round_ok a flags t pool n2 xs todo q"
proof -
  have inv: "head_has (me_pghead (al_env s)) xs" "length xs < 2 ^ 32" using assms(6) by (simp_all add: pages_inv_def)
  note len = head_len_has [OF inv]
  show ?thesis
  proof (cases "n2 < length xs")
    case False
    then show ?thesis using fetch_round_ok [OF assms] len by (simp add: alloc_round_def)
  next
    case True
    then obtain mop where mop: "me_pghead (al_env s) = Some mop" "idl_wf mop" "idl_items mop = xs"
      using inv(1) by (cases "me_pghead (al_env s)") (auto simp: head_has_def)
    have "length xs \<le> idl_cnt mop" using idl_wf_length [OF mop(2)] mop(3) by simp
    from seek_range_spec [OF mop(2) this, of n2] obtain hit where hit: "seek_range mop n2 (length xs) = Some hit"
      "\<And>j pgno. hit = Some (j, pgno) \<Longrightarrow> n2 < j \<and> j \<le> length xs \<and> pgno = xs ! (j - 1) \<and> xs ! (j - 1 - n2) = pgno + of_nat n2"
      using mop(3) by auto
    show ?thesis
    proof (cases hit)
      case (Some jp)
      then obtain j pgno where jp: "hit = Some (j, pgno)" by (cases jp) simp
      then have "round_ok a flags t pool n2 xs todo (Inl (A_found j pgno, s))"
        using hit(2) [OF jp] assms(6) by (simp add: round_ok_def end_ok_def)
      then show ?thesis using True len mop(1) hit(1) jp by (simp add: alloc_round_def)
    next
      case None
      define s' where "s' = s\<lparr>al_retry := al_retry s - 1\<rparr>"
      have s': "cursor_ready a flags t todo s'" "pages_inv a pool xs todo (al_env s')"
        using cursor_ready_retry [OF assms(5)] assms(6) by (simp_all add: s'_def)
      have "alloc_round a flags n2 s = (if al_retry s' < 0 then Some (Inl (A_new, s')) else fetch_round a flags s')"
        using True len mop(1) hit(1) None by (simp add: alloc_round_def s'_def Let_def)
      moreover have "round_ok a flags t pool n2 xs todo (Inl (A_new, s'))" using s'(2) by (simp add: round_ok_def end_ok_def)
      ultimately show ?thesis using fetch_round_ok [OF assms(1-4) s', of n2] by auto
    qed
  qed
qed

lemma alloc_rounds_spec:
  assumes "h < CURSOR_STACK" "md_flags (ac_free_db a) AND MDB_DUPSORT = 0" "flags AND TXN_BLOCKED = 0"
  shows "(todo \<noteq> [] \<Longrightarrow> tree_in (ac_sn a) h t) \<Longrightarrow> cursor_ready a flags t todo s \<Longrightarrow> pages_inv a pool xs todo (al_env s) \<Longrightarrow>
    \<exists>e s' ms ys. alloc_rounds a flags n2 s = Some (e, s') \<and> merged_ok a pool xs todo ms ys (al_env s') \<and> end_ok e n2 ys"
proof (induction todo arbitrary: s xs)
  case (Nil s xs)
  obtain q where q: "alloc_round a flags n2 s = Some q" "round_ok a flags t pool n2 xs [] q"
    using alloc_round_ok [OF Nil(1) assms Nil(2,3)] by blast
  then obtain e s' where e: "q = Inl (e, s')" by (cases q) (auto simp: round_ok_def)
  then have "alloc_rounds a flags n2 s = Some (e, s')" using q by (subst alloc_rounds.simps) simp
  moreover have "merged_ok a pool xs [] [] xs (al_env s')" "end_ok e n2 xs" using q(2) e merged_none by (auto simp: round_ok_def)
  ultimately show ?case by blast
next
  case (Cons kv todo s xs)
  obtain q where q: "alloc_round a flags n2 s = Some q" "round_ok a flags t pool n2 xs (kv # todo) q"
    using alloc_round_ok [OF Cons.prems(1) assms Cons.prems(2,3)] by blast
  show ?case
  proof (cases q)
    case (Inl es)
    then obtain e s' where e: "q = Inl (e, s')" by (cases es) simp
    then have "alloc_rounds a flags n2 s = Some (e, s')" using q by (subst alloc_rounds.simps) simp
    moreover have "merged_ok a pool xs (kv # todo) [] xs (al_env s')" "end_ok e n2 xs"
      using q(2) e merged_none by (auto simp: round_ok_def)
    ultimately show ?thesis by blast
  next
    case (Inr s')
    then obtain ys where n: "cursor_ready a flags t todo s'" "pages_inv a pool ys todo (al_env s')"
      "mset ys = mset xs + mset (rec_ids kv)" "le_val (fst kv) < unat (oldest_of a)"
      using q(2) by (auto simp: round_ok_def)
    obtain e s2 ms zs where z: "alloc_rounds a flags n2 s' = Some (e, s2)" "merged_ok a pool ys todo ms zs (al_env s2)" "end_ok e n2 zs"
      using Cons.IH [OF _ n(1,2)] Cons.prems(1) by blast
    have "alloc_rounds a flags n2 s = Some (e, s2)" using q(1) Inr z(1) by (subst alloc_rounds.simps) simp
    moreover have "merged_ok a pool xs (kv # todo) (kv # ms) zs (al_env s2)"
      using z(2) n(3,4) by (auto simp: merged_ok_def add.assoc)
    ultimately show ?thesis using z(3) by blast
  qed
qed

text \<open>The first round opens the cursor on the free database.\<close>

lemma ready_start:
  assumes "db_tree (ac_sn a) (ac_free_db a) Cmp_long 8 t" "flags AND TXN_BLOCKED = 0" "al_op s = MDB_FIRST"
    "me_pgoldest (al_env s) \<le> oldest_of a"
  shows "\<exists>t' h. h < CURSOR_STACK \<and> (db_items (ac_sn a) t \<noteq> [] \<longrightarrow> tree_in (ac_sn a) h t')
    \<and> cursor_ready a flags t' (todo_recs (me_pglast (al_env s)) (db_items (ac_sn a) t)) s"
proof -
  let ?sn = "ac_sn a" and ?db = "ac_free_db a" and ?lst = "me_pglast (al_env s)"
  have dup: "md_flags ?db AND MDB_DUPSORT = 0" using assms(1) by (simp add: db_tree_def)
  obtain c where init: "mdb_cursor_init ?sn 0 ?db Cmp_long None False flags = Some c" and cf: "\<not> mc_init c" "\<not> mc_del c"
    "\<not> mc_stale c" "mc_db c = ?db" "mc_txn_flags c = flags" "c\<lparr>mc_pg := (mc_pg c)(0 := None)\<rparr> = c"
    using dup by (simp add: mdb_cursor_init_def fun_eq_iff)
  define s1 where "s1 = s\<lparr>al_m2 := Some c, al_last := ?lst, al_oldest := me_pgoldest (al_env s),
    al_op := if ?lst \<noteq> 0 then MDB_SET_RANGE else MDB_FIRST\<rparr>"
  have start: "fetch_start a flags s = Some s1" using assms(3) init by (simp add: fetch_start_def free_cursor_def s1_def)
  define key where "key = le_bytes 8 (unat (?lst + 1))"
  have kv: "le_val key = unat (?lst + 1)"
  proof -
    have "unat (?lst + 1) < 2 ^ LENGTH(64)" by (rule unsigned_less)
    then show ?thesis by (simp add: key_def le_val_le_bytes)
  qed
  have k: "key_ok Cmp_long 8 key" "key \<noteq> []" "key_meaning Cmp_long key = [unat (?lst + 1)]"
    using length_le_bytes [of 8 "unat (?lst + 1)"] kv by (auto simp: key_def [symmetric] simp del: length_le_bytes)
  have get: "mdb_cursor_get ?sn c key None (al_op s1) = Some r"
    if "\<not> mc_del (fst (snd r))" "if ?lst = 0 then mdb_cursor_first ?sn False c = Some r
        else mdb_cursor_set ?sn c key None MDB_SET_RANGE False = Some r" for r
  proof -
    obtain rc c' it where r: "r = (rc, c', it)" by (cases r)
    have "c'\<lparr>mc_del := False\<rparr> = c'" using that(1) r by simp
    then show ?thesis using that(2) cf(5) assms(2) r by (cases "?lst = 0") (simp_all add: mdb_cursor_get_def s1_def)
  qed
  have ready: "cursor_ready a flags t' todo s"
    if "if ?lst = 0 then mdb_cursor_first ?sn False c = Some r else mdb_cursor_set ?sn c key None MDB_SET_RANGE False = Some r"
      "next_answer ?sn False t' c todo r" for t' todo r
  proof -
    have "\<not> mc_del (fst (snd r))" using that(2) cf(2) by (cases r) (simp add: next_answer_def same_db_def)
    from get [OF this that(1)] show ?thesis
      using start that(2) cf(4,5) assms(4) unfolding cursor_ready_def
      by (intro exI [of _ s1] exI [of _ c] exI [of _ r]) (simp add: s1_def key_def)
  qed
  show ?thesis
  proof (cases t)
    case None
    then have "md_root ?db = P_INVALID" using assms(1) by (simp add: db_tree_def)
    then have ps: "mdb_page_search ?sn x c = Some (MDB_NOTFOUND, c)" for x
      using cf assms(2) by (simp add: mdb_page_search_def page_search_from_def)
    have "if ?lst = 0 then mdb_cursor_first ?sn False c = Some (MDB_NOTFOUND, c, None, None)
        else mdb_cursor_set ?sn c key None MDB_SET_RANGE False = Some (MDB_NOTFOUND, c, None, None)"
      using ps cf k(2) by (simp add: mdb_cursor_first_def mdb_cursor_set_def no_items_def MDB_NOTFOUND_def)
    moreover have "next_answer ?sn False (Leaf []) c (todo_recs ?lst []) (MDB_NOTFOUND, c, None, None)"
      by (simp add: next_answer_def todo_recs_def)
    ultimately show ?thesis
      using ready None by (intro exI [of _ "Leaf []"] exI [of _ 0]) (auto simp: db_items_def CURSOR_STACK_def)
  next
    case (Some tr)
    note db = assms(1) [unfolded Some]
    obtain r h where r: "tree_in ?sn h tr" "h < CURSOR_STACK" "mdb_cursor_first ?sn False c = Some r"
      "next_answer ?sn False tr c (tree_items ?sn tr) r"
      using cursor_first_spec [OF db init assms(2), of False] by blast
    obtain r2 where r2: "mdb_cursor_set ?sn c key None MDB_SET_RANGE False = Some r2"
      "next_answer ?sn False tr c (dropWhile (\<lambda>kv. key_meaning Cmp_long (fst kv) < key_meaning Cmp_long key) (tree_items ?sn tr)) r2"
      using cursor_range_spec [OF db init assms(2) k(1,2)] by blast
    have "cursor_ready a flags tr (todo_recs ?lst (tree_items ?sn tr)) s"
      using ready [of r tr] ready [of r2 tr] r(3,4) r2 k(3) by (cases "?lst = 0") (simp_all add: todo_recs_def)
    then show ?thesis using r(1,2) Some by (intro exI [of _ tr] exI [of _ h]) (simp add: db_items_def)
  qed
qed

section \<open>What an allocation does\<close>

text \<open>A past transaction that nobody needs the pages of: older than the one before this transaction, and than
  the snapshot of every reader in the table.\<close>

definition no_reader :: "alloc_ctx \<Rightarrow> nat \<Rightarrow> bool" where
  "no_reader a tid \<longleftrightarrow> tid < unat (ac_txnid a - 1)
     \<and> (\<forall>ti. ac_txns a = Some ti \<longrightarrow>
          (\<forall>i < mti_numreaders ti. mr_pid (mti_readers ti ! i) \<noteq> 0 \<longrightarrow> tid < unat (mr_txnid (mti_readers ti ! i))))"

lemma no_readerI:
  assumes "tid < unat (oldest_of a)"
  shows "no_reader a tid"
proof (cases "ac_txns a")
  case None
  then show ?thesis using assms by (simp add: no_reader_def mdb_find_oldest_def)
next
  case (Some ti)
  have "oldest_of a \<le> ac_txnid a - 1" using Some oldest_loop_le by (simp add: mdb_find_oldest_def)
  moreover have "oldest_of a \<le> mr_txnid (mti_readers ti ! i)" if "i < mti_numreaders ti" "mr_pid (mti_readers ti ! i) \<noteq> 0" for i
    using Some oldest_loop_reader [OF that] by (simp add: mdb_find_oldest_def)
  ultimately show ?thesis using assms Some unfolding no_reader_def word_le_nat_alt by fastforce
qed

text \<open>The outcome: \<open>ms\<close> are the records merged, the first of \<open>todo\<close>; the pages of the list afterwards, \<open>zs\<close>, and
  the pages handed out are together those of the list before, \<open>xs\<close>, and of these records, unless the pages
  come from the end of the map.\<close>

definition alloc_ok :: "alloc_ctx \<Rightarrow> nat \<Rightarrow> txn \<Rightarrow> pgstate \<Rightarrow> u64 list \<Rightarrow> (mval \<times> mval) list
    \<Rightarrow> int \<times> page_got option \<times> txn \<times> pgstate \<Rightarrow> bool" where
  "alloc_ok a num tx env xs todo r \<longleftrightarrow>
     (case r of (rc, got, tx', env') \<Rightarrow>
        \<exists>ms rest zs. todo = ms @ rest \<and> (\<forall>kv \<in> set ms. no_reader a (le_val (fst kv))) \<and> head_has (me_pghead env') zs
          \<and> sorted_wrt (>) zs \<and>
          (case got of
             None \<Rightarrow> rc \<in> {MDB_TXN_FULL, MDB_MAP_FULL, ENOMEM} \<and> tx' = tx\<lparr>mt_flags := mt_flags tx OR MDB_TXN_ERROR\<rparr>
               \<and> mset zs = mset xs + mset (recs_ids ms)
           | Some (Loose_page p) \<Rightarrow> rc = 0 \<and> num = 1 \<and> mt_loose_pgs tx = p # mt_loose_pgs tx' \<and> env' = env
           | Some (New_page pgno p) \<Rightarrow> rc = 0
               \<and> id2_sorted (mt_dirty_list tx') \<and> id2_map (mt_dirty_list tx') = (id2_map (mt_dirty_list tx))(pgno \<mapsto> p)
               \<and> mt_dirty_room tx' = mt_dirty_room tx - 1
               \<and> (mt_next_pgno tx' = mt_next_pgno tx
                    \<and> mset zs + mset (page_run pgno num) = mset xs + mset (recs_ids ms)
                  \<or> pgno = mt_next_pgno tx \<and> mt_next_pgno tx' = pgno + of_nat num \<and> pgno + of_nat num < ac_maxpg a
                    \<and> mset zs = mset xs + mset (recs_ids ms))))"

lemma malloc_cases:
  obtains np env' where "mdb_page_malloc a num tx env = (Some np, tx, env')" "me_pghead env' = me_pghead env"
  | "mdb_page_malloc a num tx env = (None, tx\<lparr>mt_flags := mt_flags tx OR MDB_TXN_ERROR\<rparr>, env)"
  by (cases "num = 1 \<and> me_dpages env \<noteq> []";
      cases "ac_malloc a (if num = 1 then ac_psize a else ac_psize a * of_nat num)")
    (auto simp: mdb_page_malloc_def)

lemma search_done_spec:
  assumes "\<not> ac_writemap a" "mt_flags tx AND MDB_WRITEMAP = 0" "txn_ok tx" "id2_cnt (mt_dirty_list tx) < MDB_IDL_UM_MAX"
    "pgno \<notin> dom (id2_map (mt_dirty_list tx))" "0 < num"
    "head_has (me_pghead env) ys" "sorted_wrt (>) ys" "length ys < 2 ^ 32"
    "case i of None \<Rightarrow> True | Some j \<Rightarrow> end_ok (A_found j pgno) (num - 1) ys"
  shows "\<exists>rc got tx' env' zs. search_done a num i pgno tx env = Some (rc, got, tx', env') \<and> head_has (me_pghead env') zs
    \<and> sorted_wrt (>) zs
    \<and> (if got = None then rc = ENOMEM \<and> tx' = tx\<lparr>mt_flags := mt_flags tx OR MDB_TXN_ERROR\<rparr> \<and> zs = ys
       else \<exists>p. rc = 0 \<and> got = Some (New_page pgno p)
         \<and> id2_sorted (mt_dirty_list tx') \<and> id2_map (mt_dirty_list tx') = (id2_map (mt_dirty_list tx))(pgno \<mapsto> p)
         \<and> mt_dirty_room tx' = mt_dirty_room tx - 1
         \<and> (if i = None then mt_next_pgno tx' = pgno + of_nat num \<and> zs = ys
            else mt_next_pgno tx' = mt_next_pgno tx \<and> mset zs + mset (page_run pgno num) = mset ys))"
proof (rule malloc_cases [of a num tx env])
  assume m: "mdb_page_malloc a num tx env = (None, tx\<lparr>mt_flags := mt_flags tx OR MDB_TXN_ERROR\<rparr>, env)"
  then have "search_done a num i pgno tx env = Some (ENOMEM, None, tx\<lparr>mt_flags := mt_flags tx OR MDB_TXN_ERROR\<rparr>, env)"
    using assms(1) by (simp add: search_done_def alloc_fail_def or.assoc)
  then show ?thesis using assms(7,8) by auto
next
  fix np env1 assume m: "mdb_page_malloc a num tx env = (Some np, tx, env1)" "me_pghead env1 = me_pghead env"
  show ?thesis
  proof (cases i)
    case None
    let ?t = "tx\<lparr>mt_next_pgno := pgno + of_nat num\<rparr>"
    have t: "mt_flags ?t AND MDB_WRITEMAP = 0" "txn_ok ?t" "pgno \<notin> dom (id2_map (mt_dirty_list ?t))"
      "id2_cnt (mt_dirty_list ?t) < MDB_IDL_UM_MAX"
      using assms(2-5) by (simp_all add: txn_ok_def)
    obtain dl where dl: "mdb_page_dirty ?t pgno np = Some (?t\<lparr>mt_dirty_list := dl, mt_dirty_room := mt_dirty_room ?t - 1\<rparr>)"
      "id2_sorted dl" "id2_map dl = (id2_map (mt_dirty_list ?t))(pgno \<mapsto> np)"
      by (rule mdb_page_dirty_new [OF t, of np])
    then have "search_done a num i pgno tx env = Some (0, Some (New_page pgno np),
        ?t\<lparr>mt_dirty_list := dl, mt_dirty_room := mt_dirty_room ?t - 1\<rparr>, env1)"
      using assms(1) m(1) None by (simp add: search_done_def)
    then show ?thesis using dl(2,3) None assms(7,8) m(2) by auto
  next
    case (Some j)
    then have j: "num - 1 < j" "j \<le> length ys" "ys ! (j - 1) = pgno" "ys ! (j - 1 - (num - 1)) = pgno + of_nat (num - 1)"
      using assms(10) by (simp_all add: end_ok_def)
    obtain mop where mop: "me_pghead env = Some mop" "idl_wf mop" "idl_items mop = ys"
      using assms(7) j(1,2) by (cases "me_pghead env") (auto simp: head_has_def)
    have cnt: "idl_cnt mop = length ys" using idl_wf_length [OF mop(2)] mop(3) by simp
    have "num \<le> j" "j \<le> idl_cnt mop" "idl_cnt mop < 2 ^ 32" using j(1,2) assms(6,9) cnt by simp_all
    from take_range_spec [OF mop(2) this(3,1,2)] obtain mop' where mop': "take_range mop num j = Some mop'" "idl_wf mop'"
      "idl_items mop' = take (j - num) ys @ drop j ys"
      using mop(3) by auto
    have run: "take num (drop (j - num) ys) = rev (page_run pgno num)"
      using run_in_desc [OF assms(8) j(1,2)] j(3,4) assms(6) by simp
    have parts: "ys = take (j - num) ys @ take num (drop (j - num) ys) @ drop j ys"
      using append_take_drop_id [of "j - num" ys] append_take_drop_id [of num "drop (j - num) ys"] \<open>num \<le> j\<close> by simp
    have "mset ys = mset (take (j - num) ys) + mset (take num (drop (j - num) ys)) + mset (drop j ys)"
      by (subst parts) simp
    then have ms: "mset (take (j - num) ys @ drop j ys) + mset (page_run pgno num) = mset ys" by (simp add: run)
    have srt: "sorted_wrt (>) (take (j - num) ys @ drop j ys)"
      using assms(8) by (subst (asm) parts) (simp add: sorted_wrt_append)
    obtain dl where dl: "mdb_page_dirty tx pgno np = Some (tx\<lparr>mt_dirty_list := dl, mt_dirty_room := mt_dirty_room tx - 1\<rparr>)"
      "id2_sorted dl" "id2_map dl = (id2_map (mt_dirty_list tx))(pgno \<mapsto> np)"
      by (rule mdb_page_dirty_new [OF assms(2,3,5,4), of np])
    then have "search_done a num i pgno tx env = Some (0, Some (New_page pgno np),
        tx\<lparr>mt_dirty_list := dl, mt_dirty_room := mt_dirty_room tx - 1\<rparr>, env1\<lparr>me_pghead := Some mop'\<rparr>)"
      using assms(1) m mop(1) mop'(1) Some by (simp add: search_done_def)
    moreover have "head_has (Some mop') (take (j - num) ys @ drop j ys)" using mop' by (simp add: head_has_def)
    ultimately show ?thesis using dl(2,3) Some ms srt by auto
  qed
qed

lemma alloc_pages:
  assumes "db_tree (ac_sn a) (ac_free_db a) Cmp_long 8 t" "todo = todo_recs (me_pglast env) (db_items (ac_sn a) t)"
    "pages_inv a (me_dpages env) xs todo env" "mt_flags tx AND TXN_BLOCKED = 0"
    "\<not> ac_writemap a" "mt_flags tx AND MDB_WRITEMAP = 0" "txn_ok tx" "0 < num"
    "id2_cnt (mt_dirty_list tx) + unat (mt_dirty_room tx) \<le> MDB_IDL_UM_MAX"
    "set (mt_next_pgno tx # xs @ recs_ids todo) \<inter> dom (id2_map (mt_dirty_list tx)) = {}"
  shows "\<exists>r. mdb_page_alloc a num tx env = Some r \<and> alloc_ok a num tx env xs todo r"
proof -
  have inv: "head_has (me_pghead env) xs" "sorted_wrt (>) xs" "me_pgoldest env \<le> oldest_of a"
    using assms(3) by (simp_all add: pages_inv_def)
  consider "num = 1 \<and> mt_loose_pgs tx \<noteq> []" | "\<not> (num = 1 \<and> mt_loose_pgs tx \<noteq> [])" "mt_dirty_room tx = 0"
    | "\<not> (num = 1 \<and> mt_loose_pgs tx \<noteq> [])" "mt_dirty_room tx \<noteq> 0" by blast
  then show ?thesis
  proof cases
    case 1
    then obtain p ps where p: "num = 1" "mt_loose_pgs tx = p # ps" by (cases "mt_loose_pgs tx") auto
    have "mdb_page_alloc a num tx env
        = Some (0, Some (Loose_page p), tx\<lparr>mt_loose_pgs := ps, mt_loose_count := mt_loose_count tx - 1\<rparr>, env)"
      unfolding mdb_page_alloc_def using p by simp
    then show ?thesis using p inv(1,2) by (simp add: alloc_ok_def) (intro exI [of _ "[]"], auto)
  next
    case 2
    then have "mdb_page_alloc a num tx env = Some (alloc_fail MDB_TXN_FULL tx env)"
      unfolding mdb_page_alloc_def by (simp only: if_False if_True refl)
    then show ?thesis
      using inv(1,2) by (simp add: alloc_ok_def alloc_fail_def) (intro exI [of _ "[]"], auto)
  next
    case 3
    define s where "s = \<lparr>al_env = env, al_m2 = None, al_last = 0, al_oldest = 0, al_found_old = False, al_retry = int num * 60,
       al_op = MDB_FIRST\<rparr>"
    have alloc: "mdb_page_alloc a num tx env = do {
        (e, s) \<leftarrow> alloc_rounds a (mt_flags tx) (num - 1) s;
        case e of
          A_fail rc \<Rightarrow> Some (alloc_fail rc tx (al_env s))
        | A_found i pgno \<Rightarrow> search_done a num (Some i) pgno tx (al_env s)
        | A_new \<Rightarrow> if ac_maxpg a \<le> mt_next_pgno tx + of_nat num then Some (alloc_fail MDB_MAP_FULL tx (al_env s))
               else search_done a num None (mt_next_pgno tx) tx (al_env s) }"
      using 3 unfolding mdb_page_alloc_def s_def Let_def by (simp only: if_False)
    have s: "al_op s = MDB_FIRST" "al_env s = env" by (simp_all add: s_def)
    obtain t' h where h: "h < CURSOR_STACK" "db_items (ac_sn a) t \<noteq> [] \<longrightarrow> tree_in (ac_sn a) h t'"
      "cursor_ready a (mt_flags tx) t' todo s"
      using ready_start [OF assms(1,4) s(1)] inv(3) s(2) assms(2) by auto
    have "todo \<noteq> [] \<Longrightarrow> tree_in (ac_sn a) h t'" using h(2) assms(2) by (auto simp: todo_recs_def split: if_splits)
    moreover have "md_flags (ac_free_db a) AND MDB_DUPSORT = 0" using assms(1) by (simp add: db_tree_def)
    ultimately obtain e s' ms ys where e: "alloc_rounds a (mt_flags tx) (num - 1) s = Some (e, s')"
      "merged_ok a (me_dpages env) xs todo ms ys (al_env s')" "end_ok e (num - 1) ys"
      using alloc_rounds_spec [OF h(1) _ assms(4) _ h(3), of "me_dpages env" xs "num - 1"] assms(3) s(2) by auto
    then obtain rest where m: "todo = ms @ rest" "pages_inv a (me_dpages env) ys rest (al_env s')"
      "\<forall>kv \<in> set ms. no_reader a (le_val (fst kv))" "mset ys = mset xs + mset (recs_ids ms)"
      using no_readerI unfolding merged_ok_def by blast
    have ys: "head_has (me_pghead (al_env s')) ys" "sorted_wrt (>) ys" "length ys < 2 ^ 32" using m(2) by (simp_all add: pages_inv_def)
    have room: "id2_cnt (mt_dirty_list tx) < MDB_IDL_UM_MAX"
    proof -
      have "0 < unat (mt_dirty_room tx)" using 3(2) by (simp add: unat_gt_0)
      then show ?thesis using assms(9) by linarith
    qed
    have fail: "alloc_ok a num tx env xs todo (alloc_fail rc tx (al_env s'))" if "rc \<in> {MDB_MAP_FULL, ENOMEM}" for rc
      using that m ys unfolding alloc_ok_def alloc_fail_def by auto
    have done_ok: "\<exists>r. search_done a num i pgno tx (al_env s') = Some r \<and> alloc_ok a num tx env xs todo r"
      if i: "case i of None \<Rightarrow> pgno = mt_next_pgno tx \<and> pgno + of_nat num < ac_maxpg a | Some j \<Rightarrow> end_ok (A_found j pgno) (num - 1) ys"
        "pgno \<in> set (mt_next_pgno tx # xs @ recs_ids todo)" for i pgno
    proof -
      have "pgno \<notin> dom (id2_map (mt_dirty_list tx))" using assms(10) i(2) by blast
      moreover have "case i of None \<Rightarrow> True | Some j \<Rightarrow> end_ok (A_found j pgno) (num - 1) ys" using i(1) by (simp split: option.splits)
      ultimately obtain rc got tx' env' zs where d: "search_done a num i pgno tx (al_env s') = Some (rc, got, tx', env')"
        "head_has (me_pghead env') zs" "sorted_wrt (>) zs"
        "if got = None then rc = ENOMEM \<and> tx' = tx\<lparr>mt_flags := mt_flags tx OR MDB_TXN_ERROR\<rparr> \<and> zs = ys
       else \<exists>p. rc = 0 \<and> got = Some (New_page pgno p)
         \<and> id2_sorted (mt_dirty_list tx') \<and> id2_map (mt_dirty_list tx') = (id2_map (mt_dirty_list tx))(pgno \<mapsto> p)
         \<and> mt_dirty_room tx' = mt_dirty_room tx - 1
         \<and> (if i = None then mt_next_pgno tx' = pgno + of_nat num \<and> zs = ys
            else mt_next_pgno tx' = mt_next_pgno tx \<and> mset zs + mset (page_run pgno num) = mset ys)"
        using search_done_spec [OF assms(5-7) room _ assms(8) ys] by metis
      have "alloc_ok a num tx env xs todo (rc, got, tx', env')"
      proof (cases got)
        case None
        then show ?thesis using d m unfolding alloc_ok_def by auto
      next
        case (Some g)
        then obtain p where p: "rc = 0" "got = Some (New_page pgno p)"
          "id2_sorted (mt_dirty_list tx')" "id2_map (mt_dirty_list tx') = (id2_map (mt_dirty_list tx))(pgno \<mapsto> p)"
          "mt_dirty_room tx' = mt_dirty_room tx - 1"
          "if i = None then mt_next_pgno tx' = pgno + of_nat num \<and> zs = ys
            else mt_next_pgno tx' = mt_next_pgno tx \<and> mset zs + mset (page_run pgno num) = mset ys"
          using d(4) by auto
        show ?thesis
          unfolding alloc_ok_def using m p d(2,3) i(1)
          by (simp only: prod.case option.case page_got.case simp_thms)
            (rule exI [of _ ms], rule exI [of _ rest], rule exI [of _ zs], cases i; auto)
      qed
      then show ?thesis using d(1) by blast
    qed
    show ?thesis
    proof (cases e)
      case (A_fail rc)
      then show ?thesis using alloc e(1,3) fail [of rc] by (simp add: end_ok_def)
    next
      case A_new
      then show ?thesis
        using alloc e(1) fail [of MDB_MAP_FULL] done_ok [where i = None and pgno = "mt_next_pgno tx"]
        by (cases "ac_maxpg a \<le> mt_next_pgno tx + of_nat num") (simp_all del: split_paired_Ex add: linorder_not_le [symmetric])
    next
      case (A_found i pgno)
      have "pgno \<in> set ys" using e(3) A_found by (auto simp: end_ok_def)
      moreover have "set ys \<subseteq> set (xs @ recs_ids todo)"
        using m(1,4) set_mset_mset [of ys] by (auto simp: recs_ids_def)
      ultimately have "pgno \<in> set (mt_next_pgno tx # xs @ recs_ids todo)" by auto
      then show ?thesis using alloc e(1,3) A_found done_ok [where i = "Some i" and pgno = pgno] by simp
    qed
  qed
qed

section \<open>Properties\<close>

text \<open>C3: \<open>mdb_page_alloc\<close> returns, and what it hands out is free: a loose page; or a run of \<open>num\<close> page
  numbers taken out of the list of free pages, to which it has added only whole records of transactions that
  no reader in the table can need, the list staying in order and no page number lost or doubled; or the
  \<open>num\<close> pages behind the last one of the map, where they fit. The new page is in the dirty list. Otherwise the
  answer is an error, the transaction is marked unusable, and no free page is lost.\<close>

theorem mdb_page_alloc_correct:
  assumes "db_tree (ac_sn a) (ac_free_db a) Cmp_long 8 t" "todo = todo_recs (me_pglast env) (db_items (ac_sn a) t)"
    "pages_inv a (me_dpages env) xs todo env" "mt_flags tx AND TXN_BLOCKED = 0"
    "\<not> ac_writemap a" "mt_flags tx AND MDB_WRITEMAP = 0" "txn_ok tx" "0 < num"
    "id2_cnt (mt_dirty_list tx) + unat (mt_dirty_room tx) \<le> MDB_IDL_UM_MAX"
    "set (mt_next_pgno tx # xs @ recs_ids todo) \<inter> dom (id2_map (mt_dirty_list tx)) = {}"
  shows "\<exists>r. mdb_page_alloc a num tx env = Some r \<and> alloc_ok a num tx env xs todo r"
  by (rule alloc_pages [OF assms])

text \<open>A free database with one record: transaction 3 freed the pages 20 and 19.\<close>

definition page_free :: page where
  "page_free = [7, 0, 0, 0, 0, 0, 0, 0, 0, 0, 2, 0, 18, 0, 24, 0, 24, 0, 0, 0, 0, 0, 0, 0, 24, 0, 0, 0, 0, 0, 8, 0,
     3, 0, 0, 0, 0, 0, 0, 0, 2, 0, 0, 0, 0, 0, 0, 0, 20, 0, 0, 0, 0, 0, 0, 0, 19, 0, 0, 0, 0, 0, 0, 0]"

lemma page_free_hdr: "length page_free = 64" "pg_lower page_free = 18" "pg_upper page_free = 24"
  "pg_flags page_free = 2" "pg_cnt page_free = 1" "pg_leaf page_free" "pg_ptr page_free 0 = 24"
  by (simp_all add: page_free_def pg_lower_def pg_upper_def pg_flags_def pg_cnt_def pg_leaf_def pg_ptr_def le_at_nth
      F_ISSET_def P_LEAF_def)

lemma page_free_node: "n_ksize page_free 24 = 8" "n_flags page_free 24 = 0" "n_word page_free 24 = 24"
  by (simp_all add: page_free_def n_ksize_def n_flags_def n_word_def le_at_nth)

lemma page_free_wf: "page_wf page_free"
  by (simp add: page_wf_def page_free_hdr n_size_def n_dsize_def data_size_def page_free_node EVEN_def F_ISSET_def F_BIGDATA_def
      P_LEAF2_def)

definition free_rec :: "mval \<times> mval" where
  "free_rec = ([3, 0, 0, 0, 0, 0, 0, 0],
     [2, 0, 0, 0, 0, 0, 0, 0, 20, 0, 0, 0, 0, 0, 0, 0, 19, 0, 0, 0, 0, 0, 0, 0])"

lemma page_free_nodes:
  "page_nodes page_free = [\<lparr>nd_flags = 0, nd_key = fst free_rec, nd_word = 24, nd_data = snd free_rec\<rparr>]"
  by (simp add: page_nodes_def page_free_hdr node_at_def page_free_node n_dsize_def data_size_def F_ISSET_def F_BIGDATA_def)
    (simp add: sub_def page_free_def free_rec_def)

lemma page_free_leaf: "leaf_ok sn page_free" "leaf_items sn page_free = [free_rec]"
  by (simp_all add: leaf_ok_def page_free_nodes page_free_wf page_kind_def page_free_hdr leaf_items_def node_value_def F_ISSET_def
      P_BRANCH_def F_DUPDATA_def F_BIGDATA_def)

lemma free_rec_ids: "record_idl (snd free_rec) = [2, 2, 20, 19]" "le_val (fst free_rec) = 3"
  by (simp_all add: free_rec_def record_idl_def words_of_def upt_rec)

text \<open>One reader is on snapshot 6, another slot has no owner.\<close>

definition ctx_sample :: alloc_ctx where
  "ctx_sample = \<lparr>ac_sn = \<lparr>sn_page = [7 \<mapsto> page_free], sn_main = None, sn_name = [], sn_changed = False\<rparr>, ac_free_db = db_sample,
     ac_txnid = 10,
     ac_txns = Some \<lparr>mti_txnid = 9, mti_numreaders = 2,
       mti_readers = [\<lparr>mr_txnid = 6, mr_pid = 1, mr_tid = 1\<rparr>, \<lparr>mr_txnid = 2, mr_pid = 0, mr_tid = 1\<rparr>]\<rparr>,
     ac_maxpg = 100, ac_writemap = False, ac_map = 0, ac_psize = 4096,
     ac_al = \<lparr>al_ok = (\<lambda>_. True), al_junk = (\<lambda>_. 0)\<rparr>, ac_malloc = (\<lambda>_. Some 4096)\<rparr>"

definition pgstate_sample :: pgstate where
  "pgstate_sample = \<lparr>me_pghead = None, me_pglast = 0, me_pgoldest = 0, me_dpages = []\<rparr>"

lemma free_db_sample: "db_tree (ac_sn ctx_sample) (ac_free_db ctx_sample) Cmp_long 8 (Some (Leaf page_free))"
  by (auto simp: db_tree_def ctx_sample_def db_sample_def page_free_leaf branch_keysize_def P_INVALID_def CURSOR_STACK_def
      keys_sorted_def lo0_def page_free_hdr page_keys_def page_free_nodes free_rec_def intro!: exI [of _ 0])

lemma todo_sample: "todo_recs (me_pglast pgstate_sample) (db_items (ac_sn ctx_sample) (Some (Leaf page_free))) = [free_rec]"
  by (simp add: todo_recs_def pgstate_sample_def db_items_def page_free_leaf)

lemma pages_inv_sample: "pages_inv ctx_sample (me_dpages pgstate_sample) [] [free_rec] pgstate_sample"
  by (simp add: pages_inv_def pgstate_sample_def head_has_def rec_ok_def rec_ids_def free_rec_ids idl_wf_def idl_cap_def idl_cnt_def
      idl_items_def) (simp add: free_rec_def)

theorem mdb_page_alloc_correct_witness:
  "\<exists>r. mdb_page_alloc ctx_sample 2 txn_sample pgstate_sample = Some r
     \<and> alloc_ok ctx_sample 2 txn_sample pgstate_sample [] [free_rec] r"
proof -
  have f: "mt_flags txn_sample AND TXN_BLOCKED = 0" "\<not> ac_writemap ctx_sample" "(0 :: nat) < 2"
    by (simp_all add: ctx_sample_def txn_sample_def)
  have "unat (9 :: u32) = 9" by simp
  then have room: "id2_cnt (mt_dirty_list txn_sample) + unat (mt_dirty_room txn_sample) \<le> MDB_IDL_UM_MAX"
    by (simp add: txn_sample_def id2_sample_items MDB_IDL_UM_MAX_def)
  have "rec_ids free_rec = [20, 19]" by (simp add: rec_ids_def free_rec_ids idl_items_def idl_cnt_def)
  then have new: "set (mt_next_pgno txn_sample # [] @ recs_ids [free_rec]) \<inter> dom (id2_map (mt_dirty_list txn_sample)) = {}"
    by (simp add: txn_sample_def id2_sample)
  show ?thesis
    by (rule mdb_page_alloc_correct [OF free_db_sample todo_sample [symmetric] pages_inv_sample f(1,2) txn_sample_ok(4,1) f(3) room new])
qed

end
