(* ===== verification/Mdb_Update.thy ===== *)
theory Mdb_Update
  imports Mdb_Node
begin

text \<open>
  \<open>lmdb/mdb.c\<close>: what the writer does to the bytes of a page besides adding and deleting nodes: replacing the
  key of a node in a branch page (\<open>mdb_update_key\<close>), which moves the nodes below it, and copying the used parts
  of a page (\<open>mdb_page_copy\<close>). Both are proved against the list of nodes of \<open>Mdb_Node\<close>.
\<close>

unbundle bit_operations_syntax

section \<open>Replacing a key\<close>

text \<open>The answer when there is no room: the node was deleted, and the caller goes on to \<open>mdb_page_split\<close> with the
  key and the page number of the node.\<close>

datatype key_update = Key_updated page | Key_split page nat

text \<open>The loop over the pointers: \<open>m\<close> are left, from \<open>i\<close> on; \<open>indx_t\<close> has 16 bits.\<close>

definition indx_subi :: "nat \<Rightarrow> int \<Rightarrow> nat" where "indx_subi v delta = nat ((int v - delta) mod 2 ^ 16)"

fun ptrs_move :: "page \<Rightarrow> nat \<Rightarrow> int \<Rightarrow> nat \<Rightarrow> nat \<Rightarrow> page option" where
  "ptrs_move mp ptr delta 0 i = Some mp"
| "ptrs_move mp ptr delta (Suc m) i =
     do { v \<leftarrow> MP_PTRS mp i;
          mp \<leftarrow> (if v \<le> ptr then st 2 mp (PAGEHDRSZ + 2 * i) (indx_subi v delta) else Some mp);
          ptrs_move mp ptr delta m (i + 1) }"

definition shift_node :: "page \<Rightarrow> nat \<Rightarrow> int \<Rightarrow> page option" where
  "shift_node mp ptr delta =
     do { numkeys \<leftarrow> NUMKEYS mp;
          mp \<leftarrow> ptrs_move mp ptr delta numkeys 0;
          upper \<leftarrow> MP_UPPER mp;
          mp \<leftarrow> (if ptr < upper \<or> int upper < delta then None
                else move_bytes mp (nat (int upper - delta)) upper (ptr - upper + NODESIZE));
          st 2 mp 14 (indx_subi upper delta) }"

definition mdb_update_key :: "page \<Rightarrow> nat \<Rightarrow> mval \<Rightarrow> key_update option" where
  "mdb_update_key mp indx key =
     do { ptr \<leftarrow> NODEPTR mp indx;
          oksize \<leftarrow> NODEKSZ mp ptr;
          left \<leftarrow> SIZELEFT mp;
          let delta = int (EVEN (length key)) - int (EVEN oksize);
          if 0 < delta \<and> int left < delta
          then do { pgno \<leftarrow> NODEPGNO mp ptr; mp \<leftarrow> mdb_node_del mp indx 0; Some (Key_split mp pgno) }
          else do {
            mp \<leftarrow> (if delta \<noteq> 0 then shift_node mp ptr delta else Some mp);
            off \<leftarrow> NODEPTR mp indx;
            ks \<leftarrow> NODEKSZ mp off;
            mp \<leftarrow> (if ks \<noteq> length key then st 2 mp (off + 6) (length key) else Some mp);
            mp \<leftarrow> (if key \<noteq> [] then put_bytes mp (off + NODESIZE) key else Some mp);
            Some (Key_updated mp) } }"

section \<open>Copying a page\<close>

definition ALIGN_DOWN :: "nat \<Rightarrow> nat" where "ALIGN_DOWN n = n div 8 * 8"

definition mdb_page_copy :: "page \<Rightarrow> page \<Rightarrow> nat \<Rightarrow> page option" where
  "mdb_page_copy dst src psize =
     do { upper \<leftarrow> MP_UPPER src; lower \<leftarrow> MP_LOWER src; leaf2 \<leftarrow> IS_LEAF2 src;
          let unused = ALIGN_DOWN (indx_sub upper lower);
          if unused \<noteq> 0 \<and> \<not> leaf2
          then do { let upper = ALIGN_DOWN upper;
                    bs \<leftarrow> get_bytes src 0 (ALIGN_DOWN (lower + 7));
                    dst \<leftarrow> put_bytes dst 0 bs;
                    bs \<leftarrow> (if psize < upper then None else get_bytes src upper (psize - upper));
                    put_bytes dst upper bs }
          else do { bs \<leftarrow> (if psize < unused then None else get_bytes src 0 (psize - unused)); put_bytes dst 0 bs } }"

section \<open>A copy has the same nodes\<close>

lemma page_same_body:
  assumes wf: "page_wf p" and q: "length q = length p" "pg_leaf q = pg_leaf p" "\<not> F_ISSET (pg_flags q) P_LEAF2"
    "\<And>k n. 12 \<le> k \<Longrightarrow> k + n \<le> pg_lower p \<or> pg_upper p \<le> k \<Longrightarrow> sub q k n = sub p k n"
  shows "page_wf q" "page_nodes q = page_nodes p" "pg_lower q = pg_lower p" "pg_upper q = pg_upper p"
proof -
  note w = page_wfD [OF wf]
  have le: "le_at n q k = le_at n p k" if "12 \<le> k" "k + n \<le> pg_lower p" for k n using q(4) [of k n] that by (simp add: le_at_def)
  show h: "pg_lower q = pg_lower p" "pg_upper q = pg_upper p" using w(1) by (simp_all add: pg_lower_def pg_upper_def le)
  have c: "pg_cnt q = pg_cnt p" by (simp add: pg_cnt_def h)
  have ptr: "pg_ptr q i = pg_ptr p i" if "i < pg_cnt p" for i using that w(1) by (simp add: pg_ptr_def le)
  let ?L = "pg_leaf p"
  have same: "node_at ?L q (pg_ptr p i) = node_at ?L p (pg_ptr p i)" "n_size ?L q (pg_ptr p i) = n_size ?L p (pg_ptr p i)"
    if i: "i < pg_cnt p" for i
  proof -
    have "sub q (pg_ptr p i) (n_size ?L p (pg_ptr p i)) = sub p (pg_ptr p i) (n_size ?L p (pg_ptr p i))"
      using w(1,2) w(7) [OF i] by (intro q(4)) auto
    then show "node_at ?L q (pg_ptr p i) = node_at ?L p (pg_ptr p i)" "n_size ?L q (pg_ptr p i) = n_size ?L p (pg_ptr p i)"
      by (rule node_moved; simp)+
  qed
  show "page_nodes q = page_nodes p" using ptr same(1) by (simp add: page_nodes_def c q(2))
  have sizes: "map (\<lambda>i. n_size ?L q (pg_ptr q i)) [0..<pg_cnt p] = map (\<lambda>i. n_size ?L p (pg_ptr p i)) [0..<pg_cnt p]"
    using ptr same(2) by simp
  show "page_wf q"
    by (rule page_wfI; (unfold c h q(1,2) sizes)?) (use w ptr same(2) q(3) in simp_all)
qed

lemma page_same:
  assumes wf: "page_wf p" and q: "length q = length p"
    "\<And>k n. k + n \<le> pg_lower p \<or> pg_upper p \<le> k \<Longrightarrow> sub q k n = sub p k n"
  shows "page_wf q" "page_nodes q = page_nodes p" "pg_flags q = pg_flags p" "pg_lower q = pg_lower p" "pg_upper q = pg_upper p"
proof -
  show fl: "pg_flags q = pg_flags p" using q(2) [of 10 2] page_wfD(1) [OF wf] by (simp add: pg_flags_def le_at_def)
  show "page_wf q" "page_nodes q = page_nodes p" "pg_lower q = pg_lower p" "pg_upper q = pg_upper p"
    by (rule page_same_body [OF wf q(1) _ _ q(2)]; use fl page_wfD(6) [OF wf] in \<open>simp add: pg_leaf_def\<close>)+
qed

lemma ALIGN_DOWN_bounds: "ALIGN_DOWN n \<le> n" "n < ALIGN_DOWN n + 8"
  using div_mult_mod_eq [of n 8] by (simp_all add: ALIGN_DOWN_def)

lemma mdb_page_copy_spec:
  assumes wf: "page_wf src" and len: "length src = psize" "length dst = psize"
  obtains q where "mdb_page_copy dst src psize = Some q" "length q = psize" "page_wf q" "page_nodes q = page_nodes src"
    "pg_flags q = pg_flags src" "pg_lower q = pg_lower src" "pg_upper q = pg_upper src"
proof -
  note w = page_wfD [OF wf]
  have l16: "16 \<le> length src" using w(1-3) by linarith
  have un: "indx_sub (pg_upper src) (pg_lower src) = pg_upper src - pg_lower src" using w(2-4) by (intro indx_sub_eq) simp_all
  let ?un = "ALIGN_DOWN (pg_upper src - pg_lower src)"
  show ?thesis
  proof (cases "?un = 0")
    case True
    have "mdb_page_copy dst src psize = Some src"
      using l16 w(6) len un True by (simp add: mdb_page_copy_def page_hdr get_bytes_def put_bytes_def blit_full)
    then show ?thesis using that len(1) wf by blast
  next
    case False
    let ?U = "ALIGN_DOWN (pg_upper src)" and ?L = "ALIGN_DOWN (pg_lower src + 7)"
    have b: "?U \<le> pg_upper src" "pg_lower src \<le> ?L" using ALIGN_DOWN_bounds(2) [of "pg_lower src + 7"] ALIGN_DOWN_bounds(1) by simp_all
    have "8 \<le> pg_upper src - pg_lower src" using False by (simp add: ALIGN_DOWN_def)
    then have LU: "?L \<le> ?U" "?L \<le> psize" "?U \<le> psize"
      using w(3) len(1) ALIGN_DOWN_bounds(1) [of "pg_upper src"] ALIGN_DOWN_bounds(1) [of "pg_lower src + 7"]
        div_le_mono [of "pg_lower src + 7" "pg_upper src" 8]
      by (simp_all add: ALIGN_DOWN_def)
    define q1 where "q1 = blit dst 0 (take ?L src)"
    define q where "q = blit q1 ?U (drop ?U src)"
    have l: "length q1 = psize" "length q = psize" using LU len by (simp_all add: q1_def q_def)
    have "mdb_page_copy dst src psize = Some q"
      using l16 w(6) len un False LU l(1)
      by (simp add: mdb_page_copy_def page_hdr get_bytes_def put_bytes_def flip: q1_def) (simp add: q_def Let_def)
    moreover have "sub q k n = sub src k n" if "k + n \<le> pg_lower src \<or> pg_upper src \<le> k" for k n
      using that
    proof
      assume k: "k + n \<le> pg_lower src"
      then have kL: "k + n \<le> ?L" using b(2) by simp
      have "sub q k n = sub q1 k n" unfolding q_def by (rule sub_blit_other) (use kL LU l len in simp_all)
      also have "\<dots> = sub (take ?L src) k n"
        unfolding q1_def using sub_blit_inside [of 0 "take ?L src" dst k n] kL LU len by simp
      also have "\<dots> = sub src k n" using kL by (simp add: sub_def drop_take min_def)
      finally show ?thesis .
    next
      assume "pg_upper src \<le> k"
      then have "?U \<le> k" using b(1) by simp
      then show ?thesis using LU l len by (simp add: sub_def q_def blit_def)
    qed
    ultimately show ?thesis using that l(2) page_same [OF wf, of q] len(1) by metis
  qed
qed

section \<open>A node changes its size\<close>

text \<open>Where a node at \<open>v\<close> is after the node at \<open>P\<close> has changed its size from \<open>s\<close> to \<open>s'\<close>.\<close>

definition moved :: "nat \<Rightarrow> nat \<Rightarrow> nat \<Rightarrow> nat \<Rightarrow> nat" where "moved P s s' v = (if v \<le> P then v + s - s' else v)"

lemma page_resized:
  assumes wf: "page_wf p" and i: "indx < pg_cnt p"
    and P: "P = pg_ptr p indx" and s: "s = n_size (pg_leaf p) p P"
    and room: "pg_lower p + s' \<le> pg_upper p + s" "even s'" "8 \<le> s'"
    and q: "length q = length p" "pg_lower q = pg_lower p" "pg_upper q = pg_upper p + s - s'" "pg_flags q = pg_flags p"
      "\<And>k. k < pg_cnt p \<Longrightarrow> pg_ptr q k = moved P s s' (pg_ptr p k)"
      "\<And>k n. pg_upper p \<le> k \<Longrightarrow> k + n \<le> P \<Longrightarrow> sub q (k + s - s') n = sub p k n"
      "\<And>k n. P + s \<le> k \<Longrightarrow> sub q k n = sub p k n"
    and new: "node_at (pg_leaf p) q (P + s - s') = nd" "n_size (pg_leaf p) q (P + s - s') = s'"
  shows "page_wf q" "page_nodes q = (page_nodes p)[indx := nd]"
proof -
  note w = page_wfD [OF wf]
  let ?L = "pg_leaf p"
  have c: "pg_cnt q = pg_cnt p" "pg_leaf q = ?L" by (simp_all add: pg_cnt_def pg_leaf_def q(2,4))
  have s8: "8 \<le> s" "even s" "pg_upper p \<le> P" "P + s \<le> length p"
    using w(7) [OF i] P s n_size_ge(2) by (simp_all add: n_size_def)
  have evP: "even P" using w(7) [OF i] P by simp
  have side: "pg_ptr p j + n_size ?L p (pg_ptr p j) \<le> P \<and> pg_ptr p j < P \<or> P + s \<le> pg_ptr p j \<and> \<not> pg_ptr p j \<le> P"
    if "j < pg_cnt p" "j \<noteq> indx" for j
    using w(8) [OF that(1) i that(2)] n_size_ge(2) [of ?L p "pg_ptr p j"] s8(1) unfolding s P by linarith
  have mv: "pg_ptr q j = (if pg_ptr p j < P then pg_ptr p j + s - s' else pg_ptr p j)" if "j < pg_cnt p" "j \<noteq> indx" for j
    using side [OF that] by (auto simp: q(5) [OF that(1)] moved_def)
  have at: "pg_ptr q indx = P + s - s'" by (simp add: q(5) [OF i] moved_def P)
  have kept: "node_at ?L q (pg_ptr q j) = node_at ?L p (pg_ptr p j)" "n_size ?L q (pg_ptr q j) = n_size ?L p (pg_ptr p j)"
    if j: "j < pg_cnt p" "j \<noteq> indx" for j
  proof -
    have "sub q (pg_ptr q j) (n_size ?L p (pg_ptr p j)) = sub p (pg_ptr p j) (n_size ?L p (pg_ptr p j))"
      using side [OF j] w(7) [OF j(1)] by (auto simp: mv [OF j] q(6,7))
    then show "node_at ?L q (pg_ptr q j) = node_at ?L p (pg_ptr p j)" "n_size ?L q (pg_ptr q j) = n_size ?L p (pg_ptr p j)"
      by (rule node_moved; simp)+
  qed
  have nodes: "node_at ?L q (pg_ptr q j) = (page_nodes p)[indx := nd] ! j" if "j < pg_cnt p" for j
    using that kept(1) [of j] new(1) at by (cases "j = indx") (simp_all add: page_nodes_def)
  show "page_nodes q = (page_nodes p)[indx := nd]"
    using nodes by (intro nth_equalityI) (simp_all add: page_nodes_def c)
  have total: "(\<Sum>j < pg_cnt p. n_size ?L q (pg_ptr q j)) + s = (\<Sum>j < pg_cnt p. n_size ?L p (pg_ptr p j)) + s'"
  proof -
    let ?R = "{..<pg_cnt p} - {indx}"
    have "(\<Sum>j \<in> ?R. n_size ?L q (pg_ptr q j)) = (\<Sum>j \<in> ?R. n_size ?L p (pg_ptr p j))" using kept(2) by (intro sum.cong) auto
    then show ?thesis
      using i sum.remove [of "{..<pg_cnt p}" indx "\<lambda>j. n_size ?L q (pg_ptr q j)"]
        sum.remove [of "{..<pg_cnt p}" indx "\<lambda>j. n_size ?L p (pg_ptr p j)"] at new(2) s P by simp
  qed
  show "page_wf q"
  proof (rule page_wfI; unfold c q(1-4))
    show "length p \<le> 2 ^ 15" "pg_lower p = 16 + 2 * pg_cnt p" "\<not> F_ISSET (pg_flags p) P_LEAF2"
      "pg_lower p \<le> pg_upper p + s - s'" "even (pg_upper p + s - s')" "pg_upper p + s - s' \<le> length p"
      using w(1-6) s8 room by auto
    show "pg_upper p + s - s' + sum_list (map (\<lambda>i. n_size ?L q (pg_ptr q i)) [0..<pg_cnt p]) = length p"
      using total w(9) room(1) s8 unfolding sum_upt [symmetric] by linarith
  next
    fix k assume k: "k < pg_cnt p"
    show "pg_upper p + s - s' \<le> pg_ptr q k \<and> even (pg_ptr q k) \<and> pg_ptr q k + n_size ?L q (pg_ptr q k) \<le> length p"
    proof (cases "k = indx")
      case True
      then show ?thesis unfolding True at new(2) using s8 room w(2) evP by auto
    next
      case False
      show ?thesis
        using side [OF k False] w(7) [OF k] s8 room w(2) unfolding kept(2) [OF k False] by (auto simp: mv [OF k False])
    qed
  next
    fix k l assume kl: "k < pg_cnt p" "l < pg_cnt p" "k \<noteq> l"
    have lu: "s' \<le> pg_upper p + s" using room by simp
    have one: "pg_ptr q j + n_size ?L q (pg_ptr q j) \<le> pg_ptr q indx \<or> pg_ptr q indx + s' \<le> pg_ptr q j"
      if "j < pg_cnt p" "j \<noteq> indx" for j
      using side [OF that] w(7) [OF that(1)] lu s8 unfolding kept(2) [OF that] at by (auto simp: mv [OF that])
    show "pg_ptr q k + n_size ?L q (pg_ptr q k) \<le> pg_ptr q l \<or> pg_ptr q l + n_size ?L q (pg_ptr q l) \<le> pg_ptr q k"
    proof (cases "k = indx \<or> l = indx")
      case True
      then show ?thesis using one [of k] one [of l] kl new(2) at by auto
    next
      case False
      then show ?thesis
        using w(8) [OF kl] side [OF kl(1)] side [OF kl(2)] w(7) [OF kl(1)] w(7) [OF kl(2)] lu kept(2) [of k] kept(2) [of l] mv [of k] mv [of l] kl
        by (auto split: if_splits)
    qed
  qed
qed

lemma ptrs_move_spec:
  "16 + 2 * (i + m) \<le> length p \<Longrightarrow> \<exists>q. ptrs_move p ptr delta m i = Some q \<and> length q = length p
     \<and> (\<forall>k. pg_ptr q k = (if i \<le> k \<and> k < i + m \<and> pg_ptr p k \<le> ptr then indx_subi (pg_ptr p k) delta else pg_ptr p k))
     \<and> (\<forall>k n. k + n \<le> 16 \<or> 16 + 2 * (i + m) \<le> k \<longrightarrow> sub q k n = sub p k n)"
proof (induction m arbitrary: p i)
  case (Suc m)
  let ?v = "pg_ptr p i"
  define Q where "Q = (if ?v \<le> ptr then blit p (16 + 2 * i) (le_bytes 2 (indx_subi ?v delta)) else p)"
  have i: "18 + 2 * i \<le> length p" using Suc.prems by simp
  have lQ: "length Q = length p" using i by (simp add: Q_def)
  have v: "indx_subi ?v delta < 2 ^ 16" by (simp add: indx_subi_def)
  have ptrQ: "pg_ptr Q k = (if k = i \<and> ?v \<le> ptr then indx_subi ?v delta else pg_ptr p k)" for k
    using pg_ptr_blit [OF i, of "indx_subi ?v delta" k] v by (cases "k = i") (simp_all add: Q_def)
  have subQ: "sub Q k n = sub p k n" if "k + n \<le> 16 \<or> 18 + 2 * i \<le> k" for k n
    using that i by (auto simp: Q_def region_simps)
  have l: "16 + 2 * (i + 1 + m) \<le> length Q" using Suc.prems lQ by simp
  have step: "ptrs_move p ptr delta (Suc m) i = ptrs_move Q ptr delta m (i + 1)"
    using i by (simp add: page_hdr st_def PAGEHDRSZ_def Q_def)
  obtain q where q: "ptrs_move Q ptr delta m (i + 1) = Some q" "length q = length Q"
    "\<And>k. pg_ptr q k = (if i + 1 \<le> k \<and> k < i + 1 + m \<and> pg_ptr Q k \<le> ptr then indx_subi (pg_ptr Q k) delta else pg_ptr Q k)"
    "\<And>k n. k + n \<le> 16 \<or> 16 + 2 * (i + 1 + m) \<le> k \<Longrightarrow> sub q k n = sub Q k n"
    using Suc.IH [OF l] by blast
  have "pg_ptr q k = (if i \<le> k \<and> k < i + Suc m \<and> pg_ptr p k \<le> ptr then indx_subi (pg_ptr p k) delta else pg_ptr p k)" for k
    by (cases "k = i") (auto simp: q(3) ptrQ)
  moreover have "sub q k n = sub p k n" if "k + n \<le> 16 \<or> 16 + 2 * (i + Suc m) \<le> k" for k n
    using that q(4) [of k n] subQ [of k n] by auto
  ultimately show ?case using step q(1,2) lQ by auto
qed simp

lemma EVEN_8: "EVEN (8 + n) = 8 + EVEN n"
  unfolding EVEN_def by presburger

lemma branch_node_size: "n_size False p off = 8 + EVEN (n_ksize p off)"
  by (simp add: n_size_def n_dsize_def data_size_def EVEN_8)

text \<open>The pointers and the bytes below the key, after the shift; without one nothing moves.\<close>

lemma shift_node_spec:
  assumes wf: "page_wf p" and i: "indx < pg_cnt p" and P: "P = pg_ptr p indx" and s: "s = n_size (pg_leaf p) p P"
    and room: "pg_lower p + s' \<le> pg_upper p + s" "8 \<le> s'" and delta: "delta = int s' - int s"
  obtains q where "(if delta \<noteq> 0 then shift_node p P delta else Some p) = Some q" "length q = length p"
    "pg_lower q = pg_lower p" "pg_upper q = pg_upper p + s - s'" "pg_flags q = pg_flags p"
    "\<And>k. k < pg_cnt p \<Longrightarrow> pg_ptr q k = moved P s s' (pg_ptr p k)"
    "\<And>k n. pg_upper p \<le> k \<Longrightarrow> k + n \<le> P + 8 \<Longrightarrow> sub q (k + s - s') n = sub p k n"
    "\<And>k n. P + s \<le> k \<Longrightarrow> sub q k n = sub p k n"
proof (cases "delta = 0")
  case True
  then have "s' = s" using delta by simp
  then show ?thesis using True that [of p] by (simp add: moved_def)
next
  case False
  note w = page_wfD [OF wf]
  let ?n = "pg_cnt p" and ?up = "pg_upper p"
  have Pb: "?up \<le> P" "P + s \<le> length p" "8 \<le> s" using w(7) [OF i] P s n_size_ge(2) by auto
  have len: "16 + 2 * ?n \<le> ?up" "16 \<le> length p" "16 + 2 * (0 + ?n) \<le> length p" using w(1-3) by simp_all
  have sub: "indx_subi v delta = v + s - s'" if "?up \<le> v" "v \<le> P" for v
  proof -
    have "int v - delta = int (v + s - s')" using that room w(2) delta by (simp add: of_nat_diff)
    moreover have "v + s - s' < 2 ^ 16" using that Pb w(4) by simp
    ultimately show ?thesis by (simp add: indx_subi_def nat_mod_as_int)
  qed
  obtain p1 where p1: "ptrs_move p P delta ?n 0 = Some p1" "length p1 = length p"
    "\<And>k. pg_ptr p1 k = (if 0 \<le> k \<and> k < 0 + ?n \<and> pg_ptr p k \<le> P then indx_subi (pg_ptr p k) delta else pg_ptr p k)"
    "\<And>k n. k + n \<le> 16 \<or> 16 + 2 * (0 + ?n) \<le> k \<Longrightarrow> sub p1 k n = sub p k n"
    using ptrs_move_spec [OF len(3), of P delta] by blast
  have h1: "pg_upper p1 = ?up" "pg_lower p1 = pg_lower p" "pg_flags p1 = pg_flags p"
    by (simp_all add: pg_upper_def pg_lower_def pg_flags_def le_at_def p1(4))
  define bs where "bs = sub p1 ?up (P - ?up + 8)"
  have lbs: "length bs = P - ?up + 8" using Pb p1(2) by (simp add: bs_def)
  let ?o = "?up + s - s'"
  have o: "?o + length bs \<le> length p" "16 + 2 * ?n \<le> ?o" "?o + length bs \<le> P + s" "?o < 2 ^ 16" "s' \<le> ?up + s"
    using Pb lbs room w(1,4) by simp_all
  define p2 where "p2 = blit p1 ?o bs"
  define q where "q = blit p2 14 (le_bytes 2 ?o)"
  have l: "length p2 = length p" "length q = length p" using o(1) p1(2) len(2) by (simp_all add: p2_def q_def)
  have mv: "move_bytes p1 ?o ?up (P - ?up + NODESIZE) = Some p2"
    using Pb o(1) p1(2) lbs by (simp add: move_bytes_def get_bytes_def put_bytes_def p2_def bs_def sub_def NODESIZE_def)
  have dst: "nat (int ?up - delta) = ?o" "\<not> int ?up < delta" using delta o(5) by (simp_all add: nat_eq_iff of_nat_diff)
  have "shift_node p P delta = Some q"
    using p1(1,2) len(2) h1(1) Pb(1) dst mv sub [of ?up] l(1)
    by (simp add: shift_node_def page_hdr st_def q_def)
  moreover have "pg_lower q = pg_lower p" "pg_upper q = ?o" "pg_flags q = pg_flags p"
    using l len o p1(2) h1(2,3) by (simp_all add: q_def p2_def pg_upper_def pg_lower_def pg_flags_def region_simps)
  moreover have "pg_ptr q k = moved P s s' (pg_ptr p k)" if k: "k < ?n" for k
  proof -
    have "pg_ptr q k = pg_ptr p1 k" using k l len o p1(2) by (simp add: q_def p2_def pg_ptr_def region_simps)
    then show ?thesis using k w(7) [OF k] sub [of "pg_ptr p k"] by (simp add: p1(3) moved_def)
  qed
  moreover have "sub q (k + s - s') n = sub p k n" if k: "?up \<le> k" "k + n \<le> P + 8" for k n
  proof -
    have eq: "k + s - s' = ?o + (k - ?up)" using k(1) o(5) by simp
    then have "?o \<le> k + s - s'" by simp
    then have "16 \<le> k + s - s'" using o(2) by linarith
    then have "sub q (k + s - s') n = sub p2 (k + s - s') n" unfolding q_def using l len by (intro sub_blit_other) simp_all
    also have "\<dots> = sub p2 (?o + (k - ?up)) n" by (simp only: eq)
    also have "\<dots> = sub bs (k - ?up) n" unfolding p2_def by (rule sub_blit_inside) (use o(1) p1(2) lbs k in simp_all)
    also have "\<dots> = sub p1 k n" unfolding bs_def using k by (subst sub_sub) simp_all
    also have "\<dots> = sub p k n" using k len by (intro p1(4)) simp
    finally show ?thesis .
  qed
  moreover have "sub q k n = sub p k n" if k: "P + s \<le> k" for k n
  proof -
    have "sub q k n = sub p1 k n" using k len l o p1(2) Pb by (simp add: q_def p2_def region_simps)
    then show ?thesis using p1(4) [of k n] k len Pb by simp
  qed
  ultimately show ?thesis using that l(2) False by simp
qed

text \<open>Writing the key into its node.\<close>

definition key_written :: "page \<Rightarrow> nat \<Rightarrow> mval \<Rightarrow> page" where
  "key_written p off key = blit (blit p (off + 6) (le_bytes 2 (length key))) (off + 8) key"

lemma blit_le_at: "k + n \<le> length p \<Longrightarrow> le_at n p k = x \<Longrightarrow> blit p k (le_bytes n x) = p"
proof -
  assume k: "k + n \<le> length p" and x: "le_at n p k = x"
  have "le_bytes n x = sub p k n" using k x by (intro le_val_inj) (use le_at_less [OF k] x in \<open>simp_all add: le_at_def le_val_le_bytes\<close>)
  then show ?thesis using k by (simp add: blit_def sub_def take_add [symmetric] flip: append_assoc)
qed

lemma key_written_spec:
  assumes "off + 8 + length key \<le> length p" "length key < 2 ^ 16"
  shows "length (key_written p off key) = length p"
    "k + n \<le> off + 6 \<or> off + 8 + length key \<le> k \<Longrightarrow> sub (key_written p off key) k n = sub p k n"
    "n_ksize (key_written p off key) off = length key"
    "n_flags (key_written p off key) off = n_flags p off" "n_word (key_written p off key) off = n_word p off"
    "sub (key_written p off key) (off + 8) (length key) = key"
proof -
  let ?p1 = "blit p (off + 6) (le_bytes 2 (length key))"
  have l: "length ?p1 = length p" using assms(1) by simp
  show "length (key_written p off key) = length p" using assms(1) l by (simp add: key_written_def)
  show r: "sub (key_written p off key) k n = sub p k n" if "k + n \<le> off + 6 \<or> off + 8 + length key \<le> k" for k n
    using that assms(1) l by (auto simp: key_written_def region_simps)
  then show "n_flags (key_written p off key) off = n_flags p off" "n_word (key_written p off key) off = n_word p off"
    by (simp_all add: n_flags_def n_word_def le_at_def)
  show "n_ksize (key_written p off key) off = length key" "sub (key_written p off key) (off + 8) (length key) = key"
    using assms l by (simp_all add: key_written_def n_ksize_def region_simps)
qed

lemma write_key_steps:
  assumes "off + 8 + length key \<le> length p"
  shows "do { ks \<leftarrow> NODEKSZ p off;
       mp \<leftarrow> (if ks \<noteq> length key then st 2 p (off + 6) (length key) else Some p);
       mp \<leftarrow> (if key \<noteq> [] then put_bytes mp (off + NODESIZE) key else Some mp);
       Some (Key_updated mp) } = Some (Key_updated (key_written p off key))"
proof -
  let ?p1 = "blit p (off + 6) (le_bytes 2 (length key))"
  have 1: "(if n_ksize p off \<noteq> length key then st 2 p (off + 6) (length key) else Some p) = Some ?p1"
    using assms blit_le_at [of "off + 6" 2 p "length key"] by (simp add: st_def n_ksize_def)
  have 2: "(if key \<noteq> [] then put_bytes ?p1 (off + NODESIZE) key else Some ?p1) = Some (key_written p off key)"
    using assms by (simp add: put_bytes_def NODESIZE_def key_written_def)
  show ?thesis using assms by (simp only: node_reads Option.bind.bind_lunit 1 2)
qed

lemma mdb_update_key_room:
  assumes wf: "page_wf mp" and br: "\<not> pg_leaf mp" and i: "indx < pg_cnt mp" and key: "length key < 2 ^ 16"
    and room: "pg_lower mp + EVEN (length key) \<le> pg_upper mp + EVEN (length (nd_key (page_nodes mp ! indx)))"
  shows "\<exists>q. mdb_update_key mp indx key = Some (Key_updated q) \<and> page_wf q \<and> length q = length mp \<and> pg_flags q = pg_flags mp
    \<and> page_nodes q = (page_nodes mp)[indx := (page_nodes mp ! indx)\<lparr>nd_key := key\<rparr>]"
proof -
  note w = page_wfD [OF wf]
  define P where "P = pg_ptr mp indx"
  define s where "s = n_size (pg_leaf mp) mp P"
  define s' where "s' = 8 + EVEN (length key)"
  define delta where "delta = int (EVEN (length key)) - int (EVEN (n_ksize mp P))"
  have sk: "s = 8 + EVEN (n_ksize mp P)" using br by (simp add: s_def branch_node_size)
  have Pb: "pg_upper mp \<le> P" "P + s \<le> length mp" "8 \<le> s" using w(7) [OF i] sk by (auto simp: P_def s_def)
  have len: "16 \<le> length mp" "18 + 2 * indx \<le> length mp" "P + 8 \<le> length mp" using w(1-3) i Pb by linarith+
  have nd: "page_nodes mp ! indx = node_at False mp P" using i br by (simp add: page_nodes_def P_def)
  have lk: "length (nd_key (page_nodes mp ! indx)) = n_ksize mp P"
  proof -
    have "P + 8 + n_ksize mp P \<le> length mp" using Pb(2) sk EVEN_bounds(1) [of "n_ksize mp P"] by linarith
    then show ?thesis by (simp add: nd node_at_def)
  qed
  have rm: "pg_lower mp + s' \<le> pg_upper mp + s" "8 \<le> s'" "even s'" using room unfolding lk s'_def sk by simp_all
  have d: "delta = int s' - int s" by (simp add: delta_def sk s'_def)
  obtain q1 where q1: "(if delta \<noteq> 0 then shift_node mp P delta else Some mp) = Some q1" "length q1 = length mp"
    "pg_lower q1 = pg_lower mp" "pg_upper q1 = pg_upper mp + s - s'" "pg_flags q1 = pg_flags mp"
    "\<And>k. k < pg_cnt mp \<Longrightarrow> pg_ptr q1 k = moved P s s' (pg_ptr mp k)"
    "\<And>k n. pg_upper mp \<le> k \<Longrightarrow> k + n \<le> P + 8 \<Longrightarrow> sub q1 (k + s - s') n = sub mp k n"
    "\<And>k n. P + s \<le> k \<Longrightarrow> sub q1 k n = sub mp k n"
    using shift_node_spec [OF wf i P_def s_def rm(1,2) d] by blast
  define off where "off = P + s - s'"
  define q where "q = key_written q1 off key"
  have lu: "s' \<le> pg_upper mp + s" using rm(1) by simp
  have off: "off + s' = P + s" "off + 8 + length key \<le> off + s'" "pg_upper mp + s - s' \<le> off" "pg_lower mp \<le> pg_upper mp + s - s'"
  proof -
    show 1: "off + s' = P + s" using lu Pb(1) by (simp add: off_def)
    show "off + 8 + length key \<le> off + s'" using EVEN_bounds(1) [of "length key"] by (simp add: s'_def)
    show "pg_upper mp + s - s' \<le> off" "pg_lower mp \<le> pg_upper mp + s - s'" using Pb(1) rm(1) by (simp_all add: off_def)
  qed
  have fit: "off + 8 + length key \<le> length q1" using off(1,2) Pb(2) q1(2) by simp
  note kw = key_written_spec [OF fit key, folded q_def]
  have ptr: "pg_ptr q1 indx = off" using i by (simp add: q1(6) moved_def P_def [symmetric] off_def)
  have left: "SIZELEFT mp = Some (pg_upper mp - pg_lower mp)"
  proof -
    have "pg_upper mp - pg_lower mp < 65536" using w(3,4) by simp
    then show ?thesis using len(1) w(2)
      by (simp add: SIZELEFT_def page_hdr of_nat_diff [symmetric] nat_mod_as_int del: of_nat_diff)
  qed
  have nosplit: "\<not> (0 < delta \<and> int (pg_upper mp - pg_lower mp) < delta)" using rm(1) w(2) d by simp
  have "mdb_update_key mp indx key = Some (Key_updated q)"
  proof -
    have np: "NODEPTR mp indx = Some P" "NODEPTR q1 indx = Some off"
      using len q1(2) ptr by (simp_all add: NODEPTR_def page_hdr P_def)
    show ?thesis
      unfolding mdb_update_key_def np(1) node_reads(1) [OF len(3)] left Option.bind.bind_lunit Let_def delta_def [symmetric]
      by (simp only: nosplit if_False q1(1) np(2) Option.bind.bind_lunit write_key_steps [OF fit] q_def)
  qed
  moreover have lq: "length q = length mp" using kw(1) q1(2) by simp
  moreover have sb: "sub q k n = sub q1 k n" if "k + n \<le> off + 6 \<or> off + s' \<le> k" for k n
    by (rule kw(2)) (use that off in auto)
  have hdr: "le_at n q k = le_at n q1 k" if "k + n \<le> pg_lower mp" for k n
    unfolding le_at_def by (subst sb) (use that off in auto)
  have h: "pg_lower q = pg_lower mp" "pg_upper q = pg_upper mp + s - s'" "pg_flags q = pg_flags mp"
    using w(1) q1(3-5) by (simp_all add: pg_lower_def pg_upper_def pg_flags_def hdr)
  have pp: "pg_ptr q k = moved P s s' (pg_ptr mp k)" if "k < pg_cnt mp" for k
  proof -
    have "pg_ptr q k = pg_ptr q1 k" unfolding pg_ptr_def by (rule hdr) (use that w(1) in simp)
    then show ?thesis using q1(6) [OF that] by simp
  qed
  have below: "sub q (k + s - s') n = sub mp k n" if "pg_upper mp \<le> k" "k + n \<le> P" for k n
  proof -
    have "k + s - s' + n \<le> off" using that lu by (simp add: off_def)
    then have "sub q (k + s - s') n = sub q1 (k + s - s') n" by (intro sb) simp
    then show ?thesis using q1(7) [of k n] that by simp
  qed
  have above: "sub q k n = sub mp k n" if "P + s \<le> k" for k n
    using sb [of k n] q1(8) [OF that] that off(1) by simp
  have "sub q1 off 8 = sub mp P 8" using q1(7) [of P 8] Pb(1) by (simp add: off_def)
  then have hd: "n_flags q1 off = n_flags mp P" "n_word q1 off = n_word mp P"
    using le_at_moved [of q1 off 8 mp P 4 2] le_at_moved [of q1 off 8 mp P 0 4] by (simp_all add: n_flags_def n_word_def)
  have new: "node_at False q off = (page_nodes mp ! indx)\<lparr>nd_key := key\<rparr>" "n_size False q off = s'"
    using kw(3-6) hd by (simp_all add: nd node_at_def n_dsize_def data_size_def branch_node_size s'_def sub_def)
  have brf: "pg_leaf mp = False" using br by simp
  note res = page_resized [OF wf i P_def s_def rm(1,3,2) lq h(1,2,3) pp below above
      new [folded brf, unfolded off_def]]
  ultimately show ?thesis using res h(3) by blast
qed

lemma mdb_update_key_full:
  assumes wf: "page_wf mp" and br: "\<not> pg_leaf mp" and i: "indx < pg_cnt mp"
    and room: "\<not> pg_lower mp + EVEN (length key) \<le> pg_upper mp + EVEN (length (nd_key (page_nodes mp ! indx)))"
  shows "\<exists>q pgno. mdb_update_key mp indx key = Some (Key_split q pgno) \<and> page_wf q \<and> pg_flags q = pg_flags mp
    \<and> page_nodes q = take indx (page_nodes mp) @ drop (Suc indx) (page_nodes mp)
    \<and> pgno = nd_word (page_nodes mp ! indx) + 2 ^ 32 * nd_flags (page_nodes mp ! indx)"
proof -
  note w = page_wfD [OF wf]
  define P where "P = pg_ptr mp indx"
  have Pb: "P + (8 + EVEN (n_ksize mp P)) \<le> length mp" using w(7) [OF i] br by (auto simp: P_def branch_node_size)
  have len: "16 \<le> length mp" "18 + 2 * indx \<le> length mp" "P + 8 \<le> length mp" using w(1-3) i Pb by linarith+
  have nd: "page_nodes mp ! indx = node_at False mp P" using i br by (simp add: page_nodes_def P_def)
  have lk: "length (nd_key (page_nodes mp ! indx)) = n_ksize mp P"
  proof -
    have "P + 8 + n_ksize mp P \<le> length mp" using Pb EVEN_bounds(1) [of "n_ksize mp P"] by linarith
    then show ?thesis by (simp add: nd node_at_def)
  qed
  have left: "SIZELEFT mp = Some (pg_upper mp - pg_lower mp)"
  proof -
    have "pg_upper mp - pg_lower mp < 65536" using w(3,4) by simp
    then show ?thesis using len(1) w(2)
      by (simp add: SIZELEFT_def page_hdr of_nat_diff [symmetric] nat_mod_as_int del: of_nat_diff)
  qed
  have pg: "NODEPGNO mp P = Some (n_word mp P + 2 ^ 32 * n_flags mp P)"
    using len(3) le_at_split [of P 2 2 mp]
    by (simp add: NODEPGNO_def NODEFLAGS_def ld_le_at n_word_def n_flags_def)
  obtain q where q: "mdb_node_del mp indx 0 = Some q" "page_wf q"
    "page_nodes q = take indx (page_nodes mp) @ drop (Suc indx) (page_nodes mp)" "pg_flags q = pg_flags mp"
    by (rule mdb_node_del_spec [OF wf i, of 0])
  have full: "0 < int (EVEN (length key)) - int (EVEN (n_ksize mp P))
      \<and> int (pg_upper mp - pg_lower mp) < int (EVEN (length key)) - int (EVEN (n_ksize mp P))"
    using room w(2) unfolding lk by linarith
  have "mdb_update_key mp indx key = Some (Key_split q (n_word mp P + 2 ^ 32 * n_flags mp P))"
    using len left full pg q(1)
    by (simp add: mdb_update_key_def NODEPTR_def page_hdr node_reads P_def [symmetric])
  then show ?thesis using q by (simp add: nd node_at_def)
qed

section \<open>Properties\<close>

text \<open>C29: On a branch page in order \<open>mdb_update_key\<close> replaces the key of the node at the index and nothing else, moves
  the other nodes as the rounded size of the key requires and leaves a page in order; where the page has too little room
  it deletes the node and hands its page number on to the split.\<close>

theorem mdb_update_key_correct:
  assumes "page_wf mp" "\<not> pg_leaf mp" "indx < pg_cnt mp" "length key < 2 ^ 16" and nd: "nd = page_nodes mp ! indx"
  shows "if pg_lower mp + EVEN (length key) \<le> pg_upper mp + EVEN (length (nd_key nd))
    then \<exists>q. mdb_update_key mp indx key = Some (Key_updated q) \<and> page_wf q \<and> length q = length mp
           \<and> pg_flags q = pg_flags mp \<and> page_nodes q = (page_nodes mp)[indx := nd\<lparr>nd_key := key\<rparr>]
    else \<exists>q. mdb_update_key mp indx key = Some (Key_split q (nd_word nd + 2 ^ 32 * nd_flags nd)) \<and> page_wf q
           \<and> pg_flags q = pg_flags mp \<and> page_nodes q = take indx (page_nodes mp) @ drop (Suc indx) (page_nodes mp)"
  using mdb_update_key_room [OF assms(1-4)] mdb_update_key_full [OF assms(1-3), of key] unfolding nd by auto

text \<open>A branch page with two nodes: the first, without a key, of page 3, and the second, with the key \<open>b\<close>, of page 7.\<close>

definition page_branch :: page where
  "page_branch = [5, 0, 0, 0, 0, 0, 0, 0, 0, 0, 1, 0, 20, 0, 46, 0, 56, 0, 46, 0] @ replicate 26 0
     @ [7, 0, 0, 0, 0, 0, 1, 0, 98, 0] @ [3, 0, 0, 0, 0, 0, 0, 0]"

lemma page_branch_hdr: "length page_branch = 64" "pg_lower page_branch = 20" "pg_upper page_branch = 46"
  "pg_flags page_branch = 1" "pg_cnt page_branch = 2" "\<not> pg_leaf page_branch" "pg_ptr page_branch 0 = 56" "pg_ptr page_branch (Suc 0) = 46"
  by (simp_all add: page_branch_def pg_lower_def pg_upper_def pg_flags_def pg_cnt_def pg_leaf_def pg_ptr_def le_at_nth
      F_ISSET_def P_LEAF_def)

lemma page_branch_node: "n_ksize page_branch 46 = 1" "n_ksize page_branch 56 = 0"
  "n_flags page_branch 46 = 0" "n_flags page_branch 56 = 0" "n_word page_branch 46 = 7" "n_word page_branch 56 = 3"
  by (simp_all add: page_branch_def n_ksize_def n_flags_def n_word_def le_at_nth nth_append)

lemma page_branch_wf: "page_wf page_branch"
proof (rule page_wfI)
  have sz: "n_size False page_branch 46 = 10" "n_size False page_branch 56 = 8"
    by (simp_all add: branch_node_size page_branch_node EVEN_def)
  have lf: "pg_leaf page_branch = False" by (simp add: page_branch_hdr)
  show "pg_upper page_branch \<le> pg_ptr page_branch i \<and> even (pg_ptr page_branch i)
     \<and> pg_ptr page_branch i + n_size (pg_leaf page_branch) page_branch (pg_ptr page_branch i) \<le> length page_branch"
    if "i < pg_cnt page_branch" for i
    using that unfolding lf by (auto simp: page_branch_hdr sz dest!: less_2_cases)
  show "pg_ptr page_branch i + n_size (pg_leaf page_branch) page_branch (pg_ptr page_branch i) \<le> pg_ptr page_branch j
     \<or> pg_ptr page_branch j + n_size (pg_leaf page_branch) page_branch (pg_ptr page_branch j) \<le> pg_ptr page_branch i"
    if "i < pg_cnt page_branch" "j < pg_cnt page_branch" "i \<noteq> j" for i j
    using that unfolding lf by (auto simp: page_branch_hdr sz dest!: less_2_cases)
  show "pg_upper page_branch + sum_list (map (\<lambda>i. n_size (pg_leaf page_branch) page_branch (pg_ptr page_branch i)) [0..<pg_cnt page_branch])
      = length page_branch"
    unfolding lf by (simp add: page_branch_hdr sz upt_rec)
qed (simp_all add: page_branch_hdr F_ISSET_def P_LEAF2_def)

lemma page_branch_nodes: "page_nodes page_branch =
    [\<lparr>nd_flags = 0, nd_key = [], nd_word = 3, nd_data = []\<rparr>, \<lparr>nd_flags = 0, nd_key = [98], nd_word = 7, nd_data = []\<rparr>]"
proof -
  have "sub page_branch 54 1 = [98]" by (simp add: page_branch_def sub_def)
  then show ?thesis
    by (simp add: page_nodes_def page_branch_hdr node_at_def page_branch_node n_dsize_def data_size_def upt_rec)
      (simp add: sub_def)
qed

theorem mdb_update_key_correct_witness:
  "\<exists>q. mdb_update_key page_branch 1 [97, 97, 97] = Some (Key_updated q) \<and> page_wf q
     \<and> page_nodes q = [\<lparr>nd_flags = 0, nd_key = [], nd_word = 3, nd_data = []\<rparr>,
         \<lparr>nd_flags = 0, nd_key = [97, 97, 97], nd_word = 7, nd_data = []\<rparr>]"
proof -
  have i: "1 < pg_cnt page_branch" "length [97, 97, 97 :: u8] < 2 ^ 16" by (simp_all add: page_branch_hdr)
  show ?thesis
    using mdb_update_key_correct [OF page_branch_wf page_branch_hdr(6) i refl]
    by (auto simp: page_branch_nodes page_branch_hdr EVEN_def)
qed

end
