(* ===== verification/Mdb_Touch.thy ===== *)
theory Mdb_Touch
  imports Mdb_Alloc Mdb_Update
begin

text \<open>
  \<open>lmdb/mdb.c\<close>: copy on write. Before a writer changes the page under a cursor, \<open>mdb_page_touch\<close> makes a private
  copy of it: it allocates a page (\<open>Mdb_Alloc\<close>), copies the used parts (\<open>Mdb_Update\<close>), puts the old number on the list
  of freed pages, changes the number in the parent page or the root, and moves every cursor of the transaction that
  stands on the old page. \<open>mdb_page_unspill\<close> brings a page back that was written out early.
  Pages are in one memory, by address. Sub-cursors of \<open>MDB_DUPSORT\<close> databases are left out.
\<close>

unbundle bit_operations_syntax

definition MDB_TXN_SPILLS :: u32 where "MDB_TXN_SPILLS = 0x08"

section \<open>State\<close>

type_synonym pages = "u64 \<Rightarrow> page option"

text \<open>A cursor: the stack of page addresses with the index in each, and its flags.\<close>

record tcursor =
  tc_pg :: "u64 list"
  tc_ki :: "nat list"
  tc_flags :: u32

text \<open>The transaction, the environment's lists, the memory, the root of the cursor's database, and the other cursors
  that the transaction tracks for it.\<close>

record tstate =
  ts_tx :: txn
  ts_env :: pgstate
  ts_pages :: pages
  ts_root :: u64
  ts_cursors :: "tcursor list"

text \<open>What the functions get: the context of the allocation, the parents of the transaction, and what memory that was
  just allocated contains.\<close>

record touch_ctx =
  tt_alloc :: alloc_ctx
  tt_parents :: "txn list"
  tt_new :: "u64 \<Rightarrow> page"

definition psize :: "touch_ctx \<Rightarrow> nat" where "psize t = unat (ac_psize (tt_alloc t))"

text \<open>The memory at an address that \<open>mdb_page_malloc\<close> has returned.\<close>

definition with_page :: "touch_ctx \<Rightarrow> pages \<Rightarrow> u64 \<Rightarrow> pages" where
  "with_page t m np = (case m np of None \<Rightarrow> m(np \<mapsto> tt_new t np) | Some _ \<Rightarrow> m)"

definition MP_PGNO64 :: "page \<Rightarrow> u64 option" where "MP_PGNO64 p = map_option of_nat (MP_PGNO p)"

definition mark_dirty :: "page \<Rightarrow> page option" where
  "mark_dirty p = do { f \<leftarrow> MP_FLAGS p; st 2 p 10 (f OR P_DIRTY) }"

text \<open>The macro \<open>mdb_midl_xappend\<close>.\<close>

definition mdb_midl_xappend :: "idl \<Rightarrow> u64 \<Rightarrow> idl option" where
  "mdb_midl_xappend l x = do { n \<leftarrow> ids_rd l 0; l \<leftarrow> ids_wr l 0 (n + 1); n \<leftarrow> ids_rd l 0; ids_wr l (unat n) x }"

definition txn_error :: "tstate \<Rightarrow> tstate" where
  "txn_error s = s\<lparr>ts_tx := (ts_tx s)\<lparr>mt_flags := mt_flags (ts_tx s) OR MDB_TXN_ERROR\<rparr>\<rparr>"

section \<open>Bringing a page back\<close>

text \<open>The search of the spill lists: which transaction of the chain, and where in its list.\<close>

fun spill_find :: "txn list \<Rightarrow> u64 \<Rightarrow> nat \<Rightarrow> (nat \<times> nat) option option" where
  "spill_find [] pn level = Some None"
| "spill_find (tx2 # parents) pn level =
     (case mt_spill_pgs tx2 of
        None \<Rightarrow> spill_find parents pn (level + 1)
      | Some l \<Rightarrow>
          do { x \<leftarrow> mdb_midl_search l pn;
               n \<leftarrow> ids_rd l 0;
               hit \<leftarrow> (if x \<le> unat n then map_option (\<lambda>v. v = pn) (ids_rd l x) else Some False);
               if hit then Some (Some (level, x)) else spill_find parents pn (level + 1) })"

text \<open>The page is no longer spilled in its own transaction: the list is cut or its entry marked.\<close>

definition spill_remove :: "txn \<Rightarrow> nat \<Rightarrow> txn option" where
  "spill_remove tx x =
     do { l \<leftarrow> mt_spill_pgs tx;
          n \<leftarrow> ids_rd l 0;
          l \<leftarrow> (if x = unat n then ids_wr l 0 (n - 1) else do { v \<leftarrow> ids_rd l x; ids_wr l x (v OR 1) });
          Some (tx\<lparr>mt_spill_pgs := Some l\<rparr>) }"

definition mdb_page_unspill :: "touch_ctx \<Rightarrow> u64 \<Rightarrow> tstate \<Rightarrow> (int \<times> u64 option \<times> tstate) option" where
  "mdb_page_unspill t mp s =
     do { p \<leftarrow> ts_pages s mp;
          pgno \<leftarrow> MP_PGNO64 p;
          found \<leftarrow> spill_find (ts_tx s # tt_parents t) (push_bit 1 pgno) 0;
          case found of
            None \<Rightarrow> Some (0, None, s)
          | Some (level, x) \<Rightarrow>
              if mt_dirty_room (ts_tx s) = 0 then Some (MDB_TXN_FULL, None, s)
              else do {
                f \<leftarrow> MP_FLAGS p;
                num \<leftarrow> (if F_ISSET f P_OVERFLOW then ld 4 p 12 else Some 1);
                let (np, tx, env) = (if ac_writemap (tt_alloc t) then (Some mp, ts_tx s, ts_env s)
                                     else mdb_page_malloc (tt_alloc t) num (ts_tx s) (ts_env s));
                case np of
                  None \<Rightarrow> Some (ENOMEM, None, s\<lparr>ts_tx := tx, ts_env := env\<rparr>)
                | Some np \<Rightarrow>
                    do { let m = with_page t (ts_pages s) np;
                         dst \<leftarrow> m np;
                         q \<leftarrow> (if ac_writemap (tt_alloc t) then Some p
                              else if 1 < num then do { bs \<leftarrow> get_bytes p 0 (num * psize t); put_bytes dst 0 bs }
                              else mdb_page_copy dst p (psize t));
                         tx \<leftarrow> (if level = 0 then spill_remove tx x else Some tx);
                         pgno \<leftarrow> MP_PGNO64 q;
                         tx \<leftarrow> mdb_page_dirty tx pgno np;
                         q \<leftarrow> mark_dirty q;
                         Some (0, Some np, s\<lparr>ts_tx := tx, ts_env := env, ts_pages := m(np \<mapsto> q)\<rparr>) } } }"

section \<open>Touching a page\<close>

text \<open>From \<open>done\<close> on: the cursor and the others that stand on the page move to the copy.\<close>

definition move_cursor :: "nat \<Rightarrow> u64 \<Rightarrow> u64 \<Rightarrow> tcursor \<Rightarrow> tcursor" where
  "move_cursor snum mp np m2 =
     (if length (tc_pg m2) < snum then m2
      else if tc_pg m2 ! (snum - 1) = mp then m2\<lparr>tc_pg := (tc_pg m2)[snum - 1 := np]\<rparr> else m2)"

definition touch_done :: "tcursor \<Rightarrow> u64 \<Rightarrow> u64 \<Rightarrow> tstate \<Rightarrow> int \<times> tcursor \<times> tstate" where
  "touch_done mc mp np s =
     (let snum = length (tc_pg mc)
      in (0, mc\<lparr>tc_pg := (tc_pg mc)[snum - 1 := np]\<rparr>, s\<lparr>ts_cursors := map (move_cursor snum mp np) (ts_cursors s)\<rparr>))"

definition touch_copy :: "touch_ctx \<Rightarrow> u64 \<Rightarrow> u64 \<Rightarrow> u64 \<Rightarrow> tstate \<Rightarrow> tstate option" where
  "touch_copy t mp np pgno s =
     do { src \<leftarrow> ts_pages s mp; dst \<leftarrow> ts_pages s np;
          q \<leftarrow> mdb_page_copy dst src (psize t);
          q \<leftarrow> st 8 q 0 (unat pgno);
          q \<leftarrow> mark_dirty q;
          Some (s\<lparr>ts_pages := (ts_pages s)(np \<mapsto> q)\<rparr>) }"

text \<open>The number of the page in its parent, or the root.\<close>

definition touch_parent :: "tcursor \<Rightarrow> u64 \<Rightarrow> tstate \<Rightarrow> tstate option" where
  "touch_parent mc pgno s =
     (let top = length (tc_pg mc) - 1
      in if top \<noteq> 0
         then do { let pa = tc_pg mc ! (top - 1);
                   parent \<leftarrow> ts_pages s pa;
                   ki \<leftarrow> rd (tc_ki mc) (top - 1);
                   off \<leftarrow> NODEPTR parent ki;
                   parent \<leftarrow> SETPGNO parent off (unat pgno);
                   Some (s\<lparr>ts_pages := (ts_pages s)(pa \<mapsto> parent)\<rparr>) }
         else Some (s\<lparr>ts_root := pgno\<rparr>))"

text \<open>A clean page: allocate, free the old number, change the parent, copy.\<close>

definition touch_clean :: "touch_ctx \<Rightarrow> tcursor \<Rightarrow> u64 \<Rightarrow> page \<Rightarrow> tstate \<Rightarrow> (int \<times> tcursor \<times> tstate) option" where
  "touch_clean t mc mp p s =
     do { (rc, fp) \<leftarrow> mdb_midl_need (ac_al (tt_alloc t)) (mt_free_pgs (ts_tx s)) 1;
          let s = s\<lparr>ts_tx := (ts_tx s)\<lparr>mt_free_pgs := fp\<rparr>\<rparr>;
          if rc \<noteq> 0 then Some (rc, mc, txn_error s)
          else do {
            (rc, got, tx, env) \<leftarrow> mdb_page_alloc (tt_alloc t) 1 (ts_tx s) (ts_env s);
            let s = s\<lparr>ts_tx := tx, ts_env := env\<rparr>;
            if rc \<noteq> 0 then Some (rc, mc, txn_error s)
            else do {
              got \<leftarrow> got;
              (np, pgno, m) \<leftarrow> (case got of
                  Loose_page np \<Rightarrow> do { d \<leftarrow> ts_pages s np; pgno \<leftarrow> MP_PGNO64 d; Some (np, pgno, ts_pages s) }
                | New_page pgno np \<Rightarrow> do { let m = with_page t (ts_pages s) np; d \<leftarrow> m np; d \<leftarrow> st 8 d 0 (unat pgno);
                                         Some (np, pgno, m(np \<mapsto> d)) });
              old \<leftarrow> MP_PGNO64 p;
              if old = pgno then None
              else do {
                fp \<leftarrow> mdb_midl_xappend (mt_free_pgs (ts_tx s)) old;
                s \<leftarrow> touch_parent mc pgno (s\<lparr>ts_tx := (ts_tx s)\<lparr>mt_free_pgs := fp\<rparr>, ts_pages := m\<rparr>);
                s \<leftarrow> touch_copy t mp np pgno s;
                Some (touch_done mc mp np s) } } } }"

text \<open>A page that is dirty in a transaction with a parent: it may be the parent's, and is then copied.\<close>

definition touch_nested :: "touch_ctx \<Rightarrow> tcursor \<Rightarrow> u64 \<Rightarrow> page \<Rightarrow> tstate \<Rightarrow> (int \<times> tcursor \<times> tstate) option" where
  "touch_nested t mc mp p s =
     do { pgno \<leftarrow> MP_PGNO64 p;
          own \<leftarrow> dirty_lookup (mt_dirty_list (ts_tx s)) pgno;
          case own of
            Some ptr \<Rightarrow>
              if mp \<noteq> ptr then Some (MDB_CORRUPTED, mc\<lparr>tc_flags := tc_flags mc AND NOT 0x03\<rparr>, txn_error s)
              else Some (0, mc, s)
          | None \<Rightarrow>
              do { h \<leftarrow> rd (mt_dirty_list (ts_tx s)) 0;
                   if MDB_IDL_UM_MAX \<le> unat (mid h) then None
                   else let (np, tx, env) = mdb_page_malloc (tt_alloc t) 1 (ts_tx s) (ts_env s)
                   in case np of
                        None \<Rightarrow> Some (ENOMEM, mc, s\<lparr>ts_tx := tx, ts_env := env\<rparr>)
                      | Some np \<Rightarrow>
                          do { (rc, dl) \<leftarrow> mdb_mid2l_insert (mt_dirty_list tx) \<lparr>mid = pgno, mptr = np\<rparr>;
                               if rc \<noteq> 0 then None
                               else do {
                                 s \<leftarrow> touch_copy t mp np pgno
                                   (s\<lparr>ts_tx := tx\<lparr>mt_dirty_list := dl\<rparr>, ts_env := env, ts_pages := with_page t (ts_pages s) np\<rparr>);
                                 Some (touch_done mc mp np s) } } } }"

definition mdb_page_touch :: "touch_ctx \<Rightarrow> tcursor \<Rightarrow> tstate \<Rightarrow> (int \<times> tcursor \<times> tstate) option" where
  "mdb_page_touch t mc s =
     do { mp \<leftarrow> rd (tc_pg mc) (length (tc_pg mc) - 1);
          p \<leftarrow> ts_pages s mp;
          f \<leftarrow> MP_FLAGS p;
          if \<not> F_ISSET f P_DIRTY
          then do { (rc, np, s) \<leftarrow> (if mt_flags (ts_tx s) AND MDB_TXN_SPILLS \<noteq> 0 then mdb_page_unspill t mp s else Some (0, None, s));
                    if rc \<noteq> 0 then Some (rc, mc, txn_error s)
                    else case np of Some np \<Rightarrow> Some (touch_done mc mp np s) | None \<Rightarrow> touch_clean t mc mp p s }
          else if tt_parents t \<noteq> [] \<and> \<not> F_ISSET f P_SUBP then touch_nested t mc mp p s
          else Some (0, mc, s) }"

section \<open>The pieces\<close>

lemma mdb_midl_xappend_items:
  assumes "idl_wf l" "idl_cnt l < idl_cap l"
  obtains l' where "mdb_midl_xappend l x = Some l'" "idl_wf l'" "idl_items l' = idl_items l @ [x]"
proof (rule idl_append_tail [OF assms, of x])
  fix l' assume l': "idl_wf l'" "idl_items l' = idl_items l @ [x]"
    and r: "do { cnt \<leftarrow> ids_rd l 0; ids \<leftarrow> ids_wr l 0 (cnt + 1); cnt \<leftarrow> ids_rd ids 0;
          ids \<leftarrow> ids_wr ids (unat cnt) x; Some (0 :: int, ids) } = Some (0, l')"
  then have "mdb_midl_xappend l x = Some l'" by (auto simp: mdb_midl_xappend_def split: Option.bind_splits)
  then show ?thesis using that l' by blast
qed

lemma SETPGNO_spec:
  assumes "off + 6 \<le> length p" "pgno < 2 ^ 48"
  obtains q where "SETPGNO p off pgno = Some q" "only_within p off 6 q" "n_word q off = pgno mod 2 ^ 32" "n_flags q off = pgno div 2 ^ 32"
proof -
  define p1 where "p1 = blit (blit p off (le_bytes 2 (pgno mod 2 ^ 16))) (off + 2) (le_bytes 2 (pgno div 2 ^ 16))"
  define q where "q = blit p1 (off + 4) (le_bytes 2 (pgno div 2 ^ 32))"
  have l: "length p1 = length p" "length q = length p" using assms(1) by (simp_all add: p1_def q_def)
  have "SETPGNO p off pgno = Some q" using assms(1) l by (simp add: SETPGNO_def st_def p1_def q_def)
  moreover have "only_within p off 6 q"
    unfolding q_def p1_def by (intro only_within_blit only_within_refl) (use assms(1) in simp_all)
  moreover have "n_word q off = pgno mod 2 ^ 32"
  proof -
    have lm: "le_bytes 2 (x mod 2 ^ 16) = le_bytes 2 x" for x using le_bytes_mod [of 2 x] by simp
    have "pgno mod 2 ^ 32 mod 2 ^ 16 = pgno mod 2 ^ 16" "pgno mod 2 ^ 32 div 2 ^ 16 = (pgno div 2 ^ 16) mod 2 ^ 16"
      using mod_mult2_eq [of pgno "2 ^ 16" "2 ^ 16"] by (simp_all add: mod_mod_cancel)
    then have "p1 = blit (blit p off (le_bytes 2 (pgno mod 2 ^ 32 mod 2 ^ 16))) (off + 2) (le_bytes 2 (pgno mod 2 ^ 32 div 2 ^ 16))"
      by (simp only: p1_def lm)
    then have "le_at 4 p1 off = pgno mod 2 ^ 32" using assms(1) by (intro word_stores [of off p]) simp_all
    then show ?thesis using assms(1) l by (simp add: n_word_def q_def region_simps)
  qed
  moreover have "n_flags q off = pgno div 2 ^ 32" using assms l by (simp add: n_flags_def q_def region_simps less_mult_imp_div_less)
  ultimately show ?thesis using that by blast
qed

text \<open>The parent with the new number: one node has changed.\<close>

definition node_to :: "u64 \<Rightarrow> node \<Rightarrow> node" where
  "node_to pgno nd = nd\<lparr>nd_word := unat pgno mod 2 ^ 32, nd_flags := unat pgno div 2 ^ 32\<rparr>"

lemma set_child:
  assumes wf: "page_wf p" and br: "\<not> pg_leaf p" and i: "i < pg_cnt p" and pg: "unat pgno < 2 ^ 48"
  obtains q where "NODEPTR p i = Some (pg_ptr p i)" "SETPGNO p (pg_ptr p i) (unat pgno) = Some q" "length q = length p"
    "page_wf q" "page_nodes q = (page_nodes p)[i := node_to pgno (page_nodes p ! i)]" "pg_flags q = pg_flags p"
proof -
  note w = page_wfD [OF wf]
  let ?P = "pg_ptr p i" and ?s = "n_size (pg_leaf p) p (pg_ptr p i)"
  have P: "pg_upper p \<le> ?P" "?P + ?s \<le> length p" "8 \<le> ?s" "even ?s" using w(7) [OF i] n_size_ge(2) by (auto simp: n_size_def)
  have np: "NODEPTR p i = Some ?P" using w(1-3) i by (simp add: NODEPTR_def page_hdr)
  obtain q where q: "SETPGNO p ?P (unat pgno) = Some q" "only_within p ?P 6 q" "n_word q ?P = unat pgno mod 2 ^ 32"
    "n_flags q ?P = unat pgno div 2 ^ 32" using SETPGNO_spec [OF _ pg, of ?P p] P by auto
  have lq: "length q = length p" using q(2) by (simp add: only_within_def)
  have lo: "pg_lower p \<le> ?P" using w(2) P(1) by simp
  have hdr: "le_at n q k = le_at n p k" if "k + n \<le> pg_lower p" for k n
    by (rule only_within_le_at [OF q(2)]) (use that lo in simp)
  have h: "pg_lower q = pg_lower p" "pg_upper q = pg_upper p + ?s - ?s" "pg_flags q = pg_flags p"
    using w(1) by (simp_all add: pg_lower_def pg_upper_def pg_flags_def hdr)
  have ptr: "pg_ptr q k = moved ?P ?s ?s (pg_ptr p k)" if "k < pg_cnt p" for k
    using that w(1) by (simp add: pg_ptr_def hdr moved_def)
  have sb: "sub q k n = sub p k n" if "k + n \<le> ?P \<or> ?P + 6 \<le> k" for k n using q(2) that unfolding only_within_def by blast
  have ks: "n_ksize q ?P = n_ksize p ?P" unfolding n_ksize_def le_at_def by (subst sb) simp_all
  have nd: "node_at False q ?P = node_to pgno (page_nodes p ! i)"
    using i br q(3,4) ks by (simp add: page_nodes_def node_at_def node_to_def n_dsize_def data_size_def sb)
  have sz: "n_size False q ?P = ?s" using br by (simp add: branch_node_size ks)
  have lf: "pg_leaf p = False" using br by simp
  note r = page_resized [OF wf i refl refl _ P(4,3) lq h ptr, of "node_to pgno (page_nodes p ! i)"]
  have "page_wf q" "page_nodes q = (page_nodes p)[i := node_to pgno (page_nodes p ! i)]"
    by (rule r; use w(2) P sb nd sz lf in auto)+
  then show ?thesis using that np q(1) lq h(3) by blast
qed

lemma nat_and_or: "(x OR y) AND z = (x AND z) OR (y AND z)" for x y z :: nat
  by (rule bit_eqI) (auto simp: bit_and_iff bit_or_iff)

lemma dirty_flag: "F_ISSET (f OR P_DIRTY) P_LEAF = F_ISSET f P_LEAF" "F_ISSET (f OR P_DIRTY) P_LEAF2 = F_ISSET f P_LEAF2"
  "F_ISSET (f OR P_DIRTY) P_DIRTY"
  by (simp_all add: F_ISSET_def nat_and_or P_DIRTY_def P_LEAF_def P_LEAF2_def)
    (rule bit_eqI, auto simp: bit_and_iff bit_or_iff)

lemma or_16_bits: "f < 2 ^ 16 \<Longrightarrow> (f OR P_DIRTY) mod 2 ^ 16 = f OR P_DIRTY" for f :: nat
proof -
  assume f: "f < 2 ^ 16"
  have "take_bit 16 (f OR P_DIRTY) = take_bit 16 f OR take_bit 16 P_DIRTY" by simp
  also have "take_bit 16 f = f" using f by (simp add: take_bit_nat_eq_self)
  also have "take_bit 16 P_DIRTY = P_DIRTY" by (simp add: P_DIRTY_def take_bit_eq_mod)
  finally show ?thesis by (simp add: take_bit_eq_mod)
qed

text \<open>The copy under its new number.\<close>

definition copy_of :: "page \<Rightarrow> u64 \<Rightarrow> page \<Rightarrow> bool" where
  "copy_of p pgno q \<longleftrightarrow> page_wf q \<and> length q = length p \<and> page_nodes q = page_nodes p \<and> pg_leaf q = pg_leaf p
     \<and> MP_PGNO q = Some (unat pgno) \<and> F_ISSET (pg_flags q) P_DIRTY"

lemma renumbered:
  assumes "page_wf p"
  obtains q1 q where "st 8 p 0 (unat pgno) = Some q1" "mark_dirty q1 = Some q" "copy_of p pgno q"
proof -
  note w = page_wfD [OF assms]
  have l16: "16 \<le> length p" using w(1-3) by linarith
  define q1 where "q1 = blit p 0 (le_bytes 8 (unat pgno))"
  define q where "q = blit q1 10 (le_bytes 2 (pg_flags p OR P_DIRTY))"
  have l: "length q1 = length p" "length q = length p" using l16 by (simp_all add: q1_def q_def)
  have f1: "pg_flags q1 = pg_flags p" using l16 by (simp add: pg_flags_def q1_def region_simps)
  have fl: "pg_flags p < 2 ^ 16" using le_at_less [of 10 2 p] l16 by (simp add: pg_flags_def)
  have f: "pg_flags q = pg_flags p OR P_DIRTY" using l l16 or_16_bits [OF fl] by (simp add: pg_flags_def q_def region_simps)
  have s: "st 8 p 0 (unat pgno) = Some q1" "mark_dirty q1 = Some q"
    using l l16 f1 by (simp_all add: st_def q1_def mark_dirty_def MP_FLAGS_def ld_le_at pg_flags_def [symmetric] q_def)
  have sb: "sub q k n = sub p k n" if "12 \<le> k" for k n using that l l16 by (simp add: q_def q1_def region_simps)
  have "pg_leaf q = pg_leaf p" "\<not> F_ISSET (pg_flags q) P_LEAF2" using w(6) by (simp_all add: pg_leaf_def f dirty_flag)
  note b = page_same_body [OF assms l(2) this sb]
  have "unat pgno < 2 ^ LENGTH(64)" by (rule unsigned_less)
  then have "MP_PGNO q = Some (unat pgno)"
    using l l16 by (simp add: MP_PGNO_def ld_le_at q_def q1_def region_simps)
  then have "copy_of p pgno q"
    using b(1,2) l(2) \<open>pg_leaf q = pg_leaf p\<close> by (simp add: copy_of_def f dirty_flag)
  then show ?thesis using that s by blast
qed

lemma touch_copy_spec:
  assumes "ts_pages s mp = Some p" "page_wf p" "length p = psize t" "ts_pages s np = Some d" "length d = psize t"
  obtains q where "touch_copy t mp np pgno s = Some (s\<lparr>ts_pages := (ts_pages s)(np \<mapsto> q)\<rparr>)" "copy_of p pgno q"
proof -
  obtain q0 where q0: "mdb_page_copy d p (psize t) = Some q0" "length q0 = psize t" "page_wf q0" "page_nodes q0 = page_nodes p"
    "pg_flags q0 = pg_flags p" by (rule mdb_page_copy_spec [OF assms(2,3,5)])
  obtain q1 q where q: "st 8 q0 0 (unat pgno) = Some q1" "mark_dirty q1 = Some q" "copy_of q0 pgno q"
    using renumbered [OF q0(3)] by blast
  then have "copy_of p pgno q" using q0 assms(3) by (simp add: copy_of_def pg_leaf_def)
  then show ?thesis using that assms(1,4) q0(1) q(1,2) by (simp add: touch_copy_def)
qed

text \<open>The allocation leaves the list of freed pages alone.\<close>

lemma mdb_page_dirty_free: "mdb_page_dirty tx pgno mp = Some tx' \<Longrightarrow> mt_free_pgs tx' = mt_free_pgs tx"
  by (auto simp: mdb_page_dirty_def Let_def split: Option.bind_splits if_splits)

lemma mdb_page_alloc_free:
  assumes "mdb_page_alloc a num tx env = Some (rc, got, tx', env')"
  shows "mt_free_pgs tx' = mt_free_pgs tx"
proof -
  have m: "mt_free_pgs (fst (snd (mdb_page_malloc a num tx env))) = mt_free_pgs tx" for tx env
    by (simp add: mdb_page_malloc_def split: option.split)
  have s: "mt_free_pgs tx' = mt_free_pgs tx" if "search_done a num i pgno tx env = Some (rc, got, tx', env')" for i pgno env
    using that m [of tx env] mdb_page_dirty_free
    by (cases "mdb_page_malloc a num tx env")
      (fastforce simp: search_done_def alloc_fail_def Let_def split: Option.bind_splits option.splits if_splits)
  show ?thesis
    using assms s by (auto simp: mdb_page_alloc_def alloc_fail_def Let_def split: Option.bind_splits if_splits alloc_end.splits)
qed

section \<open>Copy on write\<close>

text \<open>A cursor on a clean page, below the root or not, in a transaction without spilled pages.\<close>

definition parent_at :: "tcursor \<Rightarrow> u64" where "parent_at mc = tc_pg mc ! (length (tc_pg mc) - 2)"
definition parent_ki :: "tcursor \<Rightarrow> nat" where "parent_ki mc = tc_ki mc ! (length (tc_pg mc) - 2)"
definition has_parent :: "tcursor \<Rightarrow> bool" where "has_parent mc \<longleftrightarrow> 1 < length (tc_pg mc)"

definition touch_ready :: "touch_ctx \<Rightarrow> tcursor \<Rightarrow> tstate \<Rightarrow> page \<Rightarrow> bool" where
  "touch_ready t mc s p \<longleftrightarrow>
     tc_pg mc \<noteq> [] \<and> distinct (tc_pg mc) \<and> length (tc_ki mc) = length (tc_pg mc)
     \<and> ts_pages s (last (tc_pg mc)) = Some p \<and> page_wf p \<and> length p = psize t \<and> \<not> F_ISSET (pg_flags p) P_DIRTY
     \<and> mt_flags (ts_tx s) AND MDB_TXN_SPILLS = 0 \<and> idl_wf (mt_free_pgs (ts_tx s)) \<and> idl_cnt (mt_free_pgs (ts_tx s)) < 2 ^ 30
     \<and> (has_parent mc \<longrightarrow> (\<exists>pp. ts_pages s (parent_at mc) = Some pp \<and> page_wf pp \<and> \<not> pg_leaf pp \<and> parent_ki mc < pg_cnt pp))"

text \<open>What has changed: the copy; the number in the parent page or the root, and no other page; the list of freed
  pages; the cursors.\<close>

definition touched :: "tcursor \<Rightarrow> tstate \<Rightarrow> page \<Rightarrow> u64 \<Rightarrow> u64 \<Rightarrow> tcursor \<Rightarrow> tstate \<Rightarrow> bool" where
  "touched mc s p np pgno mc' s' \<longleftrightarrow>
     (\<exists>q. ts_pages s' np = Some q \<and> copy_of p pgno q)
     \<and> (if has_parent mc
        then ts_root s' = ts_root s
          \<and> (\<exists>pp pp'. ts_pages s (parent_at mc) = Some pp \<and> ts_pages s' (parent_at mc) = Some pp' \<and> page_wf pp'
               \<and> pg_flags pp' = pg_flags pp
               \<and> page_nodes pp' = (page_nodes pp)[parent_ki mc := node_to pgno (page_nodes pp ! parent_ki mc)])
        else ts_root s' = pgno)
     \<and> (\<forall>x. x \<noteq> np \<and> (has_parent mc \<longrightarrow> x \<noteq> parent_at mc) \<longrightarrow> ts_pages s' x = ts_pages s x)
     \<and> idl_items (mt_free_pgs (ts_tx s')) = idl_items (mt_free_pgs (ts_tx s)) @ [of_nat (le_at 8 p 0)]
     \<and> mc' = mc\<lparr>tc_pg := butlast (tc_pg mc) @ [np]\<rparr>
     \<and> ts_cursors s' = map (move_cursor (length (tc_pg mc)) (last (tc_pg mc)) np) (ts_cursors s)"

lemma with_page_at: "with_page t m np np = Some (case m np of None \<Rightarrow> tt_new t np | Some d \<Rightarrow> d)"
  "x \<noteq> np \<Longrightarrow> with_page t m np x = m x"
  by (simp_all add: with_page_def split: option.split)

lemma touch_parent_spec:
  assumes "has_parent mc \<Longrightarrow> ts_pages s (parent_at mc) = Some pp \<and> page_wf pp \<and> \<not> pg_leaf pp \<and> parent_ki mc < pg_cnt pp"
    and "length (tc_ki mc) = length (tc_pg mc)" "tc_pg mc \<noteq> []" "unat pgno < 2 ^ 48"
  obtains s' where "touch_parent mc pgno s = Some s'" "ts_tx s' = ts_tx s" "ts_env s' = ts_env s" "ts_cursors s' = ts_cursors s"
    "if has_parent mc
     then ts_root s' = ts_root s \<and> (\<exists>pp'. ts_pages s' = (ts_pages s)(parent_at mc \<mapsto> pp') \<and> page_wf pp' \<and> pg_flags pp' = pg_flags pp
       \<and> page_nodes pp' = (page_nodes pp)[parent_ki mc := node_to pgno (page_nodes pp ! parent_ki mc)])
     else ts_root s' = pgno \<and> ts_pages s' = ts_pages s"
proof (cases "has_parent mc")
  case True
  note pp = assms(1) [OF True]
  obtain q where q: "NODEPTR pp (parent_ki mc) = Some (pg_ptr pp (parent_ki mc))"
    "SETPGNO pp (pg_ptr pp (parent_ki mc)) (unat pgno) = Some q" "page_wf q"
    "page_nodes q = (page_nodes pp)[parent_ki mc := node_to pgno (page_nodes pp ! parent_ki mc)]" "pg_flags q = pg_flags pp"
    using set_child [OF _ _ _ assms(4), of pp "parent_ki mc"] pp by blast
  have len: "length (tc_pg mc) - 1 \<noteq> 0" "length (tc_pg mc) - 1 - 1 = length (tc_pg mc) - 2"
    "rd (tc_ki mc) (length (tc_pg mc) - 2) = Some (parent_ki mc)"
    using True assms(2) by (simp_all add: has_parent_def rd_def parent_ki_def)
  have "touch_parent mc pgno s = Some (s\<lparr>ts_pages := (ts_pages s)(parent_at mc \<mapsto> q)\<rparr>)"
    using len pp q(1,2) by (simp add: touch_parent_def Let_def parent_at_def [symmetric])
  from that [OF this] show ?thesis using True q by auto
next
  case False
  then have "length (tc_pg mc) - 1 = 0" using assms(3) by (simp add: has_parent_def)
  then have "touch_parent mc pgno s = Some (s\<lparr>ts_root := pgno\<rparr>)" by (simp add: touch_parent_def)
  from that [OF this] show ?thesis using False by auto
qed

lemma update_last: "xs \<noteq> [] \<Longrightarrow> xs[length xs - 1 := y] = butlast xs @ [y]"
  by (cases xs rule: rev_cases) simp_all

lemma touch_cow:
  assumes ready: "touch_ready t mc s p"
    and need: "mdb_midl_need (ac_al (tt_alloc t)) (mt_free_pgs (ts_tx s)) 1 = Some (0, fp)"
    and alloc: "mdb_page_alloc (tt_alloc t) 1 ((ts_tx s)\<lparr>mt_free_pgs := fp\<rparr>) (ts_env s) = Some (0, Some (New_page pgno np), tx', env')"
    and np: "np \<notin> set (tc_pg mc)" "length (tt_new t np) = psize t" "\<forall>d. ts_pages s np = Some d \<longrightarrow> length d = psize t"
    and pg: "of_nat (le_at 8 p 0) \<noteq> pgno" "unat pgno < 2 ^ 48"
  shows "\<exists>mc' s'. mdb_page_touch t mc s = Some (0, mc', s') \<and> touched mc s p np pgno mc' s'"
proof -
  define n where "n = length (tc_pg mc)"
  define mp where "mp = last (tc_pg mc)"
  have r: "tc_pg mc \<noteq> []" "distinct (tc_pg mc)" "length (tc_ki mc) = n" "ts_pages s mp = Some p" "page_wf p" "length p = psize t"
    "\<not> F_ISSET (pg_flags p) P_DIRTY" "mt_flags (ts_tx s) AND MDB_TXN_SPILLS = 0" "idl_wf (mt_free_pgs (ts_tx s))"
    "idl_cnt (mt_free_pgs (ts_tx s)) < 2 ^ 30"
    using ready by (simp_all add: touch_ready_def mp_def n_def)
  have mp: "rd (tc_pg mc) (n - 1) = Some mp" "mp \<noteq> np" using r(1) np(1) by (auto simp: rd_def n_def mp_def last_conv_nth)
  have l16: "16 \<le> length p" using page_wfD(1-3) [OF r(5)] by linarith
  have free: "idl_wf fp" "idl_items fp = idl_items (mt_free_pgs (ts_tx s))" "idl_cnt (mt_free_pgs (ts_tx s)) + 1 \<le> idl_cap fp"
  proof -
    have c: "idl_cnt (mt_free_pgs (ts_tx s)) + unat (1 :: u32) < 2 ^ 31" using r(10) by simp
    show "idl_wf fp" "idl_items fp = idl_items (mt_free_pgs (ts_tx s))" "idl_cnt (mt_free_pgs (ts_tx s)) + 1 \<le> idl_cap fp"
      by (rule mdb_midl_need_cases [OF r(9) c, of "ac_al (tt_alloc t)"]; use need in \<open>simp add: ENOMEM_def\<close>)+
  qed
  then have cnt: "idl_cnt fp < idl_cap fp" using idl_wf_length [OF free(1)] idl_wf_length [OF r(9)] by simp
  have fp': "mt_free_pgs tx' = fp" using mdb_page_alloc_free [OF alloc] by simp
  obtain l where l: "mdb_midl_xappend fp (of_nat (le_at 8 p 0)) = Some l" "idl_items l = idl_items fp @ [of_nat (le_at 8 p 0)]"
    using mdb_midl_xappend_items [OF free(1) cnt, of "of_nat (le_at 8 p 0)"] by metis
  define d where "d = (case ts_pages s np of None \<Rightarrow> tt_new t np | Some d \<Rightarrow> d)"
  define m where "m = (with_page t (ts_pages s) np)(np \<mapsto> blit d 0 (le_bytes 8 (unat pgno)))"
  have ld: "length d = psize t" "8 \<le> length d" using np(2,3) r(6) l16 by (simp_all add: d_def split: option.split)
  have m: "m np = Some (blit d 0 (le_bytes 8 (unat pgno)))" "\<And>x. x \<noteq> np \<Longrightarrow> m x = ts_pages s x"
    by (simp_all add: m_def with_page_at)
  define s1 where "s1 = s\<lparr>ts_tx := tx'\<lparr>mt_free_pgs := l\<rparr>, ts_env := env', ts_pages := m\<rparr>"
  have pa: "parent_at mc \<noteq> np \<and> parent_at mc \<noteq> mp" if "has_parent mc"
  proof -
    have h: "length (tc_pg mc) - 2 < length (tc_pg mc) - 1" "length (tc_pg mc) - 1 < length (tc_pg mc)"
      using that by (auto simp: has_parent_def)
    then have "parent_at mc \<in> set (tc_pg mc)" by (simp add: parent_at_def)
    moreover have "parent_at mc \<noteq> mp"
      using nth_eq_iff_index_eq [OF r(2), of "length (tc_pg mc) - 2" "length (tc_pg mc) - 1"] h r(1)
      by (simp add: parent_at_def mp_def last_conv_nth)
    ultimately show ?thesis using np(1) by auto
  qed
  obtain pp where pp: "has_parent mc \<Longrightarrow> ts_pages s (parent_at mc) = Some pp \<and> page_wf pp \<and> \<not> pg_leaf pp \<and> parent_ki mc < pg_cnt pp"
    using ready by (auto simp: touch_ready_def)
  have pp1: "ts_pages s1 (parent_at mc) = Some pp \<and> page_wf pp \<and> \<not> pg_leaf pp \<and> parent_ki mc < pg_cnt pp" if "has_parent mc"
    using pp [OF that] pa [OF that] m(2) by (simp add: s1_def)
  obtain s2 where s2: "touch_parent mc pgno s1 = Some s2" "ts_tx s2 = ts_tx s1" "ts_cursors s2 = ts_cursors s1"
    "if has_parent mc
     then ts_root s2 = ts_root s1 \<and> (\<exists>pp'. ts_pages s2 = (ts_pages s1)(parent_at mc \<mapsto> pp') \<and> page_wf pp' \<and> pg_flags pp' = pg_flags pp
       \<and> page_nodes pp' = (page_nodes pp)[parent_ki mc := node_to pgno (page_nodes pp ! parent_ki mc)])
     else ts_root s2 = pgno \<and> ts_pages s2 = ts_pages s1"
    using touch_parent_spec [OF pp1 _ r(1) pg(2)] r(3) unfolding n_def by blast
  have at2: "ts_pages s2 mp = Some p" "ts_pages s2 np = Some (blit d 0 (le_bytes 8 (unat pgno)))"
    using s2(4) pa m mp(2) r(4) by (auto simp: s1_def split: if_splits)
  have ldb: "length (blit d 0 (le_bytes 8 (unat pgno))) = psize t" using ld by simp
  obtain q where q: "touch_copy t mp np pgno s2 = Some (s2\<lparr>ts_pages := (ts_pages s2)(np \<mapsto> q)\<rparr>)" "copy_of p pgno q"
    by (rule touch_copy_spec [OF at2(1) r(5,6) at2(2) ldb, of pgno])
  define s3 where "s3 = s2\<lparr>ts_pages := (ts_pages s2)(np \<mapsto> q)\<rparr>"
  have old: "MP_PGNO64 p = Some (of_nat (le_at 8 p 0))" using l16 by (simp add: MP_PGNO64_def MP_PGNO_def ld_le_at)
  have fl: "MP_FLAGS p = Some (pg_flags p)" using l16 by (simp add: MP_FLAGS_def ld_le_at pg_flags_def)
  have std: "st 8 d 0 (unat pgno) = Some (blit d 0 (le_bytes 8 (unat pgno)))" using ld(2) by (simp add: st_def)
  have s1': "s\<lparr>ts_env := env', ts_tx := tx'\<lparr>mt_free_pgs := l\<rparr>, ts_pages := m\<rparr> = s1" by (simp add: s1_def)
  have clean: "touch_clean t mc mp p s = Some (touch_done mc mp np s3)"
    using need alloc old pg(1) l(1) fp' s2(1) q(1) std
    by (simp add: touch_clean_def Let_def with_page_at d_def [symmetric] m_def [symmetric] s1' s3_def)
  have "mdb_page_touch t mc s = Some (touch_done mc mp np s3)"
    using mp(1) r(4,7,8) fl clean by (simp add: mdb_page_touch_def n_def)
  moreover obtain mc' s' where ds: "touch_done mc mp np s3 = (0, mc', s')" by (simp add: touch_done_def Let_def)
  have res: "mc' = mc\<lparr>tc_pg := butlast (tc_pg mc) @ [np]\<rparr>" "ts_pages s' = ts_pages s3" "ts_root s' = ts_root s2" "ts_tx s' = ts_tx s2"
    "ts_cursors s' = map (move_cursor n mp np) (ts_cursors s)"
    using ds r(1) s2(3) by (auto simp: touch_done_def Let_def s3_def s1_def n_def update_last [unfolded One_nat_def])
  have "touched mc s p np pgno mc' s'"
    unfolding touched_def
  proof (intro conjI)
    show "\<exists>q. ts_pages s' np = Some q \<and> copy_of p pgno q" using q(2) by (simp add: res s3_def)
    show "if has_parent mc
        then ts_root s' = ts_root s
          \<and> (\<exists>pp pp'. ts_pages s (parent_at mc) = Some pp \<and> ts_pages s' (parent_at mc) = Some pp' \<and> page_wf pp'
               \<and> pg_flags pp' = pg_flags pp
               \<and> page_nodes pp' = (page_nodes pp)[parent_ki mc := node_to pgno (page_nodes pp ! parent_ki mc)])
        else ts_root s' = pgno"
      using s2(4) pp pa by (auto simp: res s3_def s1_def split: if_splits)
    show "\<forall>x. x \<noteq> np \<and> (has_parent mc \<longrightarrow> x \<noteq> parent_at mc) \<longrightarrow> ts_pages s' x = ts_pages s x"
      using s2(4) m(2) by (auto simp: res s3_def s1_def split: if_splits)
    show "idl_items (mt_free_pgs (ts_tx s')) = idl_items (mt_free_pgs (ts_tx s)) @ [of_nat (le_at 8 p 0)]"
      using l(2) free(2) by (simp add: res s2(2) s1_def)
  qed (use res in \<open>simp_all add: n_def mp_def\<close>)
  ultimately show ?thesis using ds by auto
qed

text \<open>When the allocation fails, the transaction is marked, and no page, no cursor and no root changes.\<close>

lemma touch_no_page:
  assumes "touch_ready t mc s p"
    and "mdb_midl_need (ac_al (tt_alloc t)) (mt_free_pgs (ts_tx s)) 1 = Some (0, fp)"
    and "mdb_page_alloc (tt_alloc t) 1 ((ts_tx s)\<lparr>mt_free_pgs := fp\<rparr>) (ts_env s) = Some (rc, got, tx', env')" "rc \<noteq> 0"
  shows "mdb_page_touch t mc s = Some (rc, mc, txn_error (s\<lparr>ts_tx := tx', ts_env := env'\<rparr>))"
proof -
  have r: "tc_pg mc \<noteq> []" "ts_pages s (last (tc_pg mc)) = Some p" "page_wf p" "\<not> F_ISSET (pg_flags p) P_DIRTY"
    "mt_flags (ts_tx s) AND MDB_TXN_SPILLS = 0"
    using assms(1) by (simp_all add: touch_ready_def)
  have "16 \<le> length p" using page_wfD(1-3) [OF r(3)] by linarith
  then have "MP_FLAGS p = Some (pg_flags p)" by (simp add: MP_FLAGS_def ld_le_at pg_flags_def)
  moreover have "rd (tc_pg mc) (length (tc_pg mc) - 1) = Some (last (tc_pg mc))" using r(1) by (simp add: rd_def last_conv_nth)
  ultimately show ?thesis using r(2,4,5) assms(2-4) by (simp add: mdb_page_touch_def touch_clean_def Let_def)
qed

section \<open>Properties\<close>

text \<open>C4: \<open>mdb_page_touch\<close> is copy on write. For a cursor on a clean page it makes a copy with the same nodes under the
  number and at the address that \<open>mdb_page_alloc\<close> hands out, appends the old number to the freed pages, changes in the
  parent page the number in one node, or the root, moves the cursor and the others that stand on the page, and
  leaves every other page as it is, above all the old one, which readers may still use. When the allocation
  fails, the transaction is marked, and no page and no cursor changes.\<close>

theorem mdb_page_touch_correct:
  assumes "touch_ready t mc s p"
    and "mdb_midl_need (ac_al (tt_alloc t)) (mt_free_pgs (ts_tx s)) 1 = Some (0, fp)"
    and "mdb_page_alloc (tt_alloc t) 1 ((ts_tx s)\<lparr>mt_free_pgs := fp\<rparr>) (ts_env s) = Some (rc, got, tx', env')"
    and "rc = 0 \<Longrightarrow> got = Some (New_page pgno np)"
    and "np \<notin> set (tc_pg mc)" "length (tt_new t np) = psize t" "\<forall>d. ts_pages s np = Some d \<longrightarrow> length d = psize t"
    and "of_nat (le_at 8 p 0) \<noteq> pgno" "unat pgno < 2 ^ 48"
  shows "if rc = 0 then \<exists>mc' s'. mdb_page_touch t mc s = Some (0, mc', s') \<and> touched mc s p np pgno mc' s'
    else \<exists>s'. mdb_page_touch t mc s = Some (rc, mc, s') \<and> mt_flags (ts_tx s') AND MDB_TXN_ERROR \<noteq> 0
           \<and> ts_pages s' = ts_pages s \<and> ts_root s' = ts_root s \<and> ts_cursors s' = ts_cursors s"
proof (cases "rc = 0")
  case True
  then show ?thesis using touch_cow [OF assms(1,2) _ assms(5-9)] assms(3,4) by simp
next
  case False
  have "(mt_flags tx' OR MDB_TXN_ERROR) AND MDB_TXN_ERROR \<noteq> 0"
    by (simp only: word_ao_absorbs) (simp add: MDB_TXN_ERROR_def)
  then show ?thesis using touch_no_page [OF assms(1-3) False] False by (simp add: txn_error_def)
qed

text \<open>A cursor on the leaf \<open>page_one\<close> below the second node of \<open>page_branch\<close>; the page 20 is free.\<close>

definition touch_sample :: touch_ctx where
  "touch_sample = \<lparr>tt_alloc = ctx_sample\<lparr>ac_psize := 64\<rparr>, tt_parents = [], tt_new = (\<lambda>_. replicate 64 0xcd)\<rparr>"

definition cursor_sample :: tcursor where "cursor_sample = \<lparr>tc_pg = [100, 200], tc_ki = [1, 0], tc_flags = 1\<rparr>"

definition tstate_sample :: tstate where
  "tstate_sample = \<lparr>ts_tx = txn_sample\<lparr>mt_free_pgs := [5, 0, 0, 0, 0, 0, 0]\<rparr>, ts_env = pgstate_sample\<lparr>me_pghead := Some [1, 1, 20]\<rparr>,
     ts_pages = [100 \<mapsto> page_branch, 200 \<mapsto> page_one], ts_root = 5, ts_cursors = [cursor_sample]\<rparr>"

lemma alloc_touch_sample:
  "\<exists>tx' env'. mdb_page_alloc (tt_alloc touch_sample) 1 (ts_tx tstate_sample) (ts_env tstate_sample) = Some (0, Some (New_page 20 4096), tx', env')"
proof -
  have "id2_inserted id2_sample \<lparr>mid = 20, mptr = 4096\<rparr> (mdb_mid2l_insert id2_sample \<lparr>mid = 20, mptr = 4096\<rparr>)"
    by (rule mdb_mid2l_insert_inserted [OF id2_sample(1)])
  then obtain dl where dl: "mdb_mid2l_insert id2_sample \<lparr>mid = 20, mptr = 4096\<rparr> = Some (0, dl)"
    using id2_sample(2) id2_sample_items(1) by (auto simp: id2_inserted_def MDB_IDL_UM_MAX_def)
  have seek: "seek_range [1, 1, 20] 0 1 = Some (Some (1, 20))" by (simp add: seek_range.simps ids_rd_def rd_def)
  have take1: "take_range [1, 1, 20] 1 1 = Some [1, 0, 20]"
    by (simp add: take_range_def ids_rd_def ids_wr_def rd_def wr_def unsigned_of_def move_down.simps)
  show ?thesis
    by (simp add: mdb_page_alloc_def touch_sample_def tstate_sample_def txn_sample_def pgstate_sample_def ctx_sample_def
        alloc_rounds.simps alloc_round_def head_len_def ids_rd_def rd_def unsigned_of_def seek [unfolded One_nat_def]
        search_done_def mdb_page_malloc_def take1 [unfolded One_nat_def] mdb_page_dirty_def MDB_WRITEMAP_def dl Let_def)
qed

theorem mdb_page_touch_correct_witness:
  "\<exists>mc' s'. mdb_page_touch touch_sample cursor_sample tstate_sample = Some (0, mc', s')
     \<and> tc_pg mc' = [100, 4096] \<and> ts_pages s' 200 = Some page_one \<and> ts_cursors s' = [mc']
     \<and> (\<exists>q pp. ts_pages s' 4096 = Some q \<and> page_nodes q = page_nodes page_one \<and> ts_pages s' 100 = Some pp
          \<and> page_nodes pp = (page_nodes page_branch)[1 := node_to 20 (page_nodes page_branch ! 1)])"
proof -
  let ?fp = "[5, 0, 0, 0, 0, 0, 0] :: idl"
  have pg: "parent_at cursor_sample = 100" "parent_ki cursor_sample = 1" "has_parent cursor_sample"
    by (simp_all add: parent_at_def parent_ki_def has_parent_def cursor_sample_def)
  have "\<not> F_ISSET 2 P_DIRTY" by (simp add: F_ISSET_def P_DIRTY_def)
  then have ready: "touch_ready touch_sample cursor_sample tstate_sample page_one"
    using page_one_wf page_branch_wf
    by (simp add: touch_ready_def pg) (simp add: cursor_sample_def tstate_sample_def page_one_hdr psize_def touch_sample_def
        txn_sample_def MDB_TXN_SPILLS_def idl_wf_def idl_cap_def idl_cnt_def page_branch_hdr)
  have need: "mdb_midl_need (ac_al (tt_alloc touch_sample)) (mt_free_pgs (ts_tx tstate_sample)) 1 = Some (0, ?fp)"
    by (simp add: mdb_midl_need_def tstate_sample_def ids_rd_def rd_def)
  obtain tx' env' where al: "mdb_page_alloc (tt_alloc touch_sample) 1 ((ts_tx tstate_sample)\<lparr>mt_free_pgs := ?fp\<rparr>) (ts_env tstate_sample)
      = Some (0, Some (New_page 20 4096), tx', env')"
    using alloc_touch_sample by (auto simp: tstate_sample_def)
  have rest: "4096 \<notin> set (tc_pg cursor_sample)" "length (tt_new touch_sample 4096) = psize touch_sample"
    "\<forall>d. ts_pages tstate_sample 4096 = Some d \<longrightarrow> length d = psize touch_sample" "unat (20 :: u64) < 2 ^ 48"
    by (simp_all add: cursor_sample_def touch_sample_def psize_def tstate_sample_def)
  have old: "of_nat (le_at 8 page_one 0) \<noteq> (20 :: u64)"
  proof -
    have "sub page_one 0 8 = [7, 0, 0, 0, 0, 0, 0, 0]" by (simp add: sub_def page_one_def)
    then show ?thesis by (simp add: le_at_def)
  qed
  from mdb_page_touch_correct [OF ready need al refl rest(1-3) old rest(4)]
  obtain mc' s' where t: "mdb_page_touch touch_sample cursor_sample tstate_sample = Some (0, mc', s')"
    "touched cursor_sample tstate_sample page_one 4096 20 mc' s'" by auto
  then show ?thesis
    by (auto simp: touched_def pg copy_of_def) (auto simp: cursor_sample_def tstate_sample_def move_cursor_def)
qed

end
