(* ===== verification/Mdb_Dbi.thy ===== *)
theory Mdb_Dbi
  imports Mdb_Cursor
begin

text \<open>
  Database handles of \<open>lmdb/mdb.c\<close>: the table of handles that the environment shares with its transactions
  (\<open>me_dbxs\<close>, \<open>me_dbflags\<close>, \<open>me_dbiseqs\<close>), the copy a transaction keeps, opening a handle by name, closing it,
  and what the start and the end of a transaction do to the table. The header allows one transaction at a time
  to open handles; \<open>dstep\<close> is the machine of such transactions. The write of a new database record into the
  main database is an argument: it may change the flags of the transaction and the record and the flags of
  the main database.
\<close>

unbundle bit_operations_syntax

definition MDB_DBS_FULL :: int where "MDB_DBS_FULL = - 30791"
definition TXN_RDONLY :: u32 where "TXN_RDONLY = 0x20000"
definition TXN_DIRTY :: u32 where "TXN_DIRTY = 0x04"
definition VALID_FLAGS :: u32 where "VALID_FLAGS = 0x4007e"
definition MDB_VALID :: u16 where "MDB_VALID = 0x8000"
definition DB_DIRTY :: u8 where "DB_DIRTY = 0x01"
definition DB_STALE :: u8 where "DB_STALE = 0x02"
definition DB_NEW :: u8 where "DB_NEW = 0x04"
definition DB_VALID :: u8 where "DB_VALID = 0x08"
definition DB_USRVALID :: u8 where "DB_USRVALID = 0x10"

section \<open>The tables\<close>

text \<open>\<open>e_names\<close> holds \<open>md_name\<close>, \<open>None\<close> where its data is \<open>NULL\<close> and its size 0; its length is \<open>me_maxdbs\<close>.
  \<open>md_rel\<close> and \<open>md_relctx\<close>, which the library never reads, are left out.
  A name is a C string, without its terminator. A comparison function may be \<open>NULL\<close>.\<close>

record denv =
  e_names :: "mval option list"
  e_cmps :: "(cmp_fn option \<times> cmp_fn option) list"
  e_dbflags :: "u16 list"
  e_dbiseqs :: "u32 list"
  e_numdbs :: nat

text \<open>\<open>t_seqs\<close> is \<open>None\<close> in a read transaction, whose \<open>mt_dbiseqs\<close> is the array of the environment.\<close>

record dtxn =
  t_flags :: u32
  t_numdbs :: nat
  t_dbs :: "MDB_db list"
  t_dbflags :: "u8 list"
  t_seqs :: "u32 list option"

definition TXN_DBI_EXIST :: "dtxn \<Rightarrow> nat \<Rightarrow> u8 \<Rightarrow> bool" where
  "TXN_DBI_EXIST txn dbi validity \<longleftrightarrow> dbi < t_numdbs txn \<and> t_dbflags txn ! dbi AND validity \<noteq> 0"

definition TXN_DBI_CHANGED :: "denv \<Rightarrow> dtxn \<Rightarrow> nat \<Rightarrow> bool" where
  "TXN_DBI_CHANGED env txn dbi \<longleftrightarrow>
     (case t_seqs txn of None \<Rightarrow> False | Some seqs \<Rightarrow> seqs ! dbi \<noteq> e_dbiseqs env ! dbi)"

text \<open>\<open>mdb_default_cmp\<close> with its store into the table.\<close>

definition set_default_cmp :: "denv \<Rightarrow> dtxn \<Rightarrow> nat \<Rightarrow> denv option" where
  "set_default_cmp env txn dbi =
     do { db \<leftarrow> rd (t_dbs txn) dbi;
          let (cmp, dcmp) = mdb_default_cmp (md_flags db);
          cs \<leftarrow> wr (e_cmps env) dbi (Some cmp, dcmp);
          Some (env\<lparr>e_cmps := cs\<rparr>) }"

section \<open>Opening\<close>

text \<open>The loop over the handles: \<open>Inl\<close> is the handle that has the name, \<open>Inr\<close> the first free slot or 0.\<close>

function dbi_scan :: "mval option list \<Rightarrow> mval \<Rightarrow> nat \<Rightarrow> nat \<Rightarrow> nat \<Rightarrow> (nat + nat) option" where
  "dbi_scan names name n i unused =
     (if i < n
      then case rd names i of
             None \<Rightarrow> None
           | Some None \<Rightarrow> dbi_scan names name n (i + 1) (if unused = 0 then i else unused)
           | Some (Some nm) \<Rightarrow> if length name = length nm \<and> name = nm then Some (Inl i) else dbi_scan names name n (i + 1) unused
      else Some (Inr unused))"
  by pat_completeness auto
termination by (relation "measure (\<lambda>(names, name, n, i, unused). n - i)") auto

declare dbi_scan.simps [simp del]

text \<open>The search for the record in the main database: \<open>Inl\<close> returns, \<open>Inr\<close> is the data found or, when the
  record is to be created, \<open>None\<close>.\<close>

definition find_record :: "snapshot \<Rightarrow> denv \<Rightarrow> dtxn \<Rightarrow> mval \<Rightarrow> u32 \<Rightarrow> ((int + mval option) \<times> dtxn) option" where
  "find_record sn env txn name flags =
     do { main \<leftarrow> rd (t_dbs txn) 1; dbf \<leftarrow> rd (t_dbflags txn) 1; (mcmp, dcmp) \<leftarrow> rd (e_cmps env) 1; cmp \<leftarrow> mcmp;
          c \<leftarrow> mdb_cursor_init sn 1 main cmp dcmp (dbf AND DB_STALE \<noteq> 0) (t_flags txn);
          (rc, c, _, data) \<leftarrow> mdb_cursor_set sn c name (Some []) MDB_SET True;
          let txn = txn\<lparr>t_flags := mc_txn_flags c\<rparr>;
          if rc = 0
          then do { mp \<leftarrow> top_page c; node \<leftarrow> NODEPTR mp (top_ki c); fl \<leftarrow> NODEFLAGS mp node;
                    if fl AND (F_DUPDATA OR F_SUBDATA) \<noteq> F_SUBDATA then Some (Inl MDB_INCOMPATIBLE, txn)
                    else do { v \<leftarrow> data; Some (Inr (Some v), txn) } }
          else if rc \<noteq> MDB_NOTFOUND \<or> flags AND MDB_CREATE = 0 then Some (Inl rc, txn)
          else if t_flags txn AND TXN_RDONLY \<noteq> 0 then Some (Inl EACCES, txn)
          else Some (Inr None, txn) }"

text \<open>The record of a new database.\<close>

definition dummy_db :: "u32 \<Rightarrow> MDB_db" where
  "dummy_db flags = \<lparr>md_pad = 0, md_flags = ucast flags AND PERSISTENT_FLAGS, md_depth = 0, md_branch_pages = 0, md_leaf_pages = 0,
     md_overflow_pages = 0, md_entries = 0, md_root = P_INVALID\<rparr>"

text \<open>\<open>mdb_cursor_put\<close> with \<open>F_SUBDATA\<close> on the main database, with what it may change of a transaction.\<close>

type_synonym db_put = "u32 \<times> MDB_db \<times> u8 \<Rightarrow> mval \<Rightarrow> MDB_db \<Rightarrow> int \<times> u32 \<times> MDB_db \<times> u8"

definition put_record :: "db_put \<Rightarrow> dtxn \<Rightarrow> mval \<Rightarrow> MDB_db \<Rightarrow> (int \<times> dtxn) option" where
  "put_record put txn name db =
     do { main \<leftarrow> rd (t_dbs txn) 1; dbf \<leftarrow> rd (t_dbflags txn) 1;
          let (rc, fl, main, dbf) = put (t_flags txn, main, dbf) name db;
          Some (rc, txn\<lparr>t_flags := fl, t_dbs := (t_dbs txn)[1 := main], t_dbflags := (t_dbflags txn)[1 := dbf]\<rparr>) }"

text \<open>The end of \<open>mdb_dbi_open\<close>: the handle is registered in the slot.\<close>

definition register_dbi :: "denv \<Rightarrow> dtxn \<Rightarrow> mval \<Rightarrow> nat \<Rightarrow> u8 \<Rightarrow> MDB_db \<Rightarrow> (denv \<times> dtxn) option" where
  "register_dbi env txn name unused dbflag db =
     do { let slot = (if unused \<noteq> 0 then unused else t_numdbs txn);
          names \<leftarrow> wr (e_names env) slot (Some name);
          fls \<leftarrow> wr (t_dbflags txn) slot dbflag;
          old \<leftarrow> rd (e_dbiseqs env) slot;
          let seq = old + 1;
          seqs \<leftarrow> wr (e_dbiseqs env) slot seq;
          tseqs \<leftarrow> (case t_seqs txn of None \<Rightarrow> Some None | Some s \<Rightarrow> do { s \<leftarrow> wr s slot seq; Some (Some s) });
          dbs \<leftarrow> wr (t_dbs txn) slot db;
          let txn = txn\<lparr>t_dbflags := fls, t_seqs := tseqs, t_dbs := dbs\<rparr>;
          env \<leftarrow> set_default_cmp (env\<lparr>e_names := names, e_dbiseqs := seqs\<rparr>) txn slot;
          Some (env, if unused = 0 then txn\<lparr>t_numdbs := t_numdbs txn + 1\<rparr> else txn) }"

definition open_main :: "denv \<Rightarrow> dtxn \<Rightarrow> u32 \<Rightarrow> (int \<times> nat option \<times> denv \<times> dtxn) option" where
  "open_main env txn flags =
     do { db \<leftarrow> rd (t_dbs txn) 1;
          let f2 = ucast flags AND PERSISTENT_FLAGS;
          let txn = (if f2 \<noteq> 0 \<and> md_flags db OR f2 \<noteq> md_flags db
                     then txn\<lparr>t_dbs := (t_dbs txn)[1 := db\<lparr>md_flags := md_flags db OR f2\<rparr>], t_flags := t_flags txn OR TXN_DIRTY\<rparr>
                     else txn);
          env \<leftarrow> set_default_cmp env txn 1;
          Some (0, Some 1, env, txn) }"

text \<open>The part for a name that no handle has. \<open>dup\<close> says that \<open>strdup\<close> has memory. The handle is \<open>None\<close>
  where \<open>*dbi\<close> is left alone.\<close>

definition record_and_flags :: "db_put \<Rightarrow> dtxn \<Rightarrow> mval \<Rightarrow> u32 \<Rightarrow> mval option \<Rightarrow> (int \<times> u8 \<times> MDB_db \<times> dtxn) option" where
  "record_and_flags put txn name flags data =
     (case data of
        Some v \<Rightarrow> do { db \<leftarrow> db_of_bytes v; Some (0, DB_NEW OR DB_VALID OR DB_USRVALID, db, txn) }
      | None \<Rightarrow> do { (rc, txn) \<leftarrow> put_record put txn name (dummy_db flags);
                  Some (rc, DB_NEW OR DB_VALID OR DB_USRVALID OR DB_DIRTY, dummy_db flags, txn) })"

definition dbi_open_new :: "snapshot \<Rightarrow> db_put \<Rightarrow> bool \<Rightarrow> denv \<Rightarrow> dtxn \<Rightarrow> mval \<Rightarrow> u32 \<Rightarrow> nat
    \<Rightarrow> (int \<times> nat option \<times> denv \<times> dtxn) option" where
  "dbi_open_new sn put dup env txn name flags unused =
     (if unused = 0 \<and> length (e_names env) \<le> t_numdbs txn then Some (MDB_DBS_FULL, None, env, txn)
      else do {
        main \<leftarrow> rd (t_dbs txn) 1;
        if md_flags main AND (MDB_DUPSORT OR MDB_INTEGERKEY) \<noteq> 0
        then Some (if flags AND MDB_CREATE \<noteq> 0 then MDB_INCOMPATIBLE else MDB_NOTFOUND, None, env, txn)
        else do {
          (r, txn) \<leftarrow> find_record sn env txn name flags;
          case r of
            Inl rc \<Rightarrow> Some (rc, None, env, txn)
          | Inr data \<Rightarrow>
              if \<not> dup then Some (ENOMEM, None, env, txn)
              else do {
                (rc, dbflag, db, txn) \<leftarrow> record_and_flags put txn name flags data;
                if rc \<noteq> 0 then Some (rc, None, env, txn)
                else do { (env, txn') \<leftarrow> register_dbi env txn name unused dbflag db;
                          Some (0, Some (if unused \<noteq> 0 then unused else t_numdbs txn), env, txn') } } } })"

definition mdb_dbi_open :: "snapshot \<Rightarrow> db_put \<Rightarrow> bool \<Rightarrow> denv \<Rightarrow> dtxn \<Rightarrow> mval option \<Rightarrow> u32
    \<Rightarrow> (int \<times> nat option \<times> denv \<times> dtxn) option" where
  "mdb_dbi_open sn put dup env txn nm flags =
     (if flags AND NOT VALID_FLAGS \<noteq> 0 then Some (EINVAL, None, env, txn)
      else if t_flags txn AND TXN_BLOCKED \<noteq> 0 then Some (MDB_BAD_TXN, None, env, txn)
      else case nm of
        None \<Rightarrow> open_main env txn flags
      | Some name \<Rightarrow>
          do { main \<leftarrow> rd (e_cmps env) 1;
               env \<leftarrow> (if fst main = None then set_default_cmp env txn 1 else Some env);
               scan \<leftarrow> dbi_scan (e_names env) name (t_numdbs txn) 2 0;
               case scan of
                 Inl i \<Rightarrow> Some (0, Some i, env, txn)
               | Inr unused \<Rightarrow> dbi_open_new sn put dup env txn name flags unused })"

section \<open>Closing, and the transactions\<close>

definition mdb_dbi_close :: "denv \<Rightarrow> nat \<Rightarrow> denv" where
  "mdb_dbi_close env dbi =
     (if dbi < 2 \<or> length (e_names env) \<le> dbi then env
      else if e_names env ! dbi \<noteq> None
      then env\<lparr>e_names := (e_names env)[dbi := None], e_dbflags := (e_dbflags env)[dbi := 0],
               e_dbiseqs := (e_dbiseqs env)[dbi := e_dbiseqs env ! dbi + 1]\<rparr>
      else env)"

text \<open>The loop of \<open>mdb_dbis_update\<close>, from the last handle down.\<close>

fun dbis_loop :: "dtxn \<Rightarrow> bool \<Rightarrow> nat \<Rightarrow> denv \<Rightarrow> denv option" where
  "dbis_loop txn keep 0 env = Some env"
| "dbis_loop txn keep (Suc i) env =
     (if i < 2 then Some env
      else do {
        fl \<leftarrow> rd (t_dbflags txn) i;
        env \<leftarrow> (if fl AND DB_NEW = 0 then Some env
               else if keep
               then do { db \<leftarrow> rd (t_dbs txn) i; fls \<leftarrow> wr (e_dbflags env) i (md_flags db OR MDB_VALID); Some (env\<lparr>e_dbflags := fls\<rparr>) }
               else do { nm \<leftarrow> rd (e_names env) i;
                         if nm = None then Some env
                         else do { names \<leftarrow> wr (e_names env) i None; fls \<leftarrow> wr (e_dbflags env) i 0;
                                   old \<leftarrow> rd (e_dbiseqs env) i; seqs \<leftarrow> wr (e_dbiseqs env) i (old + 1);
                                   Some (env\<lparr>e_names := names, e_dbflags := fls, e_dbiseqs := seqs\<rparr>) } });
        dbis_loop txn keep i env })"

definition mdb_dbis_update :: "denv \<Rightarrow> dtxn \<Rightarrow> bool \<Rightarrow> denv option" where
  "mdb_dbis_update env txn keep =
     do { env \<leftarrow> dbis_loop txn keep (t_numdbs txn) env;
          Some (if keep \<and> e_numdbs env < t_numdbs txn then env\<lparr>e_numdbs := t_numdbs txn\<rparr> else env) }"

text \<open>The set-up of the handles when a transaction starts; \<open>old\<close> is the memory of the transaction.\<close>

definition handle_flags :: "u16 \<Rightarrow> u8" where
  "handle_flags x = (if x AND MDB_VALID \<noteq> 0 then DB_VALID OR DB_USRVALID OR DB_STALE else 0)"

definition txn_handles :: "denv \<Rightarrow> dtxn \<Rightarrow> MDB_db \<times> MDB_db \<Rightarrow> u32 \<Rightarrow> dtxn" where
  "txn_handles env old dbs flags =
     (let dbl = (t_dbs old)[0 := fst dbs, 1 := snd dbs];
          dbl = foldl (\<lambda>l i. l[i := (l ! i)\<lparr>md_flags := e_dbflags env ! i AND PERSISTENT_FLAGS\<rparr>]) dbl [2..<e_numdbs env];
          fls = foldl (\<lambda>l i. l[i := handle_flags (e_dbflags env ! i)]) (t_dbflags old) [2..<e_numdbs env]
      in \<lparr>t_flags = flags, t_numdbs = e_numdbs env, t_dbs = dbl,
          t_dbflags = fls[1 := DB_VALID OR DB_USRVALID, 0 := DB_VALID],
          t_seqs = (if flags AND TXN_RDONLY \<noteq> 0 then None else Some (e_dbiseqs env))\<rparr>)"

definition mdb_dbi_flags :: "dtxn \<Rightarrow> nat \<Rightarrow> int \<times> u16 option" where
  "mdb_dbi_flags txn dbi =
     (if \<not> TXN_DBI_EXIST txn dbi DB_USRVALID then (EINVAL, None) else (0, Some (md_flags (t_dbs txn ! dbi) AND PERSISTENT_FLAGS)))"

section \<open>The machine of transactions\<close>

text \<open>A state is the table and the transaction that may open handles, if there is one. A handle may be closed
  at any time. \<open>keep\<close> is a commit, its negation an abort.\<close>

inductive dstep :: "denv \<times> dtxn option \<Rightarrow> denv \<times> dtxn option \<Rightarrow> bool" where
  Begin: "length (t_dbs old) = length (e_names env) \<Longrightarrow> length (t_dbflags old) = length (e_names env) \<Longrightarrow>
    dstep (env, None) (env, Some (txn_handles env old dbs flags))"
| Open: "mdb_dbi_open sn put dup env txn nm flags = Some (rc, dbi, env', txn') \<Longrightarrow> dstep (env, Some txn) (env', Some txn')"
| Close: "dstep (env, t) (mdb_dbi_close env dbi, t)"
| End: "mdb_dbis_update env txn keep = Some env' \<Longrightarrow> dstep (env, Some txn) (env', None)"

inductive_cases dstepE: "dstep s s'"

text \<open>The table of an environment that was just opened.\<close>

definition denv_new :: "nat \<Rightarrow> denv" where
  "denv_new maxdbs = \<lparr>e_names = replicate maxdbs None, e_cmps = (replicate maxdbs (None, None))[0 := (Some Cmp_long, None)],
     e_dbflags = replicate maxdbs 0, e_dbiseqs = replicate maxdbs 0, e_numdbs = 2\<rparr>"

inductive dreach :: "nat \<Rightarrow> denv \<times> dtxn option \<Rightarrow> bool" for maxdbs where
  New: "dreach maxdbs (denv_new maxdbs, None)"
| Step: "dreach maxdbs s \<Longrightarrow> dstep s s' \<Longrightarrow> dreach maxdbs s'"

section \<open>The invariant\<close>

definition env_ok :: "nat \<Rightarrow> denv \<Rightarrow> bool" where
  "env_ok n env \<longleftrightarrow> length (e_names env) = n \<and> length (e_cmps env) = n \<and> length (e_dbflags env) = n \<and> length (e_dbiseqs env) = n
     \<and> 2 \<le> e_numdbs env \<and> e_numdbs env \<le> n \<and> e_names env ! 0 = None \<and> e_names env ! 1 = None
     \<and> (\<forall>i < n. e_names env ! i \<noteq> Some [])
     \<and> (\<forall>i < n. \<forall>j < n. e_names env ! i \<noteq> None \<and> e_names env ! i = e_names env ! j \<longrightarrow> i = j)"

text \<open>A named slot is one that a later transaction takes over.\<close>

definition exported :: "denv \<Rightarrow> nat \<Rightarrow> bool" where
  "exported env i \<longleftrightarrow> i < e_numdbs env \<and> e_dbflags env ! i AND MDB_VALID \<noteq> 0"

definition slot_ok :: "denv \<Rightarrow> dtxn \<Rightarrow> nat \<Rightarrow> bool" where
  "slot_ok env txn i \<longleftrightarrow> i < t_numdbs txn \<and> t_dbflags txn ! i AND DB_USRVALID \<noteq> 0
     \<and> (t_dbflags txn ! i AND DB_NEW \<noteq> 0 \<or> exported env i)
     \<and> \<not> TXN_DBI_CHANGED env txn i"

definition txn_ok :: "nat \<Rightarrow> denv \<Rightarrow> dtxn \<Rightarrow> bool" where
  "txn_ok n env txn \<longleftrightarrow> length (t_dbs txn) = n \<and> length (t_dbflags txn) = n
     \<and> (case t_seqs txn of None \<Rightarrow> True | Some s \<Rightarrow> length s = n)
     \<and> e_numdbs env \<le> t_numdbs txn \<and> t_numdbs txn \<le> n \<and> (\<forall>i < n. e_names env ! i \<noteq> None \<longrightarrow> slot_ok env txn i)"

definition dbi_inv :: "nat \<Rightarrow> denv \<times> dtxn option \<Rightarrow> bool" where
  "dbi_inv n s \<longleftrightarrow> (case s of
     (env, None) \<Rightarrow> env_ok n env \<and> (\<forall>i < n. e_names env ! i \<noteq> None \<longrightarrow> exported env i)
   | (env, Some txn) \<Rightarrow> env_ok n env \<and> txn_ok n env txn)"

lemma dbi_inv_new: "2 \<le> n \<Longrightarrow> dbi_inv n (denv_new n, None)"
  by (simp add: dbi_inv_def denv_new_def env_ok_def)

lemma set_default_cmp_fields:
  assumes "set_default_cmp env txn i = Some env'"
  shows "\<exists>cs c d. env' = env\<lparr>e_cmps := (e_cmps env)[i := (Some c, d)]\<rparr> \<and> i < length (e_cmps env)"
  using assms by (auto simp: set_default_cmp_def rd_def wr_def Let_def split: Option.bind_splits if_splits prod.splits)

lemma changed_cmps [simp]: "TXN_DBI_CHANGED (env\<lparr>e_cmps := cs\<rparr>) = TXN_DBI_CHANGED env"
  by (simp add: fun_eq_iff TXN_DBI_CHANGED_def split: option.splits)

lemma inv_cmps [simp]:
  "env_ok n (env\<lparr>e_cmps := (e_cmps env)[i := x]\<rparr>) = env_ok n env"
  "slot_ok (env\<lparr>e_cmps := cs\<rparr>) txn = slot_ok env txn" "exported (env\<lparr>e_cmps := cs\<rparr>) = exported env"
  "txn_ok n (env\<lparr>e_cmps := cs\<rparr>) txn = txn_ok n env txn"
  by (simp_all add: env_ok_def fun_eq_iff slot_ok_def exported_def txn_ok_def)

lemma dbi_inv_close:
  assumes "dbi_inv n (env, t)"
  shows "dbi_inv n (mdb_dbi_close env dbi, t)"
proof (cases "dbi < 2 \<or> length (e_names env) \<le> dbi \<or> e_names env ! dbi = None")
  case True
  then show ?thesis using assms by (auto simp: mdb_dbi_close_def)
next
  case False
  let ?e = "mdb_dbi_close env dbi"
  have e: "?e = env\<lparr>e_names := (e_names env)[dbi := None], e_dbflags := (e_dbflags env)[dbi := 0],
               e_dbiseqs := (e_dbiseqs env)[dbi := e_dbiseqs env ! dbi + 1]\<rparr>"
    using False by (simp add: mdb_dbi_close_def)
  have nm: "e_names ?e ! i = (if i = dbi then None else e_names env ! i)" for i
    using False by (simp add: e nth_list_update)
  have ok: "env_ok n ?e" if "env_ok n env"
  proof -
    have "e_names ?e ! 0 = None" "e_names ?e ! 1 = None" using that by (simp_all add: nm env_ok_def)
    moreover have "\<forall>i < n. e_names ?e ! i \<noteq> Some []" "\<forall>i < n. \<forall>j < n. e_names ?e ! i \<noteq> None \<and> e_names ?e ! i = e_names ?e ! j \<longrightarrow> i = j"
      using that by (auto simp: nm env_ok_def)
    ultimately show ?thesis using that by (simp add: env_ok_def) (simp add: e)
  qed
  have ex: "exported ?e i = exported env i" if "i \<noteq> dbi" for i using that by (simp add: exported_def e)
  have sl: "slot_ok ?e txn i = slot_ok env txn i" if "i \<noteq> dbi" for i txn
    using that ex [OF that] by (simp add: slot_ok_def TXN_DBI_CHANGED_def e split: option.splits)
  have "e_numdbs ?e = e_numdbs env" by (simp add: e)
  then show ?thesis
    using assms ok ex sl by (cases t) (auto simp: dbi_inv_def txn_ok_def nm)
qed

lemma foldl_upd_nth:
  "distinct is \<Longrightarrow> \<forall>i \<in> set is. i < length l \<Longrightarrow>
    foldl (\<lambda>l i. l[i := f (l ! i) i]) l is ! k = (if k \<in> set is then f (l ! k) k else l ! k)"
  by (induction "is" arbitrary: l) (auto simp: nth_list_update)

lemma length_foldl_upd [simp]: "length (foldl (\<lambda>l i. l[i := f (l ! i) i]) l is) = length l"
  by (induction "is" arbitrary: l) simp_all

lemma handle_flags_bits: "handle_flags x AND DB_USRVALID \<noteq> 0 \<longleftrightarrow> x AND MDB_VALID \<noteq> 0"
  by (simp add: handle_flags_def DB_VALID_def DB_USRVALID_def DB_STALE_def)

lemma dbi_inv_begin:
  assumes "dbi_inv n (env, None)" "length (t_dbs old) = length (e_names env)" "length (t_dbflags old) = length (e_names env)"
  shows "dbi_inv n (env, Some (txn_handles env old dbs flags))"
proof -
  let ?t = "txn_handles env old dbs flags"
  have env: "env_ok n env" and named: "\<And>i. i < n \<Longrightarrow> e_names env ! i \<noteq> None \<Longrightarrow> exported env i"
    using assms(1) by (simp_all add: dbi_inv_def)
  have n: "e_numdbs env \<le> n" "length (t_dbflags old) = n" "length (t_dbs old) = n"
    using env assms(2,3) by (simp_all add: env_ok_def)
  have slot: "slot_ok env ?t i" if "i < n" "e_names env ! i \<noteq> None" for i
  proof -
    have i: "2 \<le> i" using that(2) env by (cases "i = 0 \<or> i = 1") (auto simp: env_ok_def)
    note ex = named [OF that]
    then have "t_dbflags ?t ! i = handle_flags (e_dbflags env ! i)"
      using i n foldl_upd_nth [of "[2..<e_numdbs env]" "t_dbflags old" "\<lambda>_ i. handle_flags (e_dbflags env ! i)" i]
      by (simp add: txn_handles_def Let_def exported_def)
    moreover have "\<not> TXN_DBI_CHANGED env ?t i" "t_numdbs ?t = e_numdbs env"
      by (simp_all add: TXN_DBI_CHANGED_def txn_handles_def Let_def)
    ultimately show ?thesis using ex by (simp add: slot_ok_def exported_def handle_flags_bits)
  qed
  have len: "length (foldl (\<lambda>l i. l[i := handle_flags (e_dbflags env ! i)]) (t_dbflags old) [2..<e_numdbs env]) = n"
    using length_foldl_upd [of "\<lambda>_ i. handle_flags (e_dbflags env ! i)"] n by simp
  have len2: "length (foldl (\<lambda>l i. l[i := (l ! i)\<lparr>md_flags := e_dbflags env ! i AND PERSISTENT_FLAGS\<rparr>])
      ((t_dbs old)[0 := fst dbs, 1 := snd dbs]) [2..<e_numdbs env]) = n"
    using length_foldl_upd [of "\<lambda>(x :: MDB_db) i. x\<lparr>md_flags := e_dbflags env ! i AND PERSISTENT_FLAGS\<rparr>"] n by simp
  have "txn_ok n env ?t"
    using slot n len len2 env by (simp add: txn_ok_def) (simp add: txn_handles_def Let_def env_ok_def)
  then show ?thesis using env by (simp add: dbi_inv_def)
qed

lemma MDB_VALID_or: "(x OR MDB_VALID) AND MDB_VALID \<noteq> 0"
  by (simp add: word_ao_absorbs) (simp add: MDB_VALID_def)

lemma MDB_VALID_nz [simp]: "MDB_VALID \<noteq> 0"
  by (simp add: MDB_VALID_def)

text \<open>What the loop does to a slot.\<close>

definition taken_back :: "dtxn \<Rightarrow> nat \<Rightarrow> nat \<Rightarrow> bool" where
  "taken_back txn k i \<longleftrightarrow> 2 \<le> i \<and> i < k \<and> t_dbflags txn ! i AND DB_NEW \<noteq> 0"

lemma dbis_loop_spec:
  assumes "env_ok n env" "length (t_dbs txn) = n" "length (t_dbflags txn) = n"
  shows "k \<le> n \<Longrightarrow> \<exists>env'. dbis_loop txn keep k env = Some env' \<and> env_ok n env' \<and> e_numdbs env' = e_numdbs env
    \<and> (\<forall>i < n. e_names env' ! i = (if taken_back txn k i \<and> \<not> keep then None else e_names env ! i)
        \<and> (if taken_back txn k i then keep \<longrightarrow> e_dbflags env' ! i AND MDB_VALID \<noteq> 0
           else e_dbflags env' ! i = e_dbflags env ! i))"
  using assms
proof (induction k arbitrary: env)
  case 0
  then show ?case by (auto simp: taken_back_def)
next
  case (Suc k)
  show ?case
  proof (cases "k < 2")
    case True
    then show ?thesis using Suc.prems by (auto simp: taken_back_def)
  next
    case False
    let ?new = "t_dbflags txn ! k AND DB_NEW \<noteq> 0"
    have k: "k < n" using Suc.prems(1) by simp
    define env1 where "env1 = (if \<not> ?new then env
      else if keep then env\<lparr>e_dbflags := (e_dbflags env)[k := md_flags (t_dbs txn ! k) OR MDB_VALID]\<rparr>
      else if e_names env ! k = None then env
      else env\<lparr>e_names := (e_names env)[k := None], e_dbflags := (e_dbflags env)[k := 0],
             e_dbiseqs := (e_dbiseqs env)[k := e_dbiseqs env ! k + 1]\<rparr>)"
    have lens: "length (e_names env) = n" "length (e_dbflags env) = n" "length (e_dbiseqs env) = n"
      using Suc.prems(2) by (simp_all add: env_ok_def)
    have step: "dbis_loop txn keep (Suc k) env = dbis_loop txn keep k env1"
      using False k lens Suc.prems(3,4) by (simp add: env1_def rd_def wr_def)
    have nm: "e_names env1 ! i = (if i = k \<and> ?new \<and> \<not> keep then None else e_names env ! i)" for i
      using k lens by (simp add: env1_def nth_list_update)
    have fl: "(if i = k \<and> ?new then keep \<longrightarrow> e_dbflags env1 ! i AND MDB_VALID \<noteq> 0 else e_dbflags env1 ! i = e_dbflags env ! i)" for i
      using k lens by (simp add: env1_def nth_list_update MDB_VALID_or)
    have len: "length (e_names env1) = n" "length (e_cmps env1) = n" "length (e_dbflags env1) = n" "length (e_dbiseqs env1) = n"
      "e_numdbs env1 = e_numdbs env" using Suc.prems(2) by (simp_all add: env1_def env_ok_def)
    have "i = j" if "i < n" "j < n" "e_names env1 ! i \<noteq> None" "e_names env1 ! i = e_names env1 ! j" for i j
    proof -
      have "e_names env ! i \<noteq> None \<and> e_names env ! i = e_names env ! j" using that(3,4) by (simp add: nm split: if_splits)
      then show ?thesis using Suc.prems(2) that(1,2) unfolding env_ok_def by blast
    qed
    then have "\<forall>i < n. \<forall>j < n. e_names env1 ! i \<noteq> None \<and> e_names env1 ! i = e_names env1 ! j \<longrightarrow> i = j" by blast
    moreover have "e_names env1 ! 0 = None" "e_names env1 ! 1 = None" "\<forall>i < n. e_names env1 ! i \<noteq> Some []"
      using Suc.prems(2) unfolding nm env_ok_def by simp_all
    ultimately have ok: "env_ok n env1" using len Suc.prems(2) by (simp add: env_ok_def)
    have tb: "taken_back txn (Suc k) i \<longleftrightarrow> taken_back txn k i \<or> i = k \<and> ?new" for i
      using False by (auto simp: taken_back_def less_Suc_eq)
    have notk: "\<not> taken_back txn k k" by (simp add: taken_back_def)
    obtain env' where env': "dbis_loop txn keep k env1 = Some env'" "env_ok n env'" "e_numdbs env' = e_numdbs env1"
      "\<And>i. i < n \<Longrightarrow> e_names env' ! i = (if taken_back txn k i \<and> \<not> keep then None else e_names env1 ! i)
        \<and> (if taken_back txn k i then keep \<longrightarrow> e_dbflags env' ! i AND MDB_VALID \<noteq> 0 else e_dbflags env' ! i = e_dbflags env1 ! i)"
      using Suc.IH [OF _ ok Suc.prems(3,4)] Suc.prems(1) by auto
    show ?thesis
    proof (intro exI [of _ env'] conjI allI impI)
      fix i assume i: "i < n"
      show "e_names env' ! i = (if taken_back txn (Suc k) i \<and> \<not> keep then None else e_names env ! i)"
        using env'(4) [OF i] nm [of i] by (auto simp: tb)
      show "if taken_back txn (Suc k) i then keep \<longrightarrow> e_dbflags env' ! i AND MDB_VALID \<noteq> 0 else e_dbflags env' ! i = e_dbflags env ! i"
        using env'(4) [OF i] fl [of i] notk by (auto simp: tb split: if_splits)
    qed (use step env' len in simp_all)
  qed
qed

lemma dbi_inv_end:
  assumes "dbi_inv n (env, Some txn)"
  shows "\<exists>env'. mdb_dbis_update env txn keep = Some env' \<and> dbi_inv n (env', None)"
proof -
  have ok: "env_ok n env" "txn_ok n env txn" using assms by (simp_all add: dbi_inv_def)
  then have t: "length (t_dbs txn) = n" "length (t_dbflags txn) = n" "t_numdbs txn \<le> n" "e_numdbs env \<le> t_numdbs txn"
    by (simp_all add: txn_ok_def)
  from dbis_loop_spec [OF ok(1) t(1-3)] obtain e where e: "dbis_loop txn keep (t_numdbs txn) env = Some e" "env_ok n e"
    "e_numdbs e = e_numdbs env"
    "\<And>i. i < n \<Longrightarrow> e_names e ! i = (if taken_back txn (t_numdbs txn) i \<and> \<not> keep then None else e_names env ! i)
        \<and> (if taken_back txn (t_numdbs txn) i then keep \<longrightarrow> e_dbflags e ! i AND MDB_VALID \<noteq> 0 else e_dbflags e ! i = e_dbflags env ! i)"
    by blast
  define e' where "e' = (if keep \<and> e_numdbs e < t_numdbs txn then e\<lparr>e_numdbs := t_numdbs txn\<rparr> else e)"
  have e'n: "e_names e' = e_names e" "e_dbflags e' = e_dbflags e" "e_numdbs e' = (if keep then t_numdbs txn else e_numdbs env)"
    using e(3) t(4) by (auto simp: e'_def)
  have ok': "env_ok n e'" using e(2,3) t(3,4) by (auto simp: env_ok_def e'_def)
  have "exported e' i" if i: "i < n" "e_names e' ! i \<noteq> None" for i
  proof -
    have nm: "e_names env ! i \<noteq> None" using e(4) [OF i(1)] i(2) by (auto simp: e'n split: if_splits)
    then have s: "slot_ok env txn i" using ok(2) i(1) by (simp add: txn_ok_def)
    have "2 \<le> i" using nm ok(1) by (cases "i = 0 \<or> i = 1") (auto simp: env_ok_def)
    then have tb: "taken_back txn (t_numdbs txn) i \<longleftrightarrow> t_dbflags txn ! i AND DB_NEW \<noteq> 0"
      using s by (simp add: taken_back_def slot_ok_def)
    show ?thesis
      using e(4) [OF i(1)] s i(2) t(4) unfolding tb by (auto simp: exported_def e'n slot_ok_def split: if_splits)
  qed
  then have "dbi_inv n (e', None)" using ok' by (simp add: dbi_inv_def)
  moreover have "mdb_dbis_update env txn keep = Some e'" by (simp add: mdb_dbis_update_def e(1) e'_def)
  ultimately show ?thesis by blast
qed

section \<open>Opening a handle keeps the invariant\<close>

lemma dbi_scan_spec:
  assumes "n \<le> length names"
  shows "\<exists>r. dbi_scan names name n i unused = Some r \<and>
    (case r of Inl j \<Rightarrow> i \<le> j \<and> j < n \<and> names ! j = Some name
     | Inr u \<Rightarrow> (\<forall>j. i \<le> j \<and> j < n \<longrightarrow> names ! j \<noteq> Some name)
         \<and> (u = unused \<or> unused = 0 \<and> i \<le> u \<and> u < n \<and> names ! u = None))"
  using assms
proof (induction names name n i unused rule: dbi_scan.induct)
  case (1 names name n i unused)
  note eq = dbi_scan.simps [of names name n i unused]
  show ?case
  proof (cases "i < n")
    case False
    then show ?thesis by (auto simp: eq)
  next
    case True
    then have i: "rd names i = Some (names ! i)" using "1.prems" by (simp add: rd_def)
    have split: "(\<forall>j. i \<le> j \<and> j < n \<longrightarrow> P j) \<longleftrightarrow> P i \<and> (\<forall>j. i + 1 \<le> j \<and> j < n \<longrightarrow> P j)" for P
      using True by (metis Suc_eq_plus1 Suc_leD le_neq_implies_less Suc_leI order_refl)
    show ?thesis
    proof (cases "names ! i")
      case None
      from "1.IH"(1) [OF True i None "1.prems"] obtain r where
        r: "dbi_scan names name n (i + 1) (if unused = 0 then i else unused) = Some r"
        "case r of Inl j \<Rightarrow> i + 1 \<le> j \<and> j < n \<and> names ! j = Some name
         | Inr u \<Rightarrow> (\<forall>j. i + 1 \<le> j \<and> j < n \<longrightarrow> names ! j \<noteq> Some name)
             \<and> (u = (if unused = 0 then i else unused) \<or> (if unused = 0 then i else unused) = 0 \<and> i + 1 \<le> u \<and> u < n \<and> names ! u = None)"
        by blast
      show ?thesis
        using r True None by (intro exI [of _ r]) (auto simp: eq i split [of "\<lambda>j. names ! j \<noteq> Some name"] split: sum.splits if_splits)
    next
      case (Some nm)
      show ?thesis
      proof (cases "name = nm")
        case 2: True
        then have "dbi_scan names name n i unused = Some (Inl i)" using True Some by (subst eq) (simp add: i)
        then show ?thesis using True Some 2 by simp
      next
        case 2: False
        then have "\<not> (length name = length nm \<and> name = nm)" by simp
        from "1.IH"(2) [OF True i Some this "1.prems"] obtain r where
          r: "dbi_scan names name n (i + 1) unused = Some r"
          "case r of Inl j \<Rightarrow> i + 1 \<le> j \<and> j < n \<and> names ! j = Some name
           | Inr u \<Rightarrow> (\<forall>j. i + 1 \<le> j \<and> j < n \<longrightarrow> names ! j \<noteq> Some name)
               \<and> (u = unused \<or> unused = 0 \<and> i + 1 \<le> u \<and> u < n \<and> names ! u = None)"
          by blast
        show ?thesis
          using r True Some 2 by (intro exI [of _ r]) (auto simp: eq i split [of "\<lambda>j. names ! j \<noteq> Some name"] split: sum.splits)
      qed
    qed
  qed
qed

lemma find_record_spec:
  assumes "find_record sn env txn name flags = Some (r, txn')"
  shows "(\<exists>fl. txn' = txn\<lparr>t_flags := fl\<rparr>) \<and> (case r of Inl rc \<Rightarrow> rc \<noteq> 0 | Inr data \<Rightarrow> name \<noteq> [])"
proof -
  have set0: "mdb_cursor_set sn c [] (Some []) MDB_SET True = Some (MDB_BAD_VALSIZE, c, None, None)" for c
    by (simp add: mdb_cursor_set_def no_items_def)
  show ?thesis
    using assms by (cases "name = []") (auto simp: find_record_def Let_def set0 MDB_BAD_VALSIZE_def MDB_NOTFOUND_def
        MDB_INCOMPATIBLE_def EACCES_def
        split: Option.bind_splits if_splits prod.splits)
qed

lemma txn_ok_flags [simp]: "txn_ok n env (txn\<lparr>t_flags := fl\<rparr>) = txn_ok n env txn"
  by (simp add: txn_ok_def slot_ok_def TXN_DBI_CHANGED_def cong: option.case_cong)

lemma named_slot: "env_ok n env \<Longrightarrow> e_names env ! i \<noteq> None \<Longrightarrow> 2 \<le> i"
  by (cases "i = 0 \<or> i = 1") (auto simp: env_ok_def)

lemma txn_ok_main:
  assumes "env_ok n env" "txn_ok n env txn"
  shows "txn_ok n env (txn\<lparr>t_flags := fl, t_dbs := (t_dbs txn)[1 := db], t_dbflags := (t_dbflags txn)[1 := f]\<rparr>)"
proof -
  have "slot_ok env (txn\<lparr>t_flags := fl, t_dbs := (t_dbs txn)[1 := db], t_dbflags := (t_dbflags txn)[1 := f]\<rparr>) i = slot_ok env txn i"
    if "e_names env ! i \<noteq> None" for i
    using named_slot [OF assms(1) that] by (simp add: slot_ok_def TXN_DBI_CHANGED_def split: option.splits)
  then show ?thesis using assms(2) by (simp add: txn_ok_def split: option.splits)
qed

lemma register_spec:
  assumes reg: "register_dbi env txn name unused dbflag db = Some (env', txn')"
    and inv: "env_ok n env" "txn_ok n env txn" and ne: "name \<noteq> []"
    and slot: "slot = (if unused \<noteq> 0 then unused else t_numdbs txn)" "2 \<le> slot" "slot < n" "e_names env ! slot = None"
      "unused \<noteq> 0 \<Longrightarrow> unused < t_numdbs txn"
    and fresh: "\<And>j. j < n \<Longrightarrow> e_names env ! j \<noteq> Some name"
    and fl: "dbflag AND DB_NEW \<noteq> 0" "dbflag AND DB_USRVALID \<noteq> 0"
  shows "env_ok n env' \<and> txn_ok n env' txn' \<and> e_names env' = (e_names env)[slot := Some name] \<and> slot < t_numdbs txn'
    \<and> t_flags txn' = t_flags txn \<and> (1 \<noteq> slot \<longrightarrow> e_cmps env' ! 1 = e_cmps env ! 1)"
proof -
  let ?names = "(e_names env)[slot := Some name]" and ?seqs = "(e_dbiseqs env)[slot := e_dbiseqs env ! slot + 1]"
  let ?fls = "(t_dbflags txn)[slot := dbflag]"
  have len: "length (e_names env) = n" "length (t_dbflags txn) = n" "length (e_dbiseqs env) = n" "length (t_dbs txn) = n"
    "length (e_cmps env) = n" "case t_seqs txn of None \<Rightarrow> True | Some s \<Rightarrow> length s = n"
    using inv by (simp_all add: env_ok_def txn_ok_def)
  define tseqs where "tseqs = map_option (\<lambda>s. s[slot := e_dbiseqs env ! slot + 1]) (t_seqs txn)"
  have tseqs: "(case t_seqs txn of None \<Rightarrow> Some None
      | Some s \<Rightarrow> do { s \<leftarrow> wr s slot (e_dbiseqs env ! slot + 1); Some (Some s) }) = Some tseqs"
    using len(6) slot(3) by (cases "t_seqs txn") (simp_all add: tseqs_def wr_def)
  define t1 where "t1 = txn\<lparr>t_dbflags := ?fls, t_seqs := tseqs, t_dbs := (t_dbs txn)[slot := db]\<rparr>"
  have "do { env \<leftarrow> set_default_cmp (env\<lparr>e_names := ?names, e_dbiseqs := ?seqs\<rparr>) t1 slot;
             Some (env, if unused = 0 then t1\<lparr>t_numdbs := t_numdbs t1 + 1\<rparr> else t1) } = Some (env', txn')"
    using reg [unfolded register_dbi_def Let_def slot(1) [symmetric]] slot(3)
    unfolding t1_def by (simp add: mem_simps len tseqs)
  then obtain c d where env': "env' = (env\<lparr>e_names := ?names, e_dbiseqs := ?seqs\<rparr>)\<lparr>e_cmps := (e_cmps env)[slot := (Some c, d)]\<rparr>"
    and txn': "txn' = (if unused = 0 then t1\<lparr>t_numdbs := t_numdbs t1 + 1\<rparr> else t1)"
    by (auto dest!: set_default_cmp_fields split: Option.bind_splits)
  have nm: "e_names env' ! i = (if i = slot then Some name else e_names env ! i)" for i
    using len slot(3) by (simp add: env' nth_list_update)
  have "i = j" if "i < n" "j < n" "e_names env' ! i \<noteq> None" "e_names env' ! i = e_names env' ! j" for i j
  proof -
    have d: "i < n \<Longrightarrow> j < n \<Longrightarrow> e_names env ! i \<noteq> None \<Longrightarrow> e_names env ! i = e_names env ! j \<Longrightarrow> i = j"
      using inv(1) unfolding env_ok_def by blast
    show ?thesis
    proof (cases "i = slot \<or> j = slot")
      case True
      then show ?thesis using that fresh [of i] fresh [of j] by (auto simp: nm split: if_splits)
    next
      case False
      then show ?thesis using that d by (simp add: nm)
    qed
  qed
  then have "\<forall>i < n. \<forall>j < n. e_names env' ! i \<noteq> None \<and> e_names env' ! i = e_names env' ! j \<longrightarrow> i = j" by blast
  moreover have "e_names env' ! 0 = None" "e_names env' ! 1 = None" "\<forall>i < n. e_names env' ! i \<noteq> Some []"
    using inv(1) slot(2) ne by (auto simp: nm env_ok_def)
  moreover have "length (e_names env') = n" "length (e_cmps env') = n" "length (e_dbflags env') = n" "length (e_dbiseqs env') = n"
    "e_numdbs env' = e_numdbs env" using inv(1) by (simp_all add: env' env_ok_def)
  ultimately have ok: "env_ok n env'" using inv(1) by (simp add: env_ok_def)
  have num: "slot < t_numdbs txn'" "t_numdbs txn \<le> t_numdbs txn'" "t_numdbs txn' \<le> n"
    using slot inv(2) by (auto simp: txn' t1_def txn_ok_def split: if_splits)
  have fields: "t_dbflags txn' = ?fls" "t_seqs txn' = tseqs" "length (t_dbs txn') = n" "t_flags txn' = t_flags txn"
    using len by (simp_all add: txn' t1_def)
  have "slot_ok env' txn' i" if i: "i < n" "e_names env' ! i \<noteq> None" for i
  proof (cases "i = slot")
    case True
    then show ?thesis
      using num(1) fl len slot(3) by (auto simp: slot_ok_def fields TXN_DBI_CHANGED_def tseqs_def env' split: option.splits)
  next
    case False
    then have "slot_ok env txn i" using i inv(2) by (simp add: nm txn_ok_def)
    then show ?thesis
      using False num(2) by (auto simp: slot_ok_def fields TXN_DBI_CHANGED_def tseqs_def env' exported_def split: option.splits)
  qed
  then have "txn_ok n env' txn'"
    using num fields len inv(2) by (auto simp: txn_ok_def tseqs_def env' split: option.splits)
  then show ?thesis using ok num fields slot(2) by (simp add: env')
qed

text \<open>What a successful call for a name promises.\<close>

definition handle_open :: "nat \<Rightarrow> denv \<Rightarrow> denv \<Rightarrow> dtxn \<Rightarrow> mval \<Rightarrow> nat \<Rightarrow> bool" where
  "handle_open n env env' txn' name i \<longleftrightarrow> 2 \<le> i \<and> i < n \<and> e_names env' = (e_names env)[i := Some name]
     \<and> (e_names env ! i = None \<or> e_names env ! i = Some name)
     \<and> TXN_DBI_EXIST txn' i DB_USRVALID \<and> \<not> TXN_DBI_CHANGED env' txn' i \<and> fst (e_cmps env' ! 1) \<noteq> None"

lemma slot_handle:
  assumes "txn_ok n env txn" "i < n" "e_names env ! i \<noteq> None"
  shows "TXN_DBI_EXIST txn i DB_USRVALID" "\<not> TXN_DBI_CHANGED env txn i"
  using assms by (auto simp: txn_ok_def slot_ok_def TXN_DBI_EXIST_def)

lemma scan_fresh:
  assumes "txn_ok n env txn" "env_ok n env" "\<forall>j. 2 \<le> j \<and> j < t_numdbs txn \<longrightarrow> e_names env ! j \<noteq> Some name" "j < n"
  shows "e_names env ! j \<noteq> Some name"
proof
  assume j: "e_names env ! j = Some name"
  then have "slot_ok env txn j" "2 \<le> j" using assms(1,4) named_slot [OF assms(2), of j] by (simp_all add: txn_ok_def)
  then show False using assms(3) j by (simp add: slot_ok_def)
qed

text \<open>The states after a call: the invariants, and the table unchanged where it failed.\<close>

definition open_answer :: "nat \<Rightarrow> denv \<Rightarrow> mval \<Rightarrow> int \<times> nat option \<times> denv \<times> dtxn \<Rightarrow> bool" where
  "open_answer n env name r \<longleftrightarrow> (case r of (rc, dbi, env', txn') \<Rightarrow>
     env_ok n env' \<and> txn_ok n env' txn' \<and> (if rc = 0 then \<exists>i. dbi = Some i \<and> handle_open n env env' txn' name i
       else dbi = None \<and> e_names env' = e_names env))"

lemma free_slot:
  assumes "env_ok n env" "txn_ok n env txn" "t_numdbs txn \<le> i" "i < n"
  shows "e_names env ! i = None"
  using assms by (auto simp: txn_ok_def slot_ok_def)

lemma record_and_flags_spec:
  assumes "record_and_flags put txn name flags data = Some (rc, dbflag, db, txn')" "env_ok n env" "txn_ok n env txn"
  shows "txn_ok n env txn' \<and> t_numdbs txn' = t_numdbs txn \<and> dbflag AND DB_NEW \<noteq> 0 \<and> dbflag AND DB_USRVALID \<noteq> 0"
  using assms txn_ok_main [OF assms(2,3)]
  by (auto simp: record_and_flags_def put_record_def Let_def DB_NEW_def DB_VALID_def DB_USRVALID_def DB_DIRTY_def
      split: option.splits Option.bind_splits prod.splits)

lemma dbi_open_new_answer:
  assumes op: "dbi_open_new sn put dup env txn name flags unused = Some r"
    and inv: "env_ok n env" "txn_ok n env txn" "2 \<le> n"
    and fresh: "\<And>j. j < n \<Longrightarrow> e_names env ! j \<noteq> Some name"
    and slot: "unused = 0 \<or> 2 \<le> unused \<and> unused < t_numdbs txn \<and> e_names env ! unused = None"
    and cmp: "fst (e_cmps env ! 1) \<noteq> None" and len: "length (e_names env) = n"
  shows "open_answer n env name r"
proof (cases "unused = 0 \<and> n \<le> t_numdbs txn")
  case True
  then have "r = (MDB_DBS_FULL, None, env, txn)" using op len by (simp add: dbi_open_new_def)
  then show ?thesis using inv by (simp add: open_answer_def MDB_DBS_FULL_def)
next
  case False
  have room: "unused \<noteq> 0 \<or> t_numdbs txn < n" using False inv(2) by auto
  obtain main where main: "rd (t_dbs txn) 1 = Some main" using op False len by (auto simp: dbi_open_new_def split: Option.bind_splits)
  show ?thesis
  proof (cases "md_flags main AND (MDB_DUPSORT OR MDB_INTEGERKEY) \<noteq> 0")
    case True
    then have "\<exists>rc. rc \<noteq> 0 \<and> r = (rc, None, env, txn)"
      using op False len main by (auto simp: dbi_open_new_def MDB_INCOMPATIBLE_def MDB_NOTFOUND_def)
    then show ?thesis using inv by (auto simp: open_answer_def)
  next
    case 2: False
    obtain q t1 where q: "find_record sn env txn name flags = Some (q, t1)"
      and rest: "(case q of
            Inl rc \<Rightarrow> Some (rc, None, env, t1)
          | Inr data \<Rightarrow>
              if \<not> dup then Some (ENOMEM, None, env, t1)
              else do {
                (rc, dbflag, db, txn) \<leftarrow> record_and_flags put t1 name flags data;
                if rc \<noteq> 0 then Some (rc, None, env, txn)
                else do { (env, txn') \<leftarrow> register_dbi env txn name unused dbflag db;
                          Some (0, Some (if unused \<noteq> 0 then unused else t_numdbs txn), env, txn') } }) = Some r"
      using op False len main 2 by (auto simp: dbi_open_new_def split: Option.bind_splits)
    obtain fl where t1: "t1 = txn\<lparr>t_flags := fl\<rparr>" and qs: "case q of Inl rc \<Rightarrow> rc \<noteq> 0 | Inr data \<Rightarrow> name \<noteq> []"
      using find_record_spec [OF q] by blast
    have ok1: "txn_ok n env t1" using inv(2) by (simp add: t1)
    show ?thesis
    proof (cases q)
      case (Inl rc)
      then have "r = (rc, None, env, t1)" "rc \<noteq> 0" using rest qs by simp_all
      then show ?thesis using inv ok1 by (simp add: open_answer_def)
    next
      case (Inr data)
      show ?thesis
      proof (cases dup)
        case False
        then have "r = (ENOMEM, None, env, t1)" using rest Inr by simp
        then show ?thesis using inv ok1 by (simp add: open_answer_def ENOMEM_def)
      next
        case True
        obtain rc dbflag db t2 where rf: "record_and_flags put t1 name flags data = Some (rc, dbflag, db, t2)"
          and rest2: "(if rc \<noteq> 0 then Some (rc, None, env, t2)
                else do { (env, txn') \<leftarrow> register_dbi env t2 name unused dbflag db;
                          Some (0, Some (if unused \<noteq> 0 then unused else t_numdbs t2), env, txn') }) = Some r"
          using rest Inr True by (auto split: Option.bind_splits)
        note rs = record_and_flags_spec [OF rf inv(1) ok1]
        show ?thesis
        proof (cases "rc = 0")
          case False
          then have "r = (rc, None, env, t2)" using rest2 by simp
          then show ?thesis using inv rs False by (simp add: open_answer_def)
        next
          case 0: True
          define slot where "slot = (if unused \<noteq> 0 then unused else t_numdbs t2)"
          obtain env' txn' where reg: "register_dbi env t2 name unused dbflag db = Some (env', txn')" and r: "r = (0, Some slot, env', txn')"
            using rest2 0 by (auto simp: slot_def split: Option.bind_splits)
          have num: "t_numdbs t2 = t_numdbs txn" using rs t1 by simp
          have sl: "2 \<le> slot" "slot < n" "e_names env ! slot = None"
            using slot room inv num free_slot [OF inv(1,2), of "t_numdbs txn"] by (auto simp: slot_def txn_ok_def env_ok_def)
          have "name \<noteq> []" using qs Inr by simp
          note rg = register_spec [OF reg inv(1) conjunct1 [OF rs] this slot_def sl _ fresh, simplified num]
          have spec: "env_ok n env' \<and> txn_ok n env' txn' \<and> e_names env' = (e_names env)[slot := Some name]
              \<and> slot < t_numdbs txn' \<and> t_flags txn' = t_flags t2 \<and> (1 \<noteq> slot \<longrightarrow> e_cmps env' ! 1 = e_cmps env ! 1)"
            using rg rs slot by blast
          have "handle_open n env env' txn' name slot"
            using spec sl cmp slot_handle [of n env' txn' slot] len by (simp add: handle_open_def)
          then show ?thesis using spec r by (simp add: open_answer_def)
        qed
      qed
    qed
  qed
qed

lemma dbi_open_named:
  assumes op: "mdb_dbi_open sn put dup env txn (Some name) flags = Some r"
    and inv: "env_ok n env" "txn_ok n env txn" and n: "2 \<le> n"
  shows "open_answer n env name r"
proof (cases "flags AND NOT VALID_FLAGS \<noteq> 0 \<or> t_flags txn AND TXN_BLOCKED \<noteq> 0")
  case True
  then show ?thesis using op inv by (auto simp: mdb_dbi_open_def open_answer_def EINVAL_def MDB_BAD_TXN_def split: if_splits)
next
  case False
  have len: "length (e_names env) = n" "length (e_cmps env) = n" "t_numdbs txn \<le> n" using inv by (simp_all add: env_ok_def txn_ok_def)
  have one: "rd (e_cmps env) 1 = Some (e_cmps env ! 1)" using len n by (simp add: rd_def)
  obtain e scan where e: "(if fst (e_cmps env ! 1) = None then set_default_cmp env txn 1 else Some env) = Some e"
    and scan: "dbi_scan (e_names e) name (t_numdbs txn) 2 0 = Some scan"
    and rest: "(case scan of Inl i \<Rightarrow> Some (0, Some i, e, txn) | Inr unused \<Rightarrow> dbi_open_new sn put dup e txn name flags unused) = Some r"
    using op False one unfolding mdb_dbi_open_def by (auto split: Option.bind_splits)
  have e': "env_ok n e" "txn_ok n e txn" "e_names e = e_names env" "fst (e_cmps e ! 1) \<noteq> None"
    using e inv len n by (auto dest!: set_default_cmp_fields split: if_splits)
  from dbi_scan_spec [of "t_numdbs txn" "e_names e" name 2 0] len scan
  have sp: "case scan of Inl j \<Rightarrow> 2 \<le> j \<and> j < t_numdbs txn \<and> e_names e ! j = Some name
     | Inr u \<Rightarrow> (\<forall>j. 2 \<le> j \<and> j < t_numdbs txn \<longrightarrow> e_names e ! j \<noteq> Some name)
         \<and> (u = 0 \<or> 2 \<le> u \<and> u < t_numdbs txn \<and> e_names e ! u = None)"
    by (auto simp: e'(3) split: sum.splits)
  show ?thesis
  proof (cases scan)
    case (Inl i)
    then have i: "2 \<le> i" "i < n" "e_names e ! i = Some name" using sp len by auto
    have "(e_names env)[i := Some name] = e_names env" using i(3) by (metis e'(3) list_update_id)
    then have "handle_open n env e txn name i"
      using i slot_handle [OF e'(2) i(2)] e' by (simp add: handle_open_def)
    then show ?thesis using rest Inl e' by (auto simp: open_answer_def)
  next
    case (Inr u)
    have "open_answer n e name r"
    proof (rule dbi_open_new_answer [OF _ e'(1,2) n _ _ e'(4)])
      show "length (e_names e) = n" using e'(1) by (simp add: env_ok_def)
      show "dbi_open_new sn put dup e txn name flags u = Some r" using rest Inr by simp
      show "\<And>j. j < n \<Longrightarrow> e_names e ! j \<noteq> Some name" using scan_fresh [OF e'(2,1)] sp Inr by simp
      show "u = 0 \<or> 2 \<le> u \<and> u < t_numdbs txn \<and> e_names e ! u = None" using sp Inr by simp
    qed
    then show ?thesis by (auto simp: open_answer_def handle_open_def e'(3))
  qed
qed

lemma dbi_open_main:
  assumes "mdb_dbi_open sn put dup env txn None flags = Some (rc, dbi, env', txn')" "env_ok n env" "txn_ok n env txn"
  shows "env_ok n env' \<and> txn_ok n env' txn' \<and> e_names env' = e_names env"
proof -
  have "txn_ok n env (txn\<lparr>t_dbs := (t_dbs txn)[1 := db], t_flags := fl\<rparr>)" for db fl
    using assms(3) by (simp add: txn_ok_def slot_ok_def TXN_DBI_CHANGED_def)
  then show ?thesis
    using assms by (auto simp: mdb_dbi_open_def open_main_def Let_def dest!: set_default_cmp_fields
        split: if_splits Option.bind_splits)
qed

lemma dbi_inv_reach: "dreach n s \<Longrightarrow> 2 \<le> n \<Longrightarrow> dbi_inv n s"
proof (induction rule: dreach.induct)
  case New
  then show ?case by (rule dbi_inv_new)
next
  case (Step s s')
  then have inv: "dbi_inv n s" by simp
  from Step.hyps(2) inv show ?case
  proof (cases rule: dstep.cases)
    case (Open sn put dup env txn nm flags rc dbi env' txn')
    then show ?thesis
      using inv Step.prems dbi_open_named [of sn put dup env txn _ flags "(rc, dbi, env', txn')" n]
        dbi_open_main [of sn put dup env txn flags rc dbi env' txn' n]
      by (cases nm) (auto simp: dbi_inv_def open_answer_def)
  next
    case (End env txn keep env')
    then show ?thesis using dbi_inv_end [of n env txn keep] inv by auto
  qed (use inv dbi_inv_begin dbi_inv_close in auto)
qed

section \<open>Properties\<close>

lemma dbi_scan_found:
  assumes "n \<le> length names" "i \<le> j" "j < n" "names ! j = Some name" "\<forall>k < n. names ! k = Some name \<longrightarrow> k = j"
  shows "dbi_scan names name n i unused = Some (Inl j)"
proof -
  obtain r where r: "dbi_scan names name n i unused = Some r" and
    spec: "case r of Inl j \<Rightarrow> i \<le> j \<and> j < n \<and> names ! j = Some name
     | Inr u \<Rightarrow> (\<forall>j. i \<le> j \<and> j < n \<longrightarrow> names ! j \<noteq> Some name) \<and> (u = unused \<or> unused = 0 \<and> i \<le> u \<and> u < n \<and> names ! u = None)"
    using dbi_scan_spec [OF assms(1)] by blast
  show ?thesis
  proof (cases r)
    case (Inl k)
    then show ?thesis using r spec assms(5) by simp
  next
    case (Inr u)
    then have "names ! j \<noteq> Some name" using spec assms(2,3) by simp
    then show ?thesis using assms(4) by simp
  qed
qed

lemma env_ok_unique:
  assumes "env_ok n env" "e_names env ! i = Some nm" "e_names env ! j = Some nm" "i < n" "j < n"
  shows "i = j"
proof -
  have "\<forall>i < n. \<forall>j < n. e_names env ! i \<noteq> None \<and> e_names env ! i = e_names env ! j \<longrightarrow> i = j"
    using assms(1) unfolding env_ok_def by blast
  then show ?thesis using assms(2-5) by force
qed

lemma reopen:
  assumes "env_ok n env" "txn_ok n env txn" "2 \<le> i" "i < n" "e_names env ! i = Some name" "fst (e_cmps env ! 1) \<noteq> None"
    and "flags AND NOT VALID_FLAGS = 0" "t_flags txn AND TXN_BLOCKED = 0"
  shows "mdb_dbi_open sn put dup env txn (Some name) flags = Some (0, Some i, env, txn)"
proof -
  have uniq: "\<forall>k < n. e_names env ! k = Some name \<longrightarrow> k = i"
    using env_ok_unique [OF assms(1) _ assms(5) _ assms(4)] by blast
  have "slot_ok env txn i" using assms(2,4,5) by (simp add: txn_ok_def)
  then have t: "i < t_numdbs txn" by (simp add: slot_ok_def)
  have "t_numdbs txn \<le> n" "length (e_names env) = n" "length (e_cmps env) = n" using assms(1,2) by (simp_all add: env_ok_def txn_ok_def)
  moreover have "dbi_scan (e_names env) name (t_numdbs txn) 2 0 = Some (Inl i)"
    using calculation uniq t assms(3,5) by (intro dbi_scan_found) simp_all
  ultimately show ?thesis using assms(3,4,6-8) by (auto simp: mdb_dbi_open_def rd_def)
qed

text \<open>The stores of the registration are inside the tables, so only the search in the main database can fail
  to return.\<close>

lemma set_default_cmp_total:
  "i < length (t_dbs txn) \<Longrightarrow> i < length (e_cmps env) \<Longrightarrow> \<exists>env'. set_default_cmp env txn i = Some env'"
  by (auto simp: set_default_cmp_def rd_def wr_def Let_def split: prod.splits)

lemma register_total:
  assumes "env_ok n env" "txn_ok n env txn" "(if unused \<noteq> 0 then unused else t_numdbs txn) < n"
  shows "\<exists>r. register_dbi env txn name unused dbflag db = Some r"
proof -
  define slot where "slot = (if unused \<noteq> 0 then unused else t_numdbs txn)"
  have len: "length (e_names env) = n" "length (t_dbflags txn) = n" "length (e_dbiseqs env) = n" "length (t_dbs txn) = n"
    "length (e_cmps env) = n" "case t_seqs txn of None \<Rightarrow> True | Some s \<Rightarrow> length s = n"
    using assms(1,2) by (simp_all add: env_ok_def txn_ok_def)
  have slot: "slot < n" using assms(3) by (simp add: slot_def)
  have "\<exists>t. (case t_seqs txn of None \<Rightarrow> Some None | Some s \<Rightarrow> do { s \<leftarrow> wr s slot x; Some (Some s) }) = Some t" for x
    using len(6) slot by (auto simp: wr_def split: option.splits)
  then obtain tseqs where "(case t_seqs txn of None \<Rightarrow> Some None
      | Some s \<Rightarrow> do { s \<leftarrow> wr s slot (e_dbiseqs env ! slot + 1); Some (Some s) }) = Some tseqs" by blast
  moreover obtain e where "set_default_cmp (env\<lparr>e_names := (e_names env)[slot := Some name],
        e_dbiseqs := (e_dbiseqs env)[slot := e_dbiseqs env ! slot + 1]\<rparr>)
      (txn\<lparr>t_dbflags := (t_dbflags txn)[slot := dbflag], t_seqs := tseqs, t_dbs := (t_dbs txn)[slot := db]\<rparr>) slot = Some e"
    using set_default_cmp_total [of slot "txn\<lparr>t_dbflags := (t_dbflags txn)[slot := dbflag], t_seqs := tseqs,
        t_dbs := (t_dbs txn)[slot := db]\<rparr>" "env\<lparr>e_names := (e_names env)[slot := Some name],
        e_dbiseqs := (e_dbiseqs env)[slot := e_dbiseqs env ! slot + 1]\<rparr>"] len slot by auto
  ultimately show ?thesis
    unfolding register_dbi_def Let_def slot_def [symmetric] using slot by (simp add: mem_simps len)
qed

lemma record_and_flags_total:
  assumes "2 \<le> length (t_dbs txn)" "2 \<le> length (t_dbflags txn)" "\<And>v. data = Some v \<Longrightarrow> db_of_bytes v \<noteq> None"
  shows "\<exists>r. record_and_flags put txn name flags data = Some r"
  using assms by (cases data; cases "put (t_flags txn, t_dbs txn ! 1, t_dbflags txn ! 1) name (dummy_db flags)")
    (auto simp: record_and_flags_def put_record_def rd_def Let_def)

lemma dbi_open_new_total:
  assumes "env_ok n env" "txn_ok n env txn" "2 \<le> n" "unused = 0 \<or> unused < t_numdbs txn"
    and "dbi_open_new sn put dup env txn name flags unused = None"
  shows "find_record sn env txn name flags = None
    \<or> (\<exists>v t. find_record sn env txn name flags = Some (Inr (Some v), t) \<and> db_of_bytes v = None)"
proof (rule ccontr)
  assume neg: "\<not> ?thesis"
  have len: "length (e_names env) = n" "length (t_dbs txn) = n" "length (t_dbflags txn) = n" "t_numdbs txn \<le> n"
    using assms(1,2) by (simp_all add: env_ok_def txn_ok_def)
  have room: "\<not> (unused = 0 \<and> n \<le> t_numdbs txn)" using assms(5) len(1) by (auto simp: dbi_open_new_def)
  obtain q t where q: "find_record sn env txn name flags = Some (q, t)" using neg by auto
  then obtain fl where t: "t = txn\<lparr>t_flags := fl\<rparr>" using find_record_spec [OF q] by blast
  have one: "rd (t_dbs txn) 1 = Some (t_dbs txn ! 1)" using len assms(3) by (simp add: rd_def)
  obtain data where d: "q = Inr data"
    using assms(5) q one len(1) by (cases q) (auto simp: dbi_open_new_def split: if_splits)
  have ok: "txn_ok n env t" using assms(2) by (simp add: t)
  obtain rc dbflag db t2 where rf: "record_and_flags put t name flags data = Some (rc, dbflag, db, t2)"
    using record_and_flags_total [of t data put name flags] neg q d len assms(3) by (auto simp: t)
  have t2: "txn_ok n env t2" "t_numdbs t2 = t_numdbs txn" using record_and_flags_spec [OF rf assms(1) ok] t by simp_all
  have "(if unused \<noteq> 0 then unused else t_numdbs t2) < n" using room assms(4) len(4) t2(2) by auto
  from register_total [OF assms(1) t2(1) this] obtain r where "register_dbi env t2 name unused dbflag db = Some r" by blast
  then show False
    using assms(5) q d one rf len(1) by (cases r) (auto simp: dbi_open_new_def split: if_splits)
qed

lemma dbi_open_answered:
  assumes inv: "env_ok n env" "txn_ok n env txn" and n: "2 \<le> n"
    and op: "mdb_dbi_open sn put dup env txn (Some name) flags = Some (rc, dbi, env', txn')"
  shows "if rc = 0
    then \<exists>i. dbi = Some i \<and> 2 \<le> i \<and> i < n \<and> e_names env' = (e_names env)[i := Some name]
      \<and> (\<forall>j < n. e_names env' ! j = Some name \<longrightarrow> j = i)
      \<and> TXN_DBI_EXIST txn' i DB_USRVALID \<and> \<not> TXN_DBI_CHANGED env' txn' i
      \<and> (\<forall>fl. fl AND NOT VALID_FLAGS = 0 \<and> t_flags txn' AND TXN_BLOCKED = 0 \<longrightarrow>
          mdb_dbi_open sn put dup env' txn' (Some name) fl = Some (0, Some i, env', txn'))
    else dbi = None \<and> e_names env' = e_names env"
proof -
  from dbi_open_named [OF op inv n] have
    ok: "env_ok n env'" "txn_ok n env' txn'" and ans: "if rc = 0 then \<exists>i. dbi = Some i \<and> handle_open n env env' txn' name i
       else dbi = None \<and> e_names env' = e_names env" by (simp_all add: open_answer_def split: if_splits)
  show ?thesis
  proof (cases "rc = 0")
    case True
    then obtain i where i: "dbi = Some i" "handle_open n env env' txn' name i" using ans by auto
    have len: "length (e_names env) = n" using inv(1) by (simp add: env_ok_def)
    then have nm: "e_names env' ! i = Some name" using i(2) by (simp add: handle_open_def)
    have "\<forall>j < n. e_names env' ! j = Some name \<longrightarrow> j = i"
      using env_ok_unique [OF ok(1) _ nm] i(2) by (simp add: handle_open_def)
    moreover have "mdb_dbi_open sn put dup env' txn' (Some name) fl = Some (0, Some i, env', txn')"
      if "fl AND NOT VALID_FLAGS = 0 \<and> t_flags txn' AND TXN_BLOCKED = 0" for fl
      using reopen [OF ok _ _ nm] i(2) that by (simp add: handle_open_def)
    ultimately show ?thesis using True i by (simp add: handle_open_def)
  qed (use ans in simp)
qed

text \<open>All handles of the table are in use.\<close>

definition table_full :: "nat \<Rightarrow> denv \<Rightarrow> dtxn \<Rightarrow> bool" where
  "table_full n env txn \<longleftrightarrow> t_numdbs txn = n \<and> (\<forall>i < n. 2 \<le> i \<longrightarrow> e_names env ! i \<noteq> None)"

lemma dbi_open_total:
  assumes "env_ok n env" "txn_ok n env txn" "2 \<le> n" "flags AND NOT VALID_FLAGS = 0" "t_flags txn AND TXN_BLOCKED = 0"
  shows "Some name \<notin> set (e_names env) \<and> table_full n env txn \<Longrightarrow>
      \<exists>env'. mdb_dbi_open sn put dup env txn (Some name) flags = Some (MDB_DBS_FULL, None, env', txn) \<and> e_names env' = e_names env"
    and "mdb_dbi_open sn put dup env txn (Some name) flags = None \<Longrightarrow>
      \<not> table_full n env txn \<and> Some name \<notin> set (e_names env) \<and> (\<exists>e. e_names e = e_names env
        \<and> (find_record sn e txn name flags = None
          \<or> (\<exists>v t. find_record sn e txn name flags = Some (Inr (Some v), t) \<and> db_of_bytes v = None)))"
proof -
  have len: "length (e_names env) = n" "length (e_cmps env) = n" "length (t_dbs txn) = n" "t_numdbs txn \<le> n"
    using assms(1,2) by (simp_all add: env_ok_def txn_ok_def)
  have "\<exists>e. (if fst (e_cmps env ! 1) = None then set_default_cmp env txn 1 else Some env) = Some e"
    using set_default_cmp_total [of 1 txn env] len assms(3) by simp
  then obtain e where e: "(if fst (e_cmps env ! 1) = None then set_default_cmp env txn 1 else Some env) = Some e" by blast
  have e': "env_ok n e" "txn_ok n e txn" "e_names e = e_names env"
    using e assms(1,2) len by (auto dest!: set_default_cmp_fields split: if_splits)
  obtain scan where scan: "dbi_scan (e_names env) name (t_numdbs txn) 2 0 = Some scan" and
    found: "case scan of Inl j \<Rightarrow> 2 \<le> j \<and> j < t_numdbs txn \<and> e_names env ! j = Some name
     | Inr u \<Rightarrow> (\<forall>j. 2 \<le> j \<and> j < t_numdbs txn \<longrightarrow> e_names env ! j \<noteq> Some name)
         \<and> (u = 0 \<or> 0 = (0 :: nat) \<and> 2 \<le> u \<and> u < t_numdbs txn \<and> e_names env ! u = None)"
    using dbi_scan_spec [of "t_numdbs txn" "e_names env" name 2 0] len(1,4) by blast
  then have sp: "case scan of Inl j \<Rightarrow> 2 \<le> j \<and> j < t_numdbs txn \<and> e_names env ! j = Some name
     | Inr u \<Rightarrow> (\<forall>j. 2 \<le> j \<and> j < t_numdbs txn \<longrightarrow> e_names env ! j \<noteq> Some name)
         \<and> (u = 0 \<or> 2 \<le> u \<and> u < t_numdbs txn \<and> e_names env ! u = None)"
    by (auto split: sum.splits)
  have eq: "mdb_dbi_open sn put dup env txn (Some name) flags =
      (case scan of Inl i \<Rightarrow> Some (0, Some i, e, txn) | Inr unused \<Rightarrow> dbi_open_new sn put dup e txn name flags unused)"
    using assms(3-5) len e scan by (simp add: mdb_dbi_open_def rd_def e'(3))
  have fresh: "Some name \<notin> set (e_names env)" if "scan = Inr u" for u
    using scan_fresh [OF assms(2,1)] sp that len(1) by (auto simp: in_set_conv_nth)
  show "\<exists>env'. mdb_dbi_open sn put dup env txn (Some name) flags = Some (MDB_DBS_FULL, None, env', txn)
      \<and> e_names env' = e_names env" if "Some name \<notin> set (e_names env) \<and> table_full n env txn"
  proof (cases scan)
    case (Inl j)
    then show ?thesis using sp that len(1,4) nth_mem [of j "e_names env"] by auto
  next
    case (Inr u)
    then have "u = 0" using sp that by (auto simp: table_full_def)
    then show ?thesis using Inr that len(1) by (simp add: eq dbi_open_new_def e'(3) table_full_def)
  qed
  show "\<not> table_full n env txn \<and> Some name \<notin> set (e_names env) \<and> (\<exists>e. e_names e = e_names env
        \<and> (find_record sn e txn name flags = None
          \<or> (\<exists>v t. find_record sn e txn name flags = Some (Inr (Some v), t) \<and> db_of_bytes v = None)))"
    if none: "mdb_dbi_open sn put dup env txn (Some name) flags = None"
  proof -
    obtain u where u: "scan = Inr u" using none by (cases scan) (simp_all add: eq)
    have nw: "dbi_open_new sn put dup e txn name flags u = None" using none u by (simp add: eq)
    have ub: "u = 0 \<or> u < t_numdbs txn" using sp u by auto
    have "\<not> table_full n env txn"
    proof
      assume full: "table_full n env txn"
      then have "u = 0" using sp u by (auto simp: table_full_def)
      then show False using nw full len(1) by (simp add: dbi_open_new_def e'(3) table_full_def)
    qed
    then show ?thesis using fresh [OF u] e'(3) dbi_open_new_total [OF e'(1,2) assms(3) ub nw] by blast
  qed
qed


definition txn_memory :: dtxn where
  "txn_memory = \<lparr>t_flags = 0, t_numdbs = 0, t_dbs = replicate 3 (db_sample\<lparr>md_flags := 0, md_root := P_INVALID\<rparr>), t_dbflags = [0, 0, 0],
     t_seqs = None\<rparr>"

definition txn_started :: dtxn where
  "txn_started = txn_handles (denv_new 3) txn_memory
     (db_sample\<lparr>md_flags := 0, md_root := P_INVALID\<rparr>, db_sample\<lparr>md_flags := 0, md_root := P_INVALID\<rparr>) 0"

definition put_sample :: db_put where "put_sample x name db = (0, x)"

definition sn_empty :: snapshot where
  "sn_empty = \<lparr>sn_page = (\<lambda>_. None), sn_main = None, sn_name = [], sn_changed = False\<rparr>"

lemma started_reach: "dreach 3 (denv_new 3, Some txn_started)"
  unfolding txn_started_def
  by (rule dreach.Step [OF dreach.New dstep.Begin]) (simp_all add: txn_memory_def denv_new_def)

lemma replicate_3: "replicate 3 x = [x, x, x]"
  by (simp add: numeral_3_eq_3)

lemma find_record_sample:
  assumes "e_cmps env ! 1 = (Some Cmp_memn, None)" "length (e_cmps env) = 3" "md_root (t_dbs txn ! 1) = P_INVALID"
    "md_flags (t_dbs txn ! 1) = 0" "length (t_dbs txn) = 3" "length (t_dbflags txn) = 3"
    "t_dbflags txn ! 1 = DB_VALID OR DB_USRVALID" "t_flags txn = 0" "name \<noteq> []"
  shows "find_record sn_empty env txn name MDB_CREATE = Some (Inr None, txn)"
  using assms
  by (simp add: find_record_def rd_def mdb_cursor_init_def mdb_cursor_set_def mdb_page_search_def page_search_from_def
      no_items_def DB_VALID_def DB_USRVALID_def DB_STALE_def MDB_NOTFOUND_def MDB_CREATE_def TXN_RDONLY_def Let_def)

lemma create_valid: "MDB_CREATE AND NOT VALID_FLAGS = 0"
  by (simp add: MDB_CREATE_def VALID_FLAGS_def)

lemma scan_empty: "dbi_scan names name 2 2 u = Some (Inr u)"
  by (simp add: dbi_scan.simps)

lemma open_sample: "\<exists>env' txn'. mdb_dbi_open sn_empty put_sample True (denv_new 3) txn_started (Some [97]) MDB_CREATE
   = Some (0, Some 2, env', txn') \<and> t_numdbs txn' = 3 \<and> t_flags txn' = 0"
  by (simp add: mdb_dbi_open_def create_valid denv_new_def txn_started_def txn_memory_def txn_handles_def rd_def wr_def
      set_default_cmp_def replicate_3 mdb_default_cmp_def scan_empty dbi_open_new_def find_record_sample record_and_flags_def
      put_record_def put_sample_def register_dbi_def)


end
