(* ===== verification/Feature_Db.thy ===== *)
theory Feature_Db
  imports Sm3 Sha1 Sha256 Md5 Mdb_Tree Mdb_Dbi
begin

text \<open>
  \<open>FileScanControl/FeatureDB.cpp\<close>, the class \<open>CFeatureDB\<close>: is the digest of a file a key of the feature
  database? The digests are those of \<open>Sm3\<close>, \<open>Sha1\<close>, \<open>Sha256\<close> and \<open>Md5\<close>, the handle comes from \<open>Mdb_Dbi\<close> and
  the lookup is \<open>mdb_get\<close> of \<open>Mdb_Tree\<close>. What Windows and the opening of the environment answer is an argument.
  Objects are destroyed and handles closed without effect on the rest, so this is left out.
\<close>

unbundle bit_operations_syntax

section \<open>Digests\<close>

definition HASH_TYPE_SHA1 :: int where "HASH_TYPE_SHA1 = 1"
definition HASH_TYPE_SHA2 :: int where "HASH_TYPE_SHA2 = 2"
definition HASH_TYPE_MD5 :: int where "HASH_TYPE_MD5 = 3"
definition HASH_TYPE_SM3 :: int where "HASH_TYPE_SM3 = 4"

lemmas hash_types = HASH_TYPE_SHA1_def HASH_TYPE_SHA2_def HASH_TYPE_MD5_def HASH_TYPE_SM3_def

definition GetHashLengthByType :: "int \<Rightarrow> int" where
  "GetHashLengthByType nType =
     (if nType = HASH_TYPE_MD5 then 16 else if nType = HASH_TYPE_SHA1 then 20
      else if nType = HASH_TYPE_SHA2 then 32 else if nType = HASH_TYPE_SM3 then 32 else - 1)"

definition hex_table :: string where "hex_table = ''0123456789ABCDEF''"

function bin2hex_loop :: "u8 list \<Rightarrow> int \<Rightarrow> nat \<Rightarrow> string \<Rightarrow> string option" where
  "bin2hex_loop bin n i hex =
     (if int i < n
      then (case rd bin i of None \<Rightarrow> None | Some b \<Rightarrow>
             (case wr hex (i * 2) (hex_table ! unat (drop_bit 4 b AND 0x0F)) of None \<Rightarrow> None | Some hex \<Rightarrow>
               (case wr hex (i * 2 + 1) (hex_table ! unat (b AND 0x0F)) of None \<Rightarrow> None | Some hex \<Rightarrow>
                 bin2hex_loop bin n (i + 1) hex)))
      else Some hex)"
  by pat_completeness auto
termination by (relation "measure (\<lambda>(bin, n, i, hex). nat (n - int i))") auto

declare bin2hex_loop.simps [simp del]

definition Bin2Hex :: "u8 list \<Rightarrow> int \<Rightarrow> string \<Rightarrow> string option" where
  "Bin2Hex bin n hex =
     do { hex \<leftarrow> bin2hex_loop bin n 0 hex; if n < 0 then None else wr hex (nat (n * 2)) (CHR 0x00) }"

text \<open>The text of \<open>HexToWStr\<close>: a null pointer or a length of 0 gives the empty string, else \<open>nLen\<close> bytes are read.\<close>

definition hex_byte :: "u8 \<Rightarrow> string" where
  "hex_byte b = [hex_table ! unat (drop_bit 4 b), hex_table ! unat (b AND 0x0F)]"

definition HexToWStr :: "u8 list option \<Rightarrow> u32 \<Rightarrow> string option" where
  "HexToWStr pHex nLen =
     (case pHex of
        None \<Rightarrow> Some []
      | Some bs \<Rightarrow> if nLen = 0 then Some [] else do { v \<leftarrow> get_bytes bs 0 (unat nLen); Some (concat (map hex_byte v)) })"

text \<open>\<open>buf\<close> is the memory at \<open>pHash\<close>, \<open>pBuf\<close> the view of the file; \<open>size\<close> is a \<open>DWORD\<close>, which \<open>sm3_update\<close> takes
  as an \<open>int\<close>. \<open>s\<close> is what the context on the stack contains at first.\<close>

definition file_digest :: "ub_shift \<Rightarrow> stack_mem \<Rightarrow> int \<Rightarrow> u8 list \<Rightarrow> u32 \<Rightarrow> u8 list option" where
  "file_digest us s nType pBuf sz =
     (if nType = HASH_TYPE_SHA1 then Some (snd (sha1_finish (sha1_update (sha1_starts (sha1_uninit s)) pBuf sz)))
      else if nType = HASH_TYPE_SHA2
      then Some (snd (sha256_finish (sha256_update (sha256_starts (sha256_uninit s) 0) pBuf (u64_of_u32 sz))))
      else if nType = HASH_TYPE_SM3 then Some (snd (sm3_finish us (sm3_update us (sm3_starts (sm3_uninit s)) pBuf (sint sz))))
      else do { c \<leftarrow> MD5Update (MD5Init (md5_uninit s)) pBuf sz; (_, d) \<leftarrow> MD5Final c; Some d })"

definition CalcFileHash :: "ub_shift \<Rightarrow> stack_mem \<Rightarrow> u8 list \<Rightarrow> int \<Rightarrow> u8 list \<Rightarrow> u32 \<Rightarrow> u8 list option" where
  "CalcFileHash us s buf nType pBuf sz =
     (if length pBuf < unat sz then None
      else do { d \<leftarrow> file_digest us s nType pBuf sz;
                if length d \<le> length buf then Some (blit buf 0 d) else None })"

text \<open>A file as Windows shows it: whether it opens, whether its size can be had, whether it can be mapped, its
  bytes in the view, and whether a page of the view cannot be read (a disk that was pulled out).\<close>

record win_file =
  wf_open :: bool
  wf_size :: bool
  wf_map :: bool
  wf_view :: "u8 list option"
  wf_fault :: bool

text \<open>The \<open>LONGLONG\<close> size becomes a \<open>DWORD\<close> at the call. A page fault ends the computation before \<open>pHash\<close> is
  written, and is not reported.\<close>

definition FetchFileHash :: "ub_shift \<Rightarrow> stack_mem \<Rightarrow> u8 list option \<Rightarrow> int \<Rightarrow> int \<Rightarrow> win_file
    \<Rightarrow> (bool \<times> u8 list option) option" where
  "FetchFileHash us s pHash nLength nType f =
     (case pHash of
        None \<Rightarrow> Some (False, pHash)
      | Some buf \<Rightarrow>
          let nCheckLength = GetHashLengthByType nType
          in if nCheckLength \<le> 0 \<or> nCheckLength \<noteq> nLength then Some (False, pHash)
             else if \<not> wf_open f \<or> \<not> wf_map f then Some (False, pHash)
             else case wf_view f of
                    None \<Rightarrow> Some (False, pHash)
                  | Some view \<Rightarrow>
                      if wf_fault f then Some (True, pHash)
                      else do { let filesize = (if wf_size f then length view else 0);
                                buf \<leftarrow> CalcFileHash us s buf nType view (of_nat filesize);
                                Some (True, Some buf) })"

section \<open>The object\<close>

text \<open>\<open>fd_env\<close> is \<open>m_pEnv\<close>, of a type of environments that stays abstract.\<close>

record 'e feature_db =
  fd_env :: "'e option"
  fd_init :: bool
  fd_path :: string

text \<open>What the calls of \<open>Init\<close> answer: the directory of the database (\<open>None\<close> when it cannot be created),
  \<open>mdb_env_create\<close>, \<open>mdb_env_set_mapsize\<close> and \<open>mdb_env_open\<close>.\<close>

record 'e env_calls =
  ec_dir :: "string option"
  ec_create :: "int \<times> 'e"
  ec_mapsize :: "'e \<Rightarrow> nat \<Rightarrow> 'e"
  ec_open :: "'e \<Rightarrow> string \<Rightarrow> int \<times> 'e"

definition FEATURE_LIB_MAP_SIZE :: nat where "FEATURE_LIB_MAP_SIZE = 1024 * 1024 * 20"

definition CFeatureDB :: "'e feature_db" where "CFeatureDB = \<lparr>fd_env = None, fd_init = False, fd_path = []\<rparr>"

definition InitDBPath :: "'e env_calls \<Rightarrow> 'e feature_db \<Rightarrow> 'e feature_db" where
  "InitDBPath ec d = (case ec_dir ec of None \<Rightarrow> d | Some p \<Rightarrow> d\<lparr>fd_path := p\<rparr>)"

definition InitEnv :: "'e env_calls \<Rightarrow> 'e feature_db \<Rightarrow> bool \<times> 'e feature_db" where
  "InitEnv ec d =
     (let d = d\<lparr>fd_init := False\<rparr>
      in if fd_env d \<noteq> None then (fd_init d, d)
         else let (nRet, e) = ec_create ec
              in if nRet \<noteq> 0 then (fd_init d, d)
                 else let e = ec_mapsize ec e FEATURE_LIB_MAP_SIZE;
                          (nRet, e) = ec_open ec e (fd_path d);
                          d = d\<lparr>fd_env := Some e\<rparr>
                      in if nRet \<noteq> 0 then (fd_init d, d) else let d = d\<lparr>fd_init := True\<rparr> in (fd_init d, d))"

definition Init :: "'e env_calls \<Rightarrow> 'e feature_db \<Rightarrow> bool \<times> 'e feature_db" where
  "Init ec d =
     (if fd_init d then (fd_init d, d)
      else let (r, d) = InitEnv ec (InitDBPath ec d); d = d\<lparr>fd_init := r\<rparr> in (fd_init d, d))"

text \<open>The environment that is closed, and the object.\<close>

definition Uninit :: "'e feature_db \<Rightarrow> 'e option \<times> 'e feature_db" where
  "Uninit d = (if fd_init d \<and> fd_env d \<noteq> None then (fd_env d, d\<lparr>fd_env := None\<rparr>) else (None, d))"

section \<open>Looking a digest up\<close>

text \<open>\<open>mdb_txn_begin\<close> with \<open>MDB_RDONLY\<close>: an error, or the handles, the transaction and the pages it sees.\<close>

type_synonym 'e read_begin = "'e \<Rightarrow> int + (denv \<times> dtxn \<times> snapshot)"

text \<open>\<open>mdb_get\<close> with its arguments out of a transaction.\<close>

definition txn_get :: "denv \<Rightarrow> dtxn \<Rightarrow> snapshot \<Rightarrow> nat \<Rightarrow> mval \<Rightarrow> (int \<times> mval option) option" where
  "txn_get env txn sn dbi key =
     do { db \<leftarrow> rd (t_dbs txn) dbi; (mcmp, dcmp) \<leftarrow> rd (e_cmps env) dbi; cmp \<leftarrow> mcmp;
          mdb_get sn (TXN_DBI_EXIST txn dbi DB_USRVALID) dbi db cmp dcmp (t_dbflags txn ! dbi AND DB_STALE \<noteq> 0) (t_flags txn) key }"

text \<open>The string that starts at an offset; \<open>None\<close> when it does not end in the data.\<close>

definition c_string :: "mval \<Rightarrow> nat \<Rightarrow> mval option" where
  "c_string v k = (if 0 \<in> set (drop k v) then Some (takeWhile (\<lambda>b. b \<noteq> 0) (drop k v)) else None)"

definition VIRUS_NAME_RANSOMWARE :: mval where "VIRUS_NAME_RANSOMWARE = map of_char ''Ransomware''"

text \<open>The answers are \<open>bRet\<close>, \<open>bExist\<close> and the name; \<open>strVirusName\<close> is a parameter by value, so that the name stays
  in the function.\<close>

definition IsHashExist :: "'e env_calls \<Rightarrow> 'e read_begin \<Rightarrow> 'e feature_db \<Rightarrow> u8 list option \<Rightarrow> int \<Rightarrow> bool \<Rightarrow> mval
    \<Rightarrow> (bool \<times> bool \<times> mval \<times> 'e feature_db) option" where
  "IsHashExist ec begin_txn d pHash nLength bExist strVirusName =
     (case pHash of
        None \<Rightarrow> Some (False, bExist, strVirusName, d)
      | Some bs \<Rightarrow>
          if nLength < 16 then Some (False, bExist, strVirusName, d)
          else let (ok, d) = (if \<not> fd_init d then Init ec d else (True, d))
               in if \<not> ok then Some (False, bExist, strVirusName, d)
               else do {
                 e \<leftarrow> fd_env d;
                 case begin_txn e of
                   Inl rc \<Rightarrow> Some (False, bExist, strVirusName, d)
                 | Inr (env, txn, sn) \<Rightarrow>
                     do { (iRet, dbi, env, txn) \<leftarrow> mdb_dbi_open sn (\<lambda>x _ _. (0, x)) True env txn None 0;
                          if iRet \<noteq> 0 then Some (False, bExist, strVirusName, d)
                          else do {
                            strVirusHash \<leftarrow> HexToWStr (Some bs) (of_int nLength);
                            dbi \<leftarrow> dbi;
                            key \<leftarrow> get_bytes bs 0 (nat nLength);
                            (iRet, val) \<leftarrow> txn_get env txn sn dbi key;
                            if iRet \<noteq> 0 then Some (iRet = MDB_NOTFOUND, False, strVirusName, d)
                            else do { v \<leftarrow> val; nm \<leftarrow> c_string v 33;
                                      Some (True, True, if length nm = 0 then VIRUS_NAME_RANSOMWARE else nm, d) } } } })"

text \<open>\<open>junk\<close> is what \<open>new\<close> finds in the memory of the digest.\<close>

definition CheckRansomware :: "ub_shift \<Rightarrow> stack_mem \<Rightarrow> (nat \<Rightarrow> u8) \<Rightarrow> (string \<Rightarrow> win_file) \<Rightarrow> 'e env_calls \<Rightarrow> 'e read_begin
    \<Rightarrow> 'e feature_db \<Rightarrow> mval \<Rightarrow> string \<Rightarrow> int \<Rightarrow> (bool \<times> 'e feature_db) option" where
  "CheckRansomware us s junk files ec begin_txn d strVirusName wstrFileName nType =
     (if wstrFileName = [] then Some (False, d)
      else let nType = (if nType < HASH_TYPE_SHA1 \<or> HASH_TYPE_SM3 < nType then HASH_TYPE_MD5 else nType);
               nLength = GetHashLengthByType nType
           in if nLength \<le> 0 then Some (False, d)
           else do {
             (bRet, pHash) \<leftarrow> FetchFileHash us s (Some (map junk [0..<nat nLength])) nLength nType (files wstrFileName);
             if \<not> bRet then Some (bRet, d)
             else do {
               bs \<leftarrow> pHash;
               hexHash \<leftarrow> Bin2Hex bs nLength (replicate 80 (CHR 0x00));
               (bRet, bExist, _, d) \<leftarrow> IsHashExist ec begin_txn d pHash nLength False strVirusName;
               Some (if bRet then bExist else bRet, d) } })"

section \<open>The digest is the standard one\<close>

definition std_digest :: "int \<Rightarrow> u8 list \<Rightarrow> u8 list" where
  "std_digest nType m =
     (if nType = HASH_TYPE_SHA1 then concat (map put_be (md_digest sha1_std_compress sha1_iv m))
      else if nType = HASH_TYPE_SHA2 then sha256_std 0 m
      else if nType = HASH_TYPE_SM3 then concat (map put_be (md_digest sm3_std_compress sm3_iv m))
      else md5_rfc m)"

lemma sha1_one: "length m < 2 ^ 32 \<Longrightarrow>
    snd (sha1_finish (sha1_update (sha1_starts (sha1_uninit s)) m (of_nat (length m)))) = concat (map put_be (md_digest sha1_std_compress sha1_iv m))"
proof -
  assume m: "length m < 2 ^ 32"
  have "sha1_compress = sha1_std_compress" by (intro ext sha1_compress_std)
  then show ?thesis
    using sha1.hash_one [OF length_sha1_buffer_uninit m] by (simp only: md_hash_def sha1_output_eq length_sha1_std_digest)
qed

lemma sha256_one:
  assumes "length m < 2 ^ 32"
  shows "snd (sha256_finish (sha256_update (sha256_starts (sha256_uninit s) 0) m (of_nat (length m)))) = sha256_std 0 m"
proof -
  have "length (mc_buf (sha256_core (sha256_uninit s))) = 64" by (simp add: sha256_uninit_def sha256_core_def)
  from sha256.hash_one [OF this assms] show ?thesis by (simp only: sha256_hash_std)
qed

lemma sm3_hash_std:
  assumes "masks_count us"
  shows "sm3_hash us m = concat (map put_be (md_digest sm3_std_compress sm3_iv m))"
proof -
  have "sm3_compress us = sm3_std_compress" by (intro ext sm3_compress_std assms)
  then show ?thesis by (simp only: md_hash_def sm3_output_eq length_sm3_std_digest)
qed

lemma sm3_one:
  assumes "masks_count us" "length m < 2 ^ 31"
  shows "snd (sm3_finish us (sm3_update us (sm3_starts (sm3_uninit s)) m (int (length m))))
    = concat (map put_be (md_digest sm3_std_compress sm3_iv m))"
  using sm3.hash_one [OF sm3_wf_uninit assms(2)] by (simp only: sm3_hash_std [OF assms(1)])

lemma md5_one:
  assumes "length m < 2 ^ 32 - 64"
  shows "do { c \<leftarrow> MD5Update (MD5Init (md5_uninit s)) m (of_nat (length m)); (_, d) \<leftarrow> MD5Final c; Some d } = Some (md5_rfc m)"
proof -
  have "length (md5_buffer (md5_uninit s)) = 64" by (simp add: md5_uninit_def)
  note abs = md5.absorbed_starts [OF this]
  have lim: "length m + 64 < 2 ^ 32" using assms by simp
  obtain c where c: "MD5Update (MD5Init (md5_uninit s)) m (of_nat (length m)) = Some c" "md5_absorbed m c"
    using MD5Update_absorbed [OF abs lim, of "[]"] by auto
  from md5_final_absorbed [OF c(2)] md5.finish_digest [OF c(2)] show ?thesis by (auto simp: c(1) md5_hash_rfc)
qed

lemma sint_length: "n < 2 ^ 31 \<Longrightarrow> sint (of_nat n :: u32) = int n"
proof -
  assume n: "n < 2 ^ 31"
  then have u: "unat (of_nat n :: u32) = n" by (simp add: unat_of_nat)
  then show ?thesis using sint_small [of "of_nat n"] n by simp
qed

lemma file_digest_std:
  assumes "masks_count us" "length m < 2 ^ 31"
  shows "file_digest us s nType m (of_nat (length m)) = Some (std_digest nType m)"
proof -
  have n: "length m < 2 ^ 32" "length m < 2 ^ 32 - 64" using assms(2) by simp_all
  have "u64_of_u32 (of_nat (length m)) = of_nat (length m)"
    using n(1) by (simp add: word_unat_eq_iff unat_of_nat)
  then show ?thesis
    using sha1_one [OF n(1)] sha256_one [OF n(1)] sm3_one [OF assms] md5_one [OF n(2)] sint_length [OF assms(2)]
    by (simp add: file_digest_def std_digest_def)
qed

lemma length_put_be_list: "length (concat (map put_be ws)) = 4 * length ws"
  by (induction ws) simp_all

lemma length_md5_rfc: "length (md5_rfc m) = 16"
proof -
  have "length (foldl md5_std_compress st bs) = 4" if "length st = 4" for st bs
    using that by (induction bs arbitrary: st) (simp_all add: md5_std_compress_def Let_def split: prod.split)
  then have "length (foldl md5_std_compress md5_iv bs) = 4" for bs by (simp add: md5_iv_def)
  moreover have "length (concat (map put_le ws)) = 4 * length ws" for ws by (induction ws) simp_all
  ultimately show ?thesis by (simp add: md5_rfc_def)
qed

lemma length_std_digest:
  assumes "HASH_TYPE_SHA1 \<le> nType" "nType \<le> HASH_TYPE_SM3"
  shows "int (length (std_digest nType m)) = GetHashLengthByType nType"
  using assms length_sha1_std_digest length_sha256_std_digest length_sm3_std_digest length_md5_rfc
  by (simp add: std_digest_def sha256_std_def length_put_be_list GetHashLengthByType_def hash_types)

section \<open>The lookup\<close>

text \<open>A transaction that can read the main database, whose records have the form that \<open>IsHashExist\<close> relies on.\<close>

definition main_ready :: "denv \<Rightarrow> dtxn \<Rightarrow> snapshot \<Rightarrow> tree option \<Rightarrow> bool" where
  "main_ready env txn sn t \<longleftrightarrow> t_flags txn AND TXN_BLOCKED = 0 \<and> 1 < t_numdbs txn \<and> 1 < length (t_dbs txn)
     \<and> t_dbflags txn ! 1 = DB_VALID OR DB_USRVALID \<and> 1 < length (e_cmps env) \<and> md_flags (t_dbs txn ! 1) = 0
     \<and> db_tree sn (t_dbs txn ! 1) Cmp_memn 0 t \<and> (\<forall>kv \<in> set (db_items sn t). 0 \<in> set (drop 33 (snd kv)))"

lemma open_main_ready:
  assumes "main_ready env txn sn t"
  shows "mdb_dbi_open sn put dup env txn None 0
    = Some (0, Some 1, env\<lparr>e_cmps := (e_cmps env)[1 := (Some Cmp_memn, None)]\<rparr>, txn)"
  using assms by (simp add: main_ready_def mdb_dbi_open_def open_main_def set_default_cmp_def mdb_default_cmp_def rd_def wr_def)

lemma txn_get_main:
  assumes "main_ready env txn sn t" "length key < 2 ^ 32" "key \<noteq> []" "e_cmps env ! 1 = (Some Cmp_memn, None)"
  shows "txn_get env txn sn 1 key =
    Some (case map_of (db_items sn t) key of None \<Rightarrow> (MDB_NOTFOUND, None) | Some v \<Rightarrow> (0, Some v))"
proof -
  have bits: "(DB_VALID OR DB_USRVALID) AND DB_STALE = 0" "(DB_VALID OR DB_USRVALID) AND DB_USRVALID \<noteq> 0"
    by (simp_all add: DB_VALID_def DB_USRVALID_def DB_STALE_def)
  show ?thesis
    using assms bits mdb_get_spec [of sn "t_dbs txn ! 1" Cmp_memn 0 t key "t_flags txn" 1 None]
    by (simp add: main_ready_def txn_get_def rd_def TXN_DBI_EXIST_def)
qed

lemma HexToWStr_all: "n < 2 ^ 31 \<Longrightarrow> n \<le> length bs \<Longrightarrow> \<exists>h. HexToWStr (Some bs) (of_int (int n)) = Some h"
  by (auto simp: HexToWStr_def get_bytes_def unat_of_nat)

lemma IsHashExist_spec:
  assumes "fd_init d" "fd_env d = Some e" "begin_txn e = Inr (env, txn, sn)" "main_ready env txn sn t"
    and "16 \<le> length key" "length key < 2 ^ 31"
  shows "\<exists>nm. IsHashExist ec begin_txn d (Some key) (int (length key)) bExist name
    = Some (True, key \<in> fst ` set (db_items sn t), nm, d)"
proof -
  let ?env = "env\<lparr>e_cmps := (e_cmps env)[1 := (Some Cmp_memn, None)]\<rparr>"
  have r: "main_ready ?env txn sn t" using assms(4) by (simp add: main_ready_def)
  have cmp: "e_cmps ?env ! 1 = (Some Cmp_memn, None)" using assms(4) by (simp add: main_ready_def)
  have get: "txn_get ?env txn sn 1 key =
      Some (case map_of (db_items sn t) key of None \<Rightarrow> (MDB_NOTFOUND, None) | Some v \<Rightarrow> (0, Some v))"
    using txn_get_main [OF r _ _ cmp, of key] assms(5,6) by fastforce
  obtain h where h: "HexToWStr (Some key) (of_int (int (length key))) = Some h" using HexToWStr_all assms(6) by blast
  have name: "\<exists>nm. c_string v 33 = Some nm" if "map_of (db_items sn t) key = Some v" for v
    using assms(4) map_of_SomeD [OF that] by (fastforce simp: main_ready_def c_string_def)
  show ?thesis
  proof (cases "map_of (db_items sn t) key")
    case None
    then have "key \<notin> fst ` set (db_items sn t)" by (simp add: map_of_eq_None_iff)
    moreover have "txn_get ?env txn sn 1 key = Some (MDB_NOTFOUND, None)" using get None by simp
    ultimately show ?thesis
      using assms(1-3,5) h open_main_ready [OF assms(4)] by (simp add: IsHashExist_def get_bytes_def MDB_NOTFOUND_def)
  next
    case (Some v)
    then have "key \<in> fst ` set (db_items sn t)" by (metis map_of_eq_None_iff option.distinct(1))
    then show ?thesis
      using assms(1-3,5) get h open_main_ready [OF assms(4)] name [OF Some] Some
      by (auto simp: IsHashExist_def get_bytes_def)
  qed
qed

lemma bin2hex_total:
  assumes "n \<le> length bin" "2 * n \<le> length hex"
  shows "i \<le> n \<Longrightarrow> length hex = m \<Longrightarrow> \<exists>hex'. bin2hex_loop bin (int n) i hex = Some hex' \<and> length hex' = m"
  using assms(2)
proof (induction "n - i" arbitrary: i hex)
  case 0
  then show ?case by (simp add: bin2hex_loop.simps)
next
  case (Suc k)
  then have i: "i < n" by simp
  then have "i * 2 + 1 < length hex" "i < length bin" using Suc.prems assms(1) by simp_all
  then show ?case
    using Suc.hyps(1) [of "i + 1" "hex[i * 2 := hex_table ! unat (drop_bit 4 (bin ! i) AND 15),
        i * 2 + 1 := hex_table ! unat (bin ! i AND 15)]"] Suc i
    by (subst bin2hex_loop.simps) (simp add: rd_def wr_def)
qed

lemma Bin2Hex_total:
  assumes "n \<le> length bin" "n \<le> 32"
  shows "\<exists>hex'. Bin2Hex bin (int n) (replicate 80 c) = Some hex'"
proof -
  obtain hex' where "bin2hex_loop bin (int n) 0 (replicate 80 c) = Some hex'" "length hex' = 80"
    using bin2hex_total [OF assms(1), of "replicate 80 c" 0 80] assms(2) by auto
  then show ?thesis using assms(2) by (simp add: Bin2Hex_def wr_def nat_mult_distrib)
qed

text \<open>A file that Windows reads without an error.\<close>

definition readable :: "win_file \<Rightarrow> u8 list \<Rightarrow> bool" where
  "readable f m \<longleftrightarrow> wf_open f \<and> wf_size f \<and> wf_map f \<and> wf_view f = Some m \<and> \<not> wf_fault f"

lemma FetchFileHash_spec:
  assumes "masks_count us" "readable f m" "length m < 2 ^ 31" "HASH_TYPE_SHA1 \<le> nType" "nType \<le> HASH_TYPE_SM3"
    and "int (length buf) = GetHashLengthByType nType"
  shows "FetchFileHash us s (Some buf) (int (length buf)) nType f = Some (True, Some (std_digest nType m))"
proof -
  have len: "length (std_digest nType m) = length buf" using length_std_digest [OF assms(4,5), of m] assms(6) by simp
  have "unat (of_nat (length m) :: u32) = length m" using assms(3) by (simp add: unat_of_nat)
  then have "CalcFileHash us s buf nType m (of_nat (length m)) = Some (std_digest nType m)"
    using file_digest_std [OF assms(1,3)] len blit_full [of 0 "std_digest nType m" buf] by (simp add: CalcFileHash_def)
  moreover have "0 < GetHashLengthByType nType" using assms(4,5) by (simp add: GetHashLengthByType_def hash_types)
  ultimately show ?thesis using assms(2,6) by (simp add: FetchFileHash_def readable_def)
qed

section \<open>An environment that did not open\<close>

text \<open>\<open>m_pEnv\<close> is set and \<open>m_bInit\<close> is not: \<open>InitEnv\<close> then returns at once.\<close>

definition stuck :: "'e feature_db \<Rightarrow> bool" where "stuck d \<longleftrightarrow> fd_env d \<noteq> None \<and> \<not> fd_init d"

lemma Init_stuck: "stuck d \<Longrightarrow> \<exists>d'. Init ec d = (False, d') \<and> stuck d'"
  by (auto simp: Init_def InitEnv_def InitDBPath_def stuck_def Let_def split: option.splits)

lemma Init_open_fails:
  assumes "ec_create ec = (0, e)" "fst (ec_open ec (ec_mapsize ec e FEATURE_LIB_MAP_SIZE) (fd_path (InitDBPath ec CFeatureDB))) \<noteq> 0"
  shows "fst (Init ec CFeatureDB) = False \<and> stuck (snd (Init ec CFeatureDB))"
proof -
  let ?d = "InitDBPath ec CFeatureDB"
  obtain rc e' where op: "ec_open ec (ec_mapsize ec e FEATURE_LIB_MAP_SIZE) (fd_path ?d) = (rc, e')" by fastforce
  have "fd_env ?d = None" "\<not> fd_init CFeatureDB" by (simp_all add: InitDBPath_def CFeatureDB_def split: option.split)
  then show ?thesis using assms op by (simp add: Init_def InitEnv_def stuck_def Let_def)
qed

lemma IsHashExist_stuck:
  assumes "stuck d" "IsHashExist ec begin_txn d pHash n b name = Some (r, b', nm, d')"
  shows "\<not> r \<and> stuck d'"
proof -
  obtain d1 where d1: "Init ec d = (False, d1)" "stuck d1" using Init_stuck [OF assms(1)] by blast
  have "\<not> fd_init d" using assms(1) by (simp add: stuck_def)
  then show ?thesis
    using assms(2) d1 assms(1) by (auto simp: IsHashExist_def split: option.split_asm if_split_asm)
qed

lemma CheckRansomware_stuck:
  assumes "stuck d" "CheckRansomware us s junk files ec begin_txn d name path nType = Some (b, d')"
  shows "\<not> b \<and> stuck d'"
proof -
  define ty where "ty = (if nType < HASH_TYPE_SHA1 \<or> HASH_TYPE_SM3 < nType then HASH_TYPE_MD5 else nType)"
  define n where "n = GetHashLengthByType ty"
  define hash where "hash = FetchFileHash us s (Some (map junk [0..<nat n])) n ty (files path)"
  note eq = assms(2) [unfolded CheckRansomware_def Let_def, folded ty_def, folded n_def, folded hash_def]
  show ?thesis
  proof (cases "path = [] \<or> n \<le> 0")
    case True
    then show ?thesis using eq assms(1) by (auto split: if_splits)
  next
    case False
    then obtain r pHash where h: "hash = Some (r, pHash)" using eq by (cases hash) auto
    show ?thesis
    proof (cases r)
      case True
      then obtain q x nm where i: "IsHashExist ec begin_txn d pHash n False name = Some (q, x, nm, d')"
        and b: "b = (if q then x else q)"
        using eq False h by (auto split: Option.bind_splits)
      show ?thesis using IsHashExist_stuck [OF assms(1) i] b by simp
    next
      case 2: False
      then show ?thesis using eq False h assms(1) by auto
    qed
  qed
qed

text \<open>A sequence of checks, each with its files, the answers of the system and its arguments.\<close>

record 'e check_call =
  k_files :: "string \<Rightarrow> win_file"
  k_env :: "'e env_calls"
  k_begin :: "'e read_begin"
  k_path :: string
  k_type :: int

fun checks :: "ub_shift \<Rightarrow> stack_mem \<Rightarrow> (nat \<Rightarrow> u8) \<Rightarrow> 'e feature_db \<Rightarrow> 'e check_call list \<Rightarrow> bool list option" where
  "checks us s junk d [] = Some []"
| "checks us s junk d (k # ks) =
     do { (b, d) \<leftarrow> CheckRansomware us s junk (k_files k) (k_env k) (k_begin k) d [] (k_path k) (k_type k);
          bs \<leftarrow> checks us s junk d ks; Some (b # bs) }"

lemma checks_stuck: "stuck d \<Longrightarrow> checks us s junk d ks = Some bs \<Longrightarrow> True \<notin> set bs"
proof (induction ks arbitrary: d bs)
  case (Cons k ks)
  then obtain b d' bs' where c: "CheckRansomware us s junk (k_files k) (k_env k) (k_begin k) d [] (k_path k) (k_type k) = Some (b, d')"
    and rest: "checks us s junk d' ks = Some bs'" "bs = b # bs'"
    by (auto split: Option.bind_splits)
  show ?case using CheckRansomware_stuck [OF Cons.prems(1) c] Cons.IH [of d' bs'] rest by simp
qed simp

section \<open>Properties\<close>

text \<open>C5: with the object initialised, \<open>CheckRansomware\<close> answers TRUE exactly when the standard digest of the file, of the
  type asked for or MD5 for any other number, is a key of the tree of pages that the transaction reads. The
  file has fewer than \<open>2 ^ 31\<close> bytes (\<open>sm3_update\<close> takes the size as an \<open>int\<close>) and is not cut off while it
  is read.\<close>

theorem check_ransomware_correct:
  assumes "masks_count us" "readable (files path) m" "length m < 2 ^ 31" "path \<noteq> []"
    and "fd_init d" "fd_env d = Some e" "begin_txn e = Inr (env, txn, sn)" "main_ready env txn sn t"
  shows "CheckRansomware us s junk files ec begin_txn d name path nType
    = Some (std_digest (if nType < 1 \<or> 4 < nType then 3 else nType) m \<in> fst ` set (db_items sn t), d)"
proof -
  define ty where "ty = (if nType < HASH_TYPE_SHA1 \<or> HASH_TYPE_SM3 < nType then HASH_TYPE_MD5 else nType)"
  define n where "n = nat (GetHashLengthByType ty)"
  have ty: "HASH_TYPE_SHA1 \<le> ty" "ty \<le> HASH_TYPE_SM3" by (auto simp: ty_def hash_types)
  then have n: "GetHashLengthByType ty = int n" "16 \<le> n" "n \<le> 32"
    by (auto simp: n_def GetHashLengthByType_def hash_types)
  let ?dg = "std_digest ty m"
  have len: "length ?dg = n" using length_std_digest [OF ty, of m] n(1) by simp
  have fetch: "FetchFileHash us s (Some (map junk [0..<n])) (int n) ty (files path) = Some (True, Some ?dg)"
    using FetchFileHash_spec [OF assms(1-3) ty, of "map junk [0..<n]"] n(1) by simp
  obtain hex where hex: "Bin2Hex ?dg (int n) (replicate 80 (CHR 0x00)) = Some hex" using Bin2Hex_total [of n ?dg] len n(3) by auto
  obtain nm where look: "IsHashExist ec begin_txn d (Some ?dg) (int n) False name = Some (True, ?dg \<in> fst ` set (db_items sn t), nm, d)"
    using IsHashExist_spec [where begin_txn = begin_txn and key = ?dg and ec = ec and bExist = False and name = name, OF assms(5-8)] len n by auto
  have "CheckRansomware us s junk files ec begin_txn d name path nType = Some (?dg \<in> fst ` set (db_items sn t), d)"
    using assms(4) fetch hex look n(1,2)
    by (simp add: CheckRansomware_def Let_def ty_def [symmetric])
  then show ?thesis by (simp add: ty_def hash_types)
qed

text \<open>C35: when \<open>mdb_env_open\<close> fails in the first \<open>Init\<close>, the object never recovers: the handle that was created stays in
  \<open>m_pEnv\<close>, every later \<open>Init\<close> answers FALSE although the system would answer well, and no file is ever found
  in the database, whatever it holds.\<close>

theorem init_failure_final:
  assumes "ec_create ec = (0, e)"
    and "fst (ec_open ec (ec_mapsize ec e FEATURE_LIB_MAP_SIZE) (fd_path (InitDBPath ec CFeatureDB))) \<noteq> 0"
  shows "\<not> fst (Init ec CFeatureDB) \<and> \<not> fst (Init ec' (snd (Init ec CFeatureDB)))
    \<and> (\<forall>bs. checks us s junk (snd (Init ec CFeatureDB)) ks = Some bs \<longrightarrow> True \<notin> set bs)"
proof -
  note f = Init_open_fails [OF assms]
  obtain d' where "Init ec' (snd (Init ec CFeatureDB)) = (False, d')" using Init_stuck f by blast
  then show ?thesis using f checks_stuck [of "snd (Init ec CFeatureDB)" us s junk ks] by simp
qed

definition calls_failing :: "unit env_calls" where
  "calls_failing = \<lparr>ec_dir = Some ''db'', ec_create = (0, ()), ec_mapsize = (\<lambda>e n. e), ec_open = (\<lambda>e p. (EINVAL, e))\<rparr>"

theorem init_failure_final_witness:
  "\<not> fst (Init (calls_failing\<lparr>ec_open := (\<lambda>e p. (0, e))\<rparr>) (snd (Init calls_failing CFeatureDB)))"
  using init_failure_final [of calls_failing "()" "calls_failing\<lparr>ec_open := (\<lambda>e p. (0, e))\<rparr>"]
  by (simp add: calls_failing_def EINVAL_def)

definition readable_sample :: "string \<Rightarrow> win_file" where
  "readable_sample _ = \<lparr>wf_open = True, wf_size = True, wf_map = True, wf_view = Some [0x61, 0x62, 0x63], wf_fault = False\<rparr>"

definition fd_sample :: "unit feature_db" where "fd_sample = \<lparr>fd_env = Some (), fd_init = True, fd_path = []\<rparr>"

definition txn_reading :: dtxn where
  "txn_reading = \<lparr>t_flags = TXN_RDONLY, t_numdbs = 2, t_dbs = replicate 2 (db_sample\<lparr>md_flags := 0, md_root := P_INVALID\<rparr>),
     t_dbflags = [DB_VALID, DB_VALID OR DB_USRVALID], t_seqs = None\<rparr>"

lemma main_ready_sample: "main_ready (denv_new 2) txn_reading sn_empty None"
  by (simp add: main_ready_def txn_reading_def denv_new_def db_tree_def db_items_def TXN_RDONLY_def TXN_BLOCKED_def
      branch_keysize_def)

theorem check_ransomware_correct_witness:
  "CheckRansomware x86_shift stack_cc (\<lambda>_. 0xcc) readable_sample calls_failing (\<lambda>_. Inr (denv_new 2, txn_reading, sn_empty))
     fd_sample [] ''f.exe'' 4 = Some (False, fd_sample)"
  using check_ransomware_correct [OF masks_count_x86, of readable_sample "''f.exe''" "[0x61, 0x62, 0x63]" fd_sample "()"
      "\<lambda>_. Inr (denv_new 2, txn_reading, sn_empty)" "denv_new 2" txn_reading sn_empty None stack_cc "\<lambda>_. 0xcc" calls_failing "[]" 4]
    main_ready_sample
  by (simp add: readable_def readable_sample_def fd_sample_def db_items_def)

end
