(* ===== verification/Text_Format.thy ===== *)
theory Text_Format
  imports Prelude
begin

text \<open>
  What \<open>mdb_dump.c\<close> and \<open>mdb_load.c\<close> use of the C library: the classification of characters in the C
  locale, line input with \<open>fgets\<close> into a buffer that keeps its old contents behind the new line,
  the comparison of a buffer with a literal, and decimal numbers. Text is a list of bytes.
\<close>

section \<open>Characters\<close>

definition str :: "string \<Rightarrow> u8 list" where "str = map of_char"

abbreviation NL :: u8 where "NL \<equiv> 10"
abbreviation SPC :: u8 where "SPC \<equiv> 32"
abbreviation BSL :: u8 where "BSL \<equiv> 92"

definition c_isprint :: "u8 \<Rightarrow> bool" where "c_isprint c \<longleftrightarrow> 0x20 \<le> c \<and> c \<le> 0x7e"
definition c_isdigit :: "u8 \<Rightarrow> bool" where "c_isdigit c \<longleftrightarrow> 0x30 \<le> c \<and> c \<le> 0x39"
definition c_isspace :: "u8 \<Rightarrow> bool" where "c_isspace c \<longleftrightarrow> c = 0x20 \<or> 9 \<le> c \<and> c \<le> 13"

definition c_isxdigit :: "u8 \<Rightarrow> bool" where
  "c_isxdigit c \<longleftrightarrow> c_isdigit c \<or> 0x41 \<le> c \<and> c \<le> 0x46 \<or> 0x61 \<le> c \<and> c \<le> 0x66"

section \<open>Lines\<close>

text \<open>The bytes \<open>fgets\<close> takes from the input: at most \<open>m\<close>, up to a newline.\<close>

fun line_of :: "nat \<Rightarrow> u8 list \<Rightarrow> u8 list" where
  "line_of (Suc m) (c # cs) = c # (if c = NL then [] else line_of m cs)"
| "line_of _ _ = []"

text \<open>\<open>fgets (buf + k, size, stdin)\<close>: \<open>None\<close> outside is a write past the buffer, \<open>None\<close> inside the end of
  the input; else the buffer and the rest of the input.\<close>

definition fgets :: "u8 list \<Rightarrow> nat \<Rightarrow> nat \<Rightarrow> u8 list \<Rightarrow> (u8 list \<times> u8 list) option option" where
  "fgets buf k sz inp =
     (if inp = [] \<or> sz \<le> 1 then Some None
      else let l = line_of (sz - 1) inp
           in if k + length l + 1 \<le> length buf
              then Some (Some (blit buf k (l @ [0]), drop (length l) inp)) else None)"

text \<open>The C string in a buffer; \<open>None\<close> where it does not end.\<close>

definition cstr :: "u8 list \<Rightarrow> u8 list option" where
  "cstr buf = (if 0 \<in> set buf then Some (takeWhile (\<lambda>c. c \<noteq> 0) buf) else None)"

text \<open>\<open>!strncmp (buf + k, lit, strlen lit)\<close>.\<close>

definition starts :: "u8 list \<Rightarrow> nat \<Rightarrow> u8 list \<Rightarrow> bool" where
  "starts buf k lit \<longleftrightarrow> take (length lit) (drop k buf) = lit"

text \<open>\<open>ptr = memchr (buf, c, size); if (ptr) *ptr = 0\<close>.\<close>

definition cut_at :: "u8 \<Rightarrow> u8 list \<Rightarrow> u8 list" where
  "cut_at c buf = (if c \<in> set buf then buf[length (takeWhile (\<lambda>x. x \<noteq> c) buf) := 0] else buf)"

section \<open>Decimal numbers\<close>

function dec :: "nat \<Rightarrow> u8 list" where
  "dec n = (if n < 10 then [of_nat (48 + n)] else dec (n div 10) @ [of_nat (48 + n mod 10)])"
  by pat_completeness auto
termination by (relation "measure id") auto

declare dec.simps [simp del]

definition dec_val :: "u8 list \<Rightarrow> nat" where
  "dec_val ds = foldl (\<lambda>n d. 10 * n + (unat d - 48)) 0 ds"

text \<open>The number that \<open>%u\<close> and \<open>strtoul\<close> read: after white space and a sign the longest run of digits,
  in \<open>w\<close> bits; \<open>None\<close> where there is no digit. A value too large gives the largest one, a minus sign
  negates.\<close>

definition scan_u :: "nat \<Rightarrow> u8 list \<Rightarrow> nat option" where
  "scan_u w s =
     (let s = dropWhile c_isspace s;
          neg = (s \<noteq> [] \<and> hd s = 0x2D);
          s = (if s \<noteq> [] \<and> (hd s = 0x2D \<or> hd s = 0x2B) then tl s else s);
          ds = takeWhile c_isdigit s;
          v = min (dec_val ds) (2 ^ w - 1)
      in if ds = [] then None else Some (if neg then nat ((- int v) mod 2 ^ w) else v))"

definition c_atoi :: "u8 list \<Rightarrow> int" where
  "c_atoi s =
     (let s = dropWhile c_isspace s;
          neg = (s \<noteq> [] \<and> hd s = 0x2D);
          s = (if s \<noteq> [] \<and> (hd s = 0x2D \<or> hd s = 0x2B) then tl s else s);
          v = int (dec_val (takeWhile c_isdigit s))
      in if neg then - v else v)"

section \<open>Facts\<close>

lemma line_of_prefix: "line_of m inp = take (length (line_of m inp)) inp"
  by (induction m inp rule: line_of.induct) auto

lemma length_line_of: "length (line_of m inp) \<le> m" "length (line_of m inp) \<le> length inp"
  by (induction m inp rule: line_of.induct) auto

lemma line_of_pos: "0 < m \<Longrightarrow> inp \<noteq> [] \<Longrightarrow> line_of m inp \<noteq> []"
  by (cases m; cases inp) auto

text \<open>A line that is short enough is read as a whole, a longer one only so far.\<close>

lemma line_of_whole: "NL \<notin> set l \<Longrightarrow> length l < m \<Longrightarrow> line_of m (l @ NL # rest) = l @ [NL]"
proof (induction l arbitrary: m)
  case Nil
  then show ?case by (cases m) auto
next
  case (Cons c l)
  then show ?case by (cases m) auto
qed

lemma line_of_part: "NL \<notin> set l \<Longrightarrow> m \<le> length l \<Longrightarrow> line_of m (l @ rest) = take m l"
proof (induction l arbitrary: m)
  case Nil
  then show ?case by (cases m; cases rest) auto
next
  case (Cons c l)
  then show ?case by (cases m) auto
qed

lemma unat_u8: "k < 256 \<Longrightarrow> unat (of_nat k :: u8) = k"
  by (simp add: unat_of_nat)

lemma digit_of_nat:
  assumes "n < 10"
  shows "c_isdigit (of_nat (48 + n)) \<and> unat (of_nat (48 + n) :: u8) = 48 + n"
proof -
  have "unat (of_nat (48 + n) :: u8) = 48 + n" using assms by (intro unat_u8) simp
  then show ?thesis using assms by (simp only: c_isdigit_def word_le_nat_alt) simp
qed

lemma dec_digits: "dec n \<noteq> []" "\<forall>d \<in> set (dec n). c_isdigit d"
proof (induction n rule: dec.induct)
  case (1 n)
  { case 1 then show ?case by (subst dec.simps) simp }
  { case 2
    show ?case
    proof (cases "n < 10")
      case True
      then show ?thesis using digit_of_nat [of n] by (subst dec.simps) simp
    next
      case False
      then show ?thesis using "1.IH"(2) digit_of_nat [of "n mod 10"] by (subst dec.simps) auto
    qed }
qed

lemma dec_val_dec: "dec_val (dec n) = n"
proof (induction n rule: dec.induct)
  case (1 n)
  show ?case
  proof (cases "n < 10")
    case True
    then show ?thesis using digit_of_nat [of n] by (subst dec.simps) (simp add: dec_val_def)
  next
    case False
    then have "dec n = dec (n div 10) @ [of_nat (48 + n mod 10)]" by (subst dec.simps) simp
    moreover have "foldl (\<lambda>n d. 10 * n + (unat d - 48)) 0 (dec (n div 10)) = n div 10"
      using 1 False by (simp add: dec_val_def)
    ultimately show ?thesis using digit_of_nat [of "n mod 10"] by (simp add: dec_val_def)
  qed
qed

lemma digit_not_space: "c_isdigit c \<Longrightarrow> \<not> c_isspace c \<and> c \<noteq> 0x2D \<and> c \<noteq> 0x2B \<and> c \<noteq> 0 \<and> c \<noteq> NL"
  by (auto simp: c_isdigit_def c_isspace_def word_le_nat_alt)

text \<open>What is printed in decimal is read back.\<close>

lemma dec_scan:
  assumes "rest = [] \<or> \<not> c_isdigit (hd rest)"
  shows "takeWhile c_isdigit (dec n @ rest) = dec n"
  using assms dec_digits(2) [of n] by (cases rest) (auto simp: takeWhile_append2)

lemma dec_head: obtains d ds where "dec n = d # ds" "c_isdigit d"
  using dec_digits [of n] by (cases "dec n") auto

lemma scan_u_dec:
  assumes "rest = [] \<or> \<not> c_isdigit (hd rest)" "n < 2 ^ w"
  shows "scan_u w (dec n @ rest) = Some n"
proof -
  obtain d ds where d: "dec n = d # ds" "c_isdigit d" by (rule dec_head)
  have "n \<le> 2 ^ w - 1" using assms(2) by simp
  then show ?thesis
    using d digit_not_space [OF d(2)] dec_scan [OF assms(1), of n] dec_val_dec [of n] dec_digits(1) [of n]
    by (simp add: scan_u_def Let_def)
qed

lemma c_atoi_dec:
  assumes "rest = [] \<or> \<not> c_isdigit (hd rest)"
  shows "c_atoi (dec n @ rest) = int n"
proof -
  obtain d ds where d: "dec n = d # ds" "c_isdigit d" by (rule dec_head)
  then show ?thesis
    using digit_not_space [OF d(2)] dec_scan [OF assms, of n] dec_val_dec [of n] by (simp add: c_atoi_def Let_def)
qed

end
