(* ===== verification/Feature_Load.thy ===== *)
theory Feature_Load
  imports Feature_Db Sm4_Crypto Text_Format Mdb_Dirty
begin

text \<open>
  \<open>FileScanControl/FeatureDB.cpp\<close>: filling the feature database from files of encrypted records (\<open>LoadDat\<close>),
  clearing it (\<open>ClearLMDB\<close>) and loading a file or a directory (\<open>Load\<close>). A file has a header of 96 bytes with
  the SM3 digest of the rest, and records of 80 bytes, each encrypted with SM4 (\<open>Sm4_Crypto\<close>). The calls of the
  library are an argument \<open>lib\<close>: a call and the state of the environment give a return code and a new state.
\<close>

unbundle bit_operations_syntax

section \<open>What the functions get from outside\<close>

text \<open>\<open>D_put\<close> has the memory from the start of the key on, the size of the key, the data and the flags.\<close>

datatype dat_call =
    D_txn_begin u32 | D_dbi_open u32 | D_cursor_open | D_put mval u64 mval u32 | D_cursor_close
  | D_commit | D_reset | D_abort | D_drop | D_dbi_close

text \<open>\<open>y_read\<close> is \<open>ReadFile\<close>: \<open>None\<close> when it answers FALSE, else the bytes read and the file after them. \<open>y_buf\<close> is
  the memory that \<open>new\<close> finds; \<open>y_ctx\<close> and \<open>y_out\<close> what \<open>malloc\<close> finds, \<open>None\<close> when it answers NULL.\<close>

record 'f dat_sys =
  y_open :: "string \<Rightarrow> 'f option"
  y_read :: "'f \<Rightarrow> nat \<Rightarrow> (u8 list \<times> 'f) option"
  y_buf :: "u8 list"
  y_ctx :: "stack_mem option"
  y_out :: "u8 list option"

definition SIZE_HEADER :: nat where "SIZE_HEADER = 96"
definition SIZE_INFO :: nat where "SIZE_INFO = 80"
definition BUF_SIZE :: nat where "BUF_SIZE = 16 * 1024"

definition ReadFile :: "'f dat_sys \<Rightarrow> 'f \<Rightarrow> u8 list \<Rightarrow> nat \<Rightarrow> (u8 list \<times> nat \<times> 'f) option option" where
  "ReadFile sys f buf n =
     (case y_read sys f n of
        None \<Rightarrow> Some None
      | Some (bs, f) \<Rightarrow> do { buf \<leftarrow> put_bytes buf 0 bs; Some (Some (buf, length bs, f)) })"

definition memset0 :: "u8 list \<Rightarrow> nat \<Rightarrow> nat \<Rightarrow> u8 list option" where
  "memset0 buf k n = put_bytes buf k (replicate n 0)"

section \<open>The records of a file\<close>

record ('f, 's) dat_loop =
  l_file :: 'f
  l_buf :: "u8 list"
  l_out :: "u8 list"
  l_count :: nat
  l_sm3 :: sm3_context
  l_dup :: u32
  l_total :: u32
  l_env :: 's

text \<open>One turn of the inner loop. The record is decrypted from the buffer into the block at \<open>pVirusInfoOut\<close>; the two
  are one memory for \<open>DecryptSector\<close>.\<close>

definition load_item :: "ub_shift \<Rightarrow> (dat_call \<Rightarrow> 's \<Rightarrow> int \<times> 's) \<Rightarrow> nat \<Rightarrow> ('f, 's) dat_loop \<Rightarrow> ('f, 's) dat_loop option" where
  "load_item us lib i l =
     (let k = length (l_buf l)
      in if k < i * SIZE_INFO + SIZE_INFO \<or> length (l_out l) < SIZE_INFO then None
         else let out = drop k (DecryptSector CSM4Crypto (l_buf l @ l_out l) (i * SIZE_INFO) k (int (SIZE_INFO div 16)));
                  nLength = GetHashLengthByType (uint (out ! 0));
                  (iRet, env) = lib (D_put (drop 1 out) (word_of_int nLength) out MDB_NOOVERWRITE) (l_env l)
              in do { hex \<leftarrow> (if iRet = MDB_KEYEXIST then Some [] else HexToWStr (Some (drop 1 out)) (word_of_int nLength));
                      Some (l\<lparr>l_out := out, l_dup := (if iRet = MDB_KEYEXIST then l_dup l + 1 else l_dup l),
                              l_sm3 := sm3_update us (l_sm3 l) out (int SIZE_INFO), l_total := l_total l + 1, l_env := env\<rparr>) })"

function load_items :: "ub_shift \<Rightarrow> (dat_call \<Rightarrow> 's \<Rightarrow> int \<times> 's) \<Rightarrow> nat \<Rightarrow> ('f, 's) dat_loop \<Rightarrow> ('f, 's) dat_loop option" where
  "load_items us lib i l =
     (if i < l_count l
      then (case load_item us lib i l of None \<Rightarrow> None | Some l' \<Rightarrow> load_items us lib (i + 1) (l'\<lparr>l_count := l_count l\<rparr>))
      else Some l)"
  by pat_completeness auto
termination by (relation "measure (\<lambda>(us, lib, i, l). l_count l - i)") auto

declare load_items.simps [simp del]

text \<open>The outer loop reads 204 records at a time. \<open>iReadCount\<close> is set anew only after a short read.\<close>

partial_function (option) load_reads ::
  "ub_shift \<Rightarrow> (dat_call \<Rightarrow> 's \<Rightarrow> int \<times> 's) \<Rightarrow> 'f dat_sys \<Rightarrow> nat \<Rightarrow> ('f, 's) dat_loop \<Rightarrow> ('f, 's) dat_loop option" where
  "load_reads us lib sys dwBufRealSize l =
     do { r \<leftarrow> ReadFile sys (l_file l) (l_buf l) dwBufRealSize;
          (case r of
             None \<Rightarrow> Some l
           | Some (buf, n, f) \<Rightarrow>
               let l = l\<lparr>l_buf := buf, l_file := f\<rparr>
               in if n = 0 then Some l
                  else let l = (if n < dwBufRealSize then l\<lparr>l_count := n div SIZE_INFO\<rparr> else l)
                       in do { l \<leftarrow> load_items us lib 0 l;
                               buf \<leftarrow> memset0 (l_buf l) 0 n;
                               out \<leftarrow> memset0 (l_out l) 0 SIZE_INFO;
                               load_reads us lib sys dwBufRealSize (l\<lparr>l_buf := buf, l_out := out\<rparr>) }) }"

section \<open>A file\<close>

text \<open>\<open>%d\<close> of a \<open>SHORT\<close>, and the version of a header.\<close>

definition print_short :: "u8 \<Rightarrow> u8 \<Rightarrow> u8 list" where
  "print_short lo hi =
     (let v = sint (word_cat hi lo :: u16) in if v < 0 then 0x2D # dec (nat (- v)) else dec (nat v))"

definition print_version :: "u8 list \<Rightarrow> u8 list" where
  "print_version h =
     print_short (h ! 3) (h ! 4) @ [0x2E] @ print_short (h ! 5) (h ! 6) @ [0x2E] @ print_short (h ! 7) (h ! 8)
     @ [0x2E] @ print_short (h ! 9) (h ! 10)"

text \<open>The end of the function: a transaction is reset and aborted when \<open>iRet\<close> is an error.\<close>

definition dat_end :: "(dat_call \<Rightarrow> 's \<Rightarrow> int \<times> 's) \<Rightarrow> int \<Rightarrow> 's \<Rightarrow> 's" where
  "dat_end lib iRet env = (if iRet \<noteq> 0 then snd (lib D_abort (snd (lib D_reset env))) else env)"

text \<open>The part that has a transaction and a cursor: from the first record to the commit.\<close>

definition load_body :: "ub_shift \<Rightarrow> (dat_call \<Rightarrow> 's \<Rightarrow> int \<times> 's) \<Rightarrow> 'f dat_sys \<Rightarrow> u8 list \<Rightarrow> nat \<Rightarrow> ('f, 's) dat_loop
    \<Rightarrow> (bool \<times> 's) option" where
  "load_body us lib sys SM3HashCheck dwRealRead l =
     do { buf \<leftarrow> memset0 (l_buf l) 0 dwRealRead;
          let iReadCount = BUF_SIZE div SIZE_INFO;
          l \<leftarrow> load_reads us lib sys (iReadCount * SIZE_INFO) (l\<lparr>l_buf := buf, l_count := iReadCount\<rparr>);
          let env = snd (lib D_cursor_close (l_env l));
          let SM3Hash = snd (sm3_finish us (l_sm3 l));
          if SM3Hash = SM3HashCheck
          then (let (iRet, env) = lib D_commit env in Some (iRet = 0, dat_end lib iRet env))
          else Some (False, dat_end lib 0 (snd (lib D_abort env))) }"

text \<open>\<open>LoadDat\<close>. Its call \<open>mdb_close(m_pEnv, dbi)\<close> before the last test is left out: \<open>dbi\<close> is 0, or 1 once
  \<open>mdb_dbi_open\<close> has answered the main database, and \<open>mdb_dbi_close\<close> returns at once for handles below 2.\<close>

definition LoadDat :: "ub_shift \<Rightarrow> (dat_call \<Rightarrow> 's \<Rightarrow> int \<times> 's) \<Rightarrow> 'f dat_sys \<Rightarrow> 's \<Rightarrow> string \<Rightarrow> u8 list
    \<Rightarrow> (bool \<times> u8 list \<times> 's) option" where
  "LoadDat us lib sys env strDatPath strDatVersion =
     (if strDatPath = [] then Some (False, strDatVersion, env)
      else case y_open sys strDatPath of
        None \<Rightarrow> Some (False, strDatVersion, env)
      | Some f \<Rightarrow> do {
          r \<leftarrow> ReadFile sys f (y_buf sys) (min BUF_SIZE SIZE_HEADER);
          (case r of
             None \<Rightarrow> Some (False, strDatVersion, env)
           | Some (buf, dwRealRead, f) \<Rightarrow> do {
               pHeader \<leftarrow> get_bytes buf 0 SIZE_HEADER;
               if take 3 pHeader \<noteq> str ''ARS'' then Some (False, strDatVersion, env)
               else do {
                 let strDatVersion = print_version pHeader;
                 SM3HashCheck \<leftarrow> get_bytes pHeader 64 32;
                 (case y_ctx sys of
                    None \<Rightarrow> Some (False, strDatVersion, env)
                  | Some s \<Rightarrow> do {
                      buf \<leftarrow> memset0 buf 64 32;
                      pHeader \<leftarrow> get_bytes buf 0 SIZE_HEADER;
                      let ctx = sm3_update us (sm3_starts (sm3_uninit s)) pHeader (int SIZE_HEADER);
                      (case y_out sys of
                         None \<Rightarrow> Some (False, strDatVersion, env)
                       | Some out \<Rightarrow>
                           let (iRet, env) = lib (D_txn_begin 0) env
                           in if iRet \<noteq> 0 then Some (False, strDatVersion, env)
                              else let (iRet, env) = lib (D_dbi_open MDB_CREATE) env
                              in if iRet \<noteq> 0 then Some (False, strDatVersion, dat_end lib iRet env)
                              else let (iRet, env) = lib D_cursor_open env
                              in if iRet \<noteq> 0 then Some (False, strDatVersion, dat_end lib iRet env)
                              else do {
                                (bRet, env) \<leftarrow> load_body us lib sys SM3HashCheck dwRealRead
                                   \<lparr>l_file = f, l_buf = buf, l_out = out, l_count = 0, l_sm3 = ctx, l_dup = 0, l_total = 0,
                                     l_env = env\<rparr>;
                                Some (bRet, strDatVersion, env) }) }) } }) })"

section \<open>Clearing and loading\<close>

definition ClearLMDB :: "(dat_call \<Rightarrow> 's \<Rightarrow> int \<times> 's) \<Rightarrow> 'e feature_db \<Rightarrow> 's \<Rightarrow> bool \<times> 's" where
  "ClearLMDB lib d env =
     (if \<not> fd_init d \<or> fd_env d = None then (False, env)
      else let (iRet, env) = lib (D_txn_begin MDB_RDONLY) env
           in if iRet \<noteq> 0 then (False, env)
              else let (iRet, env) = lib (D_dbi_open 0) env
              in if iRet \<noteq> 0 then (False, snd (lib D_abort env))
              else let (iRet, env) = lib D_drop env;
                       env = snd (lib (if iRet = 0 then D_commit else D_abort) env)
                   in (True, snd (lib D_dbi_close env)))"

record 'f load_sys = "'f dat_sys" +
  y_run_dir :: string
  y_is_dir :: "string \<Rightarrow> bool option"
  y_fetch :: "string \<Rightarrow> string \<Rightarrow> bool \<times> string list"

fun load_files :: "ub_shift \<Rightarrow> (dat_call \<Rightarrow> 's \<Rightarrow> int \<times> 's) \<Rightarrow> 'f dat_sys \<Rightarrow> 's \<Rightarrow> string list \<Rightarrow> nat \<Rightarrow> (nat \<times> 's) option" where
  "load_files us lib sys env [] iSucc = Some (iSucc, env)"
| "load_files us lib sys env (p # ps) iSucc =
     do { (bRet, _, env) \<leftarrow> LoadDat us lib sys env p [];
          load_files us lib sys env ps (if bRet then iSucc + 1 else iSucc) }"

definition c_lower :: "char \<Rightarrow> char" where
  "c_lower c = (if of_char c \<in> {65 .. 90 :: nat} then char_of (of_char c + 32 :: nat) else c)"

definition Load :: "ub_shift \<Rightarrow> (dat_call \<Rightarrow> 's \<Rightarrow> int \<times> 's) \<Rightarrow> 'f load_sys \<Rightarrow> 'e env_calls \<Rightarrow> 'e feature_db \<Rightarrow> 's \<Rightarrow> string
    \<Rightarrow> string \<Rightarrow> (bool \<times> 'e feature_db \<times> 's) option" where
  "Load us lib sys ec d env strHashstoreDir strSuffix =
     (let strPath = (if strHashstoreDir = [] then y_run_dir sys @ [CHR 0x5C] @ ''HashStore'' else strHashstoreDir);
          xstrSuffix = (if strSuffix = [] then ''.dat'' else strSuffix);
          ready = (\<lambda>d. if fd_init d then (True, d) else Init ec d)
      in case y_is_dir sys strPath of
           None \<Rightarrow> Some (False, d, env)
         | Some True \<Rightarrow>
             (let (bRet, lstFiles) = y_fetch sys strPath xstrSuffix
              in if \<not> bRet then Some (bRet, d, env)
                 else let (ok, d) = ready d
                 in if \<not> ok then Some (bRet, d, env)
                 else let (bRet, env) = ClearLMDB lib d env
                 in if \<not> bRet then Some (bRet, d, env)
                 else do { (iSucc, env) \<leftarrow> load_files us lib (dat_sys.truncate sys) env lstFiles 0;
                           Some (\<not> (iSucc = 0 \<and> lstFiles \<noteq> []), d, env) })
         | Some False \<Rightarrow>
             if length strPath < length xstrSuffix then Some (False, d, env)
             else if map c_lower (drop (length strPath - length xstrSuffix) strPath) \<noteq> map c_lower xstrSuffix
             then Some (False, d, env)
             else let (ok, d) = ready d
             in if \<not> ok then Some (False, d, env)
             else do { (bRet, _, env) \<leftarrow> LoadDat us lib (dat_sys.truncate sys) env strPath []; Some (bRet, d, env) })"

section \<open>What a file holds\<close>

text \<open>A file on a disk: a read gives the bytes from the position on, as many as there are.\<close>

definition disk_file :: "'f dat_sys \<Rightarrow> (nat \<Rightarrow> 'f) \<Rightarrow> u8 list \<Rightarrow> bool" where
  "disk_file sys at bs \<longleftrightarrow>
     (\<forall>p n. p \<le> length bs \<longrightarrow> y_read sys (at p) n = Some (take n (drop p bs), at (min (p + n) (length bs))))"

text \<open>The whole records of the data after the header, and a record decrypted.\<close>

function dat_records :: "u8 list \<Rightarrow> u8 list list" where
  "dat_records xs = (if length xs < SIZE_INFO then [] else take SIZE_INFO xs # dat_records (drop SIZE_INFO xs))"
  by pat_completeness auto
termination by (relation "measure length") (auto simp: SIZE_INFO_def)

declare dat_records.simps [simp del]

definition plain_record :: "u8 list \<Rightarrow> u8 list" where
  "plain_record r = ecb (\<lambda>x. SM4_decrypt x CSM4Crypto) 5 r"

definition plain_records :: "u8 list \<Rightarrow> u8 list list" where
  "plain_records xs = map plain_record (dat_records xs)"

text \<open>The call that stores a record.\<close>

definition put_record_call :: "(dat_call \<Rightarrow> 's \<Rightarrow> int \<times> 's) \<Rightarrow> 's \<Rightarrow> u8 list \<Rightarrow> 's" where
  "put_record_call lib env r =
     snd (lib (D_put (drop 1 r) (word_of_int (GetHashLengthByType (uint (r ! 0)))) r MDB_NOOVERWRITE) env)"

definition known_type :: "u8 list \<Rightarrow> bool" where "known_type r \<longleftrightarrow> uint (r ! 0) \<in> {1..4}"

lemmas dat_sizes = SIZE_HEADER_def SIZE_INFO_def BUF_SIZE_def

lemma length_plain_record [simp]: "length (plain_record r) = 80"
  using sm4.rev.length_ecb [of CSM4Crypto 5 r] by (simp add: plain_record_def)

lemma dat_records_append:
  "length xs mod SIZE_INFO = 0 \<Longrightarrow> dat_records (xs @ ys) = dat_records xs @ dat_records ys"
proof (induction xs rule: dat_records.induct)
  case (1 xs)
  show ?case
  proof (cases "length xs < SIZE_INFO")
    case True
    then have "xs = []" using 1(2) by simp
    then show ?thesis by (simp add: dat_records.simps SIZE_INFO_def)
  next
    case False
    then have "length (drop SIZE_INFO xs) mod SIZE_INFO = 0" using 1(2) by (simp add: le_mod_geq)
    then show ?thesis
      using 1(1) False by (simp add: dat_records.simps [of xs] dat_records.simps [of "xs @ ys"])
  qed
qed

text \<open>The whole records, by their index.\<close>

lemma dat_records_index:
  "dat_records xs = map (\<lambda>i. take SIZE_INFO (drop (i * SIZE_INFO) xs)) [0..<length xs div SIZE_INFO]"
proof (induction xs rule: dat_records.induct)
  case (1 xs)
  show ?case
  proof (cases "length xs < SIZE_INFO")
    case True
    then show ?thesis by (simp add: dat_records.simps)
  next
    case False
    then have n: "length xs div SIZE_INFO = Suc (length (drop SIZE_INFO xs) div SIZE_INFO)"
      by (simp add: le_div_geq SIZE_INFO_def)
    have "dat_records xs = take SIZE_INFO xs # dat_records (drop SIZE_INFO xs)" using False by (subst dat_records.simps) simp
    then show ?thesis unfolding n map_upt_Suc 1 [OF False] by (simp add: add.commute)
  qed
qed

section \<open>The loops\<close>

abbreviation sm3_absorbed :: "ub_shift \<Rightarrow> u8 list \<Rightarrow> sm3_context \<Rightarrow> bool" where
  "sm3_absorbed us m c \<equiv> md_absorbed (sm3_compress us) sm3_iv m (sm3_core c)"

lemma DecryptSector_record:
  assumes "k + SIZE_INFO \<le> length buf" "length out = SIZE_INFO"
  shows "drop (length buf) (DecryptSector CSM4Crypto (buf @ out) k (length buf) (int (SIZE_INFO div 16)))
    = plain_record (take SIZE_INFO (drop k buf))"
proof -
  have "DecryptSector CSM4Crypto (buf @ out) k (length buf) (int 5)
      = blit (buf @ out) (length buf) (plain_record (take 80 (drop k buf)))"
    using sm4.rev.buffer_loop [of k 5 "buf @ out" "length buf" CSM4Crypto 0] assms int_mul_16 [of 5]
    by (simp add: DecryptSector_def SM4DecryptBuffer_def forward_ok_def SIZE_INFO_def plain_record_def)
  then show ?thesis using assms by (simp add: SIZE_INFO_def blit_def)
qed

lemma load_item_known:
  assumes "length (l_out l) = SIZE_INFO" "i * SIZE_INFO + SIZE_INFO \<le> length (l_buf l)" "sm3_absorbed us m (l_sm3 l)"
    and r: "r = plain_record (take SIZE_INFO (drop (i * SIZE_INFO) (l_buf l)))" and "known_type r"
  obtains l' where "load_item us lib i l = Some l'" "l_file l' = l_file l" "l_buf l' = l_buf l" "l_out l' = r"
    "l_count l' = l_count l" "sm3_absorbed us (m @ r) (l_sm3 l')" "l_env l' = put_record_call lib (l_env l) r"
proof -
  have out: "drop (length (l_buf l)) (DecryptSector CSM4Crypto (l_buf l @ l_out l) (i * SIZE_INFO) (length (l_buf l))
      (int (SIZE_INFO div 16))) = r"
    using DecryptSector_record assms(1,2) r by blast
  define nl where "nl = GetHashLengthByType (uint (r ! 0))"
  have nl: "nl \<in> {16, 20, 32}"
    using assms(5) by (auto simp: nl_def known_type_def GetHashLengthByType_def hash_types)
  then obtain hex where hex: "HexToWStr (Some (drop 1 r)) (word_of_int nl) = Some hex"
    using r by (auto simp: HexToWStr_def get_bytes_def)
  obtain rc env where put: "lib (D_put (drop 1 r) (word_of_int nl) r MDB_NOOVERWRITE) (l_env l) = (rc, env)" by fastforce
  have absr: "sm3_absorbed us (m @ r) (sm3_update us (l_sm3 l) r (int SIZE_INFO))"
    using sm3.absorbed_update [of us m "l_sm3 l" r] assms(3) r by (simp add: SIZE_INFO_def)
  have "load_item us lib i l = Some (l\<lparr>l_out := r, l_dup := (if rc = MDB_KEYEXIST then l_dup l + 1 else l_dup l),
      l_sm3 := sm3_update us (l_sm3 l) r (int SIZE_INFO), l_total := l_total l + 1, l_env := env\<rparr>)"
    unfolding load_item_def Let_def out nl_def [symmetric] put using assms(1,2) hex by simp
  from that [OF this] show ?thesis using absr put by (simp add: put_record_call_def nl_def)
qed

lemma load_items_known:
  assumes "n * SIZE_INFO \<le> length (l_buf l)" "length (l_out l) = SIZE_INFO" "l_count l = n" "i \<le> n"
    and "sm3_absorbed us m (l_sm3 l)"
    and rs: "rs = map (\<lambda>i. plain_record (take SIZE_INFO (drop (i * SIZE_INFO) (l_buf l)))) [i..<n]"
    and "\<forall>r \<in> set rs. known_type r"
  shows "\<exists>l'. load_items us lib i l = Some l' \<and> l_file l' = l_file l \<and> l_buf l' = l_buf l \<and> length (l_out l') = SIZE_INFO
    \<and> l_count l' = n \<and> sm3_absorbed us (m @ concat rs) (l_sm3 l') \<and> l_env l' = foldl (put_record_call lib) (l_env l) rs"
  using assms
proof (induction "n - i" arbitrary: i l m rs)
  case 0
  then show ?case by (simp add: load_items.simps)
next
  case (Suc k)
  let ?r = "plain_record (take SIZE_INFO (drop (i * SIZE_INFO) (l_buf l)))"
  have i: "i < n" using Suc.hyps(2) by simp
  then obtain rs' where rs: "rs = ?r # rs'"
    and rs': "rs' = map (\<lambda>i. plain_record (take SIZE_INFO (drop (i * SIZE_INFO) (l_buf l)))) [i + 1..<n]"
    using Suc.prems(6) by (simp add: upt_conv_Cons)
  have known: "known_type ?r" "\<forall>r \<in> set rs'. known_type r" using Suc.prems(7) unfolding rs by simp_all
  have "(i + 1) * SIZE_INFO \<le> n * SIZE_INFO" using i by (intro mult_le_mono1) simp
  then have fits: "i * SIZE_INFO + SIZE_INFO \<le> length (l_buf l)" using Suc.prems(1) by simp
  obtain l' where l': "load_item us lib i l = Some l'" "l_file l' = l_file l" "l_buf l' = l_buf l" "l_out l' = ?r"
    "l_count l' = l_count l" "sm3_absorbed us (m @ ?r) (l_sm3 l')" "l_env l' = put_record_call lib (l_env l) ?r"
    using load_item_known [where lib = lib, OF Suc.prems(2) fits Suc.prems(5) refl known(1)] by blast
  have same: "l'\<lparr>l_count := l_count l\<rparr> = l'" using l'(5) by simp
  have out: "length (l_out l') = SIZE_INFO" using l'(4) by (simp add: SIZE_INFO_def)
  have "\<exists>l2. load_items us lib (i + 1) l' = Some l2 \<and> l_file l2 = l_file l' \<and> l_buf l2 = l_buf l' \<and> length (l_out l2) = SIZE_INFO
    \<and> l_count l2 = n \<and> sm3_absorbed us ((m @ ?r) @ concat rs') (l_sm3 l2)
    \<and> l_env l2 = foldl (put_record_call lib) (l_env l') rs'"
    by (rule Suc.hyps(1) [OF _ _ out _ _ l'(6)]) (use Suc.hyps(2) Suc.prems(1,3) l'(3,5) i rs' known(2) in simp_all)
  then show ?case
    using i rs l' same Suc.prems(3) by (subst load_items.simps) auto
qed

text \<open>What one read of a file on a disk delivers, and the records in it.\<close>

lemma ReadFile_disk:
  assumes "disk_file sys at bs" "p \<le> length bs" "n \<le> length buf"
  shows "ReadFile sys (at p) buf n =
    Some (Some (blit buf 0 (take n (drop p bs)), length (take n (drop p bs)), at (min (p + n) (length bs))))"
  using assms by (simp add: ReadFile_def disk_file_def put_bytes_def)

lemma records_in_buffer:
  assumes "length d \<le> length buf"
  shows "map (\<lambda>i. plain_record (take SIZE_INFO (drop (i * SIZE_INFO) (blit buf 0 d)))) [0..<length d div SIZE_INFO] = plain_records d"
  unfolding plain_records_def dat_records_index map_map
proof (rule map_cong [OF refl])
  fix i assume "i \<in> set [0..<length d div SIZE_INFO]"
  then have "(i + 1) * SIZE_INFO \<le> length d div SIZE_INFO * SIZE_INFO" by (intro mult_le_mono1) simp
  also have "\<dots> \<le> length d" by simp
  finally show "plain_record (take SIZE_INFO (drop (i * SIZE_INFO) (blit buf 0 d)))
      = (plain_record \<circ> (\<lambda>i. take SIZE_INFO (drop (i * SIZE_INFO) d))) i"
    by (simp add: blit_def)
qed

lemma plain_records_step:
  assumes "n mod SIZE_INFO = 0"
  shows "plain_records xs = plain_records (take n xs) @ plain_records (drop n xs)"
proof (cases "n \<le> length xs")
  case True
  then show ?thesis
    using dat_records_append [of "take n xs" "drop n xs"] assms by (simp add: plain_records_def min_def)
next
  case False
  then show ?thesis by (simp add: plain_records_def dat_records.simps [of "[]"] SIZE_INFO_def)
qed

lemma load_reads_disk:
  assumes "disk_file sys at bs" and n: "n = 204 * SIZE_INFO"
  shows "p \<le> length bs \<Longrightarrow> l_file l = at p \<Longrightarrow> length (l_buf l) = BUF_SIZE \<Longrightarrow> length (l_out l) = SIZE_INFO
    \<Longrightarrow> l_count l = 204 \<or> p = length bs \<Longrightarrow> sm3_absorbed us m (l_sm3 l)
    \<Longrightarrow> \<forall>r \<in> set (plain_records (drop p bs)). known_type r
    \<Longrightarrow> \<exists>l'. load_reads us lib sys n l = Some l'
      \<and> sm3_absorbed us (m @ concat (plain_records (drop p bs))) (l_sm3 l')
      \<and> l_env l' = foldl (put_record_call lib) (l_env l) (plain_records (drop p bs))"
proof (induction "length bs - p" arbitrary: p l m rule: less_induct)
  case less
  define d where "d = take n (drop p bs)"
  define q where "q = min (p + n) (length bs)"
  let ?buf = "blit (l_buf l) 0 d"
  have nB: "n \<le> BUF_SIZE" by (simp add: n dat_sizes)
  have d: "length d \<le> BUF_SIZE" using nB by (simp add: d_def)
  have rf: "ReadFile sys (l_file l) (l_buf l) n = Some (Some (?buf, length d, at q))"
    using ReadFile_disk [OF assms(1) less.prems(1), of n "l_buf l"] less.prems(2,3) nB by (simp add: d_def q_def)
  show ?case
  proof (cases "d = []")
    case True
    then have "drop p bs = []" by (simp add: d_def n SIZE_INFO_def)
    then have "plain_records (drop p bs) = []" by (simp add: plain_records_def dat_records.simps SIZE_INFO_def)
    then show ?thesis using rf True less.prems(6) by (subst load_reads.simps) simp
  next
    case False
    then have pq: "p < length bs" "p < q" by (auto simp: d_def q_def n SIZE_INFO_def)
    have split: "plain_records (drop p bs) = plain_records d @ plain_records (drop q bs)"
    proof -
      have "drop n (drop p bs) = drop q bs" by (cases "p + n \<le> length bs") (simp_all add: q_def add.commute min_def)
      then show ?thesis using plain_records_step [of n "drop p bs"] by (simp add: n d_def)
    qed
    define c where "c = length d div SIZE_INFO"
    let ?l = "l\<lparr>l_buf := ?buf, l_file := at q, l_count := c\<rparr>"
    have full: "length d = n \<Longrightarrow> l_count l = c" "length d < n \<Longrightarrow> q = length bs"
      using less.prems(5) pq by (auto simp: c_def n d_def q_def SIZE_INFO_def)
    have l: "(if length d < n then (l\<lparr>l_buf := ?buf, l_file := at q\<rparr>)\<lparr>l_count := length d div SIZE_INFO\<rparr>
        else l\<lparr>l_buf := ?buf, l_file := at q\<rparr>) = ?l"
      using full(1) by (auto simp: c_def d_def)
    have fits: "c * SIZE_INFO \<le> length (l_buf ?l)"
      using order_trans [OF div_times_less_eq_dividend d] d less.prems(3) by (simp add: c_def)
    have rs: "plain_records d = map (\<lambda>i. plain_record (take SIZE_INFO (drop (i * SIZE_INFO) (l_buf ?l)))) [0..<c]"
      using records_in_buffer [of d "l_buf l"] d less.prems(3) by (simp add: c_def)
    obtain l1 where l1: "load_items us lib 0 ?l = Some l1" "l_file l1 = at q" "l_buf l1 = ?buf" "length (l_out l1) = SIZE_INFO"
      "l_count l1 = c" "sm3_absorbed us (m @ concat (plain_records d)) (l_sm3 l1)"
      "l_env l1 = foldl (put_record_call lib) (l_env l) (plain_records d)"
      using load_items_known [where lib = lib and us = us and m = m, OF fits _ _ _ _ rs] less.prems(4,6,7) split by auto
    define l2 where "l2 = l1\<lparr>l_buf := blit ?buf 0 (replicate (length d) 0), l_out := replicate SIZE_INFO 0\<rparr>"
    have mem: "memset0 (l_buf l1) 0 (length d) = Some (l_buf l2)" "memset0 (l_out l1) 0 SIZE_INFO = Some (l_out l2)"
      using l1(3,4) d less.prems(3) by (simp_all add: memset0_def put_bytes_def l2_def blit_full)
    have step: "load_reads us lib sys n l = load_reads us lib sys n l2"
      using rf False l l1(1) mem by (subst load_reads.simps) (simp add: Let_def l2_def)
    have "\<exists>l'. load_reads us lib sys n l2 = Some l'
      \<and> sm3_absorbed us ((m @ concat (plain_records d)) @ concat (plain_records (drop q bs))) (l_sm3 l')
      \<and> l_env l' = foldl (put_record_call lib) (l_env l2) (plain_records (drop q bs))"
    proof (rule less.hyps)
      show "l_count l2 = 204 \<or> q = length bs"
      proof (cases "length d < n")
        case False
        then have "length d = n" by (simp add: d_def)
        then show ?thesis using l1(5) by (simp add: l2_def c_def n SIZE_INFO_def)
      qed (simp add: full)
    qed (use pq l1 d less.prems(3,7) split in \<open>auto simp: l2_def q_def\<close>)
    then show ?thesis using step split l1(7) by (simp add: l2_def)
  qed
qed

section \<open>A file on a disk\<close>

text \<open>What the function needs before it reaches the first record: the file, the buffers, and a transaction with a
  cursor in the state \<open>e\<close>.\<close>

definition load_ready :: "(dat_call \<Rightarrow> 's \<Rightarrow> int \<times> 's) \<Rightarrow> 'f dat_sys \<Rightarrow> 's \<Rightarrow> string \<Rightarrow> u8 list \<Rightarrow> 's \<Rightarrow> bool" where
  "load_ready lib sys env path bs e \<longleftrightarrow>
     (\<exists>at. disk_file sys at bs \<and> y_open sys path = Some (at 0)) \<and> path \<noteq> []
     \<and> length (y_buf sys) = BUF_SIZE \<and> y_ctx sys \<noteq> None \<and> (\<exists>out. y_out sys = Some out \<and> length out = SIZE_INFO)
     \<and> (\<exists>e1 e2. lib (D_txn_begin 0) env = (0, e1) \<and> lib (D_dbi_open MDB_CREATE) e1 = (0, e2) \<and> lib D_cursor_open e2 = (0, e))"

text \<open>The digest that a file should have, with its records decrypted and the place of the digest cleared.\<close>

definition dat_digest :: "u8 list \<Rightarrow> u8 list list \<Rightarrow> u8 list" where
  "dat_digest head rs = std_digest HASH_TYPE_SM3 (head @ replicate 32 0 @ concat rs)"

lemma sm3_finish_std:
  "masks_count us \<Longrightarrow> sm3_absorbed us (head @ replicate 32 0 @ concat rs) c \<Longrightarrow> snd (sm3_finish us c) = dat_digest head rs"
  using sm3.finish_digest [of us "head @ replicate 32 0 @ concat rs" c]
  by (simp add: dat_digest_def std_digest_def hash_types sm3_hash_std)

lemma load_body_disk:
  assumes "masks_count us" "disk_file sys at bs" "SIZE_HEADER \<le> length bs" "l_file l = at SIZE_HEADER"
    and "length (l_buf l) = BUF_SIZE" "length (l_out l) = SIZE_INFO" "sm3_absorbed us (head @ replicate 32 0) (l_sm3 l)"
    and rs: "rs = plain_records (drop SIZE_HEADER bs)" "\<forall>r \<in> set rs. known_type r"
    and close: "env = snd (lib D_cursor_close (foldl (put_record_call lib) (l_env l) rs))"
  shows "load_body us lib sys check SIZE_HEADER l =
    Some (if dat_digest head rs = check then (let (rc, env) = lib D_commit env in (rc = 0, dat_end lib rc env))
          else (False, snd (lib D_abort env)))"
proof -
  define l1 where "l1 = l\<lparr>l_buf := blit (l_buf l) 0 (replicate SIZE_HEADER 0), l_count := 204\<rparr>"
  have mem: "memset0 (l_buf l) 0 SIZE_HEADER = Some (blit (l_buf l) 0 (replicate SIZE_HEADER 0))"
    using assms(5) by (simp add: memset0_def put_bytes_def dat_sizes)
  have n: "BUF_SIZE div SIZE_INFO = 204" by (simp add: dat_sizes)
  obtain l2 where l2: "load_reads us lib sys (204 * SIZE_INFO) l1 = Some l2"
    "sm3_absorbed us (head @ replicate 32 0 @ concat rs) (l_sm3 l2)" "l_env l2 = foldl (put_record_call lib) (l_env l) rs"
    using load_reads_disk [OF assms(2) refl assms(3), of l1 us "head @ replicate 32 0" lib] assms(4-9)
    by (auto simp: l1_def dat_sizes)
  have dig: "snd (sm3_finish us (l_sm3 l2)) = dat_digest head rs" using sm3_finish_std [OF assms(1) l2(2)] .
  show ?thesis
    using l2(1,3) mem by (simp add: load_body_def n l1_def Let_def dig close dat_end_def split: prod.split)
qed

lemma LoadDat_disk:
  assumes "masks_count us" "load_ready lib sys env path bs e" "length head = 64" "length dig = 32"
    and bs: "bs = head @ dig @ body" "take 3 head = str ''ARS''"
    and rs: "rs = plain_records body" "\<forall>r \<in> set rs. known_type r"
    and close: "env' = snd (lib D_cursor_close (foldl (put_record_call lib) e rs))"
  shows "LoadDat us lib sys env path ver =
    Some (if dat_digest head rs = dig then (let (rc, env) = lib D_commit env' in (rc = 0, print_version head, dat_end lib rc env))
          else (False, print_version head, snd (lib D_abort env')))"
proof -
  obtain at where disk: "disk_file sys at bs" "y_open sys path = Some (at 0)" using assms(2) by (auto simp: load_ready_def)
  obtain s out where res: "path \<noteq> []" "length (y_buf sys) = BUF_SIZE" "y_ctx sys = Some s" "y_out sys = Some out" "length out = SIZE_INFO"
    using assms(2) by (auto simp: load_ready_def)
  obtain e1 e2 where env: "lib (D_txn_begin 0) env = (0, e1)" "lib (D_dbi_open MDB_CREATE) e1 = (0, e2)" "lib D_cursor_open e2 = (0, e)"
    using assms(2) by (auto simp: load_ready_def)
  let ?buf = "blit (y_buf sys) 0 (head @ dig)"
  let ?buf2 = "blit ?buf 64 (replicate 32 0)"
  let ?ctx = "sm3_update us (sm3_starts (sm3_uninit s)) (head @ replicate 32 0) (int SIZE_HEADER)"
  have len: "SIZE_HEADER \<le> length bs" using assms(3,4) bs by (simp add: SIZE_HEADER_def)
  have rd: "ReadFile sys (at 0) (y_buf sys) SIZE_HEADER = Some (Some (?buf, SIZE_HEADER, at SIZE_HEADER))"
    using ReadFile_disk [OF disk(1), of 0 SIZE_HEADER "y_buf sys"] len res(2) assms(3,4) bs by (simp add: dat_sizes min_def)
  have hd: "get_bytes ?buf 0 SIZE_HEADER = Some (head @ dig)"
    using res(2) assms(3,4) by (simp add: get_bytes_def dat_sizes blit_def)
  have mem: "memset0 ?buf 64 32 = Some ?buf2" using res(2) assms(3,4) by (simp add: memset0_def put_bytes_def dat_sizes)
  have hd2: "get_bytes ?buf2 0 SIZE_HEADER = Some (head @ replicate 32 0)"
    using res(2) assms(3,4) by (simp add: get_bytes_def dat_sizes blit_def)
  have "sm3_absorbed us [] (sm3_starts (sm3_uninit s))" using sm3.absorbed_starts [OF sm3_wf_uninit] by blast
  then have ctx: "sm3_absorbed us (head @ replicate 32 0) ?ctx"
    using sm3.absorbed_update [of us "[]" "sm3_starts (sm3_uninit s)" "head @ replicate 32 0"] assms(3)
    by (simp add: SIZE_HEADER_def)
  have check: "get_bytes (head @ dig) 64 32 = Some dig" using assms(3,4) by (simp add: get_bytes_def)
  have magic: "take 3 (head @ dig) = str ''ARS''" using bs(2) assms(3) by simp
  have ver: "print_version (head @ dig) = print_version head" using assms(3) by (simp add: print_version_def nth_append)
  have body: "load_body us lib sys dig SIZE_HEADER
      \<lparr>l_file = at SIZE_HEADER, l_buf = ?buf2, l_out = out, l_count = 0, l_sm3 = ?ctx, l_dup = 0, l_total = 0, l_env = e\<rparr> =
    Some (if dat_digest head rs = dig then (let (rc, env) = lib D_commit env' in (rc = 0, dat_end lib rc env))
          else (False, snd (lib D_abort env')))"
    by (rule load_body_disk [OF assms(1) disk(1) len])
      (use res(2,5) assms(3,4) ctx rs close bs in \<open>simp_all add: dat_sizes\<close>)
  have "min BUF_SIZE SIZE_HEADER = SIZE_HEADER" by (simp add: dat_sizes)
  then show ?thesis
    using res(1,3,4) disk(2) rd hd mem hd2 check magic env body
    by (simp add: LoadDat_def Let_def ver split: prod.split)
qed

text \<open>The program that makes a file: a header, the digest and the records encrypted in place.\<close>

definition seal_record :: "u8 list \<Rightarrow> u8 list" where "seal_record r = EncryptSector CSM4Crypto r 0 0 5"

definition dat_body :: "u8 list list \<Rightarrow> u8 list" where "dat_body rs = concat (map seal_record rs)"

definition dat_record :: "u8 list \<Rightarrow> bool" where "dat_record r \<longleftrightarrow> length r = SIZE_INFO \<and> known_type r"

lemma seal_record:
  assumes "length r = SIZE_INFO"
  shows "length (seal_record r) = SIZE_INFO" "plain_record (seal_record r) = r"
proof -
  have s: "seal_record r = ecb (\<lambda>x. SM4_encrypt x CSM4Crypto) 5 r"
    using sm4.buffer_loop [of 0 5 r 0 CSM4Crypto 0] int_mul_16 [of 5] assms sm4.length_ecb [of CSM4Crypto 5 r]
    by (simp add: seal_record_def EncryptSector_def SM4EncryptBuffer_def forward_ok_def SIZE_INFO_def blit_def)
  show "length (seal_record r) = SIZE_INFO" using sm4.length_ecb [of CSM4Crypto 5 r] by (simp add: s SIZE_INFO_def)
  show "plain_record (seal_record r) = r"
    using sm4.ecb_inverse [of r 5 CSM4Crypto] assms by (simp add: s plain_record_def SIZE_INFO_def)
qed

lemma plain_records_body: "\<forall>r \<in> set rs. dat_record r \<Longrightarrow> plain_records (dat_body rs) = rs"
proof (induction rs)
  case Nil
  then show ?case by (simp add: dat_body_def plain_records_def dat_records.simps SIZE_INFO_def)
next
  case (Cons r rs)
  then have r: "length r = SIZE_INFO" by (simp add: dat_record_def)
  have "dat_records (seal_record r @ dat_body rs) = seal_record r # dat_records (dat_body rs)"
    using seal_record(1) [OF r] by (subst dat_records.simps) simp
  then show ?case using Cons seal_record(2) [OF r] by (simp add: dat_body_def plain_records_def)
qed

lemma length_dat_digest: "length (dat_digest head rs) = 32"
  using length_std_digest [of HASH_TYPE_SM3] by (simp add: dat_digest_def hash_types GetHashLengthByType_def)

section \<open>Properties\<close>

text \<open>C6: \<open>LoadDat\<close> of a file on a disk stores its records, decrypted, in order, and commits them exactly when the digest in
  the header is the standard SM3 digest of the header (with the digest cleared) and the decrypted records; else
  the transaction is aborted. Bytes after the last whole record count for nothing. The types of the records are known
  (another one makes the function read past the block).\<close>

theorem load_dat_correct:
  assumes "masks_count us" "load_ready lib sys env path (head @ dig @ body) e" "length head = 64" "length dig = 32"
    and "take 3 head = str ''ARS''" "\<forall>r \<in> set (plain_records body). known_type r"
    and "env' = snd (lib D_cursor_close (foldl (put_record_call lib) e (plain_records body)))"
  shows "LoadDat us lib sys env path ver =
    Some (if dat_digest head (plain_records body) = dig
          then (let (rc, env) = lib D_commit env' in (rc = 0, print_version head, dat_end lib rc env))
          else (False, print_version head, snd (lib D_abort env')))"
  by (rule LoadDat_disk [OF assms(1-4) refl assms(5) refl assms(6,7)])

text \<open>The calls are logged and all succeed; the file is its bytes.\<close>

definition lib_log :: "dat_call \<Rightarrow> dat_call list \<Rightarrow> int \<times> dat_call list" where "lib_log c cs = (0, cs @ [c])"

definition sys_file :: "u8 list \<Rightarrow> nat dat_sys" where
  "sys_file bs = \<lparr>y_open = (\<lambda>p. Some 0), y_read = (\<lambda>p n. Some (take n (drop p bs), min (p + n) (length bs))),
     y_buf = replicate BUF_SIZE 0xcd, y_ctx = Some stack_cc, y_out = Some (replicate SIZE_INFO 0xcd)\<rparr>"

definition head_sample :: "u8 list" where "head_sample = str ''ARS'' @ [1, 0, 2, 0, 3, 0, 0xff, 0xff] @ replicate 53 0"

definition record_sample :: "u8 list" where "record_sample = 4 # replicate 79 7"

lemma sys_file_ready:
  "load_ready lib_log (sys_file bs) [] ''a.dat'' bs [D_txn_begin 0, D_dbi_open MDB_CREATE, D_cursor_open]"
proof -
  have "disk_file (sys_file bs) (\<lambda>p. p) bs" by (simp add: disk_file_def sys_file_def)
  then show ?thesis by (auto simp: load_ready_def sys_file_def lib_log_def)
qed

lemma samples:
  "length head_sample = 64" "take 3 head_sample = str ''ARS''" "dat_record record_sample"
  by (simp_all add: head_sample_def str_def dat_record_def record_sample_def SIZE_INFO_def known_type_def)

theorem load_dat_correct_witness:
  "\<exists>cs ver. LoadDat x86_shift lib_log (sys_file (head_sample @ map NOT (dat_digest head_sample [record_sample]) @ dat_body [record_sample]))
     [] ''a.dat'' [] = Some (False, ver, cs @ [D_abort])"
proof -
  let ?dg = "dat_digest head_sample [record_sample]"
  have rs: "plain_records (dat_body [record_sample]) = [record_sample]" using plain_records_body samples(3) by simp
  have "?dg \<noteq> map NOT ?dg"
  proof
    assume "?dg = map NOT ?dg"
    then have "hd ?dg = NOT (hd ?dg)" using length_dat_digest [of head_sample "[record_sample]"] by (metis hd_map list.size(3) zero_neq_numeral)
    then have "bit (hd ?dg) 0 = bit (NOT (hd ?dg)) 0" by (rule arg_cong)
    then show False by (simp add: bit_not_iff)
  qed
  then show ?thesis
    using load_dat_correct [OF masks_count_x86 sys_file_ready samples(1) _ samples(2) _ refl,
        of "map NOT ?dg" "dat_body [record_sample]" "[]"] samples(3)
    by (simp add: rs length_dat_digest dat_record_def lib_log_def)
qed

text \<open>C38: a file made of a header, the digest and encrypted records is loaded whole: \<open>LoadDat\<close> answers what the commit
  answers, after the calls that store exactly those records in their order.\<close>

theorem load_dat_roundtrip:
  assumes "masks_count us" "load_ready lib sys env path (head @ dat_digest head rs @ dat_body rs) e"
    and "length head = 64" "take 3 head = str ''ARS''" "\<forall>r \<in> set rs. dat_record r"
    and "lib D_commit (snd (lib D_cursor_close (foldl (put_record_call lib) e rs))) = (0, env')"
  shows "LoadDat us lib sys env path ver = Some (True, print_version head, env')"
  using LoadDat_disk [OF assms(1,2,3) length_dat_digest refl assms(4) refl _ refl, of ver] assms(5,6) plain_records_body [OF assms(5)]
  by (simp add: dat_record_def dat_end_def)

theorem load_dat_roundtrip_witness:
  "LoadDat x86_shift lib_log (sys_file (head_sample @ dat_digest head_sample [record_sample] @ dat_body [record_sample])) [] ''a.dat'' []
   = Some (True, str ''1.2.3.-1'', [D_txn_begin 0, D_dbi_open MDB_CREATE, D_cursor_open,
       D_put (replicate 79 7) 32 record_sample MDB_NOOVERWRITE, D_cursor_close, D_commit])"
proof -
  have "sint (word_cat (0xff :: u8) (0xff :: u8) :: u16) = - 1" by code_simp
  then have v: "print_version head_sample = str ''1.2.3.-1''"
    by (simp add: print_version_def print_short_def head_sample_def str_def dec.simps)
  show ?thesis
    using load_dat_roundtrip [OF masks_count_x86 sys_file_ready samples(1,2), of "[record_sample]"] samples(3)
    by (simp add: v lib_log_def put_record_call_def record_sample_def GetHashLengthByType_def hash_types)
qed

end
