(* ===== verification/Mdb_Dump.thy ===== *)
theory Mdb_Dump
  imports Text_Format Mdb_Cmp
begin

text \<open>
  \<open>lmdb/mdb_dump.c\<close>: the text a database is dumped as, a header of \<open>name=value\<close> lines and then a line
  for every key and every data item. What the database library answers is an argument: the results of
  the calls that query the database, the records its cursor delivers and the code that ends them.
\<close>

unbundle bit_operations_syntax

definition PRINT :: u32 where "PRINT = 1"

definition dbflags :: "(u32 \<times> string) list" where
  "dbflags = [(0x02, ''reversekey''), (0x04, ''dupsort''), (0x08, ''integerkey''), (0x10, ''dupfixed''),
     (0x20, ''integerdup''), (0x40, ''reversedup'')]"

section \<open>Lines\<close>

definition hexc :: "u8 list" where "hexc = str ''0123456789abcdef''"

definition hex :: "u8 \<Rightarrow> u8 list" where
  "hex c = [hexc ! unat (drop_bit 4 c), hexc ! unat (c AND 0xf)]"

definition text_char :: "u8 \<Rightarrow> u8 list" where
  "text_char c = (if c_isprint c then (if c = BSL then [BSL, c] else [c]) else BSL # hex c)"

definition dump_text :: "mval \<Rightarrow> u8 list" where
  "dump_text v = SPC # concat (map text_char v) @ [NL]"

definition dump_byte :: "mval \<Rightarrow> u8 list" where
  "dump_byte v = SPC # concat (map hex v) @ [NL]"

definition dump_val :: "u32 \<Rightarrow> mval \<Rightarrow> u8 list" where
  "dump_val mode v = (if mode AND PRINT \<noteq> 0 then dump_text v else dump_byte v)"

section \<open>A database\<close>

text \<open>The fields of \<open>MDB_envinfo\<close> and \<open>MDB_stat\<close> that are printed.\<close>

record envinfo =
  me_mapaddr :: nat
  me_mapsize :: nat
  me_maxreaders :: nat

text \<open>\<open>fmt_p\<close> is the output of the conversion \<open>%p\<close>, which the C implementation defines.\<close>

definition dump_header ::
  "(nat \<Rightarrow> u8 list) \<Rightarrow> u32 \<Rightarrow> u8 list option \<Rightarrow> u32 \<Rightarrow> nat \<Rightarrow> envinfo \<Rightarrow> u8 list" where
  "dump_header fmt_p mode name flags psize info =
     str ''VERSION=3'' @ [NL]
     @ str ''format='' @ (if mode AND PRINT \<noteq> 0 then str ''print'' else str ''bytevalue'') @ [NL]
     @ (case name of None \<Rightarrow> [] | Some n \<Rightarrow> str ''database='' @ n @ [NL])
     @ str ''type=btree'' @ [NL]
     @ str ''mapsize='' @ dec (me_mapsize info) @ [NL]
     @ (if me_mapaddr info \<noteq> 0 then str ''mapaddr='' @ fmt_p (me_mapaddr info) @ [NL] else [])
     @ str ''maxreaders='' @ dec (me_maxreaders info) @ [NL]
     @ (if flags AND 0x04 \<noteq> 0 then str ''duplicates=1'' @ [NL] else [])
     @ concat (map (\<lambda>(b, n). if flags AND b \<noteq> 0 then str n @ str ''=1'' @ [NL] else []) dbflags)
     @ str ''db_pagesize='' @ dec psize @ [NL]
     @ str ''HEADER=END'' @ [NL]"

definition EINTR :: int where "EINTR = 4"

text \<open>The loop over the records. \<open>sig\<close> says before which records the signal flag is set; \<open>fin\<close> is what
  the cursor answers after the last record. The condition assigns the result of the comparison to \<open>rc\<close>.\<close>

fun dump_loop :: "u32 \<Rightarrow> (nat \<Rightarrow> bool) \<Rightarrow> nat \<Rightarrow> (mval \<times> mval) list \<Rightarrow> int \<Rightarrow> int \<times> u8 list" where
  "dump_loop mode sig i [] fin = (let rc = (if fin = 0 then 1 else 0) in (rc, []))"
| "dump_loop mode sig i ((k, d) # kvs) fin =
     (if sig i then (EINTR, [])
      else let (rc, out) = dump_loop mode sig (i + 1) kvs fin in (rc, dump_val mode k @ dump_val mode d @ out))"

definition MDB_NOTFOUND :: int where "MDB_NOTFOUND = - 30798"

definition dumpit ::
  "(nat \<Rightarrow> u8 list) \<Rightarrow> u32 \<Rightarrow> (nat \<Rightarrow> bool) \<Rightarrow> u8 list option \<Rightarrow> int + u32 \<Rightarrow> int + nat \<Rightarrow> int + envinfo \<Rightarrow> int
   \<Rightarrow> (mval \<times> mval) list \<Rightarrow> int \<Rightarrow> int \<times> u8 list" where
  "dumpit fmt_p mode sig name r_flags r_stat r_info open_rc kvs fin =
     (case r_flags of Inl rc \<Rightarrow> (rc, []) | Inr flags \<Rightarrow>
      case r_stat of Inl rc \<Rightarrow> (rc, []) | Inr psize \<Rightarrow>
      case r_info of Inl rc \<Rightarrow> (rc, []) | Inr info \<Rightarrow>
        let hdr = dump_header fmt_p mode name flags psize info
        in if open_rc \<noteq> 0 then (open_rc, hdr)
           else let (rc, out) = dump_loop mode sig 0 kvs fin
                in (if rc = MDB_NOTFOUND then 0 else rc, hdr @ out @ str ''DATA=END'' @ [NL]))"

section \<open>Lines are lines\<close>

lemma hexc_nth: "n < 16 \<Longrightarrow> hexc ! n = of_nat (if n < 10 then 48 + n else 87 + n)"
proof -
  assume "n < 16"
  then have "n \<in> set [0..<16]" by simp
  then show ?thesis by (simp add: hexc_def str_def upt_rec) (elim disjE; simp)
qed

lemma nibble_less: "unat (drop_bit 4 (c :: u8)) < 16" "unat (c AND 0xf) < 16"
proof -
  have "unat c < 256" using unsigned_less [of c] by simp
  then show "unat (drop_bit 4 c) < 16" by (simp add: unsigned_drop_bit_eq drop_bit_eq_div unat_div)
  have "c AND 0xf \<le> 0xf" by (rule word_and_le1)
  then have "unat (c AND 0xf) \<le> unat (0xf :: u8)" by (simp only: word_le_nat_alt)
  then show "unat (c AND 0xf) < 16" by simp
qed

end
