(* ===== verification/Mdb_Load.thy ===== *)
theory Mdb_Load
  imports Mdb_Dump
begin

text \<open>
  \<open>lmdb/mdb_load.c\<close>: reading a dump back. The global variables are a record, the standard input is the
  list of bytes still to be read, a buffer is its block of memory and the size the program keeps for it.
  The calls of the database library are recorded in a trace; what they answer is an argument.
\<close>

unbundle bit_operations_syntax

definition NOHDR :: u32 where "NOHDR = 2"

section \<open>Globals\<close>

record lstate =
  l_inp :: "u8 list"
  l_lineno :: nat
  l_version :: int
  l_flags :: u32
  l_mode :: u32
  l_Eof :: bool
  l_subname :: "u8 list option"
  l_info :: envinfo

record lbuf =
  b_mem :: "u8 list"
  b_size :: nat

section \<open>The header\<close>

datatype hdr_res = Hdr_more lstate "u8 list" | Hdr_end lstate "u8 list" | Hdr_exit

text \<open>A number after a keyword of \<open>k\<close> bytes: cut the line at the newline and scan.\<close>

definition hdr_num :: "(u8 list \<Rightarrow> nat option) \<Rightarrow> nat \<Rightarrow> (nat \<Rightarrow> lstate) \<Rightarrow> u8 list \<Rightarrow> hdr_res" where
  "hdr_num scan k upd buf =
     (let buf = cut_at NL buf
      in case scan (takeWhile (\<lambda>c. c \<noteq> 0) (drop k buf)) of None \<Rightarrow> Hdr_exit | Some n \<Rightarrow> Hdr_more (upd n) buf)"

text \<open>One line, in the buffer. \<open>scan_p\<close> is the conversion \<open>%p\<close> of \<open>sscanf\<close>.\<close>

definition hdr_line :: "(u8 list \<Rightarrow> nat option) \<Rightarrow> lstate \<Rightarrow> u8 list \<Rightarrow> hdr_res" where
  "hdr_line scan_p st buf =
     (if starts buf 0 (str ''VERSION='')
      then let v = c_atoi (drop 8 buf)
           in if 3 < v then Hdr_exit else Hdr_more (st\<lparr>l_version := v\<rparr>) buf
      else if starts buf 0 (str ''HEADER=END'') then Hdr_end st buf
      else if starts buf 0 (str ''format='')
      then if starts buf 7 (str ''print'') then Hdr_more (st\<lparr>l_mode := l_mode st OR PRINT\<rparr>) buf
           else if starts buf 7 (str ''bytevalue'') then Hdr_more st buf else Hdr_exit
      else if starts buf 0 (str ''database='')
      then let buf = cut_at NL buf
           in Hdr_more (st\<lparr>l_subname := Some (takeWhile (\<lambda>c. c \<noteq> 0) (drop 9 buf))\<rparr>) buf
      else if starts buf 0 (str ''type='')
      then if starts buf 5 (str ''btree'') then Hdr_more st buf else Hdr_exit
      else if starts buf 0 (str ''mapaddr='')
      then hdr_num scan_p 8 (\<lambda>n. st\<lparr>l_info := (l_info st)\<lparr>me_mapaddr := n\<rparr>\<rparr>) buf
      else if starts buf 0 (str ''mapsize='')
      then hdr_num (scan_u 64) 8 (\<lambda>n. st\<lparr>l_info := (l_info st)\<lparr>me_mapsize := n\<rparr>\<rparr>) buf
      else if starts buf 0 (str ''maxreaders='')
      then hdr_num (scan_u 32) 11 (\<lambda>n. st\<lparr>l_info := (l_info st)\<lparr>me_maxreaders := n\<rparr>\<rparr>) buf
      else case find (\<lambda>(b, n). starts buf 0 (str n) \<and> starts buf (length n) (str ''='')) dbflags of
             Some (b, _) \<Rightarrow> Hdr_more (st\<lparr>l_flags := l_flags st OR b\<rparr>) buf
           | None \<Rightarrow> if 0x3D \<in> set buf then Hdr_more st (cut_at 0x3D buf) else Hdr_exit)"

lemma fgets_shorter: "fgets buf k sz inp = Some (Some (buf', inp')) \<Longrightarrow> length inp' < length inp"
  using line_of_pos [of "sz - 1" inp]
  by (cases inp) (auto simp: fgets_def Let_def split: if_splits)

function hdr_loop :: "(u8 list \<Rightarrow> nat option) \<Rightarrow> lstate \<Rightarrow> u8 list \<Rightarrow> nat \<Rightarrow> hdr_res option" where
  "hdr_loop scan_p st buf sz =
     (case fgets buf 0 sz (l_inp st) of
        None \<Rightarrow> None
      | Some None \<Rightarrow> Some (Hdr_end st buf)
      | Some (Some (buf, inp)) \<Rightarrow>
          (case hdr_line scan_p (st\<lparr>l_inp := inp, l_lineno := l_lineno st + 1\<rparr>) buf of
             Hdr_more st' buf \<Rightarrow> hdr_loop scan_p (st'\<lparr>l_inp := inp\<rparr>) buf sz
           | r \<Rightarrow> Some r))"
  by pat_completeness auto
termination by (relation "measure (\<lambda>(s, st, b, sz). length (l_inp st))") (auto dest: fgets_shorter)

declare hdr_loop.simps [simp del]

text \<open>\<open>readhdr\<close>: \<open>None\<close> inside is a call of \<open>exit\<close>.\<close>

definition readhdr :: "(u8 list \<Rightarrow> nat option) \<Rightarrow> lstate \<Rightarrow> lbuf \<Rightarrow> (lstate \<times> lbuf) option option" where
  "readhdr scan_p st dbuf =
     map_option (\<lambda>r. case r of
         Hdr_exit \<Rightarrow> None
       | Hdr_more st buf \<Rightarrow> Some (st, dbuf\<lparr>b_mem := buf\<rparr>)
       | Hdr_end st buf \<Rightarrow> Some (st, dbuf\<lparr>b_mem := buf\<rparr>))
       (hdr_loop scan_p (st\<lparr>l_flags := 0\<rparr>) (b_mem dbuf) (b_size dbuf))"

section \<open>Lines of data\<close>

definition unhex1 :: "u8 \<Rightarrow> int" where
  "unhex1 c = (let x = uint (c AND 0x4f) in if x \<ge> 0x40 then x - 55 else x)"

definition unhex :: "u8 \<Rightarrow> u8 \<Rightarrow> u8" where
  "unhex c d = word_of_int (or (push_bit 4 (unhex1 c)) (unhex1 d))"

text \<open>The decoding loops work in place: \<open>c1\<close> is where the next byte goes, \<open>c2\<close> the next to read, \<open>e\<close> the
  end. \<open>None\<close> is the end on malformed input.\<close>

function unesc :: "u8 list \<Rightarrow> nat \<Rightarrow> nat \<Rightarrow> nat \<Rightarrow> (u8 list \<times> nat) option" where
  "unesc mem c1 c2 e =
     (if c2 < e
      then if mem ! c2 = BSL
           then if mem ! (c2 + 1) = BSL then unesc (mem[c1 := mem ! c2]) (c1 + 1) (c2 + 2) e
                else if e < c2 + 3 \<or> \<not> c_isxdigit (mem ! (c2 + 1)) \<or> \<not> c_isxdigit (mem ! (c2 + 2)) then None
                else unesc (mem[c1 := unhex (mem ! (c2 + 1)) (mem ! (c2 + 2))]) (c1 + 1) (c2 + 3) e
           else unesc (mem[c1 := mem ! c2]) (c1 + 1) (c2 + 1) e
      else Some (mem, c1))"
  by pat_completeness auto
termination by (relation "measure (\<lambda>(m, c1, c2, e). e - c2)") auto

declare unesc.simps [simp del]

function unhexes :: "u8 list \<Rightarrow> nat \<Rightarrow> nat \<Rightarrow> nat \<Rightarrow> (u8 list \<times> nat) option" where
  "unhexes mem c1 c2 e =
     (if c2 < e
      then if \<not> c_isxdigit (mem ! c2) \<or> \<not> c_isxdigit (mem ! (c2 + 1)) then None
           else unhexes (mem[c1 := unhex (mem ! c2) (mem ! (c2 + 1))]) (c1 + 1) (c2 + 2) e
      else Some (mem, c1))"
  by pat_completeness auto
termination by (relation "measure (\<lambda>(m, c1, c2, e). e - c2)") auto

declare unhexes.simps [simp del]

text \<open>The allocator of the C library: which sizes it grants, and what new bytes hold.\<close>

record mem_alloc =
  ma_ok :: "nat \<Rightarrow> bool"
  ma_junk :: u8

text \<open>The loop that reads the rest of a line longer than the buffer. \<open>l2\<close> bytes of the line are in the
  buffer. \<open>Inl\<close> is the end at the end of the input or of memory.\<close>

function grow_line :: "mem_alloc \<Rightarrow> lstate \<Rightarrow> lbuf \<Rightarrow> nat \<Rightarrow> ((lstate \<times> lbuf) + (lstate \<times> lbuf \<times> nat)) option" where
  "grow_line al st buf l2 =
     (if l2 = 0 \<or> length (b_mem buf) < l2 then None
      else if b_mem buf ! (l2 - 1) = NL then Some (Inr (st, buf, l2))
      else if \<not> ma_ok al (2 * b_size buf) then Some (Inl (st\<lparr>l_Eof := True\<rparr>, buf))
      else let mem = take (2 * b_size buf) (b_mem buf)
                 @ replicate (2 * b_size buf - length (b_mem buf)) (ma_junk al)
           in case fgets mem l2 (b_size buf + 1) (l_inp st) of
                None \<Rightarrow> None
              | Some None \<Rightarrow> Some (Inl (st\<lparr>l_Eof := True\<rparr>, buf\<lparr>b_mem := mem\<rparr>))
              | Some (Some (mem, inp)) \<Rightarrow>
                  grow_line al (st\<lparr>l_inp := inp\<rparr>) \<lparr>b_mem = mem, b_size = 2 * b_size buf\<rparr>
                    (l2 + length (takeWhile (\<lambda>c. c \<noteq> 0) (drop l2 mem))))"
  by pat_completeness auto
termination
  by (relation "measure (\<lambda>(al, st, b, l2). length (l_inp st))") (auto dest: fgets_shorter)

declare grow_line.simps [simp del]

text \<open>From the line in the buffer to the value.\<close>

definition decode_line :: "lstate \<Rightarrow> lbuf \<Rightarrow> nat \<Rightarrow> (mval option \<times> lstate \<times> lbuf) option" where
  "decode_line st buf l2 =
     (if l2 = 0 \<or> length (b_mem buf) < l2 then None
      else let e = l2 - 1;
               mem = (b_mem buf)[e := 0];
               r = (if l_mode st AND PRINT \<noteq> 0 then unesc mem 0 0 e
                    else if odd e then None else unhexes mem 0 0 e)
           in Some (case r of
                      None \<Rightarrow> (None, st\<lparr>l_Eof := True\<rparr>, buf\<lparr>b_mem := mem\<rparr>)
                    | Some (mem, n) \<Rightarrow> (Some (take n mem), st, buf\<lparr>b_mem := mem\<rparr>)))"

definition read_text :: "mem_alloc \<Rightarrow> lstate \<Rightarrow> lbuf \<Rightarrow> (mval option \<times> lstate \<times> lbuf) option" where
  "read_text al st buf =
     (case fgets (b_mem buf) 0 (b_size buf) (l_inp st) of
        None \<Rightarrow> None
      | Some None \<Rightarrow> Some (None, st\<lparr>l_Eof := True\<rparr>, buf)
      | Some (Some (mem, inp)) \<Rightarrow>
          (case grow_line al (st\<lparr>l_inp := inp, l_lineno := l_lineno st + 1\<rparr>) (buf\<lparr>b_mem := mem\<rparr>)
                  (length (takeWhile (\<lambda>c. c \<noteq> 0) mem)) of
             None \<Rightarrow> None
           | Some (Inl (st, buf)) \<Rightarrow> Some (None, st, buf)
           | Some (Inr (st, buf, l2)) \<Rightarrow> decode_line st buf l2))"

text \<open>\<open>readline\<close>: the value, or \<open>None\<close> where it answers \<open>EOF\<close>.\<close>

definition readline :: "mem_alloc \<Rightarrow> lstate \<Rightarrow> lbuf \<Rightarrow> (mval option \<times> lstate \<times> lbuf) option" where
  "readline al st buf =
     (if l_mode st AND NOHDR = 0
      then case l_inp st of
             [] \<Rightarrow> Some (None, st\<lparr>l_Eof := True\<rparr>, buf)
           | c # inp \<Rightarrow>
               if c \<noteq> SPC
               then case fgets (b_mem buf) 0 (b_size buf) inp of
                      None \<Rightarrow> None
                    | Some None \<Rightarrow> Some (None, st\<lparr>l_inp := inp, l_lineno := l_lineno st + 1, l_Eof := True\<rparr>, buf)
                    | Some (Some (mem, inp)) \<Rightarrow>
                        Some (None, st\<lparr>l_inp := inp, l_lineno := l_lineno st + 1,
                                       l_Eof := (l_Eof st \<or> \<not> (c = 0x44 \<and> starts mem 0 (str ''ATA=END'')))\<rparr>,
                              buf\<lparr>b_mem := mem\<rparr>)
               else read_text al (st\<lparr>l_inp := inp\<rparr>) buf
      else read_text al st buf)"

section \<open>Values read back\<close>

lemma unhex1_hexc: "n < 16 \<Longrightarrow> unhex1 (hexc ! n) = int n \<and> c_isxdigit (hexc ! n) \<and> hexc ! n \<noteq> 0 \<and> hexc ! n \<noteq> NL \<and> hexc ! n \<noteq> BSL"
proof -
  assume "n < 16"
  then have "n \<in> set [0..<16]" by simp
  then show ?thesis
    by (simp add: hexc_def str_def upt_rec)
      (elim disjE; simp add: unhex1_def c_isxdigit_def c_isdigit_def Let_def)
qed

lemma word_nibbles: "push_bit 4 (drop_bit 4 c) OR (c AND 0xf) = (c :: u8)"
proof -
  have m: "(0xf :: u8) = mask 4" by (simp add: mask_eq_exp_minus_1)
  show ?thesis unfolding m by (rule bit_word_eqI) (auto simp: bit_simps)
qed

lemma unhex_hex: "unhex (hexc ! unat (drop_bit 4 c)) (hexc ! unat (c AND 0xf)) = c"
  using unhex1_hexc [OF nibble_less(1) [of c]] unhex1_hexc [OF nibble_less(2) [of c]] word_nibbles [of c]
  by (simp add: unhex_def of_int_or_eq of_int_push_bit)

lemma hex_chars:
  "hex c = [hexc ! unat (drop_bit 4 c), hexc ! unat (c AND 0xf)]"
  "\<forall>x \<in> set (hex c). c_isxdigit x \<and> x \<noteq> 0 \<and> x \<noteq> NL \<and> x \<noteq> BSL"
  using unhex1_hexc [OF nibble_less(1) [of c]] unhex1_hexc [OF nibble_less(2) [of c]] by (auto simp: hex_def)

lemma text_char_chars: "\<forall>x \<in> set (text_char c). x \<noteq> 0 \<and> x \<noteq> NL"
  using hex_chars(2) [of c] by (auto simp: text_char_def c_isprint_def)

lemma nth_of_seg:
  assumes "drop a (take e xs) = y # ys"
  shows "a < e" "a < length xs" "xs ! a = y" "drop (Suc a) (take e xs) = ys"
proof -
  have "a < length (take e xs)" using assms by (metis drop_all leI list.discI)
  then show "a < e" "a < length xs" by auto
  show "xs ! a = y" using assms \<open>a < length (take e xs)\<close> Cons_nth_drop_Suc [of a "take e xs"] by simp
  show "drop (Suc a) (take e xs) = ys" using assms by (metis drop_Suc drop_tl list.sel(3))
qed

lemma seg_update: "c1 < c2 \<Longrightarrow> drop c2 (take e (xs[c1 := x])) = drop c2 (take e xs)"
  by (simp add: take_update_swap)

lemma take_update_last: "c1 < length xs \<Longrightarrow> take (Suc c1) (xs[c1 := x]) = take c1 xs @ [x]"
  by (simp add: take_Suc_conv_app_nth)

text \<open>The loops decode in place what the dump encoded: the value ends up before \<open>c1\<close>.\<close>

lemma unhexes_hex:
  assumes "drop c2 (take e mem) = concat (map hex v)" "c1 \<le> c2" "c2 \<le> e" "e \<le> length mem"
  shows "\<exists>mem'. unhexes mem c1 c2 e = Some (mem', c1 + length v) \<and> take (c1 + length v) mem' = take c1 mem @ v
    \<and> length mem' = length mem"
  using assms
proof (induction v arbitrary: mem c1 c2)
  case Nil
  then show ?case by (subst unhexes.simps) auto
next
  case (Cons c v)
  let ?h = "hexc ! unat (drop_bit 4 c)" and ?l = "hexc ! unat (c AND 0xf)"
  have seg: "drop c2 (take e mem) = ?h # ?l # concat (map hex v)" using Cons.prems(1) by (simp add: hex_chars(1) [of c])
  note a = nth_of_seg [OF seg] and b = nth_of_seg [OF nth_of_seg(4) [OF seg]]
  define m' where "m' = mem[c1 := c]"
  have x: "c_isxdigit ?h" "c_isxdigit ?l" using hex_chars [of c] by auto
  have "unhexes mem c1 c2 e = unhexes m' (c1 + 1) (c2 + 2) e"
    unfolding m'_def using a b x unhex_hex [of c] by (subst unhexes.simps) simp
  moreover have "drop (c2 + 2) (take e m') = concat (map hex v)"
    using b(4) Cons.prems(2) by (simp add: m'_def take_update_swap)
  then obtain mem' where "unhexes m' (c1 + 1) (c2 + 2) e = Some (mem', c1 + 1 + length v)"
    "take (c1 + 1 + length v) mem' = take (c1 + 1) m' @ v" "length mem' = length m'"
    using Cons.IH [of "c2 + 2" m' "c1 + 1"] Cons.prems b(1) by (auto simp: m'_def)
  moreover have "take (c1 + 1) m' = take c1 mem @ [c]"
    using take_update_last [of c1 mem c] a(2) Cons.prems(2) by (simp add: m'_def)
  ultimately show ?case by (auto simp: m'_def)
qed

lemma unesc_text:
  assumes "drop c2 (take e mem) = concat (map text_char v)" "c1 \<le> c2" "c2 \<le> e" "e \<le> length mem"
  shows "\<exists>mem'. unesc mem c1 c2 e = Some (mem', c1 + length v) \<and> take (c1 + length v) mem' = take c1 mem @ v
    \<and> length mem' = length mem"
  using assms
proof (induction v arbitrary: mem c1 c2)
  case Nil
  then show ?case by (subst unesc.simps) auto
next
  case (Cons c v)
  define m' where "m' = mem[c1 := c]"
  have "\<exists>k > 0. unesc mem c1 c2 e = unesc m' (c1 + 1) (c2 + k) e \<and> c2 + k \<le> e
      \<and> drop (c2 + k) (take e mem) = concat (map text_char v)"
  proof (cases "c_isprint c \<and> c \<noteq> BSL")
    case True
    then have seg: "drop c2 (take e mem) = c # concat (map text_char v)"
      using Cons.prems(1) by (simp add: text_char_def [of c])
    have "unesc mem c1 c2 e = unesc m' (c1 + 1) (c2 + 1) e"
      unfolding m'_def using nth_of_seg [OF seg] True by (subst unesc.simps) simp
    then show ?thesis using nth_of_seg [OF seg] by (intro exI [of _ 1]) simp
  next
    case False
    show ?thesis
    proof (cases "c_isprint c")
      case True
      then have seg: "drop c2 (take e mem) = BSL # BSL # concat (map text_char v)"
        using Cons.prems(1) False by (simp add: text_char_def [of c])
      note a = nth_of_seg [OF seg] and b = nth_of_seg [OF nth_of_seg(4) [OF seg]]
      have "unesc mem c1 c2 e = unesc m' (c1 + 1) (c2 + 2) e"
        unfolding m'_def using a b True False by (subst unesc.simps) simp
      then show ?thesis using a b by (intro exI [of _ 2]) simp
    next
      case nopr: False
      let ?h = "hexc ! unat (drop_bit 4 c)" and ?l = "hexc ! unat (c AND 0xf)"
      have seg: "drop c2 (take e mem) = BSL # ?h # ?l # concat (map text_char v)"
        using Cons.prems(1) nopr by (simp add: text_char_def [of c] hex_chars(1) [of c])
      note a = nth_of_seg [OF seg] and b = nth_of_seg [OF nth_of_seg(4) [OF seg]]
      note d = nth_of_seg [OF b(4)]
      have x: "c_isxdigit ?h" "c_isxdigit ?l" "?h \<noteq> BSL" using hex_chars [of c] by auto
      have "unesc mem c1 c2 e = unesc m' (c1 + 1) (c2 + 3) e"
        unfolding m'_def using a b d x unhex_hex [of c] by (subst unesc.simps) (simp add: eval_nat_numeral)
      then show ?thesis using d by (intro exI [of _ 3]) (simp add: eval_nat_numeral)
    qed
  qed
  then obtain k where k: "0 < k" "unesc mem c1 c2 e = unesc m' (c1 + 1) (c2 + k) e" "c2 + k \<le> e"
    "drop (c2 + k) (take e mem) = concat (map text_char v)" by blast
  have "drop (c2 + k) (take e m') = concat (map text_char v)"
    using k Cons.prems(2) by (simp add: m'_def take_update_swap)
  then obtain mem' where "unesc m' (c1 + 1) (c2 + k) e = Some (mem', c1 + 1 + length v)"
    "take (c1 + 1 + length v) mem' = take (c1 + 1) m' @ v" "length mem' = length m'"
    using Cons.IH [of "c2 + k" m' "c1 + 1"] Cons.prems k by (auto simp: m'_def)
  moreover have "take (c1 + 1) m' = take c1 mem @ [c]"
    using take_update_last [of c1 mem c] k Cons.prems(2,4) by (simp add: m'_def)
  ultimately show ?case using k by (auto simp: m'_def)
qed

section \<open>Lines longer than the buffer\<close>

definition lbuf_ok :: "lbuf \<Rightarrow> bool" where
  "lbuf_ok b \<longleftrightarrow> 2 \<le> b_size b \<and> b_size b \<le> length (b_mem b)"

lemma takeWhile_len: "0 \<notin> set l \<Longrightarrow> length (takeWhile (\<lambda>c. c \<noteq> 0) (l @ 0 # r)) = length (l :: u8 list)"
  by (induction l) auto

lemma drop_le_append: "n \<le> length xs \<Longrightarrow> drop n (xs @ ys) = drop n xs @ ys"
  by simp

lemma take_length_take: "take (length (take k xs)) xs = take k xs"
  by (metis append_take_drop_id append_eq_conv_conj)

text \<open>What one \<open>fgets\<close> takes of a line that ends in the input.\<close>

lemma line_of_line:
  assumes "NL \<notin> set l"
  shows "line_of m (l @ NL # rest) = take m (l @ [NL])"
proof (cases "length l < m")
  case True
  then show ?thesis using line_of_whole [OF assms True] by simp
next
  case False
  then show ?thesis using line_of_part [OF assms, of m "NL # rest"] by simp
qed

lemma line_of_rest:
  assumes "NL \<notin> set l" "k \<le> length l"
  shows "line_of m (drop k (l @ [NL]) @ rest) = take m (drop k (l @ [NL]))"
proof -
  have "NL \<notin> set (drop k l)" using assms(1) in_set_dropD by fastforce
  then show ?thesis using line_of_line [of "drop k l" m rest] assms(2) by simp
qed

lemma fgets_part:
  assumes "NL \<notin> set l" "0 \<notin> set l" "k \<le> length l" "2 \<le> sz" "a + sz \<le> length buf"
  defines "t \<equiv> take (sz - 1) (drop k (l @ [NL]))"
  shows "\<exists>buf'. fgets buf a sz (drop k (l @ [NL]) @ rest) = Some (Some (buf', drop (k + length t) (l @ [NL]) @ rest))
    \<and> length buf' = length buf \<and> take (a + length t) buf' = take a buf @ t
    \<and> length (takeWhile (\<lambda>c. c \<noteq> 0) (drop a buf')) = length t \<and> a + length t < length buf'"
proof -
  have t: "line_of (sz - 1) (drop k (l @ [NL]) @ rest) = t"
    unfolding t_def by (rule line_of_rest [OF assms(1,3)])
  have lt: "length t \<le> sz - 1" "length t \<le> length l + 1 - k" unfolding t_def by auto
  have d: "drop (length t) (drop k (l @ [NL]) @ rest) = drop (k + length t) (l @ [NL]) @ rest"
    using drop_le_append [of "length t" "drop k (l @ [NL])" rest] lt(2) assms(3) by (simp only: drop_drop add.commute) simp
  define buf' where "buf' = blit buf a (t @ [0])"
  have b: "buf' = take a buf @ t @ 0 # drop (a + length t + 1) buf"
    unfolding buf'_def blit_def by simp
  have "set t \<subseteq> set (l @ [NL])" unfolding t_def by (meson set_drop_subset set_take_subset subset_trans)
  then have "0 \<notin> set t" using assms(2) by auto
  then have "length (takeWhile (\<lambda>c. c \<noteq> 0) (drop a buf')) = length t"
    using takeWhile_len [of t] lt assms(4,5) by (simp add: b)
  moreover have fit: "a + length t + 1 \<le> length buf" using lt(1) assms(4,5) by linarith
  moreover have "drop k (l @ [NL]) @ rest \<noteq> []" "\<not> sz \<le> 1" using assms(3,4) by auto
  then have "fgets buf a sz (drop k (l @ [NL]) @ rest) = Some (Some (buf', drop (k + length t) (l @ [NL]) @ rest))"
    unfolding fgets_def Let_def t d buf'_def using fit by (simp only: if_False) simp
  moreover have "length buf' = length buf" "take (a + length t) buf' = take a buf @ t"
    using fit by (simp_all add: b)
  ultimately show ?thesis by simp
qed

lemma last_of_line: "take k m = take k (l @ [NL]) \<Longrightarrow> 0 < k \<Longrightarrow> k \<le> length l + 1 \<Longrightarrow> k \<le> length m \<Longrightarrow> NL \<notin> set l
    \<Longrightarrow> m ! (k - 1) = NL \<longleftrightarrow> k = length l + 1"
proof -
  assume a: "take k m = take k (l @ [NL])" "0 < k" "k \<le> length l + 1" "NL \<notin> set l"
  have "m ! (k - 1) = (l @ [NL]) ! (k - 1)" using a(1,2) nth_take [of "k - 1" k] by (metis diff_less zero_less_one)
  then show ?thesis using a by (cases "k = length l + 1") (auto simp: nth_append in_set_conv_nth)
qed

text \<open>The loop ends with the whole line in the buffer, for a line of any length, if the allocator grants
  up to twice the length of the line.\<close>

lemma grow_line_whole:
  assumes "NL \<notin> set l" "0 \<notin> set l" "\<forall>n \<le> 2 * (length l + 1). ma_ok al n"
    "lbuf_ok buf" "0 < l2" "l2 \<le> length l + 1" "l2 < length (b_mem buf)" "take l2 (b_mem buf) = take l2 (l @ [NL])"
    "l2 = length l + 1 \<or> l2 = b_size buf - 1" "l_inp st = drop l2 (l @ [NL]) @ rest"
  shows "\<exists>buf'. grow_line al st buf l2 = Some (Inr (st\<lparr>l_inp := rest\<rparr>, buf', length l + 1))
    \<and> (lbuf_ok buf' \<and> b_size buf \<le> b_size buf') \<and> length l + 1 < length (b_mem buf') \<and> take (length l + 1) (b_mem buf') = l @ [NL]"
  using assms(4-)
proof (induction "length l + 1 - l2" arbitrary: st buf l2 rule: less_induct)
  case less
  note last = last_of_line [OF less.prems(5) less.prems(2,3) _ assms(1)]
  show ?case
  proof (cases "l2 = length l + 1")
    case True
    then have "b_mem buf ! (l2 - 1) = NL" using last less.prems(4) by simp
    then have "grow_line al st buf l2 = Some (Inr (st, buf, l2))"
      using less.prems(2,4) by (subst grow_line.simps) simp
    moreover have "st\<lparr>l_inp := rest\<rparr> = st" using less.prems(7) True by simp
    ultimately show ?thesis using True less.prems by auto
  next
    case False
    define n where "n = b_size buf"
    have n: "2 \<le> n" "n \<le> length l + 1" "l2 = n - 1" "l2 \<le> length l"
      using less.prems(1,2,3,6) False by (auto simp: n_def lbuf_ok_def)
    define m where "m = take (2 * n) (b_mem buf) @ replicate (2 * n - length (b_mem buf)) (ma_junk al)"
    have m: "length m = 2 * n" "take l2 m = take l2 (l @ [NL])"
      using less.prems(1,4,5) n by (auto simp: m_def n_def lbuf_ok_def)
    define t where "t = take n (drop l2 (l @ [NL]))"
    obtain m' where f: "fgets m l2 (n + 1) (drop l2 (l @ [NL]) @ rest)
        = Some (Some (m', drop (l2 + length t) (l @ [NL]) @ rest))"
      "length m' = 2 * n" "take (l2 + length t) m' = take l2 m @ t"
      "length (takeWhile (\<lambda>c. c \<noteq> 0) (drop l2 m')) = length t" "l2 + length t < 2 * n"
    proof -
      have "2 \<le> n + 1" "l2 + (n + 1) \<le> length m" using n m by simp_all
      from fgets_part [OF assms(1,2) n(4) this, of rest, unfolded add_diff_cancel_right', folded t_def]
      show thesis using that m(1) by auto
    qed
    let ?st = "st\<lparr>l_inp := drop (l2 + length t) (l @ [NL]) @ rest\<rparr>" and ?b = "\<lparr>b_mem = m', b_size = 2 * n\<rparr>"
    have "grow_line al st buf l2 = grow_line al ?st ?b (l2 + length t)"
      using last less.prems(2,4,7) n f assms(3) False
      by (subst grow_line.simps) (simp add: n_def [symmetric] m_def [symmetric] Let_def)
    moreover have tl: "length t = min n (length l + 1 - l2)" by (simp add: t_def)
    have tk: "take (l2 + length t) m' = take (l2 + length t) (l @ [NL])"
      unfolding f(3) m(2) by (simp only: take_add t_def take_length_take)
    have "\<exists>buf'. grow_line al ?st ?b (l2 + length t) = Some (Inr (?st\<lparr>l_inp := rest\<rparr>, buf', length l + 1))
      \<and> (lbuf_ok buf' \<and> b_size ?b \<le> b_size buf') \<and> length l + 1 < length (b_mem buf') \<and> take (length l + 1) (b_mem buf') = l @ [NL]"
    proof (rule less.hyps)
      show "length l + 1 - (l2 + length t) < length l + 1 - l2" using n tl by linarith
      show "lbuf_ok ?b" using n(1) f(2) by (simp add: lbuf_ok_def)
      show "0 < l2 + length t" using less.prems(2) by simp
      show "l2 + length t \<le> length l + 1" using n tl by linarith
      show "l2 + length t < length (b_mem ?b)" using f(2,5) by simp
      show "l2 + length t = length l + 1 \<or> l2 + length t = b_size ?b - 1"
        unfolding lbuf.select_convs using n tl by linarith
      show "take (l2 + length t) (b_mem ?b) = take (l2 + length t) (l @ [NL])" using tk by (simp only: lbuf.select_convs)
      show "l_inp ?st = drop (l2 + length t) (l @ [NL]) @ rest" by (cases st) (simp only: lstate.select_convs lstate.update_convs)
    qed
    then obtain b1 where "grow_line al ?st ?b (l2 + length t) = Some (Inr (?st\<lparr>l_inp := rest\<rparr>, b1, length l + 1))"
      "lbuf_ok b1" "2 * n \<le> b_size b1" "length l + 1 < length (b_mem b1)" "take (length l + 1) (b_mem b1) = l @ [NL]" by auto
    ultimately show ?thesis by (intro exI [of _ b1]) (simp add: n_def)
  qed
qed

section \<open>Reading what was dumped\<close>

lemma decode_line_dumped:
  assumes "l = concat (map text_char v) \<and> l_mode st AND PRINT \<noteq> 0 \<or> l = concat (map hex v) \<and> l_mode st AND PRINT = 0"
    "length l + 1 < length (b_mem buf)" "take (length l + 1) (b_mem buf) = l @ [NL]" "lbuf_ok buf"
  shows "\<exists>buf'. decode_line st buf (length l + 1) = Some (Some v, st, buf') \<and> lbuf_ok buf' \<and> b_size buf' = b_size buf"
proof -
  define m where "m = (b_mem buf)[length l := 0]"
  have m: "length m = length (b_mem buf)" "take (length l) m = l"
    using arg_cong [OF assms(3), of "take (length l)"] by (simp_all add: m_def)
  show ?thesis
  proof (cases "l_mode st AND PRINT = 0")
    case True
    then have l: "l = concat (map hex v)" using assms(1) by simp
    have "even (length l)" unfolding l by (induction v) (auto simp: hex_def)
    moreover obtain m' where "unhexes m 0 0 (length l) = Some (m', length v)" "take (length v) m' = v" "length m' = length m"
      using unhexes_hex [of 0 "length l" m v 0] m l assms(2) by auto
    ultimately show ?thesis using True assms(2,4) m
      by (simp add: decode_line_def Let_def m_def [symmetric] lbuf_ok_def)
  next
    case False
    then have l: "l = concat (map text_char v)" using assms(1) by auto
    obtain m' where "unesc m 0 0 (length l) = Some (m', length v)" "take (length v) m' = v" "length m' = length m"
      using unesc_text [of 0 "length l" m v 0] m l assms(2) by auto
    then show ?thesis using False assms(2,4) m
      by (simp add: decode_line_def Let_def m_def [symmetric] lbuf_ok_def)
  qed
qed

lemma dump_val_line:
  obtains l where "dump_val mode v = SPC # l @ [NL]" "NL \<notin> set l" "0 \<notin> set l"
    "l = concat (map text_char v) \<and> mode AND PRINT \<noteq> 0 \<or> l = concat (map hex v) \<and> mode AND PRINT = 0"
proof (cases "mode AND PRINT = 0")
  case True
  then show ?thesis using that [of "concat (map hex v)"] hex_chars(2)
    by (fastforce simp: dump_val_def dump_byte_def)
next
  case False
  then show ?thesis using that [of "concat (map text_char v)"] text_char_chars
    by (fastforce simp: dump_val_def dump_text_def)
qed

lemma readline_value:
  assumes "lbuf_ok buf" "l_mode st AND NOHDR = 0" "mode AND PRINT = l_mode st AND PRINT"
    "l_inp st = dump_val mode v @ rest" "\<forall>n \<le> 2 * length (dump_val mode v). ma_ok al n"
  shows "\<exists>buf'. readline al st buf = Some (Some v, st\<lparr>l_inp := rest, l_lineno := l_lineno st + 1\<rparr>, buf') \<and> lbuf_ok buf'
    \<and> b_size buf \<le> b_size buf'"
proof -
  obtain l where l: "dump_val mode v = SPC # l @ [NL]" "NL \<notin> set l" "0 \<notin> set l"
    "l = concat (map text_char v) \<and> mode AND PRINT \<noteq> 0 \<or> l = concat (map hex v) \<and> mode AND PRINT = 0"
    by (rule dump_val_line)
  define sz where "sz = b_size buf"
  define t where "t = take (sz - 1) (l @ [NL])"
  have sz: "2 \<le> sz" "0 + sz \<le> length (b_mem buf)" using assms(1) by (auto simp: sz_def lbuf_ok_def)
  obtain m where f: "fgets (b_mem buf) 0 sz ((l @ [NL]) @ rest) = Some (Some (m, drop (length t) (l @ [NL]) @ rest))"
    "length m = length (b_mem buf)" "take (length t) m = t"
    "length (takeWhile (\<lambda>c. c \<noteq> 0) m) = length t" "length t < length m"
    using fgets_part [OF l(2,3) _ sz, of 0 rest] by (auto simp: t_def)
  have tl: "length t = min (sz - 1) (length l + 1)" by (simp add: t_def)
  define st1 where "st1 = st\<lparr>l_inp := drop (length t) (l @ [NL]) @ rest, l_lineno := l_lineno st + 1\<rparr>"
  have t2: "take (length t) (l @ [NL]) = t" unfolding t_def by (rule take_length_take)
  have "\<exists>buf'. grow_line al st1 (buf\<lparr>b_mem := m\<rparr>) (length t) = Some (Inr (st1\<lparr>l_inp := rest\<rparr>, buf', length l + 1))
    \<and> (lbuf_ok buf' \<and> b_size (buf\<lparr>b_mem := m\<rparr>) \<le> b_size buf') \<and> length l + 1 < length (b_mem buf') \<and> take (length l + 1) (b_mem buf') = l @ [NL]"
  proof (rule grow_line_whole [OF l(2,3)])
    have "2 * (length l + 1) \<le> 2 * length (dump_val mode v)" using l(1) by simp
    then show "\<forall>n \<le> 2 * (length l + 1). ma_ok al n" using assms(5) order_trans by blast
    show "lbuf_ok (buf\<lparr>b_mem := m\<rparr>)" using assms(1) f(2) by (simp add: lbuf_ok_def)
    show "0 < length t" "length t \<le> length l + 1" using sz tl by simp_all
    show "length t < length (b_mem (buf\<lparr>b_mem := m\<rparr>))" using f(5) by simp
    show "take (length t) (b_mem (buf\<lparr>b_mem := m\<rparr>)) = take (length t) (l @ [NL])" using f(3) t2 by simp
    show "length t = length l + 1 \<or> length t = b_size (buf\<lparr>b_mem := m\<rparr>) - 1" using tl by (simp add: sz_def min_def)
    show "l_inp st1 = drop (length t) (l @ [NL]) @ rest" unfolding st1_def by (cases st) (simp only: lstate.select_convs lstate.update_convs)
  qed
  then obtain b1 where b1: "grow_line al st1 (buf\<lparr>b_mem := m\<rparr>) (length t) = Some (Inr (st1\<lparr>l_inp := rest\<rparr>, b1, length l + 1))"
    "lbuf_ok b1" "sz \<le> b_size b1" "length l + 1 < length (b_mem b1)" "take (length l + 1) (b_mem b1) = l @ [NL]"
    by (auto simp: sz_def)
  have "\<exists>buf'. decode_line (st1\<lparr>l_inp := rest\<rparr>) b1 (length l + 1) = Some (Some v, st1\<lparr>l_inp := rest\<rparr>, buf')
      \<and> lbuf_ok buf' \<and> b_size buf' = b_size b1"
    using l(4) b1 assms(3) by (intro decode_line_dumped) (auto simp: st1_def)
  then show ?thesis
    using assms(2,4) l(1) f b1
    by (auto simp: readline_def read_text_def sz_def [symmetric] st1_def)
qed

section \<open>Reading a dumped header\<close>

text \<open>\<open>reads_as scan sz out f\<close>: the loop over the header reads the lines \<open>out\<close> with the effect \<open>f\<close>.\<close>

definition keeps_inp :: "(lstate \<Rightarrow> lstate) \<Rightarrow> bool" where
  "keeps_inp f \<longleftrightarrow> (\<forall>st x. f (st\<lparr>l_inp := x\<rparr>) = (f st)\<lparr>l_inp := x\<rparr>)"

definition reads_as :: "(u8 list \<Rightarrow> nat option) \<Rightarrow> nat \<Rightarrow> u8 list \<Rightarrow> (lstate \<Rightarrow> lstate) \<Rightarrow> bool" where
  "reads_as scan sz out f \<longleftrightarrow> keeps_inp f
     \<and> (\<forall>st buf rest. sz \<le> length buf \<longrightarrow> l_inp st = out @ rest \<longrightarrow>
          (\<exists>buf'. length buf' = length buf
             \<and> hdr_loop scan st buf sz = hdr_loop scan ((f st)\<lparr>l_inp := rest\<rparr>) buf' sz))"

lemma reads_as_Nil: "reads_as scan sz [] (\<lambda>st. st)"
proof -
  have "st\<lparr>l_inp := l_inp st\<rparr> = st" for st :: lstate by simp
  then show ?thesis by (force simp: reads_as_def keeps_inp_def)
qed

lemma reads_asD:
  "reads_as scan sz out f \<Longrightarrow> sz \<le> length buf \<Longrightarrow> l_inp st = out @ rest \<Longrightarrow>
    \<exists>buf'. length buf' = length buf \<and> hdr_loop scan st buf sz = hdr_loop scan ((f st)\<lparr>l_inp := rest\<rparr>) buf' sz"
  by (simp add: reads_as_def)

lemma reads_as_append:
  assumes "reads_as scan sz a f" "reads_as scan sz b g"
  shows "reads_as scan sz (a @ b) (\<lambda>st. g (f st))"
  unfolding reads_as_def
proof (intro conjI allI impI)
  show "keeps_inp (\<lambda>st. g (f st))" using assms by (simp add: reads_as_def keeps_inp_def)
  fix st :: lstate and buf rest :: "u8 list" assume l: "sz \<le> length buf" "l_inp st = (a @ b) @ rest"
  have "l_inp st = a @ b @ rest" using l(2) by simp
  from reads_asD [OF assms(1) l(1) this] obtain b1 where b1: "length b1 = length buf"
    "hdr_loop scan st buf sz = hdr_loop scan ((f st)\<lparr>l_inp := b @ rest\<rparr>) b1 sz" by blast
  have "sz \<le> length b1" "l_inp ((f st)\<lparr>l_inp := b @ rest\<rparr>) = b @ rest" using l(1) b1(1) by simp_all
  from reads_asD [OF assms(2) this] obtain b2 where b2: "length b2 = length b1"
    "hdr_loop scan ((f st)\<lparr>l_inp := b @ rest\<rparr>) b1 sz
      = hdr_loop scan ((g ((f st)\<lparr>l_inp := b @ rest\<rparr>))\<lparr>l_inp := rest\<rparr>) b2 sz" by blast
  have "g ((f st)\<lparr>l_inp := b @ rest\<rparr>) = (g (f st))\<lparr>l_inp := b @ rest\<rparr>"
    using assms(2) by (simp add: reads_as_def keeps_inp_def)
  then show "\<exists>buf'. length buf' = length buf \<and> hdr_loop scan st buf sz = hdr_loop scan ((g (f st))\<lparr>l_inp := rest\<rparr>) buf' sz"
    using b1 b2 by (intro exI [of _ b2]) simp
qed

lemma fgets_line:
  assumes "NL \<notin> set l" "length l + 2 \<le> sz" "sz \<le> length buf"
  shows "\<exists>tl. fgets buf 0 sz (l @ NL # rest) = Some (Some (l @ NL # 0 # tl, rest)) \<and> length l + 2 + length tl = length buf"
proof -
  have "line_of (sz - 1) (l @ NL # rest) = l @ [NL]" using assms by (intro line_of_whole) auto
  then show ?thesis using assms
    by (intro exI [of _ "drop (length l + 2) buf"]) (simp add: fgets_def Let_def blit_def)
qed

lemma reads_as_line:
  assumes "NL \<notin> set l" "length l + 2 \<le> sz" "keeps_inp f"
    "\<And>st tl. \<exists>b. hdr_line scan st (l @ NL # 0 # tl) = Hdr_more (f st) b \<and> length b = length l + 2 + length tl"
  shows "reads_as scan sz (l @ [NL]) (\<lambda>st. f (st\<lparr>l_lineno := l_lineno st + 1\<rparr>))"
  unfolding reads_as_def
proof (intro conjI allI impI)
  show "keeps_inp (\<lambda>st. f (st\<lparr>l_lineno := l_lineno st + 1\<rparr>))"
    unfolding keeps_inp_def
  proof (intro allI)
    fix st :: lstate and x
    have "st\<lparr>l_inp := x, l_lineno := l_lineno (st\<lparr>l_inp := x\<rparr>) + 1\<rparr> = st\<lparr>l_lineno := l_lineno st + 1\<rparr>\<lparr>l_inp := x\<rparr>" by simp
    then show "f (st\<lparr>l_inp := x\<rparr>\<lparr>l_lineno := l_lineno (st\<lparr>l_inp := x\<rparr>) + 1\<rparr>) = (f (st\<lparr>l_lineno := l_lineno st + 1\<rparr>))\<lparr>l_inp := x\<rparr>"
      using assms(3) unfolding keeps_inp_def by metis
  qed
  fix st :: lstate and buf rest :: "u8 list" assume l: "sz \<le> length buf" "l_inp st = (l @ [NL]) @ rest"
  obtain tl where tl: "fgets buf 0 sz (l @ NL # rest) = Some (Some (l @ NL # 0 # tl, rest))" "length l + 2 + length tl = length buf"
    using fgets_line [OF assms(1,2) l(1)] by blast
  let ?st = "st\<lparr>l_inp := rest, l_lineno := l_lineno st + 1\<rparr>"
  obtain b where b: "hdr_line scan ?st (l @ NL # 0 # tl) = Hdr_more (f ?st) b" "length b = length l + 2 + length tl"
    using assms(4) by blast
  have "hdr_loop scan st buf sz = hdr_loop scan ((f ?st)\<lparr>l_inp := rest\<rparr>) b sz"
    using l(2) tl(1) b(1) by (subst hdr_loop.simps) simp
  moreover have "f ?st = (f (st\<lparr>l_lineno := l_lineno st + 1\<rparr>))\<lparr>l_inp := rest\<rparr>"
  proof -
    have "?st = st\<lparr>l_lineno := l_lineno st + 1\<rparr>\<lparr>l_inp := rest\<rparr>" by simp
    then show ?thesis using assms(3) unfolding keeps_inp_def by metis
  qed
  ultimately show "\<exists>buf'. length buf' = length buf
      \<and> hdr_loop scan st buf sz = hdr_loop scan ((f (st\<lparr>l_lineno := l_lineno st + 1\<rparr>))\<lparr>l_inp := rest\<rparr>) buf' sz"
    using b(2) tl(2) by (intro exI [of _ b]) simp
qed

lemma cut_at_len [simp]: "length (cut_at c b) = length b"
  by (simp add: cut_at_def)

lemma cut_at_line: "NL \<notin> set l \<Longrightarrow> cut_at NL (l @ NL # ys) = l @ 0 # ys"
proof -
  assume "NL \<notin> set l"
  then have "takeWhile (\<lambda>x. x \<noteq> NL) (l @ NL # ys) = l" by (induction l) auto
  then show ?thesis by (simp add: cut_at_def)
qed

lemma cstr_line: "0 \<notin> set l \<Longrightarrow> takeWhile (\<lambda>c. c \<noteq> 0) (l @ 0 # ys) = (l :: u8 list)"
  by (induction l) auto

lemma starts_simps [simp]:
  "starts b k [] \<longleftrightarrow> True"
  "starts (c # b) 0 (x # lit) \<longleftrightarrow> c = x \<and> starts b 0 lit"
  "starts (c # b) (Suc k) lit \<longleftrightarrow> starts b k lit"
  "starts (c # b) (numeral v) lit \<longleftrightarrow> starts b (pred_numeral v) lit"
  by (auto simp: starts_def numeral_eq_Suc)

lemmas hdr_eval = hdr_line_def str_def dbflags_def Let_def

lemma reads_version: "13 \<le> sz \<Longrightarrow> reads_as scan sz (str ''VERSION=3'' @ [NL])
    (\<lambda>st. (\<lambda>st. st\<lparr>l_version := 3\<rparr>) (st\<lparr>l_lineno := l_lineno st + 1\<rparr>))"
proof (rule reads_as_line)
  fix st :: lstate and tl :: "u8 list"
  have "c_atoi (dec 3 @ NL # 0 # tl) = 3" by (subst c_atoi_dec) (auto simp: c_isdigit_def)
  then have "c_atoi (51 # NL # 0 # tl) = 3" by (simp add: dec.simps [of 3])
  then show "\<exists>b. hdr_line scan st (str ''VERSION=3'' @ NL # 0 # tl) = Hdr_more (st\<lparr>l_version := 3\<rparr>) b
     \<and> length b = length (str ''VERSION=3'') + 2 + length tl"
    by (simp add: hdr_eval)
qed (auto simp: str_def keeps_inp_def)

lemma reads_format: "18 \<le> sz \<Longrightarrow>
    reads_as scan sz (str ''format='' @ (if mode AND PRINT \<noteq> 0 then str ''print'' else str ''bytevalue'') @ [NL])
    (\<lambda>st. (\<lambda>st. if mode AND PRINT \<noteq> 0 then st\<lparr>l_mode := l_mode st OR PRINT\<rparr> else st) (st\<lparr>l_lineno := l_lineno st + 1\<rparr>))"
proof -
  let ?f = "\<lambda>st. if mode AND PRINT \<noteq> 0 then st\<lparr>l_mode := l_mode st OR PRINT\<rparr> else st"
  let ?l = "str ''format='' @ (if mode AND PRINT \<noteq> 0 then str ''print'' else str ''bytevalue'')"
  assume "18 \<le> sz"
  then have "reads_as scan sz (?l @ [NL]) (\<lambda>st. ?f (st\<lparr>l_lineno := l_lineno st + 1\<rparr>))"
    by (intro reads_as_line) (auto simp: keeps_inp_def hdr_eval)
  then show ?thesis by simp
qed

lemma reads_name:
  assumes "NL \<notin> set n" "0 \<notin> set n" "length n + 11 \<le> sz"
  shows "reads_as scan sz (str ''database='' @ n @ [NL])
    (\<lambda>st. (\<lambda>st. st\<lparr>l_subname := Some n\<rparr>) (st\<lparr>l_lineno := l_lineno st + 1\<rparr>))"
proof -
  have "reads_as scan sz ((str ''database='' @ n) @ [NL])
    (\<lambda>st. (\<lambda>st. st\<lparr>l_subname := Some n\<rparr>) (st\<lparr>l_lineno := l_lineno st + 1\<rparr>))"
  proof (rule reads_as_line)
    fix st :: lstate and tl :: "u8 list"
    have l: "NL \<notin> set (str ''database='' @ n)" using assms(1) by (simp add: str_def)
    have "drop 9 ((str ''database='' @ n) @ 0 # 0 # tl) = n @ 0 # 0 # tl" by (simp add: str_def)
    then show "\<exists>b. hdr_line scan st ((str ''database='' @ n) @ NL # 0 # tl) = Hdr_more (st\<lparr>l_subname := Some n\<rparr>) b
       \<and> length b = length (str ''database='' @ n) + 2 + length tl"
      using cut_at_line [OF l, of "0 # tl"] cstr_line [OF assms(2), of "0 # tl"] by (simp add: hdr_eval)
  qed (use assms in \<open>auto simp: str_def keeps_inp_def\<close>)
  then show ?thesis by simp
qed

lemma scan_u_dec_end: "n < 2 ^ w \<Longrightarrow> scan_u w (dec n) = Some n"
  using scan_u_dec [of "[]" n w] by simp

lemma dec_clean: "NL \<notin> set (dec n)" "0 \<notin> set (dec n)"
  using dec_digits(2) [of n] digit_not_space by blast+

text \<open>A line with a number: \<open>kw\<close> is the keyword, \<open>num\<close> the digits.\<close>

lemma hdr_num_line:
  fixes tl :: "u8 list"
  assumes "NL \<notin> set (kw @ num)" "0 \<notin> set num" "scan num = Some n" "k = length kw"
  shows "\<exists>b. hdr_num scan k upd ((kw @ num) @ NL # 0 # tl) = Hdr_more (upd n) b
    \<and> length b = length (kw @ num) + 2 + length tl"
  using cut_at_line [OF assms(1), of "0 # tl"] cstr_line [OF assms(2), of "0 # tl"] assms(3,4)
  by (simp add: hdr_num_def Let_def)

lemma reads_mapsize:
  assumes "n < 2 ^ 64" "length (dec n) + 10 \<le> sz"
  shows "reads_as scan sz (str ''mapsize='' @ dec n @ [NL])
    (\<lambda>st. (\<lambda>st. st\<lparr>l_info := (l_info st)\<lparr>me_mapsize := n\<rparr>\<rparr>) (st\<lparr>l_lineno := l_lineno st + 1\<rparr>))"
proof -
  have "reads_as scan sz ((str ''mapsize='' @ dec n) @ [NL])
    (\<lambda>st. (\<lambda>st. st\<lparr>l_info := (l_info st)\<lparr>me_mapsize := n\<rparr>\<rparr>) (st\<lparr>l_lineno := l_lineno st + 1\<rparr>))"
  proof (rule reads_as_line)
    fix st :: lstate and tl :: "u8 list"
    have l: "NL \<notin> set (str ''mapsize='' @ dec n)" using dec_clean(1) [of n] by (simp add: str_def)
    show "\<exists>b. hdr_line scan st ((str ''mapsize='' @ dec n) @ NL # 0 # tl)
        = Hdr_more (st\<lparr>l_info := (l_info st)\<lparr>me_mapsize := n\<rparr>\<rparr>) b
       \<and> length b = length (str ''mapsize='' @ dec n) + 2 + length tl"
      using hdr_num_line [where scan = "scan_u 64" and n = n and k = 8 and tl = tl
          and upd = "\<lambda>n. st\<lparr>l_info := (l_info st)\<lparr>me_mapsize := n\<rparr>\<rparr>",
          OF l dec_clean(2) scan_u_dec_end [OF assms(1)]] by (simp add: hdr_eval)
  qed (use assms dec_clean(1) [of n] in \<open>auto simp: str_def keeps_inp_def\<close>)
  then show ?thesis by simp
qed

lemma reads_maxreaders:
  assumes "n < 2 ^ 32" "length (dec n) + 13 \<le> sz"
  shows "reads_as scan sz (str ''maxreaders='' @ dec n @ [NL])
    (\<lambda>st. (\<lambda>st. st\<lparr>l_info := (l_info st)\<lparr>me_maxreaders := n\<rparr>\<rparr>) (st\<lparr>l_lineno := l_lineno st + 1\<rparr>))"
proof -
  have "reads_as scan sz ((str ''maxreaders='' @ dec n) @ [NL])
    (\<lambda>st. (\<lambda>st. st\<lparr>l_info := (l_info st)\<lparr>me_maxreaders := n\<rparr>\<rparr>) (st\<lparr>l_lineno := l_lineno st + 1\<rparr>))"
  proof (rule reads_as_line)
    fix st :: lstate and tl :: "u8 list"
    have l: "NL \<notin> set (str ''maxreaders='' @ dec n)" using dec_clean(1) [of n] by (simp add: str_def)
    show "\<exists>b. hdr_line scan st ((str ''maxreaders='' @ dec n) @ NL # 0 # tl)
        = Hdr_more (st\<lparr>l_info := (l_info st)\<lparr>me_maxreaders := n\<rparr>\<rparr>) b
       \<and> length b = length (str ''maxreaders='' @ dec n) + 2 + length tl"
      using hdr_num_line [where scan = "scan_u 32" and n = n and k = 11 and tl = tl
          and upd = "\<lambda>n. st\<lparr>l_info := (l_info st)\<lparr>me_maxreaders := n\<rparr>\<rparr>",
          OF l dec_clean(2) scan_u_dec_end [OF assms(1)]] by (simp add: hdr_eval)
  qed (use assms dec_clean(1) [of n] in \<open>auto simp: str_def keeps_inp_def\<close>)
  then show ?thesis by simp
qed

lemma reads_mapaddr:
  assumes "scan (fmt a) = Some a" "NL \<notin> set (fmt a)" "0 \<notin> set (fmt a)" "length (fmt a) + 10 \<le> sz"
  shows "reads_as scan sz (str ''mapaddr='' @ fmt a @ [NL])
    (\<lambda>st. (\<lambda>st. st\<lparr>l_info := (l_info st)\<lparr>me_mapaddr := a\<rparr>\<rparr>) (st\<lparr>l_lineno := l_lineno st + 1\<rparr>))"
proof -
  have "reads_as scan sz ((str ''mapaddr='' @ fmt a) @ [NL])
    (\<lambda>st. (\<lambda>st. st\<lparr>l_info := (l_info st)\<lparr>me_mapaddr := a\<rparr>\<rparr>) (st\<lparr>l_lineno := l_lineno st + 1\<rparr>))"
  proof (rule reads_as_line)
    fix st :: lstate and tl :: "u8 list"
    have l: "NL \<notin> set (str ''mapaddr='' @ fmt a)" using assms(2) by (simp add: str_def)
    show "\<exists>b. hdr_line scan st ((str ''mapaddr='' @ fmt a) @ NL # 0 # tl)
        = Hdr_more (st\<lparr>l_info := (l_info st)\<lparr>me_mapaddr := a\<rparr>\<rparr>) b
       \<and> length b = length (str ''mapaddr='' @ fmt a) + 2 + length tl"
      using hdr_num_line [where scan = scan and n = a and k = 8 and tl = tl
          and upd = "\<lambda>n. st\<lparr>l_info := (l_info st)\<lparr>me_mapaddr := n\<rparr>\<rparr>", OF l assms(3,1)] by (simp add: hdr_eval)
  qed (use assms in \<open>auto simp: str_def keeps_inp_def\<close>)
  then show ?thesis by simp
qed

lemma reads_type: "12 \<le> sz \<Longrightarrow> reads_as scan sz (str ''type=btree'' @ [NL])
    (\<lambda>st. (\<lambda>st. st) (st\<lparr>l_lineno := l_lineno st + 1\<rparr>))"
  by (rule reads_as_line) (auto simp: keeps_inp_def hdr_eval)

text \<open>Keywords the loader does not know are skipped.\<close>

lemma reads_duplicates: "14 \<le> sz \<Longrightarrow> reads_as scan sz (str ''duplicates=1'' @ [NL])
    (\<lambda>st. (\<lambda>st. st) (st\<lparr>l_lineno := l_lineno st + 1\<rparr>))"
  by (rule reads_as_line) (auto simp: keeps_inp_def hdr_eval)

lemma reads_pagesize:
  assumes "length (dec n) + 14 \<le> sz"
  shows "reads_as scan sz (str ''db_pagesize='' @ dec n @ [NL])
    (\<lambda>st. (\<lambda>st. st) (st\<lparr>l_lineno := l_lineno st + 1\<rparr>))"
proof -
  have "reads_as scan sz ((str ''db_pagesize='' @ dec n) @ [NL]) (\<lambda>st. (\<lambda>st. st) (st\<lparr>l_lineno := l_lineno st + 1\<rparr>))"
  proof (rule reads_as_line)
    fix st :: lstate and tl :: "u8 list"
    show "\<exists>b. hdr_line scan st ((str ''db_pagesize='' @ dec n) @ NL # 0 # tl) = Hdr_more st b
       \<and> length b = length (str ''db_pagesize='' @ dec n) + 2 + length tl"
      by (simp add: hdr_eval)
  qed (use assms dec_clean(1) [of n] in \<open>auto simp: str_def keeps_inp_def\<close>)
  then show ?thesis by simp
qed

lemma reads_flag:
  assumes "(b, n) \<in> set dbflags" "14 \<le> sz"
  shows "reads_as scan sz (str n @ str ''=1'' @ [NL])
    (\<lambda>st. (\<lambda>st. st\<lparr>l_flags := l_flags st OR b\<rparr>) (st\<lparr>l_lineno := l_lineno st + 1\<rparr>))"
proof -
  let ?f = "\<lambda>st. st\<lparr>l_flags := l_flags st OR b\<rparr>"
  have n: "length n \<le> 10" using assms(1) by (auto simp: dbflags_def)
  have "\<forall>x \<in> set dbflags. NL \<notin> set (str (snd x))" by (simp add: dbflags_def str_def)
  then have "NL \<notin> set (str n)" using assms(1) by fastforce
  moreover have "\<forall>x \<in> set dbflags. hdr_line scan st ((str (snd x) @ str ''=1'') @ NL # 0 # tl)
      = Hdr_more (st\<lparr>l_flags := l_flags st OR fst x\<rparr>) ((str (snd x) @ str ''=1'') @ NL # 0 # tl)" for st tl
    by (simp add: hdr_eval)
  then have "hdr_line scan st ((str n @ str ''=1'') @ NL # 0 # tl) = Hdr_more (?f st) ((str n @ str ''=1'') @ NL # 0 # tl)"
    for st tl using assms(1) by fastforce
  ultimately have "reads_as scan sz ((str n @ str ''=1'') @ [NL]) (\<lambda>st. ?f (st\<lparr>l_lineno := l_lineno st + 1\<rparr>))"
    using n assms(2) by (intro reads_as_line) (simp_all add: keeps_inp_def str_def)
  then show ?thesis by simp
qed

fun hdr_flags :: "u32 \<Rightarrow> (u32 \<times> string) list \<Rightarrow> lstate \<Rightarrow> lstate" where
  "hdr_flags w [] st = st"
| "hdr_flags w ((b, n) # fs) st =
     hdr_flags w fs (if w AND b \<noteq> 0 then st\<lparr>l_lineno := l_lineno st + 1, l_flags := l_flags st OR b\<rparr> else st)"

definition flag_lines :: "u32 \<Rightarrow> (u32 \<times> string) list \<Rightarrow> u8 list" where
  "flag_lines w fs = concat (map (\<lambda>(b, n). if w AND b \<noteq> 0 then str n @ str ''=1'' @ [NL] else []) fs)"

lemma reads_flags:
  assumes "set fs \<subseteq> set dbflags" "14 \<le> sz"
  shows "reads_as scan sz (flag_lines w fs) (hdr_flags w fs)"
  using assms(1)
proof (induction fs)
  case Nil
  have "hdr_flags w [] = (\<lambda>st. st)" by (rule ext) simp
  then show ?case using reads_as_Nil by (simp add: flag_lines_def)
next
  case (Cons x fs)
  obtain b n where x: "x = (b, n)" by (cases x)
  have IH: "reads_as scan sz (flag_lines w fs) (hdr_flags w fs)" using Cons by simp
  show ?case
  proof (cases "w AND b = 0")
    case True
    then have "hdr_flags w (x # fs) = hdr_flags w fs" "flag_lines w (x # fs) = flag_lines w fs"
      by (auto simp: x flag_lines_def)
    then show ?thesis using IH by simp
  next
    case False
    have "reads_as scan sz (str n @ str ''=1'' @ [NL]) (\<lambda>st. (\<lambda>st. st\<lparr>l_flags := l_flags st OR b\<rparr>) (st\<lparr>l_lineno := l_lineno st + 1\<rparr>))"
      using Cons.prems x assms(2) by (intro reads_flag) auto
    from reads_as_append [OF this IH]
    have "reads_as scan sz ((str n @ str ''=1'' @ [NL]) @ flag_lines w fs)
        (\<lambda>st. hdr_flags w fs (st\<lparr>l_lineno := l_lineno st + 1\<rparr>\<lparr>l_flags := l_flags (st\<lparr>l_lineno := l_lineno st + 1\<rparr>) OR b\<rparr>))"
      by simp
    moreover have "(\<lambda>st. hdr_flags w fs (st\<lparr>l_lineno := l_lineno st + 1\<rparr>\<lparr>l_flags := l_flags (st\<lparr>l_lineno := l_lineno st + 1\<rparr>) OR b\<rparr>))
        = hdr_flags w (x # fs)" using False by (intro ext) (simp add: x)
    moreover have "flag_lines w (x # fs) = (str n @ str ''=1'' @ [NL]) @ flag_lines w fs"
      using False by (simp add: x flag_lines_def)
    ultimately show ?thesis by simp
  qed
qed

lemma hdr_flags_state:
  "\<exists>m. hdr_flags w fs st = st\<lparr>l_lineno := m, l_flags := foldl (\<lambda>a (b, n). if w AND b \<noteq> 0 then a OR b else a) (l_flags st) fs\<rparr>"
proof (induction fs arbitrary: st)
  case Nil
  have "st\<lparr>l_lineno := l_lineno st, l_flags := l_flags st\<rparr> = st" by simp
  then show ?case by (metis foldl_Nil hdr_flags.simps(1))
next
  case (Cons x fs)
  obtain b n where x: "x = (b, n)" by (cases x)
  show ?case
    using Cons [of "if w AND b \<noteq> 0 then st\<lparr>l_lineno := l_lineno st + 1, l_flags := l_flags st OR b\<rparr> else st"]
    by (auto simp: x)
qed

lemma and_bit_or: "(if w AND 2 ^ k \<noteq> 0 then a OR 2 ^ k else a) = a OR (w AND 2 ^ k)" for w :: "'a :: len word"
proof -
  have "w AND 2 ^ k = (if bit w k then 2 ^ k else 0)" by (rule bit_word_eqI) (auto simp: bit_simps)
  then show ?thesis by simp
qed

lemma dbflags_sum: "foldl (\<lambda>a (b, n). if w AND b \<noteq> 0 then a OR b else a) 0 dbflags = w AND 0x7e"
proof -
  have b: "dbflags = [(2 ^ 1, ''reversekey''), (2 ^ 2, ''dupsort''), (2 ^ 3, ''integerkey''), (2 ^ 4, ''dupfixed''),
     (2 ^ 5, ''integerdup''), (2 ^ 6, ''reversedup'')]" by (simp add: dbflags_def)
  have "(0x7e :: u32) = 2 ^ 1 OR 2 ^ 2 OR 2 ^ 3 OR 2 ^ 4 OR 2 ^ 5 OR 2 ^ 6" by simp
  then show ?thesis unfolding b foldl_Cons foldl_Nil prod.case and_bit_or
    by (simp only: bit.conj_disj_distrib or.left_neutral or.assoc)
qed

lemma length_dec: "n < 10 ^ Suc k \<Longrightarrow> length (dec n) \<le> Suc k"
proof (induction k arbitrary: n)
  case 0
  then show ?case by (subst dec.simps) simp
next
  case (Suc k)
  show ?case
  proof (cases "n < 10")
    case True
    then show ?thesis by (subst dec.simps) simp
  next
    case False
    have "n div 10 < 10 ^ Suc k" using Suc.prems by (simp add: less_mult_imp_div_less)
    then show ?thesis using Suc.IH [of "n div 10"] False by (subst dec.simps) simp
  qed
qed

lemma length_dec_64: "n < 2 ^ 64 \<Longrightarrow> length (dec n) \<le> 20"
proof -
  assume "n < 2 ^ 64"
  moreover have "(2 :: nat) ^ 64 \<le> 10 ^ 20" by simp
  ultimately have "n < 10 ^ 20" by linarith
  moreover have "Suc 19 = 20" by simp
  ultimately show ?thesis using length_dec [of n 19] by metis
qed

lemma hdr_loop_end:
  assumes "12 \<le> sz" "sz \<le> length buf" "l_inp st = str ''HEADER=END'' @ NL # rest"
  shows "\<exists>b. hdr_loop scan st buf sz = Some (Hdr_end (st\<lparr>l_inp := rest, l_lineno := l_lineno st + 1\<rparr>) b) \<and> length b = length buf"
proof -
  obtain ys where ys: "fgets buf 0 sz (str ''HEADER=END'' @ NL # rest) = Some (Some (str ''HEADER=END'' @ NL # 0 # ys, rest))"
    "length (str ''HEADER=END'') + 2 + length ys = length buf"
    using fgets_line [of "str ''HEADER=END''" sz buf rest] assms(1,2) by (auto simp: str_def)
  have "hdr_line scan st (str ''HEADER=END'' @ NL # 0 # ys) = Hdr_end st (str ''HEADER=END'' @ NL # 0 # ys)" for st
    by (simp add: hdr_eval)
  then show ?thesis using assms(3) ys by (subst hdr_loop.simps) simp
qed

text \<open>A whole header. The names of databases and the addresses must fit a line of the buffer.\<close>

definition dumpable :: "(u8 list \<Rightarrow> nat option) \<Rightarrow> (nat \<Rightarrow> u8 list) \<Rightarrow> nat \<Rightarrow> u8 list option \<Rightarrow> nat \<Rightarrow> envinfo \<Rightarrow> bool" where
  "dumpable scan_p fmt_p sz name psize info \<longleftrightarrow>
     64 \<le> sz \<and> psize < 2 ^ 32 \<and> me_mapsize info < 2 ^ 64 \<and> me_maxreaders info < 2 ^ 32
     \<and> (case name of None \<Rightarrow> True | Some n \<Rightarrow> NL \<notin> set n \<and> 0 \<notin> set n \<and> length n + 11 \<le> sz)
     \<and> (me_mapaddr info \<noteq> 0 \<longrightarrow>
          (let p = fmt_p (me_mapaddr info)
           in scan_p p = Some (me_mapaddr info) \<and> NL \<notin> set p \<and> 0 \<notin> set p \<and> length p + 10 \<le> sz))"

definition header_state :: "u32 \<Rightarrow> u8 list option \<Rightarrow> u32 \<Rightarrow> envinfo \<Rightarrow> lstate \<Rightarrow> lstate" where
  "header_state mode name flags info st =
     st\<lparr>l_version := 3, l_flags := flags AND 0x7e,
        l_mode := (if mode AND PRINT \<noteq> 0 then l_mode st OR PRINT else l_mode st),
        l_subname := (case name of None \<Rightarrow> l_subname st | Some n \<Rightarrow> Some n),
        l_info := \<lparr>me_mapaddr = (if me_mapaddr info \<noteq> 0 then me_mapaddr info else me_mapaddr (l_info st)),
                   me_mapsize = me_mapsize info, me_maxreaders = me_maxreaders info\<rparr>\<rparr>"

lemma reads_if: "(c \<Longrightarrow> reads_as scan sz a f) \<Longrightarrow> reads_as scan sz (if c then a else []) (if c then f else (\<lambda>st. st))"
  using reads_as_Nil by simp

lemma header_split:
  "dump_header fmt_p mode name flags psize info =
     ((str ''VERSION=3'' @ [NL])
     @ (str ''format='' @ (if mode AND PRINT \<noteq> 0 then str ''print'' else str ''bytevalue'') @ [NL])
     @ (if name \<noteq> None then str ''database='' @ the name @ [NL] else [])
     @ (str ''type=btree'' @ [NL])
     @ (str ''mapsize='' @ dec (me_mapsize info) @ [NL])
     @ (if me_mapaddr info \<noteq> 0 then str ''mapaddr='' @ fmt_p (me_mapaddr info) @ [NL] else [])
     @ (str ''maxreaders='' @ dec (me_maxreaders info) @ [NL])
     @ (if flags AND 0x04 \<noteq> 0 then str ''duplicates=1'' @ [NL] else [])
     @ flag_lines flags dbflags
     @ (str ''db_pagesize='' @ dec psize @ [NL]))
     @ str ''HEADER=END'' @ [NL]"
  by (simp add: dump_header_def flag_lines_def split: option.split)

lemma dumpable_lens:
  assumes "dumpable scan_p fmt_p sz name psize info"
  shows "length (dec (me_mapsize info)) + 10 \<le> sz" "length (dec (me_maxreaders info)) + 13 \<le> sz" "length (dec psize) + 14 \<le> sz"
proof -
  have "psize < 2 ^ 64" "me_maxreaders info < 2 ^ 64" "me_mapsize info < 2 ^ 64"
    using assms by (simp_all add: dumpable_def)
  note this [THEN length_dec_64]
  moreover have "64 \<le> sz" using assms by (simp add: dumpable_def)
  ultimately show "length (dec (me_mapsize info)) + 10 \<le> sz" "length (dec (me_maxreaders info)) + 13 \<le> sz" "length (dec psize) + 14 \<le> sz"
    by linarith+
qed

abbreviation next_line :: "lstate \<Rightarrow> lstate" where
  "next_line st \<equiv> st\<lparr>l_lineno := l_lineno st + 1\<rparr>"

lemma reads_header:
  assumes "dumpable scan_p fmt_p sz name psize info"
  shows "\<exists>out f. dump_header fmt_p mode name flags psize info = out @ str ''HEADER=END'' @ [NL]
    \<and> reads_as scan_p sz out f
    \<and> (\<forall>st. l_flags st = 0 \<longrightarrow> (\<exists>m. f st = (header_state mode name flags info st)\<lparr>l_lineno := m\<rparr>))"
proof -
  have sz: "64 \<le> sz" using assms by (simp add: dumpable_def)
  have r1: "reads_as scan_p sz (str ''VERSION=3'' @ [NL]) (\<lambda>st. (next_line st)\<lparr>l_version := 3\<rparr>)"
    using reads_version sz by simp
  have r2: "reads_as scan_p sz (str ''format='' @ (if mode AND PRINT \<noteq> 0 then str ''print'' else str ''bytevalue'') @ [NL])
     (\<lambda>st. if mode AND PRINT \<noteq> 0 then (next_line st)\<lparr>l_mode := l_mode (next_line st) OR PRINT\<rparr> else next_line st)"
    using reads_format sz by simp
  have r3: "reads_as scan_p sz (if name \<noteq> None then str ''database='' @ the name @ [NL] else [])
     (if name \<noteq> None then (\<lambda>st. (next_line st)\<lparr>l_subname := Some (the name)\<rparr>) else (\<lambda>st. st))"
  proof (rule reads_if)
    assume "name \<noteq> None"
    then show "reads_as scan_p sz (str ''database='' @ the name @ [NL]) (\<lambda>st. (next_line st)\<lparr>l_subname := Some (the name)\<rparr>)"
      using reads_name [of "the name" sz scan_p] assms by (auto simp: dumpable_def)
  qed
  have r4: "reads_as scan_p sz (str ''type=btree'' @ [NL]) next_line" using reads_type [of sz scan_p] sz by simp
  have r5: "reads_as scan_p sz (str ''mapsize='' @ dec (me_mapsize info) @ [NL])
     (\<lambda>st. (next_line st)\<lparr>l_info := (l_info (next_line st))\<lparr>me_mapsize := me_mapsize info\<rparr>\<rparr>)"
    using reads_mapsize [OF _ dumpable_lens(1) [OF assms]] assms by (simp add: dumpable_def)
  have r6: "reads_as scan_p sz (if me_mapaddr info \<noteq> 0 then str ''mapaddr='' @ fmt_p (me_mapaddr info) @ [NL] else [])
     (if me_mapaddr info \<noteq> 0 then (\<lambda>st. (next_line st)\<lparr>l_info := (l_info (next_line st))\<lparr>me_mapaddr := me_mapaddr info\<rparr>\<rparr>)
      else (\<lambda>st. st))"
  proof (rule reads_if)
    assume "me_mapaddr info \<noteq> 0"
    then show "reads_as scan_p sz (str ''mapaddr='' @ fmt_p (me_mapaddr info) @ [NL])
       (\<lambda>st. (next_line st)\<lparr>l_info := (l_info (next_line st))\<lparr>me_mapaddr := me_mapaddr info\<rparr>\<rparr>)"
      using reads_mapaddr [of scan_p fmt_p "me_mapaddr info" sz] assms by (simp add: dumpable_def Let_def)
  qed
  have r7: "reads_as scan_p sz (str ''maxreaders='' @ dec (me_maxreaders info) @ [NL])
     (\<lambda>st. (next_line st)\<lparr>l_info := (l_info (next_line st))\<lparr>me_maxreaders := me_maxreaders info\<rparr>\<rparr>)"
    using reads_maxreaders [OF _ dumpable_lens(2) [OF assms]] assms by (simp add: dumpable_def)
  have r8: "reads_as scan_p sz (if flags AND 0x04 \<noteq> 0 then str ''duplicates=1'' @ [NL] else [])
     (if flags AND 0x04 \<noteq> 0 then next_line else (\<lambda>st. st))"
    using reads_duplicates [of sz scan_p] sz by (intro reads_if) simp
  have r9: "reads_as scan_p sz (flag_lines flags dbflags) (hdr_flags flags dbflags)"
    using sz by (intro reads_flags) auto
  have r10: "reads_as scan_p sz (str ''db_pagesize='' @ dec psize @ [NL]) next_line"
    using reads_pagesize [OF dumpable_lens(3) [OF assms], of scan_p] by simp
  note all = reads_as_append [OF r1 reads_as_append [OF r2 reads_as_append [OF r3 reads_as_append [OF r4
    reads_as_append [OF r5 reads_as_append [OF r6 reads_as_append [OF r7 reads_as_append [OF r8
    reads_as_append [OF r9 r10]]]]]]]]]
  have "\<exists>m. hdr_flags flags dbflags x = x\<lparr>l_lineno := m, l_flags := flags AND 0x7e\<rparr>" if "l_flags x = 0" for x
    using hdr_flags_state [of flags dbflags x] that dbflags_sum [of flags] by simp
  then obtain M where M: "\<And>x. l_flags x = 0 \<Longrightarrow> hdr_flags flags dbflags x = x\<lparr>l_lineno := M x, l_flags := flags AND 0x7e\<rparr>"
    by metis
  show ?thesis
  proof (intro exI conjI, rule header_split, rule all, intro allI impI, goal_cases)
    case (1 st)
    then show ?case
      by (cases st; cases "name = None"; cases "me_mapaddr info = 0"; cases "mode AND PRINT = 0"; cases "flags AND 4 = 0")
        (auto simp: M header_state_def)
  qed
qed

lemma readhdr_dumped:
  assumes "dumpable scan_p fmt_p (b_size buf) name psize info" "lbuf_ok buf"
    "l_inp st = dump_header fmt_p mode name flags psize info @ rest"
  shows "\<exists>m buf'. readhdr scan_p st buf
      = Some (Some ((header_state mode name flags info st)\<lparr>l_inp := rest, l_lineno := m\<rparr>, buf'))
    \<and> lbuf_ok buf' \<and> b_size buf' = b_size buf"
proof -
  obtain out f where f: "dump_header fmt_p mode name flags psize info = out @ str ''HEADER=END'' @ [NL]"
    "reads_as scan_p (b_size buf) out f"
    "\<forall>st. l_flags st = 0 \<longrightarrow> (\<exists>m. f st = (header_state mode name flags info st)\<lparr>l_lineno := m\<rparr>)"
    using reads_header [OF assms(1), of mode flags] by blast
  have sz: "12 \<le> b_size buf" "b_size buf \<le> length (b_mem buf)"
    using assms(1,2) by (simp_all add: dumpable_def lbuf_ok_def)
  let ?st = "st\<lparr>l_flags := 0\<rparr>" and ?r = "str ''HEADER=END'' @ NL # rest"
  obtain m where m: "f ?st = (header_state mode name flags info ?st)\<lparr>l_lineno := m\<rparr>" using f(3) by force
  have "l_inp ?st = out @ ?r" using assms(3) f(1) by simp
  from reads_asD [OF f(2) sz(2) this] obtain b1 where b1: "length b1 = length (b_mem buf)"
    "hdr_loop scan_p ?st (b_mem buf) (b_size buf) = hdr_loop scan_p ((f ?st)\<lparr>l_inp := ?r\<rparr>) b1 (b_size buf)" by blast
  obtain b2 where b2: "length b2 = length b1" "hdr_loop scan_p ((f ?st)\<lparr>l_inp := ?r\<rparr>) b1 (b_size buf)
      = Some (Hdr_end ((f ?st)\<lparr>l_inp := ?r\<rparr>\<lparr>l_inp := rest, l_lineno := l_lineno (f ?st) + 1\<rparr>) b2)"
    using hdr_loop_end [of "b_size buf" b1 "(f ?st)\<lparr>l_inp := ?r\<rparr>" rest] sz b1(1) by auto
  have "(f ?st)\<lparr>l_inp := ?r\<rparr>\<lparr>l_inp := rest, l_lineno := l_lineno (f ?st) + 1\<rparr>
      = (header_state mode name flags info st)\<lparr>l_inp := rest, l_lineno := m + 1\<rparr>"
    unfolding m by (cases name) (simp_all add: header_state_def)
  then show ?thesis
    using b1 b2 assms(2) by (intro exI [of _ "m + 1"] exI [of _ "buf\<lparr>b_mem := b2\<rparr>"]) (simp add: readhdr_def lbuf_ok_def)
qed

end
