(* ===== verification/Mdb_Load_Main.thy ===== *)
theory Mdb_Load_Main
  imports Mdb_Load
begin

text \<open>
  The main program of \<open>mdb_load.c\<close> after the options are read: the loops over the databases and over the
  records of the input. The library is an argument \<open>lib\<close>: a call and the state of the database give a
  return code and a new state.
\<close>

unbundle bit_operations_syntax

section \<open>Calls of the library\<close>

datatype call =
    C_env_create | C_set_maxdbs nat | C_set_maxreaders nat | C_set_mapsize nat | C_env_open u32
  | C_txn_begin | C_open "u8 list option" u32 | C_set_compare | C_set_dupsort | C_cursor_open
  | C_put mval mval u32 | C_get_last | C_commit | C_dbi_close | C_abort | C_env_close

definition MDB_FIXEDMAP :: u32 where "MDB_FIXEDMAP = 0x01"
definition MDB_NOSUBDIR :: u32 where "MDB_NOSUBDIR = 0x4000"
definition MDB_NOSYNC :: u32 where "MDB_NOSYNC = 0x10000"
definition MDB_NODUPDATA :: u32 where "MDB_NODUPDATA = 0x20"
definition MDB_CURRENT :: u32 where "MDB_CURRENT = 0x40"
definition MDB_APPEND :: u32 where "MDB_APPEND = 0x20000"
definition MDB_APPENDDUP :: u32 where "MDB_APPENDDUP = 0x40000"
definition EOF :: int where "EOF = - 1"

section \<open>Options\<close>

record lopts =
  o_append :: bool
  o_put :: u32
  o_env :: u32
  o_subname :: "u8 list option"
  o_mode :: u32

text \<open>The options \<open>getopt\<close> delivers, each with its argument; \<open>None\<close> is an exit of the program.
  \<open>reopen\<close> says which files can be opened as the standard input.\<close>

fun load_opts :: "(u8 list \<Rightarrow> bool) \<Rightarrow> (char \<times> u8 list) list \<Rightarrow> lopts \<Rightarrow> lopts option" where
  "load_opts reopen [] o' = Some o'"
| "load_opts reopen ((c, a) # cs) o' =
     (if c = CHR ''V'' then None
      else if c = CHR ''a'' then load_opts reopen cs (o'\<lparr>o_append := True\<rparr>)
      else if c = CHR ''f'' then (if reopen a then load_opts reopen cs o' else None)
      else if c = CHR ''n'' then load_opts reopen cs (o'\<lparr>o_env := o_env o' OR MDB_NOSUBDIR\<rparr>)
      else if c = CHR ''s'' then load_opts reopen cs (o'\<lparr>o_subname := Some a\<rparr>)
      else if c = CHR ''N'' then load_opts reopen cs (o'\<lparr>o_put := MDB_NOOVERWRITE OR MDB_NODUPDATA\<rparr>)
      else if c = CHR ''T'' then load_opts reopen cs (o'\<lparr>o_mode := o_mode o' OR (NOHDR OR PRINT)\<rparr>)
      else None)"

definition lopts0 :: lopts where
  "lopts0 = \<lparr>o_append = False, o_put = 0, o_env = MDB_NOSYNC, o_subname = None, o_mode = 0\<rparr>"

section \<open>Records\<close>

record 's load =
  g_ld :: lstate
  g_k :: lbuf
  g_d :: lbuf
  g_pk :: nat
  g_db :: 's

text \<open>How the loop over the records is left: the end of the data, \<open>goto txn_abort\<close>, \<open>goto env_close\<close>.\<close>

datatype outcome = Out_end | Out_abort int | Out_close int

text \<open>The flags of an append. \<open>prevk\<close> lies \<open>k0\<close> bytes into the block of the key buffer as it was
  allocated; \<open>None\<close> is the use of that address after the block was reallocated.\<close>

definition app_step :: "lopts \<Rightarrow> nat \<Rightarrow> mval \<Rightarrow> 's load \<Rightarrow> (u32 \<times> 's load) option" where
  "app_step opt k0 key g =
     (if \<not> o_append opt then Some (0, g)
      else if l_flags (g_ld g) AND 0x04 = 0 then Some (MDB_APPEND, g)
      else if b_size (g_k g) \<noteq> k0 \<or> length (b_mem (g_k g)) < k0 + max (g_pk g) (length key) then None
      else if g_pk g = length key \<and> take (g_pk g) (drop k0 (b_mem (g_k g))) = key
      then Some (MDB_CURRENT OR MDB_APPENDDUP, g)
      else Some (MDB_APPEND, g\<lparr>g_k := (g_k g)\<lparr>b_mem := blit (b_mem (g_k g)) k0 key\<rparr>, g_pk := length key\<rparr>))"

text \<open>After a record was stored: every hundred records the transaction is committed and a new one begun.\<close>

definition load_batch :: "(call \<Rightarrow> 's \<Rightarrow> int \<times> 's) \<Rightarrow> u32 \<Rightarrow> nat \<Rightarrow> 's \<Rightarrow> (outcome \<times> 's) + (nat \<times> 's)" where
  "load_batch lib app batch s =
     (if batch + 1 = 100
      then let (rc, s) = lib C_commit s in if rc \<noteq> 0 then Inl (Out_close rc, s)
      else let (rc, s) = lib C_txn_begin s in if rc \<noteq> 0 then Inl (Out_close rc, s)
      else let (rc, s) = lib C_cursor_open s in if rc \<noteq> 0 then Inl (Out_abort rc, s)
      else Inr (0, if app AND MDB_APPENDDUP \<noteq> 0 then snd (lib C_get_last s) else s)
      else Inr (batch + 1, s))"

text \<open>Reading takes something from the input, or the end was seen.\<close>

lemma grow_line_inp: "grow_line al st buf l2 = Some r \<Longrightarrow>
    case r of Inl (st', b) \<Rightarrow> length (l_inp st') \<le> length (l_inp st) \<and> l_Eof st'
            | Inr (st', b, n) \<Rightarrow> length (l_inp st') \<le> length (l_inp st) \<and> l_Eof st' = l_Eof st"
proof (induction al st buf l2 arbitrary: r rule: grow_line.induct)
  case (1 al st buf l2)
  define mem where "mem = take (2 * b_size buf) (b_mem buf) @ replicate (2 * b_size buf - length (b_mem buf)) (ma_junk al)"
  note eq = grow_line.simps [of al st buf l2, folded mem_def]
  show ?case
  proof (cases "l2 = 0 \<or> length (b_mem buf) < l2 \<or> b_mem buf ! (l2 - 1) = NL \<or> \<not> ma_ok al (2 * b_size buf)
      \<or> fgets mem l2 (b_size buf + 1) (l_inp st) = None \<or> fgets mem l2 (b_size buf + 1) (l_inp st) = Some None")
    case True
    then show ?thesis using "1.prems" by (auto simp: eq Let_def split: if_splits)
  next
    case False
    then obtain m' inp where f: "fgets mem l2 (b_size buf + 1) (l_inp st) = Some (Some (m', inp))" by auto
    let ?l = "l2 + length (takeWhile (\<lambda>c. c \<noteq> 0) (drop l2 m'))"
    have "grow_line al (st\<lparr>l_inp := inp\<rparr>) \<lparr>b_mem = m', b_size = 2 * b_size buf\<rparr> ?l = Some r"
      using "1.prems" False f by (simp add: eq Let_def)
    from "1.IH" [OF _ _ _ mem_def f refl refl this] False fgets_shorter [OF f]
    show ?thesis by (cases r) auto
  qed
qed

lemma decode_line_inp: "decode_line st buf l2 = Some (v, st', b) \<Longrightarrow>
    l_inp st' = l_inp st \<and> (if v = None then l_Eof st' else l_Eof st' = l_Eof st)"
  by (auto simp: decode_line_def Let_def split: if_splits option.splits)

lemma read_text_inp:
  assumes "read_text al st buf = Some (v, st', b)"
  shows "length (l_inp st') \<le> length (l_inp st) \<and> (v \<noteq> None \<longrightarrow> length (l_inp st') < length (l_inp st))
    \<and> (if v = None then l_Eof st' else l_Eof st' = l_Eof st)"
  using assms
  by (fastforce simp: read_text_def split: option.splits sum.splits prod.splits
      dest!: decode_line_inp grow_line_inp fgets_shorter)

lemma readline_inp:
  assumes "readline al st buf = Some (v, st', b)"
  shows "length (l_inp st') \<le> length (l_inp st)"
    "v \<noteq> None \<Longrightarrow> length (l_inp st') < length (l_inp st) \<and> l_Eof st' = l_Eof st"
    "v = None \<Longrightarrow> l_Eof st' \<or> length (l_inp st') < length (l_inp st)"
  using assms
  by (fastforce simp: readline_def split: if_splits option.splits list.splits prod.splits
      dest!: read_text_inp fgets_shorter)+

function load_loop :: "(call \<Rightarrow> 's \<Rightarrow> int \<times> 's) \<Rightarrow> mem_alloc \<Rightarrow> lopts \<Rightarrow> nat \<Rightarrow> nat \<Rightarrow> 's load
    \<Rightarrow> (outcome \<times> 's load) option" where
  "load_loop lib al opt k0 batch g =
     (case readline al (g_ld g) (g_k g) of
        None \<Rightarrow> None
      | Some (None, st, kb) \<Rightarrow> Some (Out_end, g\<lparr>g_ld := st, g_k := kb\<rparr>)
      | Some (Some key, st, kb) \<Rightarrow>
          (case readline al st (g_d g) of
             None \<Rightarrow> None
           | Some (None, st, db) \<Rightarrow> Some (Out_abort EOF, g\<lparr>g_ld := st, g_k := kb, g_d := db\<rparr>)
           | Some (Some data, st, db) \<Rightarrow>
               (case app_step opt k0 key (g\<lparr>g_ld := st, g_k := kb, g_d := db\<rparr>) of
                  None \<Rightarrow> None
                | Some (app, g') \<Rightarrow>
                    let (rc, s) = lib (C_put key data (o_put opt OR app)) (g_db g')
                    in if rc = MDB_KEYEXIST \<and> o_put opt \<noteq> 0
                       then load_loop lib al opt k0 batch (g'\<lparr>g_ld := st, g_db := s\<rparr>)
                       else if rc \<noteq> 0 then Some (Out_abort rc, g'\<lparr>g_db := s\<rparr>)
                       else case load_batch lib app batch s of
                              Inl (out, s) \<Rightarrow> Some (out, g'\<lparr>g_db := s\<rparr>)
                            | Inr (batch, s) \<Rightarrow> load_loop lib al opt k0 batch (g'\<lparr>g_ld := st, g_db := s\<rparr>))))"
  by pat_completeness auto
termination
  by (relation "measure (\<lambda>(lib, al, opt, k0, b, g). length (l_inp (g_ld g)))") (auto dest!: readline_inp(2))

declare load_loop.simps [simp del]

lemma app_step_ld: "app_step opt k0 key g = Some (a, g') \<Longrightarrow> g_ld g' = g_ld g"
  by (auto simp: app_step_def split: if_splits)

lemma load_loop_inp: "load_loop lib al opt k0 batch g = Some (Out_end, g') \<Longrightarrow>
    l_Eof (g_ld g') \<or> length (l_inp (g_ld g')) < length (l_inp (g_ld g))"
proof (induction lib al opt k0 batch g rule: load_loop.induct)
  case (1 lib al opt k0 batch g)
  obtain v st kb where r1: "readline al (g_ld g) (g_k g) = Some (v, st, kb)"
    using "1.prems" by (subst (asm) load_loop.simps) (auto split: option.splits)
  show ?case
  proof (cases v)
    case None
    then show ?thesis using "1.prems" r1 readline_inp(3) [OF r1] by (subst (asm) load_loop.simps) auto
  next
    case (Some key)
    obtain w st2 db where r2: "readline al st (g_d g) = Some (w, st2, db)"
      using "1.prems" r1 Some by (subst (asm) load_loop.simps) (auto split: option.splits)
    then obtain data where w: "w = Some data"
      using "1.prems" r1 Some by (subst (asm) load_loop.simps) (cases w; auto)
    let ?g = "g\<lparr>g_ld := st2, g_k := kb, g_d := db\<rparr>"
    obtain app g2 where a: "app_step opt k0 key ?g = Some (app, g2)"
      using "1.prems" r1 Some r2 w by (subst (asm) load_loop.simps) (auto split: option.splits)
    obtain rc s where l: "lib (C_put key data (o_put opt OR app)) (g_db g2) = (rc, s)" by fastforce
    have less: "length (l_inp st2) < length (l_inp (g_ld g))"
      using readline_inp(2) [OF r1] readline_inp(1) [OF r2] Some by simp
    note IH = "1.IH" [OF r1 refl Some refl r2 refl w refl a refl l [symmetric] refl]
    note eq = "1.prems" [unfolded load_loop.simps [of lib al opt k0 batch g] r1 Some option.case prod.case r2 w a Let_def l]
    show ?thesis
    proof (cases "rc = MDB_KEYEXIST \<and> o_put opt \<noteq> 0")
      case True
      then show ?thesis using IH(1) eq less by auto
    next
      case False
      then have rc0: "rc = 0" using eq by (auto split: if_splits)
      show ?thesis
      proof (cases "load_batch lib app batch s")
        case (Inl x)
        then have "fst x = Out_end" using eq False rc0 by (cases x) auto
        then show ?thesis using Inl by (auto simp: load_batch_def split: if_splits prod.splits)
      next
        case (Inr x)
        obtain b s' where x: "x = (b, s')" by (cases x)
        show ?thesis using IH(2) [OF False _ Inr x [symmetric]] rc0 eq False Inr x less by auto
      qed
    qed
  qed
qed

section \<open>Databases\<close>

text \<open>From \<open>mdb_txn_begin\<close> to \<open>mdb_cursor_open\<close>. \<open>Inl\<close> is a jump to the end of the program.\<close>

definition open_db :: "(call \<Rightarrow> 's \<Rightarrow> int \<times> 's) \<Rightarrow> lopts \<Rightarrow> lstate \<Rightarrow> 's \<Rightarrow> (outcome \<times> 's) + 's" where
  "open_db lib opt st s =
     (let (rc, s) = lib C_txn_begin s in
      if rc \<noteq> 0 then Inl (Out_close rc, s)
      else let (rc, s) = lib (C_open (l_subname st) (l_flags st OR MDB_CREATE)) s in
      if rc \<noteq> 0 then Inl (Out_abort rc, s)
      else let s = (if o_append opt then snd (lib C_set_compare s) else s);
               s = (if o_append opt \<and> l_flags st AND 0x04 \<noteq> 0 then snd (lib C_set_dupsort s) else s);
               (rc, s) = lib C_cursor_open s in
      if rc \<noteq> 0 then Inl (Out_abort rc, s) else Inr s)"

text \<open>The labels \<open>txn_abort\<close> and \<open>env_close\<close>.\<close>

definition leave :: "(call \<Rightarrow> 's \<Rightarrow> int \<times> 's) \<Rightarrow> outcome \<Rightarrow> 's \<Rightarrow> int \<times> 's" where
  "leave lib out s =
     (case out of
        Out_end \<Rightarrow> (0, snd (lib C_env_close s))
      | Out_abort rc \<Rightarrow> (rc, snd (lib C_env_close (snd (lib C_abort s))))
      | Out_close rc \<Rightarrow> (rc, snd (lib C_env_close s)))"

text \<open>The header of the next database. The flags are reset before, also for the first one, whose header
  was read before the loop.\<close>

definition next_header :: "(u8 list \<Rightarrow> nat option) \<Rightarrow> bool \<Rightarrow> 's load \<Rightarrow> 's load option option" where
  "next_header scan_p first g =
     (let st = (g_ld g)\<lparr>l_flags := 0\<rparr>
      in if \<not> first \<and> l_mode st AND NOHDR = 0
         then map_option (map_option (\<lambda>(st, db). g\<lparr>g_ld := st, g_d := db\<rparr>)) (readhdr scan_p st (g_d g))
         else Some (Some (g\<lparr>g_ld := st\<rparr>)))"

lemma hdr_line_inp: "hdr_line scan st b = Hdr_more st' b' \<or> hdr_line scan st b = Hdr_end st' b' \<Longrightarrow>
    l_inp st' = l_inp st \<and> l_Eof st' = l_Eof st"
  by (auto simp: hdr_line_def hdr_num_def Let_def split: if_splits option.splits prod.splits)

lemma hdr_loop_inp: "hdr_loop scan st b sz = Some r \<Longrightarrow> r = Hdr_more st' b' \<or> r = Hdr_end st' b' \<Longrightarrow>
    length (l_inp st') \<le> length (l_inp st) \<and> l_Eof st' = l_Eof st"
proof (induction scan st b sz arbitrary: r rule: hdr_loop.induct)
  case (1 scan st b sz)
  show ?case
  proof (cases "fgets b 0 sz (l_inp st) = None \<or> fgets b 0 sz (l_inp st) = Some None")
    case True
    then show ?thesis using "1.prems" by (subst (asm) hdr_loop.simps) auto
  next
    case False
    then obtain b1 inp where f: "fgets b 0 sz (l_inp st) = Some (Some (b1, inp))" by auto
    let ?st = "st\<lparr>l_inp := inp, l_lineno := l_lineno st + 1\<rparr>"
    note eq = "1.prems"(1) [unfolded hdr_loop.simps [of scan st b sz] f option.case prod.case]
    show ?thesis
    proof (cases "hdr_line scan ?st b1")
      case (Hdr_more st2 b2)
      have "l_Eof st2 = l_Eof st" using hdr_line_inp [of scan ?st b1 st2 b2] Hdr_more by simp
      then show ?thesis
        using "1.IH" [OF f refl refl Hdr_more _ "1.prems"(2)] eq Hdr_more fgets_shorter [OF f] by auto
    next
      case (Hdr_end st2 b2)
      then show ?thesis using eq "1.prems"(2) hdr_line_inp [of scan ?st b1 st2 b2] fgets_shorter [OF f] by auto
    next
      case Hdr_exit
      then show ?thesis using eq "1.prems"(2) by auto
    qed
  qed
qed

lemma readhdr_inp:
  assumes "readhdr scan st db = Some (Some (st', db'))"
  shows "length (l_inp st') \<le> length (l_inp st) \<and> l_Eof st' = l_Eof st"
proof -
  obtain r where r: "hdr_loop scan (st\<lparr>l_flags := 0\<rparr>) (b_mem db) (b_size db) = Some r"
    using assms by (auto simp: readhdr_def)
  then obtain b' where "r = Hdr_more st' b' \<or> r = Hdr_end st' b'"
    using assms by (cases r) (auto simp: readhdr_def)
  then show ?thesis using hdr_loop_inp [OF r] by fastforce
qed

lemma next_header_inp: "next_header scan_p first g = Some (Some g') \<Longrightarrow>
    length (l_inp (g_ld g')) \<le> length (l_inp (g_ld g)) \<and> l_Eof (g_ld g') = l_Eof (g_ld g)"
  by (auto simp: next_header_def Let_def split: if_splits dest!: readhdr_inp)

lemma load_dbs_less:
  assumes "next_header scan_p first g = Some (Some g1)" "load_loop lib al opt k0 0 (g1\<lparr>g_pk := 0, g_db := s\<rparr>) = Some (Out_end, g2)"
  shows "l_Eof (g_ld g2) \<or> length (l_inp (g_ld g2)) < length (l_inp (g_ld g))"
  using next_header_inp [OF assms(1)] load_loop_inp [OF assms(2)] by auto

text \<open>The loop over the databases; inside, \<open>None\<close> is a call of \<open>exit\<close>.\<close>

function load_dbs :: "(call \<Rightarrow> 's \<Rightarrow> int \<times> 's) \<Rightarrow> mem_alloc \<Rightarrow> (u8 list \<Rightarrow> nat option) \<Rightarrow> lopts \<Rightarrow> nat \<Rightarrow> bool
    \<Rightarrow> 's load \<Rightarrow> (int \<times> 's) option option" where
  "load_dbs lib al scan_p opt k0 first g =
     (if l_Eof (g_ld g) then Some (Some (leave lib Out_end (g_db g)))
      else case next_header scan_p first g of
        None \<Rightarrow> None
      | Some None \<Rightarrow> Some None
      | Some (Some g) \<Rightarrow>
          (case open_db lib opt (g_ld g) (g_db g) of
             Inl (out, s) \<Rightarrow> Some (Some (leave lib out s))
           | Inr s \<Rightarrow>
               (case load_loop lib al opt k0 0 (g\<lparr>g_pk := 0, g_db := s\<rparr>) of
                  None \<Rightarrow> None
                | Some (Out_end, g) \<Rightarrow>
                    let (rc, s) = lib C_commit (g_db g)
                    in if rc \<noteq> 0 then Some (Some (leave lib (Out_close rc) s))
                       else load_dbs lib al scan_p opt k0 False (g\<lparr>g_db := snd (lib C_dbi_close s)\<rparr>)
                | Some (out, g) \<Rightarrow> Some (Some (leave lib out (g_db g))))))"
  by pat_completeness auto
termination
  by (relation "measure (\<lambda>(lib, al, sc, opt, k0, f, g). if l_Eof (g_ld g) then 0 else Suc (length (l_inp (g_ld g))))")
    (auto dest!: load_dbs_less)

declare load_dbs.simps [simp del]

section \<open>The program\<close>

text \<open>\<open>maxkey\<close> is what \<open>mdb_env_get_maxkeysize\<close> answers.\<close>

definition load_main :: "(call \<Rightarrow> 's \<Rightarrow> int \<times> 's) \<Rightarrow> mem_alloc \<Rightarrow> (u8 list \<Rightarrow> nat option) \<Rightarrow> nat \<Rightarrow> lopts
    \<Rightarrow> u8 list \<Rightarrow> 's \<Rightarrow> (int \<times> 's) option option" where
  "load_main lib al scan_p maxkey opt inp s =
     (let db = \<lparr>b_mem = replicate 4096 (ma_junk al), b_size = 4096\<rparr>;
          st = \<lparr>l_inp = inp, l_lineno = 0, l_version = 0, l_flags = 0, l_mode = o_mode opt, l_Eof = False,
                l_subname = o_subname opt, l_info = \<lparr>me_mapaddr = 0, me_mapsize = 0, me_maxreaders = 0\<rparr>\<rparr>
      in case (if l_mode st AND NOHDR = 0 then readhdr scan_p st db else Some (Some (st, db))) of
           None \<Rightarrow> None
         | Some None \<Rightarrow> Some None
         | Some (Some (st, db)) \<Rightarrow>
             let (rc, s) = lib C_env_create s in
             if rc \<noteq> 0 then Some (Some (rc, s))
             else let s = snd (lib (C_set_maxdbs 2) s);
                      info = l_info st;
                      s = (if me_maxreaders info \<noteq> 0 then snd (lib (C_set_maxreaders (me_maxreaders info)) s) else s);
                      s = (if me_mapsize info \<noteq> 0 then snd (lib (C_set_mapsize (me_mapsize info)) s) else s);
                      envflags = (if me_mapaddr info \<noteq> 0 then o_env opt OR MDB_FIXEDMAP else o_env opt);
                      (rc, s) = lib (C_env_open envflags) s in
             if rc \<noteq> 0 then Some (Some (leave lib (Out_close rc) s))
             else let k0 = maxkey * 2 + 2
                  in load_dbs lib al scan_p opt k0 True
                       \<lparr>g_ld = st, g_k = \<lparr>b_mem = replicate (k0 * 2) (ma_junk al), b_size = k0\<rparr>, g_d = db,
                        g_pk = 0, g_db = s\<rparr>)"

end
