(* ===== verification/Mdb_Load_Proofs.thy ===== *)
theory Mdb_Load_Proofs
  imports Mdb_Load_Main
begin

text \<open>
  What \<open>mdb_dump\<close> writes and \<open>mdb_load\<close> reads: values, headers and a whole database are read back, and
  the calls that the loader makes are those the records say. The flags in the header of the first
  database are lost.
\<close>

unbundle bit_operations_syntax

section \<open>Calls\<close>

definition lib_ok :: "(call \<Rightarrow> 's \<Rightarrow> int \<times> 's) \<Rightarrow> bool" where
  "lib_ok lib \<longleftrightarrow> (\<forall>c s. fst (lib c s) = 0)"

definition run :: "(call \<Rightarrow> 's \<Rightarrow> int \<times> 's) \<Rightarrow> call list \<Rightarrow> 's \<Rightarrow> 's" where
  "run lib cs s = foldl (\<lambda>s c. snd (lib c s)) s cs"

lemma run_simps [simp]:
  "run lib [] s = s" "run lib (c # cs) s = run lib cs (snd (lib c s))" "run lib (cs @ ds) s = run lib ds (run lib cs s)"
  by (simp_all add: run_def)

lemma lib_ok_fst: "lib_ok lib \<Longrightarrow> fst (lib c s) = 0"
  by (simp add: lib_ok_def)

text \<open>The calls for the records: a put each, and every hundred a new transaction.\<close>

fun put_calls :: "u32 \<Rightarrow> nat \<Rightarrow> (mval \<times> mval) list \<Rightarrow> call list" where
  "put_calls pf b [] = []"
| "put_calls pf b ((k, d) # kvs) =
     C_put k d pf # (if b + 1 = 100 then [C_commit, C_txn_begin, C_cursor_open] @ put_calls pf 0 kvs
                     else put_calls pf (b + 1) kvs)"

definition records :: "u32 \<Rightarrow> (mval \<times> mval) list \<Rightarrow> u8 list" where
  "records mode kvs = concat (map (\<lambda>(k, d). dump_val mode k @ dump_val mode d) kvs)"

lemma dump_loop_records: "(\<And>i. \<not> sig i) \<Longrightarrow> fin \<noteq> 0 \<Longrightarrow> dump_loop mode sig i kvs fin = (0, records mode kvs)"
  by (induction kvs arbitrary: i) (auto simp: records_def)

section \<open>The loop over the records\<close>

lemma readline_data_end:
  assumes "l_mode st AND NOHDR = 0" "l_inp st = str ''DATA=END'' @ NL # rest" "lbuf_ok buf" "9 \<le> b_size buf"
  shows "\<exists>b. readline al st buf = Some (None, st\<lparr>l_inp := rest, l_lineno := l_lineno st + 1\<rparr>, b)
    \<and> lbuf_ok b \<and> b_size b = b_size buf"
proof -
  obtain ys where ys: "fgets (b_mem buf) 0 (b_size buf) (str ''ATA=END'' @ NL # rest) = Some (Some (str ''ATA=END'' @ NL # 0 # ys, rest))"
    "length (str ''ATA=END'') + 2 + length ys = length (b_mem buf)"
    using fgets_line [of "str ''ATA=END''" "b_size buf" "b_mem buf" rest] assms(3,4) by (auto simp: str_def lbuf_ok_def)
  have i: "l_inp st = 0x44 # (str ''ATA=END'' @ NL # rest)" using assms(2) by (simp add: str_def)
  have s: "starts (str ''ATA=END'' @ NL # 0 # ys) 0 (str ''ATA=END'')" by (simp add: str_def)
  show ?thesis
    using assms(1,3) ys s by (auto simp: readline_def i lbuf_ok_def)
qed

lemma readline_end: "l_mode st AND NOHDR = 0 \<Longrightarrow> l_inp st = [] \<Longrightarrow> readline al st buf = Some (None, st\<lparr>l_Eof := True\<rparr>, buf)"
  by (simp add: readline_def)

lemma load_loop_records:
  assumes "lib_ok lib" "\<not> o_append opt" "l_mode (g_ld g) AND NOHDR = 0" "mode AND PRINT = l_mode (g_ld g) AND PRINT"
    "l_inp (g_ld g) = records mode kvs @ str ''DATA=END'' @ NL # rest" "\<forall>n \<le> 2 * length (records mode kvs). ma_ok al n"
    "lbuf_ok (g_k g)" "lbuf_ok (g_d g)" "9 \<le> b_size (g_k g)"
  shows "\<exists>m kb db. load_loop lib al opt k0 b g
      = Some (Out_end, g\<lparr>g_ld := (g_ld g)\<lparr>l_inp := rest, l_lineno := m\<rparr>, g_k := kb, g_d := db,
                        g_db := run lib (put_calls (o_put opt) b kvs) (g_db g)\<rparr>)
    \<and> lbuf_ok kb \<and> lbuf_ok db \<and> 9 \<le> b_size kb \<and> b_size (g_d g) \<le> b_size db"
  using assms(3-)
proof (induction kvs arbitrary: b g)
  case Nil
  obtain kb where "readline al (g_ld g) (g_k g) = Some (None, (g_ld g)\<lparr>l_inp := rest, l_lineno := l_lineno (g_ld g) + 1\<rparr>, kb)"
    "lbuf_ok kb" "b_size kb = b_size (g_k g)"
    using readline_data_end [of "g_ld g" rest "g_k g" al] Nil by (auto simp: records_def)
  then show ?case
    using Nil by (subst load_loop.simps) (intro exI [of _ "l_lineno (g_ld g) + 1"] exI [of _ kb] exI [of _ "g_d g"], simp)
next
  case (Cons kd kvs)
  obtain k d where kd: "kd = (k, d)" by (cases kd)
  let ?rest = "records mode kvs @ str ''DATA=END'' @ NL # rest"
  have len: "length (dump_val mode k) \<le> length (records mode (kd # kvs))" "length (dump_val mode d) \<le> length (records mode (kd # kvs))"
    "length (records mode kvs) \<le> length (records mode (kd # kvs))" by (simp_all add: records_def kd)
  have mem: "\<forall>n \<le> 2 * m. ma_ok al n" if "m \<le> length (records mode (kd # kvs))" for m
    using Cons.prems(4) that by (meson mult_le_mono2 order_trans)
  have i1: "l_inp (g_ld g) = dump_val mode k @ (dump_val mode d @ ?rest)" using Cons.prems(3) by (simp add: records_def kd)
  obtain kb where k: "readline al (g_ld g) (g_k g)
      = Some (Some k, (g_ld g)\<lparr>l_inp := dump_val mode d @ ?rest, l_lineno := l_lineno (g_ld g) + 1\<rparr>, kb)"
    "lbuf_ok kb" "b_size (g_k g) \<le> b_size kb"
    using readline_value [OF Cons.prems(5,1,2) i1 mem [OF len(1)]] by blast
  let ?st = "(g_ld g)\<lparr>l_inp := dump_val mode d @ ?rest, l_lineno := l_lineno (g_ld g) + 1\<rparr>"
  have p2: "l_mode ?st AND NOHDR = 0" "mode AND PRINT = l_mode ?st AND PRINT" "l_inp ?st = dump_val mode d @ ?rest"
    using Cons.prems(1,2) by simp_all
  obtain db where d: "readline al ?st (g_d g)
      = Some (Some d, (g_ld g)\<lparr>l_inp := ?rest, l_lineno := l_lineno (g_ld g) + 2\<rparr>, db)"
    "lbuf_ok db" "b_size (g_d g) \<le> b_size db"
    using readline_value [OF Cons.prems(6) p2 mem [OF len(2)]] by auto
  define g2 where "g2 = g\<lparr>g_ld := (g_ld g)\<lparr>l_inp := ?rest, l_lineno := l_lineno (g_ld g) + 2\<rparr>, g_k := kb, g_d := db\<rparr>"
  define s where "s = run lib [C_put k d (o_put opt)] (g_db g)"
  have app: "app_step opt k0 k g2 = Some (0, g2)" using assms(2) by (simp add: app_step_def)
  have put: "lib (C_put k d (o_put opt OR 0)) (g_db g2) = (0, s)"
    using lib_ok_fst [OF assms(1), of "C_put k d (o_put opt)" "g_db g"] by (simp add: g2_def s_def prod_eq_iff)
  obtain b' s' where b: "load_batch lib 0 b s = Inr (b', s')"
    "run lib (put_calls (o_put opt) b' kvs) s' = run lib (put_calls (o_put opt) b (kd # kvs)) (g_db g)"
    using lib_ok_fst [OF assms(1)] by (cases "b + 1 = 100") (auto simp: load_batch_def s_def kd split_def)
  let ?g3 = "g2\<lparr>g_ld := (g_ld g)\<lparr>l_inp := ?rest, l_lineno := l_lineno (g_ld g) + 2\<rparr>, g_db := s'\<rparr>"
  have "load_loop lib al opt k0 b g = load_loop lib al opt k0 b' ?g3"
    unfolding load_loop.simps [of lib al opt k0 b g] k(1) d(1) option.case prod.case g2_def [symmetric] app put Let_def b(1) sum.case
    by (simp add: MDB_KEYEXIST_def)
  moreover have "\<exists>m kb' db'. load_loop lib al opt k0 b' ?g3
      = Some (Out_end, ?g3\<lparr>g_ld := (g_ld ?g3)\<lparr>l_inp := rest, l_lineno := m\<rparr>, g_k := kb', g_d := db',
                        g_db := run lib (put_calls (o_put opt) b' kvs) (g_db ?g3)\<rparr>)
    \<and> lbuf_ok kb' \<and> lbuf_ok db' \<and> 9 \<le> b_size kb' \<and> b_size (g_d ?g3) \<le> b_size db'"
  proof (rule Cons.IH)
    show "\<forall>n \<le> 2 * length (records mode kvs). ma_ok al n" by (rule mem [OF len(3)])
  qed (use Cons.prems k d in \<open>simp_all add: g2_def\<close>)
  then obtain m kb' db' where "load_loop lib al opt k0 b' ?g3
      = Some (Out_end, ?g3\<lparr>g_ld := (g_ld ?g3)\<lparr>l_inp := rest, l_lineno := m\<rparr>, g_k := kb', g_d := db',
                        g_db := run lib (put_calls (o_put opt) b' kvs) (g_db ?g3)\<rparr>)"
    "lbuf_ok kb'" "lbuf_ok db'" "9 \<le> b_size kb'" "b_size (g_d ?g3) \<le> b_size db'" by blast
  ultimately show ?case
    using b(2) d(3) by (intro exI [of _ m] exI [of _ kb'] exI [of _ db']) (simp add: g2_def)
qed

section \<open>A whole dump\<close>

definition env_calls :: "lopts \<Rightarrow> envinfo \<Rightarrow> call list" where
  "env_calls opt info =
     [C_env_create, C_set_maxdbs 2]
     @ (if me_maxreaders info \<noteq> 0 then [C_set_maxreaders (me_maxreaders info)] else [])
     @ (if me_mapsize info \<noteq> 0 then [C_set_mapsize (me_mapsize info)] else [])
     @ [C_env_open (if me_mapaddr info \<noteq> 0 then o_env opt OR MDB_FIXEDMAP else o_env opt)]"

definition load_calls :: "lopts \<Rightarrow> envinfo \<Rightarrow> u8 list option \<Rightarrow> (mval \<times> mval) list \<Rightarrow> call list" where
  "load_calls opt info name kvs =
     env_calls opt info
     @ [C_txn_begin, C_open name MDB_CREATE, C_cursor_open] @ put_calls (o_put opt) 0 kvs @ [C_commit, C_dbi_close]
     @ [C_txn_begin, C_open name MDB_CREATE, C_cursor_open] @ [C_commit, C_dbi_close] @ [C_env_close]"

lemma open_db_ok:
  "lib_ok lib \<Longrightarrow> \<not> o_append opt \<Longrightarrow> l_flags st = 0 \<Longrightarrow>
    open_db lib opt st s = Inr (run lib [C_txn_begin, C_open (l_subname st) MDB_CREATE, C_cursor_open] s)"
  by (simp add: open_db_def lib_ok_fst split_def)

text \<open>The end of the input: one more, empty database is opened under the last name.\<close>

lemma load_dbs_end:
  assumes "lib_ok lib" "\<not> o_append opt" "l_mode (g_ld g) AND NOHDR = 0" "l_inp (g_ld g) = []" "\<not> l_Eof (g_ld g)"
  shows "load_dbs lib al scan_p opt k0 False g = Some (Some (0,
    run lib ([C_txn_begin, C_open (l_subname (g_ld g)) MDB_CREATE, C_cursor_open] @ [C_commit, C_dbi_close] @ [C_env_close]) (g_db g)))"
proof -
  define st where "st = (g_ld g)\<lparr>l_flags := 0\<rparr>"
  have st: "l_flags st = 0" "l_inp st = []" "l_mode st AND NOHDR = 0" "l_subname st = l_subname (g_ld g)"
    using assms(3,4) by (simp_all add: st_def)
  have "hdr_loop scan_p st b sz = Some (Hdr_end st b)" for b sz
    using st(2) by (subst hdr_loop.simps) (simp add: fgets_def)
  moreover have "st\<lparr>l_flags := 0\<rparr> = st" by (simp add: st_def)
  ultimately have h: "next_header scan_p False g = Some (Some (g\<lparr>g_ld := st\<rparr>))"
    using st(3) by (simp add: next_header_def st_def [symmetric] readhdr_def Let_def)
  define s1 where "s1 = run lib [C_txn_begin, C_open (l_subname (g_ld g)) MDB_CREATE, C_cursor_open] (g_db g)"
  have o: "open_db lib opt st (g_db g) = Inr s1"
    using open_db_ok [OF assms(1,2) st(1)] st(4) by (simp add: s1_def)
  have l: "load_loop lib al opt k0 0 (g\<lparr>g_ld := st, g_pk := 0, g_db := s1\<rparr>)
      = Some (Out_end, g\<lparr>g_ld := st\<lparr>l_Eof := True\<rparr>, g_pk := 0, g_db := s1\<rparr>)"
    using readline_end [OF st(3,2)] by (subst load_loop.simps) simp
  have "load_dbs lib al scan_p opt k0 False g
      = load_dbs lib al scan_p opt k0 False (g\<lparr>g_ld := st\<lparr>l_Eof := True\<rparr>, g_pk := 0, g_db := run lib [C_commit, C_dbi_close] s1\<rparr>)"
    unfolding load_dbs.simps [of lib al scan_p opt k0 False g] h option.case
    using assms(5) lib_ok_fst [OF assms(1)] by (simp add: o l split_def)
  also have "\<dots> = Some (Some (0, run lib [C_env_close] (run lib [C_commit, C_dbi_close] s1)))"
    by (subst load_dbs.simps) (simp add: leave_def)
  finally show ?thesis by (simp add: s1_def)
qed

lemma load_dbs_dump:
  assumes "lib_ok lib" "\<not> o_append opt" "l_mode (g_ld g) AND NOHDR = 0" "mode AND PRINT = l_mode (g_ld g) AND PRINT"
    "l_inp (g_ld g) = records mode kvs @ str ''DATA=END'' @ [NL]" "\<forall>n \<le> 2 * length (records mode kvs). ma_ok al n"
    "lbuf_ok (g_k g)" "lbuf_ok (g_d g)" "9 \<le> b_size (g_k g)" "\<not> l_Eof (g_ld g)"
  shows "load_dbs lib al scan_p opt k0 True g = Some (Some (0,
    run lib ([C_txn_begin, C_open (l_subname (g_ld g)) MDB_CREATE, C_cursor_open] @ put_calls (o_put opt) 0 kvs @ [C_commit, C_dbi_close]
      @ [C_txn_begin, C_open (l_subname (g_ld g)) MDB_CREATE, C_cursor_open] @ [C_commit, C_dbi_close] @ [C_env_close]) (g_db g)))"
proof -
  define st where "st = (g_ld g)\<lparr>l_flags := 0\<rparr>"
  have h: "next_header scan_p True g = Some (Some (g\<lparr>g_ld := st\<rparr>))" by (simp add: next_header_def st_def)
  define s1 where "s1 = run lib [C_txn_begin, C_open (l_subname (g_ld g)) MDB_CREATE, C_cursor_open] (g_db g)"
  have o: "open_db lib opt st (g_db g) = Inr s1" using open_db_ok [OF assms(1,2), of st] by (simp add: st_def s1_def)
  define g1 where "g1 = g\<lparr>g_ld := st, g_pk := 0, g_db := s1\<rparr>"
  have "\<exists>m kb db. load_loop lib al opt k0 0 g1
      = Some (Out_end, g1\<lparr>g_ld := (g_ld g1)\<lparr>l_inp := [], l_lineno := m\<rparr>, g_k := kb, g_d := db,
                        g_db := run lib (put_calls (o_put opt) 0 kvs) (g_db g1)\<rparr>)
    \<and> lbuf_ok kb \<and> lbuf_ok db \<and> 9 \<le> b_size kb \<and> b_size (g_d g1) \<le> b_size db"
    using assms by (intro load_loop_records [where mode = mode]) (simp_all add: g1_def st_def)
  then obtain m kb db where l: "load_loop lib al opt k0 0 g1
      = Some (Out_end, g1\<lparr>g_ld := (g_ld g1)\<lparr>l_inp := [], l_lineno := m\<rparr>, g_k := kb, g_d := db,
                        g_db := run lib (put_calls (o_put opt) 0 kvs) (g_db g1)\<rparr>)" by blast
  define g2 where "g2 = g1\<lparr>g_ld := (g_ld g1)\<lparr>l_inp := [], l_lineno := m\<rparr>, g_k := kb, g_d := db,
                        g_db := run lib (put_calls (o_put opt) 0 kvs @ [C_commit, C_dbi_close]) (g_db g1)\<rparr>"
  have "load_dbs lib al scan_p opt k0 True g = load_dbs lib al scan_p opt k0 False g2"
    unfolding load_dbs.simps [of lib al scan_p opt k0 True g] h option.case
    using assms(10) lib_ok_fst [OF assms(1)] by (simp add: o l [unfolded g1_def] g1_def g2_def split_def)
  moreover have "l_mode (g_ld g2) AND NOHDR = 0" "l_inp (g_ld g2) = []" "\<not> l_Eof (g_ld g2)"
    "l_subname (g_ld g2) = l_subname (g_ld g)" "g_db g1 = s1"
    using assms(3,10) by (simp_all add: g2_def g1_def st_def)
  ultimately show ?thesis using load_dbs_end [OF assms(1,2), of g2] by (simp add: g2_def s1_def)
qed

lemma load_main_env:
  assumes "lib_ok lib" "l_mode st AND NOHDR = 0"
    "readhdr scan_p \<lparr>l_inp = inp, l_lineno = 0, l_version = 0, l_flags = 0, l_mode = o_mode opt, l_Eof = False,
       l_subname = o_subname opt, l_info = \<lparr>me_mapaddr = 0, me_mapsize = 0, me_maxreaders = 0\<rparr>\<rparr>
       \<lparr>b_mem = replicate 4096 (ma_junk al), b_size = 4096\<rparr> = Some (Some (st, db))" "o_mode opt AND NOHDR = 0"
  shows "load_main lib al scan_p maxkey opt inp s =
    load_dbs lib al scan_p opt (maxkey * 2 + 2) True
      \<lparr>g_ld = st, g_k = \<lparr>b_mem = replicate ((maxkey * 2 + 2) * 2) (ma_junk al), b_size = maxkey * 2 + 2\<rparr>, g_d = db,
       g_pk = 0, g_db = run lib (env_calls opt (l_info st)) s\<rparr>"
  using assms(4) lib_ok_fst [OF assms(1)] by (simp add: load_main_def assms(3) env_calls_def split_def Let_def)

text \<open>The database that is loaded: the name in the header, and without one the argument of the option \<open>-s\<close>,
  or the main database.\<close>

definition target_name :: "lopts \<Rightarrow> u8 list option \<Rightarrow> u8 list option" where
  "target_name opt name = (case name of None \<Rightarrow> o_subname opt | Some n \<Rightarrow> Some n)"

lemma load_main_dumped:
  assumes "lib_ok lib" "\<not> o_append opt" "o_mode opt = 0" "dumpable scan_p fmt_p 4096 name psize info" "4 \<le> maxkey"
    "\<And>i. \<not> sig i" "fin \<noteq> 0"
    "inp = snd (dumpit fmt_p mode sig name (Inr flags) (Inr psize) (Inr info) 0 kvs fin)"
    "\<forall>n \<le> 2 * length inp. ma_ok al n"
  shows "load_main lib al scan_p maxkey opt inp s = Some (Some (0, run lib (load_calls opt info (target_name opt name) kvs) s))"
proof -
  let ?hdr = "dump_header fmt_p mode name flags psize info" and ?data = "records mode kvs @ str ''DATA=END'' @ [NL]"
  have inp: "inp = ?hdr @ ?data"
    using assms(8) dump_loop_records [of sig fin mode 0 kvs] assms(6,7) by (simp add: dumpit_def Let_def)
  define st0 where "st0 = \<lparr>l_inp = inp, l_lineno = 0, l_version = 0, l_flags = 0, l_mode = o_mode opt, l_Eof = False,
       l_subname = o_subname opt, l_info = \<lparr>me_mapaddr = 0, me_mapsize = 0, me_maxreaders = 0\<rparr>\<rparr>"
  define db0 where "db0 = \<lparr>b_mem = replicate 4096 (ma_junk al), b_size = 4096\<rparr>"
  have sz: "b_size db0 = 4096" by (simp only: db0_def lbuf.select_convs)
  have "dumpable scan_p fmt_p (b_size db0) name psize info" using assms(4) sz by simp
  moreover have "lbuf_ok db0" unfolding lbuf_ok_def db0_def lbuf.select_convs length_replicate by simp
  moreover have "l_inp st0 = ?hdr @ ?data" using inp by (simp add: st0_def)
  ultimately obtain m db where r: "readhdr scan_p st0 db0
      = Some (Some ((header_state mode name flags info st0)\<lparr>l_inp := ?data, l_lineno := m\<rparr>, db))"
    "lbuf_ok db" "b_size db = b_size db0" using readhdr_dumped by blast
  define st where "st = (header_state mode name flags info st0)\<lparr>l_inp := ?data, l_lineno := m\<rparr>"
  have st: "l_mode st = (if mode AND PRINT \<noteq> 0 then PRINT else 0)" "l_subname st = target_name opt name" "\<not> l_Eof st"
    "l_inp st = ?data" "l_info st = info"
    using assms(3) by (simp_all add: st_def header_state_def st0_def target_name_def split: option.split)
  have md: "l_mode st AND NOHDR = 0" "mode AND PRINT = l_mode st AND PRINT"
  proof -
    have "mode AND PRINT = 0 \<or> mode AND PRINT = PRINT"
    proof -
      have "mode AND 1 = of_bool (odd mode)" by (simp add: and_one_eq mod_2_eq_odd)
      then show ?thesis by (simp add: PRINT_def)
    qed
    then show "mode AND PRINT = l_mode st AND PRINT" by (auto simp: st)
    show "l_mode st AND NOHDR = 0" by (simp add: st NOHDR_def PRINT_def)
  qed
  have mem: "\<forall>n \<le> 2 * length (records mode kvs). ma_ok al n"
    using assms(9) by (simp add: inp)
  let ?g = "\<lparr>g_ld = st, g_k = \<lparr>b_mem = replicate ((maxkey * 2 + 2) * 2) (ma_junk al), b_size = maxkey * 2 + 2\<rparr>, g_d = db,
     g_pk = 0, g_db = run lib (env_calls opt info) s\<rparr>"
  have nohdr: "o_mode opt AND NOHDR = 0" by (simp add: assms(3))
  have "load_main lib al scan_p maxkey opt inp s = load_dbs lib al scan_p opt (maxkey * 2 + 2) True ?g"
    by (rule load_main_env [OF assms(1) md(1) r(1) [folded st_def, unfolded st0_def db0_def] nohdr, unfolded st(5)])
  also have "\<dots> = Some (Some (0, run lib (load_calls opt info (target_name opt name) kvs) s))"
  proof -
    define g where "g = ?g"
    have g: "g_ld g = st" "g_d g = db" "g_db g = run lib (env_calls opt info) s" "b_size (g_k g) = maxkey * 2 + 2"
      "length (b_mem (g_k g)) = (maxkey * 2 + 2) * 2"
      by (simp_all only: g_def load.select_convs lbuf.select_convs length_replicate)
    have "lbuf_ok (g_k g)" "9 \<le> b_size (g_k g)" using assms(5) by (simp_all add: lbuf_ok_def g)
    moreover have "l_mode (g_ld g) AND NOHDR = 0" "mode AND PRINT = l_mode (g_ld g) AND PRINT" "l_inp (g_ld g) = ?data"
      "lbuf_ok (g_d g)" "\<not> l_Eof (g_ld g)"
      unfolding g by (fact md st r(2))+
    ultimately have "load_dbs lib al scan_p opt (maxkey * 2 + 2) True g = Some (Some (0,
      run lib ([C_txn_begin, C_open (l_subname (g_ld g)) MDB_CREATE, C_cursor_open] @ put_calls (o_put opt) 0 kvs @ [C_commit, C_dbi_close]
      @ [C_txn_begin, C_open (l_subname (g_ld g)) MDB_CREATE, C_cursor_open] @ [C_commit, C_dbi_close] @ [C_env_close]) (g_db g)))"
      using load_dbs_dump [OF assms(1,2)] mem by blast
    then have "load_dbs lib al scan_p opt (maxkey * 2 + 2) True g = Some (Some (0, run lib (load_calls opt info (target_name opt name) kvs) s))"
      unfolding g st(2) by (simp add: load_calls_def)
    then show ?thesis by (simp only: g_def)
  qed
  finally show ?thesis .
qed

section \<open>Properties\<close>

text \<open>C37: A value that \<open>mdb_dump\<close> prints, in either format, is what \<open>readline\<close> of \<open>mdb_load\<close> reads back,
  whatever bytes it holds and however long it is: the buffer grows as needed, the memory granted up to
  twice the length of the line, and the input is left at the next line.\<close>

theorem readline_roundtrip:
  assumes "lbuf_ok buf" "l_mode st AND NOHDR = 0" "mode AND PRINT = l_mode st AND PRINT"
    "l_inp st = dump_val mode v @ rest" "\<forall>n \<le> 2 * length (dump_val mode v). ma_ok al n"
  shows "\<exists>buf'. readline al st buf = Some (Some v, st\<lparr>l_inp := rest, l_lineno := l_lineno st + 1\<rparr>, buf') \<and> lbuf_ok buf'"
  using readline_value [OF assms] by blast

definition ex_ld :: "u8 list \<Rightarrow> u32 \<Rightarrow> lstate" where
  "ex_ld inp mode = \<lparr>l_inp = inp, l_lineno = 7, l_version = 3, l_flags = 0, l_mode = mode, l_Eof = False, l_subname = None,
     l_info = \<lparr>me_mapaddr = 0, me_mapsize = 0, me_maxreaders = 0\<rparr>\<rparr>"

lemma readline_roundtrip_witness:
  "\<exists>buf'. readline \<lparr>ma_ok = (\<lambda>n. n < 100), ma_junk = 0xAA\<rparr> (ex_ld (dump_val PRINT [0x61, 0x5c, 0, 0xff] @ [0x20]) PRINT)
      \<lparr>b_mem = [1, 2, 3], b_size = 3\<rparr>
    = Some (Some [0x61, 0x5c, 0, 0xff],
        (ex_ld (dump_val PRINT [0x61, 0x5c, 0, 0xff] @ [0x20]) PRINT)\<lparr>l_inp := [0x20], l_lineno := 8\<rparr>, buf') \<and> lbuf_ok buf'"
proof -
  let ?v = "[0x61, 0x5c, 0, 0xff] :: u8 list"
  have l: "length (dump_val PRINT ?v) = 11"
    by (simp add: dump_val_def PRINT_def dump_text_def text_char_def c_isprint_def hex_def)
  show ?thesis
    using readline_roundtrip [of "\<lparr>b_mem = [1, 2, 3], b_size = 3\<rparr>" "ex_ld (dump_val PRINT ?v @ [0x20]) PRINT" PRINT ?v
        "[0x20]" "\<lparr>ma_ok = (\<lambda>n. n < 100), ma_junk = 0xAA\<rparr>"] l
    by (simp add: lbuf_ok_def ex_ld_def NOHDR_def PRINT_def)
qed

text \<open>C39: The header that \<open>mdb_dump\<close> prints is read back by \<open>readhdr\<close>: version, format, name, flags, map
  size, map address and number of readers, and the input is left at the first record.\<close>

theorem readhdr_roundtrip:
  assumes "dumpable scan_p fmt_p (b_size buf) name psize info" "lbuf_ok buf"
    "l_inp st = dump_header fmt_p mode name flags psize info @ rest"
  shows "\<exists>m buf'. readhdr scan_p st buf
      = Some (Some ((header_state mode name flags info st)\<lparr>l_inp := rest, l_lineno := m\<rparr>, buf'))
    \<and> lbuf_ok buf' \<and> b_size buf' = b_size buf"
  by (rule readhdr_dumped [OF assms])

lemma readhdr_roundtrip_witness:
  "\<exists>m buf'. readhdr (\<lambda>_. None) (ex_ld (dump_header (\<lambda>_. []) 1 (Some [0x64, 0x62]) 6 4096
        \<lparr>me_mapaddr = 0, me_mapsize = 1048576, me_maxreaders = 126\<rparr> @ [0x20]) 0) \<lparr>b_mem = replicate 70 9, b_size = 64\<rparr>
      = Some (Some ((header_state 1 (Some [0x64, 0x62]) 6 \<lparr>me_mapaddr = 0, me_mapsize = 1048576, me_maxreaders = 126\<rparr>
          (ex_ld (dump_header (\<lambda>_. []) 1 (Some [0x64, 0x62]) 6 4096
             \<lparr>me_mapaddr = 0, me_mapsize = 1048576, me_maxreaders = 126\<rparr> @ [0x20]) 0))\<lparr>l_inp := [0x20], l_lineno := m\<rparr>, buf'))
    \<and> lbuf_ok buf' \<and> b_size buf' = 64"
  using readhdr_roundtrip [of "\<lambda>_. None" "\<lambda>_. []" "\<lparr>b_mem = replicate 70 9, b_size = 64\<rparr>" "Some [0x64, 0x62]" 4096
      "\<lparr>me_mapaddr = 0, me_mapsize = 1048576, me_maxreaders = 126\<rparr>"
      "ex_ld (dump_header (\<lambda>_. []) 1 (Some [0x64, 0x62]) 6 4096 \<lparr>me_mapaddr = 0, me_mapsize = 1048576, me_maxreaders = 126\<rparr> @ [0x20]) 0"
      1 6 "[0x20]"]
  by (simp add: dumpable_def lbuf_ok_def ex_ld_def)

text \<open>C40: Loading one dump, of the main or of a named database, makes the calls that store its records, in
  their order, in transactions of a hundred, and answers success. The hypotheses: every call of the library
  answers 0 (\<open>lib_ok\<close>); the program is run without \<open>-a\<close> and without \<open>-T\<close>; the name and the addresses of the
  header fit its lines of 4096 bytes (\<open>dumpable\<close>); the dump was not interrupted by a signal and ended at
  the end of its cursor; memory for the growing line buffers is granted up to twice the input. The
  records go to the database the header names, else to the one of \<open>-s\<close>, else to the main one, and it is
  always opened with \<open>MDB_CREATE\<close> alone: the flags of the dumped database, which the header holds, are not
  used.\<close>

theorem load_main_roundtrip:
  assumes "lib_ok lib" "\<not> o_append opt" "o_mode opt = 0" "dumpable scan_p fmt_p 4096 name psize info" "4 \<le> maxkey"
    "\<And>i. \<not> sig i" "fin \<noteq> 0"
    "inp = snd (dumpit fmt_p mode sig name (Inr flags) (Inr psize) (Inr info) 0 kvs fin)"
    "\<forall>n \<le> 2 * length inp. ma_ok al n"
  shows "load_main lib al scan_p maxkey opt inp s = Some (Some (0, run lib (load_calls opt info (target_name opt name) kvs) s))"
  by (rule load_main_dumped [OF assms])

lemma load_main_roundtrip_witness:
  "load_main (\<lambda>c tr. (0, tr @ [c])) \<lparr>ma_ok = (\<lambda>n. True), ma_junk = 0\<rparr> (\<lambda>_. None) 511 lopts0
     (snd (dumpit (\<lambda>_. []) 0 (\<lambda>_. False) (Some [0x64]) (Inr 4) (Inr 4096)
        (Inr \<lparr>me_mapaddr = 0, me_mapsize = 4096, me_maxreaders = 5\<rparr>) 0 [([1], [2, 3])] (- 30798))) []
   = Some (Some (0, [C_env_create, C_set_maxdbs 2, C_set_maxreaders 5, C_set_mapsize 4096, C_env_open 0x10000,
       C_txn_begin, C_open (Some [0x64]) 0x40000, C_cursor_open, C_put [1] [2, 3] 0, C_commit, C_dbi_close,
       C_txn_begin, C_open (Some [0x64]) 0x40000, C_cursor_open, C_commit, C_dbi_close, C_env_close]))"
proof -
  have "lib_ok (\<lambda>c tr. (0, tr @ [c]))" by (simp add: lib_ok_def)
  from load_main_roundtrip [OF this, of lopts0 "\<lambda>_. None" "\<lambda>_. []" "Some [0x64]" 4096 "\<lparr>me_mapaddr = 0, me_mapsize = 4096, me_maxreaders = 5\<rparr>"
      511 "\<lambda>_. False" "- 30798" _ 0 4 "[([1], [2, 3])]" "\<lparr>ma_ok = (\<lambda>n. True), ma_junk = 0\<rparr>" "[]", OF _ _ _ _ _ _ refl]
  show ?thesis
    by (simp add: lopts0_def dumpable_def target_name_def load_calls_def env_calls_def MDB_NOSYNC_def MDB_CREATE_def)
qed

end
