(* ===== verification/Spec2Isabelle.thy ===== *)
theory Spec2Isabelle
  imports Prelude Md_Hash Sm3 Sm3_Sample Sha1 Sha256 Md5 Sm4 Sm4_Crypto Midl Midl_Sort Mid2l Mdb_Dirty
    Mdb_Cmp Mdb_Page Mdb_Node Mdb_Split Mdb_Leaf2 Mdb_Search Mdb_Cursor Mdb_Tree Mdb_Cursor_Wf Mdb_Meta Mdb_Readers Mdb_Alloc Mdb_Update Mdb_Touch Mdb_Dbi Feature_Db
    Feature_Load Text_Format Mdb_Dump Mdb_Load Mdb_Load_Main Mdb_Load_Proofs
begin

text \<open>
  Verification of the C core of Defender, a Windows endpoint-protection agent.

  \<^bold>\<open>The program.\<close> The agent computes digests of files and of messages (\<open>Common/sm3.c\<close>, \<open>sha1.c\<close>,
  \<open>sha256.c\<close>, \<open>md5ex.cpp\<close>), encrypts what it stores (\<open>Common/sm4.c\<close>, wrapped by \<open>SM4Crypto.cpp\<close>), and keeps its feature
  database in LMDB (\<open>lmdb/\<close>), whose tools write a database as text and read it back (\<open>mdb_dump.c\<close>,
  \<open>mdb_load.c\<close>). \<open>FileScanControl/FeatureDB.cpp\<close> puts these together: it hashes a file and looks the
  digest up in an LMDB database, which it fills from files of encrypted records. The rest of the agent is glue to Windows services (firewall, event log,
  clipboard, message passing).

  \<^bold>\<open>Platform and conventions.\<close> The model is the 64-bit Windows build: \<open>int\<close> and \<open>long\<close> have 32 bits,
  \<open>size_t\<close> has 64, words are little-endian. Machine integers are words of their width where they can wrap;
  positions inside a page or a buffer are \<open>nat\<close> where the code has checked their range. A C array is a list;
  every access is checked and an access outside it, a null dereference or a failed \<open>mdb_cassert\<close> is
  \<open>None\<close>, so a result \<open>Some\<close> also says that the routine is memory safe on that input. A return code is an
  \<open>int\<close>. What the code gets from outside (\<open>malloc\<close> and \<open>realloc\<close>, the answers of the LMDB library to its
  tools, \<open>sscanf\<close> of a pointer) is an argument of the definitions.

  \<^bold>\<open>The theories.\<close>
  \<^item> \<open>Prelude\<close>: word types, checked arrays, \<open>blit\<close> (\<open>memcpy\<close>), byte order, shared lemmas.
  \<^item> \<open>Md_Hash\<close>: the interface of a Merkle-Damgaard hash with a 64-byte block buffer (locales
    \<open>stream_hash\<close>, \<open>md_module\<close> and \<open>hmac_hash\<close>), in which streaming, padding and HMAC are proved once; interpreted by
    \<open>Sm3\<close>, \<open>Sha1\<close> and \<open>Sha256\<close> on the functions of \<open>sm3.c\<close>, \<open>sha1.c\<close> and \<open>sha256.c\<close>. Each has
    the context as a record, one definition per function, the compression function as the standard writes it,
    and the equivalence of the two. \<open>Md5\<close>: \<open>md5ex.cpp\<close> with its 64 steps as a list; it counts bits and is
    little-endian, so it interprets \<open>stream_hash\<close> only. \<open>Sm3_Sample\<close> evaluates the first sample of the SM3 standard.
  \<^item> \<open>Sm4\<close>: \<open>sm4.c\<close> with its tables, equal to the round function of the standard, and decryption as the
    inverse of encryption. \<open>Sm4_Crypto\<close>: the sector functions of \<open>SM4Crypto.cpp\<close> over one memory that
    holds both buffers, so that in-place use is covered.
  \<^item> \<open>Midl\<close>, \<open>Midl_Sort\<close>, \<open>Mid2l\<close>: the ID lists of \<open>midl.c\<close>: binary search, growth, append, merge,
    quicksort with its explicit stack, and lists of (ID, pointer) pairs; \<open>mdb_pid_insert\<close> of \<open>mdb.c\<close>
    shares the search.
  \<^item> \<open>Mdb_Dirty\<close>: where a page of a transaction is: the dirty lists, spill lists and the map
    (\<open>mdb_page_get\<close>, \<open>mdb_page_dirty\<close>, \<open>mdb_page_loose\<close>).
  \<^item> \<open>Mdb_Cmp\<close>: the key comparison functions and their choice by the flags of a database.
  \<^item> \<open>Mdb_Page\<close>, \<open>Mdb_Node\<close>: a page as its bytes: headers, nodes, the sizes of nodes, adding and deleting
    a node, with the invariant \<open>page_wf\<close> of the layout and the abstraction of a page to its list of nodes.
  \<^item> \<open>Mdb_Split\<close>, \<open>Mdb_Leaf2\<close>: what \<open>mdb_page_split\<close> does to the nodes of the page it divides: the temporary
    copy, the choice of the split point, the separator and the loop that builds the two pages, on \<open>mdb_node_add\<close>; and
    its branch for pages of keys of one size. A theorem says where the unchecked split point fails.
  \<^item> \<open>Mdb_Search\<close>: \<open>mdb_node_search\<close>, proved in the locale of a comparison function that is a total
    preorder, interpreted for every comparison function of the library.
  \<^item> \<open>Mdb_Cursor\<close>, \<open>Mdb_Tree\<close>: cursors that read: the page stack, descent, siblings, and the operations of
    \<open>mdb_cursor_get\<close> and \<open>mdb_get\<close>; then the refinement of an abstract tree of pages by the page bytes, with
    \<open>mdb_get\<close> as lookup and a walk of the cursor as the in-order list of the tree. \<open>Mdb_Cursor_Wf\<close>: the type
    invariant of the stack, kept by every operation over pages of any content.
  \<^item> \<open>Mdb_Meta\<close>: the two meta pages as bytes: creating, opening and committing, and the machine of commits,
    failed commits and crashes over one file.
  \<^item> \<open>Mdb_Readers\<close>: the reader table as a machine of interleaved loads and stores of any number of readers
    and a writer, and what protects a reader in every state it reaches.
  \<^item> \<open>Mdb_Alloc\<close>: \<open>mdb_page_alloc\<close>, which puts the others together: the list of free pages (\<open>Midl\<close>), the free
    database read with a cursor (\<open>Mdb_Tree\<close>), the oldest snapshot in use (\<open>Mdb_Readers\<close>), the dirty list
    (\<open>Mdb_Dirty\<close>). Its loop is a partial function that is proved to end on every free database in order.
  \<^item> \<open>Mdb_Update\<close>, \<open>Mdb_Touch\<close>: replacing a key in a branch page and copying a page, and copy on write:
    \<open>mdb_page_touch\<close> over a memory of pages, with the stacks of all cursors of the transaction as addresses.
  \<^item> \<open>Mdb_Dbi\<close>: the table of database handles and the machine of transactions that open, close, export and take
    back handles; opening a name looks its record up with a cursor (\<open>Mdb_Cursor\<close>).
  \<^item> \<open>Feature_Db\<close>: the class \<open>CFeatureDB\<close> of \<open>FeatureDB.cpp\<close>: its initialisation, the digest of a file (\<open>Sm3\<close>,
    \<open>Sha1\<close>, \<open>Sha256\<close>, \<open>Md5\<close>) and its lookup (\<open>Mdb_Dbi\<close>, \<open>Mdb_Tree\<close>).
    \<open>Feature_Load\<close>: filling the database from a file of encrypted records: the reads, the decryption (\<open>Sm4_Crypto\<close>),
    the digest and the calls that store and commit the records; the loop over the reads is a partial function, proved
    to end on every file of a disk.
  \<^item> \<open>Text_Format\<close>, \<open>Mdb_Dump\<close>, \<open>Mdb_Load\<close>, \<open>Mdb_Load_Main\<close>, \<open>Mdb_Load_Proofs\<close>: the text format of the
    tools, the writer, the reader with its growing buffer, the main loop of \<open>mdb_load\<close> over the calls of the
    library, and their round trips.

  \<^bold>\<open>Groups of lemmas.\<close> For the hashes: streaming (any split of the input gives the same digest),
  equivalence with the standard, HMAC as RFC 2104 defines it. For the ciphers: equivalence and round trip. For
  the lists: each routine keeps the list sorted and free of duplicates and does on it what its header says,
  also when memory runs out. For pages and cursors: each routine keeps \<open>page_wf\<close> and refines the operation on
  the list of nodes or on the tree. For the tools: reading back what was written.

  \<^bold>\<open>Bounds and fuel.\<close> No definition uses fuel but the repeated \<open>MDB_NEXT\<close> of the walk theorem, where the
  number of steps is the number of entries. Loops end by measures given in their termination proofs. The page
  stack of a cursor has 32 entries, as \<open>CURSOR_STACK\<close>; the theorems on trees assume a depth below it, since
  the code answers \<open>MDB_CURSOR_FULL\<close> otherwise. The round trip of the loader assumes that the memory function
  grants blocks of up to twice the longest line.

  \<^bold>\<open>Not modelled.\<close> In \<open>mdb.c\<close>: the system calls that open, lock and map files, page spilling, the saving of the free list,
  merging and rebalancing of pages, in \<open>mdb_page_split\<close> the new sibling, the changes in the parent and in other
  cursors and the branch for \<open>MDB_APPEND\<close>, the writing cursor operations above them, sub-cursors of
  \<open>MDB_DUPSORT\<close> databases, and copying an environment. Of the data file the growth by \<open>mdb_env_map\<close> is left
  out, and a torn write of a meta page is assumed to leave a prefix of its bytes. The message texts of the tools. The other C++ parts of the agent
  call Windows APIs (services, firewall COM objects, event log, shared memory, threads) almost line by line and
  have little logic of their own. Everything under \<open>include/\<close> is vendored.
\<close>

end
